(* ===== verification/Prelude.thy ===== *)
theory Prelude
  imports Main "HOL-Library.Word" "HOL-Library.List_Lexorder" "HOL-Library.Monad_Syntax"
begin

text \<open>
  Shared vocabulary of the development.

  \<^item> Rust's \<open>u8\<close> is a word; \<open>u32\<close>, \<open>u64\<close> and \<open>usize\<close> values are natural numbers whose width
    is written out where the source casts or could overflow.
  \<^item> A Rust \<open>str\<close> or \<open>String\<close> is the list of its UTF-8 bytes.
  \<^item> A panic (an out-of-range index, a failed assertion) is \<^term>\<open>None\<close>; an \<open>Err\<close> is
    \<^term>\<open>Inl\<close> of a sum, an \<open>Ok\<close> is \<^term>\<open>Inr\<close>.
  \<^item> A \<open>HashMap\<close> is a map; a \<open>BTreeMap\<close> is an association list kept in ascending key order,
    because the source reads it in that order.
\<close>

named_theorems panic_free \<open>operations that return a value under the invariant\<close>
named_theorems inv_keep \<open>operations that keep the invariant\<close>
named_theorems refines \<open>operations that commute with the abstraction\<close>

type_synonym u8 = "8 word"
type_synonym rstr = "u8 list"

definition bytes :: "string \<Rightarrow> rstr" where
  "bytes s = map of_char s"

text \<open>\<open>n as u8\<close>.\<close>

definition u8_of :: "nat \<Rightarrow> u8" where
  "u8_of n = word_of_nat n"

lemma unat_u8_of [simp]: "unat (u8_of n) = n mod 256"
  by (simp add: u8_of_def unat_of_nat take_bit_eq_mod)

lemma u8_of_unat [simp]: "u8_of (unat b) = b"
  by (simp add: u8_of_def)

section \<open>Checked indexing\<close>

definition nth_opt :: "'a list \<Rightarrow> nat \<Rightarrow> 'a option" where
  "nth_opt xs i = (if i < length xs then Some (xs ! i) else None)"

lemma nth_opt_Some [simp]: "i < length xs \<Longrightarrow> nth_opt xs i = Some (xs ! i)"
  by (simp add: nth_opt_def)

lemma nth_opt_None [simp]: "length xs \<le> i \<Longrightarrow> nth_opt xs i = None"
  by (simp add: nth_opt_def)

lemma nth_opt_eq_Some: "nth_opt xs i = Some x \<longleftrightarrow> i < length xs \<and> xs ! i = x"
  by (auto simp: nth_opt_def)

text \<open>\<open>slice[start..end]\<close>: panics unless \<open>start \<le> end \<le> len\<close>.\<close>

definition slice_opt :: "'a list \<Rightarrow> nat \<Rightarrow> nat \<Rightarrow> 'a list option" where
  "slice_opt xs i j = (if i \<le> j \<and> j \<le> length xs then Some (take (j - i) (drop i xs)) else None)"

text \<open>In-place update of one element; out of range it is a panic.\<close>

definition update_opt :: "'a list \<Rightarrow> nat \<Rightarrow> ('a \<Rightarrow> 'a) \<Rightarrow> 'a list option" where
  "update_opt xs i f = (if i < length xs then Some (xs[i := f (xs ! i)]) else None)"

lemma update_opt_Some [simp]: "i < length xs \<Longrightarrow> update_opt xs i f = Some (xs[i := f (xs ! i)])"
  by (simp add: update_opt_def)

section \<open>Mapping a fallible function over a list\<close>

fun mapM :: "('a \<Rightarrow> 'b option) \<Rightarrow> 'a list \<Rightarrow> 'b list option" where
  "mapM f [] = Some []"
| "mapM f (x # xs) = do { y \<leftarrow> f x; ys \<leftarrow> mapM f xs; Some (y # ys) }"

lemma mapM_Some: "(\<And>x. x \<in> set xs \<Longrightarrow> f x = Some (g x)) \<Longrightarrow> mapM f xs = Some (map g xs)"
  by (induction xs) auto

lemma mapM_cong [fundef_cong]:
  "xs = ys \<Longrightarrow> (\<And>x. x \<in> set ys \<Longrightarrow> f x = g x) \<Longrightarrow> mapM f xs = mapM g ys"
  by (induction ys arbitrary: xs) auto

lemma mapM_eq_Some_length: "mapM f xs = Some ys \<Longrightarrow> length ys = length xs"
  by (induction xs arbitrary: ys) (auto simp: bind_eq_Some_conv)

section \<open>Folding a fallible step over a list\<close>

fun foldM :: "('s \<Rightarrow> 'a \<Rightarrow> 's option) \<Rightarrow> 's \<Rightarrow> 'a list \<Rightarrow> 's option" where
  "foldM f s [] = Some s"
| "foldM f s (x # xs) = do { s' \<leftarrow> f s x; foldM f s' xs }"

lemma foldM_Some: "(\<And>s x. x \<in> set xs \<Longrightarrow> f s x = Some (g s x)) \<Longrightarrow> foldM f s xs = Some (foldl g s xs)"
  by (induction xs arbitrary: s) auto

lemma foldM_append: "foldM f s (xs @ ys) = do { t \<leftarrow> foldM f s xs; foldM f t ys }"
  by (induction xs arbitrary: s) (auto split: Option.bind_split)

section \<open>Ordered maps as ascending association lists\<close>

fun bt_insert :: "'k::linorder \<Rightarrow> 'v \<Rightarrow> ('k \<times> 'v) list \<Rightarrow> ('k \<times> 'v) list" where
  "bt_insert k v [] = [(k, v)]"
| "bt_insert k v (p # ps) =
     (if k < fst p then (k, v) # p # ps
      else if fst p = k then (k, v) # ps
      else p # bt_insert k v ps)"

definition bt_remove :: "'k \<Rightarrow> ('k \<times> 'v) list \<Rightarrow> ('k \<times> 'v) list" where
  "bt_remove k ps = filter (\<lambda>p. fst p \<noteq> k) ps"

text \<open>\<open>range((Excluded(after), Unbounded))\<close>, or the whole map without a bound.\<close>

definition bt_after :: "'k::linorder option \<Rightarrow> ('k \<times> 'v) list \<Rightarrow> ('k \<times> 'v) list" where
  "bt_after after ps = (case after of None \<Rightarrow> ps | Some k \<Rightarrow> filter (\<lambda>p. k < fst p) ps)"

abbreviation bt_sorted :: "('k::linorder \<times> 'v) list \<Rightarrow> bool" where
  "bt_sorted ps \<equiv> sorted_wrt (<) (map fst ps)"

lemma map_of_bt_insert: "map_of (bt_insert k v ps) = (map_of ps)(k \<mapsto> v)"
  by (induction ps) (auto simp: fun_eq_iff)

lemma set_fst_bt_insert: "fst ` set (bt_insert k v ps) = insert k (fst ` set ps)"
  by (induction ps) auto

lemma bt_sorted_insert: "bt_sorted ps \<Longrightarrow> bt_sorted (bt_insert k v ps)"
proof (induction ps)
  case (Cons p ps)
  have "fst p < x" if "x \<in> fst ` set (bt_insert k v ps)" "\<not> k < fst p" "fst p \<noteq> k" for x
    using that Cons.prems by (auto simp: set_fst_bt_insert)
  with Cons show ?case
    by (auto intro: less_trans)
qed simp

lemma bt_sorted_remove: "bt_sorted ps \<Longrightarrow> bt_sorted (bt_remove k ps)"
  by (induction ps) (auto simp: bt_remove_def)

lemma map_of_bt_remove: "map_of (bt_remove k ps) = (map_of ps)(k := None)"
  by (induction ps) (auto simp: bt_remove_def fun_eq_iff)

section \<open>Lists\<close>

lemma filter_upt_Suc_snoc:
  "filter P [0..<Suc n] = filter P [0..<n] @ (if P n then [n] else [])"
  by simp

lemma filter_upt_cong: "(\<And>i. i < n \<Longrightarrow> P i = Q i) \<Longrightarrow> filter P [0..<n] = filter Q [0..<n]"
  by (rule filter_cong) auto

lemma map_update_same: "i < length xs \<Longrightarrow> f (g (xs ! i)) = f (xs ! i) \<Longrightarrow>
  map f (xs[i := g (xs ! i)]) = map f xs"
  by (simp add: map_update list_update_same_conv)

lemma take_drop_append_left:
  "i + n \<le> length xs \<Longrightarrow> take n (drop i (xs @ ys)) = take n (drop i xs)"
  by simp

lemma map_nth_update_notin: "a \<notin> set xs \<Longrightarrow> map (\<lambda>x. g (l[a := r] ! x)) xs = map (\<lambda>x. g (l ! x)) xs"
  by (induction xs) auto

lemma nth_update_all: "xs[i := y] ! j = (if i = j \<and> i < length xs then y else xs ! j)"
  by (cases "i < length xs") (auto simp: nth_list_update list_update_beyond)

lemma length_filter_update:
  "i < length xs \<Longrightarrow> length (filter P (xs[i := y])) + (if P (xs ! i) then 1 else 0)
     = length (filter P xs) + (if P y then 1 else 0)"
proof (induction xs arbitrary: i)
  case (Cons x xs)
  show ?case
  proof (cases i)
    case (Suc j)
    with Cons.IH [of j] Cons.prems show ?thesis by auto
  qed simp
qed simp

end
