(* ===== verification/Float64.thy ===== *)
theory Float64
  imports Prelude
begin

text \<open>
  Rust's \<open>f64\<close>, as the source uses it: a value is its 64-bit pattern (IEEE 754 binary64), so that
  \<open>to_le_bytes\<close> and \<open>from_le_bytes\<close> are the identity on bits. A finite value is an integer
  multiple of \<open>2 ^ -1074\<close>; \<open>f64_units\<close> is that integer's magnitude, and every operation is
  computed exactly on integers and then rounded to nearest, ties to even. A NaN result is the
  canonical quiet NaN: the language leaves the payload open, and no operation of the source
  looks at it.
\<close>

type_synonym f64 = "64 word"

section \<open>Fields and classes\<close>

definition f64_sign :: "f64 \<Rightarrow> bool" where
  "f64_sign x \<longleftrightarrow> 2 ^ 63 \<le> unat x"

text \<open>The pattern without the sign bit.\<close>

definition f64_mag :: "f64 \<Rightarrow> nat" where
  "f64_mag x = unat x mod 2 ^ 63"

definition f64_exp :: "f64 \<Rightarrow> nat" where
  "f64_exp x = f64_mag x div 2 ^ 52"

definition f64_frac :: "f64 \<Rightarrow> nat" where
  "f64_frac x = f64_mag x mod 2 ^ 52"

definition f64_make :: "bool \<Rightarrow> nat \<Rightarrow> f64" where
  "f64_make s m = word_of_nat ((if s then 2 ^ 63 else 0) + m)"

text \<open>The magnitude of infinity: exponent field 2047, fraction 0.\<close>

definition f64_inf_mag :: nat where
  "f64_inf_mag = 2047 * 2 ^ 52"

definition is_nan :: "f64 \<Rightarrow> bool" where
  "is_nan x \<longleftrightarrow> f64_inf_mag < f64_mag x"

definition is_infinite :: "f64 \<Rightarrow> bool" where
  "is_infinite x \<longleftrightarrow> f64_mag x = f64_inf_mag"

definition is_finite :: "f64 \<Rightarrow> bool" where
  "is_finite x \<longleftrightarrow> f64_mag x < f64_inf_mag"

definition f64_nan :: f64 where "f64_nan = f64_make False (f64_inf_mag + 2 ^ 51)"
definition f64_infinity :: f64 where "f64_infinity = f64_make False f64_inf_mag"
definition f64_max :: f64 where "f64_max = f64_make False (f64_inf_mag - 1)"
definition f64_zero :: f64 where "f64_zero = f64_make False 0"
definition f64_one :: f64 where "f64_one = f64_make False (1023 * 2 ^ 52)"
definition f64_two :: f64 where "f64_two = f64_make False (1024 * 2 ^ 52)"
definition f64_epsilon :: f64 where "f64_epsilon = f64_make False (971 * 2 ^ 52)"

text \<open>The magnitude of a finite value, in units of \<open>2 ^ -1074\<close>, and the signed value.\<close>

definition f64_units :: "f64 \<Rightarrow> nat" where
  "f64_units x = (if f64_exp x = 0 then f64_frac x
                  else (2 ^ 52 + f64_frac x) * 2 ^ (f64_exp x - 1))"

definition f64_val :: "f64 \<Rightarrow> int" where
  "f64_val x = (if f64_sign x then - int (f64_units x) else int (f64_units x))"

section \<open>Rounding\<close>

fun bitlen :: "nat \<Rightarrow> nat" where
  "bitlen n = (if n = 0 then 0 else Suc (bitlen (n div 2)))"

declare bitlen.simps [simp del]

text \<open>
  The magnitude nearest to \<open>n / d\<close> units. With \<open>k\<close> discarded bits the significand \<open>q\<close> has at
  most 53 bits, and \<open>k * 2 ^ 52 + q\<close> is the pattern of \<open>q * 2 ^ k\<close> units: the hidden bit adds one
  to the exponent field, and a carry out of the significand does so once more.
\<close>

definition f64_round_mag :: "nat \<Rightarrow> nat \<Rightarrow> nat" where
  "f64_round_mag n d =
     (let k = bitlen (n div d) - 53;
          m = d * 2 ^ k;
          q = n div m;
          r = n mod m;
          q' = (if m < 2 * r \<or> (m = 2 * r \<and> odd q) then Suc q else q)
      in min (k * 2 ^ 52 + q') f64_inf_mag)"

definition f64_round :: "bool \<Rightarrow> nat \<Rightarrow> nat \<Rightarrow> f64" where
  "f64_round s n d = f64_make s (f64_round_mag n d)"

section \<open>Arithmetic\<close>

definition f64_neg :: "f64 \<Rightarrow> f64" where
  "f64_neg x = f64_make (\<not> f64_sign x) (f64_mag x)"

definition f64_abs :: "f64 \<Rightarrow> f64" where
  "f64_abs x = f64_make False (f64_mag x)"

definition f64_copysign :: "f64 \<Rightarrow> f64 \<Rightarrow> f64" where
  "f64_copysign x y = f64_make (f64_sign y) (f64_mag x)"

definition f64_add :: "f64 \<Rightarrow> f64 \<Rightarrow> f64" where
  "f64_add x y =
     (if is_nan x \<or> is_nan y then f64_nan
      else if is_infinite x then
        (if is_infinite y \<and> f64_sign x \<noteq> f64_sign y then f64_nan else x)
      else if is_infinite y then y
      else let v = f64_val x + f64_val y in
        if v = 0 then f64_make (f64_sign x \<and> f64_sign y) 0
        else f64_round (v < 0) (nat \<bar>v\<bar>) 1)"

definition f64_sub :: "f64 \<Rightarrow> f64 \<Rightarrow> f64" where
  "f64_sub x y = f64_add x (f64_neg y)"

definition f64_mul :: "f64 \<Rightarrow> f64 \<Rightarrow> f64" where
  "f64_mul x y =
     (let s = (f64_sign x \<noteq> f64_sign y) in
      if is_nan x \<or> is_nan y then f64_nan
      else if is_infinite x then
        (if f64_mag y = 0 then f64_nan else f64_make s f64_inf_mag)
      else if is_infinite y then
        (if f64_mag x = 0 then f64_nan else f64_make s f64_inf_mag)
      else f64_round s (f64_units x * f64_units y) (2 ^ 1074))"

definition f64_div :: "f64 \<Rightarrow> f64 \<Rightarrow> f64" where
  "f64_div x y =
     (let s = (f64_sign x \<noteq> f64_sign y) in
      if is_nan x \<or> is_nan y then f64_nan
      else if is_infinite x then (if is_infinite y then f64_nan else f64_make s f64_inf_mag)
      else if is_infinite y then f64_make s 0
      else if f64_mag y = 0 then
        (if f64_mag x = 0 then f64_nan else f64_make s f64_inf_mag)
      else f64_round s (f64_units x * 2 ^ 1074) (f64_units y))"

text \<open>\<open>n as f64\<close> for an unsigned integer.\<close>

definition f64_of_nat :: "nat \<Rightarrow> f64" where
  "f64_of_nat n = f64_round False (n * 2 ^ 1074) 1"

section \<open>Comparison\<close>

definition f64_key :: "f64 \<Rightarrow> int" where
  "f64_key x = (if f64_sign x then - int (f64_mag x) else int (f64_mag x))"

definition f64_le :: "f64 \<Rightarrow> f64 \<Rightarrow> bool" where
  "f64_le x y \<longleftrightarrow> \<not> is_nan x \<and> \<not> is_nan y \<and> f64_key x \<le> f64_key y"

definition f64_lt :: "f64 \<Rightarrow> f64 \<Rightarrow> bool" where
  "f64_lt x y \<longleftrightarrow> \<not> is_nan x \<and> \<not> is_nan y \<and> f64_key x < f64_key y"

definition f64_eq :: "f64 \<Rightarrow> f64 \<Rightarrow> bool" where
  "f64_eq x y \<longleftrightarrow> \<not> is_nan x \<and> \<not> is_nan y \<and> f64_key x = f64_key y"

text \<open>\<open>total_cmp\<close>: negative zero sorts below zero, NaNs at the two ends by their sign.\<close>

definition f64_total_key :: "f64 \<Rightarrow> int" where
  "f64_total_key x = (if f64_sign x then - int (f64_mag x) - 1 else int (f64_mag x))"

definition f64_min :: "f64 \<Rightarrow> f64 \<Rightarrow> f64" where
  "f64_min x y = (if is_nan x then y else if is_nan y then x
                  else if f64_key y < f64_key x then y else x)"

text \<open>\<open>f64::clamp\<close> lets a NaN through.\<close>

definition f64_clamp :: "f64 \<Rightarrow> f64 \<Rightarrow> f64 \<Rightarrow> f64" where
  "f64_clamp x lo hi = (if f64_lt x lo then lo else if f64_lt hi x then hi else x)"

section \<open>Laws\<close>

lemma f64_inf_mag_bounds: "0 < f64_inf_mag" "f64_inf_mag < 2 ^ 63" "f64_inf_mag + 2 ^ 51 < 2 ^ 63"
  by (simp_all add: f64_inf_mag_def)

lemma f64_mag_bound: "f64_mag x < 2 ^ 63"
  by (simp add: f64_mag_def)

lemmas f64_mag_bound_num [simp] = f64_mag_bound [simplified]

lemma unat_f64_make: "m < 2 ^ 63 \<Longrightarrow> unat (f64_make s m) = (if s then 2 ^ 63 else 0) + m"
  unfolding f64_make_def unat_of_nat by (simp add: take_bit_nat_eq_self)

lemma f64_sign_make [simp]: "m < 2 ^ 63 \<Longrightarrow> f64_sign (f64_make s m) = s"
  by (simp add: f64_sign_def unat_f64_make)

lemma f64_mag_make [simp]: "m < 2 ^ 63 \<Longrightarrow> f64_mag (f64_make s m) = m"
  by (simp add: f64_mag_def unat_f64_make)

lemma f64_make_fields [simp]: "f64_make (f64_sign x) (f64_mag x) = x"
proof -
  have u: "unat x < 2 * 2 ^ 63" using unsigned_less [of x] by simp
  have "(if (b::nat) \<le> u then b else 0) + u mod b = u" if "u < 2 * b" for u b
    using that by (auto simp: mod_if le_mod_geq)
  from this [OF u] have "(if f64_sign x then 2 ^ 63 else 0) + f64_mag x = unat x"
    unfolding f64_sign_def f64_mag_def .
  then show ?thesis unfolding f64_make_def by simp
qed

lemma f64_eqI: "f64_sign x = f64_sign y \<Longrightarrow> f64_mag x = f64_mag y \<Longrightarrow> x = y"
proof -
  assume "f64_sign x = f64_sign y" "f64_mag x = f64_mag y"
  then have "f64_make (f64_sign x) (f64_mag x) = f64_make (f64_sign y) (f64_mag y)"
    by (simp only:)
  then show "x = y" by simp
qed

lemma f64_class_cases: "is_nan x \<or> is_infinite x \<or> is_finite x"
  unfolding is_nan_def is_infinite_def is_finite_def by arith

lemma f64_finite_not: "is_finite x \<Longrightarrow> \<not> is_nan x \<and> \<not> is_infinite x"
  by (simp add: is_nan_def is_infinite_def is_finite_def)

lemma f64_max_finite [simp]: "is_finite f64_max"
  and f64_zero_finite [simp]: "is_finite f64_zero"
  and f64_one_finite [simp]: "is_finite f64_one"
  by (simp_all add: is_finite_def f64_max_def f64_zero_def f64_one_def f64_inf_mag_def)

lemma f64_round_mag_le: "f64_round_mag n d \<le> f64_inf_mag"
  by (simp add: f64_round_mag_def Let_def)

lemma f64_round_mag_bound: "f64_round_mag n d < 2 ^ 63"
  using f64_round_mag_le f64_inf_mag_bounds(2) by (rule le_less_trans)

lemmas f64_round_mag_bound_num [simp] = f64_round_mag_bound [simplified]

lemma f64_mag_round [simp]: "f64_mag (f64_round s n d) = f64_round_mag n d"
  by (simp add: f64_round_def)

lemma f64_round_not_nan [simp]: "\<not> is_nan (f64_round s n d)"
  using f64_round_mag_le [of n d] by (simp add: is_nan_def not_less)

lemma f64_sign_round [simp]: "f64_sign (f64_round s n d) = s"
  by (simp add: f64_round_def)

lemma f64_make_0_finite [simp]: "is_finite (f64_make s 0)"
  using f64_inf_mag_bounds(1) by (simp add: is_finite_def)

lemma is_finite_neg [simp]: "is_finite (f64_neg x) = is_finite x"
  by (simp add: is_finite_def f64_neg_def)

lemma is_finite_abs [simp]: "is_finite (f64_abs x) = is_finite x"
  by (simp add: is_finite_def f64_abs_def)

lemma is_finite_copysign [simp]: "is_finite (f64_copysign x y) = is_finite x"
  by (simp add: is_finite_def f64_copysign_def)

text \<open>Two finite values never sum to a NaN; the sum can only overflow to an infinity.\<close>

lemma f64_add_finite_not_nan:
  assumes "is_finite x" "is_finite y" shows "\<not> is_nan (f64_add x y)"
  using assms [THEN f64_finite_not]
  by (simp add: f64_add_def Let_def f64_finite_not [OF f64_make_0_finite])

end
