(* ===== verification/Utf8.thy ===== *)
theory Utf8
  imports Prelude
begin

text \<open>
  UTF-8 as the standard library's \<open>str::from_utf8\<close>, \<open>str::chars\<close> and \<open>String::push\<close> treat it: a
  decoder that accepts exactly the well-formed sequences (no overlong forms, no surrogates,
  nothing above \<open>U+10FFFF\<close>) and the encoder of one scalar value.
\<close>

definition u8_in :: "nat \<Rightarrow> nat \<Rightarrow> u8 \<Rightarrow> bool" where
  "u8_in lo hi b \<longleftrightarrow> lo \<le> unat b \<and> unat b \<le> hi"

abbreviation utf8_cont :: "u8 \<Rightarrow> bool" where
  "utf8_cont \<equiv> u8_in 128 191"

text \<open>One scalar value off the front, with the rest of the bytes.\<close>

fun utf8_step :: "u8 list \<Rightarrow> (nat \<times> u8 list) option" where
  "utf8_step [] = None"
| "utf8_step (a # bs) =
     (if u8_in 0 127 a then Some (unat a, bs)
      else if u8_in 194 223 a then
        (case bs of b # rest \<Rightarrow>
           (if utf8_cont b then Some ((unat a - 192) * 64 + (unat b - 128), rest) else None)
         | _ \<Rightarrow> None)
      else if u8_in 224 239 a then
        (case bs of b # c # rest \<Rightarrow>
           (if (if unat a = 224 then u8_in 160 191 b
                else if unat a = 237 then u8_in 128 159 b else utf8_cont b) \<and> utf8_cont c
            then Some ((unat a - 224) * 4096 + (unat b - 128) * 64 + (unat c - 128), rest)
            else None)
         | _ \<Rightarrow> None)
      else if u8_in 240 244 a then
        (case bs of b # c # d # rest \<Rightarrow>
           (if (if unat a = 240 then u8_in 144 191 b
                else if unat a = 244 then u8_in 128 143 b else utf8_cont b)
               \<and> utf8_cont c \<and> utf8_cont d
            then Some ((unat a - 240) * 262144 + (unat b - 128) * 4096
                       + (unat c - 128) * 64 + (unat d - 128), rest)
            else None)
         | _ \<Rightarrow> None)
      else None)"

lemma utf8_step_shorter: "utf8_step bs = Some (c, rest) \<Longrightarrow> length rest < length bs"
  by (cases bs) (auto split: if_splits list.splits)

function utf8_decode :: "u8 list \<Rightarrow> nat list option" where
  "utf8_decode bs =
     (if bs = [] then Some []
      else case utf8_step bs of None \<Rightarrow> None
           | Some (c, rest) \<Rightarrow> map_option ((#) c) (utf8_decode rest))"
  by pat_completeness auto
termination
  by (relation "measure length") (auto dest: utf8_step_shorter)

declare utf8_decode.simps [simp del]

definition utf8_valid :: "u8 list \<Rightarrow> bool" where
  "utf8_valid bs \<longleftrightarrow> utf8_decode bs \<noteq> None"

text \<open>\<open>str::chars\<close>; a \<open>str\<close> is valid UTF-8 by its type.\<close>

definition chars :: "rstr \<Rightarrow> nat list" where
  "chars s = (case utf8_decode s of None \<Rightarrow> [] | Some cs \<Rightarrow> cs)"

definition utf8_encode1 :: "nat \<Rightarrow> u8 list" where
  "utf8_encode1 c =
     (if c < 128 then [u8_of c]
      else if c < 2048 then [u8_of (192 + c div 64), u8_of (128 + c mod 64)]
      else if c < 65536 then
        [u8_of (224 + c div 4096), u8_of (128 + c div 64 mod 64),
         u8_of (128 + c mod 64)]
      else
        [u8_of (240 + c div 262144), u8_of (128 + c div 4096 mod 64),
         u8_of (128 + c div 64 mod 64), u8_of (128 + c mod 64)])"

definition utf8_encode :: "nat list \<Rightarrow> rstr" where
  "utf8_encode cs = concat (map utf8_encode1 cs)"

text \<open>A Unicode scalar value: what Rust's \<open>char\<close> can hold.\<close>

definition is_scalar :: "nat \<Rightarrow> bool" where
  "is_scalar c \<longleftrightarrow> c < 1114112 \<and> \<not> (55296 \<le> c \<and> c \<le> 57343)"

lemma mod64_le: "(n::nat) mod 64 \<le> 63"
  using mod_less_divisor [of 64 n] by linarith

lemma cont_byte: "(128 + n mod 64) mod 256 = 128 + (n::nat) mod 64"
  using mod64_le [of n] by (intro mod_less) linarith

lemma split64: "(c::nat) = c div 4096 * 4096 + c div 64 mod 64 * 64 + c mod 64"
proof -
  have "c div 64 div 64 = c div 4096" by (simp add: div_mult2_eq [symmetric])
  then show ?thesis using div_mult_mod_eq [of c 64] div_mult_mod_eq [of "c div 64" 64] by linarith
qed

lemma split64_4:
  "(c::nat) = c div 262144 * 262144 + c div 4096 mod 64 * 4096 + c div 64 mod 64 * 64 + c mod 64"
proof -
  have "c div 4096 div 64 = c div 262144" by (simp add: div_mult2_eq [symmetric])
  then show ?thesis using split64 [of c] div_mult_mod_eq [of "c div 4096" 64] by linarith
qed

lemma utf8_step_encode1:
  assumes "is_scalar c" shows "utf8_step (utf8_encode1 c @ rest) = Some (c, rest)"
proof -
  consider "c < 128" | "128 \<le> c" "c < 2048" | "2048 \<le> c" "c < 65536" | "65536 \<le> c" by linarith
  then show ?thesis
  proof cases
    case 3
    have d: "c div 4096 < 16" "c div 64 mod 64 < 64" using 3 by auto
    note s = split64 [of c] and m = mod_less_divisor [of 64 c]
    have "(c div 4096 = 0 \<longrightarrow> 32 \<le> c div 64 mod 64)" using 3 s m by linarith
    moreover have "(c div 4096 = 13 \<longrightarrow> c div 64 mod 64 \<le> 31)"
      using assms 3 s m unfolding is_scalar_def by linarith
    ultimately show ?thesis
      using 3 d s by (auto simp: utf8_encode1_def u8_in_def mod64_le)
  next
    case 4
    have b: "c < 1114112" using assms by (simp add: is_scalar_def)
    note s = split64_4 [of c] and m = mod_less_divisor [of 64 c] mod_less_divisor [of 64 "c div 64"]
    have d: "c div 262144 < 5" using b by simp
    have "(c div 262144 = 0 \<longrightarrow> 16 \<le> c div 4096 mod 64)" using 4 s m by linarith
    moreover have "(c div 262144 = 4 \<longrightarrow> c div 4096 mod 64 \<le> 15)" using b s m by linarith
    ultimately show ?thesis
      using 4 d s by (auto simp: utf8_encode1_def u8_in_def mod64_le cont_byte)
  qed (auto simp: utf8_encode1_def u8_in_def)
qed

lemma utf8_encode1_nonempty: "utf8_encode1 c \<noteq> []"
  by (simp add: utf8_encode1_def)

lemma utf8_decode_encode: "\<forall>c \<in> set cs. is_scalar c \<Longrightarrow> utf8_decode (utf8_encode cs) = Some cs"
proof (induction cs)
  case Nil
  then show ?case by (simp add: utf8_encode_def utf8_decode.simps)
next
  case (Cons c cs)
  then show ?case
    by (simp add: utf8_encode_def utf8_encode1_nonempty utf8_step_encode1
        utf8_decode.simps [of "utf8_encode1 c @ _"])
qed

lemma chars_encode [simp]: "\<forall>c \<in> set cs. is_scalar c \<Longrightarrow> chars (utf8_encode cs) = cs"
  by (simp add: chars_def utf8_decode_encode)

text \<open>ASCII text is its own decoding.\<close>

lemma utf8_decode_ascii: "\<forall>b \<in> set bs. unat b < 128 \<Longrightarrow> utf8_decode bs = Some (map unat bs)"
proof (induction bs)
  case (Cons b bs)
  then have "utf8_step (b # bs) = Some (unat b, bs)" by (simp add: u8_in_def)
  with Cons show ?case by (simp add: utf8_decode.simps [of "b # bs"])
qed (simp add: utf8_decode.simps)

lemma utf8_valid_ascii: "\<forall>b \<in> set bs. unat b < 128 \<Longrightarrow> utf8_valid bs"
  by (simp add: utf8_valid_def utf8_decode_ascii)

end
