(* ===== verification/Context_Base.thy ===== *)
theory Context_Base
  imports Float64 Utf8
begin

text \<open>
  The pure helpers of \<^verbatim>\<open>src/context.rs\<close>: dense ids and their reserved sentinel, the capacity
  tests behind every write, saturating accumulation of weights, clamping, and the
  normalisation both sides of every name comparison go through.
\<close>

section \<open>Ids and capacity\<close>

definition u32_max :: nat where "u32_max = 2 ^ 32 - 1"
definition usize_max :: nat where "usize_max = 2 ^ 64 - 1"

definition NIL :: nat where "NIL = u32_max"

text \<open>\<open>claim_id\<close>: the next dense id, or a panic when the table has no id left.\<close>

definition claim_id :: "nat \<Rightarrow> nat option" where
  "claim_id len = (if len \<le> u32_max \<and> len \<noteq> NIL then Some len else None)"

text \<open>\<open>(NIL as usize).saturating_sub(len) >= needed\<close>; subtraction on \<^typ>\<open>nat\<close> saturates.\<close>

definition ids_left :: "nat \<Rightarrow> nat \<Rightarrow> bool" where
  "ids_left len needed \<longleftrightarrow> needed \<le> NIL - len"

definition checked_add_usize :: "nat \<Rightarrow> nat \<Rightarrow> nat option" where
  "checked_add_usize a b = (if a + b \<le> usize_max then Some (a + b) else None)"

definition arena_fits :: "nat \<Rightarrow> nat \<Rightarrow> bool" where
  "arena_fits len growth =
     (case checked_add_usize len growth of None \<Rightarrow> False | Some e \<Rightarrow> e \<le> u32_max)"

section \<open>Weights\<close>

definition accumulate_saturating :: "f64 \<Rightarrow> f64 \<Rightarrow> f64" where
  "accumulate_saturating acc weight =
     (let acc' = f64_add acc weight
      in if \<not> is_finite acc' then f64_copysign f64_max acc' else acc')"

definition dead_ratio_of :: "nat \<Rightarrow> nat \<Rightarrow> f64" where
  "dead_ratio_of dead_edges total_edges =
     (if total_edges = 0 then f64_zero
      else f64_div (f64_of_nat dead_edges) (f64_of_nat total_edges))"

definition clamp_unit_or :: "f64 \<Rightarrow> f64 \<Rightarrow> f64" where
  "clamp_unit_or v nan_fallback =
     (if is_nan v then nan_fallback else f64_clamp v f64_zero f64_one)"

text \<open>The increment of a \<open>u64\<close> assertion counter, which wraps in a release build.\<close>

definition u64_add :: "nat \<Rightarrow> nat \<Rightarrow> nat" where
  "u64_add a b = (a + b) mod 2 ^ 64"

definition u32_add :: "nat \<Rightarrow> nat \<Rightarrow> nat" where
  "u32_add a b = (a + b) mod 2 ^ 32"

section \<open>Errors\<close>

datatype context_full = ContextFull string

datatype alias_error = UnknownCanonical | Conflict | Full context_full

datatype compaction_error = CompactionFull context_full | CompactionDeadlineExceeded

datatype corrupt_image = CorruptImage string

section \<open>Normalisation\<close>

text \<open>
  The Unicode tables are not part of the repository: the full lowercase mapping of one scalar
  value, and the NFKC form of a text (the \<open>unicode_normalization\<close> crate).
\<close>

record unicode =
  to_lowercase :: "nat \<Rightarrow> nat list"
  nfkc :: "nat list \<Rightarrow> nat list"

definition fold_kana :: "nat \<Rightarrow> nat" where
  "fold_kana ch = (if 0x30A1 \<le> ch \<and> ch \<le> 0x30F6 then ch - 0x60 else ch)"

definition normalize :: "unicode \<Rightarrow> rstr \<Rightarrow> rstr" where
  "normalize U name =
     utf8_encode (map fold_kana
       (concat (map (to_lowercase U) (nfkc U (concat (map (to_lowercase U) (chars name)))))))"

section \<open>Laws\<close>

lemma NIL_eq: "NIL = 4294967295"
  by (simp add: NIL_def u32_max_def)

lemma claim_id_Some [simp]: "n < NIL \<Longrightarrow> claim_id n = Some n"
  by (simp add: claim_id_def NIL_def)

lemma claim_id_eq_Some: "claim_id n = Some i \<longleftrightarrow> i = n \<and> n < NIL"
  by (auto simp: claim_id_def NIL_def)

lemma ids_left_iff: "len \<le> NIL \<Longrightarrow> ids_left len needed \<longleftrightarrow> len + needed \<le> NIL"
  by (auto simp: ids_left_def)

lemma ids_left_1: "ids_left len 1 \<longleftrightarrow> len < NIL"
  by (auto simp: ids_left_def)

lemma arena_fits_iff: "arena_fits len growth \<longleftrightarrow> len + growth \<le> u32_max"
  by (simp add: arena_fits_def checked_add_usize_def u32_max_def usize_max_def)

lemma u64_add_Suc: "n + 1 < 2 ^ 64 \<Longrightarrow> u64_add n 1 = n + 1"
  by (simp add: u64_add_def)

lemma u32_add_Suc: "n + 1 < 2 ^ 32 \<Longrightarrow> u32_add n 1 = n + 1"
  by (simp add: u32_add_def)

lemma accumulate_saturating_finite [simp]: "is_finite (accumulate_saturating s w)"
  by (simp add: accumulate_saturating_def Let_def)

lemma clamp_unit_or_range:
  assumes "is_finite nb" "f64_le f64_zero nb" "f64_le nb f64_one"
  shows "f64_le f64_zero (clamp_unit_or v nb) \<and> f64_le (clamp_unit_or v nb) f64_one"
proof -
  have "f64_le f64_zero f64_one" "f64_le f64_zero f64_zero" "f64_le f64_one f64_one"
    by (simp_all add: f64_le_def is_nan_def f64_key_def f64_zero_def f64_one_def f64_inf_mag_def)
  with assms show ?thesis
    by (auto simp: clamp_unit_or_def f64_clamp_def f64_lt_def f64_le_def)
qed

lemma fold_kana_idem [simp]: "fold_kana (fold_kana c) = fold_kana c"
  by (auto simp: fold_kana_def)

end
