(* ===== verification/Entry_Index.thy ===== *)
theory Entry_Index
  imports Context_Base
begin

text \<open>
  The entry index of \<^verbatim>\<open>src/context/entry_index.rs\<close>: the normalised spellings of one namespace
  in one arena, a span per spelling, and the character-bigram postings over them.
\<close>

record entry_span =
  es_start :: nat
  es_end :: nat
  es_chars :: nat
  es_target :: nat

record entry_index =
  ei_arena :: rstr
  ei_spans :: "entry_span list"
  ei_bigrams :: "nat \<rightharpoonup> nat list"
  ei_posting_entries :: nat

definition ei_default :: entry_index where
  "ei_default = \<lparr>ei_arena = [], ei_spans = [], ei_bigrams = Map.empty, ei_posting_entries = 0\<rparr>"

text \<open>Adjacent character pairs, packed into \<open>u64\<close> keys.\<close>

definition bigrams_of :: "rstr \<Rightarrow> nat list" where
  "bigrams_of text =
     map (\<lambda>(a, b). (a * 2 ^ 32 + b) mod 2 ^ 64) (zip (chars text) (drop 1 (chars text)))"

text \<open>The loop over a spelling's bigrams: each distinct one gets this span appended once.\<close>

fun push_bigrams ::
    "nat \<Rightarrow> nat list \<Rightarrow> nat list \<Rightarrow> (nat \<rightharpoonup> nat list) \<times> nat \<Rightarrow> (nat \<rightharpoonup> nat list) \<times> nat" where
  "push_bigrams span seen [] st = st"
| "push_bigrams span seen (b # bs) (m, n) =
     (if b \<in> set seen then push_bigrams span seen bs (m, n)
      else push_bigrams span (b # seen) bs
             (m(b \<mapsto> (case m b of None \<Rightarrow> [] | Some ps \<Rightarrow> ps) @ [span]), Suc n))"

definition ei_push :: "unicode \<Rightarrow> entry_index \<Rightarrow> rstr \<Rightarrow> nat \<Rightarrow> entry_index option" where
  "ei_push U ix spelling tgt =
     (let normalized = normalize U spelling in
      do {
        span_index \<leftarrow> claim_id (length (ei_spans ix));
        let start = length (ei_arena ix);
        let arena' = ei_arena ix @ normalized;
        let (bg, n) = push_bigrams span_index [] (bigrams_of normalized)
                        (ei_bigrams ix, ei_posting_entries ix);
        Some \<lparr>ei_arena = arena',
              ei_spans = ei_spans ix @ [\<lparr>es_start = start, es_end = length arena',
                           es_chars = length (chars normalized), es_target = tgt\<rparr>],
              ei_bigrams = bg,
              ei_posting_entries = n\<rparr>
      })"

text \<open>The normalised form a span stands for.\<close>

definition span_text :: "entry_index \<Rightarrow> entry_span \<Rightarrow> rstr" where
  "span_text ix s = take (es_end s - es_start s) (drop (es_start s) (ei_arena ix))"

text \<open>The spellings the index holds, as (normalised form, record) pairs in push order.\<close>

definition ei_entries :: "entry_index \<Rightarrow> (rstr \<times> nat) list" where
  "ei_entries ix = map (\<lambda>s. (span_text ix s, es_target s)) (ei_spans ix)"

text \<open>The postings of a bigram: the entries whose form carries it, ascending.\<close>

definition posted :: "(rstr \<times> nat) list \<Rightarrow> nat \<Rightarrow> nat list" where
  "posted ents b = filter (\<lambda>i. b \<in> set (bigrams_of (fst (ents ! i)))) [0..<length ents]"

definition postings_ok :: "entry_index \<Rightarrow> bool" where
  "postings_ok ix \<longleftrightarrow> ei_bigrams ix = (\<lambda>b. if posted (ei_entries ix) b = [] then None else Some (posted (ei_entries ix) b)) \<and>
     ei_posting_entries ix = sum_list (map (\<lambda>p. card (set (bigrams_of (fst p)))) (ei_entries ix))"

definition ei_ok :: "entry_index \<Rightarrow> bool" where
  "ei_ok ix \<longleftrightarrow> (\<forall>s \<in> set (ei_spans ix). es_start s \<le> es_end s \<and> es_end s \<le> length (ei_arena ix)
                 \<and> es_chars s = length (chars (span_text ix s))) \<and> postings_ok ix"

section \<open>Laws\<close>

lemma ei_push_Some_iff: "(\<exists>ix'. ei_push U ix s t = Some ix') \<longleftrightarrow> length (ei_spans ix) < NIL"
  by (auto simp: ei_push_def Let_def split_beta claim_id_eq_Some bind_eq_Some_conv)

lemma ei_push_length:
  "ei_push U ix s t = Some ix' \<Longrightarrow> length (ei_spans ix') = Suc (length (ei_spans ix))"
  by (auto simp: ei_push_def Let_def split_beta bind_eq_Some_conv)

lemma span_text_append:
  "es_end s \<le> length (ei_arena ix) \<Longrightarrow> es_start s \<le> es_end s \<Longrightarrow> ei_arena ix' = ei_arena ix @ xs \<Longrightarrow>
   span_text ix' s = span_text ix s"
  by (simp add: span_text_def)

lemma push_bigrams_eq:
  "push_bigrams span seen bs (m, n) =
     (\<lambda>b. if b \<in> set bs - set seen then Some ((case m b of None \<Rightarrow> [] | Some ps \<Rightarrow> ps) @ [span]) else m b,
      n + card (set bs - set seen))"
proof (induction bs arbitrary: seen m n)
  case (Cons b bs)
  show ?case
  proof (cases "b \<in> set seen")
    case True
    then have "set (b # bs) - set seen = set bs - set seen" by auto
    then show ?thesis using True Cons.IH by simp
  next
    case False
    have "set (b # bs) - set seen = insert b (set bs - set (b # seen))" using False by auto
    then have c: "card (set (b # bs) - set seen) = Suc (card (set bs - set (b # seen)))" by simp
    show ?thesis unfolding c using False by (auto simp: Cons.IH fun_eq_iff)
  qed
qed simp

lemma posted_snoc:
  "posted (ents @ [p]) b = posted ents b @ (if b \<in> set (bigrams_of (fst p)) then [length ents] else [])"
proof -
  have "filter (\<lambda>i. b \<in> set (bigrams_of (fst ((ents @ [p]) ! i)))) [0..<length ents] = posted ents b"
    unfolding posted_def by (rule filter_cong) (auto simp: nth_append)
  then show ?thesis by (simp add: posted_def)
qed

lemma ei_default_ok [simp]: "ei_ok ei_default" "ei_entries ei_default = []" "ei_spans ei_default = []"
  by (simp_all add: ei_ok_def postings_ok_def posted_def ei_entries_def ei_default_def)

lemma ei_push_entries:
  assumes "ei_push U ix s t = Some ix'" "ei_ok ix"
  shows "ei_entries ix' = ei_entries ix @ [(normalize U s, t)] \<and> ei_ok ix'"
proof -
  have ar: "ei_arena ix' = ei_arena ix @ normalize U s"
    and sp: "ei_spans ix' = ei_spans ix @ [\<lparr>es_start = length (ei_arena ix),
        es_end = length (ei_arena ix) + length (normalize U s),
        es_chars = length (chars (normalize U s)), es_target = t\<rparr>]"
    using assms(1) by (auto simp: ei_push_def Let_def split_beta bind_eq_Some_conv)
  have old: "span_text ix' x = span_text ix x" if "x \<in> set (ei_spans ix)" for x
    using assms(2) that ar by (intro span_text_append) (auto simp: ei_ok_def)
  have new: "span_text ix' \<lparr>es_start = length (ei_arena ix),
        es_end = length (ei_arena ix) + length (normalize U s),
        es_chars = n, es_target = t\<rparr> = normalize U s" for n
    by (simp add: span_text_def ar)
  have ents: "ei_entries ix' = ei_entries ix @ [(normalize U s, t)]" using old new sp by (auto simp: ei_entries_def)
  have "length (ei_entries ix) = length (ei_spans ix)" by (simp add: ei_entries_def)
  then have "(ei_bigrams ix', ei_posting_entries ix') =
      push_bigrams (length (ei_entries ix)) [] (bigrams_of (normalize U s)) (ei_bigrams ix, ei_posting_entries ix)"
    using assms(1) by (auto simp: ei_push_def Let_def split_beta bind_eq_Some_conv claim_id_eq_Some)
  then have post: "postings_ok ix'"
    using assms(2) by (auto simp: push_bigrams_eq ei_ok_def postings_ok_def ents posted_snoc fun_eq_iff split: if_splits)
  show ?thesis
    using assms(2) old new ar sp ents post by (auto simp: ei_ok_def)
qed

end
