(* ===== verification/Storage.thy ===== *)
theory Storage
  imports Entry_Index
begin

text \<open>
  The storage of one \<open>Context\<close> (\<^verbatim>\<open>src/context.rs\<close>): nine flat tables of fixed-width records, the
  derived indexes beside them, interning, and the chains threaded through the records. Every
  read that the source performs by indexing returns an option, \<^term>\<open>None\<close> being the panic; a
  chain walk also returns \<^term>\<open>None\<close> when it would not end.
\<close>

section \<open>Records\<close>

record concept_record =
  cr_name_offset :: nat
  cr_name_len :: nat
  cr_first_outgoing :: nat
  cr_last_outgoing :: nat
  cr_outgoing_count :: nat
  cr_first_incoming :: nat
  cr_last_incoming :: nat
  cr_incoming_count :: nat

record label_record =
  lr_name_offset :: nat
  lr_name_len :: nat
  lr_first_edge :: nat
  lr_last_edge :: nat
  lr_edge_count :: nat

record source_record =
  sr_name_offset :: nat
  sr_name_len :: nat

record alias_record =
  al_name_offset :: nat
  al_name_len :: nat
  al_target :: nat

record edge_record =
  ed_subject :: nat
  ed_label :: nat
  ed_object :: nat
  ed_next_outgoing :: nat
  ed_next_incoming :: nat
  ed_next_labeled :: nat
  ed_first_attribution :: nat
  ed_last_attribution :: nat
  ed_count :: nat
  ed_sum :: f64

record attribution_record =
  at_source :: nat
  at_next :: nat
  at_count :: nat
  at_sum :: f64

record locator_record =
  lo_attribution :: nat
  lo_paragraph :: nat

section \<open>The context\<close>

record ctx =
  arena :: rstr
  concepts :: "concept_record list"
  labels :: "label_record list"
  sources :: "source_record list"
  edges :: "edge_record list"
  attributions :: "attribution_record list"
  concept_aliases :: "alias_record list"
  label_aliases :: "alias_record list"
  attribution_locators :: "locator_record list"
  concept_ids :: "rstr \<rightharpoonup> nat"
  label_ids :: "rstr \<rightharpoonup> nat"
  source_ids :: "rstr \<rightharpoonup> nat"
  concept_alias_index :: "(rstr \<times> nat) list"
  label_alias_index :: "(rstr \<times> nat) list"
  label_name_index :: "(rstr \<times> unit) list"
  edge_ids :: "(nat \<times> nat \<times> nat) \<rightharpoonup> nat"
  attribution_ids :: "(nat \<times> nat) \<rightharpoonup> nat"
  source_edges :: "nat \<rightharpoonup> nat list"
  concept_index :: entry_index
  label_index :: entry_index
  dice_floor :: "f64 option"
  applied_seq :: nat
  dead_edges :: nat
  dead_attributions :: nat
  arena_slack :: nat

definition ctx_default :: ctx where
  "ctx_default = \<lparr>arena = [], concepts = [], labels = [], sources = [], edges = [],
     attributions = [], concept_aliases = [], label_aliases = [], attribution_locators = [],
     concept_ids = Map.empty, label_ids = Map.empty, source_ids = Map.empty,
     concept_alias_index = [], label_alias_index = [], label_name_index = [],
     edge_ids = Map.empty, attribution_ids = Map.empty, source_edges = Map.empty,
     concept_index = ei_default, label_index = ei_default, dice_floor = None,
     applied_seq = 0, dead_edges = 0, dead_attributions = 0, arena_slack = 0\<rparr>"

section \<open>Interning\<close>

text \<open>\<open>intern_name\<close>: the grown arena with the (offset, length) pair, or the backstop panic.\<close>

definition intern_name :: "rstr \<Rightarrow> rstr \<Rightarrow> (rstr \<times> nat \<times> nat) option" where
  "intern_name ar name =
     do {
       end \<leftarrow> checked_add_usize (length ar) (length name);
       if end \<le> u32_max then Some (ar @ name, length ar, length name) else None
     }"

definition intern_concept :: "unicode \<Rightarrow> ctx \<Rightarrow> rstr \<Rightarrow> (nat \<times> ctx) option" where
  "intern_concept U c name =
     (case concept_ids c name of
        Some cid \<Rightarrow> Some (cid, c)
      | None \<Rightarrow> do {
          cid \<leftarrow> claim_id (length (concepts c));
          (ar, off, len) \<leftarrow> intern_name (arena c) name;
          ix \<leftarrow> ei_push U (concept_index c) name cid;
          Some (cid, c\<lparr>arena := ar,
            concepts := concepts c @ [\<lparr>cr_name_offset = off, cr_name_len = len,
              cr_first_outgoing = NIL, cr_last_outgoing = NIL, cr_outgoing_count = 0,
              cr_first_incoming = NIL, cr_last_incoming = NIL, cr_incoming_count = 0\<rparr>],
            concept_index := ix,
            concept_ids := (concept_ids c)(name \<mapsto> cid)\<rparr>)
        })"

definition intern_label :: "unicode \<Rightarrow> ctx \<Rightarrow> rstr \<Rightarrow> (nat \<times> ctx) option" where
  "intern_label U c name =
     (case label_ids c name of
        Some lid \<Rightarrow> Some (lid, c)
      | None \<Rightarrow> do {
          lid \<leftarrow> claim_id (length (labels c));
          (ar, off, len) \<leftarrow> intern_name (arena c) name;
          ix \<leftarrow> ei_push U (label_index c) name lid;
          Some (lid, c\<lparr>arena := ar,
            labels := labels c @ [\<lparr>lr_name_offset = off, lr_name_len = len,
              lr_first_edge = NIL, lr_last_edge = NIL, lr_edge_count = 0\<rparr>],
            label_index := ix,
            label_name_index := bt_insert name () (label_name_index c),
            label_ids := (label_ids c)(name \<mapsto> lid)\<rparr>)
        })"

definition intern_source :: "ctx \<Rightarrow> rstr \<Rightarrow> (nat \<times> ctx) option" where
  "intern_source c name =
     (case source_ids c name of
        Some sid \<Rightarrow> Some (sid, c)
      | None \<Rightarrow> do {
          sid \<leftarrow> claim_id (length (sources c));
          (ar, off, len) \<leftarrow> intern_name (arena c) name;
          Some (sid, c\<lparr>arena := ar,
            sources := sources c @ [\<lparr>sr_name_offset = off, sr_name_len = len\<rparr>],
            source_ids := (source_ids c)(name \<mapsto> sid)\<rparr>)
        })"

section \<open>Reading names back\<close>

text \<open>The slice panics when it escapes the arena, \<open>expect\<close> when it is not UTF-8.\<close>

definition arena_str :: "ctx \<Rightarrow> nat \<Rightarrow> nat \<Rightarrow> rstr option" where
  "arena_str c off len =
     do {
       s \<leftarrow> slice_opt (arena c) off (off + len);
       if utf8_valid s then Some s else None
     }"

definition concept_name :: "ctx \<Rightarrow> nat \<Rightarrow> rstr option" where
  "concept_name c i = do { r \<leftarrow> nth_opt (concepts c) i; arena_str c (cr_name_offset r) (cr_name_len r) }"

definition label_name :: "ctx \<Rightarrow> nat \<Rightarrow> rstr option" where
  "label_name c i = do { r \<leftarrow> nth_opt (labels c) i; arena_str c (lr_name_offset r) (lr_name_len r) }"

definition source_name :: "ctx \<Rightarrow> nat \<Rightarrow> rstr option" where
  "source_name c i = do { r \<leftarrow> nth_opt (sources c) i; arena_str c (sr_name_offset r) (sr_name_len r) }"

section \<open>Chains\<close>

text \<open>
  \<open>std::iter::successors\<close> over a link field, collected. A walk over a table of \<open>n\<close> records that
  takes more than \<open>n\<close> steps has met a record twice and never ends, so \<open>n\<close> steps of fuel tell a
  finished walk from an endless one.
\<close>

fun walk :: "nat \<Rightarrow> (nat \<Rightarrow> nat option) \<Rightarrow> nat \<Rightarrow> nat list option" where
  "walk fuel nx cur =
     (if cur = NIL then Some []
      else case fuel of 0 \<Rightarrow> None
      | Suc fuel' \<Rightarrow> do { n \<leftarrow> nx cur; rest \<leftarrow> walk fuel' nx n; Some (cur # rest) })"

declare walk.simps [simp del]

definition edge_chain :: "ctx \<Rightarrow> nat \<Rightarrow> (edge_record \<Rightarrow> nat) \<Rightarrow> nat list option" where
  "edge_chain c first follow =
     walk (length (edges c)) (\<lambda>e. map_option follow (nth_opt (edges c) e)) first"

definition outgoing :: "ctx \<Rightarrow> nat \<Rightarrow> nat list option" where
  "outgoing c i = do { r \<leftarrow> nth_opt (concepts c) i; edge_chain c (cr_first_outgoing r) ed_next_outgoing }"

definition incoming :: "ctx \<Rightarrow> nat \<Rightarrow> nat list option" where
  "incoming c i = do { r \<leftarrow> nth_opt (concepts c) i; edge_chain c (cr_first_incoming r) ed_next_incoming }"

definition labeled :: "ctx \<Rightarrow> nat \<Rightarrow> nat list option" where
  "labeled c l = do { r \<leftarrow> nth_opt (labels c) l; edge_chain c (lr_first_edge r) ed_next_labeled }"

definition attribution_chain :: "ctx \<Rightarrow> nat \<Rightarrow> nat list option" where
  "attribution_chain c first =
     walk (length (attributions c)) (\<lambda>a. map_option at_next (nth_opt (attributions c) a)) first"

text \<open>The anchor fields (head, tail, count) of one chain.\<close>

definition append_to_chain ::
    "edge_record list \<Rightarrow> nat \<times> nat \<times> nat \<Rightarrow> nat \<Rightarrow> (nat \<Rightarrow> edge_record \<Rightarrow> edge_record) \<Rightarrow>
     (edge_record list \<times> nat \<times> nat \<times> nat) option" where
  "append_to_chain es anchor edge_id set_next =
     (case anchor of (first, tail, cnt) \<Rightarrow>
        (let cnt' = u32_add cnt 1 in
         if tail = NIL then Some (es, edge_id, edge_id, cnt')
         else do { es' \<leftarrow> update_opt es tail (set_next edge_id); Some (es', first, edge_id, cnt') }))"

section \<open>Locators\<close>

text \<open>\<open>binary_search_by_key\<close> over the half-open index range \<open>[lo, hi)\<close> of a key list.\<close>

function bsearch :: "nat list \<Rightarrow> nat \<Rightarrow> nat \<Rightarrow> nat \<Rightarrow> nat option" where
  "bsearch ks key lo hi =
     (if hi \<le> lo then None
      else let mid = (lo + hi) div 2 in
        if ks ! mid = key then Some mid
        else if ks ! mid < key then bsearch ks key (Suc mid) hi
        else bsearch ks key lo mid)"
  by pat_completeness auto
termination
  by (relation "measure (\<lambda>(ks, key, lo, hi). hi - lo)") auto

declare bsearch.simps [simp del]

definition locator_for :: "ctx \<Rightarrow> nat \<Rightarrow> nat option" where
  "locator_for c a =
     map_option (\<lambda>i. lo_paragraph (attribution_locators c ! i))
       (bsearch (map lo_attribution (attribution_locators c)) a 0 (length (attribution_locators c)))"

section \<open>Materialised associations\<close>

record attribution =
  as_source :: rstr
  as_weight :: f64
  as_count :: nat
  as_paragraph :: "nat option"

record association =
  an_subject :: rstr
  an_label :: rstr
  an_object :: rstr
  an_weight :: f64
  an_count :: nat
  an_attributions :: "attribution list"

definition attribution_of :: "ctx \<Rightarrow> nat \<Rightarrow> attribution option" where
  "attribution_of c a =
     do {
       r \<leftarrow> nth_opt (attributions c) a;
       s \<leftarrow> source_name c (at_source r);
       Some \<lparr>as_source = s, as_weight = at_sum r, as_count = at_count r,
             as_paragraph = locator_for c a\<rparr>
     }"

definition association :: "ctx \<Rightarrow> nat \<Rightarrow> association option" where
  "association c edge_id =
     do {
       e \<leftarrow> nth_opt (edges c) edge_id;
       s \<leftarrow> concept_name c (ed_subject e);
       l \<leftarrow> label_name c (ed_label e);
       ob \<leftarrow> concept_name c (ed_object e);
       chain \<leftarrow> attribution_chain c (ed_first_attribution e);
       ats \<leftarrow> mapM (attribution_of c) chain;
       Some \<lparr>an_subject = s, an_label = l, an_object = ob,
             an_weight = (if ed_count e = 0 then f64_zero
                          else f64_div (ed_sum e) (f64_of_nat (ed_count e))),
             an_count = ed_count e, an_attributions = ats\<rparr>
     }"

end
