(* ===== verification/Chains.thy ===== *)
theory Chains
  imports Storage
begin

text \<open>
  Intrusive chains as lists. \<open>linked\<close> relates a head and a link function to the list of records
  the chain visits; \<open>chain_ok\<close> adds the anchor's tail and length fields. The locale
  \<open>chain_field\<close> is the interface \<open>append_to_chain\<close> asks of a link field (a getter, a setter and
  the owner that anchors the record), interpreted on the three link fields of an edge record.
\<close>

section \<open>Linked lists of ids\<close>

primrec linked :: "(nat \<Rightarrow> nat) \<Rightarrow> nat \<Rightarrow> nat list \<Rightarrow> bool" where
  "linked nx cur [] \<longleftrightarrow> cur = NIL"
| "linked nx cur (x # xs) \<longleftrightarrow> cur = x \<and> x \<noteq> NIL \<and> linked nx (nx x) xs"

definition tail_of :: "nat list \<Rightarrow> nat" where
  "tail_of xs = (if xs = [] then NIL else last xs)"

definition head_of :: "nat list \<Rightarrow> nat" where
  "head_of xs = (if xs = [] then NIL else hd xs)"

definition chain_ok :: "(nat \<Rightarrow> nat) \<Rightarrow> nat \<times> nat \<times> nat \<Rightarrow> nat list \<Rightarrow> bool" where
  "chain_ok nx anchor xs \<longleftrightarrow>
     (case anchor of (first, lst, cnt) \<Rightarrow> linked nx first xs \<and> lst = tail_of xs \<and> cnt = length xs)"

lemma linked_NIL: "linked nx NIL xs \<longleftrightarrow> xs = []"
  by (cases xs) auto

lemma linked_head: "linked nx cur xs \<Longrightarrow> cur = head_of xs"
  by (cases xs) (auto simp: head_of_def)

lemma linked_not_NIL: "linked nx cur xs \<Longrightarrow> NIL \<notin> set xs"
  by (induction xs arbitrary: cur) auto

lemma linked_cong: "(\<And>x. x \<in> set xs \<Longrightarrow> nx x = ny x) \<Longrightarrow> linked nx cur xs = linked ny cur xs"
  by (induction xs arbitrary: cur) auto

lemma linked_unique: "linked nx cur xs \<Longrightarrow> linked nx cur ys \<Longrightarrow> xs = ys"
proof (induction xs arbitrary: cur ys)
  case Nil
  then show ?case by (simp add: linked_NIL)
next
  case (Cons x xs)
  then show ?case by (cases ys) auto
qed

lemma linked_split: "linked nx cur (xs @ y # ys) \<Longrightarrow> linked nx y (y # ys)"
  by (induction xs arbitrary: cur) auto

lemma linked_distinct: "linked nx cur xs \<Longrightarrow> distinct xs"
proof (induction xs arbitrary: cur)
  case (Cons x xs)
  have "x \<notin> set xs"
  proof
    assume "x \<in> set xs"
    then obtain us vs where xs: "xs = us @ x # vs" by (meson split_list)
    from Cons.prems have "linked nx x (x # vs)"
      using linked_split [of nx cur "x # us" x vs] by (simp add: xs)
    with Cons.prems have "x # vs = x # xs" using linked_unique by auto
    then show False by (simp add: xs)
  qed
  with Cons show ?case by auto
qed simp

lemma linked_upd_other: "y \<notin> set xs \<Longrightarrow> linked (nx(y := v)) cur xs = linked nx cur xs"
  by (rule linked_cong) auto

text \<open>Appending a fresh record at the tail.\<close>

lemma linked_snoc:
  assumes "linked nx cur xs" "xs \<noteq> []" "n \<noteq> NIL" "n \<notin> set xs" "nx n = NIL"
  shows "linked (nx(last xs := n)) cur (xs @ [n])"
  using assms
proof (induction xs arbitrary: cur)
  case (Cons x xs)
  show ?case
  proof (cases "xs = []")
    case True
    with Cons.prems show ?thesis by auto
  next
    case False
    have "x \<noteq> last xs" using Cons.prems(1) linked_distinct False by fastforce
    with False Cons show ?thesis by auto
  qed
qed simp

text \<open>Unlinking one record: its predecessor, or the head, takes over its link.\<close>

lemma linked_unlink_head: "linked nx cur (a # zs) \<Longrightarrow> linked nx (nx a) zs"
  by simp

lemma linked_unlink:
  assumes "linked nx cur (ys @ a # zs)" "ys \<noteq> []"
  shows "linked (nx(last ys := nx a)) cur (ys @ zs)"
  using assms
proof (induction ys arbitrary: cur)
  case (Cons y ys)
  have d: "distinct (y # ys @ a # zs)" using Cons.prems(1) linked_distinct by fastforce
  show ?case
  proof (cases "ys = []")
    case True
    then have "linked nx (nx a) zs" "y \<notin> set zs" "y \<noteq> a" "cur = y" "y \<noteq> NIL"
      using Cons.prems d by auto
    then have "linked (nx(y := nx a)) (nx a) zs" by (subst linked_upd_other)
    with True \<open>cur = y\<close> \<open>y \<noteq> NIL\<close> show ?thesis by (simp add: fun_upd_def)
  next
    case False
    then have "y \<noteq> last ys" using d by auto
    with False Cons show ?thesis by auto
  qed
qed simp

lemma tail_of_Nil [simp]: "tail_of [] = NIL" and tail_of_snoc [simp]: "tail_of (xs @ [x]) = x"
  by (simp_all add: tail_of_def)

lemma tail_of_NIL_iff: "NIL \<notin> set xs \<Longrightarrow> tail_of xs = NIL \<longleftrightarrow> xs = []"
  by (metis last_in_set tail_of_def)

section \<open>Walks\<close>

lemma walk_linked:
  assumes "linked nx cur xs" "\<forall>x \<in> set xs. f x = Some (nx x)" "length xs \<le> fuel"
  shows "walk fuel f cur = Some xs"
  using assms
proof (induction xs arbitrary: cur fuel)
  case Nil
  then show ?case by (simp add: walk.simps)
next
  case (Cons x xs)
  then obtain fuel' where "fuel = Suc fuel'" by (cases fuel) auto
  with Cons show ?case by (simp add: walk.simps [of "Suc fuel'"])
qed

lemma distinct_bounded_length: "distinct xs \<Longrightarrow> set xs \<subseteq> {..<n} \<Longrightarrow> length xs \<le> n"
  by (metis card_lessThan card_mono distinct_card finite_lessThan)

text \<open>A linked list inside a table is walked to its end with one step of fuel per record.\<close>

lemma walk_table:
  assumes "linked (\<lambda>e. get (tab ! e)) cur xs" "set xs \<subseteq> {..<length tab}"
  shows "walk (length tab) (\<lambda>e. map_option get (nth_opt tab e)) cur = Some xs"
proof (rule walk_linked [OF assms(1)])
  show "\<forall>x \<in> set xs. map_option get (nth_opt tab x) = Some (get (tab ! x))"
    using assms(2) by auto
  show "length xs \<le> length tab"
    using distinct_bounded_length linked_distinct assms by blast
qed

lemma walk_Some_linked:
  assumes "walk fuel (\<lambda>e. map_option get (nth_opt tab e)) cur = Some xs"
  shows "linked (\<lambda>e. get (tab ! e)) cur xs \<and> set xs \<subseteq> {..<length tab}"
  using assms
proof (induction xs arbitrary: cur fuel)
  case Nil
  then show ?case
    by (auto simp: walk.simps [of fuel] bind_eq_Some_conv split: if_splits nat.splits)
next
  case (Cons x xs)
  then obtain fuel' n where "cur \<noteq> NIL" "cur = x" "nth_opt tab cur \<noteq> None"
      and n: "map_option get (nth_opt tab cur) = Some n"
      and "walk fuel' (\<lambda>e. map_option get (nth_opt tab e)) n = Some xs"
    by (subst (asm) walk.simps) (auto simp: bind_eq_Some_conv split: if_splits nat.splits)
  then show ?case using Cons.IH by (auto simp: nth_opt_eq_Some)
qed

section \<open>The chains of one kind\<close>

text \<open>Every owner's chain visits exactly the records it owns, in insertion order.\<close>

definition owned :: "('r \<Rightarrow> nat) \<Rightarrow> 'r list \<Rightarrow> nat \<Rightarrow> nat list" where
  "owned owner es i = filter (\<lambda>e. owner (es ! e) = i) [0..<length es]"

definition chains_inv ::
    "('r \<Rightarrow> nat) \<Rightarrow> ('r \<Rightarrow> nat) \<Rightarrow> (nat \<Rightarrow> nat \<times> nat \<times> nat) \<Rightarrow> nat \<Rightarrow> 'r list \<Rightarrow> bool" where
  "chains_inv get owner anchor n es \<longleftrightarrow>
     (\<forall>i < n. chain_ok (\<lambda>e. get (es ! e)) (anchor i) (owned owner es i))"

lemma set_owned: "set (owned owner es i) = {e. e < length es \<and> owner (es ! e) = i}"
  by (auto simp: owned_def)

lemma owned_sorted: "sorted_wrt (<) (owned owner es i)"
  by (simp add: owned_def sorted_wrt_filter)

lemma owned_cong:
  "length es' = length es \<Longrightarrow> (\<And>e. e < length es \<Longrightarrow> owner (es' ! e) = owner (es ! e)) \<Longrightarrow>
   owned owner es' i = owned owner es i"
  by (auto simp: owned_def intro: filter_cong)

lemma owned_snoc:
  "owned owner (es @ [r]) i = owned owner es i @ (if owner r = i then [length es] else [])"
proof -
  have "filter (\<lambda>e. owner ((es @ [r]) ! e) = i) [0..<length es] = owned owner es i"
    unfolding owned_def by (rule filter_cong) (auto simp: nth_append)
  then show ?thesis by (simp add: owned_def)
qed

lemma chains_inv_cong:
  assumes "length es' = length es"
    and "\<And>e. e < length es \<Longrightarrow> get (es' ! e) = get (es ! e)"
    and "\<And>e. e < length es \<Longrightarrow> owner (es' ! e) = owner (es ! e)"
    and "\<And>i. i < n \<Longrightarrow> anchor' i = anchor i"
  shows "chains_inv get owner anchor' n es' = chains_inv get owner anchor n es"
proof -
  have "chain_ok (\<lambda>e. get (es' ! e)) a (owned owner es i) =
        chain_ok (\<lambda>e. get (es ! e)) a (owned owner es i)" for a i
    unfolding chain_ok_def
    using linked_cong [of "owned owner es i" "\<lambda>e. get (es' ! e)" "\<lambda>e. get (es ! e)"] assms(2)
    by (auto simp: set_owned split: prod.splits)
  moreover have "owned owner es' i = owned owner es i" for i
    using assms by (intro owned_cong) auto
  ultimately show ?thesis using assms(4) by (simp add: chains_inv_def)
qed

lemma chains_inv_walk:
  assumes "chains_inv get owner anchor n es" "i < n"
  shows "walk (length es) (\<lambda>e. map_option get (nth_opt es e)) (fst (anchor i))
           = Some (owned owner es i)"
  using assms by (intro walk_table) (auto simp: chains_inv_def chain_ok_def set_owned split_beta)

text \<open>A new owner starts with an empty chain.\<close>

lemma chains_inv_new_owner:
  assumes "chains_inv get owner anchor n es" "\<And>e. e < length es \<Longrightarrow> owner (es ! e) < n"
    and "\<And>i. i < n \<Longrightarrow> anchor' i = anchor i" "anchor' n = (NIL, NIL, 0)"
  shows "chains_inv get owner anchor' (Suc n) es"
proof -
  have "owned owner es n = []"
    using assms(2) unfolding owned_def by (fastforce simp: filter_empty_conv)
  then show ?thesis
    using assms by (auto simp: chains_inv_def chain_ok_def less_Suc_eq)
qed

section \<open>The link-field interface\<close>

locale chain_field =
  fixes get :: "edge_record \<Rightarrow> nat"
    and put :: "nat \<Rightarrow> edge_record \<Rightarrow> edge_record"
    and owner :: "edge_record \<Rightarrow> nat"
  assumes get_put: "get (put n e) = n"
    and owner_put: "owner (put n e) = owner e"
begin

lemma append_ok:
  assumes ok: "chain_ok (\<lambda>e. get (es ! e)) a xs"
    and sub: "set xs \<subseteq> {..<length es}" and n: "n < length es" "n \<notin> set xs" "n \<noteq> NIL"
    and nil: "get (es ! n) = NIL" and room: "length xs + 1 < 2 ^ 32"
  shows "\<exists>es' a'. append_to_chain es a n put = Some (es', a') \<and>
     chain_ok (\<lambda>e. get (es' ! e)) a' (xs @ [n]) \<and>
     es' = (if xs = [] then es else es[last xs := put n (es ! last xs)])"
proof -
  obtain f l k where a: "a = (f, l, k)" by (cases a)
  have L: "linked (\<lambda>e. get (es ! e)) f xs" and l: "l = tail_of xs" and k: "k = length xs"
    using ok by (auto simp: chain_ok_def a)
  have kk: "u32_add k 1 = Suc (length xs)" using room by (simp add: k u32_add_def)
  show ?thesis
  proof (cases "xs = []")
    case True
    with l n nil kk show ?thesis
      by (simp add: append_to_chain_def a chain_ok_def Let_def tail_of_def)
  next
    case False
    have t: "last xs < length es" "last xs \<noteq> NIL"
      using False sub L linked_not_NIL last_in_set by fastforce+
    have nl: "n \<noteq> last xs" using n(2) False by auto
    let ?es = "es[last xs := put n (es ! last xs)]"
    have "linked ((\<lambda>e. get (es ! e))(last xs := n)) f (xs @ [n])"
      using L False n nil by (intro linked_snoc) auto
    moreover have "linked (\<lambda>e. get (?es ! e)) f (xs @ [n]) =
        linked ((\<lambda>e. get (es ! e))(last xs := n)) f (xs @ [n])"
      using t nl by (intro linked_cong) (auto simp: get_put nth_list_update)
    ultimately show ?thesis
      using False t l kk L
      by (simp add: append_to_chain_def a chain_ok_def Let_def tail_of_def)
  qed
qed

text \<open>
  Pushing a record and appending it to its owner's chain keeps the chains of this kind, whatever
  happened to the other link fields in between (\<open>mid\<close> agrees with the pushed table on this field).
\<close>

lemma push_append:
  assumes inv: "chains_inv get owner anchor k es" and i: "i < k" "owner r = i"
    and len: "length mid = Suc (length es)" "length es < NIL"
    and agree: "\<And>e. e \<le> length es \<Longrightarrow> get (mid ! e) = get ((es @ [r]) ! e)"
      "\<And>e. e \<le> length es \<Longrightarrow> owner (mid ! e) = owner ((es @ [r]) ! e)"
    and nil: "get r = NIL"
  shows "\<exists>es' a'. append_to_chain mid (anchor i) (length es) put = Some (es', a') \<and>
     chains_inv get owner (anchor(i := a')) k es' \<and> length es' = Suc (length es) \<and>
     (es' = mid \<or> (\<exists>t < length es. es' = mid[t := put (length es) (mid ! t)]))"
proof -
  let ?n = "length es" and ?own = "owned owner"
  have own: "?own mid j = ?own es j @ (if j = i then [?n] else [])" for j
    using owned_cong [of mid "es @ [r]" owner j] len agree(2) i(2)
    by (auto simp: owned_snoc less_Suc_eq_le)
  have old: "chain_ok (\<lambda>e. get (mid ! e)) (anchor j) (?own es j)" if "j < k" for j
  proof -
    have "linked (\<lambda>e. get (mid ! e)) f (?own es j) = linked (\<lambda>e. get (es ! e)) f (?own es j)" for f
      using agree(1) by (intro linked_cong) (auto simp: set_owned nth_append)
    then show ?thesis
      using inv that by (auto simp: chains_inv_def chain_ok_def split: prod.splits)
  qed
  have ln: "length (?own es i) \<le> ?n"
    using distinct_bounded_length [of "?own es i" ?n] owned_sorted [of owner es i]
    by (auto simp: set_owned strict_sorted_iff)
  have "\<exists>es' a'. append_to_chain mid (anchor i) ?n put = Some (es', a') \<and>
     chain_ok (\<lambda>e. get (es' ! e)) a' (?own es i @ [?n]) \<and>
     es' = (if ?own es i = [] then mid else mid[last (?own es i) := put ?n (mid ! last (?own es i))])"
    using old [OF i(1)] len agree(1) [of ?n] nil ln
    by (intro append_ok) (auto simp: set_owned NIL_eq)
  then obtain es' a' where ap: "append_to_chain mid (anchor i) ?n put = Some (es', a')"
    and new: "chain_ok (\<lambda>e. get (es' ! e)) a' (?own es i @ [?n])"
    and es': "es' = (if ?own es i = [] then mid
                     else mid[last (?own es i) := put ?n (mid ! last (?own es i))])"
    by blast
  have t: "last (?own es i) < ?n \<and> owner (es ! last (?own es i)) = i" if "?own es i \<noteq> []"
    using last_in_set [OF that] by (simp add: set_owned)
  have own': "?own es' j = ?own mid j" for j
    using t es' len by (intro owned_cong) (auto simp: owner_put nth_list_update)
  have "chain_ok (\<lambda>e. get (es' ! e)) (anchor j) (?own es j)" if "j < k" "j \<noteq> i" for j
  proof -
    have neq: "last (?own es i) \<noteq> x" if "x \<in> set (?own es j)" "?own es i \<noteq> []" for x
      using t \<open>j \<noteq> i\<close> that by (auto simp: set_owned)
    have "linked (\<lambda>e. get (es' ! e)) f (?own es j) = linked (\<lambda>e. get (mid ! e)) f (?own es j)" for f
      using neq es' by (intro linked_cong) auto
    then show ?thesis
      using old [OF that(1)] by (auto simp: chain_ok_def split: prod.splits)
  qed
  then have "chains_inv get owner (anchor(i := a')) k es'"
    using new own own' by (auto simp: chains_inv_def)
  moreover have "es' = mid \<or> (\<exists>t < ?n. es' = mid[t := put ?n (mid ! t)])"
    using t es' by auto
  ultimately show ?thesis using ap es' len(1) by auto
qed

end

interpretation out_chain: chain_field ed_next_outgoing "\<lambda>n e. e\<lparr>ed_next_outgoing := n\<rparr>" ed_subject
  by unfold_locales simp_all

interpretation in_chain: chain_field ed_next_incoming "\<lambda>n e. e\<lparr>ed_next_incoming := n\<rparr>" ed_object
  by unfold_locales simp_all

interpretation label_chain: chain_field ed_next_labeled "\<lambda>n e. e\<lparr>ed_next_labeled := n\<rparr>" ed_label
  by unfold_locales simp_all

section \<open>Binary search\<close>

lemma bsearch_Some: "bsearch ks key lo hi = Some i \<Longrightarrow> lo \<le> i \<and> i < hi \<and> ks ! i = key"
proof (induction ks key lo hi rule: bsearch.induct)
  case (1 ks key lo hi)
  then show ?case
    by (subst (asm) (2) bsearch.simps) (fastforce simp: Let_def split: if_splits)
qed

lemma bsearch_finds:
  assumes "sorted_wrt (<) ks" "lo \<le> i" "i < hi" "hi \<le> length ks"
  shows "bsearch ks (ks ! i) lo hi = Some i"
  using assms
proof (induction ks "ks ! i" lo hi rule: bsearch.induct)
  case (1 ks lo hi)
  let ?m = "(lo + hi) div 2"
  have m: "lo \<le> ?m" "?m < hi" using "1.prems" by auto
  have lt: "ks ! a < ks ! b" if "a < b" "b < hi" for a b
    using "1.prems" that by (intro sorted_wrt_nth_less [of "(<)" ks]) auto
  consider "?m = i" | "?m < i" | "i < ?m" by linarith
  then show ?case
  proof cases
    case 1
    with m show ?thesis by (subst bsearch.simps) (simp add: Let_def)
  next
    case 2
    with lt [OF 2] "1.prems" m have "ks ! ?m < ks ! i" by auto
    with 2 m "1.prems" "1.hyps"(1) show ?thesis by (subst bsearch.simps) (simp add: Let_def)
  next
    case 3
    with lt [OF 3] m have "ks ! i < ks ! ?m" by auto
    with 3 m "1.prems" "1.hyps"(2) show ?thesis by (subst bsearch.simps) (simp add: Let_def)
  qed
qed

end
