(* ===== verification/Context_Invariant.thy ===== *)
theory Context_Invariant
  imports Chains "HOL-Library.Multiset"
begin

text \<open>
  The representation invariant of a \<open>Context\<close>: what every write keeps true of the tables and the
  derived indexes, and what every read relies on to return. It is split by concern (names, entry
  indexes, paging indexes, edges, chains, attributions, locators, arena accounting), so that
  an operation's preservation lemma only meets the parts it touches.
\<close>

section \<open>Names\<close>

definition name_at :: "rstr \<Rightarrow> nat \<times> nat \<Rightarrow> rstr" where
  "name_at ar r = take (snd r) (drop (fst r) ar)"

definition range_ok :: "rstr \<Rightarrow> nat \<times> nat \<Rightarrow> bool" where
  "range_ok ar r \<longleftrightarrow> fst r + snd r \<le> length ar \<and> utf8_valid (name_at ar r)"

definition concept_range :: "concept_record \<Rightarrow> nat \<times> nat" where
  "concept_range r = (cr_name_offset r, cr_name_len r)"
definition label_range :: "label_record \<Rightarrow> nat \<times> nat" where
  "label_range r = (lr_name_offset r, lr_name_len r)"
definition source_range :: "source_record \<Rightarrow> nat \<times> nat" where
  "source_range r = (sr_name_offset r, sr_name_len r)"
definition alias_range :: "alias_record \<Rightarrow> nat \<times> nat" where
  "alias_range r = (al_name_offset r, al_name_len r)"

definition alias_spellings :: "rstr \<Rightarrow> alias_record list \<Rightarrow> (rstr \<times> nat) list" where
  "alias_spellings ar als = map (\<lambda>a. (name_at ar (alias_range a), al_target a)) als"

text \<open>Every spelling of a namespace with the record it resolves to: canonical names, then aliases.\<close>

definition spellings :: "rstr \<Rightarrow> (nat \<times> nat) list \<Rightarrow> alias_record list \<Rightarrow> (rstr \<times> nat) list" where
  "spellings ar rs als = zip (map (name_at ar) rs) [0..<length rs] @ alias_spellings ar als"

definition ns_ok ::
    "rstr \<Rightarrow> (nat \<times> nat) list \<Rightarrow> alias_record list \<Rightarrow> (rstr \<rightharpoonup> nat) \<Rightarrow> bool" where
  "ns_ok ar rs als ids \<longleftrightarrow>
     (\<forall>r \<in> set rs. range_ok ar r) \<and>
     (\<forall>a \<in> set als. range_ok ar (alias_range a) \<and> al_target a < length rs) \<and>
     distinct (map fst (spellings ar rs als)) \<and>
     (\<forall>k i. ids k = Some i \<longleftrightarrow> (k, i) \<in> set (spellings ar rs als))"

abbreviation concept_ranges :: "ctx \<Rightarrow> (nat \<times> nat) list" where
  "concept_ranges c \<equiv> map concept_range (concepts c)"
abbreviation label_ranges :: "ctx \<Rightarrow> (nat \<times> nat) list" where
  "label_ranges c \<equiv> map label_range (labels c)"
abbreviation source_ranges :: "ctx \<Rightarrow> (nat \<times> nat) list" where
  "source_ranges c \<equiv> map source_range (sources c)"

definition names_inv :: "ctx \<Rightarrow> bool" where
  "names_inv c \<longleftrightarrow>
     ns_ok (arena c) (concept_ranges c) (concept_aliases c) (concept_ids c) \<and>
     ns_ok (arena c) (label_ranges c) (label_aliases c) (label_ids c) \<and>
     ns_ok (arena c) (source_ranges c) [] (source_ids c)"

definition bounds_inv :: "ctx \<Rightarrow> bool" where
  "bounds_inv c \<longleftrightarrow>
     length (arena c) \<le> u32_max \<and> length (concepts c) \<le> NIL \<and> length (labels c) \<le> NIL \<and>
     length (sources c) \<le> NIL \<and> length (edges c) \<le> NIL \<and> length (attributions c) \<le> NIL \<and>
     length (concept_aliases c) \<le> NIL \<and> length (label_aliases c) \<le> NIL"

section \<open>Entry and paging indexes\<close>

definition entries_ok ::
    "unicode \<Rightarrow> rstr \<Rightarrow> (nat \<times> nat) list \<Rightarrow> alias_record list \<Rightarrow> entry_index \<Rightarrow> bool" where
  "entries_ok U ar rs als ix \<longleftrightarrow>
     ei_ok ix \<and> mset (ei_entries ix) = image_mset (apfst (normalize U)) (mset (spellings ar rs als))"

definition index_inv :: "unicode \<Rightarrow> ctx \<Rightarrow> bool" where
  "index_inv U c \<longleftrightarrow>
     entries_ok U (arena c) (concept_ranges c) (concept_aliases c) (concept_index c) \<and>
     entries_ok U (arena c) (label_ranges c) (label_aliases c) (label_index c)"

definition page_ok :: "(rstr \<times> 'v) list \<Rightarrow> (rstr \<times> 'v) list \<Rightarrow> bool" where
  "page_ok pages entries \<longleftrightarrow> bt_sorted pages \<and> set pages = set entries"

definition paging_inv :: "ctx \<Rightarrow> bool" where
  "paging_inv c \<longleftrightarrow>
     page_ok (concept_alias_index c) (alias_spellings (arena c) (concept_aliases c)) \<and>
     page_ok (label_alias_index c) (alias_spellings (arena c) (label_aliases c)) \<and>
     page_ok (label_name_index c) (map (\<lambda>r. (name_at (arena c) r, ())) (label_ranges c))"

section \<open>Edges and chains\<close>

definition triple :: "edge_record \<Rightarrow> nat \<times> nat \<times> nat" where
  "triple e = (ed_subject e, ed_label e, ed_object e)"

definition edges_inv :: "ctx \<Rightarrow> bool" where
  "edges_inv c \<longleftrightarrow>
     (\<forall>e \<in> set (edges c). ed_subject e < length (concepts c) \<and> ed_object e < length (concepts c) \<and>
        ed_label e < length (labels c)) \<and>
     (\<forall>k i. edge_ids c k = Some i \<longleftrightarrow> i < length (edges c) \<and> triple (edges c ! i) = k)"

definition out_anchor :: "concept_record list \<Rightarrow> nat \<Rightarrow> nat \<times> nat \<times> nat" where
  "out_anchor cs i = (cr_first_outgoing (cs ! i), cr_last_outgoing (cs ! i), cr_outgoing_count (cs ! i))"
definition in_anchor :: "concept_record list \<Rightarrow> nat \<Rightarrow> nat \<times> nat \<times> nat" where
  "in_anchor cs i = (cr_first_incoming (cs ! i), cr_last_incoming (cs ! i), cr_incoming_count (cs ! i))"
definition label_anchor :: "label_record list \<Rightarrow> nat \<Rightarrow> nat \<times> nat \<times> nat" where
  "label_anchor ls i = (lr_first_edge (ls ! i), lr_last_edge (ls ! i), lr_edge_count (ls ! i))"

definition chain_inv :: "ctx \<Rightarrow> bool" where
  "chain_inv c \<longleftrightarrow>
     chains_inv ed_next_outgoing ed_subject (out_anchor (concepts c)) (length (concepts c)) (edges c) \<and>
     chains_inv ed_next_incoming ed_object (in_anchor (concepts c)) (length (concepts c)) (edges c) \<and>
     chains_inv ed_next_labeled ed_label (label_anchor (labels c)) (length (labels c)) (edges c)"

section \<open>Attributions\<close>

text \<open>\<open>f e\<close> is the list of live attribution records of edge \<open>e\<close>, in first-assertion order.\<close>

definition edge_attr_ok :: "attribution_record list \<Rightarrow> nat \<Rightarrow> edge_record \<Rightarrow> nat list \<Rightarrow> bool" where
  "edge_attr_ok ats nsources e xs \<longleftrightarrow>
     linked (\<lambda>a. at_next (ats ! a)) (ed_first_attribution e) xs \<and>
     ed_last_attribution e = tail_of xs \<and>
     (\<forall>a \<in> set xs. a < length ats \<and> at_source (ats ! a) < nsources \<and>
        0 < at_count (ats ! a) \<and> is_finite (at_sum (ats ! a))) \<and>
     distinct (map (\<lambda>a. at_source (ats ! a)) xs) \<and>
     sum_list (map (\<lambda>a. at_count (ats ! a)) xs) \<le> ed_count e \<and>
     ed_count e < 2 ^ 64 \<and> is_finite (ed_sum e)"

definition attr_tables_ok :: "ctx \<Rightarrow> (nat \<Rightarrow> nat list) \<Rightarrow> bool" where
  "attr_tables_ok c f \<longleftrightarrow>
     (\<forall>e < length (edges c). edge_attr_ok (attributions c) (length (sources c)) (edges c ! e) (f e)) \<and>
     (\<forall>e < length (edges c). \<forall>e' < length (edges c). e \<noteq> e' \<longrightarrow> set (f e) \<inter> set (f e') = {})"

definition attr_index_ok :: "ctx \<Rightarrow> (nat \<Rightarrow> nat list) \<Rightarrow> bool" where
  "attr_index_ok c f \<longleftrightarrow>
     (\<forall>e s a. attribution_ids c (e, s) = Some a \<longleftrightarrow>
        e < length (edges c) \<and> a \<in> set (f e) \<and> at_source (attributions c ! a) = s)"

definition source_edges_ok :: "ctx \<Rightarrow> bool" where
  "source_edges_ok c \<longleftrightarrow>
     (\<forall>s es. source_edges c s = Some es \<longrightarrow> es \<noteq> [] \<and> distinct es) \<and>
     (\<forall>s e. (\<exists>es. source_edges c s = Some es \<and> e \<in> set es) \<longleftrightarrow> attribution_ids c (e, s) \<noteq> None)"

definition dead_ok :: "ctx \<Rightarrow> (nat \<Rightarrow> nat list) \<Rightarrow> bool" where
  "dead_ok c f \<longleftrightarrow>
     dead_edges c = length (filter (\<lambda>e. ed_count e = 0) (edges c)) \<and>
     dead_attributions c + (\<Sum>e < length (edges c). length (f e)) = length (attributions c)"

definition attr_inv :: "ctx \<Rightarrow> (nat \<Rightarrow> nat list) \<Rightarrow> bool" where
  "attr_inv c f \<longleftrightarrow> attr_tables_ok c f \<and> attr_index_ok c f \<and> source_edges_ok c \<and> dead_ok c f"

definition locators_inv :: "ctx \<Rightarrow> bool" where
  "locators_inv c \<longleftrightarrow>
     sorted_wrt (<) (map lo_attribution (attribution_locators c)) \<and>
     (\<forall>r \<in> set (attribution_locators c). lo_attribution r < length (attributions c) \<and>
        lo_paragraph r < 2 ^ 32)"

section \<open>Arena accounting\<close>

definition live_bytes :: "ctx \<Rightarrow> nat" where
  "live_bytes c = sum_list (map snd (concept_ranges c)) + sum_list (map snd (label_ranges c))
     + sum_list (map snd (source_ranges c)) + sum_list (map al_name_len (concept_aliases c))
     + sum_list (map al_name_len (label_aliases c))"

definition slack_inv :: "ctx \<Rightarrow> bool" where
  "slack_inv c \<longleftrightarrow> length (arena c) = live_bytes c + arena_slack c"

section \<open>The invariant\<close>

definition ctx_inv :: "unicode \<Rightarrow> ctx \<Rightarrow> bool" where
  "ctx_inv U c \<longleftrightarrow>
     names_inv c \<and> bounds_inv c \<and> index_inv U c \<and> paging_inv c \<and> edges_inv c \<and> chain_inv c \<and>
     (\<exists>f. attr_inv c f) \<and> locators_inv c \<and> slack_inv c \<and> applied_seq c < 2 ^ 64"

lemmas attr_defs = attr_inv_def attr_tables_ok_def attr_index_ok_def source_edges_ok_def dead_ok_def

lemma ctx_invD:
  assumes "ctx_inv U c"
  shows "names_inv c" "bounds_inv c" "index_inv U c" "paging_inv c" "edges_inv c" "chain_inv c"
    "\<exists>f. attr_inv c f" "locators_inv c" "slack_inv c" "applied_seq c < 2 ^ 64"
  using assms by (simp_all add: ctx_inv_def)

section \<open>Namespace lemmas\<close>

lemma name_at_append:
  "fst r + snd r \<le> length ar \<Longrightarrow> name_at (ar @ x) r = name_at ar r"
  by (simp add: name_at_def)

lemma name_at_new [simp]: "name_at (ar @ x) (length ar, length x) = x"
  by (simp add: name_at_def)

lemma length_name_at: "fst r + snd r \<le> length ar \<Longrightarrow> length (name_at ar r) = snd r"
  by (simp add: name_at_def)

lemma range_ok_append: "range_ok ar r \<Longrightarrow> range_ok (ar @ x) r"
  by (auto simp: range_ok_def name_at_append)

lemma length_spellings [simp]: "length (spellings ar rs als) = length rs + length als"
  by (simp add: spellings_def alias_spellings_def)

lemma spellings_append:
  assumes "\<forall>r \<in> set rs. range_ok ar r" "\<forall>a \<in> set als. range_ok ar (alias_range a)"
  shows "spellings (ar @ x) rs als = spellings ar rs als"
    and "alias_spellings (ar @ x) als = alias_spellings ar als"
    and "map (name_at (ar @ x)) rs = map (name_at ar) rs"
  using assms by (auto simp: spellings_def alias_spellings_def range_ok_def name_at_append
      intro!: arg_cong2 [of _ _ _ _ zip] map_cong)

lemma map_fst_spellings:
  "map fst (spellings ar rs als) = map (name_at ar) rs @ map (\<lambda>a. name_at ar (alias_range a)) als"
  by (simp add: spellings_def alias_spellings_def comp_def)

lemma set_spellings:
  "set (spellings ar rs als) =
     {(name_at ar (rs ! i), i) | i. i < length rs} \<union>
     {(name_at ar (alias_range a), al_target a) | a. a \<in> set als}"
  by (force simp: spellings_def alias_spellings_def set_zip)

lemma ns_ok_iff: "ns_ok ar rs als ids \<Longrightarrow> ids k = Some i \<longleftrightarrow> (k, i) \<in> set (spellings ar rs als)"
  by (simp add: ns_ok_def)

lemma ns_ok_append:
  assumes "ns_ok ar rs als ids" shows "ns_ok (ar @ x) rs als ids"
proof -
  have "spellings (ar @ x) rs als = spellings ar rs als"
    using assms by (intro spellings_append) (auto simp: ns_ok_def)
  then show ?thesis using assms by (auto simp: ns_ok_def range_ok_append)
qed

lemma ns_ok_intern:
  assumes ok: "ns_ok ar rs als ids" and new: "ids name = None" and v: "utf8_valid name"
  shows "ns_ok (ar @ name) (rs @ [(length ar, length name)]) als (ids(name \<mapsto> length rs))"
proof -
  let ?ar = "ar @ name" and ?rs = "rs @ [(length ar, length name)]"
  have eq: "spellings ?ar rs als = spellings ar rs als"
    using ok by (intro spellings_append) (auto simp: ns_ok_def)
  have fresh: "(name, i) \<notin> set (spellings ar rs als)" for i
    using ns_ok_iff [OF ok, of name i] new by simp
  have S: "set (spellings ?ar ?rs als) = insert (name, length rs) (set (spellings ar rs als))"
    unfolding eq [symmetric] by (auto simp: set_spellings nth_append less_Suc_eq)
  have "map fst (spellings ?ar ?rs als) = map (name_at ?ar) rs @ name # map (\<lambda>a. name_at ?ar (alias_range a)) als"
    by (simp add: map_fst_spellings)
  moreover have "distinct (map (name_at ?ar) rs @ map (\<lambda>a. name_at ?ar (alias_range a)) als)"
    using ok unfolding ns_ok_def eq [symmetric] by (simp add: map_fst_spellings)
  moreover have "name \<notin> set (map (name_at ?ar) rs @ map (\<lambda>a. name_at ?ar (alias_range a)) als)"
    using fresh unfolding map_fst_spellings [symmetric] eq by (auto simp: image_iff)
  ultimately have "distinct (map fst (spellings ?ar ?rs als))" by auto
  moreover have "(ids(name \<mapsto> length rs)) k = Some i \<longleftrightarrow> (k, i) \<in> set (spellings ?ar ?rs als)" for k i
    using ok fresh unfolding S ns_ok_def by auto
  moreover have "range_ok ?ar (length ar, length name)"
    using v by (simp add: range_ok_def)
  ultimately show ?thesis
    using ok by (auto simp: ns_ok_def range_ok_append less_Suc_eq)
qed

lemma ns_ok_alias:
  assumes ok: "ns_ok ar rs als ids" and new: "ids name = None" and v: "utf8_valid name"
    and t: "t < length rs"
  shows "ns_ok (ar @ name) rs (als @ [\<lparr>al_name_offset = length ar, al_name_len = length name, al_target = t\<rparr>])
           (ids(name \<mapsto> t))"
proof -
  let ?ar = "ar @ name" and ?a = "\<lparr>al_name_offset = length ar, al_name_len = length name, al_target = t\<rparr>"
  have eq: "spellings ?ar rs als = spellings ar rs als"
    using ok by (intro spellings_append) (auto simp: ns_ok_def)
  have S: "spellings ?ar rs (als @ [?a]) = spellings ar rs als @ [(name, t)]"
    unfolding eq [symmetric] by (simp add: spellings_def alias_spellings_def alias_range_def)
  have fresh: "(name, i) \<notin> set (spellings ar rs als)" for i
    using ns_ok_iff [OF ok, of name i] new by simp
  then have "distinct (map fst (spellings ?ar rs (als @ [?a])))"
    using ok unfolding S ns_ok_def by (auto simp: image_iff)
  moreover have "(ids(name \<mapsto> t)) k = Some i \<longleftrightarrow> (k, i) \<in> set (spellings ?ar rs (als @ [?a]))" for k i
    using ok fresh unfolding S ns_ok_def by auto
  moreover have "range_ok ?ar (alias_range ?a)"
    using v by (simp add: range_ok_def alias_range_def)
  ultimately show ?thesis
    using ok t by (auto simp: ns_ok_def range_ok_append)
qed

lemma ns_ok_id_bound: "ns_ok ar rs als ids \<Longrightarrow> ids k = Some i \<Longrightarrow> i < length rs"
  by (auto simp: ns_ok_def set_spellings)

lemma ns_ok_name: "ns_ok ar rs als ids \<Longrightarrow> i < length rs \<Longrightarrow> ids (name_at ar (rs ! i)) = Some i"
  by (auto simp: ns_ok_def set_spellings)

lemma ns_ok_name_inj:
  "ns_ok ar rs als ids \<Longrightarrow> i < length rs \<Longrightarrow> j < length rs \<Longrightarrow>
   name_at ar (rs ! i) = name_at ar (rs ! j) \<longleftrightarrow> i = j"
  by (metis ns_ok_name option.inject)

end
