(* ===== verification/Interning.thy ===== *)
theory Interning
  imports Context_Invariant
begin

text \<open>
  Interning keeps the invariant. The locale \<open>interner\<close> is the contract the write path relies on
  for each of the three namespaces (concepts, labels, sources): a known spelling comes back
  unchanged, a new one claims the next dense id. It is interpreted on \<open>intern_concept\<close>,
  \<open>intern_label\<close> and \<open>intern_source\<close>.
\<close>

section \<open>Capacity of the entry index\<close>

text \<open>
  The entry index claims a \<open>u32\<close> span id that \<open>ensure_room\<close> never checks. It cannot run out: the
  spellings of a namespace are distinct strings inside a 4 GiB arena, and at most 257 of them
  are shorter than two bytes.
\<close>

lemma card_short_strings: "card (set (filter (\<lambda>s. length s \<le> 1) (xs :: rstr list))) \<le> 257"
proof -
  have sub: "set (filter (\<lambda>s. length s \<le> 1) xs) \<subseteq> insert [] (range (\<lambda>b :: u8. [b]))"
  proof
    fix s assume "s \<in> set (filter (\<lambda>s. length s \<le> 1) xs)"
    then have "length s \<le> 1" by simp
    then show "s \<in> insert [] (range (\<lambda>b :: u8. [b]))"
      by (cases s) auto
  qed
  have "card (range (\<lambda>b :: u8. [b])) \<le> card (UNIV :: u8 set)"
    by (rule card_image_le) simp
  then have "card (range (\<lambda>b :: u8. [b])) \<le> 256" by (simp add: card_word)
  then have "card (insert [] (range (\<lambda>b :: u8. [b]))) \<le> 257"
    using card_insert_le_m1 [of 257 "range (\<lambda>b :: u8. [b])" "[]"] by simp
  moreover have "card (set (filter (\<lambda>s. length s \<le> 1) xs)) \<le> card (insert [] (range (\<lambda>b :: u8. [b])))"
    using sub by (intro card_mono) auto
  ultimately show ?thesis by linarith
qed

lemma distinct_strings_bound:
  assumes "distinct (xs :: rstr list)" "sum_list (map length xs) \<le> u32_max"
  shows "length xs < NIL"
proof -
  have "2 * length (filter (\<lambda>s. \<not> length s \<le> 1) xs) \<le> sum_list (map length xs)"
    by (induction xs) auto
  moreover have "length (filter (\<lambda>s. length s \<le> 1) xs) \<le> 257"
    using card_short_strings [of xs] distinct_card [OF distinct_filter [OF assms(1)]] by metis
  moreover have "length (filter (\<lambda>s. length s \<le> 1) xs) + length (filter (\<lambda>s. \<not> length s \<le> 1) xs)
      = length xs"
    by (rule sum_length_filter_compl)
  ultimately show ?thesis using assms(2) by (simp add: NIL_eq u32_max_def)
qed

lemma ns_ok_capacity:
  assumes "ns_ok ar rs als ids"
    and "sum_list (map snd rs) + sum_list (map al_name_len als) \<le> u32_max"
  shows "length rs + length als < NIL"
proof -
  let ?xs = "map fst (spellings ar rs als)"
  have len: "length (name_at ar r) = snd r" if "range_ok ar r" for r
    using that by (simp add: range_ok_def length_name_at)
  have a: "map (length \<circ> name_at ar) rs = map snd rs"
    using assms(1) len by (auto simp: ns_ok_def)
  have b: "map (length \<circ> (\<lambda>a. name_at ar (alias_range a))) als = map al_name_len als"
    using assms(1) len by (auto simp: ns_ok_def alias_range_def)
  have "sum_list (map length ?xs) = sum_list (map snd rs) + sum_list (map al_name_len als)"
    by (simp add: map_fst_spellings a b)
  then have "length ?xs < NIL"
    using assms by (intro distinct_strings_bound) (auto simp: ns_ok_def)
  then show ?thesis by simp
qed

lemma entries_ok_length: "entries_ok U ar rs als ix \<Longrightarrow> length (ei_spans ix) = length rs + length als"
  unfolding entries_ok_def
  by (metis ei_entries_def length_map length_spellings size_image_mset size_mset)

lemma mset_spellings_intern:
  assumes "\<forall>r \<in> set rs. range_ok ar r" "\<forall>a \<in> set als. range_ok ar (alias_range a)"
  shows "mset (spellings (ar @ name) (rs @ [(length ar, length name)]) als)
           = add_mset (name, length rs) (mset (spellings ar rs als))"
  unfolding spellings_def
  by (simp add: spellings_append(2,3) [OF assms, of name])

lemma spellings_alias_snoc:
  assumes "\<forall>r \<in> set rs. range_ok ar r" "\<forall>a \<in> set als. range_ok ar (alias_range a)"
  shows "spellings (ar @ name) rs (als @ [\<lparr>al_name_offset = length ar, al_name_len = length name, al_target = t\<rparr>])
           = spellings ar rs als @ [(name, t)]"
proof -
  have "alias_spellings (ar @ name) (als @ [\<lparr>al_name_offset = length ar, al_name_len = length name, al_target = t\<rparr>])
      = alias_spellings (ar @ name) als @ [(name, t)]"
    by (simp add: alias_spellings_def alias_range_def)
  then show ?thesis
    unfolding spellings_def by (simp add: spellings_append(2,3) [OF assms, of name])
qed

lemma entries_ok_push:
  assumes "entries_ok U ar rs als ix" "ei_push U ix name i = Some ix'"
    and "mset (spellings ar' rs' als') = add_mset (name, i) (mset (spellings ar rs als))"
  shows "entries_ok U ar' rs' als' ix'"
  using assms ei_push_entries [OF assms(2)] by (simp add: entries_ok_def)

lemma entries_ok_append:
  assumes "entries_ok U ar rs als ix" "ns_ok ar rs als ids"
  shows "entries_ok U (ar @ x) rs als ix"
proof -
  have "spellings (ar @ x) rs als = spellings ar rs als"
    using assms(2) by (intro spellings_append) (auto simp: ns_ok_def)
  then show ?thesis using assms(1) by (simp add: entries_ok_def)
qed

lemma page_ok_append:
  assumes "page_ok ps (alias_spellings ar als)" "ns_ok ar rs als ids"
  shows "page_ok ps (alias_spellings (ar @ x) als)"
proof -
  have "alias_spellings (ar @ x) als = alias_spellings ar als"
    using assms(2) by (intro spellings_append(2) [of rs]) (auto simp: ns_ok_def)
  then show ?thesis using assms(1) by simp
qed

lemma page_ok_names_append:
  assumes "page_ok ps (map (\<lambda>r. (name_at ar r, ())) rs)" "ns_ok ar rs als ids"
  shows "page_ok ps (map (\<lambda>r. (name_at (ar @ x) r, ())) rs)"
proof -
  have "map (\<lambda>r. (name_at (ar @ x) r, ())) rs = map (\<lambda>r. (name_at ar r, ())) rs"
    using assms(2) by (auto simp: ns_ok_def range_ok_def name_at_append)
  then show ?thesis using assms(1) by (simp only:)
qed

lemma paging_arena:
  assumes "paging_inv c" "names_inv c"
  shows "page_ok (concept_alias_index c) (alias_spellings (arena c @ x) (concept_aliases c))"
    and "page_ok (label_alias_index c) (alias_spellings (arena c @ x) (label_aliases c))"
    and "page_ok (label_name_index c) (map (\<lambda>r. (name_at (arena c @ x) r, ())) (label_ranges c))"
  using assms page_ok_append page_ok_names_append
  unfolding paging_inv_def names_inv_def by blast+

lemma set_bt_insert_new:
  "k \<notin> fst ` set ps \<Longrightarrow> set (bt_insert k v ps) = insert (k, v) (set ps)"
  by (induction ps) auto

lemma page_ok_insert:
  assumes "page_ok ps es" "set es' = insert (k, v) (set es)" "k \<notin> fst ` set es"
  shows "page_ok (bt_insert k v ps) es'"
  using assms by (auto simp: page_ok_def bt_sorted_insert set_bt_insert_new)

section \<open>Interning a new name\<close>

lemma intern_name_Some [simp]:
  "length ar + length name \<le> u32_max \<Longrightarrow> intern_name ar name = Some (ar @ name, length ar, length name)"
  by (simp add: intern_name_def checked_add_usize_def u32_max_def usize_max_def)

lemma slack_bounds:
  assumes "ctx_inv U c"
  shows "sum_list (map snd (concept_ranges c)) + sum_list (map al_name_len (concept_aliases c)) \<le> u32_max"
    and "sum_list (map snd (label_ranges c)) + sum_list (map al_name_len (label_aliases c)) \<le> u32_max"
  using ctx_invD(2,9) [OF assms] by (auto simp: bounds_inv_def slack_inv_def live_bytes_def)

lemma concept_spans_lt: "ctx_inv U c \<Longrightarrow> length (ei_spans (concept_index c)) < NIL"
  using ns_ok_capacity [OF _ slack_bounds(1)] entries_ok_length ctx_invD(1,3)
  by (metis index_inv_def length_map names_inv_def)

lemma label_spans_lt: "ctx_inv U c \<Longrightarrow> length (ei_spans (label_index c)) < NIL"
  using ns_ok_capacity [OF _ slack_bounds(2)] entries_ok_length ctx_invD(1,3)
  by (metis index_inv_def length_map names_inv_def)

text \<open>Attribution invariants see only the lengths of the name tables.\<close>

lemma attr_inv_cong:
  assumes "attr_inv c f" "edges c' = edges c" "attributions c' = attributions c"
    "attribution_ids c' = attribution_ids c" "source_edges c' = source_edges c"
    "dead_edges c' = dead_edges c" "dead_attributions c' = dead_attributions c"
    "length (sources c) \<le> length (sources c')"
  shows "attr_inv c' f"
proof -
  have "edge_attr_ok (attributions c) (length (sources c')) e xs"
    if "edge_attr_ok (attributions c) (length (sources c)) e xs" for e xs
    using that assms(8) by (auto simp: edge_attr_ok_def)
  then show ?thesis using assms by (simp add: attr_defs)
qed

lemma intern_concept_new:
  assumes inv: "ctx_inv U c" and v: "utf8_valid name" and new: "concept_ids c name = None"
    and room: "length (concepts c) < NIL" "length (arena c) + length name \<le> u32_max"
  shows "\<exists>ix. intern_concept U c name = Some (length (concepts c),
      c\<lparr>arena := arena c @ name,
        concepts := concepts c @ [\<lparr>cr_name_offset = length (arena c), cr_name_len = length name,
          cr_first_outgoing = NIL, cr_last_outgoing = NIL, cr_outgoing_count = 0,
          cr_first_incoming = NIL, cr_last_incoming = NIL, cr_incoming_count = 0\<rparr>],
        concept_index := ix,
        concept_ids := (concept_ids c)(name \<mapsto> length (concepts c))\<rparr>) \<and>
      ctx_inv U (snd (the (intern_concept U c name)))"
proof -
  note I = ctx_invD [OF inv]
  note ns = I(1) [unfolded names_inv_def]
  obtain ix where push: "ei_push U (concept_index c) name (length (concepts c)) = Some ix"
    using ei_push_Some_iff concept_spans_lt [OF inv] by blast
  let ?r = "\<lparr>cr_name_offset = length (arena c), cr_name_len = length name,
      cr_first_outgoing = NIL, cr_last_outgoing = NIL, cr_outgoing_count = 0,
      cr_first_incoming = NIL, cr_last_incoming = NIL, cr_incoming_count = 0\<rparr>"
  let ?c = "c\<lparr>arena := arena c @ name, concepts := concepts c @ [?r], concept_index := ix,
      concept_ids := (concept_ids c)(name \<mapsto> length (concepts c))\<rparr>"
  have eq: "intern_concept U c name = Some (length (concepts c), ?c)"
    using new room push by (simp add: intern_concept_def)
  have rg: "concept_range ?r = (length (arena c), length name)" by (simp add: concept_range_def)
  have "names_inv ?c"
    using ns ns_ok_append ns_ok_intern [of "arena c" "concept_ranges c" _ _ name] new v
    by (simp add: names_inv_def rg)
  moreover have "bounds_inv ?c"
    using I(2) room by (simp add: bounds_inv_def)
  moreover have "index_inv U ?c"
  proof -
    have "mset (spellings (arena c @ name) (concept_ranges c @ [(length (arena c), length name)]) (concept_aliases c))
        = add_mset (name, length (concepts c)) (mset (spellings (arena c) (concept_ranges c) (concept_aliases c)))"
      using ns mset_spellings_intern [of "concept_ranges c" "arena c" "concept_aliases c" name]
      by (simp add: ns_ok_def)
    then show ?thesis
      using I(3) ns entries_ok_append entries_ok_push [OF _ push]
      by (auto simp: index_inv_def rg)
  qed
  moreover have "paging_inv ?c"
    using paging_arena [OF I(4,1), of name] by (simp add: paging_inv_def)
  moreover have "edges_inv ?c"
    using I(5) by (auto simp: edges_inv_def)
  moreover have "chain_inv ?c"
  proof -
    have e: "ed_subject (edges c ! e) < length (concepts c)" "ed_object (edges c ! e) < length (concepts c)"
      if "e < length (edges c)" for e
      using I(5) that by (auto simp: edges_inv_def)
    have a: "out_anchor (concepts c @ [?r]) i = out_anchor (concepts c) i"
      "in_anchor (concepts c @ [?r]) i = in_anchor (concepts c) i" if "i < length (concepts c)" for i
      using that by (simp_all add: out_anchor_def in_anchor_def nth_append)
    show ?thesis
      using I(6) e a by (auto simp: chain_inv_def out_anchor_def in_anchor_def
          intro!: chains_inv_new_owner)
  qed
  moreover have "\<exists>f. attr_inv ?c f"
    using I(7) attr_inv_cong [of c _ ?c] by auto
  moreover have "locators_inv ?c" using I(8) by (simp add: locators_inv_def)
  moreover have "slack_inv ?c" using I(9) by (simp add: slack_inv_def live_bytes_def comp_def concept_range_def label_range_def source_range_def)
  ultimately have "ctx_inv U ?c" using I(10) by (simp add: ctx_inv_def)
  with eq show ?thesis by auto
qed

lemma intern_label_new:
  assumes inv: "ctx_inv U c" and v: "utf8_valid name" and new: "label_ids c name = None"
    and room: "length (labels c) < NIL" "length (arena c) + length name \<le> u32_max"
  shows "\<exists>ix. intern_label U c name = Some (length (labels c),
      c\<lparr>arena := arena c @ name,
        labels := labels c @ [\<lparr>lr_name_offset = length (arena c), lr_name_len = length name,
          lr_first_edge = NIL, lr_last_edge = NIL, lr_edge_count = 0\<rparr>],
        label_index := ix,
        label_name_index := bt_insert name () (label_name_index c),
        label_ids := (label_ids c)(name \<mapsto> length (labels c))\<rparr>) \<and>
      ctx_inv U (snd (the (intern_label U c name)))"
proof -
  note I = ctx_invD [OF inv]
  note ns = I(1) [unfolded names_inv_def]
  obtain ix where push: "ei_push U (label_index c) name (length (labels c)) = Some ix"
    using ei_push_Some_iff label_spans_lt [OF inv] by blast
  let ?r = "\<lparr>lr_name_offset = length (arena c), lr_name_len = length name,
      lr_first_edge = NIL, lr_last_edge = NIL, lr_edge_count = 0\<rparr>"
  let ?c = "c\<lparr>arena := arena c @ name, labels := labels c @ [?r], label_index := ix,
      label_name_index := bt_insert name () (label_name_index c),
      label_ids := (label_ids c)(name \<mapsto> length (labels c))\<rparr>"
  have eq: "intern_label U c name = Some (length (labels c), ?c)"
    using new room push by (simp add: intern_label_def)
  have rg: "label_range ?r = (length (arena c), length name)" by (simp add: label_range_def)
  have "names_inv ?c"
    using ns ns_ok_append ns_ok_intern [of "arena c" "label_ranges c" _ _ name] new v
    by (simp add: names_inv_def rg)
  moreover have "bounds_inv ?c"
    using I(2) room by (simp add: bounds_inv_def)
  moreover have "index_inv U ?c"
  proof -
    have "mset (spellings (arena c @ name) (label_ranges c @ [(length (arena c), length name)]) (label_aliases c))
        = add_mset (name, length (labels c)) (mset (spellings (arena c) (label_ranges c) (label_aliases c)))"
      using ns mset_spellings_intern [of "label_ranges c" "arena c" "label_aliases c" name]
      by (simp add: ns_ok_def)
    then show ?thesis
      using I(3) ns entries_ok_append entries_ok_push [OF _ push]
      by (auto simp: index_inv_def rg)
  qed
  moreover have "paging_inv ?c"
  proof -
    have fresh: "name \<notin> fst ` set (map (\<lambda>r. (name_at (arena c @ name) r, ())) (label_ranges c))"
    proof
      assume "name \<in> fst ` set (map (\<lambda>r. (name_at (arena c @ name) r, ())) (label_ranges c))"
      then obtain i where "i < length (label_ranges c)"
          "name = name_at (arena c @ name) (label_ranges c ! i)"
        by (auto simp: in_set_conv_nth)
      moreover have "ns_ok (arena c @ name) (label_ranges c) (label_aliases c) (label_ids c)"
        using ns ns_ok_append by blast
      ultimately show False using ns_ok_name new by fastforce
    qed
    have "page_ok (bt_insert name () (label_name_index c))
        (map (\<lambda>r. (name_at (arena c @ name) r, ())) (label_ranges c @ [(length (arena c), length name)]))"
      by (rule page_ok_insert [OF paging_arena(3) [OF I(4,1)] _ fresh]) simp
    then show ?thesis
      using paging_arena(1,2) [OF I(4,1), of name] by (simp add: paging_inv_def rg)
  qed
  moreover have "edges_inv ?c"
    using I(5) by (auto simp: edges_inv_def)
  moreover have "chain_inv ?c"
  proof -
    have e: "ed_label (edges c ! e) < length (labels c)" if "e < length (edges c)" for e
      using I(5) that by (auto simp: edges_inv_def)
    have a: "label_anchor (labels c @ [?r]) i = label_anchor (labels c) i" if "i < length (labels c)" for i
      using that by (simp add: label_anchor_def nth_append)
    show ?thesis
      using I(6) e a by (auto simp: chain_inv_def label_anchor_def intro!: chains_inv_new_owner)
  qed
  moreover have "\<exists>f. attr_inv ?c f"
    using I(7) attr_inv_cong [of c _ ?c] by auto
  moreover have "locators_inv ?c" using I(8) by (simp add: locators_inv_def)
  moreover have "slack_inv ?c" using I(9) by (simp add: slack_inv_def live_bytes_def comp_def concept_range_def label_range_def source_range_def)
  ultimately have "ctx_inv U ?c" using I(10) by (simp add: ctx_inv_def)
  with eq show ?thesis by auto
qed

lemma intern_source_new:
  assumes inv: "ctx_inv U c" and v: "utf8_valid name" and new: "source_ids c name = None"
    and room: "length (sources c) < NIL" "length (arena c) + length name \<le> u32_max"
  shows "intern_source c name = Some (length (sources c),
      c\<lparr>arena := arena c @ name,
        sources := sources c @ [\<lparr>sr_name_offset = length (arena c), sr_name_len = length name\<rparr>],
        source_ids := (source_ids c)(name \<mapsto> length (sources c))\<rparr>) \<and>
      ctx_inv U (snd (the (intern_source c name)))"
proof -
  note I = ctx_invD [OF inv]
  note ns = I(1) [unfolded names_inv_def]
  let ?r = "\<lparr>sr_name_offset = length (arena c), sr_name_len = length name\<rparr>"
  let ?c = "c\<lparr>arena := arena c @ name, sources := sources c @ [?r],
      source_ids := (source_ids c)(name \<mapsto> length (sources c))\<rparr>"
  have eq: "intern_source c name = Some (length (sources c), ?c)"
    using new room by (simp add: intern_source_def)
  have rg: "source_range ?r = (length (arena c), length name)" by (simp add: source_range_def)
  have "names_inv ?c"
    using ns ns_ok_append ns_ok_intern [of "arena c" "source_ranges c" _ _ name] new v
    by (simp add: names_inv_def rg)
  moreover have "bounds_inv ?c" using I(2) room by (simp add: bounds_inv_def)
  moreover have "index_inv U ?c"
    using I(3) ns entries_ok_append by (auto simp: index_inv_def)
  moreover have "paging_inv ?c"
    using paging_arena [OF I(4,1), of name] by (simp add: paging_inv_def)
  moreover have "edges_inv ?c" using I(5) by (auto simp: edges_inv_def)
  moreover have "chain_inv ?c" using I(6) by (simp add: chain_inv_def)
  moreover have "\<exists>f. attr_inv ?c f" using I(7) attr_inv_cong [of c _ ?c] by auto
  moreover have "locators_inv ?c" using I(8) by (simp add: locators_inv_def)
  moreover have "slack_inv ?c" using I(9) by (simp add: slack_inv_def live_bytes_def comp_def concept_range_def label_range_def source_range_def)
  ultimately have "ctx_inv U ?c" using I(10) by (simp add: ctx_inv_def)
  with eq show ?thesis by auto
qed

section \<open>The interner contract\<close>

locale interner =
  fixes inv :: "ctx \<Rightarrow> bool"
    and intern :: "ctx \<Rightarrow> rstr \<Rightarrow> (nat \<times> ctx) option"
    and ids :: "ctx \<Rightarrow> rstr \<rightharpoonup> nat"
    and size_of :: "ctx \<Rightarrow> nat"
    and same :: "ctx \<Rightarrow> ctx \<Rightarrow> bool"
  assumes hit: "ids c name = Some i \<Longrightarrow> intern c name = Some (i, c)"
    and bound: "inv c \<Longrightarrow> ids c name = Some i \<Longrightarrow> i < size_of c"
    and miss: "inv c \<Longrightarrow> utf8_valid name \<Longrightarrow> ids c name = None \<Longrightarrow> size_of c < NIL \<Longrightarrow>
      length (arena c) + length name \<le> u32_max \<Longrightarrow>
      \<exists>c'. intern c name = Some (size_of c, c') \<and> inv c' \<and> same c c' \<and>
           ids c' = (ids c)(name \<mapsto> size_of c) \<and> arena c' = arena c @ name \<and>
           size_of c' = Suc (size_of c)"
    and same_refl: "same c c"
begin

text \<open>With room for the name, interning returns an id that the spelling then resolves to.\<close>

lemma intern_spec:
  assumes "inv c" "utf8_valid name"
    and "ids c name = None \<Longrightarrow> size_of c < NIL \<and> length (arena c) + length name \<le> u32_max"
  shows "\<exists>i c'. intern c name = Some (i, c') \<and> inv c' \<and> same c c' \<and> i < size_of c' \<and>
     ids c' = (ids c)(name \<mapsto> i) \<and> size_of c \<le> size_of c' \<and>
     size_of c' = size_of c + (if ids c name = None then 1 else 0) \<and>
     arena c' = arena c @ (if ids c name = None then name else [])"
proof (cases "ids c name")
  case None
  with assms miss [of c name] show ?thesis by auto
next
  case (Some i)
  then have "(ids c)(name \<mapsto> i) = ids c" by auto
  with Some assms hit bound same_refl show ?thesis by auto
qed

text \<open>Interning a spelling twice changes nothing the second time.\<close>

lemma intern_again:
  assumes "inv c" "utf8_valid name" "intern c name = Some (i, c')"
    and "ids c name = None \<Longrightarrow> size_of c < NIL \<and> length (arena c) + length name \<le> u32_max"
  shows "intern c' name = Some (i, c')"
  using intern_spec [OF assms(1,2,4)] assms(3) hit [of c' name i] by auto

end

text \<open>What interning a concept, a label or a source leaves alone.\<close>

definition same_but_concepts :: "ctx \<Rightarrow> ctx \<Rightarrow> bool" where
  "same_but_concepts c c' \<longleftrightarrow> (\<exists>ar cs ix ids. c' = c\<lparr>arena := arena c @ ar, concepts := concepts c @ cs,
     concept_index := ix, concept_ids := ids\<rparr>)"

definition same_but_labels :: "ctx \<Rightarrow> ctx \<Rightarrow> bool" where
  "same_but_labels c c' \<longleftrightarrow> (\<exists>ar ls ix nx ids. c' = c\<lparr>arena := arena c @ ar, labels := labels c @ ls,
     label_index := ix, label_name_index := nx, label_ids := ids\<rparr>)"

definition same_but_sources :: "ctx \<Rightarrow> ctx \<Rightarrow> bool" where
  "same_but_sources c c' \<longleftrightarrow> (\<exists>ar ss ids. c' = c\<lparr>arena := arena c @ ar, sources := sources c @ ss,
     source_ids := ids\<rparr>)"

lemma ids_bound:
  assumes "ctx_inv U c"
  shows "concept_ids c k = Some i \<Longrightarrow> i < length (concepts c)"
    and "label_ids c k = Some i \<Longrightarrow> i < length (labels c)"
    and "source_ids c k = Some i \<Longrightarrow> i < length (sources c)"
  using ctx_invD(1) [OF assms] ns_ok_id_bound
  unfolding names_inv_def by (metis length_map)+

interpretation concept_interner:
  interner "ctx_inv U" "intern_concept U" concept_ids "\<lambda>c. length (concepts c)" same_but_concepts for U
proof unfold_locales
  show "same_but_concepts c c" for c
    unfolding same_but_concepts_def
    by (rule exI [of _ "[]"], rule exI [of _ "[]"], rule exI [of _ "concept_index c"],
        rule exI [of _ "concept_ids c"]) simp
  fix c name assume "ctx_inv U c" "utf8_valid name" "concept_ids c name = None"
    "length (concepts c) < NIL" "length (arena c) + length name \<le> u32_max"
  from intern_concept_new [OF this] show "\<exists>c'. intern_concept U c name = Some (length (concepts c), c') \<and>
      ctx_inv U c' \<and> same_but_concepts c c' \<and> concept_ids c' = (concept_ids c)(name \<mapsto> length (concepts c)) \<and>
      arena c' = arena c @ name \<and> length (concepts c') = Suc (length (concepts c))"
    unfolding same_but_concepts_def by fastforce
qed (auto simp: intern_concept_def dest: ids_bound)

interpretation label_interner:
  interner "ctx_inv U" "intern_label U" label_ids "\<lambda>c. length (labels c)" same_but_labels for U
proof unfold_locales
  show "same_but_labels c c" for c
    unfolding same_but_labels_def
    by (rule exI [of _ "[]"], rule exI [of _ "[]"], rule exI [of _ "label_index c"],
        rule exI [of _ "label_name_index c"], rule exI [of _ "label_ids c"]) simp
  fix c name assume "ctx_inv U c" "utf8_valid name" "label_ids c name = None"
    "length (labels c) < NIL" "length (arena c) + length name \<le> u32_max"
  from intern_label_new [OF this] show "\<exists>c'. intern_label U c name = Some (length (labels c), c') \<and>
      ctx_inv U c' \<and> same_but_labels c c' \<and> label_ids c' = (label_ids c)(name \<mapsto> length (labels c)) \<and>
      arena c' = arena c @ name \<and> length (labels c') = Suc (length (labels c))"
    unfolding same_but_labels_def by fastforce
qed (auto simp: intern_label_def dest: ids_bound)

interpretation source_interner:
  interner "ctx_inv U" intern_source source_ids "\<lambda>c. length (sources c)" same_but_sources for U
proof unfold_locales
  show "same_but_sources c c" for c
    unfolding same_but_sources_def
    by (rule exI [of _ "[]"], rule exI [of _ "[]"], rule exI [of _ "source_ids c"]) simp
  fix c name assume "ctx_inv U c" "utf8_valid name" "source_ids c name = None"
    "length (sources c) < NIL" "length (arena c) + length name \<le> u32_max"
  from intern_source_new [OF this] show "\<exists>c'. intern_source c name = Some (length (sources c), c') \<and>
      ctx_inv U c' \<and> same_but_sources c c' \<and> source_ids c' = (source_ids c)(name \<mapsto> length (sources c)) \<and>
      arena c' = arena c @ name \<and> length (sources c') = Suc (length (sources c))"
    unfolding same_but_sources_def by fastforce
qed (auto simp: intern_source_def dest: ids_bound)

end
