(* ===== verification/Write.thy ===== *)
theory Write
  imports Interning
begin

text \<open>
  The write path of \<^verbatim>\<open>src/context/write.rs\<close>: the capacity pre-flight, the upsert of one
  assertion with its attribution, and what they keep true.
\<close>

section \<open>The pre-flight\<close>

definition ensure_room :: "ctx \<Rightarrow> rstr \<Rightarrow> rstr \<Rightarrow> rstr \<Rightarrow> rstr option \<Rightarrow> context_full + unit" where
  "ensure_room c subject label object source =
     (let subject_new = (concept_ids c subject = None);
          object_new = (object \<noteq> subject \<and> concept_ids c object = None);
          label_new = (label_ids c label = None);
          source_new = (case source of None \<Rightarrow> False | Some name \<Rightarrow> source_ids c name = None);
          new_concepts = (if subject_new then 1 else 0) + (if object_new then 1 else 0);
          existing_edge =
            (case (concept_ids c subject, label_ids c label, concept_ids c object) of
               (Some s, Some l, Some ob) \<Rightarrow> edge_ids c (s, l, ob)
             | _ \<Rightarrow> None);
          already_attributed =
            (case (existing_edge, source) of
               (Some e, Some name) \<Rightarrow>
                 (case source_ids c name of None \<Rightarrow> False
                  | Some sid \<Rightarrow> attribution_ids c (e, sid) \<noteq> None)
             | _ \<Rightarrow> False);
          arena_growth =
            (if subject_new then length subject else 0) + (if object_new then length object else 0)
            + (if label_new then length label else 0)
            + (if source_new then (case source of None \<Rightarrow> 0 | Some name \<Rightarrow> length name) else 0)
      in if \<not> ids_left (length (concepts c)) new_concepts
         then Inl (ContextFull ''the concept table is out of u32 ids'')
         else if label_new \<and> \<not> ids_left (length (labels c)) 1
         then Inl (ContextFull ''the label table is out of u32 ids'')
         else if source_new \<and> \<not> ids_left (length (sources c)) 1
         then Inl (ContextFull ''the source table is out of u32 ids'')
         else if existing_edge = None \<and> \<not> ids_left (length (edges c)) 1
         then Inl (ContextFull ''the edge table is out of u32 ids'')
         else if source \<noteq> None \<and> \<not> already_attributed \<and> \<not> ids_left (length (attributions c)) 1
         then Inl (ContextFull ''the attribution table is out of u32 ids'')
         else if \<not> arena_fits (length (arena c)) arena_growth
         then Inl (ContextFull ''the string arena is out of offset space'')
         else Inr ())"

section \<open>Edges\<close>

text \<open>
  A brand-new edge: claimed, indexed, pushed, and appended to its subject's, its object's and
  its label's chain. \<open>upsert\<close> and \<open>install_edge\<close> share this sequence.
\<close>

definition push_edge :: "ctx \<Rightarrow> edge_record \<Rightarrow> (nat \<times> ctx) option" where
  "push_edge c r =
     do {
       edge_id \<leftarrow> claim_id (length (edges c));
       let es0 = edges c @ [r];
       node \<leftarrow> nth_opt (concepts c) (ed_subject r);
       (es1, f1, l1, k1) \<leftarrow> append_to_chain es0
          (cr_first_outgoing node, cr_last_outgoing node, cr_outgoing_count node) edge_id
          (\<lambda>n e. e\<lparr>ed_next_outgoing := n\<rparr>);
       let cs1 = (concepts c)[ed_subject r := node\<lparr>cr_first_outgoing := f1,
                    cr_last_outgoing := l1, cr_outgoing_count := k1\<rparr>];
       node2 \<leftarrow> nth_opt cs1 (ed_object r);
       (es2, f2, l2, k2) \<leftarrow> append_to_chain es1
          (cr_first_incoming node2, cr_last_incoming node2, cr_incoming_count node2) edge_id
          (\<lambda>n e. e\<lparr>ed_next_incoming := n\<rparr>);
       let cs2 = cs1[ed_object r := node2\<lparr>cr_first_incoming := f2,
                    cr_last_incoming := l2, cr_incoming_count := k2\<rparr>];
       lab \<leftarrow> nth_opt (labels c) (ed_label r);
       (es3, f3, l3, k3) \<leftarrow> append_to_chain es2
          (lr_first_edge lab, lr_last_edge lab, lr_edge_count lab) edge_id
          (\<lambda>n e. e\<lparr>ed_next_labeled := n\<rparr>);
       let ls = (labels c)[ed_label r := lab\<lparr>lr_first_edge := f3, lr_last_edge := l3,
                    lr_edge_count := k3\<rparr>];
       Some (edge_id, c\<lparr>concepts := cs2, labels := ls, edges := es3,
         edge_ids := (edge_ids c)((ed_subject r, ed_label r, ed_object r) \<mapsto> edge_id)\<rparr>)
     }"

text \<open>\<open>self.dead_edges -= 1\<close> on a \<open>usize\<close>.\<close>

definition usize_dec :: "nat \<Rightarrow> nat" where
  "usize_dec n = (n + (2 ^ 64 - 1)) mod 2 ^ 64"

text \<open>One more assertion of an existing edge, reviving it if it was dead.\<close>

definition fold_edge :: "ctx \<Rightarrow> nat \<Rightarrow> f64 \<Rightarrow> ctx option" where
  "fold_edge c edge_id weight =
     do {
       e \<leftarrow> nth_opt (edges c) edge_id;
       let was_dead = (ed_count e = 0);
       let e' = e\<lparr>ed_sum := accumulate_saturating (ed_sum e) weight, ed_count := u64_add (ed_count e) 1\<rparr>;
       Some (c\<lparr>edges := (edges c)[edge_id := e'],
               dead_edges := (if was_dead then usize_dec (dead_edges c) else dead_edges c)\<rparr>)
     }"

section \<open>Attributions\<close>

definition push_attribution ::
    "ctx \<Rightarrow> nat \<Rightarrow> nat \<Rightarrow> nat \<Rightarrow> f64 \<Rightarrow> nat option \<Rightarrow> ctx option" where
  "push_attribution c edge_id source_id cnt wsum paragraph =
     do {
       attribution_id \<leftarrow> claim_id (length (attributions c));
       let ats = attributions c @ [\<lparr>at_source = source_id, at_next = NIL, at_count = cnt, at_sum = wsum\<rparr>];
       let los = attribution_locators c @
                  (case paragraph of None \<Rightarrow> []
                   | Some p \<Rightarrow> [\<lparr>lo_attribution = attribution_id, lo_paragraph = p\<rparr>]);
       e \<leftarrow> nth_opt (edges c) edge_id;
       let tail = ed_last_attribution e;
       let e' = (if tail = NIL then e\<lparr>ed_first_attribution := attribution_id\<rparr> else e)
                  \<lparr>ed_last_attribution := attribution_id\<rparr>;
       ats' \<leftarrow> (if tail \<noteq> NIL then update_opt ats tail (\<lambda>r. r\<lparr>at_next := attribution_id\<rparr>) else Some ats);
       Some (c\<lparr>attributions := ats',
               attribution_ids := (attribution_ids c)((edge_id, source_id) \<mapsto> attribution_id),
               source_edges := (source_edges c)(source_id \<mapsto>
                  (case source_edges c source_id of None \<Rightarrow> [] | Some es \<Rightarrow> es) @ [edge_id]),
               attribution_locators := los,
               edges := (edges c)[edge_id := e']\<rparr>)
     }"

definition attribute :: "ctx \<Rightarrow> nat \<Rightarrow> nat \<Rightarrow> f64 \<Rightarrow> nat option \<Rightarrow> ctx option" where
  "attribute c edge_id source_id weight paragraph =
     (case attribution_ids c (edge_id, source_id) of
        Some existing \<Rightarrow> do {
          r \<leftarrow> nth_opt (attributions c) existing;
          Some (c\<lparr>attributions := (attributions c)[existing :=
            r\<lparr>at_sum := accumulate_saturating (at_sum r) weight, at_count := u64_add (at_count r) 1\<rparr>]\<rparr>)
        }
      | None \<Rightarrow> push_attribution c edge_id source_id 1 weight paragraph)"

section \<open>The upsert\<close>

definition new_edge :: "nat \<Rightarrow> nat \<Rightarrow> nat \<Rightarrow> nat \<Rightarrow> f64 \<Rightarrow> edge_record" where
  "new_edge s l ob cnt wsum = \<lparr>ed_subject = s, ed_label = l, ed_object = ob,
     ed_next_outgoing = NIL, ed_next_incoming = NIL, ed_next_labeled = NIL,
     ed_first_attribution = NIL, ed_last_attribution = NIL, ed_count = cnt, ed_sum = wsum\<rparr>"

definition upsert ::
    "unicode \<Rightarrow> ctx \<Rightarrow> rstr \<Rightarrow> rstr \<Rightarrow> rstr \<Rightarrow> f64 \<Rightarrow> rstr option \<Rightarrow> nat option \<Rightarrow>
     (context_full + ctx) option" where
  "upsert U c subject label object weight source paragraph =
     (if \<not> is_finite weight then None
      else case ensure_room c subject label object source of
        Inl full \<Rightarrow> Some (Inl full)
      | Inr _ \<Rightarrow> do {
          (subject_id, c1) \<leftarrow> intern_concept U c subject;
          (object_id, c2) \<leftarrow> intern_concept U c1 object;
          (label_id, c3) \<leftarrow> intern_label U c2 label;
          (source_id, c4) \<leftarrow> (case source of None \<Rightarrow> Some (None, c3)
             | Some name \<Rightarrow> map_option (apfst Some) (intern_source c3 name));
          (edge_id, c5) \<leftarrow> (case edge_ids c4 (subject_id, label_id, object_id) of
               Some edge_id \<Rightarrow> map_option (Pair edge_id) (fold_edge c4 edge_id weight)
             | None \<Rightarrow> push_edge c4 (new_edge subject_id label_id object_id 1 weight));
          c6 \<leftarrow> (case source_id of None \<Rightarrow> Some c5
             | Some sid \<Rightarrow> attribute c5 edge_id sid weight paragraph);
          Some (Inr c6)
        })"

definition associate :: "unicode \<Rightarrow> ctx \<Rightarrow> rstr \<Rightarrow> rstr \<Rightarrow> rstr \<Rightarrow> f64 \<Rightarrow> (context_full + ctx) option" where
  "associate U c subject label object weight = upsert U c subject label object weight None None"

definition associate_from ::
    "unicode \<Rightarrow> ctx \<Rightarrow> rstr \<Rightarrow> rstr \<Rightarrow> rstr \<Rightarrow> f64 \<Rightarrow> rstr \<Rightarrow> nat option \<Rightarrow> (context_full + ctx) option" where
  "associate_from U c subject label object weight source paragraph =
     upsert U c subject label object weight (Some source) paragraph"

section \<open>A new edge keeps the invariant\<close>

text \<open>The link fields \<open>push_edge\<close> writes: everything else about an edge is kept.\<close>

definition same_payload :: "edge_record \<Rightarrow> edge_record \<Rightarrow> bool" where
  "same_payload e e' \<longleftrightarrow> triple e' = triple e \<and> ed_first_attribution e' = ed_first_attribution e \<and>
     ed_last_attribution e' = ed_last_attribution e \<and> ed_count e' = ed_count e \<and> ed_sum e' = ed_sum e"

definition same_names :: "ctx \<Rightarrow> ctx \<Rightarrow> bool" where
  "same_names c c' \<longleftrightarrow> arena c' = arena c \<and> concept_ranges c' = concept_ranges c \<and>
     label_ranges c' = label_ranges c \<and> sources c' = sources c \<and>
     concept_aliases c' = concept_aliases c \<and> label_aliases c' = label_aliases c \<and>
     concept_ids c' = concept_ids c \<and> label_ids c' = label_ids c \<and> source_ids c' = source_ids c \<and>
     concept_alias_index c' = concept_alias_index c \<and> label_alias_index c' = label_alias_index c \<and>
     label_name_index c' = label_name_index c \<and> concept_index c' = concept_index c \<and>
     label_index c' = label_index c \<and> arena_slack c' = arena_slack c \<and> applied_seq c' = applied_seq c \<and>
     dice_floor c' = dice_floor c"

lemma same_names_refl [simp]: "same_names c c"
  by (simp add: same_names_def)

lemma same_names_trans: "same_names c c1 \<Longrightarrow> same_names c1 c2 \<Longrightarrow> same_names c c2"
  by (simp add: same_names_def)

lemma same_names_lengths:
  assumes "same_names c c'"
  shows "length (concepts c') = length (concepts c)" "length (labels c') = length (labels c)"
  using assms by (metis same_names_def length_map)+

lemma same_names_inv:
  assumes "same_names c c'"
  shows "names_inv c \<Longrightarrow> names_inv c'" "index_inv U c \<Longrightarrow> index_inv U c'"
    "paging_inv c \<Longrightarrow> paging_inv c'" "slack_inv c \<Longrightarrow> slack_inv c'"
  using assms by (simp_all only: same_names_def names_inv_def index_inv_def paging_inv_def
      slack_inv_def live_bytes_def)

lemma edge_ids_iff:
  "edges_inv c \<Longrightarrow> edge_ids c k = Some i \<longleftrightarrow> i < length (edges c) \<and> triple (edges c ! i) = k"
  unfolding edges_inv_def by blast

lemma push_edge_spec:
  assumes es: "edges_inv c" and ch: "chain_inv c" and room: "length (edges c) < NIL"
    and r: "ed_subject r < length (concepts c)" "ed_object r < length (concepts c)"
      "ed_label r < length (labels c)" "ed_next_outgoing r = NIL" "ed_next_incoming r = NIL"
      "ed_next_labeled r = NIL" and new: "edge_ids c (triple r) = None"
  shows "\<exists>cs ls es' ids c'. push_edge c r = Some (length (edges c), c') \<and>
     c' = c\<lparr>concepts := cs, labels := ls, edges := es', edge_ids := ids\<rparr> \<and>
     same_names c c' \<and> edges_inv c' \<and> chain_inv c' \<and>
     length es' = Suc (length (edges c)) \<and>
     (\<forall>e \<le> length (edges c). same_payload ((edges c @ [r]) ! e) (es' ! e))"
proof -
  let ?n = "length (edges c)" and ?s = "ed_subject r" and ?o = "ed_object r" and ?l = "ed_label r"
  let ?es0 = "edges c @ [r]"
  note ch = ch [unfolded chain_inv_def]
  have "\<exists>es1 a1. append_to_chain ?es0 (out_anchor (concepts c) ?s) ?n
        (\<lambda>n e. e\<lparr>ed_next_outgoing := n\<rparr>) = Some (es1, a1) \<and>
      chains_inv ed_next_outgoing ed_subject ((out_anchor (concepts c))(?s := a1)) (length (concepts c)) es1 \<and>
      length es1 = Suc ?n \<and>
      (es1 = ?es0 \<or> (\<exists>t < ?n. es1 = ?es0[t := (?es0 ! t)\<lparr>ed_next_outgoing := ?n\<rparr>]))"
    using room r(4) by (intro out_chain.push_append [OF ch [THEN conjunct1] r(1) refl]) auto
  then obtain es1 a1 where ap1: "append_to_chain ?es0 (out_anchor (concepts c) ?s) ?n
        (\<lambda>n e. e\<lparr>ed_next_outgoing := n\<rparr>) = Some (es1, a1)"
    and c1: "chains_inv ed_next_outgoing ed_subject ((out_anchor (concepts c))(?s := a1)) (length (concepts c)) es1"
    and l1: "length es1 = Suc ?n"
    and u1: "es1 = ?es0 \<or> (\<exists>t < ?n. es1 = ?es0[t := (?es0 ! t)\<lparr>ed_next_outgoing := ?n\<rparr>])"
    by blast
  have g1: "ed_next_incoming (es1 ! e) = ed_next_incoming (?es0 ! e)"
       "ed_next_labeled (es1 ! e) = ed_next_labeled (?es0 ! e)"
       "same_payload (?es0 ! e) (es1 ! e)" if "e \<le> ?n" for e
    using u1 that by (auto simp: nth_list_update same_payload_def triple_def)
  then have t1: "ed_object (es1 ! e) = ed_object (?es0 ! e)" "ed_label (es1 ! e) = ed_label (?es0 ! e)"
    if "e \<le> ?n" for e using that by (auto simp: same_payload_def triple_def)
  have "\<exists>es2 a2. append_to_chain es1 (in_anchor (concepts c) ?o) ?n
        (\<lambda>n e. e\<lparr>ed_next_incoming := n\<rparr>) = Some (es2, a2) \<and>
      chains_inv ed_next_incoming ed_object ((in_anchor (concepts c))(?o := a2)) (length (concepts c)) es2 \<and>
      length es2 = Suc ?n \<and>
      (es2 = es1 \<or> (\<exists>t < ?n. es2 = es1[t := (es1 ! t)\<lparr>ed_next_incoming := ?n\<rparr>]))"
    using room r(5) l1 g1 t1
    by (intro in_chain.push_append [OF ch [THEN conjunct2, THEN conjunct1] r(2) refl]) auto
  then obtain es2 a2 where ap2: "append_to_chain es1 (in_anchor (concepts c) ?o) ?n
        (\<lambda>n e. e\<lparr>ed_next_incoming := n\<rparr>) = Some (es2, a2)"
    and c2: "chains_inv ed_next_incoming ed_object ((in_anchor (concepts c))(?o := a2)) (length (concepts c)) es2"
    and l2: "length es2 = Suc ?n"
    and u2: "es2 = es1 \<or> (\<exists>t < ?n. es2 = es1[t := (es1 ! t)\<lparr>ed_next_incoming := ?n\<rparr>])"
    by blast
  have g2: "ed_next_outgoing (es2 ! e) = ed_next_outgoing (es1 ! e)"
       "ed_next_labeled (es2 ! e) = ed_next_labeled (?es0 ! e)"
       "same_payload (?es0 ! e) (es2 ! e)" if "e \<le> ?n" for e
    using u2 that g1 l1 by (auto simp: nth_list_update same_payload_def triple_def)
  then have t2: "ed_label (es2 ! e) = ed_label (?es0 ! e)"
    if "e \<le> ?n" for e using that by (auto simp: same_payload_def triple_def)
  have "\<exists>es3 a3. append_to_chain es2 (label_anchor (labels c) ?l) ?n
        (\<lambda>n e. e\<lparr>ed_next_labeled := n\<rparr>) = Some (es3, a3) \<and>
      chains_inv ed_next_labeled ed_label ((label_anchor (labels c))(?l := a3)) (length (labels c)) es3 \<and>
      length es3 = Suc ?n \<and>
      (es3 = es2 \<or> (\<exists>t < ?n. es3 = es2[t := (es2 ! t)\<lparr>ed_next_labeled := ?n\<rparr>]))"
    using room r(6) l2 g2 t2
    by (intro label_chain.push_append [OF ch [THEN conjunct2, THEN conjunct2] r(3) refl]) auto
  then obtain es3 a3 where ap3: "append_to_chain es2 (label_anchor (labels c) ?l) ?n
        (\<lambda>n e. e\<lparr>ed_next_labeled := n\<rparr>) = Some (es3, a3)"
    and c3: "chains_inv ed_next_labeled ed_label ((label_anchor (labels c))(?l := a3)) (length (labels c)) es3"
    and l3: "length es3 = Suc ?n"
    and u3: "es3 = es2 \<or> (\<exists>t < ?n. es3 = es2[t := (es2 ! t)\<lparr>ed_next_labeled := ?n\<rparr>])"
    by blast
  have g3: "ed_next_outgoing (es3 ! e) = ed_next_outgoing (es1 ! e)"
       "ed_next_incoming (es3 ! e) = ed_next_incoming (es2 ! e)"
       "same_payload (?es0 ! e) (es3 ! e)" if "e \<le> ?n" for e
    using u3 that g2 l2 by (auto simp: nth_list_update same_payload_def triple_def)
  obtain f1 k1 m1 where a1: "a1 = (f1, k1, m1)" by (cases a1)
  obtain f2 k2 m2 where a2: "a2 = (f2, k2, m2)" by (cases a2)
  obtain f3 k3 m3 where a3: "a3 = (f3, k3, m3)" by (cases a3)
  let ?node = "concepts c ! ?s"
  let ?cs1 = "(concepts c)[?s := ?node\<lparr>cr_first_outgoing := f1, cr_last_outgoing := k1, cr_outgoing_count := m1\<rparr>]"
  let ?node2 = "?cs1 ! ?o"
  let ?cs2 = "?cs1[?o := ?node2\<lparr>cr_first_incoming := f2, cr_last_incoming := k2, cr_incoming_count := m2\<rparr>]"
  let ?ls = "(labels c)[?l := (labels c ! ?l)\<lparr>lr_first_edge := f3, lr_last_edge := k3, lr_edge_count := m3\<rparr>]"
  let ?c = "c\<lparr>concepts := ?cs2, labels := ?ls, edges := es3, edge_ids := (edge_ids c)((?s, ?l, ?o) \<mapsto> ?n)\<rparr>"
  have in1: "(cr_first_incoming ?node2, cr_last_incoming ?node2, cr_incoming_count ?node2)
      = in_anchor (concepts c) ?o"
    using r by (simp add: in_anchor_def nth_list_update)
  have push: "push_edge c r = Some (?n, ?c)"
    using ap1 ap2 ap3 room r in1 unfolding push_edge_def
    by (simp add: a1 a2 a3 out_anchor_def label_anchor_def Let_def)
  have names: "same_names c ?c"
    using r by (simp add: same_names_def concept_range_def label_range_def list_eq_iff_nth_eq
        nth_list_update)
  have edges: "edges_inv ?c"
  proof -
    have tr: "triple (es3 ! e) = triple (?es0 ! e)" if "e \<le> ?n" for e
      using g3(3) [OF that] by (simp add: same_payload_def)
    have "\<forall>e \<in> set es3. ed_subject e < length (concepts c) \<and> ed_object e < length (concepts c) \<and>
        ed_label e < length (labels c)"
      using tr l3 r es by (fastforce simp: edges_inv_def in_set_conv_nth triple_def nth_append less_Suc_eq_le)
    moreover have "((edge_ids c)((?s, ?l, ?o) \<mapsto> ?n)) k = Some i \<longleftrightarrow> i < length es3 \<and> triple (es3 ! i) = k" for k i
    proof -
      have E: "edge_ids c k = Some i \<longleftrightarrow> i < ?n \<and> triple (edges c ! i) = k"
        by (rule edge_ids_iff [OF es])
      have tn: "triple (es3 ! ?n) = triple r" using tr [of ?n] by simp
      have ti: "triple (es3 ! i) = triple (edges c ! i)" if "i < ?n"
        using tr [of i] that by (simp add: nth_append)
      consider "i < ?n" | "i = ?n" | "?n < i" by linarith
      then show ?thesis
        using E new l3 tn ti by cases (auto simp: triple_def)
    qed
    ultimately show ?thesis by (simp add: edges_inv_def)
  qed
  have chains: "chain_inv ?c"
  proof -
    have e3: "ed_subject (es3 ! e) = ed_subject (es1 ! e)" "ed_object (es3 ! e) = ed_object (es2 ! e)"
      if "e \<le> ?n" for e using g1(3) g2(3) g3(3) that by (auto simp: same_payload_def triple_def)
    have "chains_inv ed_next_outgoing ed_subject (out_anchor ?cs2) (length (concepts c)) es3"
      using c1 l1 l3 g3(1) e3(1) r
      by (subst chains_inv_cong [of es3 es1 _ _ _ _ "(out_anchor (concepts c))(?s := a1)"])
         (auto simp: out_anchor_def a1 nth_list_update)
    moreover have "chains_inv ed_next_incoming ed_object (in_anchor ?cs2) (length (concepts c)) es3"
      using c2 l2 l3 g3(2) e3(2) r
      by (subst chains_inv_cong [of es3 es2 _ _ _ _ "(in_anchor (concepts c))(?o := a2)"])
         (auto simp: in_anchor_def a2 nth_list_update)
    moreover have "chains_inv ed_next_labeled ed_label (label_anchor ?ls) (length (labels c)) es3"
      using c3 r
      by (subst chains_inv_cong [of es3 es3 _ _ _ _ "(label_anchor (labels c))(?l := a3)"])
         (auto simp: label_anchor_def a3 nth_list_update)
    ultimately show ?thesis by (simp add: chain_inv_def)
  qed
  show ?thesis
    by (rule exI [of _ ?cs2], rule exI [of _ ?ls], rule exI [of _ es3],
        rule exI [of _ "(edge_ids c)((?s, ?l, ?o) \<mapsto> ?n)"], rule exI [of _ ?c])
       (use push names edges chains l3 g3(3) in auto)
qed

section \<open>Updating one edge in place\<close>

lemma edge_update_inv:
  assumes "i < length (edges c)" "triple e' = triple (edges c ! i)"
    "ed_next_outgoing e' = ed_next_outgoing (edges c ! i)"
    "ed_next_incoming e' = ed_next_incoming (edges c ! i)"
    "ed_next_labeled e' = ed_next_labeled (edges c ! i)"
    and "concepts c' = concepts c" "labels c' = labels c" "edge_ids c' = edge_ids c"
    "edges c' = (edges c)[i := e']"
  shows "edges_inv c \<Longrightarrow> edges_inv c'" "chain_inv c \<Longrightarrow> chain_inv c'"
proof -
  have t: "triple (edges c' ! e) = triple (edges c ! e)" for e
    using assms by (cases "i = e") auto
  have ids: "ed_subject (edges c' ! e) = ed_subject (edges c ! e)"
    "ed_object (edges c' ! e) = ed_object (edges c ! e)" "ed_label (edges c' ! e) = ed_label (edges c ! e)" for e
    using t [of e] by (auto simp: triple_def)
  show "edges_inv c \<Longrightarrow> edges_inv c'"
    using assms t ids by (simp add: edges_inv_def all_set_conv_all_nth)
  have g: "ed_next_outgoing (edges c' ! e) = ed_next_outgoing (edges c ! e)"
    "ed_next_incoming (edges c' ! e) = ed_next_incoming (edges c ! e)"
    "ed_next_labeled (edges c' ! e) = ed_next_labeled (edges c ! e)" for e
    using assms by (cases "i = e"; simp)+
  have len: "length (edges c') = length (edges c)" using assms by simp
  show "chain_inv c \<Longrightarrow> chain_inv c'"
    using chains_inv_cong [OF len g(1) ids(1)] chains_inv_cong [OF len g(2) ids(2)]
      chains_inv_cong [OF len g(3) ids(3)] assms(6,7)
    by (simp add: chain_inv_def)
qed

lemma usize_dec_Suc: "0 < n \<Longrightarrow> n < 2 ^ 64 \<Longrightarrow> usize_dec n = n - 1"
  by (cases n) (simp_all add: usize_dec_def)

lemma u64_incr: "n + 1 < 2 ^ 64 \<Longrightarrow> u64_add n (Suc 0) = Suc n"
  by (simp add: u64_add_def)

definition folded_edge :: "edge_record \<Rightarrow> f64 \<Rightarrow> edge_record" where
  "folded_edge e weight =
     e\<lparr>ed_sum := accumulate_saturating (ed_sum e) weight, ed_count := ed_count e + 1\<rparr>"

lemma fold_edge_spec:
  assumes f: "attr_inv c f" and b: "bounds_inv c" and i: "i < length (edges c)"
    and n: "ed_count (edges c ! i) + 1 < 2 ^ 64"
  shows "\<exists>d. fold_edge c i w = Some (c\<lparr>edges := (edges c)[i := folded_edge (edges c ! i) w], dead_edges := d\<rparr>)
     \<and> attr_inv (c\<lparr>edges := (edges c)[i := folded_edge (edges c ! i) w], dead_edges := d\<rparr>) f"
proof -
  let ?e = "edges c ! i" and ?P = "\<lambda>e :: edge_record. ed_count e = 0"
  let ?e' = "folded_edge ?e w"
  let ?d = "if ed_count ?e = 0 then usize_dec (dead_edges c) else dead_edges c"
  let ?c = "c\<lparr>edges := (edges c)[i := ?e'], dead_edges := ?d\<rparr>"
  have eq: "fold_edge c i w = Some ?c"
    using i n by (simp add: fold_edge_def folded_edge_def Let_def u64_incr)
  have "dead_edges c = length (filter ?P (edges c))" using f by (simp add: attr_defs)
  moreover have "length (filter ?P (edges c)) < 2 ^ 64"
    by (rule le_less_trans [OF length_filter_le]) (use b in \<open>simp add: bounds_inv_def NIL_eq\<close>)
  moreover have "0 < length (filter ?P (edges c))" if "ed_count ?e = 0"
    using i that by (auto simp: length_greater_0_conv filter_empty_conv)
  ultimately have "?d = length (filter ?P ((edges c)[i := ?e']))"
    using length_filter_update [OF i, of ?P ?e']
    by (auto simp: usize_dec_Suc folded_edge_def split: if_splits)
  moreover have "edge_attr_ok (attributions c) (length (sources c)) (edges ?c ! e) (f e)"
    if "e < length (edges c)" for e
  proof -
    have "edge_attr_ok (attributions c) (length (sources c)) (edges c ! e) (f e)"
      using f that by (simp add: attr_defs)
    then show ?thesis using n i
      by (cases "i = e") (auto simp: edge_attr_ok_def folded_edge_def)
  qed
  ultimately have "attr_inv ?c f" using f by (simp add: attr_defs)
  with eq show ?thesis by blast
qed

section \<open>Attributions keep the invariant\<close>

lemma attr_listed:
  assumes "attr_inv c f" "e < length (edges c)"
  shows "set (f e) \<subseteq> {..<length (attributions c)}"
    and "attribution_chain c (ed_first_attribution (edges c ! e)) = Some (f e)"
proof -
  have ok: "edge_attr_ok (attributions c) (length (sources c)) (edges c ! e) (f e)"
    using assms by (simp add: attr_defs)
  show sub: "set (f e) \<subseteq> {..<length (attributions c)}" using ok by (auto simp: edge_attr_ok_def)
  show "attribution_chain c (ed_first_attribution (edges c ! e)) = Some (f e)"
    unfolding attribution_chain_def
    by (rule walk_table) (use ok sub in \<open>auto simp: edge_attr_ok_def\<close>)
qed

lemma attr_ids_iff:
  "attr_inv c f \<Longrightarrow> attribution_ids c (e, s) = Some a \<longleftrightarrow>
     e < length (edges c) \<and> a \<in> set (f e) \<and> at_source (attributions c ! a) = s"
  by (simp add: attr_defs)

text \<open>One more assertion by a source that already backs the edge.\<close>

lemma reattribute_keep:
  assumes f: "attr_inv c f" and a: "attribution_ids c (e, s) = Some a"
    and n: "sum_list (map (\<lambda>a. at_count (attributions c ! a)) (f e)) < ed_count (edges c ! e)"
    and r: "r = (attributions c ! a)\<lparr>at_sum := w, at_count := Suc (at_count (attributions c ! a))\<rparr>"
    and w: "is_finite w"
  shows "attr_inv (c\<lparr>attributions := (attributions c)[a := r]\<rparr>) f"
proof -
  let ?ats = "(attributions c)[a := r]"
  have e: "e < length (edges c)" and ae: "a \<in> set (f e)"
    using attr_ids_iff [OF f] a by auto
  have al: "a < length (attributions c)" using attr_listed(1) [OF f e] ae by auto
  have fld: "at_next (?ats ! x) = at_next (attributions c ! x)"
    "at_source (?ats ! x) = at_source (attributions c ! x)" for x
    by (cases "x = a"; simp add: r al)+
  have "edge_attr_ok ?ats (length (sources c)) (edges c ! i) (f i)" if i: "i < length (edges c)" for i
  proof -
    have ok: "edge_attr_ok (attributions c) (length (sources c)) (edges c ! i) (f i)"
      using f i by (simp add: attr_defs)
    have L: "linked (\<lambda>x. at_next (?ats ! x)) q (f i) = linked (\<lambda>x. at_next (attributions c ! x)) q (f i)" for q
      by (rule linked_cong) (simp add: fld)
    have pos: "\<forall>x \<in> set (f i). 0 < at_count (?ats ! x) \<and> is_finite (at_sum (?ats ! x))"
      using ok al w by (auto simp: edge_attr_ok_def r nth_list_update)
    have sum: "sum_list (map (\<lambda>x. at_count (?ats ! x)) (f i)) \<le> ed_count (edges c ! i)"
    proof (cases "i = e")
      case True
      have d: "distinct (f e)" using ok True linked_distinct by (auto simp: edge_attr_ok_def)
      obtain ys zs where yz: "f e = ys @ a # zs" using split_list [OF ae] by blast
      then have "a \<notin> set ys" "a \<notin> set zs" using d by auto
      note m = this [THEN map_nth_update_notin, of at_count "attributions c" r]
      have "sum_list (map (\<lambda>x. at_count (?ats ! x)) (f e)) = Suc (sum_list (map (\<lambda>x. at_count (attributions c ! x)) (f e)))"
        unfolding yz by (simp only: map_append list.map m sum_list_append sum_list.Cons) (simp add: r al)
      with n True show ?thesis by simp
    next
      case False
      then have "a \<notin> set (f i)" using f i e ae unfolding attr_inv_def attr_tables_ok_def by blast
      then have "map (\<lambda>x. at_count (?ats ! x)) (f i) = map (\<lambda>x. at_count (attributions c ! x)) (f i)"
        by (rule map_nth_update_notin)
      then show ?thesis using ok unfolding edge_attr_ok_def by (simp only:)
    qed
    show ?thesis using ok sum pos by (simp add: edge_attr_ok_def L fld)
  qed
  then show ?thesis using f by (simp add: attr_defs fld)
qed

lemma edge_attr_ok_fields:
  assumes "\<And>a. a \<in> set xs \<Longrightarrow> a < length ats' \<and> at_source (ats' ! a) = at_source (ats ! a) \<and>
      at_count (ats' ! a) = at_count (ats ! a) \<and> at_sum (ats' ! a) = at_sum (ats ! a)"
    and "\<And>q. linked (\<lambda>a. at_next (ats' ! a)) q xs = linked (\<lambda>a. at_next (ats ! a)) q xs"
    and "edge_attr_ok ats ns e xs"
  shows "edge_attr_ok ats' ns e xs"
proof -
  have "map (\<lambda>a. at_source (ats' ! a)) xs = map (\<lambda>a. at_source (ats ! a)) xs"
    "map (\<lambda>a. at_count (ats' ! a)) xs = map (\<lambda>a. at_count (ats ! a)) xs"
    using assms(1) by simp_all
  with assms show ?thesis unfolding edge_attr_ok_def by (simp only:) auto
qed

lemma sum_length_upd:
  "e < (m :: nat) \<Longrightarrow> (\<Sum>i < m. length ((f(e := ys)) i)) + length (f e) = (\<Sum>i < m. length (f i)) + length ys"
proof -
  assume "e < m"
  moreover have "(\<Sum>i \<in> {..<m} - {e}. length ((f(e := ys)) i)) = (\<Sum>i \<in> {..<m} - {e}. length (f i))"
    by (rule sum.cong) auto
  ultimately show ?thesis
    using sum.remove [OF finite_lessThan, of e _ "\<lambda>i. length (f i)"]
      sum.remove [OF finite_lessThan, of e _ "\<lambda>i. length ((f(e := ys)) i)"] by simp
qed

definition edges_of_source :: "ctx \<Rightarrow> nat \<Rightarrow> nat list" where
  "edges_of_source c s = (case source_edges c s of None \<Rightarrow> [] | Some es \<Rightarrow> es)"

lemma source_edges_mem:
  assumes "source_edges_ok c"
  shows "e \<in> set (edges_of_source c s) \<longleftrightarrow> attribution_ids c (e, s) \<noteq> None"
proof -
  have "e \<in> set (edges_of_source c s) \<longleftrightarrow> (\<exists>es. source_edges c s = Some es \<and> e \<in> set es)"
    by (cases "source_edges c s") (simp_all add: edges_of_source_def)
  then show ?thesis using assms unfolding source_edges_ok_def by blast
qed

text \<open>The first assertion by a source: a record at the tail of the edge's chain.\<close>

lemma push_attribution_spec:
  assumes f: "attr_inv c f" and e: "e < length (edges c)" and sid: "s < length (sources c)"
    and new: "attribution_ids c (e, s) = None" and room: "length (attributions c) < NIL"
    and k: "0 < k" "sum_list (map (\<lambda>a. at_count (attributions c ! a)) (f e)) + k \<le> ed_count (edges c ! e)"
    and w: "is_finite w"
  defines "n \<equiv> length (attributions c)"
  shows "\<exists>c' e' ats es. push_attribution c e s k w p = Some c' \<and> attr_inv c' (f(e := f e @ [n])) \<and>
     c' = c\<lparr>attributions := ats, attribution_ids := (attribution_ids c)((e, s) \<mapsto> n),
            source_edges := es,
            attribution_locators := attribution_locators c @
               (case p of None \<Rightarrow> [] | Some q \<Rightarrow> [\<lparr>lo_attribution = n, lo_paragraph = q\<rparr>]),
            edges := (edges c)[e := (edges c ! e)\<lparr>ed_first_attribution := e', ed_last_attribution := n\<rparr>]\<rparr> \<and>
     length ats = Suc n \<and> at_source (ats ! n) = s \<and> at_count (ats ! n) = k \<and> at_sum (ats ! n) = w \<and>
     (\<forall>a < n. at_source (ats ! a) = at_source (attributions c ! a) \<and>
        at_count (ats ! a) = at_count (attributions c ! a) \<and> at_sum (ats ! a) = at_sum (attributions c ! a))"
proof -
  let ?e = "edges c ! e" and ?xs = "f e"
  let ?r = "\<lparr>at_source = s, at_next = NIL, at_count = k, at_sum = w\<rparr>"
  let ?ats0 = "attributions c @ [?r]"
  have ok: "edge_attr_ok (attributions c) (length (sources c)) ?e ?xs" using f e by (simp add: attr_defs)
  have L: "linked (\<lambda>a. at_next (attributions c ! a)) (ed_first_attribution ?e) ?xs"
    and tl: "ed_last_attribution ?e = tail_of ?xs" using ok by (auto simp: edge_attr_ok_def)
  have lt: "a < n" if "a \<in> set (f i)" "i < length (edges c)" for a i
    using attr_listed(1) [OF f] that by (auto simp: n_def)
  have xne: "tail_of ?xs = NIL \<longleftrightarrow> ?xs = []"
    by (rule tail_of_NIL_iff [OF linked_not_NIL [OF L]])
  have lx: "last ?xs \<in> set ?xs" if "?xs \<noteq> []" using that by simp
  define ats where "ats = (if ?xs = [] then ?ats0 else ?ats0[last ?xs := (?ats0 ! last ?xs)\<lparr>at_next := n\<rparr>])"
  define es where "es = (source_edges c)(s \<mapsto> (case source_edges c s of None \<Rightarrow> [] | Some es \<Rightarrow> es) @ [e])"
  define h where "h = (if ?xs = [] then n else ed_first_attribution ?e)"
  let ?e' = "?e\<lparr>ed_first_attribution := h, ed_last_attribution := n\<rparr>"
  let ?los = "attribution_locators c @ (case p of None \<Rightarrow> [] | Some q \<Rightarrow> [\<lparr>lo_attribution = n, lo_paragraph = q\<rparr>])"
  let ?c = "c\<lparr>attributions := ats, attribution_ids := (attribution_ids c)((e, s) \<mapsto> n), source_edges := es,
      attribution_locators := ?los, edges := (edges c)[e := ?e']\<rparr>"
  have eq: "push_attribution c e s k w p = Some ?c"
  proof (cases "?xs = []")
    case True
    with e room tl show ?thesis
      by (simp add: push_attribution_def Let_def ats_def es_def h_def n_def cong: option.case_cong)
  next
    case False
    with lt [OF lx e] have "last ?xs < Suc (length (attributions c))" by (simp add: n_def)
    moreover have "ed_last_attribution ?e \<noteq> NIL" "ed_last_attribution ?e = last ?xs"
      using False tl xne by (simp_all add: tail_of_def)
    ultimately show ?thesis using False e room
      by (simp add: push_attribution_def Let_def ats_def es_def h_def n_def cong: option.case_cong)
  qed
  have len: "length ats = Suc n" by (simp add: ats_def n_def)
  have fld: "at_source (ats ! a) = at_source (?ats0 ! a) \<and> at_count (ats ! a) = at_count (?ats0 ! a)
      \<and> at_sum (ats ! a) = at_sum (?ats0 ! a)" if "a \<le> n" for a
    using that lt [OF lx e] by (auto simp: ats_def n_def nth_list_update)
  have old: "at_source (ats ! a) = at_source (attributions c ! a) \<and> at_count (ats ! a) = at_count (attributions c ! a)
      \<and> at_sum (ats ! a) = at_sum (attributions c ! a)" if "a < n" for a
    using fld [of a] that by (simp add: n_def nth_append)
  have newr: "at_source (ats ! n) = s" "at_count (ats ! n) = k" "at_sum (ats ! n) = w"
    using fld [of n] by (simp_all add: n_def)
  have nx: "at_next (ats ! a) = at_next (attributions c ! a)" if "a < n" "a \<noteq> last ?xs \<or> ?xs = []" for a
    using that by (auto simp: ats_def n_def nth_append)
  have payload: "edge_attr_ok ats (length (sources c)) (edges c ! i) (f i)"
    if i: "i < length (edges c)" "i \<noteq> e" for i
  proof -
    have "last ?xs \<notin> set (f i)" if "?xs \<noteq> []"
      using lx [OF that] f i e unfolding attr_inv_def attr_tables_ok_def by blast
    then have "linked (\<lambda>a. at_next (ats ! a)) q (f i) = linked (\<lambda>a. at_next (attributions c ! a)) q (f i)" for q
      using lt [OF _ i(1)] nx by (intro linked_cong) auto
    moreover have "edge_attr_ok (attributions c) (length (sources c)) (edges c ! i) (f i)"
      using f i by (simp add: attr_defs)
    ultimately show ?thesis
      by (rule edge_attr_ok_fields [rotated]) (use lt [OF _ i(1)] old len in \<open>auto simp: n_def intro: less_SucI\<close>)
  qed
  have nn: "n \<noteq> NIL" "n \<notin> set ?xs" using room lt [OF _ e] by (auto simp: n_def)
  have link: "linked (\<lambda>a. at_next (ats ! a)) h (?xs @ [n])"
  proof (cases "?xs = []")
    case True
    then show ?thesis using nn by (simp add: h_def ats_def n_def)
  next
    case False
    have "linked (\<lambda>a. at_next (?ats0 ! a)) h ?xs = linked (\<lambda>a. at_next (attributions c ! a)) h ?xs"
      using lt [OF _ e] by (intro linked_cong) (auto simp: n_def nth_append)
    then have "linked ((\<lambda>a. at_next (?ats0 ! a))(last ?xs := n)) h (?xs @ [n])"
      using L False nn by (intro linked_snoc) (auto simp: h_def n_def)
    moreover have "linked (\<lambda>a. at_next (ats ! a)) h (?xs @ [n])
        = linked ((\<lambda>a. at_next (?ats0 ! a))(last ?xs := n)) h (?xs @ [n])"
      using False lt [OF lx e] by (intro linked_cong) (auto simp: ats_def n_def nth_list_update)
    ultimately show ?thesis by simp
  qed
  have fresh: "s \<noteq> at_source (attributions c ! a)" if "a \<in> set ?xs" for a
    using attr_ids_iff [OF f, of e s a] new e that by auto
  have here: "edge_attr_ok ats (length (sources c)) ?e' (?xs @ [n])"
  proof -
    have m: "map (\<lambda>a. at_source (ats ! a)) ?xs = map (\<lambda>a. at_source (attributions c ! a)) ?xs"
      "map (\<lambda>a. at_count (ats ! a)) ?xs = map (\<lambda>a. at_count (attributions c ! a)) ?xs"
      using lt [OF _ e] old by simp_all
    have "distinct (map (\<lambda>a. at_source (ats ! a)) (?xs @ [n]))"
      using ok fresh unfolding edge_attr_ok_def map_append m by (auto simp: newr)
    moreover have "sum_list (map (\<lambda>a. at_count (ats ! a)) (?xs @ [n])) \<le> ed_count ?e"
      using k(2) unfolding map_append m by (simp add: newr)
    moreover have "\<forall>a \<in> set (?xs @ [n]). a < length ats \<and> at_source (ats ! a) < length (sources c) \<and>
        0 < at_count (ats ! a) \<and> is_finite (at_sum (ats ! a))"
      using ok lt [OF _ e] old newr len sid k(1) w by (auto simp: edge_attr_ok_def intro: less_SucI)
    ultimately show ?thesis
      using link ok by (auto simp: edge_attr_ok_def)
  qed
  have inv: "attr_inv ?c (f(e := ?xs @ [n]))"
    unfolding attr_inv_def
  proof (intro conjI)
    show "attr_tables_ok ?c (f(e := ?xs @ [n]))"
      using f here payload e lt unfolding attr_inv_def attr_tables_ok_def
      by (auto simp: nth_list_update)
    show "attr_index_ok ?c (f(e := ?xs @ [n]))"
      using attr_ids_iff [OF f] fresh fresh [THEN not_sym] e newr(1) lt old
      by (auto simp: attr_index_ok_def)
    show "source_edges_ok ?c"
    proof -
      have so: "source_edges_ok c" using f by (simp add: attr_inv_def)
      have "e \<notin> set (edges_of_source c s)" using source_edges_mem [OF so] new by simp
      moreover have "distinct (edges_of_source c s)"
        using so by (auto simp: source_edges_ok_def edges_of_source_def split: option.splits)
      moreover have es: "es t = (if t = s then Some (edges_of_source c s @ [e]) else source_edges c t)" for t
        by (simp add: es_def edges_of_source_def)
      moreover have "(\<exists>l. es t = Some l \<and> i \<in> set l) \<longleftrightarrow> ((attribution_ids c)((e, s) \<mapsto> n)) (i, t) \<noteq> None" for t i
        using source_edges_mem [OF so, of i s] so unfolding es source_edges_ok_def by auto
      ultimately show ?thesis
        using so unfolding source_edges_ok_def by (simp add: es)
    qed
    have "length (filter (\<lambda>e. ed_count e = 0) ((edges c)[e := ?e'])) = length (filter (\<lambda>e. ed_count e = 0) (edges c))"
      using length_filter_update [OF e, of "\<lambda>e. ed_count e = 0" ?e'] by (simp split: if_splits)
    then show "dead_ok ?c (f(e := ?xs @ [n]))"
      using f e sum_length_upd [of e "length (edges c)" f "?xs @ [n]"] len
      by (simp add: attr_inv_def dead_ok_def n_def)
  qed
  show ?thesis
    by (rule exI [of _ ?c], rule exI [of _ h], rule exI [of _ ats], rule exI [of _ es])
       (use eq inv len old newr in auto)
qed

end
