(* ===== verification/Facts.thy ===== *)
theory Facts
  imports Write
begin

text \<open>
  The abstract content of a context: the list of its facts, each with the names of its triple, how
  often it was asserted, the running sum of its weights, and the attributions in first-assertion
  order. The record-level reads (\<open>association\<close>, \<open>attribution_of\<close>, \<open>locator_for\<close>) return exactly
  what this view says.
\<close>

section \<open>Names by id\<close>

definition cname :: "ctx \<Rightarrow> nat \<Rightarrow> rstr" where
  "cname c i = name_at (arena c) (concept_range (concepts c ! i))"
definition lname :: "ctx \<Rightarrow> nat \<Rightarrow> rstr" where
  "lname c i = name_at (arena c) (label_range (labels c ! i))"
definition sname :: "ctx \<Rightarrow> nat \<Rightarrow> rstr" where
  "sname c i = name_at (arena c) (source_range (sources c ! i))"

lemma arena_str_range_ok:
  "range_ok (arena c) r \<Longrightarrow> arena_str c (fst r) (snd r) = Some (name_at (arena c) r)"
  by (simp add: arena_str_def slice_opt_def range_ok_def name_at_def)

lemma ranges_ok:
  assumes "names_inv c"
  shows "i < length (concepts c) \<Longrightarrow> range_ok (arena c) (concept_range (concepts c ! i))"
    and "i < length (labels c) \<Longrightarrow> range_ok (arena c) (label_range (labels c ! i))"
    and "i < length (sources c) \<Longrightarrow> range_ok (arena c) (source_range (sources c ! i))"
  using assms by (auto simp: names_inv_def ns_ok_def)

lemma name_reads [panic_free]:
  assumes "names_inv c"
  shows "i < length (concepts c) \<Longrightarrow> concept_name c i = Some (cname c i)"
    and "i < length (labels c) \<Longrightarrow> label_name c i = Some (lname c i)"
    and "i < length (sources c) \<Longrightarrow> source_name c i = Some (sname c i)"
  using arena_str_range_ok [OF ranges_ok(1) [OF assms]] arena_str_range_ok [OF ranges_ok(2) [OF assms]]
    arena_str_range_ok [OF ranges_ok(3) [OF assms]]
  by (simp_all add: concept_name_def label_name_def source_name_def cname_def lname_def sname_def
      concept_range_def label_range_def source_range_def)

lemma name_ids:
  assumes "names_inv c"
  shows "i < length (concepts c) \<Longrightarrow> concept_ids c (cname c i) = Some i"
    and "i < length (labels c) \<Longrightarrow> label_ids c (lname c i) = Some i"
    and "i < length (sources c) \<Longrightarrow> source_ids c (sname c i) = Some i"
  using ns_ok_name [OF assms [unfolded names_inv_def, THEN conjunct1], of i]
    ns_ok_name [OF assms [unfolded names_inv_def, THEN conjunct2, THEN conjunct1], of i]
    ns_ok_name [OF assms [unfolded names_inv_def, THEN conjunct2, THEN conjunct2], of i]
  by (simp_all add: cname_def lname_def sname_def)

lemma same_names_read:
  assumes "same_names c c'"
  shows "i < length (concepts c) \<Longrightarrow> cname c' i = cname c i" "i < length (labels c) \<Longrightarrow> lname c' i = lname c i"
    "sname c' i = sname c i"
proof -
  note len = same_names_lengths [OF assms]
  have r: "concept_ranges c' ! i = concept_ranges c ! i" "label_ranges c' ! i = label_ranges c ! i"
    "arena c' = arena c" "sources c' = sources c"
    using assms by (simp_all only: same_names_def)
  then show "i < length (concepts c) \<Longrightarrow> cname c' i = cname c i"
    "i < length (labels c) \<Longrightarrow> lname c' i = lname c i" "sname c' i = sname c i"
    using len by (simp_all add: cname_def lname_def sname_def)
qed

section \<open>Locators\<close>

definition locator_map :: "locator_record list \<Rightarrow> nat \<rightharpoonup> nat" where
  "locator_map los = map_of (map (\<lambda>r. (lo_attribution r, lo_paragraph r)) los)"

lemma locator_for_map:
  assumes "sorted_wrt (<) (map lo_attribution (attribution_locators c))"
  shows "locator_for c a = locator_map (attribution_locators c) a"
proof -
  let ?los = "attribution_locators c" and ?ks = "map lo_attribution (attribution_locators c)"
  let ?m = "map (\<lambda>r. (lo_attribution r, lo_paragraph r)) ?los"
  have d: "distinct (map fst ?m)" using assms by (simp add: comp_def strict_sorted_iff)
  show ?thesis
  proof (cases "a \<in> set ?ks")
    case True
    then obtain i where i: "i < length ?los" "a = ?ks ! i" by (auto simp: in_set_conv_nth)
    have "bsearch ?ks a 0 (length ?los) = Some i"
      using bsearch_finds [OF assms, of 0 i "length ?los"] i by simp
    moreover have "map_of ?m a = Some (lo_paragraph (?los ! i))"
      using d i by (simp add: map_of_eq_Some_iff image_iff Bex_def) (metis nth_mem)
    ultimately show ?thesis by (simp add: locator_for_def locator_map_def)
  next
    case False
    have "bsearch ?ks a 0 (length ?los) = None"
    proof (rule ccontr)
      assume "bsearch ?ks a 0 (length ?los) \<noteq> None"
      then obtain i where "i < length ?ks" "?ks ! i = a" using bsearch_Some by fastforce
      then show False using False nth_mem by blast
    qed
    moreover have "map_of ?m a = None" using False by (auto simp: map_of_eq_None_iff)
    ultimately show ?thesis by (simp add: locator_for_def locator_map_def)
  qed
qed

lemma locator_map_append:
  "a \<notin> lo_attribution ` set los \<Longrightarrow> locator_map (los @ los') a = locator_map los' a"
  "a \<notin> lo_attribution ` set los' \<Longrightarrow> locator_map (los @ los') a = locator_map los a"
proof -
  show "a \<notin> lo_attribution ` set los \<Longrightarrow> locator_map (los @ los') a = locator_map los' a"
    by (induction los) (auto simp: locator_map_def)
  show "locator_map (los @ los') a = locator_map los a" if "a \<notin> lo_attribution ` set los'"
  proof -
    have "map_of (map (\<lambda>r. (lo_attribution r, lo_paragraph r)) los') a = None"
      using that by (auto simp: map_of_eq_None_iff)
    then show ?thesis by (simp add: locator_map_def map_add_def split: option.split)
  qed
qed

section \<open>Facts\<close>

record fact =
  fa_subject :: rstr
  fa_label :: rstr
  fa_object :: rstr
  fa_count :: nat
  fa_sum :: f64
  fa_attrs :: "attribution list"

definition att_view :: "ctx \<Rightarrow> nat \<Rightarrow> attribution" where
  "att_view c a = \<lparr>as_source = sname c (at_source (attributions c ! a)),
     as_weight = at_sum (attributions c ! a), as_count = at_count (attributions c ! a),
     as_paragraph = locator_map (attribution_locators c) a\<rparr>"

definition chain_of :: "ctx \<Rightarrow> nat \<Rightarrow> nat list" where
  "chain_of c e = (case attribution_chain c (ed_first_attribution (edges c ! e)) of None \<Rightarrow> [] | Some xs \<Rightarrow> xs)"

definition fact_with :: "ctx \<Rightarrow> edge_record \<Rightarrow> nat list \<Rightarrow> fact" where
  "fact_with c r xs = \<lparr>fa_subject = cname c (ed_subject r), fa_label = lname c (ed_label r),
     fa_object = cname c (ed_object r), fa_count = ed_count r, fa_sum = ed_sum r,
     fa_attrs = map (att_view c) xs\<rparr>"

definition fact_of :: "ctx \<Rightarrow> nat \<Rightarrow> fact" where
  "fact_of c e = fact_with c (edges c ! e) (chain_of c e)"

definition facts :: "ctx \<Rightarrow> fact list" where
  "facts c = map (fact_of c) [0..<length (edges c)]"

lemma length_facts [simp]: "length (facts c) = length (edges c)"
  by (simp add: facts_def)

lemma nth_facts [simp]: "e < length (edges c) \<Longrightarrow> facts c ! e = fact_of c e"
  by (simp add: facts_def)

lemma chain_of_eq: "attr_inv c f \<Longrightarrow> e < length (edges c) \<Longrightarrow> chain_of c e = f e"
  by (simp add: chain_of_def attr_listed(2))

lemma fact_of_eq: "attr_inv c f \<Longrightarrow> e < length (edges c) \<Longrightarrow> fact_of c e = fact_with c (edges c ! e) (f e)"
  by (simp add: fact_of_def chain_of_eq)

text \<open>The public face of a fact: the average of its weights.\<close>

definition fact_weight :: "fact \<Rightarrow> f64" where
  "fact_weight x = (if fa_count x = 0 then f64_zero else f64_div (fa_sum x) (f64_of_nat (fa_count x)))"

definition assoc_of :: "fact \<Rightarrow> association" where
  "assoc_of x = \<lparr>an_subject = fa_subject x, an_label = fa_label x, an_object = fa_object x,
     an_weight = fact_weight x, an_count = fa_count x, an_attributions = fa_attrs x\<rparr>"

lemma attr_source_bound:
  "attr_inv c f \<Longrightarrow> e < length (edges c) \<Longrightarrow> a \<in> set (f e) \<Longrightarrow>
     a < length (attributions c) \<and> at_source (attributions c ! a) < length (sources c)"
  by (auto simp: attr_defs edge_attr_ok_def)

lemma attribution_of_view:
  assumes "names_inv c" "locators_inv c" "attr_inv c f" "e < length (edges c)" "a \<in> set (f e)"
  shows "attribution_of c a = Some (att_view c a)"
  using attr_source_bound [OF assms(3-5)] name_reads(3) [OF assms(1)] locator_for_map assms(2)
  by (simp add: attribution_of_def att_view_def locators_inv_def)

lemma association_fact [panic_free]:
  assumes inv: "ctx_inv U c" and e: "e < length (edges c)"
  shows "association c e = Some (assoc_of (fact_of c e))"
proof -
  note I = ctx_invD [OF inv]
  obtain f where f: "attr_inv c f" using I(7) by blast
  have b: "ed_subject (edges c ! e) < length (concepts c)" "ed_object (edges c ! e) < length (concepts c)"
    "ed_label (edges c ! e) < length (labels c)"
    using I(5) e by (auto simp: edges_inv_def)
  have "mapM (attribution_of c) (f e) = Some (map (att_view c) (f e))"
    by (rule mapM_Some) (rule attribution_of_view [OF I(1,8) f e])
  then show ?thesis
    using e attr_listed(2) [OF f e] name_reads [OF I(1)] b
    by (simp add: association_def assoc_of_def fact_of_eq [OF f e] fact_with_def fact_weight_def)
qed

text \<open>Distinct edges are distinct triples of names.\<close>

definition same_triple :: "rstr \<Rightarrow> rstr \<Rightarrow> rstr \<Rightarrow> fact \<Rightarrow> bool" where
  "same_triple s l ob x \<longleftrightarrow> fa_subject x = s \<and> fa_label x = l \<and> fa_object x = ob"

lemma fact_triple_iff:
  assumes "names_inv c" "edges_inv c" "s < length (concepts c)" "l < length (labels c)" "ob < length (concepts c)"
    and "e < length (edges c)"
  shows "same_triple (cname c s) (lname c l) (cname c ob) (fact_of c e) \<longleftrightarrow> edge_ids c (s, l, ob) = Some e"
proof -
  have b: "ed_subject (edges c ! e) < length (concepts c)" "ed_object (edges c ! e) < length (concepts c)"
    "ed_label (edges c ! e) < length (labels c)"
    using assms(2,6) by (auto simp: edges_inv_def)
  have ci: "cname c i = cname c j \<longleftrightarrow> i = j" if "i < length (concepts c)" "j < length (concepts c)" for i j
    using name_ids(1) [OF assms(1)] that by (metis option.inject)
  have li: "lname c i = lname c j \<longleftrightarrow> i = j" if "i < length (labels c)" "j < length (labels c)" for i j
    using name_ids(2) [OF assms(1)] that by (metis option.inject)
  show ?thesis
    using edge_ids_iff [OF assms(2)] assms(3-6) b ci li
    by (auto simp: same_triple_def fact_of_def fact_with_def triple_def)
qed

end
