(* ===== verification/Upsert.thy ===== *)
theory Upsert
  imports Facts "HOL-Library.Sublist"
begin

text \<open>
  The upsert as a whole: the pre-flight is sufficient (no later step panics), a refusal leaves the
  context alone, and a write keeps the representation invariant.
\<close>

section \<open>What the pre-flight guarantees\<close>

definition existing_edge :: "ctx \<Rightarrow> rstr \<Rightarrow> rstr \<Rightarrow> rstr \<Rightarrow> nat option" where
  "existing_edge c subject label object =
     do { s \<leftarrow> concept_ids c subject; l \<leftarrow> label_ids c label; ob \<leftarrow> concept_ids c object;
          edge_ids c (s, l, ob) }"

lemma existing_edge_cases:
  "(case (concept_ids c subject, label_ids c label, concept_ids c object) of
      (Some s, Some l, Some ob) \<Rightarrow> edge_ids c (s, l, ob) | _ \<Rightarrow> None) = existing_edge c subject label object"
  by (auto simp: existing_edge_def split: option.splits)

definition fresh_bytes :: "(rstr \<rightharpoonup> nat) \<Rightarrow> rstr \<Rightarrow> nat" where
  "fresh_bytes ids name = (if ids name = None then length name else 0)"

definition fresh_ids :: "(rstr \<rightharpoonup> nat) \<Rightarrow> rstr \<Rightarrow> nat" where
  "fresh_ids ids name = (if ids name = None then 1 else 0)"

lemma ensure_room_OkD:
  assumes "ensure_room c subject label object source = Inr ()" "length (concepts c) \<le> NIL"
  shows "length (concepts c) + fresh_ids (concept_ids c) subject
           + fresh_ids ((concept_ids c)(subject \<mapsto> i)) object \<le> NIL"
    and "label_ids c label = None \<Longrightarrow> length (labels c) < NIL"
    and "source = Some name \<Longrightarrow> source_ids c name = None \<Longrightarrow> length (sources c) < NIL"
    and "existing_edge c subject label object = None \<Longrightarrow> length (edges c) < NIL"
    and "source = Some name \<Longrightarrow> (\<And>e k. existing_edge c subject label object = Some e \<Longrightarrow>
           source_ids c name = Some k \<Longrightarrow> attribution_ids c (e, k) = None) \<Longrightarrow> length (attributions c) < NIL"
    and "length (arena c) + fresh_bytes (concept_ids c) subject
           + fresh_bytes ((concept_ids c)(subject \<mapsto> i)) object + fresh_bytes (label_ids c) label
           + (case source of None \<Rightarrow> 0 | Some name \<Rightarrow> fresh_bytes (source_ids c) name) \<le> u32_max"
proof -
  note room = assms(1) [unfolded ensure_room_def Let_def existing_edge_cases]
  show "length (concepts c) + fresh_ids (concept_ids c) subject
           + fresh_ids ((concept_ids c)(subject \<mapsto> i)) object \<le> NIL"
    using room assms(2) by (auto simp: fresh_ids_def ids_left_iff split: if_splits)
  show "label_ids c label = None \<Longrightarrow> length (labels c) < NIL"
    using room by (auto simp: ids_left_1 [simplified] split: if_splits)
  show "source = Some name \<Longrightarrow> source_ids c name = None \<Longrightarrow> length (sources c) < NIL"
    using room by (auto simp: ids_left_1 [simplified] split: if_splits)
  show "existing_edge c subject label object = None \<Longrightarrow> length (edges c) < NIL"
    using room by (auto simp: ids_left_1 [simplified] split: if_splits)
  show "length (attributions c) < NIL" if src: "source = Some name" and
      no: "\<And>e k. existing_edge c subject label object = Some e \<Longrightarrow>
           source_ids c name = Some k \<Longrightarrow> attribution_ids c (e, k) = None"
  proof -
    have "\<not> (case (existing_edge c subject label object, source) of
               (Some e, Some name) \<Rightarrow>
                 (case source_ids c name of None \<Rightarrow> False
                  | Some sid \<Rightarrow> attribution_ids c (e, sid) \<noteq> None)
             | _ \<Rightarrow> False)"
      using no src by (auto split: option.splits)
    with room src show ?thesis by (simp add: ids_left_1 [simplified] split: if_splits)
  qed
  show "length (arena c) + fresh_bytes (concept_ids c) subject
           + fresh_bytes ((concept_ids c)(subject \<mapsto> i)) object + fresh_bytes (label_ids c) label
           + (case source of None \<Rightarrow> 0 | Some name \<Rightarrow> fresh_bytes (source_ids c) name) \<le> u32_max"
    using room by (auto simp: fresh_bytes_def arena_fits_iff split: if_splits option.splits)
qed

section \<open>Interning the names of one assertion\<close>

text \<open>\<open>extends\<close>: only the name tables, their ids and their indexes have grown.\<close>

definition extends :: "ctx \<Rightarrow> ctx \<Rightarrow> bool" where
  "extends c c' \<longleftrightarrow> prefix (arena c) (arena c') \<and> prefix (concepts c) (concepts c') \<and>
     prefix (labels c) (labels c') \<and> prefix (sources c) (sources c') \<and>
     edges c' = edges c \<and> attributions c' = attributions c \<and>
     concept_aliases c' = concept_aliases c \<and> label_aliases c' = label_aliases c \<and>
     attribution_locators c' = attribution_locators c \<and> edge_ids c' = edge_ids c \<and>
     attribution_ids c' = attribution_ids c \<and> source_edges c' = source_edges c \<and>
     dead_edges c' = dead_edges c \<and> dead_attributions c' = dead_attributions c \<and>
     dice_floor c' = dice_floor c \<and> applied_seq c' = applied_seq c \<and> arena_slack c' = arena_slack c"

lemma extends_trans: "extends c c1 \<Longrightarrow> extends c1 c2 \<Longrightarrow> extends c c2"
  unfolding extends_def by (elim conjE, intro conjI; (erule (1) prefix_order.trans | simp))

lemma extends_same:
  "same_but_concepts c c' \<Longrightarrow> extends c c' \<and> label_ids c' = label_ids c \<and> source_ids c' = source_ids c \<and>
     labels c' = labels c \<and> sources c' = sources c"
  "same_but_labels c c' \<Longrightarrow> extends c c' \<and> concept_ids c' = concept_ids c \<and> source_ids c' = source_ids c \<and>
     concepts c' = concepts c \<and> sources c' = sources c"
  "same_but_sources c c' \<Longrightarrow> extends c c' \<and> concept_ids c' = concept_ids c \<and> label_ids c' = label_ids c \<and>
     concepts c' = concepts c \<and> labels c' = labels c"
  by (auto simp: same_but_concepts_def same_but_labels_def same_but_sources_def extends_def)

definition intern_source_opt :: "ctx \<Rightarrow> rstr option \<Rightarrow> (nat option \<times> ctx) option" where
  "intern_source_opt c source = (case source of None \<Rightarrow> Some (None, c)
     | Some name \<Rightarrow> map_option (apfst Some) (intern_source c name))"

lemma upsert_names:
  assumes inv: "ctx_inv U c" and v: "utf8_valid subject" "utf8_valid label" "utf8_valid object"
      "\<And>name. source = Some name \<Longrightarrow> utf8_valid name"
    and room: "ensure_room c subject label object source = Inr ()"
  shows "\<exists>s c1 ob c2 l c3 so c4. intern_concept U c subject = Some (s, c1) \<and>
     intern_concept U c1 object = Some (ob, c2) \<and> intern_label U c2 label = Some (l, c3) \<and>
     intern_source_opt c3 source = Some (so, c4) \<and> ctx_inv U c4 \<and> extends c c4 \<and>
     s < length (concepts c4) \<and> ob < length (concepts c4) \<and> l < length (labels c4) \<and>
     concept_ids c4 = (concept_ids c)(subject \<mapsto> s, object \<mapsto> ob) \<and>
     label_ids c4 = (label_ids c)(label \<mapsto> l) \<and>
     source_ids c4 = (case (source, so) of (Some name, Some k) \<Rightarrow> (source_ids c)(name \<mapsto> k) | _ \<Rightarrow> source_ids c) \<and>
     concept_ids c4 subject = Some s \<and>
     (so = None \<longleftrightarrow> source = None) \<and> (\<forall>k. so = Some k \<longrightarrow> k < length (sources c4))"
proof -
  have cl: "length (concepts c) \<le> NIL" using ctx_invD(2) [OF inv] by (simp add: bounds_inv_def)
  note R = ensure_room_OkD [OF room cl]
  have "\<exists>s c1. intern_concept U c subject = Some (s, c1) \<and> ctx_inv U c1 \<and> same_but_concepts c c1 \<and>
     s < length (concepts c1) \<and> concept_ids c1 = (concept_ids c)(subject \<mapsto> s) \<and> length (concepts c) \<le> length (concepts c1) \<and>
     length (concepts c1) = length (concepts c) + (if concept_ids c subject = None then 1 else 0) \<and>
     arena c1 = arena c @ (if concept_ids c subject = None then subject else [])"
    by (rule concept_interner.intern_spec [OF inv v(1)])
       (use R(1,6) [of 0] in \<open>auto simp: fresh_ids_def fresh_bytes_def\<close>)
  then obtain s c1 where 1: "intern_concept U c subject = Some (s, c1)" "ctx_inv U c1" "same_but_concepts c c1"
      "s < length (concepts c1)" "concept_ids c1 = (concept_ids c)(subject \<mapsto> s)"
      "length (concepts c1) = length (concepts c) + (if concept_ids c subject = None then 1 else 0)"
      "arena c1 = arena c @ (if concept_ids c subject = None then subject else [])" by blast
  have "\<exists>ob c2. intern_concept U c1 object = Some (ob, c2) \<and> ctx_inv U c2 \<and> same_but_concepts c1 c2 \<and>
     ob < length (concepts c2) \<and> concept_ids c2 = (concept_ids c1)(object \<mapsto> ob) \<and> length (concepts c1) \<le> length (concepts c2) \<and>
     length (concepts c2) = length (concepts c1) + (if concept_ids c1 object = None then 1 else 0) \<and>
     arena c2 = arena c1 @ (if concept_ids c1 object = None then object else [])"
    by (rule concept_interner.intern_spec [OF 1(2) v(3)])
       (use R(1,6) [of s] 1(5,6,7) in \<open>auto simp: fresh_ids_def fresh_bytes_def split: if_splits\<close>)
  then obtain ob c2 where 2: "intern_concept U c1 object = Some (ob, c2)" "ctx_inv U c2" "same_but_concepts c1 c2"
      "ob < length (concepts c2)" "concept_ids c2 = (concept_ids c1)(object \<mapsto> ob)" "length (concepts c1) \<le> length (concepts c2)"
      "arena c2 = arena c1 @ (if concept_ids c1 object = None then object else [])" by blast
  have both: "concept_ids c2 subject = Some s"
    using concept_interner.hit [of c1 object s U] 1(5) 2(1,5) by auto
  note same = extends_same(1) [OF 1(3)] extends_same(1) [OF 2(3)]
  have a2: "length (arena c2) = length (arena c) + fresh_bytes (concept_ids c) subject
      + fresh_bytes ((concept_ids c)(subject \<mapsto> s)) object"
    using 1(5,7) 2(7) by (simp add: fresh_bytes_def)
  have "\<exists>l c3. intern_label U c2 label = Some (l, c3) \<and> ctx_inv U c3 \<and> same_but_labels c2 c3 \<and>
     l < length (labels c3) \<and> label_ids c3 = (label_ids c2)(label \<mapsto> l) \<and> length (labels c2) \<le> length (labels c3) \<and>
     length (labels c3) = length (labels c2) + (if label_ids c2 label = None then 1 else 0) \<and>
     arena c3 = arena c2 @ (if label_ids c2 label = None then label else [])"
    by (rule label_interner.intern_spec [OF 2(2) v(2)])
       (use R(2) R(6) [of s] a2 same in \<open>auto simp: fresh_bytes_def\<close>)
  then obtain l c3 where 3: "intern_label U c2 label = Some (l, c3)" "ctx_inv U c3" "same_but_labels c2 c3"
      "l < length (labels c3)" "label_ids c3 = (label_ids c2)(label \<mapsto> l)"
      "arena c3 = arena c2 @ (if label_ids c2 label = None then label else [])" by blast
  note same = same extends_same(2) [OF 3(3)]
  have ids3: "source_ids c3 = source_ids c" "length (sources c3) = length (sources c)"
    and a3: "length (arena c3) = length (arena c2) + fresh_bytes (label_ids c) label"
    using same 3(6) by (simp_all add: fresh_bytes_def)
  have ext: "extends c c3" using same extends_trans by blast
  show ?thesis
  proof (cases source)
    case None
    then have "intern_source_opt c3 source = Some (None, c3)" by (simp add: intern_source_opt_def)
    with None 1 2 3 ext same both show ?thesis by auto
  next
    case (Some name)
    have "\<exists>k c4. intern_source c3 name = Some (k, c4) \<and> ctx_inv U c4 \<and> same_but_sources c3 c4 \<and>
     k < length (sources c4) \<and> source_ids c4 = (source_ids c3)(name \<mapsto> k) \<and> length (sources c3) \<le> length (sources c4) \<and>
     length (sources c4) = length (sources c3) + (if source_ids c3 name = None then 1 else 0) \<and>
     arena c4 = arena c3 @ (if source_ids c3 name = None then name else [])"
      by (rule source_interner.intern_spec [OF 3(2) v(4) [OF Some]])
         (use R(3) [OF Some] R(6) [of s] a2 a3 ids3 Some in \<open>auto simp: fresh_bytes_def\<close>)
    then obtain k c4 where 4: "intern_source c3 name = Some (k, c4)" "ctx_inv U c4" "same_but_sources c3 c4"
       "k < length (sources c4)" "source_ids c4 = (source_ids c3)(name \<mapsto> k)" by blast
    from 4(1) Some have "intern_source_opt c3 source = Some (Some k, c4)" by (simp add: intern_source_opt_def)
    with Some 1 2 3 4 ids3 ext same both extends_same(3) [OF 4(3)] extends_trans [OF ext]
    show ?thesis by auto
  qed
qed

section \<open>The abstract assertion\<close>

definition fact_bump :: "f64 \<Rightarrow> fact \<Rightarrow> fact" where
  "fact_bump w x = x\<lparr>fa_sum := accumulate_saturating (fa_sum x) w, fa_count := fa_count x + 1\<rparr>"

definition fact_new :: "rstr \<Rightarrow> rstr \<Rightarrow> rstr \<Rightarrow> f64 \<Rightarrow> fact" where
  "fact_new s l ob w = \<lparr>fa_subject = s, fa_label = l, fa_object = ob, fa_count = 1, fa_sum = w, fa_attrs = []\<rparr>"

definition attrs_assert :: "rstr \<Rightarrow> f64 \<Rightarrow> nat option \<Rightarrow> attribution list \<Rightarrow> attribution list" where
  "attrs_assert src w p xs =
     (if src \<in> set (map as_source xs)
      then map (\<lambda>x. if as_source x = src
                    then x\<lparr>as_weight := accumulate_saturating (as_weight x) w, as_count := as_count x + 1\<rparr>
                    else x) xs
      else xs @ [\<lparr>as_source = src, as_weight = w, as_count = 1, as_paragraph = p\<rparr>])"

definition fact_attr :: "rstr \<Rightarrow> f64 \<Rightarrow> nat option \<Rightarrow> fact \<Rightarrow> fact" where
  "fact_attr src w p x = x\<lparr>fa_attrs := attrs_assert src w p (fa_attrs x)\<rparr>"

section \<open>Facts through one stage\<close>

lemma nth_prefix: "prefix xs ys \<Longrightarrow> i < length xs \<Longrightarrow> ys ! i = xs ! i"
  by (auto simp: prefix_def nth_append)

lemma name_at_prefix: "prefix ar ar' \<Longrightarrow> fst r + snd r \<le> length ar \<Longrightarrow> name_at ar' r = name_at ar r"
  by (auto simp: prefix_def name_at_append)

text \<open>The name tables have grown; edges, attributions and locators are the same.\<close>

definition grows :: "ctx \<Rightarrow> ctx \<Rightarrow> bool" where
  "grows c c' \<longleftrightarrow> prefix (arena c) (arena c') \<and> prefix (concepts c) (concepts c') \<and>
     prefix (labels c) (labels c') \<and> prefix (sources c) (sources c') \<and> edges c' = edges c \<and>
     attributions c' = attributions c \<and> attribution_locators c' = attribution_locators c"

lemma extends_grows: "extends c c' \<Longrightarrow> grows c c'"
  by (simp add: extends_def grows_def)

lemma grows_names:
  assumes "grows c c'" "names_inv c"
  shows "i < length (concepts c) \<Longrightarrow> cname c' i = cname c i"
    and "i < length (labels c) \<Longrightarrow> lname c' i = lname c i"
    and "i < length (sources c) \<Longrightarrow> sname c' i = sname c i"
  using assms(1) ranges_ok [OF assms(2), of i]
  by (auto simp: grows_def cname_def lname_def sname_def nth_prefix range_ok_def intro!: name_at_prefix)

lemmas extends_names = grows_names [OF extends_grows]

lemma edge_bounds:
  assumes "edges_inv c" "e < length (edges c)"
  shows "ed_subject (edges c ! e) < length (concepts c)" "ed_object (edges c ! e) < length (concepts c)"
    "ed_label (edges c ! e) < length (labels c)"
  using assms by (auto simp: edges_inv_def)

lemma att_view_cong:
  assumes "sname c' (at_source (attributions c' ! a)) = sname c (at_source (attributions c ! a))"
    and "at_sum (attributions c' ! a) = at_sum (attributions c ! a)"
    and "at_count (attributions c' ! a) = at_count (attributions c ! a)"
    and "locator_map (attribution_locators c') a = locator_map (attribution_locators c) a"
  shows "att_view c' a = att_view c a"
  using assms by (simp add: att_view_def)

lemma grows_facts:
  assumes gr: "grows c c'" and inv: "ctx_inv U c"
  shows "facts c' = facts c"
proof -
  note I = ctx_invD [OF inv] and N = grows_names [OF gr ctx_invD(1) [OF inv]]
  obtain f where f: "attr_inv c f" using I(7) by blast
  have "fact_of c' e = fact_of c e" if e: "e < length (edges c)" for e
  proof -
    have "chain_of c' e = chain_of c e" using gr by (simp add: chain_of_def attribution_chain_def grows_def)
    moreover have "att_view c' a = att_view c a" if "a \<in> set (f e)" for a
      using attr_source_bound [OF f e that] gr
      by (intro att_view_cong) (auto simp: grows_def N)
    ultimately show ?thesis
      using edge_bounds [OF I(5) e] gr
      by (simp add: fact_of_def fact_with_def chain_of_eq [OF f e] N grows_def)
  qed
  then show ?thesis using gr by (simp add: facts_def grows_def)
qed

lemmas extends_facts = grows_facts [OF extends_grows]

lemma fact_with_same:
  assumes "same_names c c'" "attributions c' = attributions c" "attribution_locators c' = attribution_locators c"
    "same_payload r r'" "ed_subject r < length (concepts c)" "ed_object r < length (concepts c)"
    "ed_label r < length (labels c)"
  shows "fact_with c' r' xs = fact_with c r xs"
proof -
  have "att_view c' a = att_view c a" for a
    by (rule att_view_cong) (use assms same_names_read(3) [OF assms(1)] in auto)
  then have "map (att_view c') xs = map (att_view c) xs" by simp
  then show ?thesis
    using assms same_names_read [OF assms(1)]
    by (simp add: fact_with_def same_payload_def triple_def)
qed

lemma fact_counts:
  assumes "ctx_inv U c" "e < length (edges c)"
  shows "sum_list (map as_count (fa_attrs (fact_of c e))) \<le> fa_count (fact_of c e)"
proof -
  obtain f where f: "attr_inv c f" using ctx_invD(7) [OF assms(1)] by blast
  then have "edge_attr_ok (attributions c) (length (sources c)) (edges c ! e) (f e)"
    using assms(2) by (simp add: attr_defs)
  then show ?thesis
    by (simp add: fact_of_eq [OF f assms(2)] fact_with_def comp_def att_view_def edge_attr_ok_def)
qed

section \<open>The edge stage\<close>

text \<open>The part of the invariant that neither edges nor attributions can disturb.\<close>

lemma ctx_inv_same_names:
  assumes "ctx_inv U c" "same_names c c'" "bounds_inv c'" "edges_inv c'" "chain_inv c'" "attr_inv c' f"
    "locators_inv c'"
  shows "ctx_inv U c'"
  using ctx_invD [OF assms(1)] same_names_inv [OF assms(2)] assms
  by (auto simp: ctx_inv_def same_names_def)

lemma push_edge_stage:
  assumes inv: "ctx_inv U c" and room: "length (edges c) < NIL"
    and b: "s < length (concepts c)" "l < length (labels c)" "ob < length (concepts c)"
    and new: "edge_ids c (s, l, ob) = None" and w: "is_finite w" and k: "0 < k" "k < 2 ^ 64"
  shows "\<exists>c'. push_edge c (new_edge s l ob k w) = Some (length (edges c), c') \<and> ctx_inv U c' \<and>
     same_names c c' \<and> attributions c' = attributions c \<and> attribution_ids c' = attribution_ids c \<and>
     length (edges c') = Suc (length (edges c)) \<and> triple (edges c' ! length (edges c)) = (s, l, ob) \<and>
     facts c' = facts c @ [(fact_new (cname c s) (lname c l) (cname c ob) w)\<lparr>fa_count := k\<rparr>]"
proof -
  note I = ctx_invD [OF inv]
  obtain f where f: "attr_inv c f" using I(7) by blast
  let ?n = "length (edges c)" and ?r = "new_edge s l ob k w"
  have "\<exists>cs ls es' ids c'. push_edge c ?r = Some (?n, c') \<and>
     c' = c\<lparr>concepts := cs, labels := ls, edges := es', edge_ids := ids\<rparr> \<and>
     same_names c c' \<and> edges_inv c' \<and> chain_inv c' \<and> length es' = Suc ?n \<and>
     (\<forall>e \<le> ?n. same_payload ((edges c @ [?r]) ! e) (es' ! e))"
    by (rule push_edge_spec [OF I(5,6) room]) (use b new in \<open>auto simp: new_edge_def triple_def\<close>)
  then obtain cs ls es' ids c' where p: "push_edge c ?r = Some (?n, c')"
    and c': "c' = c\<lparr>concepts := cs, labels := ls, edges := es', edge_ids := ids\<rparr>"
    and sn: "same_names c c'" and E: "edges_inv c'" "chain_inv c'" and len: "length es' = Suc ?n"
    and pay: "\<forall>e \<le> ?n. same_payload ((edges c @ [?r]) ! e) (es' ! e)" by blast
  have payn: "same_payload ?r (es' ! ?n)" using pay [rule_format, of ?n] by simp
  have payo: "same_payload (edges c ! e) (es' ! e)" if "e < ?n" for e
    using pay [rule_format, of e] that by (simp add: nth_append)
  have ok: "edge_attr_ok (attributions c) (length (sources c)) (es' ! e) ((f(?n := [])) e)" if "e \<le> ?n" for e
  proof (cases "e = ?n")
    case True
    then show ?thesis using payn w k
      by (simp add: edge_attr_ok_def same_payload_def new_edge_def)
  next
    case False
    then have "edge_attr_ok (attributions c) (length (sources c)) (edges c ! e) (f e)"
      using f that by (simp add: attr_defs)
    then show ?thesis using payo [of e] False that by (simp add: edge_attr_ok_def same_payload_def)
  qed
  have counts: "map ed_count es' = map ed_count (edges c @ [?r])"
    using len pay by (intro nth_equalityI) (auto simp: same_payload_def nth_append less_Suc_eq)
  have flt: "length (filter (\<lambda>e. ed_count e = 0) xs) = length (filter (\<lambda>k. k = 0) (map ed_count xs))" for xs
    by (simp add: filter_map comp_def)
  have dead: "length (filter (\<lambda>e. ed_count e = 0) es') = length (filter (\<lambda>e. ed_count e = 0) (edges c))"
    unfolding flt counts using k by (simp add: new_edge_def)
  have f': "attr_inv c' (f(?n := []))"
    unfolding attr_inv_def
  proof (intro conjI)
    show "attr_tables_ok c' (f(?n := []))"
      using f ok len by (auto simp: attr_defs c' less_Suc_eq_le)
    show "attr_index_ok c' (f(?n := []))"
      using f len by (auto simp: attr_defs c' less_Suc_eq)
    show "source_edges_ok c'" using f by (simp add: attr_inv_def source_edges_ok_def c')
    show "dead_ok c' (f(?n := []))" using f len dead by (simp add: attr_defs c' lessThan_Suc)
  qed
  have "ctx_inv U c'"
    by (rule ctx_inv_same_names [OF inv sn _ E f'])
       (use I(2,8) room len same_names_lengths [OF sn] in \<open>auto simp: bounds_inv_def locators_inv_def c'\<close>)
  moreover have "facts c' = facts c @ [(fact_new (cname c s) (lname c l) (cname c ob) w)\<lparr>fa_count := k\<rparr>]"
  proof -
    have old: "fact_of c' e = fact_of c e" if e: "e < ?n" for e
    proof -
      have "fact_of c' e = fact_with c' (es' ! e) (f e)"
        using fact_of_eq [OF f', of e] e len by (simp add: c')
      also have "\<dots> = fact_with c (edges c ! e) (f e)"
        by (rule fact_with_same [OF sn]) (use payo [OF e] edge_bounds [OF I(5) e] in \<open>auto simp: c'\<close>)
      finally show ?thesis by (simp add: fact_of_eq [OF f e])
    qed
    have "fact_of c' ?n = fact_with c' (es' ! ?n) []" using fact_of_eq [OF f', of ?n] len by (simp add: c')
    also have "\<dots> = fact_with c ?r []"
      by (rule fact_with_same [OF sn]) (use payn b in \<open>auto simp: c' new_edge_def\<close>)
    finally have "fact_of c' ?n = (fact_new (cname c s) (lname c l) (cname c ob) w)\<lparr>fa_count := k\<rparr>"
      by (simp add: fact_with_def new_edge_def fact_new_def)
    then show ?thesis using old len by (simp add: facts_def c')
  qed
  moreover have "triple (es' ! ?n) = (s, l, ob)"
    using payn by (simp add: same_payload_def new_edge_def triple_def)
  ultimately show ?thesis using p sn len by (auto simp: c')
qed

lemma facts_update:
  assumes "length (edges c') = length (edges c)" "e < length (edges c)" "fact_of c' e = x"
    "\<And>i. i < length (edges c) \<Longrightarrow> i \<noteq> e \<Longrightarrow> fact_of c' i = fact_of c i"
  shows "facts c' = (facts c)[e := x]"
  using assms by (intro nth_equalityI) (auto simp: nth_list_update)

lemma fold_edge_stage:
  assumes inv: "ctx_inv U c" and i: "i < length (edges c)" and n: "ed_count (edges c ! i) + 1 < 2 ^ 64"
  shows "\<exists>c'. fold_edge c i w = Some c' \<and> ctx_inv U c' \<and> same_names c c' \<and>
     attributions c' = attributions c \<and> attribution_ids c' = attribution_ids c \<and>
     length (edges c') = length (edges c) \<and> triple (edges c' ! i) = triple (edges c ! i) \<and>
     facts c' = (facts c)[i := fact_bump w (facts c ! i)]"
proof -
  note I = ctx_invD [OF inv]
  obtain f where f: "attr_inv c f" using I(7) by blast
  let ?r = "folded_edge (edges c ! i) w"
  obtain d where p: "fold_edge c i w = Some (c\<lparr>edges := (edges c)[i := ?r], dead_edges := d\<rparr>)"
    and f': "attr_inv (c\<lparr>edges := (edges c)[i := ?r], dead_edges := d\<rparr>) f" (is "attr_inv ?c f")
    using fold_edge_spec [OF f I(2) i n] by blast
  have E: "edges_inv ?c" "chain_inv ?c"
    by (rule edge_update_inv [where i = i and e' = ?r and c = c]; use i I(5,6) in \<open>auto simp: folded_edge_def triple_def\<close>)+
  have sn: "same_names c ?c" by (simp add: same_names_def)
  have "ctx_inv U ?c"
    by (rule ctx_inv_same_names [OF inv sn _ E f']) (use I(2,8) in \<open>auto simp: bounds_inv_def locators_inv_def\<close>)
  moreover have "facts ?c = (facts c)[i := fact_bump w (facts c ! i)]"
  proof (rule facts_update)
    have same: "fact_with ?c r xs = fact_with c r xs" for r xs
      by (simp add: fact_with_def cname_def lname_def att_view_def sname_def)
    show "fact_of ?c i = fact_bump w (facts c ! i)"
      using fact_of_eq [OF f'] i fact_of_eq [OF f i]
      by (simp add: same) (simp add: fact_with_def fact_bump_def folded_edge_def)
    show "fact_of ?c e = fact_of c e" if "e < length (edges c)" "e \<noteq> i" for e
      using fact_of_eq [OF f'] that fact_of_eq [OF f] by (simp add: same)
  qed (use i in auto)
  ultimately show ?thesis using p sn i by (auto simp: folded_edge_def triple_def)
qed

section \<open>The attribution stage\<close>

lemma locators_append:
  assumes "locators_inv c" "\<forall>q. p = Some q \<longrightarrow> q < 2 ^ 32"
    and "attribution_locators c' = attribution_locators c @
      (case p of None \<Rightarrow> [] | Some q \<Rightarrow> [\<lparr>lo_attribution = length (attributions c), lo_paragraph = q\<rparr>])"
    and "length (attributions c') = Suc (length (attributions c))"
  shows "locators_inv c'"
    and "a < length (attributions c) \<Longrightarrow>
      locator_map (attribution_locators c') a = locator_map (attribution_locators c) a"
    and "locator_map (attribution_locators c') (length (attributions c)) = p"
proof -
  show "locators_inv c'"
    using assms by (cases p) (auto simp: locators_inv_def sorted_wrt_append less_SucI)
  show "a < length (attributions c) \<Longrightarrow>
      locator_map (attribution_locators c') a = locator_map (attribution_locators c) a"
    unfolding assms(3) by (rule locator_map_append(2)) (auto split: option.splits)
  have "length (attributions c) \<notin> lo_attribution ` set (attribution_locators c)"
    using assms(1) by (auto simp: locators_inv_def)
  then show "locator_map (attribution_locators c') (length (attributions c)) = p"
    unfolding assms(3) by (subst locator_map_append(1)) (auto simp: locator_map_def split: option.splits)
qed

lemma attr_sources_listed:
  assumes "names_inv c" "attr_inv c f" "e < length (edges c)" "k < length (sources c)"
  shows "sname c k \<in> set (map as_source (fa_attrs (fact_of c e))) \<longleftrightarrow> attribution_ids c (e, k) \<noteq> None"
    and "a \<in> set (f e) \<Longrightarrow> sname c (at_source (attributions c ! a)) = sname c k \<longleftrightarrow> attribution_ids c (e, k) = Some a"
proof -
  have inj: "sname c i = sname c k \<longleftrightarrow> i = k" if "i < length (sources c)" for i
    using name_ids(3) [OF assms(1)] that assms(4) by (metis option.inject)
  show 2: "sname c (at_source (attributions c ! a)) = sname c k \<longleftrightarrow> attribution_ids c (e, k) = Some a"
    if "a \<in> set (f e)" for a
    using attr_source_bound [OF assms(2,3) that] attr_ids_iff [OF assms(2)] assms(3) that inj by auto
  have "sname c k \<in> set (map as_source (fa_attrs (fact_of c e))) \<longleftrightarrow>
      (\<exists>a \<in> set (f e). sname c (at_source (attributions c ! a)) = sname c k)"
    by (auto simp: fact_of_eq [OF assms(2,3)] fact_with_def att_view_def image_iff) metis+
  also have "\<dots> \<longleftrightarrow> (\<exists>a. attribution_ids c (e, k) = Some a)"
    using 2 attr_ids_iff [OF assms(2)] by blast
  finally show "sname c k \<in> set (map as_source (fa_attrs (fact_of c e))) \<longleftrightarrow> attribution_ids c (e, k) \<noteq> None"
    by simp
qed

lemma push_attribution_stage:
  assumes inv: "ctx_inv U c" and e: "e < length (edges c)" and k: "k < length (sources c)"
    and new: "attribution_ids c (e, k) = None" and room: "length (attributions c) < NIL"
    and m: "0 < m" "sum_list (map as_count (fa_attrs (fact_of c e))) + m \<le> fa_count (fact_of c e)"
    and w: "is_finite w" and p: "\<forall>q. p = Some q \<longrightarrow> q < 2 ^ 32"
  shows "\<exists>c'. push_attribution c e k m w p = Some c' \<and> ctx_inv U c' \<and> same_names c c' \<and>
     length (edges c') = length (edges c) \<and> length (attributions c') = Suc (length (attributions c)) \<and>
     attribution_ids c' = (attribution_ids c)((e, k) \<mapsto> length (attributions c)) \<and>
     facts c' = (facts c)[e := (fact_of c e)\<lparr>fa_attrs := fa_attrs (fact_of c e) @
        [\<lparr>as_source = sname c k, as_weight = w, as_count = m, as_paragraph = p\<rparr>]\<rparr>]"
proof -
  note I = ctx_invD [OF inv]
  obtain f where f: "attr_inv c f" using I(7) by blast
  have F: "fact_of c e = fact_with c (edges c ! e) (f e)" by (rule fact_of_eq [OF f e])
  have sum: "sum_list (map (\<lambda>a. at_count (attributions c ! a)) (f e)) + m \<le> ed_count (edges c ! e)"
    using m(2) by (simp add: F fact_with_def comp_def att_view_def)
  let ?n = "length (attributions c)"
  obtain c' h ats es where pp: "push_attribution c e k m w p = Some c'"
    and f': "attr_inv c' (f(e := f e @ [?n]))"
    and c': "c' = c\<lparr>attributions := ats, attribution_ids := (attribution_ids c)((e, k) \<mapsto> ?n),
            source_edges := es, attribution_locators := attribution_locators c @
               (case p of None \<Rightarrow> [] | Some q \<Rightarrow> [\<lparr>lo_attribution = ?n, lo_paragraph = q\<rparr>]),
            edges := (edges c)[e := (edges c ! e)\<lparr>ed_first_attribution := h, ed_last_attribution := ?n\<rparr>]\<rparr>"
    and ats: "length ats = Suc ?n" "at_source (ats ! ?n) = k" "at_count (ats ! ?n) = m" "at_sum (ats ! ?n) = w"
      "\<forall>a < ?n. at_source (ats ! a) = at_source (attributions c ! a) \<and>
        at_count (ats ! a) = at_count (attributions c ! a) \<and> at_sum (ats ! a) = at_sum (attributions c ! a)"
    using push_attribution_spec [OF f e k new room m(1) sum w, of p] by blast
  have los: "attribution_locators c' = attribution_locators c @
      (case p of None \<Rightarrow> [] | Some q \<Rightarrow> [\<lparr>lo_attribution = ?n, lo_paragraph = q\<rparr>])"
    and ln: "length (attributions c') = Suc ?n" using ats by (simp_all add: c')
  note LO = locators_append [OF I(8) p los ln]
  have sn: "same_names c c'" by (simp add: same_names_def c')
  have E: "edges_inv c'" "chain_inv c'"
    by (rule edge_update_inv [where i = e and c = c and
         e' = "(edges c ! e)\<lparr>ed_first_attribution := h, ed_last_attribution := ?n\<rparr>"];
        use e I(5,6) in \<open>auto simp: c' triple_def\<close>)+
  have inv': "ctx_inv U c'"
    by (rule ctx_inv_same_names [OF inv sn _ E f' LO(1)])
       (use I(2) room ats(1) in \<open>auto simp: bounds_inv_def c'\<close>)
  have old: "att_view c' a = att_view c a" if "a < ?n" for a
    by (rule att_view_cong) (use ats(5) that LO(2) [OF that] in \<open>auto simp: c' sname_def\<close>)
  have new: "att_view c' ?n = \<lparr>as_source = sname c k, as_weight = w, as_count = m, as_paragraph = p\<rparr>"
    using ats LO(3) by (simp add: att_view_def) (simp add: c' sname_def)
  have olds: "map (att_view c') (f i) = map (att_view c) (f i)" if "i < length (edges c)" for i
    using old attr_listed(1) [OF f that] by auto
  have "facts c' = (facts c)[e := (fact_of c e)\<lparr>fa_attrs := fa_attrs (fact_of c e) @
        [\<lparr>as_source = sname c k, as_weight = w, as_count = m, as_paragraph = p\<rparr>]\<rparr>]"
  proof (rule facts_update)
    have nm: "cname c' i = cname c i" "lname c' i = lname c i" for i by (simp_all add: c' cname_def lname_def)
    have E': "fact_of c' e = fact_with c' (edges c' ! e) (f e @ [?n])"
      using fact_of_eq [OF f', of e] e by (simp add: c')
    show "fact_of c' e = (fact_of c e)\<lparr>fa_attrs := fa_attrs (fact_of c e) @
        [\<lparr>as_source = sname c k, as_weight = w, as_count = m, as_paragraph = p\<rparr>]\<rparr>"
      unfolding E' F fact_with_def map_append olds [OF e] nm list.map new using e by (simp add: c')
    show "fact_of c' i = fact_of c i" if "i < length (edges c)" "i \<noteq> e" for i
    proof -
      have "fact_of c' i = fact_with c' (edges c' ! i) (f i)"
        using fact_of_eq [OF f', of i] that by (simp add: c')
      then show ?thesis
        unfolding fact_of_eq [OF f that(1)] fact_with_def olds [OF that(1)] nm using that by (simp add: c')
    qed
  qed (use e in \<open>simp_all add: c'\<close>)
  then show ?thesis using pp inv' sn ln by (simp add: c')
qed

lemma reattribute_stage:
  assumes inv: "ctx_inv U c" and e: "e < length (edges c)" and k: "k < length (sources c)"
    and old: "attribution_ids c (e, k) = Some a"
    and m: "sum_list (map as_count (fa_attrs (fact_of c e))) < fa_count (fact_of c e)"
  shows "\<exists>c'. attribute c e k w p = Some c' \<and> ctx_inv U c' \<and> same_names c c' \<and>
     length (edges c') = length (edges c) \<and>
     facts c' = (facts c)[e := fact_attr (sname c k) w p (fact_of c e)]"
proof -
  note I = ctx_invD [OF inv]
  obtain f where f: "attr_inv c f" using I(7) by blast
  have F: "fact_of c e = fact_with c (edges c ! e) (f e)" by (rule fact_of_eq [OF f e])
  have ae: "a \<in> set (f e)" using attr_ids_iff [OF f] old by auto
  have al: "a < length (attributions c)" using attr_source_bound [OF f e ae] by simp
  have sum: "sum_list (map (\<lambda>a. at_count (attributions c ! a)) (f e)) < ed_count (edges c ! e)"
    using m by (simp add: F fact_with_def comp_def att_view_def)
  have "at_count (attributions c ! a) \<le> sum_list (map (\<lambda>a. at_count (attributions c ! a)) (f e))"
    using ae by (intro member_le_sum_list) auto
  moreover have "ed_count (edges c ! e) < 2 ^ 64" using f e by (simp add: attr_defs edge_attr_ok_def)
  ultimately have cnt: "at_count (attributions c ! a) + 1 < 2 ^ 64" using sum by simp
  let ?r = "(attributions c ! a)\<lparr>at_sum := accumulate_saturating (at_sum (attributions c ! a)) w,
      at_count := Suc (at_count (attributions c ! a))\<rparr>"
  let ?c = "c\<lparr>attributions := (attributions c)[a := ?r]\<rparr>"
  have eq: "attribute c e k w p = Some ?c"
    using old al cnt by (simp add: attribute_def u64_incr)
  have f': "attr_inv ?c f" by (rule reattribute_keep [OF f old sum refl]) simp
  have sn: "same_names c ?c" by (simp add: same_names_def)
  have inv': "ctx_inv U ?c"
    by (rule ctx_inv_same_names [OF inv sn _ _ _ f'])
       (use I(2,5,6,8) in \<open>auto simp: bounds_inv_def edges_inv_def chain_inv_def locators_inv_def\<close>)
  have other: "att_view ?c x = att_view c x" if "x \<noteq> a" for x
    using that by (intro att_view_cong) (auto simp: sname_def)
  have self: "att_view ?c a = (att_view c a)\<lparr>as_weight := accumulate_saturating (as_weight (att_view c a)) w,
      as_count := as_count (att_view c a) + 1\<rparr>"
    using al by (simp add: att_view_def sname_def)
  have "facts ?c = (facts c)[e := fact_attr (sname c k) w p (fact_of c e)]"
  proof (rule facts_update)
    have mem: "sname c k \<in> set (map as_source (fa_attrs (fact_of c e)))"
      using attr_sources_listed(1) [OF I(1) f e k] old by simp
    have hit: "as_source (att_view c x) = sname c k \<longleftrightarrow> x = a" if "x \<in> set (f e)" for x
      using attr_sources_listed(2) [OF I(1) f e k that] old by (simp add: att_view_def) auto
    have "map (att_view ?c) (f e) = attrs_assert (sname c k) w p (map (att_view c) (f e))"
      using mem hit other self unfolding attrs_assert_def F fact_with_def by auto
    then show "fact_of ?c e = fact_attr (sname c k) w p (fact_of c e)"
      using fact_of_eq [OF f', of e] e
      by (simp add: F fact_with_def fact_attr_def cname_def lname_def)
    show "fact_of ?c i = fact_of c i" if i: "i < length (edges c)" "i \<noteq> e" for i
    proof -
      have "a \<notin> set (f i)" using f i e ae unfolding attr_inv_def attr_tables_ok_def by blast
      then have "map (att_view ?c) (f i) = map (att_view c) (f i)" by (auto intro!: other)
      then show ?thesis
        using fact_of_eq [OF f', of i] i fact_of_eq [OF f i(1)]
        by (simp add: fact_with_def cname_def lname_def)
    qed
  qed (use e in simp_all)
  with eq inv' sn show ?thesis by auto
qed

lemma attribute_stage:
  assumes inv: "ctx_inv U c" and e: "e < length (edges c)" and k: "k < length (sources c)"
    and room: "attribution_ids c (e, k) = None \<Longrightarrow> length (attributions c) < NIL"
    and m: "sum_list (map as_count (fa_attrs (fact_of c e))) < fa_count (fact_of c e)"
    and w: "is_finite w" and p: "\<forall>q. p = Some q \<longrightarrow> q < 2 ^ 32"
  shows "\<exists>c'. attribute c e k w p = Some c' \<and> ctx_inv U c' \<and> same_names c c' \<and>
     length (edges c') = length (edges c) \<and>
     facts c' = (facts c)[e := fact_attr (sname c k) w p (fact_of c e)]"
proof (cases "attribution_ids c (e, k)")
  case None
  obtain f where f: "attr_inv c f" using ctx_invD(7) [OF inv] by blast
  have m1: "sum_list (map as_count (fa_attrs (fact_of c e))) + 1 \<le> fa_count (fact_of c e)" using m by simp
  have "sname c k \<notin> set (map as_source (fa_attrs (fact_of c e)))"
    using attr_sources_listed(1) [OF ctx_invD(1) [OF inv] f e k] None by simp
  then have "fact_attr (sname c k) w p (fact_of c e) = (fact_of c e)\<lparr>fa_attrs := fa_attrs (fact_of c e) @
        [\<lparr>as_source = sname c k, as_weight = w, as_count = 1, as_paragraph = p\<rparr>]\<rparr>"
    by (simp add: fact_attr_def attrs_assert_def)
  then show ?thesis
    using push_attribution_stage [OF inv e k None room [OF None] _ m1 w p] None
    by (simp add: attribute_def) blast
next
  case (Some a)
  then show ?thesis by (rule reattribute_stage [OF inv e k _ m])
qed

section \<open>The whole upsert\<close>

definition edge_stage :: "ctx \<Rightarrow> nat \<Rightarrow> nat \<Rightarrow> nat \<Rightarrow> f64 \<Rightarrow> (nat \<times> ctx) option" where
  "edge_stage c s l ob w = (case edge_ids c (s, l, ob) of
       Some e \<Rightarrow> map_option (Pair e) (fold_edge c e w)
     | None \<Rightarrow> push_edge c (new_edge s l ob 1 w))"

lemma edge_stage_spec:
  assumes inv: "ctx_inv U c" and b: "s < length (concepts c)" "l < length (labels c)" "ob < length (concepts c)"
    and room: "edge_ids c (s, l, ob) = None \<Longrightarrow> length (edges c) < NIL" and w: "is_finite w"
    and n: "\<forall>e \<in> set (edges c). ed_count e + 1 < 2 ^ 64"
  shows "\<exists>e c'. edge_stage c s l ob w = Some (e, c') \<and> ctx_inv U c' \<and> same_names c c' \<and>
     attributions c' = attributions c \<and> attribution_ids c' = attribution_ids c \<and>
     e < length (edges c') \<and> triple (edges c' ! e) = (s, l, ob) \<and> (edge_ids c (s, l, ob) = Some e \<or> edge_ids c (s, l, ob) = None \<and> e = length (edges c)) \<and>
     sum_list (map as_count (fa_attrs (fact_of c' e))) < fa_count (fact_of c' e) \<and>
     facts c' = (case edge_ids c (s, l, ob) of Some i \<Rightarrow> (facts c)[i := fact_bump w (fact_of c i)]
        | None \<Rightarrow> facts c @ [fact_new (cname c s) (lname c l) (cname c ob) w])"
proof (cases "edge_ids c (s, l, ob)")
  case None
  obtain c' where c': "push_edge c (new_edge s l ob 1 w) = Some (length (edges c), c')" "ctx_inv U c'"
     "same_names c c'" "attributions c' = attributions c" "attribution_ids c' = attribution_ids c"
     "length (edges c') = Suc (length (edges c))" "triple (edges c' ! length (edges c)) = (s, l, ob)"
     "facts c' = facts c @ [(fact_new (cname c s) (lname c l) (cname c ob) w)\<lparr>fa_count := 1\<rparr>]"
    using push_edge_stage [OF inv room [OF None] b None w, of 1] by auto
  then have "fact_of c' (length (edges c)) = fact_new (cname c s) (lname c l) (cname c ob) w"
    using nth_facts [of "length (edges c)" c', symmetric] by (simp add: fact_new_def nth_append)
  with c' None show ?thesis by (auto simp: edge_stage_def fact_new_def)
next
  case (Some i)
  then have i: "i < length (edges c)" and t: "triple (edges c ! i) = (s, l, ob)"
    using edge_ids_iff [OF ctx_invD(5) [OF inv]] by blast+
  then have "ed_count (edges c ! i) + 1 < 2 ^ 64" using n by simp
  from fold_edge_stage [OF inv i this, of w]
  obtain c' where c': "fold_edge c i w = Some c'" "ctx_inv U c'" "same_names c c'"
     "attributions c' = attributions c" "attribution_ids c' = attribution_ids c"
     "length (edges c') = length (edges c)" "triple (edges c' ! i) = (s, l, ob)"
     "facts c' = (facts c)[i := fact_bump w (fact_of c i)]"
    using i t by auto
  have "fact_of c' i = fact_bump w (fact_of c i)"
    using c' i nth_facts [of i c'] by simp
  with c' Some i fact_counts [OF inv i] show ?thesis by (simp add: edge_stage_def fact_bump_def)
qed

section \<open>The abstract knowledge base\<close>

text \<open>
  What a caller can tell of a context: which canonical name each spelling resolves to, which
  sources were named, and the facts.
\<close>

record kb =
  kb_concepts :: "rstr \<rightharpoonup> rstr"
  kb_labels :: "rstr \<rightharpoonup> rstr"
  kb_sources :: "rstr set"
  kb_facts :: "fact list"

definition kb_of :: "ctx \<Rightarrow> kb" where
  "kb_of c = \<lparr>kb_concepts = (\<lambda>x. map_option (cname c) (concept_ids c x)),
     kb_labels = (\<lambda>x. map_option (lname c) (label_ids c x)),
     kb_sources = dom (source_ids c), kb_facts = facts c\<rparr>"

definition canon :: "(rstr \<rightharpoonup> rstr) \<Rightarrow> rstr \<Rightarrow> rstr" where
  "canon m x = (case m x of None \<Rightarrow> x | Some y \<Rightarrow> y)"

definition facts_assert ::
    "rstr \<Rightarrow> rstr \<Rightarrow> rstr \<Rightarrow> f64 \<Rightarrow> rstr option \<Rightarrow> nat option \<Rightarrow> fact list \<Rightarrow> fact list" where
  "facts_assert s l ob w source p xs =
     (let ys = (if \<exists>x \<in> set xs. same_triple s l ob x
                then map (\<lambda>x. if same_triple s l ob x then fact_bump w x else x) xs
                else xs @ [fact_new s l ob w])
      in case source of None \<Rightarrow> ys
         | Some src \<Rightarrow> map (\<lambda>x. if same_triple s l ob x then fact_attr src w p x else x) ys)"

definition kb_assert ::
    "rstr \<Rightarrow> rstr \<Rightarrow> rstr \<Rightarrow> f64 \<Rightarrow> rstr option \<Rightarrow> nat option \<Rightarrow> kb \<Rightarrow> kb" where
  "kb_assert subject label object w source p k =
     (let s = canon (kb_concepts k) subject; l = canon (kb_labels k) label;
          ob = canon (kb_concepts k) object
      in \<lparr>kb_concepts = (kb_concepts k)(subject \<mapsto> s, object \<mapsto> ob),
          kb_labels = (kb_labels k)(label \<mapsto> l),
          kb_sources = kb_sources k \<union> set_option source,
          kb_facts = facts_assert s l ob w source p (kb_facts k)\<rparr>)"

lemma ns_extend:
  assumes "ns_ok ar rs als ids" "ns_ok ar' rs' als ids'" "prefix ar ar'" "prefix rs rs'"
  shows "ids' k = Some i \<Longrightarrow> ids k = Some j \<Longrightarrow> i = j"
    and "ids' k = Some i \<Longrightarrow> ids k = None \<Longrightarrow> name_at ar' (rs' ! i) = k"
proof -
  have nm: "name_at ar' (rs' ! n) = name_at ar (rs ! n)" if "n < length rs" for n
  proof -
    have "range_ok ar (rs ! n)" using assms(1) that by (simp add: ns_ok_def)
    then show ?thesis
      using name_at_prefix [OF assms(3)] nth_prefix [OF assms(4) that] by (simp add: range_ok_def)
  qed
  have al: "name_at ar' (alias_range a) = name_at ar (alias_range a)" if "a \<in> set als" for a
    using assms(1) that name_at_prefix [OF assms(3)] by (simp add: ns_ok_def range_ok_def)
  have len: "length rs \<le> length rs'" using assms(4) prefix_length_le by blast
  have sub: "set (spellings ar rs als) \<subseteq> set (spellings ar' rs' als)"
  proof
    fix p assume "p \<in> set (spellings ar rs als)"
    then consider n where "n < length rs" "p = (name_at ar (rs ! n), n)"
      | a where "a \<in> set als" "p = (name_at ar (alias_range a), al_target a)"
      unfolding set_spellings by blast
    then show "p \<in> set (spellings ar' rs' als)"
    proof cases
      case 1
      then have "n < length rs'" "p = (name_at ar' (rs' ! n), n)" using nm len by auto
      then show ?thesis unfolding set_spellings by blast
    next
      case 2
      then have "p = (name_at ar' (alias_range a), al_target a)" using al by simp
      with 2 show ?thesis unfolding set_spellings by blast
    qed
  qed
  show "i = j" if "ids' k = Some i" "ids k = Some j"
  proof -
    have "(k, j) \<in> set (spellings ar' rs' als)" using that(2) ns_ok_iff [OF assms(1)] sub by blast
    then have "ids' k = Some j" using ns_ok_iff [OF assms(2)] by blast
    with that show ?thesis by simp
  qed
  show "name_at ar' (rs' ! i) = k" if "ids' k = Some i" "ids k = None"
  proof -
    have "(k, i) \<in> set (spellings ar' rs' als)" using that(1) ns_ok_iff [OF assms(2)] by simp
    moreover have "(k, j) \<notin> set (spellings ar rs als)" for j
      using that(2) ns_ok_iff [OF assms(1), of k j] by simp
    ultimately show ?thesis using al by (auto simp: set_spellings)
  qed
qed

lemma extends_canon:
  assumes ext: "extends c c'" and inv: "names_inv c" "names_inv c'"
  shows "concept_ids c' k = Some i \<Longrightarrow> cname c' i = canon (kb_concepts (kb_of c)) k"
    and "label_ids c' k = Some i \<Longrightarrow> lname c' i = canon (kb_labels (kb_of c)) k"
    and "source_ids c' k = Some i \<Longrightarrow> sname c' i = k"
proof -
  have P: "prefix (arena c) (arena c')" "prefix (concept_ranges c) (concept_ranges c')"
    "prefix (label_ranges c) (label_ranges c')"
    and al: "concept_aliases c' = concept_aliases c" "label_aliases c' = label_aliases c"
    using ext map_mono_prefix by (auto simp: extends_def)
  note N = inv(1) [unfolded names_inv_def] inv(2) [unfolded names_inv_def al]
  have B: "concept_ids c' k = Some i \<Longrightarrow> i < length (concepts c')" "concept_ids c k = Some i \<Longrightarrow> i < length (concepts c)"
    "label_ids c' k = Some i \<Longrightarrow> i < length (labels c')" "label_ids c k = Some i \<Longrightarrow> i < length (labels c)"
    "source_ids c' k = Some i \<Longrightarrow> i < length (sources c')" for k i
    using N ns_ok_id_bound by fastforce+
  show "cname c' i = canon (kb_concepts (kb_of c)) k" if "concept_ids c' k = Some i"
    using that ns_extend [of "arena c" "concept_ranges c" "concept_aliases c" "concept_ids c" "arena c'"
        "concept_ranges c'" "concept_ids c'" k i] N P B extends_names(1) [OF ext inv(1)]
    by (cases "concept_ids c k") (auto simp: canon_def kb_of_def cname_def)
  show "lname c' i = canon (kb_labels (kb_of c)) k" if "label_ids c' k = Some i"
    using that ns_extend [of "arena c" "label_ranges c" "label_aliases c" "label_ids c" "arena c'"
        "label_ranges c'" "label_ids c'" k i] N P B extends_names(2) [OF ext inv(1)]
    by (cases "label_ids c k") (auto simp: canon_def kb_of_def lname_def)
  show "sname c' i = k" if "source_ids c' k = Some i"
    using that N B(5) by (auto simp: ns_ok_def set_spellings sname_def)
qed

lemma map_if_update:
  assumes "i < length xs" "\<And>j. j < length xs \<Longrightarrow> P (xs ! j) \<longleftrightarrow> j = i"
  shows "map (\<lambda>x. if P x then g x else x) xs = xs[i := g (xs ! i)]"
  using assms by (intro nth_equalityI) (auto simp: nth_list_update)

lemma kb_extends:
  assumes ext: "extends c c'" and inv: "ctx_inv U c" "ctx_inv U c'"
    and ids: "concept_ids c' = (concept_ids c)(subject \<mapsto> s, object \<mapsto> ob)"
      "label_ids c' = (label_ids c)(label \<mapsto> l)" "dom (source_ids c') = dom (source_ids c) \<union> set_option source"
  shows "kb_of c' = \<lparr>kb_concepts = (kb_concepts (kb_of c))(subject \<mapsto> cname c' s, object \<mapsto> cname c' ob),
    kb_labels = (kb_labels (kb_of c))(label \<mapsto> lname c' l),
    kb_sources = kb_sources (kb_of c) \<union> set_option source, kb_facts = kb_facts (kb_of c)\<rparr>"
proof -
  note N = extends_names [OF ext ctx_invD(1) [OF inv(1)]]
  have "map_option (cname c') (concept_ids c x) = map_option (cname c) (concept_ids c x)" for x
    using ids_bound(1) [OF inv(1)] N(1) by (cases "concept_ids c x") auto
  moreover have "map_option (lname c') (label_ids c x) = map_option (lname c) (label_ids c x)" for x
    using ids_bound(2) [OF inv(1)] N(2) by (cases "label_ids c x") auto
  ultimately show ?thesis
    using ids extends_facts [OF ext inv(1)] by (auto simp: kb_of_def fun_eq_iff)
qed

lemma kb_same_names:
  assumes "same_names c c'" "ctx_inv U c"
  shows "kb_of c' = (kb_of c)\<lparr>kb_facts := facts c'\<rparr>"
proof -
  have "map_option (cname c') (concept_ids c x) = map_option (cname c) (concept_ids c x)" for x
    using ids_bound(1) [OF assms(2)] same_names_read(1) [OF assms(1)] by (cases "concept_ids c x") auto
  moreover have "map_option (lname c') (label_ids c x) = map_option (lname c) (label_ids c x)" for x
    using ids_bound(2) [OF assms(2)] same_names_read(2) [OF assms(1)] by (cases "label_ids c x") auto
  moreover have "concept_ids c' = concept_ids c" "label_ids c' = label_ids c" "source_ids c' = source_ids c"
    using assms(1) by (simp_all add: same_names_def)
  ultimately show ?thesis by (simp add: kb_of_def)
qed

text \<open>The arguments a caller may pass, and a counter that still has room for one more assertion.\<close>

definition assertable :: "ctx \<Rightarrow> rstr \<Rightarrow> rstr \<Rightarrow> rstr \<Rightarrow> f64 \<Rightarrow> rstr option \<Rightarrow> nat option \<Rightarrow> bool" where
  "assertable c subject label object w source p \<longleftrightarrow>
     utf8_valid subject \<and> utf8_valid label \<and> utf8_valid object \<and> is_finite w \<and>
     (case source of None \<Rightarrow> True | Some name \<Rightarrow> utf8_valid name) \<and>
     (case p of None \<Rightarrow> True | Some q \<Rightarrow> q < 2 ^ 32) \<and>
     list_all (\<lambda>e. ed_count e + 1 < 2 ^ 64) (edges c)"

lemma upsert_stages:
  "upsert U c subject label object weight source paragraph =
     (if \<not> is_finite weight then None
      else case ensure_room c subject label object source of
        Inl full \<Rightarrow> Some (Inl full)
      | Inr _ \<Rightarrow> do {
          (subject_id, c1) \<leftarrow> intern_concept U c subject;
          (object_id, c2) \<leftarrow> intern_concept U c1 object;
          (label_id, c3) \<leftarrow> intern_label U c2 label;
          (source_id, c4) \<leftarrow> intern_source_opt c3 source;
          (edge_id, c5) \<leftarrow> edge_stage c4 subject_id label_id object_id weight;
          c6 \<leftarrow> (case source_id of None \<Rightarrow> Some c5
             | Some sid \<Rightarrow> attribute c5 edge_id sid weight paragraph);
          Some (Inr c6)
        })"
  unfolding upsert_def intern_source_opt_def edge_stage_def ..

lemma extends_ids:
  assumes ext: "extends c c'" and inv: "names_inv c" "names_inv c'"
  shows "concept_ids c' k = Some i \<Longrightarrow> concept_ids c k = Some j \<Longrightarrow> i = j"
    and "label_ids c' k = Some i \<Longrightarrow> label_ids c k = Some j \<Longrightarrow> i = j"
    and "source_ids c' k = Some i \<Longrightarrow> source_ids c k = Some j \<Longrightarrow> i = j"
proof -
  have P: "prefix (arena c) (arena c')" "prefix (concept_ranges c) (concept_ranges c')"
    "prefix (label_ranges c) (label_ranges c')" "prefix (source_ranges c) (source_ranges c')"
    and al: "concept_aliases c' = concept_aliases c" "label_aliases c' = label_aliases c"
    using ext map_mono_prefix by (auto simp: extends_def)
  note N = inv(1) [unfolded names_inv_def] inv(2) [unfolded names_inv_def al]
  show "concept_ids c' k = Some i \<Longrightarrow> concept_ids c k = Some j \<Longrightarrow> i = j"
    using ns_extend(1) N P by blast
  show "label_ids c' k = Some i \<Longrightarrow> label_ids c k = Some j \<Longrightarrow> i = j"
    using ns_extend(1) N P by blast
  show "source_ids c' k = Some i \<Longrightarrow> source_ids c k = Some j \<Longrightarrow> i = j"
    using ns_extend(1) N P by blast
qed

lemma facts_assert_edge:
  assumes inv: "ctx_inv U c" and b: "s < length (concepts c)" "l < length (labels c)" "ob < length (concepts c)"
  shows "(if \<exists>x \<in> set (facts c). same_triple (cname c s) (lname c l) (cname c ob) x
          then map (\<lambda>x. if same_triple (cname c s) (lname c l) (cname c ob) x then g x else x) (facts c)
          else facts c @ [y]) =
     (case edge_ids c (s, l, ob) of Some i \<Rightarrow> (facts c)[i := g (fact_of c i)] | None \<Rightarrow> facts c @ [y])"
proof -
  note I = ctx_invD [OF inv]
  have iff: "same_triple (cname c s) (lname c l) (cname c ob) (facts c ! j) \<longleftrightarrow> edge_ids c (s, l, ob) = Some j"
    if "j < length (facts c)" for j
    using fact_triple_iff [OF I(1,5) b, of j] that by simp
  show ?thesis
  proof (cases "edge_ids c (s, l, ob)")
    case None
    then show ?thesis using iff by (auto simp: in_set_conv_nth)
  next
    case (Some i)
    then have i: "i < length (facts c)" using edge_ids_iff [OF I(5)] by simp
    then have "\<exists>x \<in> set (facts c). same_triple (cname c s) (lname c l) (cname c ob) x"
      using iff Some nth_mem by blast
    moreover have "map (\<lambda>x. if same_triple (cname c s) (lname c l) (cname c ob) x then g x else x) (facts c)
        = (facts c)[i := g (facts c ! i)]"
      by (rule map_if_update [OF i]) (use iff Some in auto)
    ultimately show ?thesis using Some i by simp
  qed
qed

lemma facts_assert_source:
  "facts_assert s l ob w (Some src) p xs =
     map (\<lambda>x. if same_triple s l ob x then fact_attr src w p x else x) (facts_assert s l ob w None p xs)"
  by (simp add: facts_assert_def)

lemma upsert_spec:
  assumes inv: "ctx_inv U c" and ok: "assertable c subject label object w source p"
    and room: "ensure_room c subject label object source = Inr ()"
  shows "\<exists>c'. upsert U c subject label object w source p = Some (Inr c') \<and> ctx_inv U c' \<and>
     kb_of c' = kb_assert subject label object w source p (kb_of c)"
proof -
  have cl: "length (concepts c) \<le> NIL" using ctx_invD(2) [OF inv] by (simp add: bounds_inv_def)
  note R = ensure_room_OkD [OF room cl]
  obtain s c1 ob c2 l c3 so c4 where n1: "intern_concept U c subject = Some (s, c1)"
     "intern_concept U c1 object = Some (ob, c2)" "intern_label U c2 label = Some (l, c3)"
     "intern_source_opt c3 source = Some (so, c4)" and inv4: "ctx_inv U c4" and ext: "extends c c4"
    and b: "s < length (concepts c4)" "l < length (labels c4)" "ob < length (concepts c4)"
    and ids: "concept_ids c4 = (concept_ids c)(subject \<mapsto> s, object \<mapsto> ob)" "label_ids c4 = (label_ids c)(label \<mapsto> l)"
     "source_ids c4 = (case (source, so) of (Some name, Some k) \<Rightarrow> (source_ids c)(name \<mapsto> k) | _ \<Rightarrow> source_ids c)"
     "concept_ids c4 subject = Some s"
    and so: "so = None \<longleftrightarrow> source = None" "\<forall>k. so = Some k \<longrightarrow> k < length (sources c4)"
    using upsert_names [OF inv _ _ _ _ room] ok by (auto simp: assertable_def split: option.splits)
  note N = ctx_invD(1) [OF inv] ctx_invD(1) [OF inv4]
  have same4: "edges c4 = edges c" "edge_ids c4 = edge_ids c" "attributions c4 = attributions c"
    "attribution_ids c4 = attribution_ids c" using ext by (simp_all add: extends_def)
  have i4: "concept_ids c4 object = Some ob" "label_ids c4 label = Some l" using ids by simp_all
  have ex: "edge_ids c (s, l, ob) = Some e" if "existing_edge c subject label object = Some e" for e
    using that extends_ids(1) [OF ext N ids(4)] extends_ids(1) [OF ext N i4(1)] extends_ids(2) [OF ext N i4(2)]
    by (auto simp: existing_edge_def bind_eq_Some_conv)
  have r4: "edge_ids c4 (s, l, ob) = None \<Longrightarrow> length (edges c4) < NIL"
    using ex R(4) same4 by (cases "existing_edge c subject label object") auto
  obtain e c5 where e5: "edge_stage c4 s l ob w = Some (e, c5)" and inv5: "ctx_inv U c5" and sn: "same_names c4 c5"
    and same5: "attributions c5 = attributions c4" "attribution_ids c5 = attribution_ids c4"
    and el: "e < length (edges c5)" and t5: "triple (edges c5 ! e) = (s, l, ob)"
    and old: "edge_ids c4 (s, l, ob) = Some e \<or> edge_ids c4 (s, l, ob) = None \<and> e = length (edges c4)"
    and strict: "sum_list (map as_count (fa_attrs (fact_of c5 e))) < fa_count (fact_of c5 e)"
    and F5: "facts c5 = (case edge_ids c4 (s, l, ob) of Some i \<Rightarrow> (facts c4)[i := fact_bump w (fact_of c4 i)]
        | None \<Rightarrow> facts c4 @ [fact_new (cname c4 s) (lname c4 l) (cname c4 ob) w])"
    using edge_stage_spec [OF inv4 b r4, of w] ok same4 by (auto simp: assertable_def list_all_iff)
  let ?P = "same_triple (cname c4 s) (lname c4 l) (cname c4 ob)"
  have canon: "cname c4 s = canon (kb_concepts (kb_of c)) subject" "cname c4 ob = canon (kb_concepts (kb_of c)) object"
    "lname c4 l = canon (kb_labels (kb_of c)) label"
    using extends_canon [OF ext N] ids by auto
  have F45: "facts c5 = facts_assert (cname c4 s) (lname c4 l) (cname c4 ob) w None p (facts c4)"
    unfolding facts_assert_def Let_def F5 facts_assert_edge [OF inv4 b] by simp
  have kb4: "kb_of c4 = \<lparr>kb_concepts = (kb_concepts (kb_of c))(subject \<mapsto> cname c4 s, object \<mapsto> cname c4 ob),
    kb_labels = (kb_labels (kb_of c))(label \<mapsto> lname c4 l),
    kb_sources = kb_sources (kb_of c) \<union> set_option source, kb_facts = kb_facts (kb_of c)\<rparr>"
    by (rule kb_extends [OF ext inv inv4 ids(1,2)]) (use ids(3) so in \<open>auto split: option.splits\<close>)
  have f4: "facts c4 = facts c" by (rule extends_facts [OF ext inv])
  have fin: "is_finite w" and p: "\<forall>q. p = Some q \<longrightarrow> q < 2 ^ 32" using ok by (auto simp: assertable_def)
  note kb5 = kb_same_names [OF sn inv4]
  show ?thesis
  proof (cases source)
    case None
    with so have "upsert U c subject label object w source p = Some (Inr c5)"
      using fin room n1 e5 by (simp add: upsert_stages)
    moreover have "kb_of c5 = kb_assert subject label object w source p (kb_of c)"
      unfolding kb_assert_def Let_def canon [symmetric] kb5 kb4 F45 f4 None by (simp add: kb_of_def facts_assert_def)
    ultimately show ?thesis using inv5 by blast
  next
    case (Some name)
    then obtain k where k: "so = Some k" "k < length (sources c4)" "source_ids c4 name = Some k"
      using so ids(3) by (auto split: option.splits)
    have k5: "k < length (sources c5)" "sname c5 k = name"
      using k sn same_names_read(3) [OF sn] extends_canon(3) [OF ext N k(3)] by (auto simp: same_names_def)
    have r5: "length (attributions c5) < NIL" if none: "attribution_ids c5 (e, k) = None"
    proof -
      have "attribution_ids c (e', k') = None" if "existing_edge c subject label object = Some e'"
          "source_ids c name = Some k'" for e' k'
        using ex [OF that(1)] extends_ids(3) [OF ext N k(3) that(2)] none old same4 same5 by auto
      then show ?thesis using R(5) [OF Some] same4 same5 by simp
    qed
    obtain c6 where a6: "attribute c5 e k w p = Some c6" and inv6: "ctx_inv U c6" and sn6: "same_names c5 c6"
      and F6: "facts c6 = (facts c5)[e := fact_attr name w p (fact_of c5 e)]"
      using attribute_stage [OF inv5 el k5(1) r5 strict fin p] k5(2) by auto
    have b5: "s < length (concepts c5)" "l < length (labels c5)" "ob < length (concepts c5)"
      using b same_names_lengths [OF sn] by simp_all
    have nm5: "cname c5 s = cname c4 s" "lname c5 l = lname c4 l" "cname c5 ob = cname c4 ob"
      using same_names_read [OF sn] b by simp_all
    have "edge_ids c5 (s, l, ob) = Some e" using edge_ids_iff [OF ctx_invD(5) [OF inv5]] el t5 by blast
    then have "?P (facts c5 ! j) \<longleftrightarrow> j = e" if "j < length (facts c5)" for j
      using fact_triple_iff [OF ctx_invD(1,5) [OF inv5] b5, of j] that unfolding nm5 by auto
    then have "map (\<lambda>x. if ?P x then fact_attr name w p x else x) (facts c5) = (facts c5)[e := fact_attr name w p (facts c5 ! e)]"
      using el by (intro map_if_update) auto
    then have "facts c6 = map (\<lambda>x. if ?P x then fact_attr name w p x else x) (facts c5)"
      using F6 el by simp
    then have "facts c6 = facts_assert (cname c4 s) (lname c4 l) (cname c4 ob) w source p (facts c4)"
      unfolding Some facts_assert_source F45 .
    then have "kb_of c6 = kb_assert subject label object w source p (kb_of c)"
      unfolding kb_assert_def Let_def canon [symmetric] kb_same_names [OF sn6 inv5] kb5 kb4 f4 by (simp add: kb_of_def)
    moreover have "upsert U c subject label object w source p = Some (Inr c6)"
      using fin room n1 e5 a6 k by (simp add: upsert_stages)
    ultimately show ?thesis using inv6 by blast
  qed
qed

section \<open>The empty context\<close>

lemma ctx_inv_default: "ctx_inv U ctx_default"
proof -
  have "attr_inv ctx_default (\<lambda>_. [])" by (simp add: attr_defs ctx_default_def)
  then show ?thesis
    by (auto simp: ctx_inv_def ctx_default_def names_inv_def ns_ok_def spellings_def alias_spellings_def
        bounds_inv_def index_inv_def entries_ok_def paging_inv_def
        page_ok_def edges_inv_def chain_inv_def chains_inv_def locators_inv_def slack_inv_def live_bytes_def)
qed

text \<open>A concrete Unicode table: every scalar is its own lowercase, every text its own NFKC form.\<close>

definition unicode_id :: unicode where
  "unicode_id = \<lparr>to_lowercase = (\<lambda>ch. [ch]), nfkc = (\<lambda>s. s)\<rparr>"

text \<open>A small context: one fact from one source.\<close>

definition demo_ctx :: ctx where
  "demo_ctx = (case upsert unicode_id ctx_default (bytes ''tea'') (bytes ''is'') (bytes ''hot'') f64_one
      (Some (bytes ''doc'')) (Some 3) of Some (Inr c) \<Rightarrow> c | _ \<Rightarrow> ctx_default)"

lemma demo_args:
  "assertable ctx_default (bytes ''tea'') (bytes ''is'') (bytes ''hot'') f64_one (Some (bytes ''doc'')) (Some 3)"
  "ensure_room ctx_default (bytes ''tea'') (bytes ''is'') (bytes ''hot'') (Some (bytes ''doc'')) = Inr ()"
  by (simp_all add: assertable_def bytes_def utf8_valid_ascii ctx_default_def ensure_room_def ids_left_def
      arena_fits_iff NIL_eq u32_max_def)

lemma demo_ctx:
  "ctx_inv unicode_id demo_ctx"
  "kb_of demo_ctx = kb_assert (bytes ''tea'') (bytes ''is'') (bytes ''hot'') f64_one (Some (bytes ''doc'')) (Some 3) (kb_of ctx_default)"
  using upsert_spec [OF ctx_inv_default demo_args, of unicode_id] by (auto simp: demo_ctx_def)

lemma demo_source: "\<exists>k. source_ids demo_ctx (bytes ''doc'') = Some k"
proof -
  have "bytes ''doc'' \<in> kb_sources (kb_of demo_ctx)"
    unfolding demo_ctx(2) kb_assert_def by (simp add: Let_def)
  then show ?thesis by (auto simp: kb_of_def)
qed

text \<open>Evaluation of the write path on concrete input.\<close>

lemmas run_defs = upsert_def ctx_default_def ensure_room_def ids_left_def bytes_def NIL_eq u32_max_def
  arena_fits_iff intern_concept_def intern_label_def intern_source_def ei_push_def Let_def normalize_def
  unicode_id_def ei_default_def claim_id_def intern_name_def checked_add_usize_def usize_max_def
  push_edge_def new_edge_def append_to_chain_def attribute_def push_attribution_def split_beta

lemma demo_tables:
  "arena demo_ctx = bytes ''teahotisdoc''" "concept_aliases demo_ctx = []" "concept_alias_index demo_ctx = []"
  "concept_ids demo_ctx = [bytes ''tea'' \<mapsto> 0, bytes ''hot'' \<mapsto> 1]"
  "length (concepts demo_ctx) = 2" "length (ei_spans (concept_index demo_ctx)) = 2"
  unfolding demo_ctx_def by (simp_all add: run_defs)

lemma kb_default: "kb_of ctx_default = \<lparr>kb_concepts = Map.empty, kb_labels = Map.empty, kb_sources = {}, kb_facts = []\<rparr>"
  by (simp add: kb_of_def ctx_default_def facts_def)

lemma demo_facts: "facts demo_ctx = [\<lparr>fa_subject = bytes ''tea'', fa_label = bytes ''is'', fa_object = bytes ''hot'',
    fa_count = 1, fa_sum = f64_one, fa_attrs = [\<lparr>as_source = bytes ''doc'', as_weight = f64_one, as_count = 1,
      as_paragraph = Some 3\<rparr>]\<rparr>]"
proof -
  have "kb_facts (kb_of demo_ctx) = facts demo_ctx" by (simp add: kb_of_def)
  then show ?thesis
    unfolding demo_ctx(2) kb_default
    by (simp add: kb_assert_def canon_def facts_assert_def fact_new_def fact_attr_def attrs_assert_def
        same_triple_def Let_def)
qed

section \<open>Properties\<close>

text \<open>
  C1. Upsert refinement: on a well-formed context with room for the write, one assertion returns (no
  panic anywhere on the way), keeps the whole representation invariant, and its effect on the
  knowledge base is the abstract assertion: names resolved through aliases, one more count and the
  saturating sum on the fact of that triple, or a new fact, and the source's own tally with
  its paragraph recorded on first write only.
\<close>

theorem upsert_refines:
  assumes "ctx_inv U c" "assertable c subject label object w source p"
    and "ensure_room c subject label object source = Inr ()"
  shows "\<exists>c'. upsert U c subject label object w source p = Some (Inr c') \<and> ctx_inv U c' \<and>
     kb_of c' = kb_assert subject label object w source p (kb_of c)"
  using assms by (rule upsert_spec)

theorem upsert_refines_witness:
  "\<exists>c'. upsert unicode_id ctx_default (bytes ''tea'') (bytes ''is'') (bytes ''hot'') f64_one
      (Some (bytes ''doc'')) (Some 3) = Some (Inr c') \<and> ctx_inv unicode_id c' \<and>
     kb_of c' = kb_assert (bytes ''tea'') (bytes ''is'') (bytes ''hot'') f64_one
       (Some (bytes ''doc'')) (Some 3) (kb_of ctx_default)"
  by (rule upsert_refines [OF ctx_inv_default demo_args])

text \<open>
  C2. Upsert never panics and refuses atomically: on a well-formed context a valid assertion
  always returns; it is an error exactly when the pre-flight refuses, the error is the
  pre-flight's, and then no new context is produced.
\<close>

theorem upsert_total:
  assumes "ctx_inv U c" "assertable c subject label object w source p"
  shows "(\<exists>r. upsert U c subject label object w source p = Some r) \<and>
     (upsert U c subject label object w source p = Some (Inl full) \<longleftrightarrow>
        ensure_room c subject label object source = Inl full)"
proof (cases "ensure_room c subject label object source")
  case (Inl err)
  with assms(2) show ?thesis by (simp add: upsert_def assertable_def)
next
  case (Inr u)
  with upsert_spec [OF assms] show ?thesis by (cases u) auto
qed

theorem upsert_total_witness:
  "(\<exists>r. upsert unicode_id ctx_default (bytes ''a'') (bytes ''b'') (bytes ''a'') f64_one None None = Some r) \<and>
     (upsert unicode_id ctx_default (bytes ''a'') (bytes ''b'') (bytes ''a'') f64_one None None
        = Some (Inl (ContextFull ''the edge table is out of u32 ids'')) \<longleftrightarrow>
      ensure_room ctx_default (bytes ''a'') (bytes ''b'') (bytes ''a'') None
        = Inl (ContextFull ''the edge table is out of u32 ids''))"
  by (rule upsert_total [OF ctx_inv_default])
     (simp add: assertable_def bytes_def utf8_valid_ascii ctx_default_def)

end
