(* ===== verification/Sources.thy ===== *)
theory Sources
  imports Upsert
begin

text \<open>
  The source operations of \<^verbatim>\<open>src/context/sources.rs\<close>: retraction of one source or of one
  association, the dry-run count, and the audit of weight no source explains.
\<close>

section \<open>Retracting a source\<close>

text \<open>
  The search for the source's record on one edge's chain, with its predecessor. As in \<open>walk\<close>,
  a chain longer than the attribution table never ends.
\<close>

fun find_attribution ::
    "nat \<Rightarrow> attribution_record list \<Rightarrow> nat \<Rightarrow> nat \<Rightarrow> nat \<Rightarrow> (nat \<times> nat \<times> f64 \<times> nat) option option" where
  "find_attribution fuel ats source_id previous cursor =
     (if cursor = NIL then Some None
      else case fuel of 0 \<Rightarrow> None
      | Suc fuel' \<Rightarrow> do {
          record \<leftarrow> nth_opt ats cursor;
          if at_source record = source_id
          then Some (Some (previous, cursor, at_sum record, at_count record))
          else find_attribution fuel' ats source_id cursor (at_next record)
        })"

declare find_attribution.simps [simp del]

text \<open>The body of the loop: the record off the chain, its share off the edge.\<close>

definition unlink_attribution ::
    "ctx \<Rightarrow> nat \<Rightarrow> nat \<Rightarrow> nat \<times> nat \<times> f64 \<times> nat \<Rightarrow> ctx option" where
  "unlink_attribution c edge_id source_id found =
     (case found of (previous, cursor, wsum, cnt) \<Rightarrow> do {
        record \<leftarrow> nth_opt (attributions c) cursor;
        let nxt = at_next record;
        e \<leftarrow> nth_opt (edges c) edge_id;
        let e1 = e\<lparr>ed_sum := accumulate_saturating (ed_sum e) (f64_neg wsum), ed_count := ed_count e - cnt\<rparr>;
        let e2 = (if previous = NIL then e1\<lparr>ed_first_attribution := nxt\<rparr> else e1);
        let e3 = (if ed_last_attribution e2 = cursor then e2\<lparr>ed_last_attribution := previous\<rparr> else e2);
        ats \<leftarrow> (if previous \<noteq> NIL then update_opt (attributions c) previous (\<lambda>r. r\<lparr>at_next := nxt\<rparr>)
                else Some (attributions c));
        Some (c\<lparr>edges := (edges c)[edge_id := e3],
                dead_edges := (if ed_count e1 = 0 then u64_add (dead_edges c) 1 else dead_edges c),
                attributions := ats,
                attribution_ids := (attribution_ids c)((edge_id, source_id) := None)\<rparr>)
      })"

fun retract_edges :: "ctx \<Rightarrow> nat \<Rightarrow> nat list \<Rightarrow> nat \<Rightarrow> (nat \<times> ctx) option" where
  "retract_edges c source_id [] touched = Some (touched, c)"
| "retract_edges c source_id (edge_id # rest) touched = do {
     e \<leftarrow> nth_opt (edges c) edge_id;
     found \<leftarrow> find_attribution (length (attributions c)) (attributions c) source_id NIL (ed_first_attribution e);
     (case found of
        None \<Rightarrow> retract_edges c source_id rest touched
      | Some hit \<Rightarrow> do {
          c' \<leftarrow> unlink_attribution c edge_id source_id hit;
          retract_edges c' source_id rest (touched + 1)
        })
   }"

definition retract_source :: "ctx \<Rightarrow> rstr \<Rightarrow> (nat \<times> ctx) option option" where
  "retract_source c source =
     (case source_ids c source of
        None \<Rightarrow> Some None
      | Some source_id \<Rightarrow> do {
          let found = (case source_edges c source_id of None \<Rightarrow> [] | Some es \<Rightarrow> es);
          (touched, c') \<leftarrow> retract_edges (c\<lparr>source_edges := (source_edges c)(source_id := None)\<rparr>)
                              source_id (sort found) 0;
          Some (Some (touched, c'\<lparr>dead_attributions := u64_add (dead_attributions c') touched\<rparr>))
        })"

text \<open>The read-only preview.\<close>

definition count_source_edges :: "ctx \<Rightarrow> rstr \<Rightarrow> nat" where
  "count_source_edges c source =
     (case source_ids c source of
        None \<Rightarrow> 0
      | Some source_id \<Rightarrow>
          (case source_edges c source_id of
             None \<Rightarrow> 0
           | Some es \<Rightarrow> length (remdups (filter (\<lambda>e. attribution_ids c (e, source_id) \<noteq> None) es))))"

section \<open>Retracting an association\<close>

definition prune_source_edge :: "(nat \<rightharpoonup> nat list) \<Rightarrow> nat \<Rightarrow> nat \<Rightarrow> (nat \<rightharpoonup> nat list)" where
  "prune_source_edge m source edge_id =
     (case m source of
        None \<Rightarrow> m
      | Some held \<Rightarrow>
          (let kept = filter (\<lambda>e. e \<noteq> edge_id) held
           in if kept = [] then m(source := None) else m(source \<mapsto> kept)))"

text \<open>The loop down the edge's whole chain, dropping both index entries of each record.\<close>

fun unlink_chain :: "nat \<Rightarrow> ctx \<Rightarrow> nat \<Rightarrow> nat \<Rightarrow> nat \<Rightarrow> (nat \<times> ctx) option" where
  "unlink_chain fuel c edge_id cursor unlinked =
     (if cursor = NIL then Some (unlinked, c)
      else case fuel of 0 \<Rightarrow> None
      | Suc fuel' \<Rightarrow> do {
          record \<leftarrow> nth_opt (attributions c) cursor;
          unlink_chain fuel'
            (c\<lparr>attribution_ids := (attribution_ids c)((edge_id, at_source record) := None),
               source_edges := prune_source_edge (source_edges c) (at_source record) edge_id\<rparr>)
            edge_id (at_next record) (unlinked + 1)
        })"

declare unlink_chain.simps [simp del]

definition retract_association :: "ctx \<Rightarrow> rstr \<Rightarrow> rstr \<Rightarrow> rstr \<Rightarrow> (nat \<times> ctx) option option" where
  "retract_association c subject label object =
     (case do { s \<leftarrow> concept_ids c subject; l \<leftarrow> label_ids c label; ob \<leftarrow> concept_ids c object;
                edge_ids c (s, l, ob) } of
        None \<Rightarrow> Some None
      | Some edge_id \<Rightarrow> do {
          e \<leftarrow> nth_opt (edges c) edge_id;
          if ed_count e = 0 then Some None
          else do {
            (unlinked, c1) \<leftarrow> unlink_chain (length (attributions c)) c edge_id (ed_first_attribution e) 0;
            Some (Some (unlinked, c1\<lparr>
              edges := (edges c1)[edge_id := e\<lparr>ed_first_attribution := NIL, ed_last_attribution := NIL,
                                      ed_sum := f64_zero, ed_count := 0\<rparr>],
              dead_edges := u64_add (dead_edges c1) 1,
              dead_attributions := u64_add (dead_attributions c1) unlinked\<rparr>))
          }
        })"

section \<open>Weight no source explains\<close>

definition UNSOURCED_SOURCE :: rstr where
  "UNSOURCED_SOURCE = bytes ''export:unsourced''"

definition unsourced_share :: "ctx \<Rightarrow> edge_record \<Rightarrow> nat option \<Rightarrow> (f64 \<times> nat) option option" where
  "unsourced_share c e unattributed =
     (if ed_count e = 0 then Some None
      else do {
        chain \<leftarrow> attribution_chain c (ed_first_attribution e);
        records \<leftarrow> mapM (nth_opt (attributions c)) chain;
        let (attributed_count, attributed_sum) =
          foldl (\<lambda>(n, s) r. if at_count r = 0 \<or> Some (at_source r) = unattributed then (n, s)
                           else (u64_add n (at_count r), accumulate_saturating s (at_sum r)))
            (0, f64_zero) records;
        Some (if attributed_count < ed_count e
              then Some (accumulate_saturating (ed_sum e) (f64_neg attributed_sum),
                         ed_count e - attributed_count)
              else None)
      })"

definition summary_step :: "nat \<times> f64 \<Rightarrow> (f64 \<times> nat) option \<Rightarrow> nat \<times> f64" where
  "summary_step acc share = (case share of None \<Rightarrow> acc
     | Some (residual, _) \<Rightarrow> (fst acc + 1, accumulate_saturating (snd acc) (f64_abs residual)))"

definition unsourced_summary :: "ctx \<Rightarrow> (nat \<times> f64) option" where
  "unsourced_summary c =
     (let unattributed = source_ids c UNSOURCED_SOURCE in
      do {
        shares \<leftarrow> mapM (\<lambda>e. unsourced_share c e unattributed) (edges c);
        Some (foldl summary_step (0, f64_zero) shares)
      })"

record unsourced_edge =
  ue_association :: association
  ue_weight :: f64
  ue_count :: nat

text \<open>The deadline is polled once per edge; \<open>expired i\<close> is the answer of the poll at edge \<open>i\<close>.\<close>

datatype deadline_exceeded = DeadlineExceeded

fun unsourced_scan ::
    "ctx \<Rightarrow> f64 \<Rightarrow> (nat \<Rightarrow> bool) \<Rightarrow> nat option \<Rightarrow> nat list \<Rightarrow> (deadline_exceeded + unsourced_edge list) option" where
  "unsourced_scan c floor expired unattributed [] = Some (Inr [])"
| "unsourced_scan c floor expired unattributed (edge_id # rest) =
     (if expired edge_id then Some (Inl DeadlineExceeded)
      else do {
        e \<leftarrow> nth_opt (edges c) edge_id;
        share \<leftarrow> unsourced_share c e unattributed;
        here \<leftarrow> (case share of None \<Rightarrow> Some []
           | Some (weight, cnt) \<Rightarrow>
               (if f64_le floor (f64_abs weight)
                then do { a \<leftarrow> association c edge_id;
                          Some [\<lparr>ue_association = a, ue_weight = weight, ue_count = cnt\<rparr>] }
                else Some []));
        res \<leftarrow> unsourced_scan c floor expired unattributed rest;
        Some (case res of Inl x \<Rightarrow> Inl x | Inr out \<Rightarrow> Inr (here @ out))
      })"

definition unsourced_edges :: "ctx \<Rightarrow> f64 \<Rightarrow> (nat \<Rightarrow> bool) \<Rightarrow> (deadline_exceeded + unsourced_edge list) option" where
  "unsourced_edges c floor expired =
     (let floor' = (if is_nan floor then f64_zero else f64_abs floor)
      in unsourced_scan c floor' expired (source_ids c UNSOURCED_SOURCE) [0..<length (edges c)])"

section \<open>Taking one record off its chain\<close>

lemma find_attribution_finds:
  assumes "linked (\<lambda>x. at_next (ats ! x)) cur (ys @ a # zs)" "set (ys @ a # zs) \<subseteq> {..<length ats}"
    and "\<forall>y \<in> set ys. at_source (ats ! y) \<noteq> s" "at_source (ats ! a) = s" "length ys < fuel"
  shows "find_attribution fuel ats s prev cur =
     Some (Some (if ys = [] then prev else last ys, a, at_sum (ats ! a), at_count (ats ! a)))"
  using assms
proof (induction ys arbitrary: cur prev fuel)
  case Nil
  then obtain k where "fuel = Suc k" by (cases fuel) auto
  with Nil show ?case by (simp add: find_attribution.simps [of "Suc k"])
next
  case (Cons y ys)
  then obtain k where "fuel = Suc k" by (cases fuel) auto
  with Cons show ?case by (simp add: find_attribution.simps [of "Suc k"])
qed

text \<open>What the unlinked edge and the attribution table look like, in terms of the chain.\<close>

definition unlinked_edge :: "ctx \<Rightarrow> nat \<Rightarrow> nat list \<Rightarrow> nat \<Rightarrow> nat list \<Rightarrow> edge_record" where
  "unlinked_edge c e ys a zs =
     (edges c ! e)\<lparr>ed_sum := accumulate_saturating (ed_sum (edges c ! e)) (f64_neg (at_sum (attributions c ! a))),
        ed_count := ed_count (edges c ! e) - at_count (attributions c ! a),
        ed_first_attribution := head_of (ys @ zs), ed_last_attribution := tail_of (ys @ zs)\<rparr>"

definition unlinked_table :: "attribution_record list \<Rightarrow> nat list \<Rightarrow> nat \<Rightarrow> attribution_record list" where
  "unlinked_table ats ys a =
     (if ys = [] then ats else ats[last ys := (ats ! last ys)\<lparr>at_next := at_next (ats ! a)\<rparr>])"

lemma linked_next: "linked nx cur (ys @ a # zs) \<Longrightarrow> nx a = head_of zs"
  using linked_split linked_head by (metis linked.simps(2))

lemma unlink_attribution_eq:
  assumes L: "linked (\<lambda>x. at_next (attributions c ! x)) (ed_first_attribution (edges c ! e)) (ys @ a # zs)"
    and sub: "set (ys @ a # zs) \<subseteq> {..<length (attributions c)}"
    and last: "ed_last_attribution (edges c ! e) = tail_of (ys @ a # zs)" and e: "e < length (edges c)"
  shows "unlink_attribution c e s (if ys = [] then NIL else last ys, a, at_sum (attributions c ! a), at_count (attributions c ! a))
     = Some (c\<lparr>edges := (edges c)[e := unlinked_edge c e ys a zs],
               dead_edges := (if ed_count (unlinked_edge c e ys a zs) = 0 then u64_add (dead_edges c) 1 else dead_edges c),
               attributions := unlinked_table (attributions c) ys a,
               attribution_ids := (attribution_ids c)((e, s) := None)\<rparr>)"
proof -
  have nx: "at_next (attributions c ! a) = head_of zs" by (rule linked_next [OF L])
  have ni: "NIL \<notin> set (ys @ a # zs)" and d: "distinct (ys @ a # zs)"
    using linked_not_NIL [OF L] linked_distinct [OF L] by auto
  have first: "ed_first_attribution (edges c ! e) = head_of (ys @ a # zs)" using linked_head [OF L] .
  show ?thesis
  proof (cases "ys = []")
    case True
    then show ?thesis
      using e sub nx last ni d by (cases "edges c ! e") (auto simp: unlink_attribution_def unlinked_edge_def
          unlinked_table_def Let_def head_of_def tail_of_def)
  next
    case False
    then have "last ys \<in> set ys" by simp
    then have lp: "last ys \<noteq> NIL" "last ys < length (attributions c)" using ni sub by auto
    have neq: "last (ys @ zs) \<noteq> a" using d False by (cases zs rule: rev_cases) auto
    show ?thesis
      using False e sub nx last d first lp neq
      by (cases "edges c ! e") (auto simp: unlink_attribution_def unlinked_edge_def unlinked_table_def Let_def
          head_of_def tail_of_def split: if_splits)
  qed
qed

lemma unlinked_table_fields:
  "length (unlinked_table ats ys a) = length ats"
  "at_source (unlinked_table ats ys a ! x) = at_source (ats ! x)"
  "at_count (unlinked_table ats ys a ! x) = at_count (ats ! x)"
  "at_sum (unlinked_table ats ys a ! x) = at_sum (ats ! x)"
  by (auto simp: unlinked_table_def nth_update_all)

lemma linked_unlinked_table:
  assumes "linked (\<lambda>x. at_next (ats ! x)) cur (ys @ a # zs)" "set ys \<subseteq> {..<length ats}"
  shows "linked (\<lambda>x. at_next (unlinked_table ats ys a ! x)) (head_of (ys @ zs)) (ys @ zs)"
proof (cases "ys = []")
  case True
  with assms(1) linked_next [OF assms(1)] show ?thesis by (auto simp: unlinked_table_def)
next
  case False
  have "(\<lambda>x. at_next (unlinked_table ats ys a ! x)) = (\<lambda>x. at_next (ats ! x))(last ys := at_next (ats ! a))"
    using False subsetD [OF assms(2) last_in_set [OF False]] by (auto simp: unlinked_table_def nth_update_all fun_eq_iff)
  moreover have "cur = head_of (ys @ zs)" using assms(1) False by (cases ys) (auto simp: head_of_def)
  ultimately show ?thesis using linked_unlink [OF assms(1) False] by simp
qed

lemma unlink_edge_ok:
  assumes ok: "edge_attr_ok (attributions c) ns (edges c ! e) (ys @ a # zs)"
  shows "edge_attr_ok (unlinked_table (attributions c) ys a) ns (unlinked_edge c e ys a zs) (ys @ zs)"
proof -
  have "linked (\<lambda>x. at_next (unlinked_table (attributions c) ys a ! x)) (head_of (ys @ zs)) (ys @ zs)"
    by (rule linked_unlinked_table) (use ok in \<open>auto simp: edge_attr_ok_def\<close>)
  then show ?thesis
    using ok by (auto simp: edge_attr_ok_def unlinked_edge_def unlinked_table_fields)
qed

lemma other_edge_ok:
  assumes ok: "edge_attr_ok ats ns r xs" and "ys \<noteq> [] \<Longrightarrow> last ys \<notin> set xs"
  shows "edge_attr_ok (unlinked_table ats ys a) ns r xs"
proof (rule edge_attr_ok_fields [OF _ _ ok])
  show "linked (\<lambda>x. at_next (unlinked_table ats ys a ! x)) q xs = linked (\<lambda>x. at_next (ats ! x)) q xs" for q
    using assms(2) by (intro linked_cong) (auto simp: unlinked_table_def nth_update_all)
qed (use ok in \<open>auto simp: unlinked_table_fields edge_attr_ok_def\<close>)

lemma prune_lookup:
  assumes "m s = Some held"
  shows "prune_source_edge m s e t = (if t = s then (if filter (\<lambda>x. x \<noteq> e) held = [] then None else Some (filter (\<lambda>x. x \<noteq> e) held)) else m t)"
  using assms by (auto simp: prune_source_edge_def Let_def)

lemma prune_source_edges_ok:
  assumes so: "source_edges_ok c" and ids: "attribution_ids c (e, s) \<noteq> None"
  shows "source_edges_ok (c\<lparr>source_edges := prune_source_edge (source_edges c) s e,
     attribution_ids := (attribution_ids c)((e, s) := None)\<rparr>)"
proof -
  obtain held where h: "source_edges c s = Some held" "e \<in> set held"
    using so ids unfolding source_edges_ok_def by blast
  have held: "x \<in> set held \<longleftrightarrow> attribution_ids c (x, s) \<noteq> None" for x
    using source_edges_mem [OF so, of x s] h(1) by (simp add: edges_of_source_def)
  have "(\<exists>l. prune_source_edge (source_edges c) s e t = Some l \<and> x \<in> set l) \<longleftrightarrow>
      ((attribution_ids c)((e, s) := None)) (x, t) \<noteq> None" for t x
    using so held unfolding source_edges_ok_def prune_lookup [of "source_edges c", OF h(1)]
    by (cases "t = s") (auto simp: filter_empty_conv)
  moreover have "l \<noteq> [] \<and> distinct l" if "prune_source_edge (source_edges c) s e t = Some l" for t l
    using so that h unfolding source_edges_ok_def prune_lookup [of "source_edges c", OF h(1)]
    by (auto split: if_splits)
  ultimately show ?thesis unfolding source_edges_ok_def by simp
qed

lemma unlink_keep_attr:
  assumes f: "attr_inv c f" and b: "bounds_inv c" and e: "e < length (edges c)" and fe: "f e = ys @ a # zs"
    and s: "at_source (attributions c ! a) = s"
  shows "attr_inv (c\<lparr>edges := (edges c)[e := unlinked_edge c e ys a zs],
       dead_edges := (if ed_count (unlinked_edge c e ys a zs) = 0 then u64_add (dead_edges c) 1 else dead_edges c),
       attributions := unlinked_table (attributions c) ys a,
       attribution_ids := (attribution_ids c)((e, s) := None),
       source_edges := prune_source_edge (source_edges c) s e,
       dead_attributions := Suc (dead_attributions c)\<rparr>) (f(e := ys @ zs))" (is "attr_inv ?c ?f")
  unfolding attr_inv_def
proof (intro conjI)
  have ok: "edge_attr_ok (attributions c) (length (sources c)) (edges c ! e) (ys @ a # zs)"
    using f e fe by (simp add: attr_defs) metis
  have dis: "set (f i) \<inter> set (f j) = {}" if "i < length (edges c)" "j < length (edges c)" "i \<noteq> j" for i j
    using f that unfolding attr_inv_def attr_tables_ok_def by blast
  have ids: "attribution_ids c (e, s) = Some a" using attr_ids_iff [OF f] e fe s by auto
  have d: "distinct (ys @ a # zs)" using ok unfolding edge_attr_ok_def by (blast intro: linked_distinct)
  show "attr_tables_ok ?c ?f"
  proof -
    have "edge_attr_ok (unlinked_table (attributions c) ys a) (length (sources c)) (edges c ! i) (f i)"
      if i: "i < length (edges c)" "i \<noteq> e" for i
    proof (rule other_edge_ok)
      show "edge_attr_ok (attributions c) (length (sources c)) (edges c ! i) (f i)"
        using f i by (simp add: attr_defs)
      show "last ys \<notin> set (f i)" if "ys \<noteq> []"
        using dis [OF i(1) e i(2)] fe last_in_set [OF that] by auto
    qed
    then have "\<forall>i < length (edges c). edge_attr_ok (unlinked_table (attributions c) ys a) (length (sources c))
        ((edges c)[e := unlinked_edge c e ys a zs] ! i) (?f i)"
      using unlink_edge_ok [OF ok] e by (auto simp: nth_list_update)
    moreover have "set (?f i) \<inter> set (?f j) = {}" if "i < length (edges c)" "j < length (edges c)" "i \<noteq> j" for i j
      using dis [OF that] fe by auto
    ultimately show ?thesis by (simp add: attr_tables_ok_def)
  qed
  show "attr_index_ok ?c ?f"
    unfolding attr_index_ok_def
  proof (intro allI)
    fix i t x
    have src: "at_source (attributions c ! y) \<noteq> s" if "y \<in> set (ys @ zs)" for y
      using attr_ids_iff [OF f, of e s y] ids e fe that d by auto
    show "attribution_ids ?c (i, t) = Some x \<longleftrightarrow>
        i < length (edges ?c) \<and> x \<in> set (?f i) \<and> at_source (attributions ?c ! x) = t"
      using attr_ids_iff [OF f, of i t x] e fe src s by (auto simp: unlinked_table_fields)
  qed
  have "source_edges_ok c" using f by (simp add: attr_inv_def)
  from prune_source_edges_ok [OF this, of e s] ids show "source_edges_ok ?c"
    by (simp add: source_edges_ok_def)
  show "dead_ok ?c ?f"
  proof -
    let ?P = "\<lambda>e :: edge_record. ed_count e = 0" and ?r = "unlinked_edge c e ys a zs"
    have "0 < at_count (attributions c ! a)" "at_count (attributions c ! a) \<le> ed_count (edges c ! e)"
      using ok by (auto simp: edge_attr_ok_def)
    then have "length (filter ?P ((edges c)[e := ?r])) = length (filter ?P (edges c)) + (if ?P ?r then 1 else 0)"
      using length_filter_update [OF e, of ?P ?r] by simp
    moreover have "length (filter ?P (edges c)) + 1 < 2 ^ 64"
      using le_trans [OF length_filter_le, of "edges c" NIL ?P] b by (simp add: bounds_inv_def NIL_eq)
    ultimately show ?thesis
      using f e fe sum_length_upd [OF e, of f "ys @ zs"]
      by (simp add: attr_defs unlinked_table_fields u64_incr)
  qed
qed

section \<open>Retraction on facts\<close>

definition fact_retract :: "rstr \<Rightarrow> fact \<Rightarrow> fact" where
  "fact_retract src x =
     (case find (\<lambda>a. as_source a = src) (fa_attrs x) of
        None \<Rightarrow> x
      | Some a \<Rightarrow> x\<lparr>fa_sum := accumulate_saturating (fa_sum x) (f64_neg (as_weight a)),
                   fa_count := fa_count x - as_count a,
                   fa_attrs := filter (\<lambda>a. as_source a \<noteq> src) (fa_attrs x)\<rparr>)"

lemma find_first: "\<forall>y \<in> set ys. \<not> P y \<Longrightarrow> P a \<Longrightarrow> find P (ys @ a # zs) = Some a"
  by (induction ys) auto

lemma unlink_stage:
  assumes inv: "ctx_inv U c" and ids: "attribution_ids c (e, k) = Some a"
  shows "\<exists>hit c'. find_attribution (length (attributions c)) (attributions c) k NIL (ed_first_attribution (edges c ! e))
         = Some (Some hit) \<and>
     unlink_attribution c e k hit = Some c' \<and>
     ctx_inv U (c'\<lparr>source_edges := prune_source_edge (source_edges c) k e, dead_attributions := Suc (dead_attributions c)\<rparr>) \<and>
     same_names c c' \<and> length (edges c') = length (edges c) \<and> length (attributions c') = length (attributions c) \<and>
     attribution_ids c' = (attribution_ids c)((e, k) := None) \<and>
     facts c' = (facts c)[e := fact_retract (sname c k) (fact_of c e)]"
proof -
  note I = ctx_invD [OF inv]
  obtain f where f: "attr_inv c f" using I(7) by blast
  have e: "e < length (edges c)" and ae: "a \<in> set (f e)" and as: "at_source (attributions c ! a) = k"
    using attr_ids_iff [OF f] ids by auto
  obtain ys zs where fe: "f e = ys @ a # zs" using split_list [OF ae] by blast
  have ok: "edge_attr_ok (attributions c) (length (sources c)) (edges c ! e) (ys @ a # zs)"
    using f e fe by (simp add: attr_defs) metis
  have L: "linked (\<lambda>x. at_next (attributions c ! x)) (ed_first_attribution (edges c ! e)) (ys @ a # zs)"
    and tl: "ed_last_attribution (edges c ! e) = tail_of (ys @ a # zs)" using ok by (auto simp: edge_attr_ok_def)
  have sub: "set (ys @ a # zs) \<subseteq> {..<length (attributions c)}" using attr_listed(1) [OF f e] fe by simp
  have src: "at_source (attributions c ! y) \<noteq> k" if "y \<in> set (ys @ zs)" for y
    using attr_ids_iff [OF f, of e k y] ids e fe that linked_distinct [OF L] by auto
  have "length (ys @ a # zs) \<le> length (attributions c)"
    using distinct_bounded_length [OF linked_distinct [OF L] sub] .
  then have hit: "find_attribution (length (attributions c)) (attributions c) k NIL (ed_first_attribution (edges c ! e))
      = Some (Some (if ys = [] then NIL else last ys, a, at_sum (attributions c ! a), at_count (attributions c ! a)))"
    using src as by (intro find_attribution_finds [OF L sub]) auto
  note eq = unlink_attribution_eq [OF L sub tl e, of k]
  let ?c' = "c\<lparr>edges := (edges c)[e := unlinked_edge c e ys a zs],
       dead_edges := (if ed_count (unlinked_edge c e ys a zs) = 0 then u64_add (dead_edges c) 1 else dead_edges c),
       attributions := unlinked_table (attributions c) ys a,
       attribution_ids := (attribution_ids c)((e, k) := None)\<rparr>"
  let ?c = "?c'\<lparr>source_edges := prune_source_edge (source_edges c) k e, dead_attributions := Suc (dead_attributions c)\<rparr>"
  have f': "attr_inv ?c (f(e := ys @ zs))" using unlink_keep_attr [OF f I(2) e fe as] by simp
  have sn: "same_names c ?c" "same_names c ?c'" by (simp_all add: same_names_def)
  have E: "edges_inv ?c" "chain_inv ?c"
    by (rule edge_update_inv [where i = e and c = c and e' = "unlinked_edge c e ys a zs"];
        use e I(5,6) in \<open>auto simp: unlinked_edge_def triple_def\<close>)+
  have inv': "ctx_inv U ?c"
    by (rule ctx_inv_same_names [OF inv sn(1) _ E f'])
       (use I(2,8) in \<open>auto simp: bounds_inv_def locators_inv_def unlinked_table_fields\<close>)
  have view: "att_view ?c x = att_view c x" for x
    by (rule att_view_cong) (auto simp: unlinked_table_fields sname_def)
  have same: "fact_with ?c r xs = fact_with c r xs" for r xs
    by (simp add: fact_with_def cname_def lname_def view)
  have av: "as_source (att_view c x) = sname c (at_source (attributions c ! x))" for x by (simp add: att_view_def)
  have kb: "k < length (sources c)" using ok as by (auto simp: edge_attr_ok_def)
  have hitname: "as_source (att_view c x) = sname c k \<longleftrightarrow> x = a" if "x \<in> set (f e)" for x
    using attr_sources_listed(2) [OF I(1) f e kb that] ids by (simp add: av) auto
  have fnd: "find (\<lambda>x. as_source x = sname c k) (map (att_view c) (ys @ a # zs)) = Some (att_view c a)"
    unfolding map_append list.map
    by (rule find_first) (use hitname fe linked_distinct [OF L] in auto)
  have flt: "filter (\<lambda>x. as_source x \<noteq> sname c k) (map (att_view c) (ys @ a # zs)) = map (att_view c) (ys @ zs)"
  proof -
    have "filter (\<lambda>x. as_source (att_view c x) \<noteq> sname c k) ys = ys"
      "filter (\<lambda>x. as_source (att_view c x) \<noteq> sname c k) zs = zs"
      using hitname fe linked_distinct [OF L] by (auto intro!: filter_True)
    then show ?thesis using hitname fe by (simp add: filter_map comp_def)
  qed
  have "facts ?c = (facts c)[e := fact_retract (sname c k) (fact_of c e)]"
  proof (rule facts_update)
    show "fact_of ?c e = fact_retract (sname c k) (fact_of c e)"
      using fact_of_eq [OF f', of e] e fnd flt
      unfolding fact_of_eq [OF f e] fe same
      by (simp add: fact_with_def fact_retract_def unlinked_edge_def att_view_def)
    show "fact_of ?c i = fact_of c i" if "i < length (edges c)" "i \<noteq> e" for i
      using fact_of_eq [OF f', of i] that unfolding fact_of_eq [OF f that(1)] same by simp
  qed (use e in simp_all)
  moreover have "facts ?c = facts ?c'"
    by (simp add: facts_def fact_of_def fact_with_def chain_of_def attribution_chain_def cname_def lname_def
        att_view_def sname_def)
  ultimately show ?thesis using hit eq inv' sn by (auto simp: unlinked_table_fields)
qed

section \<open>The loop over the source's edges\<close>

text \<open>The loop runs on a context whose reverse index and dead counter lag behind; neither is read.\<close>

abbreviation lagging :: "ctx \<Rightarrow> (nat \<rightharpoonup> nat list) \<Rightarrow> nat \<Rightarrow> ctx" where
  "lagging v m d \<equiv> v\<lparr>source_edges := m, dead_attributions := d\<rparr>"

lemma unlink_lagging:
  "unlink_attribution (lagging v m d) e s h = map_option (\<lambda>v'. lagging v' m d) (unlink_attribution v e s h)"
proof -
  obtain p cur w n where h: "h = (p, cur, w, n)" by (cases h)
  show ?thesis
    by (cases "cur < length (attributions v)"; cases "e < length (edges v)"; cases "p < length (attributions v)")
       (simp_all add: unlink_attribution_def h Let_def update_opt_def nth_opt_def)
qed

lemma unlink_source_edges: "unlink_attribution v e s h = Some v' \<Longrightarrow> source_edges v' = source_edges v \<and> dead_attributions v' = dead_attributions v"
  by (auto simp: unlink_attribution_def Let_def bind_eq_Some_conv split_beta)

lemma facts_lagging [simp]: "facts (lagging v m d) = facts v"
  by (simp add: facts_def fact_of_def fact_with_def chain_of_def attribution_chain_def cname_def lname_def
      att_view_def sname_def)

lemma retract_edges_spec:
  assumes "ctx_inv U v" "distinct es" "\<forall>e \<in> set es. attribution_ids v (e, k) \<noteq> None"
  shows "\<exists>v'. retract_edges (lagging v m d) k es t = Some (t + length es, lagging v' m d) \<and> ctx_inv U v' \<and>
     same_names v v' \<and> dead_attributions v' = dead_attributions v + length es \<and>
     (\<forall>i s. attribution_ids v' (i, s) = (if i \<in> set es \<and> s = k then None else attribution_ids v (i, s))) \<and>
     (\<forall>s. s \<noteq> k \<longrightarrow> source_edges v' s = source_edges v s) \<and> length (edges v') = length (edges v) \<and>
     length (attributions v') = length (attributions v) \<and>
     (\<forall>i < length (edges v). facts v' ! i = (if i \<in> set es then fact_retract (sname v k) (facts v ! i) else facts v ! i))"
  using assms
proof (induction es arbitrary: v t)
  case Nil
  show ?case using Nil.prems(1) by (intro exI [of _ v]) simp
next
  case (Cons e es)
  obtain a where a: "attribution_ids v (e, k) = Some a" using Cons.prems(3) by auto
  obtain f where f: "attr_inv v f" using ctx_invD(7) [OF Cons.prems(1)] by blast
  have e: "e < length (edges v)" using attr_ids_iff [OF f] a by blast
  obtain hit v1 where hit: "find_attribution (length (attributions v)) (attributions v) k NIL (ed_first_attribution (edges v ! e))
         = Some (Some hit)" and un: "unlink_attribution v e k hit = Some v1"
    and inv1: "ctx_inv U (lagging v1 (prune_source_edge (source_edges v) k e) (Suc (dead_attributions v)))"
    and sn: "same_names v v1" and len: "length (edges v1) = length (edges v)" "length (attributions v1) = length (attributions v)"
    and ids: "attribution_ids v1 = (attribution_ids v)((e, k) := None)"
    and fs: "facts v1 = (facts v)[e := fact_retract (sname v k) (fact_of v e)]"
    using unlink_stage [OF Cons.prems(1) a] by blast
  let ?w = "lagging v1 (prune_source_edge (source_edges v) k e) (Suc (dead_attributions v))"
  have eq: "lagging ?w m d = lagging v1 m d" by simp
  have "\<exists>v'. retract_edges (lagging ?w m d) k es (t + 1) = Some ((t + 1) + length es, lagging v' m d) \<and> ctx_inv U v' \<and>
     same_names ?w v' \<and> dead_attributions v' = dead_attributions ?w + length es \<and>
     (\<forall>i s. attribution_ids v' (i, s) = (if i \<in> set es \<and> s = k then None else attribution_ids ?w (i, s))) \<and>
     (\<forall>s. s \<noteq> k \<longrightarrow> source_edges v' s = source_edges ?w s) \<and> length (edges v') = length (edges ?w) \<and>
     length (attributions v') = length (attributions ?w) \<and>
     (\<forall>i < length (edges ?w). facts v' ! i = (if i \<in> set es then fact_retract (sname ?w k) (facts ?w ! i) else facts ?w ! i))"
    by (rule Cons.IH [OF inv1]) (use Cons.prems ids in auto)
  then obtain v' where v': "retract_edges (lagging v1 m d) k es (t + 1) = Some ((t + 1) + length es, lagging v' m d)"
     "ctx_inv U v'" "same_names ?w v'" "dead_attributions v' = dead_attributions ?w + length es"
     "\<forall>i s. attribution_ids v' (i, s) = (if i \<in> set es \<and> s = k then None else attribution_ids ?w (i, s))"
     "\<forall>s. s \<noteq> k \<longrightarrow> source_edges v' s = source_edges ?w s" "length (edges v') = length (edges ?w)"
     "length (attributions v') = length (attributions ?w)"
     "\<forall>i < length (edges ?w). facts v' ! i = (if i \<in> set es then fact_retract (sname ?w k) (facts ?w ! i) else facts ?w ! i)"
    unfolding eq by blast
  have nm: "sname ?w k = sname v k" using same_names_read(3) [OF sn] by (simp add: sname_def)
  have step: "retract_edges (lagging v m d) k (e # es) t = retract_edges (lagging v1 m d) k es (t + 1)"
    using e hit un by (simp add: unlink_lagging)
  have "same_names v ?w" using sn by (simp add: same_names_def)
  with v'(3) have "same_names v v'" using same_names_trans by blast
  moreover have "facts v' ! i = (if i \<in> set (e # es) then fact_retract (sname v k) (facts v ! i) else facts v ! i)"
    if "i < length (edges v)" for i
  proof -
    have "facts ?w ! i = (if i = e then fact_retract (sname v k) (facts v ! i) else facts v ! i)"
      using fs that e by (simp add: nth_list_update)
    then show ?thesis using v'(9) that len Cons.prems(2) nm by auto
  qed
  moreover have "prune_source_edge (source_edges v) k e s = source_edges v s" if "s \<noteq> k" for s
    using that by (simp add: prune_source_edge_def Let_def split: option.split)
  ultimately show ?case
    using v' step len ids by (intro exI [of _ v']) auto
qed

lemma retract_source_spec:
  assumes inv: "ctx_inv U c" and k: "source_ids c source = Some k"
  shows "\<exists>c'. retract_source c source = Some (Some (length (edges_of_source c k), c')) \<and> ctx_inv U c' \<and>
     same_names c c' \<and> facts c' = map (fact_retract source) (facts c)"
proof -
  note I = ctx_invD [OF inv]
  obtain f where f: "attr_inv c f" using I(7) by blast
  have so: "source_edges_ok c" using f by (simp add: attr_inv_def)
  let ?es = "sort (edges_of_source c k)" and ?m = "(source_edges c)(k := None)"
  have mem: "x \<in> set ?es \<longleftrightarrow> attribution_ids c (x, k) \<noteq> None" for x
    using source_edges_mem [OF so] by simp
  have d: "distinct ?es" using so by (auto simp: source_edges_ok_def edges_of_source_def split: option.splits)
  obtain v where v: "retract_edges (lagging c ?m (dead_attributions c)) k ?es 0
       = Some (0 + length ?es, lagging v ?m (dead_attributions c))" "ctx_inv U v" "same_names c v"
     "dead_attributions v = dead_attributions c + length ?es"
     "\<forall>i s. attribution_ids v (i, s) = (if i \<in> set ?es \<and> s = k then None else attribution_ids c (i, s))"
     "\<forall>s. s \<noteq> k \<longrightarrow> source_edges v s = source_edges c s" "length (edges v) = length (edges c)"
     "length (attributions v) = length (attributions c)"
     "\<forall>i < length (edges c). facts v ! i = (if i \<in> set ?es then fact_retract (sname c k) (facts c ! i) else facts c ! i)"
    using retract_edges_spec [OF inv d, where k = k and m = ?m and d = "dead_attributions c" and t = 0] mem by blast
  obtain g where g: "attr_inv v g" using ctx_invD(7) [OF v(2)] by blast
  have "source_edges v k = None"
  proof (rule ccontr)
    assume "source_edges v k \<noteq> None"
    then obtain l where "source_edges v k = Some l" "l \<noteq> []"
      using g by (auto simp: attr_inv_def source_edges_ok_def)
    then obtain x where "attribution_ids v (x, k) \<noteq> None"
      using g unfolding attr_inv_def source_edges_ok_def by (metis list.set_intros(1) neq_Nil_conv)
    then show False using v(5) mem by (auto split: if_splits)
  qed
  then have se: "source_edges v = ?m" using v(6) by auto
  have "dead_attributions v \<le> length (attributions v)" using g by (auto simp: attr_defs)
  then have "u64_add (dead_attributions c) (length ?es) = dead_attributions v"
    using v(4) ctx_invD(2) [OF v(2)] by (simp add: u64_add_def bounds_inv_def NIL_eq)
  then have "retract_source c source = Some (Some (length (edges_of_source c k), v))"
    using k v(1) se by (simp add: retract_source_def edges_of_source_def)
  moreover have "facts v = map (fact_retract source) (facts c)"
  proof (rule nth_equalityI)
    show "length (facts v) = length (map (fact_retract source) (facts c))" using v(7) by simp
    fix i assume "i < length (facts v)"
    then have i: "i < length (edges c)" using v(7) by simp
    have nm: "sname c k = source" using k I(1) by (auto simp: names_inv_def ns_ok_def set_spellings sname_def)
    have kb: "k < length (sources c)" by (rule ids_bound(3) [OF inv k])
    have "fact_retract source (fact_of c i) = fact_of c i" if "i \<notin> set ?es"
    proof -
      have "source \<notin> set (map as_source (fa_attrs (fact_of c i)))"
        using attr_sources_listed(1) [OF I(1) f i kb] that mem nm by simp
      then have "find (\<lambda>a. as_source a = source) (fa_attrs (fact_of c i)) = None"
        by (auto simp: find_None_iff)
      then show ?thesis by (simp add: fact_retract_def)
    qed
    then show "facts v ! i = map (fact_retract source) (facts c) ! i" using v(9) i nm by auto
  qed
  ultimately show ?thesis using v(2,3) by blast
qed

section \<open>Retracting one association\<close>

definition fact_clear :: "fact \<Rightarrow> fact" where
  "fact_clear x = x\<lparr>fa_sum := f64_zero, fa_count := 0, fa_attrs := []\<rparr>"

lemma unlink_chain_spec:
  assumes "linked (\<lambda>x. at_next (attributions c ! x)) cur xs" "set xs \<subseteq> {..<length (attributions c)}"
    "length xs \<le> fuel" "source_edges_ok c" "distinct (map (\<lambda>x. at_source (attributions c ! x)) xs)"
    "\<forall>x \<in> set xs. attribution_ids c (e, at_source (attributions c ! x)) \<noteq> None"
  shows "\<exists>ids m. unlink_chain fuel c e cur n = Some (n + length xs, c\<lparr>attribution_ids := ids, source_edges := m\<rparr>) \<and>
     source_edges_ok (c\<lparr>attribution_ids := ids, source_edges := m\<rparr>) \<and>
     (\<forall>i s. ids (i, s) = (if i = e \<and> s \<in> (\<lambda>x. at_source (attributions c ! x)) ` set xs then None else attribution_ids c (i, s)))"
  using assms
proof (induction xs arbitrary: cur fuel c n)
  case Nil
  then show ?case
    by (intro exI [of _ "attribution_ids c"] exI [of _ "source_edges c"]) (simp add: unlink_chain.simps [of fuel])
next
  case (Cons x xs)
  then obtain fuel' where fuel: "fuel = Suc fuel'" by (cases fuel) auto
  let ?s = "at_source (attributions c ! x)"
  let ?c = "c\<lparr>attribution_ids := (attribution_ids c)((e, ?s) := None), source_edges := prune_source_edge (source_edges c) ?s e\<rparr>"
  have ne: "\<forall>y \<in> set xs. at_source (attributions c ! y) \<noteq> ?s" using Cons.prems(5) by (auto simp: image_iff)
  have so: "source_edges_ok ?c"
    using prune_source_edges_ok [OF Cons.prems(4), of e ?s] Cons.prems(6) by (simp add: source_edges_ok_def)
  have "\<exists>ids m. unlink_chain fuel' ?c e (at_next (attributions c ! x)) (n + 1)
        = Some ((n + 1) + length xs, ?c\<lparr>attribution_ids := ids, source_edges := m\<rparr>) \<and>
     source_edges_ok (?c\<lparr>attribution_ids := ids, source_edges := m\<rparr>) \<and>
     (\<forall>i s. ids (i, s) = (if i = e \<and> s \<in> (\<lambda>x. at_source (attributions ?c ! x)) ` set xs then None else attribution_ids ?c (i, s)))"
    by (rule Cons.IH) (use Cons.prems fuel so ne in auto)
  then obtain ids m where r: "unlink_chain fuel' ?c e (at_next (attributions c ! x)) (n + 1)
        = Some ((n + 1) + length xs, ?c\<lparr>attribution_ids := ids, source_edges := m\<rparr>)"
     "source_edges_ok (?c\<lparr>attribution_ids := ids, source_edges := m\<rparr>)"
     "\<forall>i s. ids (i, s) = (if i = e \<and> s \<in> (\<lambda>x. at_source (attributions ?c ! x)) ` set xs then None else attribution_ids ?c (i, s))"
    by blast
  have "unlink_chain fuel c e cur n = unlink_chain fuel' ?c e (at_next (attributions c ! x)) (n + 1)"
    using Cons.prems fuel by (subst unlink_chain.simps) simp
  with r show ?case by (intro exI [of _ ids] exI [of _ m]) auto
qed

lemma retract_association_spec:
  assumes inv: "ctx_inv U c" and ex: "existing_edge c subject label object = Some e"
    and live: "ed_count (edges c ! e) \<noteq> 0"
  shows "\<exists>c'. retract_association c subject label object
         = Some (Some (length (fa_attrs (fact_of c e)), c')) \<and> ctx_inv U c' \<and> same_names c c' \<and>
     facts c' = (facts c)[e := fact_clear (fact_of c e)]"
proof -
  note I = ctx_invD [OF inv]
  obtain f where f: "attr_inv c f" using I(7) by blast
  have e: "e < length (edges c)"
    using ex edge_ids_iff [OF I(5)] by (auto simp: existing_edge_def bind_eq_Some_conv)
  have ok: "edge_attr_ok (attributions c) (length (sources c)) (edges c ! e) (f e)" using f e by (simp add: attr_defs)
  have L: "linked (\<lambda>x. at_next (attributions c ! x)) (ed_first_attribution (edges c ! e)) (f e)"
    using ok by (simp add: edge_attr_ok_def)
  note sub = attr_listed(1) [OF f e]
  let ?n = "length (f e)"
  have nle: "?n \<le> length (attributions c)" by (rule distinct_bounded_length [OF linked_distinct [OF L] sub])
  have so: "source_edges_ok c" using f by (simp add: attr_inv_def)
  have srcs: "\<forall>x \<in> set (f e). attribution_ids c (e, at_source (attributions c ! x)) \<noteq> None"
    using attr_ids_iff [OF f] e by blast
  obtain ids m where un: "unlink_chain (length (attributions c)) c e (ed_first_attribution (edges c ! e)) 0
       = Some (0 + ?n, c\<lparr>attribution_ids := ids, source_edges := m\<rparr>)"
     and so': "source_edges_ok (c\<lparr>attribution_ids := ids, source_edges := m\<rparr>)"
     and ids: "\<forall>i s. ids (i, s) = (if i = e \<and> s \<in> (\<lambda>x. at_source (attributions c ! x)) ` set (f e) then None else attribution_ids c (i, s))"
    using unlink_chain_spec [OF L sub nle so _ srcs, of 0] ok by (auto simp: edge_attr_ok_def)
  let ?r = "(edges c ! e)\<lparr>ed_first_attribution := NIL, ed_last_attribution := NIL, ed_sum := f64_zero, ed_count := 0\<rparr>"
  let ?P = "\<lambda>e :: edge_record. ed_count e = 0"
  let ?c = "c\<lparr>attribution_ids := ids, source_edges := m, edges := (edges c)[e := ?r],
      dead_edges := u64_add (dead_edges c) 1, dead_attributions := u64_add (dead_attributions c) ?n\<rparr>"
  have eq: "retract_association c subject label object = Some (Some (?n, ?c))"
    using ex e live un by (simp add: retract_association_def existing_edge_def)
  have bd: "length (filter ?P (edges c)) + 1 < 2 ^ 64"
    using le_trans [OF length_filter_le, of "edges c" NIL ?P] I(2) by (simp add: bounds_inv_def NIL_eq)
  have "?n \<le> (\<Sum>i < length (edges c). length (f i))" using e by (intro member_le_sum) auto
  then have ba: "dead_attributions c + ?n < 2 ^ 64" using f I(2) by (simp add: attr_defs bounds_inv_def NIL_eq)
  have f': "attr_inv ?c (f(e := []))"
    unfolding attr_inv_def
  proof (intro conjI)
    have "edge_attr_ok (attributions c) (length (sources c)) ?r []"
      by (simp add: edge_attr_ok_def f64_zero_def)
    then show "attr_tables_ok ?c (f(e := []))" using f e by (auto simp: attr_defs nth_list_update)
    have "attribution_ids c (e, s) = None" if "s \<notin> (\<lambda>x. at_source (attributions c ! x)) ` set (f e)" for s
      using attr_ids_iff [OF f, of e s "the (attribution_ids c (e, s))"] that by (cases "attribution_ids c (e, s)") auto
    then show "attr_index_ok ?c (f(e := []))"
      using attr_ids_iff [OF f] ids by (auto simp: attr_index_ok_def)
    show "source_edges_ok ?c" using so' by (simp add: source_edges_ok_def)
    show "dead_ok ?c (f(e := []))"
      using f length_filter_update [OF e, of ?P ?r] live bd ba sum_length_upd [OF e, of f "[]"]
      by (simp add: attr_defs u64_incr) (simp add: u64_add_def)
  qed
  have sn: "same_names c ?c" by (simp add: same_names_def)
  have E: "edges_inv ?c" "chain_inv ?c"
    by (rule edge_update_inv [where i = e and c = c and e' = ?r]; use e I(5,6) in \<open>auto simp: triple_def\<close>)+
  have inv': "ctx_inv U ?c"
    by (rule ctx_inv_same_names [OF inv sn _ E f']) (use I(2,8) in \<open>auto simp: bounds_inv_def locators_inv_def\<close>)
  have same: "fact_with ?c r xs = fact_with c r xs" for r xs
    by (simp add: fact_with_def cname_def lname_def att_view_def sname_def)
  have "facts ?c = (facts c)[e := fact_clear (fact_of c e)]"
  proof (rule facts_update)
    show "fact_of ?c e = fact_clear (fact_of c e)"
      using fact_of_eq [OF f', of e] e unfolding fact_of_eq [OF f e] same
      by (simp add: fact_with_def fact_clear_def)
    show "fact_of ?c i = fact_of c i" if "i < length (edges c)" "i \<noteq> e" for i
      using fact_of_eq [OF f', of i] that unfolding fact_of_eq [OF f that(1)] same by simp
  qed (use e in simp_all)
  moreover have "length (fa_attrs (fact_of c e)) = ?n" by (simp add: fact_of_eq [OF f e] fact_with_def)
  ultimately show ?thesis using eq inv' sn by auto
qed

section \<open>Properties\<close>

definition kb_retract_source :: "rstr \<Rightarrow> kb \<Rightarrow> kb" where
  "kb_retract_source source k = k\<lparr>kb_facts := map (fact_retract source) (kb_facts k)\<rparr>"

definition kb_retract_association :: "rstr \<Rightarrow> rstr \<Rightarrow> rstr \<Rightarrow> kb \<Rightarrow> kb" where
  "kb_retract_association subject label object k =
     k\<lparr>kb_facts := map (\<lambda>x. if same_triple (canon (kb_concepts k) subject) (canon (kb_labels k) label)
                               (canon (kb_concepts k) object) x then fact_clear x else x) (kb_facts k)\<rparr>"

lemma retract_source_kb:
  assumes "ctx_inv U c" "source_ids c source = Some k"
  shows "\<exists>c'. retract_source c source = Some (Some (count_source_edges c source, c')) \<and> ctx_inv U c' \<and>
     kb_of c' = kb_retract_source source (kb_of c)"
proof -
  obtain c' where c': "retract_source c source = Some (Some (length (edges_of_source c k), c'))" "ctx_inv U c'"
     "same_names c c'" "facts c' = map (fact_retract source) (facts c)"
    using retract_source_spec [OF assms] by blast
  obtain f where "attr_inv c f" using ctx_invD(7) [OF assms(1)] by blast
  then have so: "source_edges_ok c" by (simp add: attr_inv_def)
  then have "distinct (edges_of_source c k)"
    by (auto simp: source_edges_ok_def edges_of_source_def split: option.splits)
  moreover have "filter (\<lambda>e. attribution_ids c (e, k) \<noteq> None) (edges_of_source c k) = edges_of_source c k"
    using source_edges_mem [OF so] by (intro filter_True) blast
  ultimately have "count_source_edges c source = length (edges_of_source c k)"
    using assms(2) by (simp add: count_source_edges_def edges_of_source_def split: option.splits)
  moreover have "kb_of c' = kb_retract_source source (kb_of c)"
    unfolding kb_same_names [OF c'(3) assms(1)] c'(4) kb_retract_source_def by (simp add: kb_of_def)
  ultimately show ?thesis using c' by metis
qed

text \<open>
  C3. Retracting a source: on a well-formed context it returns for every known source, keeps the
  representation invariant (chains, reverse index, dead counters), and takes exactly that
  source's attribution, weight and count off every fact, leaving everything else; the number it
  reports is the number the dry-run count announces beforehand.
\<close>

theorem retract_source_refines:
  assumes "ctx_inv U c" "source_ids c source = Some k"
  shows "\<exists>c'. retract_source c source = Some (Some (count_source_edges c source, c')) \<and> ctx_inv U c' \<and>
     kb_of c' = kb_retract_source source (kb_of c)"
  using assms by (rule retract_source_kb)

theorem retract_source_refines_witness:
  "\<exists>c'. retract_source demo_ctx (bytes ''doc'')
       = Some (Some (count_source_edges demo_ctx (bytes ''doc''), c')) \<and> ctx_inv unicode_id c' \<and>
     kb_of c' = kb_retract_source (bytes ''doc'') (kb_of demo_ctx)"
  using demo_source retract_source_refines [OF demo_ctx(1)] by blast

lemma retract_association_kb:
  assumes "ctx_inv U c" "concept_ids c subject = Some s" "label_ids c label = Some l"
    "concept_ids c object = Some ob" "edge_ids c (s, l, ob) = Some e" "fa_count (fact_of c e) \<noteq> 0"
  shows "\<exists>c'. retract_association c subject label object
       = Some (Some (length (fa_attrs (fact_of c e)), c')) \<and> ctx_inv U c' \<and>
     kb_of c' = kb_retract_association subject label object (kb_of c)"
proof -
  note I = ctx_invD [OF assms(1)]
  have ex: "existing_edge c subject label object = Some e" using assms by (simp add: existing_edge_def)
  have live: "ed_count (edges c ! e) \<noteq> 0" using assms(6) by (simp add: fact_of_def fact_with_def)
  obtain c' where c': "retract_association c subject label object = Some (Some (length (fa_attrs (fact_of c e)), c'))"
     "ctx_inv U c'" "same_names c c'" "facts c' = (facts c)[e := fact_clear (fact_of c e)]"
    using retract_association_spec [OF assms(1) ex live] by blast
  have b: "s < length (concepts c)" "l < length (labels c)" "ob < length (concepts c)"
    using ids_bound [OF assms(1)] assms(2-4) by auto
  have e: "e < length (edges c)" using edge_ids_iff [OF I(5)] assms(5) by blast
  have nm: "canon (kb_concepts (kb_of c)) subject = cname c s" "canon (kb_labels (kb_of c)) label = lname c l"
    "canon (kb_concepts (kb_of c)) object = cname c ob" using assms(2-4) by (simp_all add: canon_def kb_of_def)
  have "map (\<lambda>x. if same_triple (cname c s) (lname c l) (cname c ob) x then fact_clear x else x) (facts c)
      = (facts c)[e := fact_clear (facts c ! e)]"
    by (rule map_if_update) (use e fact_triple_iff [OF I(1,5) b] assms(5) in auto)
  then have "kb_of c' = kb_retract_association subject label object (kb_of c)"
    unfolding kb_same_names [OF c'(3) assms(1)] c'(4) kb_retract_association_def nm using e by (simp add: kb_of_def)
  with c' show ?thesis by blast
qed

text \<open>
  C4. Retracting one association: on a well-formed context with the named triple live, every
  attribution is unlinked and the fact is zeroed (unsourced weight included), every other fact
  is untouched, the invariant is kept, and the count reported is the number of attributions
  the fact had.
\<close>

theorem retract_association_refines:
  assumes "ctx_inv U c" "concept_ids c subject = Some s" "label_ids c label = Some l"
    "concept_ids c object = Some ob" "edge_ids c (s, l, ob) = Some e" "fa_count (fact_of c e) \<noteq> 0"
  shows "\<exists>c'. retract_association c subject label object
       = Some (Some (length (fa_attrs (fact_of c e)), c')) \<and> ctx_inv U c' \<and>
     kb_of c' = kb_retract_association subject label object (kb_of c)"
  using assms by (rule retract_association_kb)

lemma demo_edge: "\<exists>s l ob. concept_ids demo_ctx (bytes ''tea'') = Some s \<and> label_ids demo_ctx (bytes ''is'') = Some l \<and>
   concept_ids demo_ctx (bytes ''hot'') = Some ob \<and> edge_ids demo_ctx (s, l, ob) = Some 0"
proof -
  note I = ctx_invD [OF demo_ctx(1)]
  have n: "length (edges demo_ctx) = 1" using arg_cong [OF demo_facts, of length] by simp
  have "fact_of demo_ctx 0 = facts demo_ctx ! 0" using n by simp
  then have t: "cname demo_ctx (ed_subject (edges demo_ctx ! 0)) = bytes ''tea''"
    "lname demo_ctx (ed_label (edges demo_ctx ! 0)) = bytes ''is''"
    "cname demo_ctx (ed_object (edges demo_ctx ! 0)) = bytes ''hot''"
    using arg_cong [OF demo_facts, of "\<lambda>xs. xs ! 0"] by (simp_all add: fact_of_def fact_with_def)
  have b: "ed_subject (edges demo_ctx ! 0) < length (concepts demo_ctx)" "ed_object (edges demo_ctx ! 0) < length (concepts demo_ctx)"
    "ed_label (edges demo_ctx ! 0) < length (labels demo_ctx)" using edge_bounds [OF I(5), of 0] n by simp_all
  have "edge_ids demo_ctx (triple (edges demo_ctx ! 0)) = Some 0" using edge_ids_iff [OF I(5)] n by simp
  then show ?thesis
    using name_ids(1) [OF I(1) b(1)] name_ids(2) [OF I(1) b(3)] name_ids(1) [OF I(1) b(2)] t
    by (auto simp: triple_def)
qed

theorem retract_association_refines_witness:
  "\<exists>n c'. retract_association demo_ctx (bytes ''tea'') (bytes ''is'') (bytes ''hot'') = Some (Some (n, c')) \<and>
     ctx_inv unicode_id c' \<and>
     kb_of c' = kb_retract_association (bytes ''tea'') (bytes ''is'') (bytes ''hot'') (kb_of demo_ctx)"
proof -
  obtain s l ob where d: "concept_ids demo_ctx (bytes ''tea'') = Some s" "label_ids demo_ctx (bytes ''is'') = Some l"
    "concept_ids demo_ctx (bytes ''hot'') = Some ob" "edge_ids demo_ctx (s, l, ob) = Some 0"
    using demo_edge by blast
  have "length (edges demo_ctx) = 1" using arg_cong [OF demo_facts, of length] by simp
  then have "fa_count (fact_of demo_ctx 0) \<noteq> 0"
    using arg_cong [OF demo_facts, of "\<lambda>xs. fa_count (xs ! 0)"] by simp
  from retract_association_refines [OF demo_ctx(1) d this] show ?thesis by blast
qed

section \<open>The unsourced audit on facts\<close>

lemma mapM_map: "mapM f (map g xs) = mapM (\<lambda>x. f (g x)) xs"
  by (induction xs) simp_all

definition fact_unsourced :: "fact \<Rightarrow> (f64 \<times> nat) option" where
  "fact_unsourced x =
     (let real = filter (\<lambda>a. as_source a \<noteq> UNSOURCED_SOURCE) (fa_attrs x);
          n = sum_list (map as_count real)
      in if n < fa_count x
         then Some (accumulate_saturating (fa_sum x) (f64_neg (foldl accumulate_saturating f64_zero (map as_weight real))),
                    fa_count x - n)
         else None)"

definition unsourced_of :: "f64 \<Rightarrow> fact \<Rightarrow> unsourced_edge list" where
  "unsourced_of floor x =
     (case fact_unsourced x of None \<Rightarrow> []
      | Some (w, n) \<Rightarrow> if f64_le floor (f64_abs w)
                      then [\<lparr>ue_association = assoc_of x, ue_weight = w, ue_count = n\<rparr>] else [])"

lemma unsourced_fold:
  assumes "\<forall>a \<in> set xs. at_count (ats ! a) \<noteq> 0 \<and> (Some (at_source (ats ! a)) = un \<longleftrightarrow> P a)"
    and "n + sum_list (map (\<lambda>a. at_count (ats ! a)) xs) < 2 ^ 64"
  shows "foldl (\<lambda>(n, s) r. if at_count r = 0 \<or> Some (at_source r) = un then (n, s)
                         else (u64_add n (at_count r), accumulate_saturating s (at_sum r))) (n, t)
           (map ((!) ats) xs)
     = (n + sum_list (map (\<lambda>a. at_count (ats ! a)) (filter (\<lambda>a. \<not> P a) xs)),
        foldl accumulate_saturating t (map (\<lambda>a. at_sum (ats ! a)) (filter (\<lambda>a. \<not> P a) xs)))"
  using assms
proof (induction xs arbitrary: n t)
  case (Cons a xs)
  have "u64_add n (at_count (ats ! a)) = n + at_count (ats ! a)" using Cons.prems(2) by (simp add: u64_add_def)
  with Cons show ?case by (simp add: ac_simps)
qed simp

lemma unsourced_share_fact:
  assumes inv: "ctx_inv U c" and e: "e < length (edges c)"
  shows "unsourced_share c (edges c ! e) (source_ids c UNSOURCED_SOURCE) = Some (fact_unsourced (fact_of c e))"
proof -
  note I = ctx_invD [OF inv]
  obtain f where f: "attr_inv c f" using I(7) by blast
  have ok: "edge_attr_ok (attributions c) (length (sources c)) (edges c ! e) (f e)" using f e by (simp add: attr_defs)
  let ?un = "source_ids c UNSOURCED_SOURCE" and ?P = "\<lambda>a. sname c (at_source (attributions c ! a)) = UNSOURCED_SOURCE"
  have "Some (at_source (attributions c ! a)) = ?un \<longleftrightarrow> ?P a" if "a \<in> set (f e)" for a
  proof -
    have s: "source_ids c (sname c (at_source (attributions c ! a))) = Some (at_source (attributions c ! a))"
      using name_ids(3) [OF I(1)] attr_source_bound [OF f e that] by blast
    have "sname c k = UNSOURCED_SOURCE" if "?un = Some k" for k
      using that I(1) by (auto simp: names_inv_def ns_ok_def set_spellings sname_def)
    with s show ?thesis by metis
  qed
  then have hyp: "\<forall>a \<in> set (f e). at_count (attributions c ! a) \<noteq> 0 \<and> (Some (at_source (attributions c ! a)) = ?un \<longleftrightarrow> ?P a)"
    using ok by (auto simp: edge_attr_ok_def)
  have m: "mapM (nth_opt (attributions c)) (f e) = Some (map ((!) (attributions c)) (f e))"
    using attr_source_bound [OF f e] by (intro mapM_Some) auto
  have b: "0 + sum_list (map (\<lambda>a. at_count (attributions c ! a)) (f e)) < 2 ^ 64" using ok by (simp add: edge_attr_ok_def)
  have real: "filter (\<lambda>a. as_source a \<noteq> UNSOURCED_SOURCE) (map (att_view c) (f e)) = map (att_view c) (filter (\<lambda>a. \<not> ?P a) (f e))"
    by (simp add: filter_map comp_def att_view_def)
  have vals: "as_count \<circ> att_view c = (\<lambda>a. at_count (attributions c ! a))" "as_weight \<circ> att_view c = (\<lambda>a. at_sum (attributions c ! a))"
    by (auto simp: att_view_def)
  show ?thesis
    unfolding unsourced_share_def attr_listed(2) [OF f e] fact_of_eq [OF f e] fact_with_def fact_unsourced_def
    by (simp add: m unsourced_fold [OF hyp b] real vals Let_def)
qed

lemma unsourced_scan_spec:
  assumes "ctx_inv U c" "\<forall>e \<in> set es. e < length (edges c)"
  shows "unsourced_scan c floor expired (source_ids c UNSOURCED_SOURCE) es =
     Some (if \<exists>e \<in> set es. expired e then Inl DeadlineExceeded
           else Inr (concat (map (\<lambda>e. unsourced_of floor (fact_of c e)) es)))"
  using assms(2)
proof (induction es)
  case (Cons e es)
  have "(case fact_unsourced (fact_of c e) of None \<Rightarrow> Some []
           | Some (weight, cnt) \<Rightarrow>
               (if f64_le floor (f64_abs weight)
                then do { a \<leftarrow> association c e;
                          Some [\<lparr>ue_association = a, ue_weight = weight, ue_count = cnt\<rparr>] }
                else Some [])) = Some (unsourced_of floor (fact_of c e))"
    using association_fact [OF assms(1), of e] Cons.prems by (simp add: unsourced_of_def split: option.split)
  with Cons unsourced_share_fact [OF assms(1), of e] show ?case by (simp add: sum.case_eq_if)
qed simp

text \<open>
  C22. The unsourced audit: on a well-formed context the scan returns; it reports exactly the live
  facts whose count is not covered by attributions of real sources (the reserved source does
  not count), each with the weight and count left over, filtered by magnitude (a NaN floor
  keeps everything), in edge order; or the deadline error, exactly when a poll fires.
\<close>

theorem unsourced_edges_correct:
  assumes "ctx_inv U c"
  shows "unsourced_edges c floor expired =
     Some (if \<exists>i < length (edges c). expired i then Inl DeadlineExceeded
           else Inr (concat (map (unsourced_of (if is_nan floor then f64_zero else f64_abs floor)) (kb_facts (kb_of c)))))"
  using unsourced_scan_spec [OF assms, of "[0..<length (edges c)]"]
  by (auto simp: unsourced_edges_def kb_of_def facts_def comp_def)

theorem unsourced_edges_correct_witness:
  "unsourced_edges demo_ctx f64_nan (\<lambda>_. False) =
     Some (if \<exists>i < length (edges demo_ctx). False then Inl DeadlineExceeded
           else Inr (concat (map (unsourced_of (if is_nan f64_nan then f64_zero else f64_abs f64_nan))
                     (kb_facts (kb_of demo_ctx)))))"
  by (rule unsourced_edges_correct [OF demo_ctx(1)])

lemma unsourced_summary_spec:
  assumes "ctx_inv U c"
  shows "unsourced_summary c = Some (foldl summary_step (0, f64_zero) (map fact_unsourced (facts c)))"
proof -
  have "mapM (\<lambda>e. unsourced_share c e (source_ids c UNSOURCED_SOURCE)) (edges c)
      = mapM (\<lambda>i. unsourced_share c (edges c ! i) (source_ids c UNSOURCED_SOURCE)) [0..<length (edges c)]"
    by (subst map_nth [of "edges c", symmetric]) (rule mapM_map)
  also have "\<dots> = Some (map (\<lambda>i. fact_unsourced (fact_of c i)) [0..<length (edges c)])"
    by (rule mapM_Some) (use unsourced_share_fact [OF assms] in auto)
  finally show ?thesis by (simp add: unsourced_summary_def facts_def comp_def)
qed

end
