(* ===== verification/Alias.thy ===== *)
theory Alias
  imports Sources
begin

text \<open>
  The alias operations of \<^verbatim>\<open>src/context/alias.rs\<close>: registration, the pre-flight prediction of a
  batch, removal with its index rebuild, and the alias pages. The concept and the label namespace
  differ only in the storage they touch; the locale \<open>alias_side\<close> states what \<open>add_alias\<close> and the
  removal need of that storage and carries the proofs for both.
\<close>

section \<open>One namespace\<close>

record alias_ns =
  ns_aliases :: "alias_record list"
  ns_index :: entry_index
  ns_ids :: "rstr \<rightharpoonup> nat"
  ns_alias_index :: "(rstr \<times> nat) list"

definition add_alias ::
    "unicode \<Rightarrow> rstr \<Rightarrow> alias_ns \<Rightarrow> rstr \<Rightarrow> rstr \<Rightarrow> string \<Rightarrow> (alias_error + rstr \<times> alias_ns) option" where
  "add_alias U ar ns alias canonical full_message =
     (case ns_ids ns canonical of
        None \<Rightarrow> Some (Inl UnknownCanonical)
      | Some target \<Rightarrow>
          (case ns_ids ns alias of
             Some existing \<Rightarrow> Some (if existing = target then Inr (ar, ns) else Inl Conflict)
           | None \<Rightarrow>
               if \<not> ids_left (length (ns_aliases ns)) 1 then Some (Inl (Full (ContextFull full_message)))
               else if \<not> arena_fits (length ar) (length alias)
               then Some (Inl (Full (ContextFull ''the string arena is out of offset space'')))
               else do {
                 (ar', off, len) \<leftarrow> intern_name ar alias;
                 ix \<leftarrow> ei_push U (ns_index ns) alias target;
                 Some (Inr (ar', \<lparr>ns_aliases = ns_aliases ns @ [\<lparr>al_name_offset = off, al_name_len = len, al_target = target\<rparr>],
                   ns_index = ix, ns_ids = (ns_ids ns)(alias \<mapsto> target),
                   ns_alias_index = bt_insert alias target (ns_alias_index ns)\<rparr>))
               }))"

definition concept_ns :: "ctx \<Rightarrow> alias_ns" where
  "concept_ns c = \<lparr>ns_aliases = concept_aliases c, ns_index = concept_index c, ns_ids = concept_ids c,
     ns_alias_index = concept_alias_index c\<rparr>"

definition put_concept_ns :: "ctx \<Rightarrow> rstr \<Rightarrow> alias_ns \<Rightarrow> nat \<Rightarrow> ctx" where
  "put_concept_ns c ar ns slack = c\<lparr>arena := ar, concept_aliases := ns_aliases ns, concept_ids := ns_ids ns,
     concept_alias_index := ns_alias_index ns, concept_index := ns_index ns, arena_slack := slack\<rparr>"

definition label_ns :: "ctx \<Rightarrow> alias_ns" where
  "label_ns c = \<lparr>ns_aliases = label_aliases c, ns_index = label_index c, ns_ids = label_ids c,
     ns_alias_index = label_alias_index c\<rparr>"

definition put_label_ns :: "ctx \<Rightarrow> rstr \<Rightarrow> alias_ns \<Rightarrow> nat \<Rightarrow> ctx" where
  "put_label_ns c ar ns slack = c\<lparr>arena := ar, label_aliases := ns_aliases ns, label_ids := ns_ids ns,
     label_alias_index := ns_alias_index ns, label_index := ns_index ns, arena_slack := slack\<rparr>"

definition add_concept_alias :: "unicode \<Rightarrow> ctx \<Rightarrow> rstr \<Rightarrow> rstr \<Rightarrow> (alias_error + ctx) option" where
  "add_concept_alias U c alias canonical =
     map_option (map_sum id (\<lambda>(ar, ns). put_concept_ns c ar ns (arena_slack c)))
       (add_alias U (arena c) (concept_ns c) alias canonical ''the concept alias table is out of u32 ids'')"

definition add_label_alias :: "unicode \<Rightarrow> ctx \<Rightarrow> rstr \<Rightarrow> rstr \<Rightarrow> (alias_error + ctx) option" where
  "add_label_alias U c alias canonical =
     map_option (map_sum id (\<lambda>(ar, ns). put_label_ns c ar ns (arena_slack c)))
       (add_alias U (arena c) (label_ns c) alias canonical ''the label alias table is out of u32 ids'')"

section \<open>Removal\<close>

text \<open>\<open>iter().position\<close> over the alias table; each probe reads the arena.\<close>

fun alias_position :: "ctx \<Rightarrow> rstr \<Rightarrow> alias_record list \<Rightarrow> nat \<Rightarrow> nat option option" where
  "alias_position c alias [] i = Some None"
| "alias_position c alias (r # rs) i = do {
     s \<leftarrow> arena_str c (al_name_offset r) (al_name_len r);
     if s = alias then Some (Some i) else alias_position c alias rs (Suc i)
   }"

definition remove_at :: "nat \<Rightarrow> 'a list \<Rightarrow> 'a list" where
  "remove_at i xs = take i xs @ drop (Suc i) xs"

text \<open>The rebuild: every canonical name with its id, then every alias with its target.\<close>

fun push_all :: "unicode \<Rightarrow> ctx \<Rightarrow> ((nat \<times> nat) \<times> nat) list \<Rightarrow> entry_index \<Rightarrow> entry_index option" where
  "push_all U c [] ix = Some ix"
| "push_all U c ((r, t) # rest) ix = do {
     s \<leftarrow> arena_str c (fst r) (snd r);
     ix' \<leftarrow> ei_push U ix s t;
     push_all U c rest ix'
   }"

definition rebuild_entries :: "(nat \<times> nat) list \<Rightarrow> alias_record list \<Rightarrow> ((nat \<times> nat) \<times> nat) list" where
  "rebuild_entries rs als = zip rs [0..<length rs] @ map (\<lambda>a. (alias_range a, al_target a)) als"

definition rebuild_concept_index :: "unicode \<Rightarrow> ctx \<Rightarrow> ctx option" where
  "rebuild_concept_index U c =
     map_option (\<lambda>ix. c\<lparr>concept_index := ix\<rparr>)
       (push_all U c (rebuild_entries (concept_ranges c) (concept_aliases c)) ei_default)"

definition rebuild_label_index :: "unicode \<Rightarrow> ctx \<Rightarrow> ctx option" where
  "rebuild_label_index U c =
     map_option (\<lambda>ix. c\<lparr>label_index := ix\<rparr>)
       (push_all U c (rebuild_entries (label_ranges c) (label_aliases c)) ei_default)"

definition remove_concept_alias :: "unicode \<Rightarrow> ctx \<Rightarrow> rstr \<Rightarrow> (rstr \<times> ctx) option option" where
  "remove_concept_alias U c alias = do {
     position \<leftarrow> alias_position c alias (concept_aliases c) 0;
     (case position of
        None \<Rightarrow> Some None
      | Some p \<Rightarrow> do {
          let record = concept_aliases c ! p;
          c1 \<leftarrow> rebuild_concept_index U (c\<lparr>concept_aliases := remove_at p (concept_aliases c),
              arena_slack := arena_slack c + al_name_len record,
              concept_ids := (concept_ids c)(alias := None),
              concept_alias_index := bt_remove alias (concept_alias_index c)\<rparr>);
          name \<leftarrow> concept_name c1 (al_target record);
          Some (Some (name, c1))
        })
   }"

definition remove_label_alias :: "unicode \<Rightarrow> ctx \<Rightarrow> rstr \<Rightarrow> (rstr \<times> ctx) option option" where
  "remove_label_alias U c alias = do {
     position \<leftarrow> alias_position c alias (label_aliases c) 0;
     (case position of
        None \<Rightarrow> Some None
      | Some p \<Rightarrow> do {
          let record = label_aliases c ! p;
          c1 \<leftarrow> rebuild_label_index U (c\<lparr>label_aliases := remove_at p (label_aliases c),
              arena_slack := arena_slack c + al_name_len record,
              label_ids := (label_ids c)(alias := None),
              label_alias_index := bt_remove alias (label_alias_index c)\<rparr>);
          name \<leftarrow> label_name c1 (al_target record);
          Some (Some (name, c1))
        })
   }"

section \<open>Predicting a batch\<close>

datatype sim_target = Existing nat | Fresh nat

fun sim_fresh :: "(rstr \<rightharpoonup> nat) \<Rightarrow> rstr list \<Rightarrow> (rstr \<rightharpoonup> sim_target) \<Rightarrow> nat \<Rightarrow> (rstr \<rightharpoonup> sim_target)" where
  "sim_fresh ids [] overlay next_fresh = overlay"
| "sim_fresh ids (name # rest) overlay next_fresh =
     (if ids name = None \<and> overlay name = None
      then sim_fresh ids rest (overlay(name \<mapsto> Fresh next_fresh)) (next_fresh + 1)
      else sim_fresh ids rest overlay next_fresh)"

definition sim_resolve :: "(rstr \<rightharpoonup> nat) \<Rightarrow> (rstr \<rightharpoonup> sim_target) \<Rightarrow> rstr \<Rightarrow> sim_target option" where
  "sim_resolve ids overlay name =
     (case overlay name of Some t \<Rightarrow> Some t | None \<Rightarrow> map_option Existing (ids name))"

fun sim_aliases ::
    "(rstr \<rightharpoonup> nat) \<Rightarrow> (rstr \<times> rstr) list \<Rightarrow> (rstr \<rightharpoonup> sim_target) \<Rightarrow> (rstr \<times> rstr \<times> alias_error) + unit" where
  "sim_aliases ids [] overlay = Inr ()"
| "sim_aliases ids ((alias, canonical) # rest) overlay =
     (case sim_resolve ids overlay canonical of
        None \<Rightarrow> Inl (alias, canonical, UnknownCanonical)
      | Some target \<Rightarrow>
          (case sim_resolve ids overlay alias of
             Some existing \<Rightarrow> (if existing \<noteq> target then Inl (alias, canonical, Conflict)
                              else sim_aliases ids rest overlay)
           | None \<Rightarrow> sim_aliases ids rest (overlay(alias \<mapsto> target))))"

definition check_aliases ::
    "(rstr \<rightharpoonup> nat) \<Rightarrow> (rstr \<times> rstr) list \<Rightarrow> rstr list \<Rightarrow> (rstr \<times> rstr \<times> alias_error) + unit" where
  "check_aliases ids als fresh = sim_aliases ids als (sim_fresh ids fresh Map.empty 0)"

definition check_concept_aliases :: "ctx \<Rightarrow> (rstr \<times> rstr) list \<Rightarrow> rstr list \<Rightarrow> (rstr \<times> rstr \<times> alias_error) + unit" where
  "check_concept_aliases c als fresh = check_aliases (concept_ids c) als fresh"

definition check_label_aliases :: "ctx \<Rightarrow> (rstr \<times> rstr) list \<Rightarrow> rstr list \<Rightarrow> (rstr \<times> rstr \<times> alias_error) + unit" where
  "check_label_aliases c als fresh = check_aliases (label_ids c) als fresh"

section \<open>Reading the alias tables\<close>

definition alias_pairs :: "ctx \<Rightarrow> alias_record list \<Rightarrow> (nat \<Rightarrow> rstr option) \<Rightarrow> (rstr \<times> rstr) list option" where
  "alias_pairs c records name_of =
     mapM (\<lambda>r. do { a \<leftarrow> arena_str c (al_name_offset r) (al_name_len r); n \<leftarrow> name_of (al_target r); Some (a, n) }) records"

definition concept_alias_pairs :: "ctx \<Rightarrow> (rstr \<times> rstr) list option" where
  "concept_alias_pairs c = alias_pairs c (concept_aliases c) (concept_name c)"

definition label_alias_pairs :: "ctx \<Rightarrow> (rstr \<times> rstr) list option" where
  "label_alias_pairs c = alias_pairs c (label_aliases c) (label_name c)"

text \<open>The live names of both namespaces, edge by edge, with one deadline poll each.\<close>

fun live_names ::
    "ctx \<Rightarrow> (nat \<Rightarrow> bool) \<Rightarrow> nat list \<Rightarrow> rstr set \<Rightarrow> rstr set \<Rightarrow> (deadline_exceeded + rstr set \<times> rstr set) option" where
  "live_names c expired [] lc ll = Some (Inr (lc, ll))"
| "live_names c expired (i # rest) lc ll =
     (if expired i then Some (Inl DeadlineExceeded)
      else do {
        e \<leftarrow> nth_opt (edges c) i;
        if 0 < ed_count e
        then do { s \<leftarrow> concept_name c (ed_subject e); ob \<leftarrow> concept_name c (ed_object e); l \<leftarrow> label_name c (ed_label e);
                  live_names c expired rest ({s, ob} \<union> lc) ({l} \<union> ll) }
        else live_names c expired rest lc ll
      })"

definition dead_aliases :: "(rstr \<times> rstr) list \<Rightarrow> rstr set \<Rightarrow> (rstr \<times> rstr) list" where
  "dead_aliases als live = fold (\<lambda>(a, n) m. bt_insert a n m) (filter (\<lambda>(_, n). n \<notin> live) als) []"

definition dead_canonical_aliases ::
    "ctx \<Rightarrow> (nat \<Rightarrow> bool) \<Rightarrow> (deadline_exceeded + (rstr \<times> rstr) list \<times> (rstr \<times> rstr) list) option" where
  "dead_canonical_aliases c expired = do {
     live \<leftarrow> live_names c expired [0..<length (edges c)] {} {};
     (case live of
        Inl x \<Rightarrow> Some (Inl x)
      | Inr (lc, ll) \<Rightarrow> do {
          ca \<leftarrow> concept_alias_pairs c; la \<leftarrow> label_alias_pairs c;
          Some (Inr (dead_aliases ca lc, dead_aliases la ll))
        })
   }"

definition alias_page ::
    "(rstr \<times> nat) list \<Rightarrow> rstr option \<Rightarrow> nat \<Rightarrow> (nat \<Rightarrow> rstr option) \<Rightarrow> (nat \<times> (rstr \<times> rstr) list) option" where
  "alias_page ix after limit name_of = do {
     page \<leftarrow> mapM (\<lambda>(a, t). do { n \<leftarrow> name_of t; Some (a, n) }) (take limit (bt_after after ix));
     Some (length ix, page)
   }"

definition concept_alias_page :: "ctx \<Rightarrow> rstr option \<Rightarrow> nat \<Rightarrow> (nat \<times> (rstr \<times> rstr) list) option" where
  "concept_alias_page c after limit = alias_page (concept_alias_index c) after limit (concept_name c)"

definition label_alias_page :: "ctx \<Rightarrow> rstr option \<Rightarrow> nat \<Rightarrow> (nat \<times> (rstr \<times> rstr) list) option" where
  "label_alias_page c after limit = alias_page (label_alias_index c) after limit (label_name c)"

definition concept_alias_count :: "ctx \<Rightarrow> nat" where
  "concept_alias_count c = length (concept_alias_index c)"

definition label_alias_count :: "ctx \<Rightarrow> nat" where
  "label_alias_count c = length (label_alias_index c)"

section \<open>The contract of one namespace\<close>

definition side_ok :: "unicode \<Rightarrow> rstr \<Rightarrow> (nat \<times> nat) list \<Rightarrow> alias_ns \<Rightarrow> bool" where
  "side_ok U ar rs ns \<longleftrightarrow>
     ns_ok ar rs (ns_aliases ns) (ns_ids ns) \<and> entries_ok U ar rs (ns_aliases ns) (ns_index ns) \<and>
     page_ok (ns_alias_index ns) (alias_spellings ar (ns_aliases ns))"

text \<open>What one registration does to the lookup map.\<close>

definition alias_step :: "(rstr \<rightharpoonup> nat) \<Rightarrow> rstr \<Rightarrow> rstr \<Rightarrow> alias_error + (rstr \<rightharpoonup> nat)" where
  "alias_step ids alias canonical =
     (case ids canonical of
        None \<Rightarrow> Inl UnknownCanonical
      | Some t \<Rightarrow> (case ids alias of
           Some i \<Rightarrow> if i = t then Inr ids else Inl Conflict
         | None \<Rightarrow> Inr (ids(alias \<mapsto> t))))"

lemma side_ok_snoc:
  assumes S: "ns_ok ar rs (ns_aliases ns) (ns_ids ns) \<and> entries_ok U ar rs (ns_aliases ns) (ns_index ns) \<and>
      page_ok (ns_alias_index ns) (alias_spellings ar (ns_aliases ns))"
    and new: "ns_ids ns alias = None" and v: "utf8_valid alias" and t: "t < length rs"
    and push: "ei_push U (ns_index ns) alias t = Some ix"
  shows "side_ok U (ar @ alias) rs \<lparr>ns_aliases = ns_aliases ns @
       [\<lparr>al_name_offset = length ar, al_name_len = length alias, al_target = t\<rparr>],
     ns_index = ix, ns_ids = (ns_ids ns)(alias \<mapsto> t), ns_alias_index = bt_insert alias t (ns_alias_index ns)\<rparr>"
proof -
  let ?als = "ns_aliases ns @ [\<lparr>al_name_offset = length ar, al_name_len = length alias, al_target = t\<rparr>]"
  have ranges: "\<forall>r \<in> set rs. range_ok ar r" "\<forall>a \<in> set (ns_aliases ns). range_ok ar (alias_range a)"
    using S by (auto simp: ns_ok_def)
  have sp: "spellings (ar @ alias) rs ?als = spellings ar rs (ns_aliases ns) @ [(alias, t)]"
    by (rule spellings_alias_snoc [OF ranges])
  have asp: "alias_spellings (ar @ alias) ?als = alias_spellings ar (ns_aliases ns) @ [(alias, t)]"
    using spellings_append(2) [OF ranges, of "alias"] by (simp add: alias_spellings_def alias_range_def)
  have "alias \<notin> fst ` set (alias_spellings ar (ns_aliases ns))"
  proof
    assume "alias \<in> fst ` set (alias_spellings ar (ns_aliases ns))"
    then obtain i where "(alias, i) \<in> set (alias_spellings ar (ns_aliases ns))" by auto
    then have "(alias, i) \<in> set (spellings ar rs (ns_aliases ns))" by (simp add: spellings_def)
    then show False using ns_ok_iff [of ar rs "ns_aliases ns" "ns_ids ns" "alias" i] S new by simp
  qed
  then have "page_ok (bt_insert alias t (ns_alias_index ns)) (alias_spellings (ar @ alias) ?als)"
    using S asp by (intro page_ok_insert [of _ "alias_spellings ar (ns_aliases ns)"]) auto
  moreover have "entries_ok U (ar @ alias) rs ?als ix"
    using S sp by (intro entries_ok_push [OF _ push]) auto
  moreover have "ns_ok (ar @ alias) rs ?als ((ns_ids ns)(alias \<mapsto> t))"
    using ns_ok_alias [of ar rs "ns_aliases ns" "ns_ids ns" "alias" t] S new v t by simp
  ultimately show ?thesis by (simp add: side_ok_def)
qed

locale alias_side =
  fixes U :: unicode
    and get :: "ctx \<Rightarrow> alias_ns"
    and put :: "ctx \<Rightarrow> rstr \<Rightarrow> alias_ns \<Rightarrow> nat \<Rightarrow> ctx"
    and ranges :: "ctx \<Rightarrow> (nat \<times> nat) list"
  assumes side: "ctx_inv U c \<Longrightarrow> side_ok U (arena c) (ranges c) (get c)"
    and spans: "ctx_inv U c \<Longrightarrow> length (ei_spans (ns_index (get c))) < NIL"
    and put_inv: "ctx_inv U c \<Longrightarrow> side_ok U (arena c @ x) (ranges c) ns \<Longrightarrow>
      length (arena c @ x) \<le> u32_max \<Longrightarrow> length (ns_aliases ns) \<le> NIL \<Longrightarrow>
      length x + sum_list (map al_name_len (ns_aliases (get c))) + arena_slack c
        = sum_list (map al_name_len (ns_aliases ns)) + slack \<Longrightarrow>
      ctx_inv U (put c (arena c @ x) ns slack)"
    and put_get: "ctx_inv U c \<Longrightarrow> put c (arena c @ []) (get c) (arena_slack c) = c"
    and table_bound: "ctx_inv U c \<Longrightarrow> length (ns_aliases (get c)) \<le> NIL \<and> length (arena c) \<le> u32_max"
begin

text \<open>Registration never panics, fails only where the map or the capacity says so, and keeps the invariant.\<close>

lemma add_alias_spec:
  assumes inv: "ctx_inv U c" and v: "utf8_valid alias"
  shows "\<exists>r. add_alias U (arena c) (get c) alias canonical msg = Some r \<and>
     (case r of
        Inr (ar, ns) \<Rightarrow> alias_step (ns_ids (get c)) alias canonical = Inr (ns_ids ns) \<and>
           (\<exists>x. ar = arena c @ x) \<and> ctx_inv U (put c ar ns (arena_slack c))
      | Inl (Full f) \<Rightarrow> ns_ids (get c) alias = None \<and>
           (length (ns_aliases (get c)) = NIL \<or> u32_max < length (arena c) + length alias)
      | Inl err \<Rightarrow> alias_step (ns_ids (get c)) alias canonical = Inl err)"
proof -
  note S = side [OF inv, unfolded side_ok_def] and B = table_bound [OF inv]
  show ?thesis
  proof (cases "ns_ids (get c) canonical")
    case None
    then show ?thesis by (simp add: add_alias_def alias_step_def)
  next
    case (Some t)
    note canonical = this
    show ?thesis
    proof (cases "ns_ids (get c) alias")
      case (Some i)
      have "ctx_inv U (put c (arena c @ []) (get c) (arena_slack c))" using inv put_get [OF inv] by simp
      with Some canonical show ?thesis
        by (auto simp: add_alias_def alias_step_def)
    next
      case None
      show ?thesis
      proof (cases "length (ns_aliases (get c)) < NIL \<and> length (arena c) + length alias \<le> u32_max")
        case False
        with None canonical B show ?thesis
          by (auto simp: add_alias_def ids_left_def arena_fits_iff)
      next
        case True
        obtain ix where push: "ei_push U (ns_index (get c)) alias t = Some ix"
          using ei_push_Some_iff spans [OF inv] by blast
        let ?r = "\<lparr>al_name_offset = length (arena c), al_name_len = length alias, al_target = t\<rparr>"
        let ?ns = "\<lparr>ns_aliases = ns_aliases (get c) @ [?r], ns_index = ix, ns_ids = (ns_ids (get c))(alias \<mapsto> t),
            ns_alias_index = bt_insert alias t (ns_alias_index (get c))\<rparr>"
        have eq: "add_alias U (arena c) (get c) alias canonical msg = Some (Inr (arena c @ alias, ?ns))"
          using None canonical True push by (simp add: add_alias_def ids_left_1 [simplified] arena_fits_iff)
        have t: "t < length (ranges c)" using S canonical ns_ok_id_bound by blast
        have "side_ok U (arena c @ alias) (ranges c) ?ns" by (rule side_ok_snoc [OF S None v t push])
        then have "ctx_inv U (put c (arena c @ alias) ?ns (arena_slack c))"
          using True by (intro put_inv [OF inv]) auto
        with eq None canonical show ?thesis by (auto simp: alias_step_def)
      qed
    qed
  qed
qed

end

interpretation concept_side: alias_side U concept_ns put_concept_ns concept_ranges for U
proof unfold_locales
  fix c assume inv: "ctx_inv U c"
  note I = ctx_invD [OF inv]
  show "side_ok U (arena c) (concept_ranges c) (concept_ns c)"
    using I(1,3,4) by (simp add: side_ok_def concept_ns_def names_inv_def index_inv_def paging_inv_def)
  show "length (ei_spans (ns_index (concept_ns c))) < NIL"
    using concept_spans_lt [OF inv] by (simp add: concept_ns_def)
  show "put_concept_ns c (arena c @ []) (concept_ns c) (arena_slack c) = c"
    by (simp add: put_concept_ns_def concept_ns_def)
  show "length (ns_aliases (concept_ns c)) \<le> NIL \<and> length (arena c) \<le> u32_max"
    using I(2) by (simp add: bounds_inv_def concept_ns_def)
  fix x ns slack
  assume S: "side_ok U (arena c @ x) (concept_ranges c) ns" and len: "length (arena c @ x) \<le> u32_max"
      "length (ns_aliases ns) \<le> NIL"
    and bytes: "length x + sum_list (map al_name_len (ns_aliases (concept_ns c))) + arena_slack c
        = sum_list (map al_name_len (ns_aliases ns)) + slack"
  let ?c = "put_concept_ns c (arena c @ x) ns slack"
  obtain f where "attr_inv c f" using I(7) by blast
  then have "attr_inv ?c f" by (rule attr_inv_cong) (simp_all add: put_concept_ns_def)
  moreover have "names_inv ?c" "index_inv U ?c" "paging_inv ?c"
    using S I(1,3) ns_ok_append entries_ok_append paging_arena(2,3) [OF I(4,1)]
    by (auto simp: side_ok_def names_inv_def index_inv_def paging_inv_def put_concept_ns_def)
  moreover have "bounds_inv ?c" "edges_inv ?c" "chain_inv ?c" "locators_inv ?c"
    using I(2,5,6,8) len by (simp_all add: bounds_inv_def edges_inv_def chain_inv_def locators_inv_def put_concept_ns_def)
  moreover have "slack_inv ?c"
    using I(9) bytes by (simp add: slack_inv_def live_bytes_def put_concept_ns_def concept_ns_def)
  ultimately show "ctx_inv U ?c" using I(10) by (auto simp: ctx_inv_def put_concept_ns_def)
qed

interpretation label_side: alias_side U label_ns put_label_ns label_ranges for U
proof unfold_locales
  fix c assume inv: "ctx_inv U c"
  note I = ctx_invD [OF inv]
  show "side_ok U (arena c) (label_ranges c) (label_ns c)"
    using I(1,3,4) by (simp add: side_ok_def label_ns_def names_inv_def index_inv_def paging_inv_def)
  show "length (ei_spans (ns_index (label_ns c))) < NIL"
    using label_spans_lt [OF inv] by (simp add: label_ns_def)
  show "put_label_ns c (arena c @ []) (label_ns c) (arena_slack c) = c"
    by (simp add: put_label_ns_def label_ns_def)
  show "length (ns_aliases (label_ns c)) \<le> NIL \<and> length (arena c) \<le> u32_max"
    using I(2) by (simp add: bounds_inv_def label_ns_def)
  fix x ns slack
  assume S: "side_ok U (arena c @ x) (label_ranges c) ns" and len: "length (arena c @ x) \<le> u32_max"
      "length (ns_aliases ns) \<le> NIL"
    and bytes: "length x + sum_list (map al_name_len (ns_aliases (label_ns c))) + arena_slack c
        = sum_list (map al_name_len (ns_aliases ns)) + slack"
  let ?c = "put_label_ns c (arena c @ x) ns slack"
  obtain f where "attr_inv c f" using I(7) by blast
  then have "attr_inv ?c f" by (rule attr_inv_cong) (simp_all add: put_label_ns_def)
  moreover have "names_inv ?c" "index_inv U ?c" "paging_inv ?c"
    using S I(1,3) ns_ok_append entries_ok_append paging_arena(1,3) [OF I(4,1)]
    by (auto simp: side_ok_def names_inv_def index_inv_def paging_inv_def put_label_ns_def)
  moreover have "bounds_inv ?c" "edges_inv ?c" "chain_inv ?c" "locators_inv ?c"
    using I(2,5,6,8) len by (simp_all add: bounds_inv_def edges_inv_def chain_inv_def locators_inv_def put_label_ns_def)
  moreover have "slack_inv ?c"
    using I(9) bytes by (simp add: slack_inv_def live_bytes_def put_label_ns_def label_ns_def)
  ultimately show "ctx_inv U ?c" using I(10) by (auto simp: ctx_inv_def put_label_ns_def)
qed

section \<open>Removal keeps the contract\<close>

lemma alias_position_spec:
  assumes "\<forall>a \<in> set als. range_ok (arena c) (alias_range a)"
  shows "\<exists>r. alias_position c alias als i = Some r \<and>
     (case r of None \<Rightarrow> \<forall>a \<in> set als. name_at (arena c) (alias_range a) \<noteq> alias
      | Some p \<Rightarrow> i \<le> p \<and> p < i + length als \<and> name_at (arena c) (alias_range (als ! (p - i))) = alias)"
  using assms
proof (induction als arbitrary: i)
  case (Cons a als)
  have s: "arena_str c (al_name_offset a) (al_name_len a) = Some (name_at (arena c) (alias_range a))"
    using arena_str_range_ok [of c "alias_range a"] Cons.prems by (simp add: alias_range_def)
  show ?case
  proof (cases "name_at (arena c) (alias_range a) = alias")
    case True
    with s show ?thesis by simp
  next
    case False
    obtain r where r: "alias_position c alias als (Suc i) = Some r"
       "case r of None \<Rightarrow> \<forall>a \<in> set als. name_at (arena c) (alias_range a) \<noteq> alias
        | Some p \<Rightarrow> Suc i \<le> p \<and> p < Suc i + length als \<and> name_at (arena c) (alias_range (als ! (p - Suc i))) = alias"
      using Cons.IH [of "Suc i"] Cons.prems by auto
    have "(a # als) ! (p - i) = als ! (p - Suc i)" if "Suc i \<le> p" for p
      using that by (simp add: nth_Cons Suc_diff_le split: nat.split) (metis Suc_diff_le diff_Suc_Suc nat.inject)
    with r s False show ?thesis by (auto split: option.splits)
  qed
qed simp

lemma push_all_spec:
  assumes "\<forall>(r, t) \<in> set ents. range_ok (arena c) r" "ei_ok ix" "length (ei_spans ix) + length ents \<le> NIL"
  shows "\<exists>ix'. push_all U c ents ix = Some ix' \<and> ei_ok ix' \<and>
     ei_entries ix' = ei_entries ix @ map (\<lambda>(r, t). (normalize U (name_at (arena c) r), t)) ents"
  using assms
proof (induction ents arbitrary: ix)
  case (Cons p ents)
  obtain r t where p: "p = (r, t)" by (cases p)
  obtain ix1 where push: "ei_push U ix (name_at (arena c) r) t = Some ix1"
    using ei_push_Some_iff [of U ix "name_at (arena c) r" t] Cons.prems(3) by auto
  note e1 = ei_push_entries [OF push Cons.prems(2)]
  obtain ix' where "push_all U c ents ix1 = Some ix'" "ei_ok ix'"
     "ei_entries ix' = ei_entries ix1 @ map (\<lambda>(r, t). (normalize U (name_at (arena c) r), t)) ents"
    using Cons.IH [of ix1] Cons.prems e1 ei_push_length [OF push] by auto
  with push e1 Cons.prems(1) show ?case by (simp add: p arena_str_range_ok)
qed simp

lemma rebuild_entries_spellings:
  "map (\<lambda>(r, t). (normalize U (name_at ar r), t)) (rebuild_entries rs als) = map (apfst (normalize U)) (spellings ar rs als)"
  by (simp add: rebuild_entries_def spellings_def alias_spellings_def zip_map1 comp_def split_beta apfst_def map_prod_def)

lemma remove_at_split: "p < length xs \<Longrightarrow> \<exists>us vs. xs = us @ xs ! p # vs \<and> remove_at p xs = us @ vs"
  by (metis id_take_nth_drop remove_at_def)

lemma spellings_mid:
  "spellings ar rs (us @ a # vs) = (zip (map (name_at ar) rs) [0..<length rs] @ alias_spellings ar us)
     @ (name_at ar (alias_range a), al_target a) # alias_spellings ar vs"
  "spellings ar rs (us @ vs) = (zip (map (name_at ar) rs) [0..<length rs] @ alias_spellings ar us) @ alias_spellings ar vs"
  by (simp_all add: spellings_def alias_spellings_def)

lemma side_ok_remove:
  assumes S: "side_ok U ar rs ns" and als: "ns_aliases ns = us @ a # vs"
    and nm: "name_at ar (alias_range a) = alias"
    and ix: "ei_ok ix" "ei_entries ix = map (apfst (normalize U)) (spellings ar rs (us @ vs))"
  shows "side_ok U ar rs \<lparr>ns_aliases = us @ vs, ns_index = ix, ns_ids = (ns_ids ns)(alias := None),
     ns_alias_index = bt_remove alias (ns_alias_index ns)\<rparr>"
proof -
  note N = S [unfolded side_ok_def als]
  let ?pre = "zip (map (name_at ar) rs) [0..<length rs] @ alias_spellings ar us"
  have d: "distinct (map fst (?pre @ (alias, al_target a) # alias_spellings ar vs))"
    using N unfolding ns_ok_def spellings_mid(1) nm by blast
  then have fresh: "alias \<notin> fst ` set (?pre @ alias_spellings ar vs)" by (auto dest: set_zip_leftD)
  have iff: "((ns_ids ns)(alias := None)) k = Some i \<longleftrightarrow> (k, i) \<in> set (spellings ar rs (us @ vs))" for k i
  proof -
    have "ns_ids ns k = Some i \<longleftrightarrow> (k, i) \<in> set (?pre @ (alias, al_target a) # alias_spellings ar vs)"
      using N unfolding ns_ok_def spellings_mid(1) nm by blast
    then show ?thesis using fresh unfolding spellings_mid(2) by (force simp: image_iff)
  qed
  have "ns_ok ar rs (us @ vs) ((ns_ids ns)(alias := None))"
  proof -
    have "distinct (map fst (spellings ar rs (us @ vs)))" using d unfolding spellings_mid(2) by auto
    then show ?thesis using N iff unfolding ns_ok_def by auto
  qed
  moreover have "entries_ok U ar rs (us @ vs) ix" using ix by (simp add: entries_ok_def)
  moreover have "page_ok (bt_remove alias (ns_alias_index ns)) (alias_spellings ar (us @ vs))"
  proof -
    have "set (ns_alias_index ns) = set (alias_spellings ar (us @ a # vs))" "bt_sorted (ns_alias_index ns)"
      using N by (simp_all add: page_ok_def)
    moreover have "\<forall>x \<in> set us \<union> set vs. name_at ar (alias_range x) \<noteq> alias"
      using fresh by (force simp: alias_spellings_def)
    ultimately show ?thesis
      using nm by (auto simp: page_ok_def bt_sorted_remove) (auto simp: bt_remove_def alias_spellings_def)
  qed
  ultimately show ?thesis by (simp add: side_ok_def)
qed

context alias_side
begin

text \<open>Dropping one alias record and rebuilding the entry index from what is left.\<close>

lemma remove_alias_spec:
  assumes inv: "ctx_inv U c" and als: "ns_aliases (get c) = us @ a # vs"
    and nm: "name_at (arena c) (alias_range a) = alias" and ar: "arena c' = arena c"
  shows "\<exists>ix. push_all U c' (rebuild_entries (ranges c) (us @ vs)) ei_default = Some ix \<and>
     ctx_inv U (put c (arena c @ []) \<lparr>ns_aliases = us @ vs, ns_index = ix, ns_ids = (ns_ids (get c))(alias := None),
        ns_alias_index = bt_remove alias (ns_alias_index (get c))\<rparr> (arena_slack c + al_name_len a))"
proof -
  note S = side [OF inv]
  have ns: "ns_ok (arena c) (ranges c) (us @ a # vs) (ns_ids (get c))" using S als by (simp add: side_ok_def)
  have "length (ranges c) + length (us @ a # vs) < NIL"
    using entries_ok_length [of U "arena c" "ranges c" "us @ a # vs" "ns_index (get c)"] S als spans [OF inv]
    by (simp add: side_ok_def)
  then have "length (ei_spans ei_default) + length (rebuild_entries (ranges c) (us @ vs)) \<le> NIL"
    by (simp add: rebuild_entries_def ei_default_def)
  moreover have "\<forall>(r, t) \<in> set (rebuild_entries (ranges c) (us @ vs)). range_ok (arena c') r"
    using ns ar by (auto simp: rebuild_entries_def ns_ok_def dest: set_zip_leftD)
  moreover have "ei_ok ei_default" "ei_entries ei_default = []" by simp_all
  ultimately obtain ix where ix: "push_all U c' (rebuild_entries (ranges c) (us @ vs)) ei_default = Some ix" "ei_ok ix"
     "ei_entries ix = map (apfst (normalize U)) (spellings (arena c) (ranges c) (us @ vs))"
    using push_all_spec [of "rebuild_entries (ranges c) (us @ vs)" c' ei_default U] ar
    by (auto simp: rebuild_entries_spellings)
  have "side_ok U (arena c @ []) (ranges c) \<lparr>ns_aliases = us @ vs, ns_index = ix, ns_ids = (ns_ids (get c))(alias := None),
        ns_alias_index = bt_remove alias (ns_alias_index (get c))\<rparr>"
    using side_ok_remove [OF S als nm ix(2,3)] by simp
  from put_inv [OF inv this] table_bound [OF inv] als ix(1) show ?thesis by (auto simp: ac_simps)
qed

end

lemma names_put_concept [simp]:
  "cname (put_concept_ns c (arena c @ []) ns sl) i = cname c i" "lname (put_concept_ns c (arena c @ []) ns sl) i = lname c i"
  "cname (put_label_ns c (arena c @ []) ns sl) i = cname c i" "lname (put_label_ns c (arena c @ []) ns sl) i = lname c i"
  by (simp_all add: cname_def lname_def put_concept_ns_def put_label_ns_def)

lemma grows_put:
  "grows c (put_concept_ns c (arena c @ x) ns sl)" "grows c (put_label_ns c (arena c @ x) ns sl)"
  by (simp_all add: grows_def put_concept_ns_def put_label_ns_def)

lemma kb_put_concept:
  assumes inv: "ctx_inv U c" "ctx_inv U (put_concept_ns c (arena c @ x) ns sl)"
  shows "kb_of (put_concept_ns c (arena c @ x) ns sl) =
     (kb_of c)\<lparr>kb_concepts := (\<lambda>y. map_option (cname c) (ns_ids ns y))\<rparr>"
proof -
  note N = grows_names [OF grows_put(1) ctx_invD(1) [OF inv(1)]]
  have "map_option (cname (put_concept_ns c (arena c @ x) ns sl)) (ns_ids ns y) = map_option (cname c) (ns_ids ns y)" for y
    using ids_bound(1) [OF inv(2), of y] N(1)
    by (cases "ns_ids ns y") (auto simp: put_concept_ns_def)
  moreover have "map_option (lname (put_concept_ns c (arena c @ x) ns sl)) (label_ids c y) = map_option (lname c) (label_ids c y)" for y
    using ids_bound(2) [OF inv(1), of y] N(2) by (cases "label_ids c y") auto
  ultimately show ?thesis
    using grows_facts [OF grows_put(1) inv(1)] by (simp add: kb_of_def) (simp add: put_concept_ns_def)
qed

lemma kb_put_label:
  assumes inv: "ctx_inv U c" "ctx_inv U (put_label_ns c (arena c @ x) ns sl)"
  shows "kb_of (put_label_ns c (arena c @ x) ns sl) =
     (kb_of c)\<lparr>kb_labels := (\<lambda>y. map_option (lname c) (ns_ids ns y))\<rparr>"
proof -
  note N = grows_names [OF grows_put(2) ctx_invD(1) [OF inv(1)]]
  have "map_option (lname (put_label_ns c (arena c @ x) ns sl)) (ns_ids ns y) = map_option (lname c) (ns_ids ns y)" for y
    using ids_bound(2) [OF inv(2), of y] N(2)
    by (cases "ns_ids ns y") (auto simp: put_label_ns_def)
  moreover have "map_option (cname (put_label_ns c (arena c @ x) ns sl)) (concept_ids c y) = map_option (cname c) (concept_ids c y)" for y
    using ids_bound(1) [OF inv(1), of y] N(1) by (cases "concept_ids c y") auto
  ultimately show ?thesis
    using grows_facts [OF grows_put(2) inv(1)] by (simp add: kb_of_def) (simp add: put_label_ns_def)
qed

section \<open>The prediction of a batch\<close>

text \<open>The ids a namespace has once \<open>fresh\<close> names are interned in order, from table size \<open>n\<close> on.\<close>

fun intern_fresh :: "(rstr \<rightharpoonup> nat) \<Rightarrow> nat \<Rightarrow> rstr list \<Rightarrow> (rstr \<rightharpoonup> nat)" where
  "intern_fresh ids n [] = ids"
| "intern_fresh ids n (name # rest) =
     (if ids name = None then intern_fresh (ids(name \<mapsto> n)) (Suc n) rest else intern_fresh ids n rest)"

text \<open>Registering a batch for real, up to the first rejection.\<close>

fun apply_aliases :: "(rstr \<rightharpoonup> nat) \<Rightarrow> (rstr \<times> rstr) list \<Rightarrow> (rstr \<times> rstr \<times> alias_error) + (rstr \<rightharpoonup> nat)" where
  "apply_aliases ids [] = Inr ids"
| "apply_aliases ids ((alias, canonical) # rest) =
     (case alias_step ids alias canonical of Inl err \<Rightarrow> Inl (alias, canonical, err)
      | Inr ids' \<Rightarrow> apply_aliases ids' rest)"

definition sim_id :: "nat \<Rightarrow> sim_target \<Rightarrow> nat" where
  "sim_id n t = (case t of Existing i \<Rightarrow> i | Fresh j \<Rightarrow> n + j)"

definition simulates :: "nat \<Rightarrow> (rstr \<rightharpoonup> nat) \<Rightarrow> (rstr \<rightharpoonup> sim_target) \<Rightarrow> (rstr \<rightharpoonup> nat) \<Rightarrow> bool" where
  "simulates n ids overlay real \<longleftrightarrow>
     (\<forall>x. real x = map_option (sim_id n) (sim_resolve ids overlay x)) \<and>
     (\<forall>x i. sim_resolve ids overlay x = Some (Existing i) \<longrightarrow> i < n)"

lemma sim_resolve_upd: "sim_resolve ids (overlay(a \<mapsto> t)) x = (if x = a then Some t else sim_resolve ids overlay x)"
  by (simp add: sim_resolve_def)

lemma simulates_upd:
  "simulates n ids overlay real \<Longrightarrow> (\<And>i. t = Existing i \<Longrightarrow> i < n) \<Longrightarrow>
   simulates n ids (overlay(a \<mapsto> t)) (real(a \<mapsto> sim_id n t))"
  by (simp add: simulates_def sim_resolve_upd)

lemma simulates_eq:
  assumes "simulates n ids overlay real" "sim_resolve ids overlay x = Some a" "sim_resolve ids overlay y = Some b"
  shows "sim_id n a = sim_id n b \<longleftrightarrow> a = b"
  using assms by (cases a; cases b) (auto simp: simulates_def sim_id_def)

lemma sim_fresh_simulates:
  assumes "\<forall>x i. ids x = Some i \<longrightarrow> i < n" "simulates n ids overlay real"
    and "\<forall>x. ids x \<noteq> None \<longrightarrow> overlay x = None"
  shows "simulates n ids (sim_fresh ids names overlay k) (intern_fresh real (n + k) names)"
  using assms(2,3)
proof (induction names arbitrary: overlay k real)
  case (Cons name names)
  have r: "real name = None \<longleftrightarrow> ids name = None \<and> overlay name = None"
    using Cons.prems(1) by (auto simp: simulates_def sim_resolve_def split: option.splits)
  show ?case
  proof (cases "real name = None")
    case True
    have "simulates n ids (overlay(name \<mapsto> Fresh k)) (real(name \<mapsto> n + k))"
      using simulates_upd [OF Cons.prems(1), of "Fresh k" name] by (simp add: sim_id_def)
    moreover have "\<forall>x. ids x \<noteq> None \<longrightarrow> (overlay(name \<mapsto> Fresh k)) x = None" using Cons.prems(2) True r by auto
    ultimately have "simulates n ids (sim_fresh ids names (overlay(name \<mapsto> Fresh k)) (Suc k))
        (intern_fresh (real(name \<mapsto> n + k)) (n + Suc k) names)" by (rule Cons.IH)
    with True r show ?thesis by (simp del: fun_upd_apply)
  next
    case False
    with r Cons show ?thesis by auto
  qed
qed simp

lemma sim_aliases_simulates:
  assumes "simulates n ids overlay real"
  shows "map_sum id (\<lambda>_. ()) (apply_aliases real als) = sim_aliases ids als overlay"
  using assms
proof (induction als arbitrary: overlay real)
  case (Cons p als)
  obtain a k where p: "p = (a, k)" by (cases p)
  have R: "real x = map_option (sim_id n) (sim_resolve ids overlay x)" for x
    using Cons.prems by (simp add: simulates_def)
  show ?case
  proof (cases "sim_resolve ids overlay k")
    case None
    then show ?thesis by (simp add: p alias_step_def R)
  next
    case (Some t)
    note k = this
    show ?thesis
    proof (cases "sim_resolve ids overlay a")
      case None
      have "simulates n ids (overlay(a \<mapsto> t)) (real(a \<mapsto> sim_id n t))"
        by (rule simulates_upd [OF Cons.prems]) (use Cons.prems k in \<open>auto simp: simulates_def\<close>)
      moreover have "alias_step real a k = Inr (real(a \<mapsto> sim_id n t))"
        using R [of a] R [of k] None k by (simp add: alias_step_def)
      ultimately show ?thesis using None k Cons.IH by (simp add: p)
    next
      case (Some e)
      have "alias_step real a k = (if e = t then Inr real else Inl Conflict)"
        using R [of a] R [of k] Some k simulates_eq [OF Cons.prems Some k] by (simp add: alias_step_def)
      with Some k Cons show ?thesis by (simp add: p)
    qed
  qed
qed simp

section \<open>On the knowledge base\<close>

text \<open>A side whose names and ids are one part of the knowledge base.\<close>

locale named_side = alias_side +
  fixes nm :: "ctx \<Rightarrow> nat \<Rightarrow> rstr"
    and kb_get :: "kb \<Rightarrow> (rstr \<rightharpoonup> rstr)"
    and kb_put :: "(rstr \<rightharpoonup> rstr) \<Rightarrow> kb \<Rightarrow> kb"
  assumes kb_put_ns: "ctx_inv U c \<Longrightarrow> ctx_inv U (put c (arena c @ x) ns sl) \<Longrightarrow>
      kb_of (put c (arena c @ x) ns sl) = kb_put (\<lambda>y. map_option (nm c) (ns_ids ns y)) (kb_of c)"
    and kb_get_ns: "kb_get (kb_of c) = (\<lambda>y. map_option (nm c) (ns_ids (get c) y))"
    and nm_inj: "ctx_inv U c \<Longrightarrow> ns_ids (get c) x = Some i \<Longrightarrow> ns_ids (get c) y = Some j \<Longrightarrow> nm c i = nm c j \<longleftrightarrow> i = j"
begin

lemma register:
  assumes inv: "ctx_inv U c" and v: "utf8_valid alias"
  shows "\<exists>r. map_option (map_sum id (\<lambda>(ar, ns). put c ar ns (arena_slack c))) (add_alias U (arena c) (get c) alias canonical msg) = Some r \<and>
     (case r of
        Inr c' \<Rightarrow> ctx_inv U c' \<and> (\<exists>n. kb_get (kb_of c) canonical = Some n \<and> (kb_get (kb_of c) alias = None \<or> kb_get (kb_of c) alias = Some n) \<and>
            kb_of c' = kb_put ((kb_get (kb_of c))(alias \<mapsto> n)) (kb_of c))
      | Inl UnknownCanonical \<Rightarrow> kb_get (kb_of c) canonical = None
      | Inl Conflict \<Rightarrow> kb_get (kb_of c) alias \<noteq> None \<and> kb_get (kb_of c) alias \<noteq> kb_get (kb_of c) canonical
      | Inl (Full f) \<Rightarrow> kb_get (kb_of c) alias = None \<and>
            (length (ns_aliases (get c)) = NIL \<or> u32_max < length (arena c) + length alias))"
proof -
  obtain r where r: "add_alias U (arena c) (get c) alias canonical msg = Some r"
    and spec: "case r of
        Inr (ar, ns) \<Rightarrow> alias_step (ns_ids (get c)) alias canonical = Inr (ns_ids ns) \<and>
           (\<exists>x. ar = arena c @ x) \<and> ctx_inv U (put c ar ns (arena_slack c))
      | Inl (Full f) \<Rightarrow> ns_ids (get c) alias = None \<and>
           (length (ns_aliases (get c)) = NIL \<or> u32_max < length (arena c) + length alias)
      | Inl err \<Rightarrow> alias_step (ns_ids (get c)) alias canonical = Inl err"
    using add_alias_spec [OF assms] by blast
  show ?thesis
  proof (cases r)
    case (Inl err)
    with r spec nm_inj [OF inv] show ?thesis
      by (cases err) (auto simp: kb_get_ns alias_step_def split: option.splits if_splits)
  next
    case (Inr p)
    obtain ar ns where p: "p = (ar, ns)" by (cases p)
    obtain x where ar: "ar = arena c @ x" and inv': "ctx_inv U (put c (arena c @ x) ns (arena_slack c))"
      and st: "alias_step (ns_ids (get c)) alias canonical = Inr (ns_ids ns)" using spec Inr p by auto
    obtain t where t: "ns_ids (get c) canonical = Some t" "ns_ids ns = (ns_ids (get c))(alias \<mapsto> t)"
      "ns_ids (get c) alias = None \<or> ns_ids (get c) alias = Some t"
      using st by (auto simp: alias_step_def fun_eq_iff split: option.splits if_splits)
    have "(\<lambda>y. map_option (nm c) (ns_ids ns y)) = (kb_get (kb_of c))(alias \<mapsto> nm c t)" unfolding t(2) kb_get_ns by auto
    then have "kb_of (put c (arena c @ x) ns (arena_slack c)) = kb_put ((kb_get (kb_of c))(alias \<mapsto> nm c t)) (kb_of c)"
      using kb_put_ns [OF inv inv'] by simp
    with r Inr p ar inv' t(1,3) show ?thesis by (auto simp: kb_get_ns)
  qed
qed

lemma position_total:
  assumes inv: "ctx_inv U c"
  shows "\<exists>r. alias_position c alias (ns_aliases (get c)) 0 = Some r \<and>
     (r = None \<longrightarrow> (\<forall>a \<in> set (ns_aliases (get c)). name_at (arena c) (alias_range a) \<noteq> alias))"
proof -
  have "\<forall>a \<in> set (ns_aliases (get c)). range_ok (arena c) (alias_range a)" using side [OF inv] by (simp add: side_ok_def ns_ok_def)
  from alias_position_spec [OF this, of "alias" 0] obtain r where r: "alias_position c alias (ns_aliases (get c)) 0 = Some r"
    "case r of None \<Rightarrow> \<forall>a \<in> set (ns_aliases (get c)). name_at (arena c) (alias_range a) \<noteq> alias
      | Some p \<Rightarrow> 0 \<le> p \<and> p < 0 + length (ns_aliases (get c)) \<and> name_at (arena c) (alias_range (ns_aliases (get c) ! (p - 0))) = alias" by blast
  show ?thesis by (rule exI [of _ r]) (use r in \<open>cases r; simp\<close>)
qed

lemma unregister:
  assumes inv: "ctx_inv U c" and pos: "alias_position c alias (ns_aliases (get c)) 0 = Some (Some p)" and c1: "arena c1 = arena c"
    and a: "a = ns_aliases (get c) ! p"
  shows "\<exists>ix c'. push_all U c1 (rebuild_entries (ranges c) (remove_at p (ns_aliases (get c)))) ei_default = Some ix \<and>
     c' = put c (arena c @ []) \<lparr>ns_aliases = remove_at p (ns_aliases (get c)), ns_index = ix, ns_ids = (ns_ids (get c))(alias := None),
        ns_alias_index = bt_remove alias (ns_alias_index (get c))\<rparr> (arena_slack c + al_name_len a) \<and>
     ctx_inv U c' \<and> kb_of c' = kb_put ((kb_get (kb_of c))(alias := None)) (kb_of c) \<and>
     ns_ids (get c) alias = Some (al_target a) \<and> kb_get (kb_of c) alias = Some (nm c (al_target a))"
proof -
  have ns: "ns_ok (arena c) (ranges c) (ns_aliases (get c)) (ns_ids (get c))" using side [OF inv] by (simp add: side_ok_def)
  have p: "p < length (ns_aliases (get c))" and name: "name_at (arena c) (alias_range a) = alias"
    using alias_position_spec [of "ns_aliases (get c)" c "alias" 0] ns pos a by (auto simp: ns_ok_def)
  obtain us vs where uv: "ns_aliases (get c) = us @ a # vs" "remove_at p (ns_aliases (get c)) = us @ vs"
    using remove_at_split [OF p] a by blast
  obtain ix where ix: "push_all U c1 (rebuild_entries (ranges c) (us @ vs)) ei_default = Some ix"
    and inv': "ctx_inv U (put c (arena c @ []) \<lparr>ns_aliases = us @ vs, ns_index = ix, ns_ids = (ns_ids (get c))(alias := None),
        ns_alias_index = bt_remove alias (ns_alias_index (get c))\<rparr> (arena_slack c + al_name_len a))"
    using remove_alias_spec [OF inv uv(1) name c1] by blast
  have "(alias, al_target a) \<in> set (spellings (arena c) (ranges c) (ns_aliases (get c)))"
    unfolding set_spellings using name nth_mem [OF p] a by blast
  then have t: "ns_ids (get c) alias = Some (al_target a)" using ns_ok_iff [OF ns] by blast
  have "(\<lambda>y. map_option (nm c) (((ns_ids (get c))(alias := None)) y)) = (kb_get (kb_of c))(alias := None)" unfolding kb_get_ns by auto
  then show ?thesis using ix inv' kb_put_ns [OF inv inv'] t uv(2) by (simp add: kb_get_ns)
qed

end

interpretation concept_names: named_side U concept_ns put_concept_ns concept_ranges cname kb_concepts "\<lambda>m k. k\<lparr>kb_concepts := m\<rparr>" for U
proof unfold_locales
  show "kb_concepts (kb_of c) = (\<lambda>y. map_option (cname c) (ns_ids (concept_ns c) y))" for c by (simp add: kb_of_def concept_ns_def)
  show "cname c i = cname c j \<longleftrightarrow> i = j" if "ctx_inv U c" "ns_ids (concept_ns c) x = Some i" "ns_ids (concept_ns c) y = Some j" for c x y i j
    using name_ids(1) [OF ctx_invD(1) [OF that(1)]] ids_bound(1) [OF that(1)] that by (simp add: concept_ns_def) (metis option.inject)
qed (rule kb_put_concept)

interpretation label_names: named_side U label_ns put_label_ns label_ranges lname kb_labels "\<lambda>m k. k\<lparr>kb_labels := m\<rparr>" for U
proof unfold_locales
  show "kb_labels (kb_of c) = (\<lambda>y. map_option (lname c) (ns_ids (label_ns c) y))" for c by (simp add: kb_of_def label_ns_def)
  show "lname c i = lname c j \<longleftrightarrow> i = j" if "ctx_inv U c" "ns_ids (label_ns c) x = Some i" "ns_ids (label_ns c) y = Some j" for c x y i j
    using name_ids(2) [OF ctx_invD(1) [OF that(1)]] ids_bound(2) [OF that(1)] that by (simp add: label_ns_def) (metis option.inject)
qed (rule kb_put_label)

lemma remove_concept_alias_spec:
  assumes inv: "ctx_inv U c"
  shows "(\<forall>a \<in> set (concept_aliases c). name_at (arena c) (alias_range a) \<noteq> alias) \<and>
       remove_concept_alias U c alias = Some None \<or>
     (\<exists>n c'. remove_concept_alias U c alias = Some (Some (n, c')) \<and> kb_concepts (kb_of c) alias = Some n \<and>
       ctx_inv U c' \<and> kb_of c' = (kb_of c)\<lparr>kb_concepts := (kb_concepts (kb_of c))(alias := None)\<rparr>)"
proof -
  have als: "ns_aliases (concept_ns c) = concept_aliases c" "ns_ids (concept_ns c) = concept_ids c" "ns_alias_index (concept_ns c) = concept_alias_index c"
    by (simp_all add: concept_ns_def)
  obtain r where r: "alias_position c alias (concept_aliases c) 0 = Some r"
    "r = None \<longrightarrow> (\<forall>a \<in> set (concept_aliases c). name_at (arena c) (alias_range a) \<noteq> alias)"
    using concept_names.position_total [OF inv, of "alias", unfolded als] by blast
  show ?thesis
  proof (cases r)
    case (Some p)
    let ?a = "concept_aliases c ! p"
    define c1 where "c1 = c\<lparr>concept_aliases := remove_at p (concept_aliases c), arena_slack := arena_slack c + al_name_len ?a,
        concept_ids := (concept_ids c)(alias := None), concept_alias_index := bt_remove alias (concept_alias_index c)\<rparr>"
    obtain ix c' where ix: "push_all U c1 (rebuild_entries (concept_ranges c) (remove_at p (concept_aliases c))) ei_default = Some ix"
      and c': "c' = put_concept_ns c (arena c @ []) \<lparr>ns_aliases = remove_at p (concept_aliases c), ns_index = ix,
          ns_ids = (concept_ids c)(alias := None), ns_alias_index = bt_remove alias (concept_alias_index c)\<rparr> (arena_slack c + al_name_len ?a)"
      and R: "ctx_inv U c'" "kb_of c' = (kb_of c)\<lparr>kb_concepts := (kb_concepts (kb_of c))(alias := None)\<rparr>"
        "concept_ids c alias = Some (al_target ?a)" "kb_concepts (kb_of c) alias = Some (cname c (al_target ?a))"
      using concept_names.unregister [OF inv, unfolded als, OF r(1) [unfolded Some] _ refl, of c1] unfolding c1_def by fastforce
    have "rebuild_concept_index U c1 = Some c'"
      using ix by (simp add: rebuild_concept_index_def put_concept_ns_def c' c1_def)
    moreover have "concept_name c' (al_target ?a) = Some (cname c (al_target ?a))"
      using name_reads(1) [OF ctx_invD(1) [OF R(1)], of "al_target ?a"] ids_bound(1) [OF inv R(3)]
      by (simp add: put_concept_ns_def c') (simp add: cname_def)
    ultimately show ?thesis using r(1) Some R by (simp add: remove_concept_alias_def Let_def c1_def)
  qed (use r in \<open>simp add: remove_concept_alias_def\<close>)
qed

lemma remove_label_alias_spec:
  assumes inv: "ctx_inv U c"
  shows "(\<forall>a \<in> set (label_aliases c). name_at (arena c) (alias_range a) \<noteq> alias) \<and>
       remove_label_alias U c alias = Some None \<or>
     (\<exists>n c'. remove_label_alias U c alias = Some (Some (n, c')) \<and> kb_labels (kb_of c) alias = Some n \<and>
       ctx_inv U c' \<and> kb_of c' = (kb_of c)\<lparr>kb_labels := (kb_labels (kb_of c))(alias := None)\<rparr>)"
proof -
  have als: "ns_aliases (label_ns c) = label_aliases c" "ns_ids (label_ns c) = label_ids c" "ns_alias_index (label_ns c) = label_alias_index c"
    by (simp_all add: label_ns_def)
  obtain r where r: "alias_position c alias (label_aliases c) 0 = Some r"
    "r = None \<longrightarrow> (\<forall>a \<in> set (label_aliases c). name_at (arena c) (alias_range a) \<noteq> alias)"
    using label_names.position_total [OF inv, of "alias", unfolded als] by blast
  show ?thesis
  proof (cases r)
    case (Some p)
    let ?a = "label_aliases c ! p"
    define c1 where "c1 = c\<lparr>label_aliases := remove_at p (label_aliases c), arena_slack := arena_slack c + al_name_len ?a,
        label_ids := (label_ids c)(alias := None), label_alias_index := bt_remove alias (label_alias_index c)\<rparr>"
    obtain ix c' where ix: "push_all U c1 (rebuild_entries (label_ranges c) (remove_at p (label_aliases c))) ei_default = Some ix"
      and c': "c' = put_label_ns c (arena c @ []) \<lparr>ns_aliases = remove_at p (label_aliases c), ns_index = ix,
          ns_ids = (label_ids c)(alias := None), ns_alias_index = bt_remove alias (label_alias_index c)\<rparr> (arena_slack c + al_name_len ?a)"
      and R: "ctx_inv U c'" "kb_of c' = (kb_of c)\<lparr>kb_labels := (kb_labels (kb_of c))(alias := None)\<rparr>"
        "label_ids c alias = Some (al_target ?a)" "kb_labels (kb_of c) alias = Some (lname c (al_target ?a))"
      using label_names.unregister [OF inv, unfolded als, OF r(1) [unfolded Some] _ refl, of c1] unfolding c1_def by fastforce
    have "rebuild_label_index U c1 = Some c'"
      using ix by (simp add: rebuild_label_index_def put_label_ns_def c' c1_def)
    moreover have "label_name c' (al_target ?a) = Some (lname c (al_target ?a))"
      using name_reads(2) [OF ctx_invD(1) [OF R(1)], of "al_target ?a"] ids_bound(2) [OF inv R(3)]
      by (simp add: put_label_ns_def c') (simp add: lname_def)
    ultimately show ?thesis using r(1) Some R by (simp add: remove_label_alias_def Let_def c1_def)
  qed (use r in \<open>simp add: remove_label_alias_def\<close>)
qed

text \<open>The outcome of a registration, branch by branch.\<close>

lemma add_concept_alias_cases:
  assumes inv: "ctx_inv U c" and v: "utf8_valid alias"
  shows "case kb_concepts (kb_of c) canonical of
      None \<Rightarrow> add_concept_alias U c alias canonical = Some (Inl UnknownCanonical)
    | Some n \<Rightarrow>
        (case kb_concepts (kb_of c) alias of
           Some m \<Rightarrow> add_concept_alias U c alias canonical = Some (if m = n then Inr c else Inl Conflict)
         | None \<Rightarrow>
             if length (concept_aliases c) = NIL
             then add_concept_alias U c alias canonical = Some (Inl (Full (ContextFull ''the concept alias table is out of u32 ids'')))
             else if u32_max < length (arena c) + length alias
             then add_concept_alias U c alias canonical = Some (Inl (Full (ContextFull ''the string arena is out of offset space'')))
             else \<exists>c'. add_concept_alias U c alias canonical = Some (Inr c') \<and> ctx_inv U c' \<and>
               kb_of c' = (kb_of c)\<lparr>kb_concepts := (kb_concepts (kb_of c))(alias \<mapsto> n)\<rparr>)"
proof -
  have k: "kb_concepts (kb_of c) x = map_option (cname c) (concept_ids c x)" for x by (simp add: kb_of_def)
  have B: "length (concept_aliases c) \<le> NIL" using concept_side.table_bound [OF inv] by (simp add: concept_ns_def)
  have put: "put_concept_ns c (arena c) (concept_ns c) (arena_slack c) = c" by (simp add: put_concept_ns_def concept_ns_def)
  show ?thesis
  proof (cases "concept_ids c canonical")
    case None
    then show ?thesis by (simp add: k add_concept_alias_def add_alias_def concept_ns_def)
  next
    case (Some t)
    note canonical = this
    show ?thesis
    proof (cases "concept_ids c alias")
      case (Some i)
      have "cname c i = cname c t \<longleftrightarrow> i = t" using concept_names.nm_inj [OF inv, of "alias" i canonical t] Some canonical by (simp add: concept_ns_def)
      then show ?thesis using Some canonical put by (simp add: k add_concept_alias_def add_alias_def concept_ns_def)
    next
      case None
      note fresh = this
      show ?thesis
      proof (cases "length (concept_aliases c) = NIL \<or> u32_max < length (arena c) + length alias")
        case True
        then show ?thesis using None canonical B by (auto simp: k add_concept_alias_def add_alias_def concept_ns_def ids_left_def arena_fits_iff)
      next
        case False
        have nf: "add_concept_alias U c alias canonical \<noteq> Some (Inl x)" for x
          using False None canonical B by (auto simp: add_concept_alias_def add_alias_def concept_ns_def ids_left_def arena_fits_iff bind_eq_Some_conv)
        obtain r where r: "add_concept_alias U c alias canonical = Some r" "case r of
            Inr c' \<Rightarrow> ctx_inv U c' \<and> (\<exists>n. kb_concepts (kb_of c) canonical = Some n \<and> (kb_concepts (kb_of c) alias = None \<or> kb_concepts (kb_of c) alias = Some n) \<and>
              kb_of c' = (kb_of c)\<lparr>kb_concepts := (kb_concepts (kb_of c))(alias \<mapsto> n)\<rparr>)
          | Inl UnknownCanonical \<Rightarrow> kb_concepts (kb_of c) canonical = None
          | Inl Conflict \<Rightarrow> kb_concepts (kb_of c) alias \<noteq> None \<and> kb_concepts (kb_of c) alias \<noteq> kb_concepts (kb_of c) canonical
          | Inl (Full f) \<Rightarrow> kb_concepts (kb_of c) alias = None \<and> (length (ns_aliases (concept_ns c)) = NIL \<or> u32_max < length (arena c) + length alias)"
          using concept_names.register [OF inv v, of canonical "''the concept alias table is out of u32 ids''"] unfolding add_concept_alias_def by blast
        obtain c' where "r = Inr c'" using r(1) nf by (cases r) auto
        then show ?thesis using r None canonical False by (simp add: k)
      qed
    qed
  qed
qed

section \<open>Prediction\<close>

text \<open>What a batch does for real: its names are interned, then its aliases are registered up to the first rejection.\<close>

fun intern_concepts :: "unicode \<Rightarrow> ctx \<Rightarrow> rstr list \<Rightarrow> ctx option" where
  "intern_concepts U c [] = Some c"
| "intern_concepts U c (name # rest) = do { (_, c') \<leftarrow> intern_concept U c name; intern_concepts U c' rest }"

fun add_concept_aliases :: "unicode \<Rightarrow> ctx \<Rightarrow> (rstr \<times> rstr) list \<Rightarrow> ((rstr \<times> rstr \<times> alias_error) + ctx) option" where
  "add_concept_aliases U c [] = Some (Inr c)"
| "add_concept_aliases U c ((alias, canonical) # rest) = do {
     r \<leftarrow> add_concept_alias U c alias canonical;
     case r of Inl err \<Rightarrow> Some (Inl (alias, canonical, err)) | Inr c' \<Rightarrow> add_concept_aliases U c' rest }"

lemma intern_concepts_ids:
  "ctx_inv U c \<Longrightarrow> list_all utf8_valid names \<Longrightarrow> intern_concepts U c names = Some c' \<Longrightarrow>
   ctx_inv U c' \<and> concept_ids c' = intern_fresh (concept_ids c) (length (concepts c)) names"
proof (induction names arbitrary: c)
  case (Cons name names)
  obtain i c1 where c1: "intern_concept U c name = Some (i, c1)" "intern_concepts U c1 names = Some c'"
    using Cons.prems(3) by (auto simp: bind_eq_Some_conv)
  have room: "length (concepts c) < NIL \<and> length (arena c) + length name \<le> u32_max" if "concept_ids c name = None"
    using c1(1) that by (auto simp: intern_concept_def claim_id_def intern_name_def checked_add_usize_def NIL_eq u32_max_def bind_eq_Some_conv split: if_splits)
  have v: "utf8_valid name" "list_all utf8_valid names" using Cons.prems(2) by simp_all
  from concept_interner.intern_spec [OF Cons.prems(1) v(1) room] c1(1)
  have s: "ctx_inv U c1" "concept_ids c1 = (concept_ids c)(name \<mapsto> i)" "length (concepts c1) = length (concepts c) + (if concept_ids c name = None then 1 else 0)" by auto
  have "concept_ids c name = None \<Longrightarrow> i = length (concepts c)" "concept_ids c name = Some k \<Longrightarrow> i = k" for k
    using c1(1) by (auto simp: intern_concept_def claim_id_def bind_eq_Some_conv split: if_splits)
  then show ?case using Cons.IH [OF s(1) v(2) c1(2)] s(2,3) by (cases "concept_ids c name") (auto simp: fun_upd_idem simp del: fun_upd_apply)
qed simp

text \<open>Registering for real follows the steps on the name table, but for a full table or arena.\<close>

definition registers_as :: "(rstr \<rightharpoonup> nat) \<Rightarrow> (rstr \<times> rstr) list \<Rightarrow> (rstr \<times> rstr \<times> alias_error) + ctx \<Rightarrow> bool" where
  "registers_as ids als r \<longleftrightarrow> (case r of
       Inr c' \<Rightarrow> apply_aliases ids als = Inr (concept_ids c')
     | Inl (a, k, Full f) \<Rightarrow> (\<exists>before after ids'. als = before @ (a, k) # after \<and> apply_aliases ids before = Inr ids')
     | Inl e \<Rightarrow> apply_aliases ids als = Inl e)"

lemma add_concept_aliases_steps:
  "ctx_inv U c \<Longrightarrow> list_all (\<lambda>p. utf8_valid (fst p)) als \<Longrightarrow> \<exists>r. add_concept_aliases U c als = Some r \<and> registers_as (concept_ids c) als r"
proof (induction als arbitrary: c)
  case (Cons p als)
  obtain a k where p: "p = (a, k)" by (cases p)
  have v: "utf8_valid a" "list_all (\<lambda>p. utf8_valid (fst p)) als" using Cons.prems(2) p by simp_all
  have ns: "ns_ids (concept_ns c) = concept_ids c" "ns_aliases (concept_ns c) = concept_aliases c" by (simp_all add: concept_ns_def)
  obtain r where r: "add_alias U (arena c) (concept_ns c) a k ''the concept alias table is out of u32 ids'' = Some r" "case r of
        Inr (ar, ns) \<Rightarrow> alias_step (concept_ids c) a k = Inr (ns_ids ns) \<and> (\<exists>x. ar = arena c @ x) \<and> ctx_inv U (put_concept_ns c ar ns (arena_slack c))
      | Inl (Full f) \<Rightarrow> concept_ids c a = None \<and> (length (concept_aliases c) = NIL \<or> u32_max < length (arena c) + length a)
      | Inl err \<Rightarrow> alias_step (concept_ids c) a k = Inl err"
    using concept_side.add_alias_spec [OF Cons.prems(1) v(1), of k "''the concept alias table is out of u32 ids''"] unfolding ns by blast
  show ?case
  proof (cases r)
    case (Inl err)
    then have run: "add_concept_aliases U c (p # als) = Some (Inl (a, k, err))" using r(1) by (simp add: p add_concept_alias_def)
    have "registers_as (concept_ids c) (p # als) (Inl (a, k, err))"
      using r(2) Inl by (cases err) (auto simp: registers_as_def p intro: exI [of _ "[]"])
    then show ?thesis using run by blast
  next
    case (Inr q)
    obtain ar ns where q: "q = (ar, ns)" by (cases q)
    let ?c = "put_concept_ns c ar ns (arena_slack c)"
    have i: "ctx_inv U ?c" "alias_step (concept_ids c) a k = Inr (concept_ids ?c)" using r(2) Inr q by (auto simp: put_concept_ns_def)
    have run: "add_concept_aliases U c (p # als) = add_concept_aliases U ?c als" using r(1) Inr by (simp add: p q add_concept_alias_def)
    obtain s where s: "add_concept_aliases U ?c als = Some s" "registers_as (concept_ids ?c) als s" using Cons.IH [OF i(1) v(2)] by blast
    have cons: "apply_aliases (concept_ids c) (p # xs) = apply_aliases (concept_ids ?c) xs" for xs using i(2) by (simp add: p)
    have "registers_as (concept_ids c) (p # als) s"
    proof (cases "\<exists>x y f. s = Inl (x, y, Full f)")
      case True
      then obtain x y f before after ids' where f: "s = Inl (x, y, Full f)" "als = before @ (x, y) # after" "apply_aliases (concept_ids ?c) before = Inr ids'"
        using s(2) by (auto simp: registers_as_def)
      then have "p # als = (p # before) @ (x, y) # after" "apply_aliases (concept_ids c) (p # before) = Inr ids'" using cons by simp_all
      then have "\<exists>before after ids'. p # als = before @ (x, y) # after \<and> apply_aliases (concept_ids c) before = Inr ids'" by blast
      then show ?thesis unfolding registers_as_def f(1) by simp
    next
      case False
      then show ?thesis using s(2) cons [of als] by (auto simp: registers_as_def split: sum.splits alias_error.splits)
    qed
    then show ?thesis using run s(1) by auto
  qed
qed (simp add: registers_as_def)

lemma check_concept_aliases_steps:
  assumes "ctx_inv U c"
  shows "check_concept_aliases c als fresh =
     map_sum id (\<lambda>_. ()) (apply_aliases (intern_fresh (concept_ids c) (length (concepts c)) fresh) als)"
proof -
  have b: "\<forall>x i. concept_ids c x = Some i \<longrightarrow> i < length (concepts c)" using ids_bound(1) [OF assms] by blast
  have "simulates (length (concepts c)) (concept_ids c) Map.empty (concept_ids c)"
    using b by (auto simp: simulates_def sim_resolve_def sim_id_def option.map_comp comp_def option.map_ident)
  then have "simulates (length (concepts c)) (concept_ids c) (sim_fresh (concept_ids c) fresh Map.empty 0)
      (intern_fresh (concept_ids c) (length (concepts c) + 0) fresh)"
    by (rule sim_fresh_simulates [OF b]) simp
  from sim_aliases_simulates [OF this, of als] show ?thesis
    by (simp add: check_concept_aliases_def check_aliases_def)
qed

section \<open>Properties\<close>

text \<open>
  C18. Alias registration, branch by branch: on a well-formed context it returns, and what it returns is
  settled by the name table and the room left, in this order. An unresolvable canonical is reported as
  unknown; a spelling that resolves already is accepted with nothing changed when it names the same record, and
  is a conflict otherwise; for a free spelling a full alias table and then a full arena are reported as such; and
  only then is the spelling added: the whole invariant is kept (arena, entry index, alias page), it
  resolves to the canonical name, and nothing else of the knowledge base changes.
\<close>

theorem add_concept_alias_refines:
  assumes "ctx_inv U c" "utf8_valid alias"
  shows "case kb_concepts (kb_of c) canonical of
      None \<Rightarrow> add_concept_alias U c alias canonical = Some (Inl UnknownCanonical)
    | Some n \<Rightarrow>
        (case kb_concepts (kb_of c) alias of
           Some m \<Rightarrow> add_concept_alias U c alias canonical = Some (if m = n then Inr c else Inl Conflict)
         | None \<Rightarrow>
             if length (concept_aliases c) = NIL
             then add_concept_alias U c alias canonical = Some (Inl (Full (ContextFull ''the concept alias table is out of u32 ids'')))
             else if u32_max < length (arena c) + length alias
             then add_concept_alias U c alias canonical = Some (Inl (Full (ContextFull ''the string arena is out of offset space'')))
             else \<exists>c'. add_concept_alias U c alias canonical = Some (Inr c') \<and> ctx_inv U c' \<and>
               kb_of c' = (kb_of c)\<lparr>kb_concepts := (kb_concepts (kb_of c))(alias \<mapsto> n)\<rparr>)"
  using assms by (rule add_concept_alias_cases)

theorem add_concept_alias_refines_witness:
  "\<exists>c'. add_concept_alias unicode_id demo_ctx (bytes ''cha'') (bytes ''tea'') = Some (Inr c') \<and> ctx_inv unicode_id c' \<and>
     kb_of c' = (kb_of demo_ctx)\<lparr>kb_concepts := (kb_concepts (kb_of demo_ctx))(bytes ''cha'' \<mapsto> bytes ''tea'')\<rparr>"
proof -
  have "kb_concepts (kb_of demo_ctx) (bytes ''tea'') = Some (bytes ''tea'')" "kb_concepts (kb_of demo_ctx) (bytes ''cha'') = None"
    unfolding demo_ctx(2) kb_default by (simp_all add: kb_assert_def canon_def Let_def bytes_def)
  then show ?thesis using add_concept_alias_refines [OF demo_ctx(1), of "bytes ''cha''" "bytes ''tea''"] demo_tables(1,2)
    by (simp add: bytes_def utf8_valid_ascii NIL_eq u32_max_def)
qed

text \<open>
  C19. Alias prediction: once the batch's own new names are interned, registering its aliases for real, in
  order and up to the first rejection, does what the read-only check foretold on the context before: it
  succeeds when the check passed, and it rejects the pair the check named, with the error the check gave. Only
  a full alias table or arena, which the check does not look at, stops a batch earlier; even then the check
  passes the pairs before.
\<close>

theorem check_concept_aliases_predicts:
  assumes inv: "ctx_inv U c" and v: "list_all utf8_valid fresh" "list_all (\<lambda>p. utf8_valid (fst p)) als" and c1: "intern_concepts U c fresh = Some c1"
  shows "\<exists>r. add_concept_aliases U c1 als = Some r \<and>
    (case r of
       Inr c' \<Rightarrow> check_concept_aliases c als fresh = Inr ()
     | Inl (alias, canonical, Full f) \<Rightarrow> (\<exists>before after. als = before @ (alias, canonical) # after \<and> check_concept_aliases c before fresh = Inr ())
     | Inl e \<Rightarrow> check_concept_aliases c als fresh = Inl e)"
proof -
  note i = intern_concepts_ids [OF inv v(1) c1]
  obtain r where r: "add_concept_aliases U c1 als = Some r" "registers_as (concept_ids c1) als r"
    using add_concept_aliases_steps [OF _ v(2)] i by blast
  have chk: "check_concept_aliases c xs fresh = map_sum id (\<lambda>_. ()) (apply_aliases (concept_ids c1) xs)" for xs
    using check_concept_aliases_steps [OF inv] i by simp
  show ?thesis using r unfolding registers_as_def chk by (intro exI [of _ r]) (auto split: sum.splits alias_error.splits, force?)
qed

theorem check_concept_aliases_predicts_witness:
  "\<exists>r. add_concept_aliases unicode_id demo_ctx [(bytes ''cha'', bytes ''tea'')] = Some r \<and>
    (case r of
       Inr c' \<Rightarrow> check_concept_aliases demo_ctx [(bytes ''cha'', bytes ''tea'')] [] = Inr ()
     | Inl (alias, canonical, Full f) \<Rightarrow> (\<exists>before after. [(bytes ''cha'', bytes ''tea'')] = before @ (alias, canonical) # after \<and>
         check_concept_aliases demo_ctx before [] = Inr ())
     | Inl e \<Rightarrow> check_concept_aliases demo_ctx [(bytes ''cha'', bytes ''tea'')] [] = Inl e)"
  by (rule check_concept_aliases_predicts [OF demo_ctx(1)]) (simp_all add: bytes_def utf8_valid_ascii)

text \<open>
  C20. Alias removal: on a well-formed context it returns; a spelling that is no alias (a canonical name
  in particular) is refused and nothing changes; otherwise the spelling stops resolving, the
  canonical name it pointed at is returned, every other spelling and every fact is kept, and the
  rebuilt entry index again holds exactly the remaining spellings.
\<close>

theorem remove_concept_alias_refines:
  assumes inv: "ctx_inv U c"
  shows "(\<forall>a \<in> set (concept_aliases c). name_at (arena c) (alias_range a) \<noteq> alias) \<and>
       remove_concept_alias U c alias = Some None \<or>
     (\<exists>n c'. remove_concept_alias U c alias = Some (Some (n, c')) \<and> kb_concepts (kb_of c) alias = Some n \<and>
       ctx_inv U c' \<and> kb_of c' = (kb_of c)\<lparr>kb_concepts := (kb_concepts (kb_of c))(alias := None)\<rparr>)"
  using inv by (rule remove_concept_alias_spec)

theorem remove_concept_alias_refines_witness:
  "(\<forall>a \<in> set (concept_aliases demo_ctx). name_at (arena demo_ctx) (alias_range a) \<noteq> bytes ''tea'') \<and>
       remove_concept_alias unicode_id demo_ctx (bytes ''tea'') = Some None \<or>
     (\<exists>n c'. remove_concept_alias unicode_id demo_ctx (bytes ''tea'') = Some (Some (n, c')) \<and>
       kb_concepts (kb_of demo_ctx) (bytes ''tea'') = Some n \<and> ctx_inv unicode_id c' \<and>
       kb_of c' = (kb_of demo_ctx)\<lparr>kb_concepts := (kb_concepts (kb_of demo_ctx))(bytes ''tea'' := None)\<rparr>)"
  by (rule remove_concept_alias_refines [OF demo_ctx(1)])

section \<open>Alias pages\<close>

text \<open>The keyset cursor: what follows the last entry of a page is the rest of the listing.\<close>

lemma bt_after_sorted: "bt_sorted ps \<Longrightarrow> bt_sorted (bt_after after ps)"
  by (cases after) (auto simp: bt_after_def sorted_wrt_map sorted_wrt_filter)

lemma filter_gt_mid:
  assumes "bt_sorted (xs @ [p] @ ys)"
  shows "filter (\<lambda>q. fst p < fst q) (xs @ [p] @ ys) = ys"
  using assms by (auto simp: sorted_wrt_append filter_empty_conv filter_id_conv intro!: filter_True)

lemma bt_after_resume:
  assumes "bt_sorted ps" "xs \<noteq> []" "bt_after after ps = xs @ ys"
  shows "bt_after (Some (fst (last xs))) ps = ys"
proof -
  obtain us p where xs: "xs = us @ [p]" using assms(2) by (metis append_butlast_last_id)
  have "filter (\<lambda>q. fst p < fst q) (bt_after after ps) = ys"
    using filter_gt_mid [of us p ys] bt_after_sorted [OF assms(1), of after] assms(3) xs by simp
  moreover have "filter (\<lambda>q. fst p < fst q) (bt_after after ps) = filter (\<lambda>q. fst p < fst q) ps"
  proof (cases after)
    case (Some k)
    have "p \<in> set (bt_after after ps)" using assms(3) xs by simp
    then have "k < fst p" by (simp add: bt_after_def Some)
    then show ?thesis using Some by (auto simp: bt_after_def intro: filter_cong order.strict_trans)
  qed (simp add: bt_after_def)
  ultimately show ?thesis by (simp add: bt_after_def xs)
qed

definition alias_listing :: "ctx \<Rightarrow> (rstr \<times> rstr) list" where
  "alias_listing c = map (\<lambda>(a, t). (a, cname c t)) (concept_alias_index c)"

lemma alias_listing_set:
  assumes "ctx_inv U c"
  shows "bt_sorted (alias_listing c)"
    and "set (alias_listing c) = {(name_at (arena c) (alias_range a), cname c (al_target a)) | a. a \<in> set (concept_aliases c)}"
proof -
  have p: "page_ok (concept_alias_index c) (alias_spellings (arena c) (concept_aliases c))"
    using ctx_invD(4) [OF assms] by (simp add: paging_inv_def)
  show "bt_sorted (alias_listing c)"
    using p by (simp add: alias_listing_def page_ok_def comp_def split_beta)
  show "set (alias_listing c) = {(name_at (arena c) (alias_range a), cname c (al_target a)) | a. a \<in> set (concept_aliases c)}"
    using p by (force simp: alias_listing_def page_ok_def alias_spellings_def)
qed

lemma concept_alias_page_spec:
  assumes inv: "ctx_inv U c"
  shows "concept_alias_page c after limit = Some (length (alias_listing c), take limit (bt_after after (alias_listing c)))"
proof -
  have p: "set (concept_alias_index c) = set (alias_spellings (arena c) (concept_aliases c))"
    using ctx_invD(4) [OF inv] by (simp add: paging_inv_def page_ok_def)
  have tb: "t < length (concepts c)" if "(a, t) \<in> set (concept_alias_index c)" for a t
    using that p ctx_invD(1) [OF inv] by (auto simp: alias_spellings_def names_inv_def ns_ok_def)
  have sub: "set (bt_after after (concept_alias_index c)) \<subseteq> set (concept_alias_index c)"
    by (cases after) (auto simp: bt_after_def)
  have "mapM (\<lambda>(a, t). do { n \<leftarrow> concept_name c t; Some (a, n) }) (take limit (bt_after after (concept_alias_index c)))
      = Some (map (\<lambda>(a, t). (a, cname c t)) (take limit (bt_after after (concept_alias_index c))))"
  proof (rule mapM_Some)
    fix q assume "q \<in> set (take limit (bt_after after (concept_alias_index c)))"
    then have "q \<in> set (concept_alias_index c)" using sub in_set_takeD by fastforce
    then show "(case q of (a, t) \<Rightarrow> do { n \<leftarrow> concept_name c t; Some (a, n) }) = Some (case q of (a, t) \<Rightarrow> (a, cname c t))"
      using tb [of "fst q" "snd q"] name_reads(1) [OF ctx_invD(1) [OF inv]] by (simp add: split_beta)
  qed
  moreover have "bt_after after (alias_listing c) = map (\<lambda>(a, t). (a, cname c t)) (bt_after after (concept_alias_index c))"
    by (cases after) (auto simp: bt_after_def alias_listing_def filter_map comp_def split_beta)
  ultimately show ?thesis by (simp add: concept_alias_page_def alias_page_def alias_listing_def take_map)
qed

text \<open>
  C21. Alias pages: on a well-formed context the concept-alias page is the next \<open>limit\<close> entries, in
  ascending spelling order, of a listing that holds exactly the registered aliases with the
  canonical names they resolve to, and resuming from the last spelling of a non-empty page
  continues with the entry right after it, so a cursor walk neither skips nor repeats an alias.
\<close>

theorem concept_alias_page_correct:
  assumes "ctx_inv U c" "take limit (bt_after after (alias_listing c)) \<noteq> []"
  shows "set (alias_listing c) = {(name_at (arena c) (alias_range a), cname c (al_target a)) | a. a \<in> set (concept_aliases c)} \<and>
     bt_sorted (alias_listing c) \<and>
     concept_alias_page c after limit = Some (concept_alias_count c, take limit (bt_after after (alias_listing c))) \<and>
     concept_alias_page c (Some (fst (last (take limit (bt_after after (alias_listing c)))))) limit'
       = Some (concept_alias_count c, take limit' (drop limit (bt_after after (alias_listing c))))"
proof -
  have "bt_after (Some (fst (last (take limit (bt_after after (alias_listing c)))))) (alias_listing c)
      = drop limit (bt_after after (alias_listing c))"
    by (rule bt_after_resume [OF alias_listing_set(1) [OF assms(1)] assms(2)]) simp
  moreover have "length (alias_listing c) = concept_alias_count c" by (simp add: alias_listing_def concept_alias_count_def)
  ultimately show ?thesis using concept_alias_page_spec [OF assms(1)] alias_listing_set [OF assms(1)] by simp
qed

lemma demo_alias:
  "\<exists>c. add_concept_alias unicode_id demo_ctx (bytes ''cha'') (bytes ''tea'') = Some (Inr c) \<and>
     ctx_inv unicode_id c \<and> concept_alias_index c = [(bytes ''cha'', 0)]"
proof -
  obtain ix where ix: "ei_push unicode_id (concept_index demo_ctx) (bytes ''cha'') 0 = Some ix"
    using ei_push_Some_iff [of unicode_id "concept_index demo_ctx" "bytes ''cha''" 0] demo_tables(6) by (auto simp: NIL_eq)
  obtain r where r: "add_alias unicode_id (arena demo_ctx) (concept_ns demo_ctx) (bytes ''cha'') (bytes ''tea'')
        ''the concept alias table is out of u32 ids'' = Some r"
    "\<And>ar ns. r = Inr (ar, ns) \<Longrightarrow> ctx_inv unicode_id (put_concept_ns demo_ctx ar ns (arena_slack demo_ctx))"
    using concept_side.add_alias_spec [OF demo_ctx(1), of "bytes ''cha''" "bytes ''tea''"
        "''the concept alias table is out of u32 ids''"] by (force simp: bytes_def utf8_valid_ascii)
  have "concept_ids demo_ctx (bytes ''tea'') = Some 0" "concept_ids demo_ctx (bytes ''cha'') = None"
    unfolding demo_tables(4) by (simp_all add: bytes_def)
  then have "\<exists>ar ns. r = Inr (ar, ns) \<and> ns_alias_index ns = [(bytes ''cha'', 0)]"
    using r(1) ix demo_tables(1-3)
    by (auto simp: add_alias_def concept_ns_def ids_left_def arena_fits_iff NIL_eq u32_max_def bytes_def)
  with r show ?thesis by (auto simp: add_concept_alias_def put_concept_ns_def)
qed

theorem concept_alias_page_correct_witness:
  "\<exists>c. ctx_inv unicode_id c \<and> concept_alias_page c None 1 = Some (1, [(bytes ''cha'', cname c 0)]) \<and>
     concept_alias_page c (Some (bytes ''cha'')) 1 = Some (1, [])"
proof -
  obtain c where c: "ctx_inv unicode_id c" "concept_alias_index c = [(bytes ''cha'', 0)]" using demo_alias by blast
  have l: "alias_listing c = [(bytes ''cha'', cname c 0)]" by (simp add: alias_listing_def c(2))
  have "take 1 (bt_after None (alias_listing c)) \<noteq> []" by (simp add: l bt_after_def)
  from concept_alias_page_correct [OF c(1) this, of 1] c show ?thesis
    by (auto simp: l bt_after_def concept_alias_count_def)
qed

end
