(* ===== verification/Window.thy ===== *)
theory Window
  imports Alias
begin

text \<open>
  The edge lenses of \<^verbatim>\<open>src/context/window.rs\<close>: how a read sees edges. The full lens shows every
  edge as stored; the window lens shows an edge to the degree the window's sources attest it.
  The locale \<open>edge_lens\<close> is the contract the query and traversal lanes rely on, stated over facts,
  and both lenses are interpretations of it.
\<close>

section \<open>Lenses\<close>

record lens =
  ln_alive :: "nat \<Rightarrow> edge_record \<Rightarrow> bool option"
  ln_magnitude :: "nat \<Rightarrow> edge_record \<Rightarrow> f64 option"
  ln_association :: "nat \<Rightarrow> association option"

definition full_lens :: "ctx \<Rightarrow> lens" where
  "full_lens c = \<lparr>ln_alive = (\<lambda>_ _. Some True), ln_magnitude = (\<lambda>_ e. Some (f64_abs (ed_sum e))),
     ln_association = association c\<rparr>"

text \<open>The window: a set of source ids.\<close>

definition source_window :: "ctx \<Rightarrow> rstr list \<Rightarrow> nat set" where
  "source_window c names = set (List.map_filter (source_ids c) names)"

definition attribution_records :: "ctx \<Rightarrow> edge_record \<Rightarrow> (nat \<times> attribution_record) list option" where
  "attribution_records c e = do {
     chain \<leftarrow> attribution_chain c (ed_first_attribution e);
     mapM (\<lambda>a. map_option (Pair a) (nth_opt (attributions c) a)) chain
   }"

definition windowed_totals :: "ctx \<Rightarrow> edge_record \<Rightarrow> nat set \<Rightarrow> (nat \<times> f64) option" where
  "windowed_totals c e window = do {
     records \<leftarrow> attribution_records c e;
     Some (foldl (\<lambda>(n, s) (_, r). if at_source r \<in> window
                     then (u64_add n (at_count r), accumulate_saturating s (at_sum r)) else (n, s))
             (0, f64_zero) records)
   }"

definition windowed_association :: "ctx \<Rightarrow> nat \<Rightarrow> nat set \<Rightarrow> association option" where
  "windowed_association c edge_id window = do {
     e \<leftarrow> nth_opt (edges c) edge_id;
     (cnt, wsum) \<leftarrow> windowed_totals c e window;
     s \<leftarrow> concept_name c (ed_subject e);
     l \<leftarrow> label_name c (ed_label e);
     ob \<leftarrow> concept_name c (ed_object e);
     records \<leftarrow> attribution_records c e;
     ats \<leftarrow> mapM (\<lambda>(a, r). do { n \<leftarrow> source_name c (at_source r);
               Some \<lparr>as_source = n, as_weight = at_sum r, as_count = at_count r, as_paragraph = locator_for c a\<rparr> })
            (filter (\<lambda>(_, r). at_source r \<in> window) records);
     Some \<lparr>an_subject = s, an_label = l, an_object = ob,
           an_weight = (if cnt = 0 then f64_zero else f64_div wsum (f64_of_nat cnt)),
           an_count = cnt, an_attributions = ats\<rparr>
   }"

definition window_lens :: "ctx \<Rightarrow> nat set \<Rightarrow> lens" where
  "window_lens c window = \<lparr>
     ln_alive = (\<lambda>_ e. map_option (\<lambda>t. 0 < fst t) (windowed_totals c e window)),
     ln_magnitude = (\<lambda>_ e. map_option (\<lambda>t. f64_abs (snd t)) (windowed_totals c e window)),
     ln_association = (\<lambda>e. windowed_association c e window)\<rparr>"

section \<open>The contract\<close>

text \<open>The common tail of every lane: keep the live edges of a list and materialise them.\<close>

definition collect_edges :: "ctx \<Rightarrow> lens \<Rightarrow> nat list \<Rightarrow> association list option" where
  "collect_edges c L es = do {
     alive \<leftarrow> mapM (\<lambda>e. do { r \<leftarrow> nth_opt (edges c) e; b \<leftarrow> ln_alive L e r; Some (e, b) }) es;
     mapM (\<lambda>(e, _). ln_association L e) (filter snd alive)
   }"

locale edge_lens =
  fixes U :: unicode
    and lens :: "ctx \<Rightarrow> lens"
    and P :: "ctx \<Rightarrow> fact \<Rightarrow> bool"
    and M :: "ctx \<Rightarrow> fact \<Rightarrow> f64"
    and V :: "ctx \<Rightarrow> fact \<Rightarrow> association"
  assumes alive: "ctx_inv U c \<Longrightarrow> e < length (edges c) \<Longrightarrow>
      ln_alive (lens c) e (edges c ! e) = Some (P c (fact_of c e))"
    and magnitude: "ctx_inv U c \<Longrightarrow> e < length (edges c) \<Longrightarrow>
      ln_magnitude (lens c) e (edges c ! e) = Some (M c (fact_of c e))"
    and assoc: "ctx_inv U c \<Longrightarrow> e < length (edges c) \<Longrightarrow>
      ln_association (lens c) e = Some (V c (fact_of c e))"
begin

lemma collect:
  assumes "ctx_inv U c" "\<forall>e \<in> set es. e < length (edges c)"
  shows "collect_edges c (lens c) es = Some (map (\<lambda>e. V c (fact_of c e)) (filter (\<lambda>e. P c (fact_of c e)) es))"
proof -
  have "mapM (\<lambda>e. do { r \<leftarrow> nth_opt (edges c) e; b \<leftarrow> ln_alive (lens c) e r; Some (e, b) }) es
      = Some (map (\<lambda>e. (e, P c (fact_of c e))) es)"
    by (rule mapM_Some) (use alive [OF assms(1)] assms(2) in auto)
  moreover have "mapM (\<lambda>(e, _). ln_association (lens c) e) (filter snd (map (\<lambda>e. (e, P c (fact_of c e))) es))
      = Some (map (\<lambda>p. V c (fact_of c (fst p))) (filter snd (map (\<lambda>e. (e, P c (fact_of c e))) es)))"
    by (rule mapM_Some) (use assoc [OF assms(1)] assms(2) in auto)
  ultimately show ?thesis by (simp add: collect_edges_def filter_map comp_def)
qed

end

section \<open>The full lens\<close>

interpretation full: edge_lens U full_lens "\<lambda>_ _. True" "\<lambda>_ x. f64_abs (fa_sum x)" "\<lambda>_. assoc_of" for U
  by unfold_locales (auto simp: full_lens_def association_fact fact_of_def fact_with_def)

section \<open>The window lens\<close>

text \<open>A fact as the sources of a window attest it.\<close>

definition fact_within :: "rstr set \<Rightarrow> fact \<Rightarrow> fact" where
  "fact_within S x =
     (let xs = filter (\<lambda>a. as_source a \<in> S) (fa_attrs x)
      in x\<lparr>fa_count := sum_list (map as_count xs),
           fa_sum := foldl accumulate_saturating f64_zero (map as_weight xs), fa_attrs := xs\<rparr>)"

lemma window_names:
  assumes inv: "names_inv c" and k: "k < length (sources c)"
  shows "k \<in> source_window c names \<longleftrightarrow> sname c k \<in> set names"
proof -
  have s: "source_ids c (sname c k) = Some k" by (rule name_ids(3) [OF inv k])
  have u: "n = sname c k" if "source_ids c n = Some k" for n
    using that inv by (auto simp: names_inv_def ns_ok_def set_spellings sname_def)
  have "k \<in> source_window c names \<longleftrightarrow> (\<exists>n \<in> set names. source_ids c n = Some k)"
    unfolding source_window_def by (induction names) (auto simp: map_filter_simps split: option.splits)
  then show ?thesis using s u by blast
qed

lemma attribution_records_eq:
  assumes f: "attr_inv c f" and e: "e < length (edges c)"
  shows "attribution_records c (edges c ! e) = Some (map (\<lambda>a. (a, attributions c ! a)) (f e))"
  unfolding attribution_records_def attr_listed(2) [OF f e]
  using attr_source_bound [OF f e] by (simp) (rule mapM_Some, auto)

lemma window_fold:
  assumes "\<forall>a \<in> set xs. at_source (ats ! a) \<in> W \<longleftrightarrow> Q a" "n + sum_list (map (\<lambda>a. at_count (ats ! a)) xs) < 2 ^ 64"
  shows "foldl (\<lambda>(n, s) (_, r). if at_source r \<in> W
                     then (u64_add n (at_count r), accumulate_saturating s (at_sum r)) else (n, s))
             (n, t) (map (\<lambda>a. (a, ats ! a)) xs)
     = (n + sum_list (map (\<lambda>a. at_count (ats ! a)) (filter Q xs)),
        foldl accumulate_saturating t (map (\<lambda>a. at_sum (ats ! a)) (filter Q xs)))"
  using assms
proof (induction xs arbitrary: n t)
  case (Cons a xs)
  have "u64_add n (at_count (ats ! a)) = n + at_count (ats ! a)" using Cons.prems(2) by (simp add: u64_add_def)
  with Cons show ?case by (simp add: ac_simps)
qed simp

lemma windowed_totals_fact:
  assumes inv: "ctx_inv U c" and e: "e < length (edges c)"
  shows "windowed_totals c (edges c ! e) (source_window c names)
     = Some (fa_count (fact_within (set names) (fact_of c e)), fa_sum (fact_within (set names) (fact_of c e)))"
proof -
  note I = ctx_invD [OF inv]
  obtain f where f: "attr_inv c f" using I(7) by blast
  have ok: "edge_attr_ok (attributions c) (length (sources c)) (edges c ! e) (f e)" using f e by (simp add: attr_defs)
  let ?Q = "\<lambda>a. sname c (at_source (attributions c ! a)) \<in> set names"
  have h: "\<forall>a \<in> set (f e). at_source (attributions c ! a) \<in> source_window c names \<longleftrightarrow> ?Q a"
    using window_names [OF I(1)] attr_source_bound [OF f e] by blast
  have b: "0 + sum_list (map (\<lambda>a. at_count (attributions c ! a)) (f e)) < 2 ^ 64" using ok by (simp add: edge_attr_ok_def)
  have flt: "filter (\<lambda>a. as_source a \<in> set names) (map (att_view c) (f e)) = map (att_view c) (filter ?Q (f e))"
    by (simp add: filter_map comp_def att_view_def)
  have vals: "as_count \<circ> att_view c = (\<lambda>a. at_count (attributions c ! a))" "as_weight \<circ> att_view c = (\<lambda>a. at_sum (attributions c ! a))"
    by (auto simp: att_view_def)
  show ?thesis
    unfolding windowed_totals_def attribution_records_eq [OF f e] fact_of_eq [OF f e] fact_with_def fact_within_def
    by (simp add: window_fold [OF h b] flt vals Let_def)
qed

lemma windowed_association_fact:
  assumes inv: "ctx_inv U c" and e: "e < length (edges c)"
  shows "windowed_association c e (source_window c names) = Some (assoc_of (fact_within (set names) (fact_of c e)))"
proof -
  note I = ctx_invD [OF inv]
  obtain f where f: "attr_inv c f" using I(7) by blast
  have b: "ed_subject (edges c ! e) < length (concepts c)" "ed_object (edges c ! e) < length (concepts c)"
    "ed_label (edges c ! e) < length (labels c)" using edge_bounds [OF I(5) e] by auto
  let ?R = "\<lambda>a. at_source (attributions c ! a) \<in> source_window c names"
  let ?Q = "\<lambda>a. sname c (at_source (attributions c ! a)) \<in> set names"
  have h: "filter ?R (f e) = filter ?Q (f e)"
    using window_names [OF I(1)] attr_source_bound [OF f e] by (auto intro: filter_cong)
  have flt: "filter (\<lambda>(_, r). at_source r \<in> source_window c names) (map (\<lambda>a. (a, attributions c ! a)) (f e))
      = map (\<lambda>a. (a, attributions c ! a)) (filter ?Q (f e))"
    unfolding h [symmetric] by (simp add: filter_map comp_def)
  have recs: "mapM (\<lambda>(a, r). do { n \<leftarrow> source_name c (at_source r);
        Some \<lparr>as_source = n, as_weight = at_sum r, as_count = at_count r, as_paragraph = locator_for c a\<rparr> })
      (map (\<lambda>a. (a, attributions c ! a)) (filter ?Q (f e))) = Some (map (att_view c) (filter ?Q (f e)))"
    unfolding mapM_map
    by (rule mapM_Some) (use attr_source_bound [OF f e] name_reads(3) [OF I(1)] locator_for_map I(8) in
        \<open>auto simp: att_view_def locators_inv_def\<close>)
  moreover have "filter (\<lambda>a. as_source a \<in> set names) (map (att_view c) (f e)) = map (att_view c) (filter ?Q (f e))"
    by (simp add: filter_map comp_def att_view_def)
  moreover define y where "y = fact_within (set names) (fact_of c e)"
  ultimately have "fa_attrs y = map (att_view c) (filter ?Q (f e))" "fa_subject y = cname c (ed_subject (edges c ! e))"
    "fa_label y = lname c (ed_label (edges c ! e))" "fa_object y = cname c (ed_object (edges c ! e))"
    by (simp_all add: fact_within_def fact_of_eq [OF f e] fact_with_def Let_def)
  then show ?thesis
    using e b name_reads [OF I(1)] recs
    by (simp add: windowed_association_def windowed_totals_fact [OF inv e] attribution_records_eq [OF f e] flt
        y_def [symmetric] assoc_of_def fact_weight_def)
qed

interpretation window: edge_lens U "\<lambda>c. window_lens c (source_window c names)"
  "\<lambda>c x. 0 < fa_count (fact_within (set names) x)" "\<lambda>c x. f64_abs (fa_sum (fact_within (set names) x))"
  "\<lambda>c x. assoc_of (fact_within (set names) x)" for U names
  by unfold_locales (auto simp: window_lens_def windowed_totals_fact windowed_association_fact)

end
