(* ===== verification/Query.thy ===== *)
theory Query
  imports Window
begin

text \<open>
  The read lanes of \<^verbatim>\<open>src/context/query.rs\<close>: recall, pinned queries with the narrowest-anchor
  optimisation, the concept outline, and the label listings. Each is shown equal to a plain scan of
  the facts.
\<close>

section \<open>Recall\<close>

definition recall_impl :: "ctx \<Rightarrow> rstr \<Rightarrow> lens \<Rightarrow> association list option" where
  "recall_impl c cue L = do {
     concept_edges \<leftarrow> (case concept_ids c cue of None \<Rightarrow> Some []
        | Some i \<Rightarrow> do { out \<leftarrow> outgoing c i; inc \<leftarrow> incoming c i; Some (out @ inc) });
     label_edges \<leftarrow> (case label_ids c cue of None \<Rightarrow> Some [] | Some i \<Rightarrow> labeled c i);
     collect_edges c L (remdups_adj (sort (concept_edges @ label_edges)))
   }"

definition recall :: "ctx \<Rightarrow> rstr \<Rightarrow> association list option" where
  "recall c cue = recall_impl c cue (full_lens c)"

definition recall_within :: "ctx \<Rightarrow> rstr \<Rightarrow> nat set \<Rightarrow> association list option" where
  "recall_within c cue window = recall_impl c cue (window_lens c window)"

section \<open>Pinned queries\<close>

text \<open>A \<open>HashSet\<close> of ids, in some order: only membership and order-insensitive folds look at it.\<close>

definition resolve_set :: "(rstr \<rightharpoonup> nat) \<Rightarrow> rstr list \<Rightarrow> nat list option" where
  "resolve_set m names = (if names = [] then None else Some (remdups (List.map_filter m names)))"

type_synonym anchor = "nat \<times> nat list \<times> (edge_record \<Rightarrow> nat)"

definition keep_narrowest_anchor :: "anchor option \<Rightarrow> nat \<Rightarrow> nat list \<Rightarrow> (edge_record \<Rightarrow> nat) \<Rightarrow> anchor option" where
  "keep_narrowest_anchor narrowest tot firsts follow =
     (case narrowest of None \<Rightarrow> Some (tot, firsts, follow)
      | Some (best, _) \<Rightarrow> if tot < best then Some (tot, firsts, follow) else narrowest)"

text \<open>One constrained position offered as the anchor.\<close>

definition offer_anchor ::
    "'r list \<Rightarrow> ('r \<Rightarrow> nat) \<Rightarrow> ('r \<Rightarrow> nat) \<Rightarrow> (edge_record \<Rightarrow> nat) \<Rightarrow> nat list option \<Rightarrow> anchor option \<Rightarrow> anchor option option" where
  "offer_anchor table cnt first follow ids narrowest =
     (case ids of None \<Rightarrow> Some narrowest
      | Some xs \<Rightarrow> do {
          records \<leftarrow> mapM (nth_opt table) xs;
          Some (keep_narrowest_anchor narrowest (foldl u64_add 0 (map cnt records)) (map first records) follow)
        })"

definition pinned :: "nat list option \<Rightarrow> nat \<Rightarrow> bool" where
  "pinned ids i = (case ids of None \<Rightarrow> True | Some xs \<Rightarrow> i \<in> set xs)"

definition query_any_impl :: "ctx \<Rightarrow> rstr list \<Rightarrow> rstr list \<Rightarrow> rstr list \<Rightarrow> lens \<Rightarrow> association list option" where
  "query_any_impl c subjects labs objects L =
     (if subjects = [] \<and> labs = [] \<and> objects = [] then collect_edges c L [0..<length (edges c)]
      else
        (let subject_ids = resolve_set (concept_ids c) subjects;
             labels_ids = resolve_set (label_ids c) labs;
             object_ids = resolve_set (concept_ids c) objects
         in if subject_ids = Some [] \<or> labels_ids = Some [] \<or> object_ids = Some [] then Some []
            else do {
              n1 \<leftarrow> offer_anchor (concepts c) cr_outgoing_count cr_first_outgoing ed_next_outgoing subject_ids None;
              n2 \<leftarrow> offer_anchor (labels c) lr_edge_count lr_first_edge ed_next_labeled labels_ids n1;
              n3 \<leftarrow> offer_anchor (concepts c) cr_incoming_count cr_first_incoming ed_next_incoming object_ids n2;
              (case n3 of None \<Rightarrow> Some []
               | Some (_, firsts, follow) \<Rightarrow> do {
                   chains \<leftarrow> mapM (\<lambda>f. edge_chain c f follow) firsts;
                   records \<leftarrow> mapM (\<lambda>e. map_option (Pair e) (nth_opt (edges c) e)) (sort (concat chains));
                   collect_edges c L (map fst (filter (\<lambda>(_, r). pinned subject_ids (ed_subject r) \<and>
                      pinned labels_ids (ed_label r) \<and> pinned object_ids (ed_object r)) records))
                 })
            }))"

definition query_any :: "ctx \<Rightarrow> rstr list \<Rightarrow> rstr list \<Rightarrow> rstr list \<Rightarrow> association list option" where
  "query_any c subjects labs objects = query_any_impl c subjects labs objects (full_lens c)"

definition query :: "ctx \<Rightarrow> rstr option \<Rightarrow> rstr option \<Rightarrow> rstr option \<Rightarrow> association list option" where
  "query c subject label object =
     query_any c (case subject of None \<Rightarrow> [] | Some x \<Rightarrow> [x]) (case label of None \<Rightarrow> [] | Some x \<Rightarrow> [x])
       (case object of None \<Rightarrow> [] | Some x \<Rightarrow> [x])"

definition query_any_within :: "ctx \<Rightarrow> rstr list \<Rightarrow> rstr list \<Rightarrow> rstr list \<Rightarrow> nat set \<Rightarrow> association list option" where
  "query_any_within c subjects labs objects window = query_any_impl c subjects labs objects (window_lens c window)"

fun all_associations_scan :: "ctx \<Rightarrow> (nat \<Rightarrow> bool) \<Rightarrow> nat list \<Rightarrow> (deadline_exceeded + association list) option" where
  "all_associations_scan c expired [] = Some (Inr [])"
| "all_associations_scan c expired (e # rest) =
     (if expired e then Some (Inl DeadlineExceeded)
      else do {
        a \<leftarrow> association c e;
        res \<leftarrow> all_associations_scan c expired rest;
        Some (case res of Inl x \<Rightarrow> Inl x | Inr out \<Rightarrow> Inr (a # out))
      })"

definition all_associations :: "ctx \<Rightarrow> (nat \<Rightarrow> bool) \<Rightarrow> (deadline_exceeded + association list) option" where
  "all_associations c expired = all_associations_scan c expired [0..<length (edges c)]"

section \<open>The outline of a concept\<close>

record label_usage =
  lu_label :: rstr
  lu_count :: nat

record concept_description =
  cd_concept :: rstr
  cd_as_subject :: "label_usage list"
  cd_as_object :: "label_usage list"
  cd_types :: "rstr list"

text \<open>A \<open>HashMap\<close> of counters as an association list; the sort below leaves no trace of its order.\<close>

fun bump_count :: "nat \<Rightarrow> (nat \<times> nat) list \<Rightarrow> (nat \<times> nat) list" where
  "bump_count k [] = [(k, 1)]"
| "bump_count k ((a, n) # rest) = (if a = k then (a, n + 1) # rest else (a, n) # bump_count k rest)"

definition usage_order :: "(nat \<times> nat) list \<Rightarrow> (nat \<times> nat) list" where
  "usage_order xs = sort_key (\<lambda>p. - int (snd p)) (sort_key fst xs)"

definition tally :: "ctx \<Rightarrow> nat list \<Rightarrow> label_usage list option" where
  "tally c es = do {
     records \<leftarrow> mapM (nth_opt (edges c)) es;
     let counts = fold bump_count (map ed_label (filter (\<lambda>r. ed_count r \<noteq> 0) records)) [];
     mapM (\<lambda>(l, n). do { name \<leftarrow> label_name c l; Some \<lparr>lu_label = name, lu_count = n\<rparr> }) (usage_order counts)
   }"

text \<open>The names a \<open>BTreeSet\<close> collects: distinct, ascending.\<close>

definition live_types :: "ctx \<Rightarrow> nat list \<Rightarrow> nat option \<Rightarrow> rstr list option" where
  "live_types c es type_label_id = do {
     records \<leftarrow> mapM (nth_opt (edges c)) es;
     names \<leftarrow> mapM (\<lambda>r. concept_name c (ed_object r))
        (filter (\<lambda>r. ed_count r \<noteq> 0 \<and> type_label_id = Some (ed_label r)) records);
     Some (sort (remdups names))
   }"

definition describe_typed :: "ctx \<Rightarrow> rstr \<Rightarrow> rstr option \<Rightarrow> concept_description option option" where
  "describe_typed c concept type_label =
     (case concept_ids c concept of
        None \<Rightarrow> Some None
      | Some i \<Rightarrow> do {
          out \<leftarrow> outgoing c i;
          as_subject \<leftarrow> tally c out;
          types \<leftarrow> live_types c out (case type_label of None \<Rightarrow> None | Some l \<Rightarrow> label_ids c l);
          inc \<leftarrow> incoming c i;
          as_object \<leftarrow> tally c inc;
          name \<leftarrow> concept_name c i;
          Some (Some \<lparr>cd_concept = name, cd_as_subject = as_subject, cd_as_object = as_object, cd_types = types\<rparr>)
        })"

definition describe :: "ctx \<Rightarrow> rstr \<Rightarrow> concept_description option option" where
  "describe c concept = describe_typed c concept None"

definition concept_types :: "ctx \<Rightarrow> rstr \<Rightarrow> rstr \<Rightarrow> rstr list option" where
  "concept_types c concept type_label =
     (case label_ids c type_label of None \<Rightarrow> Some []
      | Some l \<Rightarrow> (case concept_ids c concept of None \<Rightarrow> Some []
          | Some i \<Rightarrow> do { out \<leftarrow> outgoing c i; live_types c out (Some l) }))"

section \<open>Vocabulary listings\<close>

definition label_sample :: "ctx \<Rightarrow> nat \<Rightarrow> rstr list option" where
  "label_sample c limit = mapM (\<lambda>r. arena_str c (lr_name_offset r) (lr_name_len r)) (take limit (labels c))"

definition all_labels :: "ctx \<Rightarrow> rstr list option" where
  "all_labels c = mapM (\<lambda>r. arena_str c (lr_name_offset r) (lr_name_len r)) (labels c)"

definition concept_names :: "ctx \<Rightarrow> rstr list option" where
  "concept_names c = mapM (\<lambda>r. arena_str c (cr_name_offset r) (cr_name_len r)) (concepts c)"

definition canonical_concept :: "ctx \<Rightarrow> rstr \<Rightarrow> rstr option option" where
  "canonical_concept c spelling =
     (case concept_ids c spelling of None \<Rightarrow> Some None | Some i \<Rightarrow> map_option Some (concept_name c i))"

text \<open>\<open>usize\<close> subtraction, which wraps below zero in a release build.\<close>

definition usize_sub :: "nat \<Rightarrow> nat \<Rightarrow> nat" where
  "usize_sub a b = (if b \<le> a then a - b else a + 2 ^ 64 - b)"

definition label_page_excluding :: "ctx \<Rightarrow> rstr option \<Rightarrow> nat \<Rightarrow> rstr list \<Rightarrow> nat \<times> rstr list" where
  "label_page_excluding c after limit excluded =
     (let names = map fst (bt_after after (label_name_index c))
      in if excluded = [] then (length (label_name_index c), take limit names)
         else
           (let hidden = length (filter (\<lambda>n. n \<in> fst ` set (label_name_index c)) (remdups excluded))
            in (usize_sub (length (label_name_index c)) hidden,
                take limit (filter (\<lambda>n. n \<notin> set excluded) names))))"

definition label_page :: "ctx \<Rightarrow> rstr option \<Rightarrow> nat \<Rightarrow> nat \<times> rstr list" where
  "label_page c after limit = label_page_excluding c after limit []"

section \<open>Chains as scans\<close>

lemma chain_reads [panic_free]:
  assumes "ctx_inv U c"
  shows "i < length (concepts c) \<Longrightarrow> outgoing c i = Some (owned ed_subject (edges c) i)"
    and "i < length (concepts c) \<Longrightarrow> incoming c i = Some (owned ed_object (edges c) i)"
    and "l < length (labels c) \<Longrightarrow> labeled c l = Some (owned ed_label (edges c) l)"
  using ctx_invD(6) [OF assms] chains_inv_walk [of ed_next_outgoing ed_subject "out_anchor (concepts c)"]
    chains_inv_walk [of ed_next_incoming ed_object "in_anchor (concepts c)"]
    chains_inv_walk [of ed_next_labeled ed_label "label_anchor (labels c)"]
  by (fastforce simp: chain_inv_def outgoing_def incoming_def labeled_def edge_chain_def out_anchor_def
      in_anchor_def label_anchor_def)+

lemma sorted_distinct_filter:
  assumes "sorted xs" "distinct xs" "set xs = {e. e < n \<and> Q e}"
  shows "xs = filter Q [0..<n]"
proof (rule sorted_distinct_set_unique [OF assms(1,2)])
  show "set xs = set (filter Q [0..<n])" unfolding assms(3) by auto
qed (simp_all add: sorted_wrt_filter)

lemma sorted_remdups_adj_distinct: "sorted xs \<Longrightarrow> distinct (remdups_adj (xs :: nat list))"
  by (induction xs rule: remdups_adj.induct) auto

lemma sort_owned:
  assumes "distinct ids"
  shows "sort (concat (map (owned pos es) ids)) = filter (\<lambda>e. pos (es ! e) \<in> set ids) [0..<length es]"
proof (rule sorted_distinct_filter)
  have "distinct (concat (map (owned pos es) ids))"
    using assms by (induction ids) (auto simp: set_owned, simp add: owned_def)
  then show "distinct (sort (concat (map (owned pos es) ids)))" by simp
qed (auto simp: set_owned)

section \<open>Recall on facts\<close>

definition touches :: "kb \<Rightarrow> rstr \<Rightarrow> fact \<Rightarrow> bool" where
  "touches k cue x \<longleftrightarrow> kb_concepts k cue = Some (fa_subject x) \<or> kb_concepts k cue = Some (fa_object x) \<or>
     kb_labels k cue = Some (fa_label x)"

lemma kb_ids_iff:
  assumes inv: "ctx_inv U c"
  shows "i < length (concepts c) \<Longrightarrow> kb_concepts (kb_of c) n = Some (cname c i) \<longleftrightarrow> concept_ids c n = Some i"
    and "i < length (labels c) \<Longrightarrow> kb_labels (kb_of c) n = Some (lname c i) \<longleftrightarrow> label_ids c n = Some i"
proof -
  note N = name_ids [OF ctx_invD(1) [OF inv]]
  show "kb_concepts (kb_of c) n = Some (cname c i) \<longleftrightarrow> concept_ids c n = Some i" if "i < length (concepts c)"
    using N(1) [OF that] N(1) ids_bound(1) [OF inv, of n] by (auto simp: kb_of_def) (metis option.inject)
  show "kb_labels (kb_of c) n = Some (lname c i) \<longleftrightarrow> label_ids c n = Some i" if "i < length (labels c)"
    using N(2) [OF that] N(2) ids_bound(2) [OF inv, of n] by (auto simp: kb_of_def) (metis option.inject)
qed

lemma fact_names:
  "fa_subject (fact_of c e) = cname c (ed_subject (edges c ! e))"
  "fa_label (fact_of c e) = lname c (ed_label (edges c ! e))"
  "fa_object (fact_of c e) = cname c (ed_object (edges c ! e))"
  "fa_count (fact_of c e) = ed_count (edges c ! e)"
  by (simp_all add: fact_of_def fact_with_def)

lemma map_filter_facts:
  "map (\<lambda>e. g (fact_of c e)) (filter (\<lambda>e. Q (fact_of c e)) [0..<length (edges c)]) = map g (filter Q (facts c))"
  by (simp add: facts_def filter_map comp_def)

context edge_lens
begin

lemma recall_spec:
  assumes inv: "ctx_inv U c"
  shows "recall_impl c cue (lens c) = Some (map (V c) (filter (\<lambda>x. touches (kb_of c) cue x \<and> P c x) (facts c)))"
proof -
  note I = ctx_invD [OF inv] and C = chain_reads [OF inv]
  let ?Q = "\<lambda>e. touches (kb_of c) cue (fact_of c e)"
  obtain ce where ce: "(case concept_ids c cue of None \<Rightarrow> Some []
        | Some i \<Rightarrow> do { out \<leftarrow> outgoing c i; inc \<leftarrow> incoming c i; Some (out @ inc) }) = Some ce"
    "set ce = {e. e < length (edges c) \<and> (concept_ids c cue = Some (ed_subject (edges c ! e)) \<or> concept_ids c cue = Some (ed_object (edges c ! e)))}"
    using C(1,2) ids_bound(1) [OF inv] by (cases "concept_ids c cue") (auto simp: set_owned)
  obtain le where le: "(case label_ids c cue of None \<Rightarrow> Some [] | Some i \<Rightarrow> labeled c i) = Some le"
    "set le = {e. e < length (edges c) \<and> label_ids c cue = Some (ed_label (edges c ! e))}"
    using C(3) ids_bound(2) [OF inv] by (cases "label_ids c cue") (auto simp: set_owned)
  have "remdups_adj (sort (ce @ le)) = filter ?Q [0..<length (edges c)]"
  proof (rule sorted_distinct_filter)
    show "set (remdups_adj (sort (ce @ le))) = {e. e < length (edges c) \<and> ?Q e}"
      using ce(2) le(2) kb_ids_iff [OF inv] edge_bounds [OF I(5)] by (auto simp: touches_def fact_names)
  qed (simp_all add: sorted_remdups_adj sorted_remdups_adj_distinct)
  then have "recall_impl c cue (lens c) = collect_edges c (lens c) (filter ?Q [0..<length (edges c)])"
    by (simp add: recall_impl_def ce(1) le(1))
  also have "\<dots> = Some (map (\<lambda>e. V c (fact_of c e)) (filter (\<lambda>e. P c (fact_of c e)) (filter ?Q [0..<length (edges c)])))"
    by (rule collect [OF inv]) simp
  finally show ?thesis
    using map_filter_facts [of "V c" c "\<lambda>x. touches (kb_of c) cue x \<and> P c x"] by (simp add: conj_commute)
qed

end

section \<open>The narrowest anchor\<close>

text \<open>
  An anchor is good for a filter when its chains are the chains of some position over distinct
  ids, and every edge the filter accepts is on one of them.
\<close>

definition good_anchor :: "ctx \<Rightarrow> (nat \<Rightarrow> bool) \<Rightarrow> anchor \<Rightarrow> bool" where
  "good_anchor c Q a \<longleftrightarrow> (case a of (_, firsts, follow) \<Rightarrow>
     \<exists>pos ids. distinct ids \<and> mapM (\<lambda>f. edge_chain c f follow) firsts = Some (map (owned pos (edges c)) ids) \<and>
       (\<forall>e < length (edges c). Q e \<longrightarrow> pos (edges c ! e) \<in> set ids))"

lemma edge_chain_anchors:
  assumes "ctx_inv U c"
  shows "i < length (concepts c) \<Longrightarrow> edge_chain c (cr_first_outgoing (concepts c ! i)) ed_next_outgoing = Some (owned ed_subject (edges c) i)"
    "i < length (concepts c) \<Longrightarrow> edge_chain c (cr_first_incoming (concepts c ! i)) ed_next_incoming = Some (owned ed_object (edges c) i)"
    "i < length (labels c) \<Longrightarrow> edge_chain c (lr_first_edge (labels c ! i)) ed_next_labeled = Some (owned ed_label (edges c) i)"
  using chain_reads [OF assms, of i] by (simp_all add: outgoing_def incoming_def labeled_def)

lemma resolve_set_Some:
  assumes "resolve_set m names = Some xs"
  shows "distinct xs" "i \<in> set xs \<longleftrightarrow> (\<exists>n \<in> set names. m n = Some i)"
proof -
  have "i \<in> set (List.map_filter m names) \<longleftrightarrow> (\<exists>n \<in> set names. m n = Some i)"
    by (induction names) (auto simp: map_filter_simps split: option.splits)
  then show "distinct xs" "i \<in> set xs \<longleftrightarrow> (\<exists>n \<in> set names. m n = Some i)"
    using assms by (auto simp: resolve_set_def split: if_splits)
qed

lemma pinned_resolve: "pinned (resolve_set m names) i \<longleftrightarrow> names = [] \<or> (\<exists>n \<in> set names. m n = Some i)"
  using resolve_set_Some(2) [of m names _ i] by (cases "resolve_set m names") (auto simp: pinned_def resolve_set_def)

lemma offer_anchor_good:
  assumes tab: "\<forall>n i. m n = Some i \<longrightarrow> i < length table"
      "\<forall>i < length table. edge_chain c (first (table ! i)) follow = Some (owned pos (edges c) i)"
    and Q: "\<forall>e < length (edges c). Q e \<longrightarrow> pinned (resolve_set m names) (pos (edges c ! e))"
    and old: "\<forall>a. narrowest = Some a \<longrightarrow> good_anchor c Q a"
  shows "\<exists>r. offer_anchor table cnt first follow (resolve_set m names) narrowest = Some r \<and>
     (r = None \<longrightarrow> names = [] \<and> narrowest = None) \<and> (\<forall>a. r = Some a \<longrightarrow> good_anchor c Q a)"
proof (cases "resolve_set m names")
  case None
  with old show ?thesis by (auto simp: offer_anchor_def resolve_set_def split: if_splits)
next
  case (Some xs)
  have tb: "i < length table" if "i \<in> set xs" for i using resolve_set_Some(2) [OF Some] tab(1) that by blast
  have recs: "mapM (nth_opt table) xs = Some (map ((!) table) xs)" using tb by (intro mapM_Some) auto
  have "mapM (\<lambda>f. edge_chain c f follow) (map first (map ((!) table) xs)) = Some (map (owned pos (edges c)) xs)"
    unfolding map_map mapM_map using tb tab(2) by (intro mapM_Some) auto
  moreover have "pos (edges c ! e) \<in> set xs" if "e < length (edges c)" "Q e" for e
    using Q that Some by (simp add: pinned_def)
  ultimately have "good_anchor c Q (t, map first (map ((!) table) xs), follow)" for t
    using resolve_set_Some(1) [OF Some] unfolding good_anchor_def by auto
  with Some recs old show ?thesis
    by (auto simp: offer_anchor_def keep_narrowest_anchor_def split: option.split)
qed

text \<open>The pattern on facts: a constrained position holds one of the canonical names its spellings stand for.\<close>

definition position_ok :: "(rstr \<rightharpoonup> rstr) \<Rightarrow> rstr list \<Rightarrow> rstr \<Rightarrow> bool" where
  "position_ok m names x \<longleftrightarrow> names = [] \<or> (\<exists>n \<in> set names. m n = Some x)"

definition query_match :: "kb \<Rightarrow> rstr list \<Rightarrow> rstr list \<Rightarrow> rstr list \<Rightarrow> fact \<Rightarrow> bool" where
  "query_match k subjects labs objects x \<longleftrightarrow> position_ok (kb_concepts k) subjects (fa_subject x) \<and>
     position_ok (kb_labels k) labs (fa_label x) \<and> position_ok (kb_concepts k) objects (fa_object x)"

lemma query_match_pinned:
  assumes inv: "ctx_inv U c" and e: "e < length (edges c)"
  shows "query_match (kb_of c) subjects labs objects (fact_of c e) \<longleftrightarrow>
     pinned (resolve_set (concept_ids c) subjects) (ed_subject (edges c ! e)) \<and>
     pinned (resolve_set (label_ids c) labs) (ed_label (edges c ! e)) \<and>
     pinned (resolve_set (concept_ids c) objects) (ed_object (edges c ! e))"
  using edge_bounds [OF ctx_invD(5) [OF inv] e] kb_ids_iff [OF inv]
  by (simp add: query_match_def position_ok_def fact_names pinned_resolve)

lemma query_empty:
  assumes "resolve_set (concept_ids c) subjects = Some [] \<or> resolve_set (label_ids c) labs = Some [] \<or>
      resolve_set (concept_ids c) objects = Some []" and inv: "ctx_inv U c"
  shows "filter (\<lambda>x. query_match (kb_of c) subjects labs objects x \<and> R x) (facts c) = []"
proof -
  have "\<not> query_match (kb_of c) subjects labs objects (fact_of c e)" if "e < length (edges c)" for e
    using assms(1) unfolding query_match_pinned [OF inv that] by (auto simp: pinned_def)
  then show ?thesis by (auto simp: filter_empty_conv facts_def)
qed

lemma anchor_scan:
  assumes inv: "ctx_inv U c" and none: "\<not> (subjects = [] \<and> labs = [] \<and> objects = [])"
  defines "Q \<equiv> (\<lambda>e. query_match (kb_of c) subjects labs objects (fact_of c e))"
  shows "\<exists>n1 n2 a. offer_anchor (concepts c) cr_outgoing_count cr_first_outgoing ed_next_outgoing
         (resolve_set (concept_ids c) subjects) None = Some n1 \<and>
     offer_anchor (labels c) lr_edge_count lr_first_edge ed_next_labeled (resolve_set (label_ids c) labs) n1 = Some n2 \<and>
     offer_anchor (concepts c) cr_incoming_count cr_first_incoming ed_next_incoming
         (resolve_set (concept_ids c) objects) n2 = Some (Some a) \<and> good_anchor c Q a"
proof -
  have M: "\<forall>e < length (edges c). Q e \<longrightarrow> pinned (resolve_set (concept_ids c) subjects) (ed_subject (edges c ! e))"
    "\<forall>e < length (edges c). Q e \<longrightarrow> pinned (resolve_set (label_ids c) labs) (ed_label (edges c ! e))"
    "\<forall>e < length (edges c). Q e \<longrightarrow> pinned (resolve_set (concept_ids c) objects) (ed_object (edges c ! e))"
    using query_match_pinned [OF inv, of _ subjects labs objects] by (auto simp: Q_def)
  have A: "\<forall>i < length (concepts c). edge_chain c (cr_first_outgoing (concepts c ! i)) ed_next_outgoing = Some (owned ed_subject (edges c) i)"
    "\<forall>i < length (concepts c). edge_chain c (cr_first_incoming (concepts c ! i)) ed_next_incoming = Some (owned ed_object (edges c) i)"
    "\<forall>i < length (labels c). edge_chain c (lr_first_edge (labels c ! i)) ed_next_labeled = Some (owned ed_label (edges c) i)"
    using edge_chain_anchors [OF inv] by blast+
  have B: "\<forall>n i. concept_ids c n = Some i \<longrightarrow> i < length (concepts c)" "\<forall>n i. label_ids c n = Some i \<longrightarrow> i < length (labels c)"
    using ids_bound [OF inv] by blast+
  obtain n1 where n1: "offer_anchor (concepts c) cr_outgoing_count cr_first_outgoing ed_next_outgoing
         (resolve_set (concept_ids c) subjects) None = Some n1" "n1 = None \<longrightarrow> subjects = []" "\<forall>a. n1 = Some a \<longrightarrow> good_anchor c Q a"
    using offer_anchor_good [OF B(1) A(1) M(1), where narrowest = None and cnt = cr_outgoing_count] by auto
  obtain n2 where n2: "offer_anchor (labels c) lr_edge_count lr_first_edge ed_next_labeled (resolve_set (label_ids c) labs) n1 = Some n2"
      "n2 = None \<longrightarrow> labs = [] \<and> n1 = None" "\<forall>a. n2 = Some a \<longrightarrow> good_anchor c Q a"
    using offer_anchor_good [OF B(2) A(3) M(2) n1(3), where cnt = lr_edge_count] by blast
  obtain n3 where n3: "offer_anchor (concepts c) cr_incoming_count cr_first_incoming ed_next_incoming
         (resolve_set (concept_ids c) objects) n2 = Some n3"
      "n3 = None \<longrightarrow> objects = [] \<and> n2 = None" "\<forall>a. n3 = Some a \<longrightarrow> good_anchor c Q a"
    using offer_anchor_good [OF B(1) A(2) M(3) n2(3), where cnt = cr_incoming_count] by blast
  show ?thesis using n1 n2 n3 none by (cases n3) auto
qed

context edge_lens
begin

lemma query_spec:
  assumes inv: "ctx_inv U c"
  shows "query_any_impl c subjects labs objects (lens c) =
     Some (map (V c) (filter (\<lambda>x. query_match (kb_of c) subjects labs objects x \<and> P c x) (facts c)))"
proof (cases "subjects = [] \<and> labs = [] \<and> objects = []")
  case True
  then show ?thesis
    using collect [OF inv, of "[0..<length (edges c)]"] map_filter_facts [of "V c" c "P c"]
    by (simp add: query_any_impl_def query_match_def position_ok_def)
next
  case False
  let ?s = "resolve_set (concept_ids c) subjects" and ?l = "resolve_set (label_ids c) labs"
    and ?o = "resolve_set (concept_ids c) objects"
  let ?Q = "\<lambda>e. query_match (kb_of c) subjects labs objects (fact_of c e)"
  show ?thesis
  proof (cases "?s = Some [] \<or> ?l = Some [] \<or> ?o = Some []")
    case True
    then have "query_any_impl c subjects labs objects (lens c) = Some []"
      unfolding query_any_impl_def Let_def if_not_P [OF False] by simp
    then show ?thesis using query_empty [OF True inv, of "P c"] by simp
  next
    case cons: False
    obtain n1 n2 t firsts follow where n: "offer_anchor (concepts c) cr_outgoing_count cr_first_outgoing ed_next_outgoing ?s None = Some n1"
     "offer_anchor (labels c) lr_edge_count lr_first_edge ed_next_labeled ?l n1 = Some n2"
     "offer_anchor (concepts c) cr_incoming_count cr_first_incoming ed_next_incoming ?o n2 = Some (Some (t, firsts, follow))"
     and g: "good_anchor c ?Q (t, firsts, follow)"
      using anchor_scan [OF inv False] by auto
    obtain pos ids where ids: "distinct ids" "mapM (\<lambda>f. edge_chain c f follow) firsts = Some (map (owned pos (edges c)) ids)"
      "\<forall>e < length (edges c). ?Q e \<longrightarrow> pos (edges c ! e) \<in> set ids"
      using g by (auto simp: good_anchor_def)
    let ?es = "filter (\<lambda>e. pos (edges c ! e) \<in> set ids) [0..<length (edges c)]"
    have es: "sort (concat (map (owned pos (edges c)) ids)) = ?es" by (rule sort_owned [OF ids(1)])
    have recs: "mapM (\<lambda>e. map_option (Pair e) (nth_opt (edges c) e)) ?es = Some (map (\<lambda>e. (e, edges c ! e)) ?es)"
      by (rule mapM_Some) auto
    have "map fst (filter (\<lambda>(_, r). pinned ?s (ed_subject r) \<and> pinned ?l (ed_label r) \<and> pinned ?o (ed_object r))
        (map (\<lambda>e. (e, edges c ! e)) ?es)) = filter ?Q [0..<length (edges c)]"
      using query_match_pinned [OF inv] ids(3) by (auto simp: filter_map comp_def intro!: filter_cong)
    then have "query_any_impl c subjects labs objects (lens c) = collect_edges c (lens c) (filter ?Q [0..<length (edges c)])"
      unfolding query_any_impl_def Let_def if_not_P [OF False] if_not_P [OF cons] using n ids(2) es recs by simp
    also have "\<dots> = Some (map (\<lambda>e. V c (fact_of c e)) (filter (\<lambda>e. P c (fact_of c e)) (filter ?Q [0..<length (edges c)])))"
      by (rule collect [OF inv]) simp
    finally show ?thesis
      using map_filter_facts [of "V c" c "\<lambda>x. query_match (kb_of c) subjects labs objects x \<and> P c x"]
      by (simp add: conj_commute)
  qed
qed

end

section \<open>Properties\<close>

lemma kb_facts_of [simp]: "kb_facts (kb_of c) = facts c"
  by (simp add: kb_of_def)

text \<open>
  C10. A pinned query returns exactly the facts that match the pattern, in storage order, whichever
  of the constrained positions turned out narrowest and however many spellings were given for each:
  an alias matches what its canonical name matches, an unknown spelling matches nothing, and an
  empty position constrains nothing. No read panics.
\<close>
theorem query_any_correct:
  assumes "ctx_inv U c"
  shows "query_any c subjects labs objects =
     Some (map assoc_of (filter (query_match (kb_of c) subjects labs objects) (kb_facts (kb_of c))))"
  using full.query_spec [OF assms, of subjects labs objects] by (simp add: query_any_def)

theorem query_any_correct_witness:
  "query_any demo_ctx [bytes ''tea'', bytes ''cup''] [bytes ''is''] [] =
     Some (map assoc_of (filter (query_match (kb_of demo_ctx) [bytes ''tea'', bytes ''cup''] [bytes ''is''] [])
       (kb_facts (kb_of demo_ctx))))"
  by (rule query_any_correct [OF demo_ctx(1)])

text \<open>
  A query seen through a window of sources returns the matching facts some source of the window
  attests, each reduced to what the window's sources say of it: their assertions counted, their
  weights averaged, their attributions listed.
\<close>
theorem query_any_within_correct:
  assumes "ctx_inv U c"
  shows "query_any_within c subjects labs objects (source_window c names) =
     Some (map (\<lambda>x. assoc_of (fact_within (set names) x))
       (filter (\<lambda>x. query_match (kb_of c) subjects labs objects x \<and> 0 < fa_count (fact_within (set names) x))
         (kb_facts (kb_of c))))"
  using window.query_spec [OF assms, of subjects labs objects names] by (simp add: query_any_within_def)

theorem query_any_within_correct_witness:
  "query_any_within demo_ctx [] [bytes ''is''] [] (source_window demo_ctx [bytes ''doc'']) =
     Some (map (\<lambda>x. assoc_of (fact_within (set [bytes ''doc'']) x))
       (filter (\<lambda>x. query_match (kb_of demo_ctx) [] [bytes ''is''] [] x \<and> 0 < fa_count (fact_within (set [bytes ''doc'']) x))
         (kb_facts (kb_of demo_ctx))))"
  by (rule query_any_within_correct [OF demo_ctx(1)])

text \<open>
  C15. Recalling a cue returns, in storage order and once each, the facts the cue touches: those
  whose subject or object it names as a concept and those whose label it names as a label.
\<close>
theorem recall_correct:
  assumes "ctx_inv U c"
  shows "recall c cue = Some (map assoc_of (filter (touches (kb_of c) cue) (kb_facts (kb_of c))))"
  using full.recall_spec [OF assms, of cue] by (simp add: recall_def)

theorem recall_correct_witness:
  "recall demo_ctx (bytes ''tea'') = Some (map assoc_of (filter (touches (kb_of demo_ctx) (bytes ''tea'')) (kb_facts (kb_of demo_ctx))))"
  by (rule recall_correct [OF demo_ctx(1)])

text \<open>
  The same through a window of sources, leaving out what no source of the window attests.
\<close>
theorem recall_within_correct:
  assumes "ctx_inv U c"
  shows "recall_within c cue (source_window c names) =
     Some (map (\<lambda>x. assoc_of (fact_within (set names) x))
       (filter (\<lambda>x. touches (kb_of c) cue x \<and> 0 < fa_count (fact_within (set names) x)) (kb_facts (kb_of c))))"
  using window.recall_spec [OF assms, of cue names] by (simp add: recall_within_def)

theorem recall_within_correct_witness:
  "recall_within demo_ctx (bytes ''hot'') (source_window demo_ctx [bytes ''doc'']) =
     Some (map (\<lambda>x. assoc_of (fact_within (set [bytes ''doc'']) x))
       (filter (\<lambda>x. touches (kb_of demo_ctx) (bytes ''hot'') x \<and> 0 < fa_count (fact_within (set [bytes ''doc'']) x))
         (kb_facts (kb_of demo_ctx))))"
  by (rule recall_within_correct [OF demo_ctx(1)])

end
