(* ===== verification/Outline.thy ===== *)
theory Outline
  imports Query
begin

text \<open>
  The outline a concept's description gives, and the vocabulary pages, on facts: the label counters
  of \<^verbatim>\<open>describe\<close> are the numbers of live facts, the types are the live type facts' objects, and
  a page of labels is the vocabulary after the cursor with the excluded names left out.
\<close>

section \<open>The outline on facts\<close>

lemma bump_count_keys: "set (map fst (bump_count k xs)) = insert k (set (map fst xs))"
  by (induction k xs rule: bump_count.induct) auto

lemma bump_count_distinct: "distinct (map fst xs) \<Longrightarrow> distinct (map fst (bump_count k xs))"
proof (induction k xs rule: bump_count.induct)
  case (2 k a n rest)
  then show ?case using bump_count_keys [of k rest] by auto
qed simp

lemma map_of_bump_count:
  "map_of (bump_count k xs) = (map_of xs)(k \<mapsto> (case map_of xs k of None \<Rightarrow> 1 | Some n \<Rightarrow> n + 1))"
  by (induction k xs rule: bump_count.induct) (auto simp: fun_eq_iff)

lemma fold_bump_distinct: "distinct (map fst xs) \<Longrightarrow> distinct (map fst (fold bump_count ls xs))"
  by (induction ls arbitrary: xs) (simp_all add: bump_count_distinct)

lemma map_of_fold_bump:
  "map_of (fold bump_count ls xs) k =
     (if k \<in> set ls then Some ((case map_of xs k of None \<Rightarrow> 0 | Some n \<Rightarrow> n) + count_list ls k) else map_of xs k)"
proof (induction ls arbitrary: xs)
  case (Cons l ls)
  have z: "k \<notin> set ls \<Longrightarrow> count_list ls k = 0" by (simp add: count_list_0_iff)
  show ?case
    using Cons [of "bump_count l xs"] z by (auto simp: map_of_bump_count split: option.splits)
qed simp

lemma fold_bump_set: "(k, n) \<in> set (fold bump_count ls []) \<longleftrightarrow> k \<in> set ls \<and> n = count_list ls k"
  using map_of_fold_bump [of ls "[]" k] map_of_eq_Some_iff [OF fold_bump_distinct [of "[]" ls], of k n]
  by (auto split: if_splits)

lemma usage_order_set [simp]: "set (usage_order xs) = set xs" "length (usage_order xs) = length xs"
  by (simp_all add: usage_order_def)

lemma usage_order_sorted: "sorted_wrt (\<lambda>a b. snd b \<le> snd a) (usage_order xs)"
proof -
  have "sorted (map (\<lambda>p. - int (snd p)) (usage_order xs))" by (simp add: usage_order_def)
  then show ?thesis by (simp add: sorted_map)
qed

text \<open>The rows of an outline over a list of facts: every label a live one carries, with how often.\<close>

definition usage_rows :: "fact list \<Rightarrow> label_usage set" where
  "usage_rows xs = {\<lparr>lu_label = l, lu_count = n\<rparr> | l n. 0 < n \<and>
     n = length (filter (\<lambda>x. fa_count x \<noteq> 0 \<and> fa_label x = l) xs)}"

lemma tally_spec:
  assumes inv: "ctx_inv U c" and es: "\<forall>e \<in> set es. e < length (edges c)"
  shows "\<exists>us. tally c es = Some us \<and> set us = usage_rows (map (fact_of c) es) \<and>
     sorted_wrt (\<lambda>a b. lu_count b \<le> lu_count a) us \<and> distinct (map lu_label us)"
proof -
  note I = ctx_invD [OF inv]
  let ?ls = "map (\<lambda>e. ed_label (edges c ! e)) (filter (\<lambda>e. ed_count (edges c ! e) \<noteq> 0) es)"
  let ?cs = "usage_order (fold bump_count ?ls [])"
  have recs: "mapM (nth_opt (edges c)) es = Some (map ((!) (edges c)) es)" using es by (intro mapM_Some) auto
  have lb: "l < length (labels c)" if "l \<in> set ?ls" for l
    using that es edge_bounds(3) [OF I(5)] by auto
  have mem: "(l, n) \<in> set ?cs \<longleftrightarrow> l \<in> set ?ls \<and> n = count_list ?ls l" for l n using fold_bump_set by simp
  have "mapM (\<lambda>(l, n). do { name \<leftarrow> label_name c l; Some \<lparr>lu_label = name, lu_count = n\<rparr> }) ?cs
      = Some (map (\<lambda>(l, n). \<lparr>lu_label = lname c l, lu_count = n\<rparr>) ?cs)"
  proof (rule mapM_Some)
    fix q assume "q \<in> set ?cs"
    then have "fst q < length (labels c)" using mem [of "fst q" "snd q"] lb by simp
    then show "(case q of (l, n) \<Rightarrow> do { name \<leftarrow> label_name c l; Some \<lparr>lu_label = name, lu_count = n\<rparr> })
        = Some (case q of (l, n) \<Rightarrow> \<lparr>lu_label = lname c l, lu_count = n\<rparr>)"
      using name_reads(2) [OF I(1)] by (simp add: split_beta)
  qed
  then have eq: "tally c es = Some (map (\<lambda>(l, n). \<lparr>lu_label = lname c l, lu_count = n\<rparr>) ?cs)"
    by (simp add: tally_def recs filter_map comp_def)
  have inj: "lname c i = lname c j \<longleftrightarrow> i = j" if "i < length (labels c)" "j < length (labels c)" for i j
    using name_ids(2) [OF I(1)] that by (metis option.inject)
  have cnt: "length (filter (\<lambda>x. fa_count x \<noteq> 0 \<and> fa_label x = lname c l) (map (fact_of c) es)) = count_list ?ls l"
    if "l < length (labels c)" for l
  proof -
    have "filter (\<lambda>e. ed_count (edges c ! e) \<noteq> 0 \<and> lname c (ed_label (edges c ! e)) = lname c l) es
        = filter (\<lambda>e. ed_count (edges c ! e) \<noteq> 0 \<and> ed_label (edges c ! e) = l) es"
      using es edge_bounds(3) [OF I(5)] inj that by (intro filter_cong) auto
    moreover have "filter (\<lambda>e. l = ed_label (edges c ! e)) (filter (\<lambda>e. ed_count (edges c ! e) \<noteq> 0) es)
        = filter (\<lambda>e. ed_count (edges c ! e) \<noteq> 0 \<and> ed_label (edges c ! e) = l) es"
      unfolding filter_filter by (rule filter_cong) auto
    ultimately show ?thesis
      by (simp only: filter_map comp_def fact_names count_list_eq_length_filter length_map)
  qed
  have "usage_rows (map (fact_of c) es) = (\<lambda>(l, n). \<lparr>lu_label = lname c l, lu_count = n\<rparr>) ` set ?cs"
  proof (intro set_eqI iffI)
    fix u assume "u \<in> usage_rows (map (fact_of c) es)"
    then obtain nm n where u: "u = \<lparr>lu_label = nm, lu_count = n\<rparr>" "0 < n"
      "n = length (filter (\<lambda>x. fa_count x \<noteq> 0 \<and> fa_label x = nm) (map (fact_of c) es))" by (auto simp: usage_rows_def)
    then obtain x where "x \<in> set (map (fact_of c) es)" "fa_count x \<noteq> 0" "fa_label x = nm"
      by (metis (mono_tags, lifting) filter_False length_greater_0_conv)
    then obtain e where e: "e \<in> set es" "ed_count (edges c ! e) \<noteq> 0" "lname c (ed_label (edges c ! e)) = nm"
      by (auto simp: fact_names)
    let ?l = "ed_label (edges c ! e)"
    have "?l \<in> set ?ls" using e by auto
    then have "(?l, n) \<in> set ?cs" using u(3) cnt [OF lb, of ?l] e(3) mem by simp
    then show "u \<in> (\<lambda>(l, n). \<lparr>lu_label = lname c l, lu_count = n\<rparr>) ` set ?cs" using u(1) e(3) by force
  next
    fix u assume "u \<in> (\<lambda>(l, n). \<lparr>lu_label = lname c l, lu_count = n\<rparr>) ` set ?cs"
    then obtain l n where u: "u = \<lparr>lu_label = lname c l, lu_count = n\<rparr>" "(l, n) \<in> set ?cs" by auto
    then have "l \<in> set ?ls" "n = count_list ?ls l" using mem by blast+
    then show "u \<in> usage_rows (map (fact_of c) es)"
      using u(1) cnt [OF lb, of l] by (auto simp: usage_rows_def count_list_0_iff)
  qed
  moreover have "sorted_wrt (\<lambda>a b. lu_count b \<le> lu_count a) (map (\<lambda>(l, n). \<lparr>lu_label = lname c l, lu_count = n\<rparr>) ?cs)"
    using usage_order_sorted [of "fold bump_count ?ls []"] by (simp add: sorted_wrt_map split_beta)
  moreover have "distinct (map lu_label (map (\<lambda>(l, n). \<lparr>lu_label = lname c l, lu_count = n\<rparr>) ?cs))"
  proof -
    have "distinct (map fst (fold bump_count ?ls []))" by (rule fold_bump_distinct) simp
    then have "distinct (map fst ?cs)"
      by (metis distinct_card length_map list.set_map usage_order_set(1,2) card_distinct)
    moreover have "inj_on (lname c) (set (map fst ?cs))"
      using inj lb mem by (fastforce simp: inj_on_def)
    ultimately have "distinct (map (lname c) (map fst ?cs))" by (simp only: distinct_map)
    then show ?thesis by (simp add: comp_def split_beta)
  qed
  ultimately show ?thesis using eq by auto
qed

text \<open>The facts a chain walk visits, in its order.\<close>

lemma owned_facts:
  assumes inv: "ctx_inv U c"
  shows "i < length (concepts c) \<Longrightarrow> map (fact_of c) (owned ed_subject (edges c) i) = filter (\<lambda>x. fa_subject x = cname c i) (facts c)"
    and "i < length (concepts c) \<Longrightarrow> map (fact_of c) (owned ed_object (edges c) i) = filter (\<lambda>x. fa_object x = cname c i) (facts c)"
proof -
  note I = ctx_invD [OF inv]
  have inj: "cname c k = cname c j \<longleftrightarrow> k = j" if "k < length (concepts c)" "j < length (concepts c)" for k j
    using name_ids(1) [OF I(1)] that by (metis option.inject)
  have "filter (\<lambda>e. ed_subject (edges c ! e) = i) [0..<length (edges c)] = filter (\<lambda>e. fa_subject (fact_of c e) = cname c i) [0..<length (edges c)]"
      "filter (\<lambda>e. ed_object (edges c ! e) = i) [0..<length (edges c)] = filter (\<lambda>e. fa_object (fact_of c e) = cname c i) [0..<length (edges c)]"
    if "i < length (concepts c)"
    using inj that edge_bounds [OF I(5)] by (auto simp: fact_names intro!: filter_cong)
  then show "i < length (concepts c) \<Longrightarrow> map (fact_of c) (owned ed_subject (edges c) i) = filter (\<lambda>x. fa_subject x = cname c i) (facts c)"
    "i < length (concepts c) \<Longrightarrow> map (fact_of c) (owned ed_object (edges c) i) = filter (\<lambda>x. fa_object x = cname c i) (facts c)"
    by (simp_all add: owned_def facts_def filter_map comp_def)
qed

text \<open>The live types among a list of facts.\<close>

definition types_among :: "kb \<Rightarrow> rstr option \<Rightarrow> fact list \<Rightarrow> rstr set" where
  "types_among k type_label xs =
     {fa_object x | x. x \<in> set xs \<and> fa_count x \<noteq> 0 \<and> (\<exists>t. type_label = Some t \<and> kb_labels k t = Some (fa_label x))}"

lemma live_types_spec:
  assumes inv: "ctx_inv U c" and es: "\<forall>e \<in> set es. e < length (edges c)"
  shows "live_types c es (case tn of None \<Rightarrow> None | Some l \<Rightarrow> label_ids c l)
     = Some (sorted_list_of_set (types_among (kb_of c) tn (map (fact_of c) es)))"
proof -
  note I = ctx_invD [OF inv]
  let ?t = "case tn of None \<Rightarrow> None | Some l \<Rightarrow> label_ids c l"
  let ?es = "filter (\<lambda>e. ed_count (edges c ! e) \<noteq> 0 \<and> ?t = Some (ed_label (edges c ! e))) es"
  have recs: "mapM (nth_opt (edges c)) es = Some (map ((!) (edges c)) es)" using es by (intro mapM_Some) auto
  have "mapM (\<lambda>r. concept_name c (ed_object r)) (map ((!) (edges c)) ?es) = Some (map (\<lambda>e. fa_object (fact_of c e)) ?es)"
    unfolding mapM_map
    by (rule mapM_Some) (use es edge_bounds(2) [OF I(5)] name_reads(1) [OF I(1)] in \<open>auto simp: fact_names\<close>)
  then have eq: "live_types c es ?t = Some (sort (remdups (map (\<lambda>e. fa_object (fact_of c e)) ?es)))"
    by (simp add: live_types_def recs filter_map comp_def)
  have lab: "?t = Some (ed_label (edges c ! e)) \<longleftrightarrow> (\<exists>t. tn = Some t \<and> kb_labels (kb_of c) t = Some (fa_label (fact_of c e)))"
    if "e \<in> set es" for e
    using es that edge_bounds(3) [OF I(5)] kb_ids_iff(2) [OF inv] by (auto simp: fact_names split: option.split)
  have "set (map (\<lambda>e. fa_object (fact_of c e)) ?es) = types_among (kb_of c) tn (map (fact_of c) es)"
  proof -
    have "?es = filter (\<lambda>e. fa_count (fact_of c e) \<noteq> 0 \<and>
        (\<exists>t. tn = Some t \<and> kb_labels (kb_of c) t = Some (fa_label (fact_of c e)))) es"
      using lab by (intro filter_cong) (auto simp: fact_names(4))
    then show ?thesis unfolding types_among_def by auto
  qed
  then show ?thesis unfolding eq by (simp only: sorted_list_of_set_sort_remdups [symmetric])
qed

text \<open>
  C23. The outline of a concept: for the canonical name its spelling stands for, the relations in
  each direction with the number of live facts that carry them, the most used first and each once,
  and the ascending list of its live types. A spelling that stands for no concept has no outline.
\<close>
theorem describe_typed_correct:
  assumes inv: "ctx_inv U c"
  shows "case kb_concepts (kb_of c) concept of
       None \<Rightarrow> describe_typed c concept tn = Some None
     | Some n \<Rightarrow> \<exists>d. describe_typed c concept tn = Some (Some d) \<and> cd_concept d = n \<and>
         set (cd_as_subject d) = usage_rows (filter (\<lambda>x. fa_subject x = n) (kb_facts (kb_of c))) \<and>
         set (cd_as_object d) = usage_rows (filter (\<lambda>x. fa_object x = n) (kb_facts (kb_of c))) \<and>
         (\<forall>us \<in> {cd_as_subject d, cd_as_object d}.
            sorted_wrt (\<lambda>a b. lu_count b \<le> lu_count a) us \<and> distinct (map lu_label us)) \<and>
         cd_types d = sorted_list_of_set (types_among (kb_of c) tn (filter (\<lambda>x. fa_subject x = n) (kb_facts (kb_of c))))"
proof (cases "concept_ids c concept")
  case None
  then show ?thesis by (simp add: kb_of_def describe_typed_def)
next
  case (Some i)
  note I = ctx_invD [OF inv] and b = ids_bound(1) [OF inv Some]
  let ?o = "owned ed_subject (edges c) i" and ?i = "owned ed_object (edges c) i"
  have bs: "\<forall>e \<in> set ?o. e < length (edges c)" "\<forall>e \<in> set ?i. e < length (edges c)" by (auto simp: set_owned)
  obtain us where us: "tally c ?o = Some us" "set us = usage_rows (filter (\<lambda>x. fa_subject x = cname c i) (facts c))"
     "sorted_wrt (\<lambda>a b. lu_count b \<le> lu_count a) us" "distinct (map lu_label us)"
    using tally_spec [OF inv bs(1)] unfolding owned_facts(1) [OF inv b] by blast
  obtain vs where vs: "tally c ?i = Some vs" "set vs = usage_rows (filter (\<lambda>x. fa_object x = cname c i) (facts c))"
     "sorted_wrt (\<lambda>a b. lu_count b \<le> lu_count a) vs" "distinct (map lu_label vs)"
    using tally_spec [OF inv bs(2)] unfolding owned_facts(2) [OF inv b] by blast
  note ts = live_types_spec [OF inv bs(1), of tn, unfolded owned_facts(1) [OF inv b]]
  have k: "kb_concepts (kb_of c) concept = Some (cname c i)" using Some by (simp add: kb_of_def)
  show ?thesis
    unfolding k option.case(2)
    by (rule exI) (use us vs ts chain_reads(1,2) [OF inv b] name_reads(1) [OF I(1) b] in
        \<open>auto simp: describe_typed_def Some\<close>)
qed

theorem describe_typed_correct_witness:
  "case kb_concepts (kb_of demo_ctx) (bytes ''tea'') of
       None \<Rightarrow> describe_typed demo_ctx (bytes ''tea'') (Some (bytes ''is'')) = Some None
     | Some n \<Rightarrow> \<exists>d. describe_typed demo_ctx (bytes ''tea'') (Some (bytes ''is'')) = Some (Some d) \<and> cd_concept d = n \<and>
         set (cd_as_subject d) = usage_rows (filter (\<lambda>x. fa_subject x = n) (kb_facts (kb_of demo_ctx))) \<and>
         set (cd_as_object d) = usage_rows (filter (\<lambda>x. fa_object x = n) (kb_facts (kb_of demo_ctx))) \<and>
         (\<forall>us \<in> {cd_as_subject d, cd_as_object d}.
            sorted_wrt (\<lambda>a b. lu_count b \<le> lu_count a) us \<and> distinct (map lu_label us)) \<and>
         cd_types d = sorted_list_of_set (types_among (kb_of demo_ctx) (Some (bytes ''is''))
           (filter (\<lambda>x. fa_subject x = n) (kb_facts (kb_of demo_ctx))))"
  by (rule describe_typed_correct [OF demo_ctx(1)])

section \<open>Label pages\<close>

lemma label_vocabulary:
  assumes inv: "ctx_inv U c"
  shows "sorted_wrt (<) (map fst (label_name_index c))" "set (map fst (label_name_index c)) = ran (kb_labels (kb_of c))"
proof -
  note I = ctx_invD [OF inv]
  have p: "page_ok (label_name_index c) (map (\<lambda>r. (name_at (arena c) r, ())) (label_ranges c))"
    using I(4) by (simp add: paging_inv_def)
  then show "sorted_wrt (<) (map fst (label_name_index c))" by (simp add: page_ok_def)
  have "set (map fst (label_name_index c)) = name_at (arena c) ` set (label_ranges c)"
    using p by (auto simp: page_ok_def image_image)
  also have "\<dots> = lname c ` {..<length (labels c)}"
    unfolding set_map image_image lname_def set_conv_nth [of "labels c"] by auto
  also have "\<dots> = ran (kb_labels (kb_of c))"
    using name_ids(2) [OF I(1)] ids_bound(2) [OF inv] by (auto simp: ran_def kb_of_def)
  finally show "set (map fst (label_name_index c)) = ran (kb_labels (kb_of c))" .
qed

lemma bt_after_names:
  assumes "sorted_wrt (<) (map fst ix)"
  shows "map fst (bt_after after ix) = sorted_list_of_set {n \<in> set (map fst ix). case after of None \<Rightarrow> True | Some a \<Rightarrow> a < n}"
proof (rule sorted_distinct_set_unique)
  have s: "sorted_wrt (<) (map fst (bt_after after ix))" using assms by (rule bt_after_sorted)
  then show "sorted (map fst (bt_after after ix))" "distinct (map fst (bt_after after ix))"
    by (simp_all add: strict_sorted_iff)
  show "set (map fst (bt_after after ix)) = set (sorted_list_of_set {n \<in> set (map fst ix). case after of None \<Rightarrow> True | Some a \<Rightarrow> a < n})"
    by (auto simp: bt_after_def split: option.split)
qed simp_all

text \<open>
  C24. A page of the label vocabulary without the excluded names: the total is the number of labels
  that are not excluded, whatever the cursor and however often a name is repeated in the exclusion
  list, so the subtraction never wraps, and the page is the first of them after the cursor in
  ascending order.
\<close>
theorem label_page_excluding_correct:
  assumes inv: "ctx_inv U c"
  shows "label_page_excluding c after limit excluded =
     (let V = ran (kb_labels (kb_of c)) - set excluded
      in (card V, take limit (sorted_list_of_set {n \<in> V. case after of None \<Rightarrow> True | Some a \<Rightarrow> a < n})))"
proof -
  define V where "V = ran (kb_labels (kb_of c)) - set excluded"
  note L = label_vocabulary [OF inv]
  let ?W = "ran (kb_labels (kb_of c))" and ?ix = "label_name_index c"
  have fin: "finite ?W" unfolding L(2) [symmetric] by simp
  have len: "length ?ix = card ?W"
    using L(1) distinct_card [of "map fst ?ix"] unfolding L(2) strict_sorted_iff by simp
  have "length (filter (\<lambda>n. n \<in> fst ` set ?ix) (remdups excluded)) = card (?W \<inter> set excluded)"
    unfolding L(2) [symmetric] by (subst distinct_card [symmetric]) (auto intro: arg_cong [of _ _ card])
  moreover have "card (?W \<inter> set excluded) \<le> card ?W" "card ?W - card (?W \<inter> set excluded) = card V"
    using fin by (simp_all add: card_mono V_def card_Diff_subset_Int)
  moreover have "filter (\<lambda>n. n \<notin> set excluded) (map fst (bt_after after ?ix))
      = sorted_list_of_set {n \<in> V. case after of None \<Rightarrow> True | Some a \<Rightarrow> a < n}"
    unfolding bt_after_names [OF L(1)] L(2)
    by (rule sorted_distinct_set_unique) (use fin in \<open>auto simp: V_def sorted_wrt_filter\<close>)
  moreover have "map fst (bt_after after ?ix) = sorted_list_of_set {n \<in> V. case after of None \<Rightarrow> True | Some a \<Rightarrow> a < n}"
      "V = ?W" if "excluded = []"
    using bt_after_names [OF L(1), of after] that unfolding L(2) by (simp_all add: V_def)
  ultimately show ?thesis
    by (simp add: label_page_excluding_def Let_def len usize_sub_def V_def [symmetric])
qed

theorem label_page_excluding_correct_witness:
  "label_page_excluding demo_ctx None 10 [bytes ''is'', bytes ''is''] =
     (let V = ran (kb_labels (kb_of demo_ctx)) - set [bytes ''is'', bytes ''is'']
      in (card V, take 10 (sorted_list_of_set {n \<in> V. case None of None \<Rightarrow> True | Some a \<Rightarrow> a < n})))"
  by (rule label_page_excluding_correct [OF demo_ctx(1)])

end
