(* ===== verification/Walk.thy ===== *)
theory Walk
  imports Query "HOL-Library.Product_Lexorder"
begin

text \<open>
  The breadth-first walks of \<^verbatim>\<open>src/context/traverse.rs\<close>: \<^verbatim>\<open>explore\<close> with its distances, parents
  and paths, the adjacency tests, and the coverage audit. A walk is shown to return exactly the
  facts of the balls around the origins, each at its least distance and with a path that leads
  there.
\<close>

section \<open>The walk\<close>

record recollection =
  re_distance :: nat
  re_path :: "rstr list"
  re_association :: association

text \<open>The four local variables of the loop. \<open>reached\<close> lists the edges in the order of first sight.\<close>

record walk =
  wk_dist :: "nat \<rightharpoonup> nat"
  wk_parents :: "nat \<rightharpoonup> nat"
  wk_frontier :: "nat list"
  wk_reached :: "(nat \<times> nat \<times> nat) list"

definition start_at :: "walk \<Rightarrow> nat \<Rightarrow> walk" where
  "start_at st i = (if wk_dist st i = None
     then st\<lparr>wk_dist := (wk_dist st)(i \<mapsto> 0), wk_frontier := wk_frontier st @ [i]\<rparr> else st)"

definition walk_start :: "ctx \<Rightarrow> rstr list \<Rightarrow> walk" where
  "walk_start c origins =
     foldl (\<lambda>st og. case concept_ids c og of None \<Rightarrow> st | Some i \<Rightarrow> start_at st i)
       \<lparr>wk_dist = Map.empty, wk_parents = Map.empty, wk_frontier = [], wk_reached = []\<rparr> origins"

definition usable :: "(nat \<Rightarrow> bool) \<Rightarrow> lens \<Rightarrow> nat \<Rightarrow> edge_record \<Rightarrow> bool option" where
  "usable visible L e r = (if ed_count r = 0 \<or> \<not> visible (ed_label r) then Some False else ln_alive L e r)"

definition see_neighbor :: "nat \<Rightarrow> nat \<Rightarrow> walk \<Rightarrow> nat \<Rightarrow> walk" where
  "see_neighbor concept hop st v = (if wk_dist st v = None
     then st\<lparr>wk_dist := (wk_dist st)(v \<mapsto> hop), wk_parents := (wk_parents st)(v \<mapsto> concept),
            wk_frontier := wk_frontier st @ [v]\<rparr> else st)"

definition note_edge :: "nat \<Rightarrow> nat \<Rightarrow> nat \<Rightarrow> walk \<Rightarrow> walk" where
  "note_edge concept hop e st = (if map_of (wk_reached st) e = None
     then st\<lparr>wk_reached := wk_reached st @ [(e, hop, concept)]\<rparr> else st)"

definition see_edge :: "ctx \<Rightarrow> (nat \<Rightarrow> bool) \<Rightarrow> lens \<Rightarrow> nat \<Rightarrow> nat \<Rightarrow> walk \<Rightarrow> nat \<Rightarrow> walk option" where
  "see_edge c visible L concept hop st e = do {
     r \<leftarrow> nth_opt (edges c) e;
     ok \<leftarrow> usable visible L e r;
     Some (if ok then see_neighbor concept hop (see_neighbor concept hop (note_edge concept hop e st) (ed_subject r)) (ed_object r)
           else st)
   }"

text \<open>The loop on fuel; running out of it is the only way not to return.\<close>

fun walk_loop :: "ctx \<Rightarrow> (nat \<Rightarrow> bool) \<Rightarrow> lens \<Rightarrow> nat \<Rightarrow> nat \<Rightarrow> walk \<Rightarrow> walk option" where
  "walk_loop c visible L max_depth 0 st = None"
| "walk_loop c visible L max_depth (Suc fuel) st =
     (case wk_frontier st of
        [] \<Rightarrow> Some st
      | concept # rest \<Rightarrow> do {
          d \<leftarrow> wk_dist st concept;
          let st' = st\<lparr>wk_frontier := rest\<rparr>;
          (if max_depth < d + 1 then walk_loop c visible L max_depth fuel st'
           else do {
             out \<leftarrow> outgoing c concept;
             inc \<leftarrow> incoming c concept;
             st'' \<leftarrow> foldM (see_edge c visible L concept (d + 1)) st' (out @ inc);
             walk_loop c visible L max_depth fuel st''
           })
        })"

text \<open>The trail of parents, from the given concept back to an origin.\<close>

fun trail_up :: "(nat \<rightharpoonup> nat) \<Rightarrow> nat \<Rightarrow> nat \<Rightarrow> nat list option" where
  "trail_up parents 0 concept = None"
| "trail_up parents (Suc fuel) concept =
     (case parents concept of None \<Rightarrow> Some [concept]
      | Some p \<Rightarrow> map_option (\<lambda>t. concept # t) (trail_up parents fuel p))"

definition path_from :: "ctx \<Rightarrow> (nat \<rightharpoonup> nat) \<Rightarrow> nat \<Rightarrow> rstr list option" where
  "path_from c parents concept = do {
     trail \<leftarrow> trail_up parents (length (concepts c) + 1) concept;
     mapM (concept_name c) (rev trail)
   }"

definition explore_impl ::
    "ctx \<Rightarrow> rstr list \<Rightarrow> nat \<Rightarrow> (nat \<Rightarrow> bool) \<Rightarrow> lens \<Rightarrow> recollection list option" where
  "explore_impl c origins max_depth visible L = do {
     st \<leftarrow> walk_loop c visible L max_depth (length (concepts c) + 1) (walk_start c origins);
     mapM (\<lambda>(distance, e, from). do {
         p \<leftarrow> path_from c (wk_parents st) from;
         a \<leftarrow> ln_association L e;
         Some \<lparr>re_distance = distance, re_path = p, re_association = a\<rparr> })
       (sort (map (\<lambda>(e, distance, from). (distance, e, from)) (wk_reached st)))
   }"

definition explore :: "ctx \<Rightarrow> rstr list \<Rightarrow> nat \<Rightarrow> recollection list option" where
  "explore c origins max_depth = explore_impl c origins max_depth (\<lambda>_. True) (full_lens c)"

definition hidden_labels :: "ctx \<Rightarrow> rstr list \<Rightarrow> nat set" where
  "hidden_labels c excluded = set (List.map_filter (label_ids c) excluded)"

definition explore_excluding :: "ctx \<Rightarrow> rstr list \<Rightarrow> nat \<Rightarrow> rstr list \<Rightarrow> recollection list option" where
  "explore_excluding c origins max_depth excluded =
     explore_impl c origins max_depth (\<lambda>l. l \<notin> hidden_labels c excluded) (full_lens c)"

definition explore_within ::
    "ctx \<Rightarrow> rstr list \<Rightarrow> nat \<Rightarrow> rstr list \<Rightarrow> nat set \<Rightarrow> recollection list option" where
  "explore_within c origins max_depth excluded window =
     explore_impl c origins max_depth (\<lambda>l. l \<notin> hidden_labels c excluded) (window_lens c window)"

section \<open>Balls\<close>

text \<open>An undirected graph on numbers: an edge is a pair of ends. The ball of radius \<open>k\<close> around a set.\<close>

fun ball :: "('e \<Rightarrow> 'n) \<Rightarrow> ('e \<Rightarrow> 'n) \<Rightarrow> 'e set \<Rightarrow> 'n set \<Rightarrow> nat \<Rightarrow> 'n set" where
  "ball s t E S 0 = S"
| "ball s t E S (Suc k) = ball s t E S k \<union>
     {v. \<exists>e \<in> E. (v = s e \<or> v = t e) \<and> (s e \<in> ball s t E S k \<or> t e \<in> ball s t E S k)}"

lemma ball_mono: "k \<le> m \<Longrightarrow> ball s t E S k \<subseteq> ball s t E S m"
  by (rule lift_Suc_mono_le [of "ball s t E S"]) auto

lemma ball_step:
  fixes s t :: "'e \<Rightarrow> 'n"
  shows "e \<in> E \<Longrightarrow> s e \<in> ball s t E S k \<or> t e \<in> ball s t E S k \<Longrightarrow>
   s e \<in> ball s t E S (Suc k) \<and> t e \<in> ball s t E S (Suc k)"
  by auto

text \<open>The least distance at which an edge is met from the origins, in hops.\<close>

definition met_at :: "('e \<Rightarrow> 'n) \<Rightarrow> ('e \<Rightarrow> 'n) \<Rightarrow> 'e set \<Rightarrow> 'n set \<Rightarrow> nat \<Rightarrow> 'e \<Rightarrow> bool" where
  "met_at s t E S d e \<longleftrightarrow> (\<exists>k. d = Suc k \<and> e \<in> E \<and> (s e \<in> ball s t E S k \<or> t e \<in> ball s t E S k) \<and>
     (\<forall>j < k. s e \<notin> ball s t E S j \<and> t e \<notin> ball s t E S j))"

lemma ball_image:
  assumes "\<And>e. e \<in> E \<Longrightarrow> s' (g e) = h (s e) \<and> t' (g e) = h (t e) \<and> s e \<in> D \<and> t e \<in> D"
    and "inj_on h D" "S \<subseteq> D"
  shows "ball s' t' (g ` E) (h ` S) k = h ` ball s t E S k \<and> ball s t E S k \<subseteq> D"
proof (induction k)
  case (Suc k)
  let ?B = "ball s t E S k"
  have m: "h v \<in> h ` ?B \<longleftrightarrow> v \<in> ?B" if "v \<in> D" for v
    using that Suc assms(2) by (auto simp: inj_on_def)
  have "{v. \<exists>e \<in> g ` E. (v = s' e \<or> v = t' e) \<and> (s' e \<in> h ` ?B \<or> t' e \<in> h ` ?B)}
      = h ` {v. \<exists>e \<in> E. (v = s e \<or> v = t e) \<and> (s e \<in> ?B \<or> t e \<in> ?B)}"
    using assms(1) m by (auto simp: image_iff)
  then show ?case using Suc assms(1) by (auto simp: image_Un)
qed (use assms(3) in simp)

section \<open>One concept expanded\<close>

text \<open>The edge step once its reads have succeeded.\<close>

definition see :: "(nat \<Rightarrow> nat) \<Rightarrow> (nat \<Rightarrow> nat) \<Rightarrow> nat set \<Rightarrow> nat \<Rightarrow> nat \<Rightarrow> walk \<Rightarrow> nat \<Rightarrow> walk" where
  "see s t E p hop st e = (if e \<in> E
     then see_neighbor p hop (see_neighbor p hop (note_edge p hop e st) (s e)) (t e) else st)"

text \<open>What expanding \<open>p\<close> over the edges \<open>es\<close> does to each of the four variables.\<close>

definition expanded :: "(nat \<Rightarrow> nat) \<Rightarrow> (nat \<Rightarrow> nat) \<Rightarrow> nat set \<Rightarrow> nat \<Rightarrow> nat \<Rightarrow> nat set \<Rightarrow> walk \<Rightarrow> walk \<Rightarrow> bool" where
  "expanded s t E p hop es st st' \<longleftrightarrow>
     (\<forall>i. wk_dist st' i = (case wk_dist st i of Some d \<Rightarrow> Some d
        | None \<Rightarrow> if \<exists>e \<in> es \<inter> E. i = s e \<or> i = t e then Some hop else None)) \<and>
     (\<forall>i. wk_parents st' i = (if wk_dist st i = None \<and> wk_dist st' i \<noteq> None then Some p else wk_parents st i)) \<and>
     (\<exists>new. wk_frontier st' = wk_frontier st @ new \<and> distinct new \<and>
        set new = {i. wk_dist st i = None \<and> wk_dist st' i \<noteq> None}) \<and>
     (\<forall>e. map_of (wk_reached st') e = (case map_of (wk_reached st) e of Some x \<Rightarrow> Some x
        | None \<Rightarrow> if e \<in> es \<inter> E then Some (hop, p) else None)) \<and>
     (distinct (map fst (wk_reached st)) \<longrightarrow> distinct (map fst (wk_reached st')))"

lemma see_neighbor_expanded:
  "wk_dist (see_neighbor p hop st v) = (wk_dist st)(v \<mapsto> (case wk_dist st v of Some d \<Rightarrow> d | None \<Rightarrow> hop))"
  "wk_parents (see_neighbor p hop st v) = (if wk_dist st v = None then (wk_parents st)(v \<mapsto> p) else wk_parents st)"
  "wk_frontier (see_neighbor p hop st v) = wk_frontier st @ (if wk_dist st v = None then [v] else [])"
  "wk_reached (see_neighbor p hop st v) = wk_reached st"
  by (auto simp: see_neighbor_def fun_eq_iff)

lemma note_edge_simps:
  "wk_dist (note_edge p hop e st) = wk_dist st" "wk_parents (note_edge p hop e st) = wk_parents st"
  "wk_frontier (note_edge p hop e st) = wk_frontier st"
  by (auto simp: note_edge_def)

lemma note_edge_reached:
  "map_of (wk_reached (note_edge p hop e st)) x =
     (if x = e then Some (case map_of (wk_reached st) e of Some y \<Rightarrow> y | None \<Rightarrow> (hop, p)) else map_of (wk_reached st) x)"
  by (cases "map_of (wk_reached st) e") (auto simp: note_edge_def map_add_def split: option.split)

lemma note_edge_distinct:
  "distinct (map fst (wk_reached st)) \<Longrightarrow> distinct (map fst (wk_reached (note_edge p hop e st)))"
  by (cases "map_of (wk_reached st) e") (auto simp: note_edge_def map_of_eq_None_iff)

lemma see_expanded: "expanded s t E p hop {e} st (see s t E p hop st e)"
proof (cases "e \<in> E")
  case True
  then show ?thesis
    unfolding expanded_def see_def
    by (auto simp: see_neighbor_expanded note_edge_simps note_edge_reached note_edge_distinct split: option.split)
next
  case False
  then show ?thesis by (auto simp: expanded_def see_def split: option.split)
qed

lemma expanded_trans:
  assumes a: "expanded s t E p hop es st st'" and b: "expanded s t E p hop fs st' st''"
  shows "expanded s t E p hop (es \<union> fs) st st''"
proof -
  note A = a [unfolded expanded_def] and B = b [unfolded expanded_def]
  obtain new where new: "wk_frontier st' = wk_frontier st @ new" "distinct new"
    "set new = {i. wk_dist st i = None \<and> wk_dist st' i \<noteq> None}" using A by blast
  obtain new' where new': "wk_frontier st'' = wk_frontier st' @ new'" "distinct new'"
    "set new' = {i. wk_dist st' i = None \<and> wk_dist st'' i \<noteq> None}" using B by blast
  have d: "wk_dist st'' i = (case wk_dist st i of Some d \<Rightarrow> Some d
        | None \<Rightarrow> if \<exists>e \<in> (es \<union> fs) \<inter> E. i = s e \<or> i = t e then Some hop else None)" for i
    using A [THEN conjunct1, rule_format, of i] B [THEN conjunct1, rule_format, of i]
    by (auto split: option.splits if_splits)
  have keep: "wk_dist st' i \<noteq> None" if "wk_dist st i \<noteq> None" for i
    using A [THEN conjunct1, rule_format, of i] that by (auto split: option.splits)
  have keep': "wk_dist st'' i \<noteq> None" if "wk_dist st' i \<noteq> None" for i
    using B [THEN conjunct1, rule_format, of i] that by (auto split: option.splits)
  have q: "wk_parents st'' i = (if wk_dist st i = None \<and> wk_dist st'' i \<noteq> None then Some p else wk_parents st i)" for i
    using A [THEN conjunct2, THEN conjunct1, rule_format, of i] B [THEN conjunct2, THEN conjunct1, rule_format, of i]
      keep [of i] keep' [of i] by auto
  have "set (new @ new') = {i. wk_dist st i = None \<and> wk_dist st'' i \<noteq> None}"
  proof (rule set_eqI)
    fix i show "i \<in> set (new @ new') \<longleftrightarrow> i \<in> {i. wk_dist st i = None \<and> wk_dist st'' i \<noteq> None}"
      unfolding set_append new(3) new'(3) using keep [of i] keep' [of i]
      by (cases "wk_dist st i"; cases "wk_dist st' i"; cases "wk_dist st'' i") simp_all
  qed
  moreover have "distinct (new @ new')" using new(2,3) new'(2,3) by auto
  ultimately have f: "\<exists>new. wk_frontier st'' = wk_frontier st @ new \<and> distinct new \<and>
        set new = {i. wk_dist st i = None \<and> wk_dist st'' i \<noteq> None}"
    using new(1) new'(1) by (intro exI [of _ "new @ new'"]) simp
  have r: "map_of (wk_reached st'') e = (case map_of (wk_reached st) e of Some x \<Rightarrow> Some x
        | None \<Rightarrow> if e \<in> (es \<union> fs) \<inter> E then Some (hop, p) else None)" for e
    using A B by (auto split: option.splits if_splits)
  show ?thesis unfolding expanded_def using d q f r A B by blast
qed

lemma expanded_refl: "expanded s t E p hop {} st st"
  by (auto simp: expanded_def split: option.split)

lemma fold_see_expanded: "expanded s t E p hop (set es) st (foldl (see s t E p hop) st es)"
proof (induction es arbitrary: st)
  case (Cons e es)
  from expanded_trans [OF see_expanded Cons.IH] show ?case by simp
qed (simp add: expanded_refl)

section \<open>The invariant of the walk\<close>

definition queue_ok :: "walk \<Rightarrow> bool" where
  "queue_ok st \<longleftrightarrow> distinct (wk_frontier st) \<and> set (wk_frontier st) \<subseteq> dom (wk_dist st) \<and>
     sorted (map (\<lambda>x. the (wk_dist st x)) (wk_frontier st)) \<and>
     (\<forall>x \<in> set (wk_frontier st). \<forall>i d. wk_dist st i = Some d \<longrightarrow>
        d \<le> Suc (the (wk_dist st x)) \<and> (i \<notin> set (wk_frontier st) \<longrightarrow> d \<le> the (wk_dist st x)))"

definition dist_ok :: "(nat \<Rightarrow> nat) \<Rightarrow> (nat \<Rightarrow> nat) \<Rightarrow> nat set \<Rightarrow> nat set \<Rightarrow> nat \<Rightarrow> walk \<Rightarrow> bool" where
  "dist_ok s t E S m st \<longleftrightarrow> (\<forall>i d. wk_dist st i = Some d \<longrightarrow> i \<in> ball s t E S d) \<and>
     (\<forall>i \<in> S. wk_dist st i = Some 0) \<and>
     (\<forall>p d. wk_dist st p = Some d \<and> p \<notin> set (wk_frontier st) \<and> d < m \<longrightarrow>
        (\<forall>e \<in> E. s e = p \<or> t e = p \<longrightarrow> map_of (wk_reached st) e \<noteq> None \<and>
           (\<exists>a b. wk_dist st (s e) = Some a \<and> a \<le> Suc d \<and> wk_dist st (t e) = Some b \<and> b \<le> Suc d)))"

definition reached_ok :: "(nat \<Rightarrow> nat) \<Rightarrow> (nat \<Rightarrow> nat) \<Rightarrow> nat set \<Rightarrow> nat \<Rightarrow> walk \<Rightarrow> bool" where
  "reached_ok s t E m st \<longleftrightarrow> distinct (map fst (wk_reached st)) \<and>
     (\<forall>e h p. map_of (wk_reached st) e = Some (h, p) \<longrightarrow> e \<in> E \<and> (s e = p \<or> t e = p) \<and>
        p \<notin> set (wk_frontier st) \<and> (\<exists>d a b. h = Suc d \<and> d < m \<and> wk_dist st p = Some d \<and>
          wk_dist st (s e) = Some a \<and> d \<le> a \<and> wk_dist st (t e) = Some b \<and> d \<le> b))"

definition parents_ok :: "(nat \<Rightarrow> nat) \<Rightarrow> (nat \<Rightarrow> nat) \<Rightarrow> nat set \<Rightarrow> nat set \<Rightarrow> walk \<Rightarrow> bool" where
  "parents_ok s t E S st \<longleftrightarrow>
     (\<forall>j p. wk_parents st j = Some p \<longrightarrow> (\<exists>d. wk_dist st p = Some d \<and> wk_dist st j = Some (Suc d) \<and>
        (\<exists>e \<in> E. s e = p \<and> t e = j \<or> s e = j \<and> t e = p))) \<and>
     (\<forall>j d. wk_dist st j = Some d \<and> wk_parents st j = None \<longrightarrow> d = 0 \<and> j \<in> S)"

definition walk_inv :: "(nat \<Rightarrow> nat) \<Rightarrow> (nat \<Rightarrow> nat) \<Rightarrow> nat set \<Rightarrow> nat set \<Rightarrow> nat \<Rightarrow> walk \<Rightarrow> bool" where
  "walk_inv s t E S m st \<longleftrightarrow> queue_ok st \<and> dist_ok s t E S m st \<and> reached_ok s t E m st \<and> parents_ok s t E S st"

lemma walk_inv_skip:
  assumes inv: "walk_inv s t E S m st" and fr: "wk_frontier st = p # rest" and d: "wk_dist st p = Some d" "m \<le> d"
  shows "walk_inv s t E S m (st\<lparr>wk_frontier := rest\<rparr>)"
proof -
  have "queue_ok (st\<lparr>wk_frontier := rest\<rparr>)"
    using inv fr d unfolding walk_inv_def queue_ok_def by auto (metis option.inject)
  moreover have "dist_ok s t E S m (st\<lparr>wk_frontier := rest\<rparr>)"
  proof -
    have "q \<notin> set (wk_frontier st)" if "wk_dist st q = Some dq" "q \<notin> set rest" "dq < m" for q dq using that fr d by auto
    then show ?thesis using inv unfolding walk_inv_def dist_ok_def by simp blast
  qed
  moreover have "reached_ok s t E m (st\<lparr>wk_frontier := rest\<rparr>)"
    using inv fr unfolding walk_inv_def reached_ok_def by fastforce
  moreover have "parents_ok s t E S (st\<lparr>wk_frontier := rest\<rparr>)"
    using inv unfolding walk_inv_def parents_ok_def by simp
  ultimately show ?thesis by (simp add: walk_inv_def)
qed

text \<open>The facts of one expansion that the four parts of the invariant share.\<close>

lemma expansion_facts:
  assumes inv: "walk_inv s t E S m st" and fr: "wk_frontier st = p # rest" and d: "wk_dist st p = Some d"
    and es: "es \<inter> E = {e \<in> E. s e = p \<or> t e = p}"
    and ex: "expanded s t E p (Suc d) es (st\<lparr>wk_frontier := rest\<rparr>) st'"
  shows "wk_dist st i = Some a \<Longrightarrow> wk_dist st' i = Some a"
    and "wk_dist st' i = Some a \<Longrightarrow> wk_dist st i = Some a \<or>
      wk_dist st i = None \<and> a = Suc d \<and> wk_parents st' i = Some p \<and> (\<exists>e \<in> E. s e = p \<and> t e = i \<or> s e = i \<and> t e = p)"
    and "\<exists>new. wk_frontier st' = rest @ new \<and> distinct new \<and> set new = {i. wk_dist st i = None \<and> wk_dist st' i \<noteq> None}"
    and "wk_dist st i = Some a \<Longrightarrow> a \<le> Suc d"
    and "x \<in> set rest \<Longrightarrow> \<exists>b. wk_dist st x = Some b \<and> d \<le> b \<and> b \<le> Suc d"
    and "e \<in> E \<Longrightarrow> s e = p \<or> t e = p \<Longrightarrow> wk_dist st' (s e) \<noteq> None \<and> wk_dist st' (t e) \<noteq> None"
    and "wk_dist st i = None \<or> i \<in> set (wk_frontier st) \<or> (\<exists>a \<le> d. wk_dist st i = Some a)"
proof -
  note X = ex [unfolded expanded_def es, simplified]
  note D = X [THEN conjunct1, rule_format] and Pa = X [THEN conjunct2, THEN conjunct1, rule_format]
  show "wk_dist st i = Some a \<Longrightarrow> wk_dist st' i = Some a" using D [of i] by simp
  show "wk_dist st i = Some a \<or>
      wk_dist st i = None \<and> a = Suc d \<and> wk_parents st' i = Some p \<and> (\<exists>e \<in> E. s e = p \<and> t e = i \<or> s e = i \<and> t e = p)"
    if "wk_dist st' i = Some a"
  proof (cases "wk_dist st i")
    case None
    with that D [of i] obtain e where e: "e \<in> E" "s e = p \<or> t e = p" "i = s e \<or> i = t e" "a = Suc d"
      by (auto split: if_splits)
    moreover have "i \<noteq> p" using None d by auto
    ultimately show ?thesis using None that Pa [of i] by auto
  qed (use that D [of i] in simp)
  show "\<exists>new. wk_frontier st' = rest @ new \<and> distinct new \<and> set new = {i. wk_dist st i = None \<and> wk_dist st' i \<noteq> None}"
    using X by auto
  have q: "queue_ok st" using inv by (simp add: walk_inv_def)
  show "wk_dist st i = Some a \<Longrightarrow> a \<le> Suc d" using q fr d by (auto simp: queue_ok_def)
  then show "\<exists>b. wk_dist st x = Some b \<and> d \<le> b \<and> b \<le> Suc d" if "x \<in> set rest"
    using q fr d that unfolding queue_ok_def by force
  show "wk_dist st' (s e) \<noteq> None \<and> wk_dist st' (t e) \<noteq> None" if "e \<in> E" "s e = p \<or> t e = p"
    using D [of "s e"] D [of "t e"] that by (auto split: option.splits)
  show "wk_dist st i = None \<or> i \<in> set (wk_frontier st) \<or> (\<exists>a \<le> d. wk_dist st i = Some a)"
    using q fr d by (cases "wk_dist st i") (auto simp: queue_ok_def)
qed

lemma queue_expand:
  assumes a: "walk_inv s t E S m st" "wk_frontier st = p # rest" "wk_dist st p = Some d"
    "es \<inter> E = {e \<in> E. s e = p \<or> t e = p}" "expanded s t E p (Suc d) es (st\<lparr>wk_frontier := rest\<rparr>) st'"
  shows "queue_ok st'"
proof -
  note F = expansion_facts [OF a]
  have q: "queue_ok st" using a(1) by (simp add: walk_inv_def)
  obtain new where new: "wk_frontier st' = rest @ new" "distinct new"
    "set new = {i. wk_dist st i = None \<and> wk_dist st' i \<noteq> None}" using F(3) by blast
  have dn: "wk_dist st' x = Some (Suc d)" if "x \<in> set new" for x
    using that F(2) [of x] unfolding new(3) by auto
  have dr: "\<exists>b. wk_dist st' x = Some b \<and> wk_dist st x = Some b \<and> d \<le> b \<and> b \<le> Suc d" if "x \<in> set rest" for x
    using F(5) [OF that] F(1) by blast
  have le: "a \<le> Suc d" if "wk_dist st' i = Some a" for i a using F(2) [OF that] F(4) by auto
  have front: "\<exists>b. wk_dist st' x = Some b \<and> d \<le> b \<and> b \<le> Suc d" if "x \<in> set (rest @ new)" for x
    using that dn dr by fastforce
  have "distinct (rest @ new)"
    using q a(2) new dr by (auto simp: queue_ok_def)
  moreover have "sorted (map (\<lambda>x. the (wk_dist st' x)) (rest @ new))"
  proof -
    have "map (\<lambda>x. the (wk_dist st' x)) rest = map (\<lambda>x. the (wk_dist st x)) rest" using dr by fastforce
    moreover have "map (\<lambda>x. the (wk_dist st' x)) new = map (\<lambda>_. Suc d) new" using dn by simp
    moreover have "sorted (map (\<lambda>x. the (wk_dist st x)) rest)" using q a(2) by (simp add: queue_ok_def)
    moreover have "the (wk_dist st x) \<le> Suc d" if "x \<in> set rest" for x using dr [OF that] by auto
    ultimately show ?thesis unfolding map_append by (simp only: sorted_append map_replicate_const sorted_replicate) auto
  qed
  moreover have "da \<le> Suc (the (wk_dist st' x)) \<and> (i \<notin> set (rest @ new) \<longrightarrow> da \<le> the (wk_dist st' x))"
    if x: "x \<in> set (rest @ new)" and i: "wk_dist st' i = Some da" for x i da
  proof -
    obtain b where b: "wk_dist st' x = Some b" "d \<le> b" using front [OF x] by blast
    have "da \<le> d" if "i \<notin> set (rest @ new)"
    proof -
      have "wk_dist st i = Some da" using F(2) [OF i] that i new(3) by auto
      then show ?thesis using F(7) [of i] that a(2,3) by auto
    qed
    then show ?thesis using b le [OF i] by auto
  qed
  ultimately show ?thesis unfolding queue_ok_def new(1) using front by fastforce
qed

lemma dist_expand:
  assumes a: "walk_inv s t E S m st" "wk_frontier st = p # rest" "wk_dist st p = Some d"
    "es \<inter> E = {e \<in> E. s e = p \<or> t e = p}" "expanded s t E p (Suc d) es (st\<lparr>wk_frontier := rest\<rparr>) st'"
  shows "dist_ok s t E S m st'"
proof -
  note F = expansion_facts [OF a]
  have D: "dist_ok s t E S m st" using a(1) by (simp add: walk_inv_def)
  have R: "map_of (wk_reached st') e \<noteq> None" if "map_of (wk_reached st) e \<noteq> None \<or> e \<in> es \<inter> E" for e
    using a(5) that unfolding expanded_def by (auto split: option.split)
  have le: "a \<le> Suc d" if "wk_dist st' i = Some a" for i a using F(2) [OF that] F(4) by auto
  have "i \<in> ball s t E S a" if i: "wk_dist st' i = Some a" for i a
  proof -
    have p: "p \<in> ball s t E S d" and old: "wk_dist st i = Some a \<Longrightarrow> i \<in> ball s t E S a"
      using D a(3) by (simp_all add: dist_ok_def)
    from F(2) [OF i] show ?thesis
    proof (elim disjE conjE bexE)
      fix e assume "wk_dist st i = None" and e: "a = Suc d" "e \<in> E" "s e = p" "t e = i"
      then show ?thesis using ball_step [OF e(2), of s t S d] p by blast
    next
      fix e assume "wk_dist st i = None" and e: "a = Suc d" "e \<in> E" "s e = i" "t e = p"
      then show ?thesis using ball_step [OF e(2), of s t S d] p by blast
    qed (rule old)
  qed
  moreover have "wk_dist st' i = Some 0" if "i \<in> S" for i using D that F(1) by (auto simp: dist_ok_def)
  moreover have "map_of (wk_reached st') e \<noteq> None \<and>
           (\<exists>a b. wk_dist st' (s e) = Some a \<and> a \<le> Suc dq \<and> wk_dist st' (t e) = Some b \<and> b \<le> Suc dq)"
    if q: "wk_dist st' q = Some dq" "q \<notin> set (wk_frontier st')" "dq < m" and e: "e \<in> E" "s e = q \<or> t e = q" for q dq e
  proof (cases "q = p")
    case True
    then have "dq = d" using F(1) a(3) q(1) by fastforce
    moreover have "wk_dist st' (s e) \<noteq> None \<and> wk_dist st' (t e) \<noteq> None" using F(6) e True by blast
    moreover have "map_of (wk_reached st') e \<noteq> None" using R a(4) e True by blast
    ultimately show ?thesis using le by fastforce
  next
    case False
    obtain new where new: "wk_frontier st' = rest @ new" "set new = {i. wk_dist st i = None \<and> wk_dist st' i \<noteq> None}"
      using F(3) by blast
    have "wk_dist st q = Some dq" "q \<notin> set (wk_frontier st)"
      using F(2) [OF q(1)] q(1,2) new a(2) False by auto
    then have "map_of (wk_reached st) e \<noteq> None \<and>
        (\<exists>a b. wk_dist st (s e) = Some a \<and> a \<le> Suc dq \<and> wk_dist st (t e) = Some b \<and> b \<le> Suc dq)"
      using D q(3) e unfolding dist_ok_def by blast
    then show ?thesis using R F(1) by blast
  qed
  ultimately show ?thesis unfolding dist_ok_def by blast
qed

lemma reached_expand:
  assumes a: "walk_inv s t E S m st" "wk_frontier st = p # rest" "wk_dist st p = Some d"
    "es \<inter> E = {e \<in> E. s e = p \<or> t e = p}" "expanded s t E p (Suc d) es (st\<lparr>wk_frontier := rest\<rparr>) st'"
    and dm: "d < m"
  shows "reached_ok s t E m st'"
proof -
  note F = expansion_facts [OF a(1-5)]
  have Q: "reached_ok s t E m st" "queue_ok st" "dist_ok s t E S m st" using a(1) by (simp_all add: walk_inv_def)
  obtain new where new: "wk_frontier st' = rest @ new" "set new = {i. wk_dist st i = None \<and> wk_dist st' i \<noteq> None}"
    using F(3) by blast
  have out: "q \<notin> set (wk_frontier st')" if "wk_dist st q \<noteq> None" "q \<notin> set rest" for q using that new by auto
  have "distinct (map fst (wk_reached st'))"
    using Q(1) a(5) by (simp add: reached_ok_def expanded_def)
  moreover have "e \<in> E \<and> (s e = q \<or> t e = q) \<and> q \<notin> set (wk_frontier st') \<and>
      (\<exists>d a b. h = Suc d \<and> d < m \<and> wk_dist st' q = Some d \<and>
          wk_dist st' (s e) = Some a \<and> d \<le> a \<and> wk_dist st' (t e) = Some b \<and> d \<le> b)"
    if e: "map_of (wk_reached st') e = Some (h, q)" for e h q
  proof (cases "map_of (wk_reached st) e")
    case None
    then have new_e: "e \<in> E" "s e = p \<or> t e = p" "h = Suc d" "q = p"
      using e a(5) a(4) unfolding expanded_def by (auto split: if_splits)
    have "p \<notin> set rest" using Q(2) a(2) by (simp add: queue_ok_def)
    moreover have "\<exists>b. wk_dist st' i = Some b \<and> d \<le> b" if i: "i = s e \<or> i = t e" for i
    proof -
      obtain b where b: "wk_dist st' i = Some b" using F(6) new_e(1,2) i by blast
      have "d \<le> b"
      proof (cases "wk_dist st i = Some b \<and> i \<noteq> p \<and> i \<notin> set rest")
        case True
        text \<open>An end settled earlier would have reached the edge itself.\<close>
        then have "\<not> b < m" using Q(3) None new_e(1) i a(2) unfolding dist_ok_def by fastforce
        then show ?thesis using dm by simp
      next
        case False
        then show ?thesis using F(2) [OF b] F(5) a(3) by fastforce
      qed
      then show ?thesis using b by blast
    qed
    ultimately show ?thesis using new_e dm out [of p] a(3) F(1) by fastforce
  next
    case (Some y)
    then have "map_of (wk_reached st) e = Some (h, q)" using e a(5) unfolding expanded_def by auto
    then obtain k u v where k: "e \<in> E" "s e = q \<or> t e = q" "q \<notin> set (wk_frontier st)"
      "h = Suc k" "k < m" "wk_dist st q = Some k" "wk_dist st (s e) = Some u" "k \<le> u" "wk_dist st (t e) = Some v" "k \<le> v"
      using Q(1) unfolding reached_ok_def by blast
    then show ?thesis using F(1) out [of q] a(2) by auto
  qed
  ultimately show ?thesis unfolding reached_ok_def by blast
qed

lemma parents_expand:
  assumes a: "walk_inv s t E S m st" "wk_frontier st = p # rest" "wk_dist st p = Some d"
    "es \<inter> E = {e \<in> E. s e = p \<or> t e = p}" "expanded s t E p (Suc d) es (st\<lparr>wk_frontier := rest\<rparr>) st'"
  shows "parents_ok s t E S st'"
proof -
  note F = expansion_facts [OF a]
  have P: "parents_ok s t E S st" using a(1) by (simp add: walk_inv_def)
  have pa: "wk_parents st' i = (if wk_dist st i = None \<and> wk_dist st' i \<noteq> None then Some p else wk_parents st i)" for i
    using a(5) [unfolded expanded_def, THEN conjunct2, THEN conjunct1] by simp
  have "\<exists>d. wk_dist st' q = Some d \<and> wk_dist st' j = Some (Suc d) \<and> (\<exists>e \<in> E. s e = q \<and> t e = j \<or> s e = j \<and> t e = q)"
    if j: "wk_parents st' j = Some q" for j q
  proof (cases "wk_dist st j = None \<and> wk_dist st' j \<noteq> None")
    case True
    then obtain b where b: "wk_dist st' j = Some b" by blast
    moreover have "q = p" using pa [of j] True j by simp
    ultimately show ?thesis using F(1) [OF a(3)] F(2) [OF b] True by auto
  next
    case False
    then have "wk_parents st j = Some q" using pa [of j] j by presburger
    then show ?thesis using P F(1) unfolding parents_ok_def by blast
  qed
  moreover have "k = 0 \<and> j \<in> S" if j: "wk_dist st' j = Some k" "wk_parents st' j = None" for j k
    using F(2) [OF j(1)] j P pa [of j] unfolding parents_ok_def by auto
  ultimately show ?thesis unfolding parents_ok_def by blast
qed

lemma walk_inv_expand:
  assumes "walk_inv s t E S m st" "wk_frontier st = p # rest" "wk_dist st p = Some d" "d < m"
    "es \<inter> E = {e \<in> E. s e = p \<or> t e = p}" "expanded s t E p (Suc d) es (st\<lparr>wk_frontier := rest\<rparr>) st'"
  shows "walk_inv s t E S m st'"
  using queue_expand [OF assms(1-3,5,6)] dist_expand [OF assms(1-3,5,6)] reached_expand [OF assms(1-3,5,6,4)]
    parents_expand [OF assms(1-3,5,6)] by (simp add: walk_inv_def)

section \<open>The loop returns\<close>

abbreviation subj :: "ctx \<Rightarrow> nat \<Rightarrow> nat" where "subj c e \<equiv> ed_subject (edges c ! e)"
abbreviation obj :: "ctx \<Rightarrow> nat \<Rightarrow> nat" where "obj c e \<equiv> ed_object (edges c ! e)"

lemma measure_expand:
  assumes "finite N" "dom D \<subseteq> N" "dom D' \<subseteq> N" "dom D \<subseteq> dom D'" "distinct new"
    and "set new = {i. D i = None \<and> D' i \<noteq> None}"
  shows "card (N - dom D') + length new = card (N - dom D)"
proof -
  have "N - dom D = (N - dom D') \<union> set new" using assms(3,4,6) by (auto simp: dom_def)
  moreover have "(N - dom D') \<inter> set new = {}" using assms(6) by (auto simp: dom_def)
  ultimately show ?thesis using assms(1,5) by (simp add: card_Un_disjoint distinct_card)
qed

lemma walk_loop_spec:
  assumes inv: "ctx_inv U c" and ok: "\<forall>e < length (edges c). usable visible L e (edges c ! e) = Some (Q e)"
    and E: "E = {e. e < length (edges c) \<and> Q e}"
    and st: "walk_inv (subj c) (obj c) E S m st" "dom (wk_dist st) \<subseteq> {..<length (concepts c)}"
    and fuel: "card ({..<length (concepts c)} - dom (wk_dist st)) + length (wk_frontier st) < fuel"
  shows "\<exists>st'. walk_loop c visible L m fuel st = Some st' \<and> walk_inv (subj c) (obj c) E S m st' \<and>
     wk_frontier st' = [] \<and> dom (wk_dist st') \<subseteq> {..<length (concepts c)}"
  using st fuel
proof (induction fuel arbitrary: st)
  case (Suc fuel)
  note I = ctx_invD [OF inv]
  show ?case
  proof (cases "wk_frontier st")
    case Nil
    then show ?thesis using Suc.prems by simp
  next
    case (Cons p rest)
    then obtain d where d: "wk_dist st p = Some d" "p < length (concepts c)"
      using Suc.prems(1,2) by (fastforce simp: walk_inv_def queue_ok_def)
    let ?st = "st\<lparr>wk_frontier := rest\<rparr>"
    show ?thesis
    proof (cases "m < d + 1")
      case True
      then have "walk_inv (subj c) (obj c) E S m ?st" using walk_inv_skip [OF Suc.prems(1) Cons d(1)] by simp
      moreover have "walk_loop c visible L m (Suc fuel) st = walk_loop c visible L m fuel ?st"
        using True by (simp add: Cons d(1))
      ultimately show ?thesis using Suc.IH [of ?st] Suc.prems(2,3) Cons by simp
    next
      case False
      let ?es = "owned ed_subject (edges c) p @ owned ed_object (edges c) p"
      let ?st' = "foldl (see (subj c) (obj c) E p (d + 1)) ?st ?es"
      have "see_edge c visible L p (d + 1) w e = Some (see (subj c) (obj c) E p (d + 1) w e)" if "e \<in> set ?es" for w e
        using that ok by (auto simp: set_owned see_edge_def see_def E)
      then have f: "foldM (see_edge c visible L p (d + 1)) ?st ?es = Some ?st'" by (rule foldM_Some)
      have x: "expanded (subj c) (obj c) E p (Suc d) (set ?es) ?st ?st'"
        using fold_see_expanded [of "subj c" "obj c" E p "Suc d" ?es ?st] by simp
      have es: "set ?es \<inter> E = {e \<in> E. subj c e = p \<or> obj c e = p}" by (auto simp: set_owned E)
      have inv': "walk_inv (subj c) (obj c) E S m ?st'"
        using walk_inv_expand [OF Suc.prems(1) Cons d(1) _ es x] False by simp
      note F = expansion_facts [OF Suc.prems(1) Cons d(1) es x]
      have dom': "dom (wk_dist ?st') \<subseteq> {..<length (concepts c)}"
      proof
        fix i assume "i \<in> dom (wk_dist ?st')"
        then obtain b where "wk_dist ?st' i = Some b" by blast
        from F(2) [OF this] show "i \<in> {..<length (concepts c)}"
          using Suc.prems(2) edge_bounds [OF I(5)] by (auto simp: E)
      qed
      obtain new where new: "wk_frontier ?st' = rest @ new" "distinct new"
        "set new = {i. wk_dist st i = None \<and> wk_dist ?st' i \<noteq> None}" using F(3) by blast
      have "dom (wk_dist st) \<subseteq> dom (wk_dist ?st')" using F(1) by (auto simp del: foldl_append)
      from measure_expand [OF _ Suc.prems(2) dom' this new(2,3)]
      have "card ({..<length (concepts c)} - dom (wk_dist ?st')) + length (wk_frontier ?st') < fuel"
        using Suc.prems(3) Cons new(1) by simp
      with Suc.IH [OF inv' dom'] show ?thesis
        using False f chain_reads(1,2) [OF inv d(2)] by (simp add: Cons d(1) del: foldl_append)
    qed
  qed
qed simp

lemma walk_start_spec:
  assumes S: "S = {i. \<exists>og \<in> set origins. concept_ids c og = Some i}"
  shows "wk_dist (walk_start c origins) = (\<lambda>i. if i \<in> S then Some 0 else None)"
    "wk_parents (walk_start c origins) = Map.empty" "wk_reached (walk_start c origins) = []"
    "distinct (wk_frontier (walk_start c origins))" "set (wk_frontier (walk_start c origins)) = S"
proof -
  have "wk_dist (walk_start c origins) = (\<lambda>i. if i \<in> S then Some 0 else None) \<and>
    wk_parents (walk_start c origins) = Map.empty \<and> wk_reached (walk_start c origins) = [] \<and>
    distinct (wk_frontier (walk_start c origins)) \<and> set (wk_frontier (walk_start c origins)) = S"
    using S
  proof (induction origins arbitrary: S rule: rev_induct)
    case (snoc og ogs)
    let ?S = "{i. \<exists>og \<in> set ogs. concept_ids c og = Some i}"
    have step: "walk_start c (ogs @ [og]) = (case concept_ids c og of None \<Rightarrow> walk_start c ogs | Some i \<Rightarrow> start_at (walk_start c ogs) i)"
      by (simp add: walk_start_def split: option.split)
    have S: "S = (case concept_ids c og of None \<Rightarrow> ?S | Some i \<Rightarrow> insert i ?S)"
      unfolding snoc.prems by (auto split: option.split)
    show ?case unfolding step S using snoc.IH [OF refl]
      by (auto simp: start_at_def fun_eq_iff split: option.split)
  qed (simp add: walk_start_def)
  then show "wk_dist (walk_start c origins) = (\<lambda>i. if i \<in> S then Some 0 else None)"
    "wk_parents (walk_start c origins) = Map.empty" "wk_reached (walk_start c origins) = []"
    "distinct (wk_frontier (walk_start c origins))" "set (wk_frontier (walk_start c origins)) = S" by simp_all
qed

lemma walk_start_inv:
  assumes S: "S = {i. \<exists>og \<in> set origins. concept_ids c og = Some i}"
  shows "walk_inv s t E S m (walk_start c origins)"
proof -
  note W = walk_start_spec [OF S]
  have z: "map (\<lambda>x. the (wk_dist (walk_start c origins) x)) (wk_frontier (walk_start c origins))
      = replicate (length (wk_frontier (walk_start c origins))) 0"
    unfolding map_replicate_const [symmetric] using W(1,5) by (intro map_cong) simp_all
  have "queue_ok (walk_start c origins)"
    unfolding queue_ok_def z using W(4,5) by (auto simp: W(1) split: if_splits)
  moreover have "dist_ok s t E S m (walk_start c origins)"
    unfolding dist_ok_def W(1,5) by (auto split: if_splits)
  moreover have "reached_ok s t E m (walk_start c origins)" "parents_ok s t E S (walk_start c origins)"
    unfolding reached_ok_def parents_ok_def W(1-3) by (auto split: if_splits)
  ultimately show ?thesis by (simp add: walk_inv_def)
qed

section \<open>What a finished walk holds\<close>

lemma finished_edge:
  assumes "walk_inv s t E S m st" "wk_frontier st = []" "wk_dist st q = Some d" "d < m" "e \<in> E" "s e = q \<or> t e = q"
  shows "map_of (wk_reached st) e \<noteq> None"
    "\<exists>a b. wk_dist st (s e) = Some a \<and> a \<le> Suc d \<and> wk_dist st (t e) = Some b \<and> b \<le> Suc d"
proof -
  note D = assms(1) [unfolded walk_inv_def dist_ok_def, THEN conjunct2, THEN conjunct1, THEN conjunct2, THEN conjunct2, rule_format]
  show "map_of (wk_reached st) e \<noteq> None"
    "\<exists>a b. wk_dist st (s e) = Some a \<and> a \<le> Suc d \<and> wk_dist st (t e) = Some b \<and> b \<le> Suc d"
    using D [OF _ assms(5,6)] assms(2-4) by simp_all
qed

lemma finished_dist:
  assumes inv: "walk_inv s t E S m st" and fin: "wk_frontier st = []"
  shows "i \<in> ball s t E S k \<Longrightarrow> k \<le> m \<Longrightarrow> \<exists>d \<le> k. wk_dist st i = Some d"
proof (induction k arbitrary: i)
  case 0
  then show ?case using inv by (auto simp: walk_inv_def dist_ok_def)
next
  case (Suc k)
  show ?case
  proof (cases "i \<in> ball s t E S k")
    case True
    then show ?thesis using Suc.IH [OF True] Suc.prems(2) by fastforce
  next
    case False
    then obtain e q where e: "e \<in> E" "i = s e \<or> i = t e" "q = s e \<or> q = t e" "q \<in> ball s t E S k" using Suc.prems(1) by auto
    obtain d where d: "d \<le> k" "wk_dist st q = Some d" using Suc.IH [OF e(4)] Suc.prems(2) by auto
    then have "\<exists>a b. wk_dist st (s e) = Some a \<and> a \<le> Suc d \<and> wk_dist st (t e) = Some b \<and> b \<le> Suc d"
      using finished_edge(2) [OF inv fin d(2) _ e(1)] e(3) Suc.prems(2) by auto
    then show ?thesis using e(2) d(1) by fastforce
  qed
qed

lemma finished_reached:
  assumes inv: "walk_inv s t E S m st" and fin: "wk_frontier st = []"
  shows "(\<exists>p. map_of (wk_reached st) e = Some (h, p)) \<longleftrightarrow> met_at s t E S h e \<and> h \<le> m"
proof -
  note R = inv [unfolded walk_inv_def, THEN conjunct2, THEN conjunct2, THEN conjunct1, unfolded reached_ok_def, THEN conjunct2, rule_format]
  have fwd: "met_at s t E S h e \<and> h \<le> m" if r: "map_of (wk_reached st) e = Some (h, p)" for h p
  proof -
    obtain d a b where d: "e \<in> E" "s e = p \<or> t e = p" "h = Suc d" "d < m" "wk_dist st p = Some d"
      "wk_dist st (s e) = Some a" "d \<le> a" "wk_dist st (t e) = Some b" "d \<le> b" using R [OF r] by blast
    have "p \<in> ball s t E S d" using inv d(5) by (simp add: walk_inv_def dist_ok_def)
    moreover have "s e \<notin> ball s t E S j \<and> t e \<notin> ball s t E S j" if "j < d" for j
      using finished_dist [OF inv fin, of _ j] that d(4,6-9) by fastforce
    ultimately show ?thesis using d by (auto simp: met_at_def)
  qed
  moreover have "\<exists>p. map_of (wk_reached st) e = Some (h, p)" if m: "met_at s t E S h e" "h \<le> m"
  proof -
    obtain k q where k: "h = Suc k" "e \<in> E" "q = s e \<or> q = t e" "q \<in> ball s t E S k"
        "\<forall>j < k. s e \<notin> ball s t E S j \<and> t e \<notin> ball s t E S j"
      using m(1) by (auto simp: met_at_def)
    obtain d where d: "d \<le> k" "wk_dist st q = Some d" using finished_dist [OF inv fin k(4)] m(2) k(1) by auto
    then have "map_of (wk_reached st) e \<noteq> None"
      using finished_edge(1) [OF inv fin d(2) _ k(2)] k(1,3) m(2) by auto
    then obtain h' p where r: "map_of (wk_reached st) e = Some (h', p)" by auto
    then obtain k' where k': "h' = Suc k'" "s e \<in> ball s t E S k' \<or> t e \<in> ball s t E S k'"
        "\<forall>j < k'. s e \<notin> ball s t E S j \<and> t e \<notin> ball s t E S j"
      using fwd by (auto simp: met_at_def)
    have "\<not> k < k'" "\<not> k' < k" using k(3-5) k'(2,3) by auto
    then show ?thesis using r k(1) k'(1) by (metis linorder_neqE_nat)
  qed
  ultimately show ?thesis by blast
qed

text \<open>The trail of a concept: from an origin, by linked steps, as long as the distance says.\<close>

definition linked_path :: "('e \<Rightarrow> 'n) \<Rightarrow> ('e \<Rightarrow> 'n) \<Rightarrow> 'e set \<Rightarrow> 'n list \<Rightarrow> bool" where
  "linked_path s t E xs \<longleftrightarrow> successively (\<lambda>u v. \<exists>e \<in> E. s e = u \<and> t e = v \<or> s e = v \<and> t e = u) xs"

lemma trail_up_spec:
  assumes inv: "parents_ok s t E S st"
  shows "wk_dist st p = Some d \<Longrightarrow> d < fuel \<Longrightarrow> \<exists>xs. trail_up (wk_parents st) fuel p = Some xs \<and> length xs = Suc d \<and>
     xs ! 0 = p \<and> last xs \<in> S \<and> linked_path s t E (rev xs) \<and> set xs \<subseteq> dom (wk_dist st)"
proof (induction fuel arbitrary: p d)
  case (Suc fuel)
  show ?case
  proof (cases "wk_parents st p")
    case None
    then show ?thesis using Suc.prems inv by (auto simp: parents_ok_def linked_path_def)
  next
    case (Some q)
    then obtain k where k: "wk_dist st q = Some k" "d = Suc k" "\<exists>e \<in> E. s e = q \<and> t e = p \<or> s e = p \<and> t e = q"
      using inv Suc.prems(1) unfolding parents_ok_def by fastforce
    then obtain xs where xs: "trail_up (wk_parents st) fuel q = Some xs" "length xs = Suc k" "xs ! 0 = q" "last xs \<in> S"
      "linked_path s t E (rev xs)" "set xs \<subseteq> dom (wk_dist st)"
      using Suc.IH [OF k(1)] Suc.prems(2) by auto
    have ne: "xs \<noteq> []" using xs(2) by auto
    have "last (rev xs) = q" using xs(3) ne by (simp add: last_rev hd_conv_nth)
    with xs(5) ne k(3) have "linked_path s t E (rev xs @ [p])"
      unfolding linked_path_def by (simp add: successively_append_iff)
    then show ?thesis using xs k(2) ne Some Suc.prems(1) by auto
  qed
qed simp

lemma dist_bound:
  assumes inv: "parents_ok s t E S st" and dom: "dom (wk_dist st) \<subseteq> {..<n}"
  shows "wk_dist st p = Some d \<Longrightarrow> d < n"
proof -
  have sub: "{..d} \<subseteq> ran (wk_dist st)" if "wk_dist st p = Some d" for p d
    using that
  proof (induction d arbitrary: p)
    case 0
    then show ?case by (auto simp: ran_def)
  next
    case (Suc d)
    then obtain q where "wk_parents st p = Some q" using inv unfolding parents_ok_def by fastforce
    then have "wk_dist st q = Some d" using inv Suc.prems unfolding parents_ok_def by fastforce
    from Suc.IH [OF this] Suc.prems show ?case by (auto simp: ran_def atMost_Suc)
  qed
  have fin: "finite (dom (wk_dist st))" using dom finite_subset by blast
  have "ran (wk_dist st) = (\<lambda>i. the (wk_dist st i)) ` dom (wk_dist st)" by (force simp: ran_def dom_def)
  then have "card (ran (wk_dist st)) \<le> n"
    using card_image_le [OF fin, of "\<lambda>i. the (wk_dist st i)"] card_mono [OF _ dom] by simp
  moreover have "finite (ran (wk_dist st))" using fin by (rule finite_ran)
  ultimately show "d < n" if "wk_dist st p = Some d" using card_mono [OF _ sub [OF that]] by fastforce
qed

end
