(* ===== verification/Explore.thy ===== *)
theory Explore
  imports Walk
begin

text \<open>
  \<^verbatim>\<open>explore\<close> on facts: the walk over record ids carried over to the names and facts they stand for,
  for every lens, and the audits that rest on the same walk.
\<close>

section \<open>From ids to facts\<close>

definition origin_names :: "kb \<Rightarrow> rstr list \<Rightarrow> rstr set" where
  "origin_names k origins = {n. \<exists>og \<in> set origins. kb_concepts k og = Some n}"

definition conducting :: "(fact \<Rightarrow> bool) \<Rightarrow> kb \<Rightarrow> fact set" where
  "conducting Q k = {x \<in> set (kb_facts k). fa_count x \<noteq> 0 \<and> Q x}"

lemma met_at_image:
  assumes h: "\<And>e. e \<in> E \<Longrightarrow> s' (g e) = h (s e) \<and> t' (g e) = h (t e) \<and> s e \<in> D \<and> t e \<in> D"
    and inj: "inj_on h D" "S \<subseteq> D" and e: "g e \<in> g ` E \<longleftrightarrow> e \<in> E"
  shows "met_at s' t' (g ` E) (h ` S) d (g e) \<longleftrightarrow> met_at s t E S d e"
proof (cases "e \<in> E")
  case True
  have B: "ball s' t' (g ` E) (h ` S) k = h ` ball s t E S k" "ball s t E S k \<subseteq> D" for k
    using ball_image [of E s' g h s t' t D, OF h inj] by blast+
  have m: "h v \<in> h ` ball s t E S k \<longleftrightarrow> v \<in> ball s t E S k" if "v \<in> D" for v k
    using that B(2) [of k] inj(1) by (auto simp: inj_on_def)
  show ?thesis using h [OF True] True e m unfolding met_at_def B(1) by simp
next
  case False
  then show ?thesis using e by (simp add: met_at_def)
qed

lemma concat_pairs_sorted:
  "sorted_wrt (<) ds \<Longrightarrow> (\<And>d. sorted_wrt (<) (xs d)) \<Longrightarrow>
     sorted_wrt (<) (concat (map (\<lambda>d. map (\<lambda>e. (d :: nat, e :: nat, f e :: nat)) (xs d)) ds))"
proof (induction ds)
  case (Cons d ds)
  have "sorted_wrt (<) (map (\<lambda>e. (d, e, f e)) (xs d))"
    using Cons.prems(2) [of d] by (auto simp: sorted_wrt_map intro: sorted_wrt_mono_rel)
  moreover have "(d, e, f e) < q" if "q \<in> set (concat (map (\<lambda>d. map (\<lambda>e. (d, e, f e)) (xs d)) ds))" for e q
    using that Cons.prems(1) by (auto simp: less_prod_def)
  ultimately show ?case using Cons by (auto simp: sorted_wrt_append)
qed simp

context edge_lens
begin

lemma explore_walk:
  assumes inv: "ctx_inv U c" and vis: "\<forall>l < length (labels c). visible l \<longleftrightarrow> VQ (lname c l)"
    and E: "E = {e. e < length (edges c) \<and> (fa_count (fact_of c e) \<noteq> 0 \<and> VQ (fa_label (fact_of c e)) \<and> P c (fact_of c e))}"
    and S: "S = {i. \<exists>og \<in> set origins. concept_ids c og = Some i}"
  shows "\<exists>st. walk_loop c visible (lens c) m (length (concepts c) + 1) (walk_start c origins) = Some st \<and>
     walk_inv (subj c) (obj c) E S m st \<and> wk_frontier st = [] \<and> dom (wk_dist st) \<subseteq> {..<length (concepts c)}"
proof -
  let ?Q = "\<lambda>e. fa_count (fact_of c e) \<noteq> 0 \<and> VQ (fa_label (fact_of c e)) \<and> P c (fact_of c e)"
  have u: "\<forall>e < length (edges c). usable visible (lens c) e (edges c ! e) = Some (?Q e)"
    using alive [OF inv] edge_bounds(3) [OF ctx_invD(5) [OF inv]] vis by (simp add: usable_def fact_names)
  have Sb: "S \<subseteq> {..<length (concepts c)}" using ids_bound(1) [OF inv] by (auto simp: S)
  note W = walk_start_spec [OF S]
  have d: "dom (wk_dist (walk_start c origins)) = S" by (auto simp: W(1) dom_def split: if_splits)
  have "card ({..<length (concepts c)} - S) + card S = length (concepts c)"
    using Sb by (metis card_Diff_subset card_lessThan card_mono finite_lessThan finite_subset le_add_diff_inverse2)
  moreover have "length (wk_frontier (walk_start c origins)) = card S" using W(4,5) distinct_card by metis
  ultimately show ?thesis
    using walk_loop_spec [OF inv u E walk_start_inv [OF S], where m = m and fuel = "length (concepts c) + 1"] d Sb
    by (simp del: walk_loop.simps)
qed

lemma explore_ids:
  assumes inv: "ctx_inv U c" and vis: "\<forall>l < length (labels c). visible l \<longleftrightarrow> VQ (lname c l)"
    and E: "E = {e. e < length (edges c) \<and> (fa_count (fact_of c e) \<noteq> 0 \<and> VQ (fa_label (fact_of c e)) \<and> P c (fact_of c e))}"
    and S: "S = {i. \<exists>og \<in> set origins. concept_ids c og = Some i}"
  shows "\<exists>pf. explore_impl c origins m visible (lens c) =
       Some (map (\<lambda>(d, e). \<lparr>re_distance = d, re_path = map (cname c) (pf e), re_association = V c (fact_of c e)\<rparr>)
         (concat (map (\<lambda>d. map (Pair d) (filter (met_at (subj c) (obj c) E S d) [0..<length (edges c)])) [1..<Suc m]))) \<and>
     (\<forall>d e. met_at (subj c) (obj c) E S d e \<and> d \<le> m \<longrightarrow> length (pf e) = d \<and> hd (pf e) \<in> S \<and>
        linked_path (subj c) (obj c) E (pf e) \<and> set (pf e) \<subseteq> {..<length (concepts c)} \<and>
        (last (pf e) = subj c e \<or> last (pf e) = obj c e))"
proof -
  let ?n = "length (concepts c)"
  obtain st where st: "walk_loop c visible (lens c) m (?n + 1) (walk_start c origins) = Some st"
     "walk_inv (subj c) (obj c) E S m st" "wk_frontier st = []" "dom (wk_dist st) \<subseteq> {..<?n}"
    using explore_walk [OF inv vis E S] by blast
  note R = finished_reached [OF st(2,3)]
  have ok: "reached_ok (subj c) (obj c) E m st" "parents_ok (subj c) (obj c) E S st" using st(2) by (simp_all add: walk_inv_def)
  let ?from = "\<lambda>e. snd (the (map_of (wk_reached st) e))"
  let ?pf = "\<lambda>e. rev (the (trail_up (wk_parents st) (?n + 1) (?from e)))"
  let ?T = "concat (map (\<lambda>d. map (\<lambda>e. (d, e, ?from e)) (filter (met_at (subj c) (obj c) E S d) [0..<length (edges c)])) [1..<Suc m])"
  have path: "\<exists>xs. trail_up (wk_parents st) (?n + 1) (?from e) = Some xs \<and> length xs = d \<and> hd (rev xs) \<in> S \<and>
      linked_path (subj c) (obj c) E (rev xs) \<and> set xs \<subseteq> {..<?n} \<and> (last (rev xs) = subj c e \<or> last (rev xs) = obj c e)"
    if met: "met_at (subj c) (obj c) E S d e" "d \<le> m" for d e
  proof -
    obtain p where p: "map_of (wk_reached st) e = Some (d, p)" using R [THEN iffD2, OF conjI, OF met] by blast
    then obtain k where k: "d = Suc k" "wk_dist st p = Some k" "subj c e = p \<or> obj c e = p"
      using ok(1) [unfolded reached_ok_def, THEN conjunct2, rule_format, OF p] by blast
    have "k < ?n + 1" using dist_bound [OF ok(2) st(4) k(2)] by simp
    from trail_up_spec [OF ok(2) k(2) this]
    obtain xs where xs: "trail_up (wk_parents st) (?n + 1) p = Some xs" "length xs = Suc k" "xs ! 0 = p" "last xs \<in> S"
      "linked_path (subj c) (obj c) E (rev xs)" "set xs \<subseteq> dom (wk_dist st)" by blast
    have ne: "xs \<noteq> []" using xs(2) by auto
    have "hd (rev xs) \<in> S" "last (rev xs) = p" using xs(3,4) ne by (simp_all add: hd_rev last_rev hd_conv_nth)
    moreover have "set xs \<subseteq> {..<?n}" using xs(6) st(4) by blast
    ultimately show ?thesis using xs(1,2,5) k(1,3) p by (intro exI [of _ xs]) (auto simp del: trail_up.simps)
  qed
  have "sort (map (\<lambda>(e, d, f). (d, e, f)) (wk_reached st)) = ?T"
  proof (rule sorted_distinct_set_unique)
    have s: "sorted_wrt (<) ?T" by (intro concat_pairs_sorted) (simp_all add: sorted_wrt_filter sorted_wrt_upt del: upt_Suc)
    then show "sorted ?T" "distinct ?T" by (simp_all add: strict_sorted_iff)
    have "distinct (map fst (wk_reached st))" using ok(1) by (simp add: reached_ok_def)
    then have "distinct (wk_reached st)" by (simp add: distinct_map)
    moreover have "inj_on (\<lambda>(e, d, f). (d, e, f)) (set (wk_reached st))" by (auto intro: inj_onI)
    ultimately show "distinct (sort (map (\<lambda>(e, d, f). (d, e, f)) (wk_reached st)))" by (simp add: distinct_map)
    have lt: "e < length (edges c) \<and> 1 \<le> d" if "met_at (subj c) (obj c) E S d e" for d e using that E by (auto simp: met_at_def)
    have inT: "(d, e, f) \<in> set ?T \<longleftrightarrow> met_at (subj c) (obj c) E S d e \<and> d \<le> m \<and> f = ?from e" for d e f
      using lt [of d e] by (auto simp del: upt_Suc simp: image_iff)
    have inR: "(e, d, f) \<in> set (wk_reached st) \<longleftrightarrow> map_of (wk_reached st) e = Some (d, f)" for d e f
      using ok(1) by (auto simp: reached_ok_def)
    have mem: "(d, e, f) \<in> set ?T \<longleftrightarrow> (e, d, f) \<in> set (wk_reached st)" for d e f
      unfolding inT inR using R [of e d] by auto
    show "set (sort (map (\<lambda>(e, d, f). (d, e, f)) (wk_reached st))) = set ?T"
    proof (rule set_eqI)
      fix q show "q \<in> set (sort (map (\<lambda>(e, d, f). (d, e, f)) (wk_reached st))) \<longleftrightarrow> q \<in> set ?T"
        using mem [of "fst q" "fst (snd q)" "snd (snd q)"] by (force simp del: set_concat)
    qed
  qed simp
  moreover have "mapM (\<lambda>(d, e, f). do { p \<leftarrow> path_from c (wk_parents st) f; a \<leftarrow> ln_association (lens c) e;
         Some \<lparr>re_distance = d, re_path = p, re_association = a\<rparr> }) ?T
      = Some (map (\<lambda>(d, e, f). \<lparr>re_distance = d, re_path = map (cname c) (?pf e), re_association = V c (fact_of c e)\<rparr>) ?T)"
  proof (rule mapM_Some)
    fix q assume "q \<in> set ?T"
    then obtain d e where q: "q = (d, e, ?from e)" "met_at (subj c) (obj c) E S d e" "d \<le> m" "e < length (edges c)" by auto
    obtain xs where xs: "trail_up (wk_parents st) (?n + 1) (?from e) = Some xs" "set xs \<subseteq> {..<?n}" using path [OF q(2,3)] by blast
    then have "mapM (concept_name c) (rev xs) = Some (map (cname c) (rev xs))"
      using name_reads(1) [OF ctx_invD(1) [OF inv]] by (intro mapM_Some) auto
    then show "(case q of (d, e, f) \<Rightarrow> do { p \<leftarrow> path_from c (wk_parents st) f; a \<leftarrow> ln_association (lens c) e;
         Some \<lparr>re_distance = d, re_path = p, re_association = a\<rparr> })
      = Some (case q of (d, e, f) \<Rightarrow> \<lparr>re_distance = d, re_path = map (cname c) (?pf e), re_association = V c (fact_of c e)\<rparr>)"
      using q(1) xs(1) assoc [OF inv q(4)] by (simp add: path_from_def)
  qed
  moreover have "map (\<lambda>(d, e, f). \<lparr>re_distance = d, re_path = map (cname c) (?pf e), re_association = V c (fact_of c e)\<rparr>) ?T
      = map (\<lambda>(d, e). \<lparr>re_distance = d, re_path = map (cname c) (?pf e), re_association = V c (fact_of c e)\<rparr>)
         (concat (map (\<lambda>d. map (Pair d) (filter (met_at (subj c) (obj c) E S d) [0..<length (edges c)])) [1..<Suc m]))"
    by (simp add: map_concat comp_def)
  ultimately have "explore_impl c origins m visible (lens c) =
       Some (map (\<lambda>(d, e). \<lparr>re_distance = d, re_path = map (cname c) (?pf e), re_association = V c (fact_of c e)\<rparr>)
         (concat (map (\<lambda>d. map (Pair d) (filter (met_at (subj c) (obj c) E S d) [0..<length (edges c)])) [1..<Suc m])))"
    using st(1) by (simp add: explore_impl_def del: map_concat)
  then show ?thesis using path by (intro exI [of _ ?pf]) fastforce
qed

text \<open>What a walk reports, on facts: per distance, in storage order, and a path for each.\<close>

lemma explore_spec:
  assumes inv: "ctx_inv U c" and vis: "\<forall>l < length (labels c). visible l \<longleftrightarrow> VQ (lname c l)"
    and E: "E = conducting (\<lambda>x. VQ (fa_label x) \<and> P c x) (kb_of c)" and S: "S = origin_names (kb_of c) origins"
  shows "\<exists>rs. explore_impl c origins m visible (lens c) = Some rs \<and>
     map (\<lambda>r. (re_distance r, re_association r)) rs =
       concat (map (\<lambda>d. map (\<lambda>x. (d, V c x)) (filter (met_at fa_subject fa_object E S d) (facts c))) [1..<Suc m]) \<and>
     (\<forall>r \<in> set rs. length (re_path r) = re_distance r \<and> hd (re_path r) \<in> S \<and>
        linked_path fa_subject fa_object E (re_path r) \<and>
        (\<exists>x \<in> E. re_association r = V c x \<and> last (re_path r) \<in> {fa_subject x, fa_object x}))"
proof -
  note I = ctx_invD [OF inv]
  let ?n = "length (concepts c)" and ?g = "fact_of c" and ?h = "cname c"
  define Ei where "Ei = {e. e < length (edges c) \<and> (fa_count (?g e) \<noteq> 0 \<and> VQ (fa_label (?g e)) \<and> P c (?g e))}"
  define Si where "Si = {i. \<exists>og \<in> set origins. concept_ids c og = Some i}"
  have b: "subj c e < ?n" "obj c e < ?n" if "e < length (edges c)" for e using edge_bounds [OF I(5) that] by simp_all
  have inj: "inj_on ?h {..<?n}" using name_ids(1) [OF I(1)] by (auto simp: inj_on_def) (metis option.inject)
  have Sb: "Si \<subseteq> {..<?n}" using ids_bound(1) [OF inv] by (auto simp: Si_def)
  have Eg: "?g ` Ei = E" by (auto simp: E conducting_def Ei_def facts_def)
  have Sh: "?h ` Si = S" by (auto simp: S origin_names_def Si_def kb_of_def)
  have ends: "fa_subject (?g e) = ?h (subj c e) \<and> fa_object (?g e) = ?h (obj c e) \<and> subj c e \<in> {..<?n} \<and> obj c e \<in> {..<?n}"
    if "e \<in> Ei" for e using that b by (simp add: fact_names Ei_def)
  have met: "met_at fa_subject fa_object E S d (?g e) \<longleftrightarrow> met_at (subj c) (obj c) Ei Si d e" if "e < length (edges c)" for d e
  proof -
    have "?g e \<in> ?g ` Ei \<longleftrightarrow> e \<in> Ei" using that by (auto simp: Ei_def)
    from met_at_image [of Ei fa_subject ?g ?h "subj c" fa_object "obj c" "{..<?n}", OF ends inj Sb this]
    show ?thesis by (simp add: Eg Sh)
  qed
  obtain pf where pf: "explore_impl c origins m visible (lens c) =
       Some (map (\<lambda>(d, e). \<lparr>re_distance = d, re_path = map ?h (pf e), re_association = V c (?g e)\<rparr>)
         (concat (map (\<lambda>d. map (Pair d) (filter (met_at (subj c) (obj c) Ei Si d) [0..<length (edges c)])) [1..<Suc m])))"
     "\<forall>d e. met_at (subj c) (obj c) Ei Si d e \<and> d \<le> m \<longrightarrow> length (pf e) = d \<and> hd (pf e) \<in> Si \<and>
        linked_path (subj c) (obj c) Ei (pf e) \<and> set (pf e) \<subseteq> {..<?n} \<and> (last (pf e) = subj c e \<or> last (pf e) = obj c e)"
    using explore_ids [OF inv vis Ei_def Si_def] by blast
  have flt: "map (\<lambda>x. (d, V c x)) (filter (met_at fa_subject fa_object E S d) (facts c))
      = map (\<lambda>e. (d, V c (?g e))) (filter (met_at (subj c) (obj c) Ei Si d) [0..<length (edges c)])" for d
    using met unfolding facts_def filter_map map_map comp_def by (intro map_cong filter_cong) auto
  have path: "length (map ?h (pf e)) = d \<and> hd (map ?h (pf e)) \<in> S \<and> linked_path fa_subject fa_object E (map ?h (pf e)) \<and>
      ?g e \<in> E \<and> last (map ?h (pf e)) \<in> {fa_subject (?g e), fa_object (?g e)}"
    if m: "met_at (subj c) (obj c) Ei Si d e" "d \<le> m" for d e
  proof -
    have e: "e \<in> Ei" "0 < d" using m(1) by (auto simp: met_at_def)
    have p: "length (pf e) = d" "hd (pf e) \<in> Si" "linked_path (subj c) (obj c) Ei (pf e)"
      "last (pf e) = subj c e \<or> last (pf e) = obj c e" using pf(2) m by blast+
    have "linked_path fa_subject fa_object E (map ?h (pf e))"
      using p(3) unfolding linked_path_def successively_map Eg [symmetric]
      by (rule successively_mono) (use ends in blast)
    moreover have "pf e \<noteq> []" using p(1) e(2) by auto
    ultimately show ?thesis using p e ends [OF e(1)] Eg Sh by (auto simp: hd_map last_map)
  qed
  show ?thesis
  proof (intro exI conjI, rule pf(1))
    show "map (\<lambda>r. (re_distance r, re_association r))
       (map (\<lambda>(d, e). \<lparr>re_distance = d, re_path = map ?h (pf e), re_association = V c (?g e)\<rparr>)
         (concat (map (\<lambda>d. map (Pair d) (filter (met_at (subj c) (obj c) Ei Si d) [0..<length (edges c)])) [1..<Suc m])))
      = concat (map (\<lambda>d. map (\<lambda>x. (d, V c x)) (filter (met_at fa_subject fa_object E S d) (facts c))) [1..<Suc m])"
      by (simp add: flt map_concat comp_def del: upt_Suc)
  qed (use path in \<open>fastforce simp del: upt_Suc\<close>)
qed

end

section \<open>Properties\<close>

lemma hidden_labels_names:
  assumes inv: "ctx_inv U c"
  shows "\<forall>l < length (labels c). l \<notin> hidden_labels c excluded \<longleftrightarrow> (\<forall>n \<in> set excluded. kb_labels (kb_of c) n \<noteq> Some (lname c l))"
proof (intro allI impI)
  fix l assume l: "l < length (labels c)"
  have "l \<in> hidden_labels c excluded \<longleftrightarrow> (\<exists>n \<in> set excluded. label_ids c n = Some l)"
    unfolding hidden_labels_def by (induction excluded) (auto simp: map_filter_simps split: option.splits)
  then show "l \<notin> hidden_labels c excluded \<longleftrightarrow> (\<forall>n \<in> set excluded. kb_labels (kb_of c) n \<noteq> Some (lname c l))"
    using kb_ids_iff(2) [OF inv l] by blast
qed

definition shown :: "kb \<Rightarrow> rstr list \<Rightarrow> fact \<Rightarrow> bool" where
  "shown k excluded x \<longleftrightarrow> (\<forall>n \<in> set excluded. kb_labels k n \<noteq> Some (fa_label x))"

text \<open>
  C11. Exploring from a set of origins returns every live fact under a label that is not hidden
  whose nearer end is at most \<open>max_depth - 1\<close> hops away, each once, at its least distance, by
  ascending distance and then in storage order. Hidden and dead facts neither appear nor bridge.
  Each result has a path as long as its distance that starts at an origin, takes one conducting
  fact per step and ends at an end of the fact. The walk terminates and no read panics.
\<close>
theorem explore_excluding_correct:
  assumes inv: "ctx_inv U c"
    and E: "E = conducting (shown (kb_of c) excluded) (kb_of c)" and S: "S = origin_names (kb_of c) origins"
  shows "\<exists>rs. explore_excluding c origins m excluded = Some rs \<and>
     map (\<lambda>r. (re_distance r, re_association r)) rs =
       concat (map (\<lambda>d. map (\<lambda>x. (d, assoc_of x)) (filter (met_at fa_subject fa_object E S d) (kb_facts (kb_of c)))) [1..<Suc m]) \<and>
     (\<forall>r \<in> set rs. length (re_path r) = re_distance r \<and> hd (re_path r) \<in> S \<and>
        linked_path fa_subject fa_object E (re_path r) \<and>
        (\<exists>x \<in> E. re_association r = assoc_of x \<and> last (re_path r) \<in> {fa_subject x, fa_object x}))"
  unfolding explore_excluding_def kb_facts_of
  by (rule full.explore_spec [OF inv hidden_labels_names [OF inv] _ S]) (simp add: E shown_def [abs_def])

theorem explore_excluding_correct_witness:
  "\<exists>rs. explore_excluding demo_ctx [bytes ''tea''] 2 [] = Some rs \<and>
     map (\<lambda>r. (re_distance r, re_association r)) rs =
       concat (map (\<lambda>d. map (\<lambda>x. (d, assoc_of x)) (filter (met_at fa_subject fa_object
         (conducting (shown (kb_of demo_ctx) []) (kb_of demo_ctx)) (origin_names (kb_of demo_ctx) [bytes ''tea'']) d)
         (kb_facts (kb_of demo_ctx)))) [1..<Suc 2]) \<and>
     (\<forall>r \<in> set rs. length (re_path r) = re_distance r \<and> hd (re_path r) \<in> origin_names (kb_of demo_ctx) [bytes ''tea''] \<and>
        linked_path fa_subject fa_object (conducting (shown (kb_of demo_ctx) []) (kb_of demo_ctx)) (re_path r) \<and>
        (\<exists>x \<in> conducting (shown (kb_of demo_ctx) []) (kb_of demo_ctx). re_association r = assoc_of x \<and>
           last (re_path r) \<in> {fa_subject x, fa_object x}))"
  by (rule explore_excluding_correct [OF demo_ctx(1) refl refl])

text \<open>
  Exploring through a window of sources: the same walk over the facts some source of the window
  attests, so that what the window does not attest neither appears nor bridges, and each result
  shows what the window's sources say of it.
\<close>
theorem explore_within_correct:
  assumes inv: "ctx_inv U c"
    and E: "E = conducting (\<lambda>x. shown (kb_of c) excluded x \<and> 0 < fa_count (fact_within (set names) x)) (kb_of c)"
    and S: "S = origin_names (kb_of c) origins"
  shows "\<exists>rs. explore_within c origins m excluded (source_window c names) = Some rs \<and>
     map (\<lambda>r. (re_distance r, re_association r)) rs =
       concat (map (\<lambda>d. map (\<lambda>x. (d, assoc_of (fact_within (set names) x)))
         (filter (met_at fa_subject fa_object E S d) (kb_facts (kb_of c)))) [1..<Suc m]) \<and>
     (\<forall>r \<in> set rs. length (re_path r) = re_distance r \<and> hd (re_path r) \<in> S \<and>
        linked_path fa_subject fa_object E (re_path r) \<and>
        (\<exists>x \<in> E. re_association r = assoc_of (fact_within (set names) x) \<and> last (re_path r) \<in> {fa_subject x, fa_object x}))"
  unfolding explore_within_def kb_facts_of
  by (rule window.explore_spec [OF inv hidden_labels_names [OF inv] _ S]) (simp add: E shown_def [abs_def])

theorem explore_within_correct_witness:
  "\<exists>rs. explore_within demo_ctx [bytes ''tea''] 2 [bytes ''is''] (source_window demo_ctx [bytes ''doc'']) = Some rs"
  using explore_within_correct [OF demo_ctx(1) refl refl, of "[bytes ''tea'']" 2 "[bytes ''is'']" "[bytes ''doc'']"] by blast

end
