(* ===== verification/Reach.thy ===== *)
theory Reach
  imports Explore
begin

text \<open>
  The reachability questions of \<^verbatim>\<open>src/context/traverse.rs\<close>: whether two concepts are joined by one
  live association, whether two labels share a subject, and the coverage audit, which lists the
  live facts that no walk from the given origins meets. A deadline is polled by a running counter,
  as a predicate of the number of polls made before.
\<close>

section \<open>Adjacency\<close>

fun any_edge :: "ctx \<Rightarrow> (edge_record \<Rightarrow> bool) \<Rightarrow> nat list \<Rightarrow> bool option" where
  "any_edge c Q [] = Some False"
| "any_edge c Q (e # es) = do { r \<leftarrow> nth_opt (edges c) e; if Q r then Some True else any_edge c Q es }"

definition adjacent :: "ctx \<Rightarrow> rstr \<Rightarrow> rstr \<Rightarrow> bool option" where
  "adjacent c a b = (case (concept_ids c a, concept_ids c b) of
     (Some id_a, Some id_b) \<Rightarrow> do {
       out \<leftarrow> outgoing c id_a;
       hit \<leftarrow> any_edge c (\<lambda>r. 0 < ed_count r \<and> ed_object r = id_b) out;
       if hit then Some True
       else do { inc \<leftarrow> incoming c id_a; any_edge c (\<lambda>r. 0 < ed_count r \<and> ed_subject r = id_b) inc } }
   | _ \<Rightarrow> Some False)"

fun live_subjects :: "ctx \<Rightarrow> nat list \<Rightarrow> nat list option" where
  "live_subjects c [] = Some []"
| "live_subjects c (e # es) = do {
     r \<leftarrow> nth_opt (edges c) e;
     rest \<leftarrow> live_subjects c es;
     Some (if 0 < ed_count r then ed_subject r # rest else rest) }"

definition labels_share_subject :: "ctx \<Rightarrow> rstr \<Rightarrow> rstr \<Rightarrow> bool option" where
  "labels_share_subject c a b = (case (label_ids c a, label_ids c b) of
     (Some id_a, Some id_b) \<Rightarrow> do {
       la \<leftarrow> labeled c id_a;
       subjects \<leftarrow> live_subjects c la;
       lb \<leftarrow> labeled c id_b;
       any_edge c (\<lambda>r. 0 < ed_count r \<and> ed_subject r \<in> set subjects) lb }
   | _ \<Rightarrow> Some False)"

section \<open>The coverage audit\<close>

record sweep =
  sw_visited :: "nat set"
  sw_frontier :: "nat list"

definition visit :: "sweep \<Rightarrow> nat \<Rightarrow> sweep" where
  "visit st v = (if v \<in> sw_visited st then st
     else st\<lparr>sw_visited := insert v (sw_visited st), sw_frontier := sw_frontier st @ [v]\<rparr>)"

definition sweep_start :: "ctx \<Rightarrow> rstr list \<Rightarrow> sweep" where
  "sweep_start c origins = foldl (\<lambda>st og. case concept_ids c og of None \<Rightarrow> st | Some i \<Rightarrow> visit st i)
     \<lparr>sw_visited = {}, sw_frontier = []\<rparr> origins"

definition sweep_edge :: "ctx \<Rightarrow> (nat \<Rightarrow> bool) \<Rightarrow> sweep \<Rightarrow> nat \<Rightarrow> sweep option" where
  "sweep_edge c visible st e = do {
     r \<leftarrow> nth_opt (edges c) e;
     Some (if ed_count r = 0 \<or> \<not> visible (ed_label r) then st else visit (visit st (ed_subject r)) (ed_object r)) }"

fun sweep_loop ::
    "ctx \<Rightarrow> (nat \<Rightarrow> bool) \<Rightarrow> (nat \<Rightarrow> bool) \<Rightarrow> nat \<Rightarrow> nat \<Rightarrow> sweep \<Rightarrow> (deadline_exceeded + (nat \<times> sweep)) option" where
  "sweep_loop c visible expired 0 tick st = None"
| "sweep_loop c visible expired (Suc fuel) tick st =
     (case sw_frontier st of
        [] \<Rightarrow> Some (Inr (tick, st))
      | v # rest \<Rightarrow>
          if expired tick then Some (Inl DeadlineExceeded)
          else do {
            out \<leftarrow> outgoing c v;
            inc \<leftarrow> incoming c v;
            st' \<leftarrow> foldM (sweep_edge c visible) (st\<lparr>sw_frontier := rest\<rparr>) (out @ inc);
            sweep_loop c visible expired fuel (tick + 1) st' })"

fun orphan_scan ::
    "ctx \<Rightarrow> (nat \<Rightarrow> bool) \<Rightarrow> (nat \<Rightarrow> bool) \<Rightarrow> nat \<Rightarrow> nat set \<Rightarrow> nat list \<Rightarrow> (deadline_exceeded + association list) option" where
  "orphan_scan c visible expired tick visited [] = Some (Inr [])"
| "orphan_scan c visible expired tick visited (e # es) =
     (if expired tick then Some (Inl DeadlineExceeded)
      else do {
        r \<leftarrow> nth_opt (edges c) e;
        here \<leftarrow> (if 0 < ed_count r \<and> visible (ed_label r) \<and> ed_subject r \<notin> visited
                 then map_option (\<lambda>a. [a]) (association c e) else Some []);
        res \<leftarrow> orphan_scan c visible expired (tick + 1) visited es;
        Some (case res of Inl x \<Rightarrow> Inl x | Inr out \<Rightarrow> Inr (here @ out)) })"

definition unreachable_from_impl ::
    "ctx \<Rightarrow> rstr list \<Rightarrow> (nat \<Rightarrow> bool) \<Rightarrow> (nat \<Rightarrow> bool) \<Rightarrow> (deadline_exceeded + association list) option" where
  "unreachable_from_impl c origins expired visible = do {
     res \<leftarrow> sweep_loop c visible expired (length (concepts c) + 1) 0 (sweep_start c origins);
     (case res of Inl x \<Rightarrow> Some (Inl x)
      | Inr (tick, st) \<Rightarrow> orphan_scan c visible expired tick (sw_visited st) [0..<length (edges c)]) }"

definition unreachable_from :: "ctx \<Rightarrow> rstr list \<Rightarrow> (nat \<Rightarrow> bool) \<Rightarrow> (deadline_exceeded + association list) option" where
  "unreachable_from c origins expired = unreachable_from_impl c origins expired (\<lambda>_. True)"

definition unreachable_from_excluding ::
    "ctx \<Rightarrow> rstr list \<Rightarrow> (nat \<Rightarrow> bool) \<Rightarrow> rstr list \<Rightarrow> (deadline_exceeded + association list) option" where
  "unreachable_from_excluding c origins expired excluded =
     unreachable_from_impl c origins expired (\<lambda>l. l \<notin> hidden_labels c excluded)"

section \<open>Adjacency on facts\<close>

lemma any_edge_spec:
  "\<forall>e \<in> set es. e < length (edges c) \<Longrightarrow> any_edge c Q es = Some (\<exists>e \<in> set es. Q (edges c ! e))"
  by (induction es) auto

lemma live_subjects_spec:
  "\<forall>e \<in> set es. e < length (edges c) \<Longrightarrow>
   \<exists>xs. live_subjects c es = Some xs \<and> set xs = {subj c e | e. e \<in> set es \<and> 0 < ed_count (edges c ! e)}"
  by (induction es) auto

lemma ex_fact: "(\<exists>x \<in> set (facts c). P x) \<longleftrightarrow> (\<exists>e < length (edges c). P (fact_of c e))"
  by (auto simp: facts_def)

lemma cname_eq_iff:
  assumes "ctx_inv U c" "i < length (concepts c)" "j < length (concepts c)"
  shows "cname c i = cname c j \<longleftrightarrow> i = j"
  using name_ids(1) [OF ctx_invD(1) [OF assms(1)]] assms(2,3) by (metis option.inject)

lemma lname_eq_iff:
  assumes "ctx_inv U c" "i < length (labels c)" "j < length (labels c)"
  shows "lname c i = lname c j \<longleftrightarrow> i = j"
  using name_ids(2) [OF ctx_invD(1) [OF assms(1)]] assms(2,3) by (metis option.inject)

lemma adjacent_spec:
  assumes inv: "ctx_inv U c"
  shows "adjacent c a b = Some (\<exists>x \<in> set (facts c). fa_count x \<noteq> 0 \<and> (\<exists>na nb. kb_concepts (kb_of c) a = Some na \<and>
     kb_concepts (kb_of c) b = Some nb \<and> (fa_subject x = na \<and> fa_object x = nb \<or> fa_subject x = nb \<and> fa_object x = na)))"
proof (cases "concept_ids c a = None \<or> concept_ids c b = None")
  case True
  then show ?thesis by (auto simp: adjacent_def kb_of_def split: option.split)
next
  case False
  then obtain i j where ij: "concept_ids c a = Some i" "concept_ids c b = Some j" by auto
  have b: "i < length (concepts c)" "j < length (concepts c)" using ids_bound(1) [OF inv] ij by auto
  have eq: "subj c e = i \<longleftrightarrow> cname c (subj c e) = cname c i" "obj c e = i \<longleftrightarrow> cname c (obj c e) = cname c i"
    "subj c e = j \<longleftrightarrow> cname c (subj c e) = cname c j" "obj c e = j \<longleftrightarrow> cname c (obj c e) = cname c j"
    if "e < length (edges c)" for e
    using cname_eq_iff [OF inv] edge_bounds [OF ctx_invD(5) [OF inv] that] b by simp_all
  have "adjacent c a b = Some ((\<exists>e < length (edges c). subj c e = i \<and> 0 < ed_count (edges c ! e) \<and> obj c e = j) \<or>
      (\<exists>e < length (edges c). obj c e = i \<and> 0 < ed_count (edges c ! e) \<and> subj c e = j))"
    unfolding adjacent_def using chain_reads(1,2) [OF inv b(1)]
    by (auto simp: ij any_edge_spec set_owned)
  then show ?thesis unfolding ex_fact using ij eq by (auto simp: kb_of_def fact_names)
qed

lemma labels_share_subject_spec:
  assumes inv: "ctx_inv U c"
  shows "labels_share_subject c a b = Some (\<exists>x \<in> set (facts c). \<exists>y \<in> set (facts c). fa_count x \<noteq> 0 \<and> fa_count y \<noteq> 0 \<and>
     kb_labels (kb_of c) a = Some (fa_label x) \<and> kb_labels (kb_of c) b = Some (fa_label y) \<and> fa_subject x = fa_subject y)"
proof (cases "label_ids c a = None \<or> label_ids c b = None")
  case True
  then show ?thesis by (auto simp: labels_share_subject_def kb_of_def split: option.split)
next
  case False
  then obtain i j where ij: "label_ids c a = Some i" "label_ids c b = Some j" by auto
  have b: "i < length (labels c)" "j < length (labels c)" using ids_bound(2) [OF inv] ij by auto
  note eb = edge_bounds [OF ctx_invD(5) [OF inv]]
  obtain xs where xs: "live_subjects c (owned ed_label (edges c) i) = Some xs"
      "set xs = {subj c e | e. e \<in> set (owned ed_label (edges c) i) \<and> 0 < ed_count (edges c ! e)}"
    using live_subjects_spec [of "owned ed_label (edges c) i" c] by (auto simp: set_owned)
  have "labels_share_subject c a b = Some (\<exists>e \<in> set (owned ed_label (edges c) j). 0 < ed_count (edges c ! e) \<and> subj c e \<in> set xs)"
    unfolding labels_share_subject_def using chain_reads(3) [OF inv b(1)] chain_reads(3) [OF inv b(2)] xs(1)
    by (simp add: ij any_edge_spec set_owned)
  also have "\<dots> = Some (\<exists>e < length (edges c). \<exists>e' < length (edges c). 0 < ed_count (edges c ! e) \<and>
      0 < ed_count (edges c ! e') \<and> ed_label (edges c ! e) = i \<and> ed_label (edges c ! e') = j \<and> subj c e = subj c e')"
    unfolding xs(2) set_owned option.inject
  proof
    assume "\<exists>e \<in> {e. e < length (edges c) \<and> ed_label (edges c ! e) = j}. 0 < ed_count (edges c ! e) \<and>
      subj c e \<in> {subj c e |e. e \<in> {e. e < length (edges c) \<and> ed_label (edges c ! e) = i} \<and> 0 < ed_count (edges c ! e)}"
    then show "\<exists>e < length (edges c). \<exists>e' < length (edges c). 0 < ed_count (edges c ! e) \<and>
      0 < ed_count (edges c ! e') \<and> ed_label (edges c ! e) = i \<and> ed_label (edges c ! e') = j \<and> subj c e = subj c e'" by force
  next
    assume "\<exists>e < length (edges c). \<exists>e' < length (edges c). 0 < ed_count (edges c ! e) \<and>
      0 < ed_count (edges c ! e') \<and> ed_label (edges c ! e) = i \<and> ed_label (edges c ! e') = j \<and> subj c e = subj c e'"
    then obtain e e' where "e < length (edges c)" "e' < length (edges c)" "0 < ed_count (edges c ! e)" "0 < ed_count (edges c ! e')"
      "ed_label (edges c ! e) = i" "ed_label (edges c ! e') = j" "subj c e = subj c e'" by blast
    then show "\<exists>e \<in> {e. e < length (edges c) \<and> ed_label (edges c ! e) = j}. 0 < ed_count (edges c ! e) \<and>
      subj c e \<in> {subj c e |e. e \<in> {e. e < length (edges c) \<and> ed_label (edges c ! e) = i} \<and> 0 < ed_count (edges c ! e)}"
      by (intro bexI [of _ e'] conjI CollectI exI [of _ e]) simp_all
  qed
  also have "\<dots> = Some (\<exists>e < length (edges c). \<exists>e' < length (edges c). 0 < ed_count (edges c ! e) \<and>
      0 < ed_count (edges c ! e') \<and> lname c i = lname c (ed_label (edges c ! e)) \<and>
      lname c j = lname c (ed_label (edges c ! e')) \<and> cname c (subj c e) = cname c (subj c e'))"
  proof (intro arg_cong [of _ _ Some] ex_cong1 conj_cong refl)
    fix e e' assume e: "e < length (edges c)" "e' < length (edges c)"
    show "ed_label (edges c ! e) = i \<longleftrightarrow> lname c i = lname c (ed_label (edges c ! e))"
      using lname_eq_iff [OF inv b(1) eb(3) [OF e(1)]] by auto
    show "ed_label (edges c ! e') = j \<longleftrightarrow> lname c j = lname c (ed_label (edges c ! e'))"
      using lname_eq_iff [OF inv b(2) eb(3) [OF e(2)]] by auto
    show "subj c e = subj c e' \<longleftrightarrow> cname c (subj c e) = cname c (subj c e')"
      using cname_eq_iff [OF inv eb(1) [OF e(1)] eb(1) [OF e(2)]] by simp
  qed
  finally show ?thesis unfolding ex_fact by (simp add: ij kb_of_def fact_names)
qed

section \<open>The sweep\<close>

definition reach :: "('e \<Rightarrow> 'n) \<Rightarrow> ('e \<Rightarrow> 'n) \<Rightarrow> 'e set \<Rightarrow> 'n set \<Rightarrow> 'n set" where
  "reach s t E S = (\<Union>k. ball s t E S k)"

lemma reach_start: "S \<subseteq> reach s t E S"
  unfolding reach_def using ball.simps(1) [of s t E S] by blast

lemma reach_edge: "e \<in> E \<Longrightarrow> s e \<in> reach s t E S \<longleftrightarrow> t e \<in> reach s t E S"
  unfolding reach_def using ball_step [of e E s t S] by blast

lemma reach_closed:
  assumes "S \<subseteq> V" "\<forall>e \<in> E. s e \<in> V \<longleftrightarrow> t e \<in> V" shows "reach s t E S \<subseteq> V"
proof -
  have "ball s t E S k \<subseteq> V" for k by (induction k) (use assms in auto)
  then show ?thesis by (auto simp: reach_def)
qed

text \<open>Everything visited is reached, and whatever left the queue has only visited neighbours.\<close>

definition sweep_inv :: "(nat \<Rightarrow> nat) \<Rightarrow> (nat \<Rightarrow> nat) \<Rightarrow> nat set \<Rightarrow> nat set \<Rightarrow> sweep \<Rightarrow> bool" where
  "sweep_inv s t E S st \<longleftrightarrow> distinct (sw_frontier st) \<and> set (sw_frontier st) \<subseteq> sw_visited st \<and>
     S \<subseteq> sw_visited st \<and> sw_visited st \<subseteq> reach s t E S \<and>
     (\<forall>e \<in> E. s e \<in> sw_visited st - set (sw_frontier st) \<or> t e \<in> sw_visited st - set (sw_frontier st) \<longrightarrow>
        s e \<in> sw_visited st \<and> t e \<in> sw_visited st)"

text \<open>Visiting a list of concepts adds the new ones to both fields.\<close>

definition grown :: "nat set \<Rightarrow> sweep \<Rightarrow> sweep \<Rightarrow> bool" where
  "grown A st st' \<longleftrightarrow> sw_visited st' = sw_visited st \<union> A \<and>
     (\<exists>new. sw_frontier st' = sw_frontier st @ new \<and> distinct new \<and> set new = A - sw_visited st)"

lemma grown_new:
  "grown A st st' \<Longrightarrow> \<exists>new. sw_visited st' = sw_visited st \<union> set new \<and> sw_frontier st' = sw_frontier st @ new \<and>
     distinct new \<and> set new \<inter> sw_visited st = {}"
  by (auto simp: grown_def)

lemma grown_visit: "grown {v} st (visit st v)"
  by (auto simp: grown_def visit_def)

lemma grown_trans: "grown A st st' \<Longrightarrow> grown B st' st'' \<Longrightarrow> grown (A \<union> B) st st''"
  unfolding grown_def by (elim conjE exE) (rule conjI, simp add: Un_assoc, rule_tac x = "new @ newa" in exI, auto)

lemma grown_refl: "grown {} st st"
  by (simp add: grown_def)

lemma sweep_edges_spec:
  assumes "\<forall>e \<in> set es. e < length (edges c)" "E = {e. e < length (edges c) \<and> ed_count (edges c ! e) \<noteq> 0 \<and> visible (ed_label (edges c ! e))}"
  shows "\<exists>st'. foldM (sweep_edge c visible) st es = Some st' \<and> grown (\<Union>e \<in> set es \<inter> E. {subj c e, obj c e}) st st'"
  using assms(1)
proof (induction es arbitrary: st)
  case (Cons e es)
  have e: "e < length (edges c)" using Cons.prems by simp
  let ?A = "if e \<in> E then {subj c e, obj c e} else {}"
  let ?st = "if e \<in> E then visit (visit st (subj c e)) (obj c e) else st"
  have "sweep_edge c visible st e = Some ?st" using e by (simp add: sweep_edge_def assms(2))
  moreover have "grown ?A st ?st"
    using grown_trans [OF grown_visit [of "subj c e" st] grown_visit [of "obj c e"]] by (simp add: grown_refl insert_commute)
  moreover obtain st' where "foldM (sweep_edge c visible) ?st es = Some st'" "grown (\<Union>e \<in> set es \<inter> E. {subj c e, obj c e}) ?st st'"
    using Cons.IH [of ?st] Cons.prems by auto
  moreover have "?A \<union> (\<Union>e \<in> set es \<inter> E. {subj c e, obj c e}) = (\<Union>e \<in> set (e # es) \<inter> E. {subj c e, obj c e})" by auto
  ultimately show ?case using grown_trans by (metis (no_types, lifting) bind.bind_lunit foldM.simps(2))
qed (simp add: grown_refl)

lemma sweep_inv_step:
  assumes inv: "sweep_inv s t E S st" and f: "sw_frontier st = v # rest"
    and g: "grown (\<Union>e \<in> {e \<in> E. s e = v \<or> t e = v}. {s e, t e}) (st\<lparr>sw_frontier := rest\<rparr>) st'"
  shows "sweep_inv s t E S st'"
proof -
  let ?A = "\<Union>e \<in> {e \<in> E. s e = v \<or> t e = v}. {s e, t e}"
  obtain new where V: "sw_visited st' = sw_visited st \<union> ?A" and F: "sw_frontier st' = rest @ new" "distinct new" "set new = ?A - sw_visited st"
    using g by (auto simp: grown_def)
  have I: "distinct (v # rest)" "set (v # rest) \<subseteq> sw_visited st" "S \<subseteq> sw_visited st" "sw_visited st \<subseteq> reach s t E S"
      "\<forall>e \<in> E. s e \<in> sw_visited st - set (v # rest) \<or> t e \<in> sw_visited st - set (v # rest) \<longrightarrow> s e \<in> sw_visited st \<and> t e \<in> sw_visited st"
    using inv unfolding sweep_inv_def f by blast+
  have "v \<in> reach s t E S" using I(2,4) by auto
  then have "?A \<subseteq> reach s t E S" using reach_edge [of _ E s t S] by auto
  moreover have "distinct (rest @ new)" using I(1,2) F(2,3) by auto
  moreover have "s e \<in> sw_visited st' \<and> t e \<in> sw_visited st'"
    if e: "e \<in> E" "s e \<in> sw_visited st' - set (rest @ new) \<or> t e \<in> sw_visited st' - set (rest @ new)" for e
  proof (cases "s e = v \<or> t e = v")
    case True
    then show ?thesis using e(1) V by auto
  next
    case False
    then have "s e \<in> sw_visited st - set (v # rest) \<or> t e \<in> sw_visited st - set (v # rest)"
      using e(2) V F(3) by auto
    then show ?thesis using I(5) e(1) V by blast
  qed
  ultimately show ?thesis using I(2,3,4) V F by (auto simp: sweep_inv_def)
qed

lemma sweep_done: "sweep_inv s t E S st \<Longrightarrow> sw_frontier st = [] \<Longrightarrow> sw_visited st = reach s t E S"
  unfolding sweep_inv_def by (intro equalityI reach_closed) auto

lemma sweep_loop_spec:
  assumes inv: "ctx_inv U c"
    and E: "E = {e. e < length (edges c) \<and> ed_count (edges c ! e) \<noteq> 0 \<and> visible (ed_label (edges c ! e))}"
    and st: "sweep_inv (subj c) (obj c) E S st" "reach (subj c) (obj c) E S \<subseteq> {..<length (concepts c)}"
      "tick + length (sw_frontier st) = card (sw_visited st)" "length (concepts c) < fuel + tick"
  shows "\<exists>st'. sweep_loop c visible expired fuel tick st = Some (if \<exists>i \<in> {tick..<card (reach (subj c) (obj c) E S)}. expired i
       then Inl DeadlineExceeded else Inr (card (reach (subj c) (obj c) E S), st')) \<and> sw_visited st' = reach (subj c) (obj c) E S"
  using st(1,3,4)
proof (induction fuel arbitrary: tick st)
  case 0
  have "sw_visited st \<subseteq> {..<length (concepts c)}" using 0(1) st(2) by (auto simp: sweep_inv_def)
  then have "card (sw_visited st) \<le> length (concepts c)" by (metis card_lessThan card_mono finite_lessThan)
  then show ?case using 0 by simp
next
  case (Suc fuel)
  let ?R = "reach (subj c) (obj c) E S"
  have fin: "finite ?R" using st(2) finite_subset by blast
  show ?case
  proof (cases "sw_frontier st")
    case Nil
    then have "sw_visited st = ?R" using sweep_done Suc.prems(1) by blast
    then show ?thesis using Nil Suc.prems(2) by (intro exI [of _ st]) simp
  next
    case (Cons v rest)
    have sub: "sw_visited st \<subseteq> ?R" "v \<in> sw_visited st" using Suc.prems(1) Cons by (auto simp: sweep_inv_def)
    then have v: "v < length (concepts c)" using st(2) by auto
    have "card (sw_visited st) \<le> card ?R" using sub(1) fin card_mono by blast
    then have lt: "tick < card ?R" using Suc.prems(2) Cons by simp
    show ?thesis
    proof (cases "expired tick")
      case True
      then have x: "\<exists>i \<in> {tick..<card ?R}. expired i" using lt by auto
      show ?thesis using True Cons x by (intro exI [of _ "st\<lparr>sw_visited := ?R\<rparr>"]) simp
    next
      case False
      let ?es = "owned ed_subject (edges c) v @ owned ed_object (edges c) v"
      have "\<forall>e \<in> set ?es. e < length (edges c)" by (auto simp: set_owned)
      then obtain st' where s': "foldM (sweep_edge c visible) (st\<lparr>sw_frontier := rest\<rparr>) ?es = Some st'"
         "grown (\<Union>e \<in> set ?es \<inter> E. {subj c e, obj c e}) (st\<lparr>sw_frontier := rest\<rparr>) st'"
        using sweep_edges_spec [OF _ E] by blast
      have "set ?es \<inter> E = {e \<in> E. subj c e = v \<or> obj c e = v}" by (auto simp: set_owned E)
      then have inv': "sweep_inv (subj c) (obj c) E S st'" using sweep_inv_step [OF Suc.prems(1) Cons] s'(2) by simp
      obtain new where new: "sw_visited st' = sw_visited st \<union> set new" "sw_frontier st' = rest @ new" "distinct new"
          "set new \<inter> sw_visited st = {}"
        using grown_new [OF s'(2)] by auto
      have "card (sw_visited st') = card (sw_visited st) + length new"
        using new fin sub(1) finite_subset by (metis Int_commute card_Un_disjoint distinct_card finite_set)
      then have "tick + 1 + length (sw_frontier st') = card (sw_visited st')" using Suc.prems(2) Cons new(2) by simp
      from Suc.IH [OF inv' this] Suc.prems(3)
      obtain st'' where "sweep_loop c visible expired fuel (tick + 1) st' = Some (if \<exists>i \<in> {tick + 1..<card ?R}. expired i
          then Inl DeadlineExceeded else Inr (card ?R, st''))" "sw_visited st'' = ?R" by auto
      moreover have "(\<exists>i \<in> {tick + 1..<card ?R}. expired i) \<longleftrightarrow> (\<exists>i \<in> {tick..<card ?R}. expired i)"
      proof -
        have "{tick..<card ?R} = insert tick {tick + 1..<card ?R}" using lt by auto
        then show ?thesis using False by (simp only: bex_simps) simp
      qed
      ultimately show ?thesis
        using False s'(1) chain_reads(1,2) [OF inv v] Cons by (intro exI [of _ st'']) simp
    qed
  qed
qed

lemma orphan_scan_spec:
  assumes inv: "ctx_inv U c" and es: "\<forall>e \<in> set es. e < length (edges c)"
  shows "orphan_scan c visible expired tick V es = Some (if \<exists>i \<in> {tick..<tick + length es}. expired i then Inl DeadlineExceeded
     else Inr (map (\<lambda>e. assoc_of (fact_of c e)) (filter (\<lambda>e. ed_count (edges c ! e) \<noteq> 0 \<and> visible (ed_label (edges c ! e)) \<and> subj c e \<notin> V) es)))"
  using es
proof (induction es arbitrary: tick)
  case (Cons e es)
  have x: "(\<exists>i \<in> {tick..<tick + length (e # es)}. expired i) \<longleftrightarrow> expired tick \<or> (\<exists>i \<in> {Suc tick..<Suc tick + length es}. expired i)"
  proof -
    have "{tick..<tick + length (e # es)} = insert tick {Suc tick..<Suc tick + length es}" by auto
    then show ?thesis by (simp only: bex_simps)
  qed
  show ?case using Cons association_fact [OF inv, of e] unfolding x by auto
qed simp

section \<open>Properties\<close>

lemma sweep_start_spec:
  assumes S: "S = {i. \<exists>og \<in> set origins. concept_ids c og = Some i}"
  shows "sw_visited (sweep_start c origins) = S \<and> set (sw_frontier (sweep_start c origins)) = S \<and> distinct (sw_frontier (sweep_start c origins))"
  using S
proof (induction origins arbitrary: S rule: rev_induct)
  case (snoc og ogs)
  let ?S = "{i. \<exists>og \<in> set ogs. concept_ids c og = Some i}"
  have step: "sweep_start c (ogs @ [og]) = (case concept_ids c og of None \<Rightarrow> sweep_start c ogs | Some i \<Rightarrow> visit (sweep_start c ogs) i)"
    by (simp add: sweep_start_def split: option.split)
  have S: "S = (case concept_ids c og of None \<Rightarrow> ?S | Some i \<Rightarrow> insert i ?S)"
    unfolding snoc.prems by (auto split: option.split)
  show ?case unfolding step S using snoc.IH [OF refl] by (auto simp: visit_def split: option.split)
qed (simp add: sweep_start_def)

lemma reach_image:
  assumes "\<And>e. e \<in> E \<Longrightarrow> s' (g e) = h (s e) \<and> t' (g e) = h (t e) \<and> s e \<in> D \<and> t e \<in> D"
    and "inj_on h D" "S \<subseteq> D"
  shows "reach s' t' (g ` E) (h ` S) = h ` reach s t E S \<and> reach s t E S \<subseteq> D"
  using ball_image [of E s' g h s t' t D, OF assms] unfolding reach_def by (auto simp: image_UN)

text \<open>The graph of the records and the graph of the facts.\<close>

lemma facts_graph:
  assumes inv: "ctx_inv U c" and vis: "\<forall>l < length (labels c). visible l \<longleftrightarrow> VQ (lname c l)"
    and E: "E = {e. e < length (edges c) \<and> ed_count (edges c ! e) \<noteq> 0 \<and> visible (ed_label (edges c ! e))}"
    and S: "S = {i. \<exists>og \<in> set origins. concept_ids c og = Some i}"
  shows "fact_of c ` E = conducting (\<lambda>x. VQ (fa_label x)) (kb_of c)" "cname c ` S = origin_names (kb_of c) origins"
    "\<And>e. e \<in> E \<Longrightarrow> fa_subject (fact_of c e) = cname c (subj c e) \<and> fa_object (fact_of c e) = cname c (obj c e) \<and>
       subj c e \<in> {..<length (concepts c)} \<and> obj c e \<in> {..<length (concepts c)}"
    "inj_on (cname c) {..<length (concepts c)}" "S \<subseteq> {..<length (concepts c)}"
    "e < length (edges c) \<Longrightarrow> fact_of c e \<in> conducting (\<lambda>x. VQ (fa_label x)) (kb_of c) \<longleftrightarrow> e \<in> E"
proof -
  note b = edge_bounds [OF ctx_invD(5) [OF inv]]
  have v: "e \<in> E \<longleftrightarrow> e < length (edges c) \<and> fa_count (fact_of c e) \<noteq> 0 \<and> VQ (fa_label (fact_of c e))" for e
    using vis b(3) [of e] by (auto simp: E fact_names)
  show "fact_of c ` E = conducting (\<lambda>x. VQ (fa_label x)) (kb_of c)" using v by (auto simp: conducting_def facts_def)
  show "cname c ` S = origin_names (kb_of c) origins" by (auto simp: S origin_names_def kb_of_def)
  show "fa_subject (fact_of c e) = cname c (subj c e) \<and> fa_object (fact_of c e) = cname c (obj c e) \<and>
       subj c e \<in> {..<length (concepts c)} \<and> obj c e \<in> {..<length (concepts c)}" if "e \<in> E" for e
    using that b by (auto simp: fact_names E)
  show "inj_on (cname c) {..<length (concepts c)}" using cname_eq_iff [OF inv] by (auto simp: inj_on_def)
  show "S \<subseteq> {..<length (concepts c)}" using ids_bound(1) [OF inv] by (auto simp: S)
  show "fact_of c e \<in> conducting (\<lambda>x. VQ (fa_label x)) (kb_of c) \<longleftrightarrow> e \<in> E" if "e < length (edges c)"
    using that v by (auto simp: conducting_def facts_def)
qed

text \<open>
  C14. The coverage audit: on a well-formed context it returns; it lists exactly the live facts with a
  visible label whose ends no path of such facts joins to an origin, in storage order; or the
  deadline error, exactly when one of its polls (one per reached concept, then one per edge) fires.
\<close>
theorem unreachable_from_correct:
  assumes inv: "ctx_inv U c" and E: "E = conducting (shown (kb_of c) excluded) (kb_of c)"
    and R: "R = reach fa_subject fa_object E (origin_names (kb_of c) origins)"
  shows "unreachable_from_excluding c origins expired excluded =
     Some (if \<exists>i < card R + length (kb_facts (kb_of c)). expired i then Inl DeadlineExceeded
           else Inr (map assoc_of (filter (\<lambda>x. x \<in> E \<and> fa_subject x \<notin> R) (kb_facts (kb_of c)))))"
proof -
  let ?v = "\<lambda>l. l \<notin> hidden_labels c excluded" and ?n = "length (concepts c)"
  define Ei where "Ei = {e. e < length (edges c) \<and> ed_count (edges c ! e) \<noteq> 0 \<and> ?v (ed_label (edges c ! e))}"
  define Si where "Si = {i. \<exists>og \<in> set origins. concept_ids c og = Some i}"
  define Ri where "Ri = reach (subj c) (obj c) Ei Si"
  note G = facts_graph [OF inv hidden_labels_names [OF inv] Ei_def Si_def]
  have E': "E = conducting (\<lambda>x. \<forall>n \<in> set excluded. kb_labels (kb_of c) n \<noteq> Some (fa_label x)) (kb_of c)"
    by (simp add: E shown_def [abs_def])
  have im: "R = cname c ` Ri" "Ri \<subseteq> {..<?n}"
    using reach_image [of Ei fa_subject "fact_of c" "cname c" "subj c" fa_object "obj c", OF G(3,4,5)] unfolding R E' Ri_def G(1,2) by simp_all
  have card: "card R = card Ri" unfolding im(1) using G(4) im(2) by (intro card_image) (rule inj_on_subset)
  have start: "sweep_inv (subj c) (obj c) Ei Si (sweep_start c origins)"
    using sweep_start_spec [OF Si_def] reach_start [of Si "subj c" "obj c" Ei] by (auto simp: sweep_inv_def)
  have len: "0 + length (sw_frontier (sweep_start c origins)) = card (sw_visited (sweep_start c origins))"
    using sweep_start_spec [OF Si_def] by (metis add_0 distinct_card)
  obtain st where st: "sweep_loop c ?v expired (?n + 1) 0 (sweep_start c origins) =
      Some (if \<exists>i \<in> {0..<card Ri}. expired i then Inl DeadlineExceeded else Inr (card Ri, st))" "sw_visited st = Ri"
    using sweep_loop_spec [OF inv Ei_def start _ len, of "?n + 1" expired] im(2) unfolding Ri_def by auto
  have scan: "orphan_scan c ?v expired (card Ri) Ri [0..<length (edges c)] =
      Some (if \<exists>i \<in> {card Ri..<card Ri + length (edges c)}. expired i then Inl DeadlineExceeded
        else Inr (map assoc_of (filter (\<lambda>x. x \<in> E \<and> fa_subject x \<notin> R) (facts c))))"
  proof -
    have "(ed_count (edges c ! e) \<noteq> 0 \<and> ?v (ed_label (edges c ! e)) \<and> subj c e \<notin> Ri) \<longleftrightarrow> (fact_of c e \<in> E \<and> fa_subject (fact_of c e) \<notin> R)"
      if e: "e < length (edges c)" for e
    proof -
      have "cname c (subj c e) \<in> cname c ` Ri \<longleftrightarrow> subj c e \<in> Ri"
        using G(4) im(2) edge_bounds(1) [OF ctx_invD(5) [OF inv] e] by (auto simp: inj_on_def)
      then show ?thesis using G(6) [OF e] e unfolding E' im(1) by (auto simp: fact_names Ei_def)
    qed
    then have "filter (\<lambda>e. ed_count (edges c ! e) \<noteq> 0 \<and> ?v (ed_label (edges c ! e)) \<and> subj c e \<notin> Ri) [0..<length (edges c)] =
        filter (\<lambda>e. fact_of c e \<in> E \<and> fa_subject (fact_of c e) \<notin> R) [0..<length (edges c)]"
      by (intro filter_cong) auto
    then show ?thesis
      using orphan_scan_spec [OF inv, of "[0..<length (edges c)]" ?v expired "card Ri" Ri]
      by (simp add: facts_def filter_map comp_def)
  qed
  have split: "(\<exists>i < card R + length (facts c). expired i) \<longleftrightarrow>
      (\<exists>i \<in> {0..<card Ri}. expired i) \<or> (\<exists>i \<in> {card Ri..<card Ri + length (edges c)}. expired i)"
    unfolding card length_facts by (meson atLeastLessThan_iff le_add1 less_le_trans not_le zero_le)
  show ?thesis
    unfolding unreachable_from_excluding_def unreachable_from_impl_def kb_facts_of split
    using st scan by (auto simp del: sweep_loop.simps)
qed

theorem unreachable_from_correct_witness:
  "unreachable_from_excluding demo_ctx [] (\<lambda>_. False) [] =
     Some (if \<exists>i < card (reach fa_subject fa_object (conducting (shown (kb_of demo_ctx) []) (kb_of demo_ctx)) (origin_names (kb_of demo_ctx) []))
               + length (kb_facts (kb_of demo_ctx)). False then Inl DeadlineExceeded
           else Inr (map assoc_of (filter (\<lambda>x. x \<in> conducting (shown (kb_of demo_ctx) []) (kb_of demo_ctx) \<and>
               fa_subject x \<notin> reach fa_subject fa_object (conducting (shown (kb_of demo_ctx) []) (kb_of demo_ctx)) (origin_names (kb_of demo_ctx) []))
             (kb_facts (kb_of demo_ctx)))))"
  by (rule unreachable_from_correct [OF demo_ctx(1) refl refl])

text \<open>
  Adjacency and label co-occurrence, on facts: two names are adjacent exactly when one live fact
  joins the concepts they resolve to, in either direction (a name is adjacent to itself only through a
  self-loop), and two labels share a subject exactly when each has a live fact on one subject.
\<close>
theorem adjacency_correct:
  assumes "ctx_inv U c"
  shows "adjacent c a b = Some (\<exists>x \<in> set (kb_facts (kb_of c)). fa_count x \<noteq> 0 \<and> (\<exists>na nb. kb_concepts (kb_of c) a = Some na \<and>
       kb_concepts (kb_of c) b = Some nb \<and> (fa_subject x = na \<and> fa_object x = nb \<or> fa_subject x = nb \<and> fa_object x = na))) \<and>
     labels_share_subject c l m = Some (\<exists>x \<in> set (kb_facts (kb_of c)). \<exists>y \<in> set (kb_facts (kb_of c)). fa_count x \<noteq> 0 \<and> fa_count y \<noteq> 0 \<and>
       kb_labels (kb_of c) l = Some (fa_label x) \<and> kb_labels (kb_of c) m = Some (fa_label y) \<and> fa_subject x = fa_subject y)"
  unfolding kb_facts_of using adjacent_spec [OF assms] labels_share_subject_spec [OF assms] by blast

theorem adjacency_correct_witness:
  "adjacent demo_ctx (bytes ''hot'') (bytes ''tea'') = Some True \<and> adjacent demo_ctx (bytes ''tea'') (bytes ''tea'') = Some False"
proof -
  have k: "kb_concepts (kb_of demo_ctx) (bytes ''tea'') = Some (bytes ''tea'')" "kb_concepts (kb_of demo_ctx) (bytes ''hot'') = Some (bytes ''hot'')"
    by (simp_all add: demo_ctx(2) kb_assert_def kb_default canon_def bytes_def Let_def)
  have "bytes ''tea'' \<noteq> bytes ''hot''" by (simp add: bytes_def)
  then show ?thesis
    using adjacency_correct [OF demo_ctx(1), of "bytes ''hot''" "bytes ''tea''"] adjacency_correct [OF demo_ctx(1), of "bytes ''tea''" "bytes ''tea''"] k
    by (simp add: demo_facts)
qed

end
