(* ===== verification/Paths.thy ===== *)
theory Paths
  imports Reach
begin

text \<open>
  \<^verbatim>\<open>paths\<close> of \<^verbatim>\<open>src/context/traverse.rs\<close>: the reverse sweep from the targets, the iterative depth-first
  enumeration of simple paths that it prunes, on an edge budget, and the ranking. The enumeration
  is shown to be complete when the budget is not exhausted, and a part of the complete one
  when it is.
\<close>

section \<open>Results\<close>

record trail =
  tr_distance :: nat
  tr_path :: "rstr list"
  tr_strength :: f64
  tr_associations :: "association list"

record paths_result =
  pr_total :: nat
  pr_capped :: bool
  pr_trails :: "trail list"

definition PATHS_EXPANSION_BUDGET :: nat where
  "PATHS_EXPANSION_BUDGET = 100000"

section \<open>The reverse sweep\<close>

record hops =
  hp_dist :: "nat \<rightharpoonup> nat"
  hp_frontier :: "nat list"

definition hop_to :: "nat \<Rightarrow> hops \<Rightarrow> nat \<Rightarrow> hops" where
  "hop_to hop st v = (if hp_dist st v = None
     then st\<lparr>hp_dist := (hp_dist st)(v \<mapsto> hop), hp_frontier := hp_frontier st @ [v]\<rparr> else st)"

definition hop_start :: "nat list \<Rightarrow> hops" where
  "hop_start ids = foldl (hop_to 0) \<lparr>hp_dist = Map.empty, hp_frontier = []\<rparr> ids"

definition hop_edge :: "ctx \<Rightarrow> (nat \<Rightarrow> bool) \<Rightarrow> nat \<Rightarrow> hops \<Rightarrow> nat \<Rightarrow> hops option" where
  "hop_edge c visible hop st e = do {
     r \<leftarrow> nth_opt (edges c) e;
     Some (if ed_count r = 0 \<or> \<not> visible (ed_label r) then st else hop_to hop (hop_to hop st (ed_subject r)) (ed_object r)) }"

fun hop_loop :: "ctx \<Rightarrow> (nat \<Rightarrow> bool) \<Rightarrow> nat \<Rightarrow> nat \<Rightarrow> hops \<Rightarrow> hops option" where
  "hop_loop c visible max_depth 0 st = None"
| "hop_loop c visible max_depth (Suc fuel) st =
     (case hp_frontier st of
        [] \<Rightarrow> Some st
      | concept # rest \<Rightarrow> do {
          d \<leftarrow> hp_dist st concept;
          let st' = st\<lparr>hp_frontier := rest\<rparr>;
          (if max_depth < d + 1 then hop_loop c visible max_depth fuel st'
           else do {
             out \<leftarrow> outgoing c concept;
             inc \<leftarrow> incoming c concept;
             st'' \<leftarrow> foldM (hop_edge c visible (d + 1)) st' (out @ inc);
             hop_loop c visible max_depth fuel st''
           })
        })"

section \<open>The enumeration\<close>

text \<open>The locals of the loop; both stacks have their top first.\<close>

record dfs =
  df_budget :: nat
  df_frames :: "nat list list"
  df_nodes :: "nat list"
  df_edges :: "nat list"
  df_on_path :: "nat set"
  df_found :: "(nat list \<times> nat list) list"

text \<open>A spent frame: the frame, its concept and its edge come off.\<close>

definition leave_frame :: "dfs \<Rightarrow> dfs" where
  "leave_frame st = st\<lparr>df_frames := tl (df_frames st), df_nodes := tl (df_nodes st),
     df_on_path := (case df_nodes st of [] \<Rightarrow> df_on_path st | v # _ \<Rightarrow> df_on_path st - {v}), df_edges := tl (df_edges st)\<rparr>"

text \<open>A step to a new concept: report it when it is a target, and open its frame when depth is left.\<close>

definition note_target :: "nat set \<Rightarrow> nat \<Rightarrow> nat \<Rightarrow> dfs \<Rightarrow> dfs" where
  "note_target targets e nxt st = (if nxt \<in> targets
     then st\<lparr>df_found := df_found st @ [(rev (nxt # df_nodes st), rev (e # df_edges st))]\<rparr> else st)"

definition enter_frame :: "nat \<Rightarrow> nat \<Rightarrow> nat list \<Rightarrow> dfs \<Rightarrow> dfs" where
  "enter_frame e nxt frame st = st\<lparr>df_nodes := nxt # df_nodes st, df_on_path := insert nxt (df_on_path st),
     df_edges := e # df_edges st, df_frames := frame # df_frames st\<rparr>"

definition extend_path :: "ctx \<Rightarrow> nat set \<Rightarrow> nat \<Rightarrow> nat \<Rightarrow> nat \<Rightarrow> dfs \<Rightarrow> dfs option" where
  "extend_path c targets max_depth e nxt st =
     (if length (df_edges st) + 1 < max_depth
      then do {
        out \<leftarrow> outgoing c nxt;
        inc \<leftarrow> incoming c nxt;
        Some (enter_frame e nxt (out @ inc) (note_target targets e nxt st)) }
      else Some (note_target targets e nxt st))"

text \<open>One edge of the top frame, after the budget check.\<close>

definition path_step ::
    "ctx \<Rightarrow> (nat \<Rightarrow> bool) \<Rightarrow> nat set \<Rightarrow> (nat \<rightharpoonup> nat) \<Rightarrow> nat \<Rightarrow> nat \<Rightarrow> dfs \<Rightarrow> dfs option" where
  "path_step c visible targets to_target max_depth e st = do {
     r \<leftarrow> nth_opt (edges c) e;
     (if ed_count r = 0 \<or> \<not> visible (ed_label r) then Some st
      else do {
        here \<leftarrow> nth_opt (df_nodes st) 0;
        let nxt = (if ed_subject r = here then ed_object r else ed_subject r);
        (if nxt = here \<or> nxt \<in> df_on_path st then Some st
         else case to_target nxt of
             None \<Rightarrow> Some st
           | Some remaining \<Rightarrow>
               if max_depth < length (df_edges st) + 1 + remaining then Some st
               else extend_path c targets max_depth e nxt st)
      })
   }"

definition search_size :: "dfs \<Rightarrow> nat" where
  "search_size st = 2 * df_budget st + length (df_frames st)"

lemma extend_path_size:
  assumes "extend_path c targets m e nxt st = Some st'" shows "search_size st' \<le> Suc (search_size st)"
proof -
  have "search_size (note_target targets e nxt st) = search_size st" by (simp add: note_target_def search_size_def)
  moreover have "search_size (enter_frame e nxt f st) = Suc (search_size st)" for f st by (simp add: enter_frame_def search_size_def)
  ultimately show ?thesis using assms by (auto simp: extend_path_def bind_eq_Some_conv split: if_splits)
qed

lemma path_step_cases:
  assumes "path_step c visible targets tt m e st = Some st'"
  shows "st' = st \<or> (\<exists>nxt. extend_path c targets m e nxt st = Some st')"
proof -
  obtain r where r: "nth_opt (edges c) e = Some r" using assms by (auto simp: path_step_def bind_eq_Some_conv)
  show ?thesis
  proof (cases "nth_opt (df_nodes st) 0")
    case None
    then show ?thesis using assms r by (auto simp: path_step_def split: if_splits)
  next
    case (Some here)
    let ?nxt = "if ed_subject r = here then ed_object r else ed_subject r"
    show ?thesis using assms r Some
      by (cases "tt ?nxt") (auto simp: path_step_def Let_def split: if_splits)
  qed
qed

lemma path_step_size: "path_step c visible targets tt m e st = Some st' \<Longrightarrow> search_size st' \<le> Suc (search_size st)"
  using path_step_cases extend_path_size by (metis le_SucI order_refl)

function path_search ::
    "ctx \<Rightarrow> (nat \<Rightarrow> bool) \<Rightarrow> nat set \<Rightarrow> (nat \<rightharpoonup> nat) \<Rightarrow> nat \<Rightarrow> dfs \<Rightarrow> (bool \<times> dfs) option" where
  "path_search c visible targets tt m st =
     (case df_frames st of
        [] \<Rightarrow> Some (False, st)
      | [] # _ \<Rightarrow> path_search c visible targets tt m (leave_frame st)
      | (e # f) # fs \<Rightarrow>
          if df_budget st = 0 then Some (True, st)
          else (case path_step c visible targets tt m e (st\<lparr>df_budget := df_budget st - 1, df_frames := f # fs\<rparr>) of
              None \<Rightarrow> None
            | Some st' \<Rightarrow> path_search c visible targets tt m st'))"
  by pat_completeness auto
termination
proof (relation "measure (\<lambda>(_, _, _, _, _, st). search_size st)", goal_cases)
  case (2 c visible targets tt m st x21 x22)
  then show ?case by (simp add: leave_frame_def search_size_def)
next
  case (3 c visible targets tt m st x21 x22 x21a x22a x2)
  then show ?case using path_step_size [OF 3(4)] by (simp add: search_size_def)
qed simp

declare path_search.simps [simp del]

fun search_origins ::
    "ctx \<Rightarrow> (nat \<Rightarrow> bool) \<Rightarrow> nat set \<Rightarrow> (nat \<rightharpoonup> nat) \<Rightarrow> nat \<Rightarrow> nat list \<Rightarrow> nat \<Rightarrow> (nat list \<times> nat list) list \<Rightarrow>
     (bool \<times> (nat list \<times> nat list) list) option" where
  "search_origins c visible targets tt m [] budget found = Some (False, found)"
| "search_origins c visible targets tt m (og # ogs) budget found =
     (if tt og = None then search_origins c visible targets tt m ogs budget found
      else do {
        out \<leftarrow> outgoing c og;
        inc \<leftarrow> incoming c og;
        (capped, st) \<leftarrow> path_search c visible targets tt m
           \<lparr>df_budget = budget, df_frames = [out @ inc], df_nodes = [og], df_edges = [], df_on_path = {og}, df_found = found\<rparr>;
        (if capped then Some (True, df_found st)
         else search_origins c visible targets tt m ogs (df_budget st) (df_found st))
      })"

section \<open>Ranking\<close>

definition trail_strength :: "ctx \<Rightarrow> nat list \<Rightarrow> f64" where
  "trail_strength c es = foldl f64_min f64_infinity (map (\<lambda>e. f64_abs (ed_sum (edges c ! e))) es)"

text \<open>Distance, then the weakest link descending, then concept ids and edge ids.\<close>

definition trail_key :: "ctx \<Rightarrow> nat list \<times> nat list \<Rightarrow> nat \<times> int \<times> nat list \<times> nat list" where
  "trail_key c tr = (case tr of (ns, es) \<Rightarrow> (length es, - f64_total_key (trail_strength c es), ns, es))"

definition trail_view :: "ctx \<Rightarrow> nat list \<times> nat list \<Rightarrow> trail option" where
  "trail_view c tr = (case tr of (ns, es) \<Rightarrow> do {
     p \<leftarrow> mapM (concept_name c) ns;
     as \<leftarrow> mapM (association c) es;
     Some \<lparr>tr_distance = length es, tr_path = p, tr_strength = trail_strength c es, tr_associations = as\<rparr> })"

definition paths_impl ::
    "ctx \<Rightarrow> rstr list \<Rightarrow> rstr list \<Rightarrow> nat \<Rightarrow> nat \<Rightarrow> (nat \<Rightarrow> bool) \<Rightarrow> paths_result option" where
  "paths_impl c origins targets max_depth limit visible =
     (let target_ids = rev (remdups (rev (List.map_filter (concept_ids c) targets)));
          origin_ids = rev (remdups (rev (List.map_filter (concept_ids c) origins)))
      in if origin_ids = [] \<or> target_ids = [] \<or> max_depth = 0 \<or> limit = 0
         then Some \<lparr>pr_total = 0, pr_capped = False, pr_trails = []\<rparr>
         else do {
           sweep \<leftarrow> hop_loop c visible max_depth (length (concepts c) + 1) (hop_start target_ids);
           (capped, found) \<leftarrow> search_origins c visible (set target_ids) (hp_dist sweep) max_depth origin_ids PATHS_EXPANSION_BUDGET [];
           trails \<leftarrow> mapM (trail_view c) (take limit (sort_key (trail_key c) found));
           Some \<lparr>pr_total = length found, pr_capped = capped, pr_trails = trails\<rparr>
         })"

definition paths :: "ctx \<Rightarrow> rstr list \<Rightarrow> rstr list \<Rightarrow> nat \<Rightarrow> nat \<Rightarrow> paths_result option" where
  "paths c origins targets max_depth limit = paths_impl c origins targets max_depth limit (\<lambda>_. True)"

definition paths_excluding :: "ctx \<Rightarrow> rstr list \<Rightarrow> rstr list \<Rightarrow> nat \<Rightarrow> nat \<Rightarrow> rstr list \<Rightarrow> paths_result option" where
  "paths_excluding c origins targets max_depth limit excluded =
     paths_impl c origins targets max_depth limit (\<lambda>l. l \<notin> hidden_labels c excluded)"

section \<open>The sweep is the walk\<close>

definition hops_of :: "walk \<Rightarrow> hops" where
  "hops_of st = \<lparr>hp_dist = wk_dist st, hp_frontier = wk_frontier st\<rparr>"

lemma hops_of_see: "hops_of (see_neighbor p hop (see_neighbor p hop (note_edge p hop e st) u) v) = hop_to hop (hop_to hop (hops_of st) u) v"
  by (auto simp: hops_of_def see_neighbor_def hop_to_def note_edge_def)

lemma hop_edge_sim: "hop_edge c visible hop (hops_of st) e = map_option hops_of (see_edge c visible (full_lens c) p hop st e)"
  by (cases "nth_opt (edges c) e") (auto simp: hop_edge_def see_edge_def usable_def full_lens_def hops_of_see)

lemma hop_edges_sim:
  "foldM (hop_edge c visible hop) (hops_of st) es = map_option hops_of (foldM (see_edge c visible (full_lens c) p hop) st es)"
proof (induction es arbitrary: st)
  case (Cons e es)
  show ?case using Cons.IH hop_edge_sim [of c visible hop st e p] by (cases "see_edge c visible (full_lens c) p hop st e") auto
qed simp

lemma hop_loop_sim: "hop_loop c visible m fuel (hops_of st) = map_option hops_of (walk_loop c visible (full_lens c) m fuel st)"
proof (induction fuel arbitrary: st)
  case (Suc fuel)
  show ?case
  proof (cases "wk_frontier st")
    case (Cons p rest)
    have f: "hops_of st\<lparr>hp_frontier := rest\<rparr> = hops_of (st\<lparr>wk_frontier := rest\<rparr>)" by (simp add: hops_of_def)
    have fr: "hp_frontier (hops_of st) = p # rest" "hp_dist (hops_of st) = wk_dist st" by (simp_all add: hops_of_def Cons)
    have es: "foldM (hop_edge c visible hop) (hops_of (st\<lparr>wk_frontier := rest\<rparr>)) es \<bind> hop_loop c visible m fuel =
        map_option hops_of (foldM (see_edge c visible (full_lens c) p hop) (st\<lparr>wk_frontier := rest\<rparr>) es \<bind> walk_loop c visible (full_lens c) m fuel)"
      for hop es
      unfolding hop_edges_sim [of _ _ _ _ _ p]
      by (cases "foldM (see_edge c visible (full_lens c) p hop) (st\<lparr>wk_frontier := rest\<rparr>) es") (simp_all add: Suc.IH)
    show ?thesis
      by (cases "wk_dist st p"; cases "outgoing c p"; cases "incoming c p") (simp_all add: fr Cons Let_def f es Suc.IH)
  qed (simp add: hops_of_def)
qed simp

lemma map_filter_ids: "set (List.map_filter f xs) = {i. \<exists>x \<in> set xs. f x = Some i}"
  by (induction xs) (auto simp: map_filter_simps split: option.splits)

lemma hop_start_walk: "hop_start (List.map_filter (concept_ids c) names) = hops_of (walk_start c names)"
proof (induction names rule: rev_induct)
  case (snoc x xs)
  then show ?case
    by (auto simp: hop_start_def walk_start_def map_filter_def hops_of_def hop_to_def start_at_def split: option.split)
qed (simp add: hop_start_def walk_start_def map_filter_simps hops_of_def)

lemma dedup_snoc: "rev (remdups (rev (xs @ [x]))) = (if x \<in> set xs then rev (remdups (rev xs)) else rev (remdups (rev xs)) @ [x])"
  by simp

lemma hop_start_dedup: "hop_start (rev (remdups (rev xs))) = hop_start xs \<and> (\<forall>x \<in> set xs. hp_dist (hop_start xs) x \<noteq> None)"
proof (induction xs rule: rev_induct)
  case (snoc x xs)
  have "hop_start (xs @ [x]) = hop_to 0 (hop_start xs) x" by (simp add: hop_start_def)
  then show ?case using snoc unfolding dedup_snoc by (auto simp: hop_start_def hop_to_def)
qed simp

section \<open>A recursive enumeration\<close>

definition other_end :: "ctx \<Rightarrow> nat \<Rightarrow> nat \<Rightarrow> nat" where
  "other_end c e v = (if subj c e = v then obj c e else subj c e)"

definition adj :: "ctx \<Rightarrow> nat \<Rightarrow> nat list" where
  "adj c v = owned ed_subject (edges c) v @ owned ed_object (edges c) v"

definition step_ok :: "ctx \<Rightarrow> nat set \<Rightarrow> (nat \<rightharpoonup> nat) \<Rightarrow> nat \<Rightarrow> nat list \<Rightarrow> nat list \<Rightarrow> nat \<Rightarrow> bool" where
  "step_ok c E tt m ns es e \<longleftrightarrow> e \<in> E \<and> other_end c e (hd ns) \<notin> set ns \<and>
     (case tt (other_end c e (hd ns)) of None \<Rightarrow> False | Some r \<Rightarrow> length es + 1 + r \<le> m)"

fun enum :: "ctx \<Rightarrow> nat set \<Rightarrow> nat set \<Rightarrow> (nat \<rightharpoonup> nat) \<Rightarrow> nat \<Rightarrow> nat \<Rightarrow> nat list \<Rightarrow> nat list \<Rightarrow> (nat list \<times> nat list) list" where
  "enum c E T tt m 0 ns es = []"
| "enum c E T tt m (Suc k) ns es = concat (map (\<lambda>e. if step_ok c E tt m ns es e
     then (if other_end c e (hd ns) \<in> T then [(rev (other_end c e (hd ns) # ns), rev (e # es))] else []) @
          enum c E T tt m k (other_end c e (hd ns) # ns) (e # es)
     else []) (adj c (hd ns)))"

fun effort :: "ctx \<Rightarrow> nat set \<Rightarrow> (nat \<rightharpoonup> nat) \<Rightarrow> nat \<Rightarrow> nat \<Rightarrow> nat list \<Rightarrow> nat list \<Rightarrow> nat" where
  "effort c E tt m 0 ns es = 0"
| "effort c E tt m (Suc k) ns es = sum_list (map (\<lambda>e. 1 + (if step_ok c E tt m ns es e
     then effort c E tt m k (other_end c e (hd ns) # ns) (e # es) else 0)) (adj c (hd ns)))"

abbreviation branch :: "ctx \<Rightarrow> nat set \<Rightarrow> nat set \<Rightarrow> (nat \<rightharpoonup> nat) \<Rightarrow> nat \<Rightarrow> nat \<Rightarrow> nat list \<Rightarrow> nat list \<Rightarrow> nat \<Rightarrow> (nat list \<times> nat list) list" where
  "branch c E T tt m k ns es e \<equiv> (if step_ok c E tt m ns es e
     then (if other_end c e (hd ns) \<in> T then [(rev (other_end c e (hd ns) # ns), rev (e # es))] else []) @
          enum c E T tt m k (other_end c e (hd ns) # ns) (e # es)
     else [])"

abbreviation branch_effort :: "ctx \<Rightarrow> nat set \<Rightarrow> (nat \<rightharpoonup> nat) \<Rightarrow> nat \<Rightarrow> nat \<Rightarrow> nat list \<Rightarrow> nat list \<Rightarrow> nat \<Rightarrow> nat" where
  "branch_effort c E tt m k ns es e \<equiv> 1 + (if step_ok c E tt m ns es e
     then effort c E tt m k (other_end c e (hd ns) # ns) (e # es) else 0)"

abbreviation at_path :: "nat \<Rightarrow> nat list list \<Rightarrow> nat list \<Rightarrow> nat list \<Rightarrow> (nat list \<times> nat list) list \<Rightarrow> dfs" where
  "at_path b fr ns es fd \<equiv> \<lparr>df_budget = b, df_frames = fr, df_nodes = ns, df_edges = es, df_on_path = set ns, df_found = fd\<rparr>"

lemma path_step_ref:
  assumes "e < length (edges c)" "ns \<noteq> []"
    and E: "E = {e. e < length (edges c) \<and> ed_count (edges c ! e) \<noteq> 0 \<and> visible (ed_label (edges c ! e))}"
  shows "path_step c visible T tt m e (at_path b fr ns es fd) =
     (if step_ok c E tt m ns es e then extend_path c T m e (other_end c e (hd ns)) (at_path b fr ns es fd)
      else Some (at_path b fr ns es fd))"
proof -
  have h: "nth_opt ns 0 = Some (hd ns)" "hd ns \<in> set ns" using assms(2) by (simp_all add: hd_conv_nth)
  show ?thesis
    using assms(1) h by (cases "tt (other_end c e (hd ns))")
      (auto simp: path_step_def step_ok_def other_end_def E Let_def not_less split: if_splits)
qed

text \<open>
  The loop on one frame: with enough budget it continues below the frame, having found what the
  recursion finds; otherwise it stops with a part of that.
\<close>

definition search_result ::
    "((bool \<times> dfs) option) \<Rightarrow> (nat list \<times> nat list) list \<Rightarrow> (nat list \<times> nat list) list \<Rightarrow> bool" where
  "search_result r fd xs \<longleftrightarrow> (\<exists>st pre post. r = Some (True, st) \<and> df_found st = fd @ pre \<and> xs = pre @ post)"

lemma search_result_mono: "search_result r fd xs \<Longrightarrow> search_result r fd (xs @ ys)"
  unfolding search_result_def by (metis append_assoc)

lemma search_result_shift: "search_result r (fd @ zs) xs \<Longrightarrow> search_result r fd (zs @ xs)"
  unfolding search_result_def by (metis append_assoc)

lemma search_result_one: "search_result r (fd @ [z]) xs \<Longrightarrow> search_result r fd (z # xs)"
  using search_result_shift [of r fd "[z]" xs] by simp

text \<open>What following one admissible edge must do, for the frame it is met in.\<close>

definition follows ::
    "ctx \<Rightarrow> (nat \<Rightarrow> bool) \<Rightarrow> nat set \<Rightarrow> nat set \<Rightarrow> (nat \<rightharpoonup> nat) \<Rightarrow> nat \<Rightarrow> nat \<Rightarrow> nat list \<Rightarrow> nat list \<Rightarrow> nat \<Rightarrow> bool" where
  "follows c visible E T tt m k ns es e \<longleftrightarrow> (\<forall>b fr fd. \<exists>st. extend_path c T m e (other_end c e (hd ns)) (at_path b fr ns es fd) = Some st \<and>
     (if effort c E tt m k (other_end c e (hd ns) # ns) (e # es) \<le> b
      then path_search c visible T tt m st = path_search c visible T tt m
        (at_path (b - effort c E tt m k (other_end c e (hd ns) # ns) (e # es)) fr ns es (fd @ branch c E T tt m k ns es e))
      else search_result (path_search c visible T tt m st) fd (branch c E T tt m k ns es e)))"

lemma frame_loop:
  assumes E: "E = {e. e < length (edges c) \<and> ed_count (edges c ! e) \<noteq> 0 \<and> visible (ed_label (edges c ! e))}" and ns: "ns \<noteq> []"
    and child: "\<forall>e \<in> set f. step_ok c E tt m ns es e \<longrightarrow> follows c visible E T tt m k ns es e" and f: "\<forall>e \<in> set f. e < length (edges c)"
  shows "if sum_list (map (branch_effort c E tt m k ns es) f) \<le> b
      then path_search c visible T tt m (at_path b (f # fs) ns es fd) =
        path_search c visible T tt m \<lparr>df_budget = b - sum_list (map (branch_effort c E tt m k ns es) f), df_frames = fs, df_nodes = tl ns,
          df_edges = tl es, df_on_path = set ns - {hd ns}, df_found = fd @ concat (map (branch c E T tt m k ns es) f)\<rparr>
      else search_result (path_search c visible T tt m (at_path b (f # fs) ns es fd)) fd (concat (map (branch c E T tt m k ns es) f))"
  using child f
proof (induction f arbitrary: b fd)
  case Nil
  obtain v vs where "ns = v # vs" using ns by (cases ns) auto
  then show ?case by (subst path_search.simps) (simp add: leave_frame_def)
next
  case (Cons e f)
  let ?P = "path_search c visible T tt m" and ?x = "concat (map (branch c E T tt m k ns es) f)"
  have e: "e < length (edges c)" using Cons.prems(2) by simp
  have IH: "if sum_list (map (branch_effort c E tt m k ns es) f) \<le> b
      then ?P (at_path b (f # fs) ns es fd) =
        ?P \<lparr>df_budget = b - sum_list (map (branch_effort c E tt m k ns es) f), df_frames = fs, df_nodes = tl ns,
          df_edges = tl es, df_on_path = set ns - {hd ns}, df_found = fd @ ?x\<rparr>
      else search_result (?P (at_path b (f # fs) ns es fd)) fd ?x" for b fd
    using Cons.IH Cons.prems by simp
  show ?case
  proof (cases b)
    case 0
    have "?P (at_path 0 ((e # f) # fs) ns es fd) = Some (True, at_path 0 ((e # f) # fs) ns es fd)"
      by (subst path_search.simps) simp
    then show ?thesis by (simp add: 0 search_result_def)
  next
    case (Suc b')
    note step = path_step_ref [OF e ns E, of T tt m b' "f # fs" es fd]
    show ?thesis
    proof (cases "step_ok c E tt m ns es e")
      case False
      then have "?P (at_path b ((e # f) # fs) ns es fd) = ?P (at_path b' (f # fs) ns es fd)"
        using step by (subst path_search.simps) (simp add: Suc)
      then show ?thesis using IH [of b' fd] False by (simp add: Suc)
    next
      case True
      let ?k = "effort c E tt m k (other_end c e (hd ns) # ns) (e # es)"
      obtain st where st: "extend_path c T m e (other_end c e (hd ns)) (at_path b' (f # fs) ns es fd) = Some st"
         "if ?k \<le> b' then ?P st = ?P (at_path (b' - ?k) (f # fs) ns es (fd @ branch c E T tt m k ns es e))
          else search_result (?P st) fd (branch c E T tt m k ns es e)"
        using Cons.prems(1) True unfolding follows_def by (meson list.set_intros(1))
      have P: "?P (at_path b ((e # f) # fs) ns es fd) = ?P st"
        using step st(1) True by (subst path_search.simps) (simp add: Suc)
      show ?thesis
      proof (cases "?k \<le> b'")
        case False
        then have "search_result (?P st) fd (branch c E T tt m k ns es e @ ?x)" using st(2) search_result_mono by simp
        then show ?thesis using False True unfolding P by (simp add: Suc)
      next
        case le: True
        have iff: "(sum_list (map (branch_effort c E tt m k ns es) (e # f)) \<le> b) \<longleftrightarrow> sum_list (map (branch_effort c E tt m k ns es) f) \<le> b' - ?k"
          using le True by (auto simp: Suc)
        have bb: "b - sum_list (map (branch_effort c E tt m k ns es) (e # f)) = b' - ?k - sum_list (map (branch_effort c E tt m k ns es) f)"
          using True by (simp add: Suc)
        show ?thesis
        proof (cases "sum_list (map (branch_effort c E tt m k ns es) f) \<le> b' - ?k")
          case True
          then show ?thesis using IH [of "b' - ?k" "fd @ branch c E T tt m k ns es e"] st(2) le unfolding P iff bb by simp
        next
          case False
          then have "search_result (?P st) fd (branch c E T tt m k ns es e @ ?x)"
            using IH [of "b' - ?k" "fd @ branch c E T tt m k ns es e"] st(2) le by (simp add: search_result_shift)
          then show ?thesis using False unfolding P iff by simp
        qed
      qed
    qed
  qed
qed

lemma adj_reads:
  assumes "ctx_inv U c" "v < length (concepts c)"
  shows "outgoing c v = Some (owned ed_subject (edges c) v)" "incoming c v = Some (owned ed_object (edges c) v)"
    "\<forall>e \<in> set (adj c v). e < length (edges c)"
  using chain_reads(1,2) [OF assms] by (auto simp: adj_def set_owned)

lemma step_follows:
  assumes inv: "ctx_inv U c"
    and E: "E = {e. e < length (edges c) \<and> ed_count (edges c ! e) \<noteq> 0 \<and> visible (ed_label (edges c ! e))}"
  shows "ns \<noteq> [] \<Longrightarrow> length es + Suc k = m \<Longrightarrow> step_ok c E tt m ns es e \<Longrightarrow> follows c visible E T tt m k ns es e"
proof (induction k arbitrary: ns es e)
  case 0
  show ?case
    unfolding follows_def using 0 by (auto simp: extend_path_def note_target_def)
next
  case (Suc k)
  let ?n = "other_end c e (hd ns)" and ?P = "path_search c visible T tt m"
  let ?k = "effort c E tt m (Suc k) (?n # ns) (e # es)"
  have e: "e < length (edges c)" "?n \<notin> set ns" using Suc.prems(3) by (auto simp: step_ok_def E)
  have n: "?n < length (concepts c)" using edge_bounds [OF ctx_invD(5) [OF inv] e(1)] by (simp add: other_end_def)
  have m: "length (e # es) + Suc k = m" "length es + 1 < m" using Suc.prems(2) by simp_all
  have fol: "\<forall>x \<in> set (adj c ?n). step_ok c E tt m (?n # ns) (e # es) x \<longrightarrow> follows c visible E T tt m k (?n # ns) (e # es) x"
    using Suc.IH [OF _ m(1)] by simp
  show ?case unfolding follows_def
  proof (intro allI)
    fix b fr fd
    let ?tgt = "if ?n \<in> T then [(rev (?n # ns), rev (e # es))] else []"
    have st: "extend_path c T m e ?n (at_path b fr ns es fd) = Some (at_path b (adj c ?n # fr) (?n # ns) (e # es) (fd @ ?tgt))"
      using adj_reads(1,2) [OF inv n] m(2) by (simp add: extend_path_def enter_frame_def note_target_def adj_def)
    note L = frame_loop [OF E _ fol adj_reads(3) [OF inv n], of b fr "fd @ ?tgt"]
    have "if ?k \<le> b
      then ?P (at_path b (adj c ?n # fr) (?n # ns) (e # es) (fd @ ?tgt)) = ?P (at_path (b - ?k) fr ns es (fd @ branch c E T tt m (Suc k) ns es e))
      else search_result (?P (at_path b (adj c ?n # fr) (?n # ns) (e # es) (fd @ ?tgt))) fd (branch c E T tt m (Suc k) ns es e)"
      using L Suc.prems(3) e(2) by (auto intro: search_result_one)
    then show "\<exists>st. extend_path c T m e ?n (at_path b fr ns es fd) = Some st \<and>
      (if ?k \<le> b then ?P st = ?P (at_path (b - ?k) fr ns es (fd @ branch c E T tt m (Suc k) ns es e))
       else search_result (?P st) fd (branch c E T tt m (Suc k) ns es e))" using st by blast
  qed
qed

text \<open>One origin.\<close>

lemma path_search_origin:
  assumes inv: "ctx_inv U c"
    and E: "E = {e. e < length (edges c) \<and> ed_count (edges c ! e) \<noteq> 0 \<and> visible (ed_label (edges c ! e))}"
    and og: "og < length (concepts c)" and m: "0 < m"
  shows "if effort c E tt m m [og] [] \<le> b
      then \<exists>st. path_search c visible T tt m (at_path b [adj c og] [og] [] fd) = Some (False, st) \<and>
        df_budget st = b - effort c E tt m m [og] [] \<and> df_found st = fd @ enum c E T tt m m [og] []
      else search_result (path_search c visible T tt m (at_path b [adj c og] [og] [] fd)) fd (enum c E T tt m m [og] [])"
proof -
  obtain k where k: "m = Suc k" using m by (cases m) auto
  have fol: "\<forall>e \<in> set (adj c og). step_ok c E tt m [og] [] e \<longrightarrow> follows c visible E T tt m k [og] [] e"
    using step_follows [OF inv E, of "[og]" "[]" k m] k by simp
  note L = frame_loop [OF E _ fol adj_reads(3) [OF inv og], of b "[]" fd]
  have fin: "path_search c visible T tt m \<lparr>df_budget = b', df_frames = [], df_nodes = ns, df_edges = es, df_on_path = op, df_found = x\<rparr> =
     Some (False, \<lparr>df_budget = b', df_frames = [], df_nodes = ns, df_edges = es, df_on_path = op, df_found = x\<rparr>)" for b' ns es op x
    by (subst path_search.simps) simp
  show ?thesis using L unfolding k by (auto simp: fin [unfolded k])
qed

section \<open>What the enumeration finds\<close>

text \<open>A trail: consecutive concepts joined by the edge between them.\<close>

fun trail_in :: "ctx \<Rightarrow> nat set \<Rightarrow> nat list \<Rightarrow> nat list \<Rightarrow> bool" where
  "trail_in c E [v] [] = True"
| "trail_in c E (v # w # ns) (e # es) \<longleftrightarrow> e \<in> E \<and> {subj c e, obj c e} = {v, w} \<and> trail_in c E (w # ns) es"
| "trail_in c E _ _ = False"

definition simple_trails :: "ctx \<Rightarrow> nat set \<Rightarrow> nat set \<Rightarrow> nat set \<Rightarrow> nat \<Rightarrow> (nat list \<times> nat list) set" where
  "simple_trails c E S T m = {(ns, es). trail_in c E ns es \<and> distinct ns \<and> es \<noteq> [] \<and> length es \<le> m \<and> hd ns \<in> S \<and> last ns \<in> T}"

lemma trail_ball: "trail_in c E (v # xs) ys \<Longrightarrow> last (v # xs) \<in> T \<Longrightarrow> v \<in> ball (subj c) (obj c) E T (length ys)"
proof (induction ys arbitrary: v xs)
  case Nil
  then show ?case by (cases xs) auto
next
  case (Cons e ys)
  then obtain w xs' where xs: "xs = w # xs'" by (cases xs) auto
  then have "w \<in> ball (subj c) (obj c) E T (length ys)" using Cons by auto
  then show ?case using Cons.prems(1) xs by (auto simp: doubleton_eq_iff)
qed

text \<open>The bound the pruning rests on.\<close>

definition admissible :: "ctx \<Rightarrow> nat set \<Rightarrow> nat set \<Rightarrow> nat \<Rightarrow> (nat \<rightharpoonup> nat) \<Rightarrow> bool" where
  "admissible c E T m tt \<longleftrightarrow> (\<forall>j \<le> m. \<forall>v \<in> ball (subj c) (obj c) E T j. \<exists>d \<le> j. tt v = Some d)"

lemma set_adj: "set (adj c v) = {e. e < length (edges c) \<and> (subj c e = v \<or> obj c e = v)}"
  by (auto simp: adj_def set_owned)

lemma other_end_iff: "subj c e = v \<or> obj c e = v \<Longrightarrow> {subj c e, obj c e} = {v, other_end c e v}"
  by (auto simp: other_end_def)

lemma other_end_eq: "{subj c e, obj c e} = {v, w} \<Longrightarrow> v \<noteq> w \<Longrightarrow> (subj c e = v \<or> obj c e = v) \<and> other_end c e v = w"
  by (auto simp: other_end_def doubleton_eq_iff)

lemma enum_set:
  assumes adm: "admissible c E T m tt" and E: "E \<subseteq> {..<length (edges c)}"
  shows "ns \<noteq> [] \<Longrightarrow> length es + k = m \<Longrightarrow> (p, q) \<in> set (enum c E T tt m k ns es) \<longleftrightarrow>
     (\<exists>xs ys. p = rev ns @ xs \<and> q = rev es @ ys \<and> ys \<noteq> [] \<and> length ys \<le> k \<and> trail_in c E (hd ns # xs) ys \<and>
        distinct xs \<and> set xs \<inter> set ns = {} \<and> last xs \<in> T)"
proof (induction k arbitrary: ns es p q)
  case (Suc k)
  let ?o = "\<lambda>e. other_end c e (hd ns)"
  let ?R = "\<lambda>ns es k p q. \<exists>xs ys. p = rev ns @ xs \<and> q = rev es @ ys \<and> ys \<noteq> [] \<and> length ys \<le> k \<and> trail_in c E (hd ns # xs) ys \<and>
        distinct xs \<and> set xs \<inter> set ns = {} \<and> last xs \<in> T"
  have IH: "(p, q) \<in> set (enum c E T tt m k (?o e # ns) (e # es)) \<longleftrightarrow> ?R (?o e # ns) (e # es) k p q" for e
    using Suc.IH [of "?o e # ns" "e # es" p q] Suc.prems(2) by simp
  have "(p, q) \<in> set (enum c E T tt m (Suc k) ns es) \<longleftrightarrow> (\<exists>e \<in> set (adj c (hd ns)). step_ok c E tt m ns es e \<and>
      (?o e \<in> T \<and> p = rev (?o e # ns) \<and> q = rev (e # es) \<or> ?R (?o e # ns) (e # es) k p q))"
    unfolding IH [symmetric] by (auto split: if_splits)
  also have "\<dots> \<longleftrightarrow> ?R ns es (Suc k) p q"
  proof (intro iffI)
    assume "\<exists>e \<in> set (adj c (hd ns)). step_ok c E tt m ns es e \<and>
      (?o e \<in> T \<and> p = rev (?o e # ns) \<and> q = rev (e # es) \<or> ?R (?o e # ns) (e # es) k p q)"
    then obtain e where e: "e \<in> set (adj c (hd ns))" "step_ok c E tt m ns es e"
      "?o e \<in> T \<and> p = rev (?o e # ns) \<and> q = rev (e # es) \<or> ?R (?o e # ns) (e # es) k p q" by blast
    have s: "e \<in> E" "?o e \<notin> set ns" "{subj c e, obj c e} = {hd ns, ?o e}"
      using e(1,2) other_end_iff [of c e "hd ns"] by (auto simp: step_ok_def set_adj)
    from e(3) show "?R ns es (Suc k) p q"
    proof
      assume "?o e \<in> T \<and> p = rev (?o e # ns) \<and> q = rev (e # es)"
      then show ?thesis using s by (intro exI [of _ "[?o e]"] exI [of _ "[e]"]) simp
    next
      assume "?R (?o e # ns) (e # es) k p q"
      then obtain xs ys where xy: "p = rev (?o e # ns) @ xs" "q = rev (e # es) @ ys" "ys \<noteq> []" "length ys \<le> k" "trail_in c E (?o e # xs) ys"
        "distinct xs" "set xs \<inter> set (?o e # ns) = {}" "last xs \<in> T" by auto
      have "xs \<noteq> []" using xy(3,5) by (cases xs; cases ys) auto
      then show ?thesis using s xy by (intro exI [of _ "?o e # xs"] exI [of _ "e # ys"]) auto
    qed
  next
    assume "?R ns es (Suc k) p q"
    then obtain xs ys where xy: "p = rev ns @ xs" "q = rev es @ ys" "ys \<noteq> []" "length ys \<le> Suc k" "trail_in c E (hd ns # xs) ys"
        "distinct xs" "set xs \<inter> set ns = {}" "last xs \<in> T" by blast
    obtain e ys' where ys: "ys = e # ys'" using xy(3) by (cases ys) auto
    obtain w xs' where xs: "xs = w # xs'" using xy(5) ys by (cases xs) auto
    have t: "e \<in> E" "{subj c e, obj c e} = {hd ns, w}" "trail_in c E (w # xs') ys'" using xy(5) by (simp_all add: xs ys)
    have w: "w \<notin> set ns" "hd ns \<noteq> w" using xy(7) Suc.prems(1) hd_in_set by (auto simp: xs)
    note o = other_end_eq [OF t(2) w(2)]
    have "w \<in> ball (subj c) (obj c) E T (length ys')" using trail_ball [OF t(3)] xy(8) by (simp add: xs)
    moreover have "length ys' \<le> m" using xy(4) ys Suc.prems(2) by simp
    ultimately obtain d where "d \<le> length ys'" "tt w = Some d" using adm unfolding admissible_def by blast
    then have ok: "step_ok c E tt m ns es e" using t(1) o w(1) xy(4) ys Suc.prems(2) by (simp add: step_ok_def)
    have a: "e \<in> set (adj c (hd ns))" using o t(1) E by (auto simp: set_adj)
    have "?o e \<in> T \<and> p = rev (?o e # ns) \<and> q = rev (e # es) \<or> ?R (?o e # ns) (e # es) k p q"
    proof (cases "ys' = []")
      case True
      then have "xs' = []" using t(3) by (cases xs') auto
      then show ?thesis using True o xy xs ys by simp
    next
      case False
      then have "xs' \<noteq> []" using t(3) by (cases xs'; cases ys') auto
      then have "?R (?o e # ns) (e # es) k p q"
        using False o xy t(3) w by (intro exI [of _ xs'] exI [of _ ys']) (auto simp: xs ys)
      then show ?thesis by blast
    qed
    then show "\<exists>e \<in> set (adj c (hd ns)). step_ok c E tt m ns es e \<and>
      (?o e \<in> T \<and> p = rev (?o e # ns) \<and> q = rev (e # es) \<or> ?R (?o e # ns) (e # es) k p q)" using a ok by blast
  qed
  finally show ?case .
qed simp

lemma distinct_concat_map:
  assumes "\<forall>e \<in> set f. distinct (g e)" "\<forall>e \<in> set f. \<forall>e' \<in> set f. e \<noteq> e' \<longrightarrow> set (g e) \<inter> set (g e') = {}"
    "distinct (filter (\<lambda>e. g e \<noteq> []) f)"
  shows "distinct (concat (map g f))"
  using assms
proof (induction f)
  case (Cons e f)
  have "set (g e) \<inter> set (g e') = {}" if "e' \<in> set f" for e'
  proof (cases "e' = e")
    case True
    then have "g e = []" using Cons.prems(3) that by (auto split: if_splits)
    then show ?thesis by simp
  qed (use Cons.prems(2) that in auto)
  moreover have "distinct (concat (map g f))" using Cons.prems by (intro Cons.IH) (auto split: if_splits)
  ultimately show ?case using Cons.prems(1) by auto
qed simp

lemma enum_distinct:
  assumes adm: "admissible c E T m tt" and E: "E \<subseteq> {..<length (edges c)}"
  shows "ns \<noteq> [] \<Longrightarrow> length es + k = m \<Longrightarrow> distinct (enum c E T tt m k ns es)"
proof (induction k arbitrary: ns es)
  case (Suc k)
  let ?o = "\<lambda>e. other_end c e (hd ns)" and ?g = "branch c E T tt m k ns es"
  have deep: "\<exists>ys. q = rev es @ e # ys \<and> ys \<noteq> []" if "(p, q) \<in> set (enum c E T tt m k (?o e # ns) (e # es))" for p q e
    using that enum_set [OF adm E, of "?o e # ns" "e # es" k p q] Suc.prems(2) by auto
  have pos: "\<exists>ys. q = rev es @ e # ys" if "(p, q) \<in> set (?g e)" for p q e
    using that deep [of p q e] by (auto split: if_splits)
  have "distinct (concat (map ?g (adj c (hd ns))))"
  proof (rule distinct_concat_map)
    show "\<forall>e \<in> set (adj c (hd ns)). distinct (?g e)"
      using Suc.IH [of "?o _ # ns" "_ # es"] Suc.prems(2) deep by fastforce
    show "\<forall>e \<in> set (adj c (hd ns)). \<forall>e' \<in> set (adj c (hd ns)). e \<noteq> e' \<longrightarrow> set (?g e) \<inter> set (?g e') = {}"
      using pos by (intro ballI impI equals0I) (metis IntE append_same_eq list.inject same_append_eq surj_pair)
    have "e \<notin> set (owned ed_object (edges c) (hd ns))" if "e \<in> set (owned ed_subject (edges c) (hd ns))" "?g e \<noteq> []" for e
    proof
      assume "e \<in> set (owned ed_object (edges c) (hd ns))"
      then have "?o e = hd ns" using that(1) by (auto simp: set_owned other_end_def)
      moreover have "?o e \<notin> set ns" using that(2) by (auto simp: step_ok_def split: if_splits)
      ultimately show False using Suc.prems(1) by simp
    qed
    then show "distinct (filter (\<lambda>e. ?g e \<noteq> []) (adj c (hd ns)))"
      unfolding adj_def filter_append distinct_append by (auto simp: owned_def simp del: set_owned)
  qed
  then show ?case by simp
qed simp

section \<open>All origins\<close>

lemma search_origins_spec:
  assumes inv: "ctx_inv U c"
    and E: "E = {e. e < length (edges c) \<and> ed_count (edges c ! e) \<noteq> 0 \<and> visible (ed_label (edges c ! e))}"
    and adm: "admissible c E T m tt" and m: "0 < m" and ogs: "\<forall>og \<in> set ogs. og < length (concepts c)"
  shows "\<exists>capped pre post. search_origins c visible T tt m ogs b fd = Some (capped, fd @ pre) \<and>
     pre @ post = concat (map (\<lambda>og. enum c E T tt m m [og] []) ogs) \<and> (\<not> capped \<longrightarrow> post = [])"
  using ogs
proof (induction ogs arbitrary: b fd)
  case (Cons og ogs)
  let ?x = "enum c E T tt m m [og] []" and ?rest = "concat (map (\<lambda>og. enum c E T tt m m [og] []) ogs)"
  have og: "og < length (concepts c)" and E': "E \<subseteq> {..<length (edges c)}" using Cons.prems E by auto
  show ?case
  proof (cases "tt og")
    case None
    have "?x = []"
    proof (rule ccontr)
      assume "?x \<noteq> []"
      then obtain p q where "(p, q) \<in> set ?x" by (metis list.set_intros(1) neq_Nil_conv surj_pair)
      then obtain xs ys where xy: "ys \<noteq> []" "length ys \<le> m" "trail_in c E (og # xs) ys" "last xs \<in> T"
        using enum_set [OF adm E', of "[og]" "[]" m p q] by auto
      have "xs \<noteq> []" using xy(1,3) by (cases xs; cases ys) auto
      then have "og \<in> ball (subj c) (obj c) E T (length ys)" using trail_ball [OF xy(3)] xy(4) by simp
      then show False using adm xy(2) None unfolding admissible_def by fastforce
    qed
    then show ?thesis using Cons.IH [of b fd] Cons.prems None by simp
  next
    case (Some d)
    note O = path_search_origin [OF inv E og m, of tt b T fd]
    let ?st = "at_path b [adj c og] [og] [] fd"
    have unf: "search_origins c visible T tt m (og # ogs) b fd = do { (capped, st) \<leftarrow> path_search c visible T tt m ?st;
        (if capped then Some (True, df_found st) else search_origins c visible T tt m ogs (df_budget st) (df_found st)) }"
      using Some adj_reads(1,2) [OF inv og] by (simp add: adj_def)
    show ?thesis
    proof (cases "effort c E tt m m [og] [] \<le> b")
      case True
      then obtain st where st: "path_search c visible T tt m ?st = Some (False, st)" "df_found st = fd @ ?x" using O by auto
      obtain capped pre post where r: "search_origins c visible T tt m ogs (df_budget st) (fd @ ?x) = Some (capped, (fd @ ?x) @ pre)"
        "pre @ post = ?rest" "\<not> capped \<longrightarrow> post = []" using Cons.IH [of "df_budget st" "fd @ ?x"] Cons.prems by auto
      show ?thesis unfolding unf using st r by (intro exI [of _ capped] exI [of _ "?x @ pre"] exI [of _ post]) simp
    next
      case False
      then obtain st pre post where "path_search c visible T tt m ?st = Some (True, st)" "df_found st = fd @ pre" "?x = pre @ post"
        using O by (auto simp: search_result_def)
      then show ?thesis unfolding unf by (intro exI [of _ True] exI [of _ pre] exI [of _ "post @ ?rest"]) simp
    qed
  qed
qed (auto intro: exI [of _ False])

lemma origins_enum:
  assumes adm: "admissible c E T m tt" and E: "E \<subseteq> {..<length (edges c)}" and d: "distinct ogs"
  shows "distinct (concat (map (\<lambda>og. enum c E T tt m m [og] []) ogs))"
    "set (concat (map (\<lambda>og. enum c E T tt m m [og] []) ogs)) = simple_trails c E (set ogs) T m"
proof -
  have mem: "(p, q) \<in> set (enum c E T tt m m [og] []) \<longleftrightarrow> (p, q) \<in> simple_trails c E {og} T m" for p q og
  proof -
    have "(p, q) \<in> set (enum c E T tt m m [og] []) \<longleftrightarrow> (\<exists>xs. p = og # xs \<and> q \<noteq> [] \<and> length q \<le> m \<and> trail_in c E (og # xs) q \<and>
        distinct xs \<and> og \<notin> set xs \<and> last xs \<in> T)"
      using enum_set [OF adm E, of "[og]" "[]" m p q] by auto
    moreover have "xs \<noteq> []" if "trail_in c E (og # xs) q" "q \<noteq> []" for xs using that by (cases xs; cases q) auto
    moreover have "p \<noteq> []" if "trail_in c E p q" using that by (cases p) auto
    ultimately show ?thesis unfolding simple_trails_def by (cases p) auto
  qed
  show "distinct (concat (map (\<lambda>og. enum c E T tt m m [og] []) ogs))"
  proof (rule distinct_concat_map)
    show "\<forall>e \<in> set ogs. distinct (enum c E T tt m m [e] [])" using enum_distinct [OF adm E] by simp
    show "\<forall>e \<in> set ogs. \<forall>e' \<in> set ogs. e \<noteq> e' \<longrightarrow> set (enum c E T tt m m [e] []) \<inter> set (enum c E T tt m m [e'] []) = {}"
      using mem by (auto simp: simple_trails_def)
    show "distinct (filter (\<lambda>e. enum c E T tt m m [e] [] \<noteq> []) ogs)" using d by simp
  qed
  show "set (concat (map (\<lambda>og. enum c E T tt m m [og] []) ogs)) = simple_trails c E (set ogs) T m"
    using mem by (auto simp: simple_trails_def)
qed

lemma trail_in_bounds:
  assumes inv: "ctx_inv U c" and E: "E \<subseteq> {..<length (edges c)}"
  shows "trail_in c E ns es \<Longrightarrow> es \<noteq> [] \<Longrightarrow> (\<forall>v \<in> set ns. v < length (concepts c)) \<and> (\<forall>e \<in> set es. e < length (edges c))"
proof (induction es arbitrary: ns)
  case (Cons e es)
  then obtain v w vs where ns: "ns = v # w # vs" by (cases ns rule: list.exhaust [OF _ list.exhaust]) (auto, metis list.exhaust trail_in.simps)
  have e: "e < length (edges c)" "{subj c e, obj c e} = {v, w}" "trail_in c E (w # vs) es" using Cons.prems E by (auto simp: ns)
  have b: "v < length (concepts c)" "w < length (concepts c)"
    using edge_bounds [OF ctx_invD(5) [OF inv] e(1)] e(2) by (auto simp: doubleton_eq_iff)
  show ?case
  proof (cases "es = []")
    case True
    then have "vs = []" using e(3) by (cases vs) auto
    then show ?thesis using True b e(1) by (simp add: ns)
  next
    case False
    then show ?thesis using Cons.IH [OF e(3)] b e(1) by (simp add: ns)
  qed
qed simp

definition trail_spec :: "ctx \<Rightarrow> nat list \<times> nat list \<Rightarrow> trail" where
  "trail_spec c tr = (case tr of (ns, es) \<Rightarrow> \<lparr>tr_distance = length es, tr_path = map (cname c) ns,
     tr_strength = trail_strength c es, tr_associations = map (\<lambda>e. assoc_of (fact_of c e)) es\<rparr>)"

lemma trail_view_spec:
  assumes inv: "ctx_inv U c" and b: "\<forall>v \<in> set ns. v < length (concepts c)" "\<forall>e \<in> set es. e < length (edges c)"
  shows "trail_view c (ns, es) = Some (trail_spec c (ns, es))"
proof -
  have "mapM (concept_name c) ns = Some (map (cname c) ns)" using name_reads(1) [OF ctx_invD(1) [OF inv]] b(1) by (intro mapM_Some) simp
  moreover have "mapM (association c) es = Some (map (\<lambda>e. assoc_of (fact_of c e)) es)"
    using association_fact [OF inv] b(2) by (intro mapM_Some) simp
  ultimately show ?thesis by (simp add: trail_view_def trail_spec_def)
qed

lemma reverse_sweep:
  assumes inv: "ctx_inv U c" and vis: "\<forall>l < length (labels c). visible l \<longleftrightarrow> VQ (lname c l)"
    and E: "E = {e. e < length (edges c) \<and> ed_count (edges c ! e) \<noteq> 0 \<and> visible (ed_label (edges c ! e))}"
    and T: "T = {i. \<exists>n \<in> set targets. concept_ids c n = Some i}"
  shows "\<exists>st. hop_loop c visible m (length (concepts c) + 1) (hop_start (rev (remdups (rev (List.map_filter (concept_ids c) targets))))) = Some st \<and>
     admissible c E T m (hp_dist st)"
proof -
  have E': "E = {e. e < length (edges c) \<and> (fa_count (fact_of c e) \<noteq> 0 \<and> VQ (fa_label (fact_of c e)) \<and> True)}"
    using vis edge_bounds(3) [OF ctx_invD(5) [OF inv]] by (auto simp: E fact_names)
  obtain st where st: "walk_loop c visible (full_lens c) m (length (concepts c) + 1) (walk_start c targets) = Some st"
     "walk_inv (subj c) (obj c) E T m st" "wk_frontier st = []"
    using full.explore_walk [OF inv vis E' T] by blast
  have "admissible c E T m (wk_dist st)"
    unfolding admissible_def using finished_dist [OF st(2,3)] by blast
  moreover have "hp_dist (hops_of st) = wk_dist st" by (simp add: hops_of_def)
  ultimately show ?thesis
    using hop_loop_sim [of c visible m "length (concepts c) + 1" "walk_start c targets"] st(1)
      hop_start_dedup [of "List.map_filter (concept_ids c) targets"] hop_start_walk [of c targets]
    by (simp del: hop_loop.simps walk_loop.simps)
qed

text \<open>
  C12. Every path is found: on a well-formed context \<open>paths\<close> returns. Unless it reports that the
  budget was hit, its results are drawn from exactly the simple trails of live visible facts that
  lead from an origin to a target in at most \<open>max_depth\<close> hops, each once: \<open>total\<close> counts them and the
  first \<open>limit\<close> are returned, ranked by distance, then by weakest link descending, then by insertion
  order, with the names and associations they stand for. With the budget hit they are
  some of these trails, ranked the same way. A limit of zero asks for nothing and gets it.
\<close>
theorem paths_excluding_correct:
  assumes inv: "ctx_inv U c"
    and E: "E = {e. e < length (edges c) \<and> fact_of c e \<in> conducting (shown (kb_of c) excluded) (kb_of c)}"
    and S: "S = {i. \<exists>n \<in> set origins. concept_ids c n = Some i}" and T: "T = {i. \<exists>n \<in> set targets. concept_ids c n = Some i}"
  shows "\<exists>r ts. paths_excluding c origins targets m limit excluded = Some r \<and> distinct ts \<and> sorted (map (trail_key c) ts) \<and>
     set ts \<subseteq> simple_trails c E S T m \<and> (0 < limit \<and> \<not> pr_capped r \<longrightarrow> set ts = simple_trails c E S T m) \<and>
     pr_total r = length ts \<and> pr_trails r = map (trail_spec c) (take limit ts) \<and> (limit = 0 \<longrightarrow> ts = [] \<and> \<not> pr_capped r)"
proof -
  let ?v = "\<lambda>l. l \<notin> hidden_labels c excluded"
  let ?t = "rev (remdups (rev (List.map_filter (concept_ids c) targets)))"
  let ?o = "rev (remdups (rev (List.map_filter (concept_ids c) origins)))"
  have sets: "set ?t = T" "set ?o = S" by (simp_all add: T S map_filter_ids)
  have Ei: "E = {e. e < length (edges c) \<and> ed_count (edges c ! e) \<noteq> 0 \<and> ?v (ed_label (edges c ! e))}"
    using facts_graph(6) [OF inv hidden_labels_names [OF inv] refl refl, of _ excluded] unfolding E shown_def [abs_def] by auto
  have E': "E \<subseteq> {..<length (edges c)}" by (auto simp: E)
  show ?thesis
  proof (cases "?o = [] \<or> ?t = [] \<or> m = 0 \<or> limit = 0")
    case True
    have "simple_trails c E S T m = {}" if "limit \<noteq> 0"
      using True that sets by (auto simp: simple_trails_def)
    moreover have "paths_excluding c origins targets m limit excluded = Some \<lparr>pr_total = 0, pr_capped = False, pr_trails = []\<rparr>"
      unfolding paths_excluding_def paths_impl_def Let_def if_P [OF True] ..
    ultimately show ?thesis by (intro exI [of _ "\<lparr>pr_total = 0, pr_capped = False, pr_trails = []\<rparr>"] exI [of _ "[]"]) simp
  next
    case False
    obtain st where st: "hop_loop c ?v m (length (concepts c) + 1) (hop_start ?t) = Some st" "admissible c E T m (hp_dist st)"
      using reverse_sweep [OF inv hidden_labels_names [OF inv] Ei T] by blast
    have og: "\<forall>og \<in> set ?o. og < length (concepts c)" using ids_bound(1) [OF inv] sets S by auto
    obtain capped found post where f: "search_origins c ?v T (hp_dist st) m ?o PATHS_EXPANSION_BUDGET [] = Some (capped, found)"
        "found @ post = concat (map (\<lambda>og. enum c E T (hp_dist st) m m [og] []) ?o)" "\<not> capped \<longrightarrow> post = []"
      using search_origins_spec [OF inv Ei st(2) _ og, of PATHS_EXPANSION_BUDGET "[]"] False by auto
    have d: "distinct ?o" by simp
    note O = origins_enum [OF st(2) E' d, folded f(2), unfolded sets]
    let ?ts = "sort_key (trail_key c) found"
    have sub: "set found \<subseteq> simple_trails c E S T m" using O(2) by auto
    have "mapM (trail_view c) (take limit ?ts) = Some (map (trail_spec c) (take limit ?ts))"
    proof (rule mapM_Some)
      fix tr assume "tr \<in> set (take limit ?ts)"
      then have "tr \<in> simple_trails c E S T m" using sub in_set_takeD by fastforce
      then obtain ns es where tr: "tr = (ns, es)" "trail_in c E ns es" "es \<noteq> []" by (auto simp: simple_trails_def)
      show "trail_view c tr = Some (trail_spec c tr)"
        unfolding tr(1) using trail_in_bounds [OF inv E' tr(2,3)] by (intro trail_view_spec [OF inv]) blast+
    qed
    then have "paths_excluding c origins targets m limit excluded =
        Some \<lparr>pr_total = length found, pr_capped = capped, pr_trails = map (trail_spec c) (take limit ?ts)\<rparr>"
      unfolding paths_excluding_def paths_impl_def Let_def if_not_P [OF False]
      using st(1) f(1) sets by (simp del: hop_loop.simps set_rev set_remdups)
    moreover have "distinct ?ts" using O(1) by simp
    moreover have "\<not> capped \<Longrightarrow> set ?ts = simple_trails c E S T m" using O(2) f(3) by simp
    ultimately show ?thesis
      using sub False by (intro exI [of _ "\<lparr>pr_total = length found, pr_capped = capped, pr_trails = map (trail_spec c) (take limit ?ts)\<rparr>"] exI [of _ ?ts]) simp
  qed
qed

theorem paths_excluding_correct_witness:
  "\<exists>r ts. paths_excluding demo_ctx [bytes ''tea''] [bytes ''hot''] 2 10 [] = Some r \<and> distinct ts \<and> sorted (map (trail_key demo_ctx) ts) \<and>
     (\<not> pr_capped r \<longrightarrow> set ts = simple_trails demo_ctx
        {e. e < length (edges demo_ctx) \<and> fact_of demo_ctx e \<in> conducting (shown (kb_of demo_ctx) []) (kb_of demo_ctx)} {0} {1} 2) \<and>
     pr_trails r = map (trail_spec demo_ctx) (take 10 ts)"
proof -
  have "{i. \<exists>n \<in> set [bytes ''tea'']. concept_ids demo_ctx n = Some i} = {0}" "{i. \<exists>n \<in> set [bytes ''hot'']. concept_ids demo_ctx n = Some i} = {1}"
    by (auto simp: demo_tables bytes_def)
  then show ?thesis
    using paths_excluding_correct [OF demo_ctx(1) refl refl refl, of "[bytes ''tea'']" "[bytes ''hot'']" 2 10 "[]"] by auto
qed

end
