(* ===== verification/Float_Order.thy ===== *)
theory Float_Order
  imports Float64
begin

text \<open>
  Rounding is monotone, on the bit patterns: the bounds of products, quotients and saturating sums of
  non-negative values that the ranking relies on.
\<close>

section \<open>Patterns and units\<close>

definition unit_of :: "nat \<Rightarrow> nat" where
  "unit_of m = (if m div 2 ^ 52 = 0 then m mod 2 ^ 52 else (2 ^ 52 + m mod 2 ^ 52) * 2 ^ (m div 2 ^ 52 - 1))"

lemma f64_units_of: "f64_units x = unit_of (f64_mag x)"
  by (simp add: f64_units_def unit_of_def f64_exp_def f64_frac_def)

text \<open>A pattern is an exponent and a significand, normalised unless the exponent is least.\<close>

lemma unit_of_split:
  obtains e f where "m = e * 2 ^ 52 + f" "unit_of m = f * 2 ^ e" "f < 2 ^ 53" "e = 0 \<or> 2 ^ 52 \<le> f"
proof (cases "m div 2 ^ 52 = 0")
  case True
  have "m = 0 * 2 ^ 52 + m mod 2 ^ 52" using div_mult_mod_eq [of m "2 ^ 52"] True by simp
  moreover have "unit_of m = m mod 2 ^ 52 * 2 ^ 0" unfolding unit_of_def using True by (simp only: if_True simp_thms power_0 mult_1_right)
  moreover have "m mod 2 ^ 52 < 2 ^ 53" using mod_less_divisor [of "2 ^ 52" m] by simp
  ultimately show ?thesis by (rule that) simp
next
  case False
  then obtain e where e: "m div 2 ^ 52 = Suc e" by (cases "m div 2 ^ 52") auto
  have "m = e * 2 ^ 52 + (2 ^ 52 + m mod 2 ^ 52)" using div_mult_mod_eq [of m "2 ^ 52"] unfolding e by simp
  moreover have "unit_of m = (2 ^ 52 + m mod 2 ^ 52) * 2 ^ e" unfolding unit_of_def e by simp
  moreover have "2 ^ 52 + m mod 2 ^ 52 < 2 ^ 53" using mod_less_divisor [of "2 ^ 52" m] by simp
  ultimately show ?thesis by (rule that) simp
qed

lemma bitlen_0 [simp]: "bitlen 0 = 0"
  by (simp add: bitlen.simps)

lemma bitlen_upper: "n < 2 ^ bitlen n"
proof (induction n rule: bitlen.induct)
  case (1 n)
  show ?case
  proof (cases "n = 0")
    case False
    with 1 have "n div 2 < 2 ^ bitlen (n div 2)" by simp
    then have "n < 2 ^ Suc (bitlen (n div 2))" by simp
    then show ?thesis using False by (subst bitlen.simps) simp
  qed simp
qed

lemma bitlen_le: "n < 2 ^ b \<Longrightarrow> bitlen n \<le> b"
proof (induction b arbitrary: n)
  case (Suc b)
  have "bitlen (n div 2) \<le> b" by (rule Suc.IH) (use Suc.prems in simp)
  then show ?case by (cases "n = 0") (simp_all add: bitlen.simps [of n])
qed simp

lemma bitlen_lower: "0 < bitlen n \<Longrightarrow> 2 ^ (bitlen n - 1) \<le> n"
  using bitlen_le [of n "bitlen n - 1"] by (cases "bitlen n") (auto simp: not_less [symmetric])

section \<open>Rounding against a representable bound\<close>

definition rounding :: "nat \<Rightarrow> nat \<Rightarrow> nat \<Rightarrow> nat \<Rightarrow> nat \<Rightarrow> bool" where
  "rounding n d k q q' \<longleftrightarrow> f64_round_mag n d = min (k * 2 ^ 52 + q') f64_inf_mag \<and> k = bitlen (n div d) - 53 \<and> q = n div d div 2 ^ k \<and>
    q \<le> q' \<and> q' \<le> Suc q \<and> q < 2 ^ 53 \<and> (0 < k \<longrightarrow> 2 ^ 52 \<le> q) \<and> (n mod (d * 2 ^ k) = 0 \<longrightarrow> q' = q)"

lemma roundingD:
  assumes "rounding n d k q q'"
  shows "f64_round_mag n d = min (k * 2 ^ 52 + q') f64_inf_mag" "k = bitlen (n div d) - 53" "q = n div d div 2 ^ k"
    "q \<le> q'" "q' \<le> Suc q" "q < 2 ^ 53" "0 < k \<Longrightarrow> 2 ^ 52 \<le> q" "n mod (d * 2 ^ k) = 0 \<Longrightarrow> q' = q"
proof -
  note A = assms [unfolded rounding_def]
  note B = A [THEN conjunct2, THEN conjunct2, THEN conjunct2]
  show "f64_round_mag n d = min (k * 2 ^ 52 + q') f64_inf_mag" by (rule A [THEN conjunct1])
  show "k = bitlen (n div d) - 53" by (rule A [THEN conjunct2, THEN conjunct1])
  show "q = n div d div 2 ^ k" by (rule A [THEN conjunct2, THEN conjunct2, THEN conjunct1])
  show "q \<le> q'" "q' \<le> Suc q" "q < 2 ^ 53" "0 < k \<Longrightarrow> 2 ^ 52 \<le> q" using B by blast+
  show "q' = q" if "n mod (d * 2 ^ k) = 0" by (rule B [THEN conjunct2, THEN conjunct2, THEN conjunct2, THEN conjunct2, THEN mp, OF that])
qed

lemma round_parts:
  assumes d: "0 < d" shows "\<exists>k q q'. rounding n d k q q'"
proof -
  define k where "k = bitlen (n div d) - 53"
  define q where "q = n div d div 2 ^ k"
  define q' where "q' = (if d * 2 ^ k < 2 * (n mod (d * 2 ^ k)) \<or> (d * 2 ^ k = 2 * (n mod (d * 2 ^ k)) \<and> odd q) then Suc q else q)"
  have q: "q = n div (d * 2 ^ k)" by (simp add: q_def div_mult2_eq)
  have eq: "f64_round_mag n d = min (k * 2 ^ 52 + q') f64_inf_mag"
    unfolding f64_round_mag_def Let_def k_def [symmetric] q [symmetric] q'_def ..
  have "n div d < 2 ^ (k + 53)"
    by (rule less_le_trans [OF bitlen_upper power_increasing]) (simp_all add: k_def)
  then have ub: "q < 2 ^ 53" unfolding q_def by (simp add: power_add less_mult_imp_div_less mult.commute)
  have lb: "2 ^ 52 \<le> q" if "0 < k"
  proof -
    have "2 ^ (52 + k) \<le> n div d" using bitlen_lower [of "n div d"] that unfolding k_def by (simp add: algebra_simps)
    then have "2 ^ (52 + k) div 2 ^ k \<le> q" unfolding q_def by (rule div_le_mono)
    then show ?thesis by (simp add: power_add)
  qed
  have ex: "q' = q" if "n mod (d * 2 ^ k) = 0" using d that by (simp add: q'_def)
  have "q \<le> q'" "q' \<le> Suc q" by (simp_all add: q'_def)
  then have "rounding n d k q q'" unfolding rounding_def using eq k_def q_def ub lb ex by (intro conjI impI)
  then show ?thesis by blast
qed

lemma round_mag_upper:
  assumes d: "0 < d" and n: "n \<le> unit_of m * d" shows "f64_round_mag n d \<le> m"
proof -
  obtain e f where m: "m = e * 2 ^ 52 + f" "unit_of m = f * 2 ^ e" "f < 2 ^ 53" "e = 0 \<or> 2 ^ 52 \<le> f" by (rule unit_of_split)
  obtain k q q' where "rounding n d k q q'" using round_parts [OF d, of n] by blast
  note R = roundingD [OF this]
  have nd: "n div d \<le> f * 2 ^ e" using div_le_mono [OF n, of d] d by (simp add: m(2))
  also have "\<dots> < 2 ^ 53 * 2 ^ e" using m(3) by simp
  finally have "bitlen (n div d) \<le> 53 + e" by (intro bitlen_le) (simp add: power_add)
  then have ke: "k \<le> e" using R(2) by simp
  have "k * 2 ^ 52 + q' \<le> m"
  proof (cases "k = e")
    case True
    have qf: "q \<le> f" using div_le_mono [OF nd, of "2 ^ k"] R(3) True by simp
    have "q' \<le> f"
    proof (cases "q = f")
      case eq: True
      have "f * (d * 2 ^ k) \<le> n" using R(3) eq div_times_less_eq_dividend [of n "d * 2 ^ k"] by (simp add: div_mult2_eq)
      then have "n = f * (d * 2 ^ k)" using n m(2) True by (simp add: algebra_simps)
      then show ?thesis using R(8) eq by simp
    qed (use qf R(5) in simp)
    then show ?thesis using m(1) True by simp
  next
    case False
    then have "Suc k * 2 ^ 52 \<le> e * 2 ^ 52" "2 ^ 52 \<le> f" using ke m(4) by (auto intro: mult_le_mono1)
    then show ?thesis using R(5,6) m(1) by simp
  qed
  then show ?thesis using R(1) by simp
qed

lemma round_mag_lower:
  assumes d: "0 < d" and n: "unit_of m * d \<le> n" and inf: "m \<le> f64_inf_mag" shows "m \<le> f64_round_mag n d"
proof -
  obtain e f where m: "m = e * 2 ^ 52 + f" "unit_of m = f * 2 ^ e" "f < 2 ^ 53" "e = 0 \<or> 2 ^ 52 \<le> f" by (rule unit_of_split)
  obtain k q q' where "rounding n d k q q'" using round_parts [OF d, of n] by blast
  note R = roundingD [OF this]
  have nd: "f * 2 ^ e \<le> n div d" using div_le_mono [OF n, of d] d by (simp add: m(2))
  have ek: "e \<le> k"
  proof (cases "e = 0")
    case False
    then have "2 ^ 52 * 2 ^ e \<le> n div d" using m(4) nd by (meson le_trans mult_le_mono1)
    then have "\<not> n div d < 2 ^ (52 + e)" by (simp add: power_add)
    moreover have "n div d < 2 ^ (52 + e)" if "bitlen (n div d) \<le> 52 + e"
      by (rule less_le_trans [OF bitlen_upper power_increasing [OF that]]) simp
    ultimately have "52 + e < bitlen (n div d)" by fastforce
    then show ?thesis using R(2) by simp
  qed simp
  have "m \<le> k * 2 ^ 52 + q'"
  proof (cases "k = e")
    case True
    have "f \<le> q" using div_le_mono [OF nd, of "2 ^ k"] R(3) True by simp
    then show ?thesis using m(1) True R(4) by simp
  next
    case False
    then have "Suc e * 2 ^ 52 \<le> k * 2 ^ 52" "2 ^ 52 \<le> q" using ek R(7) by (auto intro: mult_le_mono1)
    then show ?thesis using m(1,3) R(4) by simp
  qed
  then show ?thesis using R(1) inf by simp
qed

lemma unit_of_mono: "m \<le> m' \<Longrightarrow> unit_of m \<le> unit_of m'"
proof -
  assume le: "m \<le> m'"
  obtain e f where m: "m = e * 2 ^ 52 + f" "unit_of m = f * 2 ^ e" "f < 2 ^ 53" "e = 0 \<or> 2 ^ 52 \<le> f" by (rule unit_of_split)
  obtain e' f' where m': "m' = e' * 2 ^ 52 + f'" "unit_of m' = f' * 2 ^ e'" "f' < 2 ^ 53" "e' = 0 \<or> 2 ^ 52 \<le> f'" by (rule unit_of_split)
  consider "e = e'" | "e < e'" | "e' < e" by linarith
  then show ?thesis
  proof cases
    case 1
    then show ?thesis using le m(1,2) m'(1,2) by simp
  next
    case 2
    have "f * 2 ^ e \<le> 2 ^ 53 * 2 ^ e" using m(3) by simp
    also have "\<dots> = 2 ^ 52 * 2 ^ Suc e" by simp
    also have "\<dots> \<le> f' * 2 ^ e'" using 2 m'(4) by (intro mult_le_mono power_increasing) auto
    finally show ?thesis using m(2) m'(2) by simp
  next
    case 3
    then have "Suc e' * 2 ^ 52 \<le> e * 2 ^ 52" "2 ^ 52 \<le> f" using m(4) by (auto intro: mult_le_mono1)
    then have "m' < m + 1" "m' \<le> m" using m(1) m'(1,3) by simp_all
    then have "m = m'" using le by simp
    then show ?thesis by simp
  qed
qed


section \<open>Non-negative values\<close>

text \<open>No sign and no NaN; then every comparison is one of patterns.\<close>

definition nonneg :: "f64 \<Rightarrow> bool" where
  "nonneg x \<longleftrightarrow> \<not> f64_sign x \<and> \<not> is_nan x"

lemma nonneg_order:
  assumes "nonneg x" "nonneg y"
  shows "f64_lt x y \<longleftrightarrow> f64_mag x < f64_mag y" "f64_le x y \<longleftrightarrow> f64_mag x \<le> f64_mag y"
    "f64_total_key x = int (f64_mag x)" "f64_mag x = f64_mag y \<Longrightarrow> x = y"
  using assms by (auto simp: nonneg_def f64_lt_def f64_le_def f64_key_def f64_total_key_def intro: f64_eqI)

lemma nonneg_consts [simp]: "nonneg f64_zero" "nonneg f64_one" "f64_mag f64_zero = 0" "f64_mag f64_one = 1023 * 2 ^ 52"
  by (simp_all add: nonneg_def f64_zero_def f64_one_def is_nan_def f64_inf_mag_def)

lemma nonneg_abs: "is_finite x \<Longrightarrow> nonneg (f64_abs x)"
  by (simp add: nonneg_def f64_abs_def is_finite_def is_nan_def)

lemma positive_iff: "nonneg x \<Longrightarrow> \<not> f64_le x f64_zero \<longleftrightarrow> 0 < f64_mag x"
  by (simp add: nonneg_order)

lemma unit_of_one: "unit_of (1023 * 2 ^ 52) = 2 ^ 1074"
  by (simp add: unit_of_def)

lemma unit_of_0 [simp]: "unit_of 0 = 0"
  by (simp add: unit_of_def)

lemma unit_of_pos: "0 < m \<Longrightarrow> 0 < unit_of m"
proof -
  assume "0 < m"
  obtain e f where "m = e * 2 ^ 52 + f" "unit_of m = f * 2 ^ e" "e = 0 \<or> 2 ^ 52 \<le> f" by (rule unit_of_split)
  then show ?thesis using \<open>0 < m\<close> by auto
qed

lemma round_mag_0 [simp]: "f64_round_mag 0 d = 0"
  by (simp add: f64_round_mag_def Let_def)

text \<open>Scaling a finite value by a factor of at most one never grows it.\<close>

lemma mul_le_left:
  assumes "is_finite x" "is_finite y" "f64_mag y \<le> f64_mag f64_one"
  shows "f64_mag (f64_mul x y) \<le> f64_mag x" "\<not> is_nan (f64_mul x y)" "f64_sign (f64_mul x y) = (f64_sign x \<noteq> f64_sign y)"
proof -
  have m: "f64_mul x y = f64_round (f64_sign x \<noteq> f64_sign y) (f64_units x * f64_units y) (2 ^ 1074)"
    using assms(1,2) [THEN f64_finite_not] by (simp add: f64_mul_def Let_def)
  have "f64_units y \<le> 2 ^ 1074"
    unfolding f64_units_of using unit_of_mono [OF assms(3)] unfolding nonneg_consts unit_of_one .
  then have "f64_units x * f64_units y \<le> unit_of (f64_mag x) * 2 ^ 1074" unfolding f64_units_of by (intro mult_le_mono) auto
  then show "f64_mag (f64_mul x y) \<le> f64_mag x" unfolding m f64_mag_round by (intro round_mag_upper) simp_all
  show "\<not> is_nan (f64_mul x y)" "f64_sign (f64_mul x y) = (f64_sign x \<noteq> f64_sign y)" by (simp_all add: m)
qed

lemma mul_commute_mag:
  assumes "is_finite x" "is_finite y" shows "f64_mag (f64_mul x y) = f64_mag (f64_mul y x)"
  using assms [THEN f64_finite_not] by (simp add: f64_mul_def Let_def mult.commute)

lemma mul_le_right:
  assumes "is_finite x" "is_finite y" "f64_mag x \<le> f64_mag f64_one"
  shows "f64_mag (f64_mul x y) \<le> f64_mag y" "\<not> is_nan (f64_mul x y)" "f64_sign (f64_mul x y) = (f64_sign x \<noteq> f64_sign y)"
proof -
  show "f64_mag (f64_mul x y) \<le> f64_mag y" using mul_le_left(1) [OF assms(2,1,3)] mul_commute_mag [OF assms(1,2)] by simp
  show "\<not> is_nan (f64_mul x y)" "f64_sign (f64_mul x y) = (f64_sign x \<noteq> f64_sign y)"
    using assms(1,2) [THEN f64_finite_not] by (simp_all add: f64_mul_def Let_def)
qed

text \<open>A share of a total is at most one.\<close>

lemma div_le_one:
  assumes "is_finite x" "is_finite y" "f64_mag x \<le> f64_mag y" "0 < f64_mag y"
  shows "f64_mag (f64_div x y) \<le> f64_mag f64_one" "\<not> is_nan (f64_div x y)" "f64_sign (f64_div x y) = (f64_sign x \<noteq> f64_sign y)"
proof -
  have m: "f64_div x y = f64_round (f64_sign x \<noteq> f64_sign y) (f64_units x * 2 ^ 1074) (f64_units y)"
    using assms(1,2) [THEN f64_finite_not] assms(4) by (simp add: f64_div_def Let_def)
  have "f64_units x * 2 ^ 1074 \<le> unit_of (f64_mag f64_one) * f64_units y"
    unfolding nonneg_consts unit_of_one f64_units_of using unit_of_mono [OF assms(3)] by (simp only: mult.commute mult_le_mono1)
  then show "f64_mag (f64_div x y) \<le> f64_mag f64_one" unfolding m f64_mag_round
    by (rule round_mag_upper [rotated]) (simp add: f64_units_of unit_of_pos [OF assms(4)])
  show "\<not> is_nan (f64_div x y)" "f64_sign (f64_div x y) = (f64_sign x \<noteq> f64_sign y)" by (simp_all add: m)
qed

lemma add_nonneg:
  assumes "nonneg x" "is_finite x" "nonneg y" "is_finite y"
  shows "nonneg (f64_add x y)" "f64_mag x \<le> f64_mag (f64_add x y)" "f64_mag y \<le> f64_mag (f64_add x y)"
proof -
  note F = f64_finite_not [OF assms(2)] f64_finite_not [OF assms(4)]
  have s: "\<not> f64_sign x" "\<not> f64_sign y" using assms by (simp_all add: nonneg_def)
  have v: "f64_val x + f64_val y = int (f64_units x + f64_units y)" using s by (simp add: f64_val_def)
  have eq: "f64_add x y = f64_round False (f64_units x + f64_units y) 1"
  proof (cases "f64_units x + f64_units y = 0")
    case True
    then show ?thesis using F s by (simp add: f64_add_def v Let_def f64_round_def)
  next
    case False
    then show ?thesis using F s unfolding f64_add_def v Let_def by (simp add: nat_add_distrib) linarith
  qed
  show "nonneg (f64_add x y)" by (simp add: eq nonneg_def)
  have "f64_mag z \<le> f64_round_mag (f64_units x + f64_units y) 1" if "is_finite z" "f64_units z \<le> f64_units x + f64_units y" for z
    by (rule round_mag_lower) (use that in \<open>auto simp: is_finite_def f64_units_of\<close>)
  then show "f64_mag x \<le> f64_mag (f64_add x y)" "f64_mag y \<le> f64_mag (f64_add x y)" using assms by (simp_all add: eq)
qed

end
