(* ===== verification/Activation.thy ===== *)
theory Activation
  imports Explore Float_Order "HOL-Library.AList"
begin

text \<open>
  Spreading activation (\<^verbatim>\<open>activate\<close> of \<^verbatim>\<open>src/context/traverse.rs\<close> and its windowed lane): the
  best-first spread from the origins, the strength each association gets, and the ranking.
\<close>

section \<open>The spread\<close>

record activation =
  av_strength :: f64
  av_path :: "rstr list"
  av_association :: association

text \<open>\<open>1e-6\<close>.\<close>

definition ACTIVATION_FLOOR :: f64 where
  "ACTIVATION_FLOOR = f64_make False 0x3EB0C6F7A0B5ED8D"

text \<open>A heap entry; the greatest activation comes first, the lower concept id on a tie.\<close>

type_synonym candidate = "f64 \<times> nat"

definition cand_key :: "candidate \<Rightarrow> int \<times> int" where
  "cand_key p = (f64_total_key (fst p), - int (snd p))"

fun best_cand :: "candidate \<Rightarrow> candidate list \<Rightarrow> candidate" where
  "best_cand p [] = p"
| "best_cand p (q # qs) = best_cand (if cand_key p < cand_key q then q else p) qs"

definition pop_max :: "candidate list \<Rightarrow> (candidate \<times> candidate list) option" where
  "pop_max h = (case h of [] \<Rightarrow> None | p # ps \<Rightarrow> (let m = best_cand p ps in Some (m, remove1 m h)))"

record spread =
  sp_best :: "nat \<rightharpoonup> f64"
  sp_parents :: "nat \<rightharpoonup> nat"
  sp_heap :: "candidate list"
  sp_settled :: "nat set"
  sp_strengths :: "(nat \<times> f64 \<times> nat) list"

definition spread_start :: "ctx \<Rightarrow> rstr list \<Rightarrow> spread" where
  "spread_start c origins = foldl (\<lambda>st og. case concept_ids c og of None \<Rightarrow> st
       | Some i \<Rightarrow> st\<lparr>sp_best := (sp_best st)(i \<mapsto> f64_one), sp_heap := (f64_one, i) # sp_heap st\<rparr>)
     \<lparr>sp_best = Map.empty, sp_parents = Map.empty, sp_heap = [], sp_settled = {}, sp_strengths = []\<rparr> origins"

text \<open>The fan of a concept: a self-loop counts on the outgoing chain only.\<close>

definition fan_edge :: "ctx \<Rightarrow> (nat \<Rightarrow> bool) \<Rightarrow> lens \<Rightarrow> bool \<Rightarrow> f64 \<Rightarrow> nat \<Rightarrow> f64 option" where
  "fan_edge c visible L from_incoming acc e = do {
     r \<leftarrow> nth_opt (edges c) e;
     (if from_incoming \<and> ed_subject r = ed_object r then Some acc
      else do {
        ok \<leftarrow> usable visible L e r;
        if ok then map_option (accumulate_saturating acc) (ln_magnitude L e r) else Some acc }) }"

definition fan_total :: "ctx \<Rightarrow> (nat \<Rightarrow> bool) \<Rightarrow> lens \<Rightarrow> nat list \<Rightarrow> nat list \<Rightarrow> f64 option" where
  "fan_total c visible L out inc = do {
     t \<leftarrow> foldM (fan_edge c visible L False) f64_zero out;
     foldM (fan_edge c visible L True) t inc }"

definition score_edge :: "nat \<Rightarrow> nat \<Rightarrow> f64 \<Rightarrow> spread \<Rightarrow> spread" where
  "score_edge concept e score st =
     (case map_of (sp_strengths st) e of
        None \<Rightarrow> st\<lparr>sp_strengths := sp_strengths st @ [(e, (if f64_lt f64_zero score then score else f64_zero), concept)]\<rparr>
      | Some (strength, _) \<Rightarrow>
          if f64_lt strength score then st\<lparr>sp_strengths := AList.update e (score, concept) (sp_strengths st)\<rparr> else st)"

definition conduct :: "nat \<Rightarrow> f64 \<Rightarrow> spread \<Rightarrow> nat \<Rightarrow> spread" where
  "conduct concept flow st v =
     (if v \<in> sp_settled st then st
      else if f64_lt (case sp_best st v of None \<Rightarrow> f64_zero | Some b \<Rightarrow> b) flow
      then st\<lparr>sp_best := (sp_best st)(v \<mapsto> flow), sp_parents := (sp_parents st)(v \<mapsto> concept), sp_heap := (flow, v) # sp_heap st\<rparr>
      else st)"

definition spread_edge ::
    "ctx \<Rightarrow> (nat \<Rightarrow> bool) \<Rightarrow> lens \<Rightarrow> f64 \<Rightarrow> f64 \<Rightarrow> nat \<Rightarrow> f64 \<Rightarrow> spread \<Rightarrow> nat \<Rightarrow> spread option" where
  "spread_edge c visible L decay act concept fan st e = do {
     r \<leftarrow> nth_opt (edges c) e;
     ok \<leftarrow> usable visible L e r;
     (if \<not> ok then Some st
      else do {
        m \<leftarrow> ln_magnitude L e r;
        let score = f64_mul (f64_mul act decay) m;
        Some (if f64_le score f64_zero then st
              else let st1 = score_edge concept e score st; flow = f64_div score fan
                   in if f64_lt flow ACTIVATION_FLOOR then st1
                      else conduct concept flow (conduct concept flow st1 (ed_subject r)) (ed_object r)) }) }"

definition spread_from :: "ctx \<Rightarrow> (nat \<Rightarrow> bool) \<Rightarrow> lens \<Rightarrow> f64 \<Rightarrow> f64 \<Rightarrow> nat \<Rightarrow> spread \<Rightarrow> spread option" where
  "spread_from c visible L decay act concept st = do {
     out \<leftarrow> outgoing c concept;
     inc \<leftarrow> incoming c concept;
     fan \<leftarrow> fan_total c visible L out inc;
     if f64_eq fan f64_zero then Some st
     else foldM (spread_edge c visible L decay act concept fan) st (out @ inc) }"

lemma conduct_settled [simp]: "sp_settled (conduct p flow st v) = sp_settled st"
  by (simp add: conduct_def)

lemma score_edge_settled [simp]: "sp_settled (score_edge p e s st) = sp_settled st"
  by (simp add: score_edge_def split: option.split)

lemma spread_edge_settled:
  "spread_edge c visible L decay a p fan st e = Some st' \<Longrightarrow> sp_settled st' = sp_settled st"
  by (auto simp: spread_edge_def bind_eq_Some_conv Let_def split: if_splits)

lemma spread_fold_settled:
  "foldM (spread_edge c visible L decay a p fan) st es = Some st' \<Longrightarrow> sp_settled st' = sp_settled st"
  by (induction es arbitrary: st) (auto simp: bind_eq_Some_conv dest!: spread_edge_settled)

lemma spread_from_settled:
  assumes "spread_from c visible L decay a p st = Some st'"
  shows "sp_settled st' = sp_settled st" "p < length (concepts c)"
  using assms by (auto simp: spread_from_def outgoing_def bind_eq_Some_conv nth_opt_def dest: spread_fold_settled split: if_splits)

lemma best_cand_spec: "best_cand p qs \<in> set (p # qs) \<and> (\<forall>q \<in> set (p # qs). cand_key q \<le> cand_key (best_cand p qs))"
proof (induction qs arbitrary: p)
  case (Cons q qs)
  from Cons.IH [of "if cand_key p < cand_key q then q else p"] show ?case by (auto split: if_splits)
qed simp

lemma pop_max_spec:
  assumes "pop_max h = Some (m, rest)"
  shows "m \<in> set h" "rest = remove1 m h" "q \<in> set h \<Longrightarrow> cand_key q \<le> cand_key m" "length rest < length h"
proof -
  obtain p ps where h: "h = p # ps" "m = best_cand p ps" "rest = remove1 m h"
    using assms by (auto simp: pop_max_def Let_def split: list.splits)
  show m: "m \<in> set h" and "rest = remove1 m h" and "q \<in> set h \<Longrightarrow> cand_key q \<le> cand_key m"
    using best_cand_spec [of p ps] h by auto
  show "length rest < length h" using m h(1,3) length_pos_if_in_set [of m ps] by (auto simp: length_remove1)
qed

function spread_loop :: "ctx \<Rightarrow> (nat \<Rightarrow> bool) \<Rightarrow> lens \<Rightarrow> f64 \<Rightarrow> spread \<Rightarrow> spread option" where
  "spread_loop c visible L decay st =
     (case pop_max (sp_heap st) of
        None \<Rightarrow> Some st
      | Some ((act, concept), rest) \<Rightarrow>
          if concept \<in> sp_settled st then spread_loop c visible L decay (st\<lparr>sp_heap := rest\<rparr>)
          else case spread_from c visible L decay act concept
                 (st\<lparr>sp_heap := rest, sp_settled := insert concept (sp_settled st)\<rparr>) of
              None \<Rightarrow> None
            | Some st' \<Rightarrow> spread_loop c visible L decay st')"
  by pat_completeness auto

termination
proof (relation "inv_image (less_than <*lex*> less_than)
    (\<lambda>(c, visible, L, decay, st). (card ({..<length (concepts c)} - sp_settled st), length (sp_heap st)))")
  fix c :: ctx and visible :: "nat \<Rightarrow> bool" and L :: lens and decay :: f64 and st :: spread and x2 a b act concept st'
  assume p: "pop_max (sp_heap st) = Some x2" "(a, b) = x2" "(act, concept) = a" and n: "concept \<notin> sp_settled st"
    and s: "spread_from c visible L decay act concept (st\<lparr>sp_heap := b, sp_settled := insert concept (sp_settled st)\<rparr>) = Some st'"
  have "card ({..<length (concepts c)} - sp_settled st') < card ({..<length (concepts c)} - sp_settled st)"
    using spread_from_settled [OF s] n by (intro psubset_card_mono) auto
  then show "((c, visible, L, decay, st'), (c, visible, L, decay, st)) \<in> inv_image (less_than <*lex*> less_than)
    (\<lambda>(c, visible, L, decay, st). (card ({..<length (concepts c)} - sp_settled st), length (sp_heap st)))" by simp
qed (auto dest: pop_max_spec(4))

declare spread_loop.simps [simp del]

section \<open>The ranking\<close>

definition activation_view :: "ctx \<Rightarrow> lens \<Rightarrow> (nat \<rightharpoonup> nat) \<Rightarrow> f64 \<times> nat \<times> nat \<Rightarrow> activation option" where
  "activation_view c L parents x = (case x of (strength, e, from) \<Rightarrow> do {
     p \<leftarrow> path_from c parents from;
     a \<leftarrow> ln_association L e;
     Some \<lparr>av_strength = strength, av_path = p, av_association = a\<rparr> })"

definition rank_key :: "f64 \<times> nat \<times> nat \<Rightarrow> int \<times> nat" where
  "rank_key x = (- f64_total_key (fst x), fst (snd x))"

definition activate_impl ::
    "ctx \<Rightarrow> rstr list \<Rightarrow> f64 \<Rightarrow> nat \<Rightarrow> (nat \<Rightarrow> bool) \<Rightarrow> lens \<Rightarrow> (nat \<times> activation list) option" where
  "activate_impl c origins decay limit visible L = do {
     st \<leftarrow> spread_loop c visible L (clamp_unit_or decay f64_zero) (spread_start c origins);
     let ranked = sort_key rank_key (map (\<lambda>(e, strength, from). (strength, e, from)) (sp_strengths st));
     rs \<leftarrow> mapM (activation_view c L (sp_parents st)) (take limit ranked);
     Some (length ranked, rs) }"

definition activate :: "ctx \<Rightarrow> rstr list \<Rightarrow> f64 \<Rightarrow> nat \<Rightarrow> (nat \<times> activation list) option" where
  "activate c origins decay limit = activate_impl c origins decay limit (\<lambda>_. True) (full_lens c)"

definition activate_excluding :: "ctx \<Rightarrow> rstr list \<Rightarrow> f64 \<Rightarrow> nat \<Rightarrow> rstr list \<Rightarrow> (nat \<times> activation list) option" where
  "activate_excluding c origins decay limit excluded =
     activate_impl c origins decay limit (\<lambda>l. l \<notin> hidden_labels c excluded) (full_lens c)"

definition activate_within ::
    "ctx \<Rightarrow> rstr list \<Rightarrow> f64 \<Rightarrow> nat \<Rightarrow> rstr list \<Rightarrow> nat set \<Rightarrow> (nat \<times> activation list) option" where
  "activate_within c origins decay limit excluded window =
     activate_impl c origins decay limit (\<lambda>l. l \<notin> hidden_labels c excluded) (window_lens c window)"


section \<open>Flows\<close>

text \<open>What the spread sees of the network: the conducting edges with their magnitudes, and each concept's fan.\<close>

record ('n, 'e) sgraph =
  sg_src :: "'e \<Rightarrow> 'n"
  sg_dst :: "'e \<Rightarrow> 'n"
  sg_edges :: "'e set"
  sg_origins :: "'n set"
  sg_mag :: "'e \<Rightarrow> f64"
  sg_fan :: "'n \<Rightarrow> f64"
  sg_decay :: f64

definition gain :: "('n, 'e) sgraph \<Rightarrow> f64 \<Rightarrow> 'e \<Rightarrow> f64" where
  "gain G a e = f64_mul (f64_mul a (sg_decay G)) (sg_mag G e)"

definition flow_of :: "('n, 'e) sgraph \<Rightarrow> f64 \<Rightarrow> 'n \<Rightarrow> 'e \<Rightarrow> f64" where
  "flow_of G a p e = f64_div (gain G a e) (sg_fan G p)"

definition at_end :: "('n, 'e) sgraph \<Rightarrow> 'n \<Rightarrow> 'e \<Rightarrow> bool" where
  "at_end G p e \<longleftrightarrow> e \<in> sg_edges G \<and> (sg_src G e = p \<or> sg_dst G e = p)"

definition joins :: "('n, 'e) sgraph \<Rightarrow> 'e \<Rightarrow> 'n \<Rightarrow> 'n \<Rightarrow> bool" where
  "joins G e p v \<longleftrightarrow> sg_src G e = p \<and> sg_dst G e = v \<or> sg_src G e = v \<and> sg_dst G e = p"

definition positive :: "f64 \<Rightarrow> bool" where
  "positive a \<longleftrightarrow> \<not> f64_le a f64_zero"

definition conducts :: "('n, 'e) sgraph \<Rightarrow> f64 \<Rightarrow> 'n \<Rightarrow> 'e \<Rightarrow> bool" where
  "conducts G a p e \<longleftrightarrow> at_end G p e \<and> positive (gain G a e) \<and> \<not> f64_lt (flow_of G a p e) ACTIVATION_FLOOR"

text \<open>An activation: positive and at most one.\<close>

definition unit_act :: "f64 \<Rightarrow> bool" where
  "unit_act a \<longleftrightarrow> nonneg a \<and> 0 < f64_mag a \<and> f64_mag a \<le> f64_mag f64_one"

definition sg_ok :: "('n, 'e) sgraph \<Rightarrow> bool" where
  "sg_ok G \<longleftrightarrow> is_finite (sg_decay G) \<and> f64_mag (sg_decay G) \<le> f64_mag f64_one \<and>
     (\<forall>p. nonneg (sg_fan G p) \<and> is_finite (sg_fan G p)) \<and>
     (\<forall>e \<in> sg_edges G. nonneg (sg_mag G e) \<and> is_finite (sg_mag G e)) \<and>
     (\<forall>p e. at_end G p e \<longrightarrow> f64_mag (sg_mag G e) \<le> f64_mag (sg_fan G p))"

lemma unit_finite: "f64_mag a \<le> f64_mag f64_one \<Longrightarrow> is_finite a"
  by (simp add: is_finite_def f64_inf_mag_def)

lemma gain_bounds:
  assumes G: "sg_ok G" and e: "e \<in> sg_edges G" and a: "unit_act a"
  shows "f64_mag (gain G a e) \<le> f64_mag (sg_mag G e)" "is_finite (gain G a e)"
    "positive (gain G a e) \<Longrightarrow> nonneg (gain G a e) \<and> 0 < f64_mag (gain G a e)"
proof -
  have A: "is_finite a" "\<not> f64_sign a" "f64_mag a \<le> f64_mag f64_one" using a unit_finite [of a] by (auto simp: unit_act_def nonneg_def)
  have D: "is_finite (sg_decay G)" "f64_mag (sg_decay G) \<le> f64_mag f64_one" using G by (simp_all add: sg_ok_def)
  have M: "nonneg (sg_mag G e)" "is_finite (sg_mag G e)" using G e by (auto simp: sg_ok_def)
  have X: "f64_mag (f64_mul a (sg_decay G)) \<le> f64_mag f64_one" using mul_le_left(1) [OF A(1) D] A(3) by linarith
  note R = mul_le_right [OF unit_finite [OF X] M(2) X]
  show le: "f64_mag (gain G a e) \<le> f64_mag (sg_mag G e)" using R(1) by (simp add: gain_def)
  then show "is_finite (gain G a e)" using M(2) by (simp add: is_finite_def)
  show "nonneg (gain G a e) \<and> 0 < f64_mag (gain G a e)" if "positive (gain G a e)"
  proof -
    have "0 < f64_key (gain G a e)"
      using that R(2) by (simp add: positive_def f64_le_def gain_def nonneg_def) (simp add: f64_key_def f64_zero_def is_nan_def not_less)
    then show ?thesis using R(2) by (auto simp: f64_key_def nonneg_def gain_def split: if_splits)
  qed
qed

lemma flow_unit:
  assumes G: "sg_ok G" and a: "unit_act a" and c: "conducts G a p e"
  shows "unit_act (flow_of G a p e)"
proof -
  have e: "e \<in> sg_edges G" "at_end G p e" "positive (gain G a e)" using c by (auto simp: conducts_def at_end_def)
  note B = gain_bounds [OF G e(1) a]
  have F: "nonneg (sg_fan G p)" "is_finite (sg_fan G p)" "f64_mag (sg_mag G e) \<le> f64_mag (sg_fan G p)" using G e(2) by (auto simp: sg_ok_def)
  have le: "f64_mag (gain G a e) \<le> f64_mag (sg_fan G p)" "0 < f64_mag (sg_fan G p)" using B e(3) F(3) by auto
  note Q = div_le_one [OF B(2) F(2) le]
  have n: "nonneg (flow_of G a p e)" using Q(2,3) B(3) [OF e(3)] F(1) by (simp add: nonneg_def flow_of_def)
  have "nonneg ACTIVATION_FLOOR" "0 < f64_mag ACTIVATION_FLOOR"
    by (simp_all add: ACTIVATION_FLOOR_def nonneg_def is_nan_def f64_inf_mag_def)
  then have "0 < f64_mag (flow_of G a p e)" using c nonneg_order(1) [OF n] by (auto simp: conducts_def)
  then show ?thesis using n Q(1) by (simp add: unit_act_def flow_of_def)
qed

section \<open>One concept spread\<close>

text \<open>The edge step once its reads have succeeded.\<close>

definition spread_step :: "(nat, nat) sgraph \<Rightarrow> f64 \<Rightarrow> nat \<Rightarrow> spread \<Rightarrow> nat \<Rightarrow> spread" where
  "spread_step G a p st e =
     (if e \<in> sg_edges G \<and> positive (gain G a e)
      then let st1 = score_edge p e (gain G a e) st
           in if f64_lt (flow_of G a p e) ACTIVATION_FLOOR then st1
              else conduct p (flow_of G a p e) (conduct p (flow_of G a p e) st1 (sg_src G e)) (sg_dst G e)
      else st)"

text \<open>
  The invariant: \<open>todo\<close> are the pairs of a settled concept and an edge whose score and flow are still
  to come; \<open>rk\<close> is the order of settling.
\<close>

definition best_ok :: "(nat, nat) sgraph \<Rightarrow> spread \<Rightarrow> bool" where
  "best_ok G st \<longleftrightarrow> (\<forall>v a. sp_best st v = Some a \<longrightarrow> unit_act a) \<and> sp_settled st \<subseteq> dom (sp_best st) \<and>
     (\<forall>v \<in> sg_origins G. sp_best st v = Some f64_one \<and> sp_parents st v = None) \<and>
     (\<forall>v. sp_best st v \<noteq> None \<and> sp_parents st v = None \<longrightarrow> v \<in> sg_origins G)"

definition heap_ok :: "spread \<Rightarrow> bool" where
  "heap_ok st \<longleftrightarrow> (\<forall>a v. (a, v) \<in> set (sp_heap st) \<longrightarrow> unit_act a \<and> (\<exists>b. sp_best st v = Some b \<and> f64_mag a \<le> f64_mag b)) \<and>
     (\<forall>v b. sp_best st v = Some b \<and> v \<notin> sp_settled st \<longrightarrow> (b, v) \<in> set (sp_heap st))"

definition links_ok :: "(nat, nat) sgraph \<Rightarrow> (nat \<Rightarrow> nat) \<Rightarrow> spread \<Rightarrow> bool" where
  "links_ok G rk st \<longleftrightarrow> finite (sp_settled st) \<and> (\<forall>v \<in> sp_settled st. rk v < card (sp_settled st)) \<and>
     (\<forall>v p. sp_parents st v = Some p \<longrightarrow> p \<in> sp_settled st \<and> (v \<in> sp_settled st \<longrightarrow> rk p < rk v) \<and>
        (\<exists>e a. sp_best st p = Some a \<and> conducts G a p e \<and> joins G e p v \<and> sp_best st v = Some (flow_of G a p e)))"

definition scores_ok :: "(nat, nat) sgraph \<Rightarrow> (nat \<times> nat) set \<Rightarrow> spread \<Rightarrow> bool" where
  "scores_ok G todo st \<longleftrightarrow> distinct (map fst (sp_strengths st)) \<and>
     (\<forall>e a p. map_of (sp_strengths st) e = Some (a, p) \<longrightarrow> p \<in> sp_settled st \<and> at_end G p e \<and> positive a \<and>
        (\<exists>b. sp_best st p = Some b \<and> a = gain G b e)) \<and>
     (\<forall>p b e. p \<in> sp_settled st \<and> (p, e) \<notin> todo \<and> sp_best st p = Some b \<and> at_end G p e \<and> positive (gain G b e) \<longrightarrow>
        (\<exists>a q. map_of (sp_strengths st) e = Some (a, q) \<and> f64_mag (gain G b e) \<le> f64_mag a))"

definition closed_ok :: "(nat, nat) sgraph \<Rightarrow> (nat \<times> nat) set \<Rightarrow> spread \<Rightarrow> bool" where
  "closed_ok G todo st \<longleftrightarrow> (\<forall>p b e. p \<in> sp_settled st \<and> (p, e) \<notin> todo \<and> sp_best st p = Some b \<and> conducts G b p e \<longrightarrow>
     sp_best st (sg_src G e) \<noteq> None \<and> sp_best st (sg_dst G e) \<noteq> None)"

definition spread_inv :: "(nat, nat) sgraph \<Rightarrow> (nat \<Rightarrow> nat) \<Rightarrow> (nat \<times> nat) set \<Rightarrow> spread \<Rightarrow> bool" where
  "spread_inv G rk todo st \<longleftrightarrow> best_ok G st \<and> heap_ok st \<and> links_ok G rk st \<and> scores_ok G todo st \<and> closed_ok G todo st"


lemma best_unit: "best_ok G st \<Longrightarrow> sp_best st v = Some a \<Longrightarrow> unit_act a"
  unfolding best_ok_def by blast

lemma conduct_cases:
  obtains (skip) "conduct p fl st v = st" "v \<in> sp_settled st \<or> (\<exists>b. sp_best st v = Some b \<and> \<not> f64_lt b fl) \<or> \<not> f64_lt f64_zero fl"
  | (move) "v \<notin> sp_settled st" "\<forall>b. sp_best st v = Some b \<longrightarrow> f64_lt b fl"
    "conduct p fl st v = st\<lparr>sp_best := (sp_best st)(v \<mapsto> fl), sp_parents := (sp_parents st)(v \<mapsto> p), sp_heap := (fl, v) # sp_heap st\<rparr>"
proof (cases "v \<notin> sp_settled st \<and> f64_lt (case sp_best st v of None \<Rightarrow> f64_zero | Some b \<Rightarrow> b) fl")
  case True
  show ?thesis by (rule move) (use True in \<open>auto simp: conduct_def\<close>)
next
  case False
  show ?thesis by (rule skip) (use False in \<open>auto simp: conduct_def split: option.splits\<close>)
qed

lemma scores_cong:
  assumes "sp_strengths st' = sp_strengths st" "sp_settled st' = sp_settled st"
    and bs: "\<And>w. w \<in> sp_settled st \<Longrightarrow> sp_best st' w = sp_best st w" and sc: "scores_ok G T st"
  shows "scores_ok G T st'"
  unfolding scores_ok_def assms(1,2)
proof (intro conjI allI impI)
  show "distinct (map fst (sp_strengths st))" using sc by (simp add: scores_ok_def)
  fix e x q assume "map_of (sp_strengths st) e = Some (x, q)"
  then have "q \<in> sp_settled st \<and> at_end G q e \<and> positive x \<and> (\<exists>b. sp_best st q = Some b \<and> x = gain G b e)"
    using sc unfolding scores_ok_def by blast
  then show "q \<in> sp_settled st" "at_end G q e" "positive x" "\<exists>b. sp_best st' q = Some b \<and> x = gain G b e" using bs [of q] by simp_all
next
  fix p b e assume h: "p \<in> sp_settled st \<and> (p, e) \<notin> T \<and> sp_best st' p = Some b \<and> at_end G p e \<and> positive (gain G b e)"
  then have "sp_best st p = Some b" using bs [of p] by simp
  then show "\<exists>a q. map_of (sp_strengths st) e = Some (a, q) \<and> f64_mag (gain G b e) \<le> f64_mag a"
    using h sc unfolding scores_ok_def by blast
qed

lemma conduct_inv:
  assumes G: "sg_ok G" and inv: "best_ok G st" "heap_ok st" "links_ok G rk st" "scores_ok G T st" "closed_ok G T' st"
    and p: "p \<in> sp_settled st" "sp_best st p = Some a" "conducts G a p e" and v: "v = p \<or> joins G e p v"
    and fl: "fl = flow_of G a p e" and st': "st' = conduct p fl st v"
  shows "best_ok G st' \<and> heap_ok st' \<and> links_ok G rk st' \<and> scores_ok G T st' \<and> closed_ok G T' st'"
    "sp_settled st' = sp_settled st" "sp_best st' p = Some a" "sp_best st' v \<noteq> None" "sp_best st w \<noteq> None \<Longrightarrow> sp_best st' w \<noteq> None"
proof -
  have U: "unit_act fl" unfolding fl by (rule flow_unit [OF G best_unit [OF inv(1) p(2)] p(3)])
  have Ub: "unit_act b" if "sp_best st w = Some b" for w b by (rule best_unit [OF inv(1) that])
  have lt: "f64_lt b fl \<longleftrightarrow> f64_mag b < f64_mag fl" if "sp_best st w = Some b" for w b
    using nonneg_order(1) Ub [OF that] U by (simp add: unit_act_def)
  have z: "f64_lt f64_zero fl" using nonneg_order(1) [of f64_zero fl] U by (simp add: unit_act_def)
  have dom: "w \<in> dom (sp_best st)" if "w \<in> sp_settled st" for w using inv(1) that by (auto simp: best_ok_def)
  show "sp_settled st' = sp_settled st" by (simp add: st')
  show "best_ok G st' \<and> heap_ok st' \<and> links_ok G rk st' \<and> scores_ok G T st' \<and> closed_ok G T' st'"
  proof (cases rule: conduct_cases [of p fl st v])
    case skip
    then show ?thesis using inv by (simp add: st')
  next
    case move
    have vp: "v \<noteq> p" using move(1) p(1) by blast
    have jv: "joins G e p v" using v vp by blast
    have vo: "v \<notin> sg_origins G"
    proof
      assume "v \<in> sg_origins G"
      then have "sp_best st v = Some f64_one" using inv(1) unfolding best_ok_def by blast
      then have "f64_mag f64_one < f64_mag fl" using move(2) lt by simp
      then show False using U by (simp add: unit_act_def)
    qed
    have b: "sp_best st' = (sp_best st)(v \<mapsto> fl)" "sp_parents st' = (sp_parents st)(v \<mapsto> p)" "sp_heap st' = (fl, v) # sp_heap st"
      "sp_settled st' = sp_settled st" "sp_strengths st' = sp_strengths st" using move(3) by (simp_all add: st')
    have bs: "sp_best st' w = sp_best st w" if "w \<in> sp_settled st" for w using that move(1) b(1) by auto
    have "best_ok G st'"
      unfolding best_ok_def b
    proof (intro conjI allI impI ballI)
      show "unit_act x" if "((sp_best st)(v \<mapsto> fl)) w = Some x" for w x using that U Ub by (cases "w = v") auto
      show "sp_settled st \<subseteq> dom ((sp_best st)(v \<mapsto> fl))" using dom by auto
      fix w assume "w \<in> sg_origins G"
      then have "w \<noteq> v" "sp_best st w = Some f64_one" "sp_parents st w = None" using inv(1) vo unfolding best_ok_def by blast+
      then show "((sp_best st)(v \<mapsto> fl)) w = Some f64_one" "((sp_parents st)(v \<mapsto> p)) w = None" by simp_all
    next
      fix w assume h: "((sp_best st)(v \<mapsto> fl)) w \<noteq> None \<and> ((sp_parents st)(v \<mapsto> p)) w = None"
      then have "w \<noteq> v" by auto
      then have "sp_best st w \<noteq> None" "sp_parents st w = None" using h by simp_all
      then show "w \<in> sg_origins G" using inv(1) unfolding best_ok_def by blast
    qed
    moreover have "heap_ok st'"
    proof -
      have "\<exists>b'. sp_best st' w = Some b' \<and> f64_mag x \<le> f64_mag b'" if h: "(x, w) \<in> set (sp_heap st)" for x w
      proof -
        obtain b' where "sp_best st w = Some b'" "f64_mag x \<le> f64_mag b'" using inv(2) h unfolding heap_ok_def by blast
        then show ?thesis using move(2) lt [of w b'] by (auto simp: b(1) intro: order_trans less_imp_le)
      qed
      then show ?thesis using inv(2) U unfolding heap_ok_def b(3,4) by (auto simp: b(1))
    qed
    moreover have "links_ok G rk st'"
    proof -
      have "q \<in> sp_settled st \<and> (w \<in> sp_settled st \<longrightarrow> rk q < rk w) \<and>
          (\<exists>e a. sp_best st' q = Some a \<and> conducts G a q e \<and> joins G e q w \<and> sp_best st' w = Some (flow_of G a q e))"
        if "sp_parents st' w = Some q" for w q
      proof (cases "w = v")
        case True
        then have "q = p" using that b(2) by simp
        then show ?thesis using p jv True move(1) bs [OF p(1)] fl b(1) by auto
      next
        case False
        then have "sp_parents st w = Some q" using that b(2) by simp
        then have "q \<in> sp_settled st" "w \<in> sp_settled st \<longrightarrow> rk q < rk w"
          "\<exists>e a. sp_best st q = Some a \<and> conducts G a q e \<and> joins G e q w \<and> sp_best st w = Some (flow_of G a q e)"
          using inv(3) unfolding links_ok_def by blast+
        then show ?thesis using bs [of q] False b(1) by simp
      qed
      then show ?thesis using inv(3) unfolding links_ok_def b(4) by blast
    qed
    moreover have "scores_ok G T st'" by (rule scores_cong [OF b(5,4) bs inv(4)])
    moreover have "closed_ok G T' st'"
      using inv(5) bs move(1) unfolding closed_ok_def b(4) by (auto simp: b(1))
    ultimately show ?thesis by blast
  qed
  show "sp_best st' p = Some a" by (cases rule: conduct_cases [of p fl st v]) (use p in \<open>auto simp: st'\<close>)
  show "sp_best st' v \<noteq> None"
    by (cases rule: conduct_cases [of p fl st v]) (use z dom [of v] in \<open>auto simp: st'\<close>)
  show "sp_best st w \<noteq> None \<Longrightarrow> sp_best st' w \<noteq> None" by (cases rule: conduct_cases [of p fl st v]) (auto simp: st')
qed

lemma score_edge_inv:
  assumes G: "sg_ok G" and b: "best_ok G st" and sc: "scores_ok G T st" and p: "p \<in> sp_settled st" "sp_best st p = Some a"
    and e: "at_end G p e" "positive (gain G a e)"
  shows "scores_ok G (T - {(p, e)}) (score_edge p e (gain G a e) st)"
proof -
  let ?st = "score_edge p e (gain G a e) st" and ?g = "gain G a e"
  have eE: "e \<in> sg_edges G" using e(1) by (simp add: at_end_def)
  have u: "unit_act b'" if "sp_best st q = Some b'" for q b' by (rule best_unit [OF b that])
  have gn: "nonneg ?g" "0 < f64_mag ?g" using gain_bounds(3) [OF G eE u [OF p(2)] e(2)] by simp_all
  have z: "f64_lt f64_zero ?g" using nonneg_order(1) [of f64_zero ?g] gn by simp
  have same: "sp_best ?st = sp_best st" "sp_settled ?st = sp_settled st" by (simp_all add: score_edge_def split: option.split)
  have D: "distinct (map fst (sp_strengths st))" using sc by (simp add: scores_ok_def)
  have old: "q \<in> sp_settled st \<and> at_end G q e' \<and> positive x \<and> (\<exists>b'. sp_best st q = Some b' \<and> x = gain G b' e')"
    if "map_of (sp_strengths st) e' = Some (x, q)" for e' x q using sc that unfolding scores_ok_def by blast
  have nn: "nonneg x" if x: "map_of (sp_strengths st) e' = Some (x, q)" for e' x q
  proof -
    obtain b' where b': "at_end G q e'" "positive x" "sp_best st q = Some b'" "x = gain G b' e'" using old [OF x] by blast
    then show ?thesis using gain_bounds(3) [OF G _ u [OF b'(3)], of e'] by (simp add: at_end_def)
  qed
  have S: "distinct (map fst (sp_strengths ?st)) \<and> (\<exists>x q. map_of (sp_strengths ?st) = (map_of (sp_strengths st))(e \<mapsto> (x, q)) \<and>
      f64_mag ?g \<le> f64_mag x \<and> (x = ?g \<and> q = p \<or> map_of (sp_strengths st) e = Some (x, q)) \<and>
      (\<forall>x' q'. map_of (sp_strengths st) e = Some (x', q') \<longrightarrow> f64_mag x' \<le> f64_mag x))"
  proof (cases "map_of (sp_strengths st) e")
    case None
    then have "e \<notin> fst ` set (sp_strengths st)" by (simp add: map_of_eq_None_iff)
    then have "map_of (sp_strengths st @ [(e, ?g, p)]) = (map_of (sp_strengths st))(e \<mapsto> (?g, p))"
      using None by (auto simp: map_add_def fun_eq_iff split: option.split)
    then show ?thesis using None D z \<open>e \<notin> _\<close> by (auto simp: score_edge_def)
  next
    case (Some xq)
    obtain x q where xq: "xq = (x, q)" by (cases xq)
    have lt: "f64_lt x ?g \<longleftrightarrow> f64_mag x < f64_mag ?g" using nonneg_order(1) [OF nn gn(1)] Some xq by blast
    show ?thesis
    proof (cases "f64_lt x ?g")
      case True
      then have "sp_strengths ?st = AList.update e (?g, p) (sp_strengths st)" using Some xq by (simp add: score_edge_def)
      then show ?thesis using Some xq D lt True
        by (intro conjI exI [of _ ?g] exI [of _ p]) (simp_all add: update_conv' distinct_update)
    next
      case False
      then have "map_of (sp_strengths st) = (map_of (sp_strengths st))(e \<mapsto> (x, q))" using Some xq by (simp add: fun_upd_idem)
      moreover have "sp_strengths ?st = sp_strengths st" using Some xq False by (simp add: score_edge_def)
      ultimately show ?thesis using Some xq D lt False by (intro conjI exI [of _ x] exI [of _ q]) simp_all
    qed
  qed
  then obtain x q where m: "map_of (sp_strengths ?st) = (map_of (sp_strengths st))(e \<mapsto> (x, q))" "f64_mag ?g \<le> f64_mag x"
    "x = ?g \<and> q = p \<or> map_of (sp_strengths st) e = Some (x, q)"
    "\<forall>x' q'. map_of (sp_strengths st) e = Some (x', q') \<longrightarrow> f64_mag x' \<le> f64_mag x" and D': "distinct (map fst (sp_strengths ?st))" by blast
  have new: "q \<in> sp_settled st \<and> at_end G q e \<and> positive x \<and> (\<exists>b'. sp_best st q = Some b' \<and> x = gain G b' e)"
    using m(3) old [of e x q] p e by auto
  have max: "\<exists>x' q'. map_of (sp_strengths ?st) e' = Some (x', q') \<and> f64_mag (gain G b' e') \<le> f64_mag x'"
    if h: "r \<in> sp_settled st" "(r, e') \<notin> T - {(p, e)}" "sp_best st r = Some b'" "at_end G r e'" "positive (gain G b' e')" for r b' e'
  proof (cases "(r, e') = (p, e)")
    case True
    then show ?thesis using h(3) p(2) m(1,2) by auto
  next
    case False
    then have "\<exists>x' q'. map_of (sp_strengths st) e' = Some (x', q') \<and> f64_mag (gain G b' e') \<le> f64_mag x'"
      using sc h unfolding scores_ok_def by blast
    then obtain x' q' where x': "map_of (sp_strengths st) e' = Some (x', q')" "f64_mag (gain G b' e') \<le> f64_mag x'" by blast
    then show ?thesis using m(1,4) by (cases "e' = e") (auto intro: order_trans)
  qed
  show ?thesis
    unfolding scores_ok_def same m(1)
  proof (intro conjI allI impI D')
    fix e' x' q' assume h: "((map_of (sp_strengths st))(e \<mapsto> (x, q))) e' = Some (x', q')"
    have "q' \<in> sp_settled st \<and> at_end G q' e' \<and> positive x' \<and> (\<exists>b'. sp_best st q' = Some b' \<and> x' = gain G b' e')"
      using h new old [of e' x' q'] by (cases "e' = e") auto
    then show "q' \<in> sp_settled st" "at_end G q' e'" "positive x'" "\<exists>b'. sp_best st q' = Some b' \<and> x' = gain G b' e'" by blast+
  qed (use max [unfolded m(1)] in blast)
qed


lemma score_edge_fields:
  "sp_best (score_edge p e g st) = sp_best st" "sp_parents (score_edge p e g st) = sp_parents st"
  "sp_heap (score_edge p e g st) = sp_heap st" "sp_settled (score_edge p e g st) = sp_settled st"
  by (simp_all add: score_edge_def split: option.split)

lemma score_edge_keeps:
  "best_ok G (score_edge p e g st) = best_ok G st" "heap_ok (score_edge p e g st) = heap_ok st"
  "links_ok G rk (score_edge p e g st) = links_ok G rk st" "closed_ok G T (score_edge p e g st) = closed_ok G T st"
  by (simp_all only: best_ok_def heap_ok_def links_ok_def closed_ok_def score_edge_fields)

text \<open>Pairs that score nothing need not wait.\<close>

lemma scores_drop:
  assumes "scores_ok G T st" "\<And>p e b. (p, e) \<in> T \<Longrightarrow> (p, e) \<notin> T' \<Longrightarrow> sp_best st p = Some b \<Longrightarrow> \<not> (at_end G p e \<and> positive (gain G b e))"
  shows "scores_ok G T' st"
  using assms unfolding scores_ok_def by blast

lemma closed_drop:
  assumes "closed_ok G T st" "\<And>p e b. (p, e) \<in> T \<Longrightarrow> (p, e) \<notin> T' \<Longrightarrow> sp_best st p = Some b \<Longrightarrow> conducts G b p e \<Longrightarrow>
      sp_best st (sg_src G e) \<noteq> None \<and> sp_best st (sg_dst G e) \<noteq> None"
  shows "closed_ok G T' st"
  using assms unfolding closed_ok_def by blast

lemma spread_step_inv:
  assumes G: "sg_ok G" and inv: "spread_inv G rk T st" and p: "p \<in> sp_settled st" "sp_best st p = Some a"
    and e: "e \<in> sg_edges G \<Longrightarrow> at_end G p e"
  shows "spread_inv G rk (T - {(p, e)}) (spread_step G a p st e)" "sp_settled (spread_step G a p st e) = sp_settled st"
    "sp_best (spread_step G a p st e) p = Some a"
proof -
  let ?st = "spread_step G a p st e" and ?fl = "flow_of G a p e" and ?T = "T - {(p, e)}"
  note I = inv [unfolded spread_inv_def]
  have B: "best_ok G st" "heap_ok st" "links_ok G rk st" "scores_ok G T st" "closed_ok G T st" using I by blast+
  consider (none) "\<not> (e \<in> sg_edges G \<and> positive (gain G a e))" "?st = st"
    | (low) "e \<in> sg_edges G" "positive (gain G a e)" "f64_lt ?fl ACTIVATION_FLOOR" "?st = score_edge p e (gain G a e) st"
    | (go) "e \<in> sg_edges G" "positive (gain G a e)" "\<not> f64_lt ?fl ACTIVATION_FLOOR"
       "?st = conduct p ?fl (conduct p ?fl (score_edge p e (gain G a e) st) (sg_src G e)) (sg_dst G e)"
  proof (cases "e \<in> sg_edges G \<and> positive (gain G a e)")
    case False
    show ?thesis by (rule none [OF False]) (simp only: spread_step_def if_not_P [OF False])
  next
    case True
    show ?thesis
    proof (cases "f64_lt ?fl ACTIVATION_FLOOR")
      case lo: True
      show ?thesis by (rule low) (use True lo in \<open>simp_all add: spread_step_def Let_def\<close>)
    next
      case hi: False
      show ?thesis by (rule go) (use True hi in \<open>simp_all add: spread_step_def Let_def\<close>)
    qed
  qed
  then have "spread_inv G rk ?T ?st \<and> sp_settled ?st = sp_settled st \<and> sp_best ?st p = Some a"
  proof cases
    case none
    have "scores_ok G ?T st" by (rule scores_drop [OF B(4)]) (use none p(2) in \<open>auto simp: at_end_def\<close>)
    moreover have "closed_ok G ?T st" by (rule closed_drop [OF B(5)]) (use none p(2) in \<open>auto simp: conducts_def at_end_def\<close>)
    ultimately show ?thesis using B none(2) p by (simp add: spread_inv_def)
  next
    case low
    have "scores_ok G ?T ?st" unfolding low(4) by (rule score_edge_inv [OF G B(1,4) p e [OF low(1)] low(2)])
    moreover have "closed_ok G ?T st" by (rule closed_drop [OF B(5)]) (use low p(2) in \<open>auto simp: conducts_def\<close>)
    ultimately show ?thesis using B p by (simp add: spread_inv_def low(4) score_edge_keeps score_edge_fields)
  next
    case go
    let ?s1 = "score_edge p e (gain G a e) st"
    have c: "conducts G a p e" using go e by (simp add: conducts_def)
    have ends: "sg_src G e = p \<or> joins G e p (sg_src G e)" "sg_dst G e = p \<or> joins G e p (sg_dst G e)"
      using e [OF go(1)] by (auto simp: at_end_def joins_def)
    have S1: "scores_ok G ?T ?s1" by (rule score_edge_inv [OF G B(1,4) p e [OF go(1)] go(2)])
    have B1: "best_ok G ?s1" "heap_ok ?s1" "links_ok G rk ?s1" "closed_ok G T ?s1" using B by (simp_all only: score_edge_keeps)
    have p1: "p \<in> sp_settled ?s1" "sp_best ?s1 p = Some a" using p by (simp_all add: score_edge_fields)
    define s2 where "s2 = conduct p ?fl ?s1 (sg_src G e)"
    note C1 = conduct_inv [OF G B1(1-3) S1 B1(4) p1 c ends(1) refl s2_def]
    have B2: "best_ok G s2" "heap_ok s2" "links_ok G rk s2" "scores_ok G ?T s2" "closed_ok G T s2" using C1(1) by blast+
    have p2: "p \<in> sp_settled s2" "sp_best s2 p = Some a" using C1(2,3) p1 by simp_all
    have st: "?st = conduct p ?fl s2 (sg_dst G e)" by (simp add: go(4) s2_def)
    note C2 = conduct_inv [OF G B2 p2 c ends(2) refl st]
    have "sp_best ?st (sg_src G e) \<noteq> None" "sp_best ?st (sg_dst G e) \<noteq> None" using C1(4) C2(4,5) by blast+
    moreover have "closed_ok G T ?st" using C2(1) by blast
    ultimately have "closed_ok G ?T ?st" by (elim closed_drop) blast
    then show ?thesis using C2(1-3) C1(2) by (simp add: spread_inv_def score_edge_fields)
  qed
  then show "spread_inv G rk ?T ?st" "sp_settled ?st = sp_settled st" "sp_best ?st p = Some a" by blast+
qed

lemma spread_fold_inv:
  assumes G: "sg_ok G" and inv: "spread_inv G rk T st" and p: "p \<in> sp_settled st" "sp_best st p = Some a"
    and es: "\<forall>e \<in> set es. e \<in> sg_edges G \<longrightarrow> at_end G p e"
  shows "spread_inv G rk (T - {p} \<times> set es) (foldl (spread_step G a p) st es)"
    "sp_settled (foldl (spread_step G a p) st es) = sp_settled st"
proof -
  have "spread_inv G rk (T - {p} \<times> set es) (foldl (spread_step G a p) st es) \<and> sp_settled (foldl (spread_step G a p) st es) = sp_settled st"
    using inv p es
  proof (induction es arbitrary: st T)
    case (Cons e es)
    have e: "e \<in> sg_edges G \<Longrightarrow> at_end G p e" using Cons.prems(4) by simp
    note S = spread_step_inv [OF G Cons.prems(1-3) e]
    have "T - {(p, e)} - {p} \<times> set es = T - {p} \<times> set (e # es)" by auto
    then show ?case using Cons.IH [OF S(1) _ S(3)] S(2) Cons.prems(2,4) by simp
  qed simp
  then show "spread_inv G rk (T - {p} \<times> set es) (foldl (spread_step G a p) st es)"
    "sp_settled (foldl (spread_step G a p) st es) = sp_settled st" by blast+
qed


section \<open>The loop\<close>

lemma spread_pop_settled:
  assumes inv: "spread_inv G rk T st" and pop: "pop_max (sp_heap st) = Some ((x, v), rest)" and v: "v \<in> sp_settled st"
  shows "spread_inv G rk T (st\<lparr>sp_heap := rest\<rparr>)"
proof -
  note P = pop_max_spec(1,2) [OF pop]
  have "heap_ok (st\<lparr>sp_heap := rest\<rparr>)"
    unfolding heap_ok_def
  proof (intro conjI allI impI)
    show "unit_act y" "\<exists>b. sp_best (st\<lparr>sp_heap := rest\<rparr>) w = Some b \<and> f64_mag y \<le> f64_mag b" if "(y, w) \<in> set (sp_heap (st\<lparr>sp_heap := rest\<rparr>))" for y w
    proof -
      have "(y, w) \<in> set (sp_heap st)" using that set_remove1_subset [of "(x, v)" "sp_heap st"] by (auto simp: P(2))
      then have "unit_act y \<and> (\<exists>b. sp_best st w = Some b \<and> f64_mag y \<le> f64_mag b)"
        using inv unfolding spread_inv_def heap_ok_def by blast
      then show "unit_act y" "\<exists>b. sp_best (st\<lparr>sp_heap := rest\<rparr>) w = Some b \<and> f64_mag y \<le> f64_mag b" by simp_all
    qed
    fix w b assume "sp_best (st\<lparr>sp_heap := rest\<rparr>) w = Some b \<and> w \<notin> sp_settled (st\<lparr>sp_heap := rest\<rparr>)"
    then have h: "sp_best st w = Some b" "w \<notin> sp_settled st" by simp_all
    then have "(b, w) \<in> set (sp_heap st)" using inv unfolding spread_inv_def heap_ok_def by blast
    moreover have "(b, w) \<noteq> (x, v)" using h(2) v by auto
    ultimately show "(b, w) \<in> set (sp_heap (st\<lparr>sp_heap := rest\<rparr>))" by (simp add: P(2))
  qed
  moreover have F: "sp_best (st\<lparr>sp_heap := rest\<rparr>) = sp_best st" "sp_parents (st\<lparr>sp_heap := rest\<rparr>) = sp_parents st"
    "sp_settled (st\<lparr>sp_heap := rest\<rparr>) = sp_settled st" "sp_strengths (st\<lparr>sp_heap := rest\<rparr>) = sp_strengths st" by simp_all
  have "best_ok G (st\<lparr>sp_heap := rest\<rparr>) = best_ok G st" "links_ok G rk (st\<lparr>sp_heap := rest\<rparr>) = links_ok G rk st"
    "scores_ok G T (st\<lparr>sp_heap := rest\<rparr>) = scores_ok G T st" "closed_ok G T (st\<lparr>sp_heap := rest\<rparr>) = closed_ok G T st"
    by (simp_all only: best_ok_def links_ok_def scores_ok_def closed_ok_def F)
  ultimately show ?thesis using inv by (simp add: spread_inv_def)
qed

lemma spread_settle:
  assumes inv: "spread_inv G rk {} st" and pop: "pop_max (sp_heap st) = Some ((x, v), rest)" and v: "v \<notin> sp_settled st"
  shows "sp_best st v = Some x"
    "spread_inv G (rk(v := card (sp_settled st))) ({v} \<times> UNIV) (st\<lparr>sp_heap := rest, sp_settled := insert v (sp_settled st)\<rparr>)"
proof -
  note P = pop_max_spec [OF pop]
  let ?st = "st\<lparr>sp_heap := rest, sp_settled := insert v (sp_settled st)\<rparr>" and ?rk = "rk(v := card (sp_settled st))"
  have I: "best_ok G st" "heap_ok st" "links_ok G rk st" "scores_ok G {} st" "closed_ok G {} st" using inv by (simp_all add: spread_inv_def)
  obtain b where b: "unit_act x" "sp_best st v = Some b" "f64_mag x \<le> f64_mag b" using I(2) P(1) unfolding heap_ok_def by blast
  have "(b, v) \<in> set (sp_heap st)" using I(2) b(2) v unfolding heap_ok_def by blast
  from P(3) [OF this] have "f64_total_key b \<le> f64_total_key x" by (auto simp: cand_key_def less_eq_prod_def)
  moreover have n: "nonneg b" "nonneg x" using best_unit [OF I(1) b(2)] b(1) by (simp_all add: unit_act_def)
  ultimately have "f64_mag b \<le> f64_mag x" by (simp add: nonneg_order(3) [OF _ n(1)] n)
  then have "f64_mag x = f64_mag b" using b(3) by simp
  then have "x = b" by (rule nonneg_order(4) [OF n(2,1)])
  then show bx: "sp_best st v = Some x" using b(2) by simp
  have "heap_ok ?st"
    unfolding heap_ok_def
  proof (intro conjI allI impI)
    show "unit_act y" "\<exists>b. sp_best ?st w = Some b \<and> f64_mag y \<le> f64_mag b" if "(y, w) \<in> set (sp_heap ?st)" for y w
    proof -
      have "(y, w) \<in> set (sp_heap st)" using that set_remove1_subset [of "(x, v)" "sp_heap st"] by (auto simp: P(2))
      then have "unit_act y \<and> (\<exists>b. sp_best st w = Some b \<and> f64_mag y \<le> f64_mag b)" using I(2) unfolding heap_ok_def by blast
      then show "unit_act y" "\<exists>b. sp_best ?st w = Some b \<and> f64_mag y \<le> f64_mag b" by simp_all
    qed
    fix w b' assume "sp_best ?st w = Some b' \<and> w \<notin> sp_settled ?st"
    then have h: "sp_best st w = Some b'" "w \<notin> sp_settled st" "w \<noteq> v" by simp_all
    then have "(b', w) \<in> set (sp_heap st)" using I(2) unfolding heap_ok_def by blast
    then show "(b', w) \<in> set (sp_heap ?st)" using h(3) by (simp add: P(2))
  qed
  moreover have "best_ok G ?st"
  proof -
    have F: "sp_best ?st = sp_best st" "sp_parents ?st = sp_parents st" "sp_settled ?st = insert v (sp_settled st)" by simp_all
    have "v \<in> dom (sp_best st)" using bx by blast
    then show ?thesis using I(1) unfolding best_ok_def F by blast
  qed
  moreover have "links_ok G ?rk ?st"
  proof -
    have fin: "finite (sp_settled st)" and rk: "\<And>w. w \<in> sp_settled st \<Longrightarrow> rk w < card (sp_settled st)"
      and par: "\<And>w q. sp_parents st w = Some q \<Longrightarrow> q \<in> sp_settled st \<and> (w \<in> sp_settled st \<longrightarrow> rk q < rk w) \<and>
        (\<exists>e a. sp_best st q = Some a \<and> conducts G a q e \<and> joins G e q w \<and> sp_best st w = Some (flow_of G a q e))"
      using I(3) unfolding links_ok_def by blast+
    have "q \<in> insert v (sp_settled st) \<and> (w \<in> insert v (sp_settled st) \<longrightarrow> ?rk q < ?rk w) \<and>
        (\<exists>e a. sp_best st q = Some a \<and> conducts G a q e \<and> joins G e q w \<and> sp_best st w = Some (flow_of G a q e))"
      if "sp_parents st w = Some q" for w q
      using par [OF that] rk [of q] v by auto
    moreover have "?rk w < card (insert v (sp_settled st))" if "w \<in> insert v (sp_settled st)" for w
      using that rk [of w] fin v by (auto simp: less_Suc_eq)
    ultimately show ?thesis using fin unfolding links_ok_def by simp
  qed
  moreover have "scores_ok G ({v} \<times> UNIV) ?st" using I(4) unfolding scores_ok_def by auto
  moreover have "closed_ok G ({v} \<times> UNIV) ?st" using I(5) unfolding closed_ok_def by auto
  ultimately show "spread_inv G ?rk ({v} \<times> UNIV) ?st" by (simp add: spread_inv_def)
qed

lemma spread_done:
  assumes inv: "spread_inv G rk T st" and T: "\<forall>(p, e) \<in> T. \<not> at_end G p e" shows "spread_inv G rk {} st"
proof -
  have "scores_ok G T st" "closed_ok G T st" using inv by (simp_all add: spread_inv_def)
  then have "scores_ok G {} st \<and> closed_ok G {} st"
    using scores_drop [of G T st "{}"] closed_drop [of G T st "{}"] T by (auto simp: conducts_def)
  then show ?thesis using inv by (simp add: spread_inv_def)
qed

text \<open>With every read answered, the loop ends with an empty heap and keeps the invariant.\<close>

lemma spread_loop_inv:
  assumes G: "sg_ok G" and from_ok: "\<And>p a st. p \<in> N \<Longrightarrow> unit_act a \<Longrightarrow>
      spread_from c visible L decay a p st = Some (foldl (spread_step G a p) st (es p))"
    and es: "\<And>p e. e \<in> sg_edges G \<Longrightarrow> e \<in> set (es p) \<longleftrightarrow> at_end G p e"
    and N: "sg_origins G \<subseteq> N" "\<And>e. e \<in> sg_edges G \<Longrightarrow> sg_src G e \<in> N \<and> sg_dst G e \<in> N"
    and inv: "spread_inv G rk {} st"
  shows "\<exists>st' rk'. spread_loop c visible L decay st = Some st' \<and> spread_inv G rk' {} st' \<and> sp_heap st' = []"
  using from_ok inv
proof (induction c visible L decay st arbitrary: rk rule: spread_loop.induct)
  case (1 c visible L decay st)
  show ?case
  proof (cases "pop_max (sp_heap st)")
    case None
    then have "sp_heap st = []" by (simp add: pop_max_def Let_def split: list.splits)
    then show ?thesis using None 1(4) by (auto simp: spread_loop.simps)
  next
    case (Some y)
    obtain a v rest where y: "y = ((a, v), rest)" by (cases y) auto
    note pop = Some [unfolded y]
    show ?thesis
    proof (cases "v \<in> sp_settled st")
      case True
      from 1(1) [OF pop refl refl True 1(3) spread_pop_settled [OF 1(4) pop True]]
      show ?thesis using pop True by (simp add: spread_loop.simps [of c visible L decay st])
    next
      case False
      note S = spread_settle [OF 1(4) pop False]
      let ?st = "st\<lparr>sp_heap := rest, sp_settled := insert v (sp_settled st)\<rparr>"
      have B: "best_ok G st" "links_ok G rk st" using 1(4) by (simp_all add: spread_inv_def)
      have vN: "v \<in> N"
      proof (cases "sp_parents st v")
        case None
        then have "v \<in> sg_origins G" using B(1) S(1) unfolding best_ok_def by blast
        then show ?thesis using N(1) by blast
      next
        case (Some q)
        then obtain e where "e \<in> sg_edges G" "joins G e q v" using B(2) unfolding links_ok_def conducts_def at_end_def by blast
        then show ?thesis using N(2) [of e] by (auto simp: joins_def)
      qed
      let ?st' = "foldl (spread_step G a v) ?st (es v)"
      have fr: "spread_from c visible L decay a v ?st = Some ?st'" by (rule 1(3) [OF vN best_unit [OF B(1) S(1)]])
      have "spread_inv G (rk(v := card (sp_settled st))) ({v} \<times> UNIV - {v} \<times> set (es v)) ?st'"
        by (rule spread_fold_inv(1) [OF G S(2)]) (use S(1) es in auto)
      then have "spread_inv G (rk(v := card (sp_settled st))) {} ?st'" by (rule spread_done) (use es in \<open>auto simp: at_end_def\<close>)
      from 1(2) [OF pop refl refl False fr 1(3) this]
      show ?thesis using pop False fr by (simp add: spread_loop.simps [of c visible L decay st])
    qed
  qed
qed

end
