(* ===== verification/Activate.thy ===== *)
theory Activate
  imports Activation
begin

text \<open>
  \<^verbatim>\<open>activate\<close> on facts: the activations a spread leaves form a field that flows out of the
  origins and is closed under conduction, and the ranking is read off that field.
\<close>

section \<open>The field\<close>

definition conveys :: "('n, 'e) sgraph \<Rightarrow> ('n \<rightharpoonup> f64) \<Rightarrow> 'n \<Rightarrow> 'n \<Rightarrow> bool" where
  "conveys G act p v \<longleftrightarrow> (\<exists>e b. act p = Some b \<and> conducts G b p e \<and> joins G e p v \<and> act v = Some (flow_of G b p e))"

definition act_path :: "('n, 'e) sgraph \<Rightarrow> ('n \<rightharpoonup> f64) \<Rightarrow> 'n list \<Rightarrow> bool" where
  "act_path G act xs \<longleftrightarrow> xs \<noteq> [] \<and> hd xs \<in> sg_origins G \<and> successively (conveys G act) xs"

definition spread_field :: "('n, 'e) sgraph \<Rightarrow> ('n \<rightharpoonup> f64) \<Rightarrow> bool" where
  "spread_field G act \<longleftrightarrow> (\<forall>v \<in> sg_origins G. act v = Some f64_one) \<and>
     (\<forall>v a. act v = Some a \<longrightarrow> unit_act a \<and> (\<exists>xs. act_path G act xs \<and> last xs = v)) \<and>
     (\<forall>p b e. act p = Some b \<and> conducts G b p e \<longrightarrow> act (sg_src G e) \<noteq> None \<and> act (sg_dst G e) \<noteq> None)"

definition end_gain :: "('n, 'e) sgraph \<Rightarrow> ('n \<rightharpoonup> f64) \<Rightarrow> 'e \<Rightarrow> 'n \<Rightarrow> f64" where
  "end_gain G act e v = (case act v of None \<Rightarrow> f64_zero | Some b \<Rightarrow> gain G b e)"

text \<open>The strength of an edge: the better of its ends.\<close>

definition strength_of :: "('n, 'e) sgraph \<Rightarrow> ('n \<rightharpoonup> f64) \<Rightarrow> 'e \<Rightarrow> f64" where
  "strength_of G act e = (if f64_lt (end_gain G act e (sg_src G e)) (end_gain G act e (sg_dst G e))
     then end_gain G act e (sg_dst G e) else end_gain G act e (sg_src G e))"

definition scored :: "('n, 'e) sgraph \<Rightarrow> ('n \<rightharpoonup> f64) \<Rightarrow> 'e \<Rightarrow> bool" where
  "scored G act e \<longleftrightarrow> e \<in> sg_edges G \<and> positive (strength_of G act e)"

definition by_strength :: "('n, 'e) sgraph \<Rightarrow> ('n \<rightharpoonup> f64) \<Rightarrow> 'e \<Rightarrow> int" where
  "by_strength G act e = - f64_total_key (strength_of G act e)"

definition spread_graph ::
    "('e \<Rightarrow> 'n) \<Rightarrow> ('e \<Rightarrow> 'n) \<Rightarrow> 'e list \<Rightarrow> 'e set \<Rightarrow> 'n set \<Rightarrow> ('e \<Rightarrow> f64) \<Rightarrow> f64 \<Rightarrow> ('n, 'e) sgraph" where
  "spread_graph s t es E S mg d = \<lparr>sg_src = s, sg_dst = t, sg_edges = E, sg_origins = S, sg_mag = mg,
     sg_fan = (\<lambda>p. foldl accumulate_saturating f64_zero
       (map mg (filter (\<lambda>e. e \<in> E \<and> s e = p) es @ filter (\<lambda>e. e \<in> E \<and> t e = p \<and> s e \<noteq> t e) es))),
     sg_decay = d\<rparr>"

section \<open>Fans\<close>

definition weightlike :: "f64 \<Rightarrow> bool" where
  "weightlike x \<longleftrightarrow> nonneg x \<and> is_finite x"

lemma accumulate_weightlike:
  assumes "weightlike x" "weightlike y"
  shows "weightlike (accumulate_saturating x y)" "f64_mag x \<le> f64_mag (accumulate_saturating x y)"
    "f64_mag y \<le> f64_mag (accumulate_saturating x y)"
proof -
  have xy: "nonneg x" "is_finite x" "nonneg y" "is_finite y" using assms by (simp_all add: weightlike_def)
  note A = add_nonneg [OF xy]
  show "weightlike (accumulate_saturating x y)" using A(1)
    by (simp add: weightlike_def) (auto simp: accumulate_saturating_def Let_def nonneg_def f64_copysign_def f64_max_def is_nan_def f64_inf_mag_def)
  have "f64_mag x < f64_inf_mag" "f64_mag y < f64_inf_mag" using xy by (simp_all add: is_finite_def)
  then show "f64_mag x \<le> f64_mag (accumulate_saturating x y)" "f64_mag y \<le> f64_mag (accumulate_saturating x y)"
    using A(2,3) by (auto simp: accumulate_saturating_def Let_def f64_copysign_def f64_max_def f64_inf_mag_def)
qed

lemma accumulate_fold:
  assumes "\<forall>m \<in> set ms. weightlike m" "weightlike t"
  shows "weightlike (foldl accumulate_saturating t ms) \<and> f64_mag t \<le> f64_mag (foldl accumulate_saturating t ms) \<and>
    (\<forall>m \<in> set ms. f64_mag m \<le> f64_mag (foldl accumulate_saturating t ms))"
  using assms
proof (induction ms arbitrary: t)
  case (Cons m ms)
  then have "weightlike m" "weightlike t" by simp_all
  note A = accumulate_weightlike [OF this(2,1)]
  from Cons.IH [OF _ A(1)] Cons.prems(1) A(2,3) show ?case by auto
qed simp

lemma spread_graph_ok:
  assumes E: "E \<subseteq> set es" "\<forall>e \<in> E. weightlike (mg e)" and d: "is_finite d" "f64_mag d \<le> f64_mag f64_one"
  shows "sg_ok (spread_graph s t es E S mg d)"
proof -
  let ?xs = "\<lambda>p. map mg (filter (\<lambda>e. e \<in> E \<and> s e = p) es @ filter (\<lambda>e. e \<in> E \<and> t e = p \<and> s e \<noteq> t e) es)"
  have F: "weightlike (foldl accumulate_saturating f64_zero (?xs p)) \<and> (\<forall>m \<in> set (?xs p). f64_mag m \<le> f64_mag (foldl accumulate_saturating f64_zero (?xs p)))" for p
    using accumulate_fold [of "?xs p" f64_zero] E(2) by (auto simp: weightlike_def)
  have "mg e \<in> set (?xs p)" if "e \<in> E" "s e = p \<or> t e = p" for e p using that E(1) by auto
  then have "f64_mag (mg e) \<le> f64_mag (foldl accumulate_saturating f64_zero (?xs p))" if "e \<in> E" "s e = p \<or> t e = p" for e p
    using F [of p] that by blast
  then show ?thesis
    using E(2) d F by (auto simp: sg_ok_def spread_graph_def at_end_def weightlike_def simp del: foldl_append map_append)
qed

lemma foldl_if_filter: "foldl (\<lambda>a e. if Q e then f a (g e) else a) t xs = foldl f t (map g (filter Q xs))"
  by (induction xs arbitrary: t) auto

lemma clamp_unit_zero:
  "is_finite (clamp_unit_or d f64_zero)" "f64_mag (clamp_unit_or d f64_zero) \<le> f64_mag f64_one"
proof -
  let ?d = "clamp_unit_or d f64_zero"
  have "f64_le f64_zero ?d \<and> f64_le ?d f64_one"
    by (rule clamp_unit_or_range) (simp_all add: nonneg_order(2))
  then show "f64_mag ?d \<le> f64_mag f64_one"
    by (auto simp: f64_le_def f64_key_def nonneg_def f64_zero_def f64_one_def split: if_splits)
  then show "is_finite ?d" by (rule unit_finite)
qed

section \<open>The start and the end of a spread\<close>

lemma spread_start_spec:
  assumes S: "S = {i. \<exists>og \<in> set origins. concept_ids c og = Some i}"
  shows "sp_best (spread_start c origins) = (\<lambda>i. if i \<in> S then Some f64_one else None) \<and>
    sp_parents (spread_start c origins) = Map.empty \<and> sp_settled (spread_start c origins) = {} \<and>
    sp_strengths (spread_start c origins) = [] \<and> set (sp_heap (spread_start c origins)) = Pair f64_one ` S"
  using S
proof (induction origins arbitrary: S rule: rev_induct)
  case (snoc og ogs)
  let ?S = "{i. \<exists>og \<in> set ogs. concept_ids c og = Some i}"
  have step: "spread_start c (ogs @ [og]) = (case concept_ids c og of None \<Rightarrow> spread_start c ogs
      | Some i \<Rightarrow> (spread_start c ogs)\<lparr>sp_best := (sp_best (spread_start c ogs))(i \<mapsto> f64_one), sp_heap := (f64_one, i) # sp_heap (spread_start c ogs)\<rparr>)"
    by (simp add: spread_start_def split: option.split)
  have S: "S = (case concept_ids c og of None \<Rightarrow> ?S | Some i \<Rightarrow> insert i ?S)"
    unfolding snoc.prems by (auto split: option.split)
  show ?case unfolding step S using snoc.IH [OF refl] by (auto simp: fun_eq_iff split: option.split)
qed (simp add: spread_start_def)

lemma spread_start_inv:
  assumes S: "S = {i. \<exists>og \<in> set origins. concept_ids c og = Some i}" "sg_origins G = S"
  shows "spread_inv G rk {} (spread_start c origins)"
proof -
  let ?st = "spread_start c origins"
  have W: "sp_best ?st = (\<lambda>i. if i \<in> S then Some f64_one else None)" "sp_parents ?st = Map.empty" "sp_settled ?st = {}"
    "sp_strengths ?st = []" "set (sp_heap ?st) = Pair f64_one ` S" using spread_start_spec [OF S(1)] by blast+
  have u: "unit_act f64_one" by (simp add: unit_act_def)
  have "best_ok G ?st" unfolding best_ok_def W S(2) using u by (auto split: if_splits)
  moreover have "heap_ok ?st" unfolding heap_ok_def W using u by (auto split: if_splits)
  moreover have "links_ok G rk ?st" "scores_ok G {} ?st" "closed_ok G {} ?st"
    unfolding links_ok_def scores_ok_def closed_ok_def W by simp_all
  ultimately show ?thesis by (simp add: spread_inv_def)
qed

lemma spread_trail:
  assumes inv: "spread_inv G rk {} st" and fin: "sp_heap st = []"
  shows "sp_best st p = Some a \<Longrightarrow> rk p < fuel \<Longrightarrow> \<exists>xs. trail_up (sp_parents st) fuel p = Some xs \<and>
     xs \<noteq> [] \<and> hd xs = p \<and> act_path G (sp_best st) (rev xs) \<and> set xs \<subseteq> dom (sp_best st)"
proof (induction fuel arbitrary: p a)
  case (Suc fuel)
  have B: "best_ok G st" "heap_ok st" "links_ok G rk st" using inv by (simp_all add: spread_inv_def)
  have ps: "p \<in> sp_settled st" using B(2) Suc.prems(1) fin unfolding heap_ok_def by fastforce
  show ?case
  proof (cases "sp_parents st p")
    case None
    then have "p \<in> sg_origins G" using B(1) Suc.prems(1) unfolding best_ok_def by blast
    then show ?thesis using None Suc.prems(1) by (auto simp: act_path_def)
  next
    case (Some q)
    then have q: "rk q < rk p" "conveys G (sp_best st) q p" using B(3) ps unfolding links_ok_def conveys_def by blast+
    then obtain b where b: "sp_best st q = Some b" unfolding conveys_def by blast
    from Suc.IH [OF b] q(1) Suc.prems(2) obtain xs where xs: "trail_up (sp_parents st) fuel q = Some xs" "xs \<noteq> []" "hd xs = q"
      "act_path G (sp_best st) (rev xs)" "set xs \<subseteq> dom (sp_best st)" by auto
    have "act_path G (sp_best st) (rev (p # xs))"
      using xs(2-4) q(2) by (auto simp: act_path_def successively_append_iff last_rev)
    then show ?thesis using xs Some Suc.prems(1) by auto
  qed
qed simp

lemma spread_settled_all:
  assumes inv: "spread_inv G rk {} st" and fin: "sp_heap st = []"
  shows "sp_best st p = Some b \<Longrightarrow> p \<in> sp_settled st"
proof -
  have "heap_ok st" using inv by (simp add: spread_inv_def)
  then show "sp_best st p = Some b \<Longrightarrow> p \<in> sp_settled st" using fin unfolding heap_ok_def by fastforce
qed

lemma positive_key: "positive x \<longleftrightarrow> is_nan x \<or> 0 < f64_key x"
  by (auto simp: positive_def f64_le_def is_nan_def f64_key_def f64_zero_def)

lemma spread_strength:
  assumes G: "sg_ok G" and inv: "spread_inv G rk {} st" and fin: "sp_heap st = []"
  shows "scored G (sp_best st) e \<longleftrightarrow> map_of (sp_strengths st) e \<noteq> None"
    "map_of (sp_strengths st) e = Some (a, q) \<Longrightarrow> a = strength_of G (sp_best st) e \<and> at_end G q e \<and> (\<exists>b. sp_best st q = Some b \<and> a = gain G b e)"
proof -
  have B: "best_ok G st" "scores_ok G {} st" using inv by (simp_all add: spread_inv_def)
  let ?eg = "end_gain G (sp_best st) e"
  have nn: "positive (?eg v) \<Longrightarrow> nonneg (?eg v) \<and> 0 < f64_mag (?eg v)" "\<not> is_nan (?eg v)" if "e \<in> sg_edges G" for v
    using gain_bounds [OF G that best_unit [OF B(1)], of v] by (auto simp: end_gain_def positive_def nonneg_order f64_finite_not split: option.splits)
  have max: "\<exists>x r. map_of (sp_strengths st) e = Some (x, r) \<and> f64_mag (?eg v) \<le> f64_mag x" if h: "at_end G v e" "positive (?eg v)" for v
  proof -
    obtain b where b: "sp_best st v = Some b" using h(2) by (cases "sp_best st v") (auto simp: end_gain_def positive_def nonneg_order)
    then show ?thesis using h spread_settled_all [OF inv fin b] B(2) unfolding scores_ok_def end_gain_def by fastforce
  qed
  have old: "at_end G q e \<and> positive a \<and> (\<exists>b. sp_best st q = Some b \<and> a = gain G b e)" if "map_of (sp_strengths st) e = Some (a, q)" for a q
    using B(2) that unfolding scores_ok_def by blast
  have st: "strength_of G (sp_best st) e = ?eg (sg_src G e) \<or> strength_of G (sp_best st) e = ?eg (sg_dst G e)" by (simp add: strength_of_def)
  have key: "f64_key (?eg v) \<le> f64_key (strength_of G (sp_best st) e)" if "at_end G v e" for v
    using that nn(2) [of "sg_src G e"] nn(2) [of "sg_dst G e"] by (auto simp: strength_of_def at_end_def f64_lt_def)
  have eq: "a = strength_of G (sp_best st) e" if m: "map_of (sp_strengths st) e = Some (a, q)" for a q
  proof -
    obtain b where o: "at_end G q e" "positive a" "sp_best st q = Some b" "a = gain G b e" using old [OF m] by blast
    have e: "e \<in> sg_edges G" using o(1) by (simp add: at_end_def)
    have aq: "a = ?eg q" using o(3,4) by (simp add: end_gain_def)
    obtain v where v: "strength_of G (sp_best st) e = ?eg v" "at_end G v e" using st e by (auto simp: at_end_def)
    have k: "f64_key a \<le> f64_key (?eg v)" using key [OF o(1)] aq v(1) by simp
    have "0 < f64_key a" using o(2) nn(2) [OF e, of q] aq by (simp add: positive_key)
    then have p: "positive (?eg v)" using k by (simp add: positive_key)
    have "f64_mag (?eg v) \<le> f64_mag a" using max [OF v(2) p] m by simp
    moreover note na = nn(1) [OF e p] nn(1) [OF e, of q, folded aq, OF o(2)]
    moreover have "f64_mag a \<le> f64_mag (?eg v)" using k na by (simp add: f64_key_def nonneg_def)
    ultimately show ?thesis using nonneg_order(4) [of a "?eg v"] v(1) by simp
  qed
  show "a = strength_of G (sp_best st) e \<and> at_end G q e \<and> (\<exists>b. sp_best st q = Some b \<and> a = gain G b e)"
    if "map_of (sp_strengths st) e = Some (a, q)" using eq [OF that] old [OF that] by blast
  show "scored G (sp_best st) e \<longleftrightarrow> map_of (sp_strengths st) e \<noteq> None"
  proof
    assume s: "scored G (sp_best st) e"
    then obtain v where "strength_of G (sp_best st) e = ?eg v" "at_end G v e" using st by (auto simp: at_end_def scored_def)
    then show "map_of (sp_strengths st) e \<noteq> None" using max [of v] s by (auto simp: scored_def)
  next
    assume "map_of (sp_strengths st) e \<noteq> None"
    then obtain a q where m: "map_of (sp_strengths st) e = Some (a, q)" by auto
    then show "scored G (sp_best st) e" using eq [OF m] old [OF m] by (simp add: scored_def at_end_def)
  qed
qed

section \<open>The ranking\<close>

lemma insort_key_refine:
  "\<forall>y \<in> set ys. x < y \<Longrightarrow> insort_key k x ys = insort_key (\<lambda>e. (k e, e)) (x :: nat) ys" for k :: "nat \<Rightarrow> int"
  by (induction ys) (auto simp: less_eq_prod_def)

lemma sort_key_refine:
  "sorted_wrt (<) xs \<Longrightarrow> sort_key k xs = sort_key (\<lambda>e. (k e, e :: nat)) xs" for k :: "nat \<Rightarrow> int"
proof (induction xs)
  case (Cons x xs)
  then have "insort_key k x (sort_key k xs) = insort_key (\<lambda>e. (k e, e)) x (sort_key k xs)" by (intro insort_key_refine) simp
  then show ?case using Cons by simp
qed simp

lemma sort_key_eqI:
  assumes "\<forall>x \<in> set xs. k x = k' x" shows "sort_key k xs = sort_key k' xs"
proof -
  have "insort_key k x ys = insort_key k' x ys" if "\<forall>y \<in> insert x (set ys). k y = k' y" for x ys using that by (induction ys) auto
  then show ?thesis using assms by (induction xs) auto
qed

lemma sort_key_map_comm: "sort_key k (map g xs) = map g (sort_key (\<lambda>e. k (g e)) xs)"
proof -
  have "insort_key k (g x) (map g ys) = map g (insort_key (\<lambda>e. k (g e)) x ys)" for x ys by (induction ys) auto
  then show ?thesis by (induction xs) auto
qed

lemma ranked_eq:
  assumes D: "distinct (map fst ss)" and Q: "\<And>e. Q e \<longleftrightarrow> map_of ss e \<noteq> None" and n: "\<And>e. Q e \<Longrightarrow> e < n"
    and str: "\<And>e a q. map_of ss e = Some (a, q) \<Longrightarrow> a = str e"
  shows "sort_key rank_key (map (\<lambda>(e, strength, from). (strength, e, from)) ss) =
     map (\<lambda>e. (str e, e, snd (the (map_of ss e)))) (sort_key (\<lambda>e. - f64_total_key (str e)) (filter Q [0..<n]))"
    (is "?l = map ?f (sort_key ?k ?xs)")
proof -
  have eq: "map ?f (sort_key ?k ?xs) = sort_key rank_key (map ?f ?xs)"
    unfolding sort_key_map_comm by (simp add: rank_key_def sort_key_refine sorted_wrt_filter)
  have mem: "(e, a, q) \<in> set ss \<longleftrightarrow> map_of ss e = Some (a, q)" for e a q using D by simp
  have inx: "(a, e, q) \<in> set (map ?f ?xs) \<longleftrightarrow> map_of ss e = Some (a, q)" for a e q
  proof
    assume "(a, e, q) \<in> set (map ?f ?xs)"
    then have "a = str e" "q = snd (the (map_of ss e))" "Q e" by auto
    then show "map_of ss e = Some (a, q)" using Q [of e] str [of e] by (cases "map_of ss e") auto
  next
    assume h: "map_of ss e = Some (a, q)"
    then have "Q e" using Q by simp
    then show "(a, e, q) \<in> set (map ?f ?xs)" using h n str by (force simp: image_iff)
  qed
  have inl: "(a, e, q) \<in> set (map (\<lambda>(e, strength, from). (strength, e, from)) ss) \<longleftrightarrow> map_of ss e = Some (a, q)" for a e q
    unfolding mem [symmetric] by force
  have sets: "set (map (\<lambda>(e, strength, from). (strength, e, from)) ss) = set (map ?f ?xs)"
  proof (rule set_eqI)
    fix x show "x \<in> set (map (\<lambda>(e, strength, from). (strength, e, from)) ss) \<longleftrightarrow> x \<in> set (map ?f ?xs)"
      using inl [of "fst x" "fst (snd x)" "snd (snd x)"] inx [of "fst x" "fst (snd x)" "snd (snd x)"] by (simp only: prod.collapse)
  qed
  have inj: "inj_on rank_key (set (map ?f ?xs))" by (auto simp: inj_on_def rank_key_def)
  have "distinct ss" using D by (simp add: distinct_map)
  then have d1: "distinct (map (\<lambda>(e, strength, from). (strength, e, from)) ss)" by (auto simp: distinct_map inj_on_def)
  have d2: "distinct (map ?f ?xs)" by (auto simp: distinct_map inj_on_def)
  show ?thesis
    unfolding eq
  proof (rule map_sorted_distinct_set_unique [of rank_key])
    show "inj_on rank_key (set ?l \<union> set (sort_key rank_key (map ?f ?xs)))" using inj sets by (simp only: set_sort Un_absorb)
    show "sorted (map rank_key ?l)" "sorted (map rank_key (sort_key rank_key (map ?f ?xs)))" by simp_all
    show "distinct (map rank_key ?l)" "distinct (map rank_key (sort_key rank_key (map ?f ?xs)))"
      using d1 d2 inj sets by (simp_all only: distinct_map distinct_sort set_sort)
    show "set ?l = set (sort_key rank_key (map ?f ?xs))" using sets by (simp only: set_sort)
  qed
qed

section \<open>Renaming a network\<close>

text \<open>\<open>Gn\<close> is \<open>Gi\<close> with its nodes renamed by \<open>h\<close> and its edges by \<open>g\<close>.\<close>

definition graph_map :: "('e \<Rightarrow> 'f) \<Rightarrow> ('n \<Rightarrow> 'm) \<Rightarrow> 'n set \<Rightarrow> ('n, 'e) sgraph \<Rightarrow> ('m, 'f) sgraph \<Rightarrow> bool" where
  "graph_map g h D Gi Gn \<longleftrightarrow> inj_on h D \<and> sg_origins Gi \<subseteq> D \<and> sg_origins Gn = h ` sg_origins Gi \<and>
     sg_edges Gn = g ` sg_edges Gi \<and> (\<forall>e \<in> sg_edges Gi. sg_src Gn (g e) = h (sg_src Gi e) \<and> sg_dst Gn (g e) = h (sg_dst Gi e) \<and>
       sg_src Gi e \<in> D \<and> sg_dst Gi e \<in> D \<and> sg_mag Gn (g e) = sg_mag Gi e) \<and>
     (\<forall>p \<in> D. sg_fan Gn (h p) = sg_fan Gi p) \<and> sg_decay Gn = sg_decay Gi"

definition act_map :: "('n \<Rightarrow> 'm) \<Rightarrow> 'n set \<Rightarrow> ('n \<rightharpoonup> f64) \<Rightarrow> ('m \<rightharpoonup> f64)" where
  "act_map h D act m = (if m \<in> h ` D then act (inv_into D h m) else None)"

lemma act_path_dom: "spread_field G act \<Longrightarrow> act_path G act xs \<Longrightarrow> set xs \<subseteq> dom act"
proof -
  have "hd ys \<in> dom act \<Longrightarrow> successively (conveys G act) ys \<Longrightarrow> set ys \<subseteq> dom act" for ys
    by (induction ys rule: induct_list012) (auto simp: conveys_def)
  then show "spread_field G act \<Longrightarrow> act_path G act xs \<Longrightarrow> set xs \<subseteq> dom act"
    by (auto simp: act_path_def spread_field_def)
qed

lemma field_map:
  assumes m: "graph_map g h D Gi Gn" and act: "dom act \<subseteq> D" "spread_field Gi act" and act': "act' = act_map h D act"
  shows "spread_field Gn act'" "act_path Gi act xs \<Longrightarrow> act_path Gn act' (map h xs)"
    "e \<in> sg_edges Gi \<Longrightarrow> v \<in> D \<Longrightarrow> end_gain Gn act' (g e) (h v) = end_gain Gi act e v"
    "e \<in> sg_edges Gi \<Longrightarrow> strength_of Gn act' (g e) = strength_of Gi act e"
    "e \<in> sg_edges Gi \<Longrightarrow> v \<in> D \<Longrightarrow> at_end Gi v e \<Longrightarrow> at_end Gn (h v) (g e)"
proof -
  have inj: "inj_on h D" and og: "sg_origins Gi \<subseteq> D" "sg_origins Gn = h ` sg_origins Gi" and ed: "sg_edges Gn = g ` sg_edges Gi"
    and fan: "p \<in> D \<Longrightarrow> sg_fan Gn (h p) = sg_fan Gi p" and dc: "sg_decay Gn = sg_decay Gi" for p
    using m unfolding graph_map_def by blast+
  have e: "sg_src Gn (g e) = h (sg_src Gi e)" "sg_dst Gn (g e) = h (sg_dst Gi e)" "sg_src Gi e \<in> D" "sg_dst Gi e \<in> D"
    "sg_mag Gn (g e) = sg_mag Gi e" if "e \<in> sg_edges Gi" for e using m that unfolding graph_map_def by blast+
  have av: "act' (h v) = act v" if "v \<in> D" for v using that inj by (simp add: act' act_map_def)
  have ex: "\<exists>v \<in> D. n = h v \<and> act v = Some a" if "act' n = Some a" for n a
    using that inj by (auto simp: act' act_map_def split: if_splits)
  have gn: "gain Gn b (g e) = gain Gi b e" if "e \<in> sg_edges Gi" for b e using e [OF that] by (simp add: gain_def dc)
  have ae: "at_end Gn (h p) (g e) \<longleftrightarrow> at_end Gi p e" if "e \<in> sg_edges Gi" "p \<in> D" for e p
    using e [OF that(1)] that inj by (auto simp: at_end_def ed inj_on_eq_iff)
  have fl: "flow_of Gn b (h p) (g e) = flow_of Gi b p e" if "e \<in> sg_edges Gi" "p \<in> D" for b e p
    using that by (simp add: flow_of_def gn fan)
  have cd: "conducts Gn b (h p) (g e) \<longleftrightarrow> conducts Gi b p e" if "e \<in> sg_edges Gi" "p \<in> D" for b e p
    using that by (simp add: conducts_def ae gn fl)
  have cv: "conveys Gn act' (h p) (h v)" if c: "conveys Gi act p v" for p v
  proof -
    obtain e0 b where h: "act p = Some b" "conducts Gi b p e0" "joins Gi e0 p v" "act v = Some (flow_of Gi b p e0)"
      using c unfolding conveys_def by blast
    have d: "p \<in> D" "v \<in> D" "e0 \<in> sg_edges Gi" using h act(1) by (auto simp: conducts_def at_end_def)
    then show ?thesis unfolding conveys_def using h cd [OF d(3,1)] fl [OF d(3,1)] e [OF d(3)] av
      by (intro exI [of _ "g e0"] exI [of _ b]) (auto simp: joins_def)
  qed
  show path: "act_path Gi act xs \<Longrightarrow> act_path Gn act' (map h xs)" for xs
    unfolding act_path_def successively_map by (auto simp: og(2) hd_map intro: cv elim: successively_mono)
  show "spread_field Gn act'"
    unfolding spread_field_def
  proof (intro conjI ballI allI impI)
    show "act' v = Some f64_one" if "v \<in> sg_origins Gn" for v using that og av act(2) by (auto simp: spread_field_def)
    fix n a assume "act' n = Some a"
    then obtain v where v: "v \<in> D" "n = h v" "act v = Some a" using ex by blast
    then obtain xs where xs: "unit_act a" "act_path Gi act xs" "last xs = v" using act(2) unfolding spread_field_def by blast
    then show "unit_act a" by simp
    have "xs \<noteq> []" using xs(2) by (simp add: act_path_def)
    then show "\<exists>xs. act_path Gn act' xs \<and> last xs = n" using path [OF xs(2)] xs(3) v(2) by (intro exI [of _ "map h xs"]) (simp add: last_map)
  next
    fix n b x assume h: "act' n = Some b \<and> conducts Gn b n x"
    then obtain p e0 where p: "p \<in> D" "n = h p" "act p = Some b" "e0 \<in> sg_edges Gi" "x = g e0"
      using ex [of n b] ed by (auto simp: conducts_def at_end_def)
    then have "conducts Gi b p e0" using h cd by blast
    then have "act (sg_src Gi e0) \<noteq> None" "act (sg_dst Gi e0) \<noteq> None" using act(2) p(3) unfolding spread_field_def by blast+
    then show "act' (sg_src Gn x) \<noteq> None" "act' (sg_dst Gn x) \<noteq> None" using e [OF p(4)] av p(5) by simp_all
  qed
  show eg: "end_gain Gn act' (g e) (h v) = end_gain Gi act e v" if "e \<in> sg_edges Gi" "v \<in> D" for e v
    using that by (simp add: end_gain_def av gn split: option.split)
  show "strength_of Gn act' (g e) = strength_of Gi act e" if "e \<in> sg_edges Gi" for e
    using e [OF that] eg [OF that] by (simp add: strength_of_def)
  show "e \<in> sg_edges Gi \<Longrightarrow> v \<in> D \<Longrightarrow> at_end Gi v e \<Longrightarrow> at_end Gn (h v) (g e)" for e v using ae by blast
qed

section \<open>Lenses with weights\<close>

locale weighted_lens = edge_lens +
  assumes weight: "ctx_inv U c \<Longrightarrow> e < length (edges c) \<Longrightarrow> weightlike (M c (fact_of c e))"
begin

lemma spread_reads:
  assumes inv: "ctx_inv U c" and vis: "\<forall>l < length (labels c). visible l \<longleftrightarrow> VQ (lname c l)"
    and E: "E = {e. e < length (edges c) \<and> (fa_count (fact_of c e) \<noteq> 0 \<and> VQ (fa_label (fact_of c e)) \<and> P c (fact_of c e))}"
    and G: "G = spread_graph (subj c) (obj c) [0..<length (edges c)] E S (\<lambda>e. M c (fact_of c e)) d"
    and d: "is_finite d" "f64_mag d \<le> f64_mag f64_one"
  shows "sg_ok G" and "p < length (concepts c) \<Longrightarrow> unit_act a \<Longrightarrow> spread_from c visible (lens c) d a p st =
      Some (foldl (spread_step G a p) st (owned ed_subject (edges c) p @ owned ed_object (edges c) p))"
proof -
  let ?n = "length (edges c)" and ?mg = "\<lambda>e. M c (fact_of c e)"
  have u: "usable visible (lens c) e (edges c ! e) = Some (e \<in> E)" if "e < ?n" for e
    using that alive [OF inv] edge_bounds(3) [OF ctx_invD(5) [OF inv]] vis by (simp add: usable_def fact_names E)
  show ok: "sg_ok G" unfolding G by (rule spread_graph_ok) (use weight [OF inv] d in \<open>auto simp: E\<close>)
  assume p: "p < length (concepts c)" and a: "unit_act a"
  let ?out = "owned ed_subject (edges c) p" and ?inc = "owned ed_object (edges c) p"
  have lt: "e < ?n" if "e \<in> set (?out @ ?inc)" for e using that by (auto simp: set_owned)
  have "foldM (fan_edge c visible (lens c) False) f64_zero ?out =
      Some (foldl (\<lambda>t e. if e \<in> E then accumulate_saturating t (?mg e) else t) f64_zero ?out)"
    by (rule foldM_Some) (use lt u magnitude [OF inv] in \<open>auto simp: fan_edge_def\<close>)
  moreover have "foldM (fan_edge c visible (lens c) True) t ?inc =
      Some (foldl (\<lambda>t e. if e \<in> E \<and> subj c e \<noteq> obj c e then accumulate_saturating t (?mg e) else t) t ?inc)" for t
    by (rule foldM_Some) (use lt u magnitude [OF inv] in \<open>auto simp: fan_edge_def\<close>)
  moreover have flt: "filter (\<lambda>e. e \<in> E) ?out = filter (\<lambda>e. e \<in> E \<and> subj c e = p) [0..<?n]"
    "filter (\<lambda>e. e \<in> E \<and> subj c e \<noteq> obj c e) ?inc = filter (\<lambda>e. e \<in> E \<and> obj c e = p \<and> subj c e \<noteq> obj c e) [0..<?n]"
    by (simp_all add: owned_def conj_ac)
  ultimately have fan: "fan_total c visible (lens c) ?out ?inc = Some (sg_fan G p)"
    by (simp add: fan_total_def foldl_if_filter [of "\<lambda>e. e \<in> E" _ ?mg] foldl_if_filter [of "\<lambda>e. e \<in> E \<and> subj c e \<noteq> obj c e" _ ?mg] G spread_graph_def)
  have step: "spread_edge c visible (lens c) d a p (sg_fan G p) w e = Some (spread_step G a p w e)" if "e \<in> set (?out @ ?inc)" for w e
    using lt [OF that] u magnitude [OF inv]
    by (auto simp: spread_edge_def spread_step_def gain_def flow_of_def positive_def Let_def) (simp_all add: G spread_graph_def)
  have idle: "foldl (spread_step G a p) w es = w" if z: "f64_eq (sg_fan G p) f64_zero" "\<forall>e \<in> set es. subj c e = p \<or> obj c e = p" for w es
    using z(2)
  proof (induction es arbitrary: w)
    case (Cons e es)
    have "\<not> (e \<in> sg_edges G \<and> positive (gain G a e))"
    proof
      assume h: "e \<in> sg_edges G \<and> positive (gain G a e)"
      then have "at_end G p e" using Cons.prems by (simp add: at_end_def G spread_graph_def)
      then have le: "f64_mag (sg_mag G e) \<le> f64_mag (sg_fan G p)" "nonneg (sg_fan G p)" using ok by (auto simp: sg_ok_def)
      then have "f64_mag (sg_fan G p) = 0" using z(1) by (simp add: f64_eq_def nonneg_def f64_key_def f64_zero_def split: if_splits)
      then show False using gain_bounds(1,3) [OF ok _ a, of e] h le(1) by simp
    qed
    then have "spread_step G a p w e = w" by (simp only: spread_step_def if_False)
    then show ?case using Cons by simp
  qed simp
  show "spread_from c visible (lens c) d a p st = Some (foldl (spread_step G a p) st (?out @ ?inc))"
  proof (cases "f64_eq (sg_fan G p) f64_zero")
    case True
    then show ?thesis using chain_reads(1,2) [OF inv p] fan idle [OF True, of "?out @ ?inc" st]
      by (simp add: spread_from_def set_owned ball_Un del: foldl_append)
  next
    case False
    have "foldM (spread_edge c visible (lens c) d a p (sg_fan G p)) st (?out @ ?inc) = Some (foldl (spread_step G a p) st (?out @ ?inc))"
      by (rule foldM_Some) (rule step)
    then show ?thesis using chain_reads(1,2) [OF inv p] fan False by (simp add: spread_from_def del: foldl_append)
  qed
qed

lemma activate_ids:
  assumes inv: "ctx_inv U c" and vis: "\<forall>l < length (labels c). visible l \<longleftrightarrow> VQ (lname c l)"
    and E: "E = {e. e < length (edges c) \<and> (fa_count (fact_of c e) \<noteq> 0 \<and> VQ (fa_label (fact_of c e)) \<and> P c (fact_of c e))}"
    and S: "S = {i. \<exists>og \<in> set origins. concept_ids c og = Some i}"
    and G: "G = spread_graph (subj c) (obj c) [0..<length (edges c)] E S (\<lambda>e. M c (fact_of c e)) (clamp_unit_or decay f64_zero)"
  shows "\<exists>act pf. dom act \<subseteq> {..<length (concepts c)} \<and> spread_field G act \<and>
     activate_impl c origins decay limit visible (lens c) =
       Some (length (filter (scored G act) [0..<length (edges c)]),
         map (\<lambda>e. \<lparr>av_strength = strength_of G act e, av_path = map (cname c) (pf e), av_association = V c (fact_of c e)\<rparr>)
           (take limit (sort_key (by_strength G act) (filter (scored G act) [0..<length (edges c)])))) \<and>
     (\<forall>e. scored G act e \<longrightarrow> act_path G act (pf e) \<and> set (pf e) \<subseteq> {..<length (concepts c)} \<and>
        at_end G (last (pf e)) e \<and> strength_of G act e = end_gain G act e (last (pf e)))"
proof -
  let ?N = "length (concepts c)" and ?n = "length (edges c)" and ?d = "clamp_unit_or decay f64_zero"
  note R = spread_reads [OF inv vis E G clamp_unit_zero]
  have b: "subj c e < ?N" "obj c e < ?N" if "e < ?n" for e using edge_bounds [OF ctx_invD(5) [OF inv] that] by simp_all
  have f: "sg_edges G = E" "sg_src G = subj c" "sg_dst G = obj c" "sg_origins G = S" by (simp_all add: G spread_graph_def)
  have Sb: "S \<subseteq> {..<?N}" using ids_bound(1) [OF inv] by (auto simp: S)
  have "\<exists>st rk. spread_loop c visible (lens c) ?d (spread_start c origins) = Some st \<and> spread_inv G rk {} st \<and> sp_heap st = []"
  proof (rule spread_loop_inv [where N = "{..<?N}" and es = "\<lambda>p. owned ed_subject (edges c) p @ owned ed_object (edges c) p"])
    show "spread_inv G (\<lambda>_. 0) {} (spread_start c origins)" by (rule spread_start_inv [OF S f(4)])
  qed (use R f b Sb in \<open>auto simp: E set_owned at_end_def\<close>)
  then obtain st rk where st: "spread_loop c visible (lens c) ?d (spread_start c origins) = Some st" "spread_inv G rk {} st" "sp_heap st = []" by blast
  have B: "best_ok G st" "links_ok G rk st" "scores_ok G {} st" "closed_ok G {} st" using st(2) by (simp_all add: spread_inv_def)
  have dom: "dom (sp_best st) \<subseteq> {..<?N}"
  proof
    fix v assume "v \<in> dom (sp_best st)"
    then have v: "sp_best st v \<noteq> None" by blast
    show "v \<in> {..<?N}"
    proof (cases "sp_parents st v")
      case None
      then have "v \<in> sg_origins G" using B(1) v unfolding best_ok_def by blast
      then show ?thesis using Sb f(4) by blast
    next
      case (Some q)
      then obtain e where "e \<in> sg_edges G" "joins G e q v" using B(2) unfolding links_ok_def conducts_def at_end_def by blast
      then show ?thesis using b [of e] f by (auto simp: joins_def E)
    qed
  qed
  have rk: "rk p < ?N + 1" if "sp_best st p = Some a" for p a
  proof -
    have "p \<in> sp_settled st" by (rule spread_settled_all [OF st(2,3) that])
    then have "rk p < card (sp_settled st)" using B(2) unfolding links_ok_def by blast
    moreover have "sp_settled st \<subseteq> {..<?N}" using B(1) dom unfolding best_ok_def by blast
    then have "card (sp_settled st) \<le> ?N" using card_mono [of "{..<?N}"] by simp
    ultimately show ?thesis by simp
  qed
  note T = spread_trail [OF st(2,3) _ rk]
  have field: "spread_field G (sp_best st)"
    unfolding spread_field_def
  proof (intro conjI ballI allI impI)
    show "sp_best st v = Some f64_one" if "v \<in> sg_origins G" for v using B(1) that unfolding best_ok_def by blast
    fix v a assume v: "sp_best st v = Some a"
    show "unit_act a" by (rule best_unit [OF B(1) v])
    obtain xs where "xs \<noteq> []" "hd xs = v" "act_path G (sp_best st) (rev xs)" using T [OF v v] by blast
    then show "\<exists>xs. act_path G (sp_best st) xs \<and> last xs = v" by (intro exI [of _ "rev xs"]) (simp add: last_rev)
  next
    fix p x e assume "sp_best st p = Some x \<and> conducts G x p e"
    then show "sp_best st (sg_src G e) \<noteq> None" "sp_best st (sg_dst G e) \<noteq> None"
      using spread_settled_all [OF st(2,3), of p x] B(4) unfolding closed_ok_def by blast+
  qed
  note Z = spread_strength [OF R(1) st(2,3)]
  define fr where "fr = (\<lambda>e. snd (the (map_of (sp_strengths st) e)))"
  define pf where "pf = (\<lambda>e. rev (the (trail_up (sp_parents st) (?N + 1) (fr e))))"
  let ?rs = "sort_key (by_strength G (sp_best st)) (filter (scored G (sp_best st)) [0..<?n])"
  have scored_lt: "e < ?n" if "scored G (sp_best st) e" for e using that by (simp add: scored_def f E)
  have "sort_key rank_key (map (\<lambda>(e, strength, from). (strength, e, from)) (sp_strengths st)) =
      map (\<lambda>e. (strength_of G (sp_best st) e, e, fr e)) ?rs"
    unfolding fr_def by_strength_def [abs_def]
    by (rule ranked_eq) (use B(3) Z scored_lt in \<open>auto simp: scores_ok_def\<close>)
  then have rs: "sort_key rank_key (map (\<lambda>(e, strength, from). (strength, e, from)) (sp_strengths st)) =
      map (\<lambda>e. (strength_of G (sp_best st) e, e, fr e)) ?rs" by simp
  have path: "trail_up (sp_parents st) (?N + 1) (fr e) = Some (rev (pf e)) \<and> act_path G (sp_best st) (pf e) \<and>
      set (pf e) \<subseteq> {..<?N} \<and> at_end G (last (pf e)) e \<and> strength_of G (sp_best st) e = end_gain G (sp_best st) e (last (pf e))"
    if s: "scored G (sp_best st) e" for e
  proof -
    obtain a q where m: "map_of (sp_strengths st) e = Some (a, q)" using Z(1) s by auto
    obtain x where x: "a = strength_of G (sp_best st) e" "at_end G q e" "sp_best st q = Some x" "a = gain G x e" using Z(2) [OF m] by blast
    have q: "fr e = q" using m by (simp add: fr_def)
    obtain xs where xs: "trail_up (sp_parents st) (?N + 1) q = Some xs" "xs \<noteq> []" "hd xs = q" "act_path G (sp_best st) (rev xs)"
      "set xs \<subseteq> dom (sp_best st)" using T [OF x(3) x(3)] by blast
    have "pf e = rev xs" by (simp only: pf_def q xs(1) option.sel)
    then show ?thesis using xs q x dom by (auto simp: last_rev end_gain_def simp del: trail_up.simps)
  qed
  have "mapM (activation_view c (lens c) (sp_parents st)) (map (\<lambda>e. (strength_of G (sp_best st) e, e, fr e)) (take limit ?rs))
      = Some (map (\<lambda>e. \<lparr>av_strength = strength_of G (sp_best st) e, av_path = map (cname c) (pf e), av_association = V c (fact_of c e)\<rparr>) (take limit ?rs))"
    unfolding mapM_map
  proof (rule mapM_Some)
    fix e assume "e \<in> set (take limit ?rs)"
    then have s: "scored G (sp_best st) e" using set_take_subset [of limit ?rs] by auto
    note P = path [OF s]
    have "mapM (concept_name c) (pf e) = Some (map (cname c) (pf e))"
      using name_reads(1) [OF ctx_invD(1) [OF inv]] P by (intro mapM_Some) auto
    then show "activation_view c (lens c) (sp_parents st) (strength_of G (sp_best st) e, e, fr e) =
        Some \<lparr>av_strength = strength_of G (sp_best st) e, av_path = map (cname c) (pf e), av_association = V c (fact_of c e)\<rparr>"
      using P assoc [OF inv scored_lt [OF s]] by (simp add: activation_view_def path_from_def del: trail_up.simps)
  qed
  then have "activate_impl c origins decay limit visible (lens c) =
       Some (length (filter (scored G (sp_best st)) [0..<?n]),
         map (\<lambda>e. \<lparr>av_strength = strength_of G (sp_best st) e, av_path = map (cname c) (pf e), av_association = V c (fact_of c e)\<rparr>) (take limit ?rs))"
    by (simp add: activate_impl_def st(1) rs Let_def take_map del: length_sort) simp
  then show ?thesis using dom field path by (intro exI [of _ "sp_best st"] exI [of _ pf]) blast
qed


text \<open>What \<^verbatim>\<open>activate\<close> reports, on facts.\<close>

lemma activate_spec:
  assumes inv: "ctx_inv U c" and vis: "\<forall>l < length (labels c). visible l \<longleftrightarrow> VQ (lname c l)"
    and G: "G = spread_graph fa_subject fa_object (facts c) (conducting (\<lambda>x. VQ (fa_label x) \<and> P c x) (kb_of c))
       (origin_names (kb_of c) origins) (M c) (clamp_unit_or decay f64_zero)"
  shows "\<exists>act rs. spread_field G act \<and>
     activate_impl c origins decay limit visible (lens c) = Some (length (filter (scored G act) (facts c)), rs) \<and>
     map (\<lambda>r. (av_strength r, av_association r)) rs =
       map (\<lambda>x. (strength_of G act x, V c x)) (take limit (sort_key (by_strength G act) (filter (scored G act) (facts c)))) \<and>
     (\<forall>r \<in> set rs. act_path G act (av_path r) \<and> (\<exists>x. scored G act x \<and> av_association r = V c x \<and>
        at_end G (last (av_path r)) x \<and> av_strength r = end_gain G act x (last (av_path r))))"
proof -
  note I = ctx_invD [OF inv]
  let ?N = "length (concepts c)" and ?n = "length (edges c)" and ?g = "fact_of c" and ?h = "cname c"
  define E where "E = {e. e < ?n \<and> (fa_count (?g e) \<noteq> 0 \<and> VQ (fa_label (?g e)) \<and> P c (?g e))}"
  define S where "S = {i. \<exists>og \<in> set origins. concept_ids c og = Some i}"
  define Gi where "Gi = spread_graph (subj c) (obj c) [0..<?n] E S (\<lambda>e. M c (?g e)) (clamp_unit_or decay f64_zero)"
  have f: "sg_edges Gi = E" "sg_edges G = conducting (\<lambda>x. VQ (fa_label x) \<and> P c x) (kb_of c)" by (simp_all add: Gi_def G spread_graph_def)
  have b: "subj c e < ?N" "obj c e < ?N" if "e < ?n" for e using edge_bounds [OF I(5) that] by simp_all
  have inj: "inj_on ?h {..<?N}" using name_ids(1) [OF I(1)] by (auto simp: inj_on_def) (metis option.inject)
  have Sb: "S \<subseteq> {..<?N}" using ids_bound(1) [OF inv] by (auto simp: S_def)
  have Eg: "sg_edges G = ?g ` E" by (auto simp: f(2) conducting_def E_def facts_def)
  have Ei: "?g e \<in> sg_edges G \<longleftrightarrow> e \<in> E" if "e < ?n" for e using that by (auto simp: f(2) conducting_def E_def facts_def)
  have Sh: "origin_names (kb_of c) origins = ?h ` S" by (auto simp: origin_names_def S_def kb_of_def)
  have fan: "sg_fan G (?h p) = sg_fan Gi p" if p: "p < ?N" for p
  proof -
    have q: "?h v = ?h p \<longleftrightarrow> v = p" if "v < ?N" for v using that p inj by (auto simp: inj_on_def)
    have r: "?h (subj c e) = ?h (obj c e) \<longleftrightarrow> subj c e = obj c e" if "e < ?n" for e
      using inj b [OF that] by (simp add: inj_on_eq_iff)
    have s: "filter (\<lambda>x. x \<in> sg_edges G \<and> fa_subject x = ?h p) (facts c) = map ?g (filter (\<lambda>e. e \<in> E \<and> subj c e = p) [0..<?n])"
      unfolding facts_def filter_map comp_def by (intro arg_cong [of _ _ "map ?g"] filter_cong) (auto simp: Ei fact_names q b)
    have t: "filter (\<lambda>x. x \<in> sg_edges G \<and> fa_object x = ?h p \<and> fa_subject x \<noteq> fa_object x) (facts c)
        = map ?g (filter (\<lambda>e. e \<in> E \<and> obj c e = p \<and> subj c e \<noteq> obj c e) [0..<?n])"
      unfolding facts_def filter_map comp_def by (intro arg_cong [of _ _ "map ?g"] filter_cong) (auto simp: Ei fact_names q b r)
    show ?thesis using s t unfolding f(2) by (simp add: G Gi_def spread_graph_def comp_def)
  qed
  have F: "sg_src G = fa_subject" "sg_dst G = fa_object" "sg_origins G = ?h ` S" "sg_mag G = M c" "sg_decay G = sg_decay Gi"
    "sg_src Gi = subj c" "sg_dst Gi = obj c" "sg_origins Gi = S" "sg_mag Gi = (\<lambda>e. M c (?g e))"
    by (simp_all add: G Gi_def spread_graph_def Sh)
  have "subj c e < ?N \<and> obj c e < ?N" if "e \<in> E" for e using that b by (simp add: E_def)
  then have gm: "graph_map ?g ?h {..<?N} Gi G"
    unfolding graph_map_def F f(1) using inj Sb Eg fan by (simp add: fact_names)
  obtain act pf where A: "dom act \<subseteq> {..<?N}" "spread_field Gi act" "activate_impl c origins decay limit visible (lens c) =
       Some (length (filter (scored Gi act) [0..<?n]),
         map (\<lambda>e. \<lparr>av_strength = strength_of Gi act e, av_path = map ?h (pf e), av_association = V c (?g e)\<rparr>)
           (take limit (sort_key (by_strength Gi act) (filter (scored Gi act) [0..<?n]))))"
     "\<And>e. scored Gi act e \<Longrightarrow> act_path Gi act (pf e) \<and> set (pf e) \<subseteq> {..<?N} \<and>
        at_end Gi (last (pf e)) e \<and> strength_of Gi act e = end_gain Gi act e (last (pf e))"
    using activate_ids [OF inv vis E_def S_def Gi_def, of limit] by blast
  define act' where "act' = act_map ?h {..<?N} act"
  note T = field_map [OF gm A(1,2) act'_def, unfolded f(1)]
  have sc: "scored G act' (?g e) \<longleftrightarrow> scored Gi act e" if "e < ?n" for e
    using Ei [OF that] T(4) by (auto simp: scored_def f(1))
  have flt: "filter (scored G act') (facts c) = map ?g (filter (scored Gi act) [0..<?n])"
    unfolding facts_def filter_map comp_def by (intro arg_cong [of _ _ "map ?g"] filter_cong) (auto simp: sc)
  let ?xs = "filter (scored Gi act) [0..<?n]"
  have str: "strength_of G act' (?g e) = strength_of Gi act e" if "e \<in> set ?xs" for e using that T(4) by (auto simp: scored_def f(1))
  have "sort_key (\<lambda>e. by_strength G act' (?g e)) ?xs = sort_key (by_strength Gi act) ?xs"
    by (rule sort_key_eqI) (simp add: by_strength_def str)
  then have srt: "sort_key (by_strength G act') (map ?g ?xs) = map ?g (sort_key (by_strength Gi act) ?xs)" by (simp add: sort_key_map_comm)
  let ?rs = "take limit (sort_key (by_strength Gi act) ?xs)"
  have in_rs: "e \<in> set ?xs" if "e \<in> set ?rs" for e using that set_take_subset [of limit "sort_key (by_strength Gi act) ?xs"] by auto
  have view: "act_path G act' (map ?h (pf e)) \<and> scored G act' (?g e) \<and> at_end G (last (map ?h (pf e))) (?g e) \<and>
      strength_of Gi act e = end_gain G act' (?g e) (last (map ?h (pf e)))" if "e \<in> set ?rs" for e
  proof -
    have e: "scored Gi act e" "e \<in> E" "e < ?n" using in_rs [OF that] by (auto simp: scored_def f(1))
    note P = A(4) [OF e(1)]
    have ne: "pf e \<noteq> []" using P by (simp add: act_path_def)
    have "set (pf e) \<subseteq> {..<?N}" using P by blast
    then have l: "last (map ?h (pf e)) = ?h (last (pf e))" "last (pf e) \<in> {..<?N}" using last_in_set [OF ne] ne by (simp add: last_map, blast)
    show ?thesis using P T(2) [of "pf e"] T(3,5) [OF e(2) l(2)] sc [OF e(3)] e(1) l(1) by simp
  qed
  define rs where "rs = map (\<lambda>e. \<lparr>av_strength = strength_of Gi act e, av_path = map ?h (pf e), av_association = V c (?g e)\<rparr>) ?rs"
  have "activate_impl c origins decay limit visible (lens c) = Some (length (filter (scored G act') (facts c)), rs)"
    unfolding A(3) flt rs_def by simp
  moreover have "map (\<lambda>r. (av_strength r, av_association r)) rs
      = map (\<lambda>x. (strength_of G act' x, V c x)) (take limit (sort_key (by_strength G act') (filter (scored G act') (facts c))))"
    unfolding flt srt take_map map_map comp_def rs_def
    by (rule map_cong [OF refl]) (simp only: activation.simps str [OF in_rs])
  moreover have "act_path G act' (av_path r) \<and> (\<exists>x. scored G act' x \<and> av_association r = V c x \<and>
        at_end G (last (av_path r)) x \<and> av_strength r = end_gain G act' x (last (av_path r)))" if r: "r \<in> set rs" for r
  proof -
    obtain e where e: "e \<in> set ?rs" "r = \<lparr>av_strength = strength_of Gi act e, av_path = map ?h (pf e), av_association = V c (?g e)\<rparr>"
      using r unfolding rs_def by auto
    then show ?thesis using view [OF e(1)] by (simp only: activation.simps) blast
  qed
  ultimately show ?thesis using T(1) by blast
qed

end

interpretation weighted_full: weighted_lens U full_lens "\<lambda>_ _. True" "\<lambda>_ x. f64_abs (fa_sum x)" "\<lambda>_. assoc_of" for U
proof unfold_locales
  fix c e assume inv: "ctx_inv U c" and e: "e < length (edges c)"
  obtain f where "attr_inv c f" using ctx_invD(7) [OF inv] by blast
  then have "is_finite (ed_sum (edges c ! e))" using e by (simp add: attr_defs edge_attr_ok_def)
  then show "weightlike (f64_abs (fa_sum (fact_of c e)))"
    using nonneg_abs by (simp add: weightlike_def fact_of_def fact_with_def)
qed

interpretation weighted_window: weighted_lens U "\<lambda>c. window_lens c (source_window c names)"
  "\<lambda>c x. 0 < fa_count (fact_within (set names) x)" "\<lambda>c x. f64_abs (fa_sum (fact_within (set names) x))"
  "\<lambda>c x. assoc_of (fact_within (set names) x)" for U names
proof unfold_locales
  fix c e
  have "is_finite (foldl accumulate_saturating f64_zero ws)" for ws by (induction ws rule: rev_induct) simp_all
  then show "weightlike (f64_abs (fa_sum (fact_within (set names) (fact_of c e))))"
    using nonneg_abs by (simp add: weightlike_def fact_within_def Let_def)
qed

section \<open>Properties\<close>

text \<open>
  C13. Spreading activation from a set of origins terminates without a panic, whatever the decay
  (a NaN counts as zero and anything else is clamped to \<open>[0, 1]\<close>). The activations it leaves are a
  field: origins have 1, every other activation lies in \<open>(0, 1]\<close> and came along a path of conducting
  facts from an origin, each share being the score divided by the fan of the concept it leaves; and
  nothing a conducting fact joins to an activated concept is left out. The reported facts are the
  live, visible ones with a positive score, each scored by the better of its ends, strongest first
  and in storage order on ties, cut to the limit with the full count beside it. Each result comes
  with a path of the field that ends at the end that scored it.
\<close>
theorem activate_excluding_correct:
  assumes inv: "ctx_inv U c"
    and G: "G = spread_graph fa_subject fa_object (kb_facts (kb_of c)) (conducting (shown (kb_of c) excluded) (kb_of c))
       (origin_names (kb_of c) origins) (\<lambda>x. f64_abs (fa_sum x)) (clamp_unit_or decay f64_zero)"
  shows "\<exists>act rs. spread_field G act \<and>
     activate_excluding c origins decay limit excluded = Some (length (filter (scored G act) (kb_facts (kb_of c))), rs) \<and>
     map (\<lambda>r. (av_strength r, av_association r)) rs = map (\<lambda>x. (strength_of G act x, assoc_of x))
       (take limit (sort_key (by_strength G act) (filter (scored G act) (kb_facts (kb_of c))))) \<and>
     (\<forall>r \<in> set rs. act_path G act (av_path r) \<and> (\<exists>x. scored G act x \<and> av_association r = assoc_of x \<and>
        at_end G (last (av_path r)) x \<and> av_strength r = end_gain G act x (last (av_path r))))"
  unfolding activate_excluding_def kb_facts_of
  by (rule weighted_full.activate_spec [OF inv hidden_labels_names [OF inv]]) (simp add: G shown_def [abs_def])

theorem activate_excluding_correct_witness:
  "\<exists>act rs. spread_field (spread_graph fa_subject fa_object (kb_facts (kb_of demo_ctx)) (conducting (shown (kb_of demo_ctx) []) (kb_of demo_ctx))
       (origin_names (kb_of demo_ctx) [bytes ''tea'']) (\<lambda>x. f64_abs (fa_sum x)) (clamp_unit_or f64_one f64_zero)) act \<and>
     map_option snd (activate_excluding demo_ctx [bytes ''tea''] f64_one 5 []) = Some rs"
  using activate_excluding_correct [OF demo_ctx(1) refl, where origins = "[bytes ''tea'']" and decay = f64_one and limit = 5 and excluded = "[]"] by fastforce

text \<open>
  Activation through a window of sources is the same spread over the facts some source of the
  window attests, with the magnitudes those sources give: what the window does not attest neither
  conducts nor dilutes a fan, and the results show what the window's sources say.
\<close>
theorem activate_within_correct:
  assumes inv: "ctx_inv U c"
    and G: "G = spread_graph fa_subject fa_object (kb_facts (kb_of c))
       (conducting (\<lambda>x. shown (kb_of c) excluded x \<and> 0 < fa_count (fact_within (set names) x)) (kb_of c))
       (origin_names (kb_of c) origins) (\<lambda>x. f64_abs (fa_sum (fact_within (set names) x))) (clamp_unit_or decay f64_zero)"
  shows "\<exists>act rs. spread_field G act \<and> activate_within c origins decay limit excluded (source_window c names)
       = Some (length (filter (scored G act) (kb_facts (kb_of c))), rs) \<and>
     map (\<lambda>r. (av_strength r, av_association r)) rs = map (\<lambda>x. (strength_of G act x, assoc_of (fact_within (set names) x)))
       (take limit (sort_key (by_strength G act) (filter (scored G act) (kb_facts (kb_of c))))) \<and>
     (\<forall>r \<in> set rs. act_path G act (av_path r) \<and> (\<exists>x. scored G act x \<and> av_association r = assoc_of (fact_within (set names) x) \<and>
        at_end G (last (av_path r)) x \<and> av_strength r = end_gain G act x (last (av_path r))))"
  unfolding activate_within_def kb_facts_of
  by (rule weighted_window.activate_spec [OF inv hidden_labels_names [OF inv]]) (simp add: G shown_def [abs_def])

theorem activate_within_correct_witness:
  "\<exists>n rs. activate_within demo_ctx [bytes ''tea''] f64_one 5 [bytes ''is''] (source_window demo_ctx [bytes ''doc'']) = Some (n, rs)"
  using activate_within_correct [OF demo_ctx(1) refl, where origins = "[bytes ''tea'']" and decay = f64_one and limit = 5
      and excluded = "[bytes ''is'']" and names = "[bytes ''doc'']"] by blast

end
