(* ===== verification/Stats.thy ===== *)
theory Stats
  imports Query "HOL-Library.Product_Lexorder"
begin

text \<open>
  The directory statistics of \<^verbatim>\<open>src/context/stats.rs\<close>: the most connected concepts, chosen by a
  partial selection instead of a full sort, and the counters. The selection routine of the standard
  library enters as any function that keeps its documented contract.
\<close>

section \<open>Partial selection\<close>

text \<open>\<open>select_nth_unstable_by(k, order)\<close>: a permutation whose element \<open>k\<close> splits the rest by the order.\<close>

definition select_ok :: "('a \<Rightarrow> 'k::linorder) \<Rightarrow> (nat \<Rightarrow> 'a list \<Rightarrow> 'a list) \<Rightarrow> bool" where
  "select_ok key sel \<longleftrightarrow> (\<forall>k xs. k < length xs \<longrightarrow> mset (sel k xs) = mset xs \<and>
     (\<forall>i j. i \<le> k \<and> k \<le> j \<and> j < length xs \<longrightarrow> key (sel k xs ! i) \<le> key (sel k xs ! j)))"

text \<open>The shape both callers share: keep the first \<open>limit\<close> by partition, then sort what is kept.\<close>

definition top_of :: "('a \<Rightarrow> 'k::linorder) \<Rightarrow> (nat \<Rightarrow> 'a list \<Rightarrow> 'a list) \<Rightarrow> nat \<Rightarrow> 'a list \<Rightarrow> 'a list" where
  "top_of key sel limit xs =
     (let limit' = min limit (length xs)
      in if limit' = 0 then [] else sort_key key (take limit' (sel (limit' - 1) xs)))"

lemma top_of_eq:
  assumes sel: "select_ok key sel" and inj: "inj_on key (set xs)" and d: "distinct xs"
  shows "top_of key sel limit xs = take limit (sort_key key xs)"
proof (cases "min limit (length xs)")
  case 0
  then show ?thesis by (cases "limit = 0") (auto simp: top_of_def min_def split: if_splits)
next
  case (Suc k)
  define ys where "ys = sel k xs"
  have k: "k < length xs" using Suc by (auto simp: min_def split: if_splits)
  have ys: "mset ys = mset xs" and le: "\<And>i j. i \<le> k \<Longrightarrow> k \<le> j \<Longrightarrow> j < length xs \<Longrightarrow> key (ys ! i) \<le> key (ys ! j)"
    using sel k unfolding select_ok_def ys_def by blast+
  have sy: "set ys = set xs" "length ys = length xs" "distinct ys"
    using ys d mset_eq_setD mset_eq_length mset_eq_imp_distinct_iff by blast+
  have cross: "key a \<le> key b" if ab: "a \<in> set (take (Suc k) ys)" "b \<in> set (drop (Suc k) ys)" for a b
  proof -
    obtain i where "i < length (take (Suc k) ys)" "a = take (Suc k) ys ! i" using ab(1) by (auto simp: in_set_conv_nth)
    then have i: "i \<le> k" "a = ys ! i" by auto
    obtain j where "j < length (drop (Suc k) ys)" "b = drop (Suc k) ys ! j" using ab(2) by (auto simp: in_set_conv_nth)
    then have j: "b = ys ! (Suc k + j)" "Suc k + j < length ys" by auto
    show ?thesis using le [OF i(1), of "Suc k + j"] i(2) j sy(2) by simp
  qed
  let ?zs = "sort_key key (take (Suc k) ys) @ sort_key key (drop (Suc k) ys)"
  have set: "set ?zs = set xs" using sy(1) append_take_drop_id [of "Suc k" ys] by (metis set_append set_sort)
  have "?zs = sort_key key xs"
  proof (rule map_sorted_distinct_set_unique [of key])
    show "inj_on key (set ?zs \<union> set (sort_key key xs))" using inj set by simp
    show "sorted (map key ?zs)" using cross by (auto simp: sorted_append)
    have "distinct (take (Suc k) ys @ drop (Suc k) ys)" using sy(3) by simp
    then have "distinct ?zs" by (simp only: distinct_append distinct_sort set_sort)
    then show "distinct (map key ?zs)" using inj set by (simp only: distinct_map)
    show "distinct (map key (sort_key key xs))" using inj d by (simp add: distinct_map)
  qed (use set in simp_all)
  moreover have "length (sort_key key (take (Suc k) ys)) = Suc k" using k sy(2) by simp
  ultimately have "sort_key key (take (Suc k) ys) = take (Suc k) (sort_key key xs)" by (metis append_eq_conv_conj)
  moreover have "take limit (sort_key key xs) = take (Suc k) (sort_key key xs)"
    using Suc by (cases "limit \<le> length xs") (auto simp: min_def)
  ultimately show ?thesis using Suc by (simp add: top_of_def Let_def ys_def)
qed

section \<open>The most connected concepts\<close>

definition live_count :: "ctx \<Rightarrow> nat list \<Rightarrow> nat option" where
  "live_count c es = foldM (\<lambda>n e. map_option (\<lambda>r. if 0 < ed_count r then n + 1 else n) (nth_opt (edges c) e)) 0 es"

definition live_degree :: "ctx \<Rightarrow> nat \<Rightarrow> (nat \<times> nat) option" where
  "live_degree c i = do {
     out \<leftarrow> outgoing c i; a \<leftarrow> live_count c out;
     inc \<leftarrow> incoming c i; b \<leftarrow> live_count c inc;
     Some (a + b, i) }"

definition degree_key :: "nat \<times> nat \<Rightarrow> int \<times> nat" where
  "degree_key p = (- int (fst p), snd p)"

definition top_concepts ::
    "(nat \<Rightarrow> (nat \<times> nat) list \<Rightarrow> (nat \<times> nat) list) \<Rightarrow> ctx \<Rightarrow> nat \<Rightarrow> (rstr \<times> nat) list option" where
  "top_concepts sel c limit = do {
     ranked \<leftarrow> mapM (live_degree c) [0..<length (concepts c)];
     mapM (\<lambda>(degree, i). map_option (\<lambda>n. (n, degree)) (concept_name c i)) (top_of degree_key sel limit ranked) }"

section \<open>Counters and settings\<close>

definition set_applied_seq :: "ctx \<Rightarrow> nat \<Rightarrow> ctx" where
  "set_applied_seq c n = c\<lparr>applied_seq := n\<rparr>"

definition association_count :: "ctx \<Rightarrow> nat" where "association_count c = length (edges c)"
definition concept_count :: "ctx \<Rightarrow> nat" where "concept_count c = length (concepts c)"
definition label_count :: "ctx \<Rightarrow> nat" where "label_count c = length (labels c)"
definition source_count :: "ctx \<Rightarrow> nat" where "source_count c = length (sources c)"

definition dead_ratio :: "ctx \<Rightarrow> f64" where
  "dead_ratio c = dead_ratio_of (dead_edges c) (association_count c)"

text \<open>\<open>0.3\<close>, and the floor of a context: the tuned one, or the default.\<close>

definition DICE_FLOOR :: f64 where
  "DICE_FLOOR = f64_make False 0x3FD3333333333333"

definition ctx_dice_floor :: "ctx \<Rightarrow> f64" where
  "ctx_dice_floor c = (case dice_floor c of None \<Rightarrow> DICE_FLOOR | Some f \<Rightarrow> f)"

definition set_dice_floor :: "ctx \<Rightarrow> f64 option \<Rightarrow> ctx" where
  "set_dice_floor c f = c\<lparr>dice_floor := map_option (\<lambda>x. clamp_unit_or x f64_one) f\<rparr>"

section \<open>On facts\<close>

text \<open>A self-loop counts on both sides.\<close>

definition degree_of :: "fact list \<Rightarrow> rstr \<Rightarrow> nat" where
  "degree_of xs n = length (filter (\<lambda>x. 0 < fa_count x \<and> fa_subject x = n) xs)
     + length (filter (\<lambda>x. 0 < fa_count x \<and> fa_object x = n) xs)"

lemma live_count_eq:
  "\<forall>e \<in> set es. e < length (edges c) \<Longrightarrow> live_count c es = Some (length (filter (\<lambda>e. 0 < ed_count (edges c ! e)) es))"
proof -
  assume "\<forall>e \<in> set es. e < length (edges c)"
  then have "foldM (\<lambda>n e. map_option (\<lambda>r. if 0 < ed_count r then n + 1 else n) (nth_opt (edges c) e)) k es
      = Some (k + length (filter (\<lambda>e. 0 < ed_count (edges c ! e)) es))" for k
    by (induction es arbitrary: k) auto
  then show ?thesis by (simp add: live_count_def)
qed

lemma live_degree_eq:
  assumes inv: "ctx_inv U c" and i: "i < length (concepts c)"
  shows "live_degree c i = Some (degree_of (facts c) (cname c i), i)"
proof -
  note I = ctx_invD [OF inv]
  have q: "cname c j = cname c i \<longleftrightarrow> j = i" if "j < length (concepts c)" for j
    using name_ids(1) [OF I(1)] i that by (metis option.inject)
  have s: "length (filter (\<lambda>e. 0 < ed_count (edges c ! e)) (owned ed_subject (edges c) i)) =
      length (filter (\<lambda>x. 0 < fa_count x \<and> fa_subject x = cname c i) (facts c))"
    unfolding facts_def owned_def filter_map length_map filter_filter comp_def
    by (rule arg_cong [of _ _ length], rule filter_cong) (use edge_bounds(1) [OF I(5)] q in \<open>auto simp: fact_names\<close>)
  have t: "length (filter (\<lambda>e. 0 < ed_count (edges c ! e)) (owned ed_object (edges c) i)) =
      length (filter (\<lambda>x. 0 < fa_count x \<and> fa_object x = cname c i) (facts c))"
    unfolding facts_def owned_def filter_map length_map filter_filter comp_def
    by (rule arg_cong [of _ _ length], rule filter_cong) (use edge_bounds(2) [OF I(5)] q in \<open>auto simp: fact_names\<close>)
  show ?thesis
    by (simp add: live_degree_def chain_reads(1,2) [OF inv i] live_count_eq set_owned s t degree_of_def)
qed

lemma sort_key_refine_nat: "sorted_wrt (<) xs \<Longrightarrow> sort_key (\<lambda>e. (k e, e :: nat)) xs = sort_key k xs" for k :: "nat \<Rightarrow> int"
proof (induction xs)
  case (Cons x xs)
  have "insort_key (\<lambda>e. (k e, e)) x ys = insort_key k x ys" if "\<forall>y \<in> set ys. x < y" for ys
    using that by (induction ys) (auto simp: less_eq_prod_def)
  then show ?case using Cons by simp
qed simp

lemma sort_key_image: "sort_key k (map g xs) = map g (sort_key (\<lambda>e. k (g e)) xs)"
proof -
  have "insort_key k (g x) (map g ys) = map g (insort_key (\<lambda>e. k (g e)) x ys)" for x ys by (induction ys) auto
  then show ?thesis by (induction xs) auto
qed

text \<open>
  C30. The most connected concepts: whatever the standard library's partial selection does within its
  contract, the answer is the first \<open>limit\<close> of a full stable sort by live degree, most connected first
  and ties toward earlier interning, with each concept's number of live facts beside it (withdrawn
  facts never count), and nothing on the way panics.
\<close>
theorem top_concepts_correct:
  assumes inv: "ctx_inv U c" and sel: "select_ok degree_key sel" and k: "k = kb_of c"
  shows "top_concepts sel c limit = Some (map (\<lambda>n. (n, degree_of (kb_facts k) n))
     (take limit (sort_key (\<lambda>n. - int (degree_of (kb_facts k) n)) (map (cname c) [0..<concept_count c]))))"
proof -
  note I = ctx_invD [OF inv]
  let ?deg = "\<lambda>i. degree_of (facts c) (cname c i)" and ?n = "length (concepts c)"
  let ?xs = "map (\<lambda>i. (?deg i, i)) [0..<?n]"
  have r: "mapM (live_degree c) [0..<?n] = Some ?xs" by (rule mapM_Some) (simp add: live_degree_eq [OF inv])
  have "inj_on degree_key (set ?xs)" "distinct ?xs" by (auto simp: inj_on_def degree_key_def distinct_map)
  then have "top_of degree_key sel limit ?xs = take limit (sort_key degree_key ?xs)" by (rule top_of_eq [OF sel])
  also have "\<dots> = map (\<lambda>i. (?deg i, i)) (take limit (sort_key (\<lambda>i. - int (?deg i)) [0..<?n]))"
    by (simp add: sort_key_image degree_key_def sort_key_refine_nat take_map)
  finally have t: "top_of degree_key sel limit ?xs = map (\<lambda>i. (?deg i, i)) (take limit (sort_key (\<lambda>i. - int (?deg i)) [0..<?n]))" .
  have "mapM (\<lambda>(degree, i). map_option (\<lambda>n. (n, degree)) (concept_name c i)) (map (\<lambda>i. (?deg i, i)) ys) = Some (map (\<lambda>i. (cname c i, ?deg i)) ys)"
    if "set ys \<subseteq> {..<?n}" for ys
    unfolding mapM_map by (rule mapM_Some) (use that name_reads(1) [OF I(1)] in auto)
  moreover have "set (take limit (sort_key (\<lambda>i. - int (?deg i)) [0..<?n])) \<subseteq> {..<?n}"
    using set_take_subset [of limit "sort_key (\<lambda>i. - int (?deg i)) [0..<?n]"] by auto
  ultimately show ?thesis unfolding k kb_facts_of concept_count_def
    by (simp add: top_concepts_def r t sort_key_image take_map comp_def)
qed

lemma select_sorting: "select_ok key (\<lambda>k xs. sort_key key xs)"
  using sorted_nth_mono [where xs = "map key (sort_key key _)"] by (fastforce simp: select_ok_def)

theorem top_concepts_correct_witness:
  "top_concepts (\<lambda>k xs. sort_key degree_key xs) demo_ctx 1 = Some (map (\<lambda>n. (n, degree_of (kb_facts (kb_of demo_ctx)) n))
     (take 1 (sort_key (\<lambda>n. - int (degree_of (kb_facts (kb_of demo_ctx)) n)) (map (cname demo_ctx) [0..<concept_count demo_ctx]))))"
  by (rule top_concepts_correct [OF demo_ctx(1) select_sorting refl])

lemma dead_edges_facts:
  assumes inv: "ctx_inv U c" shows "dead_edges c = length (filter (\<lambda>x. fa_count x = 0) (facts c))"
proof -
  obtain f where f: "attr_inv c f" using ctx_invD(7) [OF inv] by blast
  have "filter (\<lambda>e. ed_count e = 0) (edges c) = map (\<lambda>e. edges c ! e) (filter (\<lambda>e. ed_count (edges c ! e) = 0) [0..<length (edges c)])"
    by (subst map_nth [of "edges c", symmetric]) (simp only: filter_map comp_def)
  then show ?thesis using f by (simp add: attr_defs facts_def filter_map comp_def fact_names)
qed

lemma settings_keep:
  assumes inv: "ctx_inv U c" and n: "n < 2 ^ 64"
  shows "ctx_inv U (set_applied_seq c n) \<and> kb_of (set_applied_seq c n) = kb_of c"
    "ctx_inv U (set_dice_floor c d) \<and> kb_of (set_dice_floor c d) = kb_of c"
proof -
  obtain f where f: "attr_inv c f" using ctx_invD(7) [OF inv] by blast
  have "attr_inv (set_applied_seq c n) f" "attr_inv (set_dice_floor c d) f" using f by (simp_all add: attr_defs set_applied_seq_def set_dice_floor_def)
  then show "ctx_inv U (set_applied_seq c n) \<and> kb_of (set_applied_seq c n) = kb_of c"
    "ctx_inv U (set_dice_floor c d) \<and> kb_of (set_dice_floor c d) = kb_of c"
    using inv n unfolding ctx_inv_def
    by (auto simp: set_applied_seq_def set_dice_floor_def names_inv_def bounds_inv_def index_inv_def paging_inv_def edges_inv_def chain_inv_def
        locators_inv_def slack_inv_def live_bytes_def kb_of_def facts_def fact_of_def fact_with_def att_view_def [abs_def] cname_def [abs_def]
        lname_def [abs_def] sname_def [abs_def] attribution_chain_def chain_of_def)
qed

text \<open>
  The counters read true: the live dead-edge counter is the number of facts with no assertion
  left, so the dead ratio is that share of the associations, and setting the durability watermark or
  the fuzzy floor changes no fact and keeps the invariant.
\<close>
theorem dead_ratio_correct:
  assumes inv: "ctx_inv U c" and n: "n < 2 ^ 64"
  shows "dead_ratio c = dead_ratio_of (length (filter (\<lambda>x. fa_count x = 0) (kb_facts (kb_of c)))) (length (kb_facts (kb_of c))) \<and>
     ctx_inv U (set_applied_seq c n) \<and> kb_of (set_applied_seq c n) = kb_of c \<and>
     ctx_inv U (set_dice_floor c f) \<and> kb_of (set_dice_floor c f) = kb_of c"
  using dead_edges_facts [OF inv] settings_keep [OF inv n]
  by (simp add: dead_ratio_def association_count_def kb_facts_of)

theorem dead_ratio_correct_witness:
  "dead_ratio demo_ctx = dead_ratio_of (length (filter (\<lambda>x. fa_count x = 0) (kb_facts (kb_of demo_ctx)))) (length (kb_facts (kb_of demo_ctx)))"
  using dead_ratio_correct [OF demo_ctx(1), of 7 None] by simp

end
