(* ===== verification/Resolve.thy ===== *)
theory Resolve
  imports Stats Float_Order "HOL-Library.AList" "HOL-Library.Sublist"
begin

text \<open>
  Name resolution: the scoring of \<^verbatim>\<open>src/context/entry_index.rs\<close> (exact, containment and bigram
  tiers with their stop-grams) and the entry points of \<^verbatim>\<open>src/context/resolve.rs\<close>. The reference
  scores each spelling by itself, with no index, no postings and no iteration order.
\<close>

section \<open>The entry index\<close>

datatype match_kind = MatchExact | MatchAlias | MatchContainment | MatchFuzzy

record resolution =
  rs_name :: rstr
  rs_score :: f64
  rs_kind :: match_kind

text \<open>The order in which a \<open>HashMap\<close> or \<open>HashSet\<close> yields its keys: any order at all.\<close>

type_synonym hash_order = "nat list \<Rightarrow> nat list"

definition order_ok :: "hash_order \<Rightarrow> bool" where
  "order_ok ord \<longleftrightarrow> (\<forall>xs. mset (ord xs) = mset xs)"

type_synonym hits = "(nat \<times> f64 \<times> match_kind) list"

definition record_hit :: "nat \<Rightarrow> f64 \<Rightarrow> match_kind \<Rightarrow> hits \<Rightarrow> hits" where
  "record_hit tgt score kind best =
     (let slot = (case map_of best tgt of None \<Rightarrow> (f64_zero, kind) | Some s \<Rightarrow> s)
      in AList.update tgt (if f64_lt (fst slot) score then (score, kind) else slot) best)"

definition coverage :: "nat \<Rightarrow> nat \<Rightarrow> f64" where
  "coverage a b = f64_div (f64_of_nat (min a b)) (f64_of_nat (max a b))"

definition contain_span ::
    "entry_index \<Rightarrow> rstr \<Rightarrow> hits \<times> nat set \<times> bool \<Rightarrow> nat \<times> entry_span \<Rightarrow> (hits \<times> nat set \<times> bool) option" where
  "contain_span ix needle st p = (case st of (best, seen, exact) \<Rightarrow> case p of (span_index, span) \<Rightarrow> do {
     haystack \<leftarrow> slice_opt (ei_arena ix) (es_start span) (es_end span);
     Some (if haystack = [] then (best, seen, exact)
           else if haystack = needle
           then (record_hit (es_target span) f64_one MatchExact best, insert span_index seen, True)
           else if sublist needle haystack \<or> sublist haystack needle
           then (record_hit (es_target span) (coverage (length (chars needle)) (es_chars span)) MatchContainment best,
                 insert span_index seen, exact)
           else (best, seen, exact)) })"

definition stop_gram :: "entry_index \<Rightarrow> nat" where
  "stop_gram ix = max (length (ei_spans ix) div 20) 64"

definition is_stop :: "entry_index \<Rightarrow> nat \<Rightarrow> bool" where
  "is_stop ix bigram = (case ei_bigrams ix bigram of None \<Rightarrow> False | Some postings \<Rightarrow> stop_gram ix < length postings)"

text \<open>\<open>*shared.entry(k).or_insert(0) += 1\<close> on a \<open>u32\<close> counter.\<close>

definition bump :: "'k \<Rightarrow> ('k \<times> nat) list \<Rightarrow> ('k \<times> nat) list" where
  "bump k m = AList.update k (u32_add (case map_of m k of None \<Rightarrow> 0 | Some n \<Rightarrow> n) 1) m"

definition share_bigram :: "entry_index \<Rightarrow> nat set \<Rightarrow> (nat \<times> nat) list \<Rightarrow> nat \<Rightarrow> (nat \<times> nat) list" where
  "share_bigram ix seen shared bigram =
     (case ei_bigrams ix bigram of None \<Rightarrow> shared
      | Some postings \<Rightarrow> if length postings \<le> stop_gram ix
          then foldl (\<lambda>m i. if i \<in> seen then m else bump i m) shared postings else shared)"

definition dice_of :: "nat \<Rightarrow> nat \<Rightarrow> f64" where
  "dice_of n denominator = f64_div (f64_mul f64_two (f64_of_nat n)) (f64_of_nat denominator)"

definition informative_of :: "entry_index \<Rightarrow> rstr \<Rightarrow> nat" where
  "informative_of ix text = length (remdups (filter (\<lambda>b. \<not> is_stop ix b) (bigrams_of text)))"

definition fuzzy_span :: "entry_index \<Rightarrow> f64 \<Rightarrow> nat \<Rightarrow> (nat \<times> nat) list \<Rightarrow> hits \<Rightarrow> nat \<Rightarrow> hits option" where
  "fuzzy_span ix flr informative_needle shared best span_index = do {
     n \<leftarrow> map_of shared span_index;
     span \<leftarrow> nth_opt (ei_spans ix) span_index;
     text \<leftarrow> slice_opt (ei_arena ix) (es_start span) (es_end span);
     let informative_span = informative_of ix text;
     Some (if informative_span = 0 then best
           else let dice = dice_of n (informative_needle + informative_span)
                in if f64_le flr dice then record_hit (es_target span) dice MatchFuzzy best else best) }"

definition ei_resolve :: "unicode \<Rightarrow> hash_order \<Rightarrow> entry_index \<Rightarrow> rstr \<Rightarrow> f64 \<Rightarrow> hits option" where
  "ei_resolve U ord ix cue flr =
     (let needle = normalize U cue in
      if needle = [] then Some []
      else do {
        (best, seen, exact) \<leftarrow> foldM (contain_span ix needle) ([], {}, False) (enumerate 0 (ei_spans ix));
        (if exact then Some best
         else let needle_bigrams = ord (remdups (bigrams_of needle));
                  informative_needle = length (filter (\<lambda>b. \<not> is_stop ix b) needle_bigrams);
                  shared = foldl (share_bigram ix seen) [] needle_bigrams
              in foldM (fuzzy_span ix flr informative_needle shared) best (ord (map fst shared))) })"

section \<open>The entry points\<close>

definition res_key :: "resolution \<Rightarrow> int \<times> rstr" where
  "res_key r = (- f64_total_key (rs_score r), rs_name r)"

definition name_hit :: "unicode \<Rightarrow> (nat \<Rightarrow> rstr option) \<Rightarrow> rstr \<Rightarrow> hits \<Rightarrow> nat \<Rightarrow> resolution option" where
  "name_hit U name_of needle hs tgt = do {
     (score, kind) \<leftarrow> map_of hs tgt;
     name \<leftarrow> name_of tgt;
     Some \<lparr>rs_name = name, rs_score = score,
           rs_kind = (if kind = MatchExact \<and> normalize U name \<noteq> needle then MatchAlias else kind)\<rparr> }"

definition scored_resolutions ::
    "unicode \<Rightarrow> hash_order \<Rightarrow> entry_index \<Rightarrow> (nat \<Rightarrow> rstr option) \<Rightarrow> rstr \<Rightarrow> f64 \<Rightarrow> resolution list option" where
  "scored_resolutions U ord ix name_of cue flr = do {
     hs \<leftarrow> ei_resolve U ord ix cue (clamp_unit_or flr f64_one);
     rs \<leftarrow> mapM (name_hit U name_of (normalize U cue) hs) (ord (map fst hs));
     Some (sort_key res_key rs) }"

definition resolve_with_floor :: "unicode \<Rightarrow> hash_order \<Rightarrow> ctx \<Rightarrow> rstr \<Rightarrow> f64 \<Rightarrow> resolution list option" where
  "resolve_with_floor U ord c = scored_resolutions U ord (concept_index c) (concept_name c)"

definition resolve_label_with_floor :: "unicode \<Rightarrow> hash_order \<Rightarrow> ctx \<Rightarrow> rstr \<Rightarrow> f64 \<Rightarrow> resolution list option" where
  "resolve_label_with_floor U ord c = scored_resolutions U ord (label_index c) (label_name c)"

definition resolve :: "unicode \<Rightarrow> hash_order \<Rightarrow> ctx \<Rightarrow> rstr \<Rightarrow> resolution list option" where
  "resolve U ord c cue = resolve_with_floor U ord c cue (ctx_dice_floor c)"

definition resolve_label :: "unicode \<Rightarrow> hash_order \<Rightarrow> ctx \<Rightarrow> rstr \<Rightarrow> resolution list option" where
  "resolve_label U ord c cue = resolve_label_with_floor U ord c cue (ctx_dice_floor c)"

section \<open>The reference\<close>

text \<open>How many spellings carry a bigram, and which bigrams are too common to tell anything.\<close>

definition carriers :: "rstr list \<Rightarrow> nat \<Rightarrow> nat" where
  "carriers texts b = length (filter (\<lambda>t. b \<in> set (bigrams_of t)) texts)"

definition stopped :: "rstr list \<Rightarrow> nat \<Rightarrow> bool" where
  "stopped texts b \<longleftrightarrow> max (length texts div 20) 64 < carriers texts b"

definition informative :: "rstr list \<Rightarrow> rstr \<Rightarrow> nat set" where
  "informative texts t = {b \<in> set (bigrams_of t). \<not> stopped texts b}"

definition contains_score :: "rstr \<Rightarrow> rstr \<Rightarrow> (f64 \<times> match_kind) option" where
  "contains_score needle text =
     (if text = [] then None
      else if text = needle then Some (f64_one, MatchExact)
      else if sublist needle text \<or> sublist text needle
      then Some (coverage (length (chars needle)) (length (chars text)), MatchContainment)
      else None)"

definition fuzzy_score :: "rstr list \<Rightarrow> rstr \<Rightarrow> f64 \<Rightarrow> rstr \<Rightarrow> f64 option" where
  "fuzzy_score texts needle flr text =
     (let common = informative texts needle \<inter> informative texts text;
          dice = dice_of (card common) (card (informative texts needle) + card (informative texts text))
      in if common = {} \<or> \<not> f64_le flr dice then None else Some dice)"

text \<open>The score of one spelling; the near-miss tier only speaks when no spelling is the cue itself.\<close>

definition spelling_score :: "rstr list \<Rightarrow> rstr \<Rightarrow> f64 \<Rightarrow> rstr \<Rightarrow> (f64 \<times> match_kind) option" where
  "spelling_score texts needle flr text =
     (if needle = [] then None
      else case contains_score needle text of
        Some x \<Rightarrow> Some x
      | None \<Rightarrow> if needle \<in> set texts then None else map_option (\<lambda>d. (d, MatchFuzzy)) (fuzzy_score texts needle flr text))"

section \<open>Scores\<close>

lemma of_nat_finite:
  assumes "n < 2 ^ 64" shows "is_finite (f64_of_nat n)" "nonneg (f64_of_nat n)"
proof -
  have u: "unit_of (1087 * 2 ^ 52) = 2 ^ 64 * 2 ^ 1074" by (simp add: unit_of_def)
  have "n * 2 ^ 1074 \<le> 2 ^ 64 * 2 ^ 1074" using assms by (intro mult_le_mono1) simp
  then have "f64_round_mag (n * 2 ^ 1074) 1 \<le> 1087 * 2 ^ 52" unfolding u [symmetric] by (intro round_mag_upper) simp_all
  then show "is_finite (f64_of_nat n)" by (simp add: f64_of_nat_def is_finite_def f64_inf_mag_def)
  show "nonneg (f64_of_nat n)" by (simp add: f64_of_nat_def nonneg_def)
qed

lemma of_nat_pos: assumes "0 < n" shows "0 < f64_mag (f64_of_nat n)"
proof -
  have "unit_of 1 * 1 \<le> n * 2 ^ 1074" using assms by (simp add: unit_of_def)
  from round_mag_lower [OF _ this] show ?thesis by (simp add: f64_of_nat_def f64_inf_mag_def)
qed

lemma div_nonneg:
  assumes "nonneg x" "nonneg y" "is_finite y" "0 < f64_mag y" shows "nonneg (f64_div x y)"
proof -
  have "nonneg (f64_make False f64_inf_mag)" by (simp add: nonneg_def is_nan_def f64_inf_mag_def)
  then show ?thesis using assms f64_finite_not [OF assms(3)] by (auto simp: f64_div_def Let_def nonneg_def)
qed

lemma coverage_nonneg:
  assumes "a < 2 ^ 64" "b < 2 ^ 64" "0 < b" shows "nonneg (coverage a b)"
  unfolding coverage_def by (rule div_nonneg) (use assms of_nat_finite of_nat_pos in \<open>simp_all add: max_def min_def\<close>)

lemma dice_nonneg:
  assumes "n < 2 ^ 63" "d < 2 ^ 64" "0 < d" shows "nonneg (dice_of n d)"
proof -
  have t: "is_finite f64_two" "nonneg f64_two" "0 < f64_mag f64_two" by (simp_all add: f64_two_def is_finite_def nonneg_def is_nan_def f64_inf_mag_def)
  have "nonneg (f64_mul f64_two (f64_of_nat n))"
    using f64_finite_not [OF t(1)] f64_finite_not [OF of_nat_finite(1) [of n]] assms(1) t(2) of_nat_finite(2) [of n]
    by (simp add: f64_mul_def Let_def nonneg_def)
  then show ?thesis unfolding dice_of_def by (rule div_nonneg) (use assms of_nat_finite [of d] of_nat_pos [of d] in simp_all)
qed

section \<open>The best score per record\<close>

text \<open>\<open>best\<close> keeps, of the scores \<open>T\<close> met so far, a greatest one per record.\<close>

definition hits_ok :: "(nat \<times> f64 \<times> match_kind) set \<Rightarrow> hits \<Rightarrow> bool" where
  "hits_ok T best \<longleftrightarrow> distinct (map fst best) \<and> (\<forall>t s k. (t, s, k) \<in> T \<longrightarrow> nonneg s \<and> map_of best t \<noteq> None) \<and>
     (\<forall>t s k. map_of best t = Some (s, k) \<longrightarrow> (t, s, k) \<in> T \<and> (\<forall>s' k'. (t, s', k') \<in> T \<longrightarrow> f64_mag s' \<le> f64_mag s))"

lemma hits_ok_empty: "hits_ok {} []"
  by (simp add: hits_ok_def)

lemma record_hit_ok:
  assumes ok: "hits_ok T best" and s: "nonneg s" shows "hits_ok (insert (t, s, k) T) (record_hit t s k best)"
proof -
  define slot where "slot = (case map_of best t of None \<Rightarrow> (f64_zero, k) | Some x \<Rightarrow> x)"
  define new where "new = (if f64_lt (fst slot) s then (s, k) else slot)"
  have D: "distinct (map fst best)" and T: "(t', s', k') \<in> T \<Longrightarrow> nonneg s' \<and> map_of best t' \<noteq> None"
    and B: "map_of best t' = Some (s', k') \<Longrightarrow> (t', s', k') \<in> T" "map_of best t' = Some (s', k') \<Longrightarrow> (t', s'', k'') \<in> T \<Longrightarrow> f64_mag s'' \<le> f64_mag s'"
    for t' s' k' s'' k'' using ok unfolding hits_ok_def by blast+
  have m: "map_of (record_hit t s k best) = (map_of best)(t \<mapsto> new)"
    unfolding record_hit_def Let_def slot_def [symmetric] new_def [symmetric] by (simp add: update_conv')
  have sl: "nonneg (fst slot)" "map_of best t = None \<Longrightarrow> slot = (f64_zero, k)" "map_of best t = Some x \<Longrightarrow> slot = x" for x
    using T [OF B(1)] by (auto simp: slot_def split: option.split)
  have lt: "f64_lt (fst slot) s \<longleftrightarrow> f64_mag (fst slot) < f64_mag s" by (rule nonneg_order(1) [OF sl(1) s])
  have new: "(t, fst new, snd new) \<in> insert (t, s, k) T" "f64_mag s \<le> f64_mag (fst new)" "f64_mag (fst slot) \<le> f64_mag (fst new)"
  proof -
    show "f64_mag s \<le> f64_mag (fst new)" "f64_mag (fst slot) \<le> f64_mag (fst new)" using lt by (auto simp: new_def)
    show "(t, fst new, snd new) \<in> insert (t, s, k) T"
    proof (cases "map_of best t")
      case None
      then have "new = (s, k)" using sl(2) lt s nonneg_order(4) [of f64_zero s] by (auto simp: new_def)
      then show ?thesis by simp
    next
      case (Some x)
      then show ?thesis using B(1) [of t "fst x" "snd x"] sl(3) by (auto simp: new_def)
    qed
  qed
  have le: "f64_mag s' \<le> f64_mag (fst new)" if h: "(t, s', k') \<in> insert (t, s, k) T" for s' k'
  proof (cases "(t, s', k') \<in> T")
    case True
    then obtain x where x: "map_of best t = Some x" using T by blast
    have "f64_mag s' \<le> f64_mag (fst x)" using B(2) [of t "fst x" "snd x"] x True by simp
    then show ?thesis using sl(3) [OF x] new(3) by simp
  qed (use h new(2) in simp)
  show ?thesis
    unfolding hits_ok_def m
  proof (intro conjI allI impI)
    show "distinct (map fst (record_hit t s k best))" using D by (simp add: record_hit_def Let_def distinct_update)
    fix t' s' k' assume "(t', s', k') \<in> insert (t, s, k) T"
    then show "nonneg s'" "((map_of best)(t \<mapsto> new)) t' \<noteq> None" using T s by auto
  next
    fix t' s' k' assume h: "((map_of best)(t \<mapsto> new)) t' = Some (s', k')"
    show "(t', s', k') \<in> insert (t, s, k) T" using h new(1) B(1) by (cases "t' = t") auto
    fix s'' k'' assume h2: "(t', s'', k'') \<in> insert (t, s, k) T"
    show "f64_mag s'' \<le> f64_mag s'"
    proof (cases "t' = t")
      case True
      then have "s' = fst new" using h by (metis fst_conv fun_upd_same option.inject)
      then show ?thesis using le h2 True by blast
    next
      case False
      then show ?thesis using h h2 B(2) by auto
    qed
  qed
qed

section \<open>The index keeps to the reference\<close>

abbreviation texts_of :: "entry_index \<Rightarrow> rstr list" where
  "texts_of ix \<equiv> map fst (ei_entries ix)"

lemma texts_span: "texts_of ix = map (span_text ix) (ei_spans ix)"
  by (simp add: ei_entries_def)

lemma posted_length: "length (posted ents b) = carriers (map fst ents) b"
proof -
  have "map fst ents = map (\<lambda>i. fst (ents ! i)) [0..<length ents]" by (rule nth_equalityI) simp_all
  then show ?thesis unfolding carriers_def by (simp add: posted_def filter_map comp_def)
qed

lemma in_posted: "i \<in> set (posted (ei_entries ix) b) \<longleftrightarrow> i < length (ei_spans ix) \<and> b \<in> set (bigrams_of (span_text ix (ei_spans ix ! i)))"
  by (auto simp: posted_def ei_entries_def)

lemma bigrams_ok:
  assumes "ei_ok ix"
  shows "ei_bigrams ix b = (if posted (ei_entries ix) b = [] then None else Some (posted (ei_entries ix) b))"
  using assms by (simp add: ei_ok_def postings_ok_def)

lemma stop_iff:
  assumes "ei_ok ix" shows "is_stop ix b \<longleftrightarrow> stopped (texts_of ix) b" "length (posted (ei_entries ix) b) \<le> stop_gram ix \<longleftrightarrow> \<not> stopped (texts_of ix) b"
proof -
  have "stop_gram ix = max (length (texts_of ix) div 20) 64" by (simp add: stop_gram_def ei_entries_def)
  then show "length (posted (ei_entries ix) b) \<le> stop_gram ix \<longleftrightarrow> \<not> stopped (texts_of ix) b"
    by (auto simp: stopped_def posted_length)
  then show "is_stop ix b \<longleftrightarrow> stopped (texts_of ix) b"
    by (auto simp: is_stop_def bigrams_ok [OF assms] stopped_def posted_length [symmetric])
qed

lemma informative_of_eq: "ei_ok ix \<Longrightarrow> informative_of ix t = card (informative (texts_of ix) t)"
  by (simp add: informative_of_def informative_def stop_iff length_remdups_card_conv)

lemma span_slice: "ei_ok ix \<Longrightarrow> s \<in> set (ei_spans ix) \<Longrightarrow> slice_opt (ei_arena ix) (es_start s) (es_end s) = Some (span_text ix s)"
  by (simp add: slice_opt_def ei_ok_def span_text_def)

text \<open>Texts the scores stay in range for.\<close>

definition text_ok :: "rstr \<Rightarrow> bool" where
  "text_ok t \<longleftrightarrow> length (chars t) < 2 ^ 32 \<and> (t \<noteq> [] \<longrightarrow> chars t \<noteq> [])"

lemma contains_nonneg: "text_ok needle \<Longrightarrow> text_ok text \<Longrightarrow> contains_score needle text = Some (s, k) \<Longrightarrow> nonneg s"
  using coverage_nonneg [of "length (chars needle)" "length (chars text)"]
  by (auto simp: contains_score_def text_ok_def split: if_splits)

lemma informative_bound: "finite (informative texts t)" "text_ok t \<Longrightarrow> card (informative texts t) < 2 ^ 32"
proof -
  show f: "finite (informative texts t)" by (simp add: informative_def)
  assume t: "text_ok t"
  have "card (informative texts t) \<le> card (set (bigrams_of t))" by (rule card_mono) (auto simp: informative_def)
  also have "\<dots> \<le> length (chars t)" using card_length [of "bigrams_of t"] by (simp add: bigrams_of_def)
  finally show "card (informative texts t) < 2 ^ 32" using t by (simp add: text_ok_def)
qed

lemma fuzzy_nonneg: assumes "text_ok needle" "text_ok text" "fuzzy_score texts needle f text = Some s" shows "nonneg s"
proof -
  let ?a = "informative texts needle" and ?b = "informative texts text"
  have s: "s = dice_of (card (?a \<inter> ?b)) (card ?a + card ?b)" "?a \<inter> ?b \<noteq> {}" using assms(3) by (auto simp: fuzzy_score_def Let_def split: if_splits)
  have "card (?a \<inter> ?b) \<le> card ?a" "0 < card ?a" using informative_bound(1) [of texts needle] s(2) by (auto intro: card_mono simp: card_gt_0_iff)
  moreover have "card ?a < 2 ^ 32" "card ?b < 2 ^ 32" using informative_bound(2) assms(1,2) by blast+
  ultimately show ?thesis unfolding s(1) by (intro dice_nonneg) simp_all
qed

definition tier_hits :: "(rstr \<Rightarrow> (f64 \<times> match_kind) option) \<Rightarrow> entry_index \<Rightarrow> (nat \<times> entry_span) set \<Rightarrow> (nat \<times> f64 \<times> match_kind) set" where
  "tier_hits f ix ps = {(es_target s, x, k) | s x k i. (i, s) \<in> ps \<and> f (span_text ix s) = Some (x, k)}"

lemma tier_hits_insert: "tier_hits f ix (insert (i, s) ps) =
   (case f (span_text ix s) of None \<Rightarrow> tier_hits f ix ps | Some (x, k) \<Rightarrow> insert (es_target s, x, k) (tier_hits f ix ps))"
  by (auto simp: tier_hits_def split: option.splits)

lemma contain_tier:
  assumes ok: "ei_ok ix" and n: "text_ok needle" "\<forall>s \<in> set (ei_spans ix). text_ok (span_text ix s)" and ps: "snd ` set ps \<subseteq> set (ei_spans ix)"
  shows "\<exists>best. foldM (contain_span ix needle) ([], {}, False) ps = Some (best, {i. \<exists>s. (i, s) \<in> set ps \<and> contains_score needle (span_text ix s) \<noteq> None},
      needle \<noteq> [] \<and> (\<exists>(i, s) \<in> set ps. span_text ix s = needle)) \<and> hits_ok (tier_hits (contains_score needle) ix (set ps)) best"
  using ps
proof (induction ps rule: rev_induct)
  case Nil
  show ?case using hits_ok_empty by (simp add: tier_hits_def)
next
  case (snoc p ps)
  obtain i s where p: "p = (i, s)" by (cases p)
  have s: "s \<in> set (ei_spans ix)" using snoc.prems p by simp
  obtain best where best: "foldM (contain_span ix needle) ([], {}, False) ps = Some (best, {i. \<exists>s. (i, s) \<in> set ps \<and> contains_score needle (span_text ix s) \<noteq> None},
      needle \<noteq> [] \<and> (\<exists>(i, s) \<in> set ps. span_text ix s = needle))" "hits_ok (tier_hits (contains_score needle) ix (set ps)) best" using snoc by auto
  have es: "es_chars s = length (chars (span_text ix s))" using ok s by (simp add: ei_ok_def)
  have nn: "nonneg x" if "contains_score needle (span_text ix s) = Some (x, k)" for x k
    using contains_nonneg [OF n(1) _ that] n(2) s by blast
  have set: "set (ps @ [p]) = insert (i, s) (set ps)" using p by simp
  define best' where "best' = (case contains_score needle (span_text ix s) of None \<Rightarrow> best | Some (x, k) \<Rightarrow> record_hit (es_target s) x k best)"
  have "contain_span ix needle (best, seen, exact) p = Some (best',
      (if contains_score needle (span_text ix s) = None then seen else insert i seen), exact \<or> needle \<noteq> [] \<and> span_text ix s = needle)" for seen exact
    using p span_slice [OF ok s] es by (auto simp: contain_span_def contains_score_def best'_def)
  moreover have "hits_ok (tier_hits (contains_score needle) ix (insert (i, s) (set ps))) best'"
    unfolding tier_hits_insert best'_def using best(2) nn record_hit_ok by (auto split: option.split)
  ultimately show ?case unfolding set
    by (intro exI [of _ best'] conjI) (auto simp: foldM_append best(1) split: if_splits)
qed

lemma bump_fold:
  assumes "distinct ps" "distinct (map fst m)"
  shows "distinct (map fst (foldl (\<lambda>m i. if i \<in> C then m else bump i m) m ps)) \<and>
    map_of (foldl (\<lambda>m i. if i \<in> C then m else bump i m) m ps) i =
      (if i \<in> set ps - C then Some (u32_add (case map_of m i of None \<Rightarrow> 0 | Some n \<Rightarrow> n) 1) else map_of m i)"
  using assms
proof (induction ps arbitrary: m)
  case (Cons p ps)
  let ?m = "if p \<in> C then m else bump p m"
  have d: "distinct (map fst ?m)" using Cons.prems(2) by (simp add: bump_def distinct_update)
  show ?case using Cons.IH [OF _ d] Cons.prems(1) by (auto simp: bump_def update_conv')
qed simp

lemma share_spec:
  assumes ok: "ei_ok ix" and bs: "length bs < 2 ^ 32"
  shows "distinct (map fst (foldl (share_bigram ix C) [] bs)) \<and> map_of (foldl (share_bigram ix C) [] bs) i =
    (let n = length (filter (\<lambda>b. \<not> stopped (texts_of ix) b \<and> i \<in> set (posted (ei_entries ix) b)) bs)
     in if n = 0 \<or> i \<in> C then None else Some n)"
  using bs
proof (induction bs arbitrary: i rule: rev_induct)
  case (snoc b bs)
  let ?m = "foldl (share_bigram ix C) [] bs" and ?Q = "\<lambda>i b. \<not> stopped (texts_of ix) b \<and> i \<in> set (posted (ei_entries ix) b)"
  have bs: "length bs < 2 ^ 32" and one: "length bs + 1 < 2 ^ 32" using snoc.prems by simp_all
  note IH = snoc.IH [OF bs]
  have len: "length (filter (?Q i) bs) + 1 < 2 ^ 32" for i using one length_filter_le [of "?Q i" bs] by linarith
  have dp: "distinct (posted (ei_entries ix) b)" by (simp add: posted_def)
  note F = bump_fold [OF dp IH [THEN conjunct1], where C = C]
  show ?case
  proof (cases "stopped (texts_of ix) b \<or> posted (ei_entries ix) b = []")
    case True
    then have "share_bigram ix C ?m b = ?m" using stop_iff(2) [OF ok] by (auto simp: share_bigram_def bigrams_ok [OF ok])
    then show ?thesis using IH [of i] True by auto
  next
    case False
    then have "share_bigram ix C ?m b = foldl (\<lambda>m i. if i \<in> C then m else bump i m) ?m (posted (ei_entries ix) b)"
      using stop_iff(2) [OF ok] by (simp add: share_bigram_def bigrams_ok [OF ok])
    moreover have "u32_add (length (filter (?Q i) bs)) 1 = length (filter (?Q i) bs) + 1" by (rule u32_add_Suc [OF len])
    ultimately show ?thesis using F [of i] IH [of i] False by (auto simp: Let_def u32_add_def)
  qed
qed simp

lemma order_okD:
  assumes "order_ok ord" shows "set (ord xs) = set xs" "distinct (ord xs) = distinct xs" "length (ord xs) = length xs"
  using assms unfolding order_ok_def
  by (metis mset_eq_setD, metis mset_eq_imp_distinct_iff, metis mset_eq_length)

lemma fuzzy_tier:
  assumes ok: "ei_ok ix" and n: "text_ok needle" "\<forall>s \<in> set (ei_spans ix). text_ok (span_text ix s)"
    and ks: "\<forall>i \<in> set ks. i < length (ei_spans ix) \<and> informative (texts_of ix) needle \<inter> informative (texts_of ix) (span_text ix (ei_spans ix ! i)) \<noteq> {} \<and>
      map_of shared i = Some (card (informative (texts_of ix) needle \<inter> informative (texts_of ix) (span_text ix (ei_spans ix ! i))))"
    and hits: "hits_ok T best"
  shows "\<exists>best'. foldM (fuzzy_span ix f (card (informative (texts_of ix) needle)) shared) best ks = Some best' \<and>
     hits_ok (T \<union> {(es_target (ei_spans ix ! i), d, MatchFuzzy) | i d. i \<in> set ks \<and>
        fuzzy_score (texts_of ix) needle f (span_text ix (ei_spans ix ! i)) = Some d}) best'"
  using ks hits
proof (induction ks arbitrary: T best)
  case (Cons i ks)
  let ?s = "ei_spans ix ! i" and ?x = "texts_of ix"
  let ?t = "span_text ix ?s" and ?fs = "\<lambda>i. fuzzy_score ?x needle f (span_text ix (ei_spans ix ! i))"
  let ?com = "informative ?x needle \<inter> informative ?x ?t"
  have i: "i < length (ei_spans ix)" "map_of shared i = Some (card ?com)" "?com \<noteq> {}" using Cons.prems(1) by simp_all
  have s: "?s \<in> set (ei_spans ix)" using i(1) by simp
  have pos: "informative_of ix ?t \<noteq> 0" using i(3) informative_bound(1) [of ?x ?t] by (auto simp: informative_of_eq [OF ok] card_eq_0_iff)
  define best1 where "best1 = (case ?fs i of None \<Rightarrow> best | Some d \<Rightarrow> record_hit (es_target ?s) d MatchFuzzy best)"
  define T1 where "T1 = (case ?fs i of None \<Rightarrow> T | Some d \<Rightarrow> insert (es_target ?s, d, MatchFuzzy) T)"
  have step: "fuzzy_span ix f (card (informative ?x needle)) shared best i = Some best1"
    using i span_slice [OF ok s] pos by (simp add: fuzzy_span_def fuzzy_score_def best1_def informative_of_eq [OF ok] Let_def)
  have "hits_ok T1 best1"
    unfolding T1_def best1_def using Cons.prems(2) record_hit_ok fuzzy_nonneg [OF n(1)] n(2) s by (fastforce split: option.split)
  moreover have "T1 \<union> {(es_target (ei_spans ix ! j), d, MatchFuzzy) | j d. j \<in> set ks \<and> ?fs j = Some d} =
      T \<union> {(es_target (ei_spans ix ! j), d, MatchFuzzy) | j d. j \<in> set (i # ks) \<and> ?fs j = Some d}"
    by (auto simp: T1_def split: option.split)
  ultimately show ?case using Cons.IH [of T1 best1] Cons.prems(1) step by simp
qed simp

lemma resolve_hits:
  assumes ok: "ei_ok ix" and ord: "order_ok ord" and n: "text_ok (normalize U cue)" "\<forall>t \<in> set (texts_of ix). text_ok t"
  shows "\<exists>hs. ei_resolve U ord ix cue f = Some hs \<and>
     hits_ok {(tgt, s, k). \<exists>t. (t, tgt) \<in> set (ei_entries ix) \<and> spelling_score (texts_of ix) (normalize U cue) f t = Some (s, k)} hs"
proof -
  let ?needle = "normalize U cue" and ?x = "texts_of ix" and ?sp = "ei_spans ix"
  let ?T = "{(tgt, s, k). \<exists>t. (t, tgt) \<in> set (ei_entries ix) \<and> spelling_score ?x ?needle f t = Some (s, k)}"
  let ?cs = "\<lambda>i. contains_score ?needle (span_text ix (?sp ! i))" and ?fs = "\<lambda>i. fuzzy_score ?x ?needle f (span_text ix (?sp ! i))"
  have nt: "\<forall>s \<in> set ?sp. text_ok (span_text ix s)" using n(2) by (simp add: texts_span)
  have en: "(i, s) \<in> set (enumerate 0 ?sp) \<longleftrightarrow> i < length ?sp \<and> s = ?sp ! i" for i s by (auto simp: in_set_enumerate_eq)
  have ent: "(\<exists>t. (t, tgt) \<in> set (ei_entries ix) \<and> P t) \<longleftrightarrow> (\<exists>i < length ?sp. tgt = es_target (?sp ! i) \<and> P (span_text ix (?sp ! i)))" for tgt P
    unfolding ei_entries_def set_map image_iff by (metis in_set_conv_nth prod.inject)
  show ?thesis
  proof (cases "?needle = []")
    case True
    then have "?T = {}" by (simp add: spelling_score_def)
    then show ?thesis unfolding \<open>?T = {}\<close> using hits_ok_empty True by (simp add: ei_resolve_def)
  next
    case False
    have "snd ` set (enumerate 0 ?sp) \<subseteq> set ?sp" by (auto simp: en)
    note ct = contain_tier [OF ok n(1) nt this]
    have e1: "{i. \<exists>s. (i, s) \<in> set (enumerate 0 ?sp) \<and> contains_score ?needle (span_text ix s) \<noteq> None} = {i. i < length ?sp \<and> ?cs i \<noteq> None}"
      unfolding en by blast
    have e2: "(?needle \<noteq> [] \<and> (\<exists>(i, s) \<in> set (enumerate 0 ?sp). span_text ix s = ?needle)) \<longleftrightarrow> ?needle \<in> set ?x"
    proof -
      have "set ?sp = snd ` set (enumerate 0 ?sp)" by (metis map_snd_enumerate set_map)
      then have "?needle \<in> set ?x \<longleftrightarrow> (\<exists>p \<in> set (enumerate 0 ?sp). span_text ix (snd p) = ?needle)" unfolding texts_span by (simp only: set_map image_image image_iff eq_commute)
      then show ?thesis using False by (simp add: split_beta)
    qed
    obtain best where best: "foldM (contain_span ix ?needle) ([], {}, False) (enumerate 0 ?sp) =
        Some (best, {i. i < length ?sp \<and> ?cs i \<noteq> None}, ?needle \<in> set ?x)"
      "hits_ok (tier_hits (contains_score ?needle) ix (set (enumerate 0 ?sp))) best"
      using ct unfolding e1 e2 by blast
    have T0: "tier_hits (contains_score ?needle) ix (set (enumerate 0 ?sp)) = {(es_target (?sp ! i), s, k) | i s k. i < length ?sp \<and> ?cs i = Some (s, k)}"
      by (auto simp: tier_hits_def en)
    show ?thesis
    proof (cases "?needle \<in> set ?x")
      case True
      have "?T = {(es_target (?sp ! i), s, k) | i s k. i < length ?sp \<and> ?cs i = Some (s, k)}"
      proof -
        have "spelling_score ?x ?needle f t = contains_score ?needle t" for t using True False by (simp add: spelling_score_def split: option.split)
        then show ?thesis unfolding ent by auto
      qed
      then show ?thesis using best True False by (simp add: ei_resolve_def T0)
    next
      case no: False
      define bs where "bs = ord (remdups (bigrams_of ?needle))"
      define C where "C = {i. i < length ?sp \<and> ?cs i \<noteq> None}"
      define shared where "shared = foldl (share_bigram ix C) [] bs"
      have bs: "set bs = set (bigrams_of ?needle)" "distinct bs" using order_okD [OF ord] by (simp_all add: bs_def)
      have "length (bigrams_of ?needle) \<le> length (chars ?needle)" by (simp add: bigrams_of_def)
      then have "length bs \<le> length (chars ?needle)"
        unfolding bs_def order_okD(3) [OF ord] by (rule le_trans [OF length_remdups_leq])
      then have lb: "length bs < 2 ^ 32" using n(1) by (simp add: text_ok_def)
      note S = share_spec [OF ok lb, of C, folded shared_def]
      have cnt: "length (filter (\<lambda>b. \<not> stopped ?x b \<and> i \<in> set (posted (ei_entries ix) b)) bs) =
          (if i < length ?sp then card (informative ?x ?needle \<inter> informative ?x (span_text ix (?sp ! i))) else 0)" for i
      proof -
        have "length (filter (\<lambda>b. \<not> stopped ?x b \<and> i \<in> set (posted (ei_entries ix) b)) bs) = card (set (filter (\<lambda>b. \<not> stopped ?x b \<and> i \<in> set (posted (ei_entries ix) b)) bs))"
          by (rule distinct_card [symmetric]) (simp add: bs(2))
        also have "set (filter (\<lambda>b. \<not> stopped ?x b \<and> i \<in> set (posted (ei_entries ix) b)) bs) =
            (if i < length ?sp then informative ?x ?needle \<inter> informative ?x (span_text ix (?sp ! i)) else {})"
          by (auto simp: bs(1) in_posted informative_def)
        finally show ?thesis by simp
      qed
      have sh: "map_of shared i = (if i < length ?sp \<and> ?cs i = None \<and> informative ?x ?needle \<inter> informative ?x (span_text ix (?sp ! i)) \<noteq> {}
          then Some (card (informative ?x ?needle \<inter> informative ?x (span_text ix (?sp ! i)))) else None)" for i
        using S [of i] informative_bound(1) [of ?x ?needle] by (auto simp: cnt C_def Let_def)
      have keys: "set (ord (map fst shared)) = {i. map_of shared i \<noteq> None}"
        using order_okD(1) [OF ord] by (auto simp: map_of_eq_None_iff image_iff)
      have "length (filter (\<lambda>b. \<not> is_stop ix b) bs) = card (informative ?x ?needle)"
      proof -
        have "length (filter (\<lambda>b. \<not> is_stop ix b) bs) = card (set (filter (\<lambda>b. \<not> is_stop ix b) bs))"
          by (rule distinct_card [symmetric]) (simp add: bs(2))
        also have "set (filter (\<lambda>b. \<not> is_stop ix b) bs) = informative ?x ?needle" using bs(1) by (auto simp: informative_def stop_iff [OF ok])
        finally show ?thesis .
      qed
      moreover have "\<forall>i \<in> set (ord (map fst shared)). i < length ?sp \<and> informative ?x ?needle \<inter> informative ?x (span_text ix (?sp ! i)) \<noteq> {} \<and>
          map_of shared i = Some (card (informative ?x ?needle \<inter> informative ?x (span_text ix (?sp ! i))))"
        unfolding keys by (auto simp: sh split: if_splits)
      note fuzzy_tier [OF ok n(1) nt this best(2) [unfolded T0], where f = f]
      moreover have "{(es_target (?sp ! i), s, k) | i s k. i < length ?sp \<and> ?cs i = Some (s, k)} \<union>
          {(es_target (?sp ! i), d, MatchFuzzy) | i d. i \<in> set (ord (map fst shared)) \<and> ?fs i = Some d} = ?T"
      proof -
        have "i \<in> set (ord (map fst shared)) \<and> ?fs i = Some d \<longleftrightarrow> i < length ?sp \<and> ?cs i = None \<and> ?fs i = Some d" for i d
          unfolding keys by (auto simp: sh fuzzy_score_def Let_def split: if_splits)
        moreover have "spelling_score ?x ?needle f t = Some (s, k) \<longleftrightarrow> contains_score ?needle t = Some (s, k) \<or>
            contains_score ?needle t = None \<and> k = MatchFuzzy \<and> fuzzy_score ?x ?needle f t = Some s" for t s k
          using no False by (auto simp: spelling_score_def split: option.split)
        ultimately show ?thesis unfolding ent by auto
      qed
      moreover have "foldM (contain_span ix ?needle) ([], {}, False) (enumerate 0 ?sp) = Some (best, C, False)"
        using best(1) no unfolding C_def by (simp only:)
      then have "ei_resolve U ord ix cue f = foldM (fuzzy_span ix f (length (filter (\<lambda>b. \<not> is_stop ix b) bs)) shared) best (ord (map fst shared))"
        using False by (simp add: ei_resolve_def Let_def bs_def shared_def)
      ultimately show ?thesis by (simp only:)
    qed
  qed
qed

section \<open>Resolution by name\<close>

text \<open>The normalised spellings of a namespace, as a list; only how often each occurs matters.\<close>

definition spelling_texts :: "unicode \<Rightarrow> (rstr \<rightharpoonup> rstr) \<Rightarrow> rstr list" where
  "spelling_texts U m = map (normalize U) (sorted_list_of_set (dom m))"

definition name_score :: "unicode \<Rightarrow> (rstr \<rightharpoonup> rstr) \<Rightarrow> rstr \<Rightarrow> f64 \<Rightarrow> rstr \<Rightarrow> (f64 \<times> match_kind) option" where
  "name_score U m cue f s = spelling_score (spelling_texts U m) (normalize U cue) f (normalize U s)"

text \<open>The answer: one entry per name with a scored spelling, its best score, best first, then by name.\<close>

definition resolved :: "unicode \<Rightarrow> (rstr \<rightharpoonup> rstr) \<Rightarrow> rstr \<Rightarrow> f64 \<Rightarrow> resolution list \<Rightarrow> bool" where
  "resolved U m cue f rs \<longleftrightarrow> sorted (map res_key rs) \<and> distinct (map rs_name rs) \<and>
     (\<forall>n. n \<in> rs_name ` set rs \<longleftrightarrow> (\<exists>s. m s = Some n \<and> name_score U m cue f s \<noteq> None)) \<and>
     (\<forall>r \<in> set rs.
        (\<exists>s k. m s = Some (rs_name r) \<and> name_score U m cue f s = Some (rs_score r, k) \<and>
           rs_kind r = (if k = MatchExact \<and> normalize U (rs_name r) \<noteq> normalize U cue then MatchAlias else k)) \<and>
        (\<forall>s x k. m s = Some (rs_name r) \<and> name_score U m cue f s = Some (x, k) \<longrightarrow> f64_le x (rs_score r)))"

lemma informative_cong:
  assumes "mset texts = mset texts'" shows "informative texts = informative texts'"
proof -
  have "carriers texts b = carriers texts' b" for b
    unfolding carriers_def using assms by (metis mset_filter size_mset)
  moreover have "length texts = length texts'" using assms mset_eq_length by blast
  ultimately show ?thesis by (simp add: informative_def stopped_def fun_eq_iff)
qed

lemma spelled_texts:
  assumes ents: "mset (ei_entries ix) = image_mset (apfst (normalize U)) (mset sp)" and sp: "distinct (map fst sp)"
    and m: "m = (\<lambda>s. map_option nm (map_of sp s))"
  shows "mset (texts_of ix) = mset (spelling_texts U m)" "dom m = fst ` set sp" "set (ei_entries ix) = apfst (normalize U) ` set sp"
    "card (dom m) = length (ei_spans ix)"
proof -
  show dom: "dom m = fst ` set sp" by (simp add: m dom_map_option_comp [unfolded comp_def] dom_map_of_conv_image_fst)
  have "mset (texts_of ix) = image_mset fst (mset (ei_entries ix))" by simp
  also have "\<dots> = image_mset (normalize U) (image_mset fst (mset sp))" unfolding ents by (simp add: multiset.map_comp comp_def)
  also have "image_mset fst (mset sp) = mset_set (dom m)" unfolding dom using mset_set_set [OF sp] by simp
  also have "mset_set (dom m) = mset (sorted_list_of_set (dom m))"
    using mset_set_set [of "sorted_list_of_set (dom m)"] dom by simp
  finally show "mset (texts_of ix) = mset (spelling_texts U m)" by (simp add: spelling_texts_def)
  show "set (ei_entries ix) = apfst (normalize U) ` set sp" using arg_cong [OF ents, of set_mset] by simp
  have "card (dom m) = length sp" unfolding dom using distinct_card [OF sp] by simp
  moreover have "length sp = length (ei_entries ix)" using arg_cong [OF ents, of size] by simp
  ultimately show "card (dom m) = length (ei_spans ix)" by (simp add: ei_entries_def)
qed

lemma spelling_score_cong:
  assumes "mset texts = mset texts'" shows "spelling_score texts = spelling_score texts'"
proof -
  have "fuzzy_score texts = fuzzy_score texts'" using informative_cong [OF assms] by (simp add: fuzzy_score_def fun_eq_iff)
  then show ?thesis using mset_eq_setD [OF assms] by (simp add: spelling_score_def fun_eq_iff split: option.split)
qed

lemma scored_spec:
  assumes ok: "ei_ok ix" and ents: "mset (ei_entries ix) = image_mset (apfst (normalize U)) (mset sp)"
    and sp: "distinct (map fst sp)" and nm: "\<forall>(s, i) \<in> set sp. name_of i = Some (nm i)" "inj_on nm (snd ` set sp)"
    and ord: "order_ok ord" and m: "m = (\<lambda>s. map_option nm (map_of sp s))"
    and ton: "\<forall>s \<in> insert cue (dom m). text_ok (normalize U s)"
  shows "\<exists>rs. scored_resolutions U ord ix name_of cue f = Some rs \<and> resolved U m cue (clamp_unit_or f f64_one) rs"
proof -
  let ?f = "clamp_unit_or f f64_one" and ?needle = "normalize U cue"
  note S = spelled_texts [OF ents sp m]
  note dom = S(2) and es = S(3)
  have ms: "m s = Some n \<longleftrightarrow> (\<exists>i. (s, i) \<in> set sp \<and> n = nm i)" for s n using sp by (auto simp: m)
  have sc: "spelling_score (texts_of ix) = spelling_score (spelling_texts U m)" by (rule spelling_score_cong [OF S(1)])
  have "\<forall>t \<in> set (texts_of ix). text_ok t" using ton es dom by auto
  from resolve_hits [OF ok ord _ this, where cue = cue and U = U and f = ?f] ton
  obtain hs where hs: "ei_resolve U ord ix cue ?f = Some hs"
    "hits_ok {(tgt, s, k). \<exists>t. (t, tgt) \<in> set (ei_entries ix) \<and> spelling_score (texts_of ix) ?needle ?f t = Some (s, k)} hs" by auto
  have T: "(\<exists>t. (t, tgt) \<in> set (ei_entries ix) \<and> spelling_score (texts_of ix) ?needle ?f t = Some (x, k)) \<longleftrightarrow>
      (\<exists>s. (s, tgt) \<in> set sp \<and> name_score U m cue ?f s = Some (x, k))" for tgt x k
    unfolding es sc name_score_def by (force simp: image_iff)
  have D: "distinct (map fst hs)"
    and H1: "(s, tgt) \<in> set sp \<Longrightarrow> name_score U m cue ?f s = Some (x, k) \<Longrightarrow> nonneg x \<and> map_of hs tgt \<noteq> None"
    and H2: "map_of hs tgt = Some (x, k) \<Longrightarrow> \<exists>s. (s, tgt) \<in> set sp \<and> name_score U m cue ?f s = Some (x, k)"
    and H3: "map_of hs tgt = Some (x, k) \<Longrightarrow> (s, tgt) \<in> set sp \<Longrightarrow> name_score U m cue ?f s = Some (x', k') \<Longrightarrow> f64_mag x' \<le> f64_mag x"
    for s tgt x k x' k'
    using hs(2) unfolding hits_ok_def mem_Collect_eq case_prod_conv T by blast+
  define vw where "vw = (\<lambda>t. case the (map_of hs t) of (x, k) \<Rightarrow> \<lparr>rs_name = nm t, rs_score = x,
      rs_kind = (if k = MatchExact \<and> normalize U (nm t) \<noteq> ?needle then MatchAlias else k)\<rparr>)"
  let ?ks = "ord (map fst hs)"
  have ks: "t \<in> set ?ks \<longleftrightarrow> map_of hs t \<noteq> None" for t using order_okD(1) [OF ord] by (auto simp: map_of_eq_None_iff)
  have tgt: "t \<in> snd ` set sp" "name_of t = Some (nm t)" if "map_of hs t = Some (x, k)" for t x k
    using H2 [OF that] nm(1) by (auto simp: image_iff) force
  have "mapM (name_hit U name_of ?needle hs) ?ks = Some (map vw ?ks)"
  proof (rule mapM_Some)
    fix t assume "t \<in> set ?ks"
    then obtain x k where "map_of hs t = Some (x, k)" using ks by auto
    then show "name_hit U name_of ?needle hs t = Some (vw t)" using tgt(2) by (simp add: name_hit_def vw_def)
  qed
  then have run: "scored_resolutions U ord ix name_of cue f = Some (sort_key res_key (map vw ?ks))"
    by (simp add: scored_resolutions_def hs(1))
  have vn: "rs_name (vw t) = nm t" for t by (simp add: vw_def split: prod.split)
  have ks_sub: "set ?ks \<subseteq> snd ` set sp" using ks tgt(1) by fastforce
  have "distinct (map rs_name (map vw ?ks))"
  proof -
    have "distinct ?ks" using order_okD(2) [OF ord] D by simp
    moreover have "inj_on nm (set ?ks)" using nm(2) ks_sub by (rule inj_on_subset)
    ultimately show ?thesis by (simp add: comp_def vn distinct_map)
  qed
  moreover have "mset (map rs_name (sort_key res_key (map vw ?ks))) = mset (map rs_name (map vw ?ks))" by (simp add: multiset.map_comp)
  ultimately have dist: "distinct (map rs_name (sort_key res_key (map vw ?ks)))" using mset_eq_imp_distinct_iff by blast
  have names: "n \<in> rs_name ` set (map vw ?ks) \<longleftrightarrow> (\<exists>s. m s = Some n \<and> name_score U m cue ?f s \<noteq> None)" for n
  proof
    assume "n \<in> rs_name ` set (map vw ?ks)"
    then obtain t where t: "t \<in> set ?ks" "n = nm t" by (auto simp: vn)
    then obtain x k where "map_of hs t = Some (x, k)" using ks by auto
    then show "\<exists>s. m s = Some n \<and> name_score U m cue ?f s \<noteq> None" using H2 ms t(2) by blast
  next
    assume "\<exists>s. m s = Some n \<and> name_score U m cue ?f s \<noteq> None"
    then obtain s i x k where "(s, i) \<in> set sp" "n = nm i" "name_score U m cue ?f s = Some (x, k)" using ms by fastforce
    then have "i \<in> set ?ks" "n = rs_name (vw i)" using H1 ks by (blast, simp add: vn)
    then show "n \<in> rs_name ` set (map vw ?ks)" by auto
  qed
  have each: "(\<exists>s k. m s = Some (rs_name r) \<and> name_score U m cue ?f s = Some (rs_score r, k) \<and>
           rs_kind r = (if k = MatchExact \<and> normalize U (rs_name r) \<noteq> ?needle then MatchAlias else k)) \<and>
        (\<forall>s x k. m s = Some (rs_name r) \<and> name_score U m cue ?f s = Some (x, k) \<longrightarrow> f64_le x (rs_score r))"
    if r: "r \<in> set (map vw ?ks)" for r
  proof -
    obtain t where t0: "t \<in> set ?ks" "r = vw t" using r by auto
    then obtain x k where t: "map_of hs t = Some (x, k)" "r = vw t" using ks by auto
    have r: "rs_name r = nm t" "rs_score r = x" "rs_kind r = (if k = MatchExact \<and> normalize U (nm t) \<noteq> ?needle then MatchAlias else k)"
      using t by (simp_all add: vw_def)
    obtain s where s: "(s, t) \<in> set sp" "name_score U m cue ?f s = Some (x, k)" using H2 [OF t(1)] by blast
    have "f64_le x' x" if h: "m s' = Some (nm t)" "name_score U m cue ?f s' = Some (x', k')" for s' x' k'
    proof -
      obtain i where i: "(s', i) \<in> set sp" "nm t = nm i" using ms h(1) by blast
      have "i = t" using nm(2) i s(1) by (metis imageI inj_onD snd_conv)
      then have "f64_mag x' \<le> f64_mag x" "nonneg x'" "nonneg x" using H3 [OF t(1) _ h(2)] H1 [OF i(1) h(2)] H1 [OF s] i(1) by blast+
      then show ?thesis by (simp add: nonneg_order(2))
    qed
    then show ?thesis unfolding r using s ms by blast
  qed
  show ?thesis
    using run dist names each unfolding resolved_def by (intro exI conjI) (assumption, simp_all)
qed

section \<open>Texts in range\<close>

text \<open>What the Unicode tables promise: \<open>char\<close>s map to \<open>char\<close>s.\<close>

definition unicode_scalars :: "unicode \<Rightarrow> bool" where
  "unicode_scalars U \<longleftrightarrow> (\<forall>ch. is_scalar ch \<longrightarrow> (\<forall>d \<in> set (to_lowercase U ch). is_scalar d)) \<and>
     (\<forall>cs. (\<forall>ch \<in> set cs. is_scalar ch) \<longrightarrow> (\<forall>d \<in> set (nfkc U cs). is_scalar d))"

lemma utf8_step_scalar: "utf8_step bs = Some (c, rest) \<Longrightarrow> is_scalar c"
  by (cases bs) (auto simp: is_scalar_def u8_in_def split: if_splits list.splits)

lemma utf8_decode_scalars: "utf8_decode bs = Some cs \<Longrightarrow> \<forall>c \<in> set cs. is_scalar c"
proof (induction bs arbitrary: cs rule: utf8_decode.induct)
  case (1 bs)
  show ?case
  proof (cases "bs = []")
    case True
    then show ?thesis using "1.prems" by (simp add: utf8_decode.simps)
  next
    case False
    then obtain c rest ds where s: "utf8_step bs = Some (c, rest)" "utf8_decode rest = Some ds" "cs = c # ds"
      using "1.prems" by (auto simp: utf8_decode.simps [of bs] split: option.splits)
    then show ?thesis using "1.IH" [OF False s(1) refl s(2)] utf8_step_scalar [OF s(1)] by simp
  qed
qed

lemma encode_length: "length cs \<le> length (utf8_encode cs)"
proof (induction cs)
  case (Cons c cs)
  have "1 \<le> length (utf8_encode1 c)" using utf8_encode1_nonempty [of c] by (simp add: Suc_le_eq)
  moreover have "length (utf8_encode (c # cs)) = length (utf8_encode1 c) + length (utf8_encode cs)" by (simp add: utf8_encode_def)
  ultimately show ?case using Cons by simp
qed simp

lemma normalize_text_ok:
  assumes U: "unicode_scalars U" and len: "length (normalize U s) < 2 ^ 32" shows "text_ok (normalize U s)"
proof -
  have low: "\<forall>d \<in> set (concat (map (to_lowercase U) cs)). is_scalar d" if h: "\<forall>c \<in> set cs. is_scalar c" for cs
  proof
    fix d assume "d \<in> set (concat (map (to_lowercase U) cs))"
    then obtain ch where "ch \<in> set cs" "d \<in> set (to_lowercase U ch)" by auto
    then show "is_scalar d" using h U unfolding unicode_scalars_def by blast
  qed
  have "\<forall>c \<in> set (chars s). is_scalar c" 
    using utf8_decode_scalars [of s] by (cases "utf8_decode s") (simp_all add: chars_def)
  from low [OF this] have "\<forall>d \<in> set (nfkc U (concat (map (to_lowercase U) (chars s)))). is_scalar d"
    by (rule U [unfolded unicode_scalars_def, THEN conjunct2, THEN spec, THEN mp])
  note low [OF this]
  moreover have "is_scalar (fold_kana c)" if "is_scalar c" for c using that by (auto simp: is_scalar_def fold_kana_def)
  moreover define cs where "cs = map fold_kana (concat (map (to_lowercase U) (nfkc U (concat (map (to_lowercase U) (chars s))))))"
  ultimately have cs: "\<forall>c \<in> set cs. is_scalar c" "normalize U s = utf8_encode cs" by (auto simp: normalize_def)
  then have "chars (normalize U s) = cs" "cs = [] \<longrightarrow> normalize U s = []" by (simp, simp add: utf8_encode_def)
  then show ?thesis using len encode_length [of cs] cs(2) by (auto simp: text_ok_def)
qed

section \<open>Properties\<close>

lemma ns_ok_map_of:
  assumes "ns_ok ar rs als ids" shows "ids = map_of (spellings ar rs als)" "distinct (map fst (spellings ar rs als))"
proof -
  show d: "distinct (map fst (spellings ar rs als))" using assms by (simp add: ns_ok_def)
  have "ids k = map_of (spellings ar rs als) k" for k
  proof (cases "ids k")
    case None
    have "(k, i) \<notin> set (spellings ar rs als)" for i using None assms by (metis ns_ok_def option.distinct(1))
    then have "map_of (spellings ar rs als) k = None" by (meson map_of_SomeD not_None_eq)
    then show ?thesis using None by simp
  next
    case (Some i)
    then have "(k, i) \<in> set (spellings ar rs als)" using assms by (simp add: ns_ok_def)
    then show ?thesis using Some d by simp
  qed
  then show "ids = map_of (spellings ar rs als)" by blast
qed

text \<open>What either namespace of a well-formed context hands to the lookups.\<close>

lemma concept_namespace:
  assumes inv: "ctx_inv U c"
  defines "sp \<equiv> spellings (arena c) (concept_ranges c) (concept_aliases c)"
  shows "ei_ok (concept_index c)" "mset (ei_entries (concept_index c)) = image_mset (apfst (normalize U)) (mset sp)" "distinct (map fst sp)"
    "\<forall>(s, i) \<in> set sp. concept_name c i = Some (cname c i) \<and> the (concept_ids c (cname c i)) = i"
    "kb_concepts (kb_of c) = (\<lambda>s. map_option (cname c) (map_of sp s))"
proof -
  note I = ctx_invD [OF inv]
  have ns: "ns_ok (arena c) (concept_ranges c) (concept_aliases c) (concept_ids c)" using I(1) by (simp add: names_inv_def)
  note N = ns_ok_map_of [OF ns, folded sp_def]
  show "ei_ok (concept_index c)" "mset (ei_entries (concept_index c)) = image_mset (apfst (normalize U)) (mset sp)"
    using I(3) by (simp_all add: index_inv_def entries_ok_def sp_def)
  show "distinct (map fst sp)" by (rule N(2))
  show "kb_concepts (kb_of c) = (\<lambda>s. map_option (cname c) (map_of sp s))" by (simp add: kb_of_def N(1))
  show "\<forall>(s, i) \<in> set sp. concept_name c i = Some (cname c i) \<and> the (concept_ids c (cname c i)) = i"
    using ids_bound(1) [OF inv] N name_reads(1) [OF I(1)] name_ids(1) [OF I(1)] by fastforce
qed

lemma label_namespace:
  assumes inv: "ctx_inv U c"
  defines "sp \<equiv> spellings (arena c) (label_ranges c) (label_aliases c)"
  shows "ei_ok (label_index c)" "mset (ei_entries (label_index c)) = image_mset (apfst (normalize U)) (mset sp)" "distinct (map fst sp)"
    "\<forall>(s, i) \<in> set sp. label_name c i = Some (lname c i) \<and> the (label_ids c (lname c i)) = i"
    "kb_labels (kb_of c) = (\<lambda>s. map_option (lname c) (map_of sp s))"
proof -
  note I = ctx_invD [OF inv]
  have ns: "ns_ok (arena c) (label_ranges c) (label_aliases c) (label_ids c)" using I(1) by (simp add: names_inv_def)
  note N = ns_ok_map_of [OF ns, folded sp_def]
  show "ei_ok (label_index c)" "mset (ei_entries (label_index c)) = image_mset (apfst (normalize U)) (mset sp)"
    using I(3) by (simp_all add: index_inv_def entries_ok_def sp_def)
  show "distinct (map fst sp)" by (rule N(2))
  show "kb_labels (kb_of c) = (\<lambda>s. map_option (lname c) (map_of sp s))" by (simp add: kb_of_def N(1))
  show "\<forall>(s, i) \<in> set sp. label_name c i = Some (lname c i) \<and> the (label_ids c (lname c i)) = i"
    using ids_bound(2) [OF inv] N name_reads(2) [OF I(1)] name_ids(2) [OF I(1)] by fastforce
qed

text \<open>
  C29. Resolving free-form wording to concept names: under the representation invariant no index or
  slice panics, and the answer is the reference one whatever order the hash tables iterate in. A
  name is listed exactly when one of its spellings is scored: a spelling equal to the cue (in
  normalised form) scores 1, one that contains the cue or is contained in it scores its character
  coverage, and, only when no spelling is the cue itself, one that shares an informative bigram
  scores the Dice overlap over informative bigrams if it reaches the floor (clamped, a NaN floor
  counting as 1). Each name has the best score of its spellings, its kind is that of a spelling that
  earned it (an exact hit on another spelling reads as an alias), best first and then by name.
\<close>
theorem resolve_with_floor_correct:
  assumes inv: "ctx_inv U c" and ord: "order_ok ord" and U: "unicode_scalars U"
    and len: "\<forall>s \<in> insert cue (dom (kb_concepts (kb_of c))). length (normalize U s) < 2 ^ 32"
  shows "\<exists>rs. resolve_with_floor U ord c cue f = Some rs \<and> resolved U (kb_concepts (kb_of c)) cue (clamp_unit_or f f64_one) rs"
proof -
  note N = concept_namespace [OF inv]
  show ?thesis unfolding resolve_with_floor_def
  proof (rule scored_spec [OF N(1-3) _ _ ord N(5)])
    show "\<forall>s \<in> insert cue (dom (kb_concepts (kb_of c))). text_ok (normalize U s)" using len normalize_text_ok [OF U] by blast
    show "inj_on (cname c) (snd ` set (spellings (arena c) (concept_ranges c) (concept_aliases c)))"
      by (rule inj_on_inverseI [where g = "\<lambda>n. the (concept_ids c n)"]) (use N(4) in auto)
  qed (use N(4) in auto)
qed

lemma demo_texts:
  "\<forall>s \<in> {bytes ''te'', bytes ''tea'', bytes ''hot'', bytes ''is''}. length (normalize unicode_id s) < 2 ^ 32"
  "unicode_scalars unicode_id" "order_ok (\<lambda>xs. rev xs)"
  "dom (kb_concepts (kb_of demo_ctx)) = {bytes ''tea'', bytes ''hot''}" "dom (kb_labels (kb_of demo_ctx)) = {bytes ''is''}"
proof -
  show "\<forall>s \<in> {bytes ''te'', bytes ''tea'', bytes ''hot'', bytes ''is''}. length (normalize unicode_id s) < 2 ^ 32"
    by (simp add: normalize_def unicode_id_def bytes_def chars_def utf8_decode_ascii utf8_encode_def utf8_encode1_def fold_kana_def)
  show "unicode_scalars unicode_id" by (simp add: unicode_scalars_def unicode_id_def)
  show "order_ok (\<lambda>xs. rev xs)" by (simp add: order_ok_def)
  show "dom (kb_concepts (kb_of demo_ctx)) = {bytes ''tea'', bytes ''hot''}" "dom (kb_labels (kb_of demo_ctx)) = {bytes ''is''}"
    unfolding demo_ctx(2) kb_default by (auto simp: kb_assert_def canon_def Let_def)
qed

theorem resolve_with_floor_correct_witness:
  "\<exists>rs. resolve_with_floor unicode_id rev demo_ctx (bytes ''te'') f64_zero = Some rs \<and>
     resolved unicode_id (kb_concepts (kb_of demo_ctx)) (bytes ''te'') (clamp_unit_or f64_zero f64_one) rs"
  by (rule resolve_with_floor_correct [OF demo_ctx(1) demo_texts(3,2)]) (use demo_texts(1,4) in simp)

text \<open>
  Resolving wording to relation labels: the same contract over the label namespace, so that the
  two namespaces never mix.
\<close>
theorem resolve_label_with_floor_correct:
  assumes inv: "ctx_inv U c" and ord: "order_ok ord" and U: "unicode_scalars U"
    and len: "\<forall>s \<in> insert cue (dom (kb_labels (kb_of c))). length (normalize U s) < 2 ^ 32"
  shows "\<exists>rs. resolve_label_with_floor U ord c cue f = Some rs \<and> resolved U (kb_labels (kb_of c)) cue (clamp_unit_or f f64_one) rs"
proof -
  note N = label_namespace [OF inv]
  show ?thesis unfolding resolve_label_with_floor_def
  proof (rule scored_spec [OF N(1-3) _ _ ord N(5)])
    show "\<forall>s \<in> insert cue (dom (kb_labels (kb_of c))). text_ok (normalize U s)" using len normalize_text_ok [OF U] by blast
    show "inj_on (lname c) (snd ` set (spellings (arena c) (label_ranges c) (label_aliases c)))"
      by (rule inj_on_inverseI [where g = "\<lambda>n. the (label_ids c n)"]) (use N(4) in auto)
  qed (use N(4) in auto)
qed


theorem resolve_label_with_floor_correct_witness:
  "\<exists>rs. resolve_label_with_floor unicode_id rev demo_ctx (bytes ''is'') f64_one = Some rs \<and>
     resolved unicode_id (kb_labels (kb_of demo_ctx)) (bytes ''is'') (clamp_unit_or f64_one f64_one) rs"
  by (rule resolve_label_with_floor_correct [OF demo_ctx(1) demo_texts(3,2)]) (use demo_texts(1,5) in simp)

end
