(* ===== verification/Twins.thy ===== *)
theory Twins
  imports Resolve
begin

text \<open>
  The twin sweep of \<^verbatim>\<open>src/context/entry_index.rs\<close> and the vocabulary audit of
  \<^verbatim>\<open>src/context/resolve.rs\<close> over it: pairs of records whose spellings overlap suspiciously. The
  reference compares every spelling with every other, with no postings.
\<close>

section \<open>The sweep\<close>

text \<open>Every poll of the deadline, in the order the code makes them; \<open>expired k\<close> is the answer of the \<open>k\<close>-th.\<close>

fun informative_pass ::
    "entry_index \<Rightarrow> (nat \<Rightarrow> bool) \<Rightarrow> nat \<Rightarrow> entry_span list \<Rightarrow> (deadline_exceeded + nat list) option" where
  "informative_pass ix expired k [] = Some (Inr [])"
| "informative_pass ix expired k (span # rest) =
     (if expired k then Some (Inl DeadlineExceeded)
      else do {
        text \<leftarrow> slice_opt (ei_arena ix) (es_start span) (es_end span);
        r \<leftarrow> informative_pass ix expired (Suc k) rest;
        Some (map_sum id (\<lambda>ns. informative_of ix text # ns) r) })"

type_synonym pair_counts = "((nat \<times> nat) \<times> nat) list"

fun pair_posting :: "(nat \<Rightarrow> bool) \<Rightarrow> nat \<Rightarrow> nat list \<Rightarrow> pair_counts \<Rightarrow> deadline_exceeded + nat \<times> pair_counts" where
  "pair_posting expired k [] shared = Inr (k, shared)"
| "pair_posting expired k (a # rest) shared =
     (if expired k then Inl DeadlineExceeded
      else pair_posting expired (Suc k) rest (foldl (\<lambda>m b. bump (a, b) m) shared rest))"

fun share_pairs :: "(nat \<Rightarrow> bool) \<Rightarrow> nat \<Rightarrow> nat \<Rightarrow> nat list list \<Rightarrow> pair_counts \<Rightarrow> deadline_exceeded + pair_counts" where
  "share_pairs expired stop k [] shared = Inr shared"
| "share_pairs expired stop k (postings # rest) shared =
     (if expired k then Inl DeadlineExceeded
      else if stop < length postings then share_pairs expired stop (Suc k) rest shared
      else case pair_posting expired (Suc k) postings shared of
          Inl e \<Rightarrow> Inl e
        | Inr (k', m) \<Rightarrow> share_pairs expired stop k' rest m)"

text \<open>\<open>f64::max\<close>.\<close>

definition f64_fmax :: "f64 \<Rightarrow> f64 \<Rightarrow> f64" where
  "f64_fmax x y = (if is_nan x then y else if is_nan y then x else if f64_key x < f64_key y then y else x)"

definition twin_pair ::
    "entry_index \<Rightarrow> nat list \<Rightarrow> f64 \<Rightarrow> ((nat \<times> nat) \<times> f64) list \<Rightarrow> (nat \<times> nat) \<times> nat \<Rightarrow> ((nat \<times> nat) \<times> f64) list option" where
  "twin_pair ix infos flr best p = (case p of ((a, b), n) \<Rightarrow> do {
     sa \<leftarrow> nth_opt (ei_spans ix) a;
     sb \<leftarrow> nth_opt (ei_spans ix) b;
     (if es_target sa = es_target sb then Some best
      else do {
        ia \<leftarrow> nth_opt infos a;
        ib \<leftarrow> nth_opt infos b;
        let denominator = ia + ib;
        Some (if denominator = 0 then best
              else let dice = dice_of n denominator in
                if f64_lt dice flr then best
                else let key = (min (es_target sa) (es_target sb), max (es_target sa) (es_target sb));
                         slot = (case map_of best key of None \<Rightarrow> f64_zero | Some d \<Rightarrow> d)
                     in AList.update key (f64_fmax slot dice) best) }) })"

definition twin_key :: "nat \<times> nat \<times> f64 \<Rightarrow> int \<times> nat \<times> nat" where
  "twin_key t = (- f64_total_key (snd (snd t)), fst t, fst (snd t))"

type_synonym pair_order = "pair_counts \<Rightarrow> pair_counts"

definition twins ::
    "hash_order \<Rightarrow> pair_order \<Rightarrow> entry_index \<Rightarrow> f64 \<Rightarrow> (nat \<Rightarrow> bool) \<Rightarrow> (deadline_exceeded + (nat \<times> nat \<times> f64) list) option" where
  "twins ord pord ix flr expired = do {
     r \<leftarrow> informative_pass ix expired 0 (ei_spans ix);
     case r of Inl e \<Rightarrow> Some (Inl e)
     | Inr infos \<Rightarrow>
         (case share_pairs expired (stop_gram ix) (length (ei_spans ix))
                 (map (\<lambda>b. the (ei_bigrams ix b)) (ord (sorted_list_of_set (dom (ei_bigrams ix))))) [] of
            Inl e \<Rightarrow> Some (Inl e)
          | Inr shared \<Rightarrow> do {
              best \<leftarrow> foldM (twin_pair ix infos flr) [] (pord shared);
              Some (Inr (sort_key twin_key (map (\<lambda>((a, b), d). (a, b, d)) best))) }) }"

definition scored_twins ::
    "hash_order \<Rightarrow> pair_order \<Rightarrow> entry_index \<Rightarrow> (nat \<Rightarrow> rstr option) \<Rightarrow> f64 \<Rightarrow> (nat \<Rightarrow> bool) \<Rightarrow>
     (deadline_exceeded + (rstr \<times> rstr \<times> f64) list) option" where
  "scored_twins ord pord ix name_of flr expired = do {
     r \<leftarrow> twins ord pord ix (clamp_unit_or flr f64_one) expired;
     case r of Inl e \<Rightarrow> Some (Inl e)
     | Inr ts \<Rightarrow> map_option Inr (mapM (\<lambda>(a, b, d). do { na \<leftarrow> name_of a; nb \<leftarrow> name_of b; Some (na, nb, d) }) ts) }"

definition similar_concepts ::
    "hash_order \<Rightarrow> pair_order \<Rightarrow> ctx \<Rightarrow> f64 \<Rightarrow> (nat \<Rightarrow> bool) \<Rightarrow> (deadline_exceeded + (rstr \<times> rstr \<times> f64) list) option" where
  "similar_concepts ord pord c = scored_twins ord pord (concept_index c) (concept_name c)"

definition similar_labels ::
    "hash_order \<Rightarrow> pair_order \<Rightarrow> ctx \<Rightarrow> f64 \<Rightarrow> (nat \<Rightarrow> bool) \<Rightarrow> (deadline_exceeded + (rstr \<times> rstr \<times> f64) list) option" where
  "similar_labels ord pord c = scored_twins ord pord (label_index c) (label_name c)"

section \<open>The reference\<close>

text \<open>The overlap of two spellings, if they share an informative bigram and it reaches the floor.\<close>

definition overlap :: "rstr list \<Rightarrow> f64 \<Rightarrow> rstr \<Rightarrow> rstr \<Rightarrow> f64 option" where
  "overlap texts flr s t =
     (let common = informative texts s \<inter> informative texts t;
          dice = dice_of (card common) (card (informative texts s) + card (informative texts t))
      in if common = {} \<or> f64_lt dice flr then None else Some dice)"

lemma overlap_sym: "overlap texts flr s t = overlap texts flr t s"
  by (simp add: overlap_def Int_commute add.commute)

section \<open>Polls\<close>

lemma informative_pass_eq:
  assumes ok: "ei_ok ix" and ss: "set ss \<subseteq> set (ei_spans ix)"
  shows "informative_pass ix expired k ss = Some (if \<exists>j < length ss. expired (k + j) then Inl DeadlineExceeded
     else Inr (map (\<lambda>s. card (informative (texts_of ix) (span_text ix s))) ss))"
  using ss
proof (induction ss arbitrary: k)
  case (Cons s ss)
  have s: "s \<in> set (ei_spans ix)" "set ss \<subseteq> set (ei_spans ix)" using Cons.prems by simp_all
  have ex: "(\<exists>j < length (s # ss). expired (k + j)) \<longleftrightarrow> expired k \<or> (\<exists>j < length ss. expired (Suc k + j))"
    by (auto simp: less_Suc_eq_0_disj)
  show ?case unfolding ex using Cons.IH [OF s(2), of "Suc k"] span_slice [OF ok s(1)]
    by (auto simp: informative_of_eq [OF ok])
qed simp

fun pair_keys :: "nat list \<Rightarrow> (nat \<times> nat) list" where
  "pair_keys [] = []"
| "pair_keys (a # rest) = map (Pair a) rest @ pair_keys rest"

definition bump_all :: "'k list \<Rightarrow> ('k \<times> nat) list \<Rightarrow> ('k \<times> nat) list" where
  "bump_all ks m = foldl (\<lambda>m k. bump k m) m ks"

lemma pair_posting_eq:
  "pair_posting expired k ps m = (if \<exists>j < length ps. expired (k + j) then Inl DeadlineExceeded
     else Inr (k + length ps, bump_all (pair_keys ps) m))"
proof (induction ps arbitrary: k m)
  case (Cons a ps)
  have ex: "(\<exists>j < length (a # ps). expired (k + j)) \<longleftrightarrow> expired k \<or> (\<exists>j < length ps. expired (Suc k + j))"
    by (auto simp: less_Suc_eq_0_disj)
  show ?case unfolding ex using Cons.IH by (simp add: bump_all_def foldl_map)
qed (simp add: bump_all_def)

definition poll_count :: "nat \<Rightarrow> nat list list \<Rightarrow> nat" where
  "poll_count stop pss = sum_list (map (\<lambda>ps. if stop < length ps then 1 else Suc (length ps)) pss)"

lemma ex_less_add: "(\<exists>j < m + n. P (k + j)) \<longleftrightarrow> (\<exists>j < m. P (k + j)) \<or> (\<exists>j < n. P (k + m + j))" for k :: nat
proof
  assume "\<exists>j < m + n. P (k + j)"
  then obtain j where j: "j < m + n" "P (k + j)" by blast
  show "(\<exists>j < m. P (k + j)) \<or> (\<exists>j < n. P (k + m + j))"
  proof (cases "j < m")
    case False
    then have "j - m < n" "k + j = k + m + (j - m)" using j(1) by simp_all
    then show ?thesis using j(2) by metis
  qed (use j in blast)
qed (auto simp: add.assoc intro: exI [of _ "m + _"] less_imp_le_nat trans_less_add1)

lemma share_pairs_eq:
  "share_pairs expired stop k pss m = (if \<exists>j < poll_count stop pss. expired (k + j) then Inl DeadlineExceeded
     else Inr (foldl (\<lambda>m ps. if stop < length ps then m else bump_all (pair_keys ps) m) m pss))"
proof (induction pss arbitrary: k m)
  case (Cons ps pss)
  show ?case
  proof (cases "stop < length ps")
    case True
    then have ex: "(\<exists>j < poll_count stop (ps # pss). expired (k + j)) \<longleftrightarrow> expired k \<or> (\<exists>j < poll_count stop pss. expired (Suc k + j))"
      using ex_less_add [of 1 "poll_count stop pss" expired k] by (simp add: poll_count_def)
    show ?thesis unfolding ex using True Cons.IH by simp
  next
    case False
    then have ex: "(\<exists>j < poll_count stop (ps # pss). expired (k + j)) \<longleftrightarrow> expired k \<or>
        (\<exists>j < length ps. expired (Suc k + j)) \<or> (\<exists>j < poll_count stop pss. expired (Suc k + length ps + j))"
      using ex_less_add [of 1 "length ps + poll_count stop pss" expired k] ex_less_add [of "length ps" "poll_count stop pss" expired "Suc k"]
      by (simp add: poll_count_def)
    show ?thesis unfolding ex using False Cons.IH by (simp add: pair_posting_eq split: sum.split)
  qed
qed (simp add: poll_count_def)

section \<open>Counts\<close>

lemma pair_keys_sorted:
  assumes "sorted_wrt (<) ps" shows "set (pair_keys ps) = {(a, b). a < b \<and> a \<in> set ps \<and> b \<in> set ps} \<and> distinct (pair_keys ps)"
  using assms
proof (induction ps)
  case (Cons a ps)
  have IH: "set (pair_keys ps) = {(a, b). a < b \<and> a \<in> set ps \<and> b \<in> set ps}" "distinct (pair_keys ps)" using Cons by simp_all
  have lt: "\<forall>b \<in> set ps. a < b" and "distinct ps" using Cons.prems by (simp, simp add: strict_sorted_iff)
  then have "distinct (map (Pair a) ps)" by (simp add: distinct_map inj_on_def)
  then show ?case using IH lt by (auto dest: order.strict_trans)
qed simp

lemma bump_all_spec:
  assumes "distinct ks" "distinct (map fst m)"
  shows "distinct (map fst (bump_all ks m)) \<and>
    map_of (bump_all ks m) k = (if k \<in> set ks then Some (u32_add (case map_of m k of None \<Rightarrow> 0 | Some n \<Rightarrow> n) 1) else map_of m k)"
  using assms
proof (induction ks arbitrary: m)
  case (Cons p ks)
  have d: "distinct (map fst (bump p m))" using Cons.prems(2) by (simp add: bump_def distinct_update)
  show ?case using Cons.IH [OF _ d] Cons.prems(1) by (auto simp: bump_all_def bump_def update_conv')
qed (simp add: bump_all_def)

definition both_post :: "entry_index \<Rightarrow> nat \<times> nat \<Rightarrow> nat \<Rightarrow> bool" where
  "both_post ix p g \<longleftrightarrow> \<not> stopped (texts_of ix) g \<and> fst p < snd p \<and>
     fst p \<in> set (posted (ei_entries ix) g) \<and> snd p \<in> set (posted (ei_entries ix) g)"

lemma share_pairs_count:
  assumes ok: "ei_ok ix" and n: "length (filter (both_post ix p) gs) < 2 ^ 32"
  shows "distinct (map fst (foldl (\<lambda>m ps. if stop_gram ix < length ps then m else bump_all (pair_keys ps) m) [] (map (posted (ei_entries ix)) gs))) \<and>
    map_of (foldl (\<lambda>m ps. if stop_gram ix < length ps then m else bump_all (pair_keys ps) m) [] (map (posted (ei_entries ix)) gs)) p =
      (let n = length (filter (both_post ix p) gs) in if n = 0 then None else Some n)"
  using n
proof (induction gs rule: rev_induct)
  case (snoc g gs)
  let ?step = "\<lambda>m ps. if stop_gram ix < length ps then m else bump_all (pair_keys ps) m" and ?ps = "posted (ei_entries ix) g"
  define m where "m = foldl ?step [] (map (posted (ei_entries ix)) gs)"
  have le: "length (filter (both_post ix p) gs) < 2 ^ 32" using snoc.prems by (simp split: if_splits)
  note IH = snoc.IH [OF le, folded m_def]
  have "sorted_wrt (<) ?ps" by (simp add: posted_def sorted_wrt_filter)
  note K = pair_keys_sorted [OF this]
  note B = bump_all_spec [OF K [THEN conjunct2] IH [THEN conjunct1], of p]
  have stop: "stop_gram ix < length ?ps \<longleftrightarrow> stopped (texts_of ix) g" using stop_iff(2) [OF ok, of g] by linarith
  have mem: "p \<in> set (pair_keys ?ps) \<longleftrightarrow> fst p < snd p \<and> fst p \<in> set ?ps \<and> snd p \<in> set ?ps" using K by (simp add: split_beta)
  show ?case
  proof (cases "stopped (texts_of ix) g")
    case True
    then show ?thesis using IH stop by (simp add: m_def [symmetric] both_post_def Let_def)
  next
    case False
    have u: "both_post ix p g \<Longrightarrow> u32_add (length (filter (both_post ix p) gs)) 1 = length (filter (both_post ix p) gs) + 1"
      using snoc.prems by (intro u32_add_Suc) simp
    have bp: "both_post ix p g \<longleftrightarrow> p \<in> set (pair_keys ?ps)" using False by (simp add: both_post_def mem)
    show ?thesis using B IH u False stop by (auto simp: m_def [symmetric] bp Let_def u32_add_def split: if_splits)
  qed
qed simp

section \<open>The best overlap per pair\<close>

definition pairs_ok :: "('k \<times> f64) set \<Rightarrow> ('k \<times> f64) list \<Rightarrow> bool" where
  "pairs_ok T best \<longleftrightarrow> distinct (map fst best) \<and> (\<forall>k d. (k, d) \<in> T \<longrightarrow> nonneg d) \<and> fst ` set best = fst ` T \<and>
     (\<forall>k d. (k, d) \<in> set best \<longrightarrow> (k, d) \<in> T \<and> (\<forall>d'. (k, d') \<in> T \<longrightarrow> f64_mag d' \<le> f64_mag d))"

lemma fmax_nonneg:
  assumes "nonneg x" "nonneg y"
  shows "f64_fmax x y = (if f64_mag x < f64_mag y then y else x)"
  using assms by (auto simp: f64_fmax_def nonneg_def f64_key_def)

lemma pairs_ok_update:
  assumes ok: "pairs_ok T best" and d: "nonneg d"
  shows "pairs_ok (insert (k, d) T) (AList.update k (f64_fmax (case map_of best k of None \<Rightarrow> f64_zero | Some x \<Rightarrow> x) d) best)"
proof -
  define slot where "slot = (case map_of best k of None \<Rightarrow> f64_zero | Some x \<Rightarrow> x)"
  note O = ok [unfolded pairs_ok_def]
  have D: "distinct (map fst best)" "fst ` set best = fst ` T" using O by - (elim conjE, assumption)+
  have T: "(k', d') \<in> T \<Longrightarrow> nonneg d'" for k' d' using O [THEN conjunct2, THEN conjunct1] by blast
  have B: "(k', d') \<in> set best \<Longrightarrow> (k', d') \<in> T" "(k', d') \<in> set best \<Longrightarrow> (k', d'') \<in> T \<Longrightarrow> f64_mag d'' \<le> f64_mag d'" for k' d' d''
    using O [THEN conjunct2, THEN conjunct2, THEN conjunct2] by blast+
  have sl: "nonneg slot" using T [OF B(1) [OF map_of_SomeD]] by (auto simp: slot_def split: option.split)
  define new where "new = f64_fmax slot d"
  have nd: "new = (if f64_mag slot < f64_mag d then d else slot)" using fmax_nonneg [OF sl d] by (simp add: new_def)
  have new: "(k, new) \<in> insert (k, d) T"
  proof (cases "map_of best k")
    case None
    then have "slot = f64_zero" by (simp add: slot_def)
    then have "new = d" using nd d nonneg_order(4) [of f64_zero d] by auto
    then show ?thesis by simp
  next
    case (Some x)
    then show ?thesis using nd B(1) [OF map_of_SomeD [OF Some]] by (auto simp: slot_def)
  qed
  have le: "f64_mag d' \<le> f64_mag new" if h: "(k, d') \<in> insert (k, d) T" for d'
  proof (cases "(k, d') \<in> T")
    case True
    then have "k \<in> fst ` set best" unfolding D(2) by force
    then obtain x where "(k, x) \<in> set best" by auto
    then have "slot = x" "f64_mag d' \<le> f64_mag x" using D(1) B(2) True by (simp_all add: slot_def)
    then show ?thesis using nd by simp
  qed (use h nd in auto)
  have s: "set (AList.update k new best) = insert (k, new) {p \<in> set best. fst p \<noteq> k}"
  proof -
    have "(k', d') \<in> set (AList.update k new best) \<longleftrightarrow> (k', d') \<in> insert (k, new) {p \<in> set best. fst p \<noteq> k}" for k' d'
      using map_of_eq_Some_iff [OF distinct_update [OF D(1)], of k new k' d'] map_of_eq_Some_iff [OF D(1), of k' d']
      by (cases "k' = k") (auto simp: update_conv')
    then show ?thesis by auto
  qed
  show ?thesis unfolding slot_def [symmetric] new_def [symmetric] pairs_ok_def s
  proof (intro conjI allI impI)
    show "distinct (map fst (AList.update k new best))" using D(1) by (rule distinct_update)
    show "nonneg d'" if "(k', d') \<in> insert (k, d) T" for k' d' using T d that by auto
    show "fst ` insert (k, new) {p \<in> set best. fst p \<noteq> k} = fst ` insert (k, d) T" using D(2) by force
    fix k' d' assume h: "(k', d') \<in> insert (k, new) {p \<in> set best. fst p \<noteq> k}"
    show "(k', d') \<in> insert (k, d) T" using h new B(1) by auto
    fix d'' assume "(k', d'') \<in> insert (k, d) T"
    then show "f64_mag d'' \<le> f64_mag d'" using h le B(2) by (cases "k' = k") auto
  qed
qed

lemma overlap_nonneg:
  assumes "text_ok s" "text_ok t" "overlap texts f s t = Some d" shows "nonneg d"
proof -
  let ?com = "informative texts s \<inter> informative texts t"
  have com: "?com \<noteq> {}" and d: "d = dice_of (card ?com) (card (informative texts s) + card (informative texts t))"
    using assms(3) by (auto simp: overlap_def Let_def split: if_splits)
  note B = informative_bound(1) [of texts s] informative_bound(2) [OF assms(1), of texts] informative_bound(2) [OF assms(2), of texts]
  have "card ?com \<le> card (informative texts s)" by (rule card_mono) (use B(1) in auto)
  moreover have "0 < card ?com" using com B(1) by (auto simp: card_gt_0_iff)
  ultimately show ?thesis unfolding d using B by (intro dice_nonneg) auto
qed

definition pair_key :: "entry_index \<Rightarrow> nat \<times> nat \<Rightarrow> nat \<times> nat" where
  "pair_key ix p = (let ta = es_target (ei_spans ix ! fst p); tb = es_target (ei_spans ix ! snd p) in (min ta tb, max ta tb))"

definition pair_overlap :: "entry_index \<Rightarrow> f64 \<Rightarrow> nat \<times> nat \<Rightarrow> f64 option" where
  "pair_overlap ix f p =
     (if es_target (ei_spans ix ! fst p) = es_target (ei_spans ix ! snd p) then None
      else overlap (texts_of ix) f (span_text ix (ei_spans ix ! fst p)) (span_text ix (ei_spans ix ! snd p)))"

definition met_pairs :: "entry_index \<Rightarrow> f64 \<Rightarrow> (nat \<times> nat) set \<Rightarrow> ((nat \<times> nat) \<times> f64) set" where
  "met_pairs ix f P = {(pair_key ix p, d) | p d. p \<in> P \<and> pair_overlap ix f p = Some d}"

lemma met_pairs_insert:
  "met_pairs ix f (insert p P) = (case pair_overlap ix f p of None \<Rightarrow> {} | Some d \<Rightarrow> {(pair_key ix p, d)}) \<union> met_pairs ix f P"
  by (cases p) (auto simp: met_pairs_def split: option.splits)

lemma twin_fold:
  assumes ok: "ei_ok ix" and nt: "\<forall>s \<in> set (ei_spans ix). text_ok (span_text ix s)"
    and ps: "\<forall>((a, b), n) \<in> set ps. a < length (ei_spans ix) \<and> b < length (ei_spans ix) \<and>
      informative (texts_of ix) (span_text ix (ei_spans ix ! a)) \<inter> informative (texts_of ix) (span_text ix (ei_spans ix ! b)) \<noteq> {} \<and>
      n = card (informative (texts_of ix) (span_text ix (ei_spans ix ! a)) \<inter> informative (texts_of ix) (span_text ix (ei_spans ix ! b)))"
    and best: "pairs_ok T best"
  shows "\<exists>best'. foldM (twin_pair ix (map (\<lambda>s. card (informative (texts_of ix) (span_text ix s))) (ei_spans ix)) f) best ps = Some best' \<and>
    pairs_ok (T \<union> met_pairs ix f (fst ` set ps)) best'"
  using ps best
proof (induction ps arbitrary: T best)
  case (Cons p ps)
  obtain a b n where p: "p = ((a, b), n)" by (metis prod.collapse)
  let ?x = "texts_of ix" and ?t = "\<lambda>i. span_text ix (ei_spans ix ! i)"
  let ?com = "informative ?x (?t a) \<inter> informative ?x (?t b)" and ?k = "pair_key ix (a, b)"
  have ab: "a < length (ei_spans ix)" "b < length (ei_spans ix)" "?com \<noteq> {}" "n = card ?com" using Cons.prems(1) p by auto
  have den: "card (informative ?x (?t a)) \<noteq> 0"
    using ab(3) informative_bound(1) [of ?x "?t a"] by (auto simp: card_eq_0_iff)
  define best1 where "best1 = (case pair_overlap ix f (a, b) of None \<Rightarrow> best
    | Some d \<Rightarrow> AList.update ?k (f64_fmax (case map_of best ?k of None \<Rightarrow> f64_zero | Some x \<Rightarrow> x) d) best)"
  define T1 where "T1 = (case pair_overlap ix f (a, b) of None \<Rightarrow> T | Some d \<Rightarrow> insert (?k, d) T)"
  have step: "twin_pair ix (map (\<lambda>s. card (informative ?x (span_text ix s))) (ei_spans ix)) f best p = Some best1"
    using ab den by (simp add: twin_pair_def p best1_def pair_overlap_def pair_key_def overlap_def Let_def)
  have "nonneg d" if "pair_overlap ix f (a, b) = Some d" for d
    by (rule overlap_nonneg [of "?t a" "?t b" ?x f]) (use that ab(1,2) nt in \<open>simp_all add: pair_overlap_def split: if_splits\<close>)
  then have T1: "pairs_ok T1 best1"
    unfolding T1_def best1_def using Cons.prems(2) pairs_ok_update by (cases "pair_overlap ix f (a, b)") auto
  have "T1 \<union> met_pairs ix f (fst ` set ps) = T \<union> met_pairs ix f (fst ` set (p # ps))"
    unfolding T1_def by (auto simp: p met_pairs_insert split: option.split)
  moreover have "\<exists>best'. foldM (twin_pair ix (map (\<lambda>s. card (informative ?x (span_text ix s))) (ei_spans ix)) f) best1 ps = Some best' \<and>
      pairs_ok (T1 \<union> met_pairs ix f (fst ` set ps)) best'"
    by (rule Cons.IH) (use Cons.prems(1) T1 in auto)
  ultimately show ?case using step by simp
qed (simp add: met_pairs_def)

section \<open>The sweep meets the reference\<close>

definition pair_order_ok :: "pair_order \<Rightarrow> bool" where
  "pair_order_ok ord \<longleftrightarrow> (\<forall>m. mset (ord m) = mset m)"

definition twin_best :: "entry_index \<Rightarrow> f64 \<Rightarrow> ((nat \<times> nat) \<times> f64) set" where
  "twin_best ix f = {((i, j), d). i < j \<and> (\<exists>s t. (s, i) \<in> set (ei_entries ix) \<and> (t, j) \<in> set (ei_entries ix) \<and> overlap (texts_of ix) f s t = Some d)}"

lemma twin_best_spans: "twin_best ix f = met_pairs ix f {(a, b). a < b \<and> b < length (ei_spans ix)}"
proof (intro set_eqI iffI)
  let ?t = "\<lambda>i. span_text ix (ei_spans ix ! i)" and ?g = "\<lambda>i. es_target (ei_spans ix ! i)"
  have ent: "(s, i) \<in> set (ei_entries ix) \<longleftrightarrow> (\<exists>a < length (ei_spans ix). s = ?t a \<and> i = ?g a)" for s i
    unfolding ei_entries_def set_map image_iff by (metis in_set_conv_nth prod.inject)
  have met: "(k, d) \<in> met_pairs ix f {(a, b). a < b \<and> b < length (ei_spans ix)} \<longleftrightarrow>
      (\<exists>a b. a < b \<and> b < length (ei_spans ix) \<and> k = (min (?g a) (?g b), max (?g a) (?g b)) \<and> ?g a \<noteq> ?g b \<and> overlap (texts_of ix) f (?t a) (?t b) = Some d)" for k d
    by (auto simp: met_pairs_def pair_key_def pair_overlap_def Let_def)
  fix x :: "(nat \<times> nat) \<times> f64"
  obtain k d where x: "x = (k, d)" by fastforce
  show "x \<in> met_pairs ix f {(a, b). a < b \<and> b < length (ei_spans ix)}" if h: "x \<in> twin_best ix f"
  proof -
    obtain a b where ab: "k = (?g a, ?g b)" "?g a < ?g b" "a < length (ei_spans ix)" "b < length (ei_spans ix)"
      "overlap (texts_of ix) f (?t a) (?t b) = Some d" using h unfolding x twin_best_def ent by blast
    then consider "a < b" | "b < a" by (metis nat_neq_iff)
    then show ?thesis
    proof cases
      case 1
      then show ?thesis unfolding x met using ab by (intro exI [of _ a] exI [of _ b]) simp
    next
      case 2
      then show ?thesis unfolding x met using ab overlap_sym [of "texts_of ix" f "?t a"] by (intro exI [of _ b] exI [of _ a]) simp
    qed
  qed
  show "x \<in> twin_best ix f" if h: "x \<in> met_pairs ix f {(a, b). a < b \<and> b < length (ei_spans ix)}"
  proof -
    obtain a b where ab: "k = (min (?g a) (?g b), max (?g a) (?g b))" "a < b" "b < length (ei_spans ix)" "?g a \<noteq> ?g b"
      "overlap (texts_of ix) f (?t a) (?t b) = Some d" using h unfolding x met by blast
    have e: "(?t a, ?g a) \<in> set (ei_entries ix)" "(?t b, ?g b) \<in> set (ei_entries ix)" using ab(2,3) by (simp_all add: ei_entries_def)
    show ?thesis
    proof (cases "?g a < ?g b")
      case True
      then have "k = (?g a, ?g b)" using ab(1) by simp
      then show ?thesis unfolding x twin_best_def using True e ab(5) by auto
    next
      case False
      then have "k = (?g b, ?g a)" "?g b < ?g a" "overlap (texts_of ix) f (?t b) (?t a) = Some d" using ab overlap_sym by (simp_all add: min_def max_def)
      then show ?thesis unfolding x twin_best_def using e by auto
    qed
  qed
qed

lemma shared_counts:
  assumes ok: "ei_ok ix" and nt: "\<forall>s \<in> set (ei_spans ix). text_ok (span_text ix s)" and ord: "order_ok ord"
  defines "gs \<equiv> ord (sorted_list_of_set (dom (ei_bigrams ix)))"
  shows "map (\<lambda>b. the (ei_bigrams ix b)) gs = map (posted (ei_entries ix)) gs \<and> length (filter (both_post ix (a, b)) gs) =
    (if a < b \<and> b < length (ei_spans ix) then card (informative (texts_of ix) (span_text ix (ei_spans ix ! a)) \<inter> informative (texts_of ix) (span_text ix (ei_spans ix ! b))) else 0)"
proof
  have "dom (ei_bigrams ix) \<subseteq> (\<Union>s \<in> set (ei_spans ix). set (bigrams_of (span_text ix s)))"
  proof
    fix g assume "g \<in> dom (ei_bigrams ix)"
    then have "posted (ei_entries ix) g \<noteq> []" using bigrams_ok [OF ok, of g] by auto
    then obtain i where "i \<in> set (posted (ei_entries ix) g)" by fastforce
    then show "g \<in> (\<Union>s \<in> set (ei_spans ix). set (bigrams_of (span_text ix s)))" unfolding in_posted using nth_mem by blast
  qed
  then have fin: "finite (dom (ei_bigrams ix))" by (rule finite_subset) simp
  have gs: "set gs = dom (ei_bigrams ix)" "distinct gs" using order_okD [OF ord] fin by (simp_all add: gs_def)
  show "map (\<lambda>b. the (ei_bigrams ix b)) gs = map (posted (ei_entries ix)) gs"
    using gs(1) bigrams_ok [OF ok] by (auto split: if_splits)
  have dom: "g \<in> dom (ei_bigrams ix)" if "i \<in> set (posted (ei_entries ix) g)" for g i using that bigrams_ok [OF ok, of g] by auto
  have "length (filter (both_post ix (a, b)) gs) = card (set (filter (both_post ix (a, b)) gs))"
    by (rule distinct_card [symmetric]) (simp add: gs(2))
  also have "set (filter (both_post ix (a, b)) gs) = {g. both_post ix (a, b) g}" using dom by (auto simp: gs(1) both_post_def)
  also have "{g. both_post ix (a, b) g} = (if a < b \<and> b < length (ei_spans ix) then
      informative (texts_of ix) (span_text ix (ei_spans ix ! a)) \<inter> informative (texts_of ix) (span_text ix (ei_spans ix ! b)) else {})"
    by (auto simp: both_post_def in_posted informative_def)
  finally show "length (filter (both_post ix (a, b)) gs) = (if a < b \<and> b < length (ei_spans ix) then
      card (informative (texts_of ix) (span_text ix (ei_spans ix ! a)) \<inter> informative (texts_of ix) (span_text ix (ei_spans ix ! b))) else 0)" by simp
qed

lemma twins_spec:
  assumes ok: "ei_ok ix" and nt: "\<forall>s \<in> set (ei_spans ix). text_ok (span_text ix s)" and ord: "order_ok ord" "pair_order_ok pord"
  shows "\<exists>N best. length (ei_spans ix) \<le> N \<and> pairs_ok (twin_best ix f) best \<and> twins ord pord ix f expired =
    Some (if \<exists>j < N. expired j then Inl DeadlineExceeded else Inr (sort_key twin_key (map (\<lambda>((a, b), d). (a, b, d)) best)))"
proof -
  let ?gs = "ord (sorted_list_of_set (dom (ei_bigrams ix)))" and ?n = "length (ei_spans ix)" and ?x = "texts_of ix"
  let ?t = "\<lambda>i. span_text ix (ei_spans ix ! i)"
  let ?com = "\<lambda>a b. informative ?x (?t a) \<inter> informative ?x (?t b)"
  define pss where "pss = map (posted (ei_entries ix)) ?gs"
  note C = shared_counts [OF ok nt ord(1)]
  define M where "M = foldl (\<lambda>m ps. if stop_gram ix < length ps then m else bump_all (pair_keys ps) m) [] pss"
  define N where "N = ?n + poll_count (stop_gram ix) pss"
  have small: "card (?com a b) < 2 ^ 32" if "a < b" "b < ?n" for a b
  proof -
    have "card (?com a b) \<le> card (informative ?x (?t a))" by (rule card_mono) (simp_all add: informative_bound(1))
    also have "\<dots> < 2 ^ 32" using that nt by (intro informative_bound(2)) simp
    finally show ?thesis .
  qed
  have M: "distinct (map fst M)" "map_of M (a, b) = (if a < b \<and> b < ?n \<and> ?com a b \<noteq> {} then Some (card (?com a b)) else None)" for a b
  proof -
    have "length (filter (both_post ix (a, b)) ?gs) < 2 ^ 32" unfolding C [THEN conjunct2] using small by auto
    note share_pairs_count [OF ok this, folded pss_def, folded M_def]
    then show "distinct (map fst M)" "map_of M (a, b) = (if a < b \<and> b < ?n \<and> ?com a b \<noteq> {} then Some (card (?com a b)) else None)"
      unfolding C [THEN conjunct2] using informative_bound(1) [of ?x "?t a"] by (auto simp: Let_def)
  qed
  have mem: "((a, b), n) \<in> set M \<longleftrightarrow> a < b \<and> b < ?n \<and> ?com a b \<noteq> {} \<and> n = card (?com a b)" for a b n
    using map_of_eq_Some_iff [OF M(1), of "(a, b)" n] by (auto simp: M(2) split: if_splits)
  have set: "set (pord M) = set M" using ord(2) unfolding pair_order_ok_def by (metis mset_eq_setD)
  have "\<forall>((a, b), n) \<in> set (pord M). a < ?n \<and> b < ?n \<and> ?com a b \<noteq> {} \<and> n = card (?com a b)" unfolding set using mem by auto
  from twin_fold [OF ok nt this, of "{}" "[]" f]
  obtain best where best: "foldM (twin_pair ix (map (\<lambda>s. card (informative ?x (span_text ix s))) (ei_spans ix)) f) [] (pord M) = Some best"
    "pairs_ok (met_pairs ix f (fst ` set (pord M))) best"
    by (auto simp: pairs_ok_def)
  have keys: "(a, b) \<in> fst ` set (pord M) \<longleftrightarrow> a < b \<and> b < ?n \<and> ?com a b \<noteq> {}" for a b
  proof
    assume "(a, b) \<in> fst ` set (pord M)"
    then obtain n where "((a, b), n) \<in> set M" unfolding set by auto
    then show "a < b \<and> b < ?n \<and> ?com a b \<noteq> {}" unfolding mem by blast
  next
    assume "a < b \<and> b < ?n \<and> ?com a b \<noteq> {}"
    then have "((a, b), card (?com a b)) \<in> set M" unfolding mem by blast
    then show "(a, b) \<in> fst ` set (pord M)" unfolding set by force
  qed
  have "pair_overlap ix f (a, b) = Some d \<Longrightarrow> ?com a b \<noteq> {}" for a b d
    by (auto simp: pair_overlap_def overlap_def Let_def split: if_splits)
  then have "met_pairs ix f (fst ` set (pord M)) = twin_best ix f"
  proof -
    assume ne: "pair_overlap ix f (a, b) = Some d \<Longrightarrow> ?com a b \<noteq> {}" for a b d
    have "p \<in> fst ` set (pord M) \<and> pair_overlap ix f p = Some d \<longleftrightarrow> p \<in> {(a, b). a < b \<and> b < ?n} \<and> pair_overlap ix f p = Some d" for p d
      using keys [of "fst p" "snd p"] ne [of "fst p" "snd p" d] by (simp add: split_beta) blast
    then show ?thesis unfolding twin_best_spans met_pairs_def by (simp only:)
  qed
  with best(2) have pb: "pairs_ok (twin_best ix f) best" by simp
  have "twins ord pord ix f expired = Some (if \<exists>j < N. expired j then Inl DeadlineExceeded
      else Inr (sort_key twin_key (map (\<lambda>((a, b), d). (a, b, d)) best)))"
    using best(1) ex_less_add [of ?n "poll_count (stop_gram ix) pss" expired 0]
    by (simp add: twins_def informative_pass_eq [OF ok] C [THEN conjunct1] share_pairs_eq pss_def [symmetric] M_def [symmetric] N_def)
  moreover have "?n \<le> N" by (simp add: N_def)
  ultimately show ?thesis using pb by blast
qed

section \<open>By name\<close>

definition name_overlap :: "unicode \<Rightarrow> (rstr \<rightharpoonup> rstr) \<Rightarrow> f64 \<Rightarrow> rstr \<Rightarrow> rstr \<Rightarrow> f64 option" where
  "name_overlap U m f s t = overlap (spelling_texts U m) f (normalize U s) (normalize U t)"

text \<open>
  The audit: one entry per pair of different names with overlapping spellings, the earlier record
  first, its greatest overlap, strongest first and then in the order of the records.
\<close>

definition twinned :: "unicode \<Rightarrow> (rstr \<Rightarrow> nat) \<Rightarrow> (rstr \<rightharpoonup> rstr) \<Rightarrow> f64 \<Rightarrow> (rstr \<times> rstr \<times> f64) list \<Rightarrow> bool" where
  "twinned U rank m f ts \<longleftrightarrow> sorted (map (\<lambda>(a, b, d). (- f64_total_key d, rank a, rank b)) ts) \<and> distinct (map (\<lambda>(a, b, d). (a, b)) ts) \<and>
     (\<forall>a b. (\<exists>d. (a, b, d) \<in> set ts) \<longleftrightarrow> rank a < rank b \<and> (\<exists>s t. m s = Some a \<and> m t = Some b \<and> name_overlap U m f s t \<noteq> None)) \<and>
     (\<forall>a b d. (a, b, d) \<in> set ts \<longrightarrow> (\<exists>s t. m s = Some a \<and> m t = Some b \<and> name_overlap U m f s t = Some d) \<and>
        (\<forall>s t x. m s = Some a \<and> m t = Some b \<and> name_overlap U m f s t = Some x \<longrightarrow> f64_le x d))"

lemma overlap_cong: "mset texts = mset texts' \<Longrightarrow> overlap texts = overlap texts'"
  using informative_cong [of texts texts'] by (simp add: overlap_def fun_eq_iff)

lemma scored_twins_spec:
  assumes ok: "ei_ok ix" and ents: "mset (ei_entries ix) = image_mset (apfst (normalize U)) (mset sp)"
    and sp: "distinct (map fst sp)" and nm: "\<forall>(s, i) \<in> set sp. name_of i = Some (nm i) \<and> rank (nm i) = i"
    and ord: "order_ok ord" "pair_order_ok pord" and m: "m = (\<lambda>s. map_option nm (map_of sp s))"
    and ton: "\<forall>s \<in> dom m. text_ok (normalize U s)"
  shows "\<exists>N ts. card (dom m) \<le> N \<and> twinned U rank m (clamp_unit_or f f64_one) ts \<and>
    scored_twins ord pord ix name_of f expired = Some (if \<exists>j < N. expired j then Inl DeadlineExceeded else Inr ts)"
proof -
  let ?f = "clamp_unit_or f f64_one"
  note S = spelled_texts [OF ents sp m]
  have ms: "m s = Some n \<longleftrightarrow> (\<exists>i. (s, i) \<in> set sp \<and> n = nm i)" for s n using sp by (auto simp: m)
  have nt: "\<forall>s \<in> set (ei_spans ix). text_ok (span_text ix s)"
  proof
    fix s assume "s \<in> set (ei_spans ix)"
    then have "span_text ix s \<in> set (texts_of ix)" by (simp add: texts_span)
    then show "text_ok (span_text ix s)" using ton S(2,3) by auto
  qed
  obtain N best where tw: "length (ei_spans ix) \<le> N" "pairs_ok (twin_best ix ?f) best" "twins ord pord ix ?f expired =
      Some (if \<exists>j < N. expired j then Inl DeadlineExceeded else Inr (sort_key twin_key (map (\<lambda>((a, b), d). (a, b, d)) best)))"
    using twins_spec [OF ok nt ord, of ?f expired] by blast
  define rs where "rs = sort_key twin_key (map (\<lambda>((a, b), d). (a, b, d)) best)"
  have rs: "(i, j, d) \<in> set rs \<longleftrightarrow> ((i, j), d) \<in> set best" for i j d by (force simp: rs_def)
  have T: "((i, j), d) \<in> twin_best ix ?f \<longleftrightarrow> i < j \<and> (\<exists>s t. (s, i) \<in> set sp \<and> (t, j) \<in> set sp \<and> name_overlap U m ?f s t = Some d)" for i j d
    unfolding twin_best_def S(3) overlap_cong [OF S(1)] name_overlap_def by (force simp: image_iff)
  note O = tw(2) [unfolded pairs_ok_def]
  have D: "distinct (map fst best)" "fst ` set best = fst ` twin_best ix ?f" using O by - (elim conjE, assumption)+
  have nn: "nonneg d" if "(k, d) \<in> twin_best ix ?f" for k d using O [THEN conjunct2, THEN conjunct1] that by blast
  have B: "(k, d) \<in> twin_best ix ?f" "(k, d') \<in> twin_best ix ?f \<Longrightarrow> f64_mag d' \<le> f64_mag d" if "(k, d) \<in> set best" for k d d'
    using O [THEN conjunct2, THEN conjunct2, THEN conjunct2] that by blast+
  have has: "(\<exists>d. (k, d) \<in> set best) \<longleftrightarrow> (\<exists>d. (k, d) \<in> twin_best ix ?f)" for k
    using D(2) by (metis (no_types, opaque_lifting) fst_conv image_iff prod.collapse)
  have named: "name_of i = Some (nm i)" "rank (nm i) = i" if "(s, i) \<in> set sp" for s i using nm that by auto
  have ids: "name_of i = Some (nm i) \<and> rank (nm i) = i \<and> name_of j = Some (nm j) \<and> rank (nm j) = j \<and> i < j" if "(i, j, d) \<in> set rs" for i j d
    using B(1) [OF that [unfolded rs]] named unfolding T by blast
  define ts where "ts = map (\<lambda>(i, j, d). (nm i, nm j, d)) rs"
  have "mapM (\<lambda>(a, b, d). do { na \<leftarrow> name_of a; nb \<leftarrow> name_of b; Some (na, nb, d) }) rs = Some ts"
    unfolding ts_def by (rule mapM_Some) (use ids in auto)
  then have run: "scored_twins ord pord ix name_of f expired = Some (if \<exists>j < N. expired j then Inl DeadlineExceeded else Inr ts)"
    by (simp add: scored_twins_def tw(3) rs_def)
  have mem: "(a, b, d) \<in> set ts \<longleftrightarrow> (\<exists>i j. a = nm i \<and> b = nm j \<and> ((i, j), d) \<in> set best)" for a b d
    by (force simp: ts_def rs [symmetric])
  have keys: "map (\<lambda>(a, b, d). (- f64_total_key d, rank a, rank b)) ts = map twin_key rs"
    unfolding ts_def by (auto simp: twin_key_def dest: ids)
  have "twinned U rank m ?f ts"
    unfolding twinned_def keys
  proof (intro conjI allI impI)
    show "sorted (map twin_key rs)" by (simp add: rs_def)
    have "distinct (map (\<lambda>(a, b, d). (rank a, rank b)) ts)"
    proof -
      have "map (\<lambda>(a, b, d). (rank a, rank b)) ts = map (\<lambda>(i, j, d). (i, j)) rs" unfolding ts_def by (auto dest: ids)
      moreover have "mset (map (\<lambda>(i, j, d). (i, j)) rs) = mset (map fst best)"
        by (simp add: rs_def multiset.map_comp comp_def split_beta)
      ultimately show ?thesis using D(1) mset_eq_imp_distinct_iff by metis
    qed
    moreover have "map (\<lambda>(a, b, d). (rank a, rank b)) ts = map (map_prod rank rank) (map (\<lambda>(a, b, d). (a, b)) ts)" by auto
    ultimately show "distinct (map (\<lambda>(a, b, d). (a, b)) ts)" by (simp only: distinct_map)
    have mr: "m s = Some a \<longleftrightarrow> (s, rank a) \<in> set sp \<and> a = nm (rank a)" for s a
      using named unfolding ms by metis
    have over: "((rank a, rank b), x) \<in> twin_best ix ?f \<longleftrightarrow> rank a < rank b \<and> (\<exists>s t. m s = Some a \<and> m t = Some b \<and> name_overlap U m ?f s t = Some x)"
      if "a = nm (rank a)" "b = nm (rank b)" for a b x using that unfolding T mr by blast
    have tsD: "((rank a, rank b), d) \<in> set best \<and> a = nm (rank a) \<and> b = nm (rank b)" if "(a, b, d) \<in> set ts" for a b d
    proof -
      obtain i j where ij: "a = nm i" "b = nm j" "((i, j), d) \<in> set best" using \<open>(a, b, d) \<in> set ts\<close> unfolding mem by blast
      then show ?thesis using ids [of i j d] by (simp add: rs)
    qed
    fix a b
    show "(\<exists>d. (a, b, d) \<in> set ts) \<longleftrightarrow> rank a < rank b \<and> (\<exists>s t. m s = Some a \<and> m t = Some b \<and> name_overlap U m ?f s t \<noteq> None)"
    proof
      assume "\<exists>d. (a, b, d) \<in> set ts"
      then obtain d where d: "((rank a, rank b), d) \<in> set best" "a = nm (rank a)" "b = nm (rank b)" using tsD by blast
      then show "rank a < rank b \<and> (\<exists>s t. m s = Some a \<and> m t = Some b \<and> name_overlap U m ?f s t \<noteq> None)"
        using over [OF d(2,3), of d] B(1) by blast
    next
      assume "rank a < rank b \<and> (\<exists>s t. m s = Some a \<and> m t = Some b \<and> name_overlap U m ?f s t \<noteq> None)"
      then obtain s t x where x: "rank a < rank b" "m s = Some a" "m t = Some b" "name_overlap U m ?f s t = Some x" by blast
      then have e: "a = nm (rank a)" "b = nm (rank b)" using mr by blast+
      then have "((rank a, rank b), x) \<in> twin_best ix ?f" using over x by blast
      then obtain d where "((rank a, rank b), d) \<in> set best" using has by blast
      then show "\<exists>d. (a, b, d) \<in> set ts" unfolding mem using e by blast
    qed
    fix d assume "(a, b, d) \<in> set ts"
    then have d: "((rank a, rank b), d) \<in> set best" and e: "a = nm (rank a)" "b = nm (rank b)" using tsD by blast+
    note od = B(1) [OF d]
    show "\<exists>s t. m s = Some a \<and> m t = Some b \<and> name_overlap U m ?f s t = Some d" using od over [OF e] by blast
    fix s t x assume "m s = Some a \<and> m t = Some b \<and> name_overlap U m ?f s t = Some x"
    then have ox: "((rank a, rank b), x) \<in> twin_best ix ?f" using over [OF e] od by blast
    show "f64_le x d" using B(2) [OF d ox] nn [OF ox] nn [OF od] by (simp add: nonneg_order(2))
  qed
  moreover have "card (dom m) \<le> N" using tw(1) S(4) by simp
  ultimately show ?thesis using run by blast
qed

section \<open>Properties\<close>

text \<open>
  C32. The vocabulary audit for concepts: no index or slice panics, the deadline is polled at least
  once per spelling and the sweep reports it exactly when a poll made fires; otherwise the answer is
  the reference one, whatever order the hash tables iterate in. A pair of different concepts is
  listed once, the earlier record first, exactly when two of their spellings share an informative
  bigram and the Dice overlap reaches the floor (clamped, a NaN floor counting as 1); it carries the
  greatest overlap of its spellings, strongest first and then in record order.
\<close>
theorem similar_concepts_correct:
  assumes inv: "ctx_inv U c" and ord: "order_ok ord" "pair_order_ok pord" and U: "unicode_scalars U"
    and len: "\<forall>s \<in> dom (kb_concepts (kb_of c)). length (normalize U s) < 2 ^ 32"
  shows "\<exists>N ts. card (dom (kb_concepts (kb_of c))) \<le> N \<and>
    twinned U (\<lambda>n. the (concept_ids c n)) (kb_concepts (kb_of c)) (clamp_unit_or f f64_one) ts \<and>
    similar_concepts ord pord c f expired = Some (if \<exists>j < N. expired j then Inl DeadlineExceeded else Inr ts)"
proof -
  note N = concept_namespace [OF inv]
  show ?thesis unfolding similar_concepts_def
    by (rule scored_twins_spec [OF N(1-4) ord N(5)]) (use len normalize_text_ok [OF U] in blast)
qed

theorem similar_concepts_correct_witness:
  "\<exists>N ts. card (dom (kb_concepts (kb_of demo_ctx))) \<le> N \<and>
    twinned unicode_id (\<lambda>n. the (concept_ids demo_ctx n)) (kb_concepts (kb_of demo_ctx)) (clamp_unit_or f64_one f64_one) ts \<and>
    similar_concepts rev rev demo_ctx f64_one (\<lambda>_. False) = Some (if \<exists>j < N. False then Inl DeadlineExceeded else Inr ts)"
  by (rule similar_concepts_correct [OF demo_ctx(1) demo_texts(3) _ demo_texts(2)])
    (use demo_texts(1,4) in \<open>simp_all add: pair_order_ok_def\<close>)

text \<open>
  The vocabulary audit for relation labels: the same contract over the label namespace.
\<close>
theorem similar_labels_correct:
  assumes inv: "ctx_inv U c" and ord: "order_ok ord" "pair_order_ok pord" and U: "unicode_scalars U"
    and len: "\<forall>s \<in> dom (kb_labels (kb_of c)). length (normalize U s) < 2 ^ 32"
  shows "\<exists>N ts. card (dom (kb_labels (kb_of c))) \<le> N \<and>
    twinned U (\<lambda>n. the (label_ids c n)) (kb_labels (kb_of c)) (clamp_unit_or f f64_one) ts \<and>
    similar_labels ord pord c f expired = Some (if \<exists>j < N. expired j then Inl DeadlineExceeded else Inr ts)"
proof -
  note N = label_namespace [OF inv]
  show ?thesis unfolding similar_labels_def
    by (rule scored_twins_spec [OF N(1-4) ord N(5)]) (use len normalize_text_ok [OF U] in blast)
qed

theorem similar_labels_correct_witness:
  "\<exists>N ts. card (dom (kb_labels (kb_of demo_ctx))) \<le> N \<and>
    twinned unicode_id (\<lambda>n. the (label_ids demo_ctx n)) (kb_labels (kb_of demo_ctx)) (clamp_unit_or f64_one f64_one) ts \<and>
    similar_labels rev rev demo_ctx f64_one (\<lambda>_. False) = Some (if \<exists>j < N. False then Inl DeadlineExceeded else Inr ts)"
  by (rule similar_labels_correct [OF demo_ctx(1) demo_texts(3) _ demo_texts(2)])
    (use demo_texts(1,5) in \<open>simp_all add: pair_order_ok_def\<close>)

end
