(* ===== verification/Numerals.thy ===== *)
theory Numerals
  imports Prelude Context_Base
begin

text \<open>
  Numbers as text, the way \<^verbatim>\<open>format!\<close> prints them and \<^verbatim>\<open>u64::from_str_radix\<close> reads them: an
  optional plus sign, at least one digit, and a checked step per digit so that a value of \<open>2^64\<close> or
  more is refused. The log writes its checksums this way, the change feed its cursors.
\<close>

definition digit_byte :: "nat \<Rightarrow> u8" where
  "digit_byte d = u8_of (if d < 10 then 48 + d else 87 + d)"

fun radix_of :: "nat \<Rightarrow> nat \<Rightarrow> rstr" where
  "radix_of r n = (if n < r \<or> r < 2 then [digit_byte n] else radix_of r (n div r) @ [digit_byte (n mod r)])"

declare radix_of.simps [simp del]

definition dec_of :: "nat \<Rightarrow> rstr" where
  "dec_of = radix_of 10"

text \<open>The format \<^verbatim>\<open>016x\<close>: lower-case hexadecimal, padded with zeros to sixteen digits.\<close>

definition hex16 :: "nat \<Rightarrow> rstr" where
  "hex16 n = (let ds = radix_of 16 n in replicate (16 - length ds) 48 @ ds)"

definition digit_val :: "nat \<Rightarrow> u8 \<Rightarrow> nat option" where
  "digit_val r b = (let v = unat b;
       d = (if 48 \<le> v \<and> v \<le> 57 then Some (v - 48) else if 97 \<le> v \<and> v \<le> 122 then Some (v - 87)
            else if 65 \<le> v \<and> v \<le> 90 then Some (v - 55) else None)
     in Option.bind d (\<lambda>x. if x < r then Some x else None))"

definition digit_step :: "nat \<Rightarrow> nat \<Rightarrow> u8 \<Rightarrow> nat option" where
  "digit_step r acc b = do { d \<leftarrow> digit_val r b; let x = acc * r + d; if x < 2 ^ 64 then Some x else None }"

definition u64_from_str_radix :: "nat \<Rightarrow> rstr \<Rightarrow> nat option" where
  "u64_from_str_radix r s =
     (let ds = (case s of c # rest \<Rightarrow> if c = 43 then rest else s | [] \<Rightarrow> s)
      in if ds = [] then None else foldM (digit_step r) 0 ds)"

section \<open>Reading what was printed\<close>

lemma digit_val_byte: "d < r \<Longrightarrow> r \<le> 16 \<Longrightarrow> digit_val r (digit_byte d) = Some d"
  by (auto simp: digit_val_def digit_byte_def Let_def)

lemma digit_byte_range: "d < 16 \<Longrightarrow> 48 \<le> unat (digit_byte d)"
  by (auto simp: digit_byte_def)

lemma radix_read:
  assumes "2 \<le> r" "r \<le> 16" "n < 2 ^ 64"
  shows "foldM (digit_step r) 0 (radix_of r n) = Some n"
  using assms
proof (induction r n rule: radix_of.induct)
  case (1 r n)
  show ?case
  proof (cases "n < r")
    case True
    then show ?thesis using 1 by (simp add: radix_of.simps [of r n] digit_step_def digit_val_byte)
  next
    case False
    have d: "n div r < 2 ^ 64" using "1.prems"(3) by (rule le_less_trans [OF div_le_dividend])
    have IH: "foldM (digit_step r) 0 (radix_of r (n div r)) = Some (n div r)"
      using "1.IH" d "1.prems" False by simp
    have "radix_of r n = radix_of r (n div r) @ [digit_byte (n mod r)]" using False "1.prems"(1) by (simp add: radix_of.simps [of r n])
    moreover have "digit_step r (n div r) (digit_byte (n mod r)) = Some n" using "1.prems" by (simp add: digit_step_def digit_val_byte)
    ultimately show ?thesis using IH by (simp add: foldM_append)
  qed
qed

lemma radix_bytes: "2 \<le> r \<Longrightarrow> r \<le> 16 \<Longrightarrow> b \<in> set (radix_of r n) \<Longrightarrow> 48 \<le> unat b"
proof (induction r n rule: radix_of.induct)
  case (1 r n)
  have m: "n mod r < 16" using 1 mod_less_divisor [of r n] by linarith
  show ?case
  proof (cases "n < r")
    case True
    then show ?thesis using 1 digit_byte_range [of n] by (simp add: radix_of.simps [of r n])
  next
    case False
    then show ?thesis using 1 digit_byte_range [OF m] by (auto simp: radix_of.simps [of r n])
  qed
qed

lemma radix_nonempty [simp]: "radix_of r n \<noteq> []"
  by (subst radix_of.simps) simp

lemma dec_bytes: "b \<in> set (dec_of n) \<Longrightarrow> 48 \<le> unat b \<and> unat b \<le> 57"
proof -
  have "b \<in> set (radix_of r n) \<Longrightarrow> r = 10 \<Longrightarrow> unat b \<le> 57" for r
  proof (induction r n rule: radix_of.induct)
    case (1 r n)
    then show ?case by (cases "n < 10") (auto simp: radix_of.simps [of 10 n] digit_byte_def)
  qed
  then show "b \<in> set (dec_of n) \<Longrightarrow> 48 \<le> unat b \<and> unat b \<le> 57" using radix_bytes [of 10 b n] by (simp add: dec_of_def)
qed

lemma zeros_read: "2 \<le> r \<Longrightarrow> foldM (digit_step r) 0 (replicate k 48 @ ds) = foldM (digit_step r) 0 ds"
  by (induction k) (simp_all add: digit_step_def digit_val_def)

lemma no_plus: "ds \<noteq> [] \<Longrightarrow> (\<forall>b \<in> set ds. 48 \<le> unat b) \<Longrightarrow> u64_from_str_radix r ds = foldM (digit_step r) 0 ds"
  by (cases ds) (auto simp: u64_from_str_radix_def)

lemma dec_roundtrip: "n < 2 ^ 64 \<Longrightarrow> u64_from_str_radix 10 (dec_of n) = Some n"
  using radix_read [of 10 n] dec_bytes [of _ n] by (subst no_plus) (auto simp: dec_of_def)

lemma hex16_bytes: "b \<in> set (hex16 n) \<Longrightarrow> 48 \<le> unat b"
  using radix_bytes [of 16 b n] by (auto simp: hex16_def Let_def split: if_splits)

lemma hex16_roundtrip: "n < 2 ^ 64 \<Longrightarrow> u64_from_str_radix 16 (hex16 n) = Some n"
  using radix_read [of 16 n] hex16_bytes [of _ n] by (subst no_plus) (auto simp: hex16_def Let_def zeros_read)

end
