(* ===== verification/Checksum.thy ===== *)
theory Checksum
  imports Prelude
begin

text \<open>
  The checksum under the integrity footers (\<^verbatim>\<open>src/crc32c.rs\<close>) and the content hash
  (\<^verbatim>\<open>src/hash.rs\<close>). The table-driven CRC is shown equal to the bitwise definition of the
  polynomial division, and both functions to tell apart any two byte strings that differ in one
  place. The locale \<open>byte_fold\<close> is what the two have in common: a fold whose step loses nothing.
\<close>

unbundle bit_operations_syntax

section \<open>CRC-32C\<close>

definition POLYNOMIAL :: "32 word" where
  "POLYNOMIAL = 0x82F63B78"

definition crc_bit :: "32 word \<Rightarrow> 32 word" where
  "crc_bit crc = (if crc AND 1 \<noteq> 0 then drop_bit 1 crc XOR POLYNOMIAL else drop_bit 1 crc)"

definition TABLE :: "32 word list" where
  "TABLE = map (\<lambda>i. (crc_bit ^^ 8) (of_nat i)) [0..<256]"

definition crc_byte :: "32 word \<Rightarrow> u8 \<Rightarrow> 32 word" where
  "crc_byte crc b = drop_bit 8 crc XOR (TABLE ! unat ((crc XOR ucast b) AND 0xFF))"

definition crc32c :: "u8 list \<Rightarrow> 32 word" where
  "crc32c bs = NOT (foldl crc_byte (NOT 0) bs)"

section \<open>FNV-1a\<close>

definition FNV1A_OFFSET :: "64 word" where
  "FNV1A_OFFSET = 0xcbf29ce484222325"

definition fnv_byte :: "64 word \<Rightarrow> u8 \<Rightarrow> 64 word" where
  "fnv_byte digest b = (digest XOR ucast b) * 0x100000001b3"

definition fnv1a_fold :: "64 word \<Rightarrow> u8 list \<Rightarrow> 64 word" where
  "fnv1a_fold digest bs = foldl fnv_byte digest bs"

definition fnv1a :: "rstr \<Rightarrow> 64 word" where
  "fnv1a text = fnv1a_fold FNV1A_OFFSET text"

definition fold_field :: "64 word \<Rightarrow> rstr \<Rightarrow> 64 word" where
  "fold_field digest field = fnv1a_fold (fnv1a_fold digest field) [0]"

section \<open>Folds that lose nothing\<close>

locale byte_fold =
  fixes step :: "'s \<Rightarrow> u8 \<Rightarrow> 's"
  assumes state_inj: "step s b = step s' b \<Longrightarrow> s = s'"
    and byte_inj: "step s b = step s b' \<Longrightarrow> b = b'"
begin

lemma fold_state_inj: "foldl step s bs = foldl step s' bs \<Longrightarrow> s = s'"
  by (induction bs arbitrary: s s') (auto dest: state_inj)

lemma one_byte: "foldl step s (xs @ b # ys) = foldl step s (xs @ b' # ys) \<longleftrightarrow> b = b'"
proof
  assume "foldl step s (xs @ b # ys) = foldl step s (xs @ b' # ys)"
  then have "step (foldl step s xs) b = step (foldl step s xs) b'"
    by (auto dest: fold_state_inj)
  then show "b = b'" by (rule byte_inj)
qed simp

end

lemma ucast_byte_inj:
  assumes "ucast b = (ucast b' :: 'a :: len word)" "8 \<le> LENGTH('a)"
  shows "b = (b' :: u8)"
proof (rule bit_word_eqI)
  fix n assume "n < LENGTH(8)"
  then show "bit b n \<longleftrightarrow> bit b' n" using arg_cong [OF assms(1), of "\<lambda>w. bit w n"] assms(2) by (simp add: bit_simps)
qed

section \<open>The CRC step\<close>

text \<open>The reference: one byte is eight division steps on the register with the byte added in.\<close>

definition crc_ref :: "32 word \<Rightarrow> u8 \<Rightarrow> 32 word" where
  "crc_ref crc b = (crc_bit ^^ 8) (crc XOR ucast b)"

lemma and_one_bit: "(w :: 'a :: len word) AND 1 \<noteq> 0 \<longleftrightarrow> bit w 0"
  by (auto simp: and_one_eq odd_iff_mod_2_eq_one bit_0 even_iff_mod_2_eq_zero)

lemma crc_bit_eq: "crc_bit x = drop_bit 1 x XOR (if bit x 0 then POLYNOMIAL else 0)"
  by (simp add: crc_bit_def and_one_bit)

lemma crc_bit_xor: "crc_bit (x XOR y) = crc_bit x XOR crc_bit y"
  by (rule bit_word_eqI) (auto simp: crc_bit_eq bit_simps)

lemma crc_bits_xor: "(crc_bit ^^ n) (x XOR y) = (crc_bit ^^ n) x XOR (crc_bit ^^ n) y"
  by (induction n) (simp_all add: crc_bit_xor)

lemma crc_bits_high:
  assumes "\<forall>i < n. \<not> bit x i" shows "(crc_bit ^^ n) x = drop_bit n x"
  using assms
proof (induction n)
  case (Suc n)
  then have "(crc_bit ^^ Suc n) x = crc_bit (drop_bit n x)" by simp
  also have "\<dots> = drop_bit (Suc n) x" using Suc.prems by (simp add: crc_bit_eq bit_simps)
  finally show ?case .
qed simp

lemma table_index: "unat ((w :: 32 word) AND 0xFF) < 256"
proof -
  have "w AND 0xFF = take_bit 8 w" by (simp add: take_bit_eq_mask mask_eq_exp_minus_1)
  then have "unat (w AND 0xFF) = take_bit 8 (unat w)" by (simp add: unsigned_take_bit_eq)
  then show ?thesis using take_bit_nat_less_exp [of 8 "unat w"] by simp
qed

lemma crc_byte_ref: "crc_byte crc b = crc_ref crc b"
proof -
  let ?x = "crc XOR ucast b"
  let ?hi = "?x AND NOT 0xFF" and ?lo = "?x AND 0xFF"
  have m: "(0xFF :: 32 word) = mask 8" by (simp add: mask_eq_exp_minus_1)
  have "?x = ?hi XOR ?lo" by (rule bit_word_eqI) (auto simp: bit_simps)
  then have "crc_ref crc b = (crc_bit ^^ 8) ?hi XOR (crc_bit ^^ 8) ?lo"
    unfolding crc_ref_def by (metis crc_bits_xor)
  also have "(crc_bit ^^ 8) ?hi = drop_bit 8 ?hi"
    by (rule crc_bits_high) (simp add: m bit_simps)
  also have "drop_bit 8 ?hi = drop_bit 8 crc"
    by (rule bit_word_eqI) (auto simp: m bit_simps dest: bit_imp_le_length)
  also have "(crc_bit ^^ 8) ?lo = TABLE ! unat ?lo"
    using table_index [of ?x] by (simp add: TABLE_def)
  finally show ?thesis by (simp add: crc_byte_def)
qed

lemma xor_cancel: "(x :: 'a :: len word) XOR z = y XOR z \<longleftrightarrow> x = y"
  by (metis xor.assoc xor.right_neutral xor_self_eq)

lemma crc_bit_inj: "crc_bit x = crc_bit y \<Longrightarrow> x = y"
proof -
  assume eq: "crc_bit x = crc_bit y"
  have top: "bit (crc_bit z) 31 = bit z 0" for z
    by (simp add: crc_bit_eq bit_simps POLYNOMIAL_def bit_numeral_rec) (simp add: bit_word.rep_eq)?
  have low: "bit x 0 = bit y 0" using top [of x] top [of y] eq by simp
  then have "drop_bit 1 x = drop_bit 1 y"
    using eq by (cases "bit x 0") (simp_all add: crc_bit_eq xor_cancel)
  then have "bit x (Suc n) = bit y (Suc n)" for n
    by (metis bit_drop_bit_eq comp_apply plus_1_eq_Suc)
  with low show "x = y" by (intro bit_word_eqI) (metis not0_implies_Suc)
qed

lemma crc_bits_inj: "(crc_bit ^^ n) x = (crc_bit ^^ n) y \<Longrightarrow> x = y"
  by (induction n) (auto dest: crc_bit_inj)

interpretation crc: byte_fold crc_byte
proof
  show "crc_byte s b = crc_byte s' b \<Longrightarrow> s = s'" for s b s'
    unfolding crc_byte_ref crc_ref_def by (drule crc_bits_inj) (simp add: xor_cancel)
  show "b = b'" if "crc_byte s b = crc_byte s b'" for s b b'
  proof -
    have "ucast b = (ucast b' :: 32 word)"
      using that unfolding crc_byte_ref crc_ref_def by (auto dest: crc_bits_inj simp: xor.commute [of s] xor_cancel)
    then show ?thesis by (rule ucast_byte_inj) simp
  qed
qed

section \<open>The hash step\<close>

interpretation fnv: byte_fold fnv_byte
proof
  have cancel: "x = y" if "x * 0x100000001b3 = (y :: 64 word) * 0x100000001b3" for x y
  proof -
    have "x * (0x100000001b3 * 0xce965057aff6957b) = y * (0x100000001b3 * 0xce965057aff6957b)"
      using arg_cong [OF that, of "\<lambda>z. z * 0xce965057aff6957b"] by (simp only: mult.assoc)
    moreover have "(0x100000001b3 * 0xce965057aff6957b :: 64 word) = 1" by code_simp
    ultimately show ?thesis by (simp only: mult_1_right)
  qed
  show "fnv_byte s b = fnv_byte s' b \<Longrightarrow> s = s'" for s b s'
    unfolding fnv_byte_def by (drule cancel) (simp add: xor_cancel)
  show "b = b'" if "fnv_byte s b = fnv_byte s b'" for s b b'
  proof -
    have "ucast b = (ucast b' :: 64 word)"
      using that unfolding fnv_byte_def by (auto dest: cancel simp: xor.commute [of s] xor_cancel)
    then show ?thesis by (rule ucast_byte_inj) simp
  qed
qed

section \<open>Properties\<close>

text \<open>
  C25. The table-driven checksum is the bitwise one: feeding a byte through the 256-entry table is
  eight steps of the reflected Castagnoli division, for every byte string.
\<close>
theorem crc32c_reference: "crc32c bs = NOT (foldl (\<lambda>crc b. (crc_bit ^^ 8) (crc XOR ucast b)) (NOT 0) bs)"
  by (simp add: crc32c_def crc_byte_ref [abs_def] crc_ref_def [abs_def])

text \<open>
  Neither the checksum nor the content hash misses a change of one byte: two byte strings that
  differ in exactly one place have the same value only if they do not differ.
\<close>
theorem one_byte_detected:
  "(crc32c (xs @ b # ys) = crc32c (xs @ b' # ys) \<longleftrightarrow> b = b') \<and>
   (fnv1a_fold d (xs @ b # ys) = fnv1a_fold d (xs @ b' # ys) \<longleftrightarrow> b = b')"
  unfolding crc32c_def fnv1a_fold_def by (simp_all only: bit.compl_eq_compl_iff crc.one_byte fnv.one_byte)

end
