(* ===== verification/Codec.thy ===== *)
theory Codec
  imports Storage Checksum
begin

text \<open>
  Reading and writing the tables of an image (\<^verbatim>\<open>src/context/image.rs\<close>): the bounds-checked reader,
  little-endian fields, and one fixed-width codec per record. The locale \<open>record_codec\<close> is the
  \<^verbatim>\<open>Record\<close> trait with the law a table round trip rests on; every record type interprets it.
\<close>

section \<open>Results\<close>

text \<open>The question mark: pass an error on, or continue with the value.\<close>

definition and_then :: "'e + 'a \<Rightarrow> ('a \<Rightarrow> 'e + 'b) \<Rightarrow> 'e + 'b" where
  "and_then r f = (case r of Inl e \<Rightarrow> Inl e | Inr x \<Rightarrow> f x)"

lemma and_then_simps [simp]: "and_then (Inl e) f = Inl e" "and_then (Inr x) f = f x"
  by (simp_all add: and_then_def)

lemma and_then_eq_Inr: "and_then r f = Inr y \<longleftrightarrow> (\<exists>x. r = Inr x \<and> f x = Inr y)"
  by (cases r) auto

section \<open>The reader\<close>

record reader =
  rd_bytes :: "u8 list"
  rd_pos :: nat

definition take_bytes :: "nat \<Rightarrow> reader \<Rightarrow> corrupt_image + (u8 list \<times> reader)" where
  "take_bytes len r =
     (if 2 ^ 64 \<le> rd_pos r + len then Inl (CorruptImage ''section length overflows'')
      else if length (rd_bytes r) < rd_pos r + len then Inl (CorruptImage ''image ends mid-section'')
      else Inr (take len (drop (rd_pos r) (rd_bytes r)), r\<lparr>rd_pos := rd_pos r + len\<rparr>))"

definition le_bytes :: "nat \<Rightarrow> nat \<Rightarrow> u8 list" where
  "le_bytes n x = map (\<lambda>i. u8_of (x div 256 ^ i)) [0..<n]"

fun of_le :: "u8 list \<Rightarrow> nat" where
  "of_le [] = 0"
| "of_le (b # bs) = unat b + 256 * of_le bs"

definition read_nat :: "nat \<Rightarrow> reader \<Rightarrow> corrupt_image + (nat \<times> reader)" where
  "read_nat n r = and_then (take_bytes n r) (\<lambda>(bs, r). Inr (of_le bs, r))"

abbreviation read_u32 :: "reader \<Rightarrow> corrupt_image + (nat \<times> reader)" where "read_u32 \<equiv> read_nat 4"
abbreviation read_u64 :: "reader \<Rightarrow> corrupt_image + (nat \<times> reader)" where "read_u64 \<equiv> read_nat 8"

definition read_f64 :: "reader \<Rightarrow> corrupt_image + (f64 \<times> reader)" where
  "read_f64 r = and_then (take_bytes 8 r) (\<lambda>(bs, r). Inr (of_nat (of_le bs), r))"

definition rd_remaining :: "reader \<Rightarrow> nat" where
  "rd_remaining r = length (rd_bytes r) - rd_pos r"

definition le_f64 :: "f64 \<Rightarrow> u8 list" where
  "le_f64 x = le_bytes 8 (unat x)"

section \<open>Little-endian fields\<close>

lemma length_le_bytes [simp]: "length (le_bytes n x) = n" and length_le_f64 [simp]: "length (le_f64 w) = 8"
  by (simp_all add: le_bytes_def le_f64_def)

lemma le_bytes_Suc: "le_bytes (Suc n) x = u8_of x # le_bytes n (x div 256)"
proof -
  have "x div 256 ^ Suc i = x div 256 div 256 ^ i" for i by (simp add: div_mult2_eq)
  then show ?thesis by (simp add: le_bytes_def upt_rec [of 0] map_Suc_upt [symmetric] comp_def del: upt_Suc power_Suc)
qed

lemma of_le_bytes: "of_le (le_bytes n x) = x mod 256 ^ n"
proof (induction n arbitrary: x)
  case (Suc n)
  show ?case by (simp add: le_bytes_Suc Suc mod_mult2_eq)
qed (simp add: le_bytes_def)

lemma of_le_bound: "of_le bs < 256 ^ length bs"
proof (induction bs)
  case (Cons b bs)
  have "unat b < 2 ^ LENGTH(8)" by (rule unsigned_less)
  then have "unat b < 256" by simp
  with Cons show ?case by simp
qed simp

text \<open>A reader placed before some bytes.\<close>

definition at :: "reader \<Rightarrow> u8 list \<Rightarrow> u8 list \<Rightarrow> bool" where
  "at r bs rest \<longleftrightarrow> drop (rd_pos r) (rd_bytes r) = bs @ rest \<and> rd_pos r \<le> length (rd_bytes r) \<and> length (rd_bytes r) < 2 ^ 64"

definition skip :: "nat \<Rightarrow> reader \<Rightarrow> reader" where
  "skip n r = r\<lparr>rd_pos := rd_pos r + n\<rparr>"

lemma at_skip: "at r (x @ y) rest \<Longrightarrow> at (skip (length x) r) y rest"
proof -
  assume a: "at r (x @ y) rest"
  have "drop (rd_pos r + length x) (rd_bytes r) = drop (length x) (drop (rd_pos r) (rd_bytes r))"
    by (simp add: add.commute)
  also have "\<dots> = y @ rest" using a by (simp add: at_def)
  finally have "drop (rd_pos r + length x) (rd_bytes r) = y @ rest" .
  moreover have "length (drop (rd_pos r) (rd_bytes r)) = length ((x @ y) @ rest)"
    using a by (simp only: at_def)
  then have "rd_pos r + length x \<le> length (rd_bytes r)" using a by (auto simp: at_def)
  ultimately show ?thesis using a by (simp add: at_def skip_def)
qed

lemma at_append: "at r (x @ y) rest \<Longrightarrow> at r x (y @ rest)"
  by (simp add: at_def)

lemma skip_skip: "skip n (skip m r) = skip (m + n) r" and skip_0: "skip 0 r = r"
  by (simp_all add: skip_def)

lemma take_at:
  assumes "at r bs rest" shows "take_bytes (length bs) r = Inr (bs, skip (length bs) r)"
proof -
  have "length (rd_bytes r) - rd_pos r = length bs + length rest" using assms by (metis at_def length_append length_drop)
  then show ?thesis using assms by (auto simp: take_bytes_def at_def skip_def)
qed

lemma read_nat_at: "at r (le_bytes n x) rest \<Longrightarrow> x < 256 ^ n \<Longrightarrow> read_nat n r = Inr (x, skip n r)"
  using take_at [of r "le_bytes n x" rest] by (simp add: read_nat_def of_le_bytes)

lemma read_f64_at: "at r (le_f64 w) rest \<Longrightarrow> read_f64 r = Inr (w, skip 8 r)"
proof -
  have "unat w < 2 ^ LENGTH(64)" by (rule unsigned_less)
  then have "unat w < 256 ^ 8" by simp
  then show "at r (le_f64 w) rest \<Longrightarrow> ?thesis"
    using take_at [of r "le_f64 w" rest] by (simp add: read_f64_def le_f64_def of_le_bytes)
qed

section \<open>Tables\<close>

definition store_table :: "('r \<Rightarrow> u8 list) \<Rightarrow> 'r list \<Rightarrow> u8 list" where
  "store_table store records = le_bytes 8 (length records) @ concat (map store records)"

fun load_records :: "(reader \<Rightarrow> corrupt_image + ('r \<times> reader)) \<Rightarrow> nat \<Rightarrow> reader \<Rightarrow> corrupt_image + ('r list \<times> reader)" where
  "load_records load 0 r = Inr ([], r)"
| "load_records load (Suc n) r =
     and_then (load r) (\<lambda>(x, r). and_then (load_records load n r) (\<lambda>(xs, r). Inr (x # xs, r)))"

definition load_table ::
    "(reader \<Rightarrow> corrupt_image + ('r \<times> reader)) \<Rightarrow> nat \<Rightarrow> reader \<Rightarrow> corrupt_image + ('r list \<times> reader)" where
  "load_table load width r =
     and_then (read_u64 r) (\<lambda>(n, r).
       if NIL < n then Inl (CorruptImage ''table exceeds the u32 id space'')
       else if 2 ^ 64 \<le> n * width then Inl (CorruptImage ''table byte size overflows'')
       else if rd_remaining r < n * width then Inl (CorruptImage ''table is truncated'')
       else load_records load n r)"

locale record_codec =
  fixes store :: "'r \<Rightarrow> u8 list"
    and load :: "reader \<Rightarrow> corrupt_image + ('r \<times> reader)"
    and width :: nat
    and fits :: "'r \<Rightarrow> bool"
  assumes length_store: "length (store x) = width"
    and small: "width \<le> 48"
    and load_store: "at r (store x) rest \<Longrightarrow> fits x \<Longrightarrow> load r = Inr (x, skip width r)"
    and load_fits: "load r = Inr (x, r') \<Longrightarrow> fits x"
begin

lemma length_store_table: "length (store_table store xs) = 8 + length xs * width"
  by (induction xs) (simp_all add: store_table_def length_store)

lemma load_records_store:
  "at r (concat (map store xs)) rest \<Longrightarrow> \<forall>x \<in> set xs. fits x \<Longrightarrow>
   load_records load (length xs) r = Inr (xs, skip (length xs * width) r)"
proof (induction xs arbitrary: r)
  case (Cons x xs)
  have a: "at r (store x @ concat (map store xs)) rest" using Cons.prems(1) by simp
  have "load r = Inr (x, skip width r)" using load_store [OF at_append [OF a]] Cons.prems(2) by simp
  moreover have "at (skip width r) (concat (map store xs)) rest" using at_skip [OF a] by (simp add: length_store)
  ultimately show ?case using Cons.IH Cons.prems(2) by (simp add: skip_skip)
qed (simp add: skip_0)

lemma load_table_store:
  assumes a: "at r (store_table store xs) rest" and f: "\<forall>x \<in> set xs. fits x" and n: "length xs \<le> NIL"
  shows "load_table load width r = Inr (xs, skip (length (store_table store xs)) r)"
proof -
  have n8: "length xs < 256 ^ 8" using n by (simp add: NIL_eq)
  have "length xs * width \<le> NIL * 48" using n small by (rule mult_le_mono)
  then have m: "length xs * width < 2 ^ 64" by (simp add: NIL_eq)
  note b = a [unfolded store_table_def]
  have r1: "read_u64 r = Inr (length xs, skip 8 r)" by (rule read_nat_at [OF at_append [OF b] n8])
  have c: "at (skip 8 r) (concat (map store xs)) rest" using at_skip [OF b] by simp
  have "length (concat (map store xs)) = length xs * width" using length_store_table [of xs] by (simp add: store_table_def)
  moreover have "length (drop (rd_pos (skip 8 r)) (rd_bytes (skip 8 r))) = length (concat (map store xs) @ rest)"
    using c by (simp only: at_def)
  ultimately have "length xs * width \<le> rd_remaining (skip 8 r)" by (simp add: rd_remaining_def)
  then show ?thesis
    using r1 m n load_records_store [OF c f] by (simp add: load_table_def length_store_table skip_skip)
qed

lemma load_table_next:
  assumes "at r (store_table store xs @ y) rest" "\<forall>x \<in> set xs. fits x" "length xs \<le> NIL"
  shows "\<exists>r'. load_table load width r = Inr (xs, r') \<and> at r' y rest"
  using load_table_store [OF at_append [OF assms(1)] assms(2,3)] at_skip [OF assms(1)] by blast

lemma load_records_fits: "load_records load n r = Inr (xs, r') \<Longrightarrow> length xs = n \<and> (\<forall>x \<in> set xs. fits x)"
proof (induction n arbitrary: r xs)
  case (Suc n)
  then show ?case by (fastforce simp: and_then_eq_Inr dest: load_fits)
qed simp

lemma load_table_fits: "load_table load width r = Inr (xs, r') \<Longrightarrow> length xs \<le> NIL \<and> (\<forall>x \<in> set xs. fits x)"
  by (auto simp: load_table_def and_then_eq_Inr split: if_splits dest!: load_records_fits)

end

section \<open>Records\<close>

definition store_u32s :: "nat list \<Rightarrow> u8 list" where
  "store_u32s xs = concat (map (le_bytes 4) xs)"

fun read_u32s :: "nat \<Rightarrow> reader \<Rightarrow> corrupt_image + (nat list \<times> reader)" where
  "read_u32s 0 r = Inr ([], r)"
| "read_u32s (Suc n) r = and_then (read_u32 r) (\<lambda>(x, r). and_then (read_u32s n r) (\<lambda>(xs, r). Inr (x # xs, r)))"

definition concept_fields :: "concept_record \<Rightarrow> nat list" where
  "concept_fields r = [cr_name_offset r, cr_name_len r, cr_first_outgoing r, cr_last_outgoing r, cr_outgoing_count r,
     cr_first_incoming r, cr_last_incoming r, cr_incoming_count r]"

definition store_concept :: "concept_record \<Rightarrow> u8 list" where
  "store_concept r = store_u32s (concept_fields r)"

definition load_concept :: "reader \<Rightarrow> corrupt_image + (concept_record \<times> reader)" where
  "load_concept r = and_then (read_u32s 8 r) (\<lambda>(f, r). Inr
     (\<lparr>cr_name_offset = f ! 0, cr_name_len = f ! 1, cr_first_outgoing = f ! 2, cr_last_outgoing = f ! 3,
       cr_outgoing_count = f ! 4, cr_first_incoming = f ! 5, cr_last_incoming = f ! 6, cr_incoming_count = f ! 7\<rparr>, r))"

definition label_fields :: "label_record \<Rightarrow> nat list" where
  "label_fields r = [lr_name_offset r, lr_name_len r, lr_first_edge r, lr_last_edge r, lr_edge_count r]"

definition store_label :: "label_record \<Rightarrow> u8 list" where
  "store_label r = store_u32s (label_fields r)"

definition load_label :: "reader \<Rightarrow> corrupt_image + (label_record \<times> reader)" where
  "load_label r = and_then (read_u32s 5 r) (\<lambda>(f, r). Inr
     (\<lparr>lr_name_offset = f ! 0, lr_name_len = f ! 1, lr_first_edge = f ! 2, lr_last_edge = f ! 3, lr_edge_count = f ! 4\<rparr>, r))"

definition source_fields :: "source_record \<Rightarrow> nat list" where
  "source_fields r = [sr_name_offset r, sr_name_len r]"

definition store_source :: "source_record \<Rightarrow> u8 list" where
  "store_source r = store_u32s (source_fields r)"

definition load_source :: "reader \<Rightarrow> corrupt_image + (source_record \<times> reader)" where
  "load_source r = and_then (read_u32s 2 r) (\<lambda>(f, r). Inr (\<lparr>sr_name_offset = f ! 0, sr_name_len = f ! 1\<rparr>, r))"

definition alias_fields :: "alias_record \<Rightarrow> nat list" where
  "alias_fields r = [al_name_offset r, al_name_len r, al_target r]"

definition store_alias :: "alias_record \<Rightarrow> u8 list" where
  "store_alias r = store_u32s (alias_fields r)"

definition load_alias :: "reader \<Rightarrow> corrupt_image + (alias_record \<times> reader)" where
  "load_alias r = and_then (read_u32s 3 r) (\<lambda>(f, r). Inr
     (\<lparr>al_name_offset = f ! 0, al_name_len = f ! 1, al_target = f ! 2\<rparr>, r))"

definition locator_fields :: "locator_record \<Rightarrow> nat list" where
  "locator_fields r = [lo_attribution r, lo_paragraph r]"

definition store_locator :: "locator_record \<Rightarrow> u8 list" where
  "store_locator r = store_u32s (locator_fields r)"

definition load_locator :: "reader \<Rightarrow> corrupt_image + (locator_record \<times> reader)" where
  "load_locator r = and_then (read_u32s 2 r) (\<lambda>(f, r). Inr (\<lparr>lo_attribution = f ! 0, lo_paragraph = f ! 1\<rparr>, r))"

definition edge_fields :: "edge_record \<Rightarrow> nat list" where
  "edge_fields r = [ed_subject r, ed_label r, ed_object r, ed_next_outgoing r, ed_next_incoming r, ed_next_labeled r,
     ed_first_attribution r, ed_last_attribution r]"

definition store_edge :: "edge_record \<Rightarrow> u8 list" where
  "store_edge r = store_u32s (edge_fields r) @ le_bytes 8 (ed_count r) @ le_f64 (ed_sum r)"

definition load_edge :: "reader \<Rightarrow> corrupt_image + (edge_record \<times> reader)" where
  "load_edge r = and_then (read_u32s 8 r) (\<lambda>(f, r). and_then (read_u64 r) (\<lambda>(n, r). and_then (read_f64 r) (\<lambda>(w, r). Inr
     (\<lparr>ed_subject = f ! 0, ed_label = f ! 1, ed_object = f ! 2, ed_next_outgoing = f ! 3, ed_next_incoming = f ! 4,
       ed_next_labeled = f ! 5, ed_first_attribution = f ! 6, ed_last_attribution = f ! 7, ed_count = n, ed_sum = w\<rparr>, r))))"

definition store_attribution :: "attribution_record \<Rightarrow> u8 list" where
  "store_attribution r = store_u32s [at_source r, at_next r] @ le_bytes 8 (at_count r) @ le_f64 (at_sum r)"

definition load_attribution :: "reader \<Rightarrow> corrupt_image + (attribution_record \<times> reader)" where
  "load_attribution r = and_then (read_u32s 2 r) (\<lambda>(f, r). and_then (read_u64 r) (\<lambda>(n, r). and_then (read_f64 r) (\<lambda>(w, r). Inr
     (\<lparr>at_source = f ! 0, at_next = f ! 1, at_count = n, at_sum = w\<rparr>, r))))"

text \<open>The record shapes before format version 5, where the weight is the cumulative sum.\<close>

record legacy_edge =
  le_subject :: nat
  le_label :: nat
  le_object :: nat
  le_next_outgoing :: nat
  le_next_incoming :: nat
  le_next_labeled :: nat
  le_first_attribution :: nat
  le_last_attribution :: nat
  le_weight :: f64

record legacy_attribution =
  la_source :: nat
  la_next :: nat
  la_weight :: f64

definition legacy_edge_fields :: "legacy_edge \<Rightarrow> nat list" where
  "legacy_edge_fields r = [le_subject r, le_label r, le_object r, le_next_outgoing r, le_next_incoming r,
     le_next_labeled r, le_first_attribution r, le_last_attribution r]"

definition store_legacy_edge :: "legacy_edge \<Rightarrow> u8 list" where
  "store_legacy_edge r = store_u32s (legacy_edge_fields r) @ le_f64 (le_weight r)"

definition load_legacy_edge :: "reader \<Rightarrow> corrupt_image + (legacy_edge \<times> reader)" where
  "load_legacy_edge r = and_then (read_u32s 8 r) (\<lambda>(f, r). and_then (read_f64 r) (\<lambda>(w, r). Inr
     (\<lparr>le_subject = f ! 0, le_label = f ! 1, le_object = f ! 2, le_next_outgoing = f ! 3, le_next_incoming = f ! 4,
       le_next_labeled = f ! 5, le_first_attribution = f ! 6, le_last_attribution = f ! 7, le_weight = w\<rparr>, r)))"

definition store_legacy_attribution :: "legacy_attribution \<Rightarrow> u8 list" where
  "store_legacy_attribution r = store_u32s [la_source r, la_next r] @ le_f64 (la_weight r)"

definition load_legacy_attribution :: "reader \<Rightarrow> corrupt_image + (legacy_attribution \<times> reader)" where
  "load_legacy_attribution r = and_then (read_u32s 2 r) (\<lambda>(f, r). and_then (read_f64 r) (\<lambda>(w, r).
     Inr (\<lparr>la_source = f ! 0, la_next = f ! 1, la_weight = w\<rparr>, r)))"

section \<open>The codecs\<close>

lemma length_store_u32s [simp]: "length (store_u32s xs) = 4 * length xs"
  by (induction xs) (simp_all add: store_u32s_def)

lemma read_u32s_at:
  "at r (store_u32s xs) rest \<Longrightarrow> \<forall>x \<in> set xs. x < 2 ^ 32 \<Longrightarrow> read_u32s (length xs) r = Inr (xs, skip (4 * length xs) r)"
proof (induction xs arbitrary: r)
  case (Cons x xs)
  have a: "at r (le_bytes 4 x @ store_u32s xs) rest" using Cons.prems(1) by (simp add: store_u32s_def)
  have "read_u32 r = Inr (x, skip 4 r)" using read_nat_at [OF at_append [OF a]] Cons.prems(2) by simp
  moreover have "at (skip 4 r) (store_u32s xs) rest" using at_skip [OF a] by simp
  ultimately show ?case using Cons.IH Cons.prems(2) by (simp add: skip_skip)
qed (simp add: skip_0)

lemma read_u32s_at_n:
  "at r (store_u32s xs) rest \<Longrightarrow> \<forall>x \<in> set xs. x < 2 ^ 32 \<Longrightarrow> n = length xs \<Longrightarrow> read_u32s n r = Inr (xs, skip (4 * n) r)"
  using read_u32s_at by simp

lemma read_nat_fits: "read_nat n r = Inr (x, r') \<Longrightarrow> x < 256 ^ n"
proof -
  assume "read_nat n r = Inr (x, r')"
  then obtain bs where "x = of_le bs" "length bs = n"
    by (auto simp: read_nat_def and_then_eq_Inr take_bytes_def split: if_splits)
  then show ?thesis using of_le_bound by blast
qed

lemma read_u32s_fits: "read_u32s n r = Inr (xs, r') \<Longrightarrow> length xs = n \<and> (\<forall>x \<in> set xs. x < 2 ^ 32)"
proof (induction n arbitrary: r xs)
  case (Suc n)
  then obtain x r1 ys where "read_u32 r = Inr (x, r1)" "read_u32s n r1 = Inr (ys, r')" "xs = x # ys"
    by (auto simp: and_then_eq_Inr)
  then show ?case using Suc.IH read_nat_fits by fastforce
qed simp

text \<open>The tail of a record: a count and a sum.\<close>

lemma read_count_sum:
  assumes "at r (store_u32s f @ le_bytes 8 n @ le_f64 w) rest" "\<forall>x \<in> set f. x < 2 ^ 32" "n < 2 ^ 64" "m = length f"
  shows "and_then (read_u32s m r) (\<lambda>(f, r). and_then (read_u64 r) (\<lambda>(n, r). and_then (read_f64 r) (\<lambda>(w, r). g f n w r)))
     = g f n w (skip (4 * m + 16) r)"
proof -
  have a: "at (skip (4 * m) r) (le_bytes 8 n @ le_f64 w) rest" using at_skip [OF assms(1)] assms(4) by simp
  have "read_u32s m r = Inr (f, skip (4 * m) r)" by (rule read_u32s_at_n [OF at_append [OF assms(1)] assms(2,4)])
  moreover have "read_u64 (skip (4 * m) r) = Inr (n, skip 8 (skip (4 * m) r))"
    using assms(3) by (intro read_nat_at [OF at_append [OF a]]) simp
  moreover have "read_f64 (skip 8 (skip (4 * m) r)) = Inr (w, skip 8 (skip 8 (skip (4 * m) r)))"
    using at_skip [OF a] by (intro read_f64_at) simp
  ultimately show ?thesis by (simp add: skip_skip add.commute)
qed

lemma read_sum:
  assumes "at r (store_u32s f @ le_f64 w) rest" "\<forall>x \<in> set f. x < 2 ^ 32" "m = length f"
  shows "and_then (read_u32s m r) (\<lambda>(f, r). and_then (read_f64 r) (\<lambda>(w, r). g f w r)) = g f w (skip (4 * m + 8) r)"
proof -
  have "at (skip (4 * m) r) (le_f64 w) rest" using at_skip [OF assms(1)] assms(3) by simp
  then have "read_f64 (skip (4 * m) r) = Inr (w, skip 8 (skip (4 * m) r))" by (rule read_f64_at)
  moreover have "read_u32s m r = Inr (f, skip (4 * m) r)" by (rule read_u32s_at_n [OF at_append [OF assms(1)] assms(2,3)])
  ultimately show ?thesis by (simp add: skip_skip)
qed

lemma list_of_length:
  "length xs = 2 \<Longrightarrow> \<exists>a b. xs = [a, b]" "length xs = 3 \<Longrightarrow> \<exists>a b c. xs = [a, b, c]"
  "length xs = 5 \<Longrightarrow> \<exists>a b c d e. xs = [a, b, c, d, e]"
  "length xs = 8 \<Longrightarrow> \<exists>a b c d e f g h. xs = [a, b, c, d, e, f, g, h]"
  by (auto simp: numeral_eq_Suc length_Suc_conv)

definition concept_fits :: "concept_record \<Rightarrow> bool" where
  "concept_fits r \<longleftrightarrow> (\<forall>x \<in> set (concept_fields r). x < 2 ^ 32)"
definition label_fits :: "label_record \<Rightarrow> bool" where
  "label_fits r \<longleftrightarrow> (\<forall>x \<in> set (label_fields r). x < 2 ^ 32)"
definition source_fits :: "source_record \<Rightarrow> bool" where
  "source_fits r \<longleftrightarrow> (\<forall>x \<in> set (source_fields r). x < 2 ^ 32)"
definition alias_fits :: "alias_record \<Rightarrow> bool" where
  "alias_fits r \<longleftrightarrow> (\<forall>x \<in> set (alias_fields r). x < 2 ^ 32)"
definition locator_fits :: "locator_record \<Rightarrow> bool" where
  "locator_fits r \<longleftrightarrow> (\<forall>x \<in> set (locator_fields r). x < 2 ^ 32)"
definition edge_fits :: "edge_record \<Rightarrow> bool" where
  "edge_fits r \<longleftrightarrow> (\<forall>x \<in> set (edge_fields r). x < 2 ^ 32) \<and> ed_count r < 2 ^ 64"
definition attribution_fits :: "attribution_record \<Rightarrow> bool" where
  "attribution_fits r \<longleftrightarrow> (\<forall>x \<in> set [at_source r, at_next r]. x < 2 ^ 32) \<and> at_count r < 2 ^ 64"
definition legacy_edge_fits :: "legacy_edge \<Rightarrow> bool" where
  "legacy_edge_fits r \<longleftrightarrow> (\<forall>x \<in> set (legacy_edge_fields r). x < 2 ^ 32)"
definition legacy_attribution_fits :: "legacy_attribution \<Rightarrow> bool" where
  "legacy_attribution_fits r \<longleftrightarrow> (\<forall>x \<in> set [la_source r, la_next r]. x < 2 ^ 32)"

interpretation concept_codec: record_codec store_concept load_concept 32 concept_fits
proof
  show "load_concept r = Inr (x, skip 32 r)" if "at r (store_concept x) rest" "concept_fits x" for r x rest
    using read_u32s_at_n [OF that(1) [unfolded store_concept_def] that(2) [unfolded concept_fits_def], of 8]
    by (simp add: load_concept_def concept_fields_def)
  show "concept_fits x" if "load_concept r = Inr (x, r')" for r x r'
    using that list_of_length(4) by (auto simp: load_concept_def and_then_eq_Inr concept_fits_def concept_fields_def dest!: read_u32s_fits)
qed (simp_all add: store_concept_def concept_fields_def)

interpretation label_codec: record_codec store_label load_label 20 label_fits
proof
  show "load_label r = Inr (x, skip 20 r)" if "at r (store_label x) rest" "label_fits x" for r x rest
    using read_u32s_at_n [OF that(1) [unfolded store_label_def] that(2) [unfolded label_fits_def], of 5]
    by (simp add: load_label_def label_fields_def)
  show "label_fits x" if "load_label r = Inr (x, r')" for r x r'
    using that list_of_length(3) by (auto simp: load_label_def and_then_eq_Inr label_fits_def label_fields_def dest!: read_u32s_fits)
qed (simp_all add: store_label_def label_fields_def)

interpretation source_codec: record_codec store_source load_source 8 source_fits
proof
  show "load_source r = Inr (x, skip 8 r)" if "at r (store_source x) rest" "source_fits x" for r x rest
    using read_u32s_at_n [OF that(1) [unfolded store_source_def] that(2) [unfolded source_fits_def], of 2]
    by (simp add: load_source_def source_fields_def)
  show "source_fits x" if "load_source r = Inr (x, r')" for r x r'
    using that list_of_length(1) by (auto simp: load_source_def and_then_eq_Inr source_fits_def source_fields_def dest!: read_u32s_fits)
qed (simp_all add: store_source_def source_fields_def)

interpretation alias_codec: record_codec store_alias load_alias 12 alias_fits
proof
  show "load_alias r = Inr (x, skip 12 r)" if "at r (store_alias x) rest" "alias_fits x" for r x rest
    using read_u32s_at_n [OF that(1) [unfolded store_alias_def] that(2) [unfolded alias_fits_def], of 3]
    by (simp add: load_alias_def alias_fields_def)
  show "alias_fits x" if "load_alias r = Inr (x, r')" for r x r'
    using that list_of_length(2) by (auto simp: load_alias_def and_then_eq_Inr alias_fits_def alias_fields_def dest!: read_u32s_fits)
qed (simp_all add: store_alias_def alias_fields_def)

interpretation locator_codec: record_codec store_locator load_locator 8 locator_fits
proof
  show "load_locator r = Inr (x, skip 8 r)" if "at r (store_locator x) rest" "locator_fits x" for r x rest
    using read_u32s_at_n [OF that(1) [unfolded store_locator_def] that(2) [unfolded locator_fits_def], of 2]
    by (simp add: load_locator_def locator_fields_def)
  show "locator_fits x" if "load_locator r = Inr (x, r')" for r x r'
    using that list_of_length(1) by (auto simp: load_locator_def and_then_eq_Inr locator_fits_def locator_fields_def dest!: read_u32s_fits)
qed (simp_all add: store_locator_def locator_fields_def)

interpretation edge_codec: record_codec store_edge load_edge 48 edge_fits
proof
  show "load_edge r = Inr (x, skip 48 r)" if "at r (store_edge x) rest" "edge_fits x" for r x rest
    unfolding load_edge_def
    by (subst read_count_sum [OF that(1) [unfolded store_edge_def]]) (use that(2) in \<open>simp_all add: edge_fields_def edge_fits_def\<close>)
  show "edge_fits x" if "load_edge r = Inr (x, r')" for r x r'
    using that list_of_length(4)
    by (auto simp: load_edge_def and_then_eq_Inr edge_fits_def edge_fields_def dest!: read_u32s_fits read_nat_fits)
qed (simp_all add: store_edge_def edge_fields_def)

interpretation attribution_codec: record_codec store_attribution load_attribution 24 attribution_fits
proof
  show "load_attribution r = Inr (x, skip 24 r)" if "at r (store_attribution x) rest" "attribution_fits x" for r x rest
    unfolding load_attribution_def
    by (subst read_count_sum [OF that(1) [unfolded store_attribution_def]]) (use that(2) in \<open>simp_all add: attribution_fits_def\<close>)
  show "attribution_fits x" if "load_attribution r = Inr (x, r')" for r x r'
    using that list_of_length(1)
    by (auto simp: load_attribution_def and_then_eq_Inr attribution_fits_def dest!: read_u32s_fits read_nat_fits)
qed (simp_all add: store_attribution_def)

interpretation legacy_edge_codec: record_codec store_legacy_edge load_legacy_edge 40 legacy_edge_fits
proof
  show "load_legacy_edge r = Inr (x, skip 40 r)" if "at r (store_legacy_edge x) rest" "legacy_edge_fits x" for r x rest
    unfolding load_legacy_edge_def
    by (subst read_sum [OF that(1) [unfolded store_legacy_edge_def]]) (use that(2) in \<open>simp_all add: legacy_edge_fields_def legacy_edge_fits_def\<close>)
  show "legacy_edge_fits x" if "load_legacy_edge r = Inr (x, r')" for r x r'
    using that list_of_length(4)
    by (auto simp: load_legacy_edge_def and_then_eq_Inr legacy_edge_fits_def legacy_edge_fields_def dest!: read_u32s_fits)
qed (simp_all add: store_legacy_edge_def legacy_edge_fields_def)

interpretation legacy_attribution_codec: record_codec store_legacy_attribution load_legacy_attribution 16 legacy_attribution_fits
proof
  show "load_legacy_attribution r = Inr (x, skip 16 r)" if "at r (store_legacy_attribution x) rest" "legacy_attribution_fits x" for r x rest
    unfolding load_legacy_attribution_def
    by (subst read_sum [OF that(1) [unfolded store_legacy_attribution_def]]) (use that(2) in \<open>simp_all add: legacy_attribution_fits_def\<close>)
  show "legacy_attribution_fits x" if "load_legacy_attribution r = Inr (x, r')" for r x r'
    using that list_of_length(1)
    by (auto simp: load_legacy_attribution_def and_then_eq_Inr legacy_attribution_fits_def dest!: read_u32s_fits)
qed (simp_all add: store_legacy_attribution_def)

end
