(* ===== verification/Wal.thy ===== *)
theory Wal
  imports Numerals Checksum Codec "HOL-Library.Sublist"
begin

text \<open>
  The write-ahead log of \<^verbatim>\<open>src/wal.rs\<close>: one JSON record per line, each with a checksum of its own
  bytes spliced in as the last field, appended in batches and read back by sequence number. A file is
  its bytes, or nothing when it does not exist; what the disk does with an operation is an argument.
  \<^verbatim>\<open>serde_json\<close> is an argument too, the record \<open>codec\<close>: encoding a record without its checksum,
  decoding one, the fields of a JSON value with their reading as an unsigned number, and the keys an
  operation encodes to.
\<close>

section \<open>Records and lines\<close>

record 'op codec =
  to_vec :: "nat \<Rightarrow> 'op \<Rightarrow> u8 list option"
  from_slice :: "u8 list \<Rightarrow> (nat \<times> 'op \<times> nat option) option"
  fields_of :: "u8 list \<Rightarrow> (rstr \<times> nat option) list option"
  op_keys :: "'op \<Rightarrow> rstr list option"

datatype io_kind = NotFound | AlreadyExists | InvalidData | OtherIo

datatype detail = Undecodable | CrcFieldLost | ChecksumMismatch | UnknownField | UnknownOp | NotJson | Unserializable

datatype wal_error = CorruptRecord nat detail | BareError detail | Io io_kind

definition NEWLINE :: u8 where "NEWLINE = 10"
definition CLOSE :: u8 where "CLOSE = 125"

definition CRC_FIELD :: rstr where
  "CRC_FIELD = bytes '',\"crc\":''"

text \<open>The start of the last window of the line that equals the marker.\<close>

definition marker_pos :: "rstr \<Rightarrow> nat option" where
  "marker_pos line = find (\<lambda>i. take (length CRC_FIELD) (drop i line) = CRC_FIELD) (rev [0..<Suc (length line) - length CRC_FIELD])"

definition canonical_bytes_of_line :: "rstr \<Rightarrow> rstr option" where
  "canonical_bytes_of_line line = map_option (\<lambda>pos. take pos line @ [CLOSE]) (marker_pos line)"

definition verify_record_crc :: "rstr \<Rightarrow> nat \<Rightarrow> detail + unit" where
  "verify_record_crc line stored =
     (case canonical_bytes_of_line line of None \<Rightarrow> Inl CrcFieldLost
      | Some canonical \<Rightarrow> if unat (crc32c canonical) \<noteq> stored then Inl ChecksumMismatch else Inr ())"

definition line_has_a_field_the_op_cannot_explain :: "'op codec \<Rightarrow> rstr \<Rightarrow> 'op \<Rightarrow> detail + bool" where
  "line_has_a_field_the_op_cannot_explain C line op =
     (case fields_of C line of None \<Rightarrow> Inl NotJson
      | Some fs \<Rightarrow>
          (case op_keys C op of None \<Rightarrow> Inl Unserializable
           | Some keys \<Rightarrow> Inr (list_ex (\<lambda>(key, v). key \<noteq> bytes ''seq'' \<and> key \<noteq> bytes ''crc'' \<and> key \<notin> set keys \<and>
               (case v of None \<Rightarrow> False | Some n \<Rightarrow> n \<le> u32_max)) fs)))"

text \<open>\<open>bytes.split(|&byte| byte == b'\n')\<close>: always at least one segment.\<close>

fun split_lines :: "rstr \<Rightarrow> rstr list" where
  "split_lines [] = [[]]"
| "split_lines (b # bs) = (if b = NEWLINE then [] # split_lines bs
     else case split_lines bs of s # ss \<Rightarrow> (b # s) # ss | [] \<Rightarrow> [[b]])"

section \<open>Reading the log\<close>

datatype torn_tail = Discarded nat | Recovered nat

definition tail_record_is_complete :: "'op codec \<Rightarrow> rstr \<Rightarrow> detail + bool" where
  "tail_record_is_complete C frag =
     (case from_slice C frag of
        None \<Rightarrow> if fields_of C frag \<noteq> None then Inl UnknownOp else Inr False
      | Some (seq, op, None) \<Rightarrow>
          and_then (line_has_a_field_the_op_cannot_explain C frag op) (\<lambda>stray. if stray then Inl UnknownField else Inr True)
      | Some (seq, op, Some stored) \<Rightarrow> and_then (verify_record_crc frag stored) (\<lambda>_. Inr True))"

fun parse_lines ::
    "'op codec \<Rightarrow> nat \<Rightarrow> nat \<Rightarrow> rstr list \<Rightarrow> (nat \<times> 'op) list \<times> nat \<times> nat \<Rightarrow> wal_error + (nat \<times> 'op) list \<times> nat \<times> nat" where
  "parse_lines C watermark index [] st = Inr st"
| "parse_lines C watermark index (line # rest) (pending, tops, unchecked) =
     (case from_slice C line of
        None \<Rightarrow> Inl (CorruptRecord (index + 1) Undecodable)
      | Some (seq, op, crc) \<Rightarrow>
          and_then
            (case crc of
               Some stored \<Rightarrow> (case verify_record_crc line stored of Inl d \<Rightarrow> Inl (CorruptRecord (index + 1) d) | Inr _ \<Rightarrow> Inr unchecked)
             | None \<Rightarrow> (case line_has_a_field_the_op_cannot_explain C line op of
                   Inl d \<Rightarrow> Inl (BareError d)
                 | Inr stray \<Rightarrow> if stray then Inl (CorruptRecord (index + 1) UnknownField) else Inr (unchecked + 1)))
            (\<lambda>n. parse_lines C watermark (index + 1) rest
                (if watermark < seq then bt_insert seq op pending else pending, max tops seq, n)))"

definition parse_log :: "'op codec \<Rightarrow> rstr \<Rightarrow> nat \<Rightarrow> wal_error + 'op list \<times> nat \<times> torn_tail option \<times> nat" where
  "parse_log C bs watermark =
     (let segments = split_lines bs; body = butlast segments; frag = last segments in
      and_then
        (if frag = [] then Inr (body, None)
         else case tail_record_is_complete C frag of
             Inl d \<Rightarrow> Inl (CorruptRecord (length body + 1) d)
           | Inr complete \<Rightarrow> Inr (if complete then (body @ [frag], Some (Recovered (length frag))) else (body, Some (Discarded (length frag)))))
        (\<lambda>(lines, torn). and_then (parse_lines C watermark 0 lines ([], watermark, 0))
           (\<lambda>(pending, tops, unchecked). Inr (map snd pending, tops, torn, unchecked))))"

section \<open>The file\<close>

datatype trunc_io = TruncOk | TruncOpenFails io_kind | TruncMetaFails io_kind | TruncSetLenFails io_kind | TruncSyncFails io_kind

definition truncate_to :: "trunc_io \<Rightarrow> rstr option \<Rightarrow> nat \<Rightarrow> (wal_error + unit) \<times> rstr option" where
  "truncate_to io file len =
     (case file of None \<Rightarrow> (Inl (Io NotFound), None)
      | Some bs \<Rightarrow>
          (case io of TruncOpenFails k \<Rightarrow> (Inl (Io k), file)
           | TruncMetaFails k \<Rightarrow> (Inl (Io k), file)
           | _ \<Rightarrow>
               if length bs < len then (Inl (Io InvalidData), file)
               else case io of TruncSetLenFails k \<Rightarrow> (Inl (Io k), file)
                    | TruncSyncFails k \<Rightarrow> (Inl (Io k), Some (take len bs))
                    | _ \<Rightarrow> (Inr (), Some (take len bs))))"

definition wal_reset :: "trunc_io \<Rightarrow> rstr option \<Rightarrow> (wal_error + unit) \<times> rstr option" where
  "wal_reset io file = (case truncate_to io file 0 of
       (Inl (Io NotFound), file') \<Rightarrow> (Inr (), file')
     | r \<Rightarrow> r)"

datatype newline_io = NewlineOk | NewlineOpenFails io_kind | NewlineWriteFails io_kind | NewlineSyncFails io_kind

definition append_missing_newline :: "newline_io \<Rightarrow> rstr \<Rightarrow> (wal_error + unit) \<times> rstr option" where
  "append_missing_newline io bs =
     (case io of NewlineOk \<Rightarrow> (Inr (), Some (bs @ [NEWLINE]))
      | NewlineOpenFails k \<Rightarrow> (Inl (Io k), Some bs)
      | NewlineWriteFails k \<Rightarrow> (Inl (Io k), Some bs)
      | NewlineSyncFails k \<Rightarrow> (Inl (Io k), Some (bs @ [NEWLINE])))"

record replay_io =
  rp_read :: "io_kind option"
  rp_truncate :: trunc_io
  rp_newline :: newline_io

definition replay :: "'op codec \<Rightarrow> replay_io \<Rightarrow> rstr option \<Rightarrow> nat \<Rightarrow> (wal_error + 'op list \<times> nat) \<times> rstr option" where
  "replay C io file watermark =
     (case file of None \<Rightarrow> (Inr ([], watermark), None)
      | Some bs \<Rightarrow>
          (case rp_read io of
             Some NotFound \<Rightarrow> (Inr ([], watermark), file)
           | Some k \<Rightarrow> (Inl (Io k), file)
           | None \<Rightarrow>
               (case parse_log C bs watermark of
                  Inl e \<Rightarrow> (Inl e, file)
                | Inr (ops, tops, torn, _) \<Rightarrow>
                    (case torn of
                       None \<Rightarrow> (Inr (ops, tops), file)
                     | Some (Discarded n) \<Rightarrow>
                         (case truncate_to (rp_truncate io) file (length bs - n) of
                            (Inl e, file') \<Rightarrow> (Inl e, file') | (Inr _, file') \<Rightarrow> (Inr (ops, tops), file'))
                     | Some (Recovered n) \<Rightarrow>
                         (case append_missing_newline (rp_newline io) bs of
                            (Inl e, file') \<Rightarrow> (Inl e, file') | (Inr _, file') \<Rightarrow> (Inr (ops, tops), file'))))))"

definition replay_readonly :: "'op codec \<Rightarrow> io_kind option \<Rightarrow> rstr option \<Rightarrow> nat \<Rightarrow> wal_error + 'op list \<times> nat \<times> torn_tail option \<times> nat" where
  "replay_readonly C io file watermark =
     (case file of None \<Rightarrow> Inr ([], watermark, None, 0)
      | Some bs \<Rightarrow>
          (case io of Some NotFound \<Rightarrow> Inr ([], watermark, None, 0) | Some k \<Rightarrow> Inl (Io k) | None \<Rightarrow> parse_log C bs watermark))"

section \<open>Appending\<close>

definition record_line :: "'op codec \<Rightarrow> nat \<Rightarrow> 'op \<Rightarrow> rstr option" where
  "record_line C seq op =
     map_option (\<lambda>record. butlast record @ CRC_FIELD @ dec_of (unat (crc32c record)) @ [CLOSE]) (to_vec C seq op)"

fun batch_bytes :: "'op codec \<Rightarrow> nat \<Rightarrow> 'op list \<Rightarrow> rstr option" where
  "batch_bytes C seq [] = Some []"
| "batch_bytes C seq (op # ops) = do {
     line \<leftarrow> record_line C seq op;
     rest \<leftarrow> batch_bytes C (u64_add seq 1) ops;
     Some (line @ [NEWLINE] @ rest) }"

record append_io =
  ap_open :: "io_kind option"
  ap_dir_sync :: "io_kind option"
  ap_remove :: "io_kind option"
  ap_dir_resync :: "io_kind option"
  ap_remove_again :: "io_kind option"
  ap_meta :: "io_kind option"
  ap_write :: "(nat \<times> io_kind) option"
  ap_rollback :: "io_kind option"

text \<open>What is written once the file is open: all of the buffer, or as much as landed and then the rollback.\<close>

definition write_batch :: "append_io \<Rightarrow> rstr \<Rightarrow> rstr \<Rightarrow> (wal_error + nat) \<times> rstr option" where
  "write_batch io bs buffer =
     (case ap_meta io of Some k \<Rightarrow> (Inl (Io k), Some bs)
      | None \<Rightarrow>
          (case ap_write io of
             None \<Rightarrow> (Inr (length buffer), Some (bs @ buffer))
           | Some (landed, k) \<Rightarrow> (Inl (Io k), Some (if ap_rollback io = None then bs else bs @ take landed buffer))))"

definition append_batch :: "'op codec \<Rightarrow> append_io \<Rightarrow> rstr option \<Rightarrow> nat \<Rightarrow> 'op list \<Rightarrow> (wal_error + nat) \<times> rstr option" where
  "append_batch C io file first_seq ops =
     (if ops = [] then (Inr 0, file)
      else case batch_bytes C first_seq ops of
        None \<Rightarrow> (Inl (BareError Unserializable), file)
      | Some buffer \<Rightarrow>
          (case ap_open io of Some k \<Rightarrow> (Inl (Io k), file)
           | None \<Rightarrow>
               (case file of
                  Some bs \<Rightarrow> write_batch io bs buffer
                | None \<Rightarrow>
                    (case ap_dir_sync io of
                       None \<Rightarrow> write_batch io [] buffer
                     | Some k \<Rightarrow>
                         if ap_remove io = None then (Inl (Io k), None)
                         else case ap_dir_resync io of
                             None \<Rightarrow> write_batch io [] buffer
                           | Some k' \<Rightarrow> (Inl (Io k'), if ap_remove_again io = None then None else Some [])))))"

section \<open>Shipping\<close>

fun ship_lines :: "(rstr \<Rightarrow> (nat \<times> nat option) option) \<Rightarrow> nat \<Rightarrow> rstr list \<Rightarrow> wal_error + (nat \<times> rstr) list" where
  "ship_lines seq_only index [] = Inr []"
| "ship_lines seq_only index (line # rest) =
     (case seq_only line of
        None \<Rightarrow> Inl (CorruptRecord (index + 1) Undecodable)
      | Some (seq, crc) \<Rightarrow>
          and_then (case crc of None \<Rightarrow> Inr ()
              | Some stored \<Rightarrow> (case verify_record_crc line stored of Inl d \<Rightarrow> Inl (CorruptRecord (index + 1) d) | Inr u \<Rightarrow> Inr u))
            (\<lambda>_. and_then (ship_lines seq_only (index + 1) rest) (\<lambda>rs. Inr ((seq, line) # rs))))"

definition shippable_records :: "(rstr \<Rightarrow> (nat \<times> nat option) option) \<Rightarrow> rstr \<Rightarrow> wal_error + (nat \<times> rstr) list" where
  "shippable_records seq_only bs = ship_lines seq_only 0 (butlast (split_lines bs))"

section \<open>What is relied on of the codec\<close>

text \<open>
  An encoded record is one line of JSON text that is an object: it closes with a brace, with no
  newline. With the checksum spliced in it reads back as the same sequence number, the operation as
  the number formatter leaves it (\<open>rt\<close>), and the checksum; cut short, it is not JSON at all. This is
  relied on for the operations JSON can hold (\<open>P\<close>) only: a number that is not finite is written as \<open>null\<close>
  and does not read back.
\<close>

definition codec_ok :: "('op \<Rightarrow> bool) \<Rightarrow> 'op codec \<Rightarrow> ('op \<Rightarrow> 'op) \<Rightarrow> bool" where
  "codec_ok P C rt \<longleftrightarrow> (\<forall>seq op rec. P op \<and> to_vec C seq op = Some rec \<and> seq < 2 ^ 64 \<longrightarrow>
     rec \<noteq> [] \<and> last rec = CLOSE \<and> NEWLINE \<notin> set rec \<and>
     (\<forall>crc < 2 ^ 32. from_slice C (butlast rec @ CRC_FIELD @ dec_of crc @ [CLOSE]) = Some (seq, rt op, Some crc) \<and>
        (\<forall>p. strict_prefix p (butlast rec @ CRC_FIELD @ dec_of crc @ [CLOSE]) \<longrightarrow> from_slice C p = None \<and> fields_of C p = None)))"

text \<open>
  A line whose last bytes are the checksum field and a closing brace is an object with that field at its top
  level, if it is JSON at all. When at most one byte of the value is no digit, the value is a number with no
  sign, point or exponent, possibly next to a blank: what is read is the number its digits spell, and an
  unsigned number has one spelling.
\<close>

definition is_digit :: "u8 \<Rightarrow> bool" where
  "is_digit b \<longleftrightarrow> 48 \<le> unat b \<and> unat b \<le> 57"


section \<open>The checksum of a line\<close>

lemma crc_field: "CRC_FIELD = [44, 34, 99, 114, 99, 34, 58]"
  by (simp add: CRC_FIELD_def bytes_def)

lemma find_last:
  assumes "i < n" "P i" "\<And>j. i < j \<Longrightarrow> j < n \<Longrightarrow> \<not> P j"
  shows "find P (rev [0..<n]) = Some i"
  using assms by (induction n) (auto simp: less_Suc_eq)

lemma marker_last:
  assumes ds: "44 \<notin> set ds \<or> 34 \<notin> set ds" shows "marker_pos (body @ CRC_FIELD @ ds @ [CLOSE]) = Some (length body)"
proof -
  let ?line = "body @ CRC_FIELD @ ds @ [CLOSE]"
  have no: "take (length CRC_FIELD) (drop j ?line) \<noteq> CRC_FIELD" if j: "length body < j" for j
  proof
    assume eq: "take (length CRC_FIELD) (drop j ?line) = CRC_FIELD"
    then have "drop j ?line \<noteq> []" by (auto simp: crc_field)
    then have jl: "j < length ?line" by (simp only: drop_eq_Nil not_le)
    have at: "?line ! (j + k) = CRC_FIELD ! k" if "k < length CRC_FIELD" for k
      using arg_cong [OF eq, of "\<lambda>xs. xs ! k"] that jl eq by (metis (no_types, lifting) length_take min_less_iff_conj nth_drop nth_take order_less_imp_le length_drop)
    have "?line ! j = 44" "?line ! (j + 1) = 34" using at [of 0] at [of 1] by (simp_all add: crc_field)
    moreover define k where "k = j - Suc (length body)"
    have jk: "j = length body + Suc k" using j by (simp add: k_def)
    have shift: "?line ! (length body + Suc m) = (tl CRC_FIELD @ ds @ [CLOSE]) ! m" for m by (simp add: crc_field nth_append)
    ultimately have two: "(tl CRC_FIELD @ ds @ [CLOSE]) ! k = 44" "(tl CRC_FIELD @ ds @ [CLOSE]) ! Suc k = 34"
      using shift [of k] shift [of "Suc k"] unfolding jk by simp_all
    have "Suc j < length ?line"
    proof -
      have "length (take (length CRC_FIELD) (drop j ?line)) = length CRC_FIELD" using eq by simp
      then show ?thesis by (simp add: crc_field)
    qed
    then have len: "Suc k < length (tl CRC_FIELD @ ds @ [CLOSE])" unfolding jk by (simp add: crc_field)
    have "False" if "k < 6"
    proof -
      have "(tl CRC_FIELD @ ds @ [CLOSE]) ! k \<in> set (tl CRC_FIELD)" 
      proof -
        have "k < length (tl CRC_FIELD)" using that by (simp add: crc_field)
        then show ?thesis by (simp only: nth_append if_True nth_mem)
      qed
      then show False unfolding two(1) by (simp add: crc_field)
    qed
    then obtain m where m: "k = 6 + m" by (metis le_add_diff_inverse not_less)
    have "(ds @ [CLOSE]) ! m = 44" "(ds @ [CLOSE]) ! Suc m = 34" "m < length ds" using two len by (simp_all add: m crc_field)
    then have "ds ! m = 44 \<and> m < length ds" "ds ! Suc m = 34 \<and> Suc m < length ds" by (auto simp: nth_append CLOSE_def split: if_splits)
    then have "44 \<in> set ds" "34 \<in> set ds" by (metis nth_mem)+
    then show False using ds by blast
  qed
  show ?thesis unfolding marker_pos_def
  proof (rule find_last)
    show "length body < Suc (length ?line) - length CRC_FIELD" by (simp add: crc_field)
    show "take (length CRC_FIELD) (drop (length body) ?line) = CRC_FIELD" by simp
  qed (use no in blast)
qed

lemma dec_digits: "b \<in> set (dec_of n) \<Longrightarrow> is_digit b" "44 \<notin> set (dec_of n)"
  using dec_bytes [of b n] dec_bytes [of 44 n] by (auto simp: is_digit_def)

lemma verify_spliced:
  assumes "44 \<notin> set ds \<or> 34 \<notin> set ds"
  shows "verify_record_crc (body @ CRC_FIELD @ ds @ [CLOSE]) stored = (if unat (crc32c (body @ [CLOSE])) = stored then Inr () else Inl ChecksumMismatch)"
  using marker_last [OF assms, of body] by (simp add: verify_record_crc_def canonical_bytes_of_line_def)

lemma written_line:
  assumes C: "codec_ok P C rt" and op: "P op" and line: "record_line C seq op = Some line" and seq: "seq < 2 ^ 64"
  shows "\<exists>crc. from_slice C line = Some (seq, rt op, Some crc) \<and> verify_record_crc line crc = Inr ()"
    "NEWLINE \<notin> set line" "line \<noteq> []" "strict_prefix p line \<Longrightarrow> from_slice C p = None \<and> fields_of C p = None"
proof -
  obtain rec where rec: "to_vec C seq op = Some rec" "line = butlast rec @ CRC_FIELD @ dec_of (unat (crc32c rec)) @ [CLOSE]"
    using line by (auto simp: record_line_def)
  let ?crc = "unat (crc32c rec)"
  have b: "?crc < 2 ^ 32" using unsigned_less [of "crc32c rec"] by simp
  note O = C [unfolded codec_ok_def, rule_format, OF conjI [OF op conjI [OF rec(1) seq]]]
  have shape: "rec = butlast rec @ [CLOSE]" using O by (metis append_butlast_last_id)
  have "from_slice C line = Some (seq, rt op, Some ?crc)" using O b by (simp add: rec(2))
  moreover have "verify_record_crc line ?crc = Inr ()"
    using verify_spliced [of "dec_of ?crc" "butlast rec" ?crc] dec_digits(2) shape by (metis rec(2))
  ultimately show "\<exists>crc. from_slice C line = Some (seq, rt op, Some crc) \<and> verify_record_crc line crc = Inr ()" by blast
  have "NEWLINE \<notin> set (dec_of ?crc)" using dec_bytes [of NEWLINE] by (auto simp: NEWLINE_def)
  moreover have "NEWLINE \<notin> set (butlast rec)" using O by (meson in_set_butlastD)
  ultimately show "NEWLINE \<notin> set line" "line \<noteq> []" unfolding rec(2) by (auto simp: crc_field NEWLINE_def CLOSE_def)
  show "strict_prefix p line \<Longrightarrow> from_slice C p = None \<and> fields_of C p = None" using O b unfolding rec(2) by blast
qed

section \<open>Logs\<close>

text \<open>The bytes of a log that holds these records, and what reading it gives.\<close>

fun log_bytes :: "'op codec \<Rightarrow> (nat \<times> 'op) list \<Rightarrow> rstr option" where
  "log_bytes C [] = Some []"
| "log_bytes C ((seq, op) # recs) = do {
     line \<leftarrow> record_line C seq op;
     rest \<leftarrow> log_bytes C recs;
     Some (line @ [NEWLINE] @ rest) }"

definition pending_ops :: "('op \<Rightarrow> 'op) \<Rightarrow> nat \<Rightarrow> (nat \<times> 'op) list \<Rightarrow> 'op list" where
  "pending_ops rt watermark recs = map (rt \<circ> snd) (filter (\<lambda>r. watermark < fst r) recs)"

definition top_seq :: "nat \<Rightarrow> (nat \<times> 'op) list \<Rightarrow> nat" where
  "top_seq watermark recs = foldl max watermark (map fst recs)"

definition log_ok :: "('op \<Rightarrow> bool) \<Rightarrow> (nat \<times> 'op) list \<Rightarrow> bool" where
  "log_ok P recs \<longleftrightarrow> sorted_wrt (<) (map fst recs) \<and> (\<forall>r \<in> set recs. fst r < 2 ^ 64 \<and> P (snd r))"

text \<open>How many of the records lie in the bytes with their whole line, the newline apart.\<close>

fun landed_records :: "'op codec \<Rightarrow> (nat \<times> 'op) list \<Rightarrow> rstr \<Rightarrow> nat" where
  "landed_records C [] q = 0"
| "landed_records C ((seq, op) # recs) q =
     (case record_line C seq op of None \<Rightarrow> 0
      | Some line \<Rightarrow> if prefix line q then Suc (landed_records C recs (drop (length line + 1) q)) else 0)"

lemma log_bytes_append: "log_bytes C (xs @ ys) = do { a \<leftarrow> log_bytes C xs; b \<leftarrow> log_bytes C ys; Some (a @ b) }"
  by (induction C xs rule: log_bytes.induct) (auto split: Option.bind_split)

lemma split_lines_ne [simp]: "split_lines bs \<noteq> []"
  by (induction bs) (auto split: list.split)

lemma split_line: "NEWLINE \<notin> set l \<Longrightarrow> split_lines (l @ NEWLINE # rest) = l # split_lines rest"
  by (induction l) auto

lemma split_one: "NEWLINE \<notin> set l \<Longrightarrow> split_lines l = [l]"
  by (induction l) auto

definition line_of :: "'op codec \<Rightarrow> rstr \<Rightarrow> nat \<times> 'op \<Rightarrow> bool" where
  "line_of C line r \<longleftrightarrow> record_line C (fst r) (snd r) = Some line"

lemma log_lines:
  assumes C: "codec_ok P C rt" and "\<forall>r \<in> set recs. fst r < 2 ^ 64 \<and> P (snd r)" "log_bytes C recs = Some bs"
  shows "\<exists>lines. (\<forall>rest. split_lines (bs @ rest) = lines @ split_lines rest) \<and> list_all2 (line_of C) lines recs"
  using assms(2,3)
proof (induction recs arbitrary: bs)
  case (Cons r recs)
  obtain line rest where l: "record_line C (fst r) (snd r) = Some line" "log_bytes C recs = Some rest" "bs = line @ NEWLINE # rest"
    using Cons.prems(2) by (cases r) (auto simp: bind_eq_Some_conv)
  obtain lines where "\<forall>r. split_lines (rest @ r) = lines @ split_lines r" "list_all2 (line_of C) lines recs"
    using Cons.IH [OF _ l(2)] Cons.prems(1) by auto
  moreover have "NEWLINE \<notin> set line" using written_line(2) [OF C _ l(1)] Cons.prems(1) by simp
  moreover have "line_of C line r" using l(1) by (simp add: line_of_def)
  ultimately show ?case using l by (intro exI [of _ "line # lines"]) (simp add: split_line)
qed simp

lemma parse_lines_append:
  "parse_lines C w i (xs @ ys) st = and_then (parse_lines C w i xs st) (parse_lines C w (i + length xs) ys)"
proof (induction xs arbitrary: i st)
  case (Cons x xs)
  then show ?case by (cases st) (auto simp: and_then_def split: option.splits sum.splits)
qed simp

lemma bt_insert_last: "\<forall>k \<in> fst ` set ps. k < n \<Longrightarrow> bt_insert n v ps = ps @ [(n, v)]"
  by (induction ps) auto

lemma parse_written:
  assumes C: "codec_ok P C rt" and lines: "list_all2 (line_of C) lines recs" and ok: "log_ok P recs"
  shows "parse_lines C w 0 lines ([], w, 0) = Inr (map (apsnd rt) (filter (\<lambda>r. w < fst r) recs), top_seq w recs, 0)"
  using lines ok
proof (induction recs arbitrary: lines rule: rev_induct)
  case (snoc r recs)
  obtain ls l where ls: "lines = ls @ [l]" "list_all2 (line_of C) ls recs" "line_of C l r"
    using snoc.prems(1) by (auto simp: list_all2_append2 list_all2_Cons2)
  have ok: "log_ok P recs" "fst r < 2 ^ 64" "\<forall>n \<in> fst ` set recs. n < fst r" "P (snd r)"
    using snoc.prems(2) by (auto simp: log_ok_def sorted_wrt_append)
  obtain crc where l: "from_slice C l = Some (fst r, rt (snd r), Some crc)" "verify_record_crc l crc = Inr ()"
    using written_line(1) [OF C ok(4) ls(3) [unfolded line_of_def] ok(2)] by blast
  have "\<forall>k \<in> fst ` set (map (apsnd rt) (filter (\<lambda>r. w < fst r) recs)). k < fst r" using ok(3) by auto
  note bt_insert_last [OF this]
  then show ?case using snoc.IH [OF ls(2) ok(1)] l
    by (cases r) (simp add: ls(1) parse_lines_append top_seq_def)
qed (use lines in \<open>simp add: top_seq_def\<close>)

text \<open>Whatever follows the last newline decides the tail; the records before it are read.\<close>

lemma parse_log_clean:
  assumes C: "codec_ok P C rt" and ok: "log_ok P recs" and bs: "log_bytes C recs = Some bs"
  shows "parse_log C bs w = Inr (pending_ops rt w recs, top_seq w recs, None, 0)"
proof -
  obtain lines where l: "\<forall>rest. split_lines (bs @ rest) = lines @ split_lines rest" "list_all2 (line_of C) lines recs"
    using log_lines [OF C _ bs] ok by (auto simp: log_ok_def)
  have "split_lines bs = lines @ [[]]" using l(1) [rule_format, of "[]"] by simp
  then show ?thesis using parse_written [OF C l(2) ok, of w] by (simp add: parse_log_def Let_def pending_ops_def comp_def)
qed

lemma parse_log_tail:
  assumes C: "codec_ok P C rt" and ok: "log_ok P (recs @ [r])" and bs: "log_bytes C recs = Some bs"
    and line: "record_line C (fst r) (snd r) = Some line"
  shows "parse_log C (bs @ line) w = Inr (pending_ops rt w (recs @ [r]), top_seq w (recs @ [r]), Some (Recovered (length line)), 0)"
    "q \<noteq> [] \<Longrightarrow> strict_prefix q line \<Longrightarrow> parse_log C (bs @ q) w = Inr (pending_ops rt w recs, top_seq w recs, Some (Discarded (length q)), 0)"
proof -
  have ok': "log_ok P recs" "fst r < 2 ^ 64" "P (snd r)" using ok by (auto simp: log_ok_def sorted_wrt_append)
  note W = written_line [OF C ok'(3) line ok'(2)]
  obtain lines where l: "\<forall>rest. split_lines (bs @ rest) = lines @ split_lines rest" "list_all2 (line_of C) lines recs"
    using log_lines [OF C _ bs] ok' by (auto simp: log_ok_def)
  obtain crc where crc: "from_slice C line = Some (fst r, rt (snd r), Some crc)" "verify_record_crc line crc = Inr ()" using W(1) by blast
  have "split_lines (bs @ line) = lines @ [line]" using l(1) split_one [OF W(2)] by simp
  moreover have "tail_record_is_complete C line = Inr True" using crc by (simp add: tail_record_is_complete_def)
  moreover have "list_all2 (line_of C) (lines @ [line]) (recs @ [r])"
    using l(2) line [folded line_of_def] by (simp add: list_all2_appendI)
  note parse_written [OF C this ok, of w]
  ultimately show "parse_log C (bs @ line) w = Inr (pending_ops rt w (recs @ [r]), top_seq w (recs @ [r]), Some (Recovered (length line)), 0)"
    using W(3) by (simp add: parse_log_def Let_def pending_ops_def comp_def)
  assume q: "q \<noteq> []" "strict_prefix q line"
  then have "NEWLINE \<notin> set q" using W(2) by (auto simp: strict_prefix_def prefix_def)
  then have "split_lines (bs @ q) = lines @ [q]" using l(1) split_one by simp
  moreover have "tail_record_is_complete C q = Inr False" using W(4) [OF q(2)] by (simp add: tail_record_is_complete_def)
  ultimately show "parse_log C (bs @ q) w = Inr (pending_ops rt w recs, top_seq w recs, Some (Discarded (length q)), 0)"
    using q(1) parse_written [OF C l(2) ok'(1), of w] by (simp add: parse_log_def Let_def pending_ops_def comp_def)
qed

section \<open>Crashes\<close>

definition healthy_io :: replay_io where
  "healthy_io = \<lparr>rp_read = None, rp_truncate = TruncOk, rp_newline = NewlineOk\<rparr>"

lemma log_ok_append: "log_ok P (xs @ ys) \<Longrightarrow> log_ok P xs"
  by (auto simp: log_ok_def sorted_wrt_append)

lemma landed_records_nil:
  assumes C: "codec_ok P C rt" and ok: "log_ok P batch" shows "landed_records C batch [] = 0"
proof (cases batch)
  case (Cons r recs)
  then have "record_line C (fst r) (snd r) = Some line \<Longrightarrow> line \<noteq> []" for line
    using written_line(3) [OF C, of "snd r" "fst r" line] ok by (simp add: log_ok_def)
  then show ?thesis using Cons by (cases r) (auto split: option.split)
qed simp

lemma crash_tail:
  assumes C: "codec_ok P C rt" and "log_ok P (recs @ batch)" "log_bytes C recs = Some bs" "log_bytes C batch = Some buf" "prefix q buf"
  shows "\<exists>healed. log_bytes C (recs @ take (landed_records C batch q) batch) = Some healed \<and>
    replay C healthy_io (Some (bs @ q)) w =
      (Inr (pending_ops rt w (recs @ take (landed_records C batch q) batch), top_seq w (recs @ take (landed_records C batch q) batch)), Some healed) \<and>
    ((\<exists>t. bs @ q = healed @ t \<and> NEWLINE \<notin> set t) \<or> healed = bs @ q @ [NEWLINE])"
  using assms(2-)
proof (induction batch arbitrary: recs bs buf q)
  case Nil
  then show ?case using parse_log_clean [OF C, of recs bs w] by (simp add: replay_def healthy_io_def)
next
  case (Cons r batch)
  obtain line rest where l: "record_line C (fst r) (snd r) = Some line" "log_bytes C batch = Some rest" "buf = line @ NEWLINE # rest"
    using Cons.prems(3) by (cases r) (auto simp: bind_eq_Some_conv)
  have ok: "log_ok P (recs @ [r])" "log_ok P recs" "log_ok P batch"
    using Cons.prems(1) log_ok_append [of P "recs @ [r]" batch] log_ok_append [of P recs "r # batch"] by (simp_all add: log_ok_def sorted_wrt_append)
  have one: "log_bytes C (recs @ [r]) = Some (bs @ line @ [NEWLINE])"
    using Cons.prems(2) l(1) by (cases r) (simp add: log_bytes_append)
  have step: "landed_records C (r # batch) q = (if prefix line q then Suc (landed_records C batch (drop (length line + 1) q)) else 0)"
    using l(1) by (cases r) simp
  note T = parse_log_tail [OF C ok(1) Cons.prems(2) l(1)]
  have nl: "NEWLINE \<notin> set line" "line \<noteq> []" using written_line(2,3) [OF C _ l(1)] ok(1) by (simp_all add: log_ok_def)
  from Cons.prems(4) consider (none) "q = []" | (part) "q \<noteq> []" "strict_prefix q line" | (whole) "q = line"
    | (more) q' where "q = line @ NEWLINE # q'" "prefix q' rest"
    unfolding l(3) by (auto simp: prefix_append prefix_Cons strict_prefix_def)
  then show ?case
  proof cases
    case none
    then have "landed_records C (r # batch) q = 0" using nl(2) step by simp
    then show ?thesis using none parse_log_clean [OF C ok(2) Cons.prems(2), of w] Cons.prems(2) by (simp add: replay_def healthy_io_def)
  next
    case part
    then have "landed_records C (r # batch) q = 0" using step by (auto simp: strict_prefix_def dest: prefix_order.antisym)
    moreover have "NEWLINE \<notin> set q" using part nl(1) by (auto simp: strict_prefix_def prefix_def)
    ultimately show ?thesis using T(2) [OF part, of w] Cons.prems(2) by (simp add: replay_def healthy_io_def truncate_to_def)
  next
    case whole
    then have "landed_records C (r # batch) q = 1" using landed_records_nil [OF C ok(3)] step by simp
    then show ?thesis using whole T(1) [of w] one by (simp add: replay_def healthy_io_def append_missing_newline_def)
  next
    case more
    then have "landed_records C (r # batch) q = Suc (landed_records C batch q')" using step by simp
    then show ?thesis using Cons.IH [OF _ one l(2) more(2)] Cons.prems(1) more(1) by simp
  qed
qed

lemma batch_log:
  assumes "first + length ops < 2 ^ 64" shows "batch_bytes C first ops = log_bytes C (zip [first..<first + length ops] ops)"
  using assms
proof (induction ops arbitrary: first)
  case (Cons op ops)
  have u: "u64_add first 1 = Suc first" using Cons.prems by (simp add: u64_add_def)
  have up: "[first..<first + length (op # ops)] = first # [Suc first..<Suc first + length ops]" using upt_conv_Cons [of first "Suc (first + length ops)"] by simp
  show ?case unfolding up using Cons.IH [of "Suc first"] Cons.prems u by simp
qed simp

lemma append_effect:
  assumes "ops \<noteq> []" "batch_bytes C first ops = Some buf" "append_batch C io file first ops = (r, file')"
  shows "\<exists>q. prefix q buf \<and> case_option [] id file' = case_option [] id file @ q \<and> (file \<noteq> None \<longrightarrow> file' \<noteq> None) \<and>
    (\<forall>n. r = Inr n \<longrightarrow> q = buf \<and> n = length buf \<and> file' \<noteq> None) \<and> (\<forall>e. r = Inl e \<and> ap_rollback io = None \<longrightarrow> q = [])"
proof -
  have w: "\<exists>q. prefix q buf \<and> case_option [] id file' = bs @ q \<and> file' \<noteq> None \<and> (\<forall>n. r = Inr n \<longrightarrow> q = buf \<and> n = length buf) \<and>
      (\<forall>e. r = Inl e \<and> ap_rollback io = None \<longrightarrow> q = [])" if "write_batch io bs buf = (r, file')" for bs
    using that by (auto simp: write_batch_def take_is_prefix split: option.splits if_splits)
  show ?thesis
    using assms w [of "[]"] w by (auto simp: append_batch_def split: option.splits if_splits)
qed

section \<open>Altered lines\<close>







section \<open>A codec\<close>

text \<open>A codec that meets what is relied on: it writes one operation, as the bare sequence number in braces.\<close>

definition demo_read :: "'op \<Rightarrow> rstr \<Rightarrow> (nat \<times> 'op \<times> nat option) option" where
  "demo_read op line =
     (if line = [] \<or> last line \<noteq> CLOSE then None
      else do {
        pos \<leftarrow> marker_pos line;
        seq \<leftarrow> u64_from_str_radix 10 (tl (take pos line));
        crc \<leftarrow> u64_from_str_radix 10 (butlast (drop (pos + length CRC_FIELD) line));
        if crc < 2 ^ 32 \<and> butlast (drop (pos + length CRC_FIELD) line) = dec_of crc then Some (seq, op, Some crc) else None })"

definition demo_codec :: "'op \<Rightarrow> 'op codec" where
  "demo_codec demo_op = \<lparr>to_vec = (\<lambda>seq op. if op = demo_op then Some (123 # dec_of seq @ [CLOSE]) else None),
     from_slice = demo_read demo_op,
     fields_of = (\<lambda>line. if line \<noteq> [] \<and> last line = CLOSE then Some [] else None), op_keys = (\<lambda>_. Some [])\<rparr>"

lemma demo_codec_ok: "codec_ok P (demo_codec demo_op) id"
  unfolding codec_ok_def
proof (intro allI impI)
  fix seq op rec assume "P op \<and> to_vec (demo_codec demo_op) seq op = Some rec \<and> seq < 2 ^ 64"
  then have rec: "rec = 123 # dec_of seq @ [CLOSE]" "op = demo_op" and seq: "seq < 2 ^ 64" by (auto simp: demo_codec_def split: if_splits)
  have dig: "b \<in> set (dec_of n) \<Longrightarrow> b \<noteq> 44 \<and> b \<noteq> CLOSE \<and> b \<noteq> NEWLINE" for b n using dec_bytes [of b n] by (auto simp: CLOSE_def NEWLINE_def)
  have read: "from_slice (demo_codec demo_op) (butlast rec @ CRC_FIELD @ dec_of crc @ [CLOSE]) = Some (seq, id op, Some crc) \<and>
        (\<forall>p. strict_prefix p (butlast rec @ CRC_FIELD @ dec_of crc @ [CLOSE]) \<longrightarrow> from_slice (demo_codec demo_op) p = None \<and> fields_of (demo_codec demo_op) p = None)"
    if crc: "crc < 2 ^ 32" for crc
  proof
    let ?line = "123 # dec_of seq @ CRC_FIELD @ dec_of crc @ [CLOSE]"
    have bl: "butlast rec @ CRC_FIELD @ dec_of crc @ [CLOSE] = ?line" by (simp add: rec(1) butlast_append)
    have "marker_pos ?line = Some (Suc (length (dec_of seq)))" using marker_last [of "dec_of crc" "123 # dec_of seq"] dec_digits(2) by simp
    moreover have "crc < 2 ^ 64" using crc by simp
    ultimately show "from_slice (demo_codec demo_op) (butlast rec @ CRC_FIELD @ dec_of crc @ [CLOSE]) = Some (seq, id op, Some crc)"
      unfolding bl using dec_roundtrip [OF seq] dec_roundtrip [of crc] crc by (simp add: demo_codec_def demo_read_def rec(2) butlast_append)
    have nc: "CLOSE \<notin> set (123 # dec_of seq @ CRC_FIELD @ dec_of crc)" using dig by (auto simp: crc_field CLOSE_def)
    have "p = [] \<or> last p \<noteq> CLOSE" if h: "strict_prefix p ?line" for p
    proof -
      define x where "x = 123 # dec_of seq @ CRC_FIELD @ dec_of crc"
      have "strict_prefix p (x @ [CLOSE])" using h by (simp add: x_def)
      then have "prefix p x" unfolding strict_prefix_def prefix_snoc by blast
      then have "set p \<subseteq> set x" by (rule set_mono_prefix)
      then have "p \<noteq> [] \<Longrightarrow> last p \<in> set x" using last_in_set [of p] by blast
      then show ?thesis using nc [folded x_def] by auto
    qed
    then show "\<forall>p. strict_prefix p (butlast rec @ CRC_FIELD @ dec_of crc @ [CLOSE]) \<longrightarrow> from_slice (demo_codec demo_op) p = None \<and> fields_of (demo_codec demo_op) p = None"
      unfolding bl by (auto simp: demo_codec_def demo_read_def Let_def)
  qed
  show "rec \<noteq> [] \<and> last rec = CLOSE \<and> NEWLINE \<notin> set rec \<and>
     (\<forall>crc < 2 ^ 32. from_slice (demo_codec demo_op) (butlast rec @ CRC_FIELD @ dec_of crc @ [CLOSE]) = Some (seq, id op, Some crc) \<and>
        (\<forall>p. strict_prefix p (butlast rec @ CRC_FIELD @ dec_of crc @ [CLOSE]) \<longrightarrow> from_slice (demo_codec demo_op) p = None \<and> fields_of (demo_codec demo_op) p = None))"
  proof (intro conjI)
    show "NEWLINE \<notin> set rec" unfolding rec(1) using dig [of NEWLINE seq] by (auto simp: NEWLINE_def CLOSE_def)
    show "\<forall>crc < 2 ^ 32. from_slice (demo_codec demo_op) (butlast rec @ CRC_FIELD @ dec_of crc @ [CLOSE]) = Some (seq, id op, Some crc) \<and>
        (\<forall>p. strict_prefix p (butlast rec @ CRC_FIELD @ dec_of crc @ [CLOSE]) \<longrightarrow> from_slice (demo_codec demo_op) p = None \<and> fields_of (demo_codec demo_op) p = None)"
      using read by blast
  qed (simp_all add: rec(1))
qed


definition demo_line :: "nat \<Rightarrow> rstr" where
  "demo_line seq = 123 # dec_of seq @ CRC_FIELD @ dec_of (unat (crc32c (123 # dec_of seq @ [CLOSE]))) @ [CLOSE]"

lemma demo_record_line: "record_line (demo_codec op) seq op = Some (demo_line seq)"
  by (simp add: record_line_def demo_codec_def demo_line_def butlast_append)

section \<open>Properties\<close>

text \<open>
  C8. A crash never costs a complete record and never makes up one. Take any clean log, with
  ascending sequence numbers, and let a crash leave any prefix of the next batch behind it. Replay
  then returns the operations above the watermark, in order, of the old records and of exactly those
  records of the batch whose whole line landed, the last newline apart, with the highest number observed;
  and it leaves a clean log of exactly these records: an unterminated fragment is cut off, a record that
  only lost its newline gets it back. In particular a log that was not cut short reads back whole.
\<close>
theorem replay_after_crash:
  assumes "codec_ok P C rt" "log_ok P (recs @ batch)" "log_bytes C recs = Some bs" "log_bytes C batch = Some buf" "prefix q buf"
  shows "\<exists>healed. log_bytes C (recs @ take (landed_records C batch q) batch) = Some healed \<and>
    replay C healthy_io (Some (bs @ q)) w =
      (Inr (pending_ops rt w (recs @ take (landed_records C batch q) batch), top_seq w (recs @ take (landed_records C batch q) batch)), Some healed) \<and>
    ((\<exists>t. bs @ q = healed @ t \<and> NEWLINE \<notin> set t) \<or> healed = bs @ q @ [NEWLINE])"
  using assms by (rule crash_tail)

text \<open>A record that lost only its newline is returned.\<close>

theorem replay_after_crash_witness:
  "\<exists>healed. replay (demo_codec True) healthy_io (Some ((demo_line 1 @ [NEWLINE]) @ demo_line 2)) 0 = (Inr ([True, True], 2), Some healed)"
proof -
  have "landed_records (demo_codec True) [(2, True)] (demo_line 2) = 1" by (simp add: demo_record_line)
  then show ?thesis
    using replay_after_crash [where rt = id and P = "\<lambda>_. True" and recs = "[(1, True)]" and batch = "[(2, True)]" and bs = "demo_line 1 @ [NEWLINE]" and
        buf = "demo_line 2 @ [NEWLINE]" and q = "demo_line 2" and w = 0 and C = "demo_codec True"]
    by (simp add: demo_codec_ok log_ok_def demo_record_line pending_ops_def top_seq_def del: append_assoc)
qed

text \<open>
  An append is all or nothing up to the disk: whatever fails, the file is the old one with a
  prefix of the batch behind it; an acknowledged append wrote the whole batch and reports its length,
  and a refused one whose rollback worked wrote nothing.
\<close>
theorem append_batch_effect:
  assumes "ops \<noteq> []" "batch_bytes C first ops = Some buf" "append_batch C io file first ops = (r, file')"
  shows "\<exists>q. prefix q buf \<and> case_option [] id file' = case_option [] id file @ q \<and> (file \<noteq> None \<longrightarrow> file' \<noteq> None) \<and>
    (\<forall>n. r = Inr n \<longrightarrow> q = buf \<and> n = length buf \<and> file' \<noteq> None) \<and> (\<forall>e. r = Inl e \<and> ap_rollback io = None \<longrightarrow> q = [])"
  using assms by (rule append_effect)

definition failing_io :: append_io where
  "failing_io = \<lparr>ap_open = None, ap_dir_sync = None, ap_remove = None, ap_dir_resync = None, ap_remove_again = None,
     ap_meta = None, ap_write = Some (2, OtherIo), ap_rollback = Some OtherIo\<rparr>"

lemma failing_append:
  "append_batch (demo_codec True) failing_io None 1 [True] = (Inl (Io OtherIo), Some (take 2 (demo_line 1 @ [NEWLINE])))"
  by (simp add: append_batch_def write_batch_def failing_io_def demo_record_line)

theorem append_batch_effect_witness:
  "\<exists>q. prefix q (demo_line 1 @ [NEWLINE]) \<and> take 2 (demo_line 1 @ [NEWLINE]) = q"
  using append_batch_effect [OF _ _ failing_append, of "demo_line 1 @ [NEWLINE]"] by (simp add: demo_record_line)



text \<open>
  What replication ships is what replay accepts: of a clean log, whatever unterminated bytes
  follow it, the shipper takes every record, in file order, with its number and its exact line, and
  nothing of the tail; it relies only on reading the same number and checksum off a record as replay.
\<close>
theorem shippable_records_complete:
  assumes C: "codec_ok P C rt" and ok: "log_ok P recs" and bs: "log_bytes C recs = Some bs" and q: "NEWLINE \<notin> set q"
    and seq: "\<forall>line n op crc. from_slice C line = Some (n, op, crc) \<longrightarrow> seq_only line = Some (n, crc)"
  shows "shippable_records seq_only (bs @ q) = Inr (map (\<lambda>r. (fst r, the (record_line C (fst r) (snd r)))) recs)"
proof -
  obtain lines where l: "\<forall>rest. split_lines (bs @ rest) = lines @ split_lines rest" "list_all2 (line_of C) lines recs"
    using log_lines [OF C _ bs] ok by (auto simp: log_ok_def)
  have "split_lines (bs @ q) = lines @ [q]" using l(1) split_one [OF q] by simp
  moreover have "ship_lines seq_only i lines = Inr (map (\<lambda>r. (fst r, the (record_line C (fst r) (snd r)))) recs)" for i
    using l(2) ok
  proof (induction lines recs arbitrary: i rule: list_all2_induct)
    case (Cons line lines r recs)
    have b: "fst r < 2 ^ 64" "log_ok P recs" "P (snd r)" using Cons.prems by (auto simp: log_ok_def)
    have rl: "record_line C (fst r) (snd r) = Some line" using Cons.hyps(1) by (simp add: line_of_def)
    obtain crc where "from_slice C line = Some (fst r, rt (snd r), Some crc)" "verify_record_crc line crc = Inr ()"
      using written_line(1) [OF C b(3) rl b(1)] by blast
    moreover from this have "seq_only line = Some (fst r, Some crc)" using seq by blast
    ultimately show ?case using Cons.IH [OF b(2)] rl by simp
  qed simp
  ultimately show ?thesis by (simp add: shippable_records_def)
qed

theorem shippable_records_complete_witness:
  "shippable_records (\<lambda>line. map_option (\<lambda>(n, op, crc). (n, crc)) (from_slice (demo_codec True) line)) ((demo_line 1 @ [NEWLINE]) @ [123]) =
     Inr (map (\<lambda>r. (fst r, the (record_line (demo_codec True) (fst r) (snd r)))) [(1, True)])"
  by (rule shippable_records_complete [OF demo_codec_ok, where P = "\<lambda>_. True"]) (simp_all add: log_ok_def demo_record_line NEWLINE_def)

end
