(* ===== verification/Compaction.thy ===== *)
theory Compaction
  imports Query Alias
begin

text \<open>
  Compaction (\<^verbatim>\<open>install_edge\<close> and \<^verbatim>\<open>compacted\<close> of \<^verbatim>\<open>src/context/write.rs\<close>): the live facts of a
  context installed at their totals in an empty one, then the aliases whose canonical name is
  still there. The capacity errors its signature carries cannot happen, because every name it
  interns was already held.
\<close>

section \<open>Installing one edge\<close>

definition install_attribution :: "nat \<Rightarrow> ctx \<Rightarrow> attribution \<Rightarrow> ctx option" where
  "install_attribution e c a = do {
     (source_id, c') \<leftarrow> intern_source c (as_source a);
     push_attribution c' e source_id (as_count a) (as_weight a) (as_paragraph a) }"

definition install_edge ::
    "unicode \<Rightarrow> ctx \<Rightarrow> rstr \<Rightarrow> rstr \<Rightarrow> rstr \<Rightarrow> nat \<Rightarrow> f64 \<Rightarrow> attribution list \<Rightarrow> (context_full + ctx) option" where
  "install_edge U c subject label object edge_count edge_sum attrs =
     (case ensure_room c subject label object (map_option as_source (nth_opt attrs 0)) of
        Inl full \<Rightarrow> Some (Inl full)
      | Inr _ \<Rightarrow> do {
          (subject_id, c1) \<leftarrow> intern_concept U c subject;
          (object_id, c2) \<leftarrow> intern_concept U c1 object;
          (label_id, c3) \<leftarrow> intern_label U c2 label;
          (edge_id, c4) \<leftarrow> push_edge c3 (new_edge subject_id label_id object_id edge_count edge_sum);
          c5 \<leftarrow> foldM (install_attribution edge_id) c4 attrs;
          Some (Inr c5) })"

section \<open>Compaction\<close>

record compaction_stats =
  cs_dead_edges :: nat
  cs_aliases_dropped :: nat

definition rebuilt_sum :: "association \<Rightarrow> f64" where
  "rebuilt_sum a = (let s = f64_mul (an_weight a) (f64_of_nat (an_count a))
     in if is_finite s then s else f64_copysign f64_max s)"

fun compact_edges ::
    "unicode \<Rightarrow> (nat \<Rightarrow> bool) \<Rightarrow> nat \<Rightarrow> association list \<Rightarrow> ctx \<Rightarrow> nat \<Rightarrow> (compaction_error + nat \<times> ctx \<times> nat) option" where
  "compact_edges U expired tick [] fresh dead = Some (Inr (tick, fresh, dead))"
| "compact_edges U expired tick (a # rest) fresh dead =
     (if expired tick then Some (Inl CompactionDeadlineExceeded)
      else if an_count a = 0 then compact_edges U expired (tick + 1) rest fresh (dead + 1)
      else do {
        r \<leftarrow> install_edge U fresh (an_subject a) (an_label a) (an_object a) (an_count a) (rebuilt_sum a) (an_attributions a);
        (case r of Inl full \<Rightarrow> Some (Inl (CompactionFull full))
         | Inr fresh' \<Rightarrow> compact_edges U expired (tick + 1) rest fresh' dead) })"

fun compact_aliases ::
    "(ctx \<Rightarrow> rstr \<Rightarrow> rstr \<Rightarrow> (alias_error + ctx) option) \<Rightarrow> (nat \<Rightarrow> bool) \<Rightarrow> nat \<Rightarrow> (rstr \<times> rstr) list \<Rightarrow> ctx \<Rightarrow> nat \<Rightarrow>
     (compaction_error + nat \<times> ctx \<times> nat) option" where
  "compact_aliases add expired tick [] fresh dropped = Some (Inr (tick, fresh, dropped))"
| "compact_aliases add expired tick ((alias, canonical) # rest) fresh dropped =
     (if expired tick then Some (Inl CompactionDeadlineExceeded)
      else do {
        r \<leftarrow> add fresh alias canonical;
        (case r of Inr fresh' \<Rightarrow> compact_aliases add expired (tick + 1) rest fresh' dropped
         | Inl (Full full) \<Rightarrow> Some (Inl (CompactionFull full))
         | Inl _ \<Rightarrow> compact_aliases add expired (tick + 1) rest fresh (dropped + 1)) })"

definition compacted :: "unicode \<Rightarrow> ctx \<Rightarrow> (nat \<Rightarrow> bool) \<Rightarrow> (compaction_error + ctx \<times> compaction_stats) option" where
  "compacted U c expired = do {
     as \<leftarrow> query_any c [] [] [];
     r1 \<leftarrow> compact_edges U expired 0 as ctx_default 0;
     (case r1 of Inl err \<Rightarrow> Some (Inl err)
      | Inr (t1, c1, dead) \<Rightarrow> do {
          cps \<leftarrow> concept_alias_pairs c;
          r2 \<leftarrow> compact_aliases (add_concept_alias U) expired t1 cps c1 0;
          (case r2 of Inl err \<Rightarrow> Some (Inl err)
           | Inr (t2, c2, d2) \<Rightarrow> do {
               lps \<leftarrow> label_alias_pairs c;
               r3 \<leftarrow> compact_aliases (add_label_alias U) expired t2 lps c2 d2;
               (case r3 of Inl err \<Rightarrow> Some (Inl err)
                | Inr (t3, c3, d3) \<Rightarrow> Some (Inr (c3, \<lparr>cs_dead_edges = dead, cs_aliases_dropped = d3\<rparr>))) }) }) }"

section \<open>Capacity\<close>

text \<open>The bytes and the ids of a namespace are those of its spellings.\<close>

lemma ns_dom:
  assumes "ns_ok ar rs als ids"
  shows "finite (dom ids)" "card (dom ids) = length rs + length als"
    "(\<Sum>x \<in> dom ids. length x) = sum_list (map snd rs) + sum_list (map al_name_len als)"
proof -
  let ?xs = "map fst (spellings ar rs als)"
  have D: "dom ids = set ?xs" using assms by (force simp: ns_ok_def dom_def)
  have d: "distinct ?xs" using assms by (simp only: ns_ok_def)
  show "finite (dom ids)" unfolding D by simp
  show "card (dom ids) = length rs + length als" unfolding D using distinct_card [OF d] by simp
  have len: "length (name_at ar r) = snd r" if "range_ok ar r" for r using that by (simp add: range_ok_def length_name_at)
  have a: "map (length \<circ> name_at ar) rs = map snd rs" using assms len by (auto simp: ns_ok_def)
  have b: "map (length \<circ> (\<lambda>a. name_at ar (alias_range a))) als = map al_name_len als"
    using assms len by (auto simp: ns_ok_def alias_range_def)
  have "(\<Sum>x \<in> dom ids. length x) = sum_list (map length ?xs)" unfolding D by (rule sum.distinct_set_conv_list [OF d])
  also have "\<dots> = sum_list (map snd rs) + sum_list (map al_name_len als)" by (simp add: map_fst_spellings a b)
  finally show "(\<Sum>x \<in> dom ids. length x) = sum_list (map snd rs) + sum_list (map al_name_len als)" .
qed

lemma ctx_ns:
  assumes "ctx_inv U c"
  shows "ns_ok (arena c) (concept_ranges c) (concept_aliases c) (concept_ids c)"
    "ns_ok (arena c) (label_ranges c) (label_aliases c) (label_ids c)" "ns_ok (arena c) (source_ranges c) [] (source_ids c)"
  using ctx_invD(1) [OF assms] by (simp_all add: names_inv_def)

lemma ctx_bytes:
  assumes "ctx_inv U c"
  shows "length (arena c) = (\<Sum>x \<in> dom (concept_ids c). length x) + (\<Sum>x \<in> dom (label_ids c). length x) +
     (\<Sum>x \<in> dom (source_ids c). length x) + arena_slack c"
  using ctx_invD(9) [OF assms] ns_dom(3) [OF ctx_ns(1) [OF assms]] ns_dom(3) [OF ctx_ns(2) [OF assms]] ns_dom(3) [OF ctx_ns(3) [OF assms]]
  by (simp add: slack_inv_def live_bytes_def)

text \<open>A compacting context holds only spellings of the one it compacts, with no slack.\<close>

definition within :: "ctx \<Rightarrow> ctx \<Rightarrow> bool" where
  "within g c \<longleftrightarrow> dom (concept_ids g) \<subseteq> dom (concept_ids c) \<and> dom (label_ids g) \<subseteq> dom (label_ids c) \<and>
     dom (source_ids g) \<subseteq> dom (source_ids c) \<and> arena_slack g = 0"

lemma sum_grow:
  assumes "finite B" "A \<subseteq> B" "X \<subseteq> B"
  shows "(\<Sum>x \<in> A. f x) + (\<Sum>x \<in> X - A. f x) \<le> (\<Sum>x \<in> B. f x :: nat)"
proof -
  have "(\<Sum>x \<in> A. f x) + (\<Sum>x \<in> X - A. f x) = (\<Sum>x \<in> A \<union> (X - A). f x)"
    using assms by (intro sum.union_disjoint [symmetric]) (auto intro: finite_subset)
  also have "\<dots> \<le> (\<Sum>x \<in> B. f x)" using assms by (intro sum_mono2) auto
  finally show ?thesis .
qed

lemma within_bytes:
  assumes inv: "ctx_inv U c" "ctx_inv U g" and w: "within g c"
    and sub: "X \<subseteq> dom (concept_ids c)" "Y \<subseteq> dom (label_ids c)" "Z \<subseteq> dom (source_ids c)"
  shows "length (arena g) + (\<Sum>x \<in> X - dom (concept_ids g). length x) + (\<Sum>x \<in> Y - dom (label_ids g). length x) +
     (\<Sum>x \<in> Z - dom (source_ids g). length x) \<le> u32_max"
proof -
  note D = ns_dom(1) [OF ctx_ns(1) [OF inv(1)]] ns_dom(1) [OF ctx_ns(2) [OF inv(1)]] ns_dom(1) [OF ctx_ns(3) [OF inv(1)]]
  note W = w [unfolded within_def]
  have "(\<Sum>x \<in> dom (concept_ids g). length x) + (\<Sum>x \<in> X - dom (concept_ids g). length x) \<le> (\<Sum>x \<in> dom (concept_ids c). length x)"
    using sum_grow [OF D(1) _ sub(1)] W by blast
  moreover have "(\<Sum>x \<in> dom (label_ids g). length x) + (\<Sum>x \<in> Y - dom (label_ids g). length x) \<le> (\<Sum>x \<in> dom (label_ids c). length x)"
    using sum_grow [OF D(2) _ sub(2)] W by blast
  moreover have "(\<Sum>x \<in> dom (source_ids g). length x) + (\<Sum>x \<in> Z - dom (source_ids g). length x) \<le> (\<Sum>x \<in> dom (source_ids c). length x)"
    using sum_grow [OF D(3) _ sub(3)] W by blast
  moreover have "length (arena c) \<le> u32_max" using ctx_invD(2) [OF inv(1)] by (simp add: bounds_inv_def)
  ultimately show ?thesis using ctx_bytes [OF inv(1)] ctx_bytes [OF inv(2)] W by linarith
qed

lemma within_ids:
  assumes inv: "ctx_inv U c"
  shows "card (dom (concept_ids c)) < NIL" "card (dom (label_ids c)) < NIL" "card (dom (source_ids c)) < NIL"
proof -
  have b: "length (arena c) \<le> u32_max" using ctx_invD(2) [OF inv] by (simp add: bounds_inv_def)
  show "card (dom (concept_ids c)) < NIL"
    using ns_ok_capacity [OF ctx_ns(1) [OF inv] slack_bounds(1) [OF inv]] ns_dom(2) [OF ctx_ns(1) [OF inv]] by simp
  show "card (dom (label_ids c)) < NIL"
    using ns_ok_capacity [OF ctx_ns(2) [OF inv] slack_bounds(2) [OF inv]] ns_dom(2) [OF ctx_ns(2) [OF inv]] by simp
  have "sum_list (map snd (source_ranges c)) + sum_list (map al_name_len ([] :: alias_record list)) \<le> u32_max"
    using ctx_invD(9) [OF inv] b by (simp add: slack_inv_def live_bytes_def)
  from ns_ok_capacity [OF ctx_ns(3) [OF inv] this]
  show "card (dom (source_ids c)) < NIL" using ns_dom(2) [OF ctx_ns(3) [OF inv]] by simp
qed

lemma within_count:
  assumes "finite B" "A \<subseteq> B" "x \<in> B" "x \<notin> A" shows "card A < card B"
  using assms by (intro psubset_card_mono) auto

lemma within_ensure_room:
  assumes inv: "ctx_inv U c" "ctx_inv U g" and w: "within g c"
    and n: "subject \<in> dom (concept_ids c)" "object \<in> dom (concept_ids c)" "label \<in> dom (label_ids c)" "set_option source \<subseteq> dom (source_ids c)"
    and t: "length (edges g) < NIL" "source \<noteq> None \<Longrightarrow> length (attributions g) < NIL"
  shows "ensure_room g subject label object source = Inr ()"
proof -
  note G = ns_dom(2) [OF ctx_ns(1) [OF inv(2)]] ns_dom(2) [OF ctx_ns(2) [OF inv(2)]] ns_dom(2) [OF ctx_ns(3) [OF inv(2)]]
  note F = ns_dom(1) [OF ctx_ns(1) [OF inv(1)]] ns_dom(1) [OF ctx_ns(2) [OF inv(1)]] ns_dom(1) [OF ctx_ns(3) [OF inv(1)]]
  note W = w [unfolded within_def]
  let ?D = "dom (concept_ids g)"
  have "card (?D \<union> {subject, object}) \<le> card (dom (concept_ids c))" using F(1) W n(1,2) by (intro card_mono) auto
  moreover have "card (?D \<union> {subject, object}) = card ?D + (if concept_ids g subject = None then 1 else 0) +
      (if object \<noteq> subject \<and> concept_ids g object = None then 1 else 0)"
    using ns_dom(1) [OF ctx_ns(1) [OF inv(2)]] by (auto simp: card_insert_if domIff)
  ultimately have c1: "length (concepts g) + ((if concept_ids g subject = None then 1 else 0) +
      (if object \<noteq> subject \<and> concept_ids g object = None then 1 else 0)) \<le> NIL"
    using within_ids(1) [OF inv(1)] G(1) by simp
  have c2: "length (labels g) < NIL" if "label_ids g label = None"
  proof -
    have "card (dom (label_ids g)) < card (dom (label_ids c))"
      by (rule within_count [OF F(2) _ n(3)]) (use W that in auto)
    then show ?thesis using within_ids(2) [OF inv(1)] G(2) by simp
  qed
  have c3: "length (sources g) < NIL" if "source = Some s" "source_ids g s = None" for s
  proof -
    have "card (dom (source_ids g)) < card (dom (source_ids c))"
      by (rule within_count [OF F(3), of _ s]) (use W n(4) that in auto)
    then show ?thesis using within_ids(3) [OF inv(1)] G(3) by simp
  qed
  have "(\<Sum>x \<in> {subject, object} - ?D. length x) = (if concept_ids g subject = None then length subject else 0) +
      (if object \<noteq> subject \<and> concept_ids g object = None then length object else 0)"
    by (cases "subject \<in> ?D"; cases "object \<in> ?D"; cases "object = subject") (auto simp: insert_Diff_if domIff)
  moreover have "(\<Sum>x \<in> {label} - dom (label_ids g). length x) = (if label_ids g label = None then length label else 0)"
    by (cases "label \<in> dom (label_ids g)") (auto simp: insert_Diff_if domIff)
  moreover have "(\<Sum>x \<in> set_option source - dom (source_ids g). length x) =
      (case source of None \<Rightarrow> 0 | Some s \<Rightarrow> if source_ids g s = None then length s else 0)"
    by (cases source; cases "the source \<in> dom (source_ids g)") (auto simp: insert_Diff_if domIff)
  ultimately have c4: "length (arena g) + ((if concept_ids g subject = None then length subject else 0) +
      (if object \<noteq> subject \<and> concept_ids g object = None then length object else 0) +
      (if label_ids g label = None then length label else 0) +
      (case source of None \<Rightarrow> 0 | Some s \<Rightarrow> if source_ids g s = None then length s else 0)) \<le> u32_max"
    using within_bytes [OF inv w, of "{subject, object}" "{label}" "set_option source"] n by simp
  have bl: "length (concepts g) \<le> NIL" using ctx_invD(2) [OF inv(2)] by (simp add: bounds_inv_def)
  show ?thesis
  proof (cases source)
    case None
    then show ?thesis using c1 c2 c4 t bl
      by (auto simp: ensure_room_def Let_def ids_left_iff ids_left_1 [simplified] arena_fits_iff add.assoc split: if_splits)
  next
    case (Some s)
    then show ?thesis using c1 c2 c3 c4 t bl
      by (auto simp: ensure_room_def Let_def ids_left_iff ids_left_1 [simplified] arena_fits_iff add.assoc split: option.splits if_splits)
  qed
qed

section \<open>The facts of a well-formed context\<close>

definition fact_names :: "fact \<Rightarrow> rstr set" where
  "fact_names x = {fa_subject x, fa_object x}"

definition fact_ok :: "ctx \<Rightarrow> fact \<Rightarrow> bool" where
  "fact_ok c x \<longleftrightarrow> fact_names x \<subseteq> dom (concept_ids c) \<and> fa_label x \<in> dom (label_ids c) \<and>
     Ball (fact_names x) utf8_valid \<and> utf8_valid (fa_label x) \<and> fa_count x < 2 ^ 64 \<and> is_finite (fa_sum x) \<and>
     distinct (map as_source (fa_attrs x)) \<and> sum_list (map as_count (fa_attrs x)) \<le> fa_count x \<and>
     list_all (\<lambda>a. as_source a \<in> dom (source_ids c) \<and> utf8_valid (as_source a) \<and> 0 < as_count a \<and> is_finite (as_weight a) \<and>
       (\<forall>q. as_paragraph a = Some q \<longrightarrow> q < 2 ^ 32)) (fa_attrs x)"

lemma names_valid:
  assumes "ctx_inv U c"
  shows "i < length (concepts c) \<Longrightarrow> cname c i \<in> dom (concept_ids c) \<and> utf8_valid (cname c i)"
    "i < length (labels c) \<Longrightarrow> lname c i \<in> dom (label_ids c) \<and> utf8_valid (lname c i)"
    "i < length (sources c) \<Longrightarrow> sname c i \<in> dom (source_ids c) \<and> utf8_valid (sname c i)"
  using name_ids [OF ctx_invD(1) [OF assms], of i] ranges_ok [OF ctx_invD(1) [OF assms], of i]
  by (auto simp: range_ok_def cname_def lname_def sname_def)

lemma locator_small: "locators_inv c \<Longrightarrow> locator_map (attribution_locators c) a = Some q \<Longrightarrow> q < 2 ^ 32"
  by (auto simp: locator_map_def locators_inv_def dest!: map_of_SomeD)

lemma facts_ok:
  assumes inv: "ctx_inv U c" and x: "x \<in> set (facts c)"
  shows "fact_ok c x"
proof -
  note I = ctx_invD [OF inv]
  obtain f where f: "attr_inv c f" using I(7) by blast
  obtain e where e: "e < length (edges c)" and xe: "x = fact_of c e" using x by (auto simp: facts_def)
  have X: "x = fact_with c (edges c ! e) (f e)" using fact_of_eq [OF f e] xe by simp
  note b = edge_bounds [OF I(5) e]
  have ok: "edge_attr_ok (attributions c) (length (sources c)) (edges c ! e) (f e)" using f e by (simp add: attr_defs)
  have inj: "sname c i = sname c j \<longleftrightarrow> i = j" if "i < length (sources c)" "j < length (sources c)" for i j
    using name_ids(3) [OF I(1)] that by (metis option.inject)
  have "distinct (map (sname c) (map (\<lambda>a. at_source (attributions c ! a)) (f e)))"
    unfolding distinct_map using ok inj by (auto simp: edge_attr_ok_def distinct_map inj_on_def)
  then have d: "distinct (map as_source (fa_attrs x))" by (simp add: X fact_with_def comp_def att_view_def)
  have "list_all (\<lambda>a. as_source a \<in> dom (source_ids c) \<and> utf8_valid (as_source a) \<and> 0 < as_count a \<and> is_finite (as_weight a) \<and>
       (\<forall>q. as_paragraph a = Some q \<longrightarrow> q < 2 ^ 32)) (fa_attrs x)"
    using ok names_valid(3) [OF inv] locator_small [OF I(8)]
    by (auto simp: X fact_with_def list_all_iff att_view_def edge_attr_ok_def)
  with d show ?thesis
    using fact_counts [OF inv e] ok names_valid(1,2) [OF inv] b
    unfolding fact_ok_def xe [symmetric] by (simp add: X fact_with_def fact_names_def edge_attr_ok_def)
qed

definition fact_triple :: "fact \<Rightarrow> rstr \<times> rstr \<times> rstr" where
  "fact_triple x = (fa_subject x, fa_label x, fa_object x)"

lemma facts_triples:
  assumes inv: "ctx_inv U c" shows "distinct (map fact_triple (facts c))"
proof -
  note I = ctx_invD [OF inv]
  have "i = j" if i: "i < length (edges c)" and j: "j < length (edges c)" and eq: "fact_triple (fact_of c i) = fact_triple (fact_of c j)" for i j
  proof -
    let ?r = "edges c ! i"
    have iff: "same_triple (cname c (ed_subject ?r)) (lname c (ed_label ?r)) (cname c (ed_object ?r)) (fact_of c e) \<longleftrightarrow>
        edge_ids c (ed_subject ?r, ed_label ?r, ed_object ?r) = Some e" if "e < length (edges c)" for e
      using fact_triple_iff [OF I(1,5)] edge_bounds [OF I(5) i] that by blast
    have "same_triple (cname c (ed_subject ?r)) (lname c (ed_label ?r)) (cname c (ed_object ?r)) (fact_of c i)"
      by (simp add: same_triple_def fact_of_def fact_with_def)
    moreover from this have "same_triple (cname c (ed_subject ?r)) (lname c (ed_label ?r)) (cname c (ed_object ?r)) (fact_of c j)"
      using eq by (simp add: same_triple_def fact_triple_def)
    ultimately show ?thesis using iff [OF i] iff [OF j] by simp
  qed
  then show ?thesis by (auto simp: facts_def distinct_map inj_on_def)
qed

text \<open>How many attribution records the facts of a context take.\<close>

definition attr_total :: "fact list \<Rightarrow> nat" where
  "attr_total xs = sum_list (map (\<lambda>x. length (fa_attrs x)) xs)"

lemma attr_total_append [simp]: "attr_total (xs @ ys) = attr_total xs + attr_total ys"
  and attr_total_Cons [simp]: "attr_total (x # xs) = length (fa_attrs x) + attr_total xs"
  and attr_total_Nil [simp]: "attr_total [] = 0"
  by (simp_all add: attr_total_def)

lemma attr_total_filter: "attr_total (filter P xs) \<le> attr_total xs"
  by (induction xs) auto

lemma dead_attributions_total:
  assumes "ctx_inv U c" shows "dead_attributions c + attr_total (facts c) = length (attributions c)"
    and "dead_edges c = length (filter (\<lambda>x. fa_count x = 0) (facts c))"
proof -
  obtain f where f: "attr_inv c f" using ctx_invD(7) [OF assms] by blast
  have "attr_total (facts c) = (\<Sum>e < length (edges c). length (f e))"
  proof -
    have "map (\<lambda>x. length (fa_attrs x)) (facts c) = map (\<lambda>e. length (f e)) [0..<length (edges c)]"
      by (rule nth_equalityI) (simp_all add: fact_of_eq [OF f] fact_with_def)
    then show ?thesis by (simp add: attr_total_def interv_sum_list_conv_sum_set_nat atLeast0LessThan [symmetric])
  qed
  then show "dead_attributions c + attr_total (facts c) = length (attributions c)" using f by (simp add: attr_defs)
  have "map fa_count (facts c) = map ed_count (edges c)"
    by (rule nth_equalityI) (simp_all add: fact_of_def fact_with_def)
  then have "length (filter (\<lambda>k. k = 0) (map fa_count (facts c))) = length (filter (\<lambda>k. k = 0) (map ed_count (edges c)))" by simp
  then have "length (filter (\<lambda>x. fa_count x = 0) (facts c)) = length (filter (\<lambda>e. ed_count e = 0) (edges c))"
    by (simp add: filter_map comp_def)
  moreover have "dead_edges c = length (filter (\<lambda>e. ed_count e = 0) (edges c))" using f unfolding attr_inv_def dead_ok_def by blast
  ultimately show "dead_edges c = length (filter (\<lambda>x. fa_count x = 0) (facts c))" by simp
qed


section \<open>Installing the attributions of one edge\<close>

lemma kb_grow_sources:
  assumes ext: "extends c c'" and inv: "ctx_inv U c" and ids: "concept_ids c' = concept_ids c" "label_ids c' = label_ids c"
  shows "kb_of c' = (kb_of c)\<lparr>kb_sources := dom (source_ids c')\<rparr>"
proof -
  note N = extends_names [OF ext ctx_invD(1) [OF inv]]
  have "map_option (cname c') (concept_ids c x) = map_option (cname c) (concept_ids c x)" for x
    using ids_bound(1) [OF inv] N(1) by (cases "concept_ids c x") auto
  moreover have "map_option (lname c') (label_ids c x) = map_option (lname c) (label_ids c x)" for x
    using ids_bound(2) [OF inv] N(2) by (cases "label_ids c x") auto
  ultimately show ?thesis using ids extends_facts [OF ext inv] by (simp add: kb_of_def)
qed

lemma within_same_names: "same_names g g' \<Longrightarrow> within g c \<Longrightarrow> within g' c"
  by (simp add: within_def same_names_def)

lemma within_source:
  assumes inv: "ctx_inv U c" "ctx_inv U g" and w: "within g c" and s: "s \<in> dom (source_ids c)" and v: "utf8_valid s"
  shows "\<exists>k g'. intern_source g s = Some (k, g') \<and> ctx_inv U g' \<and> within g' c \<and> extends g g' \<and> k < length (sources g') \<and>
     sname g' k = s \<and> kb_of g' = (kb_of g)\<lparr>kb_sources := insert s (kb_sources (kb_of g))\<rparr>"
proof -
  note W = w [unfolded within_def]
  have "length (sources g) < NIL \<and> length (arena g) + length s \<le> u32_max" if none: "source_ids g s = None"
  proof -
    have "card (dom (source_ids g)) < card (dom (source_ids c))"
      by (rule within_count [OF ns_dom(1) [OF ctx_ns(3) [OF inv(1)]] _ s]) (use W none in auto)
    moreover have "{s} - dom (source_ids g) = {s}" using none by auto
    then have "length (arena g) + length s \<le> u32_max" using within_bytes [OF inv w, of "{}" "{}" "{s}"] s by simp
    ultimately show ?thesis using within_ids(3) [OF inv(1)] ns_dom(2) [OF ctx_ns(3) [OF inv(2)]] by simp
  qed
  from source_interner.intern_spec [OF inv(2) v this]
  obtain k g' where g': "intern_source g s = Some (k, g')" "ctx_inv U g'" "same_but_sources g g'" "k < length (sources g')"
    "source_ids g' = (source_ids g)(s \<mapsto> k)" by blast
  note S = extends_same(3) [OF g'(3)]
  have ext: "extends g g'" using S by simp
  have "within g' c" using W S s g'(5) by (auto simp: within_def extends_def)
  moreover have "sname g' k = s"
    using extends_canon(3) [OF ext ctx_invD(1) [OF inv(2)] ctx_invD(1) [OF g'(2)]] g'(5) by simp
  moreover have "kb_of g' = (kb_of g)\<lparr>kb_sources := insert s (kb_sources (kb_of g))\<rparr>"
    using kb_grow_sources [OF ext inv(2)] S g'(5) by (simp add: kb_of_def)
  ultimately show ?thesis using g' ext by blast
qed

lemma install_attributions:
  assumes inv: "ctx_inv U c" "ctx_inv U g" and w: "within g c"
    and F: "facts g = xs @ [y]" and y: "fa_attrs y = ds"
    and d: "distinct (map as_source (ds @ as))" and cnt: "sum_list (map as_count (ds @ as)) \<le> fa_count y"
    and ok: "list_all (\<lambda>a. as_source a \<in> dom (source_ids c) \<and> utf8_valid (as_source a) \<and> 0 < as_count a \<and> is_finite (as_weight a) \<and>
       (\<forall>q. as_paragraph a = Some q \<longrightarrow> q < 2 ^ 32)) as"
    and room: "length (attributions g) + length as \<le> NIL"
  shows "\<exists>g'. foldM (install_attribution (length xs)) g as = Some g' \<and> ctx_inv U g' \<and> within g' c \<and>
     length (attributions g') = length (attributions g) + length as \<and>
     kb_of g' = (kb_of g)\<lparr>kb_sources := kb_sources (kb_of g) \<union> as_source ` set as,
       kb_facts := xs @ [y\<lparr>fa_attrs := ds @ as\<rparr>]\<rparr>"
  using inv(2) w F y d cnt ok room
proof (induction as arbitrary: g y ds)
  case Nil
  then show ?case by (intro exI [of _ g]) (auto simp: kb_of_def)
next
  case (Cons a as)
  let ?e = "length xs"
  obtain k g1 where g1: "intern_source g (as_source a) = Some (k, g1)" "ctx_inv U g1" "within g1 c" "extends g g1" "k < length (sources g1)"
     "sname g1 k = as_source a" "kb_of g1 = (kb_of g)\<lparr>kb_sources := insert (as_source a) (kb_sources (kb_of g))\<rparr>"
    using within_source [OF inv(1) Cons.prems(1,2), of "as_source a"] Cons.prems(7) by auto
  have F1: "facts g1 = xs @ [y]" using extends_facts [OF g1(4) Cons.prems(1)] Cons.prems(3) by simp
  have e: "?e < length (edges g1)" using arg_cong [OF F1, of length] by simp
  have fe: "fact_of g1 ?e = y" using nth_facts [OF e] F1 by simp
  obtain f where f: "attr_inv g1 f" using ctx_invD(7) [OF g1(2)] by blast
  have new: "attribution_ids g1 (?e, k) = None"
    using attr_sources_listed(1) [OF ctx_invD(1) [OF g1(2)] f e g1(5)] Cons.prems(4,5) by (simp add: fe g1(6))
  have r: "length (attributions g1) < NIL" "length (attributions g1) = length (attributions g)"
    using g1(4) Cons.prems(8) by (simp_all add: extends_def)
  have m: "0 < as_count a" "sum_list (map as_count (fa_attrs (fact_of g1 ?e))) + as_count a \<le> fa_count (fact_of g1 ?e)"
    "is_finite (as_weight a)" "\<forall>q. as_paragraph a = Some q \<longrightarrow> q < 2 ^ 32"
    using Cons.prems(4,6,7) by (simp_all add: fe)
  obtain g2 where g2: "push_attribution g1 ?e k (as_count a) (as_weight a) (as_paragraph a) = Some g2" "ctx_inv U g2" "same_names g1 g2"
     "length (attributions g2) = Suc (length (attributions g1))"
     "facts g2 = (facts g1)[?e := (fact_of g1 ?e)\<lparr>fa_attrs := fa_attrs (fact_of g1 ?e) @
        [\<lparr>as_source = sname g1 k, as_weight = as_weight a, as_count = as_count a, as_paragraph = as_paragraph a\<rparr>]\<rparr>]"
    using push_attribution_stage [OF g1(2) e g1(5) new r(1) m] by blast
  let ?y = "y\<lparr>fa_attrs := ds @ [a]\<rparr>"
  have F2: "facts g2 = xs @ [?y]" using g2(5) Cons.prems(4) by (simp add: fe F1 g1(6))
  have "\<exists>g'. foldM (install_attribution ?e) g2 as = Some g' \<and> ctx_inv U g' \<and> within g' c \<and>
     length (attributions g') = length (attributions g2) + length as \<and>
     kb_of g' = (kb_of g2)\<lparr>kb_sources := kb_sources (kb_of g2) \<union> as_source ` set as,
       kb_facts := xs @ [?y\<lparr>fa_attrs := (ds @ [a]) @ as\<rparr>]\<rparr>"
    by (rule Cons.IH [OF g2(2) within_same_names [OF g2(3) g1(3)] F2]) (use Cons.prems(5-8) r g2(4) in auto)
  then obtain g' where g': "foldM (install_attribution ?e) g2 as = Some g'" "ctx_inv U g'" "within g' c"
     "length (attributions g') = length (attributions g2) + length as"
     "kb_of g' = (kb_of g2)\<lparr>kb_sources := kb_sources (kb_of g2) \<union> as_source ` set as,
       kb_facts := xs @ [?y\<lparr>fa_attrs := (ds @ [a]) @ as\<rparr>]\<rparr>" by blast
  have "kb_of g' = (kb_of g)\<lparr>kb_sources := kb_sources (kb_of g) \<union> as_source ` set (a # as),
       kb_facts := xs @ [y\<lparr>fa_attrs := ds @ a # as\<rparr>]\<rparr>"
    using g'(5) kb_same_names [OF g2(3) g1(2)] g1(7) by simp
  moreover have "install_attribution ?e g a = Some g2" using g1(1) g2(1) by (simp add: install_attribution_def)
  ultimately show ?case using g' g2(4) r(2) by (intro exI [of _ g']) simp
qed


section \<open>Installing one fact\<close>

definition rebuilt :: "fact \<Rightarrow> fact" where
  "rebuilt x = x\<lparr>fa_sum := rebuilt_sum (assoc_of x)\<rparr>"

lemma rebuilt_sum_finite: "is_finite (rebuilt_sum a)"
  by (simp add: rebuilt_sum_def Let_def)

definition named :: "rstr set \<Rightarrow> rstr \<rightharpoonup> rstr" where
  "named X = (\<lambda>n. if n \<in> X then Some n else None)"

definition fact_sources :: "fact \<Rightarrow> rstr set" where
  "fact_sources x = as_source ` set (fa_attrs x)"

text \<open>The knowledge base that holds just these facts.\<close>

definition kb_rebuilt :: "fact list \<Rightarrow> kb" where
  "kb_rebuilt xs = \<lparr>kb_concepts = named (\<Union>x \<in> set xs. fact_names x), kb_labels = named (fa_label ` set xs),
     kb_sources = (\<Union>x \<in> set xs. fact_sources x), kb_facts = map rebuilt xs\<rparr>"

definition rebuilding :: "unicode \<Rightarrow> ctx \<Rightarrow> fact list \<Rightarrow> ctx \<Rightarrow> bool" where
  "rebuilding U c xs g \<longleftrightarrow> ctx_inv U g \<and> within g c \<and> length (attributions g) = attr_total xs \<and> kb_of g = kb_rebuilt xs"

lemma canon_named: "canon (named X) n = n"
  by (simp add: canon_def named_def)

lemma named_upd: "(named X)(n \<mapsto> n) = named (insert n X)"
  by (auto simp: named_def)

lemma install_edge_spec:
  assumes inv: "ctx_inv U c" and g: "rebuilding U c xs g" and ok: "fact_ok c x" and live: "0 < fa_count x"
    and new: "fact_triple x \<notin> fact_triple ` set xs"
    and room: "length xs < NIL" "attr_total xs + length (fa_attrs x) \<le> NIL"
  shows "\<exists>g'. install_edge U g (fa_subject x) (fa_label x) (fa_object x) (fa_count x) (rebuilt_sum (assoc_of x)) (fa_attrs x)
      = Some (Inr g') \<and> rebuilding U c (xs @ [x]) g'"
proof -
  note G = g [unfolded rebuilding_def] and O = ok [unfolded fact_ok_def fact_names_def]
  have gi: "ctx_inv U g" and w: "within g c" and at: "length (attributions g) = attr_total xs" and kb: "kb_of g = kb_rebuilt xs"
    using G by simp_all
  have fg: "facts g = map rebuilt xs" using kb by (simp add: kb_of_def kb_rebuilt_def)
  have le: "length (edges g) = length xs" using length_facts [of g] unfolding fg by simp
  have r0: "fa_attrs x \<noteq> [] \<Longrightarrow> attr_total xs < NIL" using room(2) by (cases "fa_attrs x") auto
  have er: "ensure_room g (fa_subject x) (fa_label x) (fa_object x) src = Inr ()"
    if "src = None \<or> src = map_option as_source (nth_opt (fa_attrs x) 0)" for src
    by (rule within_ensure_room [OF inv gi w])
       (use O room le at that r0 in \<open>auto simp: nth_opt_def list_all_length split: if_splits\<close>)
  obtain s c1 ob c2 l c3 where n: "intern_concept U g (fa_subject x) = Some (s, c1)" "intern_concept U c1 (fa_object x) = Some (ob, c2)"
      "intern_label U c2 (fa_label x) = Some (l, c3)" and i3: "ctx_inv U c3" and ext: "extends g c3"
    and b: "s < length (concepts c3)" "l < length (labels c3)" "ob < length (concepts c3)"
    and ids: "concept_ids c3 = (concept_ids g)(fa_subject x \<mapsto> s, fa_object x \<mapsto> ob)" "label_ids c3 = (label_ids g)(fa_label x \<mapsto> l)"
     "source_ids c3 = source_ids g" "concept_ids c3 (fa_subject x) = Some s"
    using upsert_names [OF gi _ _ _ _ er [of None]] O by (auto simp: intern_source_opt_def)
  note N = ctx_invD(1) [OF gi] ctx_invD(1) [OF i3]
  have nm: "cname c3 s = fa_subject x" "cname c3 ob = fa_object x" "lname c3 l = fa_label x"
    using extends_canon [OF ext N] ids by (simp_all add: kb kb_rebuilt_def canon_named)
  have kb3: "kb_of c3 = \<lparr>kb_concepts = (kb_concepts (kb_of g))(fa_subject x \<mapsto> fa_subject x, fa_object x \<mapsto> fa_object x),
    kb_labels = (kb_labels (kb_of g))(fa_label x \<mapsto> fa_label x), kb_sources = kb_sources (kb_of g) \<union> set_option None, kb_facts = kb_facts (kb_of g)\<rparr>"
    using kb_extends [OF ext gi i3 ids(1,2), of None] by (simp add: nm ids(3))
  have f3: "facts c3 = map rebuilt xs" using extends_facts [OF ext gi] fg by simp
  have e3: "edges c3 = edges g" "attributions c3 = attributions g" using ext by (simp_all add: extends_def)
  have none: "edge_ids c3 (s, l, ob) = None"
  proof (rule ccontr)
    assume "edge_ids c3 (s, l, ob) \<noteq> None"
    then obtain e where e: "edge_ids c3 (s, l, ob) = Some e" by blast
    then have el: "e < length (edges c3)" using edge_ids_iff [OF ctx_invD(5) [OF i3]] by blast
    then have "same_triple (fa_subject x) (fa_label x) (fa_object x) (facts c3 ! e)"
      using fact_triple_iff [OF ctx_invD(1,5) [OF i3] b el] e by (simp add: nm)
    then have "fact_triple x = fact_triple (xs ! e)" using el e3 le by (simp add: f3 same_triple_def fact_triple_def rebuilt_def)
    then show False using new el e3 le by auto
  qed
  obtain c4 where c4: "push_edge c3 (new_edge s l ob (fa_count x) (rebuilt_sum (assoc_of x))) = Some (length (edges c3), c4)" "ctx_inv U c4"
     "same_names c3 c4" "attributions c4 = attributions c3" 
     "facts c4 = facts c3 @ [(fact_new (fa_subject x) (fa_label x) (fa_object x) (rebuilt_sum (assoc_of x)))\<lparr>fa_count := fa_count x\<rparr>]"
    using push_edge_stage [OF i3 _ b none rebuilt_sum_finite live, of "assoc_of x"] room e3 le O unfolding nm by auto
  have w3: "within c3 c" using w ids ext O by (auto simp: within_def extends_def)
  let ?y = "(fact_new (fa_subject x) (fa_label x) (fa_object x) (rebuilt_sum (assoc_of x)))\<lparr>fa_count := fa_count x\<rparr>"
  have F4: "facts c4 = map rebuilt xs @ [?y]" using c4(5) f3 by simp
  obtain g' where g': "foldM (install_attribution (length (map rebuilt xs))) c4 (fa_attrs x) = Some g'" "ctx_inv U g'" "within g' c"
     "length (attributions g') = length (attributions c4) + length (fa_attrs x)"
     "kb_of g' = (kb_of c4)\<lparr>kb_sources := kb_sources (kb_of c4) \<union> as_source ` set (fa_attrs x),
       kb_facts := map rebuilt xs @ [?y\<lparr>fa_attrs := [] @ fa_attrs x\<rparr>]\<rparr>"
    using install_attributions [OF inv c4(2) within_same_names [OF c4(3) w3] F4, of "[]" "fa_attrs x"] O room at c4(4) e3
    by (auto simp: fact_new_def)
  have "?y\<lparr>fa_attrs := [] @ fa_attrs x\<rparr> = rebuilt x" by (simp add: fact_new_def rebuilt_def)
  then have "kb_of g' = kb_rebuilt (xs @ [x])"
    using g'(5) unfolding kb_same_names [OF c4(3) i3] kb3 kb
    by (simp add: kb_rebuilt_def named_upd fact_names_def fact_sources_def insert_commute Un_commute del: fun_upd_apply)
  then have "rebuilding U c (xs @ [x]) g'" using g' c4(4) e3 at by (simp add: rebuilding_def)
  moreover have "install_edge U g (fa_subject x) (fa_label x) (fa_object x) (fa_count x) (rebuilt_sum (assoc_of x)) (fa_attrs x) = Some (Inr g')"
    using er [of "map_option as_source (nth_opt (fa_attrs x) 0)"] n c4(1) g'(1) e3 le by (simp add: install_edge_def)
  ultimately show ?thesis by blast
qed


section \<open>The live facts\<close>

definition is_live :: "fact \<Rightarrow> bool" where
  "is_live x \<longleftrightarrow> fa_count x \<noteq> 0"

text \<open>A poll at one of the ticks \<open>t \<le> i < t + n\<close> fires.\<close>

definition fires :: "(nat \<Rightarrow> bool) \<Rightarrow> nat \<Rightarrow> nat \<Rightarrow> bool" where
  "fires expired t n \<longleftrightarrow> (\<exists>i. t \<le> i \<and> i < t + n \<and> expired i)"

lemma fires_0 [simp]: "\<not> fires expired t 0"
  by (simp add: fires_def)

lemma fires_Suc: "fires expired t (Suc n) \<longleftrightarrow> expired t \<or> fires expired (Suc t) n"
  unfolding fires_def by (metis Suc_le_eq add_Suc add_Suc_right le_add1 le_eq_less_or_eq less_add_Suc1)

lemma fires_add: "fires expired t (m + n) \<longleftrightarrow> fires expired t m \<or> fires expired (t + m) n"
  by (induction m arbitrary: t) (auto simp: fires_Suc)

lemma facts_room:
  assumes inv: "ctx_inv U c" and f: "facts c = pre @ x # ys" and x: "is_live x"
  shows "length (filter is_live pre) < NIL" "attr_total (filter is_live pre) + length (fa_attrs x) \<le> NIL"
    "fact_triple x \<notin> fact_triple ` set (filter is_live pre)"
proof -
  have b: "length (edges c) \<le> NIL" "length (attributions c) \<le> NIL" using ctx_invD(2) [OF inv] by (simp_all add: bounds_inv_def)
  have "length (edges c) = length pre + Suc (length ys)" using length_facts [of c] unfolding f by simp
  then show "length (filter is_live pre) < NIL" using b length_filter_le [of is_live pre] by linarith
  show "attr_total (filter is_live pre) + length (fa_attrs x) \<le> NIL"
    using dead_attributions_total(1) [OF inv] b attr_total_filter [of is_live pre] by (simp add: f)
  show "fact_triple x \<notin> fact_triple ` set (filter is_live pre)" using facts_triples [OF inv] by (auto simp: f)
qed

lemma compact_edges_spec:
  assumes inv: "ctx_inv U c" and f: "facts c = pre @ ys" and g: "rebuilding U c (filter is_live pre) g"
  shows "\<exists>g'. rebuilding U c (filter is_live (facts c)) g' \<and> compact_edges U expired t (map assoc_of ys) g dead =
     Some (if fires expired t (length ys) then Inl CompactionDeadlineExceeded
           else Inr (t + length ys, g', dead + length (filter (\<lambda>x. \<not> is_live x) ys)))"
  using f g
proof (induction ys arbitrary: pre g t dead)
  case Nil
  then show ?case by auto
next
  case (Cons x ys)
  have f': "facts c = (pre @ [x]) @ ys" using Cons.prems(1) by simp
  have an: "an_subject (assoc_of x) = fa_subject x" "an_label (assoc_of x) = fa_label x" "an_object (assoc_of x) = fa_object x"
    "an_count (assoc_of x) = fa_count x" "an_attributions (assoc_of x) = fa_attrs x" by (simp_all add: assoc_of_def)
  show ?case
  proof (cases "is_live x")
    case False
    then have "rebuilding U c (filter is_live (pre @ [x])) g" using Cons.prems(2) by simp
    from Cons.IH [OF f' this, of "Suc t" "Suc dead"] False show ?thesis by (auto simp: an fires_Suc is_live_def)
  next
    case True
    have ok: "fact_ok c x" using facts_ok [OF inv] Cons.prems(1) by simp
    have lv: "0 < fa_count x" using True by (simp add: is_live_def)
    note R = facts_room [OF inv Cons.prems(1) True]
    obtain g1 where g1: "install_edge U g (fa_subject x) (fa_label x) (fa_object x) (fa_count x) (rebuilt_sum (assoc_of x)) (fa_attrs x)
      = Some (Inr g1)" "rebuilding U c (filter is_live pre @ [x]) g1"
      using install_edge_spec [OF inv Cons.prems(2) ok lv R(3,1,2)] by blast
    then have "rebuilding U c (filter is_live (pre @ [x])) g1" using True by simp
    from Cons.IH [OF f' this, of "Suc t" dead] True g1(1) show ?thesis by (auto simp: an fires_Suc is_live_def)
  qed
qed

lemma rebuilding_default: "rebuilding U c [] ctx_default"
  using ctx_inv_default [of U] kb_default
  by (simp add: rebuilding_def within_def kb_rebuilt_def named_def) (simp add: ctx_default_def)

section \<open>The aliases\<close>

text \<open>
  Carrying over the aliases of one namespace: registration in a compacting context meets neither a
  conflict nor a full table, so it succeeds exactly when the canonical name is there.
\<close>

locale alias_carrier =
  fixes U :: unicode
    and add :: "ctx \<Rightarrow> rstr \<Rightarrow> rstr \<Rightarrow> (alias_error + ctx) option"
    and names :: "kb \<Rightarrow> rstr \<rightharpoonup> rstr"
    and set_names :: "(rstr \<rightharpoonup> rstr) \<Rightarrow> kb \<Rightarrow> kb"
  assumes unknown: "ctx_inv U g \<Longrightarrow> utf8_valid a \<Longrightarrow> names (kb_of g) n = None \<Longrightarrow> add g a n = Some (Inl UnknownCanonical)"
    and carried: "ctx_inv U c \<Longrightarrow> ctx_inv U g \<Longrightarrow> within g c \<Longrightarrow> utf8_valid a \<Longrightarrow> names (kb_of c) a \<noteq> None \<Longrightarrow>
       names (kb_of g) n = Some n \<Longrightarrow> names (kb_of g) a = None \<Longrightarrow>
       \<exists>g'. add g a n = Some (Inr g') \<and> ctx_inv U g' \<and> within g' c \<and> attributions g' = attributions g \<and>
         kb_of g' = set_names ((names (kb_of g))(a \<mapsto> n)) (kb_of g)"
    and set_set: "set_names m (set_names m' k) = set_names m k"
    and names_set: "names (set_names m k) = m"
    and set_same: "set_names (names k) k = k"
begin

lemma compact_aliases_spec:
  assumes inv: "ctx_inv U c" and g: "ctx_inv U g" "within g c"
    and ps: "distinct (map fst ps)" "\<forall>(a, n) \<in> set ps. utf8_valid a \<and> names (kb_of c) a \<noteq> None \<and> names (kb_of g) a = None \<and>
       (names (kb_of g) n = Some n \<or> names (kb_of g) n = None)" "fst ` set ps \<inter> snd ` set ps = {}"
  shows "\<exists>g'. ctx_inv U g' \<and> within g' c \<and> attributions g' = attributions g \<and>
     kb_of g' = set_names (names (kb_of g) ++ map_of (filter (\<lambda>(a, n). names (kb_of g) n \<noteq> None) ps)) (kb_of g) \<and>
     compact_aliases add expired t ps g dropped = Some (if fires expired t (length ps) then Inl CompactionDeadlineExceeded
       else Inr (t + length ps, g', dropped + length (filter (\<lambda>(a, n). names (kb_of g) n = None) ps)))"
  using g ps
proof (induction ps arbitrary: g t dropped)
  case Nil
  then show ?case by (auto simp: set_same)
next
  case (Cons p ps)
  obtain a n where p: "p = (a, n)" by (cases p)
  have a: "utf8_valid a" "names (kb_of c) a \<noteq> None" "names (kb_of g) a = None" using Cons.prems(4) by (auto simp: p)
  show ?case
  proof (cases "names (kb_of g) n")
    case None
    note u = unknown [OF Cons.prems(1) a(1) None]
    have "\<exists>g'. ctx_inv U g' \<and> within g' c \<and> attributions g' = attributions g \<and>
     kb_of g' = set_names (names (kb_of g) ++ map_of (filter (\<lambda>(a, n). names (kb_of g) n \<noteq> None) ps)) (kb_of g) \<and>
     compact_aliases add expired (Suc t) ps g (Suc dropped) = Some (if fires expired (Suc t) (length ps) then Inl CompactionDeadlineExceeded
       else Inr (Suc t + length ps, g', Suc dropped + length (filter (\<lambda>(a, n). names (kb_of g) n = None) ps)))"
      by (rule Cons.IH [OF Cons.prems(1,2)]) (use Cons.prems(3-5) in auto)
    then show ?thesis using None u by (auto simp: p fires_Suc)
  next
    case (Some n')
    then have nn: "names (kb_of g) n = Some n" using Cons.prems(4) by (auto simp: p)
    obtain g1 where g1: "add g a n = Some (Inr g1)" "ctx_inv U g1" "within g1 c" "attributions g1 = attributions g"
        "kb_of g1 = set_names ((names (kb_of g))(a \<mapsto> n)) (kb_of g)"
      using carried [OF inv Cons.prems(1,2) a(1,2) nn a(3)] by blast
    have k1: "names (kb_of g1) = (names (kb_of g))(a \<mapsto> n)" by (simp add: g1(5) names_set)
    have same: "names (kb_of g1) m = names (kb_of g) m" if "(b, m) \<in> set ps" for b m
    proof -
      have "m \<in> snd ` set ps" using image_eqI [of m snd "(b, m)" "set ps"] that by simp
      then have "m \<noteq> a" using Cons.prems(5) by (auto simp: p)
      then show ?thesis by (simp add: k1)
    qed
    have fl: "filter (\<lambda>(a, n). names (kb_of g1) n \<noteq> None) ps = filter (\<lambda>(a, n). names (kb_of g) n \<noteq> None) ps"
      "filter (\<lambda>(a, n). names (kb_of g1) n = None) ps = filter (\<lambda>(a, n). names (kb_of g) n = None) ps"
      using same by (auto intro!: filter_cong)
    let ?K = "names (kb_of g1) ++ map_of (filter (\<lambda>(a, n). names (kb_of g1) n \<noteq> None) ps)"
    let ?D = "length (filter (\<lambda>(a, n). names (kb_of g1) n = None) ps)"
    have "\<exists>g'. ctx_inv U g' \<and> within g' c \<and> attributions g' = attributions g1 \<and> kb_of g' = set_names ?K (kb_of g1) \<and>
     compact_aliases add expired (Suc t) ps g1 dropped = Some (if fires expired (Suc t) (length ps) then Inl CompactionDeadlineExceeded
       else Inr (Suc t + length ps, g', dropped + ?D))"
    proof (rule Cons.IH [OF g1(2,3)])
      show "distinct (map fst ps)" using Cons.prems(3) by (simp add: p)
      show "fst ` set ps \<inter> snd ` set ps = {}" using Cons.prems(5) by (auto simp: p)
      show "\<forall>(b, m) \<in> set ps. utf8_valid b \<and> names (kb_of c) b \<noteq> None \<and> names (kb_of g1) b = None \<and>
         (names (kb_of g1) m = Some m \<or> names (kb_of g1) m = None)"
      proof -
        have "utf8_valid b \<and> names (kb_of c) b \<noteq> None \<and> names (kb_of g1) b = None \<and>
            (names (kb_of g1) m = Some m \<or> names (kb_of g1) m = None)" if bm: "(b, m) \<in> set ps" for b m
        proof -
          have "b \<noteq> a" using Cons.prems(3) image_eqI [of b fst "(b, m)" "set ps"] bm by (auto simp: p)
          moreover have "utf8_valid b \<and> names (kb_of c) b \<noteq> None \<and> names (kb_of g) b = None \<and>
            (names (kb_of g) m = Some m \<or> names (kb_of g) m = None)" using Cons.prems(4) bm by auto
          ultimately show ?thesis using same [OF bm] by (simp add: k1)
        qed
        then show ?thesis unfolding split_beta by (intro ballI) (metis prod.collapse)
      qed
    qed
    then obtain g' where g': "ctx_inv U g'" "within g' c" "attributions g' = attributions g1" "kb_of g' = set_names ?K (kb_of g1)"
     "compact_aliases add expired (Suc t) ps g1 dropped = Some (if fires expired (Suc t) (length ps) then Inl CompactionDeadlineExceeded
       else Inr (Suc t + length ps, g', dropped + ?D))" by blast
    let ?F = "filter (\<lambda>(a, n). names (kb_of g) n \<noteq> None) ps"
    have "a \<notin> fst ` set ?F" using Cons.prems(3) by (auto simp: p)
    then have "a \<notin> dom (map_of ?F)" by (simp add: dom_map_of_conv_image_fst)
    then have "?K = names (kb_of g) ++ map_of (filter (\<lambda>(a, n). names (kb_of g) n \<noteq> None) (p # ps))"
      unfolding fl unfolding k1 using nn by (simp add: map_add_upd_left p)
    then have "kb_of g' = set_names (names (kb_of g) ++ map_of (filter (\<lambda>(a, n). names (kb_of g) n \<noteq> None) (p # ps))) (kb_of g)"
      using g'(4) by (simp only: g1(5) set_set)
    moreover have "compact_aliases add expired t (p # ps) g dropped = Some (if fires expired t (length (p # ps)) then Inl CompactionDeadlineExceeded
       else Inr (t + length (p # ps), g', dropped + length (filter (\<lambda>(a, n). names (kb_of g) n = None) (p # ps))))"
      using g'(5) g1(1) nn unfolding fl by (simp add: p fires_Suc)
    ultimately show ?thesis using g'(1-3) g1(4) by (intro exI [of _ g']) (simp only: conj_assoc simp_thms)
  qed
qed

end


lemma carried_room:
  assumes inv: "ctx_inv U c" "ctx_inv U g" and w: "within g c"
  shows "a \<in> dom (concept_ids c) \<Longrightarrow> concept_ids g a = None \<Longrightarrow>
      length (concept_aliases g) \<noteq> NIL \<and> \<not> u32_max < length (arena g) + length a"
    "a \<in> dom (label_ids c) \<Longrightarrow> label_ids g a = None \<Longrightarrow>
      length (label_aliases g) \<noteq> NIL \<and> \<not> u32_max < length (arena g) + length a"
proof -
  note W = w [unfolded within_def] and D = ctx_ns [OF inv(1)] and E = ctx_ns [OF inv(2)]
  have b: "length (concept_aliases g) \<le> card (dom (concept_ids g))" "length (label_aliases g) \<le> card (dom (label_ids g))"
    using ns_dom(2) [OF E(1)] ns_dom(2) [OF E(2)] by simp_all
  show "length (concept_aliases g) \<noteq> NIL \<and> \<not> u32_max < length (arena g) + length a"
    if a: "a \<in> dom (concept_ids c)" and none: "concept_ids g a = None"
  proof -
    have "card (dom (concept_ids g)) < card (dom (concept_ids c))"
      by (rule within_count [OF ns_dom(1) [OF D(1)] _ a]) (use W none in auto)
    moreover have "{a} - dom (concept_ids g) = {a}" using none by auto
    then have "length (arena g) + length a \<le> u32_max" using within_bytes [OF inv w, of "{a}" "{}" "{}"] a by simp
    ultimately show ?thesis using within_ids(1) [OF inv(1)] b(1) by simp
  qed
  show "length (label_aliases g) \<noteq> NIL \<and> \<not> u32_max < length (arena g) + length a"
    if a: "a \<in> dom (label_ids c)" and none: "label_ids g a = None"
  proof -
    have "card (dom (label_ids g)) < card (dom (label_ids c))"
      by (rule within_count [OF ns_dom(1) [OF D(2)] _ a]) (use W none in auto)
    moreover have "{a} - dom (label_ids g) = {a}" using none by auto
    then have "length (arena g) + length a \<le> u32_max" using within_bytes [OF inv w, of "{}" "{a}" "{}"] a by simp
    ultimately show ?thesis using within_ids(2) [OF inv(1)] b(2) by simp
  qed
qed

lemma carry_concept:
  assumes inv: "ctx_inv U c" "ctx_inv U g" and w: "within g c" and v: "utf8_valid a" and a: "kb_concepts (kb_of c) a \<noteq> None"
    and n: "kb_concepts (kb_of g) n = Some n" and new: "kb_concepts (kb_of g) a = None"
  shows "\<exists>g'. add_concept_alias U g a n = Some (Inr g') \<and> ctx_inv U g' \<and> within g' c \<and> attributions g' = attributions g \<and>
         kb_of g' = (kb_of g)\<lparr>kb_concepts := (kb_concepts (kb_of g))(a \<mapsto> n)\<rparr>"
proof -
  have i: "concept_ids g a = None" "a \<in> dom (concept_ids c)" using a new by (auto simp: kb_of_def)
  obtain t where t: "concept_ids g n = Some t" "cname g t = n" using n by (auto simp: kb_of_def)
  have st: "alias_step (concept_ids g) a n = Inr ((concept_ids g)(a \<mapsto> t))" using i t by (simp add: alias_step_def)
  have ids: "ns_ids (concept_ns g) = concept_ids g" "ns_aliases (concept_ns g) = concept_aliases g" by (simp_all add: concept_ns_def)
  obtain r where r: "add_alias U (arena g) (concept_ns g) a n ''the concept alias table is out of u32 ids'' = Some r"
    and spec: "case r of
        Inr (ar, ns) \<Rightarrow> alias_step (ns_ids (concept_ns g)) a n = Inr (ns_ids ns) \<and>
           (\<exists>x. ar = arena g @ x) \<and> ctx_inv U (put_concept_ns g ar ns (arena_slack g))
      | Inl (Full f) \<Rightarrow> ns_ids (concept_ns g) a = None \<and>
           (length (ns_aliases (concept_ns g)) = NIL \<or> u32_max < length (arena g) + length a)
      | Inl err \<Rightarrow> alias_step (ns_ids (concept_ns g)) a n = Inl err"
    using concept_side.add_alias_spec [OF inv(2) v] by blast
  obtain x ns where r': "r = Inr (arena g @ x, ns)" and ns: "ns_ids ns = (concept_ids g)(a \<mapsto> t)"
    and inv': "ctx_inv U (put_concept_ns g (arena g @ x) ns (arena_slack g))"
    using spec st carried_room(1) [OF inv w i(2,1)] unfolding ids by (auto split: sum.splits alias_error.splits)
  let ?g = "put_concept_ns g (arena g @ x) ns (arena_slack g)"
  have "kb_of ?g = (kb_of g)\<lparr>kb_concepts := (kb_concepts (kb_of g))(a \<mapsto> n)\<rparr>"
    unfolding kb_put_concept [OF inv(2) inv'] ns using t(2) by (auto simp: kb_of_def)
  moreover have "within ?g c" using w i(2) ns by (auto simp: within_def put_concept_ns_def)
  moreover have "add_concept_alias U g a n = Some (Inr ?g)" using r by (simp add: add_concept_alias_def r')
  ultimately show ?thesis using inv' by (intro exI [of _ ?g]) (simp add: put_concept_ns_def)
qed

lemma carry_label:
  assumes inv: "ctx_inv U c" "ctx_inv U g" and w: "within g c" and v: "utf8_valid a" and a: "kb_labels (kb_of c) a \<noteq> None"
    and n: "kb_labels (kb_of g) n = Some n" and new: "kb_labels (kb_of g) a = None"
  shows "\<exists>g'. add_label_alias U g a n = Some (Inr g') \<and> ctx_inv U g' \<and> within g' c \<and> attributions g' = attributions g \<and>
         kb_of g' = (kb_of g)\<lparr>kb_labels := (kb_labels (kb_of g))(a \<mapsto> n)\<rparr>"
proof -
  have i: "label_ids g a = None" "a \<in> dom (label_ids c)" using a new by (auto simp: kb_of_def)
  obtain t where t: "label_ids g n = Some t" "lname g t = n" using n by (auto simp: kb_of_def)
  have st: "alias_step (label_ids g) a n = Inr ((label_ids g)(a \<mapsto> t))" using i t by (simp add: alias_step_def)
  have ids: "ns_ids (label_ns g) = label_ids g" "ns_aliases (label_ns g) = label_aliases g" by (simp_all add: label_ns_def)
  obtain r where r: "add_alias U (arena g) (label_ns g) a n ''the label alias table is out of u32 ids'' = Some r"
    and spec: "case r of
        Inr (ar, ns) \<Rightarrow> alias_step (ns_ids (label_ns g)) a n = Inr (ns_ids ns) \<and>
           (\<exists>x. ar = arena g @ x) \<and> ctx_inv U (put_label_ns g ar ns (arena_slack g))
      | Inl (Full f) \<Rightarrow> ns_ids (label_ns g) a = None \<and>
           (length (ns_aliases (label_ns g)) = NIL \<or> u32_max < length (arena g) + length a)
      | Inl err \<Rightarrow> alias_step (ns_ids (label_ns g)) a n = Inl err"
    using label_side.add_alias_spec [OF inv(2) v] by blast
  obtain x ns where r': "r = Inr (arena g @ x, ns)" and ns: "ns_ids ns = (label_ids g)(a \<mapsto> t)"
    and inv': "ctx_inv U (put_label_ns g (arena g @ x) ns (arena_slack g))"
    using spec st carried_room(2) [OF inv w i(2,1)] unfolding ids by (auto split: sum.splits alias_error.splits)
  let ?g = "put_label_ns g (arena g @ x) ns (arena_slack g)"
  have "kb_of ?g = (kb_of g)\<lparr>kb_labels := (kb_labels (kb_of g))(a \<mapsto> n)\<rparr>"
    unfolding kb_put_label [OF inv(2) inv'] ns using t(2) by (auto simp: kb_of_def)
  moreover have "within ?g c" using w i(2) ns by (auto simp: within_def put_label_ns_def)
  moreover have "add_label_alias U g a n = Some (Inr ?g)" using r by (simp add: add_label_alias_def r')
  ultimately show ?thesis using inv' by (intro exI [of _ ?g]) (simp add: put_label_ns_def)
qed

lemma unknown_concept:
  "ctx_inv U g \<Longrightarrow> utf8_valid a \<Longrightarrow> kb_concepts (kb_of g) n = None \<Longrightarrow> add_concept_alias U g a n = Some (Inl UnknownCanonical)"
  by (simp add: add_concept_alias_def add_alias_def concept_ns_def kb_of_def)

lemma unknown_label:
  "ctx_inv U g \<Longrightarrow> utf8_valid a \<Longrightarrow> kb_labels (kb_of g) n = None \<Longrightarrow> add_label_alias U g a n = Some (Inl UnknownCanonical)"
  by (simp add: add_label_alias_def add_alias_def label_ns_def kb_of_def)

interpretation concept_carrier: alias_carrier U "add_concept_alias U" kb_concepts "\<lambda>m k. k\<lparr>kb_concepts := m\<rparr>" for U
  by (unfold_locales; ((rule unknown_concept; assumption) | (rule carry_concept; assumption) | simp))

interpretation label_carrier: alias_carrier U "add_label_alias U" kb_labels "\<lambda>m k. k\<lparr>kb_labels := m\<rparr>" for U
  by (unfold_locales; ((rule unknown_label; assumption) | (rule carry_label; assumption) | simp))

section \<open>The alias listings\<close>

definition ns_pairs :: "rstr \<Rightarrow> (nat \<times> nat) list \<Rightarrow> alias_record list \<Rightarrow> (rstr \<times> rstr) list" where
  "ns_pairs ar rs als = map (\<lambda>r. (name_at ar (alias_range r), name_at ar (rs ! al_target r))) als"

lemma ns_pairs_spec:
  assumes ns: "ns_ok ar rs als ids" and m: "m = (\<lambda>a. map_option (\<lambda>i. name_at ar (rs ! i)) (ids a))"
  shows "distinct (map fst (ns_pairs ar rs als))" "\<forall>(a, n) \<in> set (ns_pairs ar rs als). utf8_valid a"
    "set (ns_pairs ar rs als) = {(a, n). m a = Some n \<and> a \<noteq> n}" "m a = Some n \<Longrightarrow> m n = Some n"
proof -
  have d: "distinct (map (name_at ar) rs @ map (\<lambda>a. name_at ar (alias_range a)) als)"
    using ns unfolding ns_ok_def map_fst_spellings by blast
  then show "distinct (map fst (ns_pairs ar rs als))" by (simp add: ns_pairs_def comp_def)
  show "\<forall>(a, n) \<in> set (ns_pairs ar rs als). utf8_valid a" using ns by (auto simp: ns_pairs_def ns_ok_def range_ok_def)
  have t: "al_target r < length rs" if "r \<in> set als" for r using ns that by (simp add: ns_ok_def)
  have ne: "name_at ar (alias_range r) \<noteq> name_at ar (rs ! i)" if "r \<in> set als" "i < length rs" for r i
  proof -
    have "name_at ar (alias_range r) \<notin> name_at ar ` set rs" using d that(1) by auto
    then show ?thesis using that(2) by force
  qed
  show "set (ns_pairs ar rs als) = {(a, n). m a = Some n \<and> a \<noteq> n}"
  proof (intro set_eqI iffI)
    fix p assume "p \<in> set (ns_pairs ar rs als)"
    then obtain r where r: "r \<in> set als" "p = (name_at ar (alias_range r), name_at ar (rs ! al_target r))" by (auto simp: ns_pairs_def)
    have "ids (name_at ar (alias_range r)) = Some (al_target r)" using ns_ok_iff [OF ns] r(1) by (auto simp: set_spellings)
    then show "p \<in> {(a, n). m a = Some n \<and> a \<noteq> n}" using r ne [OF r(1) t [OF r(1)]] by (simp add: m)
  next
    fix p assume "p \<in> {(a, n). m a = Some n \<and> a \<noteq> n}"
    then obtain a i where a: "p = (a, name_at ar (rs ! i))" "ids a = Some i" "a \<noteq> name_at ar (rs ! i)" by (auto simp: m)
    then have "(a, i) \<in> set (spellings ar rs als)" using ns_ok_iff [OF ns] by simp
    then show "p \<in> set (ns_pairs ar rs als)" using a by (auto simp: set_spellings ns_pairs_def)
  qed
  show "m n = Some n" if "m a = Some n"
    using that ns_ok_id_bound [OF ns] ns_ok_name [OF ns] by (auto simp: m)
qed

lemma alias_pairs_read:
  assumes inv: "ctx_inv U c"
  shows "concept_alias_pairs c = Some (ns_pairs (arena c) (concept_ranges c) (concept_aliases c))"
    "label_alias_pairs c = Some (ns_pairs (arena c) (label_ranges c) (label_aliases c))"
proof -
  note N = ctx_ns [OF inv] and R = name_reads [OF ctx_invD(1) [OF inv]]
  have s: "arena_str c (al_name_offset r) (al_name_len r) = Some (name_at (arena c) (alias_range r))" if "range_ok (arena c) (alias_range r)" for r
    using arena_str_range_ok [OF that] by (simp add: alias_range_def)
  show "concept_alias_pairs c = Some (ns_pairs (arena c) (concept_ranges c) (concept_aliases c))"
    unfolding concept_alias_pairs_def alias_pairs_def ns_pairs_def
    by (rule mapM_Some) (use N(1) s R(1) in \<open>auto simp: ns_ok_def cname_def\<close>)
  show "label_alias_pairs c = Some (ns_pairs (arena c) (label_ranges c) (label_aliases c))"
    unfolding label_alias_pairs_def alias_pairs_def ns_pairs_def
    by (rule mapM_Some) (use N(2) s R(2) in \<open>auto simp: ns_ok_def lname_def\<close>)
qed

lemma kb_names_eq:
  assumes "ctx_inv U c"
  shows "kb_concepts (kb_of c) = (\<lambda>a. map_option (\<lambda>i. name_at (arena c) (concept_ranges c ! i)) (concept_ids c a))"
    "kb_labels (kb_of c) = (\<lambda>a. map_option (\<lambda>i. name_at (arena c) (label_ranges c ! i)) (label_ids c a))"
  using ids_bound(1,2) [OF assms] by (auto simp: kb_of_def cname_def lname_def fun_eq_iff intro!: option.map_cong)

section \<open>The compacted knowledge base\<close>

definition carried_names :: "rstr set \<Rightarrow> (rstr \<rightharpoonup> rstr) \<Rightarrow> rstr \<rightharpoonup> rstr" where
  "carried_names L m = (\<lambda>a. case m a of None \<Rightarrow> None | Some n \<Rightarrow> if n \<in> L then Some n else None)"

definition alias_set :: "(rstr \<rightharpoonup> rstr) \<Rightarrow> rstr set" where
  "alias_set m = {a. \<exists>n. m a = Some n \<and> a \<noteq> n}"

definition lost_aliases :: "rstr set \<Rightarrow> (rstr \<rightharpoonup> rstr) \<Rightarrow> rstr set" where
  "lost_aliases L m = {a. \<exists>n. m a = Some n \<and> a \<noteq> n \<and> n \<notin> L}"

definition live_concepts :: "kb \<Rightarrow> rstr set" where
  "live_concepts k = (\<Union>x \<in> set (filter is_live (kb_facts k)). fact_names x)"

definition live_labels :: "kb \<Rightarrow> rstr set" where
  "live_labels k = fa_label ` set (filter is_live (kb_facts k))"

definition kb_compact :: "kb \<Rightarrow> kb" where
  "kb_compact k = \<lparr>kb_concepts = carried_names (live_concepts k) (kb_concepts k), kb_labels = carried_names (live_labels k) (kb_labels k),
     kb_sources = (\<Union>x \<in> set (filter is_live (kb_facts k)). fact_sources x), kb_facts = map rebuilt (filter is_live (kb_facts k))\<rparr>"

lemma carried_names_eq:
  assumes ps: "distinct (map fst ps)" "set ps = {(a, n). m a = Some n \<and> a \<noteq> n}" and L: "\<forall>n \<in> L. m n = Some n"
  shows "named L ++ map_of (filter (\<lambda>(a, n). named L n \<noteq> None) ps) = carried_names L m"
    and "length (filter (\<lambda>(a, n). named L n = None) ps) = card (lost_aliases L m)" "length ps = card (alias_set m)"
proof -
  have df: "distinct (map fst (filter Q ps))" for Q using ps(1) distinct_map_filter by blast
  have iff: "map_of (filter (\<lambda>(a, n). named L n \<noteq> None) ps) a = Some n \<longleftrightarrow> m a = Some n \<and> a \<noteq> n \<and> n \<in> L" for a n
    using map_of_eq_Some_iff [OF df, of "\<lambda>(a, n). named L n \<noteq> None" a n] ps(2) by (auto simp: named_def)
  show "named L ++ map_of (filter (\<lambda>(a, n). named L n \<noteq> None) ps) = carried_names L m"
  proof
    fix a
    let ?M = "map_of (filter (\<lambda>(a, n). named L n \<noteq> None) ps)"
    show "(named L ++ ?M) a = carried_names L m a"
    proof (cases "?M a")
      case None
      then have "\<not> (m a = Some n \<and> a \<noteq> n \<and> n \<in> L)" for n using iff [of a n] by simp
      then show ?thesis using None L by (auto simp: map_add_def named_def carried_names_def split: option.split)
    next
      case (Some n)
      then show ?thesis using iff [of a n] by (simp add: map_add_def carried_names_def)
    qed
  qed
  have len: "length (filter Q ps) = card (fst ` set (filter Q ps))" for Q
    using distinct_card [OF df, of Q] by simp
  have "fst ` set (filter (\<lambda>(a, n). named L n = None) ps) = lost_aliases L m"
    by (force simp: ps(2) lost_aliases_def named_def)
  then show "length (filter (\<lambda>(a, n). named L n = None) ps) = card (lost_aliases L m)" using len by simp
  have "fst ` set ps = alias_set m" by (force simp: ps(2) alias_set_def)
  then show "length ps = card (alias_set m)" using len [of "\<lambda>_. True"] by simp
qed

lemma facts_canonical:
  assumes inv: "ctx_inv U c" and x: "x \<in> set (facts c)"
  shows "n \<in> fact_names x \<Longrightarrow> kb_concepts (kb_of c) n = Some n" "kb_labels (kb_of c) (fa_label x) = Some (fa_label x)"
proof -
  obtain e where e: "e < length (edges c)" "x = fact_of c e" using x by (auto simp: facts_def)
  note b = edge_bounds [OF ctx_invD(5) [OF inv] e(1)] and N = name_ids [OF ctx_invD(1) [OF inv]]
  show "n \<in> fact_names x \<Longrightarrow> kb_concepts (kb_of c) n = Some n" "kb_labels (kb_of c) (fa_label x) = Some (fa_label x)"
    using N b by (auto simp: e(2) fact_of_def fact_with_def fact_names_def kb_of_def)
qed


lemma named_live:
  assumes inv: "ctx_inv U c" and n: "n \<in> live_concepts (kb_of c)" shows "kb_concepts (kb_of c) n = Some n"
  using n facts_canonical(1) [OF inv] by (auto simp: live_concepts_def kb_of_def)

lemma named_live_label:
  assumes inv: "ctx_inv U c" and n: "n \<in> live_labels (kb_of c)" shows "kb_labels (kb_of c) n = Some n"
  using n facts_canonical(2) [OF inv] by (auto simp: live_labels_def kb_of_def)

lemma carry_concepts:
  assumes inv: "ctx_inv U c" and g: "ctx_inv U g" "within g c" and k: "kb_concepts (kb_of g) = named (live_concepts (kb_of c))"
    and ps: "concept_alias_pairs c = Some ps"
  shows "\<exists>g'. ctx_inv U g' \<and> within g' c \<and> attributions g' = attributions g \<and>
     kb_of g' = (kb_of g)\<lparr>kb_concepts := carried_names (live_concepts (kb_of c)) (kb_concepts (kb_of c))\<rparr> \<and>
     compact_aliases (add_concept_alias U) expired t ps g dropped =
       Some (if fires expired t (card (alias_set (kb_concepts (kb_of c)))) then Inl CompactionDeadlineExceeded
         else Inr (t + card (alias_set (kb_concepts (kb_of c))), g',
           dropped + card (lost_aliases (live_concepts (kb_of c)) (kb_concepts (kb_of c)))))"
proof -
  have ps': "ps = ns_pairs (arena c) (concept_ranges c) (concept_aliases c)" using alias_pairs_read(1) [OF inv] ps by simp
  note P = ns_pairs_spec [OF ctx_ns(1) [OF inv] kb_names_eq(1) [OF inv], folded ps']
  have L: "\<forall>n \<in> live_concepts (kb_of c). kb_concepts (kb_of c) n = Some n" using named_live [OF inv] by blast
  note E = carried_names_eq [OF P(1,3) L]
  have "fst ` set ps \<inter> snd ` set ps = {}" using P(4) by (force simp: P(3))
  moreover have "\<forall>(a, n) \<in> set ps. utf8_valid a \<and> kb_concepts (kb_of c) a \<noteq> None \<and> kb_concepts (kb_of g) a = None \<and>
       (kb_concepts (kb_of g) n = Some n \<or> kb_concepts (kb_of g) n = None)"
    using P(2,3) L by (auto simp: k named_def)
  ultimately show ?thesis
    using concept_carrier.compact_aliases_spec [OF inv g P(1), of expired t dropped] unfolding k E by blast
qed

lemma carry_labels:
  assumes inv: "ctx_inv U c" and g: "ctx_inv U g" "within g c" and k: "kb_labels (kb_of g) = named (live_labels (kb_of c))"
    and ps: "label_alias_pairs c = Some ps"
  shows "\<exists>g'. ctx_inv U g' \<and> within g' c \<and> attributions g' = attributions g \<and>
     kb_of g' = (kb_of g)\<lparr>kb_labels := carried_names (live_labels (kb_of c)) (kb_labels (kb_of c))\<rparr> \<and>
     compact_aliases (add_label_alias U) expired t ps g dropped =
       Some (if fires expired t (card (alias_set (kb_labels (kb_of c)))) then Inl CompactionDeadlineExceeded
         else Inr (t + card (alias_set (kb_labels (kb_of c))), g',
           dropped + card (lost_aliases (live_labels (kb_of c)) (kb_labels (kb_of c)))))"
proof -
  have ps': "ps = ns_pairs (arena c) (label_ranges c) (label_aliases c)" using alias_pairs_read(2) [OF inv] ps by simp
  note P = ns_pairs_spec [OF ctx_ns(2) [OF inv] kb_names_eq(2) [OF inv], folded ps']
  have L: "\<forall>n \<in> live_labels (kb_of c). kb_labels (kb_of c) n = Some n" using named_live_label [OF inv] by blast
  note E = carried_names_eq [OF P(1,3) L]
  have "fst ` set ps \<inter> snd ` set ps = {}" using P(4) by (force simp: P(3))
  moreover have "\<forall>(a, n) \<in> set ps. utf8_valid a \<and> kb_labels (kb_of c) a \<noteq> None \<and> kb_labels (kb_of g) a = None \<and>
       (kb_labels (kb_of g) n = Some n \<or> kb_labels (kb_of g) n = None)"
    using P(2,3) L by (auto simp: k named_def)
  ultimately show ?thesis
    using label_carrier.compact_aliases_spec [OF inv g P(1), of expired t dropped] unfolding k E by blast
qed

section \<open>Properties\<close>

lemma compacted_spec:
  assumes inv: "ctx_inv U c" and k: "k = kb_of c"
  shows "\<exists>c'. ctx_inv U c' \<and> kb_of c' = kb_compact k \<and> dead_edges c' = 0 \<and> dead_attributions c' = 0 \<and> arena_slack c' = 0 \<and>
     compacted U c expired = Some
       (if \<exists>i < length (kb_facts k) + card (alias_set (kb_concepts k)) + card (alias_set (kb_labels k)). expired i
        then Inl CompactionDeadlineExceeded
        else Inr (c', \<lparr>cs_dead_edges = length (filter (\<lambda>x. \<not> is_live x) (kb_facts k)),
          cs_aliases_dropped = card (lost_aliases (live_concepts k) (kb_concepts k)) + card (lost_aliases (live_labels k) (kb_labels k))\<rparr>))"
proof -
  let ?m = "length (kb_facts k)" and ?p = "card (alias_set (kb_concepts k))" and ?q = "card (alias_set (kb_labels k))"
  have fk: "kb_facts k = facts c" by (simp add: k kb_of_def)
  have q: "query_any c [] [] [] = Some (map assoc_of (kb_facts k))"
    using full.query_spec [OF inv, of "[]" "[]" "[]"] by (simp add: query_any_def query_match_def position_ok_def fk)
  obtain g where g: "rebuilding U c (filter is_live (facts c)) g" "compact_edges U expired 0 (map assoc_of (facts c)) ctx_default 0 =
     Some (if fires expired 0 (length (facts c)) then Inl CompactionDeadlineExceeded
           else Inr (0 + length (facts c), g, 0 + length (filter (\<lambda>x. \<not> is_live x) (facts c))))"
    using compact_edges_spec [OF inv, of "[]" "facts c" ctx_default] rebuilding_default by force
  note G = g(1) [unfolded rebuilding_def kb_rebuilt_def]
  have kg: "kb_concepts (kb_of g) = named (live_concepts k)" "kb_labels (kb_of g) = named (live_labels k)"
    using G by (simp_all add: live_concepts_def live_labels_def fk)
  note A = alias_pairs_read [OF inv]
  obtain g1 where g1: "ctx_inv U g1" "within g1 c" "attributions g1 = attributions g"
     "kb_of g1 = (kb_of g)\<lparr>kb_concepts := carried_names (live_concepts k) (kb_concepts k)\<rparr>"
     "compact_aliases (add_concept_alias U) expired (0 + ?m) (ns_pairs (arena c) (concept_ranges c) (concept_aliases c)) g 0 =
       Some (if fires expired (0 + ?m) ?p then Inl CompactionDeadlineExceeded
         else Inr (0 + ?m + ?p, g1, 0 + card (lost_aliases (live_concepts k) (kb_concepts k))))"
    using carry_concepts [OF inv _ _ _ A(1), of g expired "0 + ?m" 0] G kg(1) unfolding k by blast
  have kg1: "kb_labels (kb_of g1) = named (live_labels k)" using g1(4) kg(2) by simp
  obtain g2 where g2: "ctx_inv U g2" "within g2 c" "attributions g2 = attributions g1"
     "kb_of g2 = (kb_of g1)\<lparr>kb_labels := carried_names (live_labels k) (kb_labels k)\<rparr>"
     "compact_aliases (add_label_alias U) expired (0 + ?m + ?p) (ns_pairs (arena c) (label_ranges c) (label_aliases c)) g1
        (0 + card (lost_aliases (live_concepts k) (kb_concepts k))) =
       Some (if fires expired (0 + ?m + ?p) ?q then Inl CompactionDeadlineExceeded
         else Inr (0 + ?m + ?p + ?q, g2, 0 + card (lost_aliases (live_concepts k) (kb_concepts k)) + card (lost_aliases (live_labels k) (kb_labels k))))"
    using carry_labels [OF inv g1(1,2) _ A(2), of expired "0 + ?m + ?p" "0 + card (lost_aliases (live_concepts k) (kb_concepts k))"] kg1
    unfolding k by blast
  have kb2: "kb_of g2 = kb_compact k" using G by (simp add: g2(4) g1(4) kb_compact_def fk)
  have f2: "facts g2 = map rebuilt (filter is_live (facts c))" using arg_cong [OF kb2, of kb_facts] by (simp add: kb_of_def kb_compact_def fk)
  have "length (attributions g2) = attr_total (facts g2)"
    using G g1(3) g2(3) unfolding f2 by (simp add: attr_total_def comp_def rebuilt_def)
  then have "dead_attributions g2 = 0" using dead_attributions_total(1) [OF g2(1)] by simp
  moreover have "dead_edges g2 = 0"
    unfolding dead_attributions_total(2) [OF g2(1)] f2 by (auto simp: filter_empty_conv rebuilt_def is_live_def)
  moreover have "arena_slack g2 = 0" using g2(2) by (simp add: within_def)
  moreover have "(\<exists>i < ?m + ?p + ?q. expired i) \<longleftrightarrow> fires expired 0 ?m \<or> fires expired ?m ?p \<or> fires expired (?m + ?p) ?q"
    using fires_add [of expired 0 "?m + ?p" ?q] fires_add [of expired 0 ?m ?p] by (auto simp: fires_def)
  moreover have "compacted U c expired = Some (if fires expired 0 ?m \<or> fires expired ?m ?p \<or> fires expired (?m + ?p) ?q
      then Inl CompactionDeadlineExceeded
      else Inr (g2, \<lparr>cs_dead_edges = length (filter (\<lambda>x. \<not> is_live x) (kb_facts k)),
          cs_aliases_dropped = card (lost_aliases (live_concepts k) (kb_concepts k)) + card (lost_aliases (live_labels k) (kb_labels k))\<rparr>))"
    using g(2) g1(5) g2(5) by (simp add: compacted_def q A fk)
  ultimately show ?thesis using g2(1) kb2 by auto
qed

text \<open>
  C5. Compaction: on a well-formed context it returns, never with a capacity error. Unless a deadline
  poll (one per fact, then one per alias) fires, the result is a well-formed context with no dead
  record and no slack that holds exactly the live facts, in order, with their counts and attributions,
  and their sums rebuilt from the average; every spelling that resolved to a name of a live fact resolves
  to it still, and the report counts the dead facts and the aliases left behind.
\<close>

theorem compacted_correct:
  assumes inv: "ctx_inv U c" and k: "k = kb_of c"
  shows "\<exists>c'. ctx_inv U c' \<and> kb_of c' = kb_compact k \<and> dead_edges c' = 0 \<and> dead_attributions c' = 0 \<and> arena_slack c' = 0 \<and>
     compacted U c expired = Some
       (if \<exists>i < length (kb_facts k) + card (alias_set (kb_concepts k)) + card (alias_set (kb_labels k)). expired i
        then Inl CompactionDeadlineExceeded
        else Inr (c', \<lparr>cs_dead_edges = length (filter (\<lambda>x. \<not> is_live x) (kb_facts k)),
          cs_aliases_dropped = card (lost_aliases (live_concepts k) (kb_concepts k)) + card (lost_aliases (live_labels k) (kb_labels k))\<rparr>))"
  using assms by (rule compacted_spec)

theorem compacted_correct_witness:
  "\<exists>c'. ctx_inv unicode_id c' \<and> kb_of c' = kb_compact (kb_of demo_ctx) \<and> dead_edges c' = 0 \<and> dead_attributions c' = 0 \<and> arena_slack c' = 0 \<and>
     compacted unicode_id demo_ctx (\<lambda>_. False) = Some
       (if \<exists>i < length (kb_facts (kb_of demo_ctx)) + card (alias_set (kb_concepts (kb_of demo_ctx))) + card (alias_set (kb_labels (kb_of demo_ctx))). False
        then Inl CompactionDeadlineExceeded
        else Inr (c', \<lparr>cs_dead_edges = length (filter (\<lambda>x. \<not> is_live x) (kb_facts (kb_of demo_ctx))),
          cs_aliases_dropped = card (lost_aliases (live_concepts (kb_of demo_ctx)) (kb_concepts (kb_of demo_ctx)))
            + card (lost_aliases (live_labels (kb_of demo_ctx)) (kb_labels (kb_of demo_ctx)))\<rparr>))"
  by (rule compacted_correct [OF demo_ctx(1) refl])

end
