(* ===== verification/Gloss.thy ===== *)
theory Gloss
  imports Stats
begin

text \<open>
  The textual glosses of \<^verbatim>\<open>src/context/gloss.rs\<close>: a name followed by its heaviest live facts as
  minimal sentences. The reference reads the facts off a scan of the knowledge base.
\<close>

section \<open>Glosses\<close>

definition GLOSS_FACTS :: nat where "GLOSS_FACTS = 4"
definition GLOSS_EXAMPLES :: nat where "GLOSS_EXAMPLES = 3"

text \<open>The full stop, the two particles and the denial of the rendered sentences.\<close>

definition MARU :: rstr where "MARU = utf8_encode [0x3002]"
definition NO :: rstr where "NO = utf8_encode [0x306E]"
definition WA :: rstr where "WA = utf8_encode [0x306F]"
definition DEWANAI :: rstr where "DEWANAI = utf8_encode [0x3067, 0x306F, 0x306A, 0x3044]"

definition weight_key :: "ctx \<Rightarrow> nat \<Rightarrow> int \<times> nat" where
  "weight_key c e = (- f64_total_key (f64_abs (ed_sum (edges c ! e))), e)"

definition heaviest :: "(nat \<Rightarrow> nat list \<Rightarrow> nat list) \<Rightarrow> ctx \<Rightarrow> nat list \<Rightarrow> nat \<Rightarrow> nat list option" where
  "heaviest sel c es keep = do {
     live \<leftarrow> mapM (\<lambda>e. map_option (\<lambda>r. (e, 0 < ed_count r)) (nth_opt (edges c) e)) es;
     Some (top_of (weight_key c) sel keep (map fst (filter snd live))) }"

definition gloss_sentence :: "ctx \<Rightarrow> nat option \<Rightarrow> rstr \<times> nat option \<Rightarrow> nat \<Rightarrow> (rstr \<times> nat option) option" where
  "gloss_sentence c own st e = (case st of (gloss, prev_subject) \<Rightarrow> do {
     r \<leftarrow> nth_opt (edges c) e;
     g1 \<leftarrow> (if Some (ed_subject r) \<noteq> own \<and> Some (ed_subject r) \<noteq> prev_subject
            then map_option (\<lambda>s. gloss @ s @ NO) (concept_name c (ed_subject r)) else Some gloss);
     l \<leftarrow> label_name c (ed_label r);
     ob \<leftarrow> concept_name c (ed_object r);
     Some (g1 @ l @ WA @ ob @ (if f64_lt (ed_sum r) f64_zero then DEWANAI else []) @ MARU, Some (ed_subject r)) })"

definition gloss_text :: "ctx \<Rightarrow> rstr \<Rightarrow> nat list \<Rightarrow> nat option \<Rightarrow> rstr option" where
  "gloss_text c name es own = map_option fst (foldM (gloss_sentence c own) (name @ MARU, None) es)"

definition concept_gloss ::
    "(nat \<Rightarrow> nat list \<Rightarrow> nat list) \<Rightarrow> ctx \<Rightarrow> rstr \<Rightarrow> nat \<Rightarrow> rstr option option" where
  "concept_gloss sel c concept n =
     (case concept_ids c concept of None \<Rightarrow> Some None
      | Some i \<Rightarrow> do {
          out \<leftarrow> outgoing c i;
          inc \<leftarrow> incoming c i;
          others \<leftarrow> mapM (\<lambda>e. map_option (\<lambda>r. (e, ed_subject r \<noteq> ed_object r)) (nth_opt (edges c) e)) inc;
          es \<leftarrow> heaviest sel c (out @ map fst (filter snd others)) n;
          name \<leftarrow> concept_name c i;
          map_option Some (gloss_text c name es (Some i)) })"

definition label_gloss ::
    "(nat \<Rightarrow> nat list \<Rightarrow> nat list) \<Rightarrow> ctx \<Rightarrow> rstr \<Rightarrow> nat \<Rightarrow> rstr option option" where
  "label_gloss sel c label n =
     (case label_ids c label of None \<Rightarrow> Some None
      | Some i \<Rightarrow> do {
          chain \<leftarrow> labeled c i;
          es \<leftarrow> heaviest sel c chain n;
          name \<leftarrow> label_name c i;
          map_option Some (gloss_text c name es None) })"

section \<open>On facts\<close>

fun sentences :: "rstr option \<Rightarrow> rstr option \<Rightarrow> fact list \<Rightarrow> rstr" where
  "sentences own prev [] = []"
| "sentences own prev (x # xs) =
     (if Some (fa_subject x) = own \<or> Some (fa_subject x) = prev then [] else fa_subject x @ NO) @
     fa_label x @ WA @ fa_object x @ (if f64_lt (fa_sum x) f64_zero then DEWANAI else []) @ MARU @
     sentences own (Some (fa_subject x)) xs"

text \<open>The heaviest live facts of a kind, ties in storage order.\<close>

definition heaviest_facts :: "(fact \<Rightarrow> bool) \<Rightarrow> nat \<Rightarrow> fact list \<Rightarrow> fact list" where
  "heaviest_facts Q n xs = take n (sort_key (\<lambda>x. - f64_total_key (f64_abs (fa_sum x))) (filter (\<lambda>x. 0 < fa_count x \<and> Q x) xs))"

lemma heaviest_eq:
  assumes sel: "select_ok (weight_key c) sel" and es: "distinct es" "set es = {e. e < length (edges c) \<and> Q (fact_of c e)}"
  shows "\<exists>ys. heaviest sel c es n = Some ys \<and> map (fact_of c) ys = heaviest_facts Q n (facts c) \<and> set ys \<subseteq> {..<length (edges c)}"
proof -
  let ?m = "length (edges c)" and ?k = "\<lambda>e. - f64_total_key (f64_abs (ed_sum (edges c ! e)))"
  let ?live = "filter (\<lambda>e. 0 < ed_count (edges c ! e)) es"
  have "mapM (\<lambda>e. map_option (\<lambda>r. (e, 0 < ed_count r)) (nth_opt (edges c) e)) es = Some (map (\<lambda>e. (e, 0 < ed_count (edges c ! e))) es)"
    by (rule mapM_Some) (use es(2) in auto)
  moreover have "map fst (filter snd (map (\<lambda>e. (e, 0 < ed_count (edges c ! e))) es)) = ?live" by (simp add: filter_map comp_def)
  moreover have "top_of (weight_key c) sel n ?live = take n (sort_key (weight_key c) ?live)"
    by (rule top_of_eq [OF sel]) (use es(1) in \<open>auto simp: inj_on_def weight_key_def\<close>)
  ultimately have run: "heaviest sel c es n = Some (take n (sort_key (weight_key c) ?live))" by (simp add: heaviest_def)
  let ?zs = "filter (\<lambda>e. 0 < ed_count (edges c ! e) \<and> Q (fact_of c e)) [0..<?m]"
  have "sort_key (weight_key c) ?live = sort_key (weight_key c) ?zs"
  proof (rule map_sorted_distinct_set_unique [of "weight_key c"])
    have s: "set ?live = set ?zs" using es(2) by auto
    have inj: "inj_on (weight_key c) A" for A by (auto simp: inj_on_def weight_key_def)
    show "inj_on (weight_key c) (set (sort_key (weight_key c) ?live) \<union> set (sort_key (weight_key c) ?zs))" by (rule inj)
    show "distinct (map (weight_key c) (sort_key (weight_key c) ?live))" using es(1) inj by (simp add: distinct_map)
    show "distinct (map (weight_key c) (sort_key (weight_key c) ?zs))" using inj by (simp add: distinct_map)
    show "set (sort_key (weight_key c) ?live) = set (sort_key (weight_key c) ?zs)" using s by simp
  qed simp_all
  also have "\<dots> = sort_key ?k ?zs"
    unfolding weight_key_def [abs_def] by (rule sort_key_refine_nat) (simp add: sorted_wrt_filter)
  finally have s: "sort_key (weight_key c) ?live = sort_key ?k ?zs" .
  have f: "filter (\<lambda>x. 0 < fa_count x \<and> Q x) (facts c) = map (fact_of c) ?zs"
    by (simp add: facts_def filter_map comp_def fact_names)
  have "map (fact_of c) (take n (sort_key ?k ?zs)) = heaviest_facts Q n (facts c)"
    unfolding heaviest_facts_def f sort_key_image take_map by (simp add: fact_of_def fact_with_def)
  moreover have "set (take n (sort_key ?k ?zs)) \<subseteq> {..<?m}" using set_take_subset [of n "sort_key ?k ?zs"] by auto
  ultimately show ?thesis using run s by auto
qed

lemma gloss_text_eq:
  assumes inv: "ctx_inv U c" and es: "set es \<subseteq> {..<length (edges c)}" and own: "\<forall>i. own = Some i \<longrightarrow> i < length (concepts c)"
  shows "gloss_text c name es own = Some (name @ MARU @ sentences (map_option (cname c) own) None (map (fact_of c) es))"
proof -
  note I = ctx_invD [OF inv]
  have q: "map_option (cname c) w = Some (cname c i) \<longleftrightarrow> w = Some i" if "\<forall>j. w = Some j \<longrightarrow> j < length (concepts c)" "i < length (concepts c)" for w i
    using that name_ids(1) [OF I(1)] by (cases w) (auto, metis option.inject)
  have "\<exists>p. foldM (gloss_sentence c own) (g, prev) es = Some (g @ sentences (map_option (cname c) own) (map_option (cname c) prev) (map (fact_of c) es), p)"
    if "\<forall>i. prev = Some i \<longrightarrow> i < length (concepts c)" for g prev
    using es that
  proof (induction es arbitrary: g prev)
    case (Cons e es)
    let ?r = "edges c ! e"
    have e: "e < length (edges c)" using Cons.prems(1) by simp
    note b = edge_bounds [OF I(5) e]
    define g' where "g' = g @ (if Some (cname c (ed_subject ?r)) = map_option (cname c) own \<or> Some (cname c (ed_subject ?r)) = map_option (cname c) prev
        then [] else cname c (ed_subject ?r) @ NO) @ lname c (ed_label ?r) @ WA @ cname c (ed_object ?r) @
        (if f64_lt (ed_sum ?r) f64_zero then DEWANAI else []) @ MARU"
    have "gloss_sentence c own (g, prev) e = Some (g', Some (ed_subject ?r))"
      using e b q [OF own] q [OF Cons.prems(2)] name_reads [OF I(1)]
      by (auto simp: gloss_sentence_def g'_def eq_commute [of "Some _"])
    moreover obtain p where "foldM (gloss_sentence c own) (g', Some (ed_subject ?r)) es =
        Some (g' @ sentences (map_option (cname c) own) (Some (cname c (ed_subject ?r))) (map (fact_of c) es), p)"
      using Cons.IH [of "Some (ed_subject ?r)" g'] Cons.prems(1) b(1) by auto
    moreover have F: "fa_subject (fact_of c e) = cname c (ed_subject ?r)" "fa_label (fact_of c e) = lname c (ed_label ?r)"
      "fa_object (fact_of c e) = cname c (ed_object ?r)" "fa_sum (fact_of c e) = ed_sum ?r" by (simp_all add: fact_of_def fact_with_def)
    ultimately show ?case by (simp add: F g'_def del: fact_names)
  qed simp
  from this [of None "name @ MARU"] show ?thesis by (auto simp: gloss_text_def)
qed

text \<open>
  C31. The gloss of a concept: nothing for an unknown spelling; otherwise the canonical name and one
  sentence for each of its \<open>n\<close> heaviest live facts, ranked by cumulative magnitude with ties in storage
  order, a self-loop once, denials marked, the subject left out when it is the concept itself or
  repeats the sentence before. It is the same text a full scan and a full sort of the facts gives,
  for every partial selection that keeps its contract, and no read panics.
\<close>
theorem concept_gloss_correct:
  assumes inv: "ctx_inv U c" and sel: "select_ok (weight_key c) sel" and k: "k = kb_of c"
  shows "concept_gloss sel c concept n = Some (map_option (\<lambda>name. name @ MARU @
     sentences (Some name) None (heaviest_facts (\<lambda>x. fa_subject x = name \<or> fa_object x = name) n (kb_facts k))) (kb_concepts k concept))"
proof (cases "concept_ids c concept")
  case None
  then show ?thesis by (simp add: concept_gloss_def k kb_of_def)
next
  case (Some i)
  note I = ctx_invD [OF inv]
  have i: "i < length (concepts c)" by (rule ids_bound(1) [OF inv Some])
  have q: "cname c j = cname c i \<longleftrightarrow> j = i" if "j < length (concepts c)" for j
    using name_ids(1) [OF I(1)] i that by (metis option.inject)
  let ?out = "owned ed_subject (edges c) i" and ?inc = "owned ed_object (edges c) i"
  let ?oth = "filter (\<lambda>e. ed_subject (edges c ! e) \<noteq> ed_object (edges c ! e)) ?inc"
  let ?Q = "\<lambda>x. fa_subject x = cname c i \<or> fa_object x = cname c i"
  have "mapM (\<lambda>e. map_option (\<lambda>r. (e, ed_subject r \<noteq> ed_object r)) (nth_opt (edges c) e)) ?inc =
      Some (map (\<lambda>e. (e, ed_subject (edges c ! e) \<noteq> ed_object (edges c ! e))) ?inc)"
    by (rule mapM_Some) (auto simp: set_owned)
  moreover have "map fst (filter snd (map (\<lambda>e. (e, ed_subject (edges c ! e) \<noteq> ed_object (edges c ! e))) ?inc)) = ?oth"
    by (simp add: filter_map comp_def)
  moreover obtain ys where ys: "heaviest sel c (?out @ ?oth) n = Some ys" "map (fact_of c) ys = heaviest_facts ?Q n (facts c)"
    "set ys \<subseteq> {..<length (edges c)}"
  proof -
    have "distinct (?out @ ?oth)" by (auto simp: owned_def)
    moreover have "set (?out @ ?oth) = {e. e < length (edges c) \<and> ?Q (fact_of c e)}"
      using edge_bounds [OF I(5)] q by (auto simp: set_owned fact_names)
    ultimately show ?thesis using heaviest_eq [OF sel, of "?out @ ?oth" ?Q n] that by blast
  qed
  ultimately show ?thesis
    using gloss_text_eq [OF inv ys(3), of "Some i"] i name_reads(1) [OF I(1) i] chain_reads(1,2) [OF inv i]
    by (simp add: concept_gloss_def Some k kb_of_def)
qed

theorem concept_gloss_correct_witness:
  "concept_gloss (\<lambda>k xs. sort_key (weight_key demo_ctx) xs) demo_ctx (bytes ''tea'') GLOSS_FACTS =
     Some (map_option (\<lambda>name. name @ MARU @ sentences (Some name) None
       (heaviest_facts (\<lambda>x. fa_subject x = name \<or> fa_object x = name) GLOSS_FACTS (kb_facts (kb_of demo_ctx)))) (kb_concepts (kb_of demo_ctx) (bytes ''tea'')))"
  by (rule concept_gloss_correct [OF demo_ctx(1) select_sorting refl])

text \<open>The gloss of a relation label: the same over the facts that use the label, each subject stated.\<close>
theorem label_gloss_correct:
  assumes inv: "ctx_inv U c" and sel: "select_ok (weight_key c) sel" and k: "k = kb_of c"
  shows "label_gloss sel c label n = Some (map_option (\<lambda>name. name @ MARU @
     sentences None None (heaviest_facts (\<lambda>x. fa_label x = name) n (kb_facts k))) (kb_labels k label))"
proof (cases "label_ids c label")
  case None
  then show ?thesis by (simp add: label_gloss_def k kb_of_def)
next
  case (Some i)
  note I = ctx_invD [OF inv]
  have i: "i < length (labels c)" by (rule ids_bound(2) [OF inv Some])
  have q: "lname c j = lname c i \<longleftrightarrow> j = i" if "j < length (labels c)" for j
    using name_ids(2) [OF I(1)] i that by (metis option.inject)
  let ?es = "owned ed_label (edges c) i"
  have "set ?es = {e. e < length (edges c) \<and> fa_label (fact_of c e) = lname c i}"
    using edge_bounds [OF I(5)] q by (auto simp: set_owned fact_names)
  moreover have "distinct ?es" by (simp add: owned_def)
  ultimately obtain ys where ys: "heaviest sel c ?es n = Some ys" "map (fact_of c) ys = heaviest_facts (\<lambda>x. fa_label x = lname c i) n (facts c)"
    "set ys \<subseteq> {..<length (edges c)}" using heaviest_eq [OF sel, of ?es "\<lambda>x. fa_label x = lname c i" n] by blast
  then show ?thesis
    using gloss_text_eq [OF inv ys(3), of None] name_reads(2) [OF I(1) i] chain_reads(3) [OF inv i]
    by (simp add: label_gloss_def Some k kb_of_def)
qed

theorem label_gloss_correct_witness:
  "label_gloss (\<lambda>k xs. sort_key (weight_key demo_ctx) xs) demo_ctx (bytes ''is'') GLOSS_EXAMPLES =
     Some (map_option (\<lambda>name. name @ MARU @ sentences None None
       (heaviest_facts (\<lambda>x. fa_label x = name) GLOSS_EXAMPLES (kb_facts (kb_of demo_ctx)))) (kb_labels (kb_of demo_ctx) (bytes ''is'')))"
  by (rule label_gloss_correct [OF demo_ctx(1) select_sorting refl])

end
