(* ===== verification/Lifecycle.thy ===== *)
theory Lifecycle
  imports Compaction Gloss
begin

text \<open>
  The life of a context: every public operation that changes one, as a step relation, and the
  abstract steps on the knowledge base. A context reached from the empty one by fewer than
  \<open>2^64\<close> steps satisfies the representation invariant, its knowledge base is reached by the
  corresponding abstract steps, and no operation on it panics.
\<close>

section \<open>Steps\<close>

definition opt_valid :: "rstr option \<Rightarrow> nat option \<Rightarrow> bool" where
  "opt_valid source p \<longleftrightarrow> (case source of None \<Rightarrow> True | Some name \<Rightarrow> utf8_valid name) \<and> (case p of None \<Rightarrow> True | Some q \<Rightarrow> q < 2 ^ 32)"

inductive ctx_step :: "unicode \<Rightarrow> ctx \<Rightarrow> ctx \<Rightarrow> bool" for U where
  Assert: "utf8_valid s \<Longrightarrow> utf8_valid l \<Longrightarrow> utf8_valid ob \<Longrightarrow> opt_valid source p \<Longrightarrow>
    upsert U c s l ob w source p = Some (Inr c') \<Longrightarrow> ctx_step U c c'"
| RetractSource: "retract_source c source = Some (Some (n, c')) \<Longrightarrow> ctx_step U c c'"
| RetractAssociation: "retract_association c s l ob = Some (Some (n, c')) \<Longrightarrow> ctx_step U c c'"
| ConceptAlias: "utf8_valid a \<Longrightarrow> add_concept_alias U c a canonical = Some (Inr c') \<Longrightarrow> ctx_step U c c'"
| LabelAlias: "utf8_valid a \<Longrightarrow> add_label_alias U c a canonical = Some (Inr c') \<Longrightarrow> ctx_step U c c'"
| DropConceptAlias: "remove_concept_alias U c a = Some (Some (name, c')) \<Longrightarrow> ctx_step U c c'"
| DropLabelAlias: "remove_label_alias U c a = Some (Some (name, c')) \<Longrightarrow> ctx_step U c c'"
| Compact: "compacted U c expired = Some (Inr (c', stats)) \<Longrightarrow> ctx_step U c c'"
| Watermark: "m < 2 ^ 64 \<Longrightarrow> ctx_step U c (set_applied_seq c m)"
| Floor: "ctx_step U c (set_dice_floor c f)"

inductive ctx_reach :: "unicode \<Rightarrow> nat \<Rightarrow> ctx \<Rightarrow> bool" for U where
  Empty: "ctx_reach U 0 ctx_default"
| Step: "ctx_reach U n c \<Longrightarrow> ctx_step U c c' \<Longrightarrow> ctx_reach U (Suc n) c'"

inductive kb_step :: "kb \<Rightarrow> kb \<Rightarrow> bool" where
  KbAssert: "is_finite w \<Longrightarrow> kb_step k (kb_assert s l ob w source p k)"
| KbRetractSource: "source \<in> kb_sources k \<Longrightarrow> kb_step k (kb_retract_source source k)"
| KbRetractAssociation: "kb_step k (kb_retract_association s l ob k)"
| KbConceptAlias: "kb_concepts k canonical = Some n \<Longrightarrow> kb_concepts k a = None \<or> kb_concepts k a = Some n \<Longrightarrow>
    kb_step k (k\<lparr>kb_concepts := (kb_concepts k)(a \<mapsto> n)\<rparr>)"
| KbLabelAlias: "kb_labels k canonical = Some n \<Longrightarrow> kb_labels k a = None \<or> kb_labels k a = Some n \<Longrightarrow>
    kb_step k (k\<lparr>kb_labels := (kb_labels k)(a \<mapsto> n)\<rparr>)"
| KbDropConceptAlias: "kb_step k (k\<lparr>kb_concepts := (kb_concepts k)(a := None)\<rparr>)"
| KbDropLabelAlias: "kb_step k (k\<lparr>kb_labels := (kb_labels k)(a := None)\<rparr>)"
| KbCompact: "kb_step k (kb_compact k)"
| KbIdle: "kb_step k k"

inductive kb_reach :: "nat \<Rightarrow> kb \<Rightarrow> bool" where
  KbEmpty: "kb_reach 0 (kb_of ctx_default)"
| KbStep: "kb_reach n k \<Longrightarrow> kb_step k k' \<Longrightarrow> kb_reach (Suc n) k'"

inductive_cases ctx_stepE: "ctx_step U c c'"

section \<open>Counts\<close>

definition counts_upto :: "nat \<Rightarrow> kb \<Rightarrow> bool" where
  "counts_upto n k \<longleftrightarrow> (\<forall>x \<in> set (kb_facts k). fa_count x \<le> n)"

lemma facts_assert_counts:
  assumes "\<forall>x \<in> set xs. fa_count x \<le> n" shows "\<forall>x \<in> set (facts_assert s l ob w source p xs). fa_count x \<le> Suc n"
proof -
  define ys where "ys = (if \<exists>x \<in> set xs. same_triple s l ob x then map (\<lambda>x. if same_triple s l ob x then fact_bump w x else x) xs
                else xs @ [fact_new s l ob w])"
  have ys: "fa_count x \<le> Suc n" if "x \<in> set ys" for x
    using assms that by (auto simp: ys_def fact_bump_def fact_new_def le_SucI split: if_splits)
  have "fa_count (fact_attr src w p x) = fa_count x" for src x by (simp add: fact_attr_def)
  then show ?thesis unfolding facts_assert_def Let_def ys_def [symmetric] using ys by (cases source) auto
qed

lemma kb_step_counts: "kb_step k k' \<Longrightarrow> counts_upto n k \<Longrightarrow> counts_upto (Suc n) k'"
proof (induction rule: kb_step.induct)
  case (KbAssert w k s l ob source p)
  then show ?case using facts_assert_counts [of "kb_facts k" n] by (simp add: counts_upto_def kb_assert_def Let_def)
next
  case (KbRetractSource source k)
  have "fa_count (fact_retract source x) \<le> fa_count x" for x by (auto simp: fact_retract_def split: option.split)
  then show ?case using KbRetractSource by (auto simp: counts_upto_def kb_retract_source_def intro: le_trans le_SucI)
next
  case (KbCompact k)
  have "fa_count (rebuilt x) = fa_count x" for x by (simp add: rebuilt_def)
  then show ?case using KbCompact by (auto simp: counts_upto_def kb_compact_def intro: le_SucI)
qed (auto simp: counts_upto_def kb_retract_association_def fact_clear_def intro: le_SucI)

section \<open>Simulation\<close>

lemma room_of_upsert:
  "upsert U c s l ob w source p = Some (Inr c') \<Longrightarrow> is_finite w \<and> ensure_room c s l ob source = Inr ()"
  by (auto simp: upsert_stages split: if_splits sum.splits)

lemma counts_assertable:
  assumes "counts_upto n (kb_of c)" "Suc n < 2 ^ 64" shows "list_all (\<lambda>e. ed_count e + 1 < 2 ^ 64) (edges c)"
proof -
  have "ed_count (edges c ! e) \<le> n" if "e < length (edges c)" for e
  proof -
    have "fact_of c e \<in> set (kb_facts (kb_of c))" using that by (simp add: kb_of_def facts_def)
    then show ?thesis using assms(1) by (force simp: counts_upto_def fact_names)
  qed
  then show ?thesis using assms(2) by (auto simp: list_all_length intro: le_less_trans)
qed

lemma ctx_step_simulates:
  assumes "ctx_step U c c'" "ctx_inv U c" "counts_upto n (kb_of c)" "Suc n < 2 ^ 64"
  shows "ctx_inv U c' \<and> kb_step (kb_of c) (kb_of c')"
  using assms(1)
proof cases
  case (Assert s l ob source p w)
  have r: "is_finite w" "ensure_room c s l ob source = Inr ()" using room_of_upsert [OF Assert(5)] by simp_all
  have "assertable c s l ob w source p"
    using Assert r(1) counts_assertable [OF assms(3,4)] by (simp add: assertable_def opt_valid_def)
  from upsert_spec [OF assms(2) this r(2)] Assert(5) r(1) show ?thesis by (auto intro: KbAssert)
next
  case (RetractSource source m)
  then obtain k where k: "source_ids c source = Some k" by (auto simp: retract_source_def split: option.splits)
  have "source \<in> kb_sources (kb_of c)" using k by (auto simp: kb_of_def)
  with retract_source_kb [OF assms(2) k] RetractSource show ?thesis by (auto intro: KbRetractSource)
next
  case (RetractAssociation s l ob m)
  then obtain i j e o' where ids: "concept_ids c s = Some i" "label_ids c l = Some j" "concept_ids c ob = Some o'" "edge_ids c (i, j, o') = Some e"
    "ed_count (edges c ! e) \<noteq> 0"
    by (auto simp: retract_association_def bind_eq_Some_conv nth_opt_def split: option.splits if_splits)
  have "fa_count (fact_of c e) \<noteq> 0" using ids(5) by (simp add: fact_names)
  from retract_association_kb [OF assms(2) ids(1-4) this] RetractAssociation show ?thesis by (auto intro: KbRetractAssociation)
next
  case (ConceptAlias a canonical)
  from concept_names.register [OF assms(2) ConceptAlias(1), of canonical "''the concept alias table is out of u32 ids''"] ConceptAlias(2)
  obtain m where "ctx_inv U c'" "kb_concepts (kb_of c) canonical = Some m" "kb_concepts (kb_of c) a = None \<or> kb_concepts (kb_of c) a = Some m"
    "kb_of c' = (kb_of c)\<lparr>kb_concepts := (kb_concepts (kb_of c))(a \<mapsto> m)\<rparr>" by (auto simp: add_concept_alias_def)
  then show ?thesis using KbConceptAlias [of "kb_of c" canonical m a] by simp
next
  case (LabelAlias a canonical)
  from label_names.register [OF assms(2) LabelAlias(1), of canonical "''the label alias table is out of u32 ids''"] LabelAlias(2)
  obtain m where "ctx_inv U c'" "kb_labels (kb_of c) canonical = Some m" "kb_labels (kb_of c) a = None \<or> kb_labels (kb_of c) a = Some m"
    "kb_of c' = (kb_of c)\<lparr>kb_labels := (kb_labels (kb_of c))(a \<mapsto> m)\<rparr>" by (auto simp: add_label_alias_def)
  then show ?thesis using KbLabelAlias [of "kb_of c" canonical m a] by simp
next
  case (DropConceptAlias a name)
  from remove_concept_alias_spec [OF assms(2), of a] DropConceptAlias show ?thesis by (auto intro: KbDropConceptAlias)
next
  case (DropLabelAlias a name)
  from remove_label_alias_spec [OF assms(2), of a] DropLabelAlias show ?thesis by (auto intro: KbDropLabelAlias)
next
  case (Compact expired stats)
  from compacted_spec [OF assms(2) refl, of expired] Compact show ?thesis by (auto intro: KbCompact split: if_splits)
next
  case (Watermark m)
  then show ?thesis using settings_keep(1) [OF assms(2)] by (auto intro: KbIdle)
next
  case (Floor f)
  then show ?thesis using settings_keep(2) [OF assms(2), of 0] by (auto intro: KbIdle)
qed

lemma reach_inv:
  "ctx_reach U n c \<Longrightarrow> n < 2 ^ 64 \<Longrightarrow> ctx_inv U c \<and> kb_reach n (kb_of c) \<and> counts_upto n (kb_of c)"
proof (induction rule: ctx_reach.induct)
  case Empty
  show ?case using ctx_inv_default KbEmpty by (simp add: counts_upto_def kb_default)
next
  case (Step n c c')
  then have IH: "ctx_inv U c" "kb_reach n (kb_of c)" "counts_upto n (kb_of c)" by simp_all
  note S = ctx_step_simulates [OF Step.hyps(2) IH(1,3)]
  show ?case using S Step.prems IH KbStep kb_step_counts by blast
qed

section \<open>Properties\<close>

text \<open>
  C27. The representation invariant holds for good: every context built from the empty one by
  assertions, withdrawals, alias registrations and removals, compactions and settings, fewer than
  \<open>2^64\<close> of them, in any order, satisfies it, and its knowledge base is one the abstract operations
  reach in as many steps; no assertion counter exceeds the number of steps taken, so none wraps.
\<close>
theorem reachable_invariant:
  assumes "ctx_reach U n c" "n < 2 ^ 64"
  shows "ctx_inv U c \<and> kb_reach n (kb_of c) \<and> (\<forall>x \<in> set (kb_facts (kb_of c)). fa_count x \<le> n)"
  using reach_inv [OF assms] by (simp add: counts_upto_def)

lemma demo_reach: "ctx_reach unicode_id 1 demo_ctx"
proof -
  obtain c where c: "upsert unicode_id ctx_default (bytes ''tea'') (bytes ''is'') (bytes ''hot'') f64_one (Some (bytes ''doc'')) (Some 3) = Some (Inr c)"
    using upsert_spec [OF ctx_inv_default demo_args, of unicode_id] by blast
  then have d: "demo_ctx = c" by (simp add: demo_ctx_def)
  have "ctx_step unicode_id ctx_default demo_ctx"
    unfolding d by (rule ctx_step.Assert [OF _ _ _ _ c]) (simp_all add: bytes_def utf8_valid_ascii opt_valid_def)
  then show ?thesis using ctx_reach.Step [OF ctx_reach.Empty, of unicode_id] by simp
qed

theorem reachable_invariant_witness:
  "ctx_inv unicode_id demo_ctx \<and> kb_reach 1 (kb_of demo_ctx) \<and> list_all (\<lambda>x. fa_count x \<le> 1) (kb_facts (kb_of demo_ctx))"
  using reachable_invariant [OF demo_reach] by (simp add: list_all_iff)

lemma ops_return:
  assumes inv: "ctx_inv U c" "counts_upto n (kb_of c)" and n: "Suc n < 2 ^ 64"
    and args: "utf8_valid s" "utf8_valid l" "utf8_valid ob" "opt_valid source p" "is_finite w"
  shows "upsert U c s l ob w source p \<noteq> None \<and> retract_source c name \<noteq> None \<and> retract_association c x y z \<noteq> None \<and>
    add_concept_alias U c s canonical \<noteq> None \<and> add_label_alias U c s canonical \<noteq> None \<and>
    remove_concept_alias U c name \<noteq> None \<and> remove_label_alias U c name \<noteq> None \<and> compacted U c expired \<noteq> None"
proof (intro conjI)
  have ok: "assertable c s l ob w source p" using args counts_assertable [OF inv(2) n] by (simp add: assertable_def opt_valid_def)
  show "upsert U c s l ob w source p \<noteq> None"
  proof (cases "ensure_room c s l ob source")
    case (Inl e)
    then show ?thesis using args(5) by (simp add: upsert_stages)
  next
    case (Inr u)
    then show ?thesis using upsert_spec [OF inv(1) ok] by auto
  qed
  show "retract_source c name \<noteq> None"
  proof (cases "source_ids c name")
    case (Some k)
    then show ?thesis using retract_source_kb [OF inv(1) Some] by auto
  qed (simp add: retract_source_def)
  show "retract_association c x y z \<noteq> None"
  proof (cases "existing_edge c x y z")
    case None
    then show ?thesis by (simp add: retract_association_def existing_edge_def)
  next
    case (Some e)
    have e: "e < length (edges c)" using Some edge_ids_iff [OF ctx_invD(5) [OF inv(1)]] by (auto simp: existing_edge_def bind_eq_Some_conv)
    show ?thesis
    proof (cases "ed_count (edges c ! e) = 0")
      case True
      then show ?thesis using Some e by (simp add: retract_association_def existing_edge_def)
    next
      case False
      then show ?thesis using retract_association_spec [OF inv(1) Some] by auto
    qed
  qed
  show "add_concept_alias U c s canonical \<noteq> None" "add_label_alias U c s canonical \<noteq> None"
    using concept_side.add_alias_spec [OF inv(1) args(1), of canonical] label_side.add_alias_spec [OF inv(1) args(1), of canonical]
    by (auto simp: add_concept_alias_def add_label_alias_def)
  show "remove_concept_alias U c name \<noteq> None" "remove_label_alias U c name \<noteq> None"
    using remove_concept_alias_spec [OF inv(1), of name] remove_label_alias_spec [OF inv(1), of name] by auto
  show "compacted U c expired \<noteq> None" using compacted_spec [OF inv(1) refl, of expired] by auto
qed

text \<open>
  C28. No operation on a reachable context panics: with arguments the Rust types allow and a finite
  weight, every one of the mutating operations returns, whatever came before.
\<close>
theorem reachable_progress:
  assumes reach: "ctx_reach U n c" and n: "Suc n < 2 ^ 64"
    and args: "utf8_valid s" "utf8_valid l" "utf8_valid ob" "opt_valid source p" "is_finite w"
  shows "upsert U c s l ob w source p \<noteq> None \<and> retract_source c name \<noteq> None \<and> retract_association c s l ob \<noteq> None \<and>
    add_concept_alias U c s canonical \<noteq> None \<and> add_label_alias U c s canonical \<noteq> None \<and>
    remove_concept_alias U c name \<noteq> None \<and> remove_label_alias U c name \<noteq> None \<and> compacted U c expired \<noteq> None"
  by (rule ops_return [OF _ _ n args]) (use reach_inv [OF reach] n in simp_all)

theorem reachable_progress_witness:
  "upsert unicode_id demo_ctx (bytes ''tea'') (bytes ''is'') (bytes ''hot'') f64_one None None \<noteq> None"
  using reachable_progress [OF demo_reach, of "bytes ''tea''" "bytes ''is''" "bytes ''hot''" None None f64_one]
  by (simp add: bytes_def utf8_valid_ascii opt_valid_def)

end
