(* ===== verification/Image_Format.thy ===== *)
theory Image_Format
  imports Codec Context_Invariant
begin

text \<open>
  The persistent image of a context (\<^verbatim>\<open>src/context/image.rs\<close>): the writer, the reader of every
  format version with the migration of the weight-only records, and the validation that rebuilds
  the derived indexes. An error is \<^term>\<open>Inl\<close>, a panic (the entry index out of ids) is
  \<^term>\<open>None\<close>.
\<close>

section \<open>Writing\<close>

definition IMAGE_MAGIC :: "u8 list" where
  "IMAGE_MAGIC = bytes ''TAGURUC'' @ [0]"

definition IMAGE_VERSION :: nat where
  "IMAGE_VERSION = 6"

definition image_sections :: "ctx \<Rightarrow> u8 list" where
  "image_sections c = store_table store_edge (edges c) @ store_table store_attribution (attributions c) @
     store_table store_concept (concepts c) @ store_table store_label (labels c) @ store_table store_source (sources c) @
     store_table store_alias (concept_aliases c) @ store_table store_alias (label_aliases c) @
     store_table store_locator (attribution_locators c) @ le_bytes 8 (length (arena c)) @ arena c"

definition image_body :: "ctx \<Rightarrow> nat \<Rightarrow> u8 list" where
  "image_body c version = IMAGE_MAGIC @ le_bytes 4 version @ replicate 4 0 @ le_bytes 8 (applied_seq c) @ image_sections c"

definition to_bytes :: "ctx \<Rightarrow> u8 list" where
  "to_bytes c = (let img = image_body c IMAGE_VERSION in img @ le_bytes 4 (unat (crc32c img)))"

definition image_generation :: "u8 list \<Rightarrow> (nat \<times> bool) option" where
  "image_generation img =
     (if length img < 12 then None
      else if take 8 img = IMAGE_MAGIC
      then (let version = of_le (take 4 (drop 8 img)) in Some (version, 6 \<le> version)) else None)"

section \<open>Migrating the records of versions 1 to 4\<close>

definition summation_gap_is_real :: "f64 \<Rightarrow> nat \<Rightarrow> f64 \<Rightarrow> f64 \<Rightarrow> bool" where
  "summation_gap_is_real gap chain_len magnitude edge_weight =
     (let tolerance = f64_mul (f64_mul (f64_mul f64_two (f64_add (f64_of_nat chain_len) f64_one)) f64_epsilon)
                        (f64_add magnitude (f64_abs edge_weight))
      in f64_lt tolerance (f64_abs gap))"

fun legacy_chain :: "legacy_attribution list \<Rightarrow> nat \<Rightarrow> nat \<Rightarrow> nat \<times> f64 \<times> f64 \<Rightarrow> corrupt_image + (nat \<times> f64 \<times> f64)" where
  "legacy_chain ats left cursor (len, wsum, magnitude) =
     (if cursor = NIL then Inr (len, wsum, magnitude)
      else case left of 0 \<Rightarrow> Inl (CorruptImage ''legacy attribution chain cycles during migration'')
      | Suc left \<Rightarrow> (case nth_opt ats cursor of
            None \<Rightarrow> Inl (CorruptImage ''legacy attribution link is out of range'')
          | Some r \<Rightarrow> legacy_chain ats left (la_next r)
              (len + 1, accumulate_saturating wsum (la_weight r), accumulate_saturating magnitude (f64_abs (la_weight r)))))"

definition legacy_attribution_chain_len :: "legacy_attribution list \<Rightarrow> nat \<Rightarrow> corrupt_image + (nat \<times> f64 \<times> f64)" where
  "legacy_attribution_chain_len ats cursor = legacy_chain ats (length ats) cursor (0, f64_zero, f64_zero)"

definition migrate_attribution :: "legacy_attribution \<Rightarrow> attribution_record" where
  "migrate_attribution r = \<lparr>at_source = la_source r, at_next = la_next r, at_count = 1, at_sum = la_weight r\<rparr>"

definition migrated_count :: "nat \<Rightarrow> f64 \<Rightarrow> f64 \<Rightarrow> f64 \<Rightarrow> nat" where
  "migrated_count chain_len attributed_sum attributed_magnitude weight =
     (if chain_len = 0 \<and> f64_eq weight f64_zero then 0
      else if summation_gap_is_real (f64_sub weight attributed_sum) chain_len attributed_magnitude weight
      then chain_len + 1 else max chain_len 1)"

definition migrate_edge :: "legacy_edge \<Rightarrow> nat \<times> f64 \<times> f64 \<Rightarrow> edge_record" where
  "migrate_edge r ch = (case ch of (chain_len, attributed_sum, attributed_magnitude) \<Rightarrow>
     \<lparr>ed_subject = le_subject r, ed_label = le_label r, ed_object = le_object r, ed_next_outgoing = le_next_outgoing r,
      ed_next_incoming = le_next_incoming r, ed_next_labeled = le_next_labeled r,
      ed_first_attribution = le_first_attribution r, ed_last_attribution = le_last_attribution r,
      ed_count = migrated_count chain_len attributed_sum attributed_magnitude (le_weight r), ed_sum = le_weight r\<rparr>)"

text \<open>The loop with its cache of chains by head.\<close>

fun migrate_edges ::
    "legacy_attribution list \<Rightarrow> (nat \<rightharpoonup> nat \<times> f64 \<times> f64) \<Rightarrow> legacy_edge list \<Rightarrow> corrupt_image + edge_record list" where
  "migrate_edges ats cache [] = Inr []"
| "migrate_edges ats cache (r # rs) =
     and_then (case cache (le_first_attribution r) of Some ch \<Rightarrow> Inr (ch, cache)
         | None \<Rightarrow> and_then (legacy_attribution_chain_len ats (le_first_attribution r))
             (\<lambda>ch. Inr (ch, cache(le_first_attribution r \<mapsto> ch))))
       (\<lambda>(ch, cache). and_then (migrate_edges ats cache rs) (\<lambda>es. Inr (migrate_edge r ch # es)))"

section \<open>Rebuilding the name indexes\<close>

definition checked_arena_str :: "rstr \<Rightarrow> nat \<times> nat \<Rightarrow> corrupt_image + rstr" where
  "checked_arena_str ar rng =
     (case slice_opt ar (fst rng) (fst rng + snd rng) of
        None \<Rightarrow> Inl (CorruptImage ''name range escapes the arena'')
      | Some s \<Rightarrow> if utf8_valid s then Inr s else Inl (CorruptImage ''name is not valid UTF-8''))"

text \<open>Results under a possible panic.\<close>

definition then_load :: "('e + 'a) option \<Rightarrow> ('a \<Rightarrow> ('e + 'b) option) \<Rightarrow> ('e + 'b) option" where
  "then_load r f = (case r of None \<Rightarrow> None | Some (Inl e) \<Rightarrow> Some (Inl e) | Some (Inr x) \<Rightarrow> f x)"

lemma then_load_simps [simp]: "then_load None f = None" "then_load (Some (Inl e)) f = Some (Inl e)" "then_load (Some (Inr x)) f = f x"
  by (simp_all add: then_load_def)

fun index_concept_names :: "unicode \<Rightarrow> nat \<Rightarrow> concept_record list \<Rightarrow> ctx \<Rightarrow> (corrupt_image + ctx) option" where
  "index_concept_names U i [] c = Some (Inr c)"
| "index_concept_names U i (r # rs) c =
     then_load (Some (checked_arena_str (arena c) (concept_range r))) (\<lambda>name.
       case ei_push U (concept_index c) name i of None \<Rightarrow> None
       | Some ix \<Rightarrow> (if concept_ids c name \<noteq> None then Some (Inl (CorruptImage ''two concept records share one name''))
           else index_concept_names U (i + 1) rs (c\<lparr>concept_index := ix, concept_ids := (concept_ids c)(name \<mapsto> i)\<rparr>)))"

fun index_label_names :: "unicode \<Rightarrow> nat \<Rightarrow> label_record list \<Rightarrow> ctx \<Rightarrow> (corrupt_image + ctx) option" where
  "index_label_names U i [] c = Some (Inr c)"
| "index_label_names U i (r # rs) c =
     then_load (Some (checked_arena_str (arena c) (label_range r))) (\<lambda>name.
       case ei_push U (label_index c) name i of None \<Rightarrow> None
       | Some ix \<Rightarrow> (if label_ids c name \<noteq> None then Some (Inl (CorruptImage ''two label records share one name''))
           else index_label_names U (i + 1) rs (c\<lparr>label_index := ix, label_ids := (label_ids c)(name \<mapsto> i),
                  label_name_index := bt_insert name () (label_name_index c)\<rparr>)))"

fun index_source_names :: "nat \<Rightarrow> source_record list \<Rightarrow> ctx \<Rightarrow> corrupt_image + ctx" where
  "index_source_names i [] c = Inr c"
| "index_source_names i (r # rs) c =
     and_then (checked_arena_str (arena c) (source_range r)) (\<lambda>name.
       if source_ids c name \<noteq> None then Inl (CorruptImage ''two source records share one name'')
       else index_source_names (i + 1) rs (c\<lparr>source_ids := (source_ids c)(name \<mapsto> i)\<rparr>))"

definition index_names :: "unicode \<Rightarrow> ctx \<Rightarrow> (corrupt_image + ctx) option" where
  "index_names U c =
     then_load (index_concept_names U 0 (concepts c) c) (\<lambda>c.
       then_load (index_label_names U 0 (labels c) c) (\<lambda>c. Some (index_source_names 0 (sources c) c)))"

fun index_concept_aliases :: "unicode \<Rightarrow> alias_record list \<Rightarrow> ctx \<Rightarrow> (corrupt_image + ctx) option" where
  "index_concept_aliases U [] c = Some (Inr c)"
| "index_concept_aliases U (r # rs) c =
     then_load (Some (checked_arena_str (arena c) (alias_range r))) (\<lambda>name.
       if length (concepts c) \<le> al_target r then Some (Inl (CorruptImage ''concept alias targets an unknown concept''))
       else case ei_push U (concept_index c) name (al_target r) of None \<Rightarrow> None
       | Some ix \<Rightarrow> (if concept_ids c name \<noteq> None then Some (Inl (CorruptImage ''concept alias collides with another spelling''))
           else index_concept_aliases U rs (c\<lparr>concept_index := ix, concept_ids := (concept_ids c)(name \<mapsto> al_target r),
                  concept_alias_index := bt_insert name (al_target r) (concept_alias_index c)\<rparr>)))"

fun index_label_aliases :: "unicode \<Rightarrow> alias_record list \<Rightarrow> ctx \<Rightarrow> (corrupt_image + ctx) option" where
  "index_label_aliases U [] c = Some (Inr c)"
| "index_label_aliases U (r # rs) c =
     then_load (Some (checked_arena_str (arena c) (alias_range r))) (\<lambda>name.
       if length (labels c) \<le> al_target r then Some (Inl (CorruptImage ''label alias targets an unknown label''))
       else case ei_push U (label_index c) name (al_target r) of None \<Rightarrow> None
       | Some ix \<Rightarrow> (if label_ids c name \<noteq> None then Some (Inl (CorruptImage ''label alias collides with another spelling''))
           else index_label_aliases U rs (c\<lparr>label_index := ix, label_ids := (label_ids c)(name \<mapsto> al_target r),
                  label_alias_index := bt_insert name (al_target r) (label_alias_index c)\<rparr>)))"

definition index_aliases :: "unicode \<Rightarrow> ctx \<Rightarrow> (corrupt_image + ctx) option" where
  "index_aliases U c =
     then_load (index_concept_aliases U (concept_aliases c) c) (\<lambda>c. index_label_aliases U (label_aliases c) c)"

section \<open>Edges and chains\<close>

fun index_edge_records :: "nat \<Rightarrow> edge_record list \<Rightarrow> ctx \<Rightarrow> corrupt_image + ctx" where
  "index_edge_records i [] c = Inr c"
| "index_edge_records i (e # es) c =
     (if length (concepts c) \<le> ed_subject e \<or> length (concepts c) \<le> ed_object e \<or> length (labels c) \<le> ed_label e
      then Inl (CorruptImage ''edge references an unknown concept or label'')
      else if edge_ids c (triple e) \<noteq> None then Inl (CorruptImage ''two edge records share one triple'')
      else index_edge_records (i + 1) es (c\<lparr>edge_ids := (edge_ids c)(triple e \<mapsto> i)\<rparr>))"

definition index_edges :: "ctx \<Rightarrow> corrupt_image + ctx" where
  "index_edges c = index_edge_records 0 (edges c) c"

function chain_scan ::
    "edge_record list \<Rightarrow> nat \<Rightarrow> (edge_record \<Rightarrow> nat) \<Rightarrow> (edge_record \<Rightarrow> bool) \<Rightarrow> nat \<Rightarrow> nat \<Rightarrow> nat \<Rightarrow> corrupt_image + (nat \<times> nat)" where
  "chain_scan es cnt follow owned_by cursor last_seen steps =
     (if cursor = NIL then Inr (steps, last_seen)
      else if cnt < steps + 1 \<or> length es < steps + 1 then Inl (CorruptImage ''edge chain overruns its stored count'')
      else case nth_opt es cursor of
          None \<Rightarrow> Inl (CorruptImage ''edge chain link is out of range'')
        | Some r \<Rightarrow> if \<not> owned_by r then Inl (CorruptImage (''edge chain contains another record'' @ [CHR 0x27] @ ''s edge''))
            else chain_scan es cnt follow owned_by (follow r) cursor (steps + 1))"
  by pat_completeness auto
termination
  by (relation "measure (\<lambda>(es, _, _, _, _, _, steps). length es - steps)") auto

declare chain_scan.simps [simp del]

definition validate_edge_chain ::
    "edge_record list \<Rightarrow> nat \<Rightarrow> nat \<Rightarrow> nat \<Rightarrow> (edge_record \<Rightarrow> nat) \<Rightarrow> (edge_record \<Rightarrow> bool) \<Rightarrow> corrupt_image + unit" where
  "validate_edge_chain es first lst cnt follow owned_by =
     and_then (chain_scan es cnt follow owned_by first NIL 0) (\<lambda>(steps, last_seen).
       if steps \<noteq> cnt then Inl (CorruptImage ''edge chain is shorter than its stored count'')
       else if last_seen \<noteq> lst then Inl (CorruptImage ''edge chain does not end at its stored tail'')
       else Inr ())"

fun validate_concept_chains :: "edge_record list \<Rightarrow> nat \<Rightarrow> concept_record list \<Rightarrow> corrupt_image + unit" where
  "validate_concept_chains es i [] = Inr ()"
| "validate_concept_chains es i (r # rs) =
     and_then (validate_edge_chain es (cr_first_outgoing r) (cr_last_outgoing r) (cr_outgoing_count r) ed_next_outgoing
         (\<lambda>e. ed_subject e = i)) (\<lambda>_.
       and_then (validate_edge_chain es (cr_first_incoming r) (cr_last_incoming r) (cr_incoming_count r) ed_next_incoming
         (\<lambda>e. ed_object e = i)) (\<lambda>_. validate_concept_chains es (i + 1) rs))"

fun validate_label_chains :: "edge_record list \<Rightarrow> nat \<Rightarrow> label_record list \<Rightarrow> corrupt_image + unit" where
  "validate_label_chains es i [] = Inr ()"
| "validate_label_chains es i (r # rs) =
     and_then (validate_edge_chain es (lr_first_edge r) (lr_last_edge r) (lr_edge_count r) ed_next_labeled
         (\<lambda>e. ed_label e = i)) (\<lambda>_. validate_label_chains es (i + 1) rs)"

definition validate_chains :: "ctx \<Rightarrow> corrupt_image + unit" where
  "validate_chains c =
     and_then (validate_concept_chains (edges c) 0 (concepts c)) (\<lambda>_.
       and_then (validate_label_chains (edges c) 0 (labels c)) (\<lambda>_.
         if foldl u64_add 0 (map cr_outgoing_count (concepts c)) \<noteq> length (edges c) \<or>
            foldl u64_add 0 (map cr_incoming_count (concepts c)) \<noteq> length (edges c) \<or>
            foldl u64_add 0 (map lr_edge_count (labels c)) \<noteq> length (edges c)
         then Inl (CorruptImage ''edge chains do not cover the edge table'') else Inr ()))"

section \<open>Attributions, locators and the arena\<close>

text \<open>The walk of one edge's chain: what has been claimed, the two indexes, the tail and the running count.\<close>

record attr_scan =
  sc_claimed :: "bool list"
  sc_ids :: "(nat \<times> nat) \<rightharpoonup> nat"
  sc_source_edges :: "nat \<rightharpoonup> nat list"

definition claim_attribution :: "nat \<Rightarrow> nat \<Rightarrow> nat \<Rightarrow> attr_scan \<Rightarrow> attr_scan" where
  "claim_attribution edge_id cursor src st = st\<lparr>sc_claimed := (sc_claimed st)[cursor := True],
     sc_ids := (sc_ids st)((edge_id, src) \<mapsto> cursor),
     sc_source_edges := (sc_source_edges st)(src \<mapsto> (case sc_source_edges st src of None \<Rightarrow> [] | Some es \<Rightarrow> es) @ [edge_id])\<rparr>"

lemma unclaimed_decreases:
  "cursor < length cl \<Longrightarrow> \<not> cl ! cursor \<Longrightarrow> length (filter Not (cl[cursor := True])) < length (filter Not cl)"
proof -
  assume a: "cursor < length cl" "\<not> cl ! cursor"
  have "length (filter Not cl) = length (filter Not (take cursor cl)) + Suc (length (filter Not (drop (Suc cursor) cl)))"
    using a by (subst id_take_nth_drop [OF a(1)]) simp
  then show ?thesis using a by (simp add: upd_conv_take_nth_drop)
qed

function scan_attributions ::
    "attribution_record list \<Rightarrow> nat \<Rightarrow> nat \<Rightarrow> nat \<Rightarrow> nat \<Rightarrow> nat \<Rightarrow> attr_scan \<Rightarrow> corrupt_image + (nat \<times> nat \<times> attr_scan)" where
  "scan_attributions ats nsources edge_id cursor last_seen chain_count st =
     (if cursor = NIL then Inr (last_seen, chain_count, st)
      else case nth_opt ats cursor of
          None \<Rightarrow> Inl (CorruptImage ''attribution link is out of range'')
        | Some r \<Rightarrow>
            if length (sc_claimed st) \<le> cursor \<or> sc_claimed st ! cursor
            then Inl (CorruptImage ''attribution record belongs to two chains'')
            else if nsources \<le> at_source r then Inl (CorruptImage ''attribution references an unknown source'')
            else if \<not> is_finite (at_sum r) then Inl (CorruptImage ''attribution weight sum is not finite'')
            else if sc_ids st (edge_id, at_source r) \<noteq> None then Inl (CorruptImage ''one edge attributes a source twice'')
            else if at_count r = 0 then Inl (CorruptImage ''attribution record carries a zero count'')
            else if 2 ^ 64 \<le> chain_count + at_count r then Inl (CorruptImage ''attribution chain count overflows u64'')
            else scan_attributions ats nsources edge_id (at_next r) cursor (chain_count + at_count r)
                   (claim_attribution edge_id cursor (at_source r) st))"
  by pat_completeness auto
termination
  by (relation "measure (\<lambda>(_, _, _, _, _, _, st). length (filter Not (sc_claimed st)))")
    (auto simp: claim_attribution_def intro: unclaimed_decreases)

declare scan_attributions.simps [simp del]

fun scan_edges :: "attribution_record list \<Rightarrow> nat \<Rightarrow> nat \<Rightarrow> edge_record list \<Rightarrow> nat \<Rightarrow> attr_scan \<Rightarrow> corrupt_image + (nat \<times> attr_scan)" where
  "scan_edges ats nsources edge_id [] dead st = Inr (dead, st)"
| "scan_edges ats nsources edge_id (e # es) dead st =
     (if \<not> is_finite (ed_sum e) then Inl (CorruptImage ''edge weight sum is not finite'')
      else and_then (scan_attributions ats nsources edge_id (ed_first_attribution e) NIL 0 st) (\<lambda>(last_seen, chain_count, st).
        if last_seen \<noteq> ed_last_attribution e then Inl (CorruptImage ''attribution chain does not end at its tail'')
        else if ed_count e < chain_count
        then Inl (CorruptImage (''edge count is lower than its attributions'' @ [CHR 0x27] @ '' combined count''))
        else scan_edges ats nsources (edge_id + 1) es (if ed_count e = 0 then dead + 1 else dead) st))"

definition index_attributions :: "ctx \<Rightarrow> corrupt_image + ctx" where
  "index_attributions c =
     and_then (scan_edges (attributions c) (length (sources c)) 0 (edges c) 0
        \<lparr>sc_claimed = replicate (length (attributions c)) False, sc_ids = attribution_ids c, sc_source_edges = source_edges c\<rparr>)
       (\<lambda>(dead, st). Inr (c\<lparr>attribution_ids := sc_ids st, source_edges := sc_source_edges st, dead_edges := dead,
          dead_attributions := length (filter Not (sc_claimed st))\<rparr>))"

fun scan_locators :: "nat \<Rightarrow> nat option \<Rightarrow> locator_record list \<Rightarrow> corrupt_image + unit" where
  "scan_locators n previous [] = Inr ()"
| "scan_locators n previous (r # rs) =
     (if n \<le> lo_attribution r then Inl (CorruptImage ''locator references an unknown attribution'')
      else if (case previous of None \<Rightarrow> False | Some p \<Rightarrow> lo_attribution r \<le> p)
      then Inl (CorruptImage ''locator table is not sorted by attribution'')
      else scan_locators n (Some (lo_attribution r)) rs)"

definition validate_locators :: "ctx \<Rightarrow> corrupt_image + unit" where
  "validate_locators c = scan_locators (length (attributions c)) None (attribution_locators c)"

definition seed_arena_slack :: "ctx \<Rightarrow> ctx" where
  "seed_arena_slack c = c\<lparr>arena_slack := length (arena c) -
     (sum_list (map cr_name_len (concepts c)) + sum_list (map lr_name_len (labels c)) + sum_list (map sr_name_len (sources c)) +
      sum_list (map al_name_len (concept_aliases c)) + sum_list (map al_name_len (label_aliases c)))\<rparr>"

definition rebuild_indexes :: "unicode \<Rightarrow> ctx \<Rightarrow> (corrupt_image + ctx) option" where
  "rebuild_indexes U c =
     then_load (index_names U c) (\<lambda>c.
       then_load (index_aliases U c) (\<lambda>c. Some (
         and_then (index_edges c) (\<lambda>c.
           and_then (validate_chains c) (\<lambda>_.
             and_then (index_attributions c) (\<lambda>c.
               and_then (validate_locators c) (\<lambda>_. Inr (seed_arena_slack c))))))))"

section \<open>Reading\<close>

definition load_edge_tables :: "nat \<Rightarrow> reader \<Rightarrow> corrupt_image + (edge_record list \<times> attribution_record list \<times> reader)" where
  "load_edge_tables version r =
     (if 5 \<le> version then
        and_then (load_table load_edge 48 r) (\<lambda>(es, r).
          and_then (load_table load_attribution 24 r) (\<lambda>(ats, r). Inr (es, ats, r)))
      else
        and_then (load_table load_legacy_edge 40 r) (\<lambda>(les, r).
          and_then (load_table load_legacy_attribution 16 r) (\<lambda>(lats, r).
            and_then (migrate_edges lats Map.empty les) (\<lambda>es. Inr (es, map migrate_attribution lats, r)))))"

definition load_alias_tables :: "nat \<Rightarrow> reader \<Rightarrow> corrupt_image + (alias_record list \<times> alias_record list \<times> reader)" where
  "load_alias_tables version r =
     (if 2 \<le> version then
        and_then (load_table load_alias 12 r) (\<lambda>(cas, r).
          and_then (load_table load_alias 12 r) (\<lambda>(las, r). Inr (cas, las, r)))
      else Inr ([], [], r))"

definition load_locator_table :: "nat \<Rightarrow> reader \<Rightarrow> corrupt_image + (locator_record list \<times> reader)" where
  "load_locator_table version r = (if 4 \<le> version then load_table load_locator 8 r else Inr ([], r))"

definition load_arena :: "reader \<Rightarrow> corrupt_image + (u8 list \<times> reader)" where
  "load_arena r = and_then (read_u64 r) (\<lambda>(n, r).
     if u32_max < n then Inl (CorruptImage ''arena length exceeds its 4 GiB offset space'') else take_bytes n r)"

definition bare_ctx ::
    "rstr \<Rightarrow> concept_record list \<Rightarrow> label_record list \<Rightarrow> source_record list \<Rightarrow> edge_record list \<Rightarrow> attribution_record list \<Rightarrow>
     alias_record list \<Rightarrow> alias_record list \<Rightarrow> locator_record list \<Rightarrow> nat \<Rightarrow> ctx" where
  "bare_ctx ar cs ls ss es ats cas las los seq = ctx_default\<lparr>arena := ar, concepts := cs, labels := ls, sources := ss,
     edges := es, attributions := ats, concept_aliases := cas, label_aliases := las, attribution_locators := los,
     applied_seq := seq\<rparr>"

definition load_sections :: "nat \<Rightarrow> reader \<Rightarrow> corrupt_image + (ctx \<times> reader)" where
  "load_sections version r =
     and_then (take_bytes 4 r) (\<lambda>(_, r).
     and_then (if 3 \<le> version then read_u64 r else Inr (0, r)) (\<lambda>(seq, r).
     and_then (load_edge_tables version r) (\<lambda>(es, ats, r).
     and_then (load_table load_concept 32 r) (\<lambda>(cs, r).
     and_then (load_table load_label 20 r) (\<lambda>(ls, r).
     and_then (load_table load_source 8 r) (\<lambda>(ss, r).
     and_then (load_alias_tables version r) (\<lambda>(cas, las, r).
     and_then (load_locator_table version r) (\<lambda>(los, r).
     and_then (load_arena r) (\<lambda>(ar, r). Inr (bare_ctx ar cs ls ss es ats cas las los seq, r))))))))))"

definition CHECKSUM_MISMATCH :: string where
  "CHECKSUM_MISMATCH = ''image checksum mismatch '' @ [CHR 0xE2, CHR 0x80, CHR 0x94] @ '' the bytes changed after they were written''"

definition verify_footer :: "u8 list \<Rightarrow> reader \<Rightarrow> corrupt_image + reader" where
  "verify_footer img r =
     (if length img < 4 then Inl (CorruptImage ''image ends inside its checksum footer'')
      else let body = take (length img - 4) img; footer = drop (length img - 4) img
           in if unat (crc32c body) \<noteq> of_le footer then Inl (CorruptImage CHECKSUM_MISMATCH)
              else Inr (r\<lparr>rd_bytes := body\<rparr>))"

definition from_bytes :: "unicode \<Rightarrow> u8 list \<Rightarrow> (corrupt_image + ctx) option" where
  "from_bytes U img =
     then_load (Some (
       and_then (take_bytes 8 \<lparr>rd_bytes = img, rd_pos = 0\<rparr>) (\<lambda>(magic, r).
       if magic \<noteq> IMAGE_MAGIC then Inl (CorruptImage ''image does not start with the context magic'')
       else and_then (read_u32 r) (\<lambda>(version, r).
         if version < 1 \<or> IMAGE_VERSION < version then Inl (CorruptImage ''image format version is not supported'')
         else and_then (if 6 \<le> version then verify_footer img r else Inr r) (\<lambda>r.
           and_then (load_sections version r) (\<lambda>(c, r).
             if rd_pos r \<noteq> length (rd_bytes r) then Inl (CorruptImage ''image carries trailing bytes'') else Inr c))))))
      (rebuild_indexes U)"

end
