(* ===== verification/Image_Rebuild.thy ===== *)
theory Image_Rebuild
  imports Image_Format Alias
begin

text \<open>
  Rebuilding the derived state of a loaded context: on the tables of a context that satisfies the
  invariant every phase of \<open>rebuild_indexes\<close> succeeds and finds the indexes the context had. Each
  phase has a lemma over the rest of its loop.
\<close>

section \<open>Names\<close>

lemma checked_arena_str_ok: "range_ok ar r \<Longrightarrow> checked_arena_str ar r = Inr (name_at ar r)"
  by (simp add: checked_arena_str_def slice_opt_def range_ok_def name_at_def)

lemma map_add_Cons: "fst p \<notin> fst ` set ps \<Longrightarrow> m(fst p \<mapsto> snd p) ++ map_of ps = m ++ map_of (p # ps)"
  by (auto simp: fun_eq_iff map_add_def map_of_eq_None_iff [THEN iffD2] split: option.splits)

text \<open>What one indexing loop does to an entry index and an id map, given the spellings it meets.\<close>

definition indexed :: "unicode \<Rightarrow> (rstr \<times> nat) list \<Rightarrow> entry_index \<Rightarrow> (rstr \<rightharpoonup> nat) \<Rightarrow> entry_index \<Rightarrow> (rstr \<rightharpoonup> nat) \<Rightarrow> bool" where
  "indexed U ps ix ids ix' ids' \<longleftrightarrow> ei_ok ix' \<and> ids' = ids ++ map_of ps \<and>
     ei_entries ix' = ei_entries ix @ map (apfst (normalize U)) ps"

definition indexable :: "(rstr \<times> nat) list \<Rightarrow> entry_index \<Rightarrow> (rstr \<rightharpoonup> nat) \<Rightarrow> bool" where
  "indexable ps ix ids \<longleftrightarrow> distinct (map fst ps) \<and> (\<forall>p \<in> set ps. ids (fst p) = None) \<and> ei_ok ix \<and>
     length (ei_spans ix) + length ps \<le> NIL"

lemma indexable_step:
  assumes "indexable ((k, t) # ps) ix ids"
  shows "\<exists>ix1. ei_push U ix k t = Some ix1 \<and> ids k = None \<and> indexable ps ix1 (ids(k \<mapsto> t)) \<and>
     (\<forall>ix' ids'. indexed U ps ix1 (ids(k \<mapsto> t)) ix' ids' \<longrightarrow> indexed U ((k, t) # ps) ix ids ix' ids')"
proof -
  obtain ix1 where push: "ei_push U ix k t = Some ix1"
    using ei_push_Some_iff [of U ix k t] assms by (auto simp: indexable_def)
  have e: "ei_entries ix1 = ei_entries ix @ [(normalize U k, t)]" "ei_ok ix1"
    using ei_push_entries [OF push] assms by (auto simp: indexable_def)
  have m: "ids(k \<mapsto> t) ++ map_of ps = ids ++ map_of ((k, t) # ps)"
    using map_add_Cons [of "(k, t)" ps ids] assms by (simp add: indexable_def)
  have "indexable ps ix1 (ids(k \<mapsto> t))"
    using assms e(2) ei_push_length [OF push] by (auto simp: indexable_def)
  moreover have "indexed U ps ix1 (ids(k \<mapsto> t)) ix' ids' \<longrightarrow> indexed U ((k, t) # ps) ix ids ix' ids'" for ix' ids'
    unfolding indexed_def m e(1) by simp
  ultimately show ?thesis using push assms by (auto simp: indexable_def)
qed

definition name_pairs :: "rstr \<Rightarrow> (nat \<times> nat) list \<Rightarrow> nat \<Rightarrow> (rstr \<times> nat) list" where
  "name_pairs ar rs i = zip (map (name_at ar) rs) [i..<i + length rs]"

lemma name_pairs_simps [simp]:
  "name_pairs ar [] i = []" "name_pairs ar (r # rs) i = (name_at ar r, i) # name_pairs ar rs (Suc i)"
  by (simp_all add: name_pairs_def upt_rec [of i] del: upt_Suc)

lemma alias_spellings_simps [simp]:
  "alias_spellings ar [] = []"
  "alias_spellings ar (a # as) = (name_at ar (alias_range a), al_target a) # alias_spellings ar as"
  by (simp_all add: alias_spellings_def)

lemma spellings_pairs: "spellings ar rs als = name_pairs ar rs 0 @ alias_spellings ar als"
  by (simp add: spellings_def name_pairs_def)

lemma index_concept_names_spec:
  assumes "\<forall>r \<in> set rs. range_ok (arena c) (concept_range r)"
    "indexable (name_pairs (arena c) (map concept_range rs) i) (concept_index c) (concept_ids c)"
  shows "\<exists>ix ids. index_concept_names U i rs c = Some (Inr (c\<lparr>concept_index := ix, concept_ids := ids\<rparr>)) \<and>
     indexed U (name_pairs (arena c) (map concept_range rs) i) (concept_index c) (concept_ids c) ix ids"
  using assms
proof (induction rs arbitrary: i c)
  case Nil
  show ?case
    by (rule exI [of _ "concept_index c"], rule exI [of _ "concept_ids c"])
      (use Nil.prems(2) in \<open>simp add: indexed_def indexable_def\<close>)
next
  case (Cons r rs)
  let ?k = "name_at (arena c) (concept_range r)"
  obtain ix1 where s: "ei_push U (concept_index c) ?k i = Some ix1" "concept_ids c ?k = None"
      "indexable (name_pairs (arena c) (map concept_range rs) (Suc i)) ix1 ((concept_ids c)(?k \<mapsto> i))"
      "\<forall>ix' ids'. indexed U (name_pairs (arena c) (map concept_range rs) (Suc i)) ix1 ((concept_ids c)(?k \<mapsto> i)) ix' ids' \<longrightarrow>
         indexed U (name_pairs (arena c) (map concept_range (r # rs)) i) (concept_index c) (concept_ids c) ix' ids'"
    using indexable_step [OF Cons.prems(2) [unfolded list.map name_pairs_simps], of U] by auto
  let ?c = "c\<lparr>concept_index := ix1, concept_ids := (concept_ids c)(?k \<mapsto> i)\<rparr>"
  obtain ix ids where "index_concept_names U (Suc i) rs ?c = Some (Inr (?c\<lparr>concept_index := ix, concept_ids := ids\<rparr>))"
     "indexed U (name_pairs (arena c) (map concept_range rs) (Suc i)) ix1 ((concept_ids c)(?k \<mapsto> i)) ix ids"
    using Cons.IH [of ?c "Suc i"] Cons.prems(1) s(3) by (auto simp del: fun_upd_apply)
  then show ?case using s Cons.prems(1) by (auto simp: checked_arena_str_ok)
qed

lemma index_label_names_spec:
  assumes "\<forall>r \<in> set rs. range_ok (arena c) (label_range r)"
    "indexable (name_pairs (arena c) (map label_range rs) i) (label_index c) (label_ids c)"
  shows "\<exists>ix ids. index_label_names U i rs c = Some (Inr (c\<lparr>label_index := ix, label_ids := ids,
       label_name_index := foldl (\<lambda>b r. bt_insert (name_at (arena c) (label_range r)) () b) (label_name_index c) rs\<rparr>)) \<and>
     indexed U (name_pairs (arena c) (map label_range rs) i) (label_index c) (label_ids c) ix ids"
  using assms
proof (induction rs arbitrary: i c)
  case Nil
  show ?case
    by (rule exI [of _ "label_index c"], rule exI [of _ "label_ids c"])
      (use Nil.prems(2) in \<open>simp add: indexed_def indexable_def\<close>)
next
  case (Cons r rs)
  let ?k = "name_at (arena c) (label_range r)"
  obtain ix1 where s: "ei_push U (label_index c) ?k i = Some ix1" "label_ids c ?k = None"
      "indexable (name_pairs (arena c) (map label_range rs) (Suc i)) ix1 ((label_ids c)(?k \<mapsto> i))"
      "\<forall>ix' ids'. indexed U (name_pairs (arena c) (map label_range rs) (Suc i)) ix1 ((label_ids c)(?k \<mapsto> i)) ix' ids' \<longrightarrow>
         indexed U (name_pairs (arena c) (map label_range (r # rs)) i) (label_index c) (label_ids c) ix' ids'"
    using indexable_step [OF Cons.prems(2) [unfolded list.map name_pairs_simps], of U] by auto
  let ?c = "c\<lparr>label_index := ix1, label_ids := (label_ids c)(?k \<mapsto> i), label_name_index := bt_insert ?k () (label_name_index c)\<rparr>"
  obtain ix ids where "index_label_names U (Suc i) rs ?c = Some (Inr (?c\<lparr>label_index := ix, label_ids := ids,
       label_name_index := foldl (\<lambda>b r. bt_insert (name_at (arena c) (label_range r)) () b) (label_name_index ?c) rs\<rparr>))"
     "indexed U (name_pairs (arena c) (map label_range rs) (Suc i)) ix1 ((label_ids c)(?k \<mapsto> i)) ix ids"
    using Cons.IH [of ?c "Suc i"] Cons.prems(1) s(3) by (auto simp del: fun_upd_apply)
  then show ?case using s Cons.prems(1) by (auto simp: checked_arena_str_ok)
qed

lemma index_source_names_spec:
  assumes "\<forall>r \<in> set rs. range_ok (arena c) (source_range r)"
    "distinct (map fst (name_pairs (arena c) (map source_range rs) i))"
    "\<forall>p \<in> set (name_pairs (arena c) (map source_range rs) i). source_ids c (fst p) = None"
  shows "index_source_names i rs c =
     Inr (c\<lparr>source_ids := source_ids c ++ map_of (name_pairs (arena c) (map source_range rs) i)\<rparr>)"
  using assms
proof (induction rs arbitrary: i c)
  case (Cons r rs)
  let ?p = "(name_at (arena c) (source_range r), i)"
  let ?c = "c\<lparr>source_ids := (source_ids c)(fst ?p \<mapsto> i)\<rparr>"
  have f: "\<forall>p \<in> set (name_pairs (arena c) (map source_range rs) (Suc i)). source_ids ?c (fst p) = None"
    using Cons.prems by force
  have "index_source_names (Suc i) rs ?c = Inr (?c\<lparr>source_ids := source_ids ?c ++ map_of (name_pairs (arena c) (map source_range rs) (Suc i))\<rparr>)"
    using Cons.IH [of ?c "Suc i"] Cons.prems(1,2) f by (simp del: fun_upd_apply)
  moreover have "source_ids ?c ++ map_of (name_pairs (arena c) (map source_range rs) (Suc i)) =
      source_ids c ++ map_of (name_pairs (arena c) (map source_range (r # rs)) i)"
    using map_add_Cons [of ?p "name_pairs (arena c) (map source_range rs) (Suc i)" "source_ids c"] Cons.prems(2) by simp
  ultimately show ?case using Cons.prems by (simp add: checked_arena_str_ok del: fun_upd_apply)
qed simp

section \<open>Aliases\<close>

lemma index_concept_aliases_spec:
  assumes "\<forall>a \<in> set as. range_ok (arena c) (alias_range a) \<and> al_target a < length (concepts c)"
    "indexable (alias_spellings (arena c) as) (concept_index c) (concept_ids c)"
  shows "\<exists>ix ids. index_concept_aliases U as c = Some (Inr (c\<lparr>concept_index := ix, concept_ids := ids,
       concept_alias_index := foldl (\<lambda>b p. bt_insert (fst p) (snd p) b) (concept_alias_index c) (alias_spellings (arena c) as)\<rparr>)) \<and>
     indexed U (alias_spellings (arena c) as) (concept_index c) (concept_ids c) ix ids"
  using assms
proof (induction as arbitrary: c)
  case Nil
  show ?case
    by (rule exI [of _ "concept_index c"], rule exI [of _ "concept_ids c"])
      (use Nil.prems(2) in \<open>simp add: indexed_def indexable_def\<close>)
next
  case (Cons a as)
  let ?k = "name_at (arena c) (alias_range a)" and ?t = "al_target a"
  obtain ix1 where s: "ei_push U (concept_index c) ?k ?t = Some ix1" "concept_ids c ?k = None"
      "indexable (alias_spellings (arena c) as) ix1 ((concept_ids c)(?k \<mapsto> ?t))"
      "\<forall>ix' ids'. indexed U (alias_spellings (arena c) as) ix1 ((concept_ids c)(?k \<mapsto> ?t)) ix' ids' \<longrightarrow>
         indexed U (alias_spellings (arena c) (a # as)) (concept_index c) (concept_ids c) ix' ids'"
    using indexable_step [OF Cons.prems(2) [unfolded alias_spellings_simps], of U] by auto
  let ?c = "c\<lparr>concept_index := ix1, concept_ids := (concept_ids c)(?k \<mapsto> ?t), concept_alias_index := bt_insert ?k ?t (concept_alias_index c)\<rparr>"
  obtain ix ids where "index_concept_aliases U as ?c = Some (Inr (?c\<lparr>concept_index := ix, concept_ids := ids,
       concept_alias_index := foldl (\<lambda>b p. bt_insert (fst p) (snd p) b) (concept_alias_index ?c) (alias_spellings (arena c) as)\<rparr>))"
     "indexed U (alias_spellings (arena c) as) ix1 ((concept_ids c)(?k \<mapsto> ?t)) ix ids"
    using Cons.IH [of ?c] Cons.prems(1) s(3) by (auto simp del: fun_upd_apply)
  then show ?case using s Cons.prems(1) by (auto simp: checked_arena_str_ok)
qed

lemma index_label_aliases_spec:
  assumes "\<forall>a \<in> set as. range_ok (arena c) (alias_range a) \<and> al_target a < length (labels c)"
    "indexable (alias_spellings (arena c) as) (label_index c) (label_ids c)"
  shows "\<exists>ix ids. index_label_aliases U as c = Some (Inr (c\<lparr>label_index := ix, label_ids := ids,
       label_alias_index := foldl (\<lambda>b p. bt_insert (fst p) (snd p) b) (label_alias_index c) (alias_spellings (arena c) as)\<rparr>)) \<and>
     indexed U (alias_spellings (arena c) as) (label_index c) (label_ids c) ix ids"
  using assms
proof (induction as arbitrary: c)
  case Nil
  show ?case
    by (rule exI [of _ "label_index c"], rule exI [of _ "label_ids c"])
      (use Nil.prems(2) in \<open>simp add: indexed_def indexable_def\<close>)
next
  case (Cons a as)
  let ?k = "name_at (arena c) (alias_range a)" and ?t = "al_target a"
  obtain ix1 where s: "ei_push U (label_index c) ?k ?t = Some ix1" "label_ids c ?k = None"
      "indexable (alias_spellings (arena c) as) ix1 ((label_ids c)(?k \<mapsto> ?t))"
      "\<forall>ix' ids'. indexed U (alias_spellings (arena c) as) ix1 ((label_ids c)(?k \<mapsto> ?t)) ix' ids' \<longrightarrow>
         indexed U (alias_spellings (arena c) (a # as)) (label_index c) (label_ids c) ix' ids'"
    using indexable_step [OF Cons.prems(2) [unfolded alias_spellings_simps], of U] by auto
  let ?c = "c\<lparr>label_index := ix1, label_ids := (label_ids c)(?k \<mapsto> ?t), label_alias_index := bt_insert ?k ?t (label_alias_index c)\<rparr>"
  obtain ix ids where "index_label_aliases U as ?c = Some (Inr (?c\<lparr>label_index := ix, label_ids := ids,
       label_alias_index := foldl (\<lambda>b p. bt_insert (fst p) (snd p) b) (label_alias_index ?c) (alias_spellings (arena c) as)\<rparr>))"
     "indexed U (alias_spellings (arena c) as) ix1 ((label_ids c)(?k \<mapsto> ?t)) ix ids"
    using Cons.IH [of ?c] Cons.prems(1) s(3) by (auto simp del: fun_upd_apply)
  then show ?case using s Cons.prems(1) by (auto simp: checked_arena_str_ok)
qed

text \<open>An ordered index is determined by the pairs it holds.\<close>

lemma page_unique:
  assumes "bt_sorted xs" "bt_sorted ys" "set xs = set ys" shows "xs = ys"
proof -
  have e: "map fst xs = map fst ys"
    using assms by (intro strict_sorted_equal) auto
  then have "length xs = length ys" using map_eq_imp_length_eq by blast
  moreover have "xs ! i = ys ! i" if i: "i < length xs" for i
  proof -
    have d: "distinct (map fst ys)" using assms(2) strict_sorted_iff by blast
    have "xs ! i \<in> set ys" "ys ! i \<in> set ys" using i calculation assms(3) nth_mem by metis+
    moreover have "fst (xs ! i) = fst (ys ! i)" using e i \<open>length xs = length ys\<close> by (metis nth_map)
    ultimately show ?thesis using d by (metis eq_key_imp_eq_value prod.collapse)
  qed
  ultimately show ?thesis by (rule nth_equalityI)
qed

lemma foldl_bt_insert:
  assumes "bt_sorted b" "distinct (map fst b @ map fst ps)"
  shows "bt_sorted (foldl (\<lambda>b p. bt_insert (fst p) (snd p) b) b ps) \<and>
     set (foldl (\<lambda>b p. bt_insert (fst p) (snd p) b) b ps) = set b \<union> set ps"
  using assms
proof (induction ps arbitrary: b)
  case (Cons p ps)
  have n: "fst p \<notin> fst ` set b" using Cons.prems(2) by auto
  have s: "set (bt_insert (fst p) (snd p) b) = insert p (set b)" using set_bt_insert_new [OF n] by simp
  have "bt_sorted (bt_insert (fst p) (snd p) b)" using Cons.prems(1) by (rule bt_sorted_insert)
  moreover from this have "distinct (map fst (bt_insert (fst p) (snd p) b))" using strict_sorted_iff by blast
  ultimately show ?case using Cons.IH [of "bt_insert (fst p) (snd p) b"] Cons.prems s by auto
qed simp

lemma rebuilt_page:
  assumes "page_ok pages ps" "distinct (map fst ps)"
  shows "foldl (\<lambda>b p. bt_insert (fst p) (snd p) b) [] ps = pages"
  using foldl_bt_insert [of "[]" ps] assms by (intro page_unique) (auto simp: page_ok_def)

section \<open>Edges\<close>

lemma index_edge_records_spec:
  assumes "\<forall>e \<in> set es. ed_subject e < length (concepts c) \<and> ed_object e < length (concepts c) \<and> ed_label e < length (labels c)"
    "distinct (map triple es)" "\<forall>e \<in> set es. edge_ids c (triple e) = None"
  shows "index_edge_records i es c = Inr (c\<lparr>edge_ids := edge_ids c ++ map_of (zip (map triple es) [i..<i + length es])\<rparr>)"
  using assms
proof (induction es arbitrary: i c)
  case (Cons e es)
  let ?c = "c\<lparr>edge_ids := (edge_ids c)(triple e \<mapsto> i)\<rparr>" and ?ps = "zip (map triple es) [Suc i..<Suc i + length es]"
  have f: "\<forall>e \<in> set es. edge_ids ?c (triple e) = None"
  proof
    fix x assume x: "x \<in> set es"
    then have "triple x \<noteq> triple e" using Cons.prems(2) by (simp add: image_iff) metis
    with x Cons.prems(3) show "edge_ids ?c (triple x) = None" by simp
  qed
  have "index_edge_records (Suc i) es ?c = Inr (?c\<lparr>edge_ids := edge_ids ?c ++ map_of ?ps\<rparr>)"
    using Cons.IH [of ?c "Suc i"] Cons.prems(1,2) f by (simp del: fun_upd_apply)
  moreover have "edge_ids ?c ++ map_of ?ps = edge_ids c ++ map_of ((triple e, i) # ?ps)"
  proof -
    have "map fst ?ps = map triple es" by (rule map_fst_zip) (simp del: upt_Suc)
    then have "fst ` set ?ps = triple ` set es" by (metis set_map)
    then show ?thesis using map_add_Cons [of "(triple e, i)" ?ps "edge_ids c"] Cons.prems(2) by simp
  qed
  moreover have "zip (map triple (e # es)) [i..<i + length (e # es)] = (triple e, i) # ?ps"
    by (simp add: upt_conv_Cons del: upt_Suc)
  ultimately show ?case
    using Cons.prems by (simp add: not_le del: fun_upd_apply upt_Suc)
qed simp

lemma index_edges_inv:
  assumes "edges_inv c" "edge_ids c0 = Map.empty" "edges c0 = edges c" "concepts c0 = concepts c" "labels c0 = labels c"
  shows "index_edges c0 = Inr (c0\<lparr>edge_ids := edge_ids c\<rparr>)"
proof -
  let ?ps = "zip (map triple (edges c)) [0..<length (edges c)]"
  have d: "distinct (map triple (edges c))"
    unfolding distinct_conv_nth length_map
  proof (intro allI impI)
    fix i j assume a: "i < length (edges c)" "j < length (edges c)" "i \<noteq> j"
    have "edge_ids c (triple (edges c ! i)) = Some i" "edge_ids c (triple (edges c ! j)) = Some j"
      using assms(1) a(1,2) unfolding edges_inv_def by blast+
    with a(3) have "triple (edges c ! i) \<noteq> triple (edges c ! j)" by (metis option.inject)
    with a(1,2) show "map triple (edges c) ! i \<noteq> map triple (edges c) ! j" by simp
  qed
  have d': "distinct (map fst ?ps)" using d by simp
  have "map_of ?ps k = Some i \<longleftrightarrow> edge_ids c k = Some i" for k i
  proof -
    have "(k, i) \<in> set ?ps \<longleftrightarrow> i < length (edges c) \<and> triple (edges c ! i) = k"
      by (auto simp: set_zip) (metis nth_map nth_upt add_0)
    then show ?thesis
      unfolding map_of_eq_Some_iff [OF d'] using assms(1) [unfolded edges_inv_def, THEN conjunct2, rule_format, of k i] by simp
  qed
  then have "map_of ?ps = edge_ids c" by (intro ext) (metis option.exhaust)
  then show ?thesis
    using index_edge_records_spec [of "edges c" c0 0] assms d by (simp add: index_edges_def edges_inv_def)
qed

section \<open>Chains\<close>

lemma chain_scan_linked:
  assumes "linked (\<lambda>e. follow (es ! e)) cursor xs" "\<forall>x \<in> set xs. x < length es \<and> owned_by (es ! x)"
    "steps + length xs \<le> cnt" "steps + length xs \<le> length es"
  shows "chain_scan es cnt follow owned_by cursor last_seen steps =
     Inr (steps + length xs, if xs = [] then last_seen else last xs)"
  using assms
proof (induction xs arbitrary: cursor last_seen steps)
  case Nil
  then show ?case by (simp add: chain_scan.simps)
next
  case (Cons x xs)
  then show ?case by (subst chain_scan.simps) auto
qed

lemma validate_edge_chain_ok:
  assumes "chains_inv get owner anchor n es" "i < n" "anchor i = (first, lst, cnt)"
  shows "validate_edge_chain es first lst cnt get (\<lambda>e. owner e = i) = Inr ()"
proof -
  let ?xs = "owned owner es i"
  have ok: "linked (\<lambda>e. get (es ! e)) first ?xs" "lst = tail_of ?xs" "cnt = length ?xs"
    using assms by (auto simp: chains_inv_def chain_ok_def)
  have "length ?xs \<le> length es" by (simp add: owned_def) (metis diff_zero length_filter_le length_upt)
  then show ?thesis
    using chain_scan_linked [OF ok(1), of "\<lambda>e. owner e = i" 0 cnt NIL] ok(2,3)
    by (simp add: validate_edge_chain_def set_owned tail_of_def)
qed

lemma validate_concept_chains_ok:
  assumes "\<forall>j < length rs. validate_edge_chain es (cr_first_outgoing (rs ! j)) (cr_last_outgoing (rs ! j))
        (cr_outgoing_count (rs ! j)) ed_next_outgoing (\<lambda>e. ed_subject e = i + j) = Inr ()"
    "\<forall>j < length rs. validate_edge_chain es (cr_first_incoming (rs ! j)) (cr_last_incoming (rs ! j))
        (cr_incoming_count (rs ! j)) ed_next_incoming (\<lambda>e. ed_object e = i + j) = Inr ()"
  shows "validate_concept_chains es i rs = Inr ()"
  using assms
proof (induction rs arbitrary: i)
  case (Cons r rs)
  have "validate_concept_chains es (Suc i) rs = Inr ()"
    using Cons.prems [rule_format, of "Suc _"] by (intro Cons.IH) auto
  then show ?case using Cons.prems [rule_format, of 0] by simp
qed simp

lemma validate_label_chains_ok:
  assumes "\<forall>j < length rs. validate_edge_chain es (lr_first_edge (rs ! j)) (lr_last_edge (rs ! j))
        (lr_edge_count (rs ! j)) ed_next_labeled (\<lambda>e. ed_label e = i + j) = Inr ()"
  shows "validate_label_chains es i rs = Inr ()"
  using assms
proof (induction rs arbitrary: i)
  case (Cons r rs)
  have "validate_label_chains es (Suc i) rs = Inr ()"
    using Cons.prems [rule_format, of "Suc _"] by (intro Cons.IH) auto
  then show ?case using Cons.prems [rule_format, of 0] by simp
qed simp

text \<open>The chains of one kind partition the edge table.\<close>

lemma sum_owned:
  assumes "\<forall>e \<in> set es. owner e < n"
  shows "(\<Sum>i < n. length (owned owner es i)) = length es"
proof -
  have "(\<Sum>i < n. length (owned owner es i)) = (\<Sum>i < n. card {e. e < length es \<and> owner (es ! e) = i})"
    by (simp add: owned_def distinct_card [symmetric] set_owned [unfolded owned_def] del: set_filter)
      (simp add: distinct_length_filter)?
  also have "\<dots> = card (\<Union>i < n. {e. e < length es \<and> owner (es ! e) = i})"
    by (subst card_UN_disjoint) auto
  also have "(\<Union>i < n. {e. e < length es \<and> owner (es ! e) = i}) = {..<length es}"
    using assms by auto
  finally show ?thesis by simp
qed

lemma foldl_u64_add: "a + sum_list xs < 2 ^ 64 \<Longrightarrow> foldl u64_add a xs = a + sum_list xs"
  by (induction xs arbitrary: a) (auto simp: u64_add_def)

lemma anchor_total:
  assumes "chains_inv get owner anchor (length rs) es" "\<forall>e \<in> set es. owner e < length rs" "length es \<le> NIL"
    "\<forall>i < length rs. snd (snd (anchor i)) = cnt (rs ! i)"
  shows "foldl u64_add 0 (map cnt rs) = length es"
proof -
  have "cnt (rs ! i) = length (owned owner es i)" if "i < length rs" for i
    using assms(1,4) that by (auto simp: chains_inv_def chain_ok_def split_beta)
  then have "sum_list (map cnt rs) = (\<Sum>i < length rs. length (owned owner es i))"
    by (simp add: sum_list_sum_nth atLeast0LessThan)
  then have s: "sum_list (map cnt rs) = length es" using sum_owned [OF assms(2)] by simp
  then show ?thesis using foldl_u64_add [of 0 "map cnt rs"] assms(3) by (simp add: NIL_eq)
qed

lemma validate_chains_inv:
  assumes ch: "chain_inv c" and ed: "edges_inv c" and b: "bounds_inv c"
    and eq: "edges c0 = edges c" "concepts c0 = concepts c" "labels c0 = labels c"
  shows "validate_chains c0 = Inr ()"
proof -
  note out = ch [unfolded chain_inv_def, THEN conjunct1]
    and inc = ch [unfolded chain_inv_def, THEN conjunct2, THEN conjunct1]
    and lab = ch [unfolded chain_inv_def, THEN conjunct2, THEN conjunct2]
  have n: "length (edges c) \<le> NIL" using b by (simp add: bounds_inv_def)
  have "validate_concept_chains (edges c) 0 (concepts c) = Inr ()"
    using validate_edge_chain_ok [OF out] validate_edge_chain_ok [OF inc]
    by (intro validate_concept_chains_ok) (simp_all add: out_anchor_def in_anchor_def)
  moreover have "validate_label_chains (edges c) 0 (labels c) = Inr ()"
    using validate_edge_chain_ok [OF lab] by (intro validate_label_chains_ok) (simp_all add: label_anchor_def)
  moreover have "foldl u64_add 0 (map cr_outgoing_count (concepts c)) = length (edges c)"
    by (rule anchor_total [OF out _ n]) (use ed in \<open>auto simp: edges_inv_def out_anchor_def\<close>)
  moreover have "foldl u64_add 0 (map cr_incoming_count (concepts c)) = length (edges c)"
    by (rule anchor_total [OF inc _ n]) (use ed in \<open>auto simp: edges_inv_def in_anchor_def\<close>)
  moreover have "foldl u64_add 0 (map lr_edge_count (labels c)) = length (edges c)"
    by (rule anchor_total [OF lab _ n]) (use ed in \<open>auto simp: edges_inv_def label_anchor_def\<close>)
  ultimately show ?thesis by (simp add: validate_chains_def eq)
qed

section \<open>Locators and slack\<close>

lemma scan_locators_ok:
  assumes "sorted_wrt (<) (map lo_attribution los)" "\<forall>r \<in> set los. lo_attribution r < n \<and> (\<forall>p. previous = Some p \<longrightarrow> p < lo_attribution r)"
  shows "scan_locators n previous los = Inr ()"
  using assms
proof (induction los arbitrary: previous)
  case (Cons r rs)
  have "scan_locators n (Some (lo_attribution r)) rs = Inr ()" using Cons.prems by (intro Cons.IH) auto
  then show ?case using Cons.prems(2) by (auto simp: not_le split: option.splits)
qed simp

lemma seed_arena_slack_inv:
  "slack_inv c \<Longrightarrow> length (arena c) - (sum_list (map cr_name_len (concepts c)) + sum_list (map lr_name_len (labels c)) +
     sum_list (map sr_name_len (sources c)) + sum_list (map al_name_len (concept_aliases c)) +
     sum_list (map al_name_len (label_aliases c))) = arena_slack c"
  by (simp add: slack_inv_def live_bytes_def concept_range_def label_range_def source_range_def comp_def)

section \<open>Attributions\<close>

abbreviation claims :: "attribution_record list \<Rightarrow> nat \<Rightarrow> nat list \<Rightarrow> attr_scan \<Rightarrow> attr_scan" where
  "claims ats e xs st \<equiv> foldl (\<lambda>st a. claim_attribution e a (at_source (ats ! a)) st) st xs"

lemma scan_attributions_linked:
  assumes "linked (\<lambda>a. at_next (ats ! a)) cursor xs"
    "\<forall>a \<in> set xs. a < length ats \<and> at_source (ats ! a) < n \<and> 0 < at_count (ats ! a) \<and> is_finite (at_sum (ats ! a))"
    "distinct (map (\<lambda>a. at_source (ats ! a)) xs)" "k + sum_list (map (\<lambda>a. at_count (ats ! a)) xs) < 2 ^ 64"
    "length (sc_claimed st) = length ats" "\<forall>a \<in> set xs. \<not> sc_claimed st ! a \<and> sc_ids st (e, at_source (ats ! a)) = None"
  shows "scan_attributions ats n e cursor last_seen k st =
     Inr (if xs = [] then last_seen else last xs, k + sum_list (map (\<lambda>a. at_count (ats ! a)) xs), claims ats e xs st)"
  using assms
proof (induction xs arbitrary: cursor last_seen k st)
  case Nil
  then show ?case by (simp add: scan_attributions.simps)
next
  case (Cons x xs)
  let ?st = "claim_attribution e x (at_source (ats ! x)) st" and ?k = "k + at_count (ats ! x)"
  have x: "cursor = x" "x \<noteq> NIL" "x < length ats" "at_source (ats ! x) < n" "0 < at_count (ats ! x)"
      "is_finite (at_sum (ats ! x))" "\<not> sc_claimed st ! x" "sc_ids st (e, at_source (ats ! x)) = None" "?k < 2 ^ 64"
      "x \<notin> set xs"
    using Cons.prems linked_distinct [OF Cons.prems(1)] by auto
  have "\<forall>a \<in> set xs. \<not> sc_claimed ?st ! a \<and> sc_ids ?st (e, at_source (ats ! a)) = None"
  proof
    fix a assume a: "a \<in> set xs"
    with x have "a \<noteq> x" by blast
    moreover have "at_source (ats ! a) \<noteq> at_source (ats ! x)" using a Cons.prems(3) by (auto simp: image_iff)
    ultimately show "\<not> sc_claimed ?st ! a \<and> sc_ids ?st (e, at_source (ats ! a)) = None"
      using Cons.prems(6) a by (simp add: claim_attribution_def nth_update_all)
  qed
  moreover have "length (sc_claimed ?st) = length ats" using Cons.prems(5) by (simp add: claim_attribution_def)
  moreover have "?k + sum_list (map (\<lambda>a. at_count (ats ! a)) xs) < 2 ^ 64" using Cons.prems(4) by simp
  ultimately have "scan_attributions ats n e (at_next (ats ! x)) x ?k ?st =
     Inr (if xs = [] then x else last xs, ?k + sum_list (map (\<lambda>a. at_count (ats ! a)) xs), claims ats e xs ?st)"
    using Cons.prems(1,2,3) by (intro Cons.IH) auto
  then show ?case using x Cons.prems(5) by (subst scan_attributions.simps) (simp add: add.assoc not_le)
qed

lemma claims_claimed:
  "length (sc_claimed (claims ats e xs st)) = length (sc_claimed st) \<and>
   (\<forall>a < length (sc_claimed st). sc_claimed (claims ats e xs st) ! a \<longleftrightarrow> sc_claimed st ! a \<or> a \<in> set xs)"
proof (induction xs arbitrary: st)
  case (Cons x xs)
  show ?case using Cons.IH [of "claim_attribution e x (at_source (ats ! x)) st"]
    by (auto simp: claim_attribution_def nth_update_all)
qed simp

lemma claims_ids:
  "distinct (map (\<lambda>a. at_source (ats ! a)) xs) \<Longrightarrow>
   sc_ids (claims ats e xs st) = sc_ids st ++ map_of (map (\<lambda>a. ((e, at_source (ats ! a)), a)) xs)"
proof (induction xs arbitrary: st)
  case (Cons x xs)
  let ?ps = "map (\<lambda>a. ((e, at_source (ats ! a)), a)) xs"
  have "(sc_ids st)((e, at_source (ats ! x)) \<mapsto> x) ++ map_of ?ps = sc_ids st ++ map_of (((e, at_source (ats ! x)), x) # ?ps)"
    using map_add_Cons [of "((e, at_source (ats ! x)), x)" ?ps "sc_ids st"] Cons.prems by (simp add: image_iff)
  then show ?case using Cons by (simp add: claim_attribution_def del: fun_upd_apply)
qed simp

definition listed :: "'a list option \<Rightarrow> 'a list" where
  "listed r = (case r of None \<Rightarrow> [] | Some xs \<Rightarrow> xs)"

lemma claims_source_edges:
  "distinct (map (\<lambda>a. at_source (ats ! a)) xs) \<Longrightarrow>
   sc_source_edges (claims ats e xs st) s =
     (if s \<in> (\<lambda>a. at_source (ats ! a)) ` set xs then Some (listed (sc_source_edges st s) @ [e]) else sc_source_edges st s)"
proof (induction xs arbitrary: st)
  case (Cons x xs)
  show ?case using Cons.IH [of "claim_attribution e x (at_source (ats ! x)) st"] Cons.prems
    by (auto simp: claim_attribution_def listed_def)
qed simp

text \<open>The scan state after the first \<open>k\<close> edges, as a function of the context's own indexes.\<close>

definition edges_citing :: "ctx \<Rightarrow> nat \<Rightarrow> nat \<Rightarrow> nat list" where
  "edges_citing c k s = filter (\<lambda>e. attribution_ids c (e, s) \<noteq> None) [0..<k]"

definition scanned :: "ctx \<Rightarrow> (nat \<Rightarrow> nat list) \<Rightarrow> nat \<Rightarrow> attr_scan \<Rightarrow> bool" where
  "scanned c f k st \<longleftrightarrow> length (sc_claimed st) = length (attributions c) \<and>
     (\<forall>a < length (attributions c). sc_claimed st ! a \<longleftrightarrow> (\<exists>e < k. a \<in> set (f e))) \<and>
     (\<forall>e s. sc_ids st (e, s) = (if e < k then attribution_ids c (e, s) else None)) \<and>
     (\<forall>s. sc_source_edges st s = (if edges_citing c k s = [] then None else Some (edges_citing c k s)))"

lemma attr_edge:
  assumes "attr_inv c f" "k < length (edges c)"
  shows "linked (\<lambda>a. at_next (attributions c ! a)) (ed_first_attribution (edges c ! k)) (f k)"
    "ed_last_attribution (edges c ! k) = tail_of (f k)"
    "\<forall>a \<in> set (f k). a < length (attributions c) \<and> at_source (attributions c ! a) < length (sources c) \<and>
       0 < at_count (attributions c ! a) \<and> is_finite (at_sum (attributions c ! a))"
    "distinct (map (\<lambda>a. at_source (attributions c ! a)) (f k))"
    "sum_list (map (\<lambda>a. at_count (attributions c ! a)) (f k)) \<le> ed_count (edges c ! k)"
    "ed_count (edges c ! k) < 2 ^ 64" "is_finite (ed_sum (edges c ! k))"
  using assms unfolding attr_inv_def attr_tables_ok_def edge_attr_ok_def by blast+

lemma attr_disjoint:
  "attr_inv c f \<Longrightarrow> e < length (edges c) \<Longrightarrow> e' < length (edges c) \<Longrightarrow> e \<noteq> e' \<Longrightarrow> set (f e) \<inter> set (f e') = {}"
  unfolding attr_inv_def attr_tables_ok_def by blast

lemma attr_ids_None:
  assumes "attr_inv c f" "k < length (edges c)"
  shows "attribution_ids c (k, s) = None \<longleftrightarrow> s \<notin> (\<lambda>a. at_source (attributions c ! a)) ` set (f k)"
proof -
  have "attribution_ids c (k, s) \<noteq> None \<longleftrightarrow> (\<exists>a. attribution_ids c (k, s) = Some a)" by simp
  then show ?thesis using assms(2) unfolding attr_ids_iff [OF assms(1)] by (auto simp: image_iff)
qed

lemma attr_ids_row:
  assumes "attr_inv c f" "k < length (edges c)"
  shows "map_of (map (\<lambda>a. ((k, at_source (attributions c ! a)), a)) (f k)) (k, s) = attribution_ids c (k, s)"
proof -
  let ?m = "map (\<lambda>a. ((k, at_source (attributions c ! a)), a)) (f k)"
  have d: "distinct (map fst ?m)"
    using attr_edge(4) [OF assms] by (simp add: comp_def distinct_map inj_on_def)
  have "map_of ?m (k, s) = Some a \<longleftrightarrow> attribution_ids c (k, s) = Some a" for a
    unfolding map_of_eq_Some_iff [OF d] attr_ids_iff [OF assms(1)] using assms(2) by auto
  then show ?thesis by (metis option.exhaust)
qed

lemma scanned_step:
  assumes inv: "attr_inv c f" and k: "k < length (edges c)" and st: "scanned c f k st"
  shows "scanned c f (Suc k) (claims (attributions c) k (f k) st)"
proof -
  let ?st = "claims (attributions c) k (f k) st" and ?m = "map (\<lambda>a. ((k, at_source (attributions c ! a)), a)) (f k)"
  note d = attr_edge(4) [OF inv k]
  have "length (sc_claimed ?st) = length (attributions c)"
    "\<forall>a < length (attributions c). sc_claimed ?st ! a \<longleftrightarrow> (\<exists>e < Suc k. a \<in> set (f e))"
    using claims_claimed [where ats = "attributions c" and e = k and xs = "f k" and st = st] st
    by (auto simp: scanned_def less_Suc_eq)
  moreover have "sc_ids ?st (e, s) = (if e < Suc k then attribution_ids c (e, s) else None)" for e s
  proof (cases "e = k")
    case True
    then show ?thesis using claims_ids [OF d, of k st] attr_ids_row [OF inv k, of s] st
      by (auto simp: scanned_def map_add_def split: option.splits)
  next
    case False
    then have "map_of ?m (e, s) = None" by (auto simp: map_of_eq_None_iff)
    with False show ?thesis using claims_ids [OF d, of k st] st by (auto simp: scanned_def map_add_def)
  qed
  moreover have "sc_source_edges ?st s = (if edges_citing c (Suc k) s = [] then None else Some (edges_citing c (Suc k) s))" for s
    using claims_source_edges [OF d, of k st s] attr_ids_None [OF inv k, of s] st
    by (auto simp: scanned_def edges_citing_def listed_def)
  ultimately show ?thesis by (simp add: scanned_def)
qed

lemma scan_edges_inv:
  assumes inv: "attr_inv c f" and st: "scanned c f k st" and k: "k \<le> length (edges c)"
  shows "\<exists>st'. scan_edges (attributions c) (length (sources c)) k (drop k (edges c)) dead st =
       Inr (dead + length (filter (\<lambda>e. ed_count e = 0) (drop k (edges c))), st') \<and> scanned c f (length (edges c)) st'"
  using st k
proof (induction "length (edges c) - k" arbitrary: k st dead)
  case (Suc n)
  have k: "k < length (edges c)" using Suc.hyps(2) by simp
  let ?st = "claims (attributions c) k (f k) st" and ?e = "edges c ! k"
  note a = attr_edge [OF inv k]
  have unclaimed: "\<forall>a \<in> set (f k). \<not> sc_claimed st ! a \<and> sc_ids st (k, at_source (attributions c ! a)) = None"
  proof
    fix a assume x: "a \<in> set (f k)"
    then have "a < length (attributions c)" using a(3) by blast
    moreover have "a \<notin> set (f e)" if "e < k" for e using attr_disjoint [OF inv k, of e] that k x by auto
    ultimately show "\<not> sc_claimed st ! a \<and> sc_ids st (k, at_source (attributions c ! a)) = None"
      using Suc.prems(1) by (auto simp: scanned_def)
  qed
  have n64: "0 + sum_list (map (\<lambda>a. at_count (attributions c ! a)) (f k)) < 2 ^ 64" using a(5,6) by linarith
  have scan: "scan_attributions (attributions c) (length (sources c)) k (ed_first_attribution ?e) NIL 0 st =
     Inr (tail_of (f k), sum_list (map (\<lambda>a. at_count (attributions c ! a)) (f k)), ?st)"
    using scan_attributions_linked [OF a(1,3,4) n64 _ unclaimed, of NIL] Suc.prems(1) by (simp add: scanned_def tail_of_def)
  have rest: "\<exists>st'. scan_edges (attributions c) (length (sources c)) (Suc k) (drop (Suc k) (edges c)) dead' ?st =
       Inr (dead' + length (filter (\<lambda>e. ed_count e = 0) (drop (Suc k) (edges c))), st') \<and> scanned c f (length (edges c)) st'" for dead'
    using Suc.hyps(1) [of "Suc k"] Suc.hyps(2) scanned_step [OF inv k Suc.prems(1)] k by simp
  have "drop k (edges c) = ?e # drop (Suc k) (edges c)" using k by (rule Cons_nth_drop_Suc [symmetric])
  then show ?case
    using scan a(2,5,7) rest [of dead] rest [of "Suc dead"] by (simp add: not_less [symmetric])
qed simp

lemma unclaimed_count:
  assumes inv: "attr_inv c f" and st: "scanned c f (length (edges c)) st"
  shows "length (filter Not (sc_claimed st)) = dead_attributions c"
proof -
  let ?n = "length (attributions c)" and ?E = "length (edges c)"
  have l: "length (sc_claimed st) = ?n" using st by (simp add: scanned_def)
  have "length (filter Not (sc_claimed st)) = card {a. a < ?n \<and> \<not> sc_claimed st ! a}"
    using length_filter_conv_card [of Not "sc_claimed st"] l by simp
  also have "{a. a < ?n \<and> \<not> sc_claimed st ! a} = {..<?n} - (\<Union>e < ?E. set (f e))"
    using st by (auto simp: scanned_def)
  also have "card \<dots> = ?n - card (\<Union>e < ?E. set (f e))"
    using attr_edge(3) [OF inv] by (subst card_Diff_subset) auto
  also have "card (\<Union>e < ?E. set (f e)) = (\<Sum>e < ?E. card (set (f e)))"
    using attr_disjoint [OF inv] by (intro card_UN_disjoint) auto
  also have "\<dots> = (\<Sum>e < ?E. length (f e))"
    using linked_distinct [OF attr_edge(1) [OF inv]] by (intro sum.cong) (auto simp: distinct_card)
  also have "?n - \<dots> = dead_attributions c"
    using inv by (auto simp: attr_inv_def dead_ok_def)
  finally show ?thesis .
qed

lemma index_attributions_inv:
  assumes inv: "attr_inv c f"
    and eq: "edges c0 = edges c" "attributions c0 = attributions c" "sources c0 = sources c"
      "attribution_ids c0 = Map.empty" "source_edges c0 = Map.empty"
  shows "\<exists>se. index_attributions c0 = Inr (c0\<lparr>attribution_ids := attribution_ids c, source_edges := se,
     dead_edges := dead_edges c, dead_attributions := dead_attributions c\<rparr>) \<and>
     (\<forall>s. se s = (let es = edges_citing c (length (edges c)) s in if es = [] then None else Some es))"
proof -
  let ?st = "\<lparr>sc_claimed = replicate (length (attributions c)) False, sc_ids = Map.empty, sc_source_edges = Map.empty\<rparr>"
  have "scanned c f 0 ?st" by (simp add: scanned_def edges_citing_def)
  then obtain st where s: "scan_edges (attributions c) (length (sources c)) 0 (edges c) 0 ?st =
       Inr (length (filter (\<lambda>e. ed_count e = 0) (edges c)), st)" and st: "scanned c f (length (edges c)) st"
    using scan_edges_inv [OF inv, of 0 ?st 0] by auto
  have "sc_ids st = attribution_ids c"
  proof
    fix p :: "nat \<times> nat"
    obtain e s where p: "p = (e, s)" by (cases p)
    have "e < length (edges c)" if "attribution_ids c (e, s) = Some a" for a using that attr_ids_iff [OF inv] by blast
    then show "sc_ids st p = attribution_ids c p"
      using st by (cases "attribution_ids c (e, s)") (auto simp: p scanned_def)
  qed
  moreover have "dead_edges c = length (filter (\<lambda>e. ed_count e = 0) (edges c))"
    using inv by (simp add: attr_inv_def dead_ok_def)
  moreover have "\<forall>s. sc_source_edges st s = (let es = edges_citing c (length (edges c)) s in if es = [] then None else Some es)"
    using st by (simp add: scanned_def)
  ultimately show ?thesis
    using s unclaimed_count [OF inv st] by (intro exI [of _ "sc_source_edges st"]) (simp add: index_attributions_def eq)
qed

end
