(* ===== verification/Image_Roundtrip.thy ===== *)
theory Image_Roundtrip
  imports Image_Rebuild
begin

text \<open>
  Saving and loading a context: the image of a context that satisfies the invariant loads to the
  same context up to the order inside the derived indexes, and an image with one altered byte does
  not load.
\<close>

section \<open>Rebuilding from the tables\<close>


lemma namespace_rebuild:
  assumes ok: "ns_ok ar rs als ids" and n: "length rs + length als \<le> NIL"
  shows "indexable (name_pairs ar rs 0) ei_default Map.empty"
    and "indexed U (name_pairs ar rs 0) ei_default Map.empty ix m \<Longrightarrow> indexable (alias_spellings ar als) ix m"
    and "indexed U (name_pairs ar rs 0) ei_default Map.empty ix m \<Longrightarrow> indexed U (alias_spellings ar als) ix m ix' m' \<Longrightarrow>
       m' = ids \<and> entries_ok U ar rs als ix'"
proof -
  have d: "distinct (map fst (name_pairs ar rs 0 @ alias_spellings ar als))"
    using ok by (simp only: ns_ok_def spellings_pairs)
  have ln: "length (name_pairs ar rs 0) = length rs" "length (alias_spellings ar als) = length als"
    by (simp_all add: name_pairs_def alias_spellings_def)
  show "indexable (name_pairs ar rs 0) ei_default Map.empty" using d n ln by (simp add: indexable_def)
  assume i1: "indexed U (name_pairs ar rs 0) ei_default Map.empty ix m"
  have "length (ei_spans ix) = length rs"
    using i1 ln unfolding indexed_def by (metis append_Nil ei_default_ok(2) ei_entries_def length_map)
  moreover have "m (fst p) = None" if "p \<in> set (alias_spellings ar als)" for p
    using that d i1 by (auto simp: indexed_def map_of_eq_None_iff)
  ultimately show "indexable (alias_spellings ar als) ix m" using d n ln i1 by (simp add: indexable_def indexed_def)
  assume i2: "indexed U (alias_spellings ar als) ix m ix' m'"
  have "m' = map_of (alias_spellings ar als @ name_pairs ar rs 0)" using i1 i2 by (simp add: indexed_def)
  moreover have d': "distinct (map fst (alias_spellings ar als @ name_pairs ar rs 0))" using d by auto
  moreover have "map_of (alias_spellings ar als @ name_pairs ar rs 0) k = Some i \<longleftrightarrow> ids k = Some i" for k i
    unfolding map_of_eq_Some_iff [OF d'] ns_ok_iff [OF ok] spellings_pairs by auto
  then have "map_of (alias_spellings ar als @ name_pairs ar rs 0) = ids" by (intro ext) (metis option.exhaust)
  moreover have "entries_ok U ar rs als ix'"
    using i1 i2 by (simp add: entries_ok_def indexed_def spellings_pairs)
  ultimately show "m' = ids \<and> entries_ok U ar rs als ix'" by simp
qed

lemma map_of_names:
  assumes "ns_ok ar rs [] ids" shows "map_of (name_pairs ar rs 0) = ids"
proof -
  have d: "distinct (map fst (name_pairs ar rs 0))" using assms by (simp add: ns_ok_def spellings_pairs)
  have "map_of (name_pairs ar rs 0) k = Some i \<longleftrightarrow> ids k = Some i" for k i
    unfolding map_of_eq_Some_iff [OF d] ns_ok_iff [OF assms] spellings_pairs by simp
  then show ?thesis by (intro ext) (metis option.exhaust)
qed

definition tables_of :: "ctx \<Rightarrow> ctx" where
  "tables_of c = bare_ctx (arena c) (concepts c) (labels c) (sources c) (edges c) (attributions c) (concept_aliases c)
     (label_aliases c) (attribution_locators c) (applied_seq c)"

lemma tables_of_simps [simp]:
  "arena (tables_of c) = arena c" "concepts (tables_of c) = concepts c" "labels (tables_of c) = labels c"
  "sources (tables_of c) = sources c" "edges (tables_of c) = edges c" "attributions (tables_of c) = attributions c"
  "concept_aliases (tables_of c) = concept_aliases c" "label_aliases (tables_of c) = label_aliases c"
  "attribution_locators (tables_of c) = attribution_locators c" "applied_seq (tables_of c) = applied_seq c"
  "concept_ids (tables_of c) = Map.empty" "label_ids (tables_of c) = Map.empty" "source_ids (tables_of c) = Map.empty"
  "concept_alias_index (tables_of c) = []" "label_alias_index (tables_of c) = []" "label_name_index (tables_of c) = []"
  "edge_ids (tables_of c) = Map.empty" "attribution_ids (tables_of c) = Map.empty" "source_edges (tables_of c) = Map.empty"
  "concept_index (tables_of c) = ei_default" "label_index (tables_of c) = ei_default" "dice_floor (tables_of c) = None"
  by (simp_all add: tables_of_def bare_ctx_def ctx_default_def)

text \<open>The context an image loads to: the saved one, with its entry and source indexes built afresh.\<close>

definition reloaded :: "ctx \<Rightarrow> entry_index \<Rightarrow> entry_index \<Rightarrow> (nat \<rightharpoonup> nat list) \<Rightarrow> ctx" where
  "reloaded c ci li se = c\<lparr>concept_index := ci, label_index := li, source_edges := se, dice_floor := None\<rparr>"

definition reindexes :: "unicode \<Rightarrow> ctx \<Rightarrow> entry_index \<Rightarrow> entry_index \<Rightarrow> (nat \<rightharpoonup> nat list) \<Rightarrow> bool" where
  "reindexes U c ci li se \<longleftrightarrow>
     entries_ok U (arena c) (concept_ranges c) (concept_aliases c) ci \<and>
     entries_ok U (arena c) (label_ranges c) (label_aliases c) li \<and>
     (\<forall>s. se s = (let es = edges_citing c (length (edges c)) s in if es = [] then None else Some es))"

lemma index_names_inv:
  assumes inv: "ctx_inv U c"
  shows "\<exists>ci cm li lm. index_names U (tables_of c) = Some (Inr ((tables_of c)\<lparr>concept_index := ci, concept_ids := cm,
       label_index := li, label_ids := lm, label_name_index := label_name_index c, source_ids := source_ids c\<rparr>)) \<and>
     indexed U (name_pairs (arena c) (concept_ranges c) 0) ei_default Map.empty ci cm \<and>
     indexed U (name_pairs (arena c) (label_ranges c) 0) ei_default Map.empty li lm"
proof -
  note nm = ctx_invD(1) [OF inv, unfolded names_inv_def]
  note cn = nm [THEN conjunct1] and ln = nm [THEN conjunct2, THEN conjunct1] and sn = nm [THEN conjunct2, THEN conjunct2]
  have cl: "length (concept_ranges c) + length (concept_aliases c) \<le> NIL"
    using ns_ok_capacity [OF cn slack_bounds(1) [OF inv]] by simp
  have ll: "length (label_ranges c) + length (label_aliases c) \<le> NIL"
    using ns_ok_capacity [OF ln slack_bounds(2) [OF inv]] by simp
  obtain ci cm where 1: "index_concept_names U 0 (concepts c) (tables_of c) = Some (Inr ((tables_of c)\<lparr>concept_index := ci, concept_ids := cm\<rparr>))"
     "indexed U (name_pairs (arena c) (concept_ranges c) 0) ei_default Map.empty ci cm"
    using index_concept_names_spec [of "concepts c" "tables_of c" 0 U] namespace_rebuild(1) [OF cn cl] cn
    by (auto simp: ns_ok_def)
  let ?c1 = "(tables_of c)\<lparr>concept_index := ci, concept_ids := cm\<rparr>"
  have pages: "foldl (\<lambda>b r. bt_insert (name_at (arena c) (label_range r)) () b) [] (labels c) = label_name_index c"
  proof -
    let ?ps = "map (\<lambda>r. (name_at (arena c) r, ())) (label_ranges c)"
    have "distinct (map fst ?ps)" using ln by (simp add: ns_ok_def map_fst_spellings comp_def)
    then have "foldl (\<lambda>b p. bt_insert (fst p) (snd p) b) [] ?ps = label_name_index c"
      using ctx_invD(4) [OF inv] by (intro rebuilt_page) (simp_all only: paging_inv_def)
    then show ?thesis by (simp add: foldl_map)
  qed
  obtain li lm where 2: "index_label_names U 0 (labels c) ?c1 =
      Some (Inr (?c1\<lparr>label_index := li, label_ids := lm, label_name_index := label_name_index c\<rparr>))"
     "indexed U (name_pairs (arena c) (label_ranges c) 0) ei_default Map.empty li lm"
    using index_label_names_spec [of "labels c" ?c1 0 U] namespace_rebuild(1) [OF ln ll] ln pages by (auto simp: ns_ok_def)
  let ?c2 = "?c1\<lparr>label_index := li, label_ids := lm, label_name_index := label_name_index c\<rparr>"
  have "index_source_names 0 (sources c) ?c2 = Inr (?c2\<lparr>source_ids := source_ids c\<rparr>)"
    using index_source_names_spec [of "sources c" ?c2 0] sn map_of_names [OF sn] by (simp add: ns_ok_def spellings_pairs)
  then show ?thesis
    using 1 2 by (intro exI [of _ ci] exI [of _ cm] exI [of _ li] exI [of _ lm]) (simp add: index_names_def)
qed

lemma rebuild_indexes_inv:
  assumes inv: "ctx_inv U c"
  shows "\<exists>ci li se. rebuild_indexes U (tables_of c) = Some (Inr (reloaded c ci li se)) \<and> reindexes U c ci li se"
proof -
  note nm = ctx_invD(1) [OF inv, unfolded names_inv_def]
  note cn = nm [THEN conjunct1] and ln = nm [THEN conjunct2, THEN conjunct1]
  have cl: "length (concept_ranges c) + length (concept_aliases c) \<le> NIL"
    using ns_ok_capacity [OF cn slack_bounds(1) [OF inv]] by simp
  have ll: "length (label_ranges c) + length (label_aliases c) \<le> NIL"
    using ns_ok_capacity [OF ln slack_bounds(2) [OF inv]] by simp
  obtain ci cm li lm where names: "index_names U (tables_of c) = Some (Inr ((tables_of c)\<lparr>concept_index := ci, concept_ids := cm,
       label_index := li, label_ids := lm, label_name_index := label_name_index c, source_ids := source_ids c\<rparr>))"
     and i: "indexed U (name_pairs (arena c) (concept_ranges c) 0) ei_default Map.empty ci cm"
     "indexed U (name_pairs (arena c) (label_ranges c) 0) ei_default Map.empty li lm"
    using index_names_inv [OF inv] by blast
  let ?c3 = "(tables_of c)\<lparr>concept_index := ci, concept_ids := cm, label_index := li, label_ids := lm,
      label_name_index := label_name_index c, source_ids := source_ids c\<rparr>"
  have pages: "foldl (\<lambda>b p. bt_insert (fst p) (snd p) b) [] (alias_spellings (arena c) (concept_aliases c)) = concept_alias_index c"
    "foldl (\<lambda>b p. bt_insert (fst p) (snd p) b) [] (alias_spellings (arena c) (label_aliases c)) = label_alias_index c"
    using ctx_invD(4) [OF inv] cn ln by (auto simp: paging_inv_def ns_ok_def spellings_pairs intro!: rebuilt_page)
  obtain ci' cm' where 4: "index_concept_aliases U (concept_aliases c) ?c3 = Some (Inr (?c3\<lparr>concept_index := ci',
      concept_ids := cm', concept_alias_index := concept_alias_index c\<rparr>))"
     "indexed U (alias_spellings (arena c) (concept_aliases c)) ci cm ci' cm'"
    using index_concept_aliases_spec [of "concept_aliases c" ?c3 U] namespace_rebuild(2) [OF cn cl i(1)] cn pages(1)
    by (auto simp: ns_ok_def)
  let ?c4 = "?c3\<lparr>concept_index := ci', concept_ids := cm', concept_alias_index := concept_alias_index c\<rparr>"
  obtain li' lm' where 5: "index_label_aliases U (label_aliases c) ?c4 = Some (Inr (?c4\<lparr>label_index := li',
      label_ids := lm', label_alias_index := label_alias_index c\<rparr>))"
     "indexed U (alias_spellings (arena c) (label_aliases c)) li lm li' lm'"
    using index_label_aliases_spec [of "label_aliases c" ?c4 U] namespace_rebuild(2) [OF ln ll i(2)] ln pages(2)
    by (auto simp: ns_ok_def)
  let ?c5 = "?c4\<lparr>label_index := li', label_ids := lm', label_alias_index := label_alias_index c\<rparr>"
  have ids: "cm' = concept_ids c" "lm' = label_ids c" and ent: "entries_ok U (arena c) (concept_ranges c) (concept_aliases c) ci'"
      "entries_ok U (arena c) (label_ranges c) (label_aliases c) li'"
    using namespace_rebuild(3) [OF cn cl i(1) 4(2)] namespace_rebuild(3) [OF ln ll i(2) 5(2)] by simp_all
  let ?c6 = "?c5\<lparr>edge_ids := edge_ids c\<rparr>"
  have 6: "index_edges ?c5 = Inr ?c6" using ctx_invD(5) [OF inv] by (rule index_edges_inv) simp_all
  have 7: "validate_chains ?c6 = Inr ()" using ctx_invD(6,5,2) [OF inv] by (rule validate_chains_inv) simp_all
  obtain f where f: "attr_inv c f" using ctx_invD(7) [OF inv] by blast
  obtain se where 8: "index_attributions ?c6 = Inr (?c6\<lparr>attribution_ids := attribution_ids c, source_edges := se,
      dead_edges := dead_edges c, dead_attributions := dead_attributions c\<rparr>)"
     and se: "\<forall>s. se s = (let es = edges_citing c (length (edges c)) s in if es = [] then None else Some es)"
    using index_attributions_inv [OF f, of ?c6] by auto
  have 9: "scan_locators (length (attributions c)) None (attribution_locators c) = Inr ()"
    using ctx_invD(8) [OF inv] by (intro scan_locators_ok) (auto simp: locators_inv_def)
  have "rebuild_indexes U (tables_of c) = Some (Inr (reloaded c ci' li' se))"
    using names 4(1) 5(1) 6 7 8 9 seed_arena_slack_inv [OF ctx_invD(9) [OF inv]] ids
    by (simp add: rebuild_indexes_def index_aliases_def validate_locators_def seed_arena_slack_def reloaded_def)
  then show ?thesis using ent se unfolding reindexes_def by blast
qed

section \<open>Record widths\<close>

lemma linked_successor: "linked nx cur xs \<Longrightarrow> x \<in> set xs \<Longrightarrow> nx x = NIL \<or> nx x \<in> set xs"
proof (induction xs arbitrary: cur)
  case (Cons y ys)
  then show ?case by (cases ys) auto
qed simp

lemma head_tail_bound:
  assumes "linked nx cur xs" "\<forall>x \<in> set xs. x < n" "n \<le> NIL"
  shows "cur \<le> NIL" "tail_of xs \<le> NIL"
proof -
  show "cur \<le> NIL" using assms by (cases xs) auto
  show "tail_of xs \<le> NIL"
  proof (cases "xs = []")
    case False
    then have "last xs < n" using assms(2) last_in_set by blast
    then show ?thesis using assms(3) False by (simp add: tail_of_def)
  qed simp
qed

lemma chains_fit:
  assumes "chains_inv get owner anchor n es" "length es \<le> NIL"
  shows "i < n \<Longrightarrow> anchor i = (first, lst, cnt) \<Longrightarrow> first < 2 ^ 32 \<and> lst < 2 ^ 32 \<and> cnt < 2 ^ 32"
    and "e < length es \<Longrightarrow> owner (es ! e) < n \<Longrightarrow> get (es ! e) < 2 ^ 32"
proof -
  have ok: "linked (\<lambda>e. get (es ! e)) (fst (anchor j)) (owned owner es j) \<and> fst (snd (anchor j)) = tail_of (owned owner es j) \<and>
      snd (snd (anchor j)) = length (owned owner es j)" if "j < n" for j
    using assms(1) that by (auto simp: chains_inv_def chain_ok_def split_beta)
  have b: "\<forall>x \<in> set (owned owner es j). x < length es" for j by (simp add: set_owned)
  have N: "x \<le> NIL \<Longrightarrow> x < 2 ^ 32" for x :: nat by (simp add: NIL_eq)
  have l: "length (owned owner es j) \<le> length es" for j
    unfolding owned_def by (metis diff_zero length_filter_le length_upt)
  show "first < 2 ^ 32 \<and> lst < 2 ^ 32 \<and> cnt < 2 ^ 32" if "i < n" "anchor i = (first, lst, cnt)"
    using ok [OF that(1)] head_tail_bound [OF _ b assms(2)] l [of i] assms(2) that(2) N by (metis fst_conv le_trans snd_conv)
  show "get (es ! e) < 2 ^ 32" if "e < length es" "owner (es ! e) < n"
  proof -
    have "e \<in> set (owned owner es (owner (es ! e)))" using that by (simp add: set_owned)
    then have "get (es ! e) = NIL \<or> get (es ! e) < length es"
      using linked_successor [OF ok [OF that(2), THEN conjunct1]] b by blast
    then show ?thesis using assms(2) N by auto
  qed
qed

lemma range_fits: "range_ok ar r \<Longrightarrow> length ar \<le> u32_max \<Longrightarrow> fst r < 2 ^ 32 \<and> snd r < 2 ^ 32"
  by (auto simp: range_ok_def u32_max_def)

lemma name_records_fit:
  assumes inv: "ctx_inv U c"
  shows "\<forall>r \<in> set (concepts c). concept_fits r" "\<forall>r \<in> set (labels c). label_fits r" "\<forall>r \<in> set (sources c). source_fits r"
    "\<forall>r \<in> set (concept_aliases c). alias_fits r" "\<forall>r \<in> set (label_aliases c). alias_fits r"
proof -
  note nm = ctx_invD(1) [OF inv] and ch = ctx_invD(6) [OF inv] and b = ctx_invD(2) [OF inv]
  have ar: "length (arena c) \<le> u32_max" and es: "length (edges c) \<le> NIL" using b by (simp_all add: bounds_inv_def)
  note out = chains_fit(1) [OF ch [unfolded chain_inv_def, THEN conjunct1] es]
    and inc = chains_fit(1) [OF ch [unfolded chain_inv_def, THEN conjunct2, THEN conjunct1] es]
    and lab = chains_fit(1) [OF ch [unfolded chain_inv_def, THEN conjunct2, THEN conjunct2] es]
  show "\<forall>r \<in> set (concepts c). concept_fits r"
  proof
    fix r assume "r \<in> set (concepts c)"
    then obtain i where i: "i < length (concepts c)" "r = concepts c ! i" by (auto simp: in_set_conv_nth)
    show "concept_fits r"
      using range_fits [OF ranges_ok(1) [OF nm i(1)] ar] out [OF i(1) out_anchor_def] inc [OF i(1) in_anchor_def]
      by (simp add: concept_fits_def concept_fields_def concept_range_def i(2))
  qed
  show "\<forall>r \<in> set (labels c). label_fits r"
  proof
    fix r assume "r \<in> set (labels c)"
    then obtain i where i: "i < length (labels c)" "r = labels c ! i" by (auto simp: in_set_conv_nth)
    show "label_fits r"
      using range_fits [OF ranges_ok(2) [OF nm i(1)] ar] lab [OF i(1) label_anchor_def]
      by (simp add: label_fits_def label_fields_def label_range_def i(2))
  qed
  show "\<forall>r \<in> set (sources c). source_fits r"
  proof
    fix r assume "r \<in> set (sources c)"
    then obtain i where i: "i < length (sources c)" "r = sources c ! i" by (auto simp: in_set_conv_nth)
    show "source_fits r"
      using range_fits [OF ranges_ok(3) [OF nm i(1)] ar] by (simp add: source_fits_def source_fields_def source_range_def i(2))
  qed
  have a: "alias_fits a" if "range_ok (arena c) (alias_range a)" "al_target a < n" "n \<le> NIL" for a n
    using range_fits [OF that(1) ar] that(2,3) by (simp add: alias_fits_def alias_fields_def alias_range_def NIL_eq)
  show "\<forall>r \<in> set (concept_aliases c). alias_fits r"
    using nm b a [of _ "length (concepts c)"] by (auto simp: names_inv_def ns_ok_def bounds_inv_def)
  show "\<forall>r \<in> set (label_aliases c). alias_fits r"
    using nm b a [of _ "length (labels c)"] by (auto simp: names_inv_def ns_ok_def bounds_inv_def)
qed

lemma edge_records_fit:
  assumes inv: "ctx_inv U c" shows "\<forall>r \<in> set (edges c). edge_fits r"
proof
  fix r assume "r \<in> set (edges c)"
  then obtain i where i: "i < length (edges c)" "r = edges c ! i" by (auto simp: in_set_conv_nth)
  note ch = ctx_invD(6) [OF inv] and b = ctx_invD(2) [OF inv]
  obtain f where f: "attr_inv c f" using ctx_invD(7) [OF inv] by blast
  have es: "length (edges c) \<le> NIL" and at: "length (attributions c) \<le> NIL" using b by (simp_all add: bounds_inv_def)
  have e: "ed_subject r < length (concepts c)" "ed_object r < length (concepts c)" "ed_label r < length (labels c)"
    using ctx_invD(5) [OF inv] i by (auto simp: edges_inv_def)
  have ids: "ed_subject r < 2 ^ 32" "ed_object r < 2 ^ 32" "ed_label r < 2 ^ 32"
    using e b by (auto simp: bounds_inv_def NIL_eq)
  have nx: "ed_next_outgoing r < 2 ^ 32" "ed_next_incoming r < 2 ^ 32" "ed_next_labeled r < 2 ^ 32"
    using chains_fit(2) [OF ch [unfolded chain_inv_def, THEN conjunct1] es i(1)]
      chains_fit(2) [OF ch [unfolded chain_inv_def, THEN conjunct2, THEN conjunct1] es i(1)]
      chains_fit(2) [OF ch [unfolded chain_inv_def, THEN conjunct2, THEN conjunct2] es i(1)] e i(2) by simp_all
  have "\<forall>a \<in> set (f i). a < length (attributions c)" using attr_edge(3) [OF f i(1)] by blast
  then have "ed_first_attribution r \<le> NIL" "ed_last_attribution r \<le> NIL"
    using head_tail_bound [OF attr_edge(1) [OF f i(1)] _ at] attr_edge(2) [OF f i(1)] i(2) by simp_all
  then have "ed_first_attribution r < 2 ^ 32" "ed_last_attribution r < 2 ^ 32" by (simp_all add: NIL_eq)
  then show "edge_fits r" using ids nx attr_edge(6) [OF f i(1)] i(2) by (simp add: edge_fits_def edge_fields_def)
qed

lemma locator_records_fit:
  assumes inv: "ctx_inv U c"
  shows "\<forall>r \<in> set (attribution_locators c). locator_fits r" "length (attribution_locators c) \<le> NIL"
proof -
  note lo = ctx_invD(8) [OF inv] and b = ctx_invD(2) [OF inv]
  show "\<forall>r \<in> set (attribution_locators c). locator_fits r"
    using lo b by (auto simp: locators_inv_def bounds_inv_def locator_fits_def locator_fields_def NIL_eq)
  have "length (map lo_attribution (attribution_locators c)) \<le> length (attributions c)"
    using lo by (intro distinct_bounded_length) (auto simp: locators_inv_def strict_sorted_iff)
  then show "length (attribution_locators c) \<le> NIL" using b by (simp add: bounds_inv_def)
qed

section \<open>Reading back what was written\<close>

lemma length_magic [simp]: "length IMAGE_MAGIC = 8"
  by (simp add: IMAGE_MAGIC_def bytes_def)

lemma length_image_sections:
  "length (image_sections c) = 72 + length (edges c) * 48 + length (attributions c) * 24 + length (concepts c) * 32 +
     length (labels c) * 20 + length (sources c) * 8 + length (concept_aliases c) * 12 + length (label_aliases c) * 12 +
     length (attribution_locators c) * 8 + length (arena c)"
  by (simp add: image_sections_def edge_codec.length_store_table attribution_codec.length_store_table
      concept_codec.length_store_table label_codec.length_store_table source_codec.length_store_table
      alias_codec.length_store_table locator_codec.length_store_table)

lemma image_small:
  assumes "ctx_inv U c" shows "length (image_body c IMAGE_VERSION) + 4 < 2 ^ 64"
  using ctx_invD(2) [OF assms] locator_records_fit(2) [OF assms]
  by (simp add: image_body_def length_image_sections bounds_inv_def NIL_eq u32_max_def)

lemma load_arena_next:
  assumes "at r (le_bytes 8 (length ar) @ ar) rest" "length ar \<le> u32_max"
  shows "\<exists>r'. load_arena r = Inr (ar, r') \<and> at r' [] rest"
proof -
  have "read_u64 r = Inr (length ar, skip 8 r)"
    using assms(2) by (intro read_nat_at [OF at_append [OF assms(1)]]) (simp add: u32_max_def)
  moreover have "take_bytes (length ar) (skip 8 r) = Inr (ar, skip (length ar) (skip 8 r))"
    using take_at [OF at_skip [OF assms(1)]] by simp
  moreover have "at (skip (length ar) (skip 8 r)) [] rest"
    using at_skip [of "skip 8 r" ar "[]" rest] at_skip [OF assms(1)] by simp
  ultimately show ?thesis using assms(2) by (simp add: load_arena_def not_less)
qed

lemma load_sections_image:
  assumes inv: "ctx_inv U c" and fit: "\<forall>r \<in> set (attributions c). attribution_fits r"
    and a: "at r (replicate 4 0 @ le_bytes 8 (applied_seq c) @ image_sections c) rest" and version: "5 \<le> version"
  shows "\<exists>r'. load_sections version r = Inr (tables_of c, r') \<and> rd_pos r' + length rest = length (rd_bytes r')"
proof -
  note b = ctx_invD(2) [OF inv, unfolded bounds_inv_def]
  have bs: "length (edges c) \<le> NIL" "length (attributions c) \<le> NIL" "length (concepts c) \<le> NIL" "length (labels c) \<le> NIL"
      "length (sources c) \<le> NIL" "length (concept_aliases c) \<le> NIL" "length (label_aliases c) \<le> NIL" "length (arena c) \<le> u32_max"
    using b by simp_all
  have s0: "take_bytes 4 r = Inr (replicate 4 0, skip 4 r)" using take_at [OF at_append [OF a]] by simp
  have a0: "at (skip 4 r) (le_bytes 8 (applied_seq c) @ image_sections c) rest" using at_skip [OF a] by simp
  have s1: "read_u64 (skip 4 r) = Inr (applied_seq c, skip 8 (skip 4 r))"
    by (rule read_nat_at [OF at_append [OF a0]]) (use ctx_invD(10) [OF inv] in simp)
  have a1: "at (skip 8 (skip 4 r)) (image_sections c) rest" using at_skip [OF a0] by simp
  let ?t8 = "le_bytes 8 (length (arena c)) @ arena c"
  let ?t7 = "store_table store_locator (attribution_locators c) @ ?t8"
  let ?t6 = "store_table store_alias (label_aliases c) @ ?t7"
  let ?t5 = "store_table store_alias (concept_aliases c) @ ?t6"
  let ?t4 = "store_table store_source (sources c) @ ?t5"
  let ?t3 = "store_table store_label (labels c) @ ?t4"
  let ?t2 = "store_table store_concept (concepts c) @ ?t3"
  let ?t1 = "store_table store_attribution (attributions c) @ ?t2"
  obtain r1 where s2: "load_table load_edge 48 (skip 8 (skip 4 r)) = Inr (edges c, r1)" and a2: "at r1 ?t1 rest"
    using edge_codec.load_table_next [OF a1 [unfolded image_sections_def] edge_records_fit [OF inv] bs(1)] by blast
  obtain r2 where s3: "load_table load_attribution 24 r1 = Inr (attributions c, r2)" and a3: "at r2 ?t2 rest"
    using attribution_codec.load_table_next [OF a2 fit bs(2)] by blast
  obtain r3 where s4: "load_table load_concept 32 r2 = Inr (concepts c, r3)" and a4: "at r3 ?t3 rest"
    using concept_codec.load_table_next [OF a3 name_records_fit(1) [OF inv] bs(3)] by blast
  obtain r4 where s5: "load_table load_label 20 r3 = Inr (labels c, r4)" and a5: "at r4 ?t4 rest"
    using label_codec.load_table_next [OF a4 name_records_fit(2) [OF inv] bs(4)] by blast
  obtain r5 where s6: "load_table load_source 8 r4 = Inr (sources c, r5)" and a6: "at r5 ?t5 rest"
    using source_codec.load_table_next [OF a5 name_records_fit(3) [OF inv] bs(5)] by blast
  obtain r6 where s7: "load_table load_alias 12 r5 = Inr (concept_aliases c, r6)" and a7: "at r6 ?t6 rest"
    using alias_codec.load_table_next [OF a6 name_records_fit(4) [OF inv] bs(6)] by blast
  obtain r7 where s8: "load_table load_alias 12 r6 = Inr (label_aliases c, r7)" and a8: "at r7 ?t7 rest"
    using alias_codec.load_table_next [OF a7 name_records_fit(5) [OF inv] bs(7)] by blast
  obtain r8 where s9: "load_table load_locator 8 r7 = Inr (attribution_locators c, r8)" and a9: "at r8 ?t8 rest"
    using locator_codec.load_table_next [OF a8 locator_records_fit [OF inv]] by blast
  obtain r9 where s10: "load_arena r8 = Inr (arena c, r9)" and a10: "at r9 [] rest"
    using load_arena_next [OF a9 bs(8)] by blast
  have "rd_pos r9 + length rest = length (rd_bytes r9)" 
  proof -
    have "length (drop (rd_pos r9) (rd_bytes r9)) = length rest" "rd_pos r9 \<le> length (rd_bytes r9)" using a10 by (simp_all add: at_def)
    then show ?thesis by simp
  qed
  moreover have "load_sections version r = Inr (tables_of c, r9)"
    using version by (simp add: load_sections_def load_edge_tables_def load_alias_tables_def load_locator_table_def
        tables_of_def s0 s1 s2 s3 s4 s5 s6 s7 s8 s9 s10)
  ultimately show ?thesis by blast
qed

lemma to_bytes_split:
  "to_bytes c = IMAGE_MAGIC @ le_bytes 4 IMAGE_VERSION @ (replicate 4 0 @ le_bytes 8 (applied_seq c) @ image_sections c) @
     le_bytes 4 (unat (crc32c (image_body c IMAGE_VERSION)))"
  "length (to_bytes c) = length (image_body c IMAGE_VERSION) + 4"
  "length (image_body c IMAGE_VERSION) = 24 + length (image_sections c)"
  by (simp_all add: to_bytes_def image_body_def Let_def)

lemma image_header:
  assumes n: "length img < 2 ^ 64" and h: "take 12 img = IMAGE_MAGIC @ le_bytes 4 IMAGE_VERSION"
  shows "take_bytes 8 \<lparr>rd_bytes = img, rd_pos = 0\<rparr> = Inr (IMAGE_MAGIC, \<lparr>rd_bytes = img, rd_pos = 8\<rparr>)"
    "read_u32 \<lparr>rd_bytes = img, rd_pos = 8\<rparr> = Inr (IMAGE_VERSION, \<lparr>rd_bytes = img, rd_pos = 12\<rparr>)"
proof -
  obtain rest where img: "img = IMAGE_MAGIC @ le_bytes 4 IMAGE_VERSION @ rest"
    using h append_take_drop_id [of 12 img] by (metis append_assoc)
  have a: "at \<lparr>rd_bytes = img, rd_pos = 0\<rparr> (IMAGE_MAGIC @ le_bytes 4 IMAGE_VERSION) rest"
    using n by (simp add: at_def img)
  show "take_bytes 8 \<lparr>rd_bytes = img, rd_pos = 0\<rparr> = Inr (IMAGE_MAGIC, \<lparr>rd_bytes = img, rd_pos = 8\<rparr>)"
    using take_at [OF at_append [OF a]] by (simp add: skip_def)
  have "at \<lparr>rd_bytes = img, rd_pos = 8\<rparr> (le_bytes 4 IMAGE_VERSION) rest" using at_skip [OF a] by (simp add: skip_def)
  then show "read_u32 \<lparr>rd_bytes = img, rd_pos = 8\<rparr> = Inr (IMAGE_VERSION, \<lparr>rd_bytes = img, rd_pos = 12\<rparr>)"
    using read_nat_at [of "\<lparr>rd_bytes = img, rd_pos = 8\<rparr>" 4 IMAGE_VERSION rest] by (simp add: IMAGE_VERSION_def skip_def)
qed

lemma from_bytes_current:
  assumes "length img < 2 ^ 64" "take 12 img = IMAGE_MAGIC @ le_bytes 4 IMAGE_VERSION"
  shows "from_bytes U img = then_load (Some (and_then (verify_footer img \<lparr>rd_bytes = img, rd_pos = 12\<rparr>) (\<lambda>r.
       and_then (load_sections IMAGE_VERSION r) (\<lambda>(c, r).
         if rd_pos r \<noteq> length (rd_bytes r) then Inl (CorruptImage ''image carries trailing bytes'') else Inr c)))) (rebuild_indexes U)"
  using image_header [OF assms] by (simp add: from_bytes_def IMAGE_VERSION_def)

lemma from_bytes_to_bytes:
  assumes inv: "ctx_inv U c" and fit: "\<forall>r \<in> set (attributions c). attribution_fits r"
  shows "from_bytes U (to_bytes c) = rebuild_indexes U (tables_of c)"
proof -
  let ?b = "image_body c IMAGE_VERSION"
  let ?r = "\<lparr>rd_bytes = ?b, rd_pos = 12\<rparr>"
  have n: "length (to_bytes c) < 2 ^ 64" using image_small [OF inv] to_bytes_split(2) [of c] by simp
  have h: "take 12 (to_bytes c) = IMAGE_MAGIC @ le_bytes 4 IMAGE_VERSION" by (simp add: to_bytes_split(1))
  have crc: "unat (crc32c ?b) < 256 ^ 4" using unsigned_less [of "crc32c ?b"] by simp
  have f: "verify_footer (to_bytes c) \<lparr>rd_bytes = to_bytes c, rd_pos = 12\<rparr> = Inr ?r"
    using crc by (simp add: verify_footer_def to_bytes_def Let_def of_le_bytes)
  have "at ?r (replicate 4 0 @ le_bytes 8 (applied_seq c) @ image_sections c) []"
    using image_small [OF inv] by (simp add: at_def image_body_def)
  then obtain r' where "load_sections IMAGE_VERSION ?r = Inr (tables_of c, r')" "rd_pos r' = length (rd_bytes r')"
    using load_sections_image [OF inv fit, of ?r "[]" IMAGE_VERSION] by (auto simp: IMAGE_VERSION_def)
  then show ?thesis using from_bytes_current [OF n h] f by simp
qed

section \<open>What a reload keeps\<close>

lemma reloaded_inv:
  assumes inv: "ctx_inv U c" and ix: "reindexes U c ci li se"
  shows "ctx_inv U (reloaded c ci li se)"
proof -
  let ?c = "reloaded c ci li se"
  obtain f where f: "attr_inv c f" using ctx_invD(7) [OF inv] by blast
  have se: "se s = (let es = edges_citing c (length (edges c)) s in if es = [] then None else Some es)" for s
    using ix by (simp add: reindexes_def)
  have "source_edges_ok ?c"
  proof -
    have "e \<in> set (edges_citing c (length (edges c)) s) \<longleftrightarrow> attribution_ids c (e, s) \<noteq> None" for e s
      using attr_ids_iff [OF f, of e s] by (auto simp: edges_citing_def)
    moreover have "distinct (edges_citing c (length (edges c)) s)" for s by (simp add: edges_citing_def)
    moreover from calculation(1) have "edges_citing c (length (edges c)) s = [] \<Longrightarrow> attribution_ids c (e, s) = None" for e s
      by (metis empty_iff empty_set)
    ultimately show ?thesis by (auto simp: source_edges_ok_def reloaded_def se Let_def)
  qed
  then have "attr_inv ?c f"
    using f by (simp add: attr_inv_def attr_tables_ok_def attr_index_ok_def dead_ok_def reloaded_def)
  moreover have "index_inv U ?c" using ix by (simp add: index_inv_def reindexes_def reloaded_def)
  moreover have "names_inv ?c" "bounds_inv ?c" "paging_inv ?c" "edges_inv ?c" "chain_inv ?c" "locators_inv ?c" "slack_inv ?c"
      "applied_seq ?c < 2 ^ 64"
    using inv by (simp_all add: ctx_inv_def names_inv_def bounds_inv_def paging_inv_def edges_inv_def chain_inv_def
        locators_inv_def slack_inv_def live_bytes_def reloaded_def)
  ultimately show ?thesis unfolding ctx_inv_def by blast
qed

lemma reloaded_same: "kb_of (reloaded c ci li se) = kb_of c" "to_bytes (reloaded c ci li se) = to_bytes c"
proof -
  show "kb_of (reloaded c ci li se) = kb_of c"
    by (simp add: kb_of_def facts_def fact_of_def [abs_def] fact_with_def chain_of_def att_view_def [abs_def] attribution_chain_def cname_def [abs_def] lname_def [abs_def] sname_def [abs_def] reloaded_def)
  show "to_bytes (reloaded c ci li se) = to_bytes c"
    by (simp add: to_bytes_def image_body_def image_sections_def reloaded_def)
qed

section \<open>Properties\<close>

text \<open>
  C16. Saving and loading is lossless: for a context that satisfies the invariant, whose attribution
  records fit their fields (as the record types guarantee), \<open>from_bytes\<close> accepts the image
  \<open>to_bytes\<close> writes. The result satisfies the invariant, has the same name resolution, sources and facts
  and the same journal position, and writes the same bytes again. Only the two entry indexes, the
  per-source edge lists and the tunable floor are built afresh.
\<close>
theorem image_roundtrip:
  assumes "ctx_inv U c" "\<forall>r \<in> set (attributions c). attribution_fits r"
  shows "\<exists>c'. from_bytes U (to_bytes c) = Some (Inr c') \<and> ctx_inv U c' \<and> kb_of c' = kb_of c \<and> to_bytes c' = to_bytes c \<and>
     (\<exists>ci li se. c' = c\<lparr>concept_index := ci, label_index := li, source_edges := se, dice_floor := None\<rparr>)"
proof -
  obtain ci li se where "rebuild_indexes U (tables_of c) = Some (Inr (reloaded c ci li se))" "reindexes U c ci li se"
    using rebuild_indexes_inv [OF assms(1)] by blast
  then show ?thesis
    using from_bytes_to_bytes [OF assms] reloaded_inv [OF assms(1)] reloaded_same [of c ci li se]
    by (intro exI [of _ "reloaded c ci li se"]) (auto simp: reloaded_def)
qed

lemma demo_attributions: "\<forall>r \<in> set (attributions demo_ctx). attribution_fits r"
proof -
  have "attributions demo_ctx = [\<lparr>at_source = 0, at_next = NIL, at_count = 1, at_sum = f64_one\<rparr>]"
    unfolding demo_ctx_def by (simp add: run_defs)
  then show ?thesis by (simp add: attribution_fits_def NIL_eq)
qed

theorem image_roundtrip_witness:
  "\<exists>c'. from_bytes unicode_id (to_bytes demo_ctx) = Some (Inr c') \<and> ctx_inv unicode_id c' \<and> kb_of c' = kb_of demo_ctx \<and>
     to_bytes c' = to_bytes demo_ctx \<and>
     (\<exists>ci li se. c' = demo_ctx\<lparr>concept_index := ci, label_index := li, source_edges := se, dice_floor := None\<rparr>)"
  by (rule image_roundtrip [OF demo_ctx(1) demo_attributions])

lemma of_le_inj: "length xs = length ys \<Longrightarrow> of_le xs = of_le ys \<Longrightarrow> xs = ys"
proof (induction xs ys rule: list_induct2)
  case (Cons x xs y ys)
  have b: "unat w < 256" for w :: u8 using unsigned_less [of w] by simp
  have "unat x = unat y" using Cons.prems b [of x] b [of y] by (metis mod_less mod_mult_self2 of_le.simps(2))
  moreover from this have "of_le xs = of_le ys" using Cons.prems by simp
  ultimately show ?case using Cons.IH by (simp add: word_unat_eq_iff)
qed simp

lemma verify_footer_altered:
  assumes i: "i < length (to_bytes c)" and b: "b \<noteq> to_bytes c ! i"
  shows "verify_footer ((to_bytes c)[i := b]) r = Inl (CorruptImage CHECKSUM_MISMATCH)"
proof -
  let ?body = "image_body c IMAGE_VERSION" and ?img = "(to_bytes c)[i := b]"
  let ?foot = "le_bytes 4 (unat (crc32c ?body))"
  let ?n = "length ?body"
  have tb: "to_bytes c = ?body @ ?foot" by (simp add: to_bytes_def Let_def)
  have crc: "unat (crc32c ?body) < 256 ^ 4" using unsigned_less [of "crc32c ?body"] by simp
  have "unat (crc32c (take ?n ?img)) \<noteq> of_le (drop ?n ?img)"
  proof (cases "i < ?n")
    case True
    have "?img = ?body[i := b] @ ?foot" using True by (simp add: tb list_update_append)
    moreover have "crc32c (?body[i := b]) \<noteq> crc32c ?body"
    proof
      assume eq: "crc32c (?body[i := b]) = crc32c ?body"
      have "?body = take i ?body @ ?body ! i # drop (Suc i) ?body" using True by (rule id_take_nth_drop)
      moreover have "?body[i := b] = take i ?body @ b # drop (Suc i) ?body" using True by (rule upd_conv_take_nth_drop)
      ultimately have "foldl crc_byte (NOT 0) (take i ?body @ b # drop (Suc i) ?body) =
          foldl crc_byte (NOT 0) (take i ?body @ ?body ! i # drop (Suc i) ?body)"
        using eq unfolding crc32c_def bit.compl_eq_compl_iff by simp
      then have "b = ?body ! i" unfolding crc.one_byte .
      with b True show False by (simp add: tb nth_append)
    qed
    ultimately show ?thesis using crc by (simp add: of_le_bytes word_unat_eq_iff [symmetric])
  next
    case False
    then have img: "?img = ?body @ ?foot[i - ?n := b]" by (simp add: tb list_update_append)
    have "i - ?n < 4" using i False by (simp add: tb)
    moreover have "?foot ! (i - ?n) \<noteq> b" using b False by (simp add: tb nth_append)
    ultimately have "?foot[i - ?n := b] \<noteq> ?foot" by (metis length_le_bytes nth_list_update_eq)
    then have "of_le (?foot[i - ?n := b]) \<noteq> of_le ?foot" using of_le_inj by fastforce
    then show ?thesis using crc by (simp add: img of_le_bytes)
  qed
  then show ?thesis by (simp add: verify_footer_def tb Let_def)
qed

text \<open>An image whose header carries other version bytes.\<close>

lemma from_bytes_version:
  assumes n: "length img < 2 ^ 64" and img: "img = IMAGE_MAGIC @ vb @ rest" "length vb = 4"
  shows "from_bytes U img = then_load (Some (
      if of_le vb < 1 \<or> IMAGE_VERSION < of_le vb then Inl (CorruptImage ''image format version is not supported'')
      else and_then (if 6 \<le> of_le vb then verify_footer img \<lparr>rd_bytes = img, rd_pos = 12\<rparr> else Inr \<lparr>rd_bytes = img, rd_pos = 12\<rparr>) (\<lambda>r.
        and_then (load_sections (of_le vb) r) (\<lambda>(c, r).
          if rd_pos r \<noteq> length (rd_bytes r) then Inl (CorruptImage ''image carries trailing bytes'') else Inr c)))) (rebuild_indexes U)"
proof -
  have a: "at \<lparr>rd_bytes = img, rd_pos = 0\<rparr> (IMAGE_MAGIC @ vb) rest" using n by (simp add: at_def img(1))
  have "take_bytes 8 \<lparr>rd_bytes = img, rd_pos = 0\<rparr> = Inr (IMAGE_MAGIC, \<lparr>rd_bytes = img, rd_pos = 8\<rparr>)"
    using take_at [OF at_append [OF a]] by (simp add: skip_def)
  moreover have "take_bytes 4 \<lparr>rd_bytes = img, rd_pos = 8\<rparr> = Inr (vb, \<lparr>rd_bytes = img, rd_pos = 12\<rparr>)"
    using take_at [OF at_skip [OF a]] img(2) by (simp add: skip_def)
  ultimately show ?thesis by (simp add: from_bytes_def read_nat_def)
qed

lemma version_bytes: "le_bytes 4 IMAGE_VERSION = [6, 0, 0, 0]"
  by (simp add: le_bytes_def IMAGE_VERSION_def upt_rec u8_of_def)

lemma altered_version:
  assumes "i < 4" "b \<noteq> [6, 0, 0, 0 :: u8] ! i" "i = 0 \<Longrightarrow> b = 0 \<or> 6 < b"
  shows "of_le ([6, 0, 0, 0][i := b]) < 1 \<or> IMAGE_VERSION < of_le ([6, 0, 0, 0][i := b])"
proof -
  have nz: "0 < unat b" if "b \<noteq> 0" using that by (simp add: unat_gt_0)
  consider "i = 0" | "i = 1" | "i = 2" | "i = 3" using assms(1) by linarith
  then show ?thesis
  proof cases
    case 1
    then show ?thesis using assms(3) by (auto simp: IMAGE_VERSION_def word_less_nat_alt)
  qed (use assms(2) nz in \<open>auto simp: IMAGE_VERSION_def\<close>)
qed

text \<open>
  C17. What an altered byte of a saved image leads to. Any byte after the twelve-byte header, in the tables,
  the arena or the footer itself, changed to any other value: \<open>from_bytes\<close> refuses the image with the
  checksum error. A byte of the magic: it refuses the image for its magic. A byte of the version, when the
  altered number is no version the code knows: it refuses the image for its version. The version read as 5,
  which has the same tables and no footer: it refuses the image for the footer's bytes at its end. The one case
  left out is the version byte set to 1, 2, 3 or 4, whose images have other tables and no checksum.
\<close>
theorem altered_image_refused:
  assumes inv: "ctx_inv U c" and i: "i < length (to_bytes c)" and b: "b \<noteq> to_bytes c ! i"
  shows "(12 \<le> i \<longrightarrow> from_bytes U ((to_bytes c)[i := b]) = Some (Inl (CorruptImage CHECKSUM_MISMATCH))) \<and>
     (i < 8 \<longrightarrow> from_bytes U ((to_bytes c)[i := b]) = Some (Inl (CorruptImage ''image does not start with the context magic''))) \<and>
     (i \<in> {9, 10, 11} \<or> i = 8 \<and> (b = 0 \<or> 6 < b) \<longrightarrow>
        from_bytes U ((to_bytes c)[i := b]) = Some (Inl (CorruptImage ''image format version is not supported''))) \<and>
     (i = 8 \<and> b = 5 \<and> (\<forall>r \<in> set (attributions c). attribution_fits r) \<longrightarrow>
        from_bytes U ((to_bytes c)[i := b]) = Some (Inl (CorruptImage ''image carries trailing bytes'')))"
proof (intro conjI impI)
  let ?img = "(to_bytes c)[i := b]" and ?s = "replicate 4 0 @ le_bytes 8 (applied_seq c) @ image_sections c"
  let ?foot = "le_bytes 4 (unat (crc32c (image_body c IMAGE_VERSION)))"
  have n: "length ?img < 2 ^ 64" using image_small [OF inv] to_bytes_split(2) [of c] by simp
  show "from_bytes U ?img = Some (Inl (CorruptImage CHECKSUM_MISMATCH))" if "12 \<le> i"
  proof -
    have "take 12 ?img = IMAGE_MAGIC @ le_bytes 4 IMAGE_VERSION" using that by (simp add: to_bytes_split(1))
    from from_bytes_current [OF n this] show ?thesis by (simp add: verify_footer_altered [OF i b])
  qed
  show "from_bytes U ?img = Some (Inl (CorruptImage ''image does not start with the context magic''))" if "i < 8"
  proof -
    have l: "8 \<le> length ?img" by (simp add: to_bytes_split(1))
    have "take 8 ?img = IMAGE_MAGIC[i := b]" using that by (simp add: to_bytes_split(1) take_update_swap)
    moreover have "IMAGE_MAGIC[i := b] \<noteq> IMAGE_MAGIC"
    proof
      assume "IMAGE_MAGIC[i := b] = IMAGE_MAGIC"
      then have "b = IMAGE_MAGIC ! i" using that by (metis length_magic nth_list_update_eq)
      then show False using b that by (simp add: to_bytes_split(1) nth_append)
    qed
    ultimately have "take 8 ?img \<noteq> IMAGE_MAGIC" by simp
    then show ?thesis using n l by (simp add: from_bytes_def take_bytes_def)
  qed
  have head: "?img = IMAGE_MAGIC @ [6, 0, 0, 0][i - 8 := b] @ ?s @ ?foot" "b \<noteq> [6, 0, 0, 0 :: u8] ! (i - 8)" if "8 \<le> i" "i < 12"
  proof -
    define vb :: "u8 list" where "vb = [6, 0, 0, 0]"
    have t: "to_bytes c = IMAGE_MAGIC @ vb @ ?s @ ?foot" "length vb = 4" by (simp_all add: to_bytes_split(1) version_bytes vb_def)
    have j: "i - 8 < length vb" "\<not> i < length IMAGE_MAGIC" using that t(2) by simp_all
    show "?img = IMAGE_MAGIC @ [6, 0, 0, 0][i - 8 := b] @ ?s @ ?foot"
      unfolding t(1) vb_def [symmetric] list_update_append using j by (simp only: if_True if_False length_magic)
    show "b \<noteq> [6, 0, 0, 0 :: u8] ! (i - 8)" using b unfolding t(1) vb_def [symmetric] nth_append using j by (simp only: if_True if_False length_magic not_False_eq_True)
  qed
  show "from_bytes U ?img = Some (Inl (CorruptImage ''image format version is not supported''))" if "i \<in> {9, 10, 11} \<or> i = 8 \<and> (b = 0 \<or> 6 < b)"
  proof -
    have i8: "8 \<le> i" "i < 12" using that by auto
    have "of_le ([6, 0, 0, 0][i - 8 := b]) < 1 \<or> IMAGE_VERSION < of_le ([6, 0, 0, 0][i - 8 := b])"
      by (rule altered_version [OF _ head(2) [OF i8]]) (use that i8 in auto)
    moreover have "length ([6, 0, 0, 0][i - 8 := b]) = 4" unfolding length_list_update by simp
    ultimately show ?thesis using from_bytes_version [OF n head(1) [OF i8]] by (simp only: if_True then_load_simps)
  qed
  show "from_bytes U ?img = Some (Inl (CorruptImage ''image carries trailing bytes''))" if five: "i = 8 \<and> b = 5 \<and> (\<forall>r \<in> set (attributions c). attribution_fits r)"
  proof -
    let ?r = "\<lparr>rd_bytes = ?img, rd_pos = 12\<rparr>"
    have h: "?img = IMAGE_MAGIC @ [5, 0, 0, 0] @ ?s @ ?foot" using head(1) five by simp
    have a: "at ?r ?s ?foot" using n unfolding at_def by (simp only: reader.simps) (simp add: h)
    obtain r' where "load_sections 5 ?r = Inr (tables_of c, r')" "rd_pos r' + 4 = length (rd_bytes r')"
      using load_sections_image [OF inv _ a, of 5] five by auto
    then show ?thesis using from_bytes_version [OF n h] by (simp add: IMAGE_VERSION_def)
  qed
qed

theorem altered_image_refused_witness:
  "from_bytes unicode_id ((to_bytes demo_ctx)[12 := 1]) = Some (Inl (CorruptImage CHECKSUM_MISMATCH)) \<and>
   from_bytes unicode_id ((to_bytes demo_ctx)[9 := 1]) = Some (Inl (CorruptImage ''image format version is not supported''))"
  using altered_image_refused [OF demo_ctx(1), of 12 1] altered_image_refused [OF demo_ctx(1), of 9 1] by (simp add: to_bytes_split(1) version_bytes nth_append)

section \<open>The migration cache\<close>

text \<open>The migration without its cache: every edge's chain is walked.\<close>

fun migrate_each :: "legacy_attribution list \<Rightarrow> legacy_edge list \<Rightarrow> corrupt_image + edge_record list" where
  "migrate_each ats [] = Inr []"
| "migrate_each ats (r # rs) = and_then (legacy_attribution_chain_len ats (le_first_attribution r)) (\<lambda>ch.
     and_then (migrate_each ats rs) (\<lambda>es. Inr (migrate_edge r ch # es)))"

lemma migrate_edges_cached:
  assumes "\<forall>k ch. cache k = Some ch \<longrightarrow> legacy_attribution_chain_len ats k = Inr ch"
  shows "migrate_edges ats cache rs = migrate_each ats rs"
  using assms
proof (induction rs arbitrary: cache)
  case (Cons r rs)
  show ?case
  proof (cases "cache (le_first_attribution r)")
    case (Some ch)
    moreover from this have "legacy_attribution_chain_len ats (le_first_attribution r) = Inr ch" using Cons.prems by blast
    ultimately show ?thesis using Cons.IH [OF Cons.prems] by simp
  next
    case None
    show ?thesis
    proof (cases "legacy_attribution_chain_len ats (le_first_attribution r)")
      case (Inr ch)
      have "migrate_edges ats (cache(le_first_attribution r \<mapsto> ch)) rs = migrate_each ats rs"
        using Cons.prems Inr by (intro Cons.IH) simp
      then show ?thesis using None Inr by simp
    qed (use None in simp)
  qed
qed simp

text \<open>
  Migrating the weight-only records of versions 1 to 4 through the cache of attribution chains gives
  what walking every edge's chain gives, errors included.
\<close>
theorem migrate_edges_reference: "migrate_edges ats Map.empty rs = migrate_each ats rs"
  by (rule migrate_edges_cached) simp

end
