(* ===== verification/Wal_Replay.thy ===== *)
theory Wal_Replay
  imports Wal Lifecycle Image_Roundtrip
begin

text \<open>
  Applying logged operations to a context, after \<^verbatim>\<open>src/registry/wal_replay.rs\<close> and the operation
  vocabulary of \<^verbatim>\<open>src/wal.rs\<close>: the batch semantics of the live path, the guarded replay of a load,
  and the proof that the one reproduces the other on a context read back from its image.
\<close>

section \<open>Operations\<close>

record assoc_op =
  ao_subject :: rstr
  ao_label :: rstr
  ao_object :: rstr
  ao_weight :: f64
  ao_source :: "rstr option"
  ao_paragraph :: "nat option"

datatype wal_op =
    Associate assoc_op
  | AliasConcept rstr rstr
  | AliasLabel rstr rstr
  | UnaliasConcept rstr
  | UnaliasLabel rstr
  | RetractSourceOp rstr
  | RetractAssociationOp rstr rstr rstr

fun grows :: "wal_op \<Rightarrow> bool" where
  "grows (Associate _) = True"
| "grows (AliasConcept _ _) = True"
| "grows (AliasLabel _ _) = True"
| "grows _ = False"

text \<open>The refusal messages, by what they are built from.\<close>

datatype refusal =
    ContextRefused context_full
  | ConceptAliasRefused rstr rstr alias_error
  | LabelAliasRefused rstr rstr alias_error
  | NotConceptAlias rstr
  | NotLabelAlias rstr

definition is_full :: "alias_error \<Rightarrow> bool" where
  "is_full e = (case e of Full _ \<Rightarrow> True | _ \<Rightarrow> False)"

fun apply_op :: "unicode \<Rightarrow> ctx \<Rightarrow> wal_op \<Rightarrow> ((refusal \<times> bool) + ctx) option" where
  "apply_op U c (Associate op) =
     map_option (map_sum (\<lambda>full. (ContextRefused full, True)) id)
       (case ao_source op of
          Some source \<Rightarrow> associate_from U c (ao_subject op) (ao_label op) (ao_object op) (ao_weight op) source (ao_paragraph op)
        | None \<Rightarrow> associate U c (ao_subject op) (ao_label op) (ao_object op) (ao_weight op))"
| "apply_op U c (AliasConcept alias canonical) =
     map_option (map_sum (\<lambda>e. (ConceptAliasRefused alias canonical e, is_full e)) id) (add_concept_alias U c alias canonical)"
| "apply_op U c (AliasLabel alias canonical) =
     map_option (map_sum (\<lambda>e. (LabelAliasRefused alias canonical e, is_full e)) id) (add_label_alias U c alias canonical)"
| "apply_op U c (UnaliasConcept alias) =
     map_option (\<lambda>r. case r of Some (_, c') \<Rightarrow> Inr c' | None \<Rightarrow> Inl (NotConceptAlias alias, False)) (remove_concept_alias U c alias)"
| "apply_op U c (UnaliasLabel alias) =
     map_option (\<lambda>r. case r of Some (_, c') \<Rightarrow> Inr c' | None \<Rightarrow> Inl (NotLabelAlias alias, False)) (remove_label_alias U c alias)"
| "apply_op U c (RetractSourceOp source) =
     map_option (\<lambda>r. case r of Some (_, c') \<Rightarrow> Inr c' | None \<Rightarrow> Inr c) (retract_source c source)"
| "apply_op U c (RetractAssociationOp s l ob) =
     map_option (\<lambda>r. case r of Some (_, c') \<Rightarrow> Inr c' | None \<Rightarrow> Inr c) (retract_association c s l ob)"

section \<open>Batches\<close>

record partial_write =
  pw_applied :: nat
  pw_message :: refusal
  pw_full :: bool

fun apply_from :: "unicode \<Rightarrow> nat \<Rightarrow> ctx \<Rightarrow> wal_op list \<Rightarrow> ((partial_write + nat) \<times> ctx) option" where
  "apply_from U applied c [] = Some (Inr applied, c)"
| "apply_from U applied c (op # ops) = do {
     r \<leftarrow> apply_op U c op;
     case r of
       Inl (message, full) \<Rightarrow> Some (Inl \<lparr>pw_applied = applied, pw_message = message, pw_full = full\<rparr>, c)
     | Inr c' \<Rightarrow> apply_from U (applied + 1) c' ops }"

definition apply_in_order :: "unicode \<Rightarrow> ctx \<Rightarrow> wal_op list \<Rightarrow> ((partial_write + nat) \<times> ctx) option" where
  "apply_in_order U c ops = apply_from U 0 c ops"

definition applied_count :: "partial_write + nat \<Rightarrow> nat" where
  "applied_count r = (case r of Inr applied \<Rightarrow> applied | Inl partial \<Rightarrow> pw_applied partial)"

section \<open>Replay\<close>

definition replay_op :: "unicode \<Rightarrow> ctx \<Rightarrow> wal_op \<Rightarrow> (bool \<times> ctx) option" where
  "replay_op U c op = map_option (\<lambda>r. case r of Inr c' \<Rightarrow> (False, c') | Inl (message, full) \<Rightarrow> (full, c)) (apply_op U c op)"

definition tally_capacity_loss :: "nat \<Rightarrow> bool \<Rightarrow> nat" where
  "tally_capacity_loss losses is_capacity_loss = (if is_capacity_loss then losses + 1 else losses)"

fun replay_ops :: "unicode \<Rightarrow> ctx \<Rightarrow> wal_op list \<Rightarrow> nat \<Rightarrow> (ctx \<times> nat) option" where
  "replay_ops U c [] losses = Some (c, losses)"
| "replay_ops U c (op # ops) losses = do {
     (lost, c') \<leftarrow> replay_op U c op;
     replay_ops U c' ops (tally_capacity_loss losses lost) }"

datatype replay_error = ReplayIo wal_error | ReplayPanicked

text \<open>The result with the context, the capacity losses tallied, and the log file as replay leaves it.\<close>

definition replay_wal_guarded ::
    "wal_op codec \<Rightarrow> replay_io \<Rightarrow> unicode \<Rightarrow> rstr option \<Rightarrow> nat \<Rightarrow> ctx \<Rightarrow> (replay_error + nat \<times> ctx \<times> nat) \<times> rstr option" where
  "replay_wal_guarded C io U file watermark c =
     (case replay C io file watermark of
        (Inl e, file') \<Rightarrow> (Inl (ReplayIo e), file')
      | (Inr (ops, top_sq), file') \<Rightarrow>
          (case replay_ops U c ops 0 of None \<Rightarrow> (Inl ReplayPanicked, file')
           | Some (c', losses) \<Rightarrow> (Inr (top_sq, c', losses), file')))"

section \<open>What an image stores\<close>

text \<open>
  Everything but the two entry indexes and the per-source edge lists, which a load builds afresh, the
  tunable floor and the watermark.
\<close>

definition stored :: "ctx \<Rightarrow> ctx" where
  "stored c = c\<lparr>concept_index := ei_default, label_index := ei_default, source_edges := Map.empty, dice_floor := None, applied_seq := 0\<rparr>"

lemma stored_eqD:
  "stored c = stored d \<Longrightarrow> d = c\<lparr>concept_index := concept_index d, label_index := label_index d,
     source_edges := source_edges d, dice_floor := dice_floor d, applied_seq := applied_seq d\<rparr>"
  by (cases c, cases d) (simp add: stored_def)

lemma stored_fields:
  assumes "stored c = stored d"
  shows "arena d = arena c" "concepts d = concepts c" "labels d = labels c" "sources d = sources c"
    "edges d = edges c" "attributions d = attributions c" "concept_aliases d = concept_aliases c" "label_aliases d = label_aliases c"
    "attribution_locators d = attribution_locators c" "concept_ids d = concept_ids c" "label_ids d = label_ids c" "source_ids d = source_ids c"
    "concept_alias_index d = concept_alias_index c" "label_alias_index d = label_alias_index c" "label_name_index d = label_name_index c" "edge_ids d = edge_ids c"
    "attribution_ids d = attribution_ids c" "dead_edges d = dead_edges c" "dead_attributions d = dead_attributions c" "arena_slack d = arena_slack c"
  by (subst stored_eqD [OF assms], simp)+

lemma stored_upd [simp]:
  "stored (c\<lparr>concept_index := ci\<rparr>) = stored c" "stored (c\<lparr>label_index := li\<rparr>) = stored c"
  "stored (c\<lparr>source_edges := se\<rparr>) = stored c" "stored (c\<lparr>dice_floor := df\<rparr>) = stored c" "stored (c\<lparr>applied_seq := sq\<rparr>) = stored c"
  by (simp_all add: stored_def)

lemma stored_dead:
  "stored (c\<lparr>dead_attributions := x\<rparr>) = (stored c)\<lparr>dead_attributions := x\<rparr>" "stored (c\<lparr>dead_edges := x\<rparr>) = (stored c)\<lparr>dead_edges := x\<rparr>"
  "stored (c\<lparr>edges := es\<rparr>) = (stored c)\<lparr>edges := es\<rparr>" "stored (c\<lparr>attribution_ids := ids\<rparr>) = (stored c)\<lparr>attribution_ids := ids\<rparr>"
  by (simp_all add: stored_def)

lemma stored_kb: assumes "stored c = stored d" shows "kb_of d = kb_of c"
  by (subst stored_eqD [OF assms])
    (simp add: kb_of_def facts_def fact_of_def [abs_def] fact_with_def chain_of_def att_view_def [abs_def] attribution_chain_def
      cname_def [abs_def] lname_def [abs_def] sname_def [abs_def])

section \<open>Every operation keeps to what is stored\<close>

lemma intern_same:
  assumes "stored c = stored d"
  shows "intern_concept U c n = Some (i, c') \<Longrightarrow> intern_concept U d n = Some (j, d') \<Longrightarrow> i = j \<and> stored c' = stored d'"
    "intern_label U c n = Some (i, c') \<Longrightarrow> intern_label U d n = Some (j, d') \<Longrightarrow> i = j \<and> stored c' = stored d'"
    "intern_source_opt c so = Some (k, c') \<Longrightarrow> intern_source_opt d so = Some (l, d') \<Longrightarrow> k = l \<and> stored c' = stored d'"
proof -
  define ci li se df sq where x: "ci = concept_index d" "li = label_index d" "se = source_edges d" "df = dice_floor d" "sq = applied_seq d"
  have d: "d = c\<lparr>concept_index := ci, label_index := li, source_edges := se, dice_floor := df, applied_seq := sq\<rparr>"
    unfolding x by (rule stored_eqD [OF assms])
  show "intern_concept U c n = Some (i, c') \<Longrightarrow> intern_concept U d n = Some (j, d') \<Longrightarrow> i = j \<and> stored c' = stored d'"
    unfolding d by (auto simp: intern_concept_def stored_def bind_eq_Some_conv split: option.splits)
  show "intern_label U c n = Some (i, c') \<Longrightarrow> intern_label U d n = Some (j, d') \<Longrightarrow> i = j \<and> stored c' = stored d'"
    unfolding d by (auto simp: intern_label_def stored_def bind_eq_Some_conv split: option.splits)
  show "intern_source_opt c so = Some (k, c') \<Longrightarrow> intern_source_opt d so = Some (l, d') \<Longrightarrow> k = l \<and> stored c' = stored d'"
    unfolding d by (auto simp: intern_source_opt_def intern_source_def stored_def bind_eq_Some_conv split: option.splits)
qed

lemma edge_same:
  assumes "stored c = stored d"
  shows "edge_stage c s l ob w = Some (i, c') \<Longrightarrow> edge_stage d s l ob w = Some (j, d') \<Longrightarrow> i = j \<and> stored c' = stored d'"
    "attribute c e k w p = Some c' \<Longrightarrow> attribute d e k w p = Some d' \<Longrightarrow> stored c' = stored d'"
proof -
  define ci li se df sq where x: "ci = concept_index d" "li = label_index d" "se = source_edges d" "df = dice_floor d" "sq = applied_seq d"
  have d: "d = c\<lparr>concept_index := ci, label_index := li, source_edges := se, dice_floor := df, applied_seq := sq\<rparr>"
    unfolding x by (rule stored_eqD [OF assms])
  have push: "push_edge d r = map_option (apsnd (\<lambda>c. c\<lparr>concept_index := ci, label_index := li, source_edges := se, dice_floor := df, applied_seq := sq\<rparr>)) (push_edge c r)" for r
    unfolding d by (simp add: push_edge_def Let_def split: Option.bind_split)
  have fold: "fold_edge d e w = map_option (\<lambda>c. c\<lparr>concept_index := ci, label_index := li, source_edges := se, dice_floor := df, applied_seq := sq\<rparr>) (fold_edge c e w)" for e
    unfolding d by (simp add: fold_edge_def Let_def split: Option.bind_split)
  have ids: "edge_ids d = edge_ids c" unfolding d by simp
  show "edge_stage c s l ob w = Some (i, c') \<Longrightarrow> edge_stage d s l ob w = Some (j, d') \<Longrightarrow> i = j \<and> stored c' = stored d'"
    by (auto simp: edge_stage_def push fold ids split: option.splits)
  show "attribute c e k w p = Some c' \<Longrightarrow> attribute d e k w p = Some d' \<Longrightarrow> stored c' = stored d'"
    unfolding d by (auto simp: attribute_def push_attribution_def stored_def Let_def bind_eq_Some_conv split: option.splits if_splits)
qed

lemma ensure_room_same:
  assumes "stored c = stored d" shows "ensure_room d s l ob source = ensure_room c s l ob source"
  unfolding ensure_room_def stored_fields [OF assms] by (rule refl)

lemma upsert_run:
  assumes "upsert U c s l ob w source p = Some (Inr c')"
  obtains i c1 j c2 k c3 so c4 e c5 where "intern_concept U c s = Some (i, c1)" "intern_concept U c1 ob = Some (j, c2)"
    "intern_label U c2 l = Some (k, c3)" "intern_source_opt c3 source = Some (so, c4)" "edge_stage c4 i k j w = Some (e, c5)"
    "(case so of None \<Rightarrow> Some c5 | Some sid \<Rightarrow> attribute c5 e sid w p) = Some c'"
  using assms by (auto simp: upsert_stages bind_eq_Some_conv split: if_splits sum.splits)

lemma upsert_same:
  assumes h: "stored c = stored d" and c: "upsert U c s l ob w source p = Some (Inr c')" and d: "upsert U d s l ob w source p = Some (Inr d')"
  shows "stored c' = stored d'"
proof -
  obtain i c1 j c2 k c3 so c4 e c5 where C: "intern_concept U c s = Some (i, c1)" "intern_concept U c1 ob = Some (j, c2)"
    "intern_label U c2 l = Some (k, c3)" "intern_source_opt c3 source = Some (so, c4)" "edge_stage c4 i k j w = Some (e, c5)"
    "(case so of None \<Rightarrow> Some c5 | Some sid \<Rightarrow> attribute c5 e sid w p) = Some c'" by (rule upsert_run [OF c])
  obtain i' d1 j' d2 k' d3 so' d4 e' d5 where D: "intern_concept U d s = Some (i', d1)" "intern_concept U d1 ob = Some (j', d2)"
    "intern_label U d2 l = Some (k', d3)" "intern_source_opt d3 source = Some (so', d4)" "edge_stage d4 i' k' j' w = Some (e', d5)"
    "(case so' of None \<Rightarrow> Some d5 | Some sid \<Rightarrow> attribute d5 e' sid w p) = Some d'" by (rule upsert_run [OF d])
  have 1: "i = i'" "stored c1 = stored d1" using intern_same(1) [OF h C(1) D(1)] by simp_all
  have 2: "j = j'" "stored c2 = stored d2" using intern_same(1) [OF 1(2) C(2) D(2)] by simp_all
  have 3: "k = k'" "stored c3 = stored d3" using intern_same(2) [OF 2(2) C(3) D(3)] by simp_all
  have 4: "so = so'" "stored c4 = stored d4" using intern_same(3) [OF 3(2) C(4) D(4)] by simp_all
  have 5: "e = e'" "stored c5 = stored d5" using edge_same(1) [OF 4(2) C(5)] D(5) 1 2 3 by simp_all
  show ?thesis using C(6) D(6) 4(1) 5 edge_same(2) [OF 5(2)] by (cases so) auto
qed

lemma add_alias_same:
  assumes h: "stored c = stored d"
  shows "add_concept_alias U c a b = Some r \<Longrightarrow> add_concept_alias U d a b = Some r' \<Longrightarrow>
      (\<exists>e. r = Inl e \<and> r' = Inl e) \<or> (\<exists>c' d'. r = Inr c' \<and> r' = Inr d' \<and> stored c' = stored d')"
    "add_label_alias U c a b = Some r \<Longrightarrow> add_label_alias U d a b = Some r' \<Longrightarrow>
      (\<exists>e. r = Inl e \<and> r' = Inl e) \<or> (\<exists>c' d'. r = Inr c' \<and> r' = Inr d' \<and> stored c' = stored d')"
proof -
  define ci li se df sq where x: "ci = concept_index d" "li = label_index d" "se = source_edges d" "df = dice_floor d" "sq = applied_seq d"
  have d: "d = c\<lparr>concept_index := ci, label_index := li, source_edges := se, dice_floor := df, applied_seq := sq\<rparr>"
    unfolding x by (rule stored_eqD [OF h])
  show "add_concept_alias U c a b = Some r \<Longrightarrow> add_concept_alias U d a b = Some r' \<Longrightarrow>
      (\<exists>e. r = Inl e \<and> r' = Inl e) \<or> (\<exists>c' d'. r = Inr c' \<and> r' = Inr d' \<and> stored c' = stored d')"
    unfolding d by (auto simp: add_concept_alias_def add_alias_def concept_ns_def put_concept_ns_def stored_def bind_eq_Some_conv split: option.splits if_splits)
  show "add_label_alias U c a b = Some r \<Longrightarrow> add_label_alias U d a b = Some r' \<Longrightarrow>
      (\<exists>e. r = Inl e \<and> r' = Inl e) \<or> (\<exists>c' d'. r = Inr c' \<and> r' = Inr d' \<and> stored c' = stored d')"
    unfolding d by (auto simp: add_label_alias_def add_alias_def label_ns_def put_label_ns_def stored_def bind_eq_Some_conv split: option.splits if_splits)
qed

lemma reads_same:
  assumes "stored c = stored d"
  shows "arena_str d off len = arena_str c off len" "alias_position d a als i = alias_position c a als i" "push_all U d xs ix = push_all U c xs ix"
proof -
  show r: "arena_str d off len = arena_str c off len" for off len by (simp add: arena_str_def stored_fields [OF assms])
  show "alias_position d a als i = alias_position c a als i" by (induction als arbitrary: i) (simp_all add: r split: Option.bind_split)
  show "push_all U d xs ix = push_all U c xs ix"
    by (induction xs arbitrary: ix) (auto simp: r split: Option.bind_split)
qed

lemma remove_alias_same:
  assumes h: "stored c = stored d"
  shows "remove_concept_alias U c a = Some r \<Longrightarrow> remove_concept_alias U d a = Some r' \<Longrightarrow>
      r = None \<and> r' = None \<or> (\<exists>n m c' d'. r = Some (n, c') \<and> r' = Some (m, d') \<and> stored c' = stored d')"
    "remove_label_alias U c a = Some r \<Longrightarrow> remove_label_alias U d a = Some r' \<Longrightarrow>
      r = None \<and> r' = None \<or> (\<exists>n m c' d'. r = Some (n, c') \<and> r' = Some (m, d') \<and> stored c' = stored d')"
proof -
  note F = stored_fields [OF h] reads_same(2) [OF h]
  show "remove_concept_alias U c a = Some r \<Longrightarrow> remove_concept_alias U d a = Some r' \<Longrightarrow>
      r = None \<and> r' = None \<or> (\<exists>n m c' d'. r = Some (n, c') \<and> r' = Some (m, d') \<and> stored c' = stored d')"
    unfolding remove_concept_alias_def rebuild_concept_index_def F using h [unfolded stored_def]
    by (auto simp: bind_eq_Some_conv Let_def stored_def F split: option.splits)
  show "remove_label_alias U c a = Some r \<Longrightarrow> remove_label_alias U d a = Some r' \<Longrightarrow>
      r = None \<and> r' = None \<or> (\<exists>n m c' d'. r = Some (n, c') \<and> r' = Some (m, d') \<and> stored c' = stored d')"
    unfolding remove_label_alias_def rebuild_label_index_def F using h [unfolded stored_def]
    by (auto simp: bind_eq_Some_conv Let_def stored_def F split: option.splits)
qed

lemma unlink_same:
  assumes h: "stored c = stored d"
  shows "unlink_attribution c e k f = Some c' \<Longrightarrow> unlink_attribution d e k f = Some d' \<Longrightarrow> stored c' = stored d'"
    "unlink_attribution c e k f = None \<longleftrightarrow> unlink_attribution d e k f = None"
proof -
  define ci li se df sq where x: "ci = concept_index d" "li = label_index d" "se = source_edges d" "df = dice_floor d" "sq = applied_seq d"
  have d: "d = c\<lparr>concept_index := ci, label_index := li, source_edges := se, dice_floor := df, applied_seq := sq\<rparr>"
    unfolding x by (rule stored_eqD [OF h])
  have "unlink_attribution d e k f = map_option (\<lambda>c. c\<lparr>concept_index := ci, label_index := li, source_edges := se, dice_floor := df, applied_seq := sq\<rparr>) (unlink_attribution c e k f)"
    unfolding d by (simp add: unlink_attribution_def Let_def split: Option.bind_split prod.split)
  then show "unlink_attribution c e k f = Some c' \<Longrightarrow> unlink_attribution d e k f = Some d' \<Longrightarrow> stored c' = stored d'"
    "unlink_attribution c e k f = None \<longleftrightarrow> unlink_attribution d e k f = None" by auto
qed

lemma retract_edges_same:
  "stored c = stored d \<Longrightarrow> retract_edges c k es n = Some (m, c') \<Longrightarrow> \<exists>d'. retract_edges d k es n = Some (m, d') \<and> stored c' = stored d'"
proof (induction es arbitrary: c d n)
  case (Cons e es)
  note F = stored_fields [OF Cons.prems(1)]
  obtain x found where x: "nth_opt (edges c) e = Some x"
    "find_attribution (length (attributions c)) (attributions c) k NIL (ed_first_attribution x) = Some found"
    using Cons.prems(2) by (auto simp: bind_eq_Some_conv)
  show ?case
  proof (cases found)
    case None
    then show ?thesis using Cons.IH [OF Cons.prems(1)] Cons.prems(2) x by (simp add: F)
  next
    case (Some hit)
    then obtain c1 where c1: "unlink_attribution c e k hit = Some c1" "retract_edges c1 k es (n + 1) = Some (m, c')"
      using Cons.prems(2) x by (auto simp: bind_eq_Some_conv)
    obtain d1 where d1: "unlink_attribution d e k hit = Some d1" using unlink_same(2) [OF Cons.prems(1), of e k hit] c1(1) by auto
    from Cons.IH [OF unlink_same(1) [OF Cons.prems(1) c1(1) d1] c1(2)] d1 x Some show ?thesis by (simp add: F)
  qed
qed simp

lemma sorted_sources:
  assumes "ctx_inv U c" "ctx_inv U d" "stored c = stored d"
  shows "sort (case source_edges d k of None \<Rightarrow> [] | Some es \<Rightarrow> es) = sort (case source_edges c k of None \<Rightarrow> [] | Some es \<Rightarrow> es)"
proof -
  let ?es = "\<lambda>c. case source_edges c k of None \<Rightarrow> [] | Some es \<Rightarrow> es"
  have so: "distinct (?es c) \<and> set (?es c) = {e. attribution_ids c (e, k) \<noteq> None}" if inv: "ctx_inv U c" for c
  proof -
    obtain f where "attr_inv c f" using ctx_invD(7) [OF inv] by blast
    then have ok: "source_edges_ok c" by (simp add: attr_inv_def)
    show ?thesis
    proof (cases "source_edges c k")
      case None
      then show ?thesis using ok unfolding source_edges_ok_def by (metis (mono_tags, lifting) Collect_empty_eq distinct.simps(1) empty_set option.case(1) option.distinct(1))
    next
      case (Some es)
      then have "e \<in> set es \<longleftrightarrow> attribution_ids c (e, k) \<noteq> None" "distinct es" for e using ok unfolding source_edges_ok_def by (metis option.inject)+
      then show ?thesis using Some by auto
    qed
  qed
  have "set (?es d) = set (?es c)" using so [OF assms(1)] so [OF assms(2)] stored_fields(17) [OF assms(3)] by simp
  then show ?thesis using so [OF assms(1)] so [OF assms(2)]
    by (intro sorted_distinct_set_unique) simp_all
qed

lemma retract_source_same:
  assumes inv: "ctx_inv U c" "ctx_inv U d" and h: "stored c = stored d"
    and c: "retract_source c s = Some r" and d: "retract_source d s = Some r'"
  shows "r = None \<and> r' = None \<or> (\<exists>n m c' d'. r = Some (n, c') \<and> r' = Some (m, d') \<and> stored c' = stored d')"
proof (cases "source_ids c s")
  case None
  then show ?thesis using c d stored_fields(12) [OF h] by (simp add: retract_source_def)
next
  case (Some k)
  let ?es = "sort (case source_edges c k of None \<Rightarrow> [] | Some es \<Rightarrow> es)"
  obtain n c' where c': "retract_edges (c\<lparr>source_edges := (source_edges c)(k := None)\<rparr>) k ?es 0 = Some (n, c')"
    "r = Some (n, c'\<lparr>dead_attributions := u64_add (dead_attributions c') n\<rparr>)"
    using c Some by (auto simp: retract_source_def Let_def bind_eq_Some_conv)
  have hh: "stored (c\<lparr>source_edges := (source_edges c)(k := None)\<rparr>) = stored (d\<lparr>source_edges := (source_edges d)(k := None)\<rparr>)" using h by simp
  obtain d' where d': "retract_edges (d\<lparr>source_edges := (source_edges d)(k := None)\<rparr>) k ?es 0 = Some (n, d')" "stored c' = stored d'"
    using retract_edges_same [OF hh c'(1)] by blast
  have "r' = Some (n, d'\<lparr>dead_attributions := u64_add (dead_attributions d') n\<rparr>)"
    using d Some d'(1) by (simp add: retract_source_def stored_fields(12) [OF h] sorted_sources [OF inv h] Let_def)
  moreover have "stored (c'\<lparr>dead_attributions := x\<rparr>) = stored (d'\<lparr>dead_attributions := x\<rparr>)" for x
    using d'(2) by (simp add: stored_dead)
  ultimately show ?thesis using c'(2) stored_fields(19) [OF d'(2)] by simp
qed

lemma unlink_chain_same:
  "stored c = stored d \<Longrightarrow> unlink_chain fuel c e cur n = Some (m, c') \<Longrightarrow> \<exists>d'. unlink_chain fuel d e cur n = Some (m, d') \<and> stored c' = stored d'"
proof (induction fuel arbitrary: c d cur n)
  case 0
  then show ?case by (simp add: unlink_chain.simps [of 0] split: if_splits)
next
  case (Suc fuel)
  note F = stored_fields [OF Suc.prems(1)]
  show ?case
  proof (cases "cur = NIL")
    case True
    then show ?thesis using Suc.prems by (simp add: unlink_chain.simps [of "Suc fuel"])
  next
    case False
    then obtain r where r: "nth_opt (attributions c) cur = Some r"
      "unlink_chain fuel (c\<lparr>attribution_ids := (attribution_ids c)((e, at_source r) := None), source_edges := prune_source_edge (source_edges c) (at_source r) e\<rparr>)
         e (at_next r) (n + 1) = Some (m, c')"
      using Suc.prems(2) by (auto simp: unlink_chain.simps [of "Suc fuel"] bind_eq_Some_conv)
    have "stored (c\<lparr>attribution_ids := (attribution_ids c)((e, at_source r) := None), source_edges := prune_source_edge (source_edges c) (at_source r) e\<rparr>) =
        stored (d\<lparr>attribution_ids := (attribution_ids d)((e, at_source r) := None), source_edges := prune_source_edge (source_edges d) (at_source r) e\<rparr>)"
      using Suc.prems(1) by (simp add: F stored_dead)
    from Suc.IH [OF this r(2)] False r(1) show ?thesis by (simp add: unlink_chain.simps [of "Suc fuel"] F)
  qed
qed

lemma retract_association_same:
  assumes h: "stored c = stored d" and c: "retract_association c x y z = Some r" and d: "retract_association d x y z = Some r'"
  shows "r = None \<and> r' = None \<or> (\<exists>n m c' d'. r = Some (n, c') \<and> r' = Some (m, d') \<and> stored c' = stored d')"
proof -
  note F = stored_fields [OF h]
  have ex: "existing_edge d x y z = existing_edge c x y z" by (simp add: existing_edge_def F)
  note R = retract_association_def [folded existing_edge_def]
  show ?thesis
  proof (cases "existing_edge c x y z")
    case None
    then show ?thesis using c d ex by (simp add: R)
  next
    case (Some e)
    then obtain er where er: "nth_opt (edges c) e = Some er" using c by (auto simp: R bind_eq_Some_conv)
    show ?thesis
    proof (cases "ed_count er = 0")
      case True
      then show ?thesis using c d ex Some er by (simp add: R F)
    next
      case False
      let ?e = "er\<lparr>ed_first_attribution := NIL, ed_last_attribution := NIL, ed_sum := f64_zero, ed_count := 0\<rparr>"
      obtain n c1 where c1: "unlink_chain (length (attributions c)) c e (ed_first_attribution er) 0 = Some (n, c1)"
        "r = Some (n, c1\<lparr>edges := (edges c1)[e := ?e], dead_edges := u64_add (dead_edges c1) 1, dead_attributions := u64_add (dead_attributions c1) n\<rparr>)"
        using c Some er False by (auto simp: R bind_eq_Some_conv)
      obtain d1 where d1: "unlink_chain (length (attributions c)) d e (ed_first_attribution er) 0 = Some (n, d1)" "stored c1 = stored d1"
        using unlink_chain_same [OF h c1(1)] by blast
      have "r' = Some (n, d1\<lparr>edges := (edges d1)[e := ?e], dead_edges := u64_add (dead_edges d1) 1, dead_attributions := u64_add (dead_attributions d1) n\<rparr>)"
        using d Some er False d1(1) ex by (simp add: R F)
      then show ?thesis using c1(2) d1(2) stored_fields [OF d1(2)] by (simp add: stored_dead)
    qed
  qed
qed

section \<open>Applying an operation\<close>

text \<open>What the Rust types and the request checks guarantee of an operation.\<close>

fun op_ok :: "wal_op \<Rightarrow> bool" where
  "op_ok (Associate op) \<longleftrightarrow> utf8_valid (ao_subject op) \<and> utf8_valid (ao_label op) \<and> utf8_valid (ao_object op) \<and>
     is_finite (ao_weight op) \<and> opt_valid (ao_source op) (ao_paragraph op)"
| "op_ok (AliasConcept alias _) \<longleftrightarrow> utf8_valid alias"
| "op_ok (AliasLabel alias _) \<longleftrightarrow> utf8_valid alias"
| "op_ok _ \<longleftrightarrow> True"

definition healthy :: "unicode \<Rightarrow> nat \<Rightarrow> ctx \<Rightarrow> bool" where
  "healthy U n c \<longleftrightarrow> ctx_inv U c \<and> counts_upto n (kb_of c)"

lemma opt_valid_None: "opt_valid None None"
  by (simp add: opt_valid_def)

lemma apply_upsert:
  "apply_op U c (Associate op) = map_option (map_sum (\<lambda>full. (ContextRefused full, True)) id)
     (upsert U c (ao_subject op) (ao_label op) (ao_object op) (ao_weight op) (ao_source op) (if ao_source op = None then None else ao_paragraph op))"
  by (cases "ao_source op") (simp_all add: associate_def associate_from_def)

lemma valid_paragraph: "opt_valid so p \<Longrightarrow> opt_valid so (if so = None then None else p)"
  by (simp add: opt_valid_def split: option.split)

lemma map_sum_id: "map_sum f id r = Inr x \<longleftrightarrow> r = Inr x" "map_sum f id r = Inl y \<longleftrightarrow> (\<exists>e. r = Inl e \<and> y = f e)"
  by (cases r; auto)+

lemma map_sum_same:
  "(\<exists>e. z = Inl e \<and> z' = Inl e) \<or> (\<exists>c d. z = Inr c \<and> z' = Inr d \<and> P c d) \<Longrightarrow>
   (\<exists>e. map_sum f id z = Inl e \<and> map_sum f id z' = Inl e) \<or> (\<exists>c d. map_sum f id z = Inr c \<and> map_sum f id z' = Inr d \<and> P c d)"
  by (auto simp: map_sum_id)

lemma opt_same:
  assumes "z = None \<and> z' = None \<or> (\<exists>n m c d. z = Some (n, c) \<and> z' = Some (m, d) \<and> P c d)"
    "(\<exists>e. x = Inl e \<and> x' = Inl e) \<or> (\<exists>c d. x = Inr c \<and> x' = Inr d \<and> P c d)"
  shows "(\<exists>e. (case z of Some (_, c) \<Rightarrow> Inr c | None \<Rightarrow> x) = Inl e \<and> (case z' of Some (_, c) \<Rightarrow> Inr c | None \<Rightarrow> x') = Inl e) \<or>
    (\<exists>c d. (case z of Some (_, c) \<Rightarrow> Inr c | None \<Rightarrow> x) = Inr c \<and> (case z' of Some (_, c) \<Rightarrow> Inr c | None \<Rightarrow> x') = Inr d \<and> P c d)"
  using assms by auto

lemma apply_op_steps:
  assumes ok: "op_ok op" and run: "apply_op U c op = Some (Inr c')" shows "c' = c \<or> ctx_step U c c'"
proof (cases op)
  case (Associate a)
  then have "upsert U c (ao_subject a) (ao_label a) (ao_object a) (ao_weight a) (ao_source a) (if ao_source a = None then None else ao_paragraph a) = Some (Inr c')"
    using run unfolding Associate apply_upsert by (simp add: map_option_eq_Some map_sum_id)
  then show ?thesis using ok valid_paragraph [of "ao_source a" "ao_paragraph a"] unfolding Associate by (auto intro: ctx_step.Assert)
qed (use ok run in \<open>auto intro: ctx_step.intros simp: map_sum_id split: option.splits prod.splits\<close>)

lemma apply_op_returns:
  assumes h: "healthy U n c" and n: "Suc n < 2 ^ 64" and ok: "op_ok op"
  shows "\<exists>r. apply_op U c op = Some r \<and> (\<forall>c'. r = Inr c' \<longrightarrow> healthy U (Suc n) c')"
proof -
  have inv: "ctx_inv U c" "counts_upto n (kb_of c)" using h by (simp_all add: healthy_def)
  note R = ops_return [OF inv n]
  have v: "utf8_valid []" "is_finite f64_one" by (simp add: utf8_valid_def utf8_decode.simps, simp)
  have "apply_op U c op \<noteq> None"
  proof (cases op)
    case (Associate a)
    then have u: "utf8_valid (ao_subject a)" "utf8_valid (ao_label a)" "utf8_valid (ao_object a)"
      "opt_valid (ao_source a) (if ao_source a = None then None else ao_paragraph a)" "is_finite (ao_weight a)"
      using ok valid_paragraph by simp_all
    show ?thesis unfolding Associate apply_upsert using R [OF u] by simp
  qed (use ok R [OF _ v(1) v(1) opt_valid_None v(2)] R [OF v(1) v(1) v(1) opt_valid_None v(2)] in simp_all)
  moreover have "healthy U (Suc n) c'" if "apply_op U c op = Some (Inr c')" for c'
  proof -
    from apply_op_steps [OF ok that] show ?thesis
    proof
      assume "c' = c"
      then show ?thesis using inv by (auto simp: healthy_def counts_upto_def intro: le_SucI)
    next
      assume "ctx_step U c c'"
      from ctx_step_simulates [OF this inv n] inv(2) show ?thesis using kb_step_counts by (auto simp: healthy_def)
    qed
  qed
  ultimately show ?thesis by auto
qed

lemma apply_op_same:
  assumes c: "healthy U n c" and d: "healthy U n d" and h: "stored c = stored d" and n: "Suc n < 2 ^ 64" and ok: "op_ok op"
  shows "(\<exists>e. apply_op U c op = Some (Inl e) \<and> apply_op U d op = Some (Inl e)) \<or>
    (\<exists>c' d'. apply_op U c op = Some (Inr c') \<and> apply_op U d op = Some (Inr d') \<and> healthy U (Suc n) c' \<and> healthy U (Suc n) d' \<and> stored c' = stored d')"
proof -
  obtain r r' where r: "apply_op U c op = Some r" "\<forall>c'. r = Inr c' \<longrightarrow> healthy U (Suc n) c'"
    and r': "apply_op U d op = Some r'" "\<forall>c'. r' = Inr c' \<longrightarrow> healthy U (Suc n) c'"
    using apply_op_returns [OF c n ok] apply_op_returns [OF d n ok] by blast
  have inv: "ctx_inv U c" "ctx_inv U d" using c d by (simp_all add: healthy_def)
  have "(\<exists>e. r = Inl e \<and> r' = Inl e) \<or> (\<exists>c' d'. r = Inr c' \<and> r' = Inr d' \<and> stored c' = stored d')"
  proof (cases op)
    case (Associate a)
    obtain u u' where u: "upsert U c (ao_subject a) (ao_label a) (ao_object a) (ao_weight a) (ao_source a) (if ao_source a = None then None else ao_paragraph a) = Some u"
      "upsert U d (ao_subject a) (ao_label a) (ao_object a) (ao_weight a) (ao_source a) (if ao_source a = None then None else ao_paragraph a) = Some u'"
      "r = map_sum (\<lambda>full. (ContextRefused full, True)) id u" "r' = map_sum (\<lambda>full. (ContextRefused full, True)) id u'"
      using r(1) r'(1) unfolding Associate apply_upsert by auto
    show ?thesis
    proof (cases "ensure_room c (ao_subject a) (ao_label a) (ao_object a) (ao_source a)")
      case (Inl e)
      then have "u = Inl e \<and> u' = Inl e" using u(1,2) ensure_room_same [OF h] by (auto simp: upsert_stages split: if_splits)
      then have "r = Inl (ContextRefused e, True) \<and> r' = Inl (ContextRefused e, True)" using u(3,4) by simp
      then show ?thesis by blast
    next
      case (Inr x)
      then have "\<exists>c' d'. u = Inr c' \<and> u' = Inr d'" using u(1,2) ensure_room_same [OF h]
        by (auto simp: upsert_stages bind_eq_Some_conv split: if_splits)
      then show ?thesis using upsert_same [OF h] u by auto
    qed
  next
    case (AliasConcept a b)
    then obtain z z' where z: "add_concept_alias U c a b = Some z" "add_concept_alias U d a b = Some z'"
      "r = map_sum (\<lambda>e. (ConceptAliasRefused a b e, is_full e)) id z" "r' = map_sum (\<lambda>e. (ConceptAliasRefused a b e, is_full e)) id z'"
      using r(1) r'(1) by auto
    from add_alias_same(1) [OF h z(1,2)] show ?thesis unfolding z(3,4) by (rule map_sum_same)
  next
    case (AliasLabel a b)
    then obtain z z' where z: "add_label_alias U c a b = Some z" "add_label_alias U d a b = Some z'"
      "r = map_sum (\<lambda>e. (LabelAliasRefused a b e, is_full e)) id z" "r' = map_sum (\<lambda>e. (LabelAliasRefused a b e, is_full e)) id z'"
      using r(1) r'(1) by auto
    from add_alias_same(2) [OF h z(1,2)] show ?thesis unfolding z(3,4) by (rule map_sum_same)
  next
    case (UnaliasConcept a)
    then obtain u u' where z: "remove_concept_alias U c a = Some u" "remove_concept_alias U d a = Some u'"
      "r = (case u of Some (_, c') \<Rightarrow> Inr c' | None \<Rightarrow> Inl (NotConceptAlias a, False))" "r' = (case u' of Some (_, c') \<Rightarrow> Inr c' | None \<Rightarrow> Inl (NotConceptAlias a, False))"
      using r(1) r'(1) by auto
    show ?thesis unfolding z(3,4) by (rule opt_same [OF remove_alias_same(1) [OF h z(1,2)]]) (use h in blast)
  next
    case (UnaliasLabel a)
    then obtain u u' where z: "remove_label_alias U c a = Some u" "remove_label_alias U d a = Some u'"
      "r = (case u of Some (_, c') \<Rightarrow> Inr c' | None \<Rightarrow> Inl (NotLabelAlias a, False))" "r' = (case u' of Some (_, c') \<Rightarrow> Inr c' | None \<Rightarrow> Inl (NotLabelAlias a, False))"
      using r(1) r'(1) by auto
    show ?thesis unfolding z(3,4) by (rule opt_same [OF remove_alias_same(2) [OF h z(1,2)]]) (use h in blast)
  next
    case (RetractSourceOp s)
    then obtain u u' where z: "retract_source c s = Some u" "retract_source d s = Some u'"
      "r = (case u of Some (_, c') \<Rightarrow> Inr c' | None \<Rightarrow> Inr c)" "r' = (case u' of Some (_, c') \<Rightarrow> Inr c' | None \<Rightarrow> Inr d)"
      using r(1) r'(1) by auto
    show ?thesis unfolding z(3,4) by (rule opt_same [OF retract_source_same [OF inv h z(1,2)]]) (use h in blast)
  next
    case (RetractAssociationOp x y z)
    then obtain u u' where z: "retract_association c x y z = Some u" "retract_association d x y z = Some u'"
      "r = (case u of Some (_, c') \<Rightarrow> Inr c' | None \<Rightarrow> Inr c)" "r' = (case u' of Some (_, c') \<Rightarrow> Inr c' | None \<Rightarrow> Inr d)"
      using r(1) r'(1) by auto
    show ?thesis unfolding z(3,4) by (rule opt_same [OF retract_association_same [OF h z(1,2)]]) (use h in blast)
  qed
  then show ?thesis using r r' by auto
qed

section \<open>The log reproduces the live writes\<close>

lemma apply_from_same:
  assumes "healthy U n c" "healthy U n d" "stored c = stored d" "n + length ops < 2 ^ 64" "list_all op_ok ops"
  shows "\<exists>r c' d'. apply_from U k c ops = Some (r, c') \<and> k \<le> applied_count r \<and> applied_count r \<le> k + length ops \<and>
     replay_ops U d (take (applied_count r - k) ops) losses = Some (d', losses) \<and>
     healthy U (n + length ops) c' \<and> healthy U (n + length ops) d' \<and> stored c' = stored d' \<and> (r = Inr (k + length ops) \<or> (\<exists>p. r = Inl p))"
  using assms
proof (induction ops arbitrary: n c d k)
  case Nil
  then show ?case by (simp add: applied_count_def)
next
  case (Cons op ops)
  have mono: "healthy U m c" if "n \<le> m" "healthy U n c" for m c using that by (auto simp: healthy_def counts_upto_def intro: order.trans)
  have sm: "Suc n < 2 ^ 64" "op_ok op" using Cons.prems(4,5) by simp_all
  from apply_op_same [OF Cons.prems(1-3) sm] show ?case
  proof
    assume "\<exists>e. apply_op U c op = Some (Inl e) \<and> apply_op U d op = Some (Inl e)"
    then obtain e where "apply_op U c op = Some (Inl e)" by blast
    then show ?thesis using Cons.prems(1-3) mono [of "n + length (op # ops)"]
      by (cases e) (simp add: applied_count_def)
  next
    assume "\<exists>c' d'. apply_op U c op = Some (Inr c') \<and> apply_op U d op = Some (Inr d') \<and> healthy U (Suc n) c' \<and> healthy U (Suc n) d' \<and> stored c' = stored d'"
    then obtain c1 d1 where 1: "apply_op U c op = Some (Inr c1)" "apply_op U d op = Some (Inr d1)" "healthy U (Suc n) c1" "healthy U (Suc n) d1" "stored c1 = stored d1" by blast
    obtain r c' d' where IH: "apply_from U (k + 1) c1 ops = Some (r, c')" "k + 1 \<le> applied_count r" "applied_count r \<le> k + 1 + length ops"
      "replay_ops U d1 (take (applied_count r - (k + 1)) ops) losses = Some (d', losses)"
      "healthy U (Suc n + length ops) c'" "healthy U (Suc n + length ops) d'" "stored c' = stored d'" "r = Inr (k + 1 + length ops) \<or> (\<exists>p. r = Inl p)"
      using Cons.IH [OF 1(3-5), of "k + 1"] Cons.prems(4,5) by auto
    have "take (applied_count r - k) (op # ops) = op # take (applied_count r - (k + 1)) ops"
    proof -
      have "applied_count r - k = Suc (applied_count r - (k + 1))" using IH(2) by simp
      then show ?thesis by simp
    qed
    then show ?thesis using IH 1 by (simp add: replay_op_def tally_capacity_loss_def)
  qed
qed

section \<open>Properties\<close>

text \<open>
  C9. Replay means what the live write meant. Run a batch on a context, and replay the prefix that was
  applied on any other context that stores the same tables (the two may differ in their entry
  indexes, per-source edge lists, fuzzy floor and watermark): neither panics, nothing is lost to
  capacity, and the results again store the same tables, so they hold the same facts and names.
\<close>
theorem replay_reproduces_batch:
  assumes "healthy U n c" "healthy U n d" "stored c = stored d" "n + length ops < 2 ^ 64" "list_all op_ok ops"
  shows "\<exists>r c' d'. apply_in_order U c ops = Some (r, c') \<and> applied_count r \<le> length ops \<and>
     replay_ops U d (take (applied_count r) ops) 0 = Some (d', 0) \<and>
     healthy U (n + length ops) c' \<and> healthy U (n + length ops) d' \<and> stored c' = stored d' \<and> kb_of d' = kb_of c'"
proof -
  obtain r c' d' where "apply_from U 0 c ops = Some (r, c')" "applied_count r \<le> 0 + length ops"
    "replay_ops U d (take (applied_count r - 0) ops) 0 = Some (d', 0)"
    "healthy U (n + length ops) c'" "healthy U (n + length ops) d'" "stored c' = stored d'"
    using apply_from_same [OF assms, of 0 0] by blast
  then show ?thesis using stored_kb [of c' d'] by (auto simp: apply_in_order_def)
qed

definition demo_op :: wal_op where
  "demo_op = Associate \<lparr>ao_subject = bytes ''tea'', ao_label = bytes ''is'', ao_object = bytes ''hot'', ao_weight = f64_one,
     ao_source = Some (bytes ''doc''), ao_paragraph = Some 3\<rparr>"

lemma demo_op_ok: "op_ok demo_op"
  by (simp add: demo_op_def bytes_def utf8_valid_ascii opt_valid_def)

lemma demo_healthy: "healthy unicode_id 1 demo_ctx" "healthy unicode_id 0 ctx_default"
  using reach_inv [OF demo_reach] reach_inv [OF ctx_reach.Empty, of unicode_id] by (simp_all add: healthy_def)

theorem replay_reproduces_batch_witness:
  "\<exists>r c' d'. apply_in_order unicode_id demo_ctx [demo_op, UnaliasConcept (bytes ''cha'')] = Some (r, c') \<and>
     applied_count r \<le> length [demo_op, UnaliasConcept (bytes ''cha'')] \<and>
     replay_ops unicode_id (demo_ctx\<lparr>source_edges := source_edges demo_ctx, dice_floor := None\<rparr>) (take (applied_count r) [demo_op, UnaliasConcept (bytes ''cha'')]) 0 = Some (d', 0) \<and>
     healthy unicode_id (1 + length [demo_op, UnaliasConcept (bytes ''cha'')]) c' \<and> healthy unicode_id (1 + length [demo_op, UnaliasConcept (bytes ''cha'')]) d' \<and>
     stored c' = stored d' \<and> kb_of d' = kb_of c'"
  by (rule replay_reproduces_batch [OF demo_healthy(1)])
    (use demo_healthy(1) settings_keep(2) [of unicode_id demo_ctx 0 None] demo_op_ok in \<open>simp_all add: healthy_def set_dice_floor_def\<close>)

end
