(* ===== verification/Widths.thy ===== *)
theory Widths
  imports Wal_Replay
begin

text \<open>
  The fields of an attribution record stay within their widths, 32 bits for the two identifiers and 64
  for the counter, under every operation: what writing an image relies on for the records that are no
  longer linked from any edge.
\<close>

section \<open>Attribution records\<close>

definition att_fit :: "ctx \<Rightarrow> bool" where
  "att_fit c \<longleftrightarrow> list_all attribution_fits (attributions c)"

lemma att_fit_eq: "attributions c' = attributions c \<Longrightarrow> att_fit c' = att_fit c"
  by (simp add: att_fit_def)

lemma interns_keep_attributions:
  "intern_concept U c name = Some (i, c') \<Longrightarrow> attributions c' = attributions c \<and> source_ids c' = source_ids c \<and> sources c' = sources c"
  "intern_label U c name = Some (i, c') \<Longrightarrow> attributions c' = attributions c \<and> source_ids c' = source_ids c \<and> sources c' = sources c"
  "intern_source_opt c so = Some (k, c') \<Longrightarrow> attributions c' = attributions c"
  "edge_stage c s l ob w = Some (e, c') \<Longrightarrow> attributions c' = attributions c"
  by (auto simp: intern_concept_def intern_label_def intern_source_opt_def intern_source_def edge_stage_def push_edge_def fold_edge_def Let_def
      bind_eq_Some_conv split: option.splits)

lemma source_id_small:
  assumes "names_inv c" "bounds_inv c" "source_ids d = source_ids c" "sources d = sources c" "intern_source_opt d so = Some (Some k, c')"
  shows "k < 2 ^ 32"
proof -
  have claim: "claim_id len = Some k \<Longrightarrow> k < 2 ^ 32" for len by (auto simp: claim_id_def u32_max_def split: if_splits)
  have old: "k < 2 ^ 32" if "source_ids c name = Some k" for name
  proof -
    have "k < length (sources c)" using that ns_ok_id_bound [OF assms(1) [unfolded names_inv_def, THEN conjunct2, THEN conjunct2]] by simp
    then show ?thesis using assms(2) by (simp add: bounds_inv_def NIL_def u32_max_def)
  qed
  show ?thesis using assms(3-5) claim old
    by (auto simp: intern_source_opt_def intern_source_def bind_eq_Some_conv split: option.splits)
qed

lemma list_all_upd: "list_all P xs \<Longrightarrow> P x \<Longrightarrow> list_all P (xs[i := x])"
  by (cases "i < length xs") (auto simp: list_all_iff dest!: set_update_subset_insert [THEN subsetD])

lemma update_fits: "list_all P xs \<Longrightarrow> update_opt xs i f = Some ys \<Longrightarrow> (\<And>x. P x \<Longrightarrow> P (f x)) \<Longrightarrow> list_all P ys"
  by (auto simp: update_opt_def list_all_length nth_list_update split: if_splits)

lemma nth_fits: "list_all P xs \<Longrightarrow> nth_opt xs i = Some x \<Longrightarrow> P x"
  by (auto simp: nth_opt_eq_Some list_all_length)

lemma attribute_fits:
  assumes fit: "att_fit c" and k: "k < 2 ^ 32" and run: "attribute c e k w p = Some c'" shows "att_fit c'"
proof (cases "attribution_ids c (e, k)")
  case (Some a)
  then obtain r where r: "nth_opt (attributions c) a = Some r"
    "c' = c\<lparr>attributions := (attributions c)[a := r\<lparr>at_sum := accumulate_saturating (at_sum r) w, at_count := u64_add (at_count r) 1\<rparr>]\<rparr>"
    using run by (auto simp: attribute_def bind_eq_Some_conv)
  have "attribution_fits r" by (rule nth_fits [OF fit [unfolded att_fit_def] r(1)])
  then have "attribution_fits (r\<lparr>at_sum := accumulate_saturating (at_sum r) w, at_count := u64_add (at_count r) 1\<rparr>)"
    by (simp add: attribution_fits_def u64_add_def)
  then show ?thesis using fit by (simp add: r(2) att_fit_def list_all_upd)
next
  case None
  let ?r = "\<lparr>at_source = k, at_next = NIL, at_count = 1, at_sum = w\<rparr>"
  obtain i and er :: edge_record and ats where i: "claim_id (length (attributions c)) = Some i"
    "(if ed_last_attribution er \<noteq> NIL then update_opt (attributions c @ [?r]) (ed_last_attribution er) (\<lambda>r. r\<lparr>at_next := i\<rparr>) else Some (attributions c @ [?r])) = Some ats"
    "attributions c' = ats"
  proof -
    have "push_attribution c e k 1 w p = Some c'" using run None by (simp add: attribute_def)
    then show thesis unfolding push_attribution_def Let_def bind_eq_Some_conv by clarify (rule that, assumption+, simp)
  qed
  have i32: "i < 2 ^ 32" using i(1) by (auto simp: claim_id_def u32_max_def split: if_splits)
  have all: "list_all attribution_fits (attributions c @ [?r])"
    using fit k by (simp add: att_fit_def attribution_fits_def NIL_def u32_max_def)
  have "list_all attribution_fits ats"
    using i(2) all update_fits [OF all, of "ed_last_attribution er" "\<lambda>r. r\<lparr>at_next := i\<rparr>" ats] i32 by (auto simp: attribution_fits_def split: if_splits)
  then show ?thesis by (simp add: att_fit_def i(3))
qed

lemma upsert_fits:
  assumes inv: "ctx_inv U c" and fit: "att_fit c" and run: "upsert U c s l ob w source p = Some (Inr c')" shows "att_fit c'"
proof -
  obtain i c1 j c2 k c3 so c4 e c5 where C: "intern_concept U c s = Some (i, c1)" "intern_concept U c1 ob = Some (j, c2)"
    "intern_label U c2 l = Some (k, c3)" "intern_source_opt c3 source = Some (so, c4)" "edge_stage c4 i k j w = Some (e, c5)"
    "(case so of None \<Rightarrow> Some c5 | Some sid \<Rightarrow> attribute c5 e sid w p) = Some c'" by (rule upsert_run [OF run])
  have k: "attributions c3 = attributions c" "source_ids c3 = source_ids c" "sources c3 = sources c"
    using interns_keep_attributions(1) [OF C(1)] interns_keep_attributions(1) [OF C(2)] interns_keep_attributions(2) [OF C(3)] by simp_all
  have "att_fit c5" using fit k(1) interns_keep_attributions(3) [OF C(4)] interns_keep_attributions(4) [OF C(5)] by (simp add: att_fit_def)
  moreover have "sid < 2 ^ 32" if "so = Some sid" for sid
    using source_id_small [OF ctx_invD(1,2) [OF inv] k(2,3)] C(4) that by simp
  ultimately show ?thesis using C(6) attribute_fits by (cases so) auto
qed

lemma unlink_fits: "att_fit c \<Longrightarrow> unlink_attribution c e k f = Some c' \<Longrightarrow> att_fit c'"
proof -
  assume fit: "att_fit c" and run: "unlink_attribution c e k f = Some c'"
  obtain prev cur ws n r ats where r: "f = (prev, cur, ws, n)" "nth_opt (attributions c) cur = Some r"
    "(if prev \<noteq> NIL then update_opt (attributions c) prev (\<lambda>x. x\<lparr>at_next := at_next r\<rparr>) else Some (attributions c)) = Some ats" "attributions c' = ats"
  proof (cases f)
    case (fields prev cur ws n)
    then show thesis using run unfolding fields unlink_attribution_def Let_def bind_eq_Some_conv prod.case by clarify (rule that [OF fields], assumption+, simp)
  qed
  have "attribution_fits r" by (rule nth_fits [OF fit [unfolded att_fit_def] r(2)])
  then show "att_fit c'" using fit r(3,4) update_fits [of attribution_fits "attributions c" prev "\<lambda>x. x\<lparr>at_next := at_next r\<rparr>" ats]
    by (auto simp: att_fit_def attribution_fits_def split: if_splits)
qed

lemma retract_edges_fits: "att_fit c \<Longrightarrow> retract_edges c k es n = Some (m, c') \<Longrightarrow> att_fit c'"
proof (induction es arbitrary: c n)
  case (Cons e es)
  obtain x found where x: "nth_opt (edges c) e = Some x"
    "find_attribution (length (attributions c)) (attributions c) k NIL (ed_first_attribution x) = Some found"
    using Cons.prems(2) by (auto simp: bind_eq_Some_conv)
  show ?case
  proof (cases found)
    case None
    then show ?thesis using Cons.IH [OF Cons.prems(1)] Cons.prems(2) x by simp
  next
    case (Some hit)
    then obtain c1 where "unlink_attribution c e k hit = Some c1" "retract_edges c1 k es (n + 1) = Some (m, c')"
      using Cons.prems(2) x by (auto simp: bind_eq_Some_conv)
    then show ?thesis using Cons.IH unlink_fits Cons.prems(1) by blast
  qed
qed simp

lemma unlink_chain_attributions: "unlink_chain fuel c e cur n = Some (m, c') \<Longrightarrow> attributions c' = attributions c"
proof (induction fuel arbitrary: c cur n)
  case 0
  then show ?case by (simp add: unlink_chain.simps [of 0] split: if_splits)
next
  case (Suc fuel)
  then show ?case by (auto simp: unlink_chain.simps [of "Suc fuel"] bind_eq_Some_conv split: if_splits)
qed

lemma alias_attributions:
  "add_concept_alias U c a b = Some (Inr c') \<Longrightarrow> attributions c' = attributions c"
  "add_label_alias U c a b = Some (Inr c') \<Longrightarrow> attributions c' = attributions c"
  "remove_concept_alias U c a = Some (Some (n, c')) \<Longrightarrow> attributions c' = attributions c"
  "remove_label_alias U c a = Some (Some (n, c')) \<Longrightarrow> attributions c' = attributions c"
  by (auto simp: add_concept_alias_def add_label_alias_def add_alias_def concept_ns_def label_ns_def put_concept_ns_def put_label_ns_def
      remove_concept_alias_def remove_label_alias_def rebuild_concept_index_def rebuild_label_index_def Let_def bind_eq_Some_conv split: option.splits if_splits)

lemma apply_op_fits:
  assumes inv: "ctx_inv U c" and fit: "att_fit c" and run: "apply_op U c op = Some (Inr c')" shows "att_fit c'"
proof (cases op)
  case (Associate a)
  then show ?thesis using run upsert_fits [OF inv fit] unfolding Associate apply_upsert by (auto simp: map_sum_id)
next
  case (RetractSourceOp s)
  have k: "att_fit (d\<lparr>dead_attributions := x\<rparr>) = att_fit d" "att_fit (d\<lparr>source_edges := y\<rparr>) = att_fit d" for d x y by (simp_all add: att_fit_def)
  show ?thesis
  proof (cases "source_ids c s")
    case None
    then show ?thesis using run fit unfolding RetractSourceOp by (simp add: retract_source_def)
  next
    case (Some i)
    then obtain m d where "retract_edges (c\<lparr>source_edges := (source_edges c)(i := None)\<rparr>) i (sort (case source_edges c i of None \<Rightarrow> [] | Some es \<Rightarrow> es)) 0 = Some (m, d)"
      "c' = d\<lparr>dead_attributions := u64_add (dead_attributions d) m\<rparr>"
      using run unfolding RetractSourceOp by (auto simp: retract_source_def Let_def bind_eq_Some_conv)
    then show ?thesis using retract_edges_fits fit k by metis
  qed
next
  case (RetractAssociationOp x y z)
  show ?thesis
  proof (cases "retract_association c x y z")
    case (Some r)
    show ?thesis
    proof (cases r)
      case None
      then show ?thesis using run fit Some unfolding RetractAssociationOp by simp
    next
      case (Some u)
      then obtain fuel e cur m d es de da n where "unlink_chain fuel c e cur 0 = Some (m, d)"
        "u = (n, d\<lparr>edges := es, dead_edges := de, dead_attributions := da\<rparr>)"
        using \<open>retract_association c x y z = Some r\<close>
        by (auto simp: retract_association_def bind_eq_Some_conv split: option.splits if_splits)
      moreover from this(1) have "attributions d = attributions c" by (rule unlink_chain_attributions)
      ultimately show ?thesis using run fit Some \<open>retract_association c x y z = Some r\<close> unfolding RetractAssociationOp
        by (auto simp: att_fit_def)
    qed
  qed (use run in \<open>simp add: RetractAssociationOp\<close>)
qed (use run fit alias_attributions in \<open>auto simp: map_sum_id att_fit_def split: option.splits prod.splits\<close>)

section \<open>Reading an image back\<close>

lemma reload_image:
  assumes "healthy U n c" "att_fit c"
  shows "\<exists>c'. from_bytes U (to_bytes c) = Some (Inr c') \<and> stored c' = stored c \<and> applied_seq c' = applied_seq c \<and> healthy U n c'"
proof -
  have inv: "ctx_inv U c" "counts_upto n (kb_of c)" using assms(1) by (simp_all add: healthy_def)
  obtain ci li se where r: "rebuild_indexes U (tables_of c) = Some (Inr (reloaded c ci li se))" "reindexes U c ci li se"
    using rebuild_indexes_inv [OF inv(1)] by blast
  have "from_bytes U (to_bytes c) = Some (Inr (reloaded c ci li se))"
    using from_bytes_to_bytes [OF inv(1)] assms(2) r(1) by (simp add: att_fit_def list_all_iff)
  moreover have "healthy U n (reloaded c ci li se)"
    using reloaded_inv [OF inv(1) r(2)] reloaded_same(1) [of c ci li se] inv(2) by (simp add: healthy_def)
  ultimately show ?thesis by (auto simp: reloaded_def)
qed

lemma demo_apply: "apply_op unicode_id ctx_default demo_op = Some (Inr demo_ctx)"
proof -
  obtain c where c: "upsert unicode_id ctx_default (bytes ''tea'') (bytes ''is'') (bytes ''hot'') f64_one (Some (bytes ''doc'')) (Some 3) = Some (Inr c)"
    using upsert_spec [OF ctx_inv_default demo_args, of unicode_id] by blast
  then show ?thesis by (simp add: demo_op_def associate_from_def demo_ctx_def)
qed

end
