(* ===== verification/Changes.thy ===== *)
theory Changes
  imports Wal_Replay
begin

text \<open>
  The change feed of \<^verbatim>\<open>src/registry/changes.rs\<close>: a ring of the last 1024 events of a context, numbered
  from one, with cursors that name the ring and a position. The events a batch of logged operations
  means are here too. Reading is shown to serve exactly the events after the cursor, or to say that
  it cannot.
\<close>

section \<open>Events\<close>

definition CHANGE_RING_CAP :: nat where "CHANGE_RING_CAP = 1024"

datatype change_kind =
    AssociationsAdded nat
  | AssociationRetracted rstr rstr rstr
  | AliasesAdded nat
  | AliasesRemoved nat
  | SourceStored rstr
  | SourceRetracted rstr
  | SchemaUpdated rstr

record change_event =
  ev_seq :: nat
  ev_kind :: change_kind

datatype changes_outcome = Page "change_event list" rstr bool | Stale

record change_ring =
  ring_epoch :: nat
  ring_next_seq :: nat
  ring_events :: "change_event list"

text \<open>The seed is the clock's at the first call, the counter the process's.\<close>

definition next_epoch :: "nat \<Rightarrow> nat \<Rightarrow> nat \<times> nat" where
  "next_epoch seed counter = (u64_add seed counter, u64_add counter 1)"

definition ring_default :: "nat \<Rightarrow> change_ring" where
  "ring_default epoch = \<lparr>ring_epoch = epoch, ring_next_seq = 1, ring_events = []\<rparr>"

definition ring_push :: "change_ring \<Rightarrow> change_kind \<Rightarrow> change_ring" where
  "ring_push r kind =
     (let events = (if length (ring_events r) = CHANGE_RING_CAP then drop 1 (ring_events r) else ring_events r); seq = ring_next_seq r
      in r\<lparr>ring_next_seq := u64_add seq 1, ring_events := events @ [\<lparr>ev_seq = seq, ev_kind = kind\<rparr>]\<rparr>)"

definition ring_extend :: "change_ring \<Rightarrow> change_kind list \<Rightarrow> change_ring" where
  "ring_extend r kinds = foldl ring_push r kinds"

section \<open>Cursors\<close>

definition DASH :: u8 where "DASH = 45"

definition format_cursor :: "nat \<Rightarrow> nat \<Rightarrow> rstr" where
  "format_cursor epoch seq = bytes ''cf1-'' @ hex16 epoch @ [DASH] @ dec_of seq"

definition strip_prefix :: "rstr \<Rightarrow> rstr \<Rightarrow> rstr option" where
  "strip_prefix p s = (if take (length p) s = p then Some (drop (length p) s) else None)"

definition split_once :: "u8 \<Rightarrow> rstr \<Rightarrow> (rstr \<times> rstr) option" where
  "split_once b s = (if b \<in> set s then Some (takeWhile (\<lambda>x. x \<noteq> b) s, drop 1 (dropWhile (\<lambda>x. x \<noteq> b) s)) else None)"

definition parse_cursor :: "rstr \<Rightarrow> (nat \<times> nat) option" where
  "parse_cursor cursor = do {
     rest \<leftarrow> strip_prefix (bytes ''cf1-'') cursor;
     (epoch, seq) \<leftarrow> split_once DASH rest;
     e \<leftarrow> u64_from_str_radix 16 epoch;
     s \<leftarrow> u64_from_str_radix 10 seq;
     Some (e, s) }"

definition ring_cursor :: "change_ring \<Rightarrow> nat \<Rightarrow> rstr" where
  "ring_cursor r seq = format_cursor (ring_epoch r) seq"

section \<open>Reading\<close>

text \<open>\<open>next_seq - 1\<close> in \<open>u64\<close>, which wraps at zero.\<close>

definition ring_latest :: "change_ring \<Rightarrow> nat" where
  "ring_latest r = u64_add (ring_next_seq r) (2 ^ 64 - 1)"

definition read_after :: "change_ring \<Rightarrow> nat \<Rightarrow> nat \<Rightarrow> changes_outcome" where
  "read_after r last_seen limit =
     (if ring_latest r < last_seen then Stale
      else if (case ring_events r of [] \<Rightarrow> False | front # _ \<Rightarrow> u64_add last_seen 1 < ev_seq front) then Stale
      else
        let events = take limit (filter (\<lambda>e. last_seen < ev_seq e) (ring_events r));
            served_to = (if events = [] then last_seen else ev_seq (last events))
        in Page events (ring_cursor r served_to) (served_to < ring_latest r))"

definition ring_read :: "change_ring \<Rightarrow> rstr option \<Rightarrow> nat \<Rightarrow> changes_outcome" where
  "ring_read r since limit =
     (case since of
        None \<Rightarrow> Page [] (ring_cursor r (ring_latest r)) False
      | Some cursor \<Rightarrow>
          (case parse_cursor cursor of
             Some (epoch, seq) \<Rightarrow> if epoch = ring_epoch r then read_after r seq limit else Stale
           | None \<Rightarrow> Stale))"

section \<open>The events of a batch\<close>

fun tally_op :: "nat \<times> nat \<times> nat \<times> change_kind list \<Rightarrow> wal_op \<Rightarrow> nat \<times> nat \<times> nat \<times> change_kind list" where
  "tally_op (a, g, d, ind) (Associate _) = (a + 1, g, d, ind)"
| "tally_op (a, g, d, ind) (AliasConcept _ _) = (a, g + 1, d, ind)"
| "tally_op (a, g, d, ind) (AliasLabel _ _) = (a, g + 1, d, ind)"
| "tally_op (a, g, d, ind) (UnaliasConcept _) = (a, g, d + 1, ind)"
| "tally_op (a, g, d, ind) (UnaliasLabel _) = (a, g, d + 1, ind)"
| "tally_op (a, g, d, ind) (RetractSourceOp source) = (a, g, d, ind @ [SourceRetracted source])"
| "tally_op (a, g, d, ind) (RetractAssociationOp s l ob) = (a, g, d, ind @ [AssociationRetracted s l ob])"

definition events_of_ops :: "wal_op list \<Rightarrow> change_kind list" where
  "events_of_ops ops =
     (let (associations, aliases_added, aliases_removed, individual) = foldl tally_op (0, 0, 0, []) ops
      in (if 0 < associations then [AssociationsAdded associations] else []) @
         (if 0 < aliases_added then [AliasesAdded aliases_added] else []) @
         (if 0 < aliases_removed then [AliasesRemoved aliases_removed] else []) @ individual)"

section \<open>The feed as its whole history\<close>

text \<open>What the ring stands for: every event ever pushed, numbered from one, of which it keeps the last.\<close>

definition numbered :: "change_kind list \<Rightarrow> change_event list" where
  "numbered hist = map (\<lambda>(n, kind). \<lparr>ev_seq = n, ev_kind = kind\<rparr>) (zip [1..<Suc (length hist)] hist)"

definition ring_of :: "nat \<Rightarrow> change_kind list \<Rightarrow> change_ring" where
  "ring_of epoch hist = \<lparr>ring_epoch = epoch, ring_next_seq = length hist + 1,
     ring_events = drop (length hist - CHANGE_RING_CAP) (numbered hist)\<rparr>"

lemma length_numbered [simp]: "length (numbered hist) = length hist"
  by (cases hist) (simp_all add: numbered_def del: upt_Suc)

lemma nth_numbered: "i < length hist \<Longrightarrow> numbered hist ! i = \<lparr>ev_seq = Suc i, ev_kind = hist ! i\<rparr>"
  by (simp add: numbered_def del: upt_Suc)

lemma numbered_snoc: "numbered (hist @ [k]) = numbered hist @ [\<lparr>ev_seq = Suc (length hist), ev_kind = k\<rparr>]"
  by (rule nth_equalityI) (auto simp: nth_append nth_numbered less_Suc_eq)

lemma ring_push_of:
  assumes "length hist + 2 < 2 ^ 64" shows "ring_push (ring_of epoch hist) k = ring_of epoch (hist @ [k])"
proof -
  have u: "u64_add (Suc (length hist)) (Suc 0) = Suc (Suc (length hist))" using assms by (simp add: u64_add_def)
  consider "length hist < CHANGE_RING_CAP" | m where "length hist = CHANGE_RING_CAP + m" by (metis le_add_diff_inverse not_less)
  then show ?thesis
    by cases (use u in \<open>simp_all add: ring_push_def ring_of_def numbered_snoc Suc_diff_le CHANGE_RING_CAP_def Let_def\<close>)
qed

lemma ring_extend_of:
  "length hist + length ks + 1 < 2 ^ 64 \<Longrightarrow> ring_extend (ring_of epoch hist) ks = ring_of epoch (hist @ ks)"
  unfolding ring_extend_def
  by (induction ks arbitrary: hist) (simp_all add: ring_push_of)

lemma ring_default_of: "ring_default epoch = ring_of epoch []"
  by (simp add: ring_default_def ring_of_def numbered_def)

section \<open>Cursors name their position\<close>

lemma parse_format:
  assumes "epoch < 2 ^ 64" "seq < 2 ^ 64" shows "parse_cursor (format_cursor epoch seq) = Some (epoch, seq)"
proof -
  have no: "DASH \<notin> set (hex16 epoch)" using hex16_bytes [of DASH epoch] by (auto simp: DASH_def)
  have "\<forall>x \<in> set (hex16 epoch). x \<noteq> DASH" using no by blast
  then have "split_once DASH (hex16 epoch @ DASH # dec_of seq) = Some (hex16 epoch, dec_of seq)" by (simp add: split_once_def)
  moreover have "strip_prefix (bytes ''cf1-'') (format_cursor epoch seq) = Some (hex16 epoch @ DASH # dec_of seq)"
    by (simp add: strip_prefix_def format_cursor_def)
  ultimately show ?thesis using assms by (simp add: parse_cursor_def hex16_roundtrip dec_roundtrip)
qed

lemma filter_numbered: "filter (\<lambda>e. s < ev_seq e) (drop d (numbered hist)) = drop (max s d) (numbered hist)"
proof (induction hist rule: rev_induct)
  case (snoc k hist)
  then show ?case by (cases "d \<le> length hist"; cases "s \<le> length hist") (auto simp: numbered_snoc max_def not_le)
qed (simp add: numbered_def)

lemma read_history:
  assumes s: "s \<le> length hist" and n: "length hist + 1 < 2 ^ 64"
  shows "read_after (ring_of epoch hist) s limit =
    (if s + CHANGE_RING_CAP < length hist then Stale
     else Page (take limit (drop s (numbered hist))) (format_cursor epoch (min (length hist) (s + limit))) (s + limit < length hist))"
proof -
  let ?d = "length hist - CHANGE_RING_CAP"
  have l: "ring_latest (ring_of epoch hist) = length hist"
  proof -
    have "Suc (length hist) + (2 ^ 64 - 1) = length hist + 2 ^ 64" by simp
    then show ?thesis using n by (simp add: ring_latest_def ring_of_def u64_add_def)
  qed
  have front: "(case ring_events (ring_of epoch hist) of [] \<Rightarrow> False | front # _ \<Rightarrow> u64_add s 1 < ev_seq front) \<longleftrightarrow> s < ?d"
  proof (cases "?d < length hist")
    case True
    then have "ring_events (ring_of epoch hist) = \<lparr>ev_seq = Suc ?d, ev_kind = hist ! ?d\<rparr> # drop (Suc ?d) (numbered hist)"
      by (simp add: ring_of_def Cons_nth_drop_Suc [symmetric] nth_numbered)
    then show ?thesis using s n by (simp add: u64_add_def)
  next
    case False
    then have "length hist = 0" unfolding CHANGE_RING_CAP_def by linarith
    then show ?thesis by (simp add: ring_of_def numbered_def)
  qed
  have stale: "s < ?d \<longleftrightarrow> s + CHANGE_RING_CAP < length hist" by linarith
  have ev: "filter (\<lambda>e. s < ev_seq e) (ring_events (ring_of epoch hist)) = drop s (numbered hist)" if "\<not> s < ?d"
    using that by (simp add: ring_of_def filter_numbered max_def)
  let ?page = "take limit (drop s (numbered hist))"
  have "(if ?page = [] then s else ev_seq (last ?page)) = min (length hist) (s + limit)"
  proof (cases "?page = []")
    case True
    then show ?thesis using s by auto
  next
    case False
    then have ne: "0 < limit" "s < length hist" by auto
    then have "last ?page = numbered hist ! (s + (min (length hist - s) limit - 1))" using False by (simp add: last_conv_nth)
    then show ?thesis using ne False by (simp add: nth_numbered)
  qed
  then show ?thesis unfolding read_after_def l front stale [symmetric] using s ev by (auto simp: Let_def ring_cursor_def ring_of_def)
qed

lemma mod_sum_below: "a < m \<Longrightarrow> b < m \<Longrightarrow> (a + b) mod m = (if a + b < m then a + b else a + b - (m :: nat))"
  by (simp add: le_mod_geq)

section \<open>Properties\<close>

text \<open>
  C34. The change feed never skips and never repeats. After any history of pushes, from any cursor the
  ring has handed out, a read serves exactly the next events after the cursor's position, in order and
  with their numbers, up to the limit; the cursor it returns is the position served to, and the page
  says whether more remain. It answers stale exactly when some of them have left the ring.
\<close>
theorem changes_exact:
  assumes "epoch < 2 ^ 64" "length hist + 1 < 2 ^ 64" "s \<le> length hist"
  shows "ring_read (ring_extend (ring_default epoch) hist) (Some (format_cursor epoch s)) limit =
    (if s + CHANGE_RING_CAP < length hist then Stale
     else Page (take limit (drop s (numbered hist))) (format_cursor epoch (min (length hist) (s + limit))) (s + limit < length hist))"
proof -
  have "s < 2 ^ 64" using assms by linarith
  then have "parse_cursor (format_cursor epoch s) = Some (epoch, s)" using parse_format assms(1) by blast
  moreover have "ring_extend (ring_default epoch) hist = ring_of epoch hist" using assms(2) by (simp add: ring_default_of ring_extend_of)
  moreover have "ring_epoch (ring_of epoch hist) = epoch" by (simp add: ring_of_def)
  ultimately show ?thesis using read_history [OF assms(3,2), of epoch limit] by (simp add: ring_read_def)
qed

theorem changes_exact_witness:
  "ring_read (ring_extend (ring_default 7) [AliasesAdded 4, SourceStored [100], AliasesRemoved 3]) (Some (format_cursor 7 1)) 1 =
     Page [\<lparr>ev_seq = 2, ev_kind = SourceStored [100]\<rparr>] (format_cursor 7 2) True"
  using changes_exact [of 7 "[AliasesAdded 4, SourceStored [100], AliasesRemoved 3]" 1 1]
  by (simp add: CHANGE_RING_CAP_def numbered_def upt_rec [of _ 4] numeral_2_eq_2 [symmetric])

text \<open>
  A cursor is good on the ring that minted it only. The epochs of any two of the first \<open>2^64\<close>
  rings of a process differ, whatever the seed, so on one ring every cursor minted by the other is
  stale, however the two rings have been written to.
\<close>
theorem foreign_cursor_stale:
  assumes "i < 2 ^ 64" "j < 2 ^ 64" "i \<noteq> j" "seed < 2 ^ 64" "s < 2 ^ 64" "ring_epoch r = fst (next_epoch seed i)" "ring_epoch r' = fst (next_epoch seed j)"
  shows "ring_read r (Some (ring_cursor r' s)) limit = Stale"
proof -
  have "(seed + i) mod 2 ^ 64 \<noteq> (seed + j) mod 2 ^ 64"
  proof
    assume "(seed + i) mod 2 ^ 64 = (seed + j) mod 2 ^ 64"
    then show False using assms(1-4) by (simp add: mod_sum_below split: if_splits)
  qed
  then have "ring_epoch r \<noteq> ring_epoch r'" "ring_epoch r' < 2 ^ 64" using assms(6,7) by (simp_all add: next_epoch_def u64_add_def)
  then show ?thesis using parse_format [of "ring_epoch r'" s] assms(5) by (simp add: ring_read_def ring_cursor_def)
qed

theorem foreign_cursor_stale_witness:
  "ring_read (ring_default 6) (Some (ring_cursor (ring_default 5) 0)) 9 = Stale"
  by (rule foreign_cursor_stale [where i = 1 and j = 0 and seed = 5]) (simp_all add: ring_default_def next_epoch_def u64_add_def)

end
