(* ===== verification/Registry.thy ===== *)
theory Registry
  imports Changes
begin

text \<open>
  One context as the server keeps it (\<^verbatim>\<open>src/registry.rs\<close>, \<^verbatim>\<open>src/registry/engine.rs\<close>): a slot that
  is hot, cold or deleted, the counters of its log, its change feed, and its two files, the image and the
  write-ahead log. Loading, writing, flushing and evicting are the operations; what the disk and the
  clock answer is an argument of each. Passages, embeddings, the sidecar document and the cache budget
  are not part of the entry here.
\<close>

section \<open>Entries\<close>

datatype slot = Hot ctx | Cold | Deleted

datatype load_error =
    LoadDeleted
  | Quarantined load_error
  | HydrationFailed
  | SchemaRefused
  | ImageUnreadable io_kind
  | ImageCorrupt corrupt_image
  | ReplayFailed replay_error

datatype unpersisted = LogOverCap nat nat | AppendFailed wal_error

datatype access_error = AccessNotFound | LoadFailed load_error | Unpersisted unpersisted | DeadlineExceeded | QuotaExceeded nat nat

record entry =
  en_slot :: slot
  en_pinned :: bool
  en_dice_floor :: "f64 option"
  en_load_failure :: "load_error option"
  en_wal_seq :: nat
  en_wal_bytes :: nat
  en_graph_revision :: nat
  en_image_generation :: nat
  en_dirty :: bool
  en_flushing :: bool
  en_changes :: change_ring
  en_image :: "rstr option"
  en_wal :: "rstr option"

section \<open>Loading\<close>

record load_io =
  ld_quarantined :: bool
  ld_hydrated :: bool
  ld_schema :: bool
  ld_read :: "io_kind option"
  ld_replay :: replay_io
  ld_stat :: "io_kind option"

definition load_refused :: "load_error \<Rightarrow> entry \<Rightarrow> ((load_error + unit) \<times> entry) option" where
  "load_refused err e = Some (Inl err, e\<lparr>en_load_failure := Some err\<rparr>)"

text \<open>The image read and the log replayed on it, into a hot slot; nothing at all is a panic.\<close>

definition load_image :: "wal_op codec \<Rightarrow> unicode \<Rightarrow> load_io \<Rightarrow> entry \<Rightarrow> ((load_error + unit) \<times> entry) option" where
  "load_image C U io e =
     (case en_image e of None \<Rightarrow> load_refused (ImageUnreadable NotFound) e
      | Some img \<Rightarrow>
          (case ld_read io of Some k \<Rightarrow> load_refused (ImageUnreadable k) e
           | None \<Rightarrow> do {
               loaded \<leftarrow> from_bytes U img;
               case loaded of Inl err \<Rightarrow> load_refused (ImageCorrupt err) e
               | Inr c \<Rightarrow>
                   (case replay_wal_guarded C (ld_replay io) U (en_wal e) (applied_seq c) c of
                      (Inl err, wal) \<Rightarrow> load_refused (ReplayFailed err) (e\<lparr>en_wal := wal\<rparr>)
                    | (Inr (tops, c', losses), wal) \<Rightarrow>
                        Some (Inr (), e\<lparr>en_wal := wal, en_load_failure := None,
                          en_slot := Hot (set_dice_floor c' (en_dice_floor e)), en_wal_seq := u64_add tops 1,
                          en_graph_revision := max (en_graph_revision e) tops,
                          en_wal_bytes := (if ld_stat io = None then case wal of None \<Rightarrow> 0 | Some bs \<Rightarrow> length bs else 0)\<rparr>)) }))"

definition ensure_hot :: "wal_op codec \<Rightarrow> unicode \<Rightarrow> load_io \<Rightarrow> entry \<Rightarrow> ((load_error + unit) \<times> entry) option" where
  "ensure_hot C U io e =
     (case en_slot e of
        Hot _ \<Rightarrow> Some (Inr (), e)
      | Deleted \<Rightarrow> Some (Inl LoadDeleted, e)
      | Cold \<Rightarrow>
          (case if ld_quarantined io then en_load_failure e else None of
             Some err \<Rightarrow> Some (Inl (Quarantined err), e)
           | None \<Rightarrow>
               if \<not> ld_hydrated io then load_refused HydrationFailed e
               else if \<not> ld_schema io then load_refused SchemaRefused e
               else load_image C U io e))"

section \<open>Flushing\<close>

text \<open>
  A failed sync of the directory leaves open which image a later start finds there: the renamed one, or
  the old one when the rename did not reach the disk.
\<close>

datatype publish_io = Published | MetaFails | RenameFails | DirSyncFails | DirSyncReverts

record flush_io =
  fl_staged :: bool
  fl_publish :: publish_io
  fl_reset_allowed :: bool
  fl_reset :: trunc_io

record staged_image =
  st_bytes :: rstr
  st_watermark :: nat
  st_generation :: nat

definition truncate_wal :: "bool \<Rightarrow> trunc_io \<Rightarrow> entry \<Rightarrow> entry" where
  "truncate_wal allowed io e =
     (if \<not> allowed then e
      else case wal_reset io (en_wal e) of
          (Inr _, wal) \<Rightarrow> e\<lparr>en_wal := wal, en_wal_bytes := 0\<rparr>
        | (Inl _, wal) \<Rightarrow> e\<lparr>en_wal := wal\<rparr>)"

text \<open>The first half, under the lock: claim the flush and serialize.\<close>

definition flush_claim :: "entry \<Rightarrow> staged_image option \<times> entry" where
  "flush_claim e =
     (if \<not> en_dirty e then (None, e)
      else if en_flushing e then (None, e)
      else case en_slot e of
          Hot c \<Rightarrow>
            (let watermark = en_wal_seq e - 1; c' = set_applied_seq c watermark
             in (Some \<lparr>st_bytes = to_bytes c', st_watermark = watermark, st_generation = en_image_generation e\<rparr>,
                 e\<lparr>en_flushing := True, en_dirty := False, en_slot := Hot c'\<rparr>))
        | _ \<Rightarrow> (None, e\<lparr>en_dirty := False\<rparr>))"

definition flush_unstaged :: "entry \<Rightarrow> entry" where
  "flush_unstaged e = e\<lparr>en_dirty := True, en_flushing := False\<rparr>"

text \<open>The image a start over the directory finds after a publication attempt.\<close>

definition published_image :: "publish_io \<Rightarrow> rstr \<Rightarrow> rstr option \<Rightarrow> rstr option" where
  "published_image io img old = (case io of Published \<Rightarrow> Some img | DirSyncFails \<Rightarrow> Some img | _ \<Rightarrow> old)"

text \<open>The second half, under the lock again: publish what was staged, unless the entry has moved on.\<close>

definition flush_publish :: "flush_io \<Rightarrow> staged_image \<Rightarrow> entry \<Rightarrow> bool \<times> entry" where
  "flush_publish io st e =
     (case en_slot e of
        Hot c \<Rightarrow>
          (if en_image_generation e \<noteq> st_generation st then (False, e\<lparr>en_flushing := False\<rparr>)
           else
             let e1 = e\<lparr>en_image := published_image (fl_publish io) (st_bytes st) (en_image e)\<rparr>
             in if fl_publish io = Published
                then (True, (if en_wal_seq e - 1 = st_watermark st then truncate_wal (fl_reset_allowed io) (fl_reset io) e1 else e1)\<lparr>en_flushing := False\<rparr>)
                else (False, e1\<lparr>en_dirty := True, en_flushing := False\<rparr>))
      | _ \<Rightarrow> (False, e\<lparr>en_flushing := False\<rparr>))"

definition flush_entry :: "flush_io \<Rightarrow> entry \<Rightarrow> bool \<times> entry" where
  "flush_entry io e =
     (case flush_claim e of
        (None, e1) \<Rightarrow> (False, e1)
      | (Some st, e1) \<Rightarrow> if fl_staged io then flush_publish io st e1 else (False, flush_unstaged e1))"

section \<open>Eviction\<close>

record evict_io =
  ev_replica :: bool
  ev_flush :: flush_io
  ev_save :: publish_io
  ev_reset_allowed :: bool
  ev_reset :: trunc_io

definition cool :: "entry \<Rightarrow> entry" where
  "cool e = e\<lparr>en_slot := Cold, en_image_generation := u64_add (en_image_generation e) 1\<rparr>"

definition evict_entry :: "evict_io \<Rightarrow> entry \<Rightarrow> bool \<times> entry" where
  "evict_entry io e =
     (let e1 = (if ev_replica io then e else snd (flush_entry (ev_flush io) e))
      in if en_pinned e1 then (False, e1)
         else case en_slot e1 of
             Hot c \<Rightarrow>
               (if en_dirty e1 \<or> en_flushing e1 then
                  let c' = set_applied_seq c (en_wal_seq e1 - 1);
                      e2 = e1\<lparr>en_slot := Hot c', en_image := published_image (ev_save io) (to_bytes c') (en_image e1)\<rparr>
                  in if ev_save io \<noteq> Published then (False, e2)
                     else (True, cool (truncate_wal (ev_reset_allowed io) (ev_reset io) (e2\<lparr>en_dirty := False\<rparr>)))
                else (True, cool e1))
           | _ \<Rightarrow> (False, e1))"

section \<open>Writing\<close>

record disk_usage =
  du_image :: nat
  du_passages :: nat
  du_sidecar :: nat
  du_passages_wal :: nat

definition storage_quota_excess :: "nat option \<Rightarrow> disk_usage \<Rightarrow> entry \<Rightarrow> (nat \<times> nat) option" where
  "storage_quota_excess storage_bytes disk e =
     (case storage_bytes of None \<Rightarrow> None
      | Some ceiling \<Rightarrow>
          (let used = u64_add (u64_add (u64_add (u64_add (du_image disk) (du_passages disk)) (du_sidecar disk)) (en_wal_bytes e)) (du_passages_wal disk)
           in if ceiling \<le> used then Some (used, ceiling) else None))"

record write_config =
  wc_wal_enabled :: bool
  wc_wal_max_bytes :: nat
  wc_storage_bytes :: "nat option"
  wc_disk :: disk_usage

record write_io =
  wr_load :: load_io
  wr_append :: append_io
  wr_rollback :: trunc_io
  wr_truncate :: trunc_io
  wr_reappend :: append_io
  wr_flush :: flush_io

datatype 'r written = Returned "access_error + 'r" | Panicked

text \<open>
  Once the batch is staged, or with the log off: apply it, count and announce what landed, and take the
  records of what did not out of the log again. The flag says the log no longer matches memory.
\<close>

definition apply_write ::
    "wal_op codec \<Rightarrow> write_io \<Rightarrow> wal_op list \<Rightarrow> (ctx \<Rightarrow> ('r \<times> ctx) option) \<Rightarrow> ('r \<Rightarrow> nat) \<Rightarrow> nat \<Rightarrow> nat option \<Rightarrow> entry \<Rightarrow> 'r written \<times> bool \<times> entry" where
  "apply_write C io ops operate applied first_seq staged e =
     (case en_slot e of
        Hot c \<Rightarrow>
          (case operate c of
             None \<Rightarrow> (Panicked, False, e\<lparr>en_slot := Cold\<rparr>)
           | Some (r, c') \<Rightarrow>
               (let landed = min (applied r) (length ops);
                    e1 = e\<lparr>en_slot := Hot c', en_dirty := True, en_graph_revision := u64_add (en_graph_revision e) landed,
                           en_changes := ring_extend (en_changes e) (events_of_ops (take landed ops))\<rparr>
                in case if landed < length ops then staged else None of
                     None \<Rightarrow> (Returned (Inr r), False, e1)
                   | Some len_before \<Rightarrow>
                       (case truncate_to (wr_truncate io) (en_wal e1) len_before of
                          (Inl _, wal) \<Rightarrow> (Returned (Inr r), True, e1\<lparr>en_wal := wal\<rparr>)
                        | (Inr _, wal) \<Rightarrow>
                            (case append_batch C (wr_reappend io) wal first_seq (take landed ops) of
                               (Inr n, wal') \<Rightarrow> (Returned (Inr r), False, e1\<lparr>en_wal := wal', en_wal_bytes := u64_add len_before n, en_wal_seq := u64_add first_seq landed\<rparr>)
                             | (Inl _, wal') \<Rightarrow> (Returned (Inr r), True, e1\<lparr>en_wal := wal', en_wal_bytes := len_before, en_wal_seq := first_seq\<rparr>)))))
      | _ \<Rightarrow> (Panicked, False, e))"

text \<open>A refused append: the log is put back to the length it had.\<close>

definition append_refused :: "write_io \<Rightarrow> wal_error \<Rightarrow> nat \<Rightarrow> entry \<Rightarrow> 'r written \<times> bool \<times> entry" where
  "append_refused io err len_before e =
     (case truncate_to (wr_rollback io) (en_wal e) len_before of
        (Inr _, wal) \<Rightarrow> (Returned (Inl (Unpersisted (AppendFailed err))), False, e\<lparr>en_wal := wal\<rparr>)
      | (Inl (Io NotFound), wal) \<Rightarrow> (Returned (Inl (Unpersisted (AppendFailed err))), False, e\<lparr>en_wal := wal\<rparr>)
      | (Inl _, wal) \<Rightarrow> (Returned (Inl (Unpersisted (AppendFailed err))), True, e\<lparr>en_wal := wal, en_dirty := True\<rparr>))"

definition write_hot ::
    "wal_op codec \<Rightarrow> write_config \<Rightarrow> write_io \<Rightarrow> wal_op list \<Rightarrow> (ctx \<Rightarrow> ('r \<times> ctx) option) \<Rightarrow> ('r \<Rightarrow> nat) \<Rightarrow> entry \<Rightarrow> 'r written \<times> bool \<times> entry" where
  "write_hot C cfg io ops operate applied e =
     (case if list_ex grows ops then storage_quota_excess (wc_storage_bytes cfg) (wc_disk cfg) e else None of
        Some (used, ceiling) \<Rightarrow> (Returned (Inl (QuotaExceeded used ceiling)), False, e)
      | None \<Rightarrow>
          if \<not> wc_wal_enabled cfg then apply_write C io ops operate applied (en_wal_seq e) None e
          else if 0 < wc_wal_max_bytes cfg \<and> wc_wal_max_bytes cfg \<le> en_wal_bytes e
            then (Returned (Inl (Unpersisted (LogOverCap (en_wal_bytes e) (wc_wal_max_bytes cfg)))), False, e)
          else case append_batch C (wr_append io) (en_wal e) (en_wal_seq e) ops of
              (Inl err, wal) \<Rightarrow> append_refused io err (en_wal_bytes e) (e\<lparr>en_wal := wal\<rparr>)
            | (Inr n, wal) \<Rightarrow>
                apply_write C io ops operate applied (en_wal_seq e) (Some (en_wal_bytes e))
                  (e\<lparr>en_wal := wal, en_wal_bytes := u64_add (en_wal_bytes e) n, en_wal_seq := u64_add (en_wal_seq e) (length ops)\<rparr>))"

text \<open>The whole write; with the log behind memory, the image is flushed before it returns.\<close>

definition logged_write ::
    "wal_op codec \<Rightarrow> unicode \<Rightarrow> write_config \<Rightarrow> write_io \<Rightarrow> wal_op list \<Rightarrow> (ctx \<Rightarrow> ('r \<times> ctx) option) \<Rightarrow> ('r \<Rightarrow> nat) \<Rightarrow> entry \<Rightarrow> 'r written \<times> bool \<times> entry" where
  "logged_write C U cfg io ops operate applied e =
     (if en_slot e = Deleted then (Returned (Inl AccessNotFound), False, e)
      else case ensure_hot C U (wr_load io) e of
          None \<Rightarrow> (Panicked, False, e)
        | Some (Inl err, e1) \<Rightarrow> (Returned (Inl (LoadFailed err)), False, e1)
        | Some (Inr _, e1) \<Rightarrow>
            (case write_hot C cfg io ops operate applied e1 of
               (result, behind, e2) \<Rightarrow> (result, behind, if behind then snd (flush_entry (wr_flush io) e2) else e2)))"

section \<open>The callers\<close>

text \<open>
  The passage store, when it can be read, as the number of paragraphs of each stored source: a locator
  beyond them is dropped.
\<close>

definition clamp_paragraph :: "(rstr \<Rightarrow> nat option) \<Rightarrow> assoc_op \<Rightarrow> assoc_op" where
  "clamp_paragraph stored_paragraphs op =
     (case ao_paragraph op of None \<Rightarrow> op
      | Some paragraph \<Rightarrow>
          (case ao_source op of None \<Rightarrow> op
           | Some source \<Rightarrow>
               (case stored_paragraphs source of None \<Rightarrow> op
                | Some n \<Rightarrow> if n \<le> paragraph then op\<lparr>ao_paragraph := None\<rparr> else op)))"

definition clamp_out_of_range_paragraphs :: "(rstr \<Rightarrow> nat option) option \<Rightarrow> assoc_op list \<Rightarrow> assoc_op list" where
  "clamp_out_of_range_paragraphs passages ops =
     (if \<not> list_ex (\<lambda>op. ao_paragraph op \<noteq> None) ops then ops
      else case passages of None \<Rightarrow> ops | Some stored_paragraphs \<Rightarrow> map (clamp_paragraph stored_paragraphs) ops)"

definition add_associations ::
    "wal_op codec \<Rightarrow> unicode \<Rightarrow> write_config \<Rightarrow> write_io \<Rightarrow> bool \<Rightarrow> (rstr \<Rightarrow> nat option) option \<Rightarrow> assoc_op list \<Rightarrow> entry \<Rightarrow>
     (partial_write + nat) written \<times> bool \<times> entry" where
  "add_associations C U cfg io expired passages ops e =
     (if expired then (Returned (Inl DeadlineExceeded), False, e)
      else
        let wal_ops = map Associate (clamp_out_of_range_paragraphs passages ops)
        in logged_write C U cfg io wal_ops (\<lambda>c. apply_in_order U c wal_ops) applied_count e)"

definition add_aliases ::
    "wal_op codec \<Rightarrow> unicode \<Rightarrow> write_config \<Rightarrow> write_io \<Rightarrow> (rstr \<times> rstr) list \<Rightarrow> (rstr \<times> rstr) list \<Rightarrow> entry \<Rightarrow> (partial_write + nat) written \<times> bool \<times> entry" where
  "add_aliases C U cfg io cs ls e =
     (let wal_ops = map (\<lambda>(alias, canonical). AliasConcept alias canonical) cs @ map (\<lambda>(alias, canonical). AliasLabel alias canonical) ls
      in logged_write C U cfg io wal_ops (\<lambda>c. apply_in_order U c wal_ops) applied_count e)"

definition remove_aliases ::
    "wal_op codec \<Rightarrow> unicode \<Rightarrow> write_config \<Rightarrow> write_io \<Rightarrow> rstr list \<Rightarrow> rstr list \<Rightarrow> entry \<Rightarrow> (partial_write + nat) written \<times> bool \<times> entry" where
  "remove_aliases C U cfg io cs ls e =
     (let wal_ops = map UnaliasConcept cs @ map UnaliasLabel ls
      in logged_write C U cfg io wal_ops (\<lambda>c. apply_in_order U c wal_ops) applied_count e)"

text \<open>A retraction reports \<open>None\<close> when it named nothing live, and then counts as nothing applied.\<close>

definition retracting :: "(ctx \<Rightarrow> (nat \<times> ctx) option option) \<Rightarrow> ctx \<Rightarrow> (nat option \<times> ctx) option" where
  "retracting retract c = map_option (\<lambda>r. case r of None \<Rightarrow> (None, c) | Some (n, c') \<Rightarrow> (Some n, c')) (retract c)"

definition retract_single_op ::
    "wal_op codec \<Rightarrow> unicode \<Rightarrow> write_config \<Rightarrow> write_io \<Rightarrow> wal_op \<Rightarrow> (ctx \<Rightarrow> (nat option \<times> ctx) option) \<Rightarrow> entry \<Rightarrow> nat option written \<times> bool \<times> entry" where
  "retract_single_op C U cfg io op operate e = logged_write C U cfg io [op] operate (\<lambda>r. if r \<noteq> None then 1 else 0) e"

definition retract_logged_association ::
    "wal_op codec \<Rightarrow> unicode \<Rightarrow> write_config \<Rightarrow> write_io \<Rightarrow> rstr \<Rightarrow> rstr \<Rightarrow> rstr \<Rightarrow> entry \<Rightarrow> nat option written \<times> bool \<times> entry" where
  "retract_logged_association C U cfg io s l ob e =
     retract_single_op C U cfg io (RetractAssociationOp s l ob) (retracting (\<lambda>c. retract_association c s l ob)) e"

text \<open>The graph's half of withdrawing a source; the passage store's is not modelled.\<close>

definition retract_logged_source ::
    "wal_op codec \<Rightarrow> unicode \<Rightarrow> write_config \<Rightarrow> write_io \<Rightarrow> rstr \<Rightarrow> entry \<Rightarrow> nat option written \<times> bool \<times> entry" where
  "retract_logged_source C U cfg io source e =
     retract_single_op C U cfg io (RetractSourceOp source) (retracting (\<lambda>c. retract_source c source)) e"

text \<open>One page of the change feed; only the ring is touched.\<close>

definition context_changes :: "entry \<Rightarrow> rstr option \<Rightarrow> nat \<Rightarrow> access_error + changes_outcome" where
  "context_changes e since limit = (if en_slot e = Deleted then Inl AccessNotFound else Inr (ring_read (en_changes e) since limit))"

section \<open>Registering and deleting\<close>

text \<open>An entry over the files it finds; the epoch is its change feed's.\<close>

definition entry_new :: "slot \<Rightarrow> bool \<Rightarrow> f64 option \<Rightarrow> nat \<Rightarrow> nat \<Rightarrow> nat \<Rightarrow> rstr option \<Rightarrow> rstr option \<Rightarrow> entry" where
  "entry_new slot pin dfloor wal_bytes graph_revision epoch img wal =
     \<lparr>en_slot = slot, en_pinned = pin, en_dice_floor = dfloor, en_load_failure = None, en_wal_seq = 1, en_wal_bytes = wal_bytes,
      en_graph_revision = graph_revision, en_image_generation = 0, en_dirty = False, en_flushing = False,
      en_changes = ring_default epoch, en_image = img, en_wal = wal\<rparr>"

datatype create_error = InvalidName | CreateIo

text \<open>A new context under a fresh identifier: no files are there yet, and it is persisted before it is registered.\<close>

definition create_registered :: "publish_io \<Rightarrow> rstr \<Rightarrow> bool \<Rightarrow> f64 option \<Rightarrow> nat \<Rightarrow> create_error + entry" where
  "create_registered io name pin dfloor epoch =
     (if name = [] then Inl InvalidName
      else
        let c = set_dice_floor ctx_default dfloor
        in if io \<noteq> Published then Inl CreateIo else Inr (entry_new (Hot c) pin dfloor 0 0 epoch (Some (to_bytes c)) None))"

text \<open>A start of the server over the files of a context, with what the sidecar says of it.\<close>

definition cold_from_meta :: "bool \<Rightarrow> f64 option \<Rightarrow> nat \<Rightarrow> nat \<Rightarrow> nat \<Rightarrow> rstr option \<Rightarrow> rstr option \<Rightarrow> entry" where
  "cold_from_meta pin dfloor wal_bytes graph_revision epoch img wal = entry_new Cold pin dfloor wal_bytes graph_revision epoch img wal"

definition tombstone_locked :: "entry \<Rightarrow> entry" where
  "tombstone_locked e = e\<lparr>en_slot := Deleted, en_dirty := False\<rparr>"

section \<open>Property\<close>

text \<open>
  C36. A deleted context stays deleted. Once the tombstone is in the slot, whatever handle still reaches
  the entry, a flush with bytes already staged included, no load, write, flush or eviction creates,
  changes or removes either file, or brings the slot back; reads and writes answer that it is not there.
\<close>
theorem tombstone_final:
  "let e = (tombstone_locked e0)\<lparr>en_image := img, en_wal := wal\<rparr>
   in list_all (\<lambda>e'. en_slot e' = Deleted \<and> en_image e' = img \<and> en_wal e' = wal)
        [snd (flush_entry fio e), snd (flush_publish fio st e), snd (evict_entry vio e), snd (snd (logged_write C U cfg io ops operate applied e)), snd (the (ensure_hot C U lio e))] \<and>
      fst (logged_write C U cfg io ops operate applied e) = Returned (Inl AccessNotFound) \<and> context_changes e since limit = Inl AccessNotFound"
proof -
  define e where d: "e = (tombstone_locked e0)\<lparr>en_image := img, en_wal := wal\<rparr>"
  have e: "en_slot e = Deleted" "\<not> en_dirty e" "en_image e = img" "en_wal e = wal" by (simp_all add: d tombstone_locked_def)
  have flush: "flush_entry fio e = (False, e)" for fio using e(2) by (simp add: flush_entry_def flush_claim_def)
  have "flush_publish fio st e = (False, e\<lparr>en_flushing := False\<rparr>)" "evict_entry vio e = (False, e)"
    "logged_write C U cfg io ops operate applied e = (Returned (Inl AccessNotFound), False, e)" "ensure_hot C U lio e = Some (Inl LoadDeleted, e)"
    using e flush by (simp_all add: flush_publish_def evict_entry_def logged_write_def ensure_hot_def Let_def)
  then show ?thesis unfolding Let_def d [symmetric] using e flush by (simp add: context_changes_def)
qed

end
