(* ===== verification/Durability.thy ===== *)
theory Durability
  imports Widths Registry
begin

text \<open>
  Durability: whatever is acknowledged survives a crash. The image and the log of an entry, read back,
  give the context in memory; every write, flush, eviction, load and crash keeps that so.
\<close>

section \<open>Replay\<close>

lemma healthy_mono: "healthy U n c \<Longrightarrow> n \<le> m \<Longrightarrow> healthy U m c"
  by (auto simp: healthy_def counts_upto_def intro: order.trans)

lemma att_fit_stored: "stored c = stored d \<Longrightarrow> att_fit d = att_fit c"
  using stored_fields(6) [of c d] by (simp add: att_fit_def)

lemma replay_ops_append:
  "replay_ops U c (xs @ ys) l = Option.bind (replay_ops U c xs l) (\<lambda>(d, l'). replay_ops U d ys l')"
  by (induction xs arbitrary: c l) (auto split: Option.bind_split)

lemma replay_op_same:
  assumes "healthy U n c" "healthy U n d" "stored c = stored d" "att_fit c" "Suc n < 2 ^ 64" "op_ok op"
  shows "\<exists>lost c' d'. replay_op U c op = Some (lost, c') \<and> replay_op U d op = Some (lost, d') \<and> stored c' = stored d' \<and>
     healthy U (Suc n) c' \<and> healthy U (Suc n) d' \<and> att_fit c'"
proof -
  from apply_op_same [OF assms(1-3,5,6)] show ?thesis
  proof
    assume "\<exists>e. apply_op U c op = Some (Inl e) \<and> apply_op U d op = Some (Inl e)"
    then obtain m f where "apply_op U c op = Some (Inl (m, f))" "apply_op U d op = Some (Inl (m, f))" by auto
    then show ?thesis using assms healthy_mono [OF assms(1)] healthy_mono [OF assms(2)] by (simp add: replay_op_def)
  next
    assume "\<exists>c' d'. apply_op U c op = Some (Inr c') \<and> apply_op U d op = Some (Inr d') \<and> healthy U (Suc n) c' \<and> healthy U (Suc n) d' \<and> stored c' = stored d'"
    then obtain c' d' where "apply_op U c op = Some (Inr c')" "apply_op U d op = Some (Inr d')" "healthy U (Suc n) c'" "healthy U (Suc n) d'" "stored c' = stored d'" by blast
    moreover from this(1) have "att_fit c'" using apply_op_fits assms(1,4) by (auto simp: healthy_def)
    ultimately show ?thesis by (intro exI [of _ False] exI [of _ c'] exI [of _ d']) (simp add: replay_op_def)
  qed
qed

lemma replay_ops_same:
  assumes "healthy U n c" "healthy U n d" "stored c = stored d" "att_fit c" "n + length ops < 2 ^ 64" "list_all op_ok ops"
  shows "\<exists>c' d' l'. replay_ops U c ops l = Some (c', l') \<and> replay_ops U d ops l = Some (d', l') \<and> stored c' = stored d' \<and>
     healthy U (n + length ops) c' \<and> healthy U (n + length ops) d' \<and> att_fit c'"
  using assms
proof (induction ops arbitrary: n c d l)
  case (Cons op ops)
  obtain lost c1 d1 where 1: "replay_op U c op = Some (lost, c1)" "replay_op U d op = Some (lost, d1)" "stored c1 = stored d1"
    "healthy U (Suc n) c1" "healthy U (Suc n) d1" "att_fit c1"
    using replay_op_same [OF Cons.prems(1-4), of op] Cons.prems(5,6) by auto
  have "Suc n + length ops < 2 ^ 64" "list_all op_ok ops" using Cons.prems(5,6) by simp_all
  note IH = Cons.IH [OF 1(4,5,3,6) this, of "tally_capacity_loss l lost"]
  then show ?case using 1 by auto
qed simp

lemma replay_ops_returns:
  assumes "healthy U n c" "att_fit c" "n + length ops < 2 ^ 64" "list_all op_ok ops"
  shows "\<exists>c' l'. replay_ops U c ops l = Some (c', l') \<and> healthy U (n + length ops) c' \<and> att_fit c'"
  using replay_ops_same [OF assms(1) assms(1) refl assms(2-4), of l] by blast

lemma replay_ops_tally: "replay_ops U c ops a = Some (x, y) \<Longrightarrow> \<exists>z. replay_ops U c ops b = Some (x, z)"
proof (induction ops arbitrary: c a b)
  case (Cons op ops)
  obtain lost c1 where "replay_op U c op = Some (lost, c1)" "replay_ops U c1 ops (tally_capacity_loss a lost) = Some (x, y)"
    using Cons.prems by (auto simp: bind_eq_Some_conv)
  then show ?case using Cons.IH by simp
qed simp

section \<open>What the files hold\<close>

text \<open>The log holds these records, with operations the formatter leaves alone.\<close>

definition wal_text :: "rstr option \<Rightarrow> rstr" where
  "wal_text wal = (case wal of None \<Rightarrow> [] | Some bs \<Rightarrow> bs)"

definition log_holds :: "wal_op codec \<Rightarrow> (wal_op \<Rightarrow> wal_op) \<Rightarrow> (nat \<times> wal_op) list \<Rightarrow> rstr option \<Rightarrow> bool" where
  "log_holds C rt recs wal \<longleftrightarrow> log_ok op_ok recs \<and> log_bytes C recs = Some (wal_text wal) \<and> list_all (\<lambda>r. op_ok (snd r) \<and> rt (snd r) = snd r) recs"

text \<open>The image, of watermark \<open>w\<close>, with the records above the watermark replayed on it, is the context.\<close>

definition image_holds :: "unicode \<Rightarrow> nat \<Rightarrow> nat \<Rightarrow> (nat \<times> wal_op) list \<Rightarrow> rstr \<Rightarrow> ctx \<Rightarrow> bool" where
  "image_holds U n w recs bs c \<longleftrightarrow>
     (\<exists>img k d l. bs = to_bytes img \<and> applied_seq img = w \<and> healthy U k img \<and> att_fit img \<and>
        replay_ops U img (pending_ops id w recs) 0 = Some (d, l) \<and> stored d = stored c \<and> k + length (pending_ops id w recs) \<le> n)"

lemma image_holds_mono: "image_holds U n w recs bs c \<Longrightarrow> n \<le> m \<Longrightarrow> image_holds U m w recs bs c"
  unfolding image_holds_def by (metis order_trans)

lemma image_holds_stored: "image_holds U n w recs bs c \<Longrightarrow> stored c = stored d \<Longrightarrow> image_holds U n w recs bs d"
  unfolding image_holds_def by metis

lemma image_holds_fresh:
  assumes "healthy U n c" "att_fit c" "w < 2 ^ 64" "list_all (\<lambda>r. fst r \<le> w) recs"
  shows "image_holds U n w recs (to_bytes (set_applied_seq c w)) c"
proof -
  have "pending_ops id w recs = []" using assms(4) by (auto simp: pending_ops_def filter_empty_conv list_all_iff)
  moreover have "healthy U n (set_applied_seq c w)" using assms(1) settings_keep(1) [OF _ assms(3), of U c] by (auto simp: healthy_def)
  moreover have "att_fit (set_applied_seq c w)" "stored (set_applied_seq c w) = stored c" "applied_seq (set_applied_seq c w) = w"
    using assms(2) by (simp_all add: att_fit_def set_applied_seq_def)
  ultimately show ?thesis unfolding image_holds_def
    by - (rule exI [of _ "set_applied_seq c w"], rule exI [of _ n], simp)
qed

lemma image_holds_reset: "image_holds U n w recs bs c \<Longrightarrow> list_all (\<lambda>r. fst r \<le> w) recs \<Longrightarrow> image_holds U n w [] bs c"
proof -
  assume h: "image_holds U n w recs bs c" "list_all (\<lambda>r. fst r \<le> w) recs"
  have "pending_ops id w recs = []" "pending_ops id w [] = ([] :: wal_op list)" using h(2) by (auto simp: pending_ops_def filter_empty_conv list_all_iff)
  then show ?thesis using h(1) unfolding image_holds_def by simp
qed

definition batch_records :: "nat \<Rightarrow> wal_op list \<Rightarrow> (nat \<times> wal_op) list" where
  "batch_records first ops = zip [first..<first + length ops] ops"

lemma batch_records_pending: "w < first \<Longrightarrow> pending_ops id w (batch_records first ops) = ops"
proof -
  assume w: "w < first"
  have "\<forall>r \<in> set (batch_records first ops). w < fst r" using w by (auto simp: batch_records_def dest!: set_zip_leftD)
  then show ?thesis by (simp add: pending_ops_def batch_records_def filter_True)
qed

lemma list_all_pending: "list_all (\<lambda>r. op_ok (snd r) \<and> rt (snd r) = snd r) recs \<Longrightarrow> list_all op_ok (pending_ops id w recs)"
  by (auto simp: pending_ops_def list_all_iff)

lemma image_holds_extend:
  assumes img: "image_holds U n w recs bs c" and recs: "list_all (\<lambda>r. op_ok (snd r) \<and> rt (snd r) = snd r) recs"
    and c: "healthy U n c" "replay_ops U c ops 0 = Some (c', l)" and n: "n + length ops < 2 ^ 64" and ops: "list_all op_ok ops" and w: "w < first"
  shows "image_holds U (n + length ops) w (recs @ batch_records first ops) bs c'"
proof -
  obtain img k d l1 where i: "bs = to_bytes img" "applied_seq img = w" "healthy U k img" "att_fit img"
    "replay_ops U img (pending_ops id w recs) 0 = Some (d, l1)" "stored d = stored c" "k + length (pending_ops id w recs) \<le> n"
    using img unfolding image_holds_def by blast
  have "healthy U (k + length (pending_ops id w recs)) d \<and> att_fit d"
    using replay_ops_returns [OF i(3,4) _ list_all_pending [OF recs], of w 0] i(5,7) n by auto
  then have d: "healthy U n d" "att_fit d" using healthy_mono i(7) by blast+
  obtain d' c'' l' where r: "replay_ops U d ops l1 = Some (d', l')" "replay_ops U c ops l1 = Some (c'', l')" "stored d' = stored c''"
    using replay_ops_same [OF d(1) c(1) i(6) d(2) n ops, of l1] by blast
  have "c'' = c'" using replay_ops_tally [OF r(2), of 0] c(2) by auto
  have p: "pending_ops id w (recs @ batch_records first ops) = pending_ops id w recs @ ops"
    using batch_records_pending [OF w] by (simp add: pending_ops_def)
  have "replay_ops U img (pending_ops id w (recs @ batch_records first ops)) 0 = Some (d', l')"
    unfolding p replay_ops_append i(5) by (simp add: r(1))
  then show ?thesis unfolding image_holds_def using i r(3) \<open>c'' = c'\<close>
    by (intro exI [of _ img] exI [of _ k] exI [of _ d'] exI [of _ l']) (simp add: p)
qed

section \<open>Loading\<close>

definition good_load :: "load_io \<Rightarrow> bool" where
  "good_load io \<longleftrightarrow> \<not> ld_quarantined io \<and> ld_hydrated io \<and> ld_schema io \<and> ld_read io = None \<and> ld_replay io = healthy_io \<and> ld_stat io = None"

lemma top_seq_bounds:
  "w \<le> top_seq w recs" "r \<in> set recs \<Longrightarrow> fst r \<le> top_seq w recs" "w < b \<Longrightarrow> list_all (\<lambda>r. fst r < b) recs \<Longrightarrow> top_seq w recs < b"
proof -
  have fold: "w \<le> foldl max w xs \<and> (\<forall>x \<in> set xs. x \<le> foldl max w xs) \<and> (w < b \<longrightarrow> (\<forall>x \<in> set xs. x < b) \<longrightarrow> foldl max w xs < b)" for xs :: "nat list" and w b
    by (induction xs arbitrary: w) (auto simp: max.coboundedI1 intro: order.trans [OF max.cobounded1] order.trans [OF max.cobounded2])
  show "w \<le> top_seq w recs" "r \<in> set recs \<Longrightarrow> fst r \<le> top_seq w recs" "w < b \<Longrightarrow> list_all (\<lambda>r. fst r < b) recs \<Longrightarrow> top_seq w recs < b"
    using fold [of w "map fst recs" b] by (auto simp: top_seq_def list_all_iff)
qed

lemma batch_records_take: "take m (batch_records first ops) = batch_records first (take m ops)"
  by (cases "m \<le> length ops") (simp_all add: batch_records_def take_zip take_upt min_def)

lemma batch_records_fst: "x \<in> set (batch_records first ops) \<Longrightarrow> first \<le> fst x \<and> fst x < first + length ops"
  by (cases x) (auto simp: batch_records_def dest!: set_zip_leftD)

lemma length_batch_records [simp]: "length (batch_records first ops) = length ops"
  by (simp add: batch_records_def)

lemma batch_records_ok:
  assumes "log_ok op_ok recs" "list_all (\<lambda>r. fst r < first) recs" "first + length ops < 2 ^ 64" "list_all op_ok ops"
  shows "log_ok op_ok (recs @ batch_records first ops)"
proof -
  have m: "map fst (batch_records first ops) = [first..<first + length ops]" by (simp add: batch_records_def)
  have "x \<in> set (batch_records first ops) \<Longrightarrow> first \<le> fst x \<and> fst x < 2 ^ 64" for x
    using assms(3) batch_records_fst [of x first ops] by linarith
  moreover have "x \<in> set (batch_records first ops) \<Longrightarrow> op_ok (snd x)" for x
    using assms(4) by (cases x) (auto simp: batch_records_def list_all_iff dest: set_zip_rightD)
  ultimately show ?thesis using assms(1,2) by (auto simp: log_ok_def m sorted_wrt_append list_all_iff intro: less_le_trans)
qed

lemma log_bytes_empty: "codec_ok op_ok C rt \<Longrightarrow> log_ok op_ok recs \<Longrightarrow> log_bytes C recs = Some [] \<Longrightarrow> recs = []"
  by (cases recs) (auto simp: bind_eq_Some_conv)

lemma batch_records_ops: "list_all P ops \<Longrightarrow> list_all (\<lambda>r. P (snd r)) (batch_records first ops)"
  by (auto simp: list_all_iff batch_records_def dest: set_zip_rightD)

text \<open>The log after a crash: the records it had, a prefix of the batch being written, and bytes to heal.\<close>

lemma replay_torn:
  assumes C: "codec_ok op_ok C rt" and log: "log_ok op_ok recs" "log_bytes C recs = Some txt" "list_all (\<lambda>r. fst r < sq) recs" "sq + length ops < 2 ^ 64" "list_all op_ok ops"
    and batch: "log_bytes C (batch_records sq ops) = Some buf" "prefix q buf" and wal: "wal_text wal = txt @ q"
  shows "\<exists>m wal'. m \<le> length ops \<and> log_bytes C (recs @ batch_records sq (take m ops)) = Some (wal_text wal') \<and>
    replay C healthy_io wal w = (Inr (pending_ops rt w (recs @ batch_records sq (take m ops)), top_seq w (recs @ batch_records sq (take m ops))), wal')"
proof (cases wal)
  case None
  then have "txt = []" "recs = []" using wal log_bytes_empty [OF C log(1)] log(2) by (auto simp: wal_text_def)
  then show ?thesis using None by (intro exI [of _ 0] exI [of _ None]) (simp add: replay_def batch_records_def pending_ops_def top_seq_def wal_text_def)
next
  case (Some bs)
  then have "bs = txt @ q" using wal by (simp add: wal_text_def)
  from crash_tail [OF C batch_records_ok [OF log(1,3,4,5)] log(2) batch, of w]
  obtain k healed where "log_bytes C (recs @ take k (batch_records sq ops)) = Some healed"
    "replay C healthy_io (Some (txt @ q)) w = (Inr (pending_ops rt w (recs @ take k (batch_records sq ops)), top_seq w (recs @ take k (batch_records sq ops))), Some healed)"
    by blast
  moreover have "take (min k (length ops)) ops = take k ops" by (simp add: min_def)
  ultimately show ?thesis using Some \<open>bs = txt @ q\<close>
    by (intro exI [of _ "min k (length ops)"] exI [of _ "Some healed"]) (simp add: batch_records_take wal_text_def)
qed

lemma pending_rt: "list_all (\<lambda>r. op_ok (snd r) \<and> rt (snd r) = snd r) recs \<Longrightarrow> pending_ops rt w recs = pending_ops id w recs"
  by (auto simp: pending_ops_def list_all_iff)

lemma load_holding:
  assumes io: "good_load io" and cold: "en_slot e = Cold" and bs: "en_image e = Some bs" and img: "image_holds U n w recs bs c"
    and recs: "list_all (\<lambda>r. op_ok (snd r) \<and> rt (snd r) = snd r) recs" and n: "n < 2 ^ 64"
    and replay: "replay C healthy_io (en_wal e) w = (Inr (pending_ops rt w recs, top_seq w recs), wal')"
  shows "\<exists>c'. ensure_hot C U io e = Some (Inr (), e\<lparr>en_wal := wal', en_load_failure := None, en_slot := Hot c', en_wal_seq := u64_add (top_seq w recs) 1,
      en_graph_revision := max (en_graph_revision e) (top_seq w recs), en_wal_bytes := length (wal_text wal')\<rparr>) \<and>
    stored c' = stored c \<and> healthy U n c' \<and> att_fit c'"
proof -
  let ?ops = "pending_ops id w recs"
  obtain img k d l where i: "bs = to_bytes img" "applied_seq img = w" "healthy U k img" "att_fit img" "replay_ops U img ?ops 0 = Some (d, l)"
    "stored d = stored c" "k + length ?ops \<le> n" using img unfolding image_holds_def by blast
  obtain c1 where c1: "from_bytes U bs = Some (Inr c1)" "stored c1 = stored img" "applied_seq c1 = w" "healthy U k c1"
    using reload_image [OF i(3,4)] i(1,2) by auto
  have f1: "att_fit c1" using att_fit_stored [OF c1(2)] i(4) by simp
  obtain c2 d2 l2 where r: "replay_ops U c1 ?ops 0 = Some (c2, l2)" "replay_ops U img ?ops 0 = Some (d2, l2)" "stored c2 = stored d2"
    "healthy U (k + length ?ops) c2" "att_fit c2"
    using replay_ops_same [OF c1(4) i(3) c1(2) f1 _ list_all_pending [OF recs], of w 0] i(7) n by auto
  have c2: "stored c2 = stored c" "healthy U n c2" using r i(5,6) healthy_mono [OF r(4) i(7)] by simp_all
  have guarded: "replay_wal_guarded C healthy_io U (en_wal e) w c1 = (Inr (top_seq w recs, c2, l2), wal')"
    using replay r(1) pending_rt [OF recs, of w] by (simp add: replay_wal_guarded_def)
  have "ensure_hot C U io e = Some (Inr (), e\<lparr>en_wal := wal', en_load_failure := None, en_slot := Hot (set_dice_floor c2 (en_dice_floor e)),
      en_wal_seq := u64_add (top_seq w recs) 1, en_graph_revision := max (en_graph_revision e) (top_seq w recs), en_wal_bytes := length (wal_text wal')\<rparr>)"
    using io cold bs c1(1) guarded c1(3) unfolding good_load_def ensure_hot_def load_image_def wal_text_def
    by (simp split: option.split)
  moreover have "healthy U n (set_dice_floor c2 x)" "att_fit (set_dice_floor c2 x)" "stored (set_dice_floor c2 x) = stored c" for x
    using settings_keep(2) [of U c2 0 x] c2 r(5) by (auto simp: healthy_def att_fit_def set_dice_floor_def)
  ultimately show ?thesis by blast
qed

section \<open>A hot entry and its files\<close>

definition hot_ok :: "unicode \<Rightarrow> wal_op codec \<Rightarrow> (wal_op \<Rightarrow> wal_op) \<Rightarrow> nat \<Rightarrow> (nat \<times> wal_op) list \<Rightarrow> entry \<Rightarrow> ctx \<Rightarrow> bool" where
  "hot_ok U C rt n recs e c \<longleftrightarrow> healthy U n c \<and> att_fit c \<and> log_holds C rt recs (en_wal e) \<and> list_all (\<lambda>r. fst r < en_wal_seq e) recs \<and>
     0 < en_wal_seq e \<and> en_wal_seq e \<le> Suc n \<and> en_wal_bytes e = length (wal_text (en_wal e))"

text \<open>The image, and a staged one that may still be published, each give the context with the log.\<close>

definition covered :: "unicode \<Rightarrow> nat \<Rightarrow> (nat \<times> wal_op) list \<Rightarrow> entry \<Rightarrow> staged_image option \<Rightarrow> ctx \<Rightarrow> bool" where
  "covered U n recs e st c \<longleftrightarrow>
     (\<exists>w bs. en_image e = Some bs \<and> w < en_wal_seq e \<and> image_holds U n w recs bs c) \<and>
     (\<forall>s. st = Some s \<and> st_generation s = en_image_generation e \<longrightarrow>
        st_watermark s < en_wal_seq e \<and> image_holds U n (st_watermark s) recs (st_bytes s) c)"

definition dur_hot :: "unicode \<Rightarrow> wal_op codec \<Rightarrow> (wal_op \<Rightarrow> wal_op) \<Rightarrow> nat \<Rightarrow> entry \<Rightarrow> staged_image option \<Rightarrow> ctx \<Rightarrow> bool" where
  "dur_hot U C rt n e st c \<longleftrightarrow> (\<exists>recs. hot_ok U C rt n recs e c \<and> covered U n recs e st c)"

lemma covered_mono: "covered U n recs e st c \<Longrightarrow> n \<le> m \<Longrightarrow> covered U m recs e st c"
  unfolding covered_def using image_holds_mono by blast

lemma hot_ok_mono: "hot_ok U C rt n recs e c \<Longrightarrow> n \<le> m \<Longrightarrow> hot_ok U C rt m recs e c"
  unfolding hot_ok_def using healthy_mono by auto

lemma dur_hot_mono: "dur_hot U C rt n e st c \<Longrightarrow> n \<le> m \<Longrightarrow> dur_hot U C rt m e st c"
  unfolding dur_hot_def using covered_mono hot_ok_mono by blast

text \<open>Only the two files, the counters of the log and the generation matter.\<close>

lemma dur_hot_cong:
  assumes "dur_hot U C rt n e st c" "wal_text (en_wal e') = wal_text (en_wal e)" "en_wal_seq e' = en_wal_seq e" "en_wal_bytes e' = en_wal_bytes e"
    "en_image e' = en_image e" "en_image_generation e' = en_image_generation e"
  shows "dur_hot U C rt n e' st c"
  using assms unfolding dur_hot_def hot_ok_def covered_def log_holds_def by simp

section \<open>Appending and truncating\<close>

definition honest_trunc :: "trunc_io \<Rightarrow> bool" where
  "honest_trunc io \<longleftrightarrow> io \<notin> {TruncOpenFails NotFound, TruncMetaFails NotFound, TruncSetLenFails NotFound, TruncSyncFails NotFound}"

lemma truncated: "truncate_to io wal len = (Inr u, wal') \<Longrightarrow> len \<le> length (wal_text wal) \<and> wal_text wal' = take len (wal_text wal)"
  by (auto simp: truncate_to_def wal_text_def split: option.splits trunc_io.splits if_splits)

lemma truncate_missing: "truncate_to io wal len = (Inl (Io NotFound), wal') \<Longrightarrow> honest_trunc io \<Longrightarrow> wal = None \<and> wal' = None"
  by (auto simp: truncate_to_def honest_trunc_def split: option.splits trunc_io.splits if_splits)

lemma wal_text_id: "case_option [] id wal = wal_text wal"
  by (cases wal) (simp_all add: wal_text_def)

lemma appended:
  assumes "append_batch C io wal sq ops = (Inr k, wal')"
  shows "\<exists>buf. batch_bytes C sq ops = Some buf \<and> wal_text wal' = wal_text wal @ buf \<and> k = length buf"
proof (cases "ops = []")
  case True
  then show ?thesis using assms by (simp add: append_batch_def)
next
  case False
  then obtain buf where buf: "batch_bytes C sq ops = Some buf" using assms by (auto simp: append_batch_def split: option.splits)
  then show ?thesis using append_effect [OF False buf assms, unfolded wal_text_id] by auto
qed

lemma append_failed:
  assumes "append_batch C io wal sq ops = (Inl err, wal')"
  shows "\<exists>q. wal_text wal' = wal_text wal @ q"
proof (cases "batch_bytes C sq ops")
  case None
  then show ?thesis using assms by (auto simp: append_batch_def split: if_splits)
next
  case (Some buf)
  have "ops \<noteq> []" using assms by (auto simp: append_batch_def)
  from append_effect [OF this Some assms, unfolded wal_text_id] show ?thesis by auto
qed

lemma dur_hot_extend:
  assumes dur: "dur_hot U C rt n e st c" and ops: "list_all op_ok ops" "list_all (\<lambda>op. rt op = op) ops"
    and run: "replay_ops U c ops 0 = Some (d, l)" "stored d = stored c'" "healthy U m c'" "att_fit c'"
    and n: "n + length ops \<le> m" "Suc m < 2 ^ 64"
    and buf: "batch_bytes C (en_wal_seq e) ops = Some buf"
    and e': "wal_text (en_wal e') = wal_text (en_wal e) @ buf" "en_wal_seq e' = en_wal_seq e + length ops" "en_wal_bytes e' = en_wal_bytes e + length buf"
      "en_image e' = en_image e" "en_image_generation e' = en_image_generation e"
  shows "dur_hot U C rt m e' st c'"
proof -
  obtain recs where h: "hot_ok U C rt n recs e c" "covered U n recs e st c" using dur unfolding dur_hot_def by blast
  let ?recs = "recs @ batch_records (en_wal_seq e) ops"
  note H = h(1) [unfolded hot_ok_def log_holds_def]
  have sq: "en_wal_seq e + length ops < 2 ^ 64" using H n by linarith
  have ok: "log_ok op_ok ?recs" using batch_records_ok [OF _ _ sq ops(1)] H by blast
  have "log_bytes C (batch_records (en_wal_seq e) ops) = Some buf" using batch_log [OF sq, of C] buf by (simp add: batch_records_def)
  then have bytes: "log_bytes C ?recs = Some (wal_text (en_wal e'))" using H e'(1) by (simp add: log_bytes_append)
  have good: "list_all (\<lambda>r. op_ok (snd r) \<and> rt (snd r) = snd r) ?recs"
    using H batch_records_ops [of "\<lambda>op. op_ok op \<and> rt op = op" ops] ops by (auto simp: list_all_iff)
  have below: "list_all (\<lambda>r. fst r < en_wal_seq e') ?recs"
    using H e'(2) batch_records_fst [of _ "en_wal_seq e" ops] by (force simp: list_all_iff)
  have hot: "hot_ok U C rt m ?recs e' c'"
    unfolding hot_ok_def log_holds_def using run(3,4) ok bytes good below H e' n by auto
  have ext: "image_holds U m w ?recs bs c'" if "image_holds U n w recs bs c" "w < en_wal_seq e" for w bs
  proof -
    have "image_holds U (n + length ops) w ?recs bs d"
      using image_holds_extend [OF that(1) _ _ run(1) _ ops(1) that(2)] H n by auto
    then show ?thesis using image_holds_stored run(2) image_holds_mono n(1) by blast
  qed
  have "covered U m ?recs e' st c'"
    unfolding covered_def using h(2) [unfolded covered_def] ext e' by (metis trans_less_add1)
  with hot show ?thesis unfolding dur_hot_def by blast
qed

lemma batch_prefix: "batch_bytes C sq ops = Some buf \<Longrightarrow> batch_bytes C sq (take k ops) = Some buf' \<Longrightarrow> prefix buf' buf"
proof (induction ops arbitrary: sq buf k buf')
  case (Cons op ops)
  then show ?case by (cases k) (auto simp: bind_eq_Some_conv)
qed simp

section \<open>What a logged write relies on\<close>

text \<open>
  The contract between \<open>logged_write\<close> and the closure it runs: on a healthy context the closure returns,
  and replaying the prefix it reports as applied on that context gives what it made of it.
\<close>

locale logged_operation =
  fixes U :: unicode and good :: "wal_op list \<Rightarrow> bool" and operate :: "wal_op list \<Rightarrow> ctx \<Rightarrow> ('r \<times> ctx) option" and applied :: "'r \<Rightarrow> nat"
  assumes good_ok: "good ops \<Longrightarrow> list_all op_ok ops"
    and reproduced: "good ops \<Longrightarrow> healthy U n c \<Longrightarrow> att_fit c \<Longrightarrow> n + length ops < 2 ^ 64 \<Longrightarrow>
      \<exists>r c' d. operate ops c = Some (r, c') \<and> replay_ops U c (take (applied r) ops) 0 = Some (d, 0) \<and> stored d = stored c' \<and>
        healthy U (n + length ops) c' \<and> att_fit c'"
begin

text \<open>
  After the batch is in the log: the closure runs, and whenever the log could be kept in step the entry
  is durable with the new context.
\<close>

lemma apply_write_dur:
  assumes dur: "dur_hot U C rt n e st c" and ops: "good ops" "list_all (\<lambda>op. rt op = op) ops" and n: "Suc (n + length ops) < 2 ^ 64"
    and buf: "batch_bytes C (en_wal_seq e) ops = Some buf" "en_wal_bytes e + length buf < 2 ^ 64"
    and e1: "en_slot e1 = Hot c" "wal_text (en_wal e1) = wal_text (en_wal e) @ buf" "en_wal_seq e1 = en_wal_seq e + length ops" "en_wal_bytes e1 = en_wal_bytes e + length buf"
      "en_image e1 = en_image e" "en_image_generation e1 = en_image_generation e"
    and run: "apply_write C io ops (operate ops) applied (en_wal_seq e) (Some (en_wal_bytes e)) e1 = (res, behind, e')"
  shows "\<exists>r c'. res = Returned (Inr r) \<and> operate ops c = Some (r, c') \<and> en_slot e' = Hot c' \<and> healthy U (n + length ops) c' \<and> att_fit c' \<and>
    0 < en_wal_seq e' \<and> en_wal_seq e' \<le> Suc (n + length ops) \<and> en_image_generation e' = en_image_generation e \<and> en_flushing e' = en_flushing e1 \<and>
    en_dirty e' \<and> en_graph_revision e' = u64_add (en_graph_revision e1) (min (applied r) (length ops)) \<and>
    en_changes e' = ring_extend (en_changes e1) (events_of_ops (take (applied r) ops)) \<and>
    (\<not> behind \<longrightarrow> dur_hot U C rt (n + length ops) e' st c')"
proof -
  have H: "healthy U n c" "att_fit c" "0 < en_wal_seq e" "en_wal_seq e \<le> Suc n" "en_wal_bytes e = length (wal_text (en_wal e))"
    using dur by (auto simp: dur_hot_def hot_ok_def)
  obtain r c' d where r: "operate ops c = Some (r, c')" "replay_ops U c (take (applied r) ops) 0 = Some (d, 0)" "stored d = stored c'"
    "healthy U (n + length ops) c'" "att_fit c'"
    using reproduced [OF ops(1) H(1,2)] n by auto
  have sub: "list_all op_ok (take k ops)" "list_all (\<lambda>op. rt op = op) (take k ops)" for k
    using good_ok [OF ops(1)] ops(2) by (auto simp: list_all_iff dest: in_set_takeD)
  note ext = dur_hot_extend [OF dur sub r(2-5)]
  define landed where "landed = min (applied r) (length ops)"
  define e2 where "e2 = e1\<lparr>en_slot := Hot c', en_dirty := True, en_graph_revision := u64_add (en_graph_revision e1) landed,
    en_changes := ring_extend (en_changes e1) (events_of_ops (take landed ops))\<rparr>"
  have tk: "take landed ops = take (applied r) ops" by (simp add: landed_def min_def)
  have base: "en_slot e2 = Hot c'" "en_image_generation e2 = en_image_generation e" "en_flushing e2 = en_flushing e1" "en_dirty e2"
    "en_graph_revision e2 = u64_add (en_graph_revision e1) (min (applied r) (length ops))"
    "en_changes e2 = ring_extend (en_changes e1) (events_of_ops (take (applied r) ops))" "en_image e2 = en_image e"
    "wal_text (en_wal e2) = wal_text (en_wal e) @ buf" "en_wal_seq e2 = en_wal_seq e + length ops" "en_wal_bytes e2 = en_wal_bytes e + length buf"
    using e1 tk by (simp_all add: e2_def landed_def)
  have R: "apply_write C io ops (operate ops) applied (en_wal_seq e) (Some (en_wal_bytes e)) e1 =
     (case if landed < length ops then Some (en_wal_bytes e) else None of
        None \<Rightarrow> (Returned (Inr r), False, e2)
      | Some len_before \<Rightarrow>
          (case truncate_to (wr_truncate io) (en_wal e2) len_before of
             (Inl _, wal) \<Rightarrow> (Returned (Inr r), True, e2\<lparr>en_wal := wal\<rparr>)
           | (Inr _, wal) \<Rightarrow>
               (case append_batch C (wr_reappend io) wal (en_wal_seq e) (take landed ops) of
                  (Inr n, wal') \<Rightarrow> (Returned (Inr r), False, e2\<lparr>en_wal := wal', en_wal_bytes := u64_add len_before n, en_wal_seq := u64_add (en_wal_seq e) landed\<rparr>)
                | (Inl _, wal') \<Rightarrow> (Returned (Inr r), True, e2\<lparr>en_wal := wal', en_wal_bytes := len_before, en_wal_seq := en_wal_seq e\<rparr>))))"
    unfolding apply_write_def e1(1) slot.case r(1) option.case prod.case Let_def landed_def [symmetric] e2_def [symmetric] by (rule refl)
  show ?thesis
  proof (cases "landed < length ops")
    case False
    then have all: "take (applied r) ops = ops" by (simp add: landed_def)
    have e': "res = Returned (Inr r)" "behind = False" "e' = e2" using run R False by simp_all
    have "dur_hot U C rt (n + length ops) e2 st c'"
      using ext [unfolded all, OF _ n buf(1) base(8-10,7,2)] by simp
    then show ?thesis using base r e' H by simp
  next
    case True
    show ?thesis
    proof (cases "truncate_to (wr_truncate io) (en_wal e2) (en_wal_bytes e)")
      case (Pair t wal)
      show ?thesis
      proof (cases t)
        case (Inl err)
        then have "res = Returned (Inr r)" "behind = True" "e' = e2\<lparr>en_wal := wal\<rparr>" using run R True Pair by simp_all
        then show ?thesis using base r H by simp
      next
        case (Inr u)
        have cut: "wal_text wal = wal_text (en_wal e)" using truncated [of "wr_truncate io" "en_wal e2"] Pair Inr base(8) H(5) by auto
        obtain a wal' where a: "append_batch C (wr_reappend io) wal (en_wal_seq e) (take landed ops) = (a, wal')" by force
        show ?thesis
        proof (cases a)
          case (Inl err)
          then have "res = Returned (Inr r)" "behind = True" "e' = e2\<lparr>en_wal := wal', en_wal_bytes := en_wal_bytes e, en_wal_seq := en_wal_seq e\<rparr>"
            using run R True Pair Inr a by simp_all
          then show ?thesis using base r H by simp
        next
          case (Inr k)
          obtain buf' where b: "batch_bytes C (en_wal_seq e) (take landed ops) = Some buf'" "wal_text wal' = wal_text wal @ buf'" "k = length buf'"
            using appended a Inr by blast
          have len: "length buf' \<le> length buf" using batch_prefix [of C "en_wal_seq e" ops buf landed] buf(1) b(1) by (auto dest: prefix_length_le)
          have e': "res = Returned (Inr r)" "behind = False"
            "e' = e2\<lparr>en_wal := wal', en_wal_bytes := u64_add (en_wal_bytes e) k, en_wal_seq := u64_add (en_wal_seq e) landed\<rparr>"
            using run R True Pair \<open>t = Inr u\<close> a Inr by simp_all
          have u: "u64_add (en_wal_bytes e) k = en_wal_bytes e + length buf'" "u64_add (en_wal_seq e) landed = en_wal_seq e + landed"
            using b(3) len buf(2) H(4) n True by (simp_all add: u64_add_def)
          have l: "length (take (applied r) ops) = landed" by (simp add: landed_def)
          have "dur_hot U C rt (n + length ops) e' st c'"
            by (rule ext [where buf = buf']) (use n True b cut base u in \<open>simp_all add: e'(3) tk [symmetric] landed_def [symmetric]\<close>)
          then show ?thesis using base r e' H u True by simp
        qed
      qed
    qed
  qed
qed

lemma append_refused_dur:
  assumes dur: "dur_hot U C rt n e st c" and slot: "en_slot e = Hot c" and leak: "wal_text wal = wal_text (en_wal e) @ q" and honest: "honest_trunc (wr_rollback io)"
    and run: "append_refused io err (en_wal_bytes e) (e\<lparr>en_wal := wal\<rparr>) = (res, behind, e')"
  shows "res = Returned (Inl (Unpersisted (AppendFailed err))) \<and> en_slot e' = Hot c \<and> en_wal_seq e' = en_wal_seq e \<and>
    en_image_generation e' = en_image_generation e \<and> en_flushing e' = en_flushing e \<and> en_graph_revision e' = en_graph_revision e \<and> en_changes e' = en_changes e \<and>
    (behind \<longrightarrow> en_dirty e') \<and> (\<not> behind \<longrightarrow> dur_hot U C rt n e' st c)"
proof -
  have len: "en_wal_bytes e = length (wal_text (en_wal e))" using dur by (auto simp: dur_hot_def hot_ok_def)
  have keep: "dur_hot U C rt n (e\<lparr>en_wal := wal'\<rparr>) st c" if "wal_text wal' = wal_text (en_wal e)" for wal'
    by (rule dur_hot_cong [OF dur]) (use that in simp_all)
  obtain t wal' where t: "truncate_to (wr_rollback io) wal (en_wal_bytes e) = (t, wal')" by force
  show ?thesis
  proof (cases t)
    case (Inr u)
    have "wal_text wal' = wal_text (en_wal e)" using truncated t Inr leak len by fastforce
    then show ?thesis using run t Inr slot keep by (auto simp: append_refused_def)
  next
    case (Inl x)
    show ?thesis
    proof (cases "x = Io NotFound")
      case True
      then have "wal = None" "wal' = None" using truncate_missing t Inl honest by blast+
      moreover from this have "wal_text (en_wal e) = []" using leak by (simp add: wal_text_def)
      ultimately show ?thesis using run t Inl True slot keep [of None] by (auto simp: append_refused_def wal_text_def)
    next
      case False
      then show ?thesis using run t Inl slot by (auto simp: append_refused_def split: wal_error.splits io_kind.splits)
    qed
  qed
qed

lemma write_hot_dur:
  assumes C: "codec_ok op_ok C rt" and dur: "dur_hot U C rt n e st c" and slot: "en_slot e = Hot c" and ops: "good ops" "list_all (\<lambda>op. rt op = op) ops"
    and n: "Suc (n + length ops) < 2 ^ 64" and cfg: "wc_wal_enabled cfg" and honest: "honest_trunc (wr_rollback io)"
    and room: "\<And>buf. batch_bytes C (en_wal_seq e) ops = Some buf \<Longrightarrow> en_wal_bytes e + length buf < 2 ^ 64"
    and run: "write_hot C cfg io ops (operate ops) applied e = (res, behind, e')"
  shows "\<exists>c'. en_slot e' = Hot c' \<and> healthy U (n + length ops) c' \<and> att_fit c' \<and> 0 < en_wal_seq e' \<and> en_wal_seq e' \<le> Suc (n + length ops) \<and>
    en_image_generation e' = en_image_generation e \<and> en_flushing e' = en_flushing e \<and> (behind \<longrightarrow> en_dirty e') \<and>
    (\<not> behind \<longrightarrow> dur_hot U C rt (n + length ops) e' st c') \<and>
    ((\<exists>err. res = Returned (Inl err)) \<and> c' = c \<and> en_graph_revision e' = en_graph_revision e \<and> en_changes e' = en_changes e \<or>
     (\<exists>r. res = Returned (Inr r) \<and> operate ops c = Some (r, c') \<and> en_graph_revision e' = u64_add (en_graph_revision e) (min (applied r) (length ops)) \<and>
        en_changes e' = ring_extend (en_changes e) (events_of_ops (take (applied r) ops))))"
proof -
  have H: "healthy U n c" "att_fit c" "0 < en_wal_seq e" "en_wal_seq e \<le> Suc n" using dur by (auto simp: dur_hot_def hot_ok_def)
  have same: ?thesis if "res = Returned (Inl err)" "behind = False" "e' = e" for err
    using that H slot dur_hot_mono [OF dur, of "n + length ops"] healthy_mono [OF H(1), of "n + length ops"] by simp
  consider (quota) used ceiling where "(if list_ex grows ops then storage_quota_excess (wc_storage_bytes cfg) (wc_disk cfg) e else None) = Some (used, ceiling)"
    | (cap) "(if list_ex grows ops then storage_quota_excess (wc_storage_bytes cfg) (wc_disk cfg) e else None) = None" "0 < wc_wal_max_bytes cfg \<and> wc_wal_max_bytes cfg \<le> en_wal_bytes e"
    | (go) "(if list_ex grows ops then storage_quota_excess (wc_storage_bytes cfg) (wc_disk cfg) e else None) = None" "\<not> (0 < wc_wal_max_bytes cfg \<and> wc_wal_max_bytes cfg \<le> en_wal_bytes e)"
    by (metis option.exhaust surj_pair)
  then show ?thesis
  proof cases
    case quota
    then have "res = Returned (Inl (QuotaExceeded used ceiling))" "behind = False" "e' = e" using run by (simp_all add: write_hot_def)
    then show ?thesis by (rule same)
  next
    case cap
    then have "res = Returned (Inl (Unpersisted (LogOverCap (en_wal_bytes e) (wc_wal_max_bytes cfg))))" "behind = False" "e' = e"
      using run cfg by (auto simp: write_hot_def)
    then show ?thesis by (rule same)
  next
    case go
    obtain a wal where a: "append_batch C (wr_append io) (en_wal e) (en_wal_seq e) ops = (a, wal)" by force
    show ?thesis
    proof (cases a)
      case (Inl err)
      have run': "append_refused io err (en_wal_bytes e) (e\<lparr>en_wal := wal\<rparr>) = (res, behind, e')"
        using run go(1) unfolding write_hot_def a Inl go(1) option.case using cfg go(2) by (simp del: not_less)
      obtain q where "wal_text wal = wal_text (en_wal e) @ q" using append_failed a Inl by blast
      from append_refused_dur [OF dur slot this honest run'] show ?thesis
        using H healthy_mono [OF H(1), of "n + length ops"] dur_hot_mono [of U C rt n e' st c "n + length ops"] by auto
    next
      case (Inr k)
      obtain buf where b: "batch_bytes C (en_wal_seq e) ops = Some buf" "wal_text wal = wal_text (en_wal e) @ buf" "k = length buf" using appended a Inr by blast
      let ?e1 = "e\<lparr>en_wal := wal, en_wal_bytes := u64_add (en_wal_bytes e) k, en_wal_seq := u64_add (en_wal_seq e) (length ops)\<rparr>"
      have u: "u64_add (en_wal_bytes e) k = en_wal_bytes e + length buf" "u64_add (en_wal_seq e) (length ops) = en_wal_seq e + length ops"
        using room [OF b(1)] b(3) H(4) n by (simp_all add: u64_add_def)
      have run': "apply_write C io ops (operate ops) applied (en_wal_seq e) (Some (en_wal_bytes e)) ?e1 = (res, behind, e')"
        using run go(1) unfolding write_hot_def a Inr go(1) option.case using cfg go(2) by (simp del: not_less)
      show ?thesis using apply_write_dur [OF dur ops n b(1) room [OF b(1)] _ _ _ _ _ _ run'] slot b(2) u by auto
    qed
  qed
qed

end

section \<open>The recovery flush\<close>

text \<open>
  Whatever the log has become, a flush that lands and empties it leaves a durable entry: the image is the
  context and there is nothing to replay.
\<close>

lemma flush_landed_dur:
  assumes slot: "en_slot e = Hot c" and c: "healthy U n c" "att_fit c" and sq: "0 < en_wal_seq e" "en_wal_seq e \<le> Suc n" "n < 2 ^ 64"
    and dirty: "en_dirty e" "\<not> en_flushing e" and run: "flush_entry io e = (landed, e')" and clean: "\<not> en_dirty e'" "wal_text (en_wal e') = []" "en_wal_bytes e' = 0"
  shows "\<exists>c'. en_slot e' = Hot c' \<and> stored c' = stored c \<and> \<not> en_flushing e' \<and> en_image_generation e' = en_image_generation e \<and> dur_hot U C rt n e' None c'"
proof -
  let ?w = "en_wal_seq e - 1"
  let ?c = "set_applied_seq c ?w"
  let ?s = "\<lparr>st_bytes = to_bytes ?c, st_watermark = ?w, st_generation = en_image_generation e\<rparr>"
  let ?e1 = "e\<lparr>en_flushing := True, en_dirty := False, en_slot := Hot ?c\<rparr>"
  have w: "?w < 2 ^ 64" "Suc ?w = en_wal_seq e" using sq by auto
  have claim: "flush_claim e = (Some ?s, ?e1)" using slot dirty by (simp add: flush_claim_def Let_def)
  have staged: "fl_staged io" using run clean(1) by (auto simp: flush_entry_def claim flush_unstaged_def split: if_splits)
  have pub: "flush_publish io ?s ?e1 = (landed, e')" using run staged by (simp add: flush_entry_def claim)
  then have p: "fl_publish io = Published" using clean(1) by (auto simp: flush_publish_def Let_def split: if_splits)
  then have e': "e' = (truncate_wal (fl_reset_allowed io) (fl_reset io) (?e1\<lparr>en_image := Some (to_bytes ?c)\<rparr>))\<lparr>en_flushing := False\<rparr>"
    using pub by (simp add: flush_publish_def Let_def published_image_def)
  have f: "en_slot e' = Hot ?c" "en_image e' = Some (to_bytes ?c)" "en_wal_seq e' = en_wal_seq e" "en_image_generation e' = en_image_generation e" "\<not> en_flushing e'"
    unfolding e' by (auto simp: truncate_wal_def split: prod.splits sum.splits)
  have s: "stored ?c = stored c" "att_fit ?c" using c(2) by (simp_all add: set_applied_seq_def att_fit_def)
  have h: "healthy U n ?c" using c(1) settings_keep(1) [OF _ w(1), of U c] by (auto simp: healthy_def)
  have "image_holds U n ?w [] (to_bytes ?c) c" by (rule image_holds_fresh [OF c w(1)]) simp
  then have img: "image_holds U n ?w [] (to_bytes ?c) ?c" using image_holds_stored s(1) by metis
  have "hot_ok U C rt n [] e' ?c" unfolding hot_ok_def log_holds_def using h s sq f clean by (simp add: log_ok_def)
  moreover have "covered U n [] e' None ?c" unfolding covered_def using img f w(2) by (metis lessI option.distinct(1))
  ultimately show ?thesis using f s(1) unfolding dur_hot_def by blast
qed

section \<open>The closures\<close>

definition retract_batch :: "wal_op list \<Rightarrow> bool" where
  "retract_batch ops = (case ops of [RetractSourceOp _] \<Rightarrow> True | [RetractAssociationOp _ _ _] \<Rightarrow> True | _ \<Rightarrow> False)"

definition retract_operate :: "wal_op list \<Rightarrow> ctx \<Rightarrow> (nat option \<times> ctx) option" where
  "retract_operate ops = (case ops of
       [RetractSourceOp s] \<Rightarrow> retracting (\<lambda>c. retract_source c s)
     | [RetractAssociationOp s l ob] \<Rightarrow> retracting (\<lambda>c. retract_association c s l ob)
     | _ \<Rightarrow> (\<lambda>c. None))"

definition retract_applied :: "nat option \<Rightarrow> nat" where
  "retract_applied r = (if r \<noteq> None then 1 else 0)"

interpretation batch: logged_operation U "list_all op_ok" "\<lambda>ops c. apply_in_order U c ops" applied_count for U
proof
  fix ops n c assume ok: "list_all op_ok ops" and h: "healthy U n c" "att_fit c" and n: "n + length ops < 2 ^ 64"
  obtain r c' d where r: "apply_from U 0 c ops = Some (r, c')" "replay_ops U c (take (applied_count r - 0) ops) 0 = Some (d, 0)"
    "healthy U (n + length ops) c'" "stored c' = stored d"
    using apply_from_same [OF h(1) h(1) refl n ok, of 0 0] by blast
  have "att_fit d"
  proof -
    have "list_all op_ok (take (applied_count r - 0) ops)" "n + length (take (applied_count r - 0) ops) < 2 ^ 64" using ok n by (auto simp: list_all_iff dest: in_set_takeD)
    then show ?thesis using replay_ops_returns [OF h _ _, of "take (applied_count r - 0) ops" 0] r(2) by auto
  qed
  then have "att_fit c'" using att_fit_stored [OF r(4)] by simp
  then show "\<exists>r c' d. apply_in_order U c ops = Some (r, c') \<and> replay_ops U c (take (applied_count r) ops) 0 = Some (d, 0) \<and> stored d = stored c' \<and>
      healthy U (n + length ops) c' \<and> att_fit c'"
    using r unfolding apply_in_order_def by (metis diff_zero)
qed simp

lemma retract_batchE:
  assumes "retract_batch ops"
  obtains s where "ops = [RetractSourceOp s]" | s l ob where "ops = [RetractAssociationOp s l ob]"
  using assms by (auto simp: retract_batch_def split: list.splits wal_op.splits)

lemma retracting_reproduced:
  assumes h: "healthy U n c" "att_fit c" "n + 1 < 2 ^ 64" "op_ok op"
    and op: "apply_op U c op = map_option (\<lambda>r. case r of Some (_, c') \<Rightarrow> Inr c' | None \<Rightarrow> Inr c) (retract c)"
  shows "\<exists>r c' d. retracting retract c = Some (r, c') \<and> replay_ops U c (take (retract_applied r) [op]) 0 = Some (d, 0) \<and> stored d = stored c' \<and>
      healthy U (n + 1) c' \<and> att_fit c'"
proof -
  obtain x where x: "apply_op U c op = Some x" "\<forall>c'. x = Inr c' \<longrightarrow> healthy U (Suc n) c'" using apply_op_returns [OF h(1) _ h(4)] h(3) by auto
  then obtain u where u: "retract c = Some u" "x = (case u of Some (_, c') \<Rightarrow> Inr c' | None \<Rightarrow> Inr c)" using op by auto
  show ?thesis
  proof (cases u)
    case None
    then show ?thesis using u healthy_mono [OF h(1), of "Suc n"] h(2) by (auto simp: retracting_def retract_applied_def)
  next
    case (Some p)
    then obtain m c' where p: "p = (m, c')" "apply_op U c op = Some (Inr c')" "healthy U (Suc n) c'" using u x by (cases p) auto
    have "att_fit c'" using apply_op_fits h(1,2) p(2) by (auto simp: healthy_def)
    then show ?thesis using u(1) Some p by (simp add: retracting_def retract_applied_def replay_op_def tally_capacity_loss_def)
  qed
qed

interpretation retraction: logged_operation U retract_batch retract_operate retract_applied for U
proof
  fix ops assume "retract_batch ops"
  then show "list_all op_ok ops" by (rule retract_batchE) simp_all
next
  fix ops n c assume b: "retract_batch ops" and h: "healthy U n c" "att_fit c" and n: "n + length ops < 2 ^ 64"
  from b show "\<exists>r c' d. retract_operate ops c = Some (r, c') \<and> replay_ops U c (take (retract_applied r) ops) 0 = Some (d, 0) \<and> stored d = stored c' \<and>
      healthy U (n + length ops) c' \<and> att_fit c'"
  proof (rule retract_batchE)
    fix s assume o: "ops = [RetractSourceOp s]"
    show ?thesis using retracting_reproduced [OF h, of "RetractSourceOp s" "\<lambda>c. retract_source c s"] n unfolding o by (simp add: retract_operate_def)
  next
    fix s l ob assume o: "ops = [RetractAssociationOp s l ob]"
    show ?thesis using retracting_reproduced [OF h, of "RetractAssociationOp s l ob" "\<lambda>c. retract_association c s l ob"] n unfolding o by (simp add: retract_operate_def)
  qed
qed

section \<open>The life of an entry\<close>

text \<open>The log of a cold entry: the records it holds, and as much of one more batch as a crash let through.\<close>

definition torn_holds :: "wal_op codec \<Rightarrow> (wal_op \<Rightarrow> wal_op) \<Rightarrow> (nat \<times> wal_op) list \<Rightarrow> nat \<Rightarrow> wal_op list \<Rightarrow> rstr option \<Rightarrow> bool" where
  "torn_holds C rt recs sq ops wal \<longleftrightarrow>
     log_ok op_ok recs \<and> list_all (\<lambda>r. op_ok (snd r) \<and> rt (snd r) = snd r) recs \<and> list_all (\<lambda>r. fst r < sq) recs \<and> list_all (\<lambda>op. op_ok op \<and> rt op = op) ops \<and>
     (\<exists>text0 buf q. log_bytes C recs = Some text0 \<and> batch_bytes C sq ops = Some buf \<and> prefix q buf \<and> wal_text wal = text0 @ q)"

definition dur_cold :: "unicode \<Rightarrow> wal_op codec \<Rightarrow> (wal_op \<Rightarrow> wal_op) \<Rightarrow> nat \<Rightarrow> entry \<Rightarrow> wal_op list \<Rightarrow> ctx \<Rightarrow> bool" where
  "dur_cold U C rt n e ops c \<longleftrightarrow>
     (\<exists>k recs sq w bs. k + length ops \<le> n \<and> 0 < sq \<and> sq \<le> Suc k \<and> healthy U k c \<and> att_fit c \<and> torn_holds C rt recs sq ops (en_wal e) \<and>
        w < sq \<and> en_image e = Some bs \<and> image_holds U k w recs bs c)"

lemma dur_hot_cold:
  assumes "dur_hot U C rt n e st c" "en_image e' = en_image e" "wal_text (en_wal e') = wal_text (en_wal e)" shows "dur_cold U C rt n e' [] c"
proof -
  obtain recs where h: "hot_ok U C rt n recs e c" "covered U n recs e st c" using assms(1) unfolding dur_hot_def by blast
  obtain w bs where w: "en_image e = Some bs" "w < en_wal_seq e" "image_holds U n w recs bs c" using h(2) unfolding covered_def by blast
  show ?thesis unfolding dur_cold_def torn_holds_def
    using h(1) w assms(2,3) unfolding hot_ok_def log_holds_def by (intro exI [of _ n] exI [of _ recs] exI [of _ "en_wal_seq e"] exI [of _ w] exI [of _ bs]) simp
qed

lemma load_dur:
  assumes C: "codec_ok op_ok C rt" and cold: "dur_cold U C rt n e ops c" "en_slot e = Cold" and io: "good_load io" and n: "Suc n < 2 ^ 64"
  shows "\<exists>m e' c' d l. m \<le> length ops \<and> ensure_hot C U io e = Some (Inr (), e') \<and> en_slot e' = Hot c' \<and> replay_ops U c (take m ops) 0 = Some (d, l) \<and>
    stored c' = stored d \<and> dur_hot U C rt n e' None c' \<and>
    en_image e' = en_image e \<and> en_image_generation e' = en_image_generation e \<and> en_flushing e' = en_flushing e \<and> en_dirty e' = en_dirty e"
proof -
  obtain k recs sq w bs text0 buf q where H: "k + length ops \<le> n" "0 < sq" "sq \<le> Suc k" "healthy U k c" "att_fit c" "log_ok op_ok recs"
    "list_all (\<lambda>r. op_ok (snd r) \<and> rt (snd r) = snd r) recs" "list_all (\<lambda>r. fst r < sq) recs" "list_all (\<lambda>op. op_ok op \<and> rt op = op) ops"
    "log_bytes C recs = Some text0" "batch_bytes C sq ops = Some buf" "prefix q buf" "wal_text (en_wal e) = text0 @ q" "w < sq" "en_image e = Some bs" "image_holds U k w recs bs c"
    using cold(1) unfolding dur_cold_def torn_holds_def by blast
  have sq: "sq + length ops < 2 ^ 64" using H(1,3) n by linarith
  have buf: "log_bytes C (batch_records sq ops) = Some buf" using batch_log [OF sq, of C] H(11) by (simp add: batch_records_def)
  obtain m wal' where m: "m \<le> length ops" "log_bytes C (recs @ batch_records sq (take m ops)) = Some (wal_text wal')"
    "replay C healthy_io (en_wal e) w = (Inr (pending_ops rt w (recs @ batch_records sq (take m ops)), top_seq w (recs @ batch_records sq (take m ops))), wal')"
    using replay_torn [OF C H(6,10,8) sq _ buf H(12,13), of w] H(9) by (auto simp: list_all_iff)
  let ?ops = "take m ops" and ?recs = "recs @ batch_records sq (take m ops)"
  have ok: "list_all (\<lambda>op. op_ok op \<and> rt op = op) ?ops" "list_all op_ok ?ops" using H(9) by (auto simp: list_all_iff dest: in_set_takeD)
  have l: "length ?ops \<le> length ops" by simp
  obtain d l' where d: "replay_ops U c ?ops 0 = Some (d, l')" using replay_ops_returns [OF H(4,5) _ ok(2), of 0] H(1) n l by fastforce
  have good: "list_all (\<lambda>r. op_ok (snd r) \<and> rt (snd r) = snd r) ?recs" using H(7) batch_records_ops [OF ok(1), of sq] by simp
  have "image_holds U (k + length ?ops) w ?recs bs d" using image_holds_extend [OF H(16,7,4) d _ ok(2) H(14)] H(1) n l by linarith
  then have img: "image_holds U n w ?recs bs d" by (rule image_holds_mono) (use H(1) l in linarith)
  obtain c' where c': "ensure_hot C U io e = Some (Inr (), e\<lparr>en_wal := wal', en_load_failure := None, en_slot := Hot c', en_wal_seq := u64_add (top_seq w ?recs) 1,
      en_graph_revision := max (en_graph_revision e) (top_seq w ?recs), en_wal_bytes := length (wal_text wal')\<rparr>)" "stored c' = stored d" "healthy U n c'" "att_fit c'"
    using load_holding [OF io cold(2) H(15) img good _ m(3)] n by auto
  let ?e = "e\<lparr>en_wal := wal', en_load_failure := None, en_slot := Hot c', en_wal_seq := u64_add (top_seq w ?recs) 1,
      en_graph_revision := max (en_graph_revision e) (top_seq w ?recs), en_wal_bytes := length (wal_text wal')\<rparr>"
  have sqm: "sq + length ?ops < 2 ^ 64" using sq l by linarith
  have below: "list_all (\<lambda>r. fst r < sq + length ops) ?recs"
    using H(8) batch_records_fst [of _ sq ?ops] l by (fastforce simp: list_all_iff)
  have top: "top_seq w ?recs < sq + length ops" using top_seq_bounds(3) [OF _ below, of w] H(14) by simp
  then have u: "u64_add (top_seq w ?recs) 1 = Suc (top_seq w ?recs)" using sq by (simp add: u64_add_def)
  have "hot_ok U C rt n ?recs ?e c'"
    unfolding hot_ok_def log_holds_def
    using c'(3,4) batch_records_ok [OF H(6,8) sqm ok(2)] m(2) good u top_seq_bounds(2) [of _ ?recs w] top H(1,3) by (auto simp: list_all_iff less_Suc_eq_le)
  moreover have "covered U n ?recs ?e None c'"
    unfolding covered_def using img c'(2) H(15) u top_seq_bounds(1) [of w ?recs] image_holds_stored by (auto simp: less_Suc_eq_le intro!: exI [of _ w])
  ultimately have "dur_hot U C rt n ?e None c'" unfolding dur_hot_def by blast
  then show ?thesis using m(1) c' d by (intro exI [of _ m] exI [of _ ?e] exI [of _ c'] exI [of _ d] exI [of _ l']) simp
qed

section \<open>Flushes\<close>

definition clean_reset :: "trunc_io \<Rightarrow> bool" where
  "clean_reset io \<longleftrightarrow> honest_trunc io \<and> (\<forall>k. io \<noteq> TruncSyncFails k)"

lemma wal_reset_effect:
  assumes "wal_reset io wal = (r, wal')" "clean_reset io"
  shows "(\<exists>u. r = Inr u) \<and> wal_text wal' = [] \<or> (\<exists>err. r = Inl err) \<and> wal' = wal"
  using assms by (cases wal; cases io) (auto simp: wal_reset_def truncate_to_def clean_reset_def honest_trunc_def wal_text_def split: io_kind.splits wal_error.splits)

lemma dur_hot_unstage: "dur_hot U C rt n e st c \<Longrightarrow> dur_hot U C rt n e None c"
  unfolding dur_hot_def covered_def by blast

lemma dur_hot_foreign: "dur_hot U C rt n e None c \<Longrightarrow> (\<And>s. st = Some s \<Longrightarrow> st_generation s \<noteq> en_image_generation e) \<Longrightarrow> dur_hot U C rt n e st c"
  unfolding dur_hot_def covered_def by blast

lemma dur_hot_stored:
  assumes "dur_hot U C rt n e st c" "stored c' = stored c" "healthy U n c'" shows "dur_hot U C rt n e st c'"
proof -
  have "att_fit c' = att_fit c" using att_fit_stored [OF assms(2)] by simp
  then have "hot_ok U C rt n recs e c'" if "hot_ok U C rt n recs e c" for recs using that assms(3) unfolding hot_ok_def by simp
  moreover have "image_holds U n w recs bs c'" if "image_holds U n w recs bs c" for w recs bs by (rule image_holds_stored [OF that assms(2) [symmetric]])
  then have "covered U n recs e st c'" if "covered U n recs e st c" for recs using that unfolding covered_def by blast
  ultimately show ?thesis using assms(1) unfolding dur_hot_def by blast
qed

lemma watermark_keeps:
  assumes "healthy U n c" "w < 2 ^ 64" shows "healthy U n (set_applied_seq c w)" "stored (set_applied_seq c w) = stored c" "att_fit (set_applied_seq c w) = att_fit c"
  using assms settings_keep(1) [OF _ assms(2), of U c] by (auto simp: healthy_def set_applied_seq_def att_fit_def)

text \<open>An image of the present context, at the present watermark.\<close>

lemma fresh_image:
  assumes "dur_hot U C rt n e st c" "n < 2 ^ 64"
  shows "\<exists>recs. hot_ok U C rt n recs e c \<and> covered U n recs e st c \<and> image_holds U n (en_wal_seq e - 1) recs (to_bytes (set_applied_seq c (en_wal_seq e - 1))) c \<and>
    list_all (\<lambda>r. fst r \<le> en_wal_seq e - 1) recs"
proof -
  obtain recs where h: "hot_ok U C rt n recs e c" "covered U n recs e st c" using assms(1) unfolding dur_hot_def by blast
  have w: "en_wal_seq e - 1 < 2 ^ 64" "list_all (\<lambda>r. fst r \<le> en_wal_seq e - 1) recs" using h(1) assms(2) by (auto simp: hot_ok_def list_all_iff)
  then show ?thesis using h image_holds_fresh [of U n c "en_wal_seq e - 1" recs] unfolding hot_ok_def by blast
qed

lemma truncate_wal_dur:
  assumes hot: "hot_ok U C rt n recs e c" and img: "en_image e = Some bs" "image_holds U n (en_wal_seq e - 1) recs bs c"
    and below: "list_all (\<lambda>r. fst r \<le> en_wal_seq e - 1) recs" and io: "clean_reset io"
  shows "dur_hot U C rt n (truncate_wal allowed io e) None c"
proof -
  have sq: "en_wal_seq e - 1 < en_wal_seq e" using hot by (simp add: hot_ok_def)
  have keep: "dur_hot U C rt n e None c" unfolding dur_hot_def covered_def using hot img sq by blast
  obtain r wal' where r: "wal_reset io (en_wal e) = (r, wal')" by force
  from wal_reset_effect [OF r io] show ?thesis
  proof
    assume "(\<exists>u. r = Inr u) \<and> wal_text wal' = []"
    then have e: "truncate_wal True io e = e\<lparr>en_wal := wal', en_wal_bytes := 0\<rparr>" "wal_text wal' = []" using r by (auto simp: truncate_wal_def)
    have "hot_ok U C rt n [] (e\<lparr>en_wal := wal', en_wal_bytes := 0\<rparr>) c"
      using hot e(2) unfolding hot_ok_def log_holds_def by (simp add: log_ok_def)
    moreover have "covered U n [] (e\<lparr>en_wal := wal', en_wal_bytes := 0\<rparr>) None c"
      unfolding covered_def using img sq image_holds_reset [OF img(2) below] by auto
    ultimately show ?thesis using keep e(1) unfolding dur_hot_def by (cases allowed) (auto simp: truncate_wal_def)
  next
    assume "(\<exists>err. r = Inl err) \<and> wal' = en_wal e"
    then have "truncate_wal allowed io e = e" using r by (auto simp: truncate_wal_def)
    then show ?thesis using keep by simp
  qed
qed

lemma truncate_wal_fields [simp]:
  "en_slot (truncate_wal a io e) = en_slot e" "en_image (truncate_wal a io e) = en_image e" "en_image_generation (truncate_wal a io e) = en_image_generation e"
  "en_flushing (truncate_wal a io e) = en_flushing e" "en_dirty (truncate_wal a io e) = en_dirty e" "en_wal_seq (truncate_wal a io e) = en_wal_seq e"
  "en_pinned (truncate_wal a io e) = en_pinned e"
  by (auto simp: truncate_wal_def split: prod.splits sum.splits)

section \<open>Invariant\<close>

definition cold_ok :: "unicode \<Rightarrow> wal_op codec \<Rightarrow> (wal_op \<Rightarrow> wal_op) \<Rightarrow> nat \<Rightarrow> entry \<Rightarrow> bool" where
  "cold_ok U C rt n e \<longleftrightarrow> (\<exists>ops c. dur_cold U C rt n e ops c)"

definition dur :: "unicode \<Rightarrow> wal_op codec \<Rightarrow> (wal_op \<Rightarrow> wal_op) \<Rightarrow> nat \<Rightarrow> entry \<Rightarrow> staged_image option \<Rightarrow> bool" where
  "dur U C rt n e st \<longleftrightarrow>
     (case en_slot e of
        Hot c \<Rightarrow> dur_hot U C rt n e st c
      | Cold \<Rightarrow> cold_ok U C rt n e \<and> (\<forall>s. st = Some s \<longrightarrow> st_generation s \<noteq> en_image_generation e)
      | Deleted \<Rightarrow> False) \<and>
     (\<forall>s. st = Some s \<longrightarrow> en_flushing e \<and> st_generation s \<le> en_image_generation e) \<and> en_image_generation e \<le> n"

lemma cold_ok_mono: "cold_ok U C rt n e \<Longrightarrow> n \<le> m \<Longrightarrow> cold_ok U C rt m e"
  unfolding cold_ok_def dur_cold_def by (blast intro: le_trans)

lemma cold_ok_cong: "cold_ok U C rt n e \<Longrightarrow> en_image e' = en_image e \<Longrightarrow> en_wal e' = en_wal e \<Longrightarrow> cold_ok U C rt n e'"
  unfolding cold_ok_def dur_cold_def by simp

lemma dur_claim:
  assumes "dur U C rt n e st" "n < 2 ^ 64" "flush_claim e = (Some s, e')" shows "dur U C rt n e' (Some s) \<and> st = None"
proof -
  obtain c where c: "en_slot e = Hot c" "en_dirty e" "\<not> en_flushing e" "s = \<lparr>st_bytes = to_bytes (set_applied_seq c (en_wal_seq e - 1)), st_watermark = en_wal_seq e - 1, st_generation = en_image_generation e\<rparr>"
    "e' = e\<lparr>en_flushing := True, en_dirty := False, en_slot := Hot (set_applied_seq c (en_wal_seq e - 1))\<rparr>"
    using assms(3) by (auto simp: flush_claim_def Let_def split: if_splits slot.splits)
  let ?c = "set_applied_seq c (en_wal_seq e - 1)"
  have d: "dur_hot U C rt n e st c" using assms(1) c(1) by (simp add: dur_def)
  obtain recs where r: "hot_ok U C rt n recs e c" "covered U n recs e st c" "image_holds U n (en_wal_seq e - 1) recs (to_bytes ?c) c"
    using fresh_image [OF d assms(2)] by blast
  have w: "en_wal_seq e - 1 < 2 ^ 64" "en_wal_seq e - 1 < en_wal_seq e" "healthy U n c" using r(1) assms(2) by (auto simp: hot_ok_def)
  have "covered U n recs e (Some s) c" using r(2,3) w(2) unfolding covered_def by (auto simp: c(4))
  then have "dur_hot U C rt n e (Some s) c" using r(1) unfolding dur_hot_def by blast
  then have "dur_hot U C rt n e (Some s) ?c" using dur_hot_stored watermark_keeps [OF w(3,1)] by blast
  then have "dur_hot U C rt n e' (Some s) ?c" by (rule dur_hot_cong) (simp_all add: c(5))
  then show ?thesis using assms(1) c by (auto simp: dur_def)
qed

lemma dur_skip:
  assumes "dur U C rt n e st" "flush_claim e = (None, e')" shows "dur U C rt n e' st"
proof -
  have "e' = e \<or> e' = e\<lparr>en_dirty := False\<rparr> \<and> en_slot e = Cold"
    using assms by (auto simp: flush_claim_def dur_def Let_def split: if_splits slot.splits)
  then show ?thesis using assms(1) cold_ok_cong [of U C rt n e e'] by (auto simp: dur_def)
qed

lemma dur_unstaged: "dur U C rt n e st \<Longrightarrow> dur U C rt n (flush_unstaged e) None"
proof -
  assume d: "dur U C rt n e st"
  have "dur_hot U C rt n e st c \<Longrightarrow> dur_hot U C rt n (flush_unstaged e) None c" for c
    by (rule dur_hot_unstage, rule dur_hot_cong [of U C rt n e st]) (simp_all add: flush_unstaged_def)
  moreover have "cold_ok U C rt n e \<Longrightarrow> cold_ok U C rt n (flush_unstaged e)" by (rule cold_ok_cong) (simp_all add: flush_unstaged_def)
  ultimately show ?thesis using d by (auto simp: dur_def flush_unstaged_def split: slot.splits)
qed

lemma dur_publish:
  assumes d: "dur U C rt n e (Some s)" and io: "clean_reset (fl_reset io)" and run: "flush_publish io s e = (b, e')" shows "dur U C rt n e' None"
proof (cases "\<exists>c. en_slot e = Hot c \<and> en_image_generation e = st_generation s")
  case False
  then have e': "e' = e\<lparr>en_flushing := False\<rparr>" using run by (auto simp: flush_publish_def split: slot.splits)
  have "dur_hot U C rt n e (Some s) c \<Longrightarrow> dur_hot U C rt n e' None c" for c
    by (rule dur_hot_unstage, rule dur_hot_cong [of U C rt n e "Some s"]) (simp_all add: e')
  moreover have "cold_ok U C rt n e \<Longrightarrow> cold_ok U C rt n e'" by (rule cold_ok_cong) (simp_all add: e')
  ultimately show ?thesis using d by (auto simp: dur_def e' split: slot.splits)
next
  case True
  then obtain c where c: "en_slot e = Hot c" "en_image_generation e = st_generation s" by blast
  obtain recs where r: "hot_ok U C rt n recs e c" "covered U n recs e (Some s) c" using d c(1) by (auto simp: dur_def dur_hot_def)
  have st: "st_watermark s < en_wal_seq e" "image_holds U n (st_watermark s) recs (st_bytes s) c" using r(2) c(2) by (auto simp: covered_def)
  define e1 where "e1 = e\<lparr>en_image := published_image (fl_publish io) (st_bytes s) (en_image e)\<rparr>"
  have hot1: "hot_ok U C rt n recs e1 c" using r(1) by (simp add: hot_ok_def e1_def)
  have "dur_hot U C rt n e1 None c"
    unfolding dur_hot_def covered_def using hot1 r(2) st
    by (intro exI [of _ recs]) (auto simp: covered_def e1_def published_image_def split: publish_io.splits)
  moreover have "dur_hot U C rt n (truncate_wal (fl_reset_allowed io) (fl_reset io) e1) None c"
    if "fl_publish io = Published" "en_wal_seq e - 1 = st_watermark s"
  proof (rule truncate_wal_dur [OF hot1, where bs = "st_bytes s"])
    show "list_all (\<lambda>r. fst r \<le> en_wal_seq e1 - 1) recs" using r(1) by (auto simp: hot_ok_def list_all_iff e1_def)
  qed (use that st io in \<open>simp_all add: e1_def published_image_def\<close>)
  ultimately have "dur_hot U C rt n e' None c"
    using run c unfolding flush_publish_def c(1) slot.case Let_def e1_def [symmetric]
    by (auto split: if_splits intro: dur_hot_cong)
  moreover have "en_slot e' = Hot c" "en_image_generation e' = en_image_generation e"
    using run unfolding flush_publish_def c(1) slot.case Let_def e1_def [symmetric] using c by (auto split: if_splits simp: e1_def)
  ultimately show ?thesis using d by (auto simp: dur_def)
qed

lemma dur_mono: "dur U C rt n e st \<Longrightarrow> n \<le> m \<Longrightarrow> dur U C rt m e st"
  unfolding dur_def using dur_hot_mono cold_ok_mono by (auto split: slot.splits)

lemma dur_flush:
  assumes d: "dur U C rt n e st" and n: "n < 2 ^ 64" and io: "clean_reset (fl_reset io)" and run: "flush_entry io e = (b, e')" shows "dur U C rt n e' st"
proof (cases "flush_claim e")
  case (Pair so e1)
  show ?thesis
  proof (cases so)
    case None
    then show ?thesis using run Pair dur_skip [OF d] by (simp add: flush_entry_def)
  next
    case (Some s)
    have c: "dur U C rt n e1 (Some s)" "st = None" using dur_claim [OF d n] Pair Some by auto
    then show ?thesis using run Pair Some dur_publish [OF c(1) io, of b e'] dur_unstaged [OF c(1)] by (auto simp: flush_entry_def split: if_splits)
  qed
qed

lemma dur_cool:
  assumes hot: "dur_hot U C rt n e None c" "en_image_generation e \<le> n" "Suc n < 2 ^ 64"
    and st: "\<And>s. st = Some s \<Longrightarrow> en_flushing e \<and> st_generation s \<le> en_image_generation e"
  shows "dur U C rt (Suc n) (cool e) st"
proof -
  have g: "u64_add (en_image_generation e) 1 = Suc (en_image_generation e)" using assms(2,3) by (simp add: u64_add_def)
  have "dur_cold U C rt n (cool e) [] c" by (rule dur_hot_cold [OF hot(1)]) (simp_all add: cool_def)
  then have "cold_ok U C rt n (cool e)" unfolding cold_ok_def by blast
  then have "cold_ok U C rt (Suc n) (cool e)" by (rule cold_ok_mono) simp
  then show ?thesis using st hot(2) g by (fastforce simp: dur_def cool_def)
qed

lemma dur_evict:
  assumes d: "dur U C rt n e st" and n: "Suc n < 2 ^ 64" and io: "clean_reset (fl_reset (ev_flush io))" "clean_reset (ev_reset io)"
    and run: "evict_entry io e = (b, e')"
  shows "dur U C rt (Suc n) e' st"
proof -
  define e1 where "e1 = (if ev_replica io then e else snd (flush_entry (ev_flush io) e))"
  have d1: "dur U C rt n e1 st"
    using d dur_flush [OF d _ io(1)] n unfolding e1_def by (cases "flush_entry (ev_flush io) e") auto
  have up: "dur U C rt (Suc n) x st" if "dur U C rt n x st" for x using dur_mono [OF that, of "Suc n"] by simp
  note R = run [unfolded evict_entry_def Let_def e1_def [symmetric]]
  show ?thesis
  proof (cases "\<exists>c. en_slot e1 = Hot c \<and> \<not> en_pinned e1")
    case False
    then have "e' = e1" using R by (auto split: if_splits slot.splits)
    then show ?thesis using up d1 by simp
  next
    case True
    then obtain c where c: "en_slot e1 = Hot c" "\<not> en_pinned e1" by blast
    have h: "dur_hot U C rt n e1 st c" "en_image_generation e1 \<le> n" "\<And>s. st = Some s \<Longrightarrow> en_flushing e1 \<and> st_generation s \<le> en_image_generation e1"
      using d1 c(1) by (auto simp: dur_def)
    let ?c = "set_applied_seq c (en_wal_seq e1 - 1)"
    define e2 where "e2 = e1\<lparr>en_slot := Hot ?c, en_image := published_image (ev_save io) (to_bytes ?c) (en_image e1)\<rparr>"
    obtain recs where r: "hot_ok U C rt n recs e1 c" "covered U n recs e1 st c" "image_holds U n (en_wal_seq e1 - 1) recs (to_bytes ?c) c"
      "list_all (\<lambda>r. fst r \<le> en_wal_seq e1 - 1) recs" using fresh_image [OF h(1)] n by auto
    have w: "en_wal_seq e1 - 1 < 2 ^ 64" "en_wal_seq e1 - 1 < en_wal_seq e1" "healthy U n c" using r(1) n by (auto simp: hot_ok_def)
    note K = watermark_keeps [OF w(3,1)]
    consider (save) "en_dirty e1 \<or> en_flushing e1" "ev_save io = Published" | (fail) "en_dirty e1 \<or> en_flushing e1" "ev_save io \<noteq> Published" | (clean) "\<not> (en_dirty e1 \<or> en_flushing e1)" by blast
    then show ?thesis
    proof cases
      case clean
      then have "e' = cool e1" using R c by simp
      then show ?thesis using dur_cool [OF dur_hot_unstage [OF h(1)] h(2) n h(3)] by simp
    next
      case save
      let ?e = "truncate_wal (ev_reset_allowed io) (ev_reset io) (e2\<lparr>en_dirty := False\<rparr>)"
      have e': "e' = cool ?e" using R c save by (simp add: e2_def)
      have "dur_hot U C rt n ?e None c"
      proof (rule truncate_wal_dur [where recs = recs and bs = "to_bytes ?c"])
        show "hot_ok U C rt n recs (e2\<lparr>en_dirty := False\<rparr>) c" using r(1) by (simp add: hot_ok_def e2_def)
      qed (use r save io in \<open>simp_all add: e2_def published_image_def\<close>)
      from dur_cool [OF this _ n, of st] show ?thesis unfolding e' using h(2,3) by (simp add: e2_def)
    next
      case fail
      then have e': "e' = e2" using R c by (simp add: e2_def)
      have "covered U n recs e2 st c"
        unfolding covered_def using r(2,3) w(2) by (auto simp: covered_def e2_def published_image_def split: publish_io.splits)
      moreover have "hot_ok U C rt n recs e2 c" using r(1) by (simp add: hot_ok_def e2_def)
      ultimately have "dur_hot U C rt n e2 st ?c" using dur_hot_stored K(1,2) unfolding dur_hot_def by blast
      then show ?thesis using h(2,3) unfolding e' by (intro up) (auto simp: dur_def e2_def)
    qed
  qed
qed

lemma dur_load:
  assumes C: "codec_ok op_ok C rt" and d: "dur U C rt n e st" and n: "Suc n < 2 ^ 64" and io: "good_load io"
  shows "\<exists>e' c'. ensure_hot C U io e = Some (Inr (), e') \<and> en_slot e' = Hot c' \<and> dur U C rt n e' st"
proof (cases "en_slot e")
  case (Hot c)
  then show ?thesis using d by (simp add: ensure_hot_def)
next
  case Cold
  then obtain ops c where c: "dur_cold U C rt n e ops c" using d by (auto simp: dur_def cold_ok_def)
  obtain m e' c' where e': "ensure_hot C U io e = Some (Inr (), e')" "en_slot e' = Hot c'" "dur_hot U C rt n e' None c'"
    "en_image_generation e' = en_image_generation e" "en_flushing e' = en_flushing e"
    using load_dur [OF C c Cold io n] by blast
  have "dur_hot U C rt n e' st c'" using dur_hot_foreign [OF e'(3)] d Cold e'(4) by (auto simp: dur_def)
  then show ?thesis using e' d Cold by (auto simp: dur_def)
next
  case Deleted
  then show ?thesis using d by (simp add: dur_def)
qed

section \<open>Writes\<close>

definition write_env :: "wal_op codec \<Rightarrow> unicode \<Rightarrow> write_config \<Rightarrow> write_io \<Rightarrow> wal_op list \<Rightarrow> entry \<Rightarrow> bool" where
  "write_env C U cfg io ops e \<longleftrightarrow> wc_wal_enabled cfg \<and> good_load (wr_load io) \<and> honest_trunc (wr_rollback io) \<and>
     (\<forall>e1 buf. ensure_hot C U (wr_load io) e = Some (Inr (), e1) \<and> batch_bytes C (en_wal_seq e1) ops = Some buf \<longrightarrow> en_wal_bytes e1 + length buf < 2 ^ 64)"

text \<open>A write that reports the log behind memory has had its flush land and empty the log.\<close>

definition recovered :: "bool \<Rightarrow> entry \<Rightarrow> bool" where
  "recovered behind e' \<longleftrightarrow> (behind \<longrightarrow> \<not> en_dirty e' \<and> wal_text (en_wal e') = [] \<and> en_wal_bytes e' = 0)"

context logged_operation
begin

lemma logged_write_dur:
  assumes C: "codec_ok op_ok C rt" and d: "dur U C rt n e st" and ops: "good ops" "list_all (\<lambda>op. rt op = op) ops"
    and n: "Suc (n + length ops) < 2 ^ 64" and env: "write_env C U cfg io ops e"
    and run: "logged_write C U cfg io ops (operate ops) applied e = (res, behind, e')" and rec: "recovered behind e'"
  shows "\<exists>c e1 c'. ensure_hot C U (wr_load io) e = Some (Inr (), e1) \<and> en_slot e1 = Hot c \<and> en_slot e' = Hot c' \<and> dur U C rt (n + length ops) e' (if behind then None else st) \<and>
    ((\<exists>err. res = Returned (Inl err)) \<and> stored c' = stored c \<or> (\<exists>r d. res = Returned (Inr r) \<and> operate ops c = Some (r, d) \<and> stored c' = stored d))"
proof -
  have E: "wc_wal_enabled cfg" "good_load (wr_load io)" "honest_trunc (wr_rollback io)" using env by (simp_all add: write_env_def)
  obtain e1 c where e1: "ensure_hot C U (wr_load io) e = Some (Inr (), e1)" "en_slot e1 = Hot c" "dur U C rt n e1 st"
    using dur_load [OF C d _ E(2)] n by auto
  have D: "dur_hot U C rt n e1 st c" "en_image_generation e1 \<le> n" "\<And>s. st = Some s \<Longrightarrow> en_flushing e1 \<and> st_generation s \<le> en_image_generation e1"
    using e1(2,3) by (auto simp: dur_def)
  have room: "\<And>buf. batch_bytes C (en_wal_seq e1) ops = Some buf \<Longrightarrow> en_wal_bytes e1 + length buf < 2 ^ 64" using env e1(1) unfolding write_env_def by blast
  obtain e2 where w: "write_hot C cfg io ops (operate ops) applied e1 = (res, behind, e2)" "e' = (if behind then snd (flush_entry (wr_flush io) e2) else e2)"
  proof -
    have "en_slot e \<noteq> Deleted" using d by (auto simp: dur_def)
    then show thesis using that run e1(1) by (cases "write_hot C cfg io ops (operate ops) applied e1") (auto simp: logged_write_def)
  qed
  from write_hot_dur [OF C D(1) e1(2) ops n E(1,3) room w(1)]
  obtain c2 where W: "en_slot e2 = Hot c2" "healthy U (n + length ops) c2" "att_fit c2" "0 < en_wal_seq e2" "en_wal_seq e2 \<le> Suc (n + length ops)"
    "en_image_generation e2 = en_image_generation e1" "en_flushing e2 = en_flushing e1" "behind \<longrightarrow> en_dirty e2" "\<not> behind \<longrightarrow> dur_hot U C rt (n + length ops) e2 st c2"
    "(\<exists>err. res = Returned (Inl err)) \<and> c2 = c \<or> (\<exists>r. res = Returned (Inr r) \<and> operate ops c = Some (r, c2))" by blast
  show ?thesis
  proof (cases behind)
    case False
    then have "dur U C rt (n + length ops) e2 st" using W D(2,3) by (auto simp: dur_def)
    then show ?thesis using e1 W False w(2) by auto
  next
    case True
    obtain b where f: "flush_entry (wr_flush io) e2 = (b, e')" using w(2) True by (cases "flush_entry (wr_flush io) e2") simp
    have r: "\<not> en_dirty e'" "wal_text (en_wal e') = []" "en_wal_bytes e' = 0" using rec True by (simp_all add: recovered_def)
    have nf: "\<not> en_flushing e2"
    proof
      assume "en_flushing e2"
      then have "e' = e2" using f W(8) True by (simp add: flush_entry_def flush_claim_def)
      then show False using r(1) W(8) True by simp
    qed
    have lt: "n + length ops < 2 ^ 64" "en_dirty e2" using n W(8) True by simp_all
    obtain c' where c': "en_slot e' = Hot c'" "stored c' = stored c2" "\<not> en_flushing e'" "en_image_generation e' = en_image_generation e2" "dur_hot U C rt (n + length ops) e' None c'"
      using flush_landed_dur [OF W(1-5) lt nf f r, of C rt] by blast
    have "dur U C rt (n + length ops) e' None" using c' W(6) D(2) by (simp add: dur_def)
    then show ?thesis using e1 c' W(10) True by auto
  qed
qed

end

end
