(* ===== verification/Server.thy ===== *)
theory Server
  imports Durability
begin

text \<open>
  Runs of the server over one context, as a relation on its entry and the flush in flight, and what holds
  of every run: the files read back give the context in memory.
\<close>

section \<open>Runs of the server\<close>

text \<open>
  What can happen to one context, in any order: writes, the halves of a flush with anything in between,
  evictions, loads, and crashes, in the middle of an append too. The disk may fail any operation;
  excluded are a reset of the log that cuts the file and then reports failure, an existing file reported
  as missing, and a write that returns with the log behind memory and its recovery flush missed.
\<close>

inductive serve :: "wal_op codec \<Rightarrow> unicode \<Rightarrow> (wal_op \<Rightarrow> wal_op) \<Rightarrow> nat \<Rightarrow> entry \<Rightarrow> staged_image option \<Rightarrow> bool" for C U rt where
  Created: "create_registered io name pin dfloor epoch = Inr e \<Longrightarrow> serve C U rt 0 e None"
| Wrote: "serve C U rt n e st \<Longrightarrow> list_all (\<lambda>op. op_ok op \<and> rt op = op) ops \<Longrightarrow> write_env C U cfg io ops e \<Longrightarrow>
    logged_write C U cfg io ops (\<lambda>c. apply_in_order U c ops) applied_count e = (res, behind, e') \<Longrightarrow> recovered behind e' \<Longrightarrow>
    serve C U rt (Suc (n + length ops)) e' (if behind then None else st)"
| Retracted: "serve C U rt n e st \<Longrightarrow> retract_batch ops \<Longrightarrow> list_all (\<lambda>op. rt op = op) ops \<Longrightarrow> write_env C U cfg io ops e \<Longrightarrow>
    logged_write C U cfg io ops (retract_operate ops) retract_applied e = (res', behind, e') \<Longrightarrow> recovered behind e' \<Longrightarrow>
    serve C U rt (Suc (n + length ops)) e' (if behind then None else st)"
| Claimed: "serve C U rt n e st \<Longrightarrow> flush_claim e = (Some s, e') \<Longrightarrow> serve C U rt (Suc n) e' (Some s)"
| Skipped: "serve C U rt n e st \<Longrightarrow> flush_claim e = (None, e') \<Longrightarrow> serve C U rt (Suc n) e' st"
| Unstaged: "serve C U rt n e (Some s) \<Longrightarrow> serve C U rt (Suc n) (flush_unstaged e) None"
| Flushed: "serve C U rt n e (Some s) \<Longrightarrow> clean_reset (fl_reset fio) \<Longrightarrow> flush_publish fio s e = (b, e') \<Longrightarrow> serve C U rt (Suc n) e' None"
| Evicted: "serve C U rt n e st \<Longrightarrow> clean_reset (fl_reset (ev_flush vio)) \<Longrightarrow> clean_reset (ev_reset vio) \<Longrightarrow> evict_entry vio e = (b, e') \<Longrightarrow>
    serve C U rt (Suc n) e' st"
| Loaded: "serve C U rt n e st \<Longrightarrow> good_load lio \<Longrightarrow> ensure_hot C U lio e = Some (r, e') \<Longrightarrow> serve C U rt (Suc n) e' st"
| Crashed: "serve C U rt n e st \<Longrightarrow> en_slot e = Hot c \<Longrightarrow> list_all (\<lambda>op. op_ok op \<and> rt op = op) ops \<Longrightarrow> batch_bytes C (en_wal_seq e) ops = Some buf \<Longrightarrow> prefix q buf \<Longrightarrow>
    wal_text wal = wal_text (en_wal e) @ q \<Longrightarrow>
    serve C U rt (Suc (n + length ops)) (cold_from_meta pin dfloor wal_bytes graph_revision epoch (en_image e) wal) None"
| Rebooted: "serve C U rt n e st \<Longrightarrow> en_slot e = Cold \<Longrightarrow> serve C U rt (Suc n) (cold_from_meta pin dfloor wal_bytes graph_revision epoch (en_image e) (en_wal e)) None"

lemma empty_healthy: "healthy U 0 ctx_default" "att_fit ctx_default"
  using reach_inv [OF ctx_reach.Empty, of U] by (simp_all add: healthy_def att_fit_def ctx_default_def)

lemma created_dur:
  assumes "create_registered io name pin dfloor epoch = Inr e" shows "dur U C rt 0 e None"
proof -
  let ?c = "set_dice_floor ctx_default dfloor"
  have e: "e = entry_new (Hot ?c) pin dfloor 0 0 epoch (Some (to_bytes ?c)) None" using assms by (auto simp: create_registered_def Let_def split: if_splits)
  have c: "healthy U 0 ?c" "att_fit ?c" "applied_seq ?c = 0"
    using empty_healthy(1) [of U] empty_healthy(2) settings_keep(2) [of U ctx_default 0 dfloor] by (auto simp: healthy_def att_fit_def set_dice_floor_def ctx_default_def)
  have "image_holds U 0 0 [] (to_bytes ?c) ?c"
    unfolding image_holds_def using c by (intro exI [of _ ?c] exI [of _ 0]) (simp add: pending_ops_def)
  then have "dur_hot U C rt 0 e None ?c"
    unfolding dur_hot_def hot_ok_def covered_def log_holds_def using c by (intro exI [of _ "[]"]) (simp add: e entry_new_def log_ok_def wal_text_def)
  then show ?thesis by (simp add: dur_def e entry_new_def)
qed

lemma crashed_cold:
  assumes dur: "dur_hot U C rt n e st c" and ops: "list_all (\<lambda>op. op_ok op \<and> rt op = op) ops" "batch_bytes C (en_wal_seq e) ops = Some buf" "prefix q buf"
    and e': "en_image e' = en_image e" "wal_text (en_wal e') = wal_text (en_wal e) @ q" and m: "n + length ops \<le> m"
  shows "dur_cold U C rt m e' ops c"
proof -
  obtain recs where h: "hot_ok U C rt n recs e c" "covered U n recs e st c" using dur unfolding dur_hot_def by blast
  obtain w bs where w: "en_image e = Some bs" "w < en_wal_seq e" "image_holds U n w recs bs c" using h(2) unfolding covered_def by blast
  have "torn_holds C rt recs (en_wal_seq e) ops (en_wal e')"
    unfolding torn_holds_def using h(1) ops e'(2) unfolding hot_ok_def log_holds_def by blast
  then show ?thesis unfolding dur_cold_def using h(1) w e'(1) m unfolding hot_ok_def
    by (intro exI [of _ n] exI [of _ recs] exI [of _ "en_wal_seq e"] exI [of _ w] exI [of _ bs]) simp
qed

lemma serve_dur:
  assumes C: "codec_ok op_ok C rt" shows "serve C U rt n e st \<Longrightarrow> Suc n < 2 ^ 64 \<Longrightarrow> dur U C rt n e st"
proof (induction rule: serve.induct)
  case (Created io name pin dfloor epoch e)
  then show ?case using created_dur by blast
next
  case (Wrote n e st ops cfg io res behind e')
  have ops: "list_all op_ok ops" "list_all (\<lambda>op. rt op = op) ops" using Wrote.hyps(2) by (simp_all add: list_all_iff)
  have n: "Suc (n + length ops) < 2 ^ 64" "Suc n < 2 ^ 64" using Wrote.prems by simp_all
  have "dur U C rt (n + length ops) e' (if behind then None else st)"
    using batch.logged_write_dur [OF C Wrote.IH [OF n(2)] ops n(1) Wrote.hyps(3,4,5)] by blast
  then show ?case by (rule dur_mono) simp
next
  case (Retracted n e st ops cfg io res' behind e')
  have n: "Suc (n + length ops) < 2 ^ 64" "Suc n < 2 ^ 64" using Retracted.prems by simp_all
  have "dur U C rt (n + length ops) e' (if behind then None else st)"
    using retraction.logged_write_dur [OF C Retracted.IH [OF n(2)] Retracted.hyps(2,3) n(1) Retracted.hyps(4,5,6)] by blast
  then show ?case by (rule dur_mono) simp
next
  case (Claimed n e st s e')
  have "dur U C rt n e' (Some s)" using dur_claim [OF Claimed.IH _ Claimed.hyps(2)] Claimed.prems by simp
  then show ?case by (rule dur_mono) simp
next
  case (Skipped n e st e')
  have "dur U C rt n e' st" using dur_skip [OF Skipped.IH Skipped.hyps(2)] Skipped.prems by simp
  then show ?case by (rule dur_mono) simp
next
  case (Unstaged n e s)
  have "dur U C rt n (flush_unstaged e) None" using dur_unstaged Unstaged by simp
  then show ?case by (rule dur_mono) simp
next
  case (Flushed n e s fio b e')
  have "dur U C rt n e' None" using dur_publish [OF Flushed.IH Flushed.hyps(2,3)] Flushed.prems by simp
  then show ?case by (rule dur_mono) simp
next
  case (Evicted n e st vio b e')
  then show ?case using dur_evict [OF Evicted.IH _ Evicted.hyps(2-4)] by simp
next
  case (Loaded n e st lio r e')
  have "dur U C rt n e' st" using dur_load [OF C Loaded.IH _ Loaded.hyps(2)] Loaded.prems Loaded.hyps(3) by auto
  then show ?case by (rule dur_mono) simp
next
  case (Crashed n e st c ops buf q wal pin dfloor wal_bytes graph_revision epoch)
  have "dur_hot U C rt n e st c" using Crashed by (simp add: dur_def)
  from crashed_cold [OF this Crashed.hyps(3-5), of "cold_from_meta pin dfloor wal_bytes graph_revision epoch (en_image e) wal" "Suc (n + length ops)"] Crashed.hyps(6)
  have "cold_ok U C rt (Suc (n + length ops)) (cold_from_meta pin dfloor wal_bytes graph_revision epoch (en_image e) wal)"
    unfolding cold_ok_def by (fastforce simp: cold_from_meta_def entry_new_def)
  then show ?case by (simp add: dur_def cold_from_meta_def entry_new_def)
next
  case (Rebooted n e st pin dfloor wal_bytes graph_revision epoch)
  have "cold_ok U C rt n e" using Rebooted by (simp add: dur_def)
  then have "cold_ok U C rt n (cold_from_meta pin dfloor wal_bytes graph_revision epoch (en_image e) (en_wal e))"
    by (rule cold_ok_cong) (simp_all add: cold_from_meta_def entry_new_def)
  then have "cold_ok U C rt (Suc n) (cold_from_meta pin dfloor wal_bytes graph_revision epoch (en_image e) (en_wal e))" by (rule cold_ok_mono) simp
  then show ?case by (simp add: dur_def cold_from_meta_def entry_new_def)
qed

section \<open>Properties\<close>

text \<open>
  C6. What was acknowledged survives a crash. Take any run of the server over a context: writes and
  retractions, flushes whose halves interleave with them, evictions, loads and crashes, with disk
  failures at any step. If the server dies now, even with an arbitrary part of one more batch in the
  log, a start over the two files loads, and the knowledge base is the one in memory at the crash with
  some prefix of that unacknowledged batch applied; with no batch in flight it is exactly that one.
\<close>
theorem acknowledged_writes_survive:
  assumes "codec_ok op_ok C rt" "serve C U rt n e st" "en_slot e = Hot c" "Suc (n + length ops) < 2 ^ 64"
    and "list_all (\<lambda>op. op_ok op \<and> rt op = op) ops" "batch_bytes C (en_wal_seq e) ops = Some buf" "prefix q buf" "wal_text wal = wal_text (en_wal e) @ q" "good_load io"
  shows "\<exists>m e' c' d l. m \<le> length ops \<and>
    ensure_hot C U io (cold_from_meta pin dfloor wal_bytes graph_revision epoch (en_image e) wal) = Some (Inr (), e') \<and> en_slot e' = Hot c' \<and>
    replay_ops U c (take m ops) 0 = Some (d, l) \<and> kb_of c' = kb_of d"
proof -
  let ?e = "cold_from_meta pin dfloor wal_bytes graph_revision epoch (en_image e) wal"
  have hot: "dur_hot U C rt n e st c" using serve_dur [OF assms(1,2)] assms(3,4) by (simp add: dur_def)
  have f: "en_image ?e = en_image e" "en_slot ?e = Cold" "en_wal ?e = wal" by (simp_all add: cold_from_meta_def entry_new_def)
  have "dur_cold U C rt (n + length ops) ?e ops c" using crashed_cold [OF hot assms(5-7) f(1)] assms(8) f(3) by simp
  from load_dur [OF assms(1) this f(2) assms(9,4)] show ?thesis using stored_kb by metis
qed

text \<open>
  C7. A write through the log does what it says or nothing. On any entry a run of the server has left,
  cold or hot, \<open>logged_write\<close> of a batch never panics: it refuses, and the knowledge base is what it
  was, or it answers with the result of applying the batch in order, and the knowledge base is the one
  that application made.
\<close>
theorem logged_write_outcome:
  assumes "codec_ok op_ok C rt" "serve C U rt n e st" "Suc (n + length ops) < 2 ^ 64" "list_all (\<lambda>op. op_ok op \<and> rt op = op) ops" "write_env C U cfg io ops e"
    and "logged_write C U cfg io ops (\<lambda>c. apply_in_order U c ops) applied_count e = (res, behind, e')" "recovered behind e'"
  shows "\<exists>c e1 c'. ensure_hot C U (wr_load io) e = Some (Inr (), e1) \<and> en_slot e1 = Hot c \<and> en_slot e' = Hot c' \<and>
    ((\<exists>err. res = Returned (Inl err)) \<and> kb_of c' = kb_of c \<or> (\<exists>r d. res = Returned (Inr r) \<and> apply_in_order U c ops = Some (r, d) \<and> kb_of c' = kb_of d))"
proof -
  have ops: "list_all op_ok ops" "list_all (\<lambda>op. rt op = op) ops" using assms(4) by (simp_all add: list_all_iff)
  have d: "dur U C rt n e st" using serve_dur [OF assms(1,2)] assms(3) by simp
  from batch.logged_write_dur [OF assms(1) d ops assms(3,5,6,7)] show ?thesis using stored_kb by metis
qed

section \<open>A run\<close>

definition ok_append :: append_io where
  "ok_append = \<lparr>ap_open = None, ap_dir_sync = None, ap_remove = None, ap_dir_resync = None, ap_remove_again = None, ap_meta = None, ap_write = None, ap_rollback = None\<rparr>"

definition ok_load :: load_io where
  "ok_load = \<lparr>ld_quarantined = False, ld_hydrated = True, ld_schema = True, ld_read = None, ld_replay = healthy_io, ld_stat = None\<rparr>"

definition ok_write :: write_io where
  "ok_write = \<lparr>wr_load = ok_load, wr_append = ok_append, wr_rollback = TruncOk, wr_truncate = TruncOk, wr_reappend = ok_append,
     wr_flush = \<lparr>fl_staged = True, fl_publish = Published, fl_reset_allowed = True, fl_reset = TruncOk\<rparr>\<rparr>"

definition demo_config :: write_config where
  "demo_config = \<lparr>wc_wal_enabled = True, wc_wal_max_bytes = 0, wc_storage_bytes = None, wc_disk = \<lparr>du_image = 0, du_passages = 0, du_sidecar = 0, du_passages_wal = 0\<rparr>\<rparr>"

definition demo_created :: entry where
  "demo_created = entry_new (Hot ctx_default) False None 0 0 7 (Some (to_bytes ctx_default)) None"

definition demo_entry :: entry where
  "demo_entry = demo_created\<lparr>en_slot := Hot demo_ctx, en_dirty := True, en_graph_revision := 1, en_wal_seq := 2, en_wal := Some (demo_line 1 @ [NEWLINE]),
     en_wal_bytes := length (demo_line 1 @ [NEWLINE]), en_changes := ring_extend (ring_default 7) [AssociationsAdded 1]\<rparr>"

lemma radix_length: "length (radix_of r n) \<le> Suc n"
proof (induction r n rule: radix_of.induct)
  case (1 r n)
  show ?case
  proof (cases "n < r \<or> r < 2")
    case True
    then show ?thesis by (simp add: radix_of.simps [of r n])
  next
    case False
    then have "n div r < n" by simp
    moreover have "length (radix_of r (n div r)) \<le> Suc (n div r)" by (rule 1 [OF False])
    ultimately have "length (radix_of r (n div r)) \<le> n" by linarith
    then show ?thesis using False by (simp add: radix_of.simps [of r n])
  qed
qed

lemma demo_line_length: "length (demo_line k) < 2 ^ 33 + k + 20"
proof -
  let ?crc = "unat (crc32c (123 # dec_of k @ [CLOSE]))"
  have "?crc < 2 ^ 32" using unsigned_less [of "crc32c (123 # dec_of k @ [CLOSE])"] by simp
  moreover have "length (dec_of ?crc) \<le> Suc ?crc" "length (dec_of k) \<le> Suc k" using radix_length by (simp_all add: dec_of_def)
  ultimately show ?thesis by (simp add: demo_line_def crc_field)
qed

lemma demo_batch: "batch_bytes (demo_codec demo_op) k [demo_op] = Some (demo_line k @ [NEWLINE])"
  by (simp add: demo_record_line)

lemma demo_default: "set_dice_floor ctx_default None = ctx_default"
  by (simp add: set_dice_floor_def ctx_default_def)

lemma demo_wrote:
  "logged_write (demo_codec demo_op) unicode_id demo_config ok_write [demo_op] (\<lambda>c. apply_in_order unicode_id c [demo_op]) applied_count demo_created =
     (Returned (Inr (Inr 1)), False, demo_entry)"
proof -
  have a: "append_batch (demo_codec demo_op) ok_append None 1 [demo_op] = (Inr (length (demo_line 1 @ [NEWLINE])), Some (demo_line 1 @ [NEWLINE]))"
    using demo_batch [of 1] by (simp add: append_batch_def write_batch_def ok_append_def)
  have b: "apply_in_order unicode_id ctx_default [demo_op] = Some (Inr 1, demo_ctx)" using demo_apply by (simp add: apply_in_order_def)
  have l: "u64_add 0 (length (demo_line 1 @ [NEWLINE])) = length (demo_line 1 @ [NEWLINE])" using demo_line_length [of 1] by (simp add: u64_add_def)
  have ev: "events_of_ops [demo_op] = [AssociationsAdded 1]" by (simp add: events_of_ops_def demo_op_def)
  have s: "u64_add 1 1 = 2" "u64_add 0 1 = 1" by (simp_all add: u64_add_def)
  have e: "en_slot demo_created = Hot ctx_default" "en_wal demo_created = None" "en_wal_seq demo_created = 1" "en_wal_bytes demo_created = 0"
    "en_graph_revision demo_created = 0" "en_changes demo_created = ring_default 7" by (simp_all add: demo_created_def entry_new_def)
  let ?e1 = "demo_created\<lparr>en_wal := Some (demo_line 1 @ [NEWLINE]), en_wal_bytes := length (demo_line 1 @ [NEWLINE]), en_wal_seq := 2\<rparr>"
  have "apply_write (demo_codec demo_op) ok_write [demo_op] (\<lambda>c. apply_in_order unicode_id c [demo_op]) applied_count 1 (Some 0) ?e1 = (Returned (Inr (Inr 1)), False, demo_entry)"
    unfolding apply_write_def using b ev s e by (simp add: applied_count_def demo_entry_def)
  moreover have "write_hot (demo_codec demo_op) demo_config ok_write [demo_op] (\<lambda>c. apply_in_order unicode_id c [demo_op]) applied_count demo_created =
     apply_write (demo_codec demo_op) ok_write [demo_op] (\<lambda>c. apply_in_order unicode_id c [demo_op]) applied_count 1 (Some 0) ?e1"
    using a l s e by (simp add: write_hot_def demo_config_def storage_quota_excess_def ok_write_def)
  ultimately show ?thesis by (simp add: logged_write_def ensure_hot_def e)
qed

lemma demo_env: "write_env (demo_codec demo_op) unicode_id demo_config ok_write [demo_op] demo_created"
proof -
  have "en_wal_bytes demo_created + length (demo_line k @ [NEWLINE]) < 2 ^ 64" if "k = en_wal_seq demo_created" for k
    using demo_line_length [of 1] that by (simp add: demo_created_def entry_new_def)
  then show ?thesis using demo_batch
    by (simp add: write_env_def demo_config_def good_load_def ok_write_def ok_load_def honest_trunc_def ensure_hot_def demo_created_def entry_new_def)
qed

lemma demo_served: "serve (demo_codec demo_op) unicode_id id 0 demo_created None" "serve (demo_codec demo_op) unicode_id id 2 demo_entry None"
proof -
  have "create_registered Published [116] False None 7 = Inr demo_created" by (simp add: create_registered_def demo_default demo_created_def)
  then show c: "serve (demo_codec demo_op) unicode_id id 0 demo_created None" by (rule Created)
  show "serve (demo_codec demo_op) unicode_id id 2 demo_entry None"
    using Wrote [OF c _ demo_env demo_wrote] demo_op_ok by (simp add: recovered_def numeral_2_eq_2)
qed

theorem acknowledged_writes_survive_witness:
  "\<exists>m e' c' d l. m \<le> length [demo_op] \<and>
    ensure_hot (demo_codec demo_op) unicode_id ok_load (cold_from_meta False None 0 0 8 (en_image demo_entry) (Some (demo_line 1 @ [NEWLINE] @ take 3 (demo_line 2)))) = Some (Inr (), e') \<and>
    en_slot e' = Hot c' \<and> replay_ops unicode_id demo_ctx (take m [demo_op]) 0 = Some (d, l) \<and> kb_of c' = kb_of d"
proof (rule acknowledged_writes_survive [OF demo_codec_ok demo_served(2)])
  show "batch_bytes (demo_codec demo_op) (en_wal_seq demo_entry) [demo_op] = Some (demo_line 2 @ [NEWLINE])" using demo_batch [of 2] by (simp add: demo_entry_def)
  show "prefix (take 3 (demo_line 2)) (demo_line 2 @ [NEWLINE])" by (rule prefix_prefix, rule take_is_prefix)
qed (simp_all add: demo_entry_def demo_op_ok wal_text_def good_load_def ok_load_def)

theorem logged_write_outcome_witness:
  "\<exists>c e1 c' d. ensure_hot (demo_codec demo_op) unicode_id (wr_load ok_write) demo_created = Some (Inr (), e1) \<and> en_slot e1 = Hot c \<and> en_slot demo_entry = Hot c' \<and>
    apply_in_order unicode_id c [demo_op] = Some (Inr 1, d) \<and> kb_of c' = kb_of d"
  using logged_write_outcome [OF demo_codec_ok demo_served(1) _ _ demo_env demo_wrote] by (auto simp: demo_op_ok recovered_def)

end
