(* ===== verification/Breaker.thy ===== *)
theory Breaker
  imports Context_Base
begin

text \<open>
  The circuit breaker of \<^verbatim>\<open>src/breaker.rs\<close> in front of every optional provider. A \<open>Duration\<close> or an
  \<open>Instant\<close> is a count of nanoseconds; the clock's reading is an argument of the operations that take it,
  and a call's single reading stands for the one or two the code takes under the lock.
\<close>

section \<open>State\<close>

definition DEFAULT_THRESHOLD :: nat where "DEFAULT_THRESHOLD = 3"
definition DEFAULT_COOLDOWN :: nat where "DEFAULT_COOLDOWN = 30 * 10 ^ 9"
definition MIN_PROBE_RECLAIM :: nat where "MIN_PROBE_RECLAIM = 50 * 10 ^ 6"

datatype breaker_state =
    Closed nat
  | Open nat
  | HalfOpen bool nat nat

record breaker =
  br_subject :: rstr
  br_threshold :: nat
  br_cooldown :: nat
  br_state :: breaker_state
  br_opened_total :: nat
  br_short_circuits :: nat
  br_next_probe :: nat
  br_latest_probe :: nat

datatype admission = Normal | Probe nat

record breaker_snapshot =
  sn_state :: nat
  sn_failures :: nat
  sn_opened :: nat
  sn_short_circuits :: nat

definition with_policy :: "rstr \<Rightarrow> nat \<Rightarrow> nat \<Rightarrow> breaker" where
  "with_policy subject threshold cooldown = \<lparr>br_subject = subject, br_threshold = max threshold 1, br_cooldown = cooldown,
     br_state = Closed 0, br_opened_total = 0, br_short_circuits = 0, br_next_probe = 0, br_latest_probe = 0\<rparr>"

definition breaker_new :: "rstr \<Rightarrow> breaker" where
  "breaker_new subject = with_policy subject DEFAULT_THRESHOLD DEFAULT_COOLDOWN"

section \<open>Operations\<close>

text \<open>The generation minted, and the breaker with it as the latest.\<close>

definition next_probe_generation :: "breaker \<Rightarrow> nat \<times> breaker" where
  "next_probe_generation b = (br_next_probe b, b\<lparr>br_next_probe := u64_add (br_next_probe b) 1, br_latest_probe := br_next_probe b\<rparr>)"

definition probe_reclaim_after :: "breaker \<Rightarrow> nat" where
  "probe_reclaim_after b = max (br_cooldown b) MIN_PROBE_RECLAIM"

text \<open>The two refusals; the first carries the whole seconds it names.\<close>

datatype breaker_refusal = OpenRefusal rstr nat nat | ProbeBusy rstr

definition open_refusal :: "breaker \<Rightarrow> nat \<Rightarrow> breaker_refusal" where
  "open_refusal b retry_in = OpenRefusal (br_subject b) (br_threshold b) (max (retry_in div 10 ^ 9) 1)"

definition probe_busy_refusal :: "breaker \<Rightarrow> breaker_refusal" where
  "probe_busy_refusal b = ProbeBusy (br_subject b)"

definition short_circuit :: "breaker \<Rightarrow> breaker" where
  "short_circuit b = b\<lparr>br_short_circuits := u64_add (br_short_circuits b) 1\<rparr>"

definition claim_probe :: "nat \<Rightarrow> breaker \<Rightarrow> (breaker_refusal + admission) \<times> breaker" where
  "claim_probe now b = (let (generation, b') = next_probe_generation b
     in (Inr (Probe generation), b'\<lparr>br_state := HalfOpen True now generation\<rparr>))"

definition admit :: "nat \<Rightarrow> breaker \<Rightarrow> (breaker_refusal + admission) \<times> breaker" where
  "admit now b =
     (case br_state b of
        Closed _ \<Rightarrow> (Inr Normal, b)
      | Open since \<Rightarrow>
          (let elapsed = now - since
           in if br_cooldown b \<le> elapsed then claim_probe now b
              else (Inl (open_refusal b (br_cooldown b - elapsed)), short_circuit b))
      | HalfOpen probing since generation \<Rightarrow>
          (if probing \<and> now - since < probe_reclaim_after b then (Inl (probe_busy_refusal b), short_circuit b)
           else claim_probe now b))"

definition refusal_at :: "nat \<Rightarrow> breaker \<Rightarrow> breaker_refusal option \<times> breaker" where
  "refusal_at now b =
     (let r = (case br_state b of
          Closed _ \<Rightarrow> None
        | Open since \<Rightarrow>
            (let elapsed = now - since in if elapsed < br_cooldown b then Some (open_refusal b (br_cooldown b - elapsed)) else None)
        | HalfOpen probing since generation \<Rightarrow>
            (if probing \<and> now - since < probe_reclaim_after b then Some (probe_busy_refusal b) else None))
      in (r, if r \<noteq> None then short_circuit b else b))"

definition trip :: "nat \<Rightarrow> breaker \<Rightarrow> breaker" where
  "trip now b = b\<lparr>br_state := Open now, br_opened_total := u64_add (br_opened_total b) 1\<rparr>"

definition record_outcome :: "nat \<Rightarrow> breaker \<Rightarrow> admission \<Rightarrow> bool \<Rightarrow> breaker" where
  "record_outcome now b admission success =
     (if (case admission of Probe generation \<Rightarrow> generation \<noteq> br_latest_probe b | Normal \<Rightarrow> False) then b
      else if success then b\<lparr>br_state := Closed 0\<rparr>
      else case (admission, br_state b) of
          (Probe _, _) \<Rightarrow> trip now b
        | (Normal, Closed failures) \<Rightarrow>
            (let failures' = (failures + 1) mod 2 ^ 32
             in if br_threshold b \<le> failures' then trip now b else b\<lparr>br_state := Closed failures'\<rparr>)
        | (Normal, _) \<Rightarrow> b)"

definition abandon :: "breaker \<Rightarrow> admission \<Rightarrow> breaker" where
  "abandon b admission =
     (case (admission, br_state b) of
        (Probe generation, HalfOpen probing since current) \<Rightarrow>
          (if current = generation then b\<lparr>br_state := HalfOpen False since current\<rparr> else b)
      | _ \<Rightarrow> b)"

definition snapshot :: "breaker \<Rightarrow> breaker_snapshot" where
  "snapshot b =
     (let (code, failures) = (case br_state b of Closed n \<Rightarrow> (0, n) | Open _ \<Rightarrow> (1, br_threshold b) | HalfOpen _ _ _ \<Rightarrow> (2, br_threshold b))
      in \<lparr>sn_state = code, sn_failures = failures, sn_opened = br_opened_total b, sn_short_circuits = br_short_circuits b\<rparr>)"

section \<open>Calls in flight\<close>

text \<open>
  A breaker with its clock and the admissions not yet settled. A caller settles its admission with an
  outcome, abandons it, or vanishes without a word; time passes in between.
\<close>

record scene =
  sc_breaker :: breaker
  sc_now :: nat
  sc_flight :: "admission list"

inductive scene_step :: "scene \<Rightarrow> scene \<Rightarrow> bool" where
  Tick: "scene_step s (s\<lparr>sc_now := sc_now s + d\<rparr>)"
| Admitted: "admit (sc_now s) (sc_breaker s) = (Inr a, b) \<Longrightarrow> scene_step s (s\<lparr>sc_breaker := b, sc_flight := a # sc_flight s\<rparr>)"
| Refused: "admit (sc_now s) (sc_breaker s) = (Inl r, b) \<Longrightarrow> scene_step s (s\<lparr>sc_breaker := b\<rparr>)"
| Gated: "refusal_at (sc_now s) (sc_breaker s) = (r, b) \<Longrightarrow> scene_step s (s\<lparr>sc_breaker := b\<rparr>)"
| Settled: "a \<in> set (sc_flight s) \<Longrightarrow>
    scene_step s (s\<lparr>sc_breaker := record_outcome (sc_now s) (sc_breaker s) a success, sc_flight := remove1 a (sc_flight s)\<rparr>)"
| Abandoned: "a \<in> set (sc_flight s) \<Longrightarrow>
    scene_step s (s\<lparr>sc_breaker := abandon (sc_breaker s) a, sc_flight := remove1 a (sc_flight s)\<rparr>)"
| Vanished: "scene_step s (s\<lparr>sc_flight := remove1 a (sc_flight s)\<rparr>)"

inductive scene_reach :: "rstr \<Rightarrow> nat \<Rightarrow> nat \<Rightarrow> nat \<Rightarrow> scene \<Rightarrow> bool" for subject threshold cooldown where
  Start: "scene_reach subject threshold cooldown 0 \<lparr>sc_breaker = with_policy subject threshold cooldown, sc_now = t, sc_flight = []\<rparr>"
| Next: "scene_reach subject threshold cooldown n s \<Longrightarrow> scene_step s s' \<Longrightarrow> scene_reach subject threshold cooldown (Suc n) s'"

inductive_cases scene_stepE: "scene_step s s'"

section \<open>Invariant\<close>

text \<open>
  No closed state holds a threshold's worth of failures, no timestamp lies in the future, every
  generation in flight was minted, no two calls hold the same one, and a half-open breaker is about
  the latest.
\<close>

definition state_inv :: "nat \<Rightarrow> breaker \<Rightarrow> bool" where
  "state_inv now b \<longleftrightarrow>
     (case br_state b of
        Closed failures \<Rightarrow> failures < br_threshold b
      | Open since \<Rightarrow> since \<le> now
      | HalfOpen probing since generation \<Rightarrow> since \<le> now \<and> 0 < br_next_probe b \<and> generation = br_latest_probe b)"

definition mint_inv :: "nat \<Rightarrow> breaker \<Rightarrow> bool" where
  "mint_inv n b \<longleftrightarrow> 0 < br_threshold b \<and> br_next_probe b \<le> n \<and> (0 < br_next_probe b \<longrightarrow> Suc (br_latest_probe b) = br_next_probe b)"

definition probes :: "admission list \<Rightarrow> nat list" where
  "probes as = List.map_filter (\<lambda>a. case a of Probe g \<Rightarrow> Some g | Normal \<Rightarrow> None) as"

definition scene_inv :: "nat \<Rightarrow> scene \<Rightarrow> bool" where
  "scene_inv n s \<longleftrightarrow> state_inv (sc_now s) (sc_breaker s) \<and> mint_inv n (sc_breaker s) \<and>
     distinct (probes (sc_flight s)) \<and> (\<forall>g \<in> set (probes (sc_flight s)). g < br_next_probe (sc_breaker s))"

lemma probes_simps [simp]:
  "probes [] = []" "probes (Normal # as) = probes as" "probes (Probe g # as) = g # probes as"
  by (simp_all add: probes_def List.map_filter_simps)

lemma probes_mem: "Probe g \<in> set as \<Longrightarrow> g \<in> set (probes as)"
  by (induction as) (auto, metis admission.exhaust list.set_intros(2) probes_simps(2,3))

lemma probes_remove1: "set (probes (remove1 a as)) \<subseteq> set (probes as)" "distinct (probes as) \<Longrightarrow> distinct (probes (remove1 a as))"
proof -
  have *: "set (probes (remove1 a as)) \<subseteq> set (probes as) \<and> (distinct (probes as) \<longrightarrow> distinct (probes (remove1 a as)))"
  proof (induction as)
    case (Cons x as)
    then show ?case by (cases x) auto
  qed simp
  show "set (probes (remove1 a as)) \<subseteq> set (probes as)" "distinct (probes as) \<Longrightarrow> distinct (probes (remove1 a as))" using * by blast+
qed

lemma claim_probe_simps:
  "claim_probe now b = (Inr (Probe (br_next_probe b)), b\<lparr>br_next_probe := u64_add (br_next_probe b) 1, br_latest_probe := br_next_probe b,
     br_state := HalfOpen True now (br_next_probe b)\<rparr>)"
  by (simp add: claim_probe_def next_probe_generation_def)

lemma admit_cases:
  "admit now b = (r, b') \<Longrightarrow> (r = Inr Normal \<and> b' = b) \<or> (r, b') = claim_probe now b \<or> (\<exists>e. r = Inl e) \<and> b' = short_circuit b"
  by (auto simp: admit_def Let_def split: breaker_state.splits if_splits)

lemma refusal_at_state: "refusal_at now b = (r, b') \<Longrightarrow> b' = b \<or> b' = short_circuit b"
  by (auto simp: refusal_at_def Let_def split: if_splits)

lemma short_circuit_keeps [simp]:
  "state_inv now (short_circuit b) = state_inv now b" "mint_inv n (short_circuit b) = mint_inv n b" "br_next_probe (short_circuit b) = br_next_probe b"
  by (cases "br_state b"; simp add: short_circuit_def state_inv_def mint_inv_def)+

lemma claim_keeps:
  assumes "mint_inv n b" "Suc n < 2 ^ 64" "claim_probe now b = (r, b')"
  shows "state_inv now b'" "mint_inv (Suc n) b'" "br_next_probe b' = Suc (br_next_probe b)" "r = Inr (Probe (br_next_probe b))"
  using assms by (auto simp: claim_probe_simps state_inv_def mint_inv_def u64_add_def)

lemma record_keeps:
  assumes "state_inv now b" "mint_inv n b"
  shows "state_inv now (record_outcome now b a success)" "mint_inv n (record_outcome now b a success)"
    "br_next_probe (record_outcome now b a success) = br_next_probe b"
  using assms by (auto simp: record_outcome_def trip_def Let_def state_inv_def mint_inv_def split: admission.splits breaker_state.splits)

lemma abandon_keeps:
  assumes "state_inv now b" "mint_inv n b"
  shows "state_inv now (abandon b a)" "mint_inv n (abandon b a)" "br_next_probe (abandon b a) = br_next_probe b"
  using assms by (auto simp: abandon_def state_inv_def mint_inv_def split: admission.splits breaker_state.splits)

lemma mint_mono: "mint_inv n b \<Longrightarrow> mint_inv (Suc n) b"
  by (simp add: mint_inv_def)

lemma step_inv:
  assumes "scene_step s s'" "scene_inv n s" "Suc n < 2 ^ 64" shows "scene_inv (Suc n) s'"
  using assms(1)
proof cases
  case (Tick d)
  then show ?thesis using assms(2) mint_mono by (auto simp: scene_inv_def state_inv_def split: breaker_state.splits)
next
  case (Admitted a b)
  from admit_cases [OF Admitted(2)] consider "a = Normal" "b = sc_breaker s" | "claim_probe (sc_now s) (sc_breaker s) = (Inr a, b)" by auto
  then show ?thesis
  proof cases
    case 1
    then show ?thesis using assms(2) mint_mono by (simp add: scene_inv_def Admitted)
  next
    case 2
    have m: "mint_inv n (sc_breaker s)" using assms(2) by (simp add: scene_inv_def)
    note K = claim_keeps [OF m assms(3) 2]
    then show ?thesis using assms(2) by (auto simp: scene_inv_def Admitted(1) less_Suc_eq)
  qed
next
  case (Refused r b)
  from admit_cases [OF Refused(2)] have "b = short_circuit (sc_breaker s)" by (auto simp: claim_probe_simps)
  then show ?thesis using assms(2) mint_mono by (simp add: scene_inv_def Refused(1))
next
  case (Gated r b)
  from refusal_at_state [OF Gated(2)] show ?thesis using assms(2) mint_mono by (auto simp: scene_inv_def Gated(1))
next
  case (Settled a success)
  then show ?thesis using assms(2) mint_mono record_keeps probes_remove1 [where a = a and as = "sc_flight s"] by (auto simp: scene_inv_def)
next
  case (Abandoned a)
  then show ?thesis using assms(2) mint_mono abandon_keeps probes_remove1 [where a = a and as = "sc_flight s"] by (auto simp: scene_inv_def)
next
  case (Vanished a)
  then show ?thesis using assms(2) mint_mono probes_remove1 [where a = a and as = "sc_flight s"] by (auto simp: scene_inv_def)
qed

lemma scene_reach_inv:
  "scene_reach subject threshold cooldown n s \<Longrightarrow> n < 2 ^ 64 \<Longrightarrow> scene_inv n s \<and> br_cooldown (sc_breaker s) = cooldown"
proof (induction rule: scene_reach.induct)
  case (Start t)
  then show ?case by (simp add: scene_inv_def state_inv_def mint_inv_def with_policy_def)
next
  case (Next n s s')
  have "br_cooldown (sc_breaker s') = br_cooldown (sc_breaker s)" using Next.hyps(2)
  proof cases
    case (Admitted a b)
    then show ?thesis using admit_cases [OF Admitted(2)] by (auto simp: claim_probe_simps short_circuit_def)
  next
    case (Refused r b)
    then show ?thesis using admit_cases [OF Refused(2)] by (auto simp: claim_probe_simps short_circuit_def)
  next
    case (Gated r b)
    then show ?thesis using refusal_at_state [OF Gated(2)] by (auto simp: short_circuit_def)
  qed (auto simp: record_outcome_def trip_def abandon_def Let_def split: admission.splits breaker_state.splits)
  then show ?case using Next step_inv by simp
qed

section \<open>Properties\<close>

text \<open>
  C37. One probe decides. However callers settle late, abandon, or vanish, of any two probes in flight the
  older is without effect: neither its outcome, success or failure, nor its abandonment changes the
  breaker at all.
\<close>
theorem stale_probe_inert:
  assumes "scene_reach subject threshold cooldown n s" "n < 2 ^ 64"
    and "Probe g \<in> set (sc_flight s)" "Probe h \<in> set (sc_flight s)" "g < h"
  shows "record_outcome now (sc_breaker s) (Probe g) success = sc_breaker s \<and> abandon (sc_breaker s) (Probe g) = sc_breaker s"
proof -
  have inv: "scene_inv n s" using scene_reach_inv [OF assms(1,2)] by simp
  have "h < br_next_probe (sc_breaker s)" using probes_mem [OF assms(4)] inv by (auto simp: scene_inv_def)
  then have "g \<noteq> br_latest_probe (sc_breaker s)" using assms(5) inv by (auto simp: scene_inv_def mint_inv_def)
  then show ?thesis using inv
    by (auto simp: record_outcome_def abandon_def scene_inv_def state_inv_def split: breaker_state.splits)
qed

text \<open>
  C38. The breaker always comes back. In every state reached, however the calls in flight have ended or
  not, once the longer of the cooldown and the reclaim floor has passed an attempt is admitted, and
  when that attempt succeeds the breaker is closed with no failures counted.
\<close>
theorem breaker_recovers:
  assumes "scene_reach subject threshold cooldown n s" "n < 2 ^ 64" "sc_now s + max cooldown MIN_PROBE_RECLAIM \<le> now"
  shows "\<exists>a b. admit now (sc_breaker s) = (Inr a, b) \<and> br_state (record_outcome later b a True) = Closed 0"
proof -
  let ?b = "sc_breaker s"
  have inv: "state_inv (sc_now s) ?b" "br_cooldown ?b = cooldown" using scene_reach_inv [OF assms(1,2)] by (simp_all add: scene_inv_def)
  have "admit now ?b = (Inr Normal, ?b) \<or> admit now ?b = claim_probe now ?b"
    using inv assms(3) by (auto simp: admit_def state_inv_def probe_reclaim_after_def Let_def split: breaker_state.splits)
  then show ?thesis
  proof
    assume "admit now ?b = (Inr Normal, ?b)"
    moreover have "br_state (record_outcome later ?b Normal True) = Closed 0" by (simp add: record_outcome_def)
    ultimately show ?thesis by blast
  next
    assume claim: "admit now ?b = claim_probe now ?b"
    show ?thesis unfolding claim claim_probe_simps by (intro exI conjI, rule refl) (simp add: record_outcome_def)
  qed
qed

text \<open>
  The pre-flight gate agrees with admission: \<open>refusal\<close> refuses exactly when \<open>admit\<close> would, with the
  same message and the same effect, one more short circuit counted, and otherwise changes nothing.
\<close>
theorem refusal_agrees:
  "refusal_at now b = (case admit now b of (Inl r, b') \<Rightarrow> (Some r, b') | (Inr _, _) \<Rightarrow> (None, b))"
  by (auto simp: refusal_at_def admit_def claim_probe_simps Let_def split: breaker_state.splits)

text \<open>Ordinary attempts, one after the other, each with its time and its outcome.\<close>

definition settle_all :: "breaker \<Rightarrow> (nat \<times> bool) list \<Rightarrow> breaker" where
  "settle_all b outcomes = foldl (\<lambda>b (t, success). record_outcome t b Normal success) b outcomes"

definition trailing_failures :: "(nat \<times> bool) list \<Rightarrow> nat" where
  "trailing_failures outcomes = length (takeWhile (\<lambda>o'. \<not> snd o') (rev outcomes))"

lemma settle_closed:
  assumes "0 < threshold" "threshold < 2 ^ 32" "\<forall>k \<le> length outcomes. trailing_failures (take k outcomes) < threshold"
  shows "settle_all (with_policy subject threshold cooldown) outcomes =
    (with_policy subject threshold cooldown)\<lparr>br_state := Closed (trailing_failures outcomes)\<rparr>"
  using assms(3)
proof (induction outcomes rule: rev_induct)
  case Nil
  then show ?case by (simp add: settle_all_def trailing_failures_def with_policy_def)
next
  case (snoc x xs)
  have "\<forall>k \<le> length xs. trailing_failures (take k xs) < threshold"
  proof (intro allI impI)
    fix k assume "k \<le> length xs"
    then show "trailing_failures (take k xs) < threshold" using snoc.prems [rule_format, of k] by simp
  qed
  note IH = snoc.IH [OF this]
  have "trailing_failures (xs @ [x]) < threshold" using snoc.prems [rule_format, of "length (xs @ [x])"] by simp
  then show ?case using IH assms(1,2)
    by (cases x) (auto simp: settle_all_def trailing_failures_def record_outcome_def with_policy_def Let_def)
qed

text \<open>
  The breaker opens on the threshold's consecutive failure and not before: while no point of a
  sequence of ordinary outcomes ends a run of that many failures, the breaker is closed and counts the
  present run; the failure that completes a run opens it, at its time, and counts one opening.
\<close>
theorem breaker_opens:
  assumes "0 < threshold" "threshold < 2 ^ 32" "\<forall>k \<le> length outcomes. trailing_failures (take k outcomes) < threshold"
  shows "br_state (settle_all (with_policy subject threshold cooldown) outcomes) = Closed (trailing_failures outcomes) \<and>
    (trailing_failures outcomes + 1 = threshold \<longrightarrow>
      (let b = settle_all (with_policy subject threshold cooldown) (outcomes @ [(t, False)])
       in br_state b = Open t \<and> br_opened_total b = 1))"
proof -
  note S = settle_closed [OF assms, of subject cooldown]
  have snoc: "settle_all b (outcomes @ [x]) = record_outcome (fst x) (settle_all b outcomes) Normal (snd x)" for b x
    by (simp add: settle_all_def split: prod.split)
  show ?thesis unfolding snoc S using assms(1,2) by (auto simp: record_outcome_def trip_def with_policy_def Let_def u64_add_def)
qed

theorem breaker_opens_witness:
  "br_state (settle_all (with_policy [] 2 9) [(5, False)]) = Closed (trailing_failures [(5, False)]) \<and>
    (let b = settle_all (with_policy [] 2 9) ([(5, False)] @ [(6, False)]) in br_state b = Open 6 \<and> br_opened_total b = 1)"
  using breaker_opens [of 2 "[(5, False)]" "[]" 9 6] by (auto simp: trailing_failures_def le_Suc_eq)

section \<open>A breaker with two probes out\<close>

definition demo_scene :: scene where
  "demo_scene = \<lparr>sc_breaker = \<lparr>br_subject = [], br_threshold = 1, br_cooldown = 0, br_state = HalfOpen True 50000000 1, br_opened_total = 1,
     br_short_circuits = 0, br_next_probe = 2, br_latest_probe = 1\<rparr>, sc_now = 50000000, sc_flight = [Probe 1, Probe 0]\<rparr>"

lemma demo_scene_reach: "scene_reach [] 1 0 5 demo_scene"
proof -
  let ?s0 = "\<lparr>sc_breaker = with_policy [] 1 0, sc_now = 0, sc_flight = []\<rparr>"
  let ?b1 = "(with_policy [] 1 0)\<lparr>br_state := Open 0, br_opened_total := 1\<rparr>"
  let ?b2 = "?b1\<lparr>br_state := HalfOpen True 0 0, br_next_probe := 1, br_latest_probe := 0\<rparr>"
  have r0: "scene_reach [] 1 0 0 ?s0" by (rule Start)
  have r1: "scene_reach [] 1 0 (Suc 0) (?s0\<lparr>sc_flight := [Normal]\<rparr>)"
    using Next [OF r0 scene_step.Admitted [of _ Normal "with_policy [] 1 0"]] by (simp add: admit_def with_policy_def)
  have r2: "scene_reach [] 1 0 (Suc (Suc 0)) (?s0\<lparr>sc_breaker := ?b1\<rparr>)"
    using Next [OF r1 scene_step.Settled [of Normal _ False]] by (simp add: record_outcome_def trip_def with_policy_def u64_add_def)
  have r3: "scene_reach [] 1 0 (Suc (Suc (Suc 0))) (?s0\<lparr>sc_breaker := ?b2, sc_flight := [Probe 0]\<rparr>)"
    using Next [OF r2 scene_step.Admitted [of _ "Probe 0" ?b2]] by (simp add: admit_def claim_probe_simps with_policy_def u64_add_def)
  have r4: "scene_reach [] 1 0 (Suc (Suc (Suc (Suc 0)))) (?s0\<lparr>sc_breaker := ?b2, sc_flight := [Probe 0], sc_now := 50000000\<rparr>)"
    using Next [OF r3 scene_step.Tick [of _ 50000000]] by simp
  have "scene_reach [] 1 0 (Suc (Suc (Suc (Suc (Suc 0))))) demo_scene"
    using Next [OF r4 scene_step.Admitted [of _ "Probe 1" "sc_breaker demo_scene"]]
    by (simp add: demo_scene_def admit_def claim_probe_simps with_policy_def u64_add_def probe_reclaim_after_def MIN_PROBE_RECLAIM_def)
  moreover have "Suc (Suc (Suc (Suc (Suc 0)))) = 5" by simp
  ultimately show ?thesis by metis
qed

theorem stale_probe_inert_witness:
  "record_outcome 60000000 (sc_breaker demo_scene) (Probe 0) True = sc_breaker demo_scene \<and> abandon (sc_breaker demo_scene) (Probe 0) = sc_breaker demo_scene"
  by (rule stale_probe_inert [OF demo_scene_reach, of 0 1]) (simp_all add: demo_scene_def)

theorem breaker_recovers_witness:
  "\<exists>a b. admit 100000000 (sc_breaker demo_scene) = (Inr a, b) \<and> br_state (record_outcome 100000001 b a True) = Closed 0"
  by (rule breaker_recovers [OF demo_scene_reach]) (simp_all add: demo_scene_def MIN_PROBE_RECLAIM_def)

end
