(* ===== verification/Paragraph.thy ===== *)
theory Paragraph
  imports Checksum Utf8 Context_Base
begin

text \<open>
  Paragraph splitting (\<^verbatim>\<open>src/paragraph.rs\<close>): the one function that decides where a passage's
  paragraphs begin and end. The single pass over the lines is shown equal to a reference that reads
  the maximal runs of non-blank lines, and no slice it takes can panic.
\<close>

section \<open>Strings of the standard library\<close>

text \<open>\<open>char::is_whitespace\<close>: the Unicode property \<open>White_Space\<close>.\<close>

definition is_whitespace :: "nat \<Rightarrow> bool" where
  "is_whitespace ch \<longleftrightarrow> 0x9 \<le> ch \<and> ch \<le> 0xD \<or> ch = 0x20 \<or> ch = 0x85 \<or> ch = 0xA0 \<or> ch = 0x1680 \<or>
     0x2000 \<le> ch \<and> ch \<le> 0x200A \<or> ch = 0x2028 \<or> ch = 0x2029 \<or> ch = 0x202F \<or> ch = 0x205F \<or> ch = 0x3000"

text \<open>\<open>split_inclusive('\n')\<close>: every line keeps its terminator; there is no empty last line.\<close>

fun split_inclusive :: "rstr \<Rightarrow> rstr list" where
  "split_inclusive [] = []"
| "split_inclusive (b # bs) = (if b = 10 then [b] # split_inclusive bs
     else case split_inclusive bs of [] \<Rightarrow> [[b]] | l # ls \<Rightarrow> (b # l) # ls)"

text \<open>\<open>s.strip_suffix(b).unwrap_or(s)\<close>.\<close>

definition strip_byte :: "u8 \<Rightarrow> rstr \<Rightarrow> rstr" where
  "strip_byte b s = (if s \<noteq> [] \<and> last s = b then butlast s else s)"

text \<open>\<open>&s[i..j]\<close> of a \<open>str\<close>: panics out of range and inside a character.\<close>

definition is_char_boundary :: "rstr \<Rightarrow> nat \<Rightarrow> bool" where
  "is_char_boundary s i \<longleftrightarrow> i = 0 \<or> i = length s \<or> i < length s \<and> \<not> utf8_cont (s ! i)"

definition str_slice :: "rstr \<Rightarrow> nat \<Rightarrow> nat \<Rightarrow> rstr option" where
  "str_slice s i j = (if is_char_boundary s i \<and> is_char_boundary s j then slice_opt s i j else None)"

section \<open>Splitting\<close>

record paragraph_span =
  ps_index :: nat
  ps_start :: nat
  ps_end :: nat
  ps_hash :: "64 word"

definition line_content :: "rstr \<Rightarrow> rstr" where
  "line_content line = strip_byte 13 (strip_byte 10 line)"

definition blank_line :: "rstr \<Rightarrow> bool" where
  "blank_line line \<longleftrightarrow> list_all is_whitespace (chars (line_content line))"

definition flush_run :: "rstr \<Rightarrow> paragraph_span list \<Rightarrow> (nat \<times> nat) option \<Rightarrow> paragraph_span list option" where
  "flush_run txt spans run =
     (case run of None \<Rightarrow> Some spans
      | Some (i, j) \<Rightarrow> map_option (\<lambda>t. spans @ [\<lparr>ps_index = length spans mod 2 ^ 32, ps_start = i, ps_end = j, ps_hash = fnv1a t\<rparr>]) (str_slice txt i j))"

type_synonym split_state = "paragraph_span list \<times> (nat \<times> nat) option \<times> nat"

fun line_step :: "rstr \<Rightarrow> split_state \<Rightarrow> rstr \<Rightarrow> split_state option" where
  "line_step txt (spans, run, offset) line =
     (if blank_line line then map_option (\<lambda>ss. (ss, None, offset + length line)) (flush_run txt spans run)
      else
        let stop = (offset + length (line_content line)) mod 2 ^ 32
        in Some (spans, Some (case run of Some (i, _) \<Rightarrow> (i, stop) | None \<Rightarrow> (offset mod 2 ^ 32, stop)), offset + length line))"

definition paragraph_split :: "rstr \<Rightarrow> paragraph_span list option" where
  "paragraph_split txt =
     (if u32_max < length txt then None
      else do {
        (spans, run, _) \<leftarrow> foldM (line_step txt) ([], None, 0) (split_inclusive txt);
        flush_run txt spans run })"

section \<open>The reference\<close>

text \<open>A run of lines as one text: the terminator of its last line left out.\<close>

definition run_text :: "rstr list \<Rightarrow> rstr" where
  "run_text g = concat (butlast g) @ line_content (last g)"

lemma rest_shorter: "dropWhile P ls \<noteq> [] \<Longrightarrow> length (dropWhile (Not \<circ> P) (dropWhile P ls)) < length ls"
proof -
  assume "dropWhile P ls \<noteq> []"
  then obtain x xs where x: "dropWhile P ls = x # xs" "\<not> P x" by (metis hd_dropWhile list.exhaust_sel)
  have "length (dropWhile (Not \<circ> P) (x # xs)) \<le> length xs" using x(2) by (simp add: length_dropWhile_le)
  moreover have "length (x # xs) \<le> length ls" by (metis x(1) length_dropWhile_le)
  ultimately show ?thesis using x by simp
qed

text \<open>The maximal runs of non-blank lines, each with the offset of its first byte.\<close>

function paragraphs_from :: "nat \<Rightarrow> rstr list \<Rightarrow> (nat \<times> rstr) list" where
  "paragraphs_from off ls =
     (let start = off + length (concat (takeWhile blank_line ls)); rest = dropWhile blank_line ls; run = takeWhile (Not \<circ> blank_line) rest
      in if rest = [] then [] else (start, run_text run) # paragraphs_from (start + length (concat run)) (dropWhile (Not \<circ> blank_line) rest))"
  by pat_completeness auto
termination
  by (relation "measure (\<lambda>(_, ls). length ls)") (simp_all add: rest_shorter)

declare paragraphs_from.simps [simp del]

section \<open>Lines and characters\<close>

lemma concat_split_inclusive [simp]: "concat (split_inclusive bs) = bs"
  by (induction bs) (auto split: list.splits)

text \<open>Every line but the last ends in the terminator.\<close>

fun lines_ok :: "rstr list \<Rightarrow> bool" where
  "lines_ok [] \<longleftrightarrow> True"
| "lines_ok (l # ls) \<longleftrightarrow> l \<noteq> [] \<and> (ls \<noteq> [] \<longrightarrow> last l = 10) \<and> lines_ok ls"

lemma lines_ok_split: "lines_ok (split_inclusive bs)"
proof (induction bs)
  case (Cons b bs)
  then show ?case by (cases "split_inclusive bs") auto
qed simp

lemma lines_ok_append: "lines_ok (xs @ ys) \<Longrightarrow> lines_ok ys \<and> (\<forall>x \<in> set xs. x \<noteq> []) \<and> (xs \<noteq> [] \<and> ys \<noteq> [] \<longrightarrow> last (concat xs) = 10)"
  by (induction xs) (auto simp: last_append)

lemma line_content_split:
  obtains u where "line = line_content line @ u" "u = [] \<Longrightarrow> line = [] \<or> last line \<noteq> 10" "u \<noteq> [] \<Longrightarrow> hd u = 10 \<or> hd u = 13"
proof -
  have s: "\<exists>u. l = strip_byte b l @ u \<and> (u = [] \<longrightarrow> l = [] \<or> last l \<noteq> b) \<and> (u \<noteq> [] \<longrightarrow> u = [b])" for b :: u8 and l
    by (cases l rule: rev_cases) (auto simp: strip_byte_def)
  obtain u v where u: "line = strip_byte 10 line @ u" "u = [] \<longrightarrow> line = [] \<or> last line \<noteq> 10" "u \<noteq> [] \<longrightarrow> u = [10]"
    and v: "strip_byte 10 line = line_content line @ v" "v \<noteq> [] \<longrightarrow> v = [13]"
    using s [of line 10] s [of "strip_byte 10 line" 13] unfolding line_content_def by blast
  have "line = line_content line @ v @ u" using u(1) unfolding v(1) by simp
  moreover have "hd (v @ u) = 10 \<or> hd (v @ u) = 13" if "v @ u \<noteq> []" using that u(3) v(2) by (cases "v = []") auto
  ultimately show ?thesis using that [of "v @ u"] u(2) by simp
qed

lemma utf8_step_used:
  assumes "utf8_step bs = Some (ch, rest)"
  shows "\<exists>used. bs = used @ rest \<and> used \<noteq> [] \<and> \<not> utf8_cont (hd used) \<and> (length used \<noteq> 1 \<longrightarrow> (\<forall>b \<in> set used. 128 \<le> unat b))"
proof (cases bs)
  case (Cons a as)
  consider "rest = as" "\<not> utf8_cont a" | b where "as = b # rest" "128 \<le> unat b" "194 \<le> unat a"
    | b d where "as = b # d # rest" "128 \<le> unat b" "128 \<le> unat d" "194 \<le> unat a"
    | b d e where "as = b # d # e # rest" "128 \<le> unat b" "128 \<le> unat d" "128 \<le> unat e" "194 \<le> unat a"
  proof (cases "u8_in 0 127 a")
    case True
    then show ?thesis using assms that(1) by (simp add: Cons u8_in_def)
  next
    case a: False
    show ?thesis
    proof (cases "u8_in 194 223 a")
      case True
      then show ?thesis using assms a that(2) by (auto simp: Cons u8_in_def split: list.splits if_splits)
    next
      case b: False
      show ?thesis
      proof (cases "u8_in 224 239 a")
        case True
        then show ?thesis using assms a b that(3) unfolding Cons utf8_step.simps if_not_P [OF a] if_not_P [OF b] if_P [OF True]
          by (fastforce simp: u8_in_def split: list.splits if_splits)
      next
        case False
        have "u8_in 240 244 a" using assms a b False by (simp add: Cons split: if_splits)
        then show ?thesis using assms a b False that(4) unfolding Cons utf8_step.simps if_not_P [OF a] if_not_P [OF b] if_not_P [OF False] if_P [OF \<open>u8_in 240 244 a\<close>]
          by (fastforce simp: u8_in_def split: list.splits if_splits)
      qed
    qed
  qed
  then show ?thesis
  proof cases
    case 1
    then show ?thesis using Cons by (intro exI [of _ "[a]"]) auto
  next
    case 2
    then show ?thesis using Cons by (intro exI [of _ "[a, b]"]) (auto simp: u8_in_def)
  next
    case 3
    then show ?thesis using Cons by (intro exI [of _ "[a, b, d]"]) (auto simp: u8_in_def)
  next
    case 4
    then show ?thesis using Cons by (intro exI [of _ "[a, b, d, e]"]) (auto simp: u8_in_def)
  qed
qed (use assms in simp)

lemma utf8_valid_step: "utf8_valid bs \<Longrightarrow> bs \<noteq> [] \<Longrightarrow> \<exists>ch rest. utf8_step bs = Some (ch, rest) \<and> utf8_valid rest"
  unfolding utf8_valid_def utf8_decode.simps [of bs] by (auto split: option.splits)

text \<open>A byte after an ASCII one starts a character.\<close>

lemma valid_after_ascii:
  "utf8_valid bs \<Longrightarrow> unat (bs ! i) < 128 \<Longrightarrow> Suc i < length bs \<Longrightarrow> \<not> utf8_cont (bs ! Suc i)"
proof (induction "length bs" arbitrary: bs i rule: less_induct)
  case less
  have "bs \<noteq> []" using less.prems(3) by auto
  from utf8_valid_step [OF less.prems(1) this] obtain ch rest where r: "utf8_step bs = Some (ch, rest)" "utf8_valid rest" by blast
  obtain used where u: "bs = used @ rest" "used \<noteq> []" "length used \<noteq> 1 \<Longrightarrow> \<forall>b \<in> set used. 128 \<le> unat b"
    using utf8_step_used [OF r(1)] by blast
  show ?case
  proof (cases "i < length used")
    case False
    then show ?thesis using less.hyps [of rest "i - length used"] less.prems r(2) u by (auto simp: nth_append Suc_diff_le)
  next
    case True
    then have "length used = 1" using less.prems(2) u(1,3) nth_mem [OF True] by (fastforce simp: nth_append)
    then have i: "i = 0" "bs ! Suc i = rest ! 0" "rest \<noteq> []" using True u(1) less.prems(3) by (auto simp: nth_append)
    from utf8_valid_step [OF r(2) i(3)] obtain ch' rest' where "utf8_step rest = Some (ch', rest')" by blast
    from utf8_step_used [OF this] i(2) show ?thesis by (auto simp: nth_append hd_conv_nth)
  qed
qed

section \<open>The pass\<close>

text \<open>What is left to report when the lines \<open>g\<close> from offset \<open>i\<close> are pending.\<close>

definition pending_from :: "nat \<Rightarrow> rstr list \<Rightarrow> rstr list \<Rightarrow> (nat \<times> rstr) list" where
  "pending_from i g ls = (if g = [] then paragraphs_from i ls
     else let run = g @ takeWhile (Not \<circ> blank_line) ls
          in (i, run_text run) # paragraphs_from (i + length (concat run)) (dropWhile (Not \<circ> blank_line) ls))"

lemma paragraphs_from_run:
  assumes "dropWhile blank_line ls \<noteq> []"
  shows "paragraphs_from i ls = (i + length (concat (takeWhile blank_line ls)), run_text (takeWhile (Not \<circ> blank_line) (dropWhile blank_line ls))) #
    paragraphs_from (i + length (concat (takeWhile blank_line ls)) + length (concat (takeWhile (Not \<circ> blank_line) (dropWhile blank_line ls))))
      (dropWhile (Not \<circ> blank_line) (dropWhile blank_line ls))"
  unfolding paragraphs_from.simps [of i ls] Let_def if_not_P [OF assms] by (rule refl)

lemma paragraphs_from_blank: "blank_line l \<Longrightarrow> paragraphs_from i (l # ls) = paragraphs_from (i + length l) ls"
  by (simp add: paragraphs_from.simps [of i] paragraphs_from.simps [of "i + length l"] Let_def add.assoc)

lemma pending_blank: "blank_line l \<Longrightarrow> pending_from i g (l # ls) =
    (if g = [] then [] else [(i, run_text g)]) @ pending_from (i + length (concat (g @ [l]))) [] ls"
  by (simp add: pending_from_def paragraphs_from_blank add.assoc)

lemma pending_more: "\<not> blank_line l \<Longrightarrow> pending_from i g (l # ls) = pending_from i (g @ [l]) ls"
  by (simp add: pending_from_def paragraphs_from.simps [of i "l # ls"] Let_def)

lemma pending_Nil: "pending_from i g [] = (if g = [] then [] else [(i, run_text g)])"
  by (simp add: pending_from_def paragraphs_from.simps Let_def)

definition span_of :: "nat \<times> nat \<times> rstr \<Rightarrow> paragraph_span" where
  "span_of p = (case p of (k, i, t) \<Rightarrow> \<lparr>ps_index = k, ps_start = i, ps_end = i + length t, ps_hash = fnv1a t\<rparr>)"

definition run_of :: "nat \<Rightarrow> rstr list \<Rightarrow> (nat \<times> nat) option" where
  "run_of i g = (if g = [] then None else Some (i, i + length (run_text g)))"

text \<open>The slice of a pending run is its text.\<close>

lemma run_slice:
  assumes valid: "utf8_valid txt" and t: "txt = pre @ concat g @ concat ls" and ok: "lines_ok (g @ ls)" and pre: "g @ ls \<noteq> [] \<longrightarrow> pre = [] \<or> last pre = 10" and g: "g \<noteq> []"
  shows "str_slice txt (length pre) (length pre + length (run_text g)) = Some (run_text g)"
proof -
  obtain h l where h: "g = h @ [l]" using g by (cases g rule: rev_cases) auto
  obtain u where u: "l = line_content l @ u" "u = [] \<Longrightarrow> l = [] \<or> last l \<noteq> 10" "u \<noteq> [] \<Longrightarrow> hd u = 10 \<or> hd u = 13"
    using line_content_split [of l] by blast
  have r: "run_text g = concat h @ line_content l" by (simp add: run_text_def h)
  have c: "concat g = run_text g @ u" unfolding r append_assoc u(1) [symmetric] by (simp add: h)
  have start: "is_char_boundary txt (length pre)"
  proof (cases "pre = [] \<or> concat g @ concat ls = []")
    case False
    then have p: "txt ! (length pre - 1) = 10" "Suc (length pre - 1) = length pre" "length pre < length txt"
      using pre g t by (auto simp: nth_append last_conv_nth)
    then show ?thesis using valid_after_ascii [OF valid, of "length pre - 1"] by (simp add: is_char_boundary_def)
  qed (auto simp: is_char_boundary_def t)
  have stop: "is_char_boundary txt (length pre + length (run_text g))"
  proof (cases u)
    case Nil
    have "l \<noteq> [] \<and> (ls \<noteq> [] \<longrightarrow> last l = 10)" using lines_ok_append [of h "l # ls"] ok by (simp add: h)
    then have "ls = []" using u(2) Nil by auto
    then show ?thesis using c t Nil by (simp add: is_char_boundary_def)
  next
    case (Cons b v)
    then have "txt ! (length pre + length (run_text g)) = b" using c t by (simp add: nth_append)
    moreover have "length pre + length (run_text g) < length txt" using c t Cons by simp
    ultimately show ?thesis using u(3) Cons by (auto simp: is_char_boundary_def u8_in_def)
  qed
  show ?thesis using start stop c t by (simp add: str_slice_def slice_opt_def)
qed

lemma flush_run_pending:
  assumes "utf8_valid txt" "txt = pre @ concat g @ concat ls" "lines_ok (g @ ls)" "g @ ls \<noteq> [] \<longrightarrow> pre = [] \<or> last pre = 10" "length spans < 2 ^ 32"
  shows "flush_run txt spans (run_of (length pre) g) = Some (spans @ (if g = [] then [] else [span_of (length spans, length pre, run_text g)]))"
  using run_slice [OF assms(1-4)] assms(5) by (simp add: flush_run_def run_of_def span_of_def)

lemma line_loop:
  assumes "utf8_valid txt" "length txt \<le> u32_max"
  shows "txt = pre @ concat g @ concat ls \<Longrightarrow> lines_ok (g @ ls) \<Longrightarrow> g @ ls \<noteq> [] \<longrightarrow> pre = [] \<or> last pre = 10 \<Longrightarrow> length spans \<le> length pre \<Longrightarrow>
    (foldM (line_step txt) (spans, run_of (length pre) g, length pre + length (concat g)) ls \<bind> (\<lambda>(ss, run, _). flush_run txt ss run)) =
    Some (spans @ map span_of (enumerate (length spans) (pending_from (length pre) g ls)))"
proof (induction ls arbitrary: pre g spans)
  case Nil
  then have "length spans < 2 ^ 32" using assms(2) by (simp add: u32_max_def)
  with flush_run_pending [OF assms(1) Nil.prems(1-3)] show ?case by (simp add: pending_Nil)
next
  case (Cons l ls)
  have b: "length pre + length (concat g) + length l \<le> u32_max" using Cons.prems(1) assms(2) by simp
  have l: "l \<noteq> []" "ls \<noteq> [] \<longrightarrow> last l = 10" "\<forall>x \<in> set g. x \<noteq> []" using lines_ok_append [OF Cons.prems(2)] by auto
  show ?case
  proof (cases "blank_line l")
    case True
    let ?new = "if g = [] then [] else [span_of (length spans, length pre, run_text g)]"
    have "flush_run txt spans (run_of (length pre) g) = Some (spans @ ?new)"
      using flush_run_pending [OF assms(1) Cons.prems(1-3)] Cons.prems(4) b by (simp add: u32_max_def)
    then have "line_step txt (spans, run_of (length pre) g, length pre + length (concat g)) l =
        Some (spans @ ?new, run_of (length (pre @ concat g @ l)) [], length (pre @ concat g @ l) + length (concat []))"
      using True by (simp add: run_of_def)
    moreover have "length (spans @ ?new) \<le> length (pre @ concat g @ l)" using Cons.prems(4) l(1) by (cases l) auto
    moreover have "lines_ok ([] @ ls)" "txt = (pre @ concat g @ l) @ concat [] @ concat ls" using Cons.prems(1) lines_ok_append [OF Cons.prems(2)] by auto
    moreover have "[] @ ls \<noteq> [] \<longrightarrow> pre @ concat g @ l = [] \<or> last (pre @ concat g @ l) = 10" using l by simp
    ultimately show ?thesis
      using Cons.IH [of "pre @ concat g @ l" "[]" "spans @ ?new"] True by (auto simp: pending_blank add.assoc)
  next
    case False
    have "length (run_text (g @ [l])) = length (concat g) + length (line_content l)" by (simp add: run_text_def)
    moreover have "length (line_content l) \<le> length l" using line_content_split [of l] by (metis length_append le_add1)
    ultimately have "line_step txt (spans, run_of (length pre) g, length pre + length (concat g)) l =
        Some (spans, run_of (length pre) (g @ [l]), length pre + length (concat (g @ [l])))"
      using False b by (auto simp: run_of_def Let_def u32_max_def)
    then show ?thesis using Cons.IH [of pre "g @ [l]" spans] Cons.prems False by (simp add: pending_more)
  qed
qed

section \<open>The order of the reference\<close>

lemma run_text_shorter:
  assumes "g \<noteq> []" "last g \<noteq> []" "last (concat g) = 10"
  shows "length (run_text g) < length (concat g)"
proof (cases g rule: rev_cases)
  case (snoc h l)
  have l: "l \<noteq> []" "last l = 10" using assms(2,3) by (simp_all add: snoc)
  obtain u where u: "l = line_content l @ u" "u = [] \<Longrightarrow> l = [] \<or> last l \<noteq> 10" using line_content_split [of l] by blast
  have "u \<noteq> []" using u(2) l by blast
  then have "length (line_content l) < length l" using arg_cong [OF u(1), of length] by simp
  then show ?thesis by (simp add: run_text_def snoc)
qed (use assms in simp)

lemma line_content_nonblank: "\<not> blank_line l \<Longrightarrow> line_content l \<noteq> []"
  by (auto simp: blank_line_def chars_def utf8_decode.simps)

text \<open>A run's text is not empty and ends before the line terminator of its last line, if it has one.\<close>

lemma paragraphs_from_order:
  "lines_ok ls \<Longrightarrow> (\<forall>(i, t) \<in> set (paragraphs_from off ls). off \<le> i \<and> t \<noteq> []) \<and>
     sorted_wrt (\<lambda>(i, t) (j, _). i + length t < j) (paragraphs_from off ls)"
proof (induction off ls rule: paragraphs_from.induct)
  case (1 off ls)
  let ?gap = "takeWhile blank_line ls" and ?rest = "dropWhile blank_line ls"
  let ?run = "takeWhile (Not \<circ> blank_line) ?rest" and ?more = "dropWhile (Not \<circ> blank_line) ?rest"
  let ?start = "off + length (concat ?gap)"
  show ?case
  proof (cases "?rest = []")
    case False
    have ne: "?run \<noteq> []" using hd_dropWhile [OF False] False by (cases ?rest) auto
    have l: "lines_ok ?rest" "lines_ok ?more" "?more \<noteq> [] \<Longrightarrow> last (concat ?run) = 10"
      using lines_ok_append [of ?gap ?rest] lines_ok_append [of ?run ?more] 1(2) ne by simp_all
    have ih: "\<forall>(i, t) \<in> set (paragraphs_from (?start + length (concat ?run)) ?more). ?start + length (concat ?run) \<le> i \<and> t \<noteq> []"
      "sorted_wrt (\<lambda>(i, t) (j, _). i + length t < j) (paragraphs_from (?start + length (concat ?run)) ?more)"
      using 1(1) [OF refl refl refl False l(2)] by blast+
    have nb: "\<not> blank_line (last ?run)" using set_takeWhileD [of "last ?run" "Not \<circ> blank_line" ?rest] last_in_set [OF ne] by simp
    have t: "run_text ?run \<noteq> []" using line_content_nonblank [OF nb] by (simp add: run_text_def)
    have m: "?start + length (run_text ?run) < j" if "(j, t) \<in> set (paragraphs_from (?start + length (concat ?run)) ?more)" for j t
    proof -
      have "paragraphs_from k [] = []" for k by (simp add: paragraphs_from.simps)
      then have "?more \<noteq> []" using that by (metis list.set(1) empty_iff)
      moreover have "last ?run \<noteq> []" using lines_ok_append [of ?run ?more] l(1) last_in_set [OF ne] by simp
      ultimately have "length (run_text ?run) < length (concat ?run)" using run_text_shorter [OF ne] l(3) by blast
      then show ?thesis using ih(1) that by fastforce
    qed
    have p: "paragraphs_from off ls = (?start, run_text ?run) # paragraphs_from (?start + length (concat ?run)) ?more"
      by (rule paragraphs_from_run [OF False])
    show ?thesis unfolding p using ih t m by fastforce
  qed (simp add: paragraphs_from.simps [of off ls] Let_def)
qed

section \<open>Properties\<close>

lemma paragraphs_from_slices:
  assumes "utf8_valid txt"
  shows "txt = pre @ concat ls \<Longrightarrow> lines_ok ls \<Longrightarrow> ls \<noteq> [] \<longrightarrow> pre = [] \<or> last pre = 10 \<Longrightarrow>
    (i, t) \<in> set (paragraphs_from (length pre) ls) \<Longrightarrow> str_slice txt i (i + length t) = Some t"
proof (induction "length pre" ls arbitrary: pre rule: paragraphs_from.induct)
  case (1 ls)
  let ?gap = "takeWhile blank_line ls" and ?rest = "dropWhile blank_line ls"
  let ?run = "takeWhile (Not \<circ> blank_line) ?rest" and ?more = "dropWhile (Not \<circ> blank_line) ?rest"
  have False: "?rest \<noteq> []" using 1(5) by (cases "?rest = []") (simp_all add: paragraphs_from.simps [of "length pre" ls] Let_def)
  have ne: "?run \<noteq> []" using hd_dropWhile [OF False] False by (cases ?rest) auto
  have spl: "txt = (pre @ concat ?gap) @ concat ?run @ concat ?more"
    using 1(2) by (metis append_assoc concat_append takeWhile_dropWhile_id)
  have l: "lines_ok ?rest" "lines_ok ?more" "?more \<noteq> [] \<Longrightarrow> last (concat ?run) = 10" "\<forall>x \<in> set ?run. x \<noteq> []" "?gap \<noteq> [] \<Longrightarrow> last (concat ?gap) = 10"
      "\<forall>x \<in> set ?gap. x \<noteq> []"
    using lines_ok_append [of ?gap ?rest] lines_ok_append [of ?run ?more] 1(3) ne False by simp_all
  have cr: "concat ?run \<noteq> []" using ne l(4) last_in_set by fastforce
  have pre': "pre @ concat ?gap = [] \<or> last (pre @ concat ?gap) = 10"
  proof (cases "?gap = []")
    case True
    then show ?thesis using 1(4) False by auto
  next
    case gap: False
    then have "concat ?gap \<noteq> []" using l(6) last_in_set by fastforce
    then show ?thesis using l(5) [OF gap] by (simp only: last_append if_False simp_thms)
  qed
  have p: "paragraphs_from (length pre) ls = (length (pre @ concat ?gap), run_text ?run) # paragraphs_from (length ((pre @ concat ?gap) @ concat ?run)) ?more"
    using paragraphs_from_run [OF False, of "length pre"] by (simp only: length_append)
  consider "i = length (pre @ concat ?gap)" "t = run_text ?run" | "(i, t) \<in> set (paragraphs_from (length ((pre @ concat ?gap) @ concat ?run)) ?more)"
    using 1(5) unfolding p by (simp only: list.set insert_iff prod.inject) blast
  then show ?case
  proof cases
    case 1
    have "lines_ok (?run @ ?more)" using l(1) by simp
    then show ?thesis using run_slice [OF assms spl _ _ ne] pre' 1 by blast
  next
    case 2
    show ?thesis
    proof (rule 1(1) [OF refl refl refl False _ _ l(2) _ 2])
      show "length pre + length (concat ?gap) + length (concat ?run) = length ((pre @ concat ?gap) @ concat ?run)" by simp
      show "txt = ((pre @ concat ?gap) @ concat ?run) @ concat ?more" using spl by simp
      show "?more \<noteq> [] \<longrightarrow> (pre @ concat ?gap) @ concat ?run = [] \<or> last ((pre @ concat ?gap) @ concat ?run) = 10"
        using l(3) cr by (simp only: last_append if_False simp_thms) blast
    qed
  qed
qed

text \<open>
  C39. Splitting a text of at most \<open>u32::MAX\<close> bytes into paragraphs never panics, and reports exactly the
  maximal runs of non-blank lines, numbered from zero: each span starts at the first byte of its run and
  ends before the terminator of its last line, its bytes are the text the hash is of, it is not empty,
  and it ends before the next one starts.
\<close>
theorem paragraph_split_correct:
  assumes "utf8_valid txt" "length txt \<le> u32_max"
  shows "\<exists>ps. ps = paragraphs_from 0 (split_inclusive txt) \<and> paragraph_split txt = Some (map span_of (enumerate 0 ps)) \<and>
    list_all (\<lambda>(i, t). t \<noteq> [] \<and> str_slice txt i (i + length t) = Some t) ps \<and> sorted_wrt (\<lambda>(i, t) (j, _). i + length t < j) ps"
proof -
  let ?ls = "split_inclusive txt"
  have "paragraph_split txt = Some (map span_of (enumerate 0 (paragraphs_from 0 ?ls)))"
    using line_loop [OF assms, of "[]" "[]" ?ls "[]"] assms(2) lines_ok_split [of "txt"]
    by (simp add: paragraph_split_def run_of_def pending_from_def)
  moreover have "str_slice txt i (i + length t) = Some t" if "(i, t) \<in> set (paragraphs_from 0 ?ls)" for i t
    using paragraphs_from_slices [OF assms(1), of "[]" ?ls] that lines_ok_split [of "txt"] by simp
  ultimately show ?thesis using paragraphs_from_order [OF lines_ok_split [of "txt"], of 0] by (fastforce simp: list_all_iff)
qed

definition demo_text :: rstr where
  "demo_text = [97, 10, 98, 13, 10, 32, 10, 10, 99]"

theorem paragraph_split_correct_witness:
  "\<exists>ps. ps = paragraphs_from 0 (split_inclusive demo_text) \<and> paragraph_split demo_text = Some (map span_of (enumerate 0 ps)) \<and>
    list_all (\<lambda>(i, t). t \<noteq> [] \<and> str_slice demo_text i (i + length t) = Some t) ps \<and> sorted_wrt (\<lambda>(i, t) (j, _). i + length t < j) ps"
  by (rule paragraph_split_correct) (simp_all add: demo_text_def utf8_valid_ascii u32_max_def)

end
