(* ===== verification/Consolidation.thy ===== *)
theory Consolidation
  imports Explore Codec Numerals "HOL-Library.Multiset"
begin

text \<open>
  Consolidation candidates (\<^verbatim>\<open>src/context/consolidation.rs\<close>): the structural evidence behind merging two
  concepts, the subjects that hold several objects under one label, and the facts whose sources disagree
  in sign. Each is shown to be a reading of the facts and the names alone, fingerprint included, so that no
  record id leaks into it. A deadline is a predicate of the number of polls made before.
\<close>

section \<open>The question mark on a fallible read\<close>

definition or_expired :: "(deadline_exceeded + 'a) option \<Rightarrow> ('a \<Rightarrow> (deadline_exceeded + 'b) option) \<Rightarrow> (deadline_exceeded + 'b) option" where
  "or_expired m f = (case m of None \<Rightarrow> None | Some (Inl x) \<Rightarrow> Some (Inl x) | Some (Inr a) \<Rightarrow> f a)"

lemma or_expired_simps [simp]:
  "or_expired (Some (Inl x)) f = Some (Inl x)" "or_expired (Some (Inr a)) f = f a" "or_expired None f = None"
  by (simp_all add: or_expired_def)

section \<open>Merge evidence\<close>

text \<open>A direction, a label and the other end; a \<open>BTreeSet\<close> of them is an ascending list.\<close>

type_synonym neighbor = "nat \<times> nat \<times> nat"

record neighbor_fact =
  nf_direction :: rstr
  nf_label :: rstr
  nf_other :: rstr

record merge_evidence =
  me_overlap :: f64
  me_shared_total :: nat
  me_only_a_total :: nat
  me_only_b_total :: nat
  me_shared :: "neighbor_fact list"
  me_only_a :: "neighbor_fact list"
  me_only_b :: "neighbor_fact list"
  me_fingerprint :: "64 word"

fun neighbor_scan ::
    "ctx \<Rightarrow> nat set \<Rightarrow> (nat \<Rightarrow> bool) \<Rightarrow> nat \<Rightarrow> (edge_record \<Rightarrow> nat) \<Rightarrow> nat \<Rightarrow> neighbor list \<Rightarrow> nat list \<Rightarrow> (deadline_exceeded + nat \<times> neighbor list) option" where
  "neighbor_scan c hidden expired direction other tick found [] = Some (Inr (tick, found))"
| "neighbor_scan c hidden expired direction other tick found (e # es) =
     (if expired tick then Some (Inl DeadlineExceeded)
      else do {
        r \<leftarrow> nth_opt (edges c) e;
        neighbor_scan c hidden expired direction other (tick + 1)
          (if 0 < ed_count r \<and> ed_label r \<notin> hidden then insort_insert (direction, ed_label r, other r) found else found) es })"

definition neighbor_set ::
    "ctx \<Rightarrow> nat set \<Rightarrow> (nat \<Rightarrow> bool) \<Rightarrow> nat \<Rightarrow> nat \<Rightarrow> (deadline_exceeded + nat \<times> neighbor list) option" where
  "neighbor_set c hidden expired tick i = do {
     out \<leftarrow> outgoing c i;
     or_expired (neighbor_scan c hidden expired 0 ed_object tick [] out) (\<lambda>(tick1, found). do {
       inc \<leftarrow> incoming c i;
       neighbor_scan c hidden expired 1 ed_subject tick1 found inc }) }"

definition materialize :: "ctx \<Rightarrow> neighbor \<Rightarrow> neighbor_fact option" where
  "materialize c p = (case p of (direction, label, other) \<Rightarrow> do {
     l \<leftarrow> label_name c label;
     n \<leftarrow> concept_name c other;
     Some \<lparr>nf_direction = (if direction = 0 then bytes ''out'' else bytes ''in''), nf_label = l, nf_other = n\<rparr> })"

definition render_fact :: "nat \<times> rstr \<times> rstr \<Rightarrow> rstr" where
  "render_fact p = (case p of (direction, l, n) \<Rightarrow> dec_of direction @ bytes ''|'' @ l @ bytes ''|'' @ n)"

fun fact_strings :: "ctx \<Rightarrow> (nat \<Rightarrow> bool) \<Rightarrow> nat \<Rightarrow> rstr list \<Rightarrow> neighbor list \<Rightarrow> (deadline_exceeded + nat \<times> rstr list) option" where
  "fact_strings c expired tick strings [] = Some (Inr (tick, sort strings))"
| "fact_strings c expired tick strings ((direction, label, other) # rest) =
     (if expired tick then Some (Inl DeadlineExceeded)
      else do {
        l \<leftarrow> label_name c label;
        n \<leftarrow> concept_name c other;
        fact_strings c expired (tick + 1) (strings @ [render_fact (direction, l, n)]) rest })"

fun fold_sections :: "ctx \<Rightarrow> (nat \<Rightarrow> bool) \<Rightarrow> nat \<Rightarrow> 64 word \<Rightarrow> (rstr \<times> neighbor list) list \<Rightarrow> (deadline_exceeded + 64 word) option" where
  "fold_sections c expired tick digest [] = Some (Inr digest)"
| "fold_sections c expired tick digest ((tag, found) # rest) =
     or_expired (fact_strings c expired tick [] found)
       (\<lambda>(tick1, strings). fold_sections c expired tick1 (foldl fold_field (fold_field digest tag) strings) rest)"

definition merge_evidence_of ::
    "ctx \<Rightarrow> rstr \<Rightarrow> rstr \<Rightarrow> nat \<Rightarrow> rstr list \<Rightarrow> (nat \<Rightarrow> bool) \<Rightarrow> (deadline_exceeded + merge_evidence option) option" where
  "merge_evidence_of c a b cap excluded expired =
     (case (concept_ids c a, concept_ids c b) of
        (Some a_id, Some b_id) \<Rightarrow>
          (let hidden = hidden_labels c excluded in
           or_expired (neighbor_set c hidden expired 0 a_id) (\<lambda>(tick1, a_set).
           or_expired (neighbor_set c hidden expired tick1 b_id) (\<lambda>(tick2, b_set).
             let shared = filter (\<lambda>x. x \<in> set b_set) a_set;
                 only_a = filter (\<lambda>x. x \<notin> set b_set) a_set;
                 only_b = filter (\<lambda>x. x \<notin> set a_set) b_set;
                 union = length shared + length only_a + length only_b;
                 (p, q, first_only, second_only) = (if a \<le> b then (a, b, only_a, only_b) else (b, a, only_b, only_a));
                 digest = fold_field (fold_field (fold_field FNV1A_OFFSET (bytes ''merge'')) p) q
             in or_expired (fold_sections c expired tick2 digest [(bytes ''s'', shared), (bytes ''f'', first_only), (bytes ''g'', second_only)]) (\<lambda>fingerprint. do {
                  s \<leftarrow> mapM (materialize c) (take cap shared);
                  x \<leftarrow> mapM (materialize c) (take cap only_a);
                  y \<leftarrow> mapM (materialize c) (take cap only_b);
                  Some (Inr (Some \<lparr>me_overlap = (if union = 0 then f64_zero else f64_div (f64_of_nat (length shared)) (f64_of_nat union)),
                    me_shared_total = length shared, me_only_a_total = length only_a, me_only_b_total = length only_b,
                    me_shared = s, me_only_a = x, me_only_b = y, me_fingerprint = fingerprint\<rparr>)) }))))
      | _ \<Rightarrow> Some (Inr None))"

section \<open>Contradictions\<close>

record object_row =
  or_object :: rstr
  or_weight :: f64
  or_count :: nat
  or_sources :: "rstr list"

record contradiction_group =
  cg_subject :: rstr
  cg_label :: rstr
  cg_tendency :: f64
  cg_objects :: "object_row list"
  cg_fingerprint :: "64 word"

text \<open>
  The grouping table and the counters are hash maps in the code; no read depends on their iteration
  order, and here they are ascending lists and a map.
\<close>

type_synonym edge_groups = "((nat \<times> nat) \<times> nat list) list"

definition push_group :: "edge_groups \<Rightarrow> nat \<times> nat \<Rightarrow> nat \<Rightarrow> edge_groups" where
  "push_group groups key e = bt_insert key ((case map_of groups key of None \<Rightarrow> [] | Some es \<Rightarrow> es) @ [e]) groups"

fun group_scan :: "ctx \<Rightarrow> (nat \<Rightarrow> bool) \<Rightarrow> edge_groups \<Rightarrow> nat list \<Rightarrow> (deadline_exceeded + edge_groups) option" where
  "group_scan c expired groups [] = Some (Inr groups)"
| "group_scan c expired groups (e # es) =
     (if expired e then Some (Inl DeadlineExceeded)
      else do {
        r \<leftarrow> nth_opt (edges c) e;
        group_scan c expired (if ed_count r = 0 then groups else push_group groups (ed_subject r, ed_label r) e) es })"

definition count_label :: "(nat \<rightharpoonup> nat \<times> nat) \<Rightarrow> (nat \<times> nat) \<times> nat list \<Rightarrow> (nat \<rightharpoonup> nat \<times> nat)" where
  "count_label m g = (case g of ((_, label), es) \<Rightarrow>
     (let (single, seen) = (case m label of None \<Rightarrow> (0, 0) | Some p \<Rightarrow> p)
      in m(label \<mapsto> (if length es = 1 then single + 1 else single, seen + 1))))"

definition object_row_of :: "ctx \<Rightarrow> nat \<Rightarrow> object_row option" where
  "object_row_of c e = do {
     r \<leftarrow> nth_opt (edges c) e;
     ob \<leftarrow> concept_name c (ed_object r);
     chain \<leftarrow> attribution_chain c (ed_first_attribution r);
     records \<leftarrow> mapM (nth_opt (attributions c)) chain;
     names \<leftarrow> mapM (\<lambda>a. source_name c (at_source a)) (filter (\<lambda>a. \<not> f64_eq (at_sum a) f64_zero) records);
     Some \<lparr>or_object = ob, or_weight = f64_div (ed_sum r) (f64_of_nat (ed_count r)), or_count = ed_count r, or_sources = names\<rparr> }"

definition fold_row :: "64 word \<Rightarrow> object_row \<Rightarrow> 64 word" where
  "fold_row digest row =
     foldl fold_field (fnv1a_fold (fnv1a_fold (fold_field digest (or_object row)) (le_bytes 8 (or_count row))) (le_f64 (or_weight row)))
       (sort (or_sources row))"

definition group_digest :: "rstr \<Rightarrow> rstr \<Rightarrow> object_row list \<Rightarrow> 64 word" where
  "group_digest subject label rows =
     foldl fold_row (fold_field (fold_field (fold_field FNV1A_OFFSET (bytes ''objects'')) subject) label) (sort_key or_object rows)"

definition contradiction_groups :: "ctx \<Rightarrow> (nat \<Rightarrow> bool) \<Rightarrow> (deadline_exceeded + contradiction_group list) option" where
  "contradiction_groups c expired =
     or_expired (group_scan c expired [] [0..<length (edges c)]) (\<lambda>groups.
       let label_subjects = foldl count_label Map.empty groups;
           candidates = sort_key (\<lambda>((subject, label), _). (label, subject)) (filter (\<lambda>(_, es). 2 \<le> length es) groups)
       in map_option Inr (mapM (\<lambda>((subject, label), es). do {
            (single, seen) \<leftarrow> label_subjects label;
            objects \<leftarrow> mapM (object_row_of c) es;
            s \<leftarrow> concept_name c subject;
            l \<leftarrow> label_name c label;
            Some \<lparr>cg_subject = s, cg_label = l, cg_tendency = f64_div (f64_of_nat single) (f64_of_nat seen),
              cg_objects = objects, cg_fingerprint = group_digest s l objects\<rparr> }) candidates))"

section \<open>Sign conflicts\<close>

record sign_conflict =
  sc_subject :: rstr
  sc_label :: rstr
  sc_object :: rstr
  sc_weight :: f64
  sc_count :: nat
  sc_supporting :: "rstr list"
  sc_disputing :: "rstr list"
  sc_fingerprint :: "64 word"

definition conflict_digest :: "rstr \<Rightarrow> rstr \<Rightarrow> rstr \<Rightarrow> nat \<Rightarrow> f64 \<Rightarrow> rstr list \<Rightarrow> rstr list \<Rightarrow> 64 word" where
  "conflict_digest subject label object n net supporting disputing =
     (let d = foldl fold_field FNV1A_OFFSET [bytes ''contested'', subject, label, object];
          d1 = fnv1a_fold (fnv1a_fold d (le_bytes 8 n)) (le_f64 net)
      in foldl (\<lambda>d (tag, side). foldl fold_field (fold_field d tag) (sort side)) d1 [(bytes ''+'', supporting), (bytes ''-'', disputing)])"

definition conflict_at :: "ctx \<Rightarrow> nat \<Rightarrow> sign_conflict list option" where
  "conflict_at c e = do {
     r \<leftarrow> nth_opt (edges c) e;
     if ed_count r = 0 then Some []
     else do {
       chain \<leftarrow> attribution_chain c (ed_first_attribution r);
       records \<leftarrow> mapM (nth_opt (attributions c)) chain;
       supporting \<leftarrow> mapM (\<lambda>a. source_name c (at_source a)) (filter (\<lambda>a. f64_lt f64_zero (at_sum a)) records);
       disputing \<leftarrow> mapM (\<lambda>a. source_name c (at_source a)) (filter (\<lambda>a. \<not> f64_lt f64_zero (at_sum a) \<and> f64_lt (at_sum a) f64_zero) records);
       if supporting = [] \<or> disputing = [] then Some []
       else do {
         s \<leftarrow> concept_name c (ed_subject r);
         l \<leftarrow> label_name c (ed_label r);
         ob \<leftarrow> concept_name c (ed_object r);
         Some [\<lparr>sc_subject = s, sc_label = l, sc_object = ob, sc_weight = f64_div (ed_sum r) (f64_of_nat (ed_count r)), sc_count = ed_count r,
           sc_supporting = supporting, sc_disputing = disputing,
           sc_fingerprint = conflict_digest s l ob (ed_count r) (ed_sum r) supporting disputing\<rparr>] } } }"

fun conflict_scan :: "ctx \<Rightarrow> (nat \<Rightarrow> bool) \<Rightarrow> nat list \<Rightarrow> (deadline_exceeded + sign_conflict list) option" where
  "conflict_scan c expired [] = Some (Inr [])"
| "conflict_scan c expired (e # es) =
     (if expired e then Some (Inl DeadlineExceeded)
      else do {
        here \<leftarrow> conflict_at c e;
        or_expired (conflict_scan c expired es) (\<lambda>rest. Some (Inr (here @ rest))) })"

definition sign_conflicts :: "ctx \<Rightarrow> (nat \<Rightarrow> bool) \<Rightarrow> (deadline_exceeded + sign_conflict list) option" where
  "sign_conflicts c expired = conflict_scan c expired [0..<length (edges c)]"

section \<open>Polls\<close>

text \<open>The deadline fires at one of \<open>n\<close> polls from the poll \<open>t\<close> on.\<close>

definition polled :: "(nat \<Rightarrow> bool) \<Rightarrow> nat \<Rightarrow> nat \<Rightarrow> bool" where
  "polled expired t n \<longleftrightarrow> (\<exists>i \<in> {t..<t + n}. expired i)"

lemma polled_0 [simp]: "\<not> polled expired t 0"
  by (simp add: polled_def)

lemma polled_Suc: "polled expired t (Suc n) \<longleftrightarrow> expired t \<or> polled expired (Suc t) n"
proof -
  have "{t..<t + Suc n} = insert t {Suc t..<Suc t + n}" by auto
  then show ?thesis by (simp add: polled_def)
qed

lemma polled_add: "polled expired t (m + n) \<longleftrightarrow> polled expired t m \<or> polled expired (t + m) n"
  by (induction m arbitrary: t) (auto simp: polled_Suc)

section \<open>Neighbourhoods on facts\<close>

definition neighborhood :: "kb \<Rightarrow> rstr list \<Rightarrow> rstr \<Rightarrow> (nat \<times> rstr \<times> rstr) set" where
  "neighborhood k excluded n =
     (\<lambda>x. (0, fa_label x, fa_object x)) ` {x \<in> set (kb_facts k). 0 < fa_count x \<and> shown k excluded x \<and> fa_subject x = n} \<union>
     (\<lambda>x. (1, fa_label x, fa_subject x)) ` {x \<in> set (kb_facts k). 0 < fa_count x \<and> shown k excluded x \<and> fa_object x = n}"

definition incidence :: "kb \<Rightarrow> rstr \<Rightarrow> nat" where
  "incidence k n = length (filter (\<lambda>x. fa_subject x = n) (kb_facts k)) + length (filter (\<lambda>x. fa_object x = n) (kb_facts k))"

lemma neighbor_scan_spec:
  "\<forall>e \<in> set es. e < length (edges c) \<Longrightarrow> neighbor_scan c hidden expired d other tick found es =
     Some (if polled expired tick (length es) then Inl DeadlineExceeded
       else Inr (tick + length es, foldl (\<lambda>s x. insort_insert x s) found
         (map (\<lambda>e. (d, ed_label (edges c ! e), other (edges c ! e))) (filter (\<lambda>e. 0 < ed_count (edges c ! e) \<and> ed_label (edges c ! e) \<notin> hidden) es))))"
  by (induction es arbitrary: tick found) (auto simp: polled_Suc)

lemma insort_all:
  assumes "sorted s" "distinct s"
  shows "sorted (foldl (\<lambda>s x. insort_insert x s) s xs) \<and> distinct (foldl (\<lambda>s x. insort_insert x s) s xs) \<and>
    set (foldl (\<lambda>s x. insort_insert x s) s xs) = set s \<union> set (xs :: 'a::linorder list)"
  using assms by (induction xs arbitrary: s) (auto simp: sorted_insort_insert distinct_insort_insert set_insort_insert)

text \<open>The names of a neighbour.\<close>

definition named :: "ctx \<Rightarrow> neighbor \<Rightarrow> nat \<times> rstr \<times> rstr" where
  "named c p = (case p of (d, l, n) \<Rightarrow> (d, lname c l, cname c n))"

definition neighbor_ok :: "ctx \<Rightarrow> neighbor \<Rightarrow> bool" where
  "neighbor_ok c p \<longleftrightarrow> (case p of (d, l, n) \<Rightarrow> l < length (labels c) \<and> n < length (concepts c))"

lemma named_inj:
  assumes "ctx_inv U c"
  shows "inj_on (named c) {p. neighbor_ok c p}"
proof (rule inj_onI)
  note N = name_ids [OF ctx_invD(1) [OF assms]]
  fix p q assume "p \<in> {p. neighbor_ok c p}" "q \<in> {p. neighbor_ok c p}" "named c p = named c q"
  then show "p = q" using N(1,2) by (auto simp: named_def neighbor_ok_def) (metis option.inject)+
qed

lemma incidence_owned:
  assumes inv: "ctx_inv U c" and i: "i < length (concepts c)"
  shows "length (owned ed_subject (edges c) i) + length (owned ed_object (edges c) i) = incidence (kb_of c) (cname c i)"
proof -
  note I = ctx_invD [OF inv]
  have q: "cname c j = cname c i \<longleftrightarrow> j = i" if "j < length (concepts c)" for j
    using name_ids(1) [OF I(1)] i that by (metis option.inject)
  have "owned ed_subject (edges c) i = filter (\<lambda>e. fa_subject (fact_of c e) = cname c i) [0..<length (edges c)]"
    "owned ed_object (edges c) i = filter (\<lambda>e. fa_object (fact_of c e) = cname c i) [0..<length (edges c)]"
    unfolding owned_def by (rule filter_cong, use edge_bounds [OF I(5)] q in \<open>auto simp: fact_names\<close>)+
  then show ?thesis by (simp add: incidence_def kb_of_def facts_def filter_map comp_def)
qed

lemma neighbor_set_spec:
  assumes inv: "ctx_inv U c" and i: "i < length (concepts c)" and hidden: "hidden = hidden_labels c excluded" and k: "k = kb_of c"
  shows "\<exists>xs. neighbor_set c hidden expired tick i =
      Some (if polled expired tick (incidence k (cname c i)) then Inl DeadlineExceeded else Inr (tick + incidence k (cname c i), xs)) \<and>
    sorted xs \<and> distinct xs \<and> (\<forall>p \<in> set xs. neighbor_ok c p) \<and> named c ` set xs = neighborhood k excluded (cname c i)"
proof -
  note I = ctx_invD [OF inv]
  let ?out = "owned ed_subject (edges c) i" and ?inc = "owned ed_object (edges c) i"
  let ?live = "\<lambda>e. 0 < ed_count (edges c ! e) \<and> ed_label (edges c ! e) \<notin> hidden"
  let ?xs = "map (\<lambda>e. (0 :: nat, ed_label (edges c ! e), ed_object (edges c ! e))) (filter ?live ?out)"
  let ?ys = "map (\<lambda>e. (1 :: nat, ed_label (edges c ! e), ed_subject (edges c ! e))) (filter ?live ?inc)"
  define zs where "zs = foldl (\<lambda>s x. insort_insert x s) [] (?xs @ ?ys)"
  have z: "sorted zs" "distinct zs" "set zs = set ?xs \<union> set ?ys"
    using insort_all [of "[]" "?xs @ ?ys"] unfolding zs_def set_append by simp_all
  have "neighbor_set c hidden expired tick i =
      Some (if polled expired tick (length ?out + length ?inc) then Inl DeadlineExceeded else Inr (tick + (length ?out + length ?inc), zs))"
    unfolding neighbor_set_def chain_reads(1,2) [OF inv i] zs_def
    by (simp add: neighbor_scan_spec set_owned polled_add)
  then have run: "neighbor_set c hidden expired tick i =
      Some (if polled expired tick (incidence k (cname c i)) then Inl DeadlineExceeded else Inr (tick + incidence k (cname c i), zs))"
    unfolding k incidence_owned [OF inv i] .
  have q: "cname c j = cname c i \<longleftrightarrow> j = i" if "j < length (concepts c)" for j
    using name_ids(1) [OF I(1)] i that by (metis option.inject)
  have h: "?live e \<longleftrightarrow> 0 < fa_count (fact_of c e) \<and> shown k excluded (fact_of c e)" if "e < length (edges c)" for e
    using hidden_labels_names [OF inv, of excluded] edge_bounds(3) [OF I(5) that] by (simp add: hidden k shown_def fact_names)
  have F: "set (kb_facts k) = fact_of c ` {..<length (edges c)}" by (auto simp: k kb_of_def facts_def)
  have ok: "\<forall>p \<in> set zs. neighbor_ok c p" using edge_bounds [OF I(5)] by (auto simp: z(3) set_owned neighbor_ok_def)
  have "named c ` set ?xs = (\<lambda>x. (0, fa_label x, fa_object x)) ` {x \<in> set (kb_facts k). 0 < fa_count x \<and> shown k excluded x \<and> fa_subject x = cname c i}"
    using edge_bounds(1) [OF I(5)] q h by (fastforce simp: F named_def set_owned fact_names image_iff)
  moreover have "named c ` set ?ys = (\<lambda>x. (1, fa_label x, fa_subject x)) ` {x \<in> set (kb_facts k). 0 < fa_count x \<and> shown k excluded x \<and> fa_object x = cname c i}"
    using edge_bounds(2) [OF I(5)] q h by (fastforce simp: F named_def set_owned fact_names image_iff)
  ultimately have "named c ` set zs = neighborhood k excluded (cname c i)" unfolding z(3) image_Un neighborhood_def by simp
  then show ?thesis using run z(1,2) ok by blast
qed

section \<open>The fingerprint of a pair\<close>

definition section_strings :: "(nat \<times> rstr \<times> rstr) set \<Rightarrow> rstr list" where
  "section_strings S = sorted_list_of_multiset (image_mset render_fact (mset_set S))"

definition merge_digest :: "rstr \<Rightarrow> rstr \<Rightarrow> (nat \<times> rstr \<times> rstr) set \<Rightarrow> (nat \<times> rstr \<times> rstr) set \<Rightarrow> 64 word" where
  "merge_digest a b A B =
     (let (p, q, F, G) = (if a \<le> b then (a, b, A - B, B - A) else (b, a, B - A, A - B))
      in foldl (\<lambda>d (tag, S). foldl fold_field (fold_field d tag) (section_strings S))
           (foldl fold_field FNV1A_OFFSET [bytes ''merge'', p, q]) [(bytes ''s'', A \<inter> B), (bytes ''f'', F), (bytes ''g'', G)])"

definition fact_of_neighbor :: "nat \<times> rstr \<times> rstr \<Rightarrow> neighbor_fact" where
  "fact_of_neighbor p = (case p of (d, l, n) \<Rightarrow> \<lparr>nf_direction = (if d = 0 then bytes ''out'' else bytes ''in''), nf_label = l, nf_other = n\<rparr>)"

text \<open>A list of evidence: the first \<open>cap\<close> of some enumeration of the set, without repetition.\<close>

definition capped :: "nat \<Rightarrow> (nat \<times> rstr \<times> rstr) set \<Rightarrow> neighbor_fact list \<Rightarrow> bool" where
  "capped cap S xs \<longleftrightarrow> (\<exists>ys. distinct ys \<and> set ys = S \<and> xs = map fact_of_neighbor (take cap ys))"

definition evidence_ok :: "rstr \<Rightarrow> rstr \<Rightarrow> nat \<Rightarrow> (nat \<times> rstr \<times> rstr) set \<Rightarrow> (nat \<times> rstr \<times> rstr) set \<Rightarrow> merge_evidence \<Rightarrow> bool" where
  "evidence_ok a b cap A B ev \<longleftrightarrow>
     me_overlap ev = (if A \<union> B = {} then f64_zero else f64_div (f64_of_nat (card (A \<inter> B))) (f64_of_nat (card (A \<union> B)))) \<and>
     me_shared_total ev = card (A \<inter> B) \<and> me_only_a_total ev = card (A - B) \<and> me_only_b_total ev = card (B - A) \<and>
     capped cap (A \<inter> B) (me_shared ev) \<and> capped cap (A - B) (me_only_a ev) \<and> capped cap (B - A) (me_only_b ev) \<and>
     me_fingerprint ev = merge_digest a b A B"

lemma fact_strings_spec:
  assumes inv: "ctx_inv U c"
  shows "\<forall>p \<in> set ps. neighbor_ok c p \<Longrightarrow> fact_strings c expired tick acc ps =
    Some (if polled expired tick (length ps) then Inl DeadlineExceeded else Inr (tick + length ps, sort (acc @ map (\<lambda>p. render_fact (named c p)) ps)))"
proof (induction ps arbitrary: tick acc)
  case (Cons p ps)
  obtain d l n where p: "p = (d, l, n)" by (cases p)
  have b: "l < length (labels c)" "n < length (concepts c)" using Cons.prems by (simp_all add: p neighbor_ok_def)
  show ?case using Cons.IH [of "Suc tick"] Cons.prems name_reads(1,2) [OF ctx_invD(1) [OF inv]] b by (simp add: p polled_Suc named_def)
qed simp

lemma section_strings_eq:
  assumes "ctx_inv U c" "distinct ps" "\<forall>p \<in> set ps. neighbor_ok c p"
  shows "sort (map (\<lambda>p. render_fact (named c p)) ps) = section_strings (named c ` set ps)"
proof -
  have "inj_on (named c) (set ps)" using named_inj [OF assms(1)] assms(3) by (auto intro: inj_on_subset)
  then have "mset (map (\<lambda>p. render_fact (named c p)) ps) = image_mset render_fact (mset_set (named c ` set ps))"
    using assms(2) by (simp add: mset_set_set image_mset_mset_set [symmetric] multiset.map_comp comp_def)
  then show ?thesis unfolding section_strings_def by (metis sorted_list_of_multiset_mset)
qed

lemma fold_sections_spec:
  assumes inv: "ctx_inv U c" and ps: "\<forall>(tag, ps) \<in> set secs. distinct ps \<and> (\<forall>p \<in> set ps. neighbor_ok c p)"
  shows "fold_sections c expired tick d secs =
    Some (if polled expired tick (sum_list (map (\<lambda>(_, ps). length ps) secs)) then Inl DeadlineExceeded
      else Inr (foldl (\<lambda>d (tag, S). foldl fold_field (fold_field d tag) (section_strings S)) d (map (\<lambda>(tag, ps). (tag, named c ` set ps)) secs)))"
  using ps
proof (induction secs arbitrary: tick d)
  case (Cons x secs)
  obtain tag ps where x: "x = (tag, ps)" by (cases x)
  then show ?case using Cons.IH Cons.prems section_strings_eq [OF inv, of ps] by (simp add: fact_strings_spec [OF inv] polled_add)
qed simp

lemma materialize_spec:
  assumes "ctx_inv U c" "distinct ps" "\<forall>p \<in> set ps. neighbor_ok c p"
  shows "\<exists>xs. mapM (materialize c) (take cap ps) = Some xs \<and> capped cap (named c ` set ps) xs"
proof -
  have "mapM (materialize c) (take cap ps) = Some (map (\<lambda>p. fact_of_neighbor (named c p)) (take cap ps))"
    using assms(3) name_reads(1,2) [OF ctx_invD(1) [OF assms(1)]]
    by (intro mapM_Some) (auto simp: materialize_def named_def fact_of_neighbor_def neighbor_ok_def dest!: in_set_takeD)
  moreover have "distinct (map (named c) ps)" using assms named_inj [OF assms(1)] by (auto simp: distinct_map intro: inj_on_subset)
  ultimately show ?thesis by (auto simp: capped_def take_map intro!: exI [of _ "map (named c) ps"])
qed

lemma named_parts:
  assumes inv: "ctx_inv U c" and xs: "distinct xs" "\<forall>p \<in> set xs. neighbor_ok c p" and ys: "\<forall>p \<in> set ys. neighbor_ok c p"
  shows "named c ` set (filter (\<lambda>x. x \<in> set ys) xs) = named c ` set xs \<inter> named c ` set ys"
    and "named c ` set (filter (\<lambda>x. x \<notin> set ys) xs) = named c ` set xs - named c ` set ys"
    and "length (filter (\<lambda>x. x \<in> set ys) xs) = card (named c ` set xs \<inter> named c ` set ys)"
    and "length (filter (\<lambda>x. x \<notin> set ys) xs) = card (named c ` set xs - named c ` set ys)"
proof -
  have inj: "inj_on (named c) (set xs \<union> set ys)" using named_inj [OF inv] xs ys by (auto intro: inj_on_subset)
  have s: "set (filter (\<lambda>x. x \<in> set ys) xs) = set xs \<inter> set ys" "set (filter (\<lambda>x. x \<notin> set ys) xs) = set xs - set ys" by auto
  show i: "named c ` set (filter (\<lambda>x. x \<in> set ys) xs) = named c ` set xs \<inter> named c ` set ys"
    unfolding s by (rule inj_on_image_Int [OF inj]) auto
  show d: "named c ` set (filter (\<lambda>x. x \<notin> set ys) xs) = named c ` set xs - named c ` set ys"
    unfolding s by (rule inj_on_image_set_diff [OF inj]) auto
  have "length (filter P xs) = card (named c ` set (filter P xs))" for P
  proof -
    have "inj_on (named c) (set (filter P xs))" by (rule inj_on_subset [OF inj]) auto
    then show ?thesis using distinct_card [of "filter P xs"] xs(1) by (simp only: card_image distinct_filter)
  qed
  then show "length (filter (\<lambda>x. x \<in> set ys) xs) = card (named c ` set xs \<inter> named c ` set ys)"
    "length (filter (\<lambda>x. x \<notin> set ys) xs) = card (named c ` set xs - named c ` set ys)"
    unfolding i [symmetric] d [symmetric] by blast+
qed

text \<open>Swapping the pair does not change its fingerprint.\<close>

lemma merge_digest_swap: "a \<noteq> b \<or> A = B \<Longrightarrow> merge_digest a b A B = merge_digest b a B A"
  by (auto simp: merge_digest_def Int_commute)

section \<open>Merge evidence on facts\<close>

lemma card_parts:
  assumes "finite A" "finite B"
  shows "card (A \<union> B) = card (A \<inter> B) + (card (A - B) + card (B - A))"
proof -
  have "A \<union> B = (A \<inter> B) \<union> ((A - B) \<union> (B - A))" by blast
  then have "card (A \<union> B) = card ((A \<inter> B) \<union> ((A - B) \<union> (B - A)))" by simp
  also have "\<dots> = card (A \<inter> B) + card ((A - B) \<union> (B - A))" by (rule card_Un_disjoint) (use assms in auto)
  also have "card ((A - B) \<union> (B - A)) = card (A - B) + card (B - A)" by (rule card_Un_disjoint) (use assms in auto)
  finally show ?thesis .
qed

lemma merge_evidence_run:
  assumes inv: "ctx_inv U c" and ij: "concept_ids c a = Some i" "concept_ids c b = Some j"
    and xs: "neighbor_set c (hidden_labels c excluded) expired 0 i = Some (Inr (m, xs))" "distinct xs" "\<forall>p \<in> set xs. neighbor_ok c p" "named c ` set xs = A"
    and ys: "neighbor_set c (hidden_labels c excluded) expired m j = Some (Inr (n, ys))" "distinct ys" "\<forall>p \<in> set ys. neighbor_ok c p" "named c ` set ys = B"
  shows "if polled expired n (card (A \<union> B)) then merge_evidence_of c a b cap excluded expired = Some (Inl DeadlineExceeded)
    else \<exists>ev. merge_evidence_of c a b cap excluded expired = Some (Inr (Some ev)) \<and> evidence_ok a b cap A B ev"
proof -
  let ?s = "filter (\<lambda>x. x \<in> set ys) xs" and ?f = "filter (\<lambda>x. x \<notin> set ys) xs" and ?g = "filter (\<lambda>x. x \<notin> set xs) ys"
  note P = named_parts [OF inv xs(2,3) ys(3), unfolded xs(4) ys(4)] and Q = named_parts [OF inv ys(2,3) xs(3), unfolded xs(4) ys(4)]
  have ok: "\<forall>p \<in> set ?s. neighbor_ok c p" "\<forall>p \<in> set ?f. neighbor_ok c p" "\<forall>p \<in> set ?g. neighbor_ok c p" "distinct ?s" "distinct ?f" "distinct ?g"
    using xs(2,3) ys(2,3) by auto
  have fin: "finite A" "finite B" using xs(4) ys(4) by (metis finite_imageI List.finite_set)+
  note u = card_parts [OF fin]
  have e: "card (A \<union> B) = 0 \<longleftrightarrow> A \<union> B = {}" using fin by simp
  have l: "card (A \<inter> B) + card (A - B) + card (B - A) = card (A \<union> B)" by (simp add: u)
  obtain vs where vs: "mapM (materialize c) (take cap ?s) = Some vs" "capped cap (A \<inter> B) vs" using materialize_spec [OF inv ok(4,1), of cap] P(1) by metis
  obtain ws where ws: "mapM (materialize c) (take cap ?f) = Some ws" "capped cap (A - B) ws" using materialize_spec [OF inv ok(5,2), of cap] P(2) by metis
  obtain us where us: "mapM (materialize c) (take cap ?g) = Some us" "capped cap (B - A) us" using materialize_spec [OF inv ok(6,3), of cap] Q(2) by metis
  note secs = fold_sections_spec [OF inv, where expired = expired and tick = n]
  let ?mk = "\<lambda>d. \<lparr>me_overlap = (if A \<union> B = {} then f64_zero else f64_div (f64_of_nat (card (A \<inter> B))) (f64_of_nat (card (A \<union> B)))),
    me_shared_total = card (A \<inter> B), me_only_a_total = card (A - B), me_only_b_total = card (B - A), me_shared = vs, me_only_a = ws, me_only_b = us, me_fingerprint = d\<rparr>"
  have "merge_evidence_of c a b cap excluded expired = Some (if polled expired n (card (A \<union> B)) then Inl DeadlineExceeded else Inr (Some (?mk (merge_digest a b A B))))"
  proof (cases "a \<le> b")
    case True
    have "fold_sections c expired n d [(bytes ''s'', ?s), (bytes ''f'', ?f), (bytes ''g'', ?g)] = Some (if polled expired n (card (A \<union> B)) then Inl DeadlineExceeded
        else Inr (foldl (\<lambda>d (tag, S). foldl fold_field (fold_field d tag) (section_strings S)) d [(bytes ''s'', A \<inter> B), (bytes ''f'', A - B), (bytes ''g'', B - A)]))" for d
      using secs [of "[(bytes ''s'', ?s), (bytes ''f'', ?f), (bytes ''g'', ?g)]" d] ok by (simp add: P Q u Int_commute del: fold_sections.simps set_filter)
    then show ?thesis using True
      by (simp only: merge_evidence_of_def ij xs(1) ys(1) option.case prod.case or_expired_simps Let_def if_True if_False l e vs(1) ws(1) us(1) P(3,4) Q(4)) (simp add: merge_digest_def)
  next
    case False
    have "fold_sections c expired n d [(bytes ''s'', ?s), (bytes ''f'', ?g), (bytes ''g'', ?f)] = Some (if polled expired n (card (A \<union> B)) then Inl DeadlineExceeded
        else Inr (foldl (\<lambda>d (tag, S). foldl fold_field (fold_field d tag) (section_strings S)) d [(bytes ''s'', A \<inter> B), (bytes ''f'', B - A), (bytes ''g'', A - B)]))" for d
      using secs [of "[(bytes ''s'', ?s), (bytes ''f'', ?g), (bytes ''g'', ?f)]" d] ok by (simp add: P Q u Int_commute add.commute del: fold_sections.simps set_filter)
    then show ?thesis using False
      by (simp only: merge_evidence_of_def ij xs(1) ys(1) option.case prod.case or_expired_simps Let_def if_True if_False l e vs(1) ws(1) us(1) P(3,4) Q(4)) (simp add: merge_digest_def)
  qed
  then show ?thesis using vs(2) ws(2) us(2) by (auto simp: evidence_ok_def)
qed

text \<open>
  C26. The evidence for merging two concepts. An unknown spelling gives none. Otherwise the two
  neighbourhoods are the sets of live, visible facts around each concept, read from the facts alone: the
  overlap is their Jaccard ratio, the totals are exact whatever the cap, each list holds distinct evidence
  up to the cap, and the fingerprint is a function of the names, the same for the pair swapped. A deadline
  is reported exactly when it fires at one of the polls, one per incident fact and per piece of evidence,
  and nothing panics.
\<close>
theorem merge_evidence_correct:
  assumes inv: "ctx_inv U c" and k: "k = kb_of c"
  shows "case (kb_concepts k a, kb_concepts k b) of
      (Some x, Some y) \<Rightarrow>
        let A = neighborhood k excluded x; B = neighborhood k excluded y
        in if polled expired 0 (incidence k x + incidence k y + card (A \<union> B))
           then merge_evidence_of c a b cap excluded expired = Some (Inl DeadlineExceeded)
           else \<exists>ev. merge_evidence_of c a b cap excluded expired = Some (Inr (Some ev)) \<and> evidence_ok a b cap A B ev \<and>
             merge_digest b a B A = me_fingerprint ev
    | _ \<Rightarrow> merge_evidence_of c a b cap excluded expired = Some (Inr None)"
proof (cases "concept_ids c a = None \<or> concept_ids c b = None")
  case True
  then show ?thesis by (auto simp: merge_evidence_of_def k kb_of_def split: option.splits)
next
  case False
  then obtain i j where ij: "concept_ids c a = Some i" "concept_ids c b = Some j" by auto
  note b = ids_bound(1) [OF inv ij(1)] ids_bound(1) [OF inv ij(2)]
  let ?A = "neighborhood k excluded (cname c i)" and ?B = "neighborhood k excluded (cname c j)"
  let ?m = "incidence k (cname c i)" and ?n = "incidence k (cname c j)" and ?r = "merge_evidence_of c a b cap excluded expired"
  from neighbor_set_spec [OF inv b(1) refl k, where tick = 0 and expired = expired and excluded = excluded]
  obtain xs where xs: "neighbor_set c (hidden_labels c excluded) expired 0 i = Some (if polled expired 0 ?m then Inl DeadlineExceeded else Inr (0 + ?m, xs))"
      "distinct xs" "\<forall>p \<in> set xs. neighbor_ok c p" "named c ` set xs = ?A" by blast
  from neighbor_set_spec [OF inv b(2) refl k, where tick = "0 + ?m" and expired = expired and excluded = excluded]
  obtain ys where ys: "neighbor_set c (hidden_labels c excluded) expired (0 + ?m) j = Some (if polled expired (0 + ?m) ?n then Inl DeadlineExceeded else Inr (0 + ?m + ?n, ys))"
      "distinct ys" "\<forall>p \<in> set ys. neighbor_ok c p" "named c ` set ys = ?B" by blast
  have d: "merge_digest b a ?B ?A = merge_digest a b ?A ?B" using merge_digest_swap [of a b ?A ?B] ij by (cases "a = b") auto
  have "if polled expired 0 (?m + ?n + card (?A \<union> ?B)) then ?r = Some (Inl DeadlineExceeded)
      else \<exists>ev. ?r = Some (Inr (Some ev)) \<and> evidence_ok a b cap ?A ?B ev \<and> merge_digest b a ?B ?A = me_fingerprint ev"
  proof (cases "polled expired 0 ?m \<or> polled expired ?m ?n")
    case True
    then show ?thesis using xs(1) ys(1) by (auto simp: merge_evidence_of_def ij polled_add Let_def)
  next
    case False
    then have "neighbor_set c (hidden_labels c excluded) expired 0 i = Some (Inr (?m, xs))" "neighbor_set c (hidden_labels c excluded) expired ?m j = Some (Inr (?m + ?n, ys))"
      using xs(1) ys(1) by simp_all
    from merge_evidence_run [OF inv ij this(1) xs(2-4) this(2) ys(2-4), of cap] False show ?thesis
      unfolding d by (auto simp: polled_add evidence_ok_def split: if_splits)
  qed
  moreover have "kb_concepts k a = Some (cname c i)" "kb_concepts k b = Some (cname c j)" using ij by (simp_all add: k kb_of_def)
  ultimately show ?thesis by (simp add: Let_def)
qed

lemma demo_names: "kb_concepts (kb_of demo_ctx) (bytes ''tea'') = Some (bytes ''tea'')" "kb_concepts (kb_of demo_ctx) (bytes ''hot'') = Some (bytes ''hot'')"
  unfolding demo_ctx(2) by (simp_all add: kb_assert_def canon_def Let_def kb_of_def ctx_default_def bytes_def)

theorem merge_evidence_correct_witness:
  "\<exists>ev. merge_evidence_of demo_ctx (bytes ''tea'') (bytes ''hot'') 5 [] (\<lambda>_. False) = Some (Inr (Some ev)) \<and>
     evidence_ok (bytes ''tea'') (bytes ''hot'') 5 (neighborhood (kb_of demo_ctx) [] (bytes ''tea'')) (neighborhood (kb_of demo_ctx) [] (bytes ''hot'')) ev"
  using merge_evidence_correct [OF demo_ctx(1) refl, where a = "bytes ''tea''" and b = "bytes ''hot''" and expired = "\<lambda>_. False" and cap = 5 and excluded = "[]"]
  by (auto simp: demo_names polled_def Let_def)

section \<open>Attributions on facts\<close>

lemma attribution_reads:
  assumes inv: "ctx_inv U c" and e: "e < length (edges c)"
  shows "attribution_chain c (ed_first_attribution (edges c ! e)) = Some (chain_of c e)"
    and "mapM (nth_opt (attributions c)) (chain_of c e) = Some (map ((!) (attributions c)) (chain_of c e))"
    and "mapM (\<lambda>a. source_name c (at_source a)) (filter (\<lambda>a. Q (at_sum a)) (map ((!) (attributions c)) (chain_of c e))) =
      Some (map as_source (filter (\<lambda>a. Q (as_weight a)) (fa_attrs (fact_of c e))))"
proof -
  note I = ctx_invD [OF inv]
  obtain f where f: "attr_inv c f" using I(7) by blast
  have ch: "chain_of c e = f e" by (rule chain_of_eq [OF f e])
  note b = attr_source_bound [OF f e]
  show "attribution_chain c (ed_first_attribution (edges c ! e)) = Some (chain_of c e)" using attr_listed(2) [OF f e] ch by simp
  show "mapM (nth_opt (attributions c)) (chain_of c e) = Some (map ((!) (attributions c)) (chain_of c e))"
    by (rule mapM_Some) (use b ch in auto)
  have "mapM (\<lambda>a. source_name c (at_source a)) (filter (\<lambda>a. Q (at_sum a)) (map ((!) (attributions c)) (f e))) =
      Some (map (\<lambda>a. sname c (at_source a)) (filter (\<lambda>a. Q (at_sum a)) (map ((!) (attributions c)) (f e))))"
    by (rule mapM_Some) (use b name_reads(3) [OF I(1)] in auto)
  also have "map (\<lambda>a. sname c (at_source a)) (filter (\<lambda>a. Q (at_sum a)) (map ((!) (attributions c)) (f e))) =
      map as_source (filter (\<lambda>a. Q (as_weight a)) (fa_attrs (fact_of c e)))"
    by (simp add: fact_of_eq [OF f e] fact_with_def filter_map comp_def att_view_def)
  finally show "mapM (\<lambda>a. source_name c (at_source a)) (filter (\<lambda>a. Q (at_sum a)) (map ((!) (attributions c)) (chain_of c e))) =
      Some (map as_source (filter (\<lambda>a. Q (as_weight a)) (fa_attrs (fact_of c e))))" unfolding ch .
qed

definition row_of :: "fact \<Rightarrow> object_row" where
  "row_of x = \<lparr>or_object = fa_object x, or_weight = fact_weight x, or_count = fa_count x,
     or_sources = map as_source (filter (\<lambda>a. \<not> f64_eq (as_weight a) f64_zero) (fa_attrs x))\<rparr>"

lemma object_row_spec:
  assumes inv: "ctx_inv U c" and e: "e < length (edges c)" "0 < ed_count (edges c ! e)"
  shows "object_row_of c e = Some (row_of (fact_of c e))"
  using attribution_reads(1,2) [OF inv e(1)] attribution_reads(3) [OF inv e(1), of "\<lambda>w. \<not> f64_eq w f64_zero"] name_reads(1) [OF ctx_invD(1) [OF inv]] edge_bounds(2) [OF ctx_invD(5) [OF inv] e(1)] e
  by (simp add: object_row_of_def row_of_def fact_names fact_weight_def fact_of_def fact_with_def)

section \<open>Sign conflicts on facts\<close>

definition side :: "(f64 \<Rightarrow> bool) \<Rightarrow> fact \<Rightarrow> rstr list" where
  "side Q x = map as_source (filter (\<lambda>a. Q (as_weight a)) (fa_attrs x))"

definition conflict_of :: "fact \<Rightarrow> sign_conflict" where
  "conflict_of x =
     (let up = side (f64_lt f64_zero) x; down = side (\<lambda>w. \<not> f64_lt f64_zero w \<and> f64_lt w f64_zero) x
      in \<lparr>sc_subject = fa_subject x, sc_label = fa_label x, sc_object = fa_object x, sc_weight = fact_weight x, sc_count = fa_count x,
          sc_supporting = up, sc_disputing = down,
          sc_fingerprint = conflict_digest (fa_subject x) (fa_label x) (fa_object x) (fa_count x) (fa_sum x) up down\<rparr>)"

definition contested :: "fact \<Rightarrow> bool" where
  "contested x \<longleftrightarrow> 0 < fa_count x \<and> (\<exists>a \<in> set (fa_attrs x). f64_lt f64_zero (as_weight a)) \<and> (\<exists>a \<in> set (fa_attrs x). f64_lt (as_weight a) f64_zero)"

lemma f64_lt_asym: "f64_lt x y \<Longrightarrow> \<not> f64_lt y x"
  by (auto simp: f64_lt_def)

lemma conflict_at_spec:
  assumes inv: "ctx_inv U c" and e: "e < length (edges c)"
  shows "conflict_at c e = Some (if contested (fact_of c e) then [conflict_of (fact_of c e)] else [])"
proof (cases "ed_count (edges c ! e) = 0")
  case False
  let ?x = "fact_of c e"
  have fs: "fa_sum ?x = ed_sum (edges c ! e)" by (simp add: fact_of_def fact_with_def)
  have r: "mapM (\<lambda>a. source_name c (at_source a)) (filter (\<lambda>a. Q (at_sum a)) (map ((!) (attributions c)) (chain_of c e))) = Some (side Q ?x)" for Q
    unfolding side_def by (rule attribution_reads(3) [OF inv e])
  have sides: "side (f64_lt f64_zero) ?x = [] \<longleftrightarrow> \<not> (\<exists>a \<in> set (fa_attrs ?x). f64_lt f64_zero (as_weight a))"
      "side (\<lambda>w. \<not> f64_lt f64_zero w \<and> f64_lt w f64_zero) ?x = [] \<longleftrightarrow> \<not> (\<exists>a \<in> set (fa_attrs ?x). f64_lt (as_weight a) f64_zero)"
    using f64_lt_asym by (auto simp: side_def filter_empty_conv)
  then have "contested ?x \<longleftrightarrow> side (f64_lt f64_zero) ?x \<noteq> [] \<and> side (\<lambda>w. \<not> f64_lt f64_zero w \<and> f64_lt w f64_zero) ?x \<noteq> []"
    using False by (simp add: contested_def fact_names)
  then show ?thesis
    using attribution_reads(1,2) [OF inv e] r [of "f64_lt f64_zero"] r [of "\<lambda>w. \<not> f64_lt f64_zero w \<and> f64_lt w f64_zero"]
      name_reads(1,2) [OF ctx_invD(1) [OF inv]] edge_bounds [OF ctx_invD(5) [OF inv] e] e False
    by (simp add: conflict_at_def conflict_of_def Let_def fact_names fact_weight_def fs)
qed (use e in \<open>simp add: conflict_at_def contested_def fact_names\<close>)

lemma conflict_scan_spec:
  assumes inv: "ctx_inv U c"
  shows "\<forall>e \<in> set es. e < length (edges c) \<Longrightarrow> conflict_scan c expired es =
    Some (if \<exists>e \<in> set es. expired e then Inl DeadlineExceeded else Inr (map conflict_of (filter contested (map (fact_of c) es))))"
  by (induction es) (auto simp: conflict_at_spec [OF inv])

text \<open>
  The facts whose sources disagree in sign: exactly the live facts with a source of positive and a source of
  negative sum, in storage order, each side's sources in assertion order.
\<close>
theorem sign_conflicts_correct:
  assumes inv: "ctx_inv U c" and k: "k = kb_of c"
  shows "sign_conflicts c expired = Some (if polled expired 0 (length (kb_facts k)) then Inl DeadlineExceeded
    else Inr (map conflict_of (filter contested (kb_facts k))))"
  using conflict_scan_spec [OF inv, of "[0..<length (edges c)]" expired]
  by (simp add: sign_conflicts_def k kb_of_def facts_def polled_def)

section \<open>Grouping\<close>

definition group_at :: "edge_groups \<Rightarrow> nat \<times> nat \<Rightarrow> nat list" where
  "group_at g key = (case map_of g key of None \<Rightarrow> [] | Some es \<Rightarrow> es)"

definition groups_ok :: "edge_groups \<Rightarrow> bool" where
  "groups_ok g \<longleftrightarrow> bt_sorted g \<and> (\<forall>(key, es) \<in> set g. es \<noteq> [])"

lemma groups_ok_set:
  assumes "groups_ok g"
  shows "distinct (map fst g)" "set g = {(key, es). es = group_at g key \<and> es \<noteq> []}"
proof -
  show d: "distinct (map fst g)" using assms by (simp add: groups_ok_def strict_sorted_iff)
  show "set g = {(key, es). es = group_at g key \<and> es \<noteq> []}"
  proof (intro equalityI subsetI)
    fix p assume p: "p \<in> set g"
    have "map_of g (fst p) = Some (snd p)" by (rule map_of_is_SomeI [OF d]) (simp add: p)
    moreover have "snd p \<noteq> []" using assms p by (auto simp: groups_ok_def)
    ultimately show "p \<in> {(key, es). es = group_at g key \<and> es \<noteq> []}" unfolding group_at_def by (simp add: case_prod_unfold)
  next
    fix p assume "p \<in> {(key, es). es = group_at g key \<and> es \<noteq> []}"
    then obtain key where e: "p = (key, group_at g key)" "group_at g key \<noteq> []" by blast
    from e(2) obtain es where es: "map_of g key = Some es" unfolding group_at_def by (metis option.simps(4) not_None_eq)
    have "group_at g key = es" unfolding group_at_def es by (rule option.simps(5))
    then show "p \<in> set g" unfolding e(1) using map_of_SomeD [OF es] by (rule ssubst)
  qed
qed

lemma push_group_ok:
  assumes "groups_ok g"
  shows "groups_ok (push_group g key e)" "group_at (push_group g key e) key' = group_at g key' @ (if key' = key then [e] else [])"
proof -
  have s: "bt_sorted (push_group g key e)" unfolding push_group_def by (rule bt_sorted_insert) (use assms in \<open>simp add: groups_ok_def\<close>)
  have m: "map_of (push_group g key e) = (map_of g)(key \<mapsto> group_at g key @ [e])"
    unfolding push_group_def map_of_bt_insert group_at_def by (rule refl)
  have "es \<noteq> []" if "(k, es) \<in> set (push_group g key e)" for k es
  proof -
    have d: "distinct (map fst (push_group g key e))" using s by (simp add: strict_sorted_iff)
    have "map_of (push_group g key e) k = Some es" by (rule map_of_is_SomeI [OF d that])
    then show ?thesis using assms by (auto simp: m groups_ok_def dest: map_of_SomeD split: if_splits)
  qed
  then show "groups_ok (push_group g key e)" using s by (auto simp: groups_ok_def)
  show "group_at (push_group g key e) key' = group_at g key' @ (if key' = key then [e] else [])"
    unfolding group_at_def [of "push_group g key e"] m by (simp add: group_at_def)
qed

lemma group_scan_spec:
  "\<forall>e \<in> set es. e < length (edges c) \<Longrightarrow> groups_ok g \<Longrightarrow> \<exists>g'. group_scan c expired g es = Some (if \<exists>e \<in> set es. expired e then Inl DeadlineExceeded else Inr g') \<and>
     groups_ok g' \<and> (\<forall>key. group_at g' key = group_at g key @ filter (\<lambda>e. 0 < ed_count (edges c ! e) \<and> (ed_subject (edges c ! e), ed_label (edges c ! e)) = key) es)"
proof (induction es arbitrary: g)
  case (Cons e es)
  let ?r = "edges c ! e"
  let ?g = "if ed_count ?r = 0 then g else push_group g (ed_subject ?r, ed_label ?r) e"
  have "groups_ok ?g" using Cons.prems(2) push_group_ok(1) by simp
  then obtain g' where "group_scan c expired ?g es = Some (if \<exists>e \<in> set es. expired e then Inl DeadlineExceeded else Inr g')" "groups_ok g'"
      "\<forall>key. group_at g' key = group_at ?g key @ filter (\<lambda>e. 0 < ed_count (edges c ! e) \<and> (ed_subject (edges c ! e), ed_label (edges c ! e)) = key) es"
    using Cons.IH [of ?g] Cons.prems(1) by auto
  then show ?case using Cons.prems push_group_ok(2) [OF Cons.prems(2)] by (intro exI [of _ g']) auto
qed auto

lemma count_labels:
  "foldl count_label m g l = (let n = length (filter (\<lambda>((_, l'), es). l' = l \<and> length es = 1) g); t = length (filter (\<lambda>((_, l'), es). l' = l) g) in
     case m l of None \<Rightarrow> if t = 0 then None else Some (n, t) | Some (a, b) \<Rightarrow> Some (a + n, b + t))"
proof (induction g arbitrary: m)
  case (Cons x g)
  obtain s l' es where x: "x = ((s, l'), es)" by (cases x) auto
  show ?case using Cons.IH [of "count_label m x"] by (auto simp: x count_label_def Let_def split: option.splits prod.splits)
qed (auto simp: Let_def split: option.splits)

section \<open>Contradictions on facts\<close>

definition objects_under :: "kb \<Rightarrow> rstr \<Rightarrow> rstr \<Rightarrow> fact list" where
  "objects_under k s l = filter (\<lambda>x. 0 < fa_count x \<and> fa_subject x = s \<and> fa_label x = l) (kb_facts k)"

text \<open>Of the subjects a label is used on, the share that holds one object.\<close>

definition tendency :: "kb \<Rightarrow> rstr \<Rightarrow> f64" where
  "tendency k l = f64_div (f64_of_nat (card {s. length (objects_under k s l) = 1})) (f64_of_nat (card {s. objects_under k s l \<noteq> []}))"

definition group_of :: "kb \<Rightarrow> rstr \<times> rstr \<Rightarrow> contradiction_group" where
  "group_of k p = (case p of (s, l) \<Rightarrow>
     (let rows = map row_of (objects_under k s l)
      in \<lparr>cg_subject = s, cg_label = l, cg_tendency = tendency k l, cg_objects = rows, cg_fingerprint = group_digest s l rows\<rparr>))"

lemma length_filter_keys:
  assumes "distinct (map fst g)"
  shows "length (filter Q g) = card {key. \<exists>v. (key, v) \<in> set g \<and> Q (key, v)}"
proof -
  have "distinct (map fst (filter Q g))" using assms distinct_map_filter by blast
  then have "length (filter Q g) = card (set (map fst (filter Q g)))" using distinct_card by fastforce
  also have "set (map fst (filter Q g)) = {key. \<exists>v. (key, v) \<in> set g \<and> Q (key, v)}" by force
  finally show ?thesis .
qed

text \<open>The grouping table of a whole context.\<close>

definition groups_of :: "ctx \<Rightarrow> edge_groups \<Rightarrow> bool" where
  "groups_of c g \<longleftrightarrow> groups_ok g \<and> (\<forall>key. group_at g key = filter (\<lambda>e. 0 < ed_count (edges c ! e) \<and> (ed_subject (edges c ! e), ed_label (edges c ! e)) = key) [0..<length (edges c)])"

lemma groups_facts:
  assumes inv: "ctx_inv U c" and k: "k = kb_of c" and g: "groups_of c g"
  shows "i < length (concepts c) \<Longrightarrow> l < length (labels c) \<Longrightarrow> map (fact_of c) (group_at g (i, l)) = objects_under k (cname c i) (lname c l)"
    and "e \<in> set (group_at g (i, l)) \<Longrightarrow> e < length (edges c) \<and> 0 < ed_count (edges c ! e) \<and> i < length (concepts c) \<and> l < length (labels c)"
    and "objects_under k sn ln \<noteq> [] \<Longrightarrow> \<exists>i l. i < length (concepts c) \<and> l < length (labels c) \<and> sn = cname c i \<and> ln = lname c l"
proof -
  note I = ctx_invD [OF inv] and N = name_ids [OF ctx_invD(1) [OF inv]] and b = edge_bounds [OF ctx_invD(5) [OF inv]]
  have G: "group_at g (i, l) = filter (\<lambda>e. 0 < ed_count (edges c ! e) \<and> ed_subject (edges c ! e) = i \<and> ed_label (edges c ! e) = l) [0..<length (edges c)]" for i l
    using g by (simp add: groups_of_def)
  show "map (fact_of c) (group_at g (i, l)) = objects_under k (cname c i) (lname c l)" if "i < length (concepts c)" "l < length (labels c)"
  proof -
    have "cname c j = cname c i \<longleftrightarrow> j = i" if "j < length (concepts c)" for j using N(1) that \<open>i < length (concepts c)\<close> by (metis option.inject)
    moreover have "lname c j = lname c l \<longleftrightarrow> j = l" if "j < length (labels c)" for j using N(2) that \<open>l < length (labels c)\<close> by (metis option.inject)
    ultimately have "group_at g (i, l) = filter (\<lambda>e. 0 < fa_count (fact_of c e) \<and> fa_subject (fact_of c e) = cname c i \<and> fa_label (fact_of c e) = lname c l) [0..<length (edges c)]"
      unfolding G by (intro filter_cong) (use b in \<open>auto simp: fact_names\<close>)
    then show ?thesis by (simp add: objects_under_def k kb_of_def facts_def filter_map comp_def)
  qed
  show "e \<in> set (group_at g (i, l)) \<Longrightarrow> e < length (edges c) \<and> 0 < ed_count (edges c ! e) \<and> i < length (concepts c) \<and> l < length (labels c)"
    using b by (auto simp: G)
  assume "objects_under k sn ln \<noteq> []"
  then obtain e where "e < length (edges c)" "fa_subject (fact_of c e) = sn" "fa_label (fact_of c e) = ln"
    by (auto simp: objects_under_def k kb_of_def facts_def filter_empty_conv)
  then show "\<exists>i l. i < length (concepts c) \<and> l < length (labels c) \<and> sn = cname c i \<and> ln = lname c l" using b unfolding fact_names by blast
qed

lemma label_subject_count:
  assumes inv: "ctx_inv U c" and k: "k = kb_of c" and g: "groups_of c g" and l: "l < length (labels c)" and Q: "\<not> Q 0"
  shows "length (filter (\<lambda>((_, l'), es). l' = l \<and> Q (length es)) g) = card {s. Q (length (objects_under k s (lname c l)))}"
proof -
  note F = groups_facts [OF inv k g] and N = name_ids [OF ctx_invD(1) [OF inv]]
  have ok: "groups_ok g" using g by (simp add: groups_of_def)
  let ?P = "\<lambda>((_, l'), es). l' = l \<and> Q (length es)"
  let ?K = "{i. i < length (concepts c) \<and> Q (length (objects_under k (cname c i) (lname c l)))}"
  have len: "length (group_at g (i, l)) = length (objects_under k (cname c i) (lname c l))" if "i < length (concepts c)" for i
    using F(1) [OF that l] by (metis length_map)
  have "{key. \<exists>v. (key, v) \<in> set g \<and> ?P (key, v)} = (\<lambda>i. (i, l)) ` ?K"
  proof (intro equalityI subsetI)
    fix key assume "key \<in> {key. \<exists>v. (key, v) \<in> set g \<and> ?P (key, v)}"
    then obtain i where i: "key = (i, l)" "Q (length (group_at g (i, l)))" "group_at g (i, l) \<noteq> []"
      unfolding groups_ok_set(2) [OF ok] by auto
    then have "i < length (concepts c)" using F(2) [of _ i l] last_in_set by blast
    then show "key \<in> (\<lambda>i. (i, l)) ` ?K" using i len by auto
  next
    fix key assume "key \<in> (\<lambda>i. (i, l)) ` ?K"
    then obtain i where i: "key = (i, l)" "i < length (concepts c)" "Q (length (group_at g (i, l)))" using len by auto
    then have "group_at g (i, l) \<noteq> []" using Q by (metis list.size(3))
    then show "key \<in> {key. \<exists>v. (key, v) \<in> set g \<and> ?P (key, v)}"
      unfolding groups_ok_set(2) [OF ok] using i by auto
  qed
  then have "length (filter (\<lambda>((_, l'), es). l' = l \<and> Q (length es)) g) = card ((\<lambda>i. (i, l)) ` ?K)"
    using length_filter_keys [OF groups_ok_set(1) [OF ok], of ?P] by (simp only:)
  also have "\<dots> = card ?K" by (rule card_image) (simp add: inj_on_def)
  also have "\<dots> = card (cname c ` ?K)" by (rule card_image [symmetric], rule inj_onI) (use N(1) in \<open>metis (mono_tags, lifting) mem_Collect_eq option.inject\<close>)
  also have "cname c ` ?K = {s. Q (length (objects_under k s (lname c l)))}"
  proof -
    have "s \<in> cname c ` ?K" if "Q (length (objects_under k s (lname c l)))" for s
    proof -
      have "objects_under k s (lname c l) \<noteq> []" using that Q by (metis list.size(3))
      from F(3) [OF this] that show ?thesis by auto
    qed
    then show ?thesis by auto
  qed
  finally show ?thesis .
qed

lemma group_entry:
  assumes inv: "ctx_inv U c" and k: "k = kb_of c" and g: "groups_of c g" and x: "((i, l), es) \<in> set g"
  shows "(do { (single, seen) \<leftarrow> foldl count_label Map.empty g l;
       objects \<leftarrow> mapM (object_row_of c) es;
       s \<leftarrow> concept_name c i;
       l \<leftarrow> label_name c l;
       Some \<lparr>cg_subject = s, cg_label = l, cg_tendency = f64_div (f64_of_nat single) (f64_of_nat seen), cg_objects = objects, cg_fingerprint = group_digest s l objects\<rparr> })
     = Some (group_of k (cname c i, lname c l))"
proof -
  note F = groups_facts [OF inv k g]
  have ok: "groups_ok g" using g by (simp add: groups_of_def)
  have es: "es = group_at g (i, l)" "es \<noteq> []" using x unfolding groups_ok_set(2) [OF ok] by auto
  have b: "i < length (concepts c)" "l < length (labels c)" using F(2) [of "last es" i l] es last_in_set by blast+
  have seen: "filter (\<lambda>((_, l'), es). l' = l) g = filter (\<lambda>((_, l'), es). l' = l \<and> length es \<noteq> 0) g"
    using ok by (intro filter_cong) (auto simp: groups_ok_def)
  have n: "length (filter (\<lambda>((_, l'), es). l' = l) g) = card {s. objects_under k s (lname c l) \<noteq> []}"
    using label_subject_count [OF inv k g b(2), of "\<lambda>n. n \<noteq> 0"] unfolding seen by simp
  have one: "length (filter (\<lambda>((_, l'), es). l' = l \<and> length es = 1) g) = card {s. length (objects_under k s (lname c l)) = 1}"
    using label_subject_count [OF inv k g b(2), of "\<lambda>n. n = 1"] by simp
  have "filter (\<lambda>((_, l'), es). l' = l) g \<noteq> []" using x by (auto simp: filter_empty_conv)
  then have "foldl count_label Map.empty g l = Some (card {s. length (objects_under k s (lname c l)) = 1}, card {s. objects_under k s (lname c l) \<noteq> []})"
    unfolding count_labels one n [symmetric] by (simp add: Let_def)
  moreover have "mapM (object_row_of c) es = Some (map row_of (objects_under k (cname c i) (lname c l)))"
    unfolding F(1) [OF b, symmetric] es(1) [symmetric] map_map
    by (rule mapM_Some) (use F(2) object_row_spec [OF inv] es(1) in auto)
  ultimately show ?thesis using name_reads(1,2) [OF ctx_invD(1) [OF inv]] b by (simp add: group_of_def tendency_def Let_def)
qed

lemma candidate_names:
  assumes inv: "ctx_inv U c" and k: "k = kb_of c" and g: "groups_of c g" and S: "S = {((i, l), es) | i l es. es = group_at g (i, l) \<and> 2 \<le> length es}"
  shows "((i, l), es) \<in> S \<Longrightarrow> i < length (concepts c) \<and> l < length (labels c)"
    and "inj_on (\<lambda>((i, l), _). (cname c i, lname c l)) S"
    and "(\<lambda>((i, l), _). (cname c i, lname c l)) ` S = {(s, l). 2 \<le> length (objects_under k s l)}"
proof -
  note F = groups_facts [OF inv k g] and N = name_ids [OF ctx_invD(1) [OF inv]]
  let ?nm = "\<lambda>((i, l), _). (cname c i, lname c l)"
  show b: "i < length (concepts c) \<and> l < length (labels c)" if "((i, l), es) \<in> S" for i l es
  proof -
    have "group_at g (i, l) \<noteq> []" using that unfolding S by auto
    then show ?thesis using F(2) [of "last (group_at g (i, l))" i l] last_in_set by blast
  qed
  show "inj_on ?nm S"
  proof (rule inj_onI, clarify)
    fix i l es j m fs assume x: "((i, l), es) \<in> S" "((j, m), fs) \<in> S" and "cname c i = cname c j" "lname c l = lname c m"
    then have "i = j" "l = m" using N(1,2) b [OF x(1)] b [OF x(2)] by (metis option.inject)+
    then show "((i, l) = (j, m)) \<and> es = fs" using x unfolding S by blast
  qed
  have len: "length (group_at g (i, l)) = length (objects_under k (cname c i) (lname c l))" if "i < length (concepts c)" "l < length (labels c)" for i l
    using F(1) [OF that] by (metis length_map)
  show "?nm ` S = {(s, l). 2 \<le> length (objects_under k s l)}"
  proof (intro equalityI subsetI)
    fix p assume "p \<in> ?nm ` S"
    then obtain i l es where "((i, l), es) \<in> S" "p = (cname c i, lname c l)" by auto
    then show "p \<in> {(s, l). 2 \<le> length (objects_under k s l)}" using b len unfolding S by fastforce
  next
    fix p assume "p \<in> {(s, l). 2 \<le> length (objects_under k s l)}"
    then obtain s l where p: "p = (s, l)" "2 \<le> length (objects_under k s l)" by blast
    then have "objects_under k s l \<noteq> []" by auto
    from F(3) [OF this] obtain i j where ij: "i < length (concepts c)" "j < length (labels c)" "s = cname c i" "l = lname c j" by blast
    then have "((i, j), group_at g (i, j)) \<in> S" using p(2) len unfolding S by simp
    then show "p \<in> ?nm ` S" using p(1) ij by force
  qed
qed

text \<open>
  C35. The subjects that hold two or more live objects under one label: exactly these pairs, each once,
  ordered by the ids of the label and the subject. Every group lists its objects in storage order with the
  sources whose own sum is not zero, and carries the share of the label's subjects that hold exactly one
  object; all of it is read from the facts, the fingerprint included, which folds the net weight of each
  object as the code does (the comment on the field speaks of its sum). A deadline is reported exactly when
  it fires at one of the polls, and nothing panics.
\<close>
theorem contradiction_groups_correct:
  assumes inv: "ctx_inv U c" and k: "k = kb_of c"
  shows "\<exists>ps. contradiction_groups c expired = Some (if polled expired 0 (length (kb_facts k)) then Inl DeadlineExceeded else Inr (map (group_of k) ps)) \<and>
    distinct ps \<and> set ps = {(s, l). 2 \<le> length (objects_under k s l)} \<and>
    sorted (map (\<lambda>(s, l). (the (label_ids c l), the (concept_ids c s))) ps)"
proof -
  let ?es = "[0..<length (edges c)]"
  obtain g where g: "group_scan c expired [] ?es = Some (if \<exists>e \<in> set ?es. expired e then Inl DeadlineExceeded else Inr g)" "groups_of c g"
    using group_scan_spec [of ?es c "[]" expired] by (auto simp: groups_ok_def groups_of_def group_at_def)
  have ok: "groups_ok g" using g(2) by (simp add: groups_of_def)
  note F = groups_facts [OF inv k g(2)] and N = name_ids [OF ctx_invD(1) [OF inv]]
  let ?key = "\<lambda>((subject, label), _). (label, subject)" and ?big = "filter (\<lambda>(_, es). 2 \<le> length es) g"
  define cs where "cs = sort_key ?key ?big"
  let ?nm = "\<lambda>((i, l), _). (cname c i, lname c l)"
  have cs: "set cs = {((i, l), es) | i l es. es = group_at g (i, l) \<and> 2 \<le> length es}"
    unfolding cs_def set_sort set_filter groups_ok_set(2) [OF ok] by auto
  note C = candidate_names [OF inv k g(2) cs]
  have d: "distinct (map fst cs)"
    using distinct_map_filter [OF groups_ok_set(1) [OF ok], of "\<lambda>(_, es). 2 \<le> length es"] by (simp add: cs_def distinct_map)
  have "mapM (\<lambda>((subject, label), es). do { (single, seen) \<leftarrow> foldl count_label Map.empty g label; objects \<leftarrow> mapM (object_row_of c) es;
      s \<leftarrow> concept_name c subject; l \<leftarrow> label_name c label;
      Some \<lparr>cg_subject = s, cg_label = l, cg_tendency = f64_div (f64_of_nat single) (f64_of_nat seen), cg_objects = objects, cg_fingerprint = group_digest s l objects\<rparr> }) cs
      = Some (map (\<lambda>x. group_of k (?nm x)) cs)"
    by (rule mapM_Some) (use group_entry [OF inv k g(2)] in \<open>auto simp: cs_def\<close>)
  then have "contradiction_groups c expired = Some (if polled expired 0 (length (kb_facts k)) then Inl DeadlineExceeded else Inr (map (group_of k) (map ?nm cs)))"
    using g(1) by (simp add: contradiction_groups_def cs_def [symmetric] k kb_of_def polled_def comp_def)
  moreover have "distinct (map ?nm cs)" using d C(2) by (simp add: distinct_map)
  moreover have "set (map ?nm cs) = {(s, l). 2 \<le> length (objects_under k s l)}" using C(3) by (simp only: set_map)
  moreover have "map (\<lambda>(s, l). (the (label_ids c l), the (concept_ids c s))) (map ?nm cs) = map ?key cs" using N(1,2) C(1) by auto
  ultimately show ?thesis by (intro exI [of _ "map ?nm cs"]) (simp only: cs_def sorted_sort_key simp_thms)
qed

theorem contradiction_groups_correct_witness:
  "\<exists>ps. contradiction_groups demo_ctx (\<lambda>_. False) = Some (Inr (map (group_of (kb_of demo_ctx)) ps)) \<and>
    set ps = {(s, l). 2 \<le> length (objects_under (kb_of demo_ctx) s l)}"
  using contradiction_groups_correct [OF demo_ctx(1) refl, where expired = "\<lambda>_. False"] by (auto simp: polled_def)

end
