(* ===== verification/Community.thy ===== *)
theory Community
  imports Consolidation
begin

text \<open>
  Community detection (\<^verbatim>\<open>src/context/community.rs\<close>): Louvain moves on the concept graph, a split into
  connected components after every level, aggregation into the next level, and the assembly of the
  hierarchy with names, strengths and fingerprints. Floating-point moves may cycle, so the loop of a level is
  a partial function: only the deadline is sure to end it. A deadline is a predicate of the number of polls
  made before.
\<close>

section \<open>Data\<close>

record work_graph =
  wg_neighbors :: "(nat \<times> f64) list list"
  wg_self :: "f64 list"

record community_member =
  cm_name :: rstr
  cm_strength :: f64

record community_association =
  ct_subject :: rstr
  ct_label :: rstr
  ct_object :: rstr
  ct_weight :: f64
  ct_count :: nat

record community =
  co_id :: rstr
  co_level :: nat
  co_parent :: "rstr option"
  co_fingerprint :: rstr
  co_concepts :: nat
  co_members :: "community_member list"
  co_children :: "rstr list"
  co_top :: "community_association list"

record community_analysis =
  cy_algorithm :: rstr
  cy_concepts :: nat
  cy_edges :: nat
  cy_levels :: nat
  cy_communities :: "community list"

definition COMMUNITY_ALGORITHM :: rstr where "COMMUNITY_ALGORITHM = bytes ''louvain-cc/1''"
definition MAX_LEVELS :: nat where "MAX_LEVELS = 8"
definition TOP_ASSOCIATIONS_PER_COMMUNITY :: nat where "TOP_ASSOCIATIONS_PER_COMMUNITY = 24"
definition DEADLINE_STRIDE :: nat where "DEADLINE_STRIDE = 1024"

section \<open>The working graph\<close>

abbreviation wg_len :: "work_graph \<Rightarrow> nat" where
  "wg_len g \<equiv> length (wg_neighbors g)"

definition wg_strength :: "work_graph \<Rightarrow> nat \<Rightarrow> f64 option" where
  "wg_strength g node = do {
     w \<leftarrow> nth_opt (wg_self g) node;
     ns \<leftarrow> nth_opt (wg_neighbors g) node;
     Some (foldl (\<lambda>t (_, weight). accumulate_saturating t weight) (f64_mul f64_two w) ns) }"

definition wg_total_weight :: "work_graph \<Rightarrow> f64 option" where
  "wg_total_weight g = foldM (\<lambda>t (node, ns). do {
     w \<leftarrow> nth_opt (wg_self g) node;
     Some (foldl (\<lambda>t (neighbor, weight). if node < neighbor then accumulate_saturating t weight else t) (accumulate_saturating t w) ns) })
     f64_zero (enumerate 0 (wg_neighbors g))"

text \<open>
  Parallel labels collapse into one undirected pair. The table is a hash map in the code whose entries are
  sorted before they are read; here it is an ascending list.
\<close>

type_synonym pair_weights = "((nat \<times> nat) \<times> f64) list"

definition add_weight :: "'k::linorder \<Rightarrow> f64 \<Rightarrow> ('k \<times> f64) list \<Rightarrow> ('k \<times> f64) list" where
  "add_weight key w m = bt_insert key (accumulate_saturating (case map_of m key of None \<Rightarrow> f64_zero | Some t \<Rightarrow> t) w) m"

definition binds :: "edge_record \<Rightarrow> bool" where
  "binds r \<longleftrightarrow> \<not> (ed_count r = 0 \<or> ed_subject r = ed_object r) \<and> \<not> f64_eq (f64_abs (ed_sum r)) f64_zero"

fun leaf_scan :: "(nat \<Rightarrow> bool) \<Rightarrow> nat \<Rightarrow> pair_weights \<Rightarrow> (nat \<times> edge_record) list \<Rightarrow> deadline_exceeded + nat \<times> pair_weights" where
  "leaf_scan expired tick merged [] = Inr (tick, merged)"
| "leaf_scan expired tick merged ((index, r) # rest) =
     (if index mod DEADLINE_STRIDE = 0 \<and> expired tick then Inl DeadlineExceeded
      else leaf_scan expired (if index mod DEADLINE_STRIDE = 0 then tick + 1 else tick)
        (if binds r then add_weight (min (ed_subject r) (ed_object r), max (ed_subject r) (ed_object r)) (f64_abs (ed_sum r)) merged else merged) rest)"

definition index_of :: "nat list \<Rightarrow> nat \<Rightarrow> nat option" where
  "index_of ids = map_of (zip ids [0..<length ids])"

definition link_pair :: "(nat \<times> f64) list list \<Rightarrow> nat \<times> nat \<Rightarrow> f64 \<Rightarrow> (nat \<times> f64) list list option" where
  "link_pair neighbors p weight = (case p of (a, b) \<Rightarrow> do {
     ns \<leftarrow> update_opt neighbors a (\<lambda>l. l @ [(b, weight)]);
     update_opt ns b (\<lambda>l. l @ [(a, weight)]) })"

definition leaf_graph :: "ctx \<Rightarrow> (nat \<Rightarrow> bool) \<Rightarrow> (deadline_exceeded + nat \<times> nat list \<times> work_graph) option" where
  "leaf_graph c expired =
     or_expired (Some (leaf_scan expired 0 [] (enumerate 0 (edges c)))) (\<lambda>(tick, merged).
       let concept_ids = remdups_adj (sort (concat (map (\<lambda>((a, b), _). [a, b]) merged)));
           pairs = sort_key fst merged
       in do {
         neighbors \<leftarrow> foldM (\<lambda>ns ((a, b), weight). do {
           i \<leftarrow> index_of concept_ids a;
           j \<leftarrow> index_of concept_ids b;
           link_pair ns (i, j) weight }) (replicate (length concept_ids) []) pairs;
         Some (Inr (tick, concept_ids, \<lparr>wg_neighbors = map (sort_key fst) neighbors, wg_self = replicate (length concept_ids) f64_zero\<rparr>)) })"

section \<open>One level\<close>

record level_state =
  lv_community :: "nat list"
  lv_total :: "f64 list"
  lv_moved :: bool
  lv_visits :: nat
  lv_tick :: nat

definition link_weights :: "nat list \<Rightarrow> nat \<Rightarrow> (nat \<times> f64) list \<Rightarrow> (nat \<times> f64) list option" where
  "link_weights community own ns = foldM (\<lambda>adj (neighbor, weight). do {
     there \<leftarrow> nth_opt community neighbor;
     Some (add_weight there weight adj) }) [(own, f64_zero)] ns"

definition move_gain :: "f64 list \<Rightarrow> f64 \<Rightarrow> f64 \<Rightarrow> nat \<Rightarrow> f64 \<Rightarrow> f64 option" where
  "move_gain totals s m target link = do {
     t \<leftarrow> nth_opt totals target;
     Some (f64_sub link (f64_div (f64_mul s t) (f64_mul f64_two m))) }"

definition best_move :: "f64 list \<Rightarrow> f64 \<Rightarrow> f64 \<Rightarrow> nat \<Rightarrow> (nat \<times> f64) list \<Rightarrow> nat option" where
  "best_move totals s m own adjacent = do {
     link \<leftarrow> map_of adjacent own;
     stay \<leftarrow> move_gain totals s m own link;
     best \<leftarrow> foldM (\<lambda>best (target, link).
       if target = own then Some best
       else do {
         candidate \<leftarrow> move_gain totals s m target link;
         Some (if f64_lt (snd best) candidate then (target, candidate) else best) }) (own, stay) adjacent;
     Some (fst best) }"

definition visit_node ::
    "work_graph \<Rightarrow> f64 list \<Rightarrow> f64 \<Rightarrow> (nat \<Rightarrow> bool) \<Rightarrow> level_state \<Rightarrow> nat \<Rightarrow> (deadline_exceeded + level_state) option" where
  "visit_node g strengths m expired st node =
     (let visits = (lv_visits st + 1) mod 2 ^ 64; poll = (visits mod DEADLINE_STRIDE = 0) in
      if poll \<and> expired (lv_tick st) then Some (Inl DeadlineExceeded)
      else do {
        own \<leftarrow> nth_opt (lv_community st) node;
        ns \<leftarrow> nth_opt (wg_neighbors g) node;
        adjacent \<leftarrow> link_weights (lv_community st) own ns;
        s \<leftarrow> nth_opt strengths node;
        totals \<leftarrow> update_opt (lv_total st) own (\<lambda>t. f64_sub t s);
        best \<leftarrow> best_move totals s m own adjacent;
        community \<leftarrow> update_opt (lv_community st) node (\<lambda>_. best);
        totals' \<leftarrow> update_opt totals best (\<lambda>t. f64_add t s);
        Some (Inr \<lparr>lv_community = community, lv_total = totals', lv_moved = (lv_moved st \<or> best \<noteq> own), lv_visits = visits,
          lv_tick = (if poll then lv_tick st + 1 else lv_tick st)\<rparr>) })"

fun level_pass ::
    "work_graph \<Rightarrow> f64 list \<Rightarrow> f64 \<Rightarrow> (nat \<Rightarrow> bool) \<Rightarrow> level_state \<Rightarrow> nat list \<Rightarrow> (deadline_exceeded + level_state) option" where
  "level_pass g strengths m expired st [] = Some (Inr st)"
| "level_pass g strengths m expired st (node # nodes) =
     or_expired (visit_node g strengths m expired st node) (\<lambda>st'. level_pass g strengths m expired st' nodes)"

partial_function (option) level_loop ::
    "work_graph \<Rightarrow> f64 list \<Rightarrow> f64 \<Rightarrow> (nat \<Rightarrow> bool) \<Rightarrow> level_state \<Rightarrow> (deadline_exceeded + level_state) option" where
  "level_loop g strengths m expired st =
     (if lv_moved st
      then (case level_pass g strengths m expired (st\<lparr>lv_moved := False\<rparr>) [0..<wg_len g] of
              None \<Rightarrow> None
            | Some (Inl x) \<Rightarrow> Some (Inl x)
            | Some (Inr st') \<Rightarrow> level_loop g strengths m expired st')
      else Some (Inr st))"

fun renumber_go :: "(nat \<times> nat) list \<Rightarrow> nat list \<Rightarrow> nat list \<times> nat" where
  "renumber_go m [] = ([], length m)"
| "renumber_go m (v # vs) =
     (case map_of m v of
        Some i \<Rightarrow> (let (rest, n) = renumber_go m vs in (i # rest, n))
      | None \<Rightarrow> (let (rest, n) = renumber_go ((v, length m) # m) vs in (length m # rest, n)))"

definition renumber :: "nat list \<Rightarrow> nat list \<times> nat" where
  "renumber assignment = renumber_go [] assignment"

text \<open>The frontier is a stack, its top in front.\<close>

definition reach_neighbor ::
    "nat list \<Rightarrow> nat \<Rightarrow> nat \<Rightarrow> nat option list \<times> nat list \<Rightarrow> nat \<times> f64 \<Rightarrow> (nat option list \<times> nat list) option" where
  "reach_neighbor assignment i node st e = (case (st, e) of ((component, frontier), (neighbor, _)) \<Rightarrow> do {
     there \<leftarrow> nth_opt assignment neighbor;
     here \<leftarrow> nth_opt assignment node;
     if there \<noteq> here then Some st
     else do {
       part \<leftarrow> nth_opt component neighbor;
       if part \<noteq> None then Some st
       else do {
         component' \<leftarrow> update_opt component neighbor (\<lambda>_. Some i);
         Some (component', neighbor # frontier) } } })"

fun fill_component ::
    "work_graph \<Rightarrow> nat list \<Rightarrow> nat \<Rightarrow> nat \<Rightarrow> nat option list \<times> nat list \<Rightarrow> nat option list option" where
  "fill_component g assignment i 0 st = None"
| "fill_component g assignment i (Suc fuel) (component, frontier) =
     (case frontier of [] \<Rightarrow> Some component
      | node # rest \<Rightarrow> do {
          ns \<leftarrow> nth_opt (wg_neighbors g) node;
          st' \<leftarrow> foldM (reach_neighbor assignment i node) (component, rest) ns;
          fill_component g assignment i fuel st' })"

definition start_component ::
    "work_graph \<Rightarrow> nat list \<Rightarrow> nat option list \<times> nat \<Rightarrow> nat \<Rightarrow> (nat option list \<times> nat) option" where
  "start_component g assignment st start = (case st of (component, nxt) \<Rightarrow> do {
     part \<leftarrow> nth_opt component start;
     if part \<noteq> None then Some st
     else do {
       component1 \<leftarrow> update_opt component start (\<lambda>_. Some nxt);
       component2 \<leftarrow> fill_component g assignment nxt (length assignment + 1) (component1, [start]);
       Some (component2, nxt + 1) } })"

definition split_components :: "work_graph \<Rightarrow> nat list \<Rightarrow> (nat list \<times> nat) option" where
  "split_components g assignment = do {
     (component, _) \<leftarrow> foldM (start_component g assignment) (replicate (length assignment) None, 0) [0..<length assignment];
     parts \<leftarrow> mapM id component;
     Some (renumber parts) }"

definition one_level :: "work_graph \<Rightarrow> (nat \<Rightarrow> bool) \<Rightarrow> nat \<Rightarrow> (deadline_exceeded + nat \<times> nat list \<times> nat) option" where
  "one_level g expired tick = do {
     m \<leftarrow> wg_total_weight g;
     if f64_eq m f64_zero then Some (Inr (tick, [0..<wg_len g], wg_len g))
     else do {
       strengths \<leftarrow> mapM (wg_strength g) [0..<wg_len g];
       or_expired (level_loop g strengths m expired
           \<lparr>lv_community = [0..<wg_len g], lv_total = strengths, lv_moved = True, lv_visits = 0, lv_tick = tick\<rparr>) (\<lambda>st. do {
         (assignment, n) \<leftarrow> split_components g (fst (renumber (lv_community st)));
         Some (Inr (lv_tick st, assignment, n)) }) } }"

section \<open>Aggregation and the ladder\<close>

definition collapse_edge ::
    "nat list \<Rightarrow> nat \<Rightarrow> nat \<Rightarrow> f64 list \<times> pair_weights \<Rightarrow> nat \<times> f64 \<Rightarrow> (f64 list \<times> pair_weights) option" where
  "collapse_edge assignment node home st e = (case (st, e) of ((selves, between), (neighbor, weight)) \<Rightarrow> do {
     there \<leftarrow> nth_opt assignment neighbor;
     if home = there then
       if node < neighbor then map_option (\<lambda>ss. (ss, between)) (update_opt selves home (\<lambda>t. accumulate_saturating t weight)) else Some st
     else if node < neighbor then Some (selves, add_weight (min home there, max home there) weight between)
     else Some st })"

definition collapse_node ::
    "work_graph \<Rightarrow> nat list \<Rightarrow> f64 list \<times> pair_weights \<Rightarrow> nat \<Rightarrow> (f64 list \<times> pair_weights) option" where
  "collapse_node g assignment st node = (case st of (selves, between) \<Rightarrow> do {
     home \<leftarrow> nth_opt assignment node;
     w \<leftarrow> nth_opt (wg_self g) node;
     selves' \<leftarrow> update_opt selves home (\<lambda>t. accumulate_saturating t w);
     ns \<leftarrow> nth_opt (wg_neighbors g) node;
     foldM (collapse_edge assignment node home) (selves', between) ns })"

definition aggregate :: "work_graph \<Rightarrow> nat list \<Rightarrow> nat \<Rightarrow> work_graph option" where
  "aggregate g assignment n = do {
     (selves, between) \<leftarrow> foldM (collapse_node g assignment) (replicate n f64_zero, []) [0..<wg_len g];
     neighbors \<leftarrow> foldM (\<lambda>ns (p, weight). link_pair ns p weight) (replicate n []) between;
     Some \<lparr>wg_neighbors = map (sort_key fst) neighbors, wg_self = selves\<rparr> }"

text \<open>The levels from the bottom up; the first argument is how many more may be added.\<close>

fun climb :: "nat \<Rightarrow> work_graph \<Rightarrow> (nat \<Rightarrow> bool) \<Rightarrow> nat \<Rightarrow> nat list list \<Rightarrow> (deadline_exceeded + nat \<times> nat list list) option" where
  "climb 0 g expired tick levels = Some (Inr (tick, levels))"
| "climb (Suc left) g expired tick levels =
     or_expired (one_level g expired tick) (\<lambda>(tick1, assignment, n).
       if n = wg_len g then Some (Inr (tick1, levels))
       else do {
         g' \<leftarrow> aggregate g assignment n;
         if n = 1 then Some (Inr (tick1, levels @ [assignment])) else climb left g' expired tick1 (levels @ [assignment]) })"

section \<open>Renumbering\<close>

lemma renumber_go_spec:
  "distinct (map fst m) \<Longrightarrow> map snd m = rev [0..<length m] \<Longrightarrow>
   \<exists>m'. renumber_go m vs = (map (\<lambda>v. the (map_of m' v)) vs, length m') \<and> distinct (map fst m') \<and> map snd m' = rev [0..<length m'] \<and>
     fst ` set m' = fst ` set m \<union> set vs \<and> map_of m \<subseteq>\<^sub>m map_of m'"
proof (induction vs arbitrary: m)
  case Nil
  then show ?case by (intro exI [of _ m]) auto
next
  case (Cons v vs)
  show ?case
  proof (cases "map_of m v")
    case None
    let ?m = "(v, length m) # m"
    have "distinct (map fst ?m)" "map snd ?m = rev [0..<length ?m]" using Cons.prems None by (auto simp: map_of_eq_None_iff)
    from Cons.IH [OF this] obtain m' where m': "renumber_go ?m vs = (map (\<lambda>v. the (map_of m' v)) vs, length m')" "distinct (map fst m')"
      "map snd m' = rev [0..<length m']" "fst ` set m' = fst ` set ?m \<union> set vs" "map_of ?m \<subseteq>\<^sub>m map_of m'" by blast
    have "map_of m' v = Some (length m)" using m'(5) by (auto simp: map_le_def dest!: bspec [of _ _ v])
    moreover have "map_of m \<subseteq>\<^sub>m map_of ?m" using None by (auto simp: map_le_def)
    then have "map_of m \<subseteq>\<^sub>m map_of m'" using m'(5) by (rule map_le_trans)
    ultimately show ?thesis using None m' by (intro exI [of _ m']) auto
  next
    case (Some i)
    from Cons.IH [OF Cons.prems] obtain m' where m': "renumber_go m vs = (map (\<lambda>v. the (map_of m' v)) vs, length m')" "distinct (map fst m')"
      "map snd m' = rev [0..<length m']" "fst ` set m' = fst ` set m \<union> set vs" "map_of m \<subseteq>\<^sub>m map_of m'" by blast
    have "map_of m' v = Some i" using m'(5) Some by (metis map_le_def domI)
    moreover have "v \<in> fst ` set m" using Some by (force dest: map_of_SomeD)
    ultimately show ?thesis using Some m' by (intro exI [of _ m']) auto
  qed
qed

lemma renumber_spec:
  assumes "renumber vs = (ys, n)"
  shows "length ys = length vs" "set ys = {..<n}" "i < length vs \<Longrightarrow> j < length vs \<Longrightarrow> ys ! i = ys ! j \<longleftrightarrow> vs ! i = vs ! j"
proof -
  obtain m where m: "(ys, n) = (map (\<lambda>v. the (map_of m v)) vs, length m)" "distinct (map fst m)" "map snd m = rev [0..<length m]" "fst ` set m = set vs"
    using renumber_go_spec [of "[]" vs] assms by (auto simp: renumber_def)
  have ran: "the (map_of m v) = w \<longleftrightarrow> (v, w) \<in> set m" if v: "v \<in> set vs" for v w
  proof -
    obtain u where "(v, u) \<in> set m" using v m(4) by (metis imageE prod.collapse)
    then show ?thesis using m(2) by (metis map_of_is_SomeI map_of_SomeD option.sel)
  qed
  have d: "distinct (map snd m)" unfolding m(3) by simp
  show "length ys = length vs" using m(1) by simp
  have "set ys = snd ` set m"
  proof (intro equalityI subsetI)
    fix y assume "y \<in> set ys"
    then obtain v where "v \<in> set vs" "the (map_of m v) = y" using m(1) by auto
    then show "y \<in> snd ` set m" using ran by (metis image_eqI snd_conv)
  next
    fix y assume "y \<in> snd ` set m"
    then obtain v where v: "(v, y) \<in> set m" by auto
    then have "v \<in> set vs" using m(4) by (metis image_eqI fst_conv)
    then have "the (map_of m v) = y" using ran v by blast
    then show "y \<in> set ys" using \<open>v \<in> set vs\<close> m(1) by auto
  qed
  also have "\<dots> = {..<n}" using m(1) arg_cong [OF m(3), of set] by auto
  finally show "set ys = {..<n}" .
  show "ys ! i = ys ! j \<longleftrightarrow> vs ! i = vs ! j" if "i < length vs" "j < length vs"
  proof
    assume "ys ! i = ys ! j"
    then have "(vs ! i, ys ! j) \<in> set m" "(vs ! j, ys ! j) \<in> set m" using m(1) that ran [OF nth_mem] by auto
    then show "vs ! i = vs ! j" using d by (metis distinct_map inj_onD snd_conv fst_conv)
  qed (use m(1) that in simp)
qed

section \<open>Connected components\<close>

text \<open>A graph whose links are in range and go both ways.\<close>

definition links :: "work_graph \<Rightarrow> nat rel" where
  "links g = {(u, v). u < wg_len g \<and> v \<in> fst ` set (wg_neighbors g ! u)}"

definition wg_ok :: "work_graph \<Rightarrow> bool" where
  "wg_ok g \<longleftrightarrow> length (wg_self g) = wg_len g \<and> links g \<subseteq> {..<wg_len g} \<times> {..<wg_len g} \<and> sym (links g)"

definition inside :: "nat list \<Rightarrow> nat rel \<Rightarrow> nat rel" where
  "inside a r = {(u, v) \<in> r. a ! u = a ! v}"

text \<open>
  What holds while components are filled: those marked so far are connected, and closed under links but for the
  nodes still on the stack, which belong to the component at hand.
\<close>

definition fill_inv :: "nat \<Rightarrow> nat rel \<Rightarrow> nat \<Rightarrow> nat option list \<Rightarrow> nat list \<Rightarrow> bool" where
  "fill_inv n R i cp fr \<longleftrightarrow> length cp = n \<and> set fr \<subseteq> {w. w < n \<and> cp ! w = Some i} \<and>
     (\<forall>u v j. u < n \<and> v < n \<and> cp ! u = Some j \<and> cp ! v = Some j \<longrightarrow> (u, v) \<in> R\<^sup>*) \<and>
     (\<forall>u v j. u < n \<and> u \<notin> set fr \<and> cp ! u = Some j \<and> (u, v) \<in> R \<longrightarrow> cp ! v = Some j) \<and>
     (\<forall>u j. u < n \<and> cp ! u = Some j \<longrightarrow> j \<le> i)"

definition blanks :: "nat option list \<Rightarrow> nat" where
  "blanks cp = length (filter (\<lambda>x. x = None) cp)"

lemma blanks_update: "v < length cp \<Longrightarrow> cp ! v = None \<Longrightarrow> Suc (blanks (cp[v := Some i])) = blanks cp"
proof -
  assume v: "v < length cp" "cp ! v = None"
  have c: "cp = take v cp @ None # drop (Suc v) cp" using id_take_nth_drop [OF v(1)] v(2) by simp
  have u: "cp[v := Some i] = take v cp @ Some i # drop (Suc v) cp" using v(1) by (simp add: upd_conv_take_nth_drop)
  show ?thesis using arg_cong [OF c, of blanks] unfolding u by (simp add: blanks_def)
qed

lemma fill_invD:
  assumes "fill_inv n R i cp fr"
  shows "length cp = n" "w \<in> set fr \<Longrightarrow> w < n \<and> cp ! w = Some i"
    "u < n \<Longrightarrow> v < n \<Longrightarrow> cp ! u = Some j \<Longrightarrow> cp ! v = Some j \<Longrightarrow> (u, v) \<in> R\<^sup>*"
    "u < n \<Longrightarrow> u \<notin> set fr \<Longrightarrow> cp ! u = Some j \<Longrightarrow> (u, v) \<in> R \<Longrightarrow> cp ! v = Some j"
    "u < n \<Longrightarrow> cp ! u = Some j \<Longrightarrow> j \<le> i"
  using assms unfolding fill_inv_def by (elim conjE, blast)+

lemma fill_inv_le: "fill_inv n R i cp [] \<Longrightarrow> i \<le> k \<Longrightarrow> fill_inv n R k cp []"
proof -
  assume a: "fill_inv n R i cp []" "i \<le> k"
  have "\<forall>u j. u < n \<and> cp ! u = Some j \<longrightarrow> j \<le> k" using fill_invD(5) [OF a(1)] a(2) order_trans by blast
  moreover have "set [] \<subseteq> {w. w < n \<and> cp ! w = Some k}" by simp
  ultimately show ?thesis using a(1) unfolding fill_inv_def by (elim conjE, intro conjI) assumption+
qed

lemma fill_inv_set: "set fr = set fr' \<Longrightarrow> fill_inv n R i cp fr \<longleftrightarrow> fill_inv n R i cp fr'"
  unfolding fill_inv_def by (simp only:)

text \<open>Marking one neighbour of the node at hand.\<close>

lemma fill_inv_mark:
  assumes inv: "fill_inv n R i cp fr" and R: "sym R" "R \<subseteq> {..<n} \<times> {..<n}" and w: "w < n" "cp ! w = Some i" "(w, v) \<in> R" and v: "cp ! v = None"
  shows "fill_inv n R i (cp[v := Some i]) (v # fr)"
proof -
  note I = fill_invD [OF inv]
  have vn: "v < n" using R(2) w(3) by auto
  have vw: "(v, w) \<in> R" using R(1) w(3) by (rule symD)
  have sy: "(a, b) \<in> R\<^sup>* \<Longrightarrow> (b, a) \<in> R\<^sup>*" for a b using sym_rtrancl [OF R(1)] by (rule symD)
  have step: "(v, b) \<in> R\<^sup>*" if "b < n" "cp ! b = Some i" for b
    by (rule converse_rtrancl_into_rtrancl [OF vw I(3) [OF w(1) that(1) w(2) that(2)]])
  have upd: "cp[v := Some i] ! a = (if a = v then Some i else cp ! a)" for a using vn I(1) by (simp add: nth_list_update)
  have "(a, b) \<in> R\<^sup>*" if "a < n" "b < n" "cp[v := Some i] ! a = Some j" "cp[v := Some i] ! b = Some j" for a b j
    using that I(3) [of a b j] step [of a] step [of b] sy [of v] unfolding upd by (cases "a = v"; cases "b = v") auto
  moreover have "cp[v := Some i] ! b = Some j" if "a < n" "a \<notin> set (v # fr)" "cp[v := Some i] ! a = Some j" "(a, b) \<in> R" for a b j
    using that I(4) [of a j b] v unfolding upd by (auto split: if_splits)
  moreover have "j \<le> i" if "a < n" "cp[v := Some i] ! a = Some j" for a j using that I(5) [of a j] unfolding upd by (auto split: if_splits)
  moreover have "set (v # fr) \<subseteq> {w. w < n \<and> cp[v := Some i] ! w = Some i}" using I(2) vn unfolding upd by auto
  ultimately show ?thesis unfolding fill_inv_def length_list_update using I(1) by (intro conjI allI impI; (elim conjE)?; simp only:; blast?)
qed

lemma fill_inv_pop:
  assumes inv: "fill_inv n R i cp (w # fr)" and R: "sym R" "R \<subseteq> {..<n} \<times> {..<n}"
    and marked: "\<forall>v. (w, v) \<in> R \<longrightarrow> cp ! v \<noteq> None"
  shows "fill_inv n R i cp fr"
proof -
  note I = fill_invD [OF inv]
  have w: "w < n" "cp ! w = Some i" using I(2) [of w] by simp_all
  have "cp ! v = Some i" if wv: "(w, v) \<in> R" for v
  proof (cases "v \<in> set (w # fr)")
    case False
    obtain j where j: "cp ! v = Some j" using marked wv by auto
    have "v < n" "(v, w) \<in> R" using wv R by (auto dest: symD)
    then have "cp ! w = Some j" using I(4) [of v j w] False j by blast
    then show ?thesis using w(2) j by simp
  qed (use I(2) in blast)
  then have "cp ! v = Some j" if "u < n" "u \<notin> set fr" "cp ! u = Some j" "(u, v) \<in> R" for u v j
    using that I(4) [of u j v] w(2) by (cases "u = w") auto
  moreover have "set fr \<subseteq> {w. w < n \<and> cp ! w = Some i}" using I(2) by auto
  ultimately show ?thesis unfolding fill_inv_def using I(1,3,5) by (intro conjI allI impI; (elim conjE)?; simp only:; blast?)
qed

lemma reach_neighbors:
  assumes R: "sym R" "R \<subseteq> {..<n} \<times> {..<n}" and a: "length a = n"
    and w: "w < n" and ns: "\<forall>e \<in> set es. fst e < n \<and> (a ! fst e = a ! w \<longrightarrow> (w, fst e) \<in> R)"
  shows "fill_inv n R i cp (w # fr) \<Longrightarrow> \<exists>cp' fr'. foldM (reach_neighbor a i w) (cp, fr) es = Some (cp', fr') \<and>
     fill_inv n R i cp' (w # fr') \<and> blanks cp' + length fr' = blanks cp + length fr \<and>
     (\<forall>v < n. cp ! v \<noteq> None \<longrightarrow> cp' ! v = cp ! v) \<and> (\<forall>e \<in> set es. a ! fst e = a ! w \<longrightarrow> cp' ! fst e \<noteq> None)"
  using ns
proof (induction es arbitrary: cp fr)
  case Nil
  then show ?case by simp
next
  case (Cons e es)
  obtain v x where e: "e = (v, x)" by (cases e)
  have v: "v < n" "a ! v = a ! w \<Longrightarrow> (w, v) \<in> R" using Cons.prems(2) e by auto
  have len: "length cp = n" by (rule fill_invD(1) [OF Cons.prems(1)])
  have ns': "\<forall>e \<in> set es. fst e < n \<and> (a ! fst e = a ! w \<longrightarrow> (w, fst e) \<in> R)" using Cons.prems(2) by simp
  obtain cp1 fr1 where one: "reach_neighbor a i w (cp, fr) e = Some (cp1, fr1)" "fill_inv n R i cp1 (w # fr1)"
    "blanks cp1 + length fr1 = blanks cp + length fr" "\<forall>v < n. cp ! v \<noteq> None \<longrightarrow> cp1 ! v = cp ! v" "a ! v = a ! w \<longrightarrow> cp1 ! v \<noteq> None"
  proof (cases "a ! v = a ! w \<and> cp ! v = None")
    case True
    let ?cp = "cp[v := Some i]"
    have "fill_inv n R i ?cp (v # w # fr)" using fill_inv_mark [OF Cons.prems(1) R w _ v(2)] fill_invD(2) [OF Cons.prems(1), of w] True by simp
    then have "fill_inv n R i ?cp (w # v # fr)" by (rule fill_inv_set [THEN iffD1, rotated]) auto
    moreover have "reach_neighbor a i w (cp, fr) e = Some (?cp, v # fr)" using True v(1) w a len by (simp add: reach_neighbor_def e)
    moreover have "blanks ?cp + length (v # fr) = blanks cp + length fr" using blanks_update [of v cp i] True v(1) len by simp
    moreover have "\<forall>u < n. cp ! u \<noteq> None \<longrightarrow> ?cp ! u = cp ! u" using True by (metis nth_list_update_neq)
    moreover have "?cp ! v \<noteq> None" using v(1) len by simp
    ultimately show ?thesis using that by (metis (no_types))
  next
    case False
    have "reach_neighbor a i w (cp, fr) e = Some (cp, fr)" using False v(1) w a len by (auto simp: reach_neighbor_def e)
    from that [OF this Cons.prems(1)] False show ?thesis by simp
  qed
  from Cons.IH [OF one(2) ns'] obtain cp' fr' where r: "foldM (reach_neighbor a i w) (cp1, fr1) es = Some (cp', fr')" "fill_inv n R i cp' (w # fr')"
    "blanks cp' + length fr' = blanks cp1 + length fr1" "\<forall>v < n. cp1 ! v \<noteq> None \<longrightarrow> cp' ! v = cp1 ! v"
    "\<forall>e \<in> set es. a ! fst e = a ! w \<longrightarrow> cp' ! fst e \<noteq> None" by (elim exE conjE) (rule that)
  have "\<forall>v < n. cp ! v \<noteq> None \<longrightarrow> cp' ! v = cp ! v" using one(4) r(4) by metis
  moreover have "a ! v = a ! w \<longrightarrow> cp' ! v \<noteq> None" using one(5) r(4) v(1) by metis
  ultimately show ?case using one(1,3) r e by (intro exI [of _ cp'] exI [of _ fr']) simp
qed

lemma fill_component_spec:
  assumes R: "sym R" "R \<subseteq> {..<n} \<times> {..<n}" and a: "length a = n" "wg_len g = n" and g: "R = inside a (links g)" "links g \<subseteq> {..<n} \<times> {..<n}"
  shows "fill_inv n R i cp fr \<Longrightarrow> blanks cp + length fr < fuel \<Longrightarrow>
    \<exists>cp'. fill_component g a i fuel (cp, fr) = Some cp' \<and> fill_inv n R i cp' [] \<and> (\<forall>v < n. cp ! v \<noteq> None \<longrightarrow> cp' ! v = cp ! v)"
proof (induction fuel arbitrary: cp fr)
  case (Suc fuel)
  show ?case
  proof (cases fr)
    case Nil
    then show ?thesis using Suc.prems(1) by simp
  next
    case (Cons w rest)
    have inv: "fill_inv n R i cp (w # rest)" using Suc.prems(1) Cons by simp
    have w: "w < n" using fill_invD(2) [OF inv, of w] by simp
    have l: "(w, fst e) \<in> links g" if "e \<in> set (wg_neighbors g ! w)" for e using that w a(2) by (auto simp: links_def)
    have ns: "\<forall>e \<in> set (wg_neighbors g ! w). fst e < n \<and> (a ! fst e = a ! w \<longrightarrow> (w, fst e) \<in> R)"
      using l g by (fastforce simp: inside_def)
    from reach_neighbors [OF R a(1) w ns inv] obtain cp' fr' where r: "foldM (reach_neighbor a i w) (cp, rest) (wg_neighbors g ! w) = Some (cp', fr')"
      "fill_inv n R i cp' (w # fr')" "blanks cp' + length fr' = blanks cp + length rest" "\<forall>v < n. cp ! v \<noteq> None \<longrightarrow> cp' ! v = cp ! v"
      "\<forall>e \<in> set (wg_neighbors g ! w). a ! fst e = a ! w \<longrightarrow> cp' ! fst e \<noteq> None" by (elim exE conjE) (rule that)
    have "\<forall>v. (w, v) \<in> R \<longrightarrow> cp' ! v \<noteq> None" using r(5) unfolding g(1) inside_def links_def by auto
    from fill_inv_pop [OF r(2) R this] have "fill_inv n R i cp' fr'" .
    moreover have "blanks cp' + length fr' < fuel" using r(3) Suc.prems(2) Cons by simp
    ultimately obtain cp2 where "fill_component g a i fuel (cp', fr') = Some cp2" "fill_inv n R i cp2 []" "\<forall>v < n. cp' ! v \<noteq> None \<longrightarrow> cp2 ! v = cp' ! v"
      using Suc.IH by blast
    moreover have "\<forall>v < n. cp ! v \<noteq> None \<longrightarrow> cp2 ! v = cp ! v" using r(4) calculation(3) by metis
    ultimately show ?thesis using r(1) w a(2) Cons by (intro exI [of _ cp2]) simp
  qed
qed simp

lemma start_component_spec:
  assumes R: "sym R" "R \<subseteq> {..<n} \<times> {..<n}" and a: "length a = n" "wg_len g = n" and g: "R = inside a (links g)" "links g \<subseteq> {..<n} \<times> {..<n}"
    and inv: "fill_inv n R nxt cp []" "\<forall>u < n. \<forall>j. cp ! u = Some j \<longrightarrow> j < nxt" and s: "s < n"
  shows "\<exists>cp' nxt'. start_component g a (cp, nxt) s = Some (cp', nxt') \<and> fill_inv n R nxt' cp' [] \<and> (\<forall>u < n. \<forall>j. cp' ! u = Some j \<longrightarrow> j < nxt') \<and>
    cp' ! s \<noteq> None \<and> (\<forall>v < n. cp ! v \<noteq> None \<longrightarrow> cp' ! v = cp ! v)"
proof (cases "cp ! s = None")
  case False
  then show ?thesis using inv s fill_invD(1) [OF inv(1)] by (intro exI [of _ cp] exI [of _ nxt]) (auto simp: start_component_def)
next
  case True
  let ?cp = "cp[s := Some nxt]"
  note I = fill_invD [OF inv(1)]
  have upd: "?cp ! u = (if u = s then Some nxt else cp ! u)" for u using s I(1) by (simp add: nth_list_update)
  have "(u, v) \<in> R\<^sup>*" if "u < n" "v < n" "?cp ! u = Some j" "?cp ! v = Some j" for u v j
    using that I(3) [of u v j] inv(2) unfolding upd by (cases "u = s"; cases "v = s") auto
  moreover have "?cp ! v = Some j" if "u < n" "u \<notin> set [s]" "?cp ! u = Some j" "(u, v) \<in> R" for u v j
    using that I(4) [of u j v] True unfolding upd by auto
  moreover have "j \<le> nxt" if "u < n" "?cp ! u = Some j" for u j using that I(5) [of u j] unfolding upd by (auto split: if_splits)
  moreover have "set [s] \<subseteq> {w. w < n \<and> ?cp ! w = Some nxt}" using s upd by simp
  ultimately have f: "fill_inv n R nxt ?cp [s]" unfolding fill_inv_def length_list_update using I(1) by (intro conjI allI impI; (elim conjE)?; simp only:; blast?)
  have "blanks cp \<le> n" using I(1) by (simp add: blanks_def) (metis length_filter_le)
  then have "blanks ?cp + length [s] < length a + 1" using blanks_update [of s cp nxt] True s I(1) a(1) by simp
  from fill_component_spec [OF R a g f this] obtain cp' where c: "fill_component g a nxt (length a + 1) (?cp, [s]) = Some cp'" "fill_inv n R nxt cp' []"
    "\<forall>v < n. ?cp ! v \<noteq> None \<longrightarrow> cp' ! v = ?cp ! v" by (elim exE conjE) (rule that)
  note I' = fill_invD [OF c(2)]
  have "fill_inv n R (nxt + 1) cp' []" by (rule fill_inv_le [OF c(2)]) simp
  moreover have "\<forall>u < n. \<forall>j. cp' ! u = Some j \<longrightarrow> j < nxt + 1" using I'(5) by (auto simp: less_Suc_eq_le)
  moreover have "cp' ! s = Some nxt" using c(3) s upd by simp
  moreover have "\<forall>v < n. cp ! v \<noteq> None \<longrightarrow> cp' ! v = cp ! v" using c(3) True unfolding upd by metis
  ultimately show ?thesis using c(1) s I(1) True by (intro exI [of _ cp'] exI [of _ "nxt + 1"]) (simp add: start_component_def del: fill_component.simps)
qed

lemma start_components_spec:
  assumes R: "sym R" "R \<subseteq> {..<n} \<times> {..<n}" and a: "length a = n" "wg_len g = n" and g: "R = inside a (links g)" "links g \<subseteq> {..<n} \<times> {..<n}"
  shows "fill_inv n R nxt cp [] \<Longrightarrow> \<forall>u < n. \<forall>j. cp ! u = Some j \<longrightarrow> j < nxt \<Longrightarrow> set xs \<subseteq> {..<n} \<Longrightarrow>
    \<exists>cp' nxt'. foldM (start_component g a) (cp, nxt) xs = Some (cp', nxt') \<and> fill_inv n R nxt' cp' [] \<and>
      (\<forall>v < n. cp ! v \<noteq> None \<longrightarrow> cp' ! v = cp ! v) \<and> (\<forall>x \<in> set xs. cp' ! x \<noteq> None)"
proof (induction xs arbitrary: cp nxt)
  case (Cons x xs)
  have "x < n" using Cons.prems(3) by simp
  from start_component_spec [OF R a g Cons.prems(1,2) this] obtain cp1 nxt1 where one: "start_component g a (cp, nxt) x = Some (cp1, nxt1)" "fill_inv n R nxt1 cp1 []"
    "\<forall>u < n. \<forall>j. cp1 ! u = Some j \<longrightarrow> j < nxt1" "cp1 ! x \<noteq> None" "\<forall>v < n. cp ! v \<noteq> None \<longrightarrow> cp1 ! v = cp ! v" by (elim exE conjE) (rule that)
  have "set xs \<subseteq> {..<n}" using Cons.prems(3) by simp
  from Cons.IH [OF one(2,3) this] obtain cp' nxt' where r: "foldM (start_component g a) (cp1, nxt1) xs = Some (cp', nxt')" "fill_inv n R nxt' cp' []"
    "\<forall>v < n. cp1 ! v \<noteq> None \<longrightarrow> cp' ! v = cp1 ! v" "\<forall>x \<in> set xs. cp' ! x \<noteq> None" by (elim exE conjE) (rule that)
  have "\<forall>v < n. cp ! v \<noteq> None \<longrightarrow> cp' ! v = cp ! v" using one(5) r(3) by metis
  moreover have "cp' ! x \<noteq> None" using one(4) r(3) \<open>x < n\<close> by metis
  ultimately show ?case using one(1) r by (intro exI [of _ cp'] exI [of _ nxt']) simp
qed simp

text \<open>Splitting an assignment: two nodes share a part exactly when links inside the assignment join them.\<close>

lemma split_components_spec:
  assumes ok: "wg_ok g" and a: "length a = wg_len g"
  shows "\<exists>ys k. split_components g a = Some (ys, k) \<and> length ys = wg_len g \<and> set ys = {..<k} \<and>
    (\<forall>u < wg_len g. \<forall>v < wg_len g. ys ! u = ys ! v \<longleftrightarrow> (u, v) \<in> (inside a (links g))\<^sup>*)"
proof -
  let ?n = "wg_len g" and ?R = "inside a (links g)"
  have L: "links g \<subseteq> {..<?n} \<times> {..<?n}" "sym (links g)" using ok by (simp_all add: wg_ok_def)
  have R: "sym ?R" "?R \<subseteq> {..<?n} \<times> {..<?n}" using L by (auto simp: inside_def sym_def)
  have "fill_inv ?n ?R 0 (replicate ?n None) []" "\<forall>u < ?n. \<forall>j. replicate ?n None ! u = Some j \<longrightarrow> j < (0::nat)" "set [0..<?n] \<subseteq> {..<?n}" by (auto simp: fill_inv_def)
  from start_components_spec [OF R a refl refl L(1) this] obtain cp nxt where c: "foldM (start_component g a) (replicate ?n None, 0) [0..<?n] = Some (cp, nxt)"
    "fill_inv ?n ?R nxt cp []" "\<forall>x \<in> set [0..<?n]. cp ! x \<noteq> None" by (elim exE conjE) (rule that)
  note I = fill_invD [OF c(2)]
  have all: "cp ! u = Some (the (cp ! u))" if "u < ?n" for u using c(3) that by auto
  have "mapM id cp = Some (map the cp)" using c(3) I(1) by (intro mapM_Some) (metis all id_apply in_set_conv_nth)
  moreover obtain ys k where y: "renumber (map the cp) = (ys, k)" by (cases "renumber (map the cp)")
  ultimately have run: "split_components g a = Some (ys, k)" using c(1) a by (simp add: split_components_def)
  note Y = renumber_spec [OF y]
  have "ys ! u = ys ! v \<longleftrightarrow> (u, v) \<in> ?R\<^sup>*" if uv: "u < ?n" "v < ?n" for u v
  proof -
    have "ys ! u = ys ! v \<longleftrightarrow> cp ! u = cp ! v" using Y(3) [of u v] uv I(1) all by (metis length_map nth_map)
    moreover have "cp ! u = cp ! v" if "(u, v) \<in> ?R\<^sup>*" using that
    proof (induction rule: rtrancl_induct)
      case (step x y)
      then have "x < ?n" using R(2) by auto
      from I(4) [OF this _ all [OF this] step(2)] step(3) all [OF this] show ?case by simp
    qed simp
    ultimately show ?thesis using I(3) [OF uv all [OF uv(1)]] all [OF uv(2)] by metis
  qed
  then show ?thesis using run Y(1,2) I(1) by (intro exI [of _ ys] exI [of _ k]) simp
qed

section \<open>Moving\<close>

definition level_ok :: "nat \<Rightarrow> level_state \<Rightarrow> bool" where
  "level_ok n st \<longleftrightarrow> length (lv_community st) = n \<and> (\<forall>x \<in> set (lv_community st). x < n) \<and> length (lv_total st) = n"

lemma foldM_invariant:
  "P s \<Longrightarrow> (\<And>s x. P s \<Longrightarrow> x \<in> set xs \<Longrightarrow> \<exists>s'. f s x = Some s' \<and> P s') \<Longrightarrow> \<exists>s'. foldM f s xs = Some s' \<and> P s'"
proof (induction xs arbitrary: s)
  case (Cons x xs)
  obtain s' where s': "f s x = Some s'" "P s'" using Cons.prems(2) [OF Cons.prems(1), of x] by auto
  have "\<exists>t. foldM f s' xs = Some t \<and> P t" by (rule Cons.IH [OF s'(2)]) (use Cons.prems(2) in auto)
  then show ?case by (simp add: s'(1))
qed simp

lemma keys_add_weight: "fst ` set (add_weight key w m) = insert key (fst ` set m)"
  by (simp add: add_weight_def set_fst_bt_insert)

lemma link_weights_spec:
  assumes cm: "length cm = n" "\<forall>x \<in> set cm. x < n" and own: "own < n" and ns: "\<forall>e \<in> set ns. fst e < n"
  shows "\<exists>adj. link_weights cm own ns = Some adj \<and> own \<in> fst ` set adj \<and> fst ` set adj \<subseteq> {..<n}"
proof -
  have "\<exists>adj'. (case e of (neighbor, weight) \<Rightarrow> do { there \<leftarrow> nth_opt cm neighbor; Some (add_weight there weight adj) }) = Some adj' \<and>
      own \<in> fst ` set adj' \<and> fst ` set adj' \<subseteq> {..<n}" if a: "own \<in> fst ` set adj \<and> fst ` set adj \<subseteq> {..<n}" and e: "e \<in> set ns" for adj e
  proof -
    obtain v w where v: "e = (v, w)" by (cases e)
    have "v < n" "cm ! v < n" using e ns cm v by auto
    then show ?thesis using a v cm by (auto simp: keys_add_weight)
  qed
  then show ?thesis unfolding link_weights_def
    by (intro foldM_invariant [where P = "\<lambda>adj. own \<in> fst ` set adj \<and> fst ` set adj \<subseteq> {..<n}"]) (use own in auto)
qed

lemma best_move_spec:
  assumes t: "length totals = n" and own: "own < n" and adj: "own \<in> fst ` set adj" "fst ` set adj \<subseteq> {..<n}"
  shows "\<exists>b < n. best_move totals s m own adj = Some b"
proof -
  obtain link where l: "map_of adj own = Some link" using adj(1) by (metis map_of_eq_None_iff not_None_eq)
  have g: "\<exists>x. move_gain totals s m target link = Some x" if "target < n" for target link using that t by (simp add: move_gain_def)
  obtain stay where st: "move_gain totals s m own link = Some stay" using g own by blast
  have step: "\<exists>best'. (case e of (target, link) \<Rightarrow> if target = own then Some best
      else do { candidate \<leftarrow> move_gain totals s m target link; Some (if f64_lt (snd best) candidate then (target, candidate) else best) }) = Some best' \<and> fst best' < n"
    if "fst best < n" and e: "e \<in> set adj" for best :: "nat \<times> f64" and e
  proof -
    obtain v w where v: "e = (v, w)" by (cases e)
    have vn: "v < n" using e adj(2) v by force
    obtain x where "move_gain totals s m v w = Some x" using g [OF vn] by blast
    then show ?thesis using that(1) v vn by (cases best) auto
  qed
  have "\<exists>b. foldM (\<lambda>best (target, link). if target = own then Some best
       else do { candidate \<leftarrow> move_gain totals s m target link; Some (if f64_lt (snd best) candidate then (target, candidate) else best) }) (own, stay) adj = Some b \<and> fst b < n"
    by (rule foldM_invariant [where P = "\<lambda>best. fst best < n"]) (use own step in auto)
  then show ?thesis using l st by (auto simp: best_move_def)
qed

text \<open>The number of visits until a deadline that fires from the poll \<open>N\<close> on must be noticed.\<close>

definition visits_left :: "nat \<Rightarrow> level_state \<Rightarrow> nat" where
  "visits_left N st = DEADLINE_STRIDE * (N + 1 - lv_tick st) - lv_visits st mod DEADLINE_STRIDE"

definition visit_ok :: "nat \<Rightarrow> nat \<Rightarrow> level_state \<Rightarrow> bool" where
  "visit_ok n N st \<longleftrightarrow> level_ok n st \<and> lv_tick st \<le> N"

lemma visits_left_step:
  assumes N: "lv_tick st \<le> N" and v: "lv_visits st' = (lv_visits st + 1) mod 2 ^ 64"
    and t: "lv_tick st' = (if lv_visits st' mod DEADLINE_STRIDE = 0 then lv_tick st + 1 else lv_tick st)" "lv_tick st' \<le> N"
  shows "visits_left N st' < visits_left N st"
proof -
  define r where "r = lv_visits st mod 1024"
  have m: "lv_visits st' mod 1024 = (lv_visits st + 1) mod 1024" unfolding v by (rule mod_mod_cancel) simp
  have b: "r < 1024" by (simp add: r_def)
  have e: "lv_visits st' mod 1024 = (if r = 1023 then 0 else r + 1)" unfolding m r_def by (simp add: mod_Suc)
  show ?thesis
  proof (cases "r = 1023")
    case True
    have "N + 1 - lv_tick st = Suc (N + 1 - lv_tick st')" using t e True N by (simp add: DEADLINE_STRIDE_def Suc_diff_le)
    then show ?thesis using e True unfolding visits_left_def DEADLINE_STRIDE_def r_def [symmetric] by simp
  next
    case False
    have "lv_tick st' = lv_tick st" using t e False by (simp add: DEADLINE_STRIDE_def)
    moreover have "1024 \<le> 1024 * (N + 1 - lv_tick st)" using N by simp
    ultimately show ?thesis using e b False unfolding visits_left_def DEADLINE_STRIDE_def r_def [symmetric] by (simp only: if_False)
  qed
qed

lemma visit_node_keeps:
  assumes ok: "wg_ok g" "length ss = wg_len g" and st: "level_ok (wg_len g) st" and node: "node < wg_len g"
  shows "visit_node g ss m expired st node = Some (Inl DeadlineExceeded) \<and> Ex expired \<or>
    (\<exists>st'. visit_node g ss m expired st node = Some (Inr st') \<and> level_ok (wg_len g) st' \<and> lv_visits st' = (lv_visits st + 1) mod 2 ^ 64 \<and>
      lv_tick st' = (if lv_visits st' mod DEADLINE_STRIDE = 0 then lv_tick st + 1 else lv_tick st) \<and> (lv_visits st' mod DEADLINE_STRIDE = 0 \<longrightarrow> \<not> expired (lv_tick st)))"
proof (cases "(lv_visits st + 1) mod 2 ^ 64 mod DEADLINE_STRIDE = 0 \<and> expired (lv_tick st)")
  case True
  then show ?thesis by (auto simp: visit_node_def Let_def)
next
  case False
  let ?n = "wg_len g" and ?own = "lv_community st ! node" and ?ns = "wg_neighbors g ! node" and ?s = "ss ! node"
  have L: "length (lv_community st) = ?n" "\<forall>x \<in> set (lv_community st). x < ?n" "length (lv_total st) = ?n"
    using st by (simp_all add: level_ok_def)
  have own: "?own < ?n" using L(1,2) node by simp
  have ns: "\<forall>e \<in> set ?ns. fst e < ?n" using ok(1) node by (auto simp: wg_ok_def links_def)
  obtain adj where adj: "link_weights (lv_community st) ?own ?ns = Some adj" "?own \<in> fst ` set adj" "fst ` set adj \<subseteq> {..<?n}"
    using link_weights_spec [OF L(1,2) own ns] by blast
  let ?t = "(lv_total st)[?own := f64_sub (lv_total st ! ?own) ?s]"
  obtain b where b: "b < ?n" "best_move ?t ?s m ?own adj = Some b" using best_move_spec [of ?t ?n ?own adj ?s m] own adj(2,3) L(3) by auto
  define st' where "st' = \<lparr>lv_community = (lv_community st)[node := b], lv_total = ?t[b := f64_add (?t ! b) ?s], lv_moved = (lv_moved st \<or> b \<noteq> ?own),
    lv_visits = (lv_visits st + 1) mod 2 ^ 64, lv_tick = (if (lv_visits st + 1) mod 2 ^ 64 mod DEADLINE_STRIDE = 0 then lv_tick st + 1 else lv_tick st)\<rparr>"
  have "visit_node g ss m expired st node = Some (Inr st')"
    using False L(1,3) node own adj(1) b ok(2) by (simp add: visit_node_def Let_def st'_def)
  moreover have "level_ok ?n st'" using L b(1) by (auto simp: level_ok_def st'_def dest!: set_update_subset_insert [THEN subsetD])
  moreover have v: "lv_visits st' = (lv_visits st + 1) mod 2 ^ 64" by (simp add: st'_def)
  moreover have "lv_tick st' = (if lv_visits st' mod DEADLINE_STRIDE = 0 then lv_tick st + 1 else lv_tick st)" unfolding v by (simp add: st'_def)
  moreover have "lv_visits st' mod DEADLINE_STRIDE = 0 \<longrightarrow> \<not> expired (lv_tick st)" unfolding v using False by argo
  ultimately show ?thesis by (intro disjI2 exI [of _ st'] conjI)
qed

lemma visit_node_spec:
  assumes ok: "wg_ok g" "length ss = wg_len g" and ex: "\<forall>k \<ge> N. expired k" and st: "visit_ok (wg_len g) N st" and node: "node < wg_len g"
  shows "visit_node g ss m expired st node = Some (Inl DeadlineExceeded) \<or>
    (\<exists>st'. visit_node g ss m expired st node = Some (Inr st') \<and> visit_ok (wg_len g) N st' \<and> visits_left N st' < visits_left N st)"
proof -
  have L: "level_ok (wg_len g) st" "lv_tick st \<le> N" using st by (simp_all add: visit_ok_def)
  from visit_node_keeps [OF ok L(1) node, of m expired]
  consider "visit_node g ss m expired st node = Some (Inl DeadlineExceeded)"
    | st' where "visit_node g ss m expired st node = Some (Inr st')" "level_ok (wg_len g) st'" "lv_visits st' = (lv_visits st + 1) mod 2 ^ 64"
      "lv_tick st' = (if lv_visits st' mod DEADLINE_STRIDE = 0 then lv_tick st + 1 else lv_tick st)"
      "lv_visits st' mod DEADLINE_STRIDE = 0 \<longrightarrow> \<not> expired (lv_tick st)" by (elim disjE exE conjE) (rule that, assumption+)+
  then show ?thesis
  proof cases
    case (2 st')
    have t: "lv_tick st' \<le> N"
    proof (cases "lv_visits st' mod DEADLINE_STRIDE = 0")
      case True
      then have "\<not> expired (lv_tick st)" using 2(5) by (rule rev_mp)
      then have "lv_tick st < N" using ex by (metis not_less)
      then show ?thesis using 2(4) True by simp
    qed (use 2(4) L(2) in simp)
    then show ?thesis using 2(1,2) visits_left_step [OF L(2) 2(3,4) t] by (intro disjI2 exI [of _ st']) (simp add: visit_ok_def)
  qed simp
qed

lemma level_pass_spec:
  assumes ok: "wg_ok g" "length ss = wg_len g" and ex: "\<forall>k \<ge> N. expired k"
  shows "visit_ok (wg_len g) N st \<Longrightarrow> set nodes \<subseteq> {..<wg_len g} \<Longrightarrow> level_pass g ss m expired st nodes = Some (Inl DeadlineExceeded) \<or>
    (\<exists>st'. level_pass g ss m expired st nodes = Some (Inr st') \<and> visit_ok (wg_len g) N st' \<and> visits_left N st' + length nodes \<le> visits_left N st)"
proof (induction nodes arbitrary: st)
  case (Cons x xs)
  from visit_node_spec [OF ok ex Cons.prems(1), of x m] Cons.prems(2)
  consider "visit_node g ss m expired st x = Some (Inl DeadlineExceeded)"
    | st' where "visit_node g ss m expired st x = Some (Inr st')" "visit_ok (wg_len g) N st'" "visits_left N st' < visits_left N st" by auto
  then show ?case
  proof cases
    case (2 st')
    from Cons.IH [OF 2(2)] Cons.prems(2) have "level_pass g ss m expired st' xs = Some (Inl DeadlineExceeded) \<or>
        (\<exists>st''. level_pass g ss m expired st' xs = Some (Inr st'') \<and> visit_ok (wg_len g) N st'' \<and> visits_left N st'' + length xs \<le> visits_left N st')" by simp
    then show ?thesis using 2(1,3) by fastforce
  qed simp
qed simp

lemma level_loop_spec:
  assumes ok: "wg_ok g" "length ss = wg_len g" and ex: "\<forall>k \<ge> N. expired k"
  shows "visit_ok (wg_len g) N st \<Longrightarrow> level_loop g ss m expired st = Some (Inl DeadlineExceeded) \<or>
    (\<exists>st'. level_loop g ss m expired st = Some (Inr st') \<and> visit_ok (wg_len g) N st')"
proof (induction "visits_left N st" arbitrary: st rule: less_induct)
  case less
  let ?st = "st\<lparr>lv_moved := False\<rparr>"
  show ?case
  proof (cases "lv_moved st")
    case False
    then show ?thesis using less.prems by (simp add: level_loop.simps)
  next
    case True
    have v: "visit_ok (wg_len g) N ?st" "visits_left N ?st = visits_left N st" using less.prems by (simp_all add: visit_ok_def level_ok_def visits_left_def)
    from level_pass_spec [OF ok ex v(1), of "[0..<wg_len g]" m]
    consider "level_pass g ss m expired ?st [0..<wg_len g] = Some (Inl DeadlineExceeded)"
      | st' where "level_pass g ss m expired ?st [0..<wg_len g] = Some (Inr st')" "visit_ok (wg_len g) N st'" "visits_left N st' + wg_len g \<le> visits_left N st"
      unfolding v(2) by fastforce
    then show ?thesis
    proof cases
      case 1
      then show ?thesis using True by (simp add: level_loop.simps [of g ss m expired st])
    next
      case (2 st')
      have u: "level_loop g ss m expired st = level_loop g ss m expired st'" using True 2(1) by (simp add: level_loop.simps [of g ss m expired st])
      show ?thesis
      proof (cases "wg_len g = 0")
        case empty: True
        then have "st' = ?st" using 2(1) by simp
        then show ?thesis unfolding u using v(1) by (simp add: level_loop.simps)
      next
        case False
        then have "visits_left N st' < visits_left N st" using 2(3) by linarith
        from less.hyps [OF this 2(2)] show ?thesis unfolding u .
      qed
    qed
  qed
qed

text \<open>
  The outcome of a computation under a deadline: it may fail to return only when the deadline stays open, it
  gives the error only when some poll finds the deadline passed, and a value it returns is good.
\<close>

definition outcome :: "(nat \<Rightarrow> bool) \<Rightarrow> ('a \<Rightarrow> bool) \<Rightarrow> (deadline_exceeded + 'a) option \<Rightarrow> bool" where
  "outcome expired P m \<longleftrightarrow> (case m of None \<Rightarrow> \<not> (\<exists>N. \<forall>k \<ge> N. expired k) | Some (Inl _) \<Rightarrow> Ex expired | Some (Inr a) \<Rightarrow> P a)"

lemma outcome_simps [simp]:
  "outcome expired P (Some (Inr a)) \<longleftrightarrow> P a" "outcome expired P (Some (Inl x)) \<longleftrightarrow> Ex expired" "outcome expired P None \<longleftrightarrow> \<not> (\<exists>N. \<forall>k \<ge> N. expired k)"
  by (simp_all add: outcome_def)

lemma outcome_or_expired:
  "outcome expired P m \<Longrightarrow> (\<And>a. P a \<Longrightarrow> outcome expired Q (f a)) \<Longrightarrow> outcome expired Q (or_expired m f)"
  by (cases m) (auto simp: or_expired_def split: sum.splits)

lemma outcomeI: "m = Some (Inl DeadlineExceeded) \<and> Ex expired \<or> (\<exists>a. m = Some (Inr a) \<and> P a) \<Longrightarrow> outcome expired P m"
  by auto

lemma level_pass_outcome:
  assumes ok: "wg_ok g" "length ss = wg_len g"
  shows "level_ok (wg_len g) st \<Longrightarrow> set nodes \<subseteq> {..<wg_len g} \<Longrightarrow> outcome expired (level_ok (wg_len g)) (level_pass g ss m expired st nodes)"
proof (induction nodes arbitrary: st)
  case (Cons x xs)
  have "outcome expired (level_ok (wg_len g)) (visit_node g ss m expired st x)"
    using visit_node_keeps [OF ok Cons.prems(1), of x m expired] Cons.prems(2) by auto
  then show ?case unfolding level_pass.simps by (rule outcome_or_expired) (use Cons in simp)
qed simp

lemma level_loop_outcome:
  assumes ok: "wg_ok g" "length ss = wg_len g" and st: "level_ok (wg_len g) st"
  shows "outcome expired (level_ok (wg_len g)) (level_loop g ss m expired st)"
proof (cases "level_loop g ss m expired st")
  case None
  have "\<not> (\<forall>k \<ge> N. expired k)" for N
  proof
    assume "\<forall>k \<ge> N. expired k"
    then have "\<forall>k \<ge> max N (lv_tick st). expired k" by simp
    from level_loop_spec [OF ok this, of st m] show False using None st by (simp add: visit_ok_def)
  qed
  then show ?thesis unfolding None by simp
next
  case (Some r)
  let ?P = "\<lambda>g ss m expired st r. wg_ok g \<longrightarrow> length ss = wg_len g \<longrightarrow> level_ok (wg_len g) st \<longrightarrow> outcome expired (level_ok (wg_len g)) (Some r)"
  have "?P g ss m expired st r"
  proof (rule level_loop.raw_induct [where P = ?P, OF _ Some], intro impI)
    fix loop and g :: work_graph and ss :: "f64 list" and m :: f64 and expired :: "nat \<Rightarrow> bool" and st :: level_state and r
    assume IH: "\<And>g ss m expired st r. loop g ss m expired st = Some r \<Longrightarrow> ?P g ss m expired st r"
      and eq: "(if lv_moved st
        then (case level_pass g ss m expired (st\<lparr>lv_moved := False\<rparr>) [0..<wg_len g] of
              None \<Rightarrow> None | Some (Inl x) \<Rightarrow> Some (Inl x) | Some (Inr st') \<Rightarrow> loop g ss m expired st')
        else Some (Inr st)) = Some r"
      and ok: "wg_ok g" "length ss = wg_len g" and st: "level_ok (wg_len g) st"
    have "level_ok (wg_len g) (st\<lparr>lv_moved := False\<rparr>)" using st by (simp add: level_ok_def)
    then have "outcome expired (level_ok (wg_len g)) (level_pass g ss m expired (st\<lparr>lv_moved := False\<rparr>) [0..<wg_len g])"
      by (rule level_pass_outcome [OF ok]) auto
    then show "outcome expired (level_ok (wg_len g)) (Some r)" using eq ok st IH [of g ss m expired _ r]
      by (auto split: if_splits option.splits sum.splits)
  qed
  then show ?thesis using ok st unfolding Some by simp
qed

section \<open>One level on a graph\<close>

lemma total_weight_defined: "wg_ok g \<Longrightarrow> \<exists>m. wg_total_weight g = Some m"
proof -
  assume ok: "wg_ok g"
  have "\<exists>m. wg_total_weight g = Some m \<and> True" unfolding wg_total_weight_def
    by (rule foldM_invariant [where P = "\<lambda>_. True"]) (use ok in \<open>auto simp: wg_ok_def in_set_enumerate_eq\<close>)
  then show ?thesis by blast
qed

lemma strengths_defined: "wg_ok g \<Longrightarrow> \<exists>ss. mapM (wg_strength g) [0..<wg_len g] = Some ss \<and> length ss = wg_len g"
proof -
  assume ok: "wg_ok g"
  have "mapM (wg_strength g) [0..<wg_len g] = Some (map (\<lambda>u. the (wg_strength g u)) [0..<wg_len g])"
    by (rule mapM_Some) (use ok in \<open>auto simp: wg_ok_def wg_strength_def\<close>)
  then show ?thesis by simp
qed

text \<open>What a level promises: dense numbers, every class joined by links inside it.\<close>

definition level_partition :: "work_graph \<Rightarrow> nat list \<Rightarrow> nat \<Rightarrow> bool" where
  "level_partition g a k \<longleftrightarrow> length a = wg_len g \<and> set a = {..<k} \<and>
     (\<forall>u < wg_len g. \<forall>v < wg_len g. a ! u = a ! v \<longrightarrow> (u, v) \<in> (inside a (links g))\<^sup>*)"

lemma split_partition:
  assumes ok: "wg_ok g" and a: "length a = wg_len g"
  shows "\<exists>ys k. split_components g a = Some (ys, k) \<and> level_partition g ys k"
proof -
  obtain ys k where y: "split_components g a = Some (ys, k)" "length ys = wg_len g" "set ys = {..<k}"
    "\<forall>u < wg_len g. \<forall>v < wg_len g. ys ! u = ys ! v \<longleftrightarrow> (u, v) \<in> (inside a (links g))\<^sup>*"
    using split_components_spec [OF assms] by (elim exE conjE) (rule that)
  have L: "links g \<subseteq> {..<wg_len g} \<times> {..<wg_len g}" using ok by (simp add: wg_ok_def)
  have "inside a (links g) \<subseteq> inside ys (links g)"
  proof
    fix p assume p: "p \<in> inside a (links g)"
    obtain x z where e: "p = (x, z)" by (cases p)
    have "x < wg_len g" "z < wg_len g" "(x, z) \<in> links g" using p L by (auto simp: e inside_def)
    moreover have "(x, z) \<in> (inside a (links g))\<^sup>*" using p e by blast
    ultimately show "p \<in> inside ys (links g)" using y(4) by (simp add: e inside_def)
  qed
  from rtrancl_mono [OF this] show ?thesis using y unfolding level_partition_def by blast
qed

lemma one_level_spec:
  assumes ok: "wg_ok g"
  shows "outcome expired (\<lambda>(t, a, k). level_partition g a k) (one_level g expired tick)"
proof -
  obtain m where m: "wg_total_weight g = Some m" using total_weight_defined [OF ok] by blast
  obtain ss where ss: "mapM (wg_strength g) [0..<wg_len g] = Some ss" "length ss = wg_len g" using strengths_defined [OF ok] by blast
  let ?st = "\<lparr>lv_community = [0..<wg_len g], lv_total = ss, lv_moved = True, lv_visits = 0, lv_tick = tick\<rparr>"
  let ?split = "\<lambda>st. do { (assignment, n) \<leftarrow> split_components g (fst (renumber (lv_community st))); Some (Inr (lv_tick st, assignment, n)) }"
  have split: "outcome expired (\<lambda>(t, a, k). level_partition g a k) (?split st)" if "level_ok (wg_len g) st" for st
  proof -
    obtain ys n where y: "renumber (lv_community st) = (ys, n)" by (cases "renumber (lv_community st)")
    have "length ys = wg_len g" using renumber_spec(1) [OF y] that by (simp add: level_ok_def)
    from split_partition [OF ok this] obtain zs k where "split_components g ys = Some (zs, k)" "level_partition g zs k" by blast
    then show ?thesis using y by simp
  qed
  show ?thesis
  proof (cases "f64_eq m f64_zero")
    case True
    have "level_partition g [0..<wg_len g] (wg_len g)" by (auto simp: level_partition_def)
    then show ?thesis using True m by (simp add: one_level_def)
  next
    case False
    have "level_ok (wg_len g) ?st" using ss(2) by (simp add: level_ok_def)
    from outcome_or_expired [OF level_loop_outcome [OF ok ss(2) this] split] show ?thesis using m False ss(1) by (simp add: one_level_def)
  qed
qed

section \<open>Links of a graph that is built pair by pair\<close>

definition linked_by :: "(nat \<times> f64) list list \<Rightarrow> nat rel" where
  "linked_by ns = {(u, v). u < length ns \<and> v \<in> fst ` set (ns ! u)}"

lemma linked_by_push:
  assumes "i < length ns"
  shows "linked_by (ns[i := ns ! i @ [(j, w)]]) = insert (i, j) (linked_by ns)"
proof (rule set_eqI)
  fix p :: "nat \<times> nat"
  obtain u v where p: "p = (u, v)" by (cases p)
  show "p \<in> linked_by (ns[i := ns ! i @ [(j, w)]]) \<longleftrightarrow> p \<in> insert (i, j) (linked_by ns)"
    using assms by (cases "u = i") (auto simp: p linked_by_def)
qed

lemma link_all:
  "length ns = n \<Longrightarrow> fst ` set ps \<subseteq> {..<n} \<times> {..<n} \<Longrightarrow>
   \<exists>ns'. foldM (\<lambda>ns (p, w). link_pair ns p w) ns ps = Some ns' \<and> length ns' = n \<and> linked_by ns' = linked_by ns \<union> fst ` set ps \<union> (fst ` set ps)\<inverse>"
proof (induction ps arbitrary: ns)
  case (Cons x ps)
  obtain i j w where x: "x = ((i, j), w)" by (cases x) auto
  have b: "i < n" "j < n" using Cons.prems(2) x by auto
  let ?a = "ns[i := ns ! i @ [(j, w)]]" and ?b = "\<lambda>a. a[j := a ! j @ [(i, w)]]"
  have "link_pair ns (i, j) w = Some (?b ?a)" using b Cons.prems(1) by (simp add: link_pair_def)
  moreover have "linked_by (?b ?a) = insert (j, i) (insert (i, j) (linked_by ns))"
    using linked_by_push [of j ?a i w] linked_by_push [of i ns j w] b Cons.prems(1) by simp
  moreover obtain ns' where "foldM (\<lambda>ns (p, w). link_pair ns p w) (?b ?a) ps = Some ns'" "length ns' = n"
      "linked_by ns' = linked_by (?b ?a) \<union> fst ` set ps \<union> (fst ` set ps)\<inverse>"
    using Cons.IH [of "?b ?a"] Cons.prems by auto
  ultimately show ?case using x by auto
qed auto

lemma links_sorted: "links \<lparr>wg_neighbors = map (sort_key fst) ns, wg_self = ss\<rparr> = linked_by ns"
  by (auto simp: links_def linked_by_def)

lemma built_graph_ok:
  assumes "length ns = n" "length ss = n" "linked_by ns = S \<union> S\<inverse>" "S \<subseteq> {..<n} \<times> {..<n}"
  shows "wg_ok \<lparr>wg_neighbors = map (sort_key fst) ns, wg_self = ss\<rparr>"
  using assms by (auto simp: wg_ok_def links_sorted sym_def)

section \<open>Aggregation\<close>

lemma collapse_node_spec:
  assumes ok: "wg_ok g" and a: "length a = wg_len g" "\<forall>x \<in> set a. x < n" and node: "node < wg_len g"
    and st: "length (fst st) = n \<and> fst ` set (snd st) \<subseteq> {..<n} \<times> {..<n}"
  shows "\<exists>st'. collapse_node g a st node = Some st' \<and> length (fst st') = n \<and> fst ` set (snd st') \<subseteq> {..<n} \<times> {..<n}"
proof -
  have h: "a ! node < n" using a node by simp
  have step: "\<exists>s'. collapse_edge a node (a ! node) s e = Some s' \<and> length (fst s') = n \<and> fst ` set (snd s') \<subseteq> {..<n} \<times> {..<n}"
    if s: "length (fst s) = n \<and> fst ` set (snd s) \<subseteq> {..<n} \<times> {..<n}" and e: "e \<in> set (wg_neighbors g ! node)" for s e
  proof -
    obtain v w where v: "e = (v, w)" by (cases e)
    have "v < wg_len g" using ok node e by (auto simp: wg_ok_def links_def v)
    then have "v < length a" "a ! v < n" using a by auto
    then show ?thesis using s h by (cases s) (auto simp: collapse_edge_def v keys_add_weight)
  qed
  obtain ss m where e: "st = (ss, m)" by (cases st)
  let ?ss = "ss[a ! node := accumulate_saturating (ss ! (a ! node)) (wg_self g ! node)]"
  have "\<exists>s'. foldM (collapse_edge a node (a ! node)) (?ss, m) (wg_neighbors g ! node) = Some s' \<and> (length (fst s') = n \<and> fst ` set (snd s') \<subseteq> {..<n} \<times> {..<n})"
    by (rule foldM_invariant [where P = "\<lambda>s. length (fst s) = n \<and> fst ` set (snd s) \<subseteq> {..<n} \<times> {..<n}"]) (use st e step in auto)
  then show ?thesis using ok a(1) node h st e by (simp add: collapse_node_def wg_ok_def)
qed

lemma aggregate_spec:
  assumes ok: "wg_ok g" and a: "level_partition g a n"
  shows "\<exists>g'. aggregate g a n = Some g' \<and> wg_ok g' \<and> wg_len g' = n"
proof -
  have "length a = wg_len g" "\<forall>x \<in> set a. x < n" using a by (auto simp: level_partition_def)
  note node = collapse_node_spec [OF ok this]
  have "\<exists>st'. foldM (collapse_node g a) (replicate n f64_zero, []) [0..<wg_len g] = Some st' \<and> (length (fst st') = n \<and> fst ` set (snd st') \<subseteq> {..<n} \<times> {..<n})"
    by (rule foldM_invariant [where P = "\<lambda>s. length (fst s) = n \<and> fst ` set (snd s) \<subseteq> {..<n} \<times> {..<n}"]) (use node in auto)
  then obtain ss m where sm: "foldM (collapse_node g a) (replicate n f64_zero, []) [0..<wg_len g] = Some (ss, m)" "length ss = n" "fst ` set m \<subseteq> {..<n} \<times> {..<n}" by auto
  obtain ns where ns: "foldM (\<lambda>ns (p, w). link_pair ns p w) (replicate n []) m = Some ns" "length ns = n"
      "linked_by ns = linked_by (replicate n []) \<union> fst ` set m \<union> (fst ` set m)\<inverse>"
    using link_all [of "replicate n []" n m] sm(3) by auto
  have "linked_by (replicate n []) = {}" by (auto simp: linked_by_def)
  then show ?thesis using sm(1) ns built_graph_ok [OF ns(2) sm(2) _ sm(3)] by (simp add: aggregate_def)
qed

section \<open>The ladder\<close>

text \<open>Each level maps the classes of the one below onto a dense range.\<close>

fun ladder_ok :: "nat \<Rightarrow> nat list list \<Rightarrow> bool" where
  "ladder_ok n [] \<longleftrightarrow> True"
| "ladder_ok n (a # as) \<longleftrightarrow> length a = n \<and> (\<exists>k. set a = {..<k} \<and> ladder_ok k as)"

definition ladder_on :: "work_graph \<Rightarrow> nat list list \<Rightarrow> bool" where
  "ladder_on g as \<longleftrightarrow> ladder_ok (wg_len g) as \<and> (as \<noteq> [] \<longrightarrow> (\<exists>k. level_partition g (hd as) k))"

lemma climb_spec:
  "wg_ok g \<Longrightarrow> outcome expired (\<lambda>(t, as). \<exists>more. as = levels @ more \<and> ladder_on g more) (climb fuel g expired tick levels)"
proof (induction fuel arbitrary: g tick levels)
  case 0
  then show ?case by (simp add: ladder_on_def)
next
  case (Suc fuel)
  show ?case unfolding climb.simps
  proof (rule outcome_or_expired [OF one_level_spec [OF Suc.prems]])
    fix x :: "nat \<times> nat list \<times> nat" assume "case x of (t, a, k) \<Rightarrow> level_partition g a k"
    then obtain t a k where x: "x = (t, a, k)" and p: "level_partition g a k" by (cases x) auto
    obtain g' where g': "aggregate g a k = Some g'" "wg_ok g'" "wg_len g' = k" using aggregate_spec [OF Suc.prems p] by blast
    have ladder: "ladder_on g (a # more)" if "ladder_on g' more" for more
      using that p g'(3) by (auto simp: ladder_on_def level_partition_def)
    have one: "ladder_on g [a]" by (rule ladder) (simp add: ladder_on_def)
    have "outcome expired (\<lambda>(t, as). \<exists>more. as = (levels @ [a]) @ more \<and> ladder_on g' more) (climb fuel g' expired t (levels @ [a]))"
      by (rule Suc.IH [OF g'(2)])
    then have "outcome expired (\<lambda>(t, as). \<exists>more. as = levels @ more \<and> ladder_on g more) (climb fuel g' expired t (levels @ [a]))"
      using ladder by (fastforce simp: outcome_def split: option.splits sum.splits)
    then show "outcome expired (\<lambda>(t, as). \<exists>more. as = levels @ more \<and> ladder_on g more) (case x of (tick1, assignment, n) \<Rightarrow>
        if n = wg_len g then Some (Inr (tick1, levels))
        else do { g' \<leftarrow> aggregate g assignment n; if n = 1 then Some (Inr (tick1, levels @ [assignment])) else climb fuel g' expired tick1 (levels @ [assignment]) })"
      using one g'(1) by (auto simp: x ladder_on_def)
  qed
qed

section \<open>The leaf graph\<close>

abbreviation ends :: "edge_record \<Rightarrow> nat \<times> nat" where
  "ends r \<equiv> (min (ed_subject r) (ed_object r), max (ed_subject r) (ed_object r))"

lemma leaf_scan_spec:
  "bt_sorted merged \<Longrightarrow> leaf_scan expired tick merged rs = Inl DeadlineExceeded \<and> Ex expired \<or>
    (\<exists>t m. leaf_scan expired tick merged rs = Inr (t, m) \<and> bt_sorted m \<and> fst ` set m = fst ` set merged \<union> ends ` {r \<in> snd ` set rs. binds r})"
proof (induction expired tick merged rs rule: leaf_scan.induct)
  case (2 expired tick merged index r rest)
  let ?m = "if binds r then add_weight (ends r) (f64_abs (ed_sum r)) merged else merged"
  have m: "bt_sorted ?m" "fst ` set ?m = fst ` set merged \<union> (if binds r then {ends r} else {})"
    using 2(2) bt_sorted_insert by (auto simp: add_weight_def set_fst_bt_insert)
  show ?case
  proof (cases "index mod DEADLINE_STRIDE = 0 \<and> expired tick")
    case False
    have e: "ends ` {x \<in> snd ` set ((index, r) # rest). binds x} = (if binds r then {ends r} else {}) \<union> ends ` {x \<in> snd ` set rest. binds x}" by auto
    from 2(1) [OF False m(1)] show ?thesis unfolding leaf_scan.simps if_not_P [OF False] e m(2) by (simp only: Un_assoc)
  qed auto
qed auto

lemma ends_set: "(\<lambda>(a, b). {a, b}) (ends r) = {ed_subject r, ed_object r}"
  by (auto simp: min_def max_def)

lemma distinct_remdups_sorted: "sorted xs \<Longrightarrow> distinct (remdups_adj (xs :: nat list))"
proof -
  have "sorted xs \<Longrightarrow> sorted_wrt (<) (remdups_adj xs)" by (induction xs rule: remdups_adj.induct) auto
  then show "sorted xs \<Longrightarrow> ?thesis" by (simp add: strict_sorted_iff)
qed

lemma index_of_iff:
  assumes "distinct ids"
  shows "index_of ids x = Some i \<longleftrightarrow> i < length ids \<and> ids ! i = x"
  using assms by (auto simp: index_of_def map_of_zip_is_Some set_zip map_of_eq_Some_iff)

lemma index_pairs:
  "\<forall>((a, b), _) \<in> set ps. index_of ids a = Some (f a) \<and> index_of ids b = Some (f b) \<Longrightarrow>
   foldM (\<lambda>ns ((a, b), weight). do { i \<leftarrow> index_of ids a; j \<leftarrow> index_of ids b; link_pair ns (i, j) weight }) ns ps =
   foldM (\<lambda>ns (p, w). link_pair ns p w) ns (map (\<lambda>((a, b), w). ((f a, f b), w)) ps)"
  by (induction ps arbitrary: ns) (auto split: Option.bind_split)

text \<open>Two nodes are linked when a binding edge joins their concepts.\<close>

definition leaf_ok :: "ctx \<Rightarrow> nat list \<Rightarrow> work_graph \<Rightarrow> bool" where
  "leaf_ok c ids g \<longleftrightarrow> wg_ok g \<and> wg_len g = length ids \<and> distinct ids \<and>
     set ids = \<Union> ((\<lambda>r. {ed_subject r, ed_object r}) ` {r \<in> set (edges c). binds r}) \<and>
     (\<forall>(i, j) \<in> links g. \<exists>r \<in> set (edges c). binds r \<and> {ids ! i, ids ! j} = {ed_subject r, ed_object r})"

lemma leaf_graph_spec:
  "leaf_graph c expired = Some (Inl DeadlineExceeded) \<and> Ex expired \<or> (\<exists>t ids g. leaf_graph c expired = Some (Inr (t, ids, g)) \<and> leaf_ok c ids g)"
proof -
  have E: "snd ` set (enumerate 0 (edges c)) = set (edges c)" by (metis map_snd_enumerate list.set_map)
  consider "leaf_scan expired 0 [] (enumerate 0 (edges c)) = Inl DeadlineExceeded" "Ex expired"
    | t m where "leaf_scan expired 0 [] (enumerate 0 (edges c)) = Inr (t, m)" "bt_sorted m" "fst ` set m = ends ` {r \<in> set (edges c). binds r}"
    using leaf_scan_spec [of "[]" expired 0 "enumerate 0 (edges c)"] unfolding E by auto
  then show ?thesis
  proof cases
    case 1
    then show ?thesis by (simp add: leaf_graph_def)
  next
    case (2 t m)
    define ids where "ids = remdups_adj (sort (concat (map (\<lambda>((a, b), _). [a, b]) m)))"
    have d: "distinct ids" unfolding ids_def by (intro distinct_remdups_sorted) simp
    have s: "set ids = \<Union> ((\<lambda>(a, b). {a, b}) ` fst ` set m)" by (simp add: ids_def case_prod_unfold image_image)
    also have "\<dots> = \<Union> ((\<lambda>r. {ed_subject r, ed_object r}) ` {r \<in> set (edges c). binds r})" unfolding 2(3) image_image ends_set by (rule refl)
    finally have nodes: "set ids = \<Union> ((\<lambda>r. {ed_subject r, ed_object r}) ` {r \<in> set (edges c). binds r})" .
    define f where "f x = the (index_of ids x)" for x
    have f: "index_of ids x = Some (f x)" "f x < length ids" "ids ! f x = x" if "x \<in> set ids" for x
      using that index_of_iff [OF d] unfolding f_def by (metis in_set_conv_nth option.sel)+
    let ?ps = "map (\<lambda>((a, b), w). ((f a, f b), w)) (sort_key fst m)" and ?n = "length ids"
    have mem: "a \<in> set ids" "b \<in> set ids" if "((a, b), w) \<in> set m" for a b w unfolding s using that by (auto intro!: rev_bexI [OF that])
    have P: "fst ` set ?ps = (\<lambda>(a, b). (f a, f b)) ` fst ` set m" by (simp add: image_image case_prod_unfold)
    have "fst ` set ?ps \<subseteq> {..<?n} \<times> {..<?n}" unfolding P
    proof (rule image_subsetI)
      fix p assume "p \<in> fst ` set m"
      then obtain a b w where "p = (a, b)" "((a, b), w) \<in> set m" by force
      then show "(case p of (a, b) \<Rightarrow> (f a, f b)) \<in> {..<?n} \<times> {..<?n}" using f(2) mem by simp
    qed
    note S = this
    from link_all [of "replicate ?n []", OF _ this] obtain ns where ns: "foldM (\<lambda>ns (p, w). link_pair ns p w) (replicate ?n []) ?ps = Some ns" "length ns = ?n"
      "linked_by ns = linked_by (replicate ?n []) \<union> fst ` set ?ps \<union> (fst ` set ?ps)\<inverse>" by auto
    have l: "linked_by ns = fst ` set ?ps \<union> (fst ` set ?ps)\<inverse>" unfolding ns(3) by (auto simp: linked_by_def)
    let ?g = "\<lparr>wg_neighbors = map (sort_key fst) ns, wg_self = replicate ?n f64_zero\<rparr>"
    have ok: "wg_ok ?g" by (rule built_graph_ok [OF ns(2) _ l S]) simp
    have "foldM (\<lambda>ns ((a, b), weight). do { i \<leftarrow> index_of ids a; j \<leftarrow> index_of ids b; link_pair ns (i, j) weight }) (replicate ?n []) (sort_key fst m) = Some ns"
      unfolding ns(1) [symmetric] by (rule index_pairs) (use f(1) mem in \<open>simp add: split_beta, metis prod.collapse\<close>)
    then have run: "leaf_graph c expired = Some (Inr (t, ids, ?g))" using 2(1) by (simp add: leaf_graph_def ids_def [symmetric] Let_def)
    have "\<exists>r \<in> set (edges c). binds r \<and> {ids ! i, ids ! j} = {ed_subject r, ed_object r}" if "(i, j) \<in> links ?g" for i j
    proof -
      have "(i, j) \<in> fst ` set ?ps \<or> (j, i) \<in> fst ` set ?ps" using that unfolding links_sorted l by auto
      then obtain a b where ab: "(a, b) \<in> fst ` set m" "{i, j} = {f a, f b}" unfolding P by auto
      obtain r where r: "r \<in> set (edges c)" "binds r" "(a, b) = ends r" using ab(1) unfolding 2(3) by blast
      obtain w where "((a, b), w) \<in> set m" using ab(1) by force
      then have "ids ! f a = a" "ids ! f b = b" using f(3) mem by blast+
      then have "{ids ! i, ids ! j} = {a, b}" using arg_cong [OF ab(2), of "(`) ((!) ids)"] by simp
      moreover have "{a, b} = {ed_subject r, ed_object r}" using ends_set [of r] unfolding r(3) [symmetric] by simp
      ultimately show ?thesis using r by metis
    qed
    then have "leaf_ok c ids ?g" using ok ns(2) d nodes unfolding leaf_ok_def by auto
    then show ?thesis using run by blast
  qed
qed

end
