(* ===== verification/Communities.thy ===== *)
theory Communities
  imports Community Reach
begin

text \<open>
  The analysis a caller gets (\<open>communities\<close> and \<open>assemble\<close> of \<^verbatim>\<open>src/context/community.rs\<close>): the levels turned
  into a flat list of communities with members, strengths, induced associations and fingerprints. Every
  analysis is shown to partition the concepts that a live fact binds into connected leaf communities, and a
  caller with a deadline always gets an answer.
\<close>

section \<open>Assembly\<close>

fun lift_levels :: "nat list \<Rightarrow> nat list list \<Rightarrow> nat list list option" where
  "lift_levels prev [] = Some [prev]"
| "lift_levels prev (a # rest) = do {
     nxt \<leftarrow> mapM (nth_opt a) prev;
     more \<leftarrow> lift_levels nxt rest;
     Some (prev # more) }"

definition count_of :: "nat list \<Rightarrow> nat" where
  "count_of xs = (if xs = [] then 0 else Max (set xs) + 1)"

definition community_id :: "nat \<Rightarrow> nat \<Rightarrow> rstr" where
  "community_id level index = bytes ''L'' @ dec_of level @ bytes ''-'' @ dec_of index"

type_synonym induced_edge = "nat \<times> f64 \<times> nat"

definition place_member :: "nat list \<Rightarrow> (nat \<times> f64) list list \<Rightarrow> nat \<times> nat \<Rightarrow> (nat \<times> f64) list list option" where
  "place_member leaf members p = (case p of (index, concept) \<Rightarrow> do {
     k \<leftarrow> nth_opt leaf index;
     update_opt members k (\<lambda>l. l @ [(concept, f64_zero)]) })"

fun induced_scan ::
    "nat list \<Rightarrow> nat list \<Rightarrow> (nat \<Rightarrow> bool) \<Rightarrow> nat \<Rightarrow> induced_edge list list \<Rightarrow> (nat \<times> edge_record) list \<Rightarrow> (deadline_exceeded + nat \<times> induced_edge list list) option" where
  "induced_scan nodes leaf expired tick induced [] = Some (Inr (tick, induced))"
| "induced_scan nodes leaf expired tick induced ((e, r) # rest) =
     (if e mod DEADLINE_STRIDE = 0 \<and> expired tick then Some (Inl DeadlineExceeded)
      else do {
        induced' \<leftarrow>
          (if ed_count r = 0 then Some induced
           else case (index_of nodes (ed_subject r), index_of nodes (ed_object r)) of
               (Some subject, Some object) \<Rightarrow> do {
                 k \<leftarrow> nth_opt leaf subject;
                 k' \<leftarrow> nth_opt leaf object;
                 if k' \<noteq> k then Some induced else update_opt induced k (\<lambda>l. l @ [(e mod 2 ^ 32, ed_sum r, ed_count r)]) }
             | _ \<Rightarrow> Some induced);
        induced_scan nodes leaf expired (if e mod DEADLINE_STRIDE = 0 then tick + 1 else tick) induced' rest })"

definition bump_strength :: "nat \<Rightarrow> f64 \<Rightarrow> (nat \<rightharpoonup> f64) \<Rightarrow> (nat \<rightharpoonup> f64)" where
  "bump_strength x w m = m(x \<mapsto> accumulate_saturating (case m x of None \<Rightarrow> f64_zero | Some t \<Rightarrow> t) w)"

definition member_strengths :: "ctx \<Rightarrow> induced_edge list \<Rightarrow> (nat \<rightharpoonup> f64) option" where
  "member_strengths c es = foldM (\<lambda>m (e, w, _). do {
     r \<leftarrow> nth_opt (edges c) e;
     let m1 = bump_strength (ed_subject r) (f64_abs w) m in
     Some (if ed_subject r \<noteq> ed_object r then bump_strength (ed_object r) (f64_abs w) m1 else m1) }) Map.empty es"

definition with_strengths :: "ctx \<Rightarrow> (nat \<times> f64) list \<times> induced_edge list \<Rightarrow> ((nat \<times> f64) list \<times> induced_edge list) option" where
  "with_strengths c p = (case p of (members, es) \<Rightarrow> do {
     m \<leftarrow> member_strengths c es;
     Some (map (\<lambda>(concept, _). (concept, case m concept of None \<Rightarrow> f64_zero | Some w \<Rightarrow> w)) members, es) })"

record named_edge =
  ne_id :: nat
  ne_sum :: f64
  ne_count :: nat
  ne_subject :: rstr
  ne_label :: rstr
  ne_object :: rstr

definition name_edge :: "ctx \<Rightarrow> induced_edge \<Rightarrow> named_edge option" where
  "name_edge c p = (case p of (e, w, n) \<Rightarrow> do {
     r \<leftarrow> nth_opt (edges c) e;
     s \<leftarrow> concept_name c (ed_subject r);
     l \<leftarrow> label_name c (ed_label r);
     ob \<leftarrow> concept_name c (ed_object r);
     Some \<lparr>ne_id = e, ne_sum = w, ne_count = n, ne_subject = s, ne_label = l, ne_object = ob\<rparr> })"

definition fold_name :: "64 word \<Rightarrow> rstr \<Rightarrow> 64 word" where
  "fold_name d name = fnv1a_fold (fnv1a_fold d (le_bytes 8 (length name))) name"

definition leaf_digest :: "rstr list \<Rightarrow> named_edge list \<Rightarrow> 64 word" where
  "leaf_digest names es =
     foldl (\<lambda>d x. fnv1a_fold (fnv1a_fold (foldl fold_name d [ne_subject x, ne_label x, ne_object x])
         (le_f64 (if f64_eq (ne_sum x) f64_zero then f64_zero else ne_sum x))) (le_bytes 8 (ne_count x)))
       (foldl fold_name FNV1A_OFFSET (sort names)) (sort_key (\<lambda>x. (ne_subject x, ne_label x, ne_object x)) es)"

definition top_edges :: "named_edge list \<Rightarrow> community_association list" where
  "top_edges es =
     map (\<lambda>x. \<lparr>ct_subject = ne_subject x, ct_label = ne_label x, ct_object = ne_object x,
         ct_weight = f64_div (ne_sum x) (f64_of_nat (ne_count x)), ct_count = ne_count x\<rparr>)
       (take TOP_ASSOCIATIONS_PER_COMMUNITY
         (sort_key (\<lambda>x. (- f64_total_key (f64_abs (ne_sum x)), ne_id x)) (filter (\<lambda>x. f64_lt f64_zero (f64_abs (ne_sum x))) es)))"

definition parent_of :: "nat list list \<Rightarrow> nat \<Rightarrow> nat \<Rightarrow> rstr option option" where
  "parent_of levels level index =
     (if level + 1 < length levels then do {
        a \<leftarrow> nth_opt levels (level + 1);
        p \<leftarrow> nth_opt a index;
        Some (Some (community_id (level + 1) p)) }
      else Some None)"

definition leaf_community ::
    "ctx \<Rightarrow> nat list list \<Rightarrow> nat \<Rightarrow> (nat \<times> f64) list \<times> induced_edge list \<Rightarrow> (64 word \<times> community) option" where
  "leaf_community c levels index p = (case p of (members, es) \<Rightarrow> do {
     named \<leftarrow> mapM (\<lambda>(concept, w). map_option (\<lambda>n. (n, w)) (concept_name c concept)) members;
     rows \<leftarrow> mapM (name_edge c) es;
     parent \<leftarrow> parent_of levels 0 index;
     let ranked = sort_key (\<lambda>(n, w). (- f64_total_key w, n)) named;
         digest = leaf_digest (map fst ranked) rows in
     Some (digest, \<lparr>co_id = community_id 0 index, co_level = 0, co_parent = parent, co_fingerprint = hex16 (unat digest),
       co_concepts = length ranked, co_members = map (\<lambda>(n, w). \<lparr>cm_name = n, cm_strength = w\<rparr>) ranked, co_children = [],
       co_top = top_edges rows\<rparr>) })"

fun leaf_loop ::
    "ctx \<Rightarrow> nat list list \<Rightarrow> (nat \<Rightarrow> bool) \<Rightarrow> nat \<Rightarrow> (nat \<times> (nat \<times> f64) list \<times> induced_edge list) list \<Rightarrow> (deadline_exceeded + (64 word \<times> community) list) option" where
  "leaf_loop c levels expired tick [] = Some (Inr [])"
| "leaf_loop c levels expired tick ((index, p) # rest) =
     (if expired tick then Some (Inl DeadlineExceeded)
      else do {
        x \<leftarrow> leaf_community c levels index p;
        or_expired (leaf_loop c levels expired (tick + 1) rest) (\<lambda>xs. Some (Inr (x # xs))) })"

definition parent_digest :: "64 word list \<Rightarrow> 64 word" where
  "parent_digest digests =
     foldl (\<lambda>d x. fnv1a_fold d (le_bytes 8 (unat x))) (fnv1a_fold FNV1A_OFFSET (le_bytes 8 (length digests))) (sort digests)"

definition parent_community ::
    "nat list list \<Rightarrow> nat \<Rightarrow> 64 word list \<Rightarrow> nat list \<Rightarrow> nat \<times> nat list \<Rightarrow> (64 word \<times> community) option" where
  "parent_community levels level fingerprints counts p = (case p of (index, children) \<Rightarrow> do {
     digests \<leftarrow> mapM (nth_opt fingerprints) children;
     parent \<leftarrow> parent_of levels level index;
     n \<leftarrow> nth_opt counts index;
     let digest = parent_digest digests in
     Some (digest, \<lparr>co_id = community_id level index, co_level = level, co_parent = parent, co_fingerprint = hex16 (unat digest),
       co_concepts = n, co_members = [], co_children = map (community_id (level - 1)) children, co_top = []\<rparr>) })"

definition parent_level ::
    "nat list list \<Rightarrow> nat list list \<Rightarrow> 64 word list \<times> community list \<Rightarrow> nat \<Rightarrow> (64 word list \<times> community list) option" where
  "parent_level levels per st level = (case st of (fingerprints, communities) \<Rightarrow> do {
     here \<leftarrow> nth_opt per level;
     below \<leftarrow> nth_opt per (level - 1);
     a \<leftarrow> nth_opt levels level;
     children \<leftarrow> foldM (\<lambda>cs child. do { k \<leftarrow> nth_opt a child; update_opt cs k (\<lambda>l. l @ [child]) }) (replicate (count_of here) []) [0..<count_of below];
     counts \<leftarrow> foldM (\<lambda>ns k. update_opt ns k (\<lambda>n. n + 1)) (replicate (count_of here) 0) here;
     xs \<leftarrow> mapM (parent_community levels level fingerprints counts) (enumerate 0 children);
     Some (map fst xs, communities @ map snd xs) })"

definition assemble :: "ctx \<Rightarrow> nat list \<Rightarrow> nat list list \<Rightarrow> (nat \<Rightarrow> bool) \<Rightarrow> nat \<Rightarrow> (deadline_exceeded + community list) option" where
  "assemble c nodes levels expired tick = do {
     leaf \<leftarrow> nth_opt levels 0;
     per \<leftarrow> lift_levels leaf (drop 1 levels);
     members \<leftarrow> foldM (place_member leaf) (replicate (count_of leaf) []) (enumerate 0 nodes);
     or_expired (induced_scan nodes leaf expired tick (replicate (count_of leaf) []) (enumerate 0 (edges c))) (\<lambda>(tick1, induced). do {
       ranked \<leftarrow> mapM (with_strengths c) (zip members induced);
       or_expired (leaf_loop c levels expired tick1 (enumerate 0 ranked)) (\<lambda>leaves. do {
         (_, communities) \<leftarrow> foldM (parent_level levels per) (map fst leaves, map snd leaves) [1..<length levels];
         Some (Inr communities) }) }) }"

definition communities :: "ctx \<Rightarrow> (nat \<Rightarrow> bool) \<Rightarrow> (deadline_exceeded + community_analysis) option" where
  "communities c expired =
     or_expired (leaf_graph c expired) (\<lambda>(tick, nodes, g).
       if nodes = [] then Some (Inr \<lparr>cy_algorithm = COMMUNITY_ALGORITHM, cy_concepts = 0, cy_edges = 0, cy_levels = 0, cy_communities = []\<rparr>)
       else or_expired (climb MAX_LEVELS g expired tick []) (\<lambda>(tick1, found).
         let levels = (if found = [] then [[0..<length nodes]] else found) in
         or_expired (assemble c nodes levels expired tick1) (\<lambda>cs.
           Some (Inr \<lparr>cy_algorithm = COMMUNITY_ALGORITHM, cy_concepts = length nodes, cy_edges = sum_list (map length (wg_neighbors g)) div 2,
             cy_levels = length levels, cy_communities = cs\<rparr>))))"

section \<open>Dense levels\<close>

lemma count_of_dense:
  assumes s: "set xs = {..<k}"
  shows "count_of xs = k"
proof (cases k)
  case 0
  then have "xs = []" using s by simp
  then show ?thesis using 0 by (simp add: count_of_def)
next
  case (Suc j)
  have "Max {..<Suc j} = j" by (rule Max_eqI) simp_all
  moreover have "xs \<noteq> []" using s Suc by (metis list.set(1) lessThan_empty_iff nat.distinct(1) bot_nat_def)
  ultimately show ?thesis unfolding count_of_def s Suc by simp
qed

lemma ladder_nth:
  "ladder_ok n levels \<Longrightarrow> i < length levels \<Longrightarrow>
   set (levels ! i) = {..<count_of (levels ! i)} \<and> length (levels ! i) = (if i = 0 then n else count_of (levels ! (i - 1)))"
proof (induction levels arbitrary: n i)
  case (Cons a as)
  obtain k where k: "set a = {..<k}" "ladder_ok k as" "length a = n" using Cons.prems(1) by auto
  have c: "count_of a = k" by (rule count_of_dense [OF k(1)])
  show ?case
  proof (cases i)
    case 0
    then show ?thesis using k c by simp
  next
    case (Suc j)
    then show ?thesis using Cons.IH [OF k(2), of j] Cons.prems(2) c by (cases j) auto
  qed
qed simp

lemma lift_levels_spec:
  "set prev = {..<k} \<Longrightarrow> ladder_ok k rest \<Longrightarrow> \<exists>per. lift_levels prev rest = Some per \<and> map set per = map set (prev # rest) \<and> (\<forall>p \<in> set per. length p = length prev)"
proof (induction rest arbitrary: prev k)
  case (Cons a rest)
  obtain k' where k': "set a = {..<k'}" "ladder_ok k' rest" "length a = k" using Cons.prems(2) by auto
  have m: "mapM (nth_opt a) prev = Some (map ((!) a) prev)" by (rule mapM_Some) (use Cons.prems(1) k'(3) in auto)
  have "set (map ((!) a) prev) = set (map ((!) a) [0..<length a])" unfolding set_map Cons.prems(1) k'(3) [symmetric] by (simp add: lessThan_atLeast0)
  then have "set (map ((!) a) prev) = set a" unfolding map_nth .
  with Cons.IH [of "map ((!) a) prev" k'] k' obtain per where "lift_levels (map ((!) a) prev) rest = Some per"
    "map set per = map set (map ((!) a) prev # rest)" "\<forall>p \<in> set per. length p = length (map ((!) a) prev)" by auto
  then show ?case using m \<open>set (map ((!) a) prev) = set a\<close> by (intro exI [of _ "prev # per"]) auto
qed simp

section \<open>Buckets\<close>

lemma bucket_fold:
  assumes "\<forall>x \<in> set xs. \<exists>k < length cs. key x = Some k"
  shows "foldM (\<lambda>cs x. do { k \<leftarrow> key x; update_opt cs k (\<lambda>l. l @ [val x]) }) cs xs =
    Some (map (\<lambda>j. cs ! j @ map val (filter (\<lambda>x. key x = Some j) xs)) [0..<length cs])"
  using assms
proof (induction xs arbitrary: cs)
  case Nil
  then show ?case by (simp add: map_nth)
next
  case (Cons x xs)
  obtain k where k: "k < length cs" "key x = Some k" using Cons.prems by auto
  let ?cs = "cs[k := cs ! k @ [val x]]"
  have "\<forall>x \<in> set xs. \<exists>k < length ?cs. key x = Some k" using Cons.prems by simp
  from Cons.IH [OF this] show ?case using k by (auto simp: nth_list_update)
qed

lemma place_members:
  assumes "length leaf = length nodes" "set leaf = {..<k}"
  shows "foldM (place_member leaf) (replicate k []) (enumerate 0 nodes) =
    Some (map (\<lambda>j. map (\<lambda>u. (nodes ! u, f64_zero)) (filter (\<lambda>u. leaf ! u = j) [0..<length nodes])) [0..<k])"
proof -
  let ?xs = "enumerate 0 nodes"
  have e: "?xs = map (\<lambda>u. (u, nodes ! u)) [0..<length nodes]" by (rule nth_equalityI) (simp_all add: nth_enumerate_eq)
  have f: "place_member leaf = (\<lambda>cs x. do { k \<leftarrow> nth_opt leaf (fst x); update_opt cs k (\<lambda>l. l @ [(snd x, f64_zero)]) })"
    by (auto simp: place_member_def fun_eq_iff)
  have "\<forall>x \<in> set ?xs. \<exists>j < length (replicate k []). nth_opt leaf (fst x) = Some j"
  proof
    fix x assume "x \<in> set ?xs"
    then obtain u where u: "u < length leaf" "x = (u, nodes ! u)" using assms(1) unfolding e by auto
    have "leaf ! u < k" using nth_mem [OF u(1)] unfolding assms(2) by simp
    then show "\<exists>j < length (replicate k []). nth_opt leaf (fst x) = Some j" using u by simp
  qed
  from bucket_fold [OF this, of "\<lambda>x. (snd x, f64_zero)"] have "foldM (place_member leaf) (replicate k []) ?xs =
      Some (map (\<lambda>j. replicate k [] ! j @ map (\<lambda>x. (snd x, f64_zero)) (filter (\<lambda>x. nth_opt leaf (fst x) = Some j) ?xs)) [0..<k])"
    unfolding f length_replicate .
  moreover have "filter (\<lambda>x. nth_opt leaf (fst x) = Some j) ?xs = map (\<lambda>u. (u, nodes ! u)) (filter (\<lambda>u. leaf ! u = j) [0..<length nodes])" for j
    unfolding e filter_map comp_def by (rule arg_cong [of _ _ "map _"], rule filter_cong) (use assms(1) in auto)
  ultimately show ?thesis by (simp add: comp_def)
qed

definition edges_below :: "nat \<Rightarrow> induced_edge list list \<Rightarrow> bool" where
  "edges_below m ind \<longleftrightarrow> (\<forall>l \<in> set ind. fst ` set l \<subseteq> {..<m})"

lemma induced_scan_spec:
  assumes leaf: "length leaf = length nodes" "set leaf = {..<k}" and d: "distinct nodes"
  shows "length ind = k \<Longrightarrow> edges_below (length (edges c)) ind \<Longrightarrow> \<forall>(e, _) \<in> set es. e < length (edges c) \<Longrightarrow>
    induced_scan nodes leaf expired tick ind es = Some (Inl DeadlineExceeded) \<and> Ex expired \<or>
    (\<exists>t ind'. induced_scan nodes leaf expired tick ind es = Some (Inr (t, ind')) \<and> length ind' = k \<and> edges_below (length (edges c)) ind')"
proof (induction es arbitrary: tick ind)
  case (Cons x es)
  obtain e r where x: "x = (e, r)" by (cases x)
  have lf: "i < length leaf \<Longrightarrow> leaf ! i < k" for i using leaf(2) nth_mem [of i leaf] by auto
  have io: "i < length leaf" if "index_of nodes v = Some i" for v i using that index_of_iff [OF d] leaf(1) by simp
  let ?put = "if ed_count r = 0 then Some ind
    else case (index_of nodes (ed_subject r), index_of nodes (ed_object r)) of
        (Some subject, Some object) \<Rightarrow> do {
          k \<leftarrow> nth_opt leaf subject;
          k' \<leftarrow> nth_opt leaf object;
          if k' \<noteq> k then Some ind else update_opt ind k (\<lambda>l. l @ [(e mod 2 ^ 32, ed_sum r, ed_count r)]) }
      | _ \<Rightarrow> Some ind"
  have eb: "e mod 2 ^ 32 < length (edges c)" using Cons.prems(3) x by (auto intro: le_less_trans [OF mod_less_eq_dividend])
  have push: "edges_below (length (edges c)) (ind[q := ind ! q @ [(e mod 2 ^ 32, w, m)]])" if q: "q < k" for q and w :: f64 and m :: nat
  proof -
    have "fst ` set (ind ! q) \<subseteq> {..<length (edges c)}" using q Cons.prems(1,2) by (simp add: edges_below_def)
    then show ?thesis using eb Cons.prems(2) set_update_subset_insert [of ind q] unfolding edges_below_def by fastforce
  qed
  have "\<exists>ind'. ?put = Some ind' \<and> length ind' = k \<and> edges_below (length (edges c)) ind'"
    using Cons.prems(1,2) lf io push by (auto split: option.splits)
  then obtain ind' where put: "?put = Some ind'" "length ind' = k" "edges_below (length (edges c)) ind'" by blast
  have es: "\<forall>(e, _) \<in> set es. e < length (edges c)" using Cons.prems(3) by simp
  show ?case
  proof (cases "e mod DEADLINE_STRIDE = 0 \<and> expired tick")
    case False
    from Cons.IH [OF put(2,3) es, of "if e mod DEADLINE_STRIDE = 0 then tick + 1 else tick"] show ?thesis
      unfolding x induced_scan.simps if_not_P [OF False] put(1) by simp
  qed (auto simp: x)
qed simp

lemma with_strengths_spec:
  assumes "\<forall>(e, _) \<in> set es. e < length (edges c)"
  shows "\<exists>ms. with_strengths c (members, es) = Some (ms, es) \<and> map fst ms = map fst members"
proof -
  have "\<exists>m. member_strengths c es = Some m \<and> True" unfolding member_strengths_def
    by (rule foldM_invariant [where P = "\<lambda>_. True"]) (use assms in \<open>auto simp: Let_def\<close>)
  then obtain m where "member_strengths c es = Some m" by blast
  then show ?thesis by (simp add: with_strengths_def comp_def case_prod_unfold)
qed

lemma leaf_community_spec:
  assumes inv: "ctx_inv U c" and es: "\<forall>(e, _) \<in> set es. e < length (edges c)" and ms: "\<forall>x \<in> fst ` set ms. x < length (concepts c)"
    and p: "1 < length levels \<Longrightarrow> index < length (levels ! 1)"
  shows "\<exists>d x. leaf_community c levels index (ms, es) = Some (d, x) \<and> co_level x = 0 \<and> co_concepts x = length ms \<and>
    mset (map cm_name (co_members x)) = mset (map (\<lambda>p. cname c (fst p)) ms)"
proof -
  note I = ctx_invD [OF inv]
  have "mapM (\<lambda>(concept, w). map_option (\<lambda>n. (n, w)) (concept_name c concept)) ms = Some (map (\<lambda>(concept, w). (cname c concept, w)) ms)"
    by (rule mapM_Some) (use ms name_reads(1) [OF I(1)] in auto)
  moreover have "\<exists>rows. mapM (name_edge c) es = Some rows"
  proof -
    have "mapM (name_edge c) es = Some (map (\<lambda>p. the (name_edge c p)) es)"
      by (rule mapM_Some) (use es edge_bounds [OF I(5)] name_reads(1,2) [OF I(1)] in \<open>auto simp: name_edge_def\<close>)
    then show ?thesis by blast
  qed
  moreover have "\<exists>q. parent_of levels 0 index = Some q" using p by (auto simp: parent_of_def)
  ultimately show ?thesis by (auto simp: leaf_community_def Let_def comp_def case_prod_unfold multiset.map_comp)
qed

section \<open>Leaves\<close>

definition leaf_made :: "ctx \<Rightarrow> nat \<times> (nat \<times> f64) list \<times> induced_edge list \<Rightarrow> 64 word \<times> community \<Rightarrow> bool" where
  "leaf_made c z x \<longleftrightarrow> co_level (snd x) = 0 \<and> co_concepts (snd x) = length (fst (snd z)) \<and>
     mset (map cm_name (co_members (snd x))) = mset (map (\<lambda>p. cname c (fst p)) (fst (snd z)))"

lemma leaf_loop_spec:
  assumes inv: "ctx_inv U c"
  shows "\<forall>(index, ms, es) \<in> set zs. (\<forall>x \<in> fst ` set ms. x < length (concepts c)) \<and> fst ` set es \<subseteq> {..<length (edges c)} \<and> (1 < length levels \<longrightarrow> index < length (levels ! 1)) \<Longrightarrow>
    leaf_loop c levels expired tick zs = Some (Inl DeadlineExceeded) \<and> Ex expired \<or> (\<exists>xs. leaf_loop c levels expired tick zs = Some (Inr xs) \<and> list_all2 (leaf_made c) zs xs)"
proof (induction zs arbitrary: tick)
  case (Cons z zs)
  obtain index ms es where z: "z = (index, ms, es)" by (cases z)
  have "\<forall>(e, _) \<in> set es. e < length (edges c)" "\<forall>x \<in> fst ` set ms. x < length (concepts c)" "1 < length levels \<Longrightarrow> index < length (levels ! 1)"
    using Cons.prems z by force+
  from leaf_community_spec [OF inv this] obtain d x where x: "leaf_community c levels index (ms, es) = Some (d, x)" "leaf_made c z (d, x)"
    by (auto simp: leaf_made_def z)
  have IH: "leaf_loop c levels expired (tick + 1) zs = Some (Inl DeadlineExceeded) \<and> Ex expired \<or> (\<exists>xs. leaf_loop c levels expired (tick + 1) zs = Some (Inr xs) \<and> list_all2 (leaf_made c) zs xs)"
    by (rule Cons.IH) (use Cons.prems in simp)
  show ?case
  proof (cases "expired tick")
    case False
    then show ?thesis using IH x unfolding z by auto
  qed (auto simp: z)
qed simp

section \<open>Parents\<close>

lemma count_fold:
  "\<forall>x \<in> set xs. x < length ns \<Longrightarrow> foldM (\<lambda>ns k. update_opt ns k (\<lambda>n. n + 1)) ns xs = Some (map (\<lambda>j. ns ! j + count_list xs j) [0..<length ns])"
proof (induction xs arbitrary: ns)
  case Nil
  then show ?case by (simp add: map_nth)
next
  case (Cons x xs)
  then show ?case using Cons.IH [of "ns[x := ns ! x + 1]"] by (auto simp: nth_list_update)
qed

lemma count_sum: "set xs \<subseteq> {..<k} \<Longrightarrow> sum_list (map (count_list xs) [0..<k]) = length xs"
proof -
  assume "set xs \<subseteq> {..<k}"
  then have "sum (count_list xs) {0..<k} = length xs" by (intro sum_count_set) auto
  then show ?thesis by (simp add: interv_sum_list_conv_sum_set_nat)
qed

lemma parents_made:
  "\<forall>z \<in> set zs. \<exists>d x. F z = Some (d, x) \<and> co_level x = level \<and> co_concepts x = h (fst z) \<Longrightarrow>
   \<exists>xs. mapM F zs = Some xs \<and> length xs = length zs \<and> (\<forall>x \<in> set (map snd xs). co_level x = level) \<and> map co_concepts (map snd xs) = map h (map fst zs)"
proof (induction zs)
  case (Cons z zs)
  then obtain d x xs where "F z = Some (d, x)" "co_level x = level" "co_concepts x = h (fst z)"
    "mapM F zs = Some xs" "length xs = length zs" "\<forall>x \<in> set (map snd xs). co_level x = level" "map co_concepts (map snd xs) = map h (map fst zs)" by auto
  then show ?case by (intro exI [of _ "(d, x) # xs"]) simp
qed simp

lemma parent_level_spec:
  assumes l: "ladder_ok n levels" and per: "map set per = map set levels" "\<forall>p \<in> set per. length p = n" and level: "0 < level" "level < length levels"
    and fps: "length fps = count_of (levels ! (level - 1))"
  shows "\<exists>fps' new. parent_level levels per (fps, cs) level = Some (fps', cs @ new) \<and> length fps' = count_of (levels ! level) \<and>
    (\<forall>x \<in> set new. co_level x = level) \<and> sum_list (map co_concepts new) = n"
proof -
  have len: "length per = length levels" using arg_cong [OF per(1), of length] by simp
  have st: "set (per ! i) = set (levels ! i)" if "i < length levels" for i using arg_cong [OF per(1), of "\<lambda>xs. xs ! i"] that len by simp
  let ?a = "levels ! level" and ?here = "per ! level" and ?below = "per ! (level - 1)"
  let ?K = "count_of ?a" and ?B = "count_of (levels ! (level - 1))"
  note L = ladder_nth [OF l]
  have A: "set ?a = {..<?K}" "length ?a = ?B" using L [of level] level by simp_all
  have B: "set (levels ! (level - 1)) = {..<?B}" using L [of "level - 1"] level by simp
  have K: "count_of ?here = ?K" "count_of ?below = ?B" using count_of_dense st A(1) B level by (metis less_imp_diff_less)+
  have hs: "set ?here = {..<?K}" "length ?here = n" using st A(1) level per(2) len nth_mem [of level per] by simp_all
  have ab: "\<exists>k < length (replicate ?K []). nth_opt ?a child = Some k" if "child < ?B" for child using that A nth_mem [of child ?a] by auto
  obtain children where ch: "foldM (\<lambda>cs child. do { k \<leftarrow> nth_opt ?a child; update_opt cs k (\<lambda>l. l @ [child]) }) (replicate ?K []) [0..<?B] = Some children"
    "length children = ?K" "\<forall>l \<in> set children. set l \<subseteq> {..<?B}"
    using bucket_fold [of "[0..<?B]" "replicate ?K []" "nth_opt ?a" "\<lambda>x. x"] ab by fastforce
  have ct: "foldM (\<lambda>ns k. update_opt ns k (\<lambda>n. n + 1)) (replicate ?K 0) ?here = Some (map (count_list ?here) [0..<?K])"
    using count_fold [of ?here "replicate ?K 0"] hs(1) by (auto cong: map_cong)
  let ?counts = "map (count_list ?here) [0..<?K]"
  have one: "\<exists>d x. parent_community levels level fps ?counts (j, l) = Some (d, x) \<and> co_level x = level \<and> co_concepts x = count_list ?here j"
    if "j < ?K" "set l \<subseteq> {..<?B}" for j l
  proof -
    have "mapM (nth_opt fps) l = Some (map ((!) fps) l)" by (rule mapM_Some) (use that fps in auto)
    moreover have "\<exists>q. parent_of levels level j = Some q" using that(1) L [of "level + 1"] by (auto simp: parent_of_def)
    ultimately show ?thesis using that(1) by (auto simp: parent_community_def Let_def)
  qed
  have "\<forall>z \<in> set (enumerate 0 children). \<exists>d x. parent_community levels level fps ?counts z = Some (d, x) \<and> co_level x = level \<and> co_concepts x = count_list ?here (fst z)"
    using one ch(2,3) by (auto simp: in_set_enumerate_eq)
  from parents_made [where F = "parent_community levels level fps ?counts", OF this] obtain xs where
    xs: "mapM (parent_community levels level fps ?counts) (enumerate 0 children) = Some xs" "length xs = ?K" "\<forall>x \<in> set (map snd xs). co_level x = level"
      "map co_concepts (map snd xs) = map (count_list ?here) [0..<?K]" using ch(2) by auto
  have "sum_list (map co_concepts (map snd xs)) = n" unfolding xs(4) using count_sum [of ?here ?K] hs by simp
  moreover have "parent_level levels per (fps, cs) level = Some (map fst xs, cs @ map snd xs)"
    using level len K ch(1) ct xs(1) by (simp add: parent_level_def)
  ultimately show ?thesis using xs(2,3) by (intro exI [of _ "map fst xs"] exI [of _ "map snd xs"]) simp
qed

lemma parent_levels_spec:
  assumes l: "ladder_ok n levels" and per: "map set per = map set levels" "\<forall>p \<in> set per. length p = n"
  shows "0 < k \<Longrightarrow> k \<le> length levels \<Longrightarrow> length fps = count_of (levels ! (k - 1)) \<Longrightarrow>
    \<exists>fps' new. foldM (parent_level levels per) (fps, cs) [k..<length levels] = Some (fps', cs @ new) \<and> (\<forall>x \<in> set new. k \<le> co_level x \<and> co_level x < length levels) \<and>
      (\<forall>i. k \<le> i \<and> i < length levels \<longrightarrow> sum_list (map co_concepts (filter (\<lambda>x. co_level x = i) new)) = n)"
proof (induction "length levels - k" arbitrary: k fps cs)
  case 0
  then show ?case by simp
next
  case (Suc d)
  have k: "k < length levels" using Suc.hyps(2) by simp
  from parent_level_spec [OF l per Suc.prems(1) k Suc.prems(3), of cs] obtain fps1 new1 where one: "parent_level levels per (fps, cs) k = Some (fps1, cs @ new1)"
    "length fps1 = count_of (levels ! k)" "\<forall>x \<in> set new1. co_level x = k" "sum_list (map co_concepts new1) = n" by (elim exE conjE) (rule that)
  have "d = length levels - Suc k" "0 < Suc k" "Suc k \<le> length levels" "length fps1 = count_of (levels ! (Suc k - 1))" using Suc.hyps(2) k one(2) by auto
  from Suc.hyps(1) [OF this, of "cs @ new1"] obtain fps' new where r: "foldM (parent_level levels per) (fps1, cs @ new1) [Suc k..<length levels] = Some (fps', (cs @ new1) @ new)"
    "\<forall>x \<in> set new. Suc k \<le> co_level x \<and> co_level x < length levels"
    "\<forall>i. Suc k \<le> i \<and> i < length levels \<longrightarrow> sum_list (map co_concepts (filter (\<lambda>x. co_level x = i) new)) = n" by (elim exE conjE) (rule that)
  have f: "filter (\<lambda>x. co_level x = i) new1 = (if i = k then new1 else [])" for i
    using one(3) by (cases "i = k") (auto intro!: filter_True filter_False)
  have g: "filter (\<lambda>x. co_level x = k) new = []" using r(2) by (auto intro!: filter_False)
  have "sum_list (map co_concepts (filter (\<lambda>x. co_level x = i) (new1 @ new))) = n" if "k \<le> i" "i < length levels" for i
    using that r(3) one(4) f g by (cases "i = k") auto
  moreover have "foldM (parent_level levels per) (fps, cs) [k..<length levels] = Some (fps', cs @ new1 @ new)"
    using one(1) r(1) k by (simp add: upt_conv_Cons)
  moreover have "\<forall>x \<in> set (new1 @ new). k \<le> co_level x \<and> co_level x < length levels" using one(3) r(2) k by auto
  ultimately show ?case by (intro exI [of _ fps'] exI [of _ "new1 @ new"]) blast
qed

section \<open>The whole assembly\<close>

text \<open>The class \<open>j\<close> of a level, as nodes.\<close>

definition class_of :: "nat list \<Rightarrow> nat \<Rightarrow> nat list" where
  "class_of a j = filter (\<lambda>u. a ! u = j) [0..<length a]"

definition assembled :: "ctx \<Rightarrow> nat list \<Rightarrow> nat list list \<Rightarrow> community list \<Rightarrow> bool" where
  "assembled c nodes levels cs \<longleftrightarrow>
     map (\<lambda>x. mset (map cm_name (co_members x))) (filter (\<lambda>x. co_level x = 0) cs) =
       map (\<lambda>j. mset (map (\<lambda>u. cname c (nodes ! u)) (class_of (levels ! 0) j))) [0..<count_of (levels ! 0)] \<and>
     map co_concepts (filter (\<lambda>x. co_level x = 0) cs) = map (\<lambda>j. length (class_of (levels ! 0) j)) [0..<count_of (levels ! 0)] \<and>
     (\<forall>i. 0 < i \<and> i < length levels \<longrightarrow> sum_list (map co_concepts (filter (\<lambda>x. co_level x = i) cs)) = length nodes)"

lemma ranked_spec:
  assumes "length members = k" "length ind = k" "edges_below (length (edges c)) ind"
  shows "\<exists>ranked. mapM (with_strengths c) (zip members ind) = Some ranked \<and> length ranked = k \<and>
    (\<forall>j < k. map fst (fst (ranked ! j)) = map fst (members ! j) \<and> snd (ranked ! j) = ind ! j)"
proof -
  let ?f = "\<lambda>p. the (with_strengths c p)"
  have w: "\<exists>ms. with_strengths c (members ! j, ind ! j) = Some (ms, ind ! j) \<and> map fst ms = map fst (members ! j)" if "j < k" for j
  proof (rule with_strengths_spec)
    have "ind ! j \<in> set ind" using that assms(2) by simp
    then show "\<forall>(e, _) \<in> set (ind ! j). e < length (edges c)" using assms(3) by (fastforce simp: edges_below_def)
  qed
  have "mapM (with_strengths c) (zip members ind) = Some (map ?f (zip members ind))"
    by (rule mapM_Some) (use w assms(1,2) in \<open>force simp: set_zip\<close>)
  then show ?thesis using w assms(1,2) by (intro exI [of _ "map ?f (zip members ind)"]) fastforce
qed

lemma leaves_spec:
  assumes inv: "ctx_inv U c" and nodes: "\<forall>x \<in> set nodes. x < length (concepts c)" and l: "ladder_ok (length nodes) levels" "levels \<noteq> []"
    and rk: "length ranked = count_of (levels ! 0)" "\<forall>j < count_of (levels ! 0). map fst (fst (ranked ! j)) = map (\<lambda>u. nodes ! u) (class_of (levels ! 0) j)"
    and es: "edges_below (length (edges c)) (map snd ranked)"
  shows "leaf_loop c levels expired tick (enumerate 0 ranked) = Some (Inl DeadlineExceeded) \<and> Ex expired \<or>
    (\<exists>xs. leaf_loop c levels expired tick (enumerate 0 ranked) = Some (Inr xs) \<and> length xs = count_of (levels ! 0) \<and> (\<forall>x \<in> set (map snd xs). co_level x = 0) \<and>
      map (\<lambda>x. mset (map cm_name (co_members x))) (map snd xs) = map (\<lambda>j. mset (map (\<lambda>u. cname c (nodes ! u)) (class_of (levels ! 0) j))) [0..<count_of (levels ! 0)] \<and>
      map co_concepts (map snd xs) = map (\<lambda>j. length (class_of (levels ! 0) j)) [0..<count_of (levels ! 0)])"
proof -
  let ?k = "count_of (levels ! 0)" and ?zs = "enumerate 0 ranked"
  have len: "length (levels ! 0) = length nodes" using ladder_nth [OF l(1), of 0] l(2) by simp
  have "(\<forall>x \<in> fst ` set ms. x < length (concepts c)) \<and> fst ` set es \<subseteq> {..<length (edges c)} \<and> (1 < length levels \<longrightarrow> j < length (levels ! 1))"
    if z: "(j, ms, es) \<in> set ?zs" for j ms es
  proof -
    have j: "j < ?k" "ranked ! j = (ms, es)" using z rk(1) by (auto simp: in_set_enumerate_eq)
    have "map fst ms = map (\<lambda>u. nodes ! u) (class_of (levels ! 0) j)" using rk(2) j by auto
    then have "fst ` set ms = (\<lambda>u. nodes ! u) ` set (class_of (levels ! 0) j)" by (metis set_map)
    moreover have "es \<in> set (map snd ranked)" using j rk(1) by (metis nth_mem set_map image_eqI snd_conv)
    then have "fst ` set es \<subseteq> {..<length (edges c)}" using es unfolding edges_below_def by (rule bspec [rotated])
    ultimately show ?thesis using nodes len j(1) ladder_nth [OF l(1), of 1] by (auto simp: class_of_def)
  qed
  then have "\<forall>(j, ms, es) \<in> set ?zs. (\<forall>x \<in> fst ` set ms. x < length (concepts c)) \<and> fst ` set es \<subseteq> {..<length (edges c)} \<and> (1 < length levels \<longrightarrow> j < length (levels ! 1))"
    by blast
  from leaf_loop_spec [OF inv this, of expired tick]
  consider "leaf_loop c levels expired tick ?zs = Some (Inl DeadlineExceeded)" "Ex expired" | xs where "leaf_loop c levels expired tick ?zs = Some (Inr xs)" "list_all2 (leaf_made c) ?zs xs" by blast
  then show ?thesis
  proof cases
    case (2 xs)
    have n: "length xs = ?k" using list_all2_lengthD [OF 2(2)] rk(1) by simp
    have m: "leaf_made c (j, ranked ! j) (xs ! j)" if "j < ?k" for j using list_all2_nthD [OF 2(2), of j] that rk(1) by (simp add: nth_enumerate_eq)
    have r: "length (fst (ranked ! j)) = length (class_of (levels ! 0) j)"
      "map (\<lambda>p. cname c (fst p)) (fst (ranked ! j)) = map (\<lambda>u. cname c (nodes ! u)) (class_of (levels ! 0) j)" if "j < ?k" for j
    proof -
      note f = rk(2) [rule_format, OF that]
      show "length (fst (ranked ! j)) = length (class_of (levels ! 0) j)" using arg_cong [OF f, of length] by simp
      show "map (\<lambda>p. cname c (fst p)) (fst (ranked ! j)) = map (\<lambda>u. cname c (nodes ! u)) (class_of (levels ! 0) j)"
        using arg_cong [OF f, of "map (cname c)"] by (simp add: comp_def)
    qed
    have "map (\<lambda>x. mset (map cm_name (co_members x))) (map snd xs) = map (\<lambda>j. mset (map (\<lambda>u. cname c (nodes ! u)) (class_of (levels ! 0) j))) [0..<?k]"
      by (rule nth_equalityI) (use n m r(2) in \<open>auto simp: leaf_made_def simp del: mset_map\<close>)
    moreover have "map co_concepts (map snd xs) = map (\<lambda>j. length (class_of (levels ! 0) j)) [0..<?k]"
      by (rule nth_equalityI) (use n m r(1) in \<open>auto simp: leaf_made_def\<close>)
    moreover have "\<forall>x \<in> set (map snd xs). co_level x = 0"
    proof
      fix x assume "x \<in> set (map snd xs)"
      then obtain j where "j < ?k" "x = snd (xs ! j)" using n by (auto simp: in_set_conv_nth simp del: set_map)
      then show "co_level x = 0" using m [of j] by (simp add: leaf_made_def)
    qed
    ultimately show ?thesis using 2(1) n by blast
  qed simp
qed

lemma assemble_spec:
  assumes inv: "ctx_inv U c" and nodes: "distinct nodes" "\<forall>x \<in> set nodes. x < length (concepts c)" and l: "ladder_ok (length nodes) levels" "levels \<noteq> []"
  shows "assemble c nodes levels expired tick = Some (Inl DeadlineExceeded) \<and> Ex expired \<or> (\<exists>cs. assemble c nodes levels expired tick = Some (Inr cs) \<and> assembled c nodes levels cs)"
proof -
  let ?leaf = "levels ! 0" and ?n = "length nodes" and ?k = "count_of (levels ! 0)"
  have L: "set ?leaf = {..<?k}" "length ?leaf = ?n" using ladder_nth [OF l(1), of 0] l(2) by simp_all
  have lv: "levels = ?leaf # drop 1 levels" using l(2) by (cases levels) auto
  have "ladder_ok ?k (drop 1 levels)" using l(1) count_of_dense by (subst (asm) lv) auto
  from lift_levels_spec [OF L(1) this] obtain per where per: "lift_levels ?leaf (drop 1 levels) = Some per" "map set per = map set levels" "\<forall>p \<in> set per. length p = ?n"
    using lv L(2) by metis
  let ?ms = "map (\<lambda>j. map (\<lambda>u. (nodes ! u, f64_zero)) (filter (\<lambda>u. ?leaf ! u = j) [0..<?n])) [0..<?k]"
  note members = place_members [OF L(2,1)]
  have "edges_below (length (edges c)) (replicate ?k [])" "\<forall>(e, _) \<in> set (enumerate 0 (edges c)). e < length (edges c)" by (auto simp: edges_below_def in_set_enumerate_eq)
  from induced_scan_spec [OF L(2,1) nodes(1) _ this, of expired tick]
  consider "induced_scan nodes ?leaf expired tick (replicate ?k []) (enumerate 0 (edges c)) = Some (Inl DeadlineExceeded)" "Ex expired"
    | t ind where "induced_scan nodes ?leaf expired tick (replicate ?k []) (enumerate 0 (edges c)) = Some (Inr (t, ind))" "length ind = ?k" "edges_below (length (edges c)) ind"
    by auto
  then show ?thesis
  proof cases
    case 1
    then show ?thesis using l(2) per(1) members by (simp add: assemble_def)
  next
    case (2 t ind)
    obtain ranked where rk: "mapM (with_strengths c) (zip ?ms ind) = Some ranked" "length ranked = ?k"
      "\<forall>j < ?k. map fst (fst (ranked ! j)) = map fst (?ms ! j) \<and> snd (ranked ! j) = ind ! j" using ranked_spec [OF _ 2(2,3), of ?ms] by auto
    have c0: "map fst (?ms ! j) = map (\<lambda>u. nodes ! u) (class_of ?leaf j)" if "j < ?k" for j using that L(2) by (simp add: class_of_def comp_def)
    have "map snd ranked = ind" by (rule nth_equalityI) (use rk(2,3) 2(2) in auto)
    then have eb: "edges_below (length (edges c)) (map snd ranked)" using 2(3) by simp
    have "\<forall>j < ?k. map fst (fst (ranked ! j)) = map (\<lambda>u. nodes ! u) (class_of ?leaf j)" using rk(3) c0 by metis
    from leaves_spec [OF inv nodes(2) l rk(2) this eb, of expired t]
    consider "leaf_loop c levels expired t (enumerate 0 ranked) = Some (Inl DeadlineExceeded)" "Ex expired"
      | xs where "leaf_loop c levels expired t (enumerate 0 ranked) = Some (Inr xs)" "length xs = ?k" "\<forall>x \<in> set (map snd xs). co_level x = 0"
        "map (\<lambda>x. mset (map cm_name (co_members x))) (map snd xs) = map (\<lambda>j. mset (map (\<lambda>u. cname c (nodes ! u)) (class_of ?leaf j))) [0..<?k]"
        "map co_concepts (map snd xs) = map (\<lambda>j. length (class_of ?leaf j)) [0..<?k]" by (elim disjE exE conjE) blast+
    then show ?thesis
    proof cases
      case 1
      then show ?thesis using l(2) per(1) members 2(1) rk(1) by (simp add: assemble_def)
    next
      case (2 xs)
      have "length (map fst xs) = count_of (levels ! (1 - 1))" "1 \<le> length levels" using 2(2) l(2) by (simp_all add: Suc_le_eq)
      from parent_levels_spec [OF l(1) per(2,3) _ this(2,1), of "map snd xs"] obtain fps new where
        p: "foldM (parent_level levels per) (map fst xs, map snd xs) [1..<length levels] = Some (fps, map snd xs @ new)" "\<forall>x \<in> set new. 1 \<le> co_level x \<and> co_level x < length levels"
          "\<forall>i. 1 \<le> i \<and> i < length levels \<longrightarrow> sum_list (map co_concepts (filter (\<lambda>x. co_level x = i) new)) = ?n" by auto
      have f: "filter (\<lambda>x. co_level x = 0) (map snd xs @ new) = map snd xs" "0 < i \<Longrightarrow> filter (\<lambda>x. co_level x = i) (map snd xs) = []" for i
        using 2(3) p(2) by (auto intro!: filter_True filter_False)
      have "assembled c nodes levels (map snd xs @ new)" unfolding assembled_def f(1) using 2(4,5) p(3) f(2) by simp
      moreover have "assemble c nodes levels expired tick = Some (Inr (map snd xs @ new))"
        using l(2) per(1) members \<open>induced_scan nodes ?leaf expired tick (replicate ?k []) (enumerate 0 (edges c)) = Some (Inr (t, ind))\<close> rk(1) 2(1) p(1) by (simp add: assemble_def)
      ultimately show ?thesis by blast
    qed
  qed
qed

section \<open>What an analysis promises\<close>

text \<open>Two concepts are bound by a live fact between them whose weights do not cancel.\<close>

definition bond :: "kb \<Rightarrow> rstr rel" where
  "bond k = {(x, y). \<exists>f \<in> set (kb_facts k). 0 < fa_count f \<and> fa_subject f \<noteq> fa_object f \<and> \<not> f64_eq (f64_abs (fa_sum f)) f64_zero \<and>
     {x, y} = {fa_subject f, fa_object f}}"

definition leaf_names :: "community_analysis \<Rightarrow> rstr list list" where
  "leaf_names an = map (\<lambda>x. map cm_name (co_members x)) (filter (\<lambda>x. co_level x = 0) (cy_communities an))"

text \<open>
  The leaves partition the bound concepts, no leaf is empty, the members of a leaf are connected by bonds
  among themselves, and every level counts every bound concept once.
\<close>

definition analysis_ok :: "kb \<Rightarrow> community_analysis \<Rightarrow> bool" where
  "analysis_ok k an \<longleftrightarrow>
     distinct (concat (leaf_names an)) \<and> set (concat (leaf_names an)) = Domain (bond k) \<and> [] \<notin> set (leaf_names an) \<and>
     (\<forall>M \<in> set (leaf_names an). \<forall>x \<in> set M. \<forall>y \<in> set M. (x, y) \<in> (bond k \<inter> set M \<times> set M)\<^sup>*) \<and>
     cy_concepts an = card (Domain (bond k)) \<and>
     (\<forall>i < cy_levels an. sum_list (map co_concepts (filter (\<lambda>x. co_level x = i) (cy_communities an))) = cy_concepts an)"

lemma classes_all:
  assumes "\<forall>u \<in> set xs. f u < n" shows "mset (concat (map (\<lambda>j. filter (\<lambda>u. f u = j) xs) [0..<n])) = mset (xs :: nat list)"
proof -
  have "mset (concat (map (\<lambda>j. filter (\<lambda>u. f u = j) xs) [0..<k])) = mset (filter (\<lambda>u. f u < k) xs)" for k
  proof (induction k)
    case (Suc k)
    have "mset (filter (\<lambda>u. f u < Suc k) xs) = mset (filter (\<lambda>u. f u < k) xs) + mset (filter (\<lambda>u. f u = k) xs)"
      by (induction xs) (auto simp: less_Suc_eq)
    then show ?case using Suc by simp
  qed simp
  from this [of n] show ?thesis using assms by (simp add: filter_True)
qed

lemma bond_edges:
  assumes inv: "ctx_inv U c" and k: "k = kb_of c"
  shows "(x, y) \<in> bond k \<longleftrightarrow> (\<exists>r \<in> set (edges c). binds r \<and> {x, y} = {cname c (ed_subject r), cname c (ed_object r)})"
proof -
  have F: "set (kb_facts k) = fact_of c ` {..<length (edges c)}" by (auto simp: k kb_of_def facts_def)
  have E: "set (edges c) = (!) (edges c) ` {..<length (edges c)}" by (auto simp: set_conv_nth)
  have "fa_subject (fact_of c e) \<noteq> fa_object (fact_of c e) \<longleftrightarrow> ed_subject (edges c ! e) \<noteq> ed_object (edges c ! e)" if "e < length (edges c)" for e
    using edge_bounds [OF ctx_invD(5) [OF inv] that] cname_eq_iff [OF inv] by (simp add: fact_names)
  moreover have "fa_sum (fact_of c e) = ed_sum (edges c ! e)" for e by (simp add: fact_of_def fact_with_def)
  ultimately show ?thesis unfolding bond_def F E by (auto simp: binds_def fact_names)
qed

lemma bound_concepts:
  assumes inv: "ctx_inv U c" and k: "k = kb_of c" and g: "leaf_ok c nodes g"
  shows "Domain (bond k) = cname c ` set nodes" "\<forall>x \<in> set nodes. x < length (concepts c)" "distinct (map (cname c) nodes)"
proof -
  have s: "set nodes = \<Union> ((\<lambda>r. {ed_subject r, ed_object r}) ` {r \<in> set (edges c). binds r})" "distinct nodes" using g by (simp_all add: leaf_ok_def)
  show "Domain (bond k) = cname c ` set nodes"
  proof (intro equalityI subsetI)
    fix x assume "x \<in> Domain (bond k)"
    then obtain y r where "r \<in> set (edges c)" "binds r" "{x, y} = {cname c (ed_subject r), cname c (ed_object r)}" using bond_edges [OF inv k] by blast
    then show "x \<in> cname c ` set nodes" unfolding s(1) by blast
  next
    fix x assume "x \<in> cname c ` set nodes"
    then obtain r where r: "r \<in> set (edges c)" "binds r" "x = cname c (ed_subject r) \<or> x = cname c (ed_object r)" unfolding s(1) by auto
    then have "\<exists>y. {x, y} = {cname c (ed_subject r), cname c (ed_object r)}" by (metis insert_commute)
    then show "x \<in> Domain (bond k)" using r bond_edges [OF inv k] by blast
  qed
  show b: "\<forall>x \<in> set nodes. x < length (concepts c)"
    unfolding s(1) using edge_bounds [OF ctx_invD(5) [OF inv]] by (auto simp: in_set_conv_nth)
  show "distinct (map (cname c) nodes)" using s(2) b cname_eq_iff [OF inv] by (auto simp: distinct_map inj_on_def)
qed

lemma class_connected:
  assumes inv: "ctx_inv U c" and k: "k = kb_of c" and g: "leaf_ok c nodes g" and a: "level_partition g a m"
    and uv: "u \<in> set (class_of a j)" "v \<in> set (class_of a j)"
  shows "(cname c (nodes ! u), cname c (nodes ! v)) \<in> (bond k \<inter> (\<lambda>u. cname c (nodes ! u)) ` set (class_of a j) \<times> (\<lambda>u. cname c (nodes ! u)) ` set (class_of a j))\<^sup>*"
    (is "_ \<in> ?R\<^sup>*")
proof -
  have n: "length a = length nodes" "wg_len g = length nodes" "links g \<subseteq> {..<length nodes} \<times> {..<length nodes}"
    using g a by (auto simp: leaf_ok_def level_partition_def wg_ok_def)
  have joins: "\<forall>(i, j) \<in> links g. \<exists>r \<in> set (edges c). binds r \<and> {nodes ! i, nodes ! j} = {ed_subject r, ed_object r}" using g unfolding leaf_ok_def by (elim conjE)
  have cl: "w \<in> set (class_of a j) \<longleftrightarrow> w < length nodes \<and> a ! w = j" for w using n(1) by (auto simp: class_of_def)
  have "(u, v) \<in> (inside a (links g))\<^sup>*" using a uv n cl unfolding level_partition_def by simp
  then have "(cname c (nodes ! u), cname c (nodes ! v)) \<in> ?R\<^sup>* \<and> v \<in> set (class_of a j)"
  proof (induction rule: rtrancl_induct)
    case base
    then show ?case using uv(1) by simp
  next
    case (step p q)
    have l: "(p, q) \<in> links g" "a ! p = a ! q" using step.hyps(2) by (auto simp: inside_def)
    have p: "p \<in> set (class_of a j)" using step.IH by (rule conjunct2)
    moreover have "q < length nodes" using l(1) n(3) by blast
    ultimately have q: "q \<in> set (class_of a j)" using l(2) unfolding cl by simp
    note pq = p q
    obtain r where r: "r \<in> set (edges c)" "binds r" "{nodes ! p, nodes ! q} = {ed_subject r, ed_object r}"
      using bspec [OF joins l(1)] unfolding prod.case by (elim bexE conjE) (rule that)
    have "{cname c (nodes ! p), cname c (nodes ! q)} = {cname c (ed_subject r), cname c (ed_object r)}" using arg_cong [OF r(3), of "(`) (cname c)"] by simp
    then have "(cname c (nodes ! p), cname c (nodes ! q)) \<in> bond k" using bond_edges [OF inv k] r(1,2) by blast
    then have "(cname c (nodes ! p), cname c (nodes ! q)) \<in> ?R" using pq by blast
    then show ?case using step.IH pq(2) by (meson rtrancl.rtrancl_into_rtrancl)
  qed
  then show ?thesis by blast
qed

lemma analysis_of:
  assumes inv: "ctx_inv U c" and k: "k = kb_of c" and g: "leaf_ok c nodes g" and l: "ladder_ok (length nodes) levels" "levels \<noteq> []"
    and p: "level_partition g (levels ! 0) m" and cs: "assembled c nodes levels cs"
    and an: "cy_communities an = cs" "cy_concepts an = length nodes" "cy_levels an = length levels"
  shows "analysis_ok k an"
proof -
  let ?a = "levels ! 0" and ?K = "count_of (levels ! 0)" and ?cn = "\<lambda>u. cname c (nodes ! u)"
  note B = bound_concepts [OF inv k g]
  have a: "set ?a = {..<?K}" "length ?a = length nodes" using ladder_nth [OF l(1), of 0] l(2) by simp_all
  have cl: "mset (concat (map (class_of ?a) [0..<?K])) = mset [0..<length nodes]"
    using classes_all [of "[0..<length nodes]" "\<lambda>u. ?a ! u" ?K] a nth_mem [of _ ?a] by (auto simp: class_of_def [abs_def])
  have names: "map mset (leaf_names an) = map (\<lambda>j. mset (map ?cn (class_of ?a j))) [0..<?K]"
    using cs unfolding assembled_def by (simp add: leaf_names_def an(1) comp_def)
  have "mset (concat (leaf_names an)) = sum_list (map mset (leaf_names an))" by (simp add: mset_concat)
  also have "\<dots> = mset (concat (map (\<lambda>j. map ?cn (class_of ?a j)) [0..<?K]))" unfolding names by (simp add: mset_concat comp_def)
  also have "concat (map (\<lambda>j. map ?cn (class_of ?a j)) [0..<?K]) = map ?cn (concat (map (class_of ?a) [0..<?K]))" by (simp add: map_concat comp_def)
  also have "mset (map ?cn (concat (map (class_of ?a) [0..<?K]))) = mset (map ?cn [0..<length nodes])" unfolding mset_map cl by simp
  also have "map ?cn [0..<length nodes] = map (cname c) nodes" by (metis map_nth map_map comp_apply map_cong)
  finally have M: "mset (concat (leaf_names an)) = mset (map (cname c) nodes)" .
  have at: "mset (leaf_names an ! j) = mset (map ?cn (class_of ?a j))" "leaf_names an ! j \<in> set (leaf_names an)" if "j < ?K" for j
    using arg_cong [OF names, of "\<lambda>xs. xs ! j"] arg_cong [OF names, of length] that by simp_all
  have each: "\<exists>j < ?K. set M = ?cn ` set (class_of ?a j) \<and> M \<noteq> []" if M: "M \<in> set (leaf_names an)" for M
  proof -
    obtain j where j: "j < ?K" "M = leaf_names an ! j" using M arg_cong [OF names, of length] by (auto simp: in_set_conv_nth)
    then have e: "set M = ?cn ` set (class_of ?a j)" using at(1) [OF j(1)] by (metis mset_eq_setD set_map)
    moreover have "j \<in> set ?a" using a(1) j(1) by simp
    then have "class_of ?a j \<noteq> []" by (auto simp: class_of_def in_set_conv_nth filter_empty_conv)
    ultimately show ?thesis using j(1) by (intro exI [of _ j]) auto
  qed
  have "sum_list (map co_concepts (filter (\<lambda>x. co_level x = i) cs)) = length nodes" if "i < length levels" for i
  proof (cases i)
    case 0
    have "sum_list (map (\<lambda>j. length (class_of ?a j)) [0..<?K]) = length (concat (map (class_of ?a) [0..<?K]))" by (simp add: length_concat comp_def)
    also have "\<dots> = length nodes" using arg_cong [OF cl, of size] by simp
    finally show ?thesis using cs unfolding assembled_def 0 by simp
  next
    case (Suc q)
    then show ?thesis using cs that unfolding assembled_def by simp
  qed
  moreover have "distinct (concat (leaf_names an))" using B(3) M by (metis mset_eq_imp_distinct_iff)
  moreover have "set (concat (leaf_names an)) = Domain (bond k)" using M B(1) by (metis mset_eq_setD set_map)
  moreover have "length nodes = card (Domain (bond k))" using B(1,3) by (metis distinct_card length_map set_map)
  moreover have "(x, y) \<in> (bond k \<inter> set M \<times> set M)\<^sup>*" if "M \<in> set (leaf_names an)" "x \<in> set M" "y \<in> set M" for M x y
    using each [OF that(1)] that(2,3) class_connected [OF inv k g p] by auto
  moreover have "[] \<notin> set (leaf_names an)" using each by blast
  ultimately show ?thesis unfolding analysis_ok_def an by blast
qed

lemma analysis_empty:
  assumes inv: "ctx_inv U c" and k: "k = kb_of c" and g: "leaf_ok c [] g"
  shows "analysis_ok k \<lparr>cy_algorithm = x, cy_concepts = 0, cy_edges = 0, cy_levels = 0, cy_communities = []\<rparr>"
  using bound_concepts(1) [OF inv k g] by (simp add: analysis_ok_def leaf_names_def)

lemma ladder_levels:
  assumes g: "leaf_ok c nodes g" and l: "ladder_on g found" and levels: "levels = (if found = [] then [[0..<length nodes]] else found)"
  shows "ladder_ok (length nodes) levels" "levels \<noteq> []" "\<exists>m. level_partition g (levels ! 0) m"
proof -
  have n: "wg_len g = length nodes" using g by (simp add: leaf_ok_def)
  have "level_partition g [0..<length nodes] (length nodes)" by (auto simp: level_partition_def n)
  moreover have "ladder_ok (length nodes) [[0..<length nodes]]" by (auto intro!: exI [of _ "length nodes"])
  ultimately show "ladder_ok (length nodes) levels" "levels \<noteq> []" "\<exists>m. level_partition g (levels ! 0) m"
    using l unfolding ladder_on_def n levels by (auto simp: hd_conv_nth)
qed

lemma assemble_outcome:
  assumes inv: "ctx_inv U c" and k: "k = kb_of c" and g: "leaf_ok c nodes g" and l: "ladder_on g found"
    and levels: "levels = (if found = [] then [[0..<length nodes]] else found)"
  shows "outcome expired (analysis_ok k) (or_expired (assemble c nodes levels expired tick) (\<lambda>cs.
     Some (Inr \<lparr>cy_algorithm = x, cy_concepts = length nodes, cy_edges = y, cy_levels = length levels, cy_communities = cs\<rparr>)))"
proof (rule outcome_or_expired)
  note L = ladder_levels [OF g l levels] and b = bound_concepts(2) [OF inv k g]
  have "distinct nodes" using g by (simp add: leaf_ok_def)
  from assemble_spec [OF inv this b L(1,2), of expired tick] show "outcome expired (assembled c nodes levels) (assemble c nodes levels expired tick)"
    by (rule outcomeI)
  obtain m where m: "level_partition g (levels ! 0) m" using L(3) by blast
  fix cs assume "assembled c nodes levels cs"
  then show "outcome expired (analysis_ok k) (Some (Inr \<lparr>cy_algorithm = x, cy_concepts = length nodes, cy_edges = y, cy_levels = length levels, cy_communities = cs\<rparr>))"
    using analysis_of [OF inv k g L(1,2) m] by simp
qed

lemma communities_outcome:
  assumes inv: "ctx_inv U c" and k: "k = kb_of c"
  shows "outcome expired (analysis_ok k) (communities c expired)"
  unfolding communities_def
proof (rule outcome_or_expired)
  show "outcome expired (\<lambda>(t, nodes, g). leaf_ok c nodes g) (leaf_graph c expired)" using leaf_graph_spec [of c expired] by auto
next
  fix x :: "nat \<times> nat list \<times> work_graph" assume "case x of (t, nodes, g) \<Rightarrow> leaf_ok c nodes g"
  then obtain tick nodes g where x: "x = (tick, nodes, g)" and g: "leaf_ok c nodes g" by (cases x) auto
  have ok: "wg_ok g" using g by (simp add: leaf_ok_def)
  have climb: "outcome expired (\<lambda>(t, found). ladder_on g found) (climb MAX_LEVELS g expired tick [])"
    using climb_spec [OF ok, of expired "[]" MAX_LEVELS tick] by (simp only: append_Nil) simp
  have "outcome expired (analysis_ok k) (or_expired (climb MAX_LEVELS g expired tick []) (\<lambda>(tick1, found).
         let levels = (if found = [] then [[0..<length nodes]] else found) in
         or_expired (assemble c nodes levels expired tick1) (\<lambda>cs.
           Some (Inr \<lparr>cy_algorithm = COMMUNITY_ALGORITHM, cy_concepts = length nodes, cy_edges = sum_list (map length (wg_neighbors g)) div 2,
             cy_levels = length levels, cy_communities = cs\<rparr>))))"
  proof (rule outcome_or_expired [OF climb])
    fix y :: "nat \<times> nat list list" assume "case y of (t, found) \<Rightarrow> ladder_on g found"
    then obtain t found where y: "y = (t, found)" and l: "ladder_on g found" by (cases y) auto
    show "outcome expired (analysis_ok k) (case y of (tick1, found) \<Rightarrow>
         let levels = (if found = [] then [[0..<length nodes]] else found) in
         or_expired (assemble c nodes levels expired tick1) (\<lambda>cs.
           Some (Inr \<lparr>cy_algorithm = COMMUNITY_ALGORITHM, cy_concepts = length nodes, cy_edges = sum_list (map length (wg_neighbors g)) div 2,
             cy_levels = length levels, cy_communities = cs\<rparr>)))"
      unfolding y prod.case Let_def by (rule assemble_outcome [OF inv k g l refl])
  qed
  moreover have "nodes = [] \<Longrightarrow> analysis_ok k \<lparr>cy_algorithm = COMMUNITY_ALGORITHM, cy_concepts = 0, cy_edges = 0, cy_levels = 0, cy_communities = []\<rparr>"
    using analysis_empty [OF inv k] g by simp
  ultimately show "outcome expired (analysis_ok k) (case x of (tick, nodes, g) \<Rightarrow>
       if nodes = [] then Some (Inr \<lparr>cy_algorithm = COMMUNITY_ALGORITHM, cy_concepts = 0, cy_edges = 0, cy_levels = 0, cy_communities = []\<rparr>)
       else or_expired (climb MAX_LEVELS g expired tick []) (\<lambda>(tick1, found).
         let levels = (if found = [] then [[0..<length nodes]] else found) in
         or_expired (assemble c nodes levels expired tick1) (\<lambda>cs.
           Some (Inr \<lparr>cy_algorithm = COMMUNITY_ALGORITHM, cy_concepts = length nodes, cy_edges = sum_list (map length (wg_neighbors g)) div 2,
             cy_levels = length levels, cy_communities = cs\<rparr>))))"
    unfolding x prod.case by (cases "nodes = []") (simp_all only: if_True if_False outcome_simps simp_thms)
qed

section \<open>Property\<close>

text \<open>
  C40. The community analysis. A result puts every concept that a live, uncancelled fact ties to another
  concept in exactly one leaf community, and no others; no leaf is empty, its members are connected by such
  facts inside it, and the communities of every level count these concepts once each. The deadline error comes
  only when some poll found the deadline passed, and only a deadline that never closes can keep the analysis from
  returning: no input makes it panic.
\<close>
theorem communities_correct:
  assumes inv: "ctx_inv U c" and k: "k = kb_of c"
  shows "case communities c expired of
      None \<Rightarrow> \<not> (\<exists>N. \<forall>i \<ge> N. expired i)
    | Some (Inl DeadlineExceeded) \<Rightarrow> Ex expired
    | Some (Inr an) \<Rightarrow> analysis_ok k an"
  using communities_outcome [OF assms, of expired] by (auto simp: outcome_def split: option.splits sum.splits deadline_exceeded.splits)

theorem communities_correct_witness:
  "\<exists>r. communities demo_ctx (\<lambda>i. 5000 \<le> i) = Some r \<and> (case r of Inl DeadlineExceeded \<Rightarrow> True | Inr an \<Rightarrow> analysis_ok (kb_of demo_ctx) an)"
proof -
  have "\<exists>N. \<forall>i \<ge> N. (5000 :: nat) \<le> i" by blast
  then show ?thesis using communities_correct [OF demo_ctx(1) refl, of "\<lambda>i. 5000 \<le> i"]
    by (auto split: option.splits sum.splits deadline_exceeded.splits)
qed

end
