(* ===== verification/Spec2Isabelle.thy ===== *)
theory Spec2Isabelle
  imports Outline Paths Activate Twins Stats Server Breaker Paragraph Communities
begin

text \<open>
  \<^bold>\<open>A verification of taguru's knowledge store.\<close> Taguru keeps named \<^emph>\<open>contexts\<close>: graphs of
  associations (subject, label, object) with weights, assertion counts and the sources that attest
  them. This development models the store itself (\<^verbatim>\<open>src/context.rs\<close>, \<^verbatim>\<open>src/context/\<close>), the
  checksums and the log under it (\<^verbatim>\<open>src/crc32c.rs\<close>, \<^verbatim>\<open>src/hash.rs\<close>, \<^verbatim>\<open>src/wal.rs\<close>), the entry the
  server keeps for one context (\<^verbatim>\<open>src/registry.rs\<close>, \<^verbatim>\<open>src/registry/\<close>), and the circuit breaker in
  front of the optional providers (\<^verbatim>\<open>src/breaker.rs\<close>). Paths here are relative to the crate.

  \<^bold>\<open>How the parts fit.\<close> A request reaches \<open>logged_write\<close> of the entry, which loads the context if
  it is cold (the image, then the log on top of it), appends the operations to the log, applies
  them to the context in memory, and records them in the change feed. A flush publishes an image of
  the context in two halves, and cuts the log when nothing was written in between; an eviction drops
  the context from memory. Inside a context an assertion interns its names, appends records to flat
  tables and threads them into chains; the reads walk those chains through a lens and compute
  recall, queries, explorations, paths, activations, audits and resolution from them.

  \<^bold>\<open>Conventions.\<close>
  \<^item> A \<open>String\<close> is its UTF-8 bytes (\<open>rstr\<close>), a byte is an \<open>8 word\<close>, a \<open>f64\<close> its 64-bit pattern with
    IEEE arithmetic computed on integers (\<open>Float64\<close>). Other integers are naturals, and the width
    is written out where the code casts, wraps, saturates or checks (\<open>u64_add\<close>, \<open>usize_dec\<close>, \<open>ids_left\<close>).
  \<^item> A panic is \<^term>\<open>None\<close>; an \<open>Err\<close> is \<^term>\<open>Inl\<close>. An operation that can do both returns
    \<open>('e + 'a) option\<close>, so that the absence of panics is something to prove.
  \<^item> State is passed explicitly. Shared locks are not modelled: each definition is one critical
    section of the code, and where an operation takes the lock twice (a flush) it is two definitions
    with other steps allowed in between.
  \<^item> What the disk, the clock and a deadline answer is an argument of the operation that asks.

  \<^bold>\<open>Theories.\<close>
  \<^item> Foundations: \<open>Prelude\<close> (machine integers, byte strings, ordered association lists, monadic
    folds), \<open>Float64\<close> and \<open>Float_Order\<close> (binary64 arithmetic, its order, monotone rounding), \<open>Utf8\<close>
    (the decoder and encoder of the standard library), \<open>Numerals\<close> (decimal and hexadecimal text).
  \<^item> Storage: \<open>Context_Base\<close> (ids, capacity tests, saturating sums, \<open>normalize\<close>), \<open>Entry_Index\<close>
    (spellings and bigram postings), \<open>Storage\<close> (the record \<open>ctx\<close> with its nine tables and
    derived indexes), \<open>Chains\<close>, \<open>Context_Invariant\<close> (the representation invariant \<open>ctx_inv\<close>, split by
    concern), \<open>Interning\<close>.
  \<^item> Writing: \<open>Write\<close> (\<open>ensure_room\<close>, \<open>upsert\<close>), \<open>Facts\<close> (a context as a
    list of facts), \<open>Upsert\<close> (the abstraction \<open>kb_of\<close>: the facts and the name tables), \<open>Sources\<close> (retraction, the unsourced audit),
    \<open>Alias\<close>, \<open>Compaction\<close>.
  \<^item> Reading: \<open>Window\<close> (the lenses), \<open>Query\<close>, \<open>Outline\<close>, \<open>Walk\<close> and \<open>Explore\<close>, \<open>Reach\<close>, \<open>Paths\<close>,
    \<open>Activation\<close> and \<open>Activate\<close>, \<open>Stats\<close>, \<open>Gloss\<close>, \<open>Resolve\<close>, \<open>Twins\<close>, \<open>Consolidation\<close>,
    \<open>Community\<close> (Louvain levels, the split into connected components, aggregation) and \<open>Communities\<close> (the
    analysis assembled from them).
  \<^item> Persistence: \<open>Checksum\<close>, \<open>Codec\<close> (the reader and the record codecs), \<open>Image_Format\<close> (every
    version of the image), \<open>Image_Rebuild\<close>, \<open>Image_Roundtrip\<close>, \<open>Widths\<close>, \<open>Wal\<close>, \<open>Wal_Replay\<close>.
  \<^item> Server: \<open>Lifecycle\<close> (every operation of a context as a step), \<open>Changes\<close> (the change feed),
    \<open>Registry\<close> (the record \<open>entry\<close> and its operations), \<open>Durability\<close> and \<open>Server\<close> (runs of an entry
    with failures and crashes), \<open>Breaker\<close>, \<open>Paragraph\<close> (the paragraphs of a passage).

  \<^bold>\<open>Interfaces.\<close> Where several operations share a contract it is a locale, interpreted on the model's
  own definitions: \<open>chain_field\<close> (the three edge chains), \<open>interner\<close> (three namespaces), \<open>alias_side\<close>
  and \<open>named_side\<close> (concept and label aliases), \<open>alias_carrier\<close> (their transfer by compaction),
  \<open>edge_lens\<close> and \<open>weighted_lens\<close> (the full and the windowed view), \<open>byte_fold\<close> (CRC and FNV),
  \<open>record_codec\<close> (nine record types), \<open>logged_operation\<close> (batches and retractions through the log).

  \<^bold>\<open>What is shown.\<close>
  \<^item> Writes refine the fact list. \<open>upsert\<close>, \<open>retract_source\<close>, \<open>retract_association\<close>, alias registration
    and removal and \<open>compacted\<close> keep \<open>ctx_inv\<close> and act on \<open>kb_of\<close> as their specifications say;
    the pre-flight of a write is exact, so that a refusal changes nothing and an admitted write
    never panics. Over any sequence of operations the invariant holds and no operation panics
    (\<open>Lifecycle\<close>).
  \<^item> Reads equal scans. \<open>recall\<close>, \<open>query_any\<close>, the outlines, the glosses, the most connected concepts,
    resolution and the twin sweep are equal to reference definitions over the facts or spellings with
    no index. \<open>explore\<close> reports least distances and valid paths, \<open>paths\<close> the simple trails, \<open>activate\<close> a field
    closed under conduction, the coverage audit the complement of what is reachable. Merge evidence,
    contradictions and sign conflicts are functions of the facts and names, fingerprints included. The leaf
    communities partition the bound concepts into connected sets, whatever the moves of the floating-point
    heuristic were. The paragraphs of a text are its maximal runs of non-blank lines.
  \<^item> Persistence. The table-driven CRC is the polynomial division; an image loads to the same knowledge
    base. One altered byte of an image is detected, but for a version number turned into one of the formats
    1 to 4; one altered byte of a log line is detected in the record and in the digits of its checksum, and
    nothing is claimed of the name of the checksum field and the closing brace. Replaying a log that a crash
    cut short gives exactly the records whose line is complete; replay reproduces the live batch.
  \<^item> Server. After every run with failures and crashes the two files read back give what was
    acknowledged; a deleted entry is left alone by every operation; the change feed serves exactly the
    events after a cursor or says that it cannot; the breaker opens at its threshold, ignores
    reclaimed probes and recovers.

  \<^bold>\<open>Fuel.\<close> A chain walk (\<open>walk\<close>, \<open>find_attribution\<close>, \<open>unlink_chain\<close>) gets one step per record of its
  table: a longer one has met a record twice and would never end, and under \<open>ctx_inv\<close> none does. A
  breadth-first loop gets one step per concept and one to stop, because a concept enters the frontier
  once. The enumeration of paths and the spread are total functions: the
  first is measured by the edge budget the code carries and its stack, the second by the concepts not yet
  settled and its heap. The theorems state that the operations return, so running
  out of fuel is excluded and not assumed away. The moves of one Louvain level are the exception: rounded gains
  need not increase a potential, so the loop is a partial function, and it is shown to return under every
  deadline that closes at some poll.

  \<^bold>\<open>Parameters and hypotheses.\<close> \<open>unicode\<close> holds the case mapping and NFKC tables; resolution and the
  twin sweep assume that they give Unicode scalar values (\<open>unicode_scalars\<close>), and nothing else is assumed of
  them. \<open>codec\<close> is \<^verbatim>\<open>serde_json\<close> on log records: \<open>codec_ok\<close> says, of the operations JSON can hold (no
  weight that is not finite), that an encoded record is one line ending in a brace, decodes to its operation, and
  that no strict prefix of it decodes; the decoding may round weights (\<open>rt\<close>), and the durability theorems are
  about operations it gives back unchanged. \<open>reads_checksum\<close> says that the checksum read off a line is the one
  spelled at its end. The selection routine
  of the standard library keeps its documented contract (\<open>Stats\<close>). A run of \<open>serve\<close> has its log enabled;
  a load in it finds the disk readable, a reset of the log that cuts the file also syncs it, and an
  append that could be neither completed nor rolled back is followed by the recovery flush. What happens without
  these is in the model of the operations and among the recorded findings.

  \<^bold>\<open>Not modelled.\<close> In the server: the passages, embeddings and schema sidecar of an entry, compaction in
  place, the cache budget, the process-wide table with its boot scan, file names, groups, answer caches,
  rate limits and background tasks. Outside it: passage ranking and search lanes (floating-point scoring around
  an embedding provider), HTTP, MCP and authentication (request plumbing and cryptographic libraries),
  routing and replication (network and object stores), extraction and ingest (language models), evaluation
  and benchmarks, the commands of communities and of consolidation and the join of the latter with dates, source-code indexing (generated parsers),
  metrics, the command line, and SHA-256. Of the context, the texts of error messages and the footprint
  estimates, which depend on the layout the compiler chooses.
\<close>

end
